(* ===== verification/Prelude.thy ===== *)
theory Prelude
  imports Complex_Main "HOL-Library.Word" "HOL-Library.Multiset"
begin

text \<open>
  Shared vocabulary of the development: machine words, the outcome of code that may abort
  (\<open>CHECK\<close>, \<open>LOG(FATAL)\<close>, an access outside an array), little-endian byte encodings of
  integers, and the facts on lists that several components use.
\<close>

unbundle bit_operations_syntax

section \<open>Machine types\<close>

type_synonym byte = "8 word"
type_synonym u16 = "16 word"
type_synonym u32 = "32 word"
type_synonym u64 = "64 word"

named_theorems codec \<open>length and round-trip laws of the byte encodings\<close>
named_theorems outcome \<open>rules that run code which may abort\<close>

section \<open>Outcomes\<close>

text \<open>
  \<open>CHECK_xx\<close> and \<open>LOG(FATAL)\<close> end the process; an index outside an array is undefined
  behaviour in the source. All three are values here.
\<close>

datatype err = CheckFailed string | Fatal string | OutOfBounds

datatype 'a res = Ok 'a | Err err

fun rbind :: "'a res \<Rightarrow> ('a \<Rightarrow> 'b res) \<Rightarrow> 'b res" where
  "rbind (Ok x) f = f x"
| "rbind (Err e) f = Err e"

definition check :: "bool \<Rightarrow> string \<Rightarrow> 'a res \<Rightarrow> 'a res" where
  "check b msg k = (if b then k else Err (CheckFailed msg))"

fun rmap :: "('a \<Rightarrow> 'b) \<Rightarrow> 'a res \<Rightarrow> 'b res" where
  "rmap f (Ok x) = Ok (f x)"
| "rmap f (Err e) = Err e"

fun is_ok :: "'a res \<Rightarrow> bool" where
  "is_ok (Ok x) = True"
| "is_ok (Err e) = False"

text \<open>Array read with the bounds written out.\<close>

definition nth_res :: "'a list \<Rightarrow> nat \<Rightarrow> 'a res" where
  "nth_res xs i = (if i < length xs then Ok (xs ! i) else Err OutOfBounds)"

lemma check_True [simp, outcome]: "b \<Longrightarrow> check b msg k = k"
  by (simp add: check_def)

lemma check_False [simp, outcome]: "\<not> b \<Longrightarrow> check b msg k = Err (CheckFailed msg)"
  by (simp add: check_def)

lemma check_Ok_iff [outcome]: "check b msg k = Ok y \<longleftrightarrow> b \<and> k = Ok y"
  by (simp add: check_def)

lemma rbind_Ok_iff [outcome]: "rbind m f = Ok y \<longleftrightarrow> (\<exists>x. m = Ok x \<and> f x = Ok y)"
  by (cases m) auto

lemma rbind_assoc: "rbind (rbind x f) g = rbind x (\<lambda>y. rbind (f y) g)"
  by (cases x) simp_all

lemma rmap_Ok_iff [outcome]: "rmap f m = Ok y \<longleftrightarrow> (\<exists>x. m = Ok x \<and> y = f x)"
  by (cases m) auto

lemma nth_res_Ok_iff [outcome]: "nth_res xs i = Ok y \<longleftrightarrow> i < length xs \<and> xs ! i = y"
  by (simp add: nth_res_def)

lemma nth_res_in [simp]: "i < length xs \<Longrightarrow> nth_res xs i = Ok (xs ! i)"
  by (simp add: nth_res_def)

lemma is_ok_iff: "is_ok m \<longleftrightarrow> (\<exists>x. m = Ok x)"
  by (cases m) auto

text \<open>A loop over an array in which every element may abort.\<close>

fun mapM_res :: "('a \<Rightarrow> 'b res) \<Rightarrow> 'a list \<Rightarrow> 'b list res" where
  "mapM_res f [] = Ok []"
| "mapM_res f (x # xs) = rbind (f x) (\<lambda>y. rbind (mapM_res f xs) (\<lambda>ys. Ok (y # ys)))"

lemma mapM_res_Ok: "(\<And>x. x \<in> set xs \<Longrightarrow> f x = Ok (g x)) \<Longrightarrow> mapM_res f xs = Ok (map g xs)"
  by (induction xs) auto

lemma mapM_res_map: "mapM_res f (map h xs) = mapM_res (\<lambda>x. f (h x)) xs"
  by (induction xs) auto

lemma mapM_res_zip: "mapM_res f (zip (map g (zip xs ys)) ys) = mapM_res (\<lambda>x. f (g x, snd x)) (zip xs ys)"
  by (induction xs ys rule: list_induct2') auto

section \<open>Little-endian encodings\<close>

lemma unat_bound: "unat (w :: 'a::len word) < 2 ^ LENGTH('a)"
  by (rule unsigned_less)

fun nat_le :: "nat \<Rightarrow> nat \<Rightarrow> byte list" where
  "nat_le 0 x = []"
| "nat_le (Suc n) x = word_of_nat (x mod 256) # nat_le n (x div 256)"

fun le_nat :: "byte list \<Rightarrow> nat" where
  "le_nat [] = 0"
| "le_nat (b # bs) = unat b + 256 * le_nat bs"

lemma length_nat_le [simp, codec]: "length (nat_le n x) = n"
  by (induction n arbitrary: x) auto

lemma le_nat_nat_le [codec]: "le_nat (nat_le n x) = x mod 256 ^ n"
proof (induction n arbitrary: x)
  case 0
  show ?case by simp
next
  case (Suc n)
  have "unat (word_of_nat (x mod 256) :: byte) = x mod 256"
    by (simp add: unat_of_nat)
  with Suc show ?case by (simp add: mod_mult2_eq)
qed

lemma le_nat_bound: "le_nat bs < 256 ^ length bs"
proof (induction bs)
  case Nil
  show ?case by simp
next
  case (Cons b bs)
  have "unat b < 256" using unat_bound [of b] by simp
  with Cons show ?case by simp
qed

lemma nat_le_le_nat: "nat_le (length bs) (le_nat bs) = bs"
proof (induction bs)
  case Nil
  show ?case by simp
next
  case (Cons b bs)
  have "unat b < 256" using unat_bound [of b] by simp
  with Cons show ?case by simp
qed

definition enc16 :: "u16 \<Rightarrow> byte list" where
  "enc16 w = nat_le 2 (unat w)"

definition enc32 :: "u32 \<Rightarrow> byte list" where
  "enc32 w = nat_le 4 (unat w)"

definition dec32 :: "byte list \<Rightarrow> u32" where
  "dec32 bs = word_of_nat (le_nat bs)"

definition enc64 :: "u64 \<Rightarrow> byte list" where
  "enc64 w = nat_le 8 (unat w)"

definition dec64 :: "byte list \<Rightarrow> u64" where
  "dec64 bs = word_of_nat (le_nat bs)"

lemma length_enc32 [simp, codec]: "length (enc32 w) = 4"
  by (simp add: enc32_def)

lemma length_enc64 [simp, codec]: "length (enc64 w) = 8"
  by (simp add: enc64_def)

lemma dec32_enc32 [simp, codec]: "dec32 (enc32 w) = w"
  using unat_bound [of w] by (simp add: dec32_def enc32_def le_nat_nat_le)

lemma dec64_enc64 [simp, codec]: "dec64 (enc64 w) = w"
  using unat_bound [of w] by (simp add: dec64_def enc64_def le_nat_nat_le)

lemma enc32_dec32: "length bs = 4 \<Longrightarrow> enc32 (dec32 bs) = bs"
  using le_nat_bound [of bs] nat_le_le_nat [of bs]
  by (simp add: dec32_def enc32_def unat_of_nat)

lemma enc64_dec64: "length bs = 8 \<Longrightarrow> enc64 (dec64 bs) = bs"
  using le_nat_bound [of bs] nat_le_le_nat [of bs]
  by (simp add: dec64_def enc64_def unat_of_nat)

section \<open>Rounding up\<close>

lemma le_ceil_div:
  fixes x b :: nat
  assumes "0 < b"
  shows "x \<le> (x + b - 1) div b * b"
  using assms div_mult_mod_eq [of "x + b - 1" b] mod_less_divisor [OF assms, of "x + b - 1"] by linarith

section \<open>Lists\<close>

lemma take_drop_nth_slice:
  assumes "i < n" and "k + n \<le> length xs"
  shows "take n (drop k xs) ! i = xs ! (k + i)"
  using assms by simp

lemma take_Suc_ends:
  assumes "n < length xs"
  shows "take (Suc n) xs \<noteq> []" "hd (take (Suc n) xs) = xs ! 0" "last (take (Suc n) xs) = xs ! n"
proof -
  have "xs \<noteq> []" using assms by auto
  then show "take (Suc n) xs \<noteq> []" "hd (take (Suc n) xs) = xs ! 0" by (auto simp: hd_conv_nth)
  show "last (take (Suc n) xs) = xs ! n" using assms by (simp add: take_Suc_conv_app_nth)
qed

lemma map_nth_upt_slice:
  assumes "b \<le> length xs"
  shows "map ((!) xs) [a..<b] = take (b - a) (drop a xs)"
  using assms by (intro nth_equalityI) auto

lemma sum_list_map_upt: "sum_list (map f [a..<b]) = (\<Sum>i = a..<b. f i)"
  by (simp add: interv_sum_list_conv_sum_set_nat)

lemma concat_map_slices:
  assumes "\<And>i. i < n \<Longrightarrow> off i \<le> off (Suc i)"
  shows "concat (map (\<lambda>i. [off i..<off (Suc i)]) [0..<n]) = [off 0..<off n]"
  using assms
proof (induction n)
  case 0
  show ?case by simp
next
  case (Suc n)
  have "off 0 \<le> off m" if "m \<le> n" for m
    using that
  proof (induction m)
    case (Suc m)
    then show ?case using Suc.prems \<open>\<And>i. i < Suc n \<Longrightarrow> off i \<le> off (Suc i)\<close> [of m] by simp
  qed simp
  then have "off 0 \<le> off n" by simp
  moreover have "off n \<le> off (Suc n)" using Suc.prems by simp
  ultimately have "[off 0..<off n] @ [off n..<off (Suc n)] = [off 0..<off (Suc n)]"
    by (metis le_add_diff_inverse upt_add_eq_append)
  with Suc show ?case by simp
qed

end
