(* ===== verification/RowBlock.thy ===== *)
theory RowBlock
  imports Prelude
begin

text \<open>
  Sparse row blocks: \<open>dmlc-core/include/dmlc/data.h\<close> (\<open>RowBlock\<close>, a read-only view of a CSR
  matrix with labels) and \<open>dmlc-core/src/data/row_block.h\<close> (\<open>RowBlockContainer\<close>, the growing
  store behind it). A pointer field is the list of the cells from the pointer on; a pointer
  that may be \<open>NULL\<close> is an option. \<open>size_t\<close> is \<open>nat\<close>; the index type is a word of any width;
  the cells of type \<open>real_t\<close> are a type parameter, since the blocks only move them about.
\<close>

section \<open>The view and the container\<close>

record ('i, 'f) RowBlock =
  rb_size :: nat
  rb_offset :: "nat list"
  rb_label :: "'f list"
  rb_weight :: "'f list option"
  rb_index :: "'i list"
  rb_value :: "'f list option"

record ('i, 'f) RowBlockContainer =
  rc_offset :: "nat list"
  rc_label :: "'f list"
  rc_weight :: "'f list"
  rc_index :: "'i list"
  rc_value :: "'f list"
  rc_max_index :: "'i"

text \<open>One row: \<open>data.h\<close> \<open>Row\<close>, as \<open>operator[]\<close> fills it.\<close>

record ('i, 'f) Row =
  row_label :: "'f"
  row_weight :: "'f"
  row_index :: "'i list"
  row_value :: "'f list option"

definition rbc_Clear :: "('b::len word, 'f) RowBlockContainer" where
  "rbc_Clear = \<lparr>rc_offset = [0], rc_label = [], rc_weight = [], rc_index = [],
     rc_value = [], rc_max_index = 0\<rparr>"

definition rbc_Size :: "('i, 'f) RowBlockContainer \<Rightarrow> nat" where
  "rbc_Size c = length (rc_offset c) - 1"

text \<open>
  The loop of both \<open>Push\<close> operations over the incoming indices: each is checked against
  the largest value of the container's index type, narrowed, appended, and folded into
  \<open>max_index\<close>.
\<close>

fun push_indices ::
  "'a::len word list \<Rightarrow> 'b::len word \<Rightarrow> ('b word list \<times> 'b word) res" where
  "push_indices [] m = Ok ([], m)"
| "push_indices (x # xs) m =
     check (unat x \<le> 2 ^ LENGTH('b) - 1) ''index exceed numeric bound of current type''
       (rbind (push_indices xs (max m (ucast x))) (\<lambda>(ys, m'). Ok (ucast x # ys, m')))"

definition rbc_Push_row ::
  "('a::len word, 'f) Row \<Rightarrow> ('b::len word, 'f) RowBlockContainer \<Rightarrow>
   ('b word, 'f) RowBlockContainer res" where
  "rbc_Push_row row c =
     rbind (push_indices (row_index row) (rc_max_index c)) (\<lambda>(ix, m).
       Ok (c\<lparr>rc_label := rc_label c @ [row_label row],
             rc_weight := rc_weight c @ [row_weight row],
             rc_index := rc_index c @ ix,
             rc_max_index := m,
             rc_value := (case row_value row of None \<Rightarrow> rc_value c | Some v \<Rightarrow> rc_value c @ v),
             rc_offset := rc_offset c @ [length (rc_index c @ ix)]\<rparr>))"

text \<open>Writing a run of cells into an array that has room for it.\<close>

definition overwrite :: "'a list \<Rightarrow> nat \<Rightarrow> 'a list \<Rightarrow> 'a list res" where
  "overwrite xs pos ys =
     (if pos + length ys \<le> length xs
      then Ok (take pos xs @ ys @ drop (pos + length ys) xs) else Err OutOfBounds)"

definition read_run :: "'a list \<Rightarrow> nat \<Rightarrow> 'a list res" where
  "read_run xs n = (if n \<le> length xs then Ok (take n xs) else Err OutOfBounds)"

text \<open>
  \<open>Push(RowBlock<I> batch)\<close>. The new indices are written at \<open>offset.back()\<close> of the resized
  index vector, and the new offsets are shifted by \<open>offset[size]\<close>, as in the source.
\<close>

definition rbc_Push_block ::
  "('a::len word, 'f) RowBlock \<Rightarrow> ('b::len word, 'f) RowBlockContainer \<Rightarrow>
   ('b word, 'f) RowBlockContainer res" where
  "rbc_Push_block batch c =
     (let size = length (rc_label c) in
      rbind (read_run (rb_label batch) (rb_size batch)) (\<lambda>lab.
      rbind (case rb_weight batch of None \<Rightarrow> Ok []
             | Some w \<Rightarrow> read_run w (rb_size batch)) (\<lambda>wei.
      rbind (nth_res (rb_offset batch) (rb_size batch)) (\<lambda>olast.
      rbind (nth_res (rb_offset batch) 0) (\<lambda>o0.
      let ndata = olast - o0 in
      rbind (read_run (rb_index batch) ndata) (\<lambda>src.
      rbind (push_indices src (rc_max_index c)) (\<lambda>(ix, m).
      rbind (overwrite (rc_index c @ replicate ndata 0) (last (rc_offset c)) ix) (\<lambda>index'.
      rbind (case rb_value batch of None \<Rightarrow> Ok [] | Some v \<Rightarrow> read_run v ndata) (\<lambda>val.
      rbind (nth_res (rc_offset c) size) (\<lambda>shift.
      rbind (overwrite (rc_offset c @ replicate (rb_size batch) 0) (size + 1)
               (map (\<lambda>i. shift + rb_offset batch ! (i + 1) - o0) [0..<rb_size batch])) (\<lambda>offset'.
      Ok (c\<lparr>rc_label := rc_label c @ lab, rc_weight := rc_weight c @ wei,
            rc_index := index', rc_max_index := m, rc_value := rc_value c @ val,
            rc_offset := offset'\<rparr>))))))))))))"

text \<open>
  \<open>GetBlock\<close>. \<open>BeginPtr\<close> of an empty vector is \<open>NULL\<close>; the view of an optional array is
  therefore \<open>None\<close> when the vector is empty.
\<close>

definition begin_ptr :: "'a list \<Rightarrow> 'a list option" where
  "begin_ptr xs = (if xs = [] then None else Some xs)"

definition rbc_GetBlock :: "('i, 'f) RowBlockContainer \<Rightarrow> ('i, 'f) RowBlock res" where
  "rbc_GetBlock c =
     check (length (rc_label c) + 1 = length (rc_offset c)) ''label.size() + 1 == offset.size()''
    (check (last (rc_offset c) = length (rc_index c)) ''offset.back() == index.size()''
    (check (last (rc_offset c) = length (rc_value c) \<or> rc_value c = []) ''offset.back() == value.size()''
      (Ok \<lparr>rb_size = length (rc_offset c) - 1, rb_offset = rc_offset c, rb_label = rc_label c,
           rb_weight = begin_ptr (rc_weight c), rb_index = rc_index c,
           rb_value = begin_ptr (rc_value c)\<rparr>)))"

text \<open>
  \<open>RowBlock::operator[]\<close>: row \<open>i\<close>, with weight 1 when there is no weight array. A row
  that reaches past the arrays is reported, since using it is undefined in the source.
\<close>

definition run_at :: "'a list \<Rightarrow> nat \<Rightarrow> nat \<Rightarrow> 'a list res" where
  "run_at xs pos n = (if pos + n \<le> length xs then Ok (take n (drop pos xs)) else Err OutOfBounds)"

definition rb_at :: "('i, 'f::one) RowBlock \<Rightarrow> nat \<Rightarrow> ('i, 'f) Row res" where
  "rb_at b i =
     check (i < rb_size b) ''rowid < size''
      (rbind (nth_res (rb_label b) i) (\<lambda>lab.
       rbind (case rb_weight b of None \<Rightarrow> Ok 1 | Some w \<Rightarrow> nth_res w i) (\<lambda>wei.
       rbind (nth_res (rb_offset b) i) (\<lambda>lo.
       rbind (nth_res (rb_offset b) (i + 1)) (\<lambda>hi.
       rbind (run_at (rb_index b) lo (hi - lo)) (\<lambda>ix.
       rbind (case rb_value b of None \<Rightarrow> Ok None
              | Some v \<Rightarrow> rmap Some (run_at v lo (hi - lo))) (\<lambda>va.
       Ok \<lparr>row_label = lab, row_weight = wei, row_index = ix, row_value = va\<rparr>)))))))"

text \<open>\<open>RowBlock::Slice\<close>: the source admits \<open>end\<close> only below \<open>size\<close>.\<close>

definition rb_Slice :: "('i, 'f) RowBlock \<Rightarrow> nat \<Rightarrow> nat \<Rightarrow> ('i, 'f) RowBlock res" where
  "rb_Slice b first end' =
     check (first \<le> end' \<and> end' < rb_size b) ''begin <= end && end < size''
      (Ok (b\<lparr>rb_size := end' - first,
             rb_label := drop first (rb_label b),
             rb_weight := map_option (drop first) (rb_weight b),
             rb_offset := drop first (rb_offset b)\<rparr>))"

text \<open>\<open>Row::get_value\<close> and \<open>Row::SDot\<close>.\<close>

definition row_get_value :: "('i, 'f::one) Row \<Rightarrow> nat \<Rightarrow> 'f" where
  "row_get_value r i = (case row_value r of None \<Rightarrow> 1 | Some v \<Rightarrow> v ! i)"

fun sdot_loop ::
  "'v list \<Rightarrow> nat \<Rightarrow> 'i::len word list \<Rightarrow> 'v::{plus,times} list option \<Rightarrow> 'v \<Rightarrow> 'v res" where
  "sdot_loop w n [] vs s = Ok s"
| "sdot_loop w n (i # is) None s =
     check (unat i < n) ''feature index exceed bound''
      (rbind (nth_res w (unat i)) (\<lambda>x. sdot_loop w n is None (s + x)))"
| "sdot_loop w n (i # is) (Some vs) s =
     check (unat i < n) ''feature index exceed bound''
      (rbind (nth_res w (unat i)) (\<lambda>x.
       rbind (nth_res vs 0) (\<lambda>v. sdot_loop w n is (Some (tl vs)) (s + x * v))))"

definition row_SDot :: "('i::len word, 'v::{plus,times,zero}) Row \<Rightarrow> 'v list \<Rightarrow> nat \<Rightarrow> 'v res" where
  "row_SDot r w n = sdot_loop w n (row_index r) (row_value r) 0"

section \<open>Well-formed blocks and their rows\<close>

definition rc_wf :: "('i, 'f) RowBlockContainer \<Rightarrow> bool" where
  "rc_wf c \<longleftrightarrow> rc_offset c \<noteq> [] \<and> hd (rc_offset c) = 0 \<and> sorted (rc_offset c) \<and>
     length (rc_label c) + 1 = length (rc_offset c) \<and>
     last (rc_offset c) = length (rc_index c) \<and>
     (rc_value c = [] \<or> length (rc_value c) = length (rc_index c))"

definition rb_wf :: "('i, 'f) RowBlock \<Rightarrow> bool" where
  "rb_wf b \<longleftrightarrow> rb_size b < length (rb_offset b) \<and>
     sorted (take (Suc (rb_size b)) (rb_offset b)) \<and>
     rb_size b \<le> length (rb_label b) \<and>
     (\<forall>w. rb_weight b = Some w \<longrightarrow> rb_size b \<le> length w) \<and>
     rb_offset b ! rb_size b - rb_offset b ! 0 \<le> length (rb_index b) \<and>
     (\<forall>v. rb_value b = Some v \<longrightarrow> rb_offset b ! rb_size b - rb_offset b ! 0 \<le> length v)"

text \<open>
  The rows a block stands for: a label and its (index, value) entries, no value meaning 1. In a view the entries
  of row \<open>i\<close> are found from \<open>index + offset[i]\<close> on, as \<open>operator[]\<close> does. Example weights are stated separately.
\<close>

definition rc_rows :: "('i, 'f) RowBlockContainer \<Rightarrow> ('f \<times> ('i \<times> 'f option) list) list" where
  "rc_rows c = map (\<lambda>i. (rc_label c ! i,
       map (\<lambda>j. (rc_index c ! j, if rc_value c = [] then None else Some (rc_value c ! j)))
         [rc_offset c ! i..<rc_offset c ! Suc i])) [0..<length (rc_label c)]"

definition rb_rows :: "('i, 'f) RowBlock \<Rightarrow> ('f \<times> ('i \<times> 'f option) list) list" where
  "rb_rows b = map (\<lambda>i. (rb_label b ! i,
       map (\<lambda>j. (rb_index b ! j, map_option (\<lambda>v. v ! j) (rb_value b)))
         [rb_offset b ! i..<rb_offset b ! Suc i])) [0..<rb_size b]"

text \<open>
  \<open>Push\<close> reads a block differently: it copies the cells from \<open>index\<close> on, so the first cell belongs
  to \<open>offset[0]\<close>. The two readings agree when the first offset is 0.
\<close>

definition copied_rows :: "('i, 'f) RowBlock \<Rightarrow> ('f \<times> ('i \<times> 'f option) list) list" where
  "copied_rows b = map (\<lambda>i. (rb_label b ! i,
       map (\<lambda>j. (rb_index b ! (j - rb_offset b ! 0),
                  map_option (\<lambda>v. v ! (j - rb_offset b ! 0)) (rb_value b)))
         [rb_offset b ! i..<rb_offset b ! Suc i])) [0..<rb_size b]"

lemma copied_rows_eq: "rb_offset b ! 0 = 0 \<Longrightarrow> copied_rows b = rb_rows b"
  by (simp add: copied_rows_def rb_rows_def)

text \<open>A block may be pushed when its indices fit and it agrees on whether values are stored.\<close>

definition pushable :: "('a::len word, 'f) RowBlock \<Rightarrow> ('b::len word, 'f) RowBlockContainer \<Rightarrow> bool" where
  "pushable b c \<longleftrightarrow> (\<forall>x\<in>set (rb_index b). unat x < 2 ^ LENGTH('b)) \<and>
     (case rb_value b of None \<Rightarrow> rc_value c = []
      | Some v \<Rightarrow> length (rc_value c) = length (rc_index c))"

lemma rc_wf_Clear [simp]: "rc_wf rbc_Clear"
  by (simp add: rc_wf_def rbc_Clear_def)

lemma rc_rows_Clear [simp]: "rc_rows rbc_Clear = []"
  by (simp add: rc_rows_def rbc_Clear_def)

lemma rc_wf_length: "rc_wf c \<Longrightarrow> length (rc_offset c) = Suc (length (rc_label c))"
  by (simp add: rc_wf_def)

lemma push_indices_fits:
  fixes m :: "'b::len word"
  assumes "\<forall>x\<in>set xs. unat x < 2 ^ LENGTH('b)"
  shows "push_indices xs m = Ok (map ucast xs, fold (\<lambda>x m. max m (ucast x)) xs m)"
  using assms by (induction xs arbitrary: m) auto

lemma overwrite_end:
  assumes "length ys = n"
  shows "overwrite (xs @ replicate n z) (length xs) ys = Ok (xs @ ys)"
  using assms by (simp add: overwrite_def)

lemma rc_wf_offset_le:
  assumes "rc_wf c" and "i \<le> length (rc_label c)"
  shows "rc_offset c ! i \<le> length (rc_index c)"
proof -
  have n: "length (rc_offset c) = Suc (length (rc_label c))" and ne: "rc_offset c \<noteq> []"
    and s: "sorted (rc_offset c)" and l: "last (rc_offset c) = length (rc_index c)"
    using assms(1) by (auto simp: rc_wf_def)
  have "rc_offset c ! i \<le> rc_offset c ! length (rc_label c)"
    using s assms(2) n by (simp add: sorted_nth_mono)
  with l n ne show ?thesis by (simp add: last_conv_nth)
qed

lemma rb_wf_mono:
  assumes "rb_wf b" and "i \<le> j" and "j \<le> rb_size b"
  shows "rb_offset b ! i \<le> rb_offset b ! j"
proof -
  have s: "sorted (take (Suc (rb_size b)) (rb_offset b))" and n: "rb_size b < length (rb_offset b)"
    using assms(1) by (auto simp: rb_wf_def)
  have "take (Suc (rb_size b)) (rb_offset b) ! i \<le> take (Suc (rb_size b)) (rb_offset b) ! j"
    using s assms(2,3) n by (intro sorted_nth_mono) auto
  with assms(2,3) show ?thesis by simp
qed

text \<open>The state after a push, in closed form.\<close>

definition pushed :: "('a::len word, 'f) RowBlock \<Rightarrow> ('b::len word, 'f) RowBlockContainer \<Rightarrow>
    ('b word, 'f) RowBlockContainer" where
  "pushed b c =
     (let o0 = rb_offset b ! 0; nd = rb_offset b ! rb_size b - o0; src = take nd (rb_index b) in
      c\<lparr>rc_label := rc_label c @ take (rb_size b) (rb_label b),
        rc_weight := rc_weight c @ (case rb_weight b of None \<Rightarrow> [] | Some w \<Rightarrow> take (rb_size b) w),
        rc_index := rc_index c @ map ucast src,
        rc_max_index := fold (\<lambda>x m. max m (ucast x)) src (rc_max_index c),
        rc_value := rc_value c @ (case rb_value b of None \<Rightarrow> [] | Some v \<Rightarrow> take nd v),
        rc_offset := rc_offset c @
          map (\<lambda>i. length (rc_index c) + rb_offset b ! (i + 1) - o0) [0..<rb_size b]\<rparr>)"

lemma rbc_Push_block_eq:
  fixes b :: "('a::len word, 'f) RowBlock" and c :: "('b::len word, 'f) RowBlockContainer"
  assumes wf: "rc_wf c" and b: "rb_wf b" and p: "pushable b c"
  shows "rbc_Push_block b c = Ok (pushed b c)"
proof -
  let ?o0 = "rb_offset b ! 0" and ?nd = "rb_offset b ! rb_size b - rb_offset b ! 0"
  have lo: "length (rc_offset c) = Suc (length (rc_label c))" and ne: "rc_offset c \<noteq> []"
    and la: "last (rc_offset c) = length (rc_index c)" using wf by (auto simp: rc_wf_def)
  have sh: "rc_offset c ! length (rc_label c) = length (rc_index c)"
    using la lo ne by (simp add: last_conv_nth)
  have bs: "rb_size b < length (rb_offset b)" "rb_size b \<le> length (rb_label b)"
    "?nd \<le> length (rb_index b)" using b by (auto simp: rb_wf_def)
  have fits: "\<forall>x\<in>set (take ?nd (rb_index b)). unat x < 2 ^ LENGTH('b)"
    using p by (auto simp: pushable_def dest: in_set_takeD)
  have w: "(case rb_weight b of None \<Rightarrow> Ok [] | Some w \<Rightarrow> read_run w (rb_size b)) =
      Ok (case rb_weight b of None \<Rightarrow> [] | Some w \<Rightarrow> take (rb_size b) w)"
    using b by (auto simp: rb_wf_def read_run_def split: option.split)
  have v: "(case rb_value b of None \<Rightarrow> Ok [] | Some v \<Rightarrow> read_run v ?nd) =
      Ok (case rb_value b of None \<Rightarrow> [] | Some v \<Rightarrow> take ?nd v)"
    using b by (auto simp: rb_wf_def read_run_def split: option.split)
  have oi: "overwrite (rc_index c @ replicate ?nd 0) (last (rc_offset c))
      (map ucast (take ?nd (rb_index b))) = Ok (rc_index c @ map ucast (take ?nd (rb_index b)))"
    unfolding la by (rule overwrite_end) (use bs in simp)
  have z: "nth_res (rb_offset b) 0 = Ok ?o0" using bs(1) by (cases "rb_offset b") (auto simp: nth_res_def)
  have oo: "overwrite (rc_offset c @ replicate (rb_size b) 0) (Suc (length (rc_label c)))
      (map g [0..<rb_size b]) = Ok (rc_offset c @ map g [0..<rb_size b])" for g
    using overwrite_end [of "map g [0..<rb_size b]" "rb_size b" "rc_offset c"] lo by simp
  show ?thesis
    unfolding rbc_Push_block_def Let_def pushed_def
    using bs lo by (simp add: read_run_def w v z push_indices_fits [OF fits] oi oo sh)
qed

lemma pushed_offset_nth:
  assumes "rc_wf c" and "i \<le> rb_size b" and "rb_wf b"
  shows "rc_offset (pushed b c) ! (length (rc_label c) + i)
       = length (rc_index c) + (rb_offset b ! i - rb_offset b ! 0)"
proof -
  have lo: "length (rc_offset c) = Suc (length (rc_label c))" and ne: "rc_offset c \<noteq> []"
    and la: "last (rc_offset c) = length (rc_index c)" using assms(1) by (auto simp: rc_wf_def)
  have le: "rb_offset b ! 0 \<le> rb_offset b ! i" using assms by (simp add: rb_wf_mono)
  show ?thesis
    using lo ne la assms(2) le
    by (cases i) (auto simp: pushed_def Let_def nth_append last_conv_nth)
qed

lemma rc_wf_pushed:
  assumes wf: "rc_wf c" and b: "rb_wf b" and p: "pushable b c"
  shows "rc_wf (pushed b c)"
proof -
  let ?k = "length (rc_index c)" and ?o0 = "rb_offset b ! 0"
  have lo: "length (rc_offset c) = Suc (length (rc_label c))" and ne: "rc_offset c \<noteq> []"
    and hd0: "hd (rc_offset c) = 0" and so: "sorted (rc_offset c)"
    and la: "last (rc_offset c) = ?k" using wf by (auto simp: rc_wf_def)
  have bs: "rb_size b \<le> length (rb_label b)"
    "rb_offset b ! rb_size b - ?o0 \<le> length (rb_index b)" using b by (auto simp: rb_wf_def)
  have mono: "?k + rb_offset b ! (i + 1) - ?o0 \<le> ?k + rb_offset b ! (j + 1) - ?o0"
    if "i \<le> j" "j < rb_size b" for i j
    using rb_wf_mono [OF b, of "i + 1" "j + 1"] that by simp
  have "sorted (map (\<lambda>i. ?k + rb_offset b ! (i + 1) - ?o0) [0..<rb_size b])"
    using mono by (auto simp: sorted_iff_nth_mono)
  moreover have "x \<le> y" if x: "x \<in> set (rc_offset c)" and
      y: "y \<in> set (map (\<lambda>i. ?k + rb_offset b ! (i + 1) - ?o0) [0..<rb_size b])" for x y
  proof -
    obtain i where "i < rb_size b" "y = ?k + rb_offset b ! (i + 1) - ?o0" using y by auto
    then have "?k \<le> y" using rb_wf_mono [OF b, of 0 "i + 1"] by simp
    moreover have "x \<le> ?k" using x rc_wf_offset_le [OF wf] lo by (auto simp: in_set_conv_nth less_Suc_eq_le)
    ultimately show ?thesis by simp
  qed
  ultimately have s: "sorted (rc_offset (pushed b c))"
    using so by (auto simp: pushed_def Let_def sorted_append)
  have last: "last (rc_offset (pushed b c)) = ?k + (rb_offset b ! rb_size b - ?o0)"
    using la rb_wf_mono [OF b, of 0 "rb_size b"] ne
    by (cases "rb_size b") (auto simp: pushed_def Let_def)
  have v: "rc_value (pushed b c) = [] \<or> length (rc_value (pushed b c)) = length (rc_index (pushed b c))"
    using p b by (auto simp: pushed_def Let_def pushable_def rb_wf_def split: option.splits)
  show ?thesis
    unfolding rc_wf_def using s last v lo ne hd0 bs
    by (auto simp: pushed_def Let_def hd_append)
qed

lemma map_nth_shift:
  assumes "\<And>k. k < hi - lo \<Longrightarrow> f (a + (lo - z) + k) = g (lo + k)" and "z \<le> lo" and "lo \<le> hi"
  shows "map f [a + (lo - z)..<a + (hi - z)] = map g [lo..<hi]"
  using assms by (intro nth_equalityI) auto

lemma rc_rows_pushed_old:
  assumes wf: "rc_wf c" and b: "rb_wf b" and p: "pushable b c" and i: "i < length (rc_label c)"
  shows "rc_rows (pushed b c) ! i = rc_rows c ! i"
proof -
  let ?d = "pushed b c"
  have lo: "length (rc_offset c) = Suc (length (rc_label c))" using wf by (auto simp: rc_wf_def)
  have hi: "rc_offset c ! Suc i \<le> length (rc_index c)" using rc_wf_offset_le [OF wf, of "Suc i"] i by simp
  have off: "rc_offset ?d ! i = rc_offset c ! i" "rc_offset ?d ! Suc i = rc_offset c ! Suc i"
    and lab: "rc_label ?d ! i = rc_label c ! i" and len: "length (rc_label c) \<le> length (rc_label ?d)"
    using lo i by (auto simp: pushed_def Let_def nth_append)
  have val: "(if rc_value ?d = [] then None else Some (rc_value ?d ! j)) =
      (if rc_value c = [] then None else Some (rc_value c ! j))" if "j < length (rc_index c)" for j
    using that p wf
    by (auto simp: pushed_def Let_def pushable_def rc_wf_def nth_append split: option.splits)
  have idx: "rc_index ?d ! j = rc_index c ! j" if "j < length (rc_index c)" for j
    using that by (simp add: pushed_def Let_def nth_append)
  have "map (\<lambda>j. (rc_index ?d ! j, if rc_value ?d = [] then None else Some (rc_value ?d ! j)))
          [rc_offset c ! i..<rc_offset c ! Suc i]
      = map (\<lambda>j. (rc_index c ! j, if rc_value c = [] then None else Some (rc_value c ! j)))
          [rc_offset c ! i..<rc_offset c ! Suc i]"
    using hi by (intro map_cong refl) (simp add: val idx del: if_split)
  then show ?thesis using i len by (simp add: rc_rows_def off lab)
qed

lemma rc_rows_pushed_new:
  fixes b :: "('a::len word, 'f) RowBlock" and c :: "('b::len word, 'f) RowBlockContainer"
  assumes wf: "rc_wf c" and b: "rb_wf b" and p: "pushable b c" and i: "i < rb_size b"
  shows "rc_rows (pushed b c) ! (length (rc_label c) + i) =
         map_prod id (map (map_prod ucast id)) (copied_rows b ! i)"
proof -
  let ?d = "pushed b c" and ?n = "length (rc_label c)" and ?k = "length (rc_index c)"
  let ?o = "\<lambda>i. rb_offset b ! i"
  have bs: "rb_size b \<le> length (rb_label b)" "?o (rb_size b) - ?o 0 \<le> length (rb_index b)"
    using b by (auto simp: rb_wf_def)
  have m: "?o 0 \<le> ?o i" "?o i \<le> ?o (Suc i)" "?o (Suc i) \<le> ?o (rb_size b)"
    using i by (auto intro: rb_wf_mono [OF b])
  have off: "rc_offset ?d ! (?n + i) = ?k + (?o i - ?o 0)"
    "rc_offset ?d ! Suc (?n + i) = ?k + (?o (Suc i) - ?o 0)"
    using pushed_offset_nth [OF wf _ b, of i] pushed_offset_nth [OF wf _ b, of "Suc i"] i by auto
  have lab: "rc_label ?d ! (?n + i) = rb_label b ! i" "?n + i < length (rc_label ?d)"
    using i bs by (auto simp: pushed_def Let_def nth_append)
  obtain m0 where m0: "?o i = ?o 0 + m0" using m(1) le_Suc_ex by blast
  have nd: "m0 + k < ?o (rb_size b) - ?o 0" if "k < ?o (Suc i) - ?o i" for k
    using m m0 that by linarith
  have idx: "rc_index ?d ! (?k + (?o i - ?o 0) + k) = ucast (rb_index b ! (?o i + k - ?o 0))"
    if "k < ?o (Suc i) - ?o i" for k
    using nd [OF that] bs(2) by (simp add: m0 pushed_def Let_def nth_append)
  have val: "(if rc_value ?d = [] then None else Some (rc_value ?d ! (?k + (?o i - ?o 0) + k))) =
      map_option (\<lambda>v. v ! (?o i + k - ?o 0)) (rb_value b)"
    if "k < ?o (Suc i) - ?o i" for k
    using nd [OF that] p wf b
    by (auto simp: m0 pushed_def Let_def pushable_def rb_wf_def rc_wf_def nth_append split: option.splits)
  have ent: "map (\<lambda>j. (rc_index ?d ! j, if rc_value ?d = [] then None else Some (rc_value ?d ! j)))
        [?k + (?o i - ?o 0)..<?k + (?o (Suc i) - ?o 0)]
      = map (\<lambda>j. (ucast (rb_index b ! (j - ?o 0)), map_option (\<lambda>v. v ! (j - ?o 0)) (rb_value b)))
        [?o i..<?o (Suc i)]"
    by (rule map_nth_shift) (simp_all only: idx val m(1,2))
  have "rc_rows ?d ! (?n + i) = (rc_label ?d ! (?n + i),
      map (\<lambda>j. (rc_index ?d ! j, if rc_value ?d = [] then None else Some (rc_value ?d ! j)))
        [rc_offset ?d ! (?n + i)..<rc_offset ?d ! Suc (?n + i)])"
    using lab(2) by (simp add: rc_rows_def)
  then show ?thesis using i by (simp only: off ent lab(1)) (simp add: copied_rows_def comp_def)
qed

lemma length_rc_rows [simp]: "length (rc_rows c) = length (rc_label c)"
  by (simp add: rc_rows_def)

lemma length_rb_rows [simp]: "length (rb_rows b) = rb_size b"
  by (simp add: rb_rows_def)

lemma length_copied_rows [simp]: "length (copied_rows b) = rb_size b"
  by (simp add: copied_rows_def)

lemma rc_rows_pushed:
  assumes "rc_wf c" and "rb_wf b" and "pushable b c"
  shows "rc_rows (pushed b c) = rc_rows c @ map (map_prod id (map (map_prod ucast id))) (copied_rows b)"
proof (rule nth_equalityI)
  have "rb_size b \<le> length (rb_label b)" using assms(2) by (simp add: rb_wf_def)
  then show len: "length (rc_rows (pushed b c)) =
      length (rc_rows c @ map (map_prod id (map (map_prod ucast id))) (copied_rows b))"
    by (simp add: pushed_def Let_def)
  fix i assume "i < length (rc_rows (pushed b c))"
  with len have i: "i < length (rc_label c) + rb_size b" by simp
  show "rc_rows (pushed b c) ! i =
      (rc_rows c @ map (map_prod id (map (map_prod ucast id))) (copied_rows b)) ! i"
  proof (cases "i < length (rc_label c)")
    case True
    then show ?thesis using rc_rows_pushed_old [OF assms] by (simp add: nth_append)
  next
    case False
    then obtain k where "i = length (rc_label c) + k" using le_Suc_ex not_less by blast
    with i show ?thesis using rc_rows_pushed_new [OF assms, of k] by (simp add: nth_append)
  qed
qed

section \<open>The view of a container\<close>

lemma GetBlock_eq:
  assumes "rc_wf c"
  shows "rbc_GetBlock c = Ok \<lparr>rb_size = length (rc_label c), rb_offset = rc_offset c,
     rb_label = rc_label c, rb_weight = begin_ptr (rc_weight c), rb_index = rc_index c,
     rb_value = begin_ptr (rc_value c)\<rparr>"
  using assms rc_wf_length [OF assms] by (auto simp: rbc_GetBlock_def rc_wf_def)

lemma GetBlock_rows:
  assumes "rc_wf c" and "length (rc_weight c) \<in> {0, length (rc_label c)}" and "rbc_GetBlock c = Ok b"
  shows "rb_wf b" and "rb_rows b = rc_rows c"
proof -
  have b: "b = \<lparr>rb_size = length (rc_label c), rb_offset = rc_offset c,
     rb_label = rc_label c, rb_weight = begin_ptr (rc_weight c), rb_index = rc_index c,
     rb_value = begin_ptr (rc_value c)\<rparr>"
    using assms(3) GetBlock_eq [OF assms(1)] by simp
  have o0: "rc_offset c ! 0 = 0" and so: "sorted (rc_offset c)"
    and la: "rc_offset c ! length (rc_label c) = length (rc_index c)"
    using assms(1) rc_wf_length [OF assms(1)] by (auto simp: rc_wf_def hd_conv_nth last_conv_nth)
  show "rb_wf b" using assms(1,2) o0 so la rc_wf_length [OF assms(1)]
    by (auto simp: b rb_wf_def rc_wf_def begin_ptr_def split: if_splits)
  show "rb_rows b = rc_rows c"
    by (auto simp: b rb_rows_def rc_rows_def begin_ptr_def o0)
qed

text \<open>What a user of a row sees: label, weight, and the features with \<open>get_value\<close>.\<close>

definition seen :: "('i, 'f::one) Row \<Rightarrow> 'f \<times> 'f \<times> ('i \<times> 'f) list" where
  "seen r = (row_label r, row_weight r, map (\<lambda>j. (row_index r ! j, row_get_value r j)) [0..<length (row_index r)])"

text \<open>All rows of a block, read with \<open>operator[]\<close>.\<close>

definition rows_seen :: "('i, 'f::one) RowBlock \<Rightarrow> ('f \<times> 'f \<times> ('i \<times> 'f) list) list res" where
  "rows_seen b = mapM_res (\<lambda>i. rmap seen (rb_at b i)) [0..<rb_size b]"

definition value_or_1 :: "'f::one option \<Rightarrow> 'f" where
  "value_or_1 v = (case v of None \<Rightarrow> 1 | Some x \<Rightarrow> x)"

definition seen_at :: "('i, 'f::one) RowBlock \<Rightarrow> nat \<Rightarrow> 'f \<times> 'f \<times> ('i \<times> 'f) list" where
  "seen_at b i = (rb_label b ! i, (case rb_weight b of None \<Rightarrow> 1 | Some w \<Rightarrow> w ! i), map (apsnd value_or_1) (snd (rb_rows b ! i)))"

lemma seen_rb_at:
  assumes "rb_wf b" "rb_offset b ! 0 = 0" "i < rb_size b"
  shows "rmap seen (rb_at b i) = Ok (seen_at b i)"
proof -
  let ?lo = "rb_offset b ! i" and ?hi = "rb_offset b ! Suc i"
  have le: "?lo \<le> ?hi" "?hi \<le> rb_offset b ! rb_size b" using assms(3) by (auto intro: rb_wf_mono [OF assms(1)])
  have b: "Suc i < length (rb_offset b)" "i < length (rb_label b)" "?hi \<le> length (rb_index b)"
    "\<And>v. rb_value b = Some v \<Longrightarrow> ?hi \<le> length v" "\<And>w. rb_weight b = Some w \<Longrightarrow> i < length w"
    using assms le by (fastforce simp: rb_wf_def)+
  have cell: "map (\<lambda>j. (take (?hi - ?lo) (drop ?lo (rb_index b)) ! j, f j)) [0..<?hi - ?lo] = map (\<lambda>j. (rb_index b ! j, g j)) [?lo..<?hi]"
    if "\<And>j. j < ?hi - ?lo \<Longrightarrow> f j = g (?lo + j)" for f g
    using that le b(3) by (intro nth_equalityI) auto
  have rows: "map (apsnd value_or_1) (snd (rb_rows b ! i)) = map (\<lambda>j. (rb_index b ! j, value_or_1 (map_option (\<lambda>v. v ! j) (rb_value b)))) [?lo..<?hi]"
    using assms(3) by (simp add: rb_rows_def comp_def)
  show ?thesis
  proof (cases "rb_value b")
    case None
    then show ?thesis using assms(3) b le cell [of "\<lambda>j. 1" "\<lambda>j. 1"]
      by (cases "rb_weight b") (simp_all add: rb_at_def seen_at_def rows seen_def run_at_def nth_res_def row_get_value_def value_or_1_def)
  next
    case (Some v)
    have "map (\<lambda>j. (take (?hi - ?lo) (drop ?lo (rb_index b)) ! j, take (?hi - ?lo) (drop ?lo v) ! j)) [0..<?hi - ?lo] =
        map (\<lambda>j. (rb_index b ! j, v ! j)) [?lo..<?hi]"
      using b(4) [OF Some] by (intro cell) simp
    then show ?thesis using Some assms(3) b le
      by (cases "rb_weight b") (simp_all add: rb_at_def seen_at_def rows seen_def run_at_def nth_res_def row_get_value_def value_or_1_def)
  qed
qed

lemma rows_seen_eq:
  assumes "rb_wf b" "rb_offset b ! 0 = 0"
  shows "rows_seen b = Ok (map (seen_at b) [0..<rb_size b])"
  unfolding rows_seen_def by (rule mapM_res_Ok) (simp add: seen_rb_at [OF assms])

text \<open>The example weights of a block and of the container go together.\<close>

definition weights_agree :: "('i, 'f) RowBlock \<Rightarrow> ('j, 'f) RowBlockContainer \<Rightarrow> bool" where
  "weights_agree b c \<longleftrightarrow> (case rb_weight b of None \<Rightarrow> rc_weight c = [] | Some w \<Rightarrow> length (rc_weight c) = length (rc_label c))"

lemma pushed_view:
  fixes b :: "('a::len word, 'f) RowBlock" and c :: "('b::len word, 'f) RowBlockContainer"
  assumes "rc_wf c" "rb_wf b" "rb_offset b ! 0 = 0" "pushable b c" "weights_agree b c" "rbc_GetBlock c = Ok v0"
  shows "\<exists>v. rbc_GetBlock (pushed b c) = Ok v \<and> rb_wf v \<and> rb_offset v ! 0 = 0 \<and> rb_size v = rb_size v0 + rb_size b \<and>
     rb_rows v = rb_rows v0 @ map (map_prod id (map (map_prod ucast id))) (rb_rows b) \<and>
     rb_label v = rb_label v0 @ take (rb_size b) (rb_label b) \<and> rb_weight v = begin_ptr (rc_weight c @ (case rb_weight b of None \<Rightarrow> [] | Some w \<Rightarrow> take (rb_size b) w))"
proof -
  note wf = rc_wf_pushed [OF assms(1,2,4)]
  have bs: "rb_size b \<le> length (rb_label b)" "\<And>w. rb_weight b = Some w \<Longrightarrow> rb_size b \<le> length w" using assms(2) by (auto simp: rb_wf_def)
  obtain v where v: "rbc_GetBlock (pushed b c) = Ok v" using GetBlock_eq [OF wf] by blast
  have w: "length (rc_weight (pushed b c)) \<in> {0, length (rc_label (pushed b c))}"
    using assms(5) bs by (auto simp: pushed_def Let_def weights_agree_def split: option.splits)
  have w0: "length (rc_weight c) \<in> {0, length (rc_label c)}"
    using assms(5) by (auto simp: weights_agree_def split: option.splits)
  have e: "rb_size v = length (rc_label c) + rb_size b" "rb_offset v = rc_offset (pushed b c)" "rb_label v = rc_label c @ take (rb_size b) (rb_label b)"
      "rb_weight v = begin_ptr (rc_weight (pushed b c))" "rb_label v0 = rc_label c" "rb_size v0 = length (rc_label c)"
    using GetBlock_eq [OF wf] GetBlock_eq [OF assms(1)] v assms(6) bs by (auto simp: pushed_def Let_def)
  have "rc_offset (pushed b c) ! 0 = 0" using wf by (auto simp: rc_wf_def hd_conv_nth)
  then show ?thesis
    using v e GetBlock_rows [OF wf w v] GetBlock_rows(2) [OF assms(1) w0 assms(6)] rc_rows_pushed [OF assms(1,2,4)] copied_rows_eq [OF assms(3)]
    by (auto simp: pushed_def Let_def)
qed

text \<open>
  C21: pushing a block whose first offset is 0, whose indices fit the container's index type and which agrees with the container on
  whether values and weights are stored never aborts; the container is well-formed again and passes the
  checks of \<open>GetBlock\<close>; and read with \<open>operator[]\<close> its rows are the old rows followed by the rows of the block, each
  with its label, its weight, its (narrowed) indices and its values. (For a block with another first offset, such as
  the result of \<open>Slice\<close>, the wrong cells are copied, see \<open>Push_of_Slice_wrong\<close>.)
\<close>

theorem Push_block_appends_rows:
  fixes b :: "('a::len word, 'f::one) RowBlock" and c :: "('b::len word, 'f) RowBlockContainer"
  assumes "rc_wf c" and "rb_wf b" and "rb_offset b ! 0 = 0" and "pushable b c" and "weights_agree b c" and "rbc_GetBlock c = Ok v0"
  shows "\<exists>c' v old new. rbc_Push_block b c = Ok c' \<and> rc_wf c' \<and> rbc_GetBlock c' = Ok v \<and>
     rows_seen v0 = Ok old \<and> rows_seen b = Ok new \<and>
     rows_seen v = Ok (old @ map (\<lambda>(label, weight, fs). (label, weight, map (\<lambda>(x, y). (ucast x, y)) fs)) new)"
proof -
  obtain v where v: "rbc_GetBlock (pushed b c) = Ok v" "rb_wf v" "rb_offset v ! 0 = 0" "rb_size v = rb_size v0 + rb_size b"
      "rb_rows v = rb_rows v0 @ map (map_prod id (map (map_prod ucast id))) (rb_rows b)"
      "rb_label v = rb_label v0 @ take (rb_size b) (rb_label b)"
      "rb_weight v = begin_ptr (rc_weight c @ (case rb_weight b of None \<Rightarrow> [] | Some w \<Rightarrow> take (rb_size b) w))"
    using pushed_view [OF assms] by blast
  have w0: "length (rc_weight c) \<in> {0, length (rc_label c)}"
    using assms(5) by (auto simp: weights_agree_def split: option.splits)
  have v0: "rb_wf v0" "rb_offset v0 ! 0 = 0" "rb_size v0 = length (rc_label c)" "rb_label v0 = rc_label c" "rb_weight v0 = begin_ptr (rc_weight c)"
    using GetBlock_rows [OF assms(1) w0 assms(6)] GetBlock_eq [OF assms(1)] assms(1,6) by (auto simp: rc_wf_def hd_conv_nth)
  let ?f = "\<lambda>(label, weight, fs). (label, weight, map (\<lambda>(x, y). (ucast x, y)) fs)"
  have old: "seen_at v i = seen_at v0 i" if "i < rb_size v0" for i
    using that v0 v(5-7) assms(5) by (auto simp: seen_at_def nth_append begin_ptr_def weights_agree_def split: option.splits)
  have bs: "rb_size b \<le> length (rb_label b)" "\<And>w. rb_weight b = Some w \<Longrightarrow> rb_size b \<le> length w" using assms(2) by (auto simp: rb_wf_def)
  have new: "seen_at v (rb_size v0 + i) = ?f (seen_at b i)" if "i < rb_size b" for i
  proof -
    have "map (apsnd value_or_1) (map (map_prod ucast id) fs) = map (\<lambda>(x, y). (ucast x, y)) (map (apsnd value_or_1) fs)" for fs :: "('a word \<times> 'f option) list"
      by (induction fs) auto
    then show ?thesis
      using that v0 v(5-7) assms(5) bs by (auto simp: seen_at_def nth_append begin_ptr_def weights_agree_def snd_map_prod split: option.splits)
  qed
  have "map (seen_at v) [0..<rb_size v] = map (seen_at v0) [0..<rb_size v0] @ map ?f (map (seen_at b) [0..<rb_size b])"
    unfolding v(4) upt_add_eq_append [OF le0] map_append
    using old new by (simp add: map_add_upt [symmetric] add.commute del: map_add_upt)
  then show ?thesis
    using rbc_Push_block_eq [OF assms(1,2,4)] rc_wf_pushed [OF assms(1,2,4)] v(1)
      rows_seen_eq [OF v(2,3)] rows_seen_eq [OF v0(1,2)] rows_seen_eq [OF assms(2,3)] by auto
qed

definition demo_block :: "(64 word, int) RowBlock" where
  "demo_block = \<lparr>rb_size = 3, rb_offset = [0, 1, 3, 3], rb_label = [1, 0, 1], rb_weight = Some [2, 4, 8],
     rb_index = [10, 20, 30], rb_value = Some [5, 6, 7]\<rparr>"

theorem Push_block_appends_rows_witness:
  "\<exists>(c' :: (32 word, int) RowBlockContainer) v. rbc_Push_block demo_block rbc_Clear = Ok c' \<and> rc_wf c' \<and> rbc_GetBlock c' = Ok v \<and>
     rows_seen v = Ok [(1, 2, [(10, 5)]), (0, 4, [(20, 6), (30, 7)]), (1, 8, [])]"
proof -
  let ?c = "rbc_Clear :: (32 word, int) RowBlockContainer"
  obtain v0 where v0: "rbc_GetBlock ?c = Ok v0" "rb_size v0 = 0" by (simp add: rbc_GetBlock_def rbc_Clear_def)
  have ok: "rb_wf demo_block" "rb_offset demo_block ! 0 = 0" "pushable demo_block ?c" "weights_agree demo_block ?c"
    by (simp_all add: demo_block_def rb_wf_def pushable_def rbc_Clear_def weights_agree_def)
  have "rows_seen demo_block = Ok [(1, 2, [(10, 5)]), (0, 4, [(20, 6), (30, 7)]), (1, 8, [])]"
    unfolding rows_seen_eq [OF ok(1,2)] by (simp add: demo_block_def seen_at_def rb_rows_def upt_conv_Cons value_or_1_def)
  then show ?thesis
    using Push_block_appends_rows [OF rc_wf_Clear ok v0(1)] v0(2) by (auto simp: rows_seen_def)
qed

section \<open>Slices\<close>

text \<open>
  \<open>Slice\<close> moves \<open>offset\<close> and keeps \<open>index\<close>, which \<open>operator[]\<close> reads right and \<open>Push\<close> does not: the
  second row of the block has the indices 20 and 30, and pushing the slice with this row stores 10 and 20.
\<close>

definition demo_slice :: "(64 word, int) RowBlock" where
  "demo_slice = \<lparr>rb_size = 1, rb_offset = [1, 3, 3], rb_label = [0, 1], rb_weight = Some [4, 8], rb_index = [10, 20, 30], rb_value = Some [5, 6, 7]\<rparr>"

lemma Push_of_Slice_wrong:
  "rb_Slice demo_block 1 2 = Ok demo_slice \<and> rows_seen demo_slice = Ok [(0, 4, [(20, 6), (30, 7)])] \<and>
   (\<exists>c' :: (32 word, int) RowBlockContainer. rbc_Push_block demo_slice rbc_Clear = Ok c' \<and> rc_rows c' = [(0, [(10, Some 5), (20, Some 6)])])"
proof -
  have "rb_wf demo_slice" "pushable demo_slice (rbc_Clear :: (32 word, int) RowBlockContainer)"
    by (simp_all add: demo_slice_def rb_wf_def pushable_def rbc_Clear_def)
  note ok = rbc_Push_block_eq [OF rc_wf_Clear this] rc_rows_pushed [OF rc_wf_Clear this]
  have "copied_rows demo_slice = [(0, [(10, Some 5), (20, Some 6)])]"
    by (simp add: copied_rows_def demo_slice_def upt_conv_Cons)
  moreover have "rb_at demo_slice 0 = Ok \<lparr>row_label = 0, row_weight = 4, row_index = [20, 30], row_value = Some [6, 7]\<rparr>"
    by (simp add: rb_at_def demo_slice_def run_at_def nth_res_def)
  then have "rows_seen demo_slice = Ok [(0, 4, [(20, 6), (30, 7)])]"
    by (simp add: rows_seen_def seen_def row_get_value_def upt_conv_Cons) (simp add: demo_slice_def seen_def row_get_value_def)
  ultimately show ?thesis using ok by (simp add: rb_Slice_def demo_block_def demo_slice_def)
qed

text \<open>
  \<open>Slice(begin, end)\<close> is documented to return the rows of \<open>[begin, end)\<close>, but the last row
  of a block can be in no slice: every call with \<open>end == size\<close> aborts.
\<close>

theorem Slice_rejects_last_row: "rb_Slice b i (rb_size b) = Err (CheckFailed ''begin <= end && end < size'')"
  by (simp add: rb_Slice_def)

end
