(* ===== verification/ParallelSort.thy ===== *)
theory ParallelSort
  imports Prelude
begin

text \<open>
  \<open>src/base/parallel_sort.h\<close> (and its twin in \<open>ps-lite/src/base\<close>): a merge sort whose two
  halves run in two threads. The halves are disjoint runs of one array, so the result does not
  depend on the interleaving: \<open>ParallelSort_\<close> is a function of the array, its \<open>thr.join()\<close>
  standing before the merge. The comparison of every caller compares a key of the element, so
  the element's key function is the parameter here (\<open>cmp a b\<close> is \<open>key a < key b\<close>).

  \<open>std::sort\<close> promises a sorted permutation and nothing about equal elements. It is a parameter
  \<open>std_sort\<close> with that promise as a locale assumption; a stable sort is one instance.
\<close>

section \<open>The merge\<close>

text \<open>\<open>std::inplace_merge\<close> of two adjacent sorted runs: stable, the left run first on ties.\<close>

fun inplace_merge :: "('a \<Rightarrow> 'k::linorder) \<Rightarrow> 'a list \<Rightarrow> 'a list \<Rightarrow> 'a list" where
  "inplace_merge key [] ys = ys"
| "inplace_merge key xs [] = xs"
| "inplace_merge key (x # xs) (y # ys) =
     (if key y < key x then y # inplace_merge key (x # xs) ys
      else x # inplace_merge key xs (y # ys))"

function ParallelSort_rec :: "('a list \<Rightarrow> 'a list) \<Rightarrow> ('a \<Rightarrow> 'k::linorder) \<Rightarrow> nat \<Rightarrow> 'a list \<Rightarrow> 'a list" where
  "ParallelSort_rec std_sort key grainsize xs =
     (let len = length xs in
      if len \<le> grainsize \<or> len \<le> 1 then std_sort xs
      else inplace_merge key
             (ParallelSort_rec std_sort key grainsize (take (len div 2) xs))
             (ParallelSort_rec std_sort key grainsize (drop (len div 2) xs)))"
  by pat_completeness auto
termination
  by (relation "measure (\<lambda>(s, k, g, xs). length xs)") auto

declare ParallelSort_rec.simps [simp del]

text \<open>
  \<open>ParallelSort\<close>: the grain size is at least \<open>1024 * 16\<close>, so the recursion above never sees a
  grain size of 0 (where the source would recurse forever on a single element).
\<close>

definition grain_size :: "nat \<Rightarrow> nat \<Rightarrow> nat" where
  "grain_size len num_threads = max (len div num_threads + 5) (1024 * 16)"

definition ParallelSort :: "('a list \<Rightarrow> 'a list) \<Rightarrow> ('a \<Rightarrow> 'k::linorder) \<Rightarrow> int \<Rightarrow> 'a list \<Rightarrow> 'a list res" where
  "ParallelSort std_sort key num_threads arr =
     check (num_threads > 0) ''num_threads > 0''
      (Ok (ParallelSort_rec std_sort key (grain_size (length arr) (nat num_threads)) arr))"

section \<open>Sortedness and permutation\<close>

lemma mset_inplace_merge [simp]: "mset (inplace_merge key xs ys) = mset xs + mset ys"
  by (induction key xs ys rule: inplace_merge.induct) auto

lemma set_inplace_merge [simp]: "set (inplace_merge key xs ys) = set xs \<union> set ys"
  by (induction key xs ys rule: inplace_merge.induct) auto

lemma sorted_inplace_merge:
  "sorted (map key xs) \<Longrightarrow> sorted (map key ys) \<Longrightarrow> sorted (map key (inplace_merge key xs ys))"
  by (induction key xs ys rule: inplace_merge.induct) force+

text \<open>The contract of \<open>std::sort\<close>, and what the parallel sort makes of it.\<close>

locale sorter =
  fixes std_sort :: "'a list \<Rightarrow> 'a list" and key :: "'a \<Rightarrow> 'k::linorder"
  assumes sorter_mset: "mset (std_sort xs) = mset xs"
    and sorter_sorted: "sorted (map key (std_sort xs))"
begin

lemma rec_sorts:
  "mset (ParallelSort_rec std_sort key g xs) = mset xs \<and>
   sorted (map key (ParallelSort_rec std_sort key g xs))"
proof (induction xs rule: length_induct)
  case (1 xs)
  let ?n = "length xs"
  show ?case
  proof (cases "?n \<le> g \<or> ?n \<le> 1")
    case True
    then show ?thesis
      by (subst (1 2) ParallelSort_rec.simps) (simp add: Let_def sorter_mset sorter_sorted)
  next
    case False
    let ?l = "take (?n div 2) xs" and ?r = "drop (?n div 2) xs"
    have len: "length ?l < ?n" "length ?r < ?n" using False by auto
    have "ParallelSort_rec std_sort key g xs =
        inplace_merge key (ParallelSort_rec std_sort key g ?l) (ParallelSort_rec std_sort key g ?r)"
      using False by (subst ParallelSort_rec.simps) (simp add: Let_def)
    moreover have "mset ?l + mset ?r = mset xs"
      by (metis append_take_drop_id mset_append)
    ultimately show ?thesis
      using 1 len by (simp add: sorted_inplace_merge)
  qed
qed

lemma run_sorts:
  assumes "num_threads > 0"
  shows "\<exists>ys. ParallelSort std_sort key num_threads xs = Ok ys \<and> mset ys = mset xs \<and> sorted (map key ys)"
  using assms rec_sorts by (simp add: ParallelSort_def)

end

interpretation stable: sorter "sort_key key" key for key :: "'a \<Rightarrow> 'k::linorder"
  by unfold_locales auto

end
