(* ===== verification/Localizer.thy ===== *)
theory Localizer
  imports RowBlock ParallelSort
begin

text \<open>
  \<open>src/base/localizer.h\<close>: mapping a minibatch with 64-bit feature ids to one with consecutive
  indices from 0, together with the sorted list of its distinct feature ids and their counts.
  The feature ids are first spread over the key space (\<open>ReverseBytes\<close>) or hashed
  (\<open>% max_key\<close>). Count types: an integral \<open>C\<close> saturates at its maximum, a floating \<open>C\<close> casts;
  both are the function \<open>sat\<close> from \<open>unsigned\<close> counts. A count never exceeds the number of
  entries, which is checked to be below \<open>2^32 - 1\<close>, so counts are \<open>nat\<close>.
\<close>

section \<open>ReverseBytes\<close>

definition swap32 :: "u64 \<Rightarrow> u64" where
  "swap32 x = push_bit 32 x OR drop_bit 32 x"

definition swap16 :: "u64 \<Rightarrow> u64" where
  "swap16 x = push_bit 16 (x AND 0x0000FFFF0000FFFF) OR drop_bit 16 (x AND 0xFFFF0000FFFF0000)"

definition swap8 :: "u64 \<Rightarrow> u64" where
  "swap8 x = push_bit 8 (x AND 0x00FF00FF00FF00FF) OR drop_bit 8 (x AND 0xFF00FF00FF00FF00)"

definition swap4 :: "u64 \<Rightarrow> u64" where
  "swap4 x = push_bit 4 (x AND 0x0F0F0F0F0F0F0F0F) OR drop_bit 4 (x AND 0xF0F0F0F0F0F0F0F0)"

definition ReverseBytes :: "u64 \<Rightarrow> u64" where
  "ReverseBytes x = swap4 (swap8 (swap16 (swap32 x)))"

lemma less64_cases: "n < 64 \<Longrightarrow> n \<in> set [0..<64]" for n :: nat
  by simp

lemma swap32_bit: "n < 64 \<Longrightarrow> bit (swap32 x) n = bit x (if n < 32 then n + 32 else n - 32)"
  using bit_imp_le_length [of x "n + 32"] by (auto simp: swap32_def bit_simps ac_simps)

lemma swap16_bit: "n < 64 \<Longrightarrow> bit (swap16 x) n = bit x (if even (n div 16) then n + 16 else n - 16)"
  by (drule less64_cases, simp add: upt_conv_Cons, elim disjE; simp add: swap16_def bit_simps)

lemma swap8_bit: "n < 64 \<Longrightarrow> bit (swap8 x) n = bit x (if even (n div 8) then n + 8 else n - 8)"
  by (drule less64_cases, simp add: upt_conv_Cons, elim disjE; simp add: swap8_def bit_simps)

lemma swap4_bit: "n < 64 \<Longrightarrow> bit (swap4 x) n = bit x (if even (n div 4) then n + 4 else n - 4)"
  by (drule less64_cases, simp add: upt_conv_Cons, elim disjE; simp add: swap4_def bit_simps)

lemma bit_ReverseBytes: "n < 64 \<Longrightarrow> bit (ReverseBytes x) n = bit x (60 - 4 * (n div 4) + n mod 4)"
  by (drule less64_cases, simp add: upt_conv_Cons, elim disjE;
      ((simp add: ReverseBytes_def swap32_bit swap16_bit swap8_bit swap4_bit; fail) |
       (simp add: ReverseBytes_def swap32_bit swap16_bit swap8_bit swap4_bit, simp add: numeral_3_eq_3)))

text \<open>
  \<open>ReverseBytes\<close> is its own inverse, so spreading the feature ids over the key space never
  merges two of them.
\<close>

theorem ReverseBytes_involution: "ReverseBytes (ReverseBytes x) = x"
proof (rule bit_word_eqI)
  fix n assume "n < LENGTH(64)"
  then have n: "n < 64" by simp
  define q r where "q = n div 4" and "r = n mod 4"
  have qr: "q \<le> 15" "r < 4" and nqr: "n = 4 * q + r" using n by (auto simp: q_def r_def)
  have m: "60 - 4 * q + r = 4 * (15 - q) + r" using qr(1) by simp
  have "bit (ReverseBytes (ReverseBytes x)) n = bit (ReverseBytes x) (4 * (15 - q) + r)"
    using n m by (simp add: bit_ReverseBytes q_def r_def)
  also have "\<dots> = bit x (60 - 4 * (15 - q) + r)"
    using qr by (simp add: bit_ReverseBytes)
  also have "60 - 4 * (15 - q) + r = n" using qr nqr by simp
  finally show "bit (ReverseBytes (ReverseBytes x)) n = bit x n" .
qed

lemma nibble_bit: "bit (drop_bit m x AND 0xF) n \<longleftrightarrow> n < 4 \<and> bit (x :: u64) (m + n)"
proof -
  have e: "(0xF :: u64) = mask 4" by (simp add: mask_eq_exp_minus_1)
  show ?thesis unfolding e using bit_imp_le_length [of x "m + n"] by (auto simp: bit_simps)
qed

text \<open>
  What \<open>ReverseBytes\<close> computes: the sixteen half-bytes of the key in reverse order. Its
  name and comment say bytes; the last step, which swaps the halves of every byte, is not
  part of a byte reversal.
\<close>

theorem ReverseBytes_nibbles:
  assumes "k < 16"
  shows "drop_bit (4 * k) (ReverseBytes x) AND 0xF = drop_bit (4 * (15 - k)) x AND 0xF"
proof (rule bit_word_eqI)
  fix n assume "n < LENGTH(64)"
  show "bit (drop_bit (4 * k) (ReverseBytes x) AND 0xF) n = bit (drop_bit (4 * (15 - k)) x AND 0xF) n"
  proof (cases "n < 4")
    case True
    then have "4 * k + n < 64" "(4 * k + n) div 4 = k" "(4 * k + n) mod 4 = n" using assms by auto
    moreover have "60 - 4 * k + n = 4 * (15 - k) + n" using assms by simp
    ultimately show ?thesis using True by (simp only: nibble_bit bit_ReverseBytes)
  qed (simp add: nibble_bit)
qed

theorem ReverseBytes_nibbles_witness:
  "drop_bit 4 (ReverseBytes 0x12) AND 0xF = drop_bit 56 (0x12 :: u64) AND 0xF"
  using ReverseBytes_nibbles [of 1 "0x12"] by simp

section \<open>Counting the distinct keys\<close>

record 'i Pair =
  pr_k :: 'i
  pr_i :: nat

record 'i Localizer =
  lc_nt :: int
  lc_pair :: "'i Pair list"

text \<open>
  The key of a feature id: hashed when \<open>FLAGS_max_key\<close> is below the largest index, spread by
  \<open>ReverseBytes\<close> for 64-bit indices, unchanged otherwise.
\<close>

definition local_key :: "u64 \<Rightarrow> 'i::len word \<Rightarrow> 'i word res" where
  "local_key max_key x =
     (if unat max_key < 2 ^ LENGTH('i) - 1
      then (if (ucast max_key :: 'i word) = 0 then Err (Fatal ''division by zero'')
            else Ok (x mod ucast max_key))
      else if LENGTH('i) = 64 then Ok (ucast (ReverseBytes (ucast x)))
      else Ok x)"

text \<open>
  The scan over the sorted pairs, with the source's \<open>curr\<close> and \<open>cnt\<close>; \<open>++cnt\<close> comes after
  the reset, so a new key starts at 1. The first visit meets \<open>curr\<close> itself with \<open>cnt = 0\<close>.
\<close>

fun count_scan :: "(nat \<Rightarrow> 'c) \<Rightarrow> 'i \<Rightarrow> nat \<Rightarrow> 'i list \<Rightarrow> 'i list \<times> 'c list" where
  "count_scan sat cur cnt [] = ([cur], [sat cnt])"
| "count_scan sat cur cnt (k # ks) =
     (if k \<noteq> cur
      then (case count_scan sat k 1 ks of (u, f) \<Rightarrow> (cur # u, sat cnt # f))
      else count_scan sat cur (cnt + 1) ks)"

text \<open>
  \<open>CountUniqIndex\<close>: returns early on an empty block, leaving every output as it was; otherwise
  fills \<open>pair_\<close>, sorts it and scans it. The outputs are \<open>pair_\<close>, \<open>uniq_idx\<close> and \<open>idx_frq\<close>
  (which a caller may ignore). Reading \<open>pair_[0]\<close> of an empty vector is out of bounds.
\<close>

definition CountUniqIndex ::
  "('i word Pair list \<Rightarrow> 'i word Pair list) \<Rightarrow> u64 \<Rightarrow> (nat \<Rightarrow> 'c) \<Rightarrow> ('i::len word, 'f) RowBlock \<Rightarrow>
   'i word Localizer \<times> 'i word list \<times> 'c list \<Rightarrow> ('i word Localizer \<times> 'i word list \<times> 'c list) res" where
  "CountUniqIndex std_sort max_key sat blk = (\<lambda>(lc, uniq, frq).
     if rb_size blk = 0 then Ok (lc, uniq, frq) else
     rbind (nth_res (rb_offset blk) (rb_size blk)) (\<lambda>idx_size.
     check (idx_size < 2 ^ 32 - 1) ''you need to change Pair.i from unsigned to uint64''
      (rbind (read_run (rb_index blk) idx_size) (\<lambda>idx.
       rbind (mapM_res (local_key max_key) idx) (\<lambda>ks.
       rbind (ParallelSort std_sort pr_k (lc_nt lc)
                (map2 (\<lambda>k i. \<lparr>pr_k = k, pr_i = i\<rparr>) ks [0..<idx_size])) (\<lambda>pairs.
       rbind (nth_res pairs 0) (\<lambda>p0.
       case count_scan sat (pr_k p0) 0 (map pr_k pairs) of (u, f) \<Rightarrow>
         Ok (lc\<lparr>lc_pair := pairs\<rparr>, u, f))))))))"

section \<open>Remapping the indices\<close>

text \<open>The two-pointer loop: \<open>pos\<close> is \<open>cur_dict - idx_dict.cbegin()\<close>.\<close>

fun remap_scan ::
  "'i::linorder list \<Rightarrow> nat \<Rightarrow> 'i Pair list \<Rightarrow> nat list \<Rightarrow> nat \<Rightarrow> (nat list \<times> nat) res" where
  "remap_scan [] pos ps re matched = Ok (re, matched)"
| "remap_scan (d # ds) pos [] re matched = Ok (re, matched)"
| "remap_scan (d # ds) pos (q # qs) re matched =
     (if d < pr_k q then remap_scan ds (pos + 1) (q # qs) re matched
      else if d = pr_k q
      then (if pr_i q < length re
            then remap_scan (d # ds) pos qs (re[pr_i q := pos + 1]) (matched + 1)
            else Err OutOfBounds)
      else remap_scan (d # ds) pos qs re matched)"

text \<open>
  One row of the new block: the positions of \<open>[lo, hi)\<close> that have an image, in order. The
  source writes them one by one behind \<open>k\<close>; the lists here are what has been written.
\<close>

definition kept :: "nat list \<Rightarrow> nat \<Rightarrow> nat \<Rightarrow> nat list" where
  "kept re lo hi = filter (\<lambda>j. re ! j \<noteq> 0) [lo..<hi]"

fun remap_rows :: "nat list \<Rightarrow> nat list \<Rightarrow> nat \<Rightarrow> nat list \<times> nat list" where
  "remap_rows re (lo # hi # os) off =
     (case remap_rows re (hi # os) (off + length (kept re lo hi)) of
        (offs, js) \<Rightarrow> ((off + length (kept re lo hi)) # offs, kept re lo hi @ js))"
| "remap_rows re os off = ([], [])"

definition RemapIndex ::
  "('i::len word, 'f) RowBlock \<Rightarrow> 'i word list \<Rightarrow> 'i word Localizer \<Rightarrow>
   (u32, 'f) RowBlockContainer \<Rightarrow> (u32, 'f) RowBlockContainer res" where
  "RemapIndex blk idx_dict lc o' =
     (if rb_size blk = 0 \<or> idx_dict = [] then Ok o' else
      check (length idx_dict < 2 ^ 32 - 1) ''idx_dict.size() < max unsigned''
       (rbind (nth_res (rb_offset blk) (rb_size blk)) (\<lambda>n.
        check (n = length (lc_pair lc)) ''blk.offset[blk.size] == pair_.size()''
         (rbind (remap_scan idx_dict 0 (lc_pair lc) (replicate n 0) 0) (\<lambda>(re, matched).
          case remap_rows re (take (Suc (rb_size blk)) (rb_offset blk)) 0 of (offs, js) \<Rightarrow>
          check (length js = matched) ''k == matched''
           (rbind (case rb_value blk of None \<Rightarrow> Ok (rc_value o')
                   | Some v \<Rightarrow> mapM_res (nth_res v) js) (\<lambda>val.
            rbind (read_run (rb_label blk) (rb_size blk)) (\<lambda>lab.
            Ok (o'\<lparr>rc_offset := 0 # offs, rc_index := map (\<lambda>j. word_of_nat (re ! j - 1)) js,
                  rc_value := val, rc_label := lab,
                  rc_max_index := word_of_nat (length idx_dict - 1)\<rparr>)))))))))"

text \<open>\<open>Localize\<close>: count, remap, clear.\<close>

definition Localize ::
  "('i word Pair list \<Rightarrow> 'i word Pair list) \<Rightarrow> u64 \<Rightarrow> (nat \<Rightarrow> 'c) \<Rightarrow> int \<Rightarrow> ('i::len word, 'f) RowBlock \<Rightarrow>
   (u32, 'f) RowBlockContainer \<Rightarrow> 'i word list \<Rightarrow> 'c list \<Rightarrow>
   ((u32, 'f) RowBlockContainer \<times> 'i word list \<times> 'c list) res" where
  "Localize std_sort max_key sat nt blk o' uniq frq =
     rbind (CountUniqIndex std_sort max_key sat blk (\<lparr>lc_nt = nt, lc_pair = []\<rparr>, uniq, frq))
      (\<lambda>(lc, u, f). rbind (RemapIndex blk u lc o') (\<lambda>o''. Ok (o'', u, f)))"

section \<open>The distinct keys and their counts\<close>

lemma count_scan_spec:
  assumes "sorted (cur # ks)"
  shows "count_scan sat cur cnt ks = (remdups_adj (cur # ks),
           map (\<lambda>k. sat (count_list ks k + (if k = cur then cnt else 0))) (remdups_adj (cur # ks)))"
  using assms
proof (induction ks arbitrary: cur cnt)
  case Nil
  show ?case by simp
next
  case (Cons k ks)
  then have s: "sorted (k # ks)" "sorted (cur # ks)" by auto
  show ?case
  proof (cases "k = cur")
    case True
    then show ?thesis using Cons.IH [OF s(2), of "cnt + 1"] by (auto intro!: map_cong)
  next
    case False
    then have new: "cur \<notin> set (k # ks)" using Cons.prems by fastforce
    then have zero: "count_list ks cur = 0" by (simp add: count_list_0_iff)
    show ?thesis using Cons.IH [OF s(1), of 1] False new zero by (auto intro!: map_cong)
  qed
qed

lemma count_scan_sorted:
  assumes "sorted ks" and "ks \<noteq> []"
  shows "count_scan sat (hd ks) 0 ks = (remdups_adj ks, map (\<lambda>k. sat (count_list ks k)) (remdups_adj ks))"
proof -
  obtain k ks' where ks: "ks = k # ks'" using assms(2) by (cases ks) auto
  have "count_scan sat k 0 (k # ks') = (remdups_adj (k # k # ks'),
      map (\<lambda>x. sat (count_list (k # ks') x)) (remdups_adj (k # k # ks')))"
    using count_scan_spec [of k "k # ks'" sat 0] assms(1) ks by auto
  then show ?thesis by (simp add: ks)
qed

lemma strict_remdups_adj: "sorted xs \<Longrightarrow> sorted_wrt (<) (remdups_adj xs)"
  for xs :: "'a::linorder list"
  by (induction xs rule: remdups_adj.induct) (auto simp: less_le)

section \<open>The two-pointer loop\<close>

text \<open>The image of a pair: its position in the dictionary plus 1, untouched without one.\<close>

definition image_ok :: "'i list \<Rightarrow> nat \<Rightarrow> nat list \<Rightarrow> nat list \<Rightarrow> 'i Pair \<Rightarrow> bool" where
  "image_ok ds pos re re' p \<longleftrightarrow>
     (if pr_k p \<in> set ds then \<exists>t<length ds. ds ! t = pr_k p \<and> re' ! pr_i p = pos + t + 1
      else re' ! pr_i p = re ! pr_i p)"

lemma remap_scan_spec:
  assumes "sorted_wrt (<) ds" and "sorted (map pr_k ps)" and "distinct (map pr_i ps)"
    and "\<forall>q\<in>set ps. pr_i q < length re"
  shows "\<exists>re'. remap_scan ds pos ps re m =
           Ok (re', m + length (filter (\<lambda>q. pr_k q \<in> set ds) ps)) \<and> length re' = length re \<and>
         (\<forall>q\<in>set ps. image_ok ds pos re re' q) \<and>
         (\<forall>j. j \<notin> pr_i ` set ps \<longrightarrow> re' ! j = re ! j)"
  using assms
proof (induction ds pos ps re m rule: remap_scan.induct)
  case (1 pos ps re m)
  then show ?case by (simp add: image_ok_def)
next
  case (2 d ds pos re m)
  then show ?case by simp
next
  case (3 d ds pos q qs re m)
  consider (lt) "d < pr_k q" | (eq) "d = pr_k q" | (gt) "\<not> d < pr_k q" "d \<noteq> pr_k q" by blast
  then show ?case
  proof cases
    case lt
    then have nd: "pr_k p \<noteq> d" if "p \<in> set (q # qs)" for p using that 3(5) by fastforce
    then have fl: "filter (\<lambda>p. pr_k p \<in> set (d # ds)) (q # qs) = filter (\<lambda>p. pr_k p \<in> set ds) (q # qs)"
      by (intro filter_cong) auto
    from 3(1) [OF lt] 3(4-7) obtain re' where
      r: "remap_scan ds (pos + 1) (q # qs) re m =
           Ok (re', m + length (filter (\<lambda>q. pr_k q \<in> set ds) (q # qs)))" "length re' = length re"
      and k: "\<forall>p\<in>set (q # qs). image_ok ds (pos + 1) re re' p"
      and f: "\<forall>j. j \<notin> pr_i ` set (q # qs) \<longrightarrow> re' ! j = re ! j" by auto
    have "image_ok (d # ds) pos re re' p" if "p \<in> set (q # qs)" for p
    proof (cases "pr_k p \<in> set ds")
      case True
      then obtain t where "t < length ds" "ds ! t = pr_k p" "re' ! pr_i p = pos + 1 + t + 1"
        using k \<open>p \<in> set (q # qs)\<close> by (force simp: image_ok_def)
      then show ?thesis using True by (auto simp: image_ok_def intro!: exI [of _ "Suc t"])
    next
      case False
      then show ?thesis using k nd that by (auto simp: image_ok_def)
    qed
    moreover have "remap_scan (d # ds) pos (q # qs) re m =
        Ok (re', m + length (filter (\<lambda>q. pr_k q \<in> set (d # ds)) (q # qs)))"
      by (simp only: remap_scan.simps lt if_True r(1) fl)
    ultimately show ?thesis using r(2) f by blast
  next
    case eq
    have l: "pr_i q < length re" using 3(7) by simp
    have nq: "pr_i q \<notin> pr_i ` set qs" using 3(6) by auto
    from 3(2) [OF _ eq l] 3(4-7) eq obtain re' where
      r: "remap_scan (d # ds) pos qs (re[pr_i q := pos + 1]) (m + 1) =
           Ok (re', m + 1 + length (filter (\<lambda>q. pr_k q \<in> set (d # ds)) qs))" "length re' = length re"
      and k: "\<forall>p\<in>set qs. image_ok (d # ds) pos (re[pr_i q := pos + 1]) re' p"
      and f: "\<forall>j. j \<notin> pr_i ` set qs \<longrightarrow> re' ! j = re[pr_i q := pos + 1] ! j" by auto
    have "re' ! pr_i q = pos + 1" using f nq l by simp
    moreover have "re[pr_i q := pos + 1] ! pr_i p = re ! pr_i p" if "p \<in> set qs" for p
      using that nq by (metis imageI nth_list_update_neq)
    ultimately have "image_ok (d # ds) pos re re' p" if "p \<in> set (q # qs)" for p
      using that k eq by (cases "p = q") (auto simp: image_ok_def)
    then show ?thesis using eq r f l by (intro exI [of _ re']) simp
  next
    case gt
    have nq: "pr_i q \<notin> pr_i ` set qs" using 3(6) by auto
    have nin: "pr_k q \<notin> set (d # ds)" using gt 3(4) by auto
    from 3(3) [OF gt] 3(4-7) obtain re' where
      r: "remap_scan (d # ds) pos qs re m =
           Ok (re', m + length (filter (\<lambda>q. pr_k q \<in> set (d # ds)) qs))" "length re' = length re"
      and k: "\<forall>p\<in>set qs. image_ok (d # ds) pos re re' p"
      and f: "\<forall>j. j \<notin> pr_i ` set qs \<longrightarrow> re' ! j = re ! j" by auto
    have "image_ok (d # ds) pos re re' p" if "p \<in> set (q # qs)" for p
      using that k f nin nq by (cases "p = q") (auto simp: image_ok_def)
    then show ?thesis using gt r f nin by (intro exI [of _ re']) simp
  qed
qed

section \<open>Localize\<close>

lemma kept_all: "(\<And>j. j < hi \<Longrightarrow> re ! j \<noteq> 0) \<Longrightarrow> kept re lo hi = [lo..<hi]"
  by (auto simp: kept_def)

lemma remap_rows_all:
  assumes "sorted os" and "os \<noteq> []" and "\<And>j. j < last os \<Longrightarrow> re ! j \<noteq> 0"
  shows "remap_rows re os off = (map (\<lambda>x. off + (x - hd os)) (tl os), [hd os..<last os])"
  using assms
proof (induction re os off rule: remap_rows.induct)
  case (1 re lo hi os off)
  have le: "lo \<le> hi" "hi \<le> last (hi # os)" using 1(2) by (auto simp: last_in_set)
  have k: "kept re lo hi = [lo..<hi]" using 1(4) le by (intro kept_all) auto
  have "remap_rows re (hi # os) (off + (hi - lo)) =
      (map (\<lambda>x. off + (hi - lo) + (x - hi)) os, [hi..<last (hi # os)])"
    using 1(1) 1(2,4) k by simp
  moreover have "off + (hi - lo) + (x - hi) = off + (x - lo)" if "x \<in> set os" for x
    using that 1(2) by auto
  moreover have "[lo..<hi] @ [hi..<last (hi # os)] = [lo..<last (hi # os)]"
    using le by (metis le_add_diff_inverse upt_add_eq_append)
  ultimately show ?case using k by simp
qed auto

text \<open>The sorted pairs \<open>CountUniqIndex\<close> leaves behind.\<close>

definition pairs_of :: "'i list \<Rightarrow> 'i Pair list" where
  "pairs_of ks = map2 (\<lambda>k i. \<lparr>pr_k = k, pr_i = i\<rparr>) ks [0..<length ks]"

lemma set_pairs_of: "set (pairs_of ks) = {\<lparr>pr_k = ks ! i, pr_i = i\<rparr> | i. i < length ks}"
  by (fastforce simp: pairs_of_def in_set_conv_nth)

lemma pairs_of_proj [simp]: "map pr_k (pairs_of ks) = ks" "map pr_i (pairs_of ks) = [0..<length ks]"
  by (auto simp: pairs_of_def intro: nth_equalityI)

lemma sorted_pairs_props:
  assumes "mset ps = mset (pairs_of ks)"
  shows "length ps = length ks" and "mset (map pr_k ps) = mset ks"
    and "distinct (map pr_i ps)" and "set ps = {\<lparr>pr_k = ks ! i, pr_i = i\<rparr> | i. i < length ks}"
proof -
  show "mset (map pr_k ps) = mset ks" using assms by (metis mset_map pairs_of_proj(1))
  then show "length ps = length ks" by (metis length_map size_mset)
  have "mset (map pr_i ps) = mset [0..<length ks]" using assms by (metis mset_map pairs_of_proj(2))
  then show "distinct (map pr_i ps)" by (metis distinct_upt mset_eq_imp_distinct_iff)
  show "set ps = {\<lparr>pr_k = ks ! i, pr_i = i\<rparr> | i. i < length ks}"
    using assms by (metis set_mset_mset set_pairs_of)
qed

lemma CountUniqIndex_Ok:
  assumes so: "sorter std_sort pr_k" and nt: "0 < lc_nt lc"
    and key: "\<And>x. local_key mk x = Ok (g x)"
    and sz: "rb_size blk \<noteq> 0" "rb_size blk < length (rb_offset blk)"
    and n: "rb_offset blk ! rb_size blk = n" "0 < n" "n < 2 ^ 32 - 1" "n \<le> length (rb_index blk)"
    and ks: "ks = map g (take n (rb_index blk))"
  shows "\<exists>ps. CountUniqIndex std_sort mk sat blk (lc, u, f) =
           Ok (lc\<lparr>lc_pair := ps\<rparr>, remdups_adj (sort ks), map (\<lambda>k. sat (count_list ks k)) (remdups_adj (sort ks))) \<and>
         mset ps = mset (pairs_of ks) \<and> sorted (map pr_k ps)"
proof -
  have len: "length ks = n" using n ks by simp
  obtain ps where ps: "ParallelSort std_sort pr_k (lc_nt lc) (pairs_of ks) = Ok ps"
    "mset ps = mset (pairs_of ks)" "sorted (map pr_k ps)"
    using sorter.run_sorts [OF so nt] by blast
  have sk: "map pr_k ps = sort ks"
    using ps(2,3) sorted_pairs_props(2) by (metis mset_sort properties_for_sort)
  have ne: "ps \<noteq> []" using sorted_pairs_props(1) [OF ps(2)] len n by auto
  have "count_scan sat (pr_k (ps ! 0)) 0 (sort ks) =
      (remdups_adj (sort ks), map (\<lambda>k. sat (count_list (sort ks) k)) (remdups_adj (sort ks)))"
    using count_scan_sorted [of "sort ks" sat] sk ne by (metis hd_conv_nth hd_map sorted_sort map_is_Nil_conv)
  moreover have "count_list (sort ks) = count_list ks" by (intro ext) (metis count_mset mset_sort)
  ultimately have "CountUniqIndex std_sort mk sat blk (lc, u, f) =
      Ok (lc\<lparr>lc_pair := ps\<rparr>, remdups_adj (sort ks), map (\<lambda>k. sat (count_list ks k)) (remdups_adj (sort ks)))"
    using sz n ps(1) ne len ks
    by (simp add: CountUniqIndex_def read_run_def mapM_res_Ok [of _ _ g] key pairs_of_def sk)
  then show ?thesis using ps by blast
qed

lemma remap_complete:
  assumes ps: "mset ps = mset (pairs_of ks)" "sorted (map pr_k ps)"
    and u: "sorted_wrt (<) u" "set ks \<subseteq> set u"
  shows "\<exists>re. remap_scan u 0 ps (replicate (length ks) 0) 0 = Ok (re, length ks) \<and>
           length re = length ks \<and> (\<forall>j<length ks. \<exists>t<length u. u ! t = ks ! j \<and> re ! j = t + 1)"
proof -
  note sp = sorted_pairs_props [OF ps(1)]
  have "\<forall>q\<in>set ps. pr_i q < length (replicate (length ks) (0::nat))" by (auto simp: sp(4))
  from remap_scan_spec [OF u(1) ps(2) sp(3) this, of 0 0]
  obtain re where r: "remap_scan u 0 ps (replicate (length ks) 0) 0 =
      Ok (re, length (filter (\<lambda>q. pr_k q \<in> set u) ps))" "length re = length ks"
    "\<forall>q\<in>set ps. image_ok u 0 (replicate (length ks) 0) re q" by auto
  have "pr_k q \<in> set u" if "q \<in> set ps" for q
    using that u(2) by (auto simp: sp(4))
  then have "filter (\<lambda>q. pr_k q \<in> set u) ps = ps" by simp
  moreover have "\<exists>t<length u. u ! t = ks ! j \<and> re ! j = t + 1" if "j < length ks" for j
  proof -
    have "\<lparr>pr_k = ks ! j, pr_i = j\<rparr> \<in> set ps" using that by (auto simp: sp(4))
    then have "image_ok u 0 (replicate (length ks) 0) re \<lparr>pr_k = ks ! j, pr_i = j\<rparr>" using r(3) by blast
    moreover have "ks ! j \<in> set u" using that u(2) by auto
    ultimately show ?thesis by (auto simp: image_ok_def)
  qed
  ultimately show ?thesis using r(1,2) sp(1) by simp
qed

lemma RemapIndex_Ok:
  fixes blk :: "('i::len word, 'f) RowBlock"
  assumes wf: "rb_wf blk" and o0: "rb_offset blk ! 0 = 0" and sz: "rb_size blk \<noteq> 0"
    and n: "rb_offset blk ! rb_size blk = length ks" and len: "length (lc_pair lc) = length ks"
    and u: "u \<noteq> []" "length u < 2 ^ 32 - 1"
    and scan: "remap_scan u 0 (lc_pair lc) (replicate (length ks) 0) 0 = Ok (re, length ks)"
    and re: "\<forall>j<length ks. re ! j \<noteq> 0"
  shows "RemapIndex blk u lc c = Ok (c\<lparr>rc_offset := take (Suc (rb_size blk)) (rb_offset blk),
           rc_index := map (\<lambda>j. word_of_nat (re ! j - 1)) [0..<length ks],
           rc_value := (case rb_value blk of None \<Rightarrow> rc_value c | Some v \<Rightarrow> take (length ks) v),
           rc_label := take (rb_size blk) (rb_label blk),
           rc_max_index := word_of_nat (length u - 1)\<rparr>)"
proof -
  let ?os = "take (Suc (rb_size blk)) (rb_offset blk)"
  have b: "rb_size blk < length (rb_offset blk)" "sorted ?os" "rb_size blk \<le> length (rb_label blk)"
    using wf by (auto simp: rb_wf_def)
  have os: "?os \<noteq> []" "hd ?os = 0" "last ?os = length ks"
    using take_Suc_ends [OF b(1)] o0 n by auto
  have rr: "remap_rows re ?os 0 = (tl ?os, [0..<length ks])"
    using remap_rows_all [OF b(2) os(1), of re 0] os re by simp
  have v: "(case rb_value blk of None \<Rightarrow> Ok (rc_value c) | Some v \<Rightarrow> mapM_res (nth_res v) [0..<length ks]) =
      Ok (case rb_value blk of None \<Rightarrow> rc_value c | Some v \<Rightarrow> take (length ks) v)"
  proof (cases "rb_value blk")
    case (Some v)
    then have l: "length ks \<le> length v" using wf n o0 by (auto simp: rb_wf_def)
    then have "mapM_res (nth_res v) [0..<length ks] = Ok (map ((!) v) [0..<length ks])"
      by (intro mapM_res_Ok) auto
    then show ?thesis using Some map_nth_upt_slice [OF l, of 0] by simp
  qed simp
  have z: "0 # tl ?os = ?os" using os(1,2) by (cases ?os) auto
  show ?thesis
    using b(1,3) n sz u len
    by (simp add: RemapIndex_def scan rr v read_run_def z del: take_Suc)
qed

text \<open>The localized container: shape, and what its entries mean under the dictionary.\<close>

lemma localized_rows:
  fixes blk :: "('i::len word, 'f) RowBlock" and o' :: "(u32, 'f) RowBlockContainer"
  assumes wf: "rb_wf blk" and o0: "rb_offset blk ! 0 = 0"
    and n: "rb_offset blk ! rb_size blk = n" "0 < n"
    and re: "\<forall>j<n. \<exists>t<length u. u ! t = g (rb_index blk ! j) \<and> re ! j = t + 1" and u: "length u < 2 ^ 32 - 1"
    and o': "o' = rbc_Clear\<lparr>rc_offset := take (Suc (rb_size blk)) (rb_offset blk),
           rc_index := map (\<lambda>j. word_of_nat (re ! j - 1)) [0..<n],
           rc_value := (case rb_value blk of None \<Rightarrow> [] | Some v \<Rightarrow> take n v),
           rc_label := take (rb_size blk) (rb_label blk),
           rc_max_index := word_of_nat (length u - 1)\<rparr>"
  shows "rc_wf o'" and "\<forall>x\<in>set (rc_index o'). unat x < length u"
    and "map (apsnd (map (apfst (\<lambda>x. u ! unat x)))) (rc_rows o') = map (apsnd (map (apfst g))) (rb_rows blk)"
proof -
  let ?os = "take (Suc (rb_size blk)) (rb_offset blk)"
  have b: "rb_size blk < length (rb_offset blk)" "sorted ?os" "rb_size blk \<le> length (rb_label blk)"
    "n \<le> length (rb_index blk)" and bv: "\<And>v. rb_value blk = Some v \<Longrightarrow> n \<le> length v"
    using wf n o0 by (auto simp: rb_wf_def)
  have lab: "length (rc_label o') = rb_size blk" "\<And>i. i < rb_size blk \<Longrightarrow> rc_label o' ! i = rb_label blk ! i"
    using b(3) by (auto simp: o')
  have off: "rc_offset o' ! i = rb_offset blk ! i" if "i \<le> rb_size blk" for i using that by (simp add: o')
  have key: "u ! unat (rc_index o' ! j) = g (rb_index blk ! j) \<and> unat (rc_index o' ! j) < length u"
    if "j < n" for j
  proof -
    obtain t where "t < length u" "u ! t = g (rb_index blk ! j)" "re ! j = t + 1" using re \<open>j < n\<close> by blast
    moreover from this u have "unat (word_of_nat t :: u32) = t" by (simp add: unat_of_nat)
    ultimately show ?thesis using that by (simp add: o')
  qed
  have val: "(if rc_value o' = [] then None else Some (rc_value o' ! j)) =
      map_option (\<lambda>v. v ! j) (rb_value blk)" if "j < n" for j
    using that bv n(2) by (cases "rb_value blk") (auto simp: o' rbc_Clear_def)
  show "rc_wf o'"
    using b bv n o0 take_Suc_ends [OF b(1)] by (auto simp: o' rc_wf_def split: option.split)
  show "\<forall>x\<in>set (rc_index o'). unat x < length u"
    using key by (auto simp: in_set_conv_nth) (simp add: o')
  have "map (apfst (\<lambda>x. u ! unat x)) (map (\<lambda>j. (rc_index o' ! j, if rc_value o' = [] then None else Some (rc_value o' ! j)))
        [rb_offset blk ! i..<rb_offset blk ! Suc i])
      = map (apfst g) (map (\<lambda>j. (rb_index blk ! j, map_option (\<lambda>v. v ! j) (rb_value blk)))
        [rb_offset blk ! i..<rb_offset blk ! Suc i])" if "i < rb_size blk" for i
  proof -
    have "rb_offset blk ! Suc i \<le> n" using rb_wf_mono [OF wf, of "Suc i" "rb_size blk"] that n by simp
    then show ?thesis by (simp add: key val del: if_split)
  qed
  then show "map (apsnd (map (apfst (\<lambda>x. u ! unat x)))) (rc_rows o') = map (apsnd (map (apfst g))) (rb_rows blk)"
    by (intro nth_equalityI)
      (simp_all add: rc_rows_def rb_rows_def lab off o0 del: map_map if_split)
qed

text \<open>
  C2: Localizing a minibatch succeeds for every thread count and every correct sort. The
  returned ids are the distinct keys of the minibatch in increasing order, the returned counts
  are their numbers of occurrences, the new indices are positions in that list, and under the
  list the new block is the old minibatch with every feature id replaced by its key: same
  rows, labels, values and order.
\<close>

theorem Localize_correct:
  fixes blk :: "('i::len word, 'f) RowBlock"
  assumes so: "sorter std_sort pr_k" and nt: "0 < nt" and key: "\<And>x. local_key mk x = Ok (g x)"
    and wf: "rb_wf blk" and o0: "rb_offset blk ! 0 = 0" and sz: "rb_size blk \<noteq> 0"
    and n: "rb_offset blk ! rb_size blk = n" "0 < n" "n < 2 ^ 32 - 1"
  shows "\<exists>o' u f. Localize std_sort mk sat nt blk rbc_Clear u0 f0 = Ok (o', u, f) \<and>
     sorted_wrt (<) u \<and> set u = g ` set (take n (rb_index blk)) \<and>
     f = map (\<lambda>k. sat (count_list (map g (take n (rb_index blk))) k)) u \<and>
     rc_wf o' \<and> (\<forall>x\<in>set (rc_index o'). unat x < length u) \<and>
     map (apsnd (map (apfst (\<lambda>x. u ! unat x)))) (rc_rows o') = map (apsnd (map (apfst g))) (rb_rows blk)"
proof -
  define ks where "ks = map g (take n (rb_index blk))"
  define u where "u = remdups_adj (sort ks)"
  let ?lc = "\<lparr>lc_nt = nt, lc_pair = []\<rparr>"
  have b: "rb_size blk < length (rb_offset blk)" "n \<le> length (rb_index blk)"
    using wf n o0 by (auto simp: rb_wf_def)
  have len: "length ks = n" using b by (simp add: ks_def)
  have su: "sorted_wrt (<) u" "set u = set ks" by (simp_all add: u_def strict_remdups_adj)
  have "sort ks \<noteq> []" using n(2) len by (metis length_0_conv length_sort less_numeral_extra(3))
  then have lu: "u \<noteq> []" "length u < 2 ^ 32 - 1"
    using n len remdups_adj_length [of "sort ks"] by (auto simp: u_def)
  obtain ps where ps: "CountUniqIndex std_sort mk sat blk (?lc, u0, f0) =
      Ok (?lc\<lparr>lc_pair := ps\<rparr>, u, map (\<lambda>k. sat (count_list ks k)) u)"
      "mset ps = mset (pairs_of ks)" "sorted (map pr_k ps)"
    using CountUniqIndex_Ok [OF so _ key sz b(1) n b(2) ks_def, of ?lc sat u0 f0] nt by (auto simp: u_def)
  obtain re where re: "remap_scan u 0 ps (replicate (length ks) 0) 0 = Ok (re, length ks)"
      "\<forall>j<length ks. \<exists>t<length u. u ! t = ks ! j \<and> re ! j = t + 1"
    using remap_complete [OF ps(2,3) su(1)] su(2) by blast
  then have nz: "\<forall>j<length ks. re ! j \<noteq> 0" by fastforce
  have map_re: "\<forall>j<n. \<exists>t<length u. u ! t = g (rb_index blk ! j) \<and> re ! j = t + 1"
    using re(2) b(2) len by (simp add: ks_def)
  define o1 :: "(u32, 'f) RowBlockContainer" where
    "o1 = rbc_Clear\<lparr>rc_offset := take (Suc (rb_size blk)) (rb_offset blk),
       rc_index := map (\<lambda>j. word_of_nat (re ! j - 1)) [0..<n],
       rc_value := (case rb_value blk of None \<Rightarrow> [] | Some v \<Rightarrow> take n v),
       rc_label := take (rb_size blk) (rb_label blk), rc_max_index := word_of_nat (length u - 1)\<rparr>"
  have "rc_value (rbc_Clear :: (u32, 'f) RowBlockContainer) = []" by (simp add: rbc_Clear_def)
  then have remap: "RemapIndex blk u (?lc\<lparr>lc_pair := ps\<rparr>) rbc_Clear = Ok o1"
    using RemapIndex_Ok [OF wf o0 sz _ _ lu, of ks "?lc\<lparr>lc_pair := ps\<rparr>" re rbc_Clear]
      n(1) len sorted_pairs_props(1) [OF ps(2)] re(1) nz by (simp add: o1_def split: option.split)
  have "Localize std_sort mk sat nt blk rbc_Clear u0 f0 = Ok (o1, u, map (\<lambda>k. sat (count_list ks k)) u)"
    by (simp only: Localize_def ps(1) rbind.simps prod.case remap)
  moreover note localized_rows [OF wf o0 n(1,2) map_re lu(2) o1_def]
  ultimately show ?thesis using su by (auto simp: ks_def)
qed

text \<open>A minibatch of two rows over the feature ids 7, 9 and 7.\<close>

definition demo_batch :: "(u32, int) RowBlock" where
  "demo_batch = \<lparr>rb_size = 2, rb_offset = [0, 2, 3], rb_label = [1, 0], rb_weight = None,
     rb_index = [7, 9, 7], rb_value = None\<rparr>"

theorem Localize_correct_witness:
  "\<exists>o' u f. Localize (sort_key pr_k) (2 ^ 64 - 1) id 2 demo_batch rbc_Clear [] [] = Ok (o', u, f) \<and>
     sorted_wrt (<) u \<and> set u = {7, 9} \<and> f = map (count_list [7, 9, 7]) u \<and> rc_wf o' \<and>
     (\<forall>x\<in>set (rc_index o'). unat x < length u) \<and>
     map (apsnd (map (apfst (\<lambda>x. u ! unat x)))) (rc_rows o') =
       [(1, [(7, None), (9, None)]), (0, [(7, None)])]"
proof -
  have key: "local_key (2 ^ 64 - 1) x = Ok x" for x :: u32 by (simp add: local_key_def)
  have wf: "rb_wf demo_batch" "rb_offset demo_batch ! 0 = 0" "rb_size demo_batch \<noteq> 0"
    "rb_offset demo_batch ! rb_size demo_batch = 3" by (simp_all add: demo_batch_def rb_wf_def)
  have rows: "rb_rows demo_batch = [(1, [(7, None), (9, None)]), (0, [(7, None)])]"
    and idx: "rb_index demo_batch = [7, 9, 7]"
    by (simp_all add: demo_batch_def rb_rows_def upt_conv_Cons)
  show ?thesis
    using Localize_correct [OF stable.sorter_axioms _ key wf, where nt = 2 and sat = id and ?u0.0 = "[]" and ?f0.0 = "[]"]
    by (simp add: rows idx insert_commute del: count_list.simps)
qed

text \<open>
  A minibatch whose rows are all empty makes \<open>CountUniqIndex\<close> read \<open>pair_[0]\<close> of an empty
  vector: it is rejected by no check, and the read is out of bounds.
\<close>

theorem CountUniqIndex_empty_rows:
  assumes "rb_size blk \<noteq> 0" and "rb_size blk < length (rb_offset blk)"
    and "rb_offset blk ! rb_size blk = 0" and "0 < lc_nt lc" and "sorter std_sort pr_k"
  shows "CountUniqIndex std_sort mk sat blk (lc, u, f) = Err OutOfBounds"
proof -
  obtain ps where "ParallelSort std_sort pr_k (lc_nt lc) [] = Ok ps" "mset ps = mset []"
    using sorter.run_sorts [OF assms(5,4)] by blast
  then show ?thesis
    using assms(1-3) by (simp add: CountUniqIndex_def read_run_def nth_res_def)
qed

theorem CountUniqIndex_empty_rows_witness:
  "CountUniqIndex (sort_key pr_k) (2 ^ 64 - 1) id
     (demo_batch\<lparr>rb_size := 1, rb_offset := [0, 0]\<rparr>) (\<lparr>lc_nt = 2, lc_pair = []\<rparr>, [], []) = Err OutOfBounds"
  by (rule CountUniqIndex_empty_rows) (simp_all add: demo_batch_def stable.sorter_axioms)

end
