(* ===== verification/WorkloadPool.thy ===== *)
theory WorkloadPool
  imports Prelude "HOL-Library.AList"
begin

text \<open>
  \<open>src/base/workload_pool.h\<close>: the scheduler's pool of file parts. Every public operation holds
  \<open>mu_\<close> for its whole body, so a run of the pool is a sequence of whole operations; the
  straggler thread is one more caller. \<open>task_\<close> is an association list; the iteration order of
  the \<open>unordered_map\<close> is not fixed by the language, so \<open>GetOne\<close> takes the order in which it
  visits the keys as an argument. \<open>GetTime()\<close> and \<open>rand()\<close> are arguments too. Times are real
  numbers. The log lines are left out.
\<close>

section \<open>State\<close>

record File =
  f_filename :: string
  f_format :: string
  f_n :: nat
  f_k :: nat

record Task =
  t_node :: "string list"
  t_track :: "nat list"   \<comment> \<open>0: available, 1: assigned, 2: done\<close>
  t_done :: nat

record Assigned =
  as_filename :: string
  as_node :: string
  as_n :: nat
  as_k :: nat
  as_start :: real

record Pool =
  num_file_per_wl :: nat
  num_finished :: nat
  task :: "(string \<times> Task) list"
  assigned :: "Assigned list"
  inited :: bool
  shuffle :: bool
  time :: "real list"

definition new_Task :: Task where
  "new_Task = \<lparr>t_node = [], t_track = [], t_done = 0\<rparr>"

text \<open>The members' initial values; \<open>shuffle_\<close> is never written, its value is arbitrary.\<close>

definition new_Pool :: "bool \<Rightarrow> Pool" where
  "new_Pool sh = \<lparr>num_file_per_wl = 1, num_finished = 0, task = [], assigned = [],
     inited = False, shuffle = sh, time = []\<rparr>"

section \<open>Operations\<close>

text \<open>\<open>Add\<close>: one file at a time; a file already known must have the same number of parts.\<close>

definition add_file :: "nat \<Rightarrow> string \<Rightarrow> File \<Rightarrow> Pool \<Rightarrow> Pool res" where
  "add_file npart ident f p =
     (let t0 = (case map_of (task p) (f_filename f) of None \<Rightarrow> new_Task | Some t \<Rightarrow> t);
          t1 = (if t_track t0 = [] then t0\<lparr>t_track := replicate npart 0\<rparr> else t0);
          t2 = (if ident \<noteq> '''' then t1\<lparr>t_node := List.insert ident (t_node t1)\<rparr> else t1)
      in check (length (t_track t1) = npart) ''t.track.size() == npart''
           (Ok (p\<lparr>task := AList.update (f_filename f) t2 (task p)\<rparr>)))"

fun add_files :: "nat \<Rightarrow> string \<Rightarrow> File list \<Rightarrow> Pool \<Rightarrow> Pool res" where
  "add_files npart ident [] p = Ok p"
| "add_files npart ident (f # fs) p = rbind (add_file npart ident f p) (add_files npart ident fs)"

definition Add :: "File list \<Rightarrow> nat \<Rightarrow> string \<Rightarrow> Pool \<Rightarrow> Pool res" where
  "Add files npart ident p = add_files npart ident files (p\<lparr>inited := True\<rparr>)"

definition Clear :: "Pool \<Rightarrow> Pool" where
  "Clear p = p\<lparr>task := [], assigned := [], inited := False, time := [], num_finished := 0\<rparr>"

definition ClearRemain :: "Pool \<Rightarrow> Pool" where
  "ClearRemain p = p\<lparr>task := []\<rparr>"

text \<open>\<open>Mark\<close>: a finished part is counted once; a task whose parts are all done is erased.\<close>

definition Mark :: "string \<Rightarrow> nat \<Rightarrow> nat \<Rightarrow> Pool \<Rightarrow> Pool res" where
  "Mark filename k mark p =
     (case map_of (task p) filename of
        None \<Rightarrow> Ok p
      | Some t \<Rightarrow>
          check (k < length (t_track t)) ''k < t.track.size()''
           (let hit = (mark = 2 \<and> t_track t ! k \<noteq> 2);
                t' = t\<lparr>t_done := (if hit then t_done t + 1 else t_done t), t_track := (t_track t)[k := mark]\<rparr>;
                p' = p\<lparr>num_finished := (if hit then num_finished p + 1 else num_finished p)\<rparr>
            in if t_done t' = length (t_track t')
               then Ok (p'\<lparr>task := AList.delete filename (task p)\<rparr>)
               else Ok (p'\<lparr>task := AList.update filename t' (task p)\<rparr>)))"

text \<open>
  The loop shared by \<open>Set\<close> and \<open>RemoveStraggler\<close>: walk over \<open>assigned_\<close>, act on the entries that
  are hit and erase them. \<open>kept\<close> is the part of the list before the iterator.
\<close>

fun sweep :: "(Assigned \<Rightarrow> bool) \<Rightarrow> (Assigned \<Rightarrow> Pool \<Rightarrow> Pool res) \<Rightarrow> Assigned list \<Rightarrow> Assigned list \<Rightarrow>
    Pool \<Rightarrow> Pool res" where
  "sweep hit act kept [] p = Ok p"
| "sweep hit act kept (a # as) p =
     (if hit a then rbind (act a p) (\<lambda>p'. sweep hit act kept as (p'\<lparr>assigned := kept @ as\<rparr>))
      else sweep hit act (kept @ [a]) as p)"

definition Set :: "real \<Rightarrow> string \<Rightarrow> bool \<Rightarrow> Pool \<Rightarrow> Pool res" where
  "Set now ident del p =
     sweep (\<lambda>a. as_node a = ident)
       (\<lambda>a p. if \<not> del then Mark (as_filename a) (as_k a) 0 p
              else Mark (as_filename a) (as_k a) 2 (p\<lparr>time := time p @ [now - as_start a]\<rparr>))
       [] (assigned p) p"

definition Reset :: "real \<Rightarrow> string \<Rightarrow> Pool \<Rightarrow> Pool res" where
  "Reset now ident = Set now ident False"

definition Finish :: "real \<Rightarrow> string \<Rightarrow> Pool \<Rightarrow> Pool res" where
  "Finish now ident = Set now ident True"

text \<open>\<open>GetOne\<close>: the parts it passes, in the order of the loops; then the \<open>pick\<close>-th of them.\<close>

definition eligible :: "string \<Rightarrow> Task \<Rightarrow> bool" where
  "eligible ident t \<longleftrightarrow> (t_node t = [] \<or> ident \<in> set (t_node t)) \<and> t_done t \<noteq> length (t_track t)"

definition candidates :: "string list \<Rightarrow> string \<Rightarrow> Pool \<Rightarrow> (string \<times> nat) list" where
  "candidates ord ident p =
     concat (map (\<lambda>fn. case map_of (task p) fn of
         None \<Rightarrow> []
       | Some t \<Rightarrow> (if eligible ident t
            then map (Pair fn) (filter (\<lambda>k. t_track t ! k = 0) [0..<length (t_track t)]) else [])) ord)"

definition assign_part :: "real \<Rightarrow> string \<Rightarrow> string \<Rightarrow> nat \<Rightarrow> File list \<Rightarrow> Pool \<Rightarrow> Pool \<times> File list" where
  "assign_part now ident fn k wl p =
     (case map_of (task p) fn of
        None \<Rightarrow> (p, wl)
      | Some t \<Rightarrow>
          let n = length (t_track t) in
          (p\<lparr>assigned := assigned p @ [\<lparr>as_filename = fn, as_node = ident, as_n = n, as_k = k, as_start = now\<rparr>],
             task := AList.update fn (t\<lparr>t_track := (t_track t)[k := 1]\<rparr>) (task p)\<rparr>,
           wl @ [\<lparr>f_filename = fn, f_format = '''', f_n = n, f_k = k\<rparr>]))"

definition GetOne :: "string list \<Rightarrow> nat \<Rightarrow> real \<Rightarrow> string \<Rightarrow> File list \<Rightarrow> Pool \<Rightarrow> Pool \<times> File list" where
  "GetOne ord rnd now ident wl p =
     (let cs = candidates ord ident p; n = length cs in
      if shuffle p \<and> n = 0 then (p, wl)
      else let pick = (if shuffle p then rnd mod n else 0) in
        (case drop pick cs of [] \<Rightarrow> (p, wl) | (fn, k) # _ \<Rightarrow> assign_part now ident fn k wl p))"

fun get_loop :: "nat \<Rightarrow> (nat \<Rightarrow> string list) \<Rightarrow> (nat \<Rightarrow> nat) \<Rightarrow> real \<Rightarrow> string \<Rightarrow> File list \<Rightarrow> Pool \<Rightarrow> Pool \<times> File list" where
  "get_loop 0 ord rnd now ident wl p = (p, wl)"
| "get_loop (Suc i) ord rnd now ident wl p =
     (case GetOne (ord i) (rnd i) now ident wl p of (p', wl') \<Rightarrow> get_loop i ord rnd now ident wl' p')"

text \<open>\<open>Get\<close>: clears the workload's files, then \<open>num_file_per_wl_\<close> times \<open>GetOne\<close>.\<close>

definition Get :: "(nat \<Rightarrow> string list) \<Rightarrow> (nat \<Rightarrow> nat) \<Rightarrow> real \<Rightarrow> string \<Rightarrow> Pool \<Rightarrow> Pool \<times> File list" where
  "Get ord rnd now ident p = get_loop (num_file_per_wl p) ord rnd now ident [] p"

definition RemoveStraggler :: "real \<Rightarrow> Pool \<Rightarrow> Pool res" where
  "RemoveStraggler now p =
     (if length (time p) < 10 then Ok p
      else let mean = sum_list (time p) / real (length (time p)) in
        sweep (\<lambda>a. now - as_start a > max (mean * 2) 5)
          (\<lambda>a. Mark (as_filename a) (as_k a) 0) [] (assigned p) p)"

definition IsFinished :: "Pool \<Rightarrow> bool" where
  "IsFinished p \<longleftrightarrow> inited p \<and> task p = [] \<and> assigned p = []"

definition num_assigned :: "Pool \<Rightarrow> nat" where
  "num_assigned p = length (assigned p)"

section \<open>The invariant\<close>

definition task_ok :: "Task \<Rightarrow> bool" where
  "task_ok t \<longleftrightarrow> set (t_track t) \<subseteq> {0, 1, 2} \<and> t_done t = count_list (t_track t) 2 \<and>
     t_done t < length (t_track t)"

definition part_of :: "Assigned \<Rightarrow> string \<times> nat" where
  "part_of a = (as_filename a, as_k a)"

text \<open>
  A part is marked assigned exactly when one entry of \<open>assigned_\<close> holds it. Entries of files
  that \<open>ClearRemain\<close> dropped stay in the list and are harmless.
\<close>

definition pool_inv :: "Pool \<Rightarrow> bool" where
  "pool_inv p \<longleftrightarrow> distinct (map fst (task p)) \<and>
     (\<forall>fn t. map_of (task p) fn = Some t \<longrightarrow> task_ok t) \<and>
     distinct (map part_of (assigned p)) \<and>
     (\<forall>fn t k. map_of (task p) fn = Some t \<longrightarrow> k < length (t_track t) \<longrightarrow>
        (t_track t ! k = 1 \<longleftrightarrow> (fn, k) \<in> part_of ` set (assigned p))) \<and>
     (\<forall>a t. a \<in> set (assigned p) \<longrightarrow> map_of (task p) (as_filename a) = Some t \<longrightarrow> as_k a < length (t_track t))"

text \<open>The number of parts that are not done yet.\<close>

definition pending :: "Pool \<Rightarrow> nat" where
  "pending p = sum_list (map (\<lambda>(fn, t). length (t_track t) - t_done t) (task p))"

text \<open>The parts that still have to be processed, the parts on offer and the parts some worker holds.\<close>

definition live :: "Pool \<Rightarrow> (string \<times> nat) set" where
  "live p = {(fn, k). \<exists>t. map_of (task p) fn = Some t \<and> k < length (t_track t) \<and> t_track t ! k \<noteq> 2}"

definition avail :: "Pool \<Rightarrow> (string \<times> nat) set" where
  "avail p = {(fn, k). \<exists>t. map_of (task p) fn = Some t \<and> k < length (t_track t) \<and> t_track t ! k = 0}"

definition held :: "Pool \<Rightarrow> (string \<times> nat) set" where
  "held p = part_of ` set (assigned p)"

lemma pool_inv_new [simp]: "pool_inv (new_Pool sh)"
  by (simp add: pool_inv_def new_Pool_def)

lemma pool_inv_Clear [simp]: "pool_inv (Clear p)"
  by (simp add: pool_inv_def Clear_def)

lemma pool_inv_ClearRemain: "pool_inv p \<Longrightarrow> pool_inv (ClearRemain p)"
  by (simp add: pool_inv_def ClearRemain_def)

lemma pool_inv_cong:
  "task p = task p' \<Longrightarrow> assigned p = assigned p' \<Longrightarrow> pool_inv p \<longleftrightarrow> pool_inv p'"
  by (simp add: pool_inv_def)

lemma map_of_delete: "map_of (AList.delete k al) = (map_of al)(k := None)"
  by (rule delete_conv')

lemma map_of_update: "map_of (AList.update k v al) = (map_of al)(k \<mapsto> v)"
  by (rule update_conv')

lemma distinct_fst_delete: "distinct (map fst al) \<Longrightarrow> distinct (map fst (AList.delete k al))"
  by (rule distinct_delete)

lemma distinct_fst_update: "distinct (map fst al) \<Longrightarrow> distinct (map fst (AList.update k v al))"
  by (rule distinct_update)

lemmas alist_simps = map_of_delete map_of_update distinct_fst_delete distinct_fst_update

lemma sum_list_delete:
  assumes "distinct (map fst al)" and "map_of al k = Some t"
  shows "sum_list (map (\<lambda>(fn, t). g t) al) = (g t :: nat) + sum_list (map (\<lambda>(fn, t). g t) (AList.delete k al))"
  using assms
proof (induction al)
  case (Cons x al)
  obtain k' v' where x: "x = (k', v')" by (cases x)
  show ?case
  proof (cases "k' = k")
    case True
    then have "AList.delete k al = al" using Cons.prems(1) x by (auto intro: delete_idem)
    then show ?thesis using True Cons.prems x by simp
  next
    case False
    then show ?thesis using Cons x by (simp add: AList.delete_eq)
  qed
qed simp

lemma sum_list_update:
  assumes "distinct (map fst al)" and "map_of al k = Some t"
  shows "sum_list (map (\<lambda>(fn, t). g t) (AList.update k t' al)) + (g t :: nat) =
         g t' + sum_list (map (\<lambda>(fn, t). g t) al)"
proof -
  have d: "distinct (map fst (AList.update k t' al))" using assms(1) by (rule distinct_update)
  have m: "map_of (AList.update k t' al) k = Some t'" by (simp add: map_of_update)
  have e: "AList.delete k (AList.update k t' al) = AList.delete k al" by (rule delete_update_same)
  show ?thesis using sum_list_delete [OF d m, of g] sum_list_delete [OF assms, of g] e by simp
qed

lemma count_list_update:
  assumes "k < length xs"
  shows "count_list (xs[k := y]) z + (if xs ! k = z then 1 else 0) = count_list xs z + (if y = z then 1 else 0)"
  using assms
proof (induction xs arbitrary: k)
  case (Cons x xs)
  show ?case using Cons.IH [of "k - 1"] Cons.prems by (cases k) (auto split: if_splits)
qed simp

lemma count_list_full: "count_list xs z = length xs \<Longrightarrow> k < length xs \<Longrightarrow> xs ! k = z"
proof (induction xs arbitrary: k)
  case (Cons x xs)
  have "count_list xs z \<le> length xs" by (rule count_le_length)
  with Cons show ?case by (cases k) (auto split: if_splits)
qed simp

text \<open>The frame of an operation: it touches only the tasks, the assignments, the counters and times.\<close>

definition same_conf :: "Pool \<Rightarrow> Pool \<Rightarrow> bool" where
  "same_conf p p' \<longleftrightarrow> inited p' = inited p \<and> shuffle p' = shuffle p \<and> num_file_per_wl p' = num_file_per_wl p"

definition total :: "Pool \<Rightarrow> nat" where
  "total p = num_finished p + pending p"

lemma pool_inv_drop:
  assumes "pool_inv p" and "assigned p = xs @ a # ys" and "map_of (task p) (as_filename a) = None"
  shows "pool_inv (p\<lparr>assigned := xs @ ys\<rparr>)"
  using assms unfolding pool_inv_def by (auto simp: part_of_def image_iff)

lemma pool_inv_assigned_track:
  assumes "pool_inv p" and "a \<in> set (assigned p)" and "map_of (task p) (as_filename a) = Some t"
  shows "as_k a < length (t_track t)" and "t_track t ! as_k a = 1" and "task_ok t"
proof -
  show k: "as_k a < length (t_track t)" and "task_ok t" using assms by (auto simp: pool_inv_def)
  have "(as_filename a, as_k a) \<in> part_of ` set (assigned p)" using assms(2) by (auto simp: part_of_def image_iff)
  then show "t_track t ! as_k a = 1" using assms(1,3) k by (auto simp: pool_inv_def)
qed

lemma part_removed:
  assumes "distinct (map part_of (xs @ a # ys))"
  shows "q \<in> part_of ` set (xs @ ys) \<longleftrightarrow> q \<in> part_of ` set (xs @ a # ys) \<and> q \<noteq> part_of a"
  using assms by (auto simp: image_iff)

lemma pool_inv_release_erase:
  assumes "pool_inv p" and "assigned p = xs @ a # ys"
  shows "pool_inv (p\<lparr>task := AList.delete (as_filename a) (task p), assigned := xs @ ys\<rparr>)"
proof -
  have d: "distinct (map part_of (xs @ a # ys))" using assms by (simp add: pool_inv_def)
  show ?thesis
    using assms part_removed [OF d]
    unfolding pool_inv_def by (auto simp: alist_simps part_of_def)
qed

lemma pool_inv_release_update:
  assumes inv: "pool_inv p" and as: "assigned p = xs @ a # ys"
    and t: "map_of (task p) (as_filename a) = Some t"
    and t': "task_ok t'" "t_track t' = (t_track t)[as_k a := m]" "m \<noteq> 1"
  shows "pool_inv (p\<lparr>task := AList.update (as_filename a) t' (task p), assigned := xs @ ys\<rparr>)"
proof -
  have d: "distinct (map part_of (xs @ a # ys))" using inv as by (simp add: pool_inv_def)
  note rem = part_removed [OF d]
  have "(t_track t' ! k = 1) = ((as_filename a, k) \<in> part_of ` set (xs @ ys))"
    if "k < length (t_track t')" for k
  proof (cases "k = as_k a")
    case True
    then show ?thesis using t' that rem [of "part_of a"] by (simp add: part_of_def)
  next
    case False
    then have "(t_track t ! k = 1) = ((as_filename a, k) \<in> part_of ` set (assigned p))"
      using inv t t' that by (auto simp: pool_inv_def)
    then show ?thesis using False t' as rem by (simp add: part_of_def)
  qed
  then show ?thesis
    using inv as rem t t' unfolding pool_inv_def by (auto simp: alist_simps part_of_def)
qed

lemma live_delete: "live (p\<lparr>task := AList.delete fn (task p)\<rparr>) = live p - {fn} \<times> UNIV"
  by (auto simp: live_def alist_simps split: if_splits)

lemma live_update:
  "live (p\<lparr>task := AList.update fn t (task p)\<rparr>) =
     live p - {fn} \<times> UNIV \<union> {fn} \<times> {k. k < length (t_track t) \<and> t_track t ! k \<noteq> 2}"
  by (auto simp: live_def alist_simps split: if_splits)

lemma live_row: "map_of (task p) fn = Some t \<Longrightarrow> (fn, k) \<in> live p \<longleftrightarrow> k < length (t_track t) \<and> t_track t ! k \<noteq> 2"
  by (simp add: live_def)

lemma live_cong: "task p = task q \<Longrightarrow> live p = live q"
  by (simp add: live_def)

lemma Mark_release:
  assumes inv: "pool_inv p" and as: "assigned p = xs @ a # ys" and m: "mark = 0 \<or> mark = 2"
  shows "\<exists>p'. Mark (as_filename a) (as_k a) mark p = Ok p' \<and> pool_inv (p'\<lparr>assigned := xs @ ys\<rparr>) \<and>
           total p' = total p \<and> same_conf p p' \<and>
           live p' = live p - (if mark = 2 then {part_of a} else {})"
proof (cases "map_of (task p) (as_filename a)")
  case None
  then have "part_of a \<notin> live p" by (simp add: live_def part_of_def)
  then show ?thesis using pool_inv_drop [OF inv as None] None by (simp add: Mark_def same_conf_def)
next
  case (Some t)
  have a: "a \<in> set (assigned p)" using as by simp
  note at = pool_inv_assigned_track [OF inv a Some]
  have dt: "distinct (map fst (task p))" using inv by (simp add: pool_inv_def)
  define d' where "d' = (if mark = 2 then t_done t + 1 else t_done t)"
  define t' where "t' = t\<lparr>t_done := d', t_track := (t_track t)[as_k a := mark]\<rparr>"
  define p1 where "p1 = p\<lparr>num_finished := (if mark = 2 then num_finished p + 1 else num_finished p)\<rparr>"
  have cnt: "d' = count_list (t_track t') 2"
    using count_list_update [OF at(1), of mark 2] at(2,3) m by (auto simp: task_ok_def d'_def t'_def)
  have sub: "set (t_track t') \<subseteq> {0, 1, 2}"
    using at(3) m set_update_subset_insert [of "t_track t" "as_k a" mark] by (auto simp: task_ok_def t'_def)
  have le: "d' \<le> length (t_track t')" using at(3) by (auto simp: task_ok_def d'_def t'_def)
  have inv1: "pool_inv p1" "assigned p1 = xs @ a # ys" "task p1 = task p"
    using inv as by (simp_all add: p1_def pool_inv_def)
  have mk: "Mark (as_filename a) (as_k a) mark p =
      (if d' = length (t_track t') then Ok (p1\<lparr>task := AList.delete (as_filename a) (task p)\<rparr>)
       else Ok (p1\<lparr>task := AList.update (as_filename a) t' (task p)\<rparr>))"
    using Some at m by (auto simp: Mark_def d'_def t'_def p1_def Let_def)
  show ?thesis
  proof (cases "d' = length (t_track t')")
    case True
    have mt: "mark = 2" "length (t_track t) = Suc (t_done t)"
      using True at(3) by (auto simp: d'_def t'_def task_ok_def split: if_splits)
    have "total (p1\<lparr>task := AList.delete (as_filename a) (task p)\<rparr>) = total p"
      using mt sum_list_delete [OF dt Some, of "\<lambda>t. length (t_track t) - t_done t"]
      by (simp add: total_def pending_def p1_def)
    moreover have "Mark (as_filename a) (as_k a) mark p = Ok (p1\<lparr>task := AList.delete (as_filename a) (task p)\<rparr>)"
      unfolding mk using True by (rule if_P)
    moreover have "pool_inv (p1\<lparr>task := AList.delete (as_filename a) (task p)\<rparr>\<lparr>assigned := xs @ ys\<rparr>)"
      using pool_inv_release_erase [OF inv1(1,2)] by (simp only: inv1(3))
    moreover have "same_conf p (p1\<lparr>task := AList.delete (as_filename a) (task p)\<rparr>)"
      by (simp_all add: same_conf_def p1_def)
    moreover have "live (p1\<lparr>task := AList.delete (as_filename a) (task p)\<rparr>) = live p - (if mark = 2 then {part_of a} else {})"
    proof -
      have full: "count_list (t_track t') 2 = length (t_track t')" using cnt True by simp
      have tr: "t_track t' = (t_track t)[as_k a := mark]" by (simp add: t'_def)
      have "k = as_k a" if "(as_filename a, k) \<in> live p" for k
        using that count_list_full [OF full, of k] live_row [OF Some, of k]
        by (cases "k = as_k a") (simp_all add: tr)
      moreover have "live p1 = live p" by (rule live_cong) (rule inv1(3))
      ultimately show ?thesis using live_delete [where p = p1 and fn = "as_filename a"] mt(1) unfolding inv1(3)
        by (auto simp: part_of_def)
    qed
    ultimately show ?thesis by blast
  next
    case False
    then have lt: "d' < length (t_track t)" using le by (simp add: t'_def)
    have "t_done t' = d'" by (simp add: t'_def)
    with False cnt sub le have ok: "task_ok t'" unfolding task_ok_def by linarith
    have "t_track t' = (t_track t)[as_k a := mark]" "mark \<noteq> 1" using m by (auto simp: t'_def)
    note upd = pool_inv_release_update [OF inv1(1,2), of t t' mark, unfolded inv1(3), OF Some ok this]
    have "total (p1\<lparr>task := AList.update (as_filename a) t' (task p)\<rparr>) = total p"
      using lt sum_list_update [OF dt Some, of "\<lambda>t. length (t_track t) - t_done t" t']
      by (cases "mark = 2") (simp_all add: total_def pending_def p1_def t'_def d'_def)
    moreover have "Mark (as_filename a) (as_k a) mark p = Ok (p1\<lparr>task := AList.update (as_filename a) t' (task p)\<rparr>)"
      unfolding mk using False by (rule if_not_P)
    moreover have "same_conf p (p1\<lparr>task := AList.update (as_filename a) t' (task p)\<rparr>)"
      by (simp_all add: same_conf_def p1_def)
    moreover have "live (p1\<lparr>task := AList.update (as_filename a) t' (task p)\<rparr>) = live p - (if mark = 2 then {part_of a} else {})"
    proof -
      have "(k < length (t_track t') \<and> t_track t' ! k \<noteq> 2) =
          ((as_filename a, k) \<in> live p - (if mark = 2 then {part_of a} else {}))" for k
        using at(1,2) m live_row [OF Some, of k] by (cases "k = as_k a") (auto simp: t'_def part_of_def)
      moreover have "live p1 = live p" by (rule live_cong) (rule inv1(3))
      ultimately show ?thesis using live_update [where p = p1 and fn = "as_filename a" and t = t'] unfolding inv1(3)
        by (auto simp: part_of_def split: if_splits)
    qed
    ultimately show ?thesis
      using upd by (intro exI [of _ "p1\<lparr>task := AList.update (as_filename a) t' (task p)\<rparr>"]) (simp only: inv1(3))
  qed
qed

section \<open>Every operation keeps the invariant\<close>

lemma total_assigned [simp]: "total (p\<lparr>assigned := x\<rparr>) = total p" "total (p\<lparr>time := y\<rparr>) = total p"
  by (simp_all add: total_def pending_def)

lemma same_conf_trans: "same_conf p q \<Longrightarrow> same_conf q r \<Longrightarrow> same_conf p r"
  by (simp add: same_conf_def)

lemma sweep_inv:
  assumes act: "\<And>a p xs ys. pool_inv p \<Longrightarrow> assigned p = xs @ a # ys \<Longrightarrow>
      \<exists>p'. act a p = Ok p' \<and> pool_inv (p'\<lparr>assigned := xs @ ys\<rparr>) \<and> total p' = total p \<and> same_conf p p' \<and>
         live p' = live p - eff a"
    and "pool_inv p" and "assigned p = kept @ as"
  shows "\<exists>p'. sweep hit act kept as p = Ok p' \<and> pool_inv p' \<and> total p' = total p \<and> same_conf p p' \<and>
           assigned p' = kept @ filter (\<lambda>a. \<not> hit a) as \<and>
           live p' = live p - \<Union> (eff ` {a \<in> set as. hit a})"
  using assms(2,3)
proof (induction as arbitrary: kept p)
  case Nil
  then show ?case by (simp add: same_conf_def)
next
  case (Cons a as)
  show ?case
  proof (cases "hit a")
    case True
    obtain p1 where p1: "act a p = Ok p1" "pool_inv (p1\<lparr>assigned := kept @ as\<rparr>)" "total p1 = total p"
      "same_conf p p1" "live p1 = live p - eff a" using act [OF Cons.prems] by blast
    let ?q = "p1\<lparr>assigned := kept @ as\<rparr>"
    obtain p2 where p2: "sweep hit act kept as ?q = Ok p2" "pool_inv p2" "total p2 = total ?q"
      "same_conf ?q p2" "assigned p2 = kept @ filter (\<lambda>a. \<not> hit a) as"
      "live p2 = live ?q - \<Union> (eff ` {a \<in> set as. hit a})"
      using Cons.IH [OF p1(2)] by auto
    have "same_conf p p2" using p1(4) p2(4) by (simp add: same_conf_def)
    moreover have "live ?q = live p1" by (rule live_cong) simp
    then have "live p2 = live p - \<Union> (eff ` {b \<in> set (a # as). hit b})"
      using p2(6) p1(5) True by auto
    ultimately show ?thesis using p1 p2 True by simp
  next
    case False
    then have "{b \<in> set (a # as). hit b} = {b \<in> set as. hit b}" by auto
    then show ?thesis using False Cons.IH [of p "kept @ [a]"] Cons.prems by simp
  qed
qed

lemma Set_inv:
  assumes "pool_inv p"
  shows "\<exists>p'. Set now ident del p = Ok p' \<and> pool_inv p' \<and> total p' = total p \<and> same_conf p p' \<and>
           assigned p' = filter (\<lambda>a. as_node a \<noteq> ident) (assigned p) \<and>
           live p' = live p - (if del then part_of ` {a \<in> set (assigned p). as_node a = ident} else {})"
proof -
  have act: "\<exists>p'. (if \<not> del then Mark (as_filename a) (as_k a) 0 q
        else Mark (as_filename a) (as_k a) 2 (q\<lparr>time := time q @ [now - as_start a]\<rparr>)) = Ok p' \<and>
      pool_inv (p'\<lparr>assigned := xs @ ys\<rparr>) \<and> total p' = total q \<and> same_conf q p' \<and>
      live p' = live q - (if del then {part_of a} else {})"
    if q: "pool_inv q" "assigned q = xs @ a # ys" for q a xs ys
  proof (cases del)
    case False
    then show ?thesis using Mark_release [OF q, of 0] by auto
  next
    case True
    let ?q = "q\<lparr>time := time q @ [now - as_start a]\<rparr>"
    have "pool_inv ?q" "assigned ?q = xs @ a # ys" using q by (simp_all add: pool_inv_def)
    have "live ?q = live q" by (rule live_cong) simp
    with Mark_release [OF \<open>pool_inv ?q\<close> \<open>assigned ?q = _\<close>, of 2] True show ?thesis
      by (auto simp: same_conf_def)
  qed
  have "\<Union> ((\<lambda>a. if del then {part_of a} else {}) ` {a \<in> set (assigned p). as_node a = ident}) =
      (if del then part_of ` {a \<in> set (assigned p). as_node a = ident} else {})" by auto
  then show ?thesis
    unfolding Set_def using sweep_inv [where kept = "[]" and as = "assigned p" and hit = "\<lambda>a. as_node a = ident"
      and eff = "\<lambda>a. if del then {part_of a} else {}", OF act assms]
    by simp
qed

lemma RemoveStraggler_inv:
  assumes "pool_inv p"
  shows "\<exists>p'. RemoveStraggler now p = Ok p' \<and> pool_inv p' \<and> total p' = total p \<and> same_conf p p' \<and>
           set (assigned p') \<subseteq> set (assigned p) \<and> live p' = live p"
proof (cases "length (time p) < 10")
  case True
  then show ?thesis using assms by (simp add: RemoveStraggler_def same_conf_def)
next
  case False
  have act: "\<exists>p'. Mark (as_filename a) (as_k a) 0 q = Ok p' \<and> pool_inv (p'\<lparr>assigned := xs @ ys\<rparr>) \<and>
      total p' = total q \<and> same_conf q p' \<and> live p' = live q - {}" if "pool_inv q" "assigned q = xs @ a # ys" for q a xs ys
    using Mark_release [OF that, of 0] by auto
  from sweep_inv [where kept = "[]" and as = "assigned p" and act = "\<lambda>a. Mark (as_filename a) (as_k a) 0"
      and eff = "\<lambda>a. {}" and hit = "\<lambda>a. now - as_start a > max (sum_list (time p) / real (length (time p)) * 2) 5", OF act assms] False
  show ?thesis by (auto simp: RemoveStraggler_def Let_def)
qed

text \<open>\<open>Add\<close> for files that no outstanding assignment of a dropped task refers to.\<close>

definition addable :: "nat \<Rightarrow> string list \<Rightarrow> Pool \<Rightarrow> bool" where
  "addable npart fns p \<longleftrightarrow> 0 < npart \<and>
     (\<forall>fn\<in>set fns. case map_of (task p) fn of
        Some t \<Rightarrow> length (t_track t) = npart
      | None \<Rightarrow> (\<forall>a\<in>set (assigned p). as_filename a \<noteq> fn))"

lemma addable_cong: "task p = task q \<Longrightarrow> assigned p = assigned q \<Longrightarrow> addable npart fns p = addable npart fns q"
  by (simp only: addable_def)

lemma task_ok_new: "0 < npart \<Longrightarrow> task_ok \<lparr>t_node = ns, t_track = replicate npart 0, t_done = 0\<rparr>"
  by (auto simp: task_ok_def count_list_0_iff)

lemma AList_update_new: "k \<notin> fst ` set al \<Longrightarrow> AList.update k v al = al @ [(k, v)]"
  by (induction al) auto

lemma add_file_inv:
  assumes inv: "pool_inv p" and ad: "addable npart (f_filename f # fns) p"
  shows "\<exists>p'. add_file npart ident f p = Ok p' \<and> pool_inv p' \<and> assigned p' = assigned p \<and>
     fst ` set (task p') = insert (f_filename f) (fst ` set (task p)) \<and> addable npart fns p' \<and>
     same_conf p p' \<and> live p' = live p \<union> (if f_filename f \<in> fst ` set (task p) then {} else {f_filename f} \<times> {..<npart}) \<and>
     total p' = total p + (if f_filename f \<in> fst ` set (task p) then 0 else npart)"
proof -
  let ?fn = "f_filename f"
  have dt: "distinct (map fst (task p))" using inv by (simp add: pool_inv_def)
  have np: "0 < npart" using ad by (simp add: addable_def)
  define ins where "ins t = (if ident \<noteq> '''' then t\<lparr>t_node := List.insert ident (t_node t)\<rparr> else t)" for t :: Task
  have ins [simp]: "t_track (ins t) = t_track t" "t_done (ins t) = t_done t" "task_ok (ins t) = task_ok t" for t
    by (simp_all add: ins_def task_ok_def)
  show ?thesis
  proof (cases "map_of (task p) ?fn")
    case (Some t)
    have ok: "task_ok t" "length (t_track t) = npart" using inv ad Some by (auto simp: pool_inv_def addable_def)
    have "t_track t \<noteq> []" using ok np by auto
    then have e: "add_file npart ident f p = Ok (p\<lparr>task := AList.update ?fn (ins t) (task p)\<rparr>)"
      using Some ok by (simp add: add_file_def ins_def Let_def)
    have "total (p\<lparr>task := AList.update ?fn (ins t) (task p)\<rparr>) = total p"
      using sum_list_update [OF dt Some, of "\<lambda>t. length (t_track t) - t_done t" "ins t"]
      by (simp add: total_def pending_def)
    moreover have "?fn \<in> fst ` set (task p)" using Some by (rule image_eqI [rotated, OF map_of_SomeD]) simp
    moreover have "pool_inv (p\<lparr>task := AList.update ?fn (ins t) (task p)\<rparr>)"
      using inv Some by (auto simp: pool_inv_def alist_simps)
    moreover have "live (p\<lparr>task := AList.update ?fn (ins t) (task p)\<rparr>) = live p"
      using live_update [where p = p and fn = ?fn and t = "ins t"] live_row [OF Some] by auto
    moreover have "addable npart fns (p\<lparr>task := AList.update ?fn (ins t) (task p)\<rparr>)"
      using ad ok by (auto simp: addable_def alist_simps split: option.splits)
    ultimately show ?thesis using e by (simp add: dom_update same_conf_def)
  next
    case None
    let ?t = "ins \<lparr>t_node = [], t_track = replicate npart 0, t_done = 0\<rparr>"
    have e: "add_file npart ident f p = Ok (p\<lparr>task := AList.update ?fn ?t (task p)\<rparr>)"
      using None by (simp add: add_file_def ins_def Let_def new_Task_def)
    have ok: "task_ok ?t" using task_ok_new [OF np] by simp
    have nofn: "?fn \<notin> fst ` set (task p)" using None by (metis map_of_eq_None_iff)
    have "total (p\<lparr>task := AList.update ?fn ?t (task p)\<rparr>) = total p + npart"
      by (simp add: total_def pending_def AList_update_new [OF nofn])
    moreover have noas: "\<forall>a\<in>set (assigned p). as_filename a \<noteq> ?fn" using ad None by (simp add: addable_def)
    moreover have "pool_inv (p\<lparr>task := AList.update ?fn ?t (task p)\<rparr>)"
      using inv ok noas by (auto simp: pool_inv_def alist_simps part_of_def)
    moreover have "live (p\<lparr>task := AList.update ?fn ?t (task p)\<rparr>) = live p \<union> {?fn} \<times> {..<npart}"
      using None unfolding live_update by (auto simp: live_def)
    moreover have "addable npart fns (p\<lparr>task := AList.update ?fn ?t (task p)\<rparr>)"
      using ad by (auto simp: addable_def alist_simps split: option.splits)
    ultimately show ?thesis using e nofn by (simp add: dom_update same_conf_def)
  qed
qed

text \<open>The parts that \<open>Add\<close> brings in: those of the files the pool does not know yet.\<close>

definition new_parts :: "nat \<Rightarrow> string list \<Rightarrow> Pool \<Rightarrow> (string \<times> nat) set" where
  "new_parts npart fns p = (set fns - fst ` set (task p)) \<times> {..<npart}"

lemma new_parts_Cons:
  assumes "fst ` set (task p') = insert fn (fst ` set (task p))"
  shows "new_parts npart (fn # fns) p = (if fn \<in> fst ` set (task p) then {} else {fn} \<times> {..<npart}) \<union> new_parts npart fns p'"
  using assms by (auto simp: new_parts_def)

lemma finite_new_parts [simp]: "finite (new_parts npart fns p)"
  by (simp add: new_parts_def)

lemma add_files_inv:
  assumes "pool_inv p" and "addable npart (map f_filename fs) p"
  shows "\<exists>p'. add_files npart ident fs p = Ok p' \<and> pool_inv p' \<and> assigned p' = assigned p \<and> same_conf p p' \<and>
     live p' = live p \<union> new_parts npart (map f_filename fs) p \<and>
     total p' = total p + card (new_parts npart (map f_filename fs) p)"
  using assms
proof (induction fs arbitrary: p)
  case Nil
  then show ?case by (simp add: same_conf_def new_parts_def)
next
  case (Cons f fs)
  let ?new = "if f_filename f \<in> fst ` set (task p) then {} else {f_filename f} \<times> {..<npart}"
  obtain p1 where p1: "add_file npart ident f p = Ok p1" "pool_inv p1" "assigned p1 = assigned p"
    "fst ` set (task p1) = insert (f_filename f) (fst ` set (task p))" "addable npart (map f_filename fs) p1"
    "same_conf p p1" "live p1 = live p \<union> ?new"
    "total p1 = total p + (if f_filename f \<in> fst ` set (task p) then 0 else npart)"
    using add_file_inv [OF Cons.prems(1), of npart f "map f_filename fs" ident] Cons.prems(2)
    unfolding list.map by blast
  have np: "new_parts npart (map f_filename (f # fs)) p = ?new \<union> new_parts npart (map f_filename fs) p1"
    using new_parts_Cons [OF p1(4)] by simp
  have disj: "?new \<inter> new_parts npart (map f_filename fs) p1 = {}" using p1(4) by (auto simp: new_parts_def)
  have "card (new_parts npart (map f_filename (f # fs)) p) =
      (if f_filename f \<in> fst ` set (task p) then 0 else npart) + card (new_parts npart (map f_filename fs) p1)"
    unfolding np using card_Un_disjoint [OF _ _ disj] by (simp add: card_cartesian_product)
  moreover obtain p2 where "add_files npart ident fs p1 = Ok p2" "pool_inv p2" "assigned p2 = assigned p1" "same_conf p1 p2"
    "live p2 = live p1 \<union> new_parts npart (map f_filename fs) p1"
    "total p2 = total p1 + card (new_parts npart (map f_filename fs) p1)"
    using Cons.IH [OF p1(2,5)] by blast
  ultimately show ?case
    unfolding np using p1 same_conf_trans [OF p1(6)] by (intro exI [of _ p2]) auto
qed

lemma Add_inv:
  assumes "pool_inv p" and "addable npart (map f_filename fs) p"
  shows "\<exists>p'. Add fs npart ident p = Ok p' \<and> pool_inv p' \<and> assigned p' = assigned p \<and> inited p' \<and>
     live p' = live p \<union> new_parts npart (map f_filename fs) p \<and>
     total p' = total p + card (new_parts npart (map f_filename fs) p)"
proof -
  let ?p = "p\<lparr>inited := True\<rparr>"
  have eqs: "pool_inv ?p" "addable npart (map f_filename fs) ?p" "live ?p = live p" "total ?p = total p"
    "new_parts npart (map f_filename fs) ?p = new_parts npart (map f_filename fs) p"
    using assms addable_cong [of ?p p] pool_inv_cong [of ?p p]
    by (simp_all add: live_def total_def pending_def new_parts_def)
  show ?thesis
    using add_files_inv [OF eqs(1,2), of ident] unfolding eqs(3-5) by (auto simp: Add_def same_conf_def)
qed

section \<open>Handing out parts\<close>

lemma candidates_iff:
  "(fn, k) \<in> set (candidates ord ident p) \<longleftrightarrow> fn \<in> set ord \<and>
     (\<exists>t. map_of (task p) fn = Some t \<and> eligible ident t \<and> k < length (t_track t) \<and> t_track t ! k = 0)"
  by (force simp: candidates_def split: option.splits if_splits)

lemma assign_part_inv:
  assumes inv: "pool_inv p" and t: "map_of (task p) fn = Some t" "k < length (t_track t)" "t_track t ! k = 0"
    and r: "assign_part now ident fn k wl p = (p', wl')"
  shows "pool_inv p'" "total p' = total p" "live p' = live p" "same_conf p p'"
    "assigned p' = assigned p @ [\<lparr>as_filename = fn, as_node = ident, as_n = length (t_track t), as_k = k, as_start = now\<rparr>]"
    "wl' = wl @ [\<lparr>f_filename = fn, f_format = '''', f_n = length (t_track t), f_k = k\<rparr>]"
proof -
  let ?a = "\<lparr>as_filename = fn, as_node = ident, as_n = length (t_track t), as_k = k, as_start = now\<rparr>"
  define t' where "t' = t\<lparr>t_track := (t_track t)[k := 1]\<rparr>"
  have p': "p' = p\<lparr>assigned := assigned p @ [?a], task := AList.update fn t' (task p)\<rparr>"
    and wl': "wl' = wl @ [\<lparr>f_filename = fn, f_format = '''', f_n = length (t_track t), f_k = k\<rparr>]"
    using r t(1) by (simp_all add: assign_part_def Let_def t'_def)
  have dt: "distinct (map fst (task p))" and okt: "task_ok t" using inv t by (auto simp: pool_inv_def)
  have ok: "task_ok t'"
    using okt count_list_update [OF t(2), of 1 2] t set_update_subset_insert [of "t_track t" k 1]
    by (auto simp: task_ok_def t'_def)
  have fresh: "(fn, k) \<notin> part_of ` set (assigned p)" using inv t unfolding pool_inv_def by (metis zero_neq_one)
  then have dist: "distinct (map part_of (assigned p @ [?a]))" using inv by (simp add: pool_inv_def part_of_def)
  have tr: "t_track t' ! j = 1 \<longleftrightarrow> (fn, j) \<in> part_of ` set (assigned p @ [?a])" if "j < length (t_track t')" for j
    using inv t that by (cases "j = k") (auto simp: pool_inv_def t'_def part_of_def)
  have le: "length (t_track t') = length (t_track t)" by (simp add: t'_def)
  show "pool_inv p'"
    using inv ok dist tr t le unfolding pool_inv_def p' by (auto simp: alist_simps part_of_def)
  show "live p' = live p"
  proof -
    have "live p' = live (p\<lparr>task := AList.update fn t' (task p)\<rparr>)" by (rule live_cong) (simp add: p')
    moreover have "(j < length (t_track t') \<and> t_track t' ! j \<noteq> 2) = ((fn, j) \<in> live p)" for j
      using live_row [OF t(1), of j] t(2,3) by (cases "j = k") (simp_all add: t'_def)
    ultimately show ?thesis unfolding live_update by auto
  qed
  show "total p' = total p"
    using sum_list_update [OF dt t(1), of "\<lambda>t. length (t_track t) - t_done t" t']
    by (simp add: p' total_def pending_def t'_def)
  show "same_conf p p'" "assigned p' = assigned p @ [?a]" by (simp_all add: p' same_conf_def)
  show "wl' = wl @ [\<lparr>f_filename = fn, f_format = '''', f_n = length (t_track t), f_k = k\<rparr>]" by (rule wl')
qed

lemma GetOne_cases:
  assumes "GetOne ord rnd now ident wl p = (p', wl')"
  obtains "p' = p" "wl' = wl" "candidates ord ident p = []"
  | fn k where "(fn, k) \<in> set (candidates ord ident p)" "assign_part now ident fn k wl p = (p', wl')"
proof (cases "candidates ord ident p = []")
  case True
  then show ?thesis using assms that(1) by (simp add: GetOne_def Let_def split: if_splits)
next
  case False
  define pick where "pick = (if shuffle p then rnd mod length (candidates ord ident p) else 0)"
  have "pick < length (candidates ord ident p)" using False by (simp add: pick_def)
  then obtain fn k rest where d: "drop pick (candidates ord ident p) = (fn, k) # rest"
    by (metis Cons_nth_drop_Suc surj_pair)
  then have "(fn, k) \<in> set (candidates ord ident p)" by (metis in_set_dropD list.set_intros(1))
  moreover have "assign_part now ident fn k wl p = (p', wl')"
    using assms False d by (simp add: GetOne_def Let_def pick_def split: if_splits)
  ultimately show ?thesis by (rule that(2))
qed

lemma avail_eq:
  assumes "pool_inv p"
  shows "avail p = live p - held p"
proof -
  have "t_track t ! k = 0 \<longleftrightarrow> t_track t ! k \<noteq> 2 \<and> (fn, k) \<notin> part_of ` set (assigned p)"
    if t: "map_of (task p) fn = Some t" "k < length (t_track t)" for fn t k
  proof -
    have "t_track t ! k \<in> {0, 1, 2}" using assms t by (metis nth_mem pool_inv_def subsetD task_ok_def)
    moreover have "t_track t ! k = 1 \<longleftrightarrow> (fn, k) \<in> part_of ` set (assigned p)"
      using assms t by (simp add: pool_inv_def)
    ultimately show ?thesis by auto
  qed
  then show ?thesis by (auto simp: avail_def live_def held_def)
qed

definition wl_entry :: "string \<Rightarrow> real \<Rightarrow> File \<Rightarrow> Assigned" where
  "wl_entry ident now f = \<lparr>as_filename = f_filename f, as_node = ident, as_n = f_n f, as_k = f_k f, as_start = now\<rparr>"

lemma part_of_wl_entry [simp]: "part_of (wl_entry ident now f) = (f_filename f, f_k f)"
  by (simp add: wl_entry_def part_of_def)

lemma get_loop_inv:
  assumes "pool_inv p" and "get_loop n ord rnd now ident wl p = (p', wl')"
  shows "\<exists>new. wl' = wl @ new \<and> assigned p' = assigned p @ map (wl_entry ident now) new \<and> pool_inv p' \<and>
     total p' = total p \<and> live p' = live p \<and> same_conf p p' \<and>
     (\<forall>f\<in>set new. (f_filename f, f_k f) \<in> avail p)"
  using assms
proof (induction n arbitrary: p wl)
  case 0
  then show ?case by (simp add: same_conf_def)
next
  case (Suc n)
  obtain p1 wl1 where g: "GetOne (ord n) (rnd n) now ident wl p = (p1, wl1)" by fastforce
  then have l: "get_loop n ord rnd now ident wl1 p1 = (p', wl')" using Suc.prems by simp
  show ?case
  proof (rule GetOne_cases [OF g])
    assume "p1 = p" "wl1 = wl"
    then show ?thesis using Suc.IH [OF _ l] Suc.prems(1) by blast
  next
    fix fn k assume c: "(fn, k) \<in> set (candidates (ord n) ident p)" and a: "assign_part now ident fn k wl p = (p1, wl1)"
    from c obtain t where t: "map_of (task p) fn = Some t" "k < length (t_track t)" "t_track t ! k = 0"
      by (auto simp: candidates_iff)
    note as = assign_part_inv [OF Suc.prems(1) t a]
    define f where "f = \<lparr>f_filename = fn, f_format = '''', f_n = length (t_track t), f_k = k\<rparr>"
    have f: "wl1 = wl @ [f]" "assigned p1 = assigned p @ [wl_entry ident now f]"
      using as by (simp_all add: f_def wl_entry_def)
    obtain new where "wl' = wl1 @ new" "assigned p' = assigned p1 @ map (wl_entry ident now) new" "pool_inv p'"
      "total p' = total p1" "live p' = live p1" "same_conf p1 p'" "\<forall>f\<in>set new. (f_filename f, f_k f) \<in> avail p1"
      using Suc.IH [OF as(1) l] by blast
    moreover have "avail p1 \<subseteq> avail p"
      using avail_eq [OF as(1)] avail_eq [OF Suc.prems(1)] as(3) f(2) by (auto simp: held_def)
    moreover have "(f_filename f, f_k f) \<in> avail p" using t by (simp add: f_def avail_def)
    ultimately show ?thesis
      using f as(2-4) same_conf_trans by (intro exI [of _ "f # new"]) auto
  qed
qed

lemma get_loop_wl: "\<exists>new. snd (get_loop n ord rnd now ident wl p) = wl @ new"
proof (induction n arbitrary: p wl)
  case (Suc n)
  obtain p1 wl1 where g: "GetOne (ord n) (rnd n) now ident wl p = (p1, wl1)" by fastforce
  have "\<exists>new. wl1 = wl @ new"
    using g by (auto simp: GetOne_def assign_part_def Let_def split: if_splits list.splits option.splits)
  then show ?case using g Suc.IH [of wl1 p1] by auto
qed simp

section \<open>Runs\<close>

text \<open>
  A run of the pool, from the constructor on, with every public operation and the straggler thread. \<open>added\<close> is the set of parts
  handed to \<open>Add\<close> since the last \<open>Clear\<close>, \<open>fin\<close> the set of parts whose holder called \<open>Finish\<close> while the pool knew them, and \<open>gone\<close>
  the set of parts that \<open>ClearRemain\<close> dropped before they were finished; none of them is state of the code. The guard of the \<open>Add\<close>
  step: there is at least one part, the parts of a file are added with one and the same count, and a file that the pool has finished
  or dropped is not added again before the next \<open>Clear\<close>.
\<close>

inductive pool_run :: "Pool \<Rightarrow> (string \<times> nat) set \<Rightarrow> (string \<times> nat) set \<Rightarrow> (string \<times> nat) set \<Rightarrow> bool" where
  run_new: "pool_run (new_Pool sh) {} {} {}"
| run_add: "pool_run p added fin gone \<Longrightarrow> addable npart (map f_filename fs) p \<Longrightarrow>
    (\<forall>f\<in>set fs. f_filename f \<in> fst ` set (task p) \<or> f_filename f \<notin> fst ` added) \<Longrightarrow>
    Add fs npart ident p = Ok p' \<Longrightarrow> pool_run p' (added \<union> new_parts npart (map f_filename fs) p) fin gone"
| run_get: "pool_run p added fin gone \<Longrightarrow> Get ord rnd now ident p = (p', wl) \<Longrightarrow> pool_run p' added fin gone"
| run_finish: "pool_run p added fin gone \<Longrightarrow> Finish now ident p = Ok p' \<Longrightarrow>
    pool_run p' added (fin \<union> (part_of ` {a \<in> set (assigned p). as_node a = ident} - gone)) gone"
| run_reset: "pool_run p added fin gone \<Longrightarrow> Reset now ident p = Ok p' \<Longrightarrow> pool_run p' added fin gone"
| run_straggler: "pool_run p added fin gone \<Longrightarrow> RemoveStraggler now p = Ok p' \<Longrightarrow> pool_run p' added fin gone"
| run_clear_remain: "pool_run p added fin gone \<Longrightarrow> pool_run (ClearRemain p) added fin (gone \<union> live p)"
| run_clear: "pool_run p added fin gone \<Longrightarrow> pool_run (Clear p) {} {} {}"

definition run_inv :: "Pool \<Rightarrow> (string \<times> nat) set \<Rightarrow> (string \<times> nat) set \<Rightarrow> (string \<times> nat) set \<Rightarrow> bool" where
  "run_inv p added fin gone \<longleftrightarrow> pool_inv p \<and> held p \<subseteq> live p \<union> gone \<and> live p \<inter> fin = {} \<and> live p \<inter> gone = {} \<and> fin \<inter> gone = {} \<and>
     live p \<union> fin \<union> gone = added \<and> finite added \<and> total p = card (live p \<union> fin)"

text \<open>The pending parts are the live ones.\<close>

lemma card_not_done: "card {k. k < length xs \<and> xs ! k \<noteq> z} + count_list xs z = length xs"
proof (induction xs rule: rev_induct)
  case (snoc x xs)
  have "{k. k < length (xs @ [x]) \<and> (xs @ [x]) ! k \<noteq> z} = {k. k < length xs \<and> xs ! k \<noteq> z} \<union> (if x = z then {} else {length xs})"
    by (auto simp: nth_append less_Suc_eq)
  then show ?case using snoc by (subst \<open>_ = _ \<union> _\<close>) (simp add: card_insert_if)
qed simp

lemma card_live_tasks:
  assumes "distinct (map fst al)" "\<forall>(fn, t) \<in> set al. task_ok t"
  shows "finite {(fn, k). \<exists>t. map_of al fn = Some t \<and> k < length (t_track t) \<and> t_track t ! k \<noteq> 2} \<and>
    card {(fn, k). \<exists>t. map_of al fn = Some t \<and> k < length (t_track t) \<and> t_track t ! k \<noteq> 2} = sum_list (map (\<lambda>(fn, t). length (t_track t) - t_done t) al)"
  using assms
proof (induction al)
  case (Cons x al)
  obtain fn t where x: "x = (fn, t)" by (cases x)
  let ?L = "\<lambda>al. {(fn, k). \<exists>t. map_of al fn = Some t \<and> k < length (t_track t) \<and> t_track t ! k \<noteq> 2}"
  let ?K = "Pair fn ` {k. k < length (t_track t) \<and> t_track t ! k \<noteq> 2}"
  have n: "map_of al fn = None" using Cons.prems(1) x by (simp add: map_of_eq_None_iff)
  then have "?L (x # al) = ?K \<union> ?L al" "?K \<inter> ?L al = {}" by (auto simp: x split: if_splits)
  moreover have "card ?K = length (t_track t) - t_done t"
    using card_not_done [of "t_track t" 2] Cons.prems(2) x by (simp add: card_image inj_on_def task_ok_def)
  ultimately show ?case using Cons card_Un_disjoint [of ?K "?L al"] by (simp add: x)
qed simp

lemma pending_card: "pool_inv p \<Longrightarrow> finite (live p) \<and> card (live p) = pending p"
proof -
  assume i: "pool_inv p"
  have d: "distinct (map fst (task p))" using i by (simp add: pool_inv_def)
  moreover have "\<forall>(fn, t) \<in> set (task p). task_ok t" using i map_of_is_SomeI [OF d] by (auto simp: pool_inv_def)
  ultimately show ?thesis unfolding live_def pending_def by (rule card_live_tasks)
qed

lemma held_subset_live:
  assumes "pool_inv p" and "\<And>a. a \<in> set (assigned p) \<Longrightarrow> as_filename a \<in> fst ` set (task p)"
  shows "held p \<subseteq> live p"
proof
  fix q assume "q \<in> held p"
  then obtain a where a: "a \<in> set (assigned p)" "q = (as_filename a, as_k a)" by (auto simp: held_def part_of_def)
  obtain t where t: "map_of (task p) (as_filename a) = Some t"
    using assms(2) [OF a(1)] by (metis map_of_eq_None_iff not_Some_eq)
  show "q \<in> live p" using pool_inv_assigned_track [OF assms(1) a(1) t] a(2) t by (simp add: live_def)
qed

lemma held_released:
  assumes "pool_inv p" and "assigned p' = filter (\<lambda>a. as_node a \<noteq> ident) (assigned p)"
  shows "held p' = held p - part_of ` {a \<in> set (assigned p). as_node a = ident}"
proof -
  have "inj_on part_of (set (assigned p))" using assms(1) by (simp add: pool_inv_def distinct_map)
  from inj_on_image_set_diff [OF this, of "set (assigned p)" "{a \<in> set (assigned p). as_node a = ident}"]
  have "part_of ` (set (assigned p) - {a \<in> set (assigned p). as_node a = ident}) =
      held p - part_of ` {a \<in> set (assigned p). as_node a = ident}" by (auto simp: held_def)
  moreover have "set (assigned p') = set (assigned p) - {a \<in> set (assigned p). as_node a = ident}"
    using assms(2) by auto
  ultimately show ?thesis by (simp add: held_def)
qed

lemma live_file: "(fn, k) \<in> live p \<Longrightarrow> fn \<in> fst ` set (task p)"
  by (auto simp: live_def dest!: map_of_SomeD intro: rev_image_eqI)

lemma new_parts_fresh: "live p \<inter> new_parts npart fns p = {}"
  by (auto simp: new_parts_def dest: live_file)

lemma finish_sets:
  assumes "H \<subseteq> L \<union> G" "L \<inter> F = {}" "L \<union> F \<union> G = A" "L \<inter> G = {}" "F \<inter> G = {}"
  shows "(L - H) \<inter> (F \<union> (H - G)) = {}" "(L - H) \<union> (F \<union> (H - G)) \<union> G = A" "(L - H) \<inter> G = {}" "(F \<union> (H - G)) \<inter> G = {}" "(L - H) \<union> (F \<union> (H - G)) = L \<union> F"
proof -
  have H: "H - G \<subseteq> L" using assms(1) by blast
  show "(L - H) \<inter> (F \<union> (H - G)) = {}" using assms(2) by blast
  show "(L - H) \<union> (F \<union> (H - G)) = L \<union> F" using H assms(4) by blast
  then show "(L - H) \<union> (F \<union> (H - G)) \<union> G = A" using assms(3) by simp
  show "(L - H) \<inter> G = {}" "(F \<union> (H - G)) \<inter> G = {}" using assms(4,5) by blast+
qed

lemma pool_run_inv: "pool_run p added fin gone \<Longrightarrow> run_inv p added fin gone"
proof (induction rule: pool_run.induct)
  case (run_new sh)
  have "live (new_Pool sh) = {}" "held (new_Pool sh) = {}" "total (new_Pool sh) = 0"
    by (simp_all add: live_def held_def new_Pool_def total_def pending_def)
  then show ?case by (simp add: run_inv_def)
next
  case (run_add p added fin gone npart fs ident p')
  let ?new = "new_parts npart (map f_filename fs) p"
  have i: "pool_inv p" "held p \<subseteq> live p \<union> gone" "live p \<inter> fin = {}" "live p \<union> fin \<union> gone = added" "finite added" "total p = card (live p \<union> fin)"
      "live p \<inter> gone = {}" "fin \<inter> gone = {}"
    using run_add.IH by (simp_all add: run_inv_def)
  have r: "pool_inv p'" "assigned p' = assigned p" "live p' = live p \<union> ?new" "total p' = total p + card ?new"
    using Add_inv [OF i(1) run_add.hyps(2), of ident] run_add.hyps(4) by auto
  have n: "?new \<inter> added = {}" using run_add.hyps(3) by (force simp: new_parts_def)
  have "finite (live p \<union> fin)" using i(4,5) by (metis finite_Un)
  moreover have "(live p \<union> fin) \<inter> ?new = {}" using n i(4) by blast
  ultimately have "total p' = card (live p' \<union> fin)"
    using r(3,4) i(6) card_Un_disjoint [of "live p \<union> fin" ?new] by (simp add: Un_ac)
  moreover have "held p' = held p" using r(2) by (simp add: held_def)
  moreover have "live p' \<inter> fin = {}" "live p' \<inter> gone = {}" "live p' \<union> fin \<union> gone = added \<union> ?new" "held p \<subseteq> live p' \<union> gone"
    using r(3) i(2,3,4,7) n by blast+
  ultimately show ?case using i(5,8) r(1) unfolding run_inv_def by simp
next
  case (run_get p added fin gone ord rnd now ident p' wl)
  have i: "pool_inv p" using run_get.IH by (simp add: run_inv_def)
  obtain new where n: "assigned p' = assigned p @ map (wl_entry ident now) new" "pool_inv p'" "total p' = total p"
      "live p' = live p" "\<forall>f\<in>set new. (f_filename f, f_k f) \<in> avail p"
    using get_loop_inv [OF i run_get.hyps(2) [unfolded Get_def]] by auto
  have "avail p \<subseteq> live p" using avail_eq [OF i] by blast
  with n show ?case using run_get.IH by (auto simp: run_inv_def held_def)
next
  case (run_finish p added fin gone now ident p')
  let ?hit = "part_of ` {a \<in> set (assigned p). as_node a = ident}"
  have i: "pool_inv p" using run_finish.IH by (simp add: run_inv_def)
  have r: "pool_inv p'" "total p' = total p" "live p' = live p - ?hit"
    "assigned p' = filter (\<lambda>a. as_node a \<noteq> ident) (assigned p)"
    using Set_inv [OF i, of now ident True] run_finish.hyps(2) by (auto simp: Finish_def)
  have h: "?hit \<subseteq> live p \<union> gone" using run_finish.IH by (auto simp: run_inv_def held_def)
  have l: "live p \<inter> fin = {}" "live p \<union> fin \<union> gone = added" "held p \<subseteq> live p \<union> gone" "live p \<inter> gone = {}" "fin \<inter> gone = {}"
    "finite added" "total p = card (live p \<union> fin)"
    using run_finish.IH by (simp_all add: run_inv_def)
  have "held p' = held p - ?hit" using i r(4) by (rule held_released)
  then have hl: "held p' \<subseteq> live p' \<union> gone" unfolding r(3) using l(3) by blast
  show ?case using r(1,2) l(6,7) hl finish_sets [OF h l(1,2,4,5)] unfolding run_inv_def r(3) by simp
next
  case (run_reset p added fin gone now ident p')
  have i: "pool_inv p" using run_reset.IH by (simp add: run_inv_def)
  have "pool_inv p'" "total p' = total p" "live p' = live p" "assigned p' = filter (\<lambda>a. as_node a \<noteq> ident) (assigned p)"
    using Set_inv [OF i, of now ident False] run_reset.hyps(2) by (auto simp: Reset_def)
  then show ?case using run_reset.IH by (auto simp: run_inv_def held_def)
next
  case (run_straggler p added fin gone now p')
  have i: "pool_inv p" using run_straggler.IH by (simp add: run_inv_def)
  have "pool_inv p'" "total p' = total p" "live p' = live p" "set (assigned p') \<subseteq> set (assigned p)"
    using RemoveStraggler_inv [OF i, of now] run_straggler.hyps(2) by auto
  then show ?case using run_straggler.IH by (auto simp: run_inv_def held_def)
next
  case (run_clear_remain p added fin gone)
  have i: "pool_inv p" "live p \<inter> fin = {}" "live p \<union> fin \<union> gone = added" "held p \<subseteq> live p \<union> gone" "fin \<inter> gone = {}" "finite added" "total p = card (live p \<union> fin)"
    using run_clear_remain.IH by (simp_all add: run_inv_def)
  have "finite (live p \<union> fin)" using i(3,6) by (metis finite_Un)
  then have "total p = pending p + card fin" using pending_card [OF i(1)] i(2,7) by (simp add: card_Un_disjoint)
  then have "total (ClearRemain p) = card fin" by (simp add: total_def pending_def ClearRemain_def)
  moreover have "live (ClearRemain p) = {}" "held (ClearRemain p) = held p" by (simp_all add: live_def held_def ClearRemain_def)
  ultimately show ?case using pool_inv_ClearRemain [OF i(1)] i(2-6) unfolding run_inv_def by simp blast
next
  case (run_clear p added fin gone)
  have "live (Clear p) = {}" "held (Clear p) = {}" "total (Clear p) = 0" by (simp_all add: live_def held_def Clear_def total_def pending_def)
  then show ?case by (simp add: run_inv_def)
qed

section \<open>Properties\<close>

lemma get_loop_length: "length (snd (get_loop n ord rnd now ident wl p)) \<le> length wl + n"
proof (induction n arbitrary: p wl)
  case (Suc n)
  obtain p1 wl1 where g: "GetOne (ord n) (rnd n) now ident wl p = (p1, wl1)" by fastforce
  have "length wl1 \<le> Suc (length wl)"
    using g by (auto simp: GetOne_def assign_part_def Let_def split: if_splits list.splits option.splits)
  then show ?case using g Suc.IH [of wl1 p1] by simp
qed simp

lemma Get_nonempty:
  assumes "0 < num_file_per_wl p" and "candidates (ord (num_file_per_wl p - 1)) ident p \<noteq> []"
  shows "snd (Get ord rnd now ident p) \<noteq> []"
proof -
  obtain n where n: "num_file_per_wl p = Suc n" using assms(1) by (metis Suc_pred)
  obtain p1 wl1 where g: "GetOne (ord n) (rnd n) now ident [] p = (p1, wl1)" by fastforce
  have "wl1 \<noteq> []"
  proof (rule GetOne_cases [OF g])
    assume "candidates (ord n) ident p = []"
    then show ?thesis using assms(2) n by simp
  next
    fix fn k assume "(fn, k) \<in> set (candidates (ord n) ident p)" "assign_part now ident fn k [] p = (p1, wl1)"
    then show ?thesis by (auto simp: assign_part_def candidates_iff Let_def)
  qed
  then show ?thesis using get_loop_wl [of n ord rnd now ident wl1 p1] g by (auto simp: Get_def n)
qed

lemma pool_accounting_facts:
  assumes "pool_run p added fin gone"
  shows "added = fin \<union> held p \<union> avail p \<union> gone" and "fin \<inter> held p = {}" and "fin \<inter> avail p = {}"
    and "held p \<inter> avail p = {}" and "gone \<inter> (fin \<union> avail p) = {}" and "distinct (map part_of (assigned p))"
    and "num_finished p = card fin" and "pending p = card (held p - gone) + card (avail p)"
proof -
  have i: "run_inv p added fin gone" using assms by (rule pool_run_inv)
  then have pi: "pool_inv p" by (simp add: run_inv_def)
  have av: "avail p = live p - held p" using pi by (simp add: avail_eq)
  show "added = fin \<union> held p \<union> avail p \<union> gone" "fin \<inter> held p = {}" "fin \<inter> avail p = {}" "held p \<inter> avail p = {}" "gone \<inter> (fin \<union> avail p) = {}"
    using i av unfolding run_inv_def by blast+
  show "distinct (map part_of (assigned p))" using pi by (simp add: pool_inv_def)
  have l: "finite (live p)" "pending p = card (live p)" using pending_card [OF pi] by simp_all
  have "live p = (held p - gone) \<union> avail p" "(held p - gone) \<inter> avail p = {}" using i av unfolding run_inv_def by blast+
  then show "pending p = card (held p - gone) + card (avail p)" using l card_Un_disjoint [of "held p - gone" "avail p"] by (metis finite_Un)
  have "live p \<inter> fin = {}" "finite fin" "num_finished p + pending p = card (live p \<union> fin)"
    using i unfolding run_inv_def total_def by (simp_all, metis finite_Un)
  then show "num_finished p = card fin" using l by (simp add: card_Un_disjoint)
qed

text \<open>
  C7: at every point of a run, with workers that fail, stragglers that are reset, and parts that \<open>StopDispatch\<close> drops, every part handed to
  \<open>Add\<close> since the last \<open>Clear\<close> is finished, held by exactly one worker, available, or dropped. A part is in only one of these states, except
  that a dropped part may still be held until its worker comes back. The counters agree: \<open>num_finished\<close> is the number of finished parts, and
  the pending ones are the held parts that were not dropped and the available ones.
\<close>

theorem pool_accounting:
  assumes "pool_run p added fin gone"
  shows "(added = fin \<union> held p \<union> avail p \<union> gone) \<and>
     (fin \<inter> held p = {}) \<and>
     (fin \<inter> avail p = {}) \<and>
     (held p \<inter> avail p = {}) \<and>
     (gone \<inter> (fin \<union> avail p) = {}) \<and>
     (distinct (map part_of (assigned p))) \<and>
     (num_finished p = card fin) \<and>
     (pending p = card (held p - gone) + card (avail p))"
  using pool_accounting_facts [OF assms] by blast

lemma IsFinished_all_done_facts:
  assumes "pool_run p added fin gone" and "IsFinished p"
  shows "fin = added - gone" and "num_finished p = card (added - gone)"
proof -
  have i: "run_inv p added fin gone" using assms(1) by (rule pool_run_inv)
  have "task p = []" using assms(2) by (simp add: IsFinished_def)
  then have "live p = {}" by (simp add: live_def)
  then show "fin = added - gone" using i by (auto simp: run_inv_def)
  then show "num_finished p = card (added - gone)" using pool_accounting_facts(7) [OF assms(1)] by simp
qed

text \<open>
  C22: when \<open>IsFinished\<close> holds, every part that was added and not dropped by \<open>StopDispatch\<close> has been finished, \<open>num_finished\<close> counted each of
  them once, and no worker holds a part, not even a dropped one.
\<close>

theorem IsFinished_all_done:
  assumes "pool_run p added fin gone" and "IsFinished p"
  shows "(fin = added - gone) \<and>
     (num_finished p = card (added - gone)) \<and> held p = {}"
  using IsFinished_all_done_facts [OF assms] assms(2) by (simp add: IsFinished_def held_def)

lemma Get_hands_out_available_facts:
  assumes "pool_inv p" and "Get ord rnd now ident p = (p', wl)"
  shows "length wl \<le> num_file_per_wl p"
    and "distinct (map (\<lambda>f. (f_filename f, f_k f)) wl)"
    and "assigned p' = assigned p @ map (wl_entry ident now) wl"
    and "(\<lambda>f. (f_filename f, f_k f)) ` set wl \<subseteq> avail p"
    and "avail p' = avail p - (\<lambda>f. (f_filename f, f_k f)) ` set wl"
    and "pool_inv p'"
    and "0 < num_file_per_wl p \<Longrightarrow> set (ord (num_file_per_wl p - 1)) = fst ` set (task p) \<Longrightarrow>
      (\<exists>fn k t. (fn, k) \<in> avail p \<and> map_of (task p) fn = Some t \<and> eligible ident t) \<Longrightarrow> wl \<noteq> []"
proof -
  obtain new where n: "wl = new" "assigned p' = assigned p @ map (wl_entry ident now) new" "pool_inv p'"
      "live p' = live p" "\<forall>f\<in>set new. (f_filename f, f_k f) \<in> avail p"
    using get_loop_inv [OF assms(1) assms(2) [unfolded Get_def]] by auto
  show "assigned p' = assigned p @ map (wl_entry ident now) wl" "pool_inv p'" using n by simp_all
  show "(\<lambda>f. (f_filename f, f_k f)) ` set wl \<subseteq> avail p" using n by auto
  have "distinct (map part_of (assigned p @ map (wl_entry ident now) wl))" using n by (simp add: pool_inv_def)
  then show "distinct (map (\<lambda>f. (f_filename f, f_k f)) wl)" by (simp add: comp_def)
  show "avail p' = avail p - (\<lambda>f. (f_filename f, f_k f)) ` set wl"
    unfolding avail_eq [OF n(3)] avail_eq [OF assms(1)] using n(1,2,4) by (auto simp: held_def image_Un image_image)
  show "length wl \<le> num_file_per_wl p"
    using get_loop_length [of "num_file_per_wl p" ord rnd now ident "[]" p] assms(2) by (simp add: Get_def)
  show "wl \<noteq> []" if "0 < num_file_per_wl p" "set (ord (num_file_per_wl p - 1)) = fst ` set (task p)"
      "\<exists>fn k t. (fn, k) \<in> avail p \<and> map_of (task p) fn = Some t \<and> eligible ident t"
  proof -
    from that(3) obtain fn k t where q: "(fn, k) \<in> avail p" "map_of (task p) fn = Some t" "eligible ident t" by blast
    have "fn \<in> set (ord (num_file_per_wl p - 1))" unfolding that(2) using q(2)
      by (metis map_of_eq_None_iff option.distinct(1))
    then have "(fn, k) \<in> set (candidates (ord (num_file_per_wl p - 1)) ident p)"
      using q by (auto simp: candidates_iff avail_def)
    then show ?thesis using Get_nonempty [OF that(1), of ord ident rnd now] assms(2) by force
  qed
qed

text \<open>
  \<open>Get\<close> hands out at most \<open>num_file_per_wl\<close> parts; they are distinct, were available, and are
  held by the caller afterwards and by nobody else; and when the keys are visited completely and an
  eligible file has an available part, it hands out at least one.
\<close>


theorem Get_hands_out_available:
  assumes "pool_inv p" and "Get ord rnd now ident p = (p', wl)"
  shows "(length wl \<le> num_file_per_wl p) \<and>
     (distinct (map (\<lambda>f. (f_filename f, f_k f)) wl)) \<and>
     (assigned p' = assigned p @ map (wl_entry ident now) wl) \<and>
     ((\<lambda>f. (f_filename f, f_k f)) ` set wl \<subseteq> avail p) \<and>
     (avail p' = avail p - (\<lambda>f. (f_filename f, f_k f)) ` set wl) \<and>
     (pool_inv p') \<and>
     (0 < num_file_per_wl p \<longrightarrow> set (ord (num_file_per_wl p - 1)) = fst ` set (task p) \<longrightarrow>
      (\<exists>fn k t. (fn, k) \<in> avail p \<and> map_of (task p) fn = Some t \<and> eligible ident t) \<longrightarrow> wl \<noteq> [])"
  using Get_hands_out_available_facts [OF assms] by blast

lemma Set_effect_facts:
  assumes "pool_inv p"
  shows "\<exists>p'. Finish now ident p = Ok p' \<and> pool_inv p' \<and>
      live p' = live p - part_of ` {a \<in> set (assigned p). as_node a = ident} \<and>
      assigned p' = filter (\<lambda>a. as_node a \<noteq> ident) (assigned p)"
    and "\<exists>p'. Reset now ident p = Ok p' \<and> pool_inv p' \<and>
      avail p' = avail p \<union> (live p \<inter> part_of ` {a \<in> set (assigned p). as_node a = ident}) \<and>
      assigned p' = filter (\<lambda>a. as_node a \<noteq> ident) (assigned p)"
    and "\<exists>p'. RemoveStraggler now p = Ok p' \<and> pool_inv p' \<and> live p' = live p \<and>
      num_assigned p' \<le> num_assigned p"
proof -
  show "\<exists>p'. Finish now ident p = Ok p' \<and> pool_inv p' \<and>
      live p' = live p - part_of ` {a \<in> set (assigned p). as_node a = ident} \<and>
      assigned p' = filter (\<lambda>a. as_node a \<noteq> ident) (assigned p)"
    using Set_inv [OF assms, of now ident True] by (auto simp: Finish_def)
  obtain p' where r: "Reset now ident p = Ok p'" "pool_inv p'" "live p' = live p"
      "assigned p' = filter (\<lambda>a. as_node a \<noteq> ident) (assigned p)"
    using Set_inv [OF assms, of now ident False] by (auto simp: Reset_def)
  have "held p' = held p - part_of ` {a \<in> set (assigned p). as_node a = ident}"
    using assms r(4) by (rule held_released)
  moreover have "part_of ` {a \<in> set (assigned p). as_node a = ident} \<subseteq> held p" by (auto simp: held_def)
  ultimately have "avail p' = avail p \<union> (live p \<inter> part_of ` {a \<in> set (assigned p). as_node a = ident})"
    unfolding avail_eq [OF r(2)] avail_eq [OF assms] r(3) by blast
  then show "\<exists>p'. Reset now ident p = Ok p' \<and> pool_inv p' \<and>
      avail p' = avail p \<union> (live p \<inter> part_of ` {a \<in> set (assigned p). as_node a = ident}) \<and>
      assigned p' = filter (\<lambda>a. as_node a \<noteq> ident) (assigned p)" using r by blast
  obtain q where q: "RemoveStraggler now p = Ok q" "pool_inv q" "live q = live p" "set (assigned q) \<subseteq> set (assigned p)"
    using RemoveStraggler_inv [OF assms, of now] by auto
  have "card (part_of ` set (assigned q)) \<le> card (part_of ` set (assigned p))"
    using q(4) by (intro card_mono) auto
  moreover have "length (assigned s) = card (part_of ` set (assigned s))" if "pool_inv s" for s
    using that distinct_card [of "map part_of (assigned s)"] by (simp add: pool_inv_def)
  ultimately have "num_assigned q \<le> num_assigned p" using assms q(2) by (simp add: num_assigned_def)
  then show "\<exists>p'. RemoveStraggler now p = Ok p' \<and> pool_inv p' \<and> live p' = live p \<and>
      num_assigned p' \<le> num_assigned p" using q by blast
qed

text \<open>
  On a consistent pool \<open>Finish\<close>, \<open>Reset\<close> and \<open>RemoveStraggler\<close> never fail their internal checks;
  \<open>Reset\<close> puts the parts of the worker that still have to be processed back on offer, \<open>Finish\<close> takes them out of the
  live parts, and the parts of other workers are untouched.
\<close>


theorem Set_effect:
  assumes "pool_inv p"
  shows "(\<exists>p'. Finish now ident p = Ok p' \<and> pool_inv p' \<and>
      live p' = live p - part_of ` {a \<in> set (assigned p). as_node a = ident} \<and>
      assigned p' = filter (\<lambda>a. as_node a \<noteq> ident) (assigned p)) \<and>
     (\<exists>p'. Reset now ident p = Ok p' \<and> pool_inv p' \<and>
      avail p' = avail p \<union> (live p \<inter> part_of ` {a \<in> set (assigned p). as_node a = ident}) \<and>
      assigned p' = filter (\<lambda>a. as_node a \<noteq> ident) (assigned p)) \<and>
     (\<exists>p'. RemoveStraggler now p = Ok p' \<and> pool_inv p' \<and> live p' = live p \<and>
      num_assigned p' \<le> num_assigned p)"
  using Set_effect_facts [OF assms] by blast

section \<open>A run with one file of two parts\<close>

definition demo_file :: File where
  "demo_file = \<lparr>f_filename = ''a'', f_format = '''', f_n = 2, f_k = 0\<rparr>"

definition demo0 :: Pool where
  "demo0 = (new_Pool False)\<lparr>inited := True, task := [(''a'', \<lparr>t_node = [], t_track = [0, 0], t_done = 0\<rparr>)]\<rparr>"

definition demo1 :: Pool where
  "demo1 = demo0\<lparr>task := [(''a'', \<lparr>t_node = [], t_track = [1, 0], t_done = 0\<rparr>)],
     assigned := [\<lparr>as_filename = ''a'', as_node = ''w'', as_n = 2, as_k = 0, as_start = 1\<rparr>]\<rparr>"

lemma demo0_add: "Add [demo_file] 2 '''' (new_Pool False) = Ok demo0"
  by (simp add: Add_def add_file_def demo_file_def demo0_def new_Pool_def new_Task_def Let_def numeral_2_eq_2)

lemma demo1_get: "Get (\<lambda>_. [''a'']) (\<lambda>_. 0) 1 ''w'' demo0 = (demo1, [\<lparr>f_filename = ''a'', f_format = '''', f_n = 2, f_k = 0\<rparr>])"
  by (simp add: Get_def GetOne_def demo0_def demo1_def new_Pool_def candidates_def eligible_def assign_part_def Let_def
      upt_rec numeral_2_eq_2)

lemma demo0_run: "pool_run demo0 {(''a'', 0), (''a'', 1)} {} {}"
proof -
  have "pool_run demo0 ({} \<union> new_parts 2 (map f_filename [demo_file]) (new_Pool False)) {} {}"
  proof (rule run_add [OF run_new [of False]])
    show "addable 2 (map f_filename [demo_file]) (new_Pool False)"
      by (simp add: addable_def new_Pool_def)
    show "Add [demo_file] 2 '''' (new_Pool False) = Ok demo0" by (rule demo0_add)
  qed simp
  moreover have "{} \<union> new_parts 2 (map f_filename [demo_file]) (new_Pool False) = {(''a'', 0), (''a'', 1)}"
    by (auto simp: new_parts_def new_Pool_def demo_file_def lessThan_def less_2_cases_iff)
  ultimately show ?thesis by simp
qed

lemma demo1_run: "pool_run demo1 {(''a'', 0), (''a'', 1)} {} {}"
  by (rule run_get [OF demo0_run demo1_get])

lemma demo1_inv: "pool_inv demo1" and demo0_inv: "pool_inv demo0"
  using pool_run_inv [OF demo1_run] pool_run_inv [OF demo0_run] by (simp_all add: run_inv_def)

lemma demo1_live: "live demo1 = {(''a'', 0), (''a'', 1)}"
  by (auto simp: live_def demo1_def less_2_cases_iff split: if_splits)

lemma demo1_held: "held demo1 = {(''a'', 0)}"
  by (simp add: held_def demo1_def part_of_def)

lemma demo1_avail: "avail demo1 = {(''a'', 1)}"
  unfolding avail_eq [OF demo1_inv] demo1_live demo1_held by simp

lemma demo1_mine: "part_of ` {a \<in> set (assigned demo1). as_node a = ''w''} = {(''a'', 0)}"
  unfolding set_filter [symmetric] by (simp add: demo1_def part_of_def)

text \<open>After \<open>ClearRemain\<close> the part that is held is dropped and still held.\<close>

lemma demo_dropped_run: "pool_run (ClearRemain demo1) {(''a'', 0), (''a'', 1)} {} {(''a'', 0), (''a'', 1)}"
  using run_clear_remain [OF demo1_run] unfolding demo1_live by simp

theorem pool_accounting_witness:
  "pool_run demo1 {(''a'', 0), (''a'', 1)} {} {} \<and> held demo1 = {(''a'', 0)} \<and> avail demo1 = {(''a'', 1)} \<and> pending demo1 = 2 \<and>
   pool_run (ClearRemain demo1) {(''a'', 0), (''a'', 1)} {} {(''a'', 0), (''a'', 1)} \<and> num_finished (ClearRemain demo1) = 0"
  using demo1_run demo1_held demo1_avail pool_accounting [OF demo1_run] demo_dropped_run pool_accounting [OF demo_dropped_run] by simp

definition demo_end :: Pool where
  "demo_end = (new_Pool False)\<lparr>inited := True, num_finished := 2, time := [1, 2]\<rparr>"

lemma demo_end_run: "pool_run demo_end {(''a'', 0), (''a'', 1)} {(''a'', 0), (''a'', 1)} {}"
proof -
  define d2 where "d2 = demo0\<lparr>task := [(''a'', \<lparr>t_node = [], t_track = [2, 0], t_done = 1\<rparr>)],
    num_finished := 1, time := [1 :: real]\<rparr>"
  define d3 where "d3 = d2\<lparr>task := [(''a'', \<lparr>t_node = [], t_track = [2, 1], t_done = 1\<rparr>)],
     assigned := [\<lparr>as_filename = ''a'', as_node = ''v'', as_n = 2, as_k = 1, as_start = 2\<rparr>]\<rparr>"
  have f2: "Finish 2 ''w'' demo1 = Ok d2"
    by (simp add: Finish_def Set_def demo1_def demo0_def d2_def new_Pool_def Mark_def Let_def)
  have g: "Get (\<lambda>_. [''a'']) (\<lambda>_. 0) 2 ''v'' d2 = (d3, [\<lparr>f_filename = ''a'', f_format = '''', f_n = 2, f_k = 1\<rparr>])"
    by (simp add: Get_def GetOne_def demo0_def d2_def d3_def new_Pool_def candidates_def eligible_def assign_part_def Let_def
      upt_rec numeral_2_eq_2)
  have f4: "Finish 4 ''v'' d3 = Ok demo_end"
    by (simp add: Finish_def Set_def demo0_def d2_def d3_def demo_end_def new_Pool_def Mark_def Let_def)
  have "pool_run d2 {(''a'', 0), (''a'', 1)} {(''a'', 0)} {}"
    using run_finish [OF demo1_run f2] unfolding demo1_mine by simp
  from run_finish [OF run_get [OF this g] f4] show ?thesis
    unfolding set_filter [symmetric] by (simp add: d3_def part_of_def insert_commute)
qed

theorem IsFinished_all_done_witness:
  "pool_run demo_end {(''a'', 0), (''a'', 1)} {(''a'', 0), (''a'', 1)} {} \<and> IsFinished demo_end \<and> num_finished demo_end = 2"
proof -
  have "IsFinished demo_end" by (simp add: IsFinished_def demo_end_def new_Pool_def)
  with IsFinished_all_done [OF demo_end_run this] show ?thesis using demo_end_run by simp
qed

lemma demo0_nonempty: "\<exists>fn k t. (fn, k) \<in> avail demo0 \<and> map_of (task demo0) fn = Some t \<and> eligible ''w'' t"
  by (intro exI [of _ "''a''"] exI [of _ 0] exI [of _ "\<lparr>t_node = [], t_track = [0, 0], t_done = 0\<rparr>"])
    (simp add: avail_def demo0_def eligible_def)

theorem Get_hands_out_available_witness:
  "avail demo1 = avail demo0 - {(''a'', 0)} \<and> snd (Get (\<lambda>_. [''a'']) (\<lambda>_. 0) 1 ''w'' demo0) \<noteq> []"
proof -
  have "snd (Get (\<lambda>_. [''a'']) (\<lambda>_. 0) 1 ''w'' demo0) \<noteq> []"
    using Get_hands_out_available [OF demo0_inv demo1_get] demo0_nonempty unfolding demo1_get by simp
  then show ?thesis using Get_hands_out_available [OF demo0_inv demo1_get] by simp
qed

theorem Set_effect_witness:
  "\<exists>p'. Reset 5 ''w'' demo1 = Ok p' \<and> pool_inv p' \<and> avail p' = {(''a'', 0), (''a'', 1)}"
  using Set_effect [OF demo1_inv, of 5 "''w''"] unfolding demo1_mine demo1_live demo1_avail
  by (auto simp: insert_commute)

end
