(* ===== verification/Serializer.thy ===== *)
theory Serializer
  imports Prelude
begin

text \<open>
  The byte streams and serializers of \<open>dmlc-core\<close>: \<open>StringStream\<close> (\<open>src/base/string_stream.h\<close>),
  \<open>MemoryFixedSizeStream\<close> and \<open>MemoryStringStream\<close> (\<open>dmlc/memory_io.h\<close>) and the \<open>Handler\<close> templates of
  \<open>dmlc/serializer.h\<close>. A handler is generic in the stream (\<open>Stream\<close> is an abstract class), so the
  operations take the virtual \<open>Read\<close> and \<open>Write\<close> as arguments. A \<open>Read\<close> returns the bytes it got,
  which may be fewer than asked for; a handler's \<open>Read\<close> returns \<open>None\<close> where the code returns
  \<open>false\<close>. Lengths are natural numbers; the 64-bit wrap-around of the byte count is written out.
\<close>

section \<open>Streams\<close>

type_synonym 's reader = "nat \<Rightarrow> 's \<Rightarrow> (byte list \<times> 's) res"
type_synonym 's writer = "byte list \<Rightarrow> 's \<Rightarrow> 's res"

record StringStream =
  ss_buf :: "byte list"
  ss_pos :: nat

definition new_StringStream :: "byte list \<Rightarrow> StringStream" where
  "new_StringStream str = \<lparr>ss_buf = str, ss_pos = 0\<rparr>"

definition ss_Read :: "StringStream reader" where
  "ss_Read nb s =
     check (nb + ss_pos s \<le> length (ss_buf s)) ''size+pos_ <= buf_.size()''
       (Ok (take nb (drop (ss_pos s) (ss_buf s)), s\<lparr>ss_pos := ss_pos s + nb\<rparr>))"

definition ss_Write :: "StringStream writer" where
  "ss_Write bs s = Ok (s\<lparr>ss_buf := ss_buf s @ bs\<rparr>)"

definition ss_str :: "StringStream \<Rightarrow> byte list" where
  "ss_str s = ss_buf s"

text \<open>A buffer of fixed size with one position for reads and writes.\<close>

record MemoryFixedSizeStream =
  mf_buf :: "byte list"
  mf_curr :: nat

definition new_MemoryFixedSizeStream :: "byte list \<Rightarrow> MemoryFixedSizeStream" where
  "new_MemoryFixedSizeStream mem = \<lparr>mf_buf = mem, mf_curr = 0\<rparr>"

definition mf_Read :: "MemoryFixedSizeStream reader" where
  "mf_Read nb s =
     check (mf_curr s + nb \<le> length (mf_buf s)) ''curr_ptr_ + size <= buffer_size_''
       (let nread = min (length (mf_buf s) - mf_curr s) nb
        in Ok (take nread (drop (mf_curr s) (mf_buf s)), s\<lparr>mf_curr := mf_curr s + nread\<rparr>))"

text \<open>\<open>memcpy\<close> of \<open>bs\<close> to position \<open>p\<close>.\<close>

definition splice :: "nat \<Rightarrow> byte list \<Rightarrow> byte list \<Rightarrow> byte list" where
  "splice p bs buf = take p buf @ bs @ drop (p + length bs) buf"

definition mf_Write :: "MemoryFixedSizeStream writer" where
  "mf_Write bs s =
     (if bs = [] then Ok s
      else check (mf_curr s + length bs \<le> length (mf_buf s)) ''curr_ptr_ + size <=  buffer_size_''
        (Ok (s\<lparr>mf_buf := splice (mf_curr s) bs (mf_buf s), mf_curr := mf_curr s + length bs\<rparr>)))"

definition mf_Seek :: "nat \<Rightarrow> MemoryFixedSizeStream \<Rightarrow> MemoryFixedSizeStream" where
  "mf_Seek pos s = s\<lparr>mf_curr := pos\<rparr>"

definition mf_Tell :: "MemoryFixedSizeStream \<Rightarrow> nat" where
  "mf_Tell s = mf_curr s"

text \<open>A stream over a \<open>std::string\<close>, which grows on demand; \<open>resize\<close> fills with zero bytes.\<close>

record MemoryStringStream =
  ms_buf :: "byte list"
  ms_curr :: nat

definition new_MemoryStringStream :: "byte list \<Rightarrow> MemoryStringStream" where
  "new_MemoryStringStream str = \<lparr>ms_buf = str, ms_curr = 0\<rparr>"

definition ms_Read :: "MemoryStringStream reader" where
  "ms_Read nb s =
     check (ms_curr s \<le> length (ms_buf s)) ''curr_ptr_ <= p_buffer_->length()''
       (let nread = min (length (ms_buf s) - ms_curr s) nb
        in Ok (take nread (drop (ms_curr s) (ms_buf s)), s\<lparr>ms_curr := ms_curr s + nread\<rparr>))"

definition ms_Write :: "MemoryStringStream writer" where
  "ms_Write bs s =
     (if bs = [] then Ok s
      else let buf = (if ms_curr s + length bs > length (ms_buf s)
                      then ms_buf s @ replicate (ms_curr s + length bs - length (ms_buf s)) 0
                      else ms_buf s)
        in Ok (s\<lparr>ms_buf := splice (ms_curr s) bs buf, ms_curr := ms_curr s + length bs\<rparr>))"

definition ms_Seek :: "nat \<Rightarrow> MemoryStringStream \<Rightarrow> MemoryStringStream" where
  "ms_Seek pos s = s\<lparr>ms_curr := pos\<rparr>"

definition ms_Tell :: "MemoryStringStream \<Rightarrow> nat" where
  "ms_Tell s = ms_curr s"

section \<open>Handlers\<close>

text \<open>
  \<open>enc\<close> and \<open>dec\<close> are the object representation of a POD type and \<open>sz\<close> its \<open>sizeof\<close>. The length
  prefix is an \<open>uint64_t\<close>.
\<close>

definition PODHandler_Write :: "'s writer \<Rightarrow> ('a \<Rightarrow> byte list) \<Rightarrow> 'a \<Rightarrow> 's \<Rightarrow> 's res" where
  "PODHandler_Write wr enc x s = wr (enc x) s"

definition PODHandler_Read :: "'s reader \<Rightarrow> nat \<Rightarrow> (byte list \<Rightarrow> 'a) \<Rightarrow> 's \<Rightarrow> ('a option \<times> 's) res" where
  "PODHandler_Read rd sz dec s =
     rbind (rd sz s) (\<lambda>(bs, s'). Ok (if length bs = sz then Some (dec bs) else None, s'))"

definition size_prefix :: "'a list \<Rightarrow> byte list" where
  "size_prefix xs = enc64 (word_of_nat (length xs))"

definition PODVectorHandler_Write :: "'s writer \<Rightarrow> ('a \<Rightarrow> byte list) \<Rightarrow> 'a list \<Rightarrow> 's \<Rightarrow> 's res" where
  "PODVectorHandler_Write wr enc vec s =
     rbind (wr (size_prefix vec) s) (\<lambda>s'. if vec \<noteq> [] then wr (concat (map enc vec)) s' else Ok s')"

text \<open>The vector was resized to \<open>n\<close> zero elements and the bytes were copied over its storage.\<close>

definition pod_vector :: "nat \<Rightarrow> (byte list \<Rightarrow> 'a) \<Rightarrow> nat \<Rightarrow> byte list \<Rightarrow> 'a list" where
  "pod_vector sz dec n bs =
     (let mem = bs @ replicate (sz * n - length bs) 0
      in map (\<lambda>i. dec (take sz (drop (i * sz) mem))) [0..<n])"

definition PODVectorHandler_Read :: "'s reader \<Rightarrow> nat \<Rightarrow> (byte list \<Rightarrow> 'a) \<Rightarrow> 's \<Rightarrow> ('a list option \<times> 's) res" where
  "PODVectorHandler_Read rd sz dec s =
     rbind (rd 8 s) (\<lambda>(b, s1).
       if length b \<noteq> 8 then Ok (None, s1)
       else let n = unat (dec64 b) in
         if n \<noteq> 0 then
           let nbytes = (sz * n) mod 2 ^ 64 in
           rbind (rd nbytes s1) (\<lambda>(bs, s2).
             Ok (if length bs = nbytes then Some (pod_vector sz dec n bs) else None, s2))
         else Ok (Some [], s1))"

text \<open>\<open>PODStringHandler\<close> is the same code for \<open>std::basic_string\<close>.\<close>

definition PODStringHandler_Write :: "'s writer \<Rightarrow> ('a \<Rightarrow> byte list) \<Rightarrow> 'a list \<Rightarrow> 's \<Rightarrow> 's res" where
  "PODStringHandler_Write wr enc vec s =
     rbind (wr (size_prefix vec) s) (\<lambda>s'. if vec \<noteq> [] then wr (concat (map enc vec)) s' else Ok s')"

definition PODStringHandler_Read :: "'s reader \<Rightarrow> nat \<Rightarrow> (byte list \<Rightarrow> 'a) \<Rightarrow> 's \<Rightarrow> ('a list option \<times> 's) res" where
  "PODStringHandler_Read rd sz dec s =
     rbind (rd 8 s) (\<lambda>(b, s1).
       if length b \<noteq> 8 then Ok (None, s1)
       else let n = unat (dec64 b) in
         if n \<noteq> 0 then
           let nbytes = (sz * n) mod 2 ^ 64 in
           rbind (rd nbytes s1) (\<lambda>(bs, s2).
             Ok (if length bs = nbytes then Some (pod_vector sz dec n bs) else None, s2))
         else Ok (Some [], s1))"

text \<open>A vector of composed elements: the loops over \<open>Handler<T>\<close>.\<close>

fun write_all :: "('a \<Rightarrow> 's \<Rightarrow> 's res) \<Rightarrow> 'a list \<Rightarrow> 's \<Rightarrow> 's res" where
  "write_all W [] s = Ok s"
| "write_all W (x # xs) s = rbind (W x s) (write_all W xs)"

fun read_all :: "('s \<Rightarrow> ('a option \<times> 's) res) \<Rightarrow> nat \<Rightarrow> 'a list \<Rightarrow> 's \<Rightarrow> ('a list option \<times> 's) res" where
  "read_all R 0 acc s = Ok (Some acc, s)"
| "read_all R (Suc n) acc s =
     rbind (R s) (\<lambda>(x, s'). case x of None \<Rightarrow> Ok (None, s') | Some y \<Rightarrow> read_all R n (acc @ [y]) s')"

definition ComposeVectorHandler_Write :: "'s writer \<Rightarrow> ('a \<Rightarrow> 's \<Rightarrow> 's res) \<Rightarrow> 'a list \<Rightarrow> 's \<Rightarrow> 's res" where
  "ComposeVectorHandler_Write wr W vec s = rbind (wr (size_prefix vec) s) (write_all W vec)"

definition ComposeVectorHandler_Read :: "'s reader \<Rightarrow> ('s \<Rightarrow> ('a option \<times> 's) res) \<Rightarrow> 's \<Rightarrow> ('a list option \<times> 's) res" where
  "ComposeVectorHandler_Read rd R s =
     rbind (rd 8 s) (\<lambda>(b, s1).
       if length b \<noteq> 8 then Ok (None, s1) else read_all R (unat (dec64 b)) [] s1)"

definition PairHandler_Write :: "('a \<Rightarrow> 's \<Rightarrow> 's res) \<Rightarrow> ('b \<Rightarrow> 's \<Rightarrow> 's res) \<Rightarrow> 'a \<times> 'b \<Rightarrow> 's \<Rightarrow> 's res" where
  "PairHandler_Write WA WB data s = rbind (WA (fst data) s) (WB (snd data))"

definition PairHandler_Read :: "('s \<Rightarrow> ('a option \<times> 's) res) \<Rightarrow> ('s \<Rightarrow> ('b option \<times> 's) res) \<Rightarrow> 's \<Rightarrow> (('a \<times> 'b) option \<times> 's) res" where
  "PairHandler_Read RA RB s =
     rbind (RA s) (\<lambda>(x, s1). case x of None \<Rightarrow> Ok (None, s1) | Some a \<Rightarrow>
       rbind (RB s1) (\<lambda>(y, s2). case y of None \<Rightarrow> Ok (None, s2) | Some b \<Rightarrow> Ok (Some (a, b), s2)))"

text \<open>
  Collections: the elements are dumped to a vector in iteration order and inserted one after
  another on the way back. \<open>elems\<close> is the iteration order, \<open>ins\<close> the \<open>insert\<close> of the container.
\<close>

definition CollectionHandler_Write :: "('c \<Rightarrow> 'a list) \<Rightarrow> ('a list \<Rightarrow> 's \<Rightarrow> 's res) \<Rightarrow> 'c \<Rightarrow> 's \<Rightarrow> 's res" where
  "CollectionHandler_Write elems WV data s = WV (elems data) s"

definition CollectionHandler_Read :: "('a \<Rightarrow> 'c \<Rightarrow> 'c) \<Rightarrow> 'c \<Rightarrow> ('s \<Rightarrow> ('a list option \<times> 's) res) \<Rightarrow> 's \<Rightarrow> ('c option \<times> 's) res" where
  "CollectionHandler_Read ins emp RV s =
     rbind (RV s) (\<lambda>(v, s'). Ok (case v of None \<Rightarrow> None | Some vdata \<Rightarrow> Some (fold ins vdata emp), s'))"

text \<open>Lists and deques: the whole range is inserted at the beginning of the emptied list.\<close>

definition ListHandler_Write :: "('a list \<Rightarrow> 's \<Rightarrow> 's res) \<Rightarrow> 'a list \<Rightarrow> 's \<Rightarrow> 's res" where
  "ListHandler_Write WV data s = WV data s"

definition ListHandler_Read :: "('s \<Rightarrow> ('a list option \<times> 's) res) \<Rightarrow> 's \<Rightarrow> ('a list option \<times> 's) res" where
  "ListHandler_Read RV s =
     rbind (RV s) (\<lambda>(v, s'). Ok (case v of None \<Rightarrow> None | Some vdata \<Rightarrow> Some (vdata @ []), s'))"

text \<open>The values of a POD vector that survive the encoding.\<close>

definition pod_ok :: "nat \<Rightarrow> ('a \<Rightarrow> byte list) \<Rightarrow> (byte list \<Rightarrow> 'a) \<Rightarrow> 'a list \<Rightarrow> bool" where
  "pod_ok sz enc dec xs \<longleftrightarrow> length xs < 2 ^ 64 \<and> sz * length xs < 2 ^ 64 \<and>
     (\<forall>x\<in>set xs. length (enc x) = sz \<and> dec (enc x) = x)"

lemma take_drop_concat:
  assumes "\<forall>x\<in>set xs. length (enc x) = sz" and "i < length xs"
  shows "take sz (drop (i * sz) (concat (map enc xs))) = enc (xs ! i)"
  using assms
proof (induction xs arbitrary: i)
  case (Cons x xs)
  then show ?case by (cases i) auto
qed simp

lemma length_image:
  assumes "pod_ok sz enc dec xs"
  shows "length (concat (map enc xs)) = sz * length xs"
proof -
  have "\<forall>x\<in>set xs. length (enc x) = sz" using assms by (simp add: pod_ok_def)
  then show ?thesis by (induction xs) auto
qed

lemma pod_vector_image:
  assumes "pod_ok sz enc dec xs"
  shows "pod_vector sz dec (length xs) (concat (map enc xs)) = xs"
proof -
  have "\<forall>x\<in>set xs. length (enc x) = sz" "\<forall>x\<in>set xs. dec (enc x) = x" using assms by (simp_all add: pod_ok_def)
  then show ?thesis
    using take_drop_concat [of xs enc sz] length_image [OF assms]
    by (auto simp: pod_vector_def intro!: nth_equalityI)
qed

section \<open>The contract of a stream\<close>

text \<open>
  \<open>rest s\<close> are the bytes still to be read, \<open>out s\<close> the bytes written so far; \<open>good\<close> is the
  class invariant of the reading side and \<open>room s n\<close> says that \<open>n\<close> more bytes fit.
\<close>

locale stream_io =
  fixes rd :: "'t reader" and rest :: "'t \<Rightarrow> byte list" and good :: "'t \<Rightarrow> bool"
    and wr :: "'s writer" and out :: "'s \<Rightarrow> byte list" and room :: "'s \<Rightarrow> nat \<Rightarrow> bool"
  assumes rd_ok: "good t \<Longrightarrow> n \<le> length (rest t) \<Longrightarrow>
      \<exists>t'. rd n t = Ok (take n (rest t), t') \<and> good t' \<and> rest t' = drop n (rest t)"
    and wr_ok: "room s (length bs + k) \<Longrightarrow> \<exists>s'. wr bs s = Ok s' \<and> out s' = out s @ bs \<and> room s' k"
begin

lemma rd_append:
  assumes "good t" and "rest t = bs @ tail"
  shows "\<exists>t'. rd (length bs) t = Ok (bs, t') \<and> good t' \<and> rest t' = tail"
  using rd_ok [OF assms(1), of "length bs"] assms(2) by simp

end

text \<open>The contract of a handler: it writes the image of a value and reads it back.\<close>

locale handler = stream_io rd rest good wr out room
  for rd :: "'t reader" and rest :: "'t \<Rightarrow> byte list" and good :: "'t \<Rightarrow> bool"
    and wr :: "'s writer" and out :: "'s \<Rightarrow> byte list" and room :: "'s \<Rightarrow> nat \<Rightarrow> bool" +
  fixes W :: "'a \<Rightarrow> 's \<Rightarrow> 's res" and R :: "'t \<Rightarrow> ('a option \<times> 't) res"
    and img :: "'a \<Rightarrow> byte list" and fits :: "'a \<Rightarrow> bool"
  assumes W_ok: "fits x \<Longrightarrow> room s (length (img x) + k) \<Longrightarrow> \<exists>s'. W x s = Ok s' \<and> out s' = out s @ img x \<and> room s' k"
    and R_ok: "fits x \<Longrightarrow> good t \<Longrightarrow> rest t = img x @ tail \<Longrightarrow> \<exists>t'. R t = Ok (Some x, t') \<and> good t' \<and> rest t' = tail"
begin

lemma round_trip:
  assumes "fits x" and "room s (length (img x))" and "out s = []" and "good t"
    and "\<And>s'. W x s = Ok s' \<Longrightarrow> rest t = out s'"
  shows "\<exists>t'. R t = Ok (Some x, t') \<and> rest t' = []"
proof -
  obtain s' where "W x s = Ok s'" "out s' = img x" using W_ok [OF assms(1), of s 0] assms(2,3) by auto
  then show ?thesis using R_ok [OF assms(1,4), of "[]"] assms(5) by auto
qed

lemma write_all_ok:
  assumes "\<forall>x\<in>set xs. fits x" and "room s (length (concat (map img xs)) + k)"
  shows "\<exists>s'. write_all W xs s = Ok s' \<and> out s' = out s @ concat (map img xs) \<and> room s' k"
  using assms
proof (induction xs arbitrary: s)
  case (Cons x xs)
  obtain s1 where "W x s = Ok s1" "out s1 = out s @ img x" "room s1 (length (concat (map img xs)) + k)"
    using W_ok [of x s "length (concat (map img xs)) + k"] Cons.prems by (auto simp: add.assoc)
  then show ?case using Cons.IH [of s1] Cons.prems by auto
qed simp

lemma read_all_ok:
  assumes "\<forall>x\<in>set xs. fits x" and "good t" and "rest t = concat (map img xs) @ tail"
  shows "\<exists>t'. read_all R (length xs) acc t = Ok (Some (acc @ xs), t') \<and> good t' \<and> rest t' = tail"
  using assms
proof (induction xs arbitrary: t acc)
  case (Cons x xs)
  obtain t1 where "R t = Ok (Some x, t1)" "good t1" "rest t1 = concat (map img xs) @ tail"
    using R_ok [of x t "concat (map img xs) @ tail"] Cons.prems by auto
  then show ?case using Cons.IH [of t1 "acc @ [x]"] Cons.prems by simp
qed simp

lemma compose_vector:
  "handler rd rest good wr out room (ComposeVectorHandler_Write wr W) (ComposeVectorHandler_Read rd R)
     (\<lambda>xs. size_prefix xs @ concat (map img xs)) (\<lambda>xs. length xs < 2 ^ 64 \<and> (\<forall>x\<in>set xs. fits x))"
proof unfold_locales
  fix xs s k
  assume f: "length xs < 2 ^ 64 \<and> (\<forall>x\<in>set xs. fits x)"
    and r: "room s (length (size_prefix xs @ concat (map img xs)) + k)"
  obtain s1 where "wr (size_prefix xs) s = Ok s1" "out s1 = out s @ size_prefix xs"
      "room s1 (length (concat (map img xs)) + k)"
    using wr_ok [of s "size_prefix xs" "length (concat (map img xs)) + k"] r by (auto simp: add.assoc)
  then show "\<exists>s'. ComposeVectorHandler_Write wr W xs s = Ok s' \<and>
      out s' = out s @ size_prefix xs @ concat (map img xs) \<and> room s' k"
    using write_all_ok [of xs s1 k] f by (auto simp: ComposeVectorHandler_Write_def)
next
  fix xs t tail
  assume f: "length xs < 2 ^ 64 \<and> (\<forall>x\<in>set xs. fits x)" and g: "good t"
    and r: "rest t = (size_prefix xs @ concat (map img xs)) @ tail"
  have n: "length (size_prefix xs) = 8" "unat (dec64 (size_prefix xs)) = length xs"
    using f by (simp_all add: size_prefix_def unat_of_nat)
  obtain t1 where "rd 8 t = Ok (size_prefix xs, t1)" "good t1" "rest t1 = concat (map img xs) @ tail"
    using rd_append [OF g, of "size_prefix xs"] r n by auto
  then show "\<exists>t'. ComposeVectorHandler_Read rd R t = Ok (Some xs, t') \<and> good t' \<and> rest t' = tail"
    using read_all_ok [of xs t1 tail "[]"] f n by (auto simp: ComposeVectorHandler_Read_def)
qed

end

context stream_io
begin

lemma pod:
  assumes "\<And>x. length (enc x) = sz" and "\<And>x. dec (enc x) = x"
  shows "handler rd rest good wr out room (PODHandler_Write wr enc) (PODHandler_Read rd sz dec) enc (\<lambda>_. True)"
proof unfold_locales
  fix x s k
  assume "room s (length (enc x) + k)"
  then show "\<exists>s'. PODHandler_Write wr enc x s = Ok s' \<and> out s' = out s @ enc x \<and> room s' k"
    using wr_ok by (simp add: PODHandler_Write_def)
next
  fix x t tail
  assume "good t" and "rest t = enc x @ tail"
  then show "\<exists>t'. PODHandler_Read rd sz dec t = Ok (Some x, t') \<and> good t' \<and> rest t' = tail"
    using rd_append [of t "enc x" tail] assms by (auto simp: PODHandler_Read_def)
qed

lemma vector_of_pod:
  "handler rd rest good wr out room (PODVectorHandler_Write wr enc) (PODVectorHandler_Read rd sz dec)
     (\<lambda>xs. size_prefix xs @ concat (map enc xs)) (pod_ok sz enc dec)"
proof unfold_locales
  fix xs s k
  assume f: "pod_ok sz enc dec xs" and r: "room s (length (size_prefix xs @ concat (map enc xs)) + k)"
  obtain s1 where "wr (size_prefix xs) s = Ok s1" "out s1 = out s @ size_prefix xs"
      "room s1 (length (concat (map enc xs)) + k)"
    using wr_ok [of s "size_prefix xs" "length (concat (map enc xs)) + k"] r by (auto simp: add.assoc)
  then show "\<exists>s'. PODVectorHandler_Write wr enc xs s = Ok s' \<and>
      out s' = out s @ size_prefix xs @ concat (map enc xs) \<and> room s' k"
    using wr_ok [of s1 "concat (map enc xs)" k] by (auto simp: PODVectorHandler_Write_def)
next
  fix xs t tail
  assume f: "pod_ok sz enc dec xs" and g: "good t"
    and r: "rest t = (size_prefix xs @ concat (map enc xs)) @ tail"
  have n: "length (size_prefix xs) = 8" "unat (dec64 (size_prefix xs)) = length xs"
    using f by (simp_all add: size_prefix_def unat_of_nat pod_ok_def)
  obtain t1 where t1: "rd 8 t = Ok (size_prefix xs, t1)" "good t1" "rest t1 = concat (map enc xs) @ tail"
    using rd_append [OF g, of "size_prefix xs"] r n by auto
  note l = length_image [OF f]
  obtain t2 where t2: "rd (sz * length xs) t1 = Ok (concat (map enc xs), t2)" "good t2" "rest t2 = tail"
    using rd_append [OF t1(2,3)] l by auto
  have m: "(sz * length xs) mod 2 ^ 64 = sz * length xs" using f by (simp add: pod_ok_def)
  show "\<exists>t'. PODVectorHandler_Read rd sz dec t = Ok (Some xs, t') \<and> good t' \<and> rest t' = tail"
    using t1 t2 n l m pod_vector_image [OF f]
    by (cases "xs = []") (auto simp: PODVectorHandler_Read_def)
qed

end

text \<open>A container whose elements, inserted in iteration order, rebuild it.\<close>

lemma collection_handler:
  assumes h: "handler rd rest good wr out room W R img fits"
    and fe: "\<And>c. ok c \<Longrightarrow> fits (elems c)" and fl: "\<And>c. ok c \<Longrightarrow> fold ins (elems c) emp = c"
  shows "handler rd rest good wr out room (CollectionHandler_Write elems W) (CollectionHandler_Read ins emp R)
     (\<lambda>c. img (elems c)) ok"
proof (intro handler.intro handler_axioms.intro)
  show "stream_io rd rest good wr out room" using h by (rule handler.axioms)
next
  fix c s k
  assume "ok c" and "room s (length (img (elems c)) + k)"
  then show "\<exists>s'. CollectionHandler_Write elems W c s = Ok s' \<and> out s' = out s @ img (elems c) \<and> room s' k"
    using handler.W_ok [OF h fe] by (simp add: CollectionHandler_Write_def)
next
  fix c t tail
  assume c: "ok c" and "good t" and "rest t = img (elems c) @ tail"
  then show "\<exists>t'. CollectionHandler_Read ins emp R t = Ok (Some c, t') \<and> good t' \<and> rest t' = tail"
    using handler.R_ok [OF h fe [OF c], of t tail] fl [OF c] by (auto simp: CollectionHandler_Read_def)
qed

lemma list_handler:
  assumes h: "handler rd rest good wr out room W R img fits"
  shows "handler rd rest good wr out room (ListHandler_Write W) (ListHandler_Read R) img fits"
proof (intro handler.intro handler_axioms.intro)
  show "stream_io rd rest good wr out room" using h by (rule handler.axioms)
next
  show "\<exists>s'. ListHandler_Write W c s = Ok s' \<and> out s' = out s @ img c \<and> room s' k"
    if "fits c" "room s (length (img c) + k)" for c s k
    using handler.W_ok [OF h that] by (simp add: ListHandler_Write_def)
  show "\<exists>t'. ListHandler_Read R t = Ok (Some c, t') \<and> good t' \<and> rest t' = tail"
    if "fits c" "good t" "rest t = img c @ tail" for c t tail
    using handler.R_ok [OF h that] by (auto simp: ListHandler_Read_def)
qed

lemma pair_handler:
  assumes a: "handler rd rest good wr out room WA RA ia fa" and b: "handler rd rest good wr out room WB RB ib fb"
  shows "handler rd rest good wr out room (PairHandler_Write WA WB) (PairHandler_Read RA RB)
     (\<lambda>(x, y). ia x @ ib y) (\<lambda>(x, y). fa x \<and> fb y)"
proof (intro handler.intro handler_axioms.intro)
  show "stream_io rd rest good wr out room" using a by (rule handler.axioms)
next
  fix p s k
  assume f: "case p of (x, y) \<Rightarrow> fa x \<and> fb y" and r: "room s (length (case p of (x, y) \<Rightarrow> ia x @ ib y) + k)"
  obtain x y where p: "p = (x, y)" by fastforce
  obtain s1 where "WA x s = Ok s1" "out s1 = out s @ ia x" "room s1 (length (ib y) + k)"
    using handler.W_ok [OF a, of x s "length (ib y) + k"] f r p by (auto simp: add.assoc)
  then show "\<exists>s'. PairHandler_Write WA WB p s = Ok s' \<and> out s' = out s @ (case p of (x, y) \<Rightarrow> ia x @ ib y) \<and> room s' k"
    using handler.W_ok [OF b, of y s1 k] f p by (auto simp: PairHandler_Write_def)
next
  fix p t tail
  assume f: "case p of (x, y) \<Rightarrow> fa x \<and> fb y" and g: "good t" and r: "rest t = (case p of (x, y) \<Rightarrow> ia x @ ib y) @ tail"
  obtain x y where p: "p = (x, y)" by fastforce
  obtain t1 where "RA t = Ok (Some x, t1)" "good t1" "rest t1 = ib y @ tail"
    using handler.R_ok [OF a, of x t "ib y @ tail"] f g r p by auto
  then show "\<exists>t'. PairHandler_Read RA RB t = Ok (Some p, t') \<and> good t' \<and> rest t' = tail"
    using handler.R_ok [OF b, of y t1 tail] f p by (auto simp: PairHandler_Read_def)
qed

lemma string_handler_eq:
  "PODStringHandler_Write = PODVectorHandler_Write" "PODStringHandler_Read = PODVectorHandler_Read"
  by (intro ext, simp add: PODStringHandler_Write_def PODVectorHandler_Write_def)
    (intro ext, simp add: PODStringHandler_Read_def PODVectorHandler_Read_def)

section \<open>The streams keep the contract\<close>

interpretation ss: stream_io ss_Read "\<lambda>s. drop (ss_pos s) (ss_buf s)" "\<lambda>s. ss_pos s \<le> length (ss_buf s)"
  ss_Write ss_buf "\<lambda>s n. True"
proof
  fix t :: StringStream and n
  assume "ss_pos t \<le> length (ss_buf t)" "n \<le> length (drop (ss_pos t) (ss_buf t))"
  then have "n + ss_pos t \<le> length (ss_buf t)" by simp
  then show "\<exists>t'. ss_Read n t = Ok (take n (drop (ss_pos t) (ss_buf t)), t') \<and> ss_pos t' \<le> length (ss_buf t') \<and>
      drop (ss_pos t') (ss_buf t') = drop n (drop (ss_pos t) (ss_buf t))"
    by (simp add: ss_Read_def add.commute)
qed (simp add: ss_Write_def)

text \<open>Both memory streams are read from the position on and written up to it.\<close>

interpretation mf: stream_io mf_Read "\<lambda>s. drop (mf_curr s) (mf_buf s)" "\<lambda>s. mf_curr s \<le> length (mf_buf s)"
  mf_Write "\<lambda>s. take (mf_curr s) (mf_buf s)" "\<lambda>s n. mf_curr s + n \<le> length (mf_buf s)"
proof
  fix t :: MemoryFixedSizeStream and n
  assume "mf_curr t \<le> length (mf_buf t)" "n \<le> length (drop (mf_curr t) (mf_buf t))"
  then have "mf_curr t + n \<le> length (mf_buf t)" "min (length (mf_buf t) - mf_curr t) n = n" by simp_all
  then show "\<exists>t'. mf_Read n t = Ok (take n (drop (mf_curr t) (mf_buf t)), t') \<and> mf_curr t' \<le> length (mf_buf t') \<and>
      drop (mf_curr t') (mf_buf t') = drop n (drop (mf_curr t) (mf_buf t))"
    by (simp add: mf_Read_def add.commute)
next
  fix s :: MemoryFixedSizeStream and bs :: "byte list" and k
  assume r: "mf_curr s + (length bs + k) \<le> length (mf_buf s)"
  then show "\<exists>s'. mf_Write bs s = Ok s' \<and> take (mf_curr s') (mf_buf s') = take (mf_curr s) (mf_buf s) @ bs \<and>
      mf_curr s' + k \<le> length (mf_buf s')"
    by (cases "bs = []") (auto simp: mf_Write_def splice_def)
qed

interpretation ms: stream_io ms_Read "\<lambda>s. drop (ms_curr s) (ms_buf s)" "\<lambda>s. ms_curr s \<le> length (ms_buf s)"
  ms_Write "\<lambda>s. take (ms_curr s) (ms_buf s)" "\<lambda>s n. ms_curr s \<le> length (ms_buf s)"
proof
  fix t :: MemoryStringStream and n
  assume "ms_curr t \<le> length (ms_buf t)" "n \<le> length (drop (ms_curr t) (ms_buf t))"
  then have "ms_curr t \<le> length (ms_buf t)" "min (length (ms_buf t) - ms_curr t) n = n" "n + ms_curr t \<le> length (ms_buf t)"
    by simp_all
  then show "\<exists>t'. ms_Read n t = Ok (take n (drop (ms_curr t) (ms_buf t)), t') \<and> ms_curr t' \<le> length (ms_buf t') \<and>
      drop (ms_curr t') (ms_buf t') = drop n (drop (ms_curr t) (ms_buf t))"
    by (simp add: ms_Read_def add.commute)
next
  fix s :: MemoryStringStream and bs and k :: nat
  assume r: "ms_curr s \<le> length (ms_buf s)"
  then show "\<exists>s'. ms_Write bs s = Ok s' \<and> take (ms_curr s') (ms_buf s') = take (ms_curr s) (ms_buf s) @ bs \<and>
      ms_curr s' \<le> length (ms_buf s')"
    by (cases "bs = []") (auto simp: ms_Write_def splice_def Let_def)
qed

section \<open>Composite data through a string stream\<close>

text \<open>
  A \<open>std::list\<close> of pairs of a \<open>std::set<uint64_t>\<close> and a \<open>std::vector<uint32_t>\<close>: the handlers the
  templates select for it.
\<close>

abbreviation set_Write :: "'s writer \<Rightarrow> u64 set \<Rightarrow> 's \<Rightarrow> 's res" where
  "set_Write wr \<equiv> CollectionHandler_Write sorted_list_of_set (PODVectorHandler_Write wr enc64)"

abbreviation set_Read :: "'s reader \<Rightarrow> 's \<Rightarrow> (u64 set option \<times> 's) res" where
  "set_Read rd \<equiv> CollectionHandler_Read insert {} (PODVectorHandler_Read rd 8 dec64)"

abbreviation list_pair_Write :: "'s writer \<Rightarrow> (u64 set \<times> u32 list) list \<Rightarrow> 's \<Rightarrow> 's res" where
  "list_pair_Write wr \<equiv> ListHandler_Write (ComposeVectorHandler_Write wr
     (PairHandler_Write (set_Write wr) (PODVectorHandler_Write wr enc32)))"

abbreviation list_pair_Read :: "'s reader \<Rightarrow> 's \<Rightarrow> ((u64 set \<times> u32 list) list option \<times> 's) res" where
  "list_pair_Read rd \<equiv> ListHandler_Read (ComposeVectorHandler_Read rd
     (PairHandler_Read (set_Read rd) (PODVectorHandler_Read rd 4 dec32)))"

definition small_enough :: "u64 set \<times> u32 list \<Rightarrow> bool" where
  "small_enough p \<longleftrightarrow> 8 * card (fst p) < 2 ^ 64 \<and> 4 * length (snd p) < 2 ^ 64"

lemma fold_insert_set: "fold insert xs A = set xs \<union> A"
  by (induction xs arbitrary: A) auto

context stream_io
begin

lemma set_handler:
  "handler rd rest good wr out room (set_Write wr) (set_Read rd)
     (\<lambda>A. size_prefix (sorted_list_of_set A) @ concat (map enc64 (sorted_list_of_set A)))
     (\<lambda>A. 8 * card A < 2 ^ 64)"
proof (rule collection_handler [OF vector_of_pod])
  fix A :: "u64 set"
  assume "8 * card A < 2 ^ 64"
  then show "pod_ok 8 enc64 dec64 (sorted_list_of_set A)" by (simp add: pod_ok_def)
next
  fix A :: "u64 set"
  show "fold insert (sorted_list_of_set A) {} = A" by (simp add: fold_insert_set)
qed

lemma composite_handler:
  "\<exists>img. handler rd rest good wr out room (list_pair_Write wr) (list_pair_Read rd) img
     (\<lambda>xs. length xs < 2 ^ 64 \<and> (\<forall>x\<in>set xs. small_enough x))"
proof -
  note p = pair_handler [OF set_handler vector_of_pod [of enc32 4 dec32]]
  have "(\<lambda>p. case p of (x, y) \<Rightarrow> 8 * card x < 2 ^ 64 \<and> pod_ok 4 enc32 dec32 y) = small_enough"
    by (auto simp: small_enough_def pod_ok_def fun_eq_iff)
  with list_handler [OF handler.compose_vector [OF p]] show ?thesis by auto
qed

end

text \<open>
  Nested standard containers written to a \<open>StringStream\<close> come back unchanged from a
  \<open>StringStream\<close> opened on its string, with every byte consumed.
\<close>

theorem composite_round_trip:
  assumes "length xs < 2 ^ 64" and "\<forall>x\<in>set xs. small_enough x"
  shows "\<exists>s t. list_pair_Write ss_Write xs (new_StringStream []) = Ok s \<and>
     list_pair_Read ss_Read (new_StringStream (ss_str s)) = Ok (Some xs, t) \<and> ss_pos t = length (ss_buf t)"
proof -
  obtain img where h: "handler ss_Read (\<lambda>s. drop (ss_pos s) (ss_buf s)) (\<lambda>s. ss_pos s \<le> length (ss_buf s))
      ss_Write ss_buf (\<lambda>s n. True) (list_pair_Write ss_Write) (list_pair_Read ss_Read) img
      (\<lambda>xs. length xs < 2 ^ 64 \<and> (\<forall>x\<in>set xs. small_enough x))"
    using ss.composite_handler by blast
  obtain s where s: "list_pair_Write ss_Write xs (new_StringStream []) = Ok s" "ss_buf s = img xs"
    using handler.W_ok [OF h, of xs "new_StringStream []"] assms by (auto simp: new_StringStream_def)
  obtain t where "list_pair_Read ss_Read (new_StringStream (img xs)) = Ok (Some xs, t)"
      "ss_pos t \<le> length (ss_buf t)" "drop (ss_pos t) (ss_buf t) = []"
    using handler.R_ok [OF h, of xs "new_StringStream (img xs)" "[]"] assms by (auto simp: new_StringStream_def)
  with s show ?thesis by (auto simp: ss_str_def)
qed

theorem composite_round_trip_witness:
  "\<exists>s t. list_pair_Write ss_Write [({3, 5}, [7, 8]), ({}, [])] (new_StringStream []) = Ok s \<and>
     list_pair_Read ss_Read (new_StringStream (ss_str s)) = Ok (Some [({3, 5}, [7, 8]), ({}, [])], t) \<and>
     ss_pos t = length (ss_buf t)"
  by (rule composite_round_trip) (simp_all add: small_enough_def)

end
