(* ===== verification/SaveLoad.thy ===== *)
theory SaveLoad
  imports RowBlock Serializer
begin

text \<open>
  \<open>Save\<close> and \<open>Load\<close> of the structures that travel between processes or rest on disk: the row
  block container (\<open>dmlc-core/src/data/row_block.h\<close>) and the workload message
  (\<open>src/base/workload.h\<close>). The object representations of the container's index and cell types
  are arguments (\<open>encI\<close>, \<open>decI\<close>, \<open>encF\<close>, \<open>decF\<close>, of \<open>szI\<close> and \<open>szF\<close> bytes).
\<close>

section \<open>Row block containers\<close>

text \<open>\<open>size_t\<close> offsets are written as 64-bit words.\<close>

definition enc_size :: "nat \<Rightarrow> byte list" where
  "enc_size n = enc64 (word_of_nat n)"

definition dec_size :: "byte list \<Rightarrow> nat" where
  "dec_size bs = unat (dec64 bs)"

definition rbc_Save ::
  "'s writer \<Rightarrow> ('i \<Rightarrow> byte list) \<Rightarrow> ('f \<Rightarrow> byte list) \<Rightarrow> ('i, 'f) RowBlockContainer \<Rightarrow> 's \<Rightarrow> 's res" where
  "rbc_Save wr encI encF c s =
     rbind (PODVectorHandler_Write wr enc_size (rc_offset c) s) (\<lambda>s.
     rbind (PODVectorHandler_Write wr encF (rc_label c) s) (\<lambda>s.
     rbind (PODVectorHandler_Write wr encF (rc_weight c) s) (\<lambda>s.
     rbind (PODVectorHandler_Write wr encI (rc_index c) s) (\<lambda>s.
     rbind (PODVectorHandler_Write wr encF (rc_value c) s) (\<lambda>s.
     wr (encI (rc_max_index c)) s)))))"

text \<open>\<open>CHECK(fi->Read(&v)) << "Bad RowBlock format"\<close>.\<close>

definition must_read :: "('s \<Rightarrow> ('a option \<times> 's) res) \<Rightarrow> 's \<Rightarrow> ('a \<Rightarrow> 's \<Rightarrow> 'b res) \<Rightarrow> 'b res" where
  "must_read R s k = rbind (R s) (\<lambda>(x, s'). case x of
      None \<Rightarrow> Err (CheckFailed ''Bad RowBlock format'') | Some v \<Rightarrow> k v s')"

text \<open>
  \<open>Load\<close> into the container \<open>c0\<close>: \<open>None\<close> is the return value \<open>false\<close>. The raw read of
  \<open>max_index\<close> only has to return something: missing bytes keep their old value.
\<close>

definition rbc_Load ::
  "'s reader \<Rightarrow> nat \<Rightarrow> ('i \<Rightarrow> byte list) \<Rightarrow> (byte list \<Rightarrow> 'i) \<Rightarrow> nat \<Rightarrow> (byte list \<Rightarrow> 'f) \<Rightarrow>
    ('i, 'f) RowBlockContainer \<Rightarrow> 's \<Rightarrow> (('i, 'f) RowBlockContainer option \<times> 's) res" where
  "rbc_Load rd szI encI decI szF decF c0 s =
     rbind (PODVectorHandler_Read rd 8 dec_size s) (\<lambda>(off, s). case off of None \<Rightarrow> Ok (None, s) | Some off' \<Rightarrow>
     must_read (PODVectorHandler_Read rd szF decF) s (\<lambda>lab s.
     must_read (PODVectorHandler_Read rd szF decF) s (\<lambda>wei s.
     must_read (PODVectorHandler_Read rd szI decI) s (\<lambda>ind s.
     must_read (PODVectorHandler_Read rd szF decF) s (\<lambda>val s.
     rbind (rd szI s) (\<lambda>(bs, s).
       check (length bs \<noteq> 0) ''Bad RowBlock format''
         (Ok (Some \<lparr>rc_offset = off', rc_label = lab, rc_weight = wei, rc_index = ind, rc_value = val,
            rc_max_index = decI (bs @ drop (length bs) (encI (rc_max_index c0)))\<rparr>, s))))))))"

text \<open>The containers that survive: no vector is so long that its byte count wraps around.\<close>

definition rbc_storable ::
  "nat \<Rightarrow> ('i \<Rightarrow> byte list) \<Rightarrow> (byte list \<Rightarrow> 'i) \<Rightarrow> nat \<Rightarrow> ('f \<Rightarrow> byte list) \<Rightarrow> (byte list \<Rightarrow> 'f) \<Rightarrow>
    ('i, 'f) RowBlockContainer \<Rightarrow> bool" where
  "rbc_storable szI encI decI szF encF decF c \<longleftrightarrow>
     pod_ok 8 enc_size dec_size (rc_offset c) \<and> pod_ok szF encF decF (rc_label c) \<and>
     pod_ok szF encF decF (rc_weight c) \<and> pod_ok szI encI decI (rc_index c) \<and>
     pod_ok szF encF decF (rc_value c) \<and>
     length (encI (rc_max_index c)) = szI \<and> decI (encI (rc_max_index c)) = rc_max_index c \<and> 0 < szI"

text \<open>The file image of a container.\<close>

definition rbc_image :: "('i \<Rightarrow> byte list) \<Rightarrow> ('f \<Rightarrow> byte list) \<Rightarrow> ('i, 'f) RowBlockContainer \<Rightarrow> byte list" where
  "rbc_image encI encF c =
     size_prefix (rc_offset c) @ concat (map enc_size (rc_offset c)) @
     size_prefix (rc_label c) @ concat (map encF (rc_label c)) @
     size_prefix (rc_weight c) @ concat (map encF (rc_weight c)) @
     size_prefix (rc_index c) @ concat (map encI (rc_index c)) @
     size_prefix (rc_value c) @ concat (map encF (rc_value c)) @ encI (rc_max_index c)"

context stream_io
begin

lemma vector_W:
  assumes "pod_ok sz enc dec xs" and "room s (length (size_prefix xs @ concat (map enc xs)) + k)"
  obtains s' where "PODVectorHandler_Write wr enc xs s = Ok s'" "out s' = out s @ size_prefix xs @ concat (map enc xs)" "room s' k"
  using handler.W_ok [OF vector_of_pod assms] by blast

lemma vector_R:
  assumes "pod_ok sz enc dec xs" and "good t" and "rest t = size_prefix xs @ concat (map enc xs) @ tail"
  obtains t' where "PODVectorHandler_Read rd sz dec t = Ok (Some xs, t')" "good t'" "rest t' = tail"
  using handler.R_ok [OF vector_of_pod assms(1,2), of tail] assms(3) by auto

lemma rbc_Save_ok:
  assumes f: "rbc_storable szI encI decI szF encF decF c" and r: "room s (length (rbc_image encI encF c) + k)"
  shows "\<exists>s'. rbc_Save wr encI encF c s = Ok s' \<and> out s' = out s @ rbc_image encI encF c \<and> room s' k"
proof -
  let ?off = "rc_offset c" and ?lab = "rc_label c" and ?wei = "rc_weight c" and ?ind = "rc_index c" and ?val = "rc_value c"
  have p: "pod_ok 8 enc_size dec_size ?off" "pod_ok szF encF decF ?lab" "pod_ok szF encF decF ?wei"
      "pod_ok szI encI decI ?ind" "pod_ok szF encF decF ?val"
    using f by (simp_all add: rbc_storable_def)
  define k5 where "k5 = length (encI (rc_max_index c)) + k"
  define k4 where "k4 = length (size_prefix ?val @ concat (map encF ?val)) + k5"
  define k3 where "k3 = length (size_prefix ?ind @ concat (map encI ?ind)) + k4"
  define k2 where "k2 = length (size_prefix ?wei @ concat (map encF ?wei)) + k3"
  define k1 where "k1 = length (size_prefix ?lab @ concat (map encF ?lab)) + k2"
  have "length (rbc_image encI encF c) + k = length (size_prefix ?off @ concat (map enc_size ?off)) + k1"
    by (simp add: rbc_image_def k1_def k2_def k3_def k4_def k5_def)
  with r have "room s (length (size_prefix ?off @ concat (map enc_size ?off)) + k1)" by simp
  from vector_W [OF p(1) this] obtain s1 where 1: "PODVectorHandler_Write wr enc_size ?off s = Ok s1"
    "out s1 = out s @ size_prefix ?off @ concat (map enc_size ?off)" "room s1 k1" .
  from vector_W [OF p(2) 1(3) [unfolded k1_def]] obtain s2 where 2: "PODVectorHandler_Write wr encF ?lab s1 = Ok s2"
    "out s2 = out s1 @ size_prefix ?lab @ concat (map encF ?lab)" "room s2 k2" .
  from vector_W [OF p(3) 2(3) [unfolded k2_def]] obtain s3 where 3: "PODVectorHandler_Write wr encF ?wei s2 = Ok s3"
    "out s3 = out s2 @ size_prefix ?wei @ concat (map encF ?wei)" "room s3 k3" .
  from vector_W [OF p(4) 3(3) [unfolded k3_def]] obtain s4 where 4: "PODVectorHandler_Write wr encI ?ind s3 = Ok s4"
    "out s4 = out s3 @ size_prefix ?ind @ concat (map encI ?ind)" "room s4 k4" .
  from vector_W [OF p(5) 4(3) [unfolded k4_def]] obtain s5 where 5: "PODVectorHandler_Write wr encF ?val s4 = Ok s5"
    "out s5 = out s4 @ size_prefix ?val @ concat (map encF ?val)" "room s5 k5" .
  from wr_ok [OF 5(3) [unfolded k5_def]] show ?thesis
    by (auto simp: rbc_Save_def rbc_image_def 1 2 3 4 5)
qed

lemma rbc_Load_ok:
  assumes f: "rbc_storable szI encI decI szF encF decF c" and g: "good t" and r: "rest t = rbc_image encI encF c @ tail"
    and c0: "length (encI (rc_max_index c0)) = szI"
  shows "\<exists>t'. rbc_Load rd szI encI decI szF decF c0 t = Ok (Some c, t') \<and> good t' \<and> rest t' = tail"
proof -
  have p: "pod_ok 8 enc_size dec_size (rc_offset c)" "pod_ok szF encF decF (rc_label c)" "pod_ok szF encF decF (rc_weight c)"
      "pod_ok szI encI decI (rc_index c)" "pod_ok szF encF decF (rc_value c)"
    and m: "length (encI (rc_max_index c)) = szI" "decI (encI (rc_max_index c)) = rc_max_index c" "0 < szI"
    using f by (simp_all add: rbc_storable_def)
  obtain t1 where 1: "PODVectorHandler_Read rd 8 dec_size t = Ok (Some (rc_offset c), t1)" "good t1"
      "rest t1 = size_prefix (rc_label c) @ concat (map encF (rc_label c)) @ (size_prefix (rc_weight c) @ concat (map encF (rc_weight c)) @
        (size_prefix (rc_index c) @ concat (map encI (rc_index c)) @ (size_prefix (rc_value c) @ concat (map encF (rc_value c)) @
        encI (rc_max_index c) @ tail)))"
    by (rule vector_R [OF p(1) g]) (simp_all add: r rbc_image_def)
  obtain t2 where 2: "PODVectorHandler_Read rd szF decF t1 = Ok (Some (rc_label c), t2)" "good t2"
      "rest t2 = size_prefix (rc_weight c) @ concat (map encF (rc_weight c)) @
        (size_prefix (rc_index c) @ concat (map encI (rc_index c)) @ (size_prefix (rc_value c) @ concat (map encF (rc_value c)) @
        encI (rc_max_index c) @ tail))"
    by (rule vector_R [OF p(2) 1(2,3)])
  obtain t3 where 3: "PODVectorHandler_Read rd szF decF t2 = Ok (Some (rc_weight c), t3)" "good t3"
      "rest t3 = size_prefix (rc_index c) @ concat (map encI (rc_index c)) @ (size_prefix (rc_value c) @ concat (map encF (rc_value c)) @
        encI (rc_max_index c) @ tail)"
    by (rule vector_R [OF p(3) 2(2,3)])
  obtain t4 where 4: "PODVectorHandler_Read rd szI decI t3 = Ok (Some (rc_index c), t4)" "good t4"
      "rest t4 = size_prefix (rc_value c) @ concat (map encF (rc_value c)) @ (encI (rc_max_index c) @ tail)"
    by (rule vector_R [OF p(4) 3(2,3)])
  obtain t5 where 5: "PODVectorHandler_Read rd szF decF t4 = Ok (Some (rc_value c), t5)" "good t5"
      "rest t5 = encI (rc_max_index c) @ tail"
    by (rule vector_R [OF p(5) 4(2,3)])
  from rd_append [OF 5(2,3)] m c0 show ?thesis
    by (auto simp: rbc_Load_def must_read_def 1 2 3 4 5)
qed

lemma rbc_handler:
  assumes "length (encI (rc_max_index c0)) = szI"
  shows "handler rd rest good wr out room (rbc_Save wr encI encF) (rbc_Load rd szI encI decI szF decF c0)
     (rbc_image encI encF) (rbc_storable szI encI decI szF encF decF)"
  by unfold_locales (rule rbc_Save_ok rbc_Load_ok, (assumption | rule assms)+)+

end

text \<open>
  C28: a container saved to any stream that keeps the stream contract is loaded back unchanged,
  whatever the loading container held before.
\<close>

theorem rbc_Save_Load:
  assumes "stream_io rd rest good wr out room" and "rbc_storable szI encI decI szF encF decF c"
    and "length (encI (rc_max_index c0)) = szI" and "room s (length (rbc_image encI encF c))" and "out s = []"
    and "good t" and "\<And>s'. rbc_Save wr encI encF c s = Ok s' \<Longrightarrow> rest t = out s'"
  shows "\<exists>t'. rbc_Load rd szI encI decI szF decF c0 t = Ok (Some c, t') \<and> rest t' = []"
  by (rule handler.round_trip [OF stream_io.rbc_handler [where encI = encI and ?c0.0 = c0, OF assms(1,3)] assms(2,4-7)])

definition demo_rbc :: "(u32, u32) RowBlockContainer" where
  "demo_rbc = \<lparr>rc_offset = [0, 2, 3], rc_label = [1, 0], rc_weight = [], rc_index = [4, 9, 4],
     rc_value = [5, 6, 7], rc_max_index = 9\<rparr>"

lemma demo_rbc_storable: "rbc_storable 4 enc32 dec32 4 enc32 dec32 demo_rbc"
  by (simp add: rbc_storable_def pod_ok_def demo_rbc_def enc_size_def dec_size_def unat_of_nat)

theorem rbc_Save_Load_witness:
  "\<exists>s t'. rbc_Save ss_Write enc32 enc32 demo_rbc (new_StringStream []) = Ok s \<and>
     rbc_Load ss_Read 4 enc32 dec32 4 dec32 rbc_Clear (new_StringStream (ss_str s)) = Ok (Some demo_rbc, t')"
proof -
  have io: "stream_io ss_Read (\<lambda>s. drop (ss_pos s) (ss_buf s)) (\<lambda>s. ss_pos s \<le> length (ss_buf s))
      ss_Write ss_buf (\<lambda>s n. True)" by unfold_locales
  obtain s where s: "rbc_Save ss_Write enc32 enc32 demo_rbc (new_StringStream []) = Ok s"
    using ss.rbc_Save_ok [OF demo_rbc_storable] by blast
  have "\<exists>t'. rbc_Load ss_Read 4 enc32 dec32 4 dec32 rbc_Clear (new_StringStream (ss_str s)) = Ok (Some demo_rbc, t') \<and>
      drop (ss_pos t') (ss_buf t') = []"
    by (rule rbc_Save_Load [OF io demo_rbc_storable, where s = "new_StringStream []"])
      (use s in \<open>simp_all add: new_StringStream_def ss_str_def\<close>)
  with s show ?thesis by blast
qed

section \<open>Workloads\<close>

text \<open>Enumerations and \<open>int\<close> fields are their 32-bit patterns, strings are their bytes.\<close>

record WFile =
  wf_filename :: "byte list"
  wf_format :: "byte list"
  wf_n :: u32
  wf_k :: u32

record Workload =
  wl_type :: u32
  wl_data_pass :: u32
  wl_file :: "WFile list"

definition wl_Empty :: "Workload \<Rightarrow> bool" where
  "wl_Empty w \<longleftrightarrow> length (wl_file w) = 0"

definition enc_char :: "byte \<Rightarrow> byte list" where
  "enc_char b = [b]"

definition dec_char :: "byte list \<Rightarrow> byte" where
  "dec_char bs = hd bs"

definition WFile_Save :: "WFile \<Rightarrow> StringStream \<Rightarrow> StringStream res" where
  "WFile_Save f s =
     rbind (PODStringHandler_Write ss_Write enc_char (wf_filename f) s) (\<lambda>s.
     rbind (PODStringHandler_Write ss_Write enc_char (wf_format f) s) (\<lambda>s.
     rbind (ss_Write (enc32 (wf_n f)) s) (\<lambda>s.
     ss_Write (enc32 (wf_k f)) s)))"

definition Workload_Save :: "Workload \<Rightarrow> StringStream \<Rightarrow> StringStream res" where
  "Workload_Save w s =
     rbind (ss_Write (enc32 (wl_type w)) s) (\<lambda>s.
     rbind (ss_Write (enc32 (wl_data_pass w)) s) (\<lambda>s.
     rbind (ss_Write (enc_size (length (wl_file w))) s) (\<lambda>s.
     write_all WFile_Save (wl_file w) s)))"

text \<open>
  \<open>Load\<close> ignores the results of the reads; on a \<open>StringStream\<close> a short read aborts, so a value
  that was not read keeps the empty default of \<open>File f\<close>.
\<close>

definition WFile_Load :: "StringStream \<Rightarrow> (WFile option \<times> StringStream) res" where
  "WFile_Load s =
     rbind (PODStringHandler_Read ss_Read 1 dec_char s) (\<lambda>(fn, s).
     rbind (PODStringHandler_Read ss_Read 1 dec_char s) (\<lambda>(fmt, s).
     rbind (ss_Read 4 s) (\<lambda>(n, s).
     rbind (ss_Read 4 s) (\<lambda>(k, s).
     Ok (Some \<lparr>wf_filename = (case fn of None \<Rightarrow> [] | Some v \<Rightarrow> v), wf_format = (case fmt of None \<Rightarrow> [] | Some v \<Rightarrow> v),
        wf_n = dec32 n, wf_k = dec32 k\<rparr>, s)))))"

text \<open>The files are appended to those the object already has.\<close>

definition Workload_Load :: "Workload \<Rightarrow> StringStream \<Rightarrow> (Workload \<times> StringStream) res" where
  "Workload_Load w s =
     rbind (ss_Read 4 s) (\<lambda>(ty, s).
     rbind (ss_Read 4 s) (\<lambda>(dp, s).
     rbind (ss_Read 8 s) (\<lambda>(num, s).
     rbind (read_all WFile_Load (dec_size num) (wl_file w) s) (\<lambda>(fs, s).
     Ok (w\<lparr>wl_type := dec32 ty, wl_data_pass := dec32 dp, wl_file := (case fs of None \<Rightarrow> wl_file w | Some v \<Rightarrow> v)\<rparr>, s)))))"

definition WFile_ok :: "WFile \<Rightarrow> bool" where
  "WFile_ok f \<longleftrightarrow> length (wf_filename f) < 2 ^ 64 \<and> length (wf_format f) < 2 ^ 64"

definition WFile_image :: "WFile \<Rightarrow> byte list" where
  "WFile_image f = size_prefix (wf_filename f) @ wf_filename f @ size_prefix (wf_format f) @ wf_format f @
     enc32 (wf_n f) @ enc32 (wf_k f)"

lemma concat_enc_char [simp]: "concat (map enc_char xs) = xs"
  by (induction xs) (simp_all add: enc_char_def)

lemma pod_ok_char: "pod_ok 1 enc_char dec_char xs \<longleftrightarrow> length xs < 2 ^ 64"
  by (simp add: pod_ok_def enc_char_def dec_char_def)

text \<open>What a good string stream has left to read.\<close>

definition ss_rest :: "StringStream \<Rightarrow> byte list" where
  "ss_rest s = drop (ss_pos s) (ss_buf s)"

lemma ss_Read_append:
  assumes "ss_pos s \<le> length (ss_buf s)" and "ss_rest s = bs @ tail" and "n = length bs"
  shows "\<exists>s'. ss_Read n s = Ok (bs, s') \<and> ss_pos s' \<le> length (ss_buf s') \<and> ss_rest s' = tail"
  using ss.rd_append [of s bs tail] assms by (simp add: ss_rest_def)

lemma ss_Read_string:
  assumes "ss_pos s \<le> length (ss_buf s)" and "ss_rest s = size_prefix bs @ bs @ tail" and "length bs < 2 ^ 64"
  shows "\<exists>s'. PODStringHandler_Read ss_Read 1 dec_char s = Ok (Some bs, s') \<and> ss_pos s' \<le> length (ss_buf s') \<and> ss_rest s' = tail"
  using handler.R_ok [OF ss.vector_of_pod [of enc_char 1 dec_char], of bs s tail] assms
  by (simp add: string_handler_eq pod_ok_char ss_rest_def del: One_nat_def)

lemma ss_Write_string:
  assumes "length bs < 2 ^ 64"
  shows "PODStringHandler_Write ss_Write enc_char bs s = Ok (s\<lparr>ss_buf := ss_buf s @ size_prefix bs @ bs\<rparr>)"
  by (simp add: PODStringHandler_Write_def ss_Write_def)

interpretation wfile: handler ss_Read "\<lambda>s. drop (ss_pos s) (ss_buf s)" "\<lambda>s. ss_pos s \<le> length (ss_buf s)"
  ss_Write ss_buf "\<lambda>s n. True" WFile_Save WFile_Load WFile_image WFile_ok
proof unfold_locales
  fix f s and k :: nat
  assume "WFile_ok f"
  then show "\<exists>s'. WFile_Save f s = Ok s' \<and> ss_buf s' = ss_buf s @ WFile_image f \<and> True"
    by (simp add: WFile_Save_def WFile_ok_def ss_Write_string ss_Write_def WFile_image_def)
next
  fix f :: WFile and t :: StringStream and tail
  assume f: "WFile_ok f" and g: "ss_pos t \<le> length (ss_buf t)" and r: "drop (ss_pos t) (ss_buf t) = WFile_image f @ tail"
  have l: "length (wf_filename f) < 2 ^ 64" "length (wf_format f) < 2 ^ 64" using f by (simp_all add: WFile_ok_def)
  obtain t1 where 1: "PODStringHandler_Read ss_Read 1 dec_char t = Ok (Some (wf_filename f), t1)"
      "ss_pos t1 \<le> length (ss_buf t1)" "ss_rest t1 = size_prefix (wf_format f) @ wf_format f @ (enc32 (wf_n f) @ enc32 (wf_k f) @ tail)"
    using ss_Read_string [OF g _ l(1)] r by (auto simp: WFile_image_def ss_rest_def)
  obtain t2 where 2: "PODStringHandler_Read ss_Read 1 dec_char t1 = Ok (Some (wf_format f), t2)"
      "ss_pos t2 \<le> length (ss_buf t2)" "ss_rest t2 = enc32 (wf_n f) @ (enc32 (wf_k f) @ tail)"
    using ss_Read_string [OF 1(2,3) l(2)] by auto
  obtain t3 where 3: "ss_Read 4 t2 = Ok (enc32 (wf_n f), t3)" "ss_pos t3 \<le> length (ss_buf t3)" "ss_rest t3 = enc32 (wf_k f) @ tail"
    using ss_Read_append [OF 2(2,3), of 4] by auto
  obtain t4 where 4: "ss_Read 4 t3 = Ok (enc32 (wf_k f), t4)" "ss_pos t4 \<le> length (ss_buf t4)" "ss_rest t4 = tail"
    using ss_Read_append [OF 3(2,3), of 4] by auto
  show "\<exists>t'. WFile_Load t = Ok (Some f, t') \<and> ss_pos t' \<le> length (ss_buf t') \<and> drop (ss_pos t') (ss_buf t') = tail"
    using 1 2 3 4 by (simp add: WFile_Load_def ss_rest_def)
qed

text \<open>
  The workload the scheduler writes into a task message is the one the worker reads from it:
  type, pass and all files, after the files the receiving object already has.
\<close>

theorem Workload_Save_Load:
  assumes "length (wl_file w) < 2 ^ 64" and "\<forall>f\<in>set (wl_file w). WFile_ok f"
  shows "\<exists>s t. Workload_Save w (new_StringStream []) = Ok s \<and>
     Workload_Load w0 (new_StringStream (ss_str s)) = Ok (w0\<lparr>wl_type := wl_type w,
       wl_data_pass := wl_data_pass w, wl_file := wl_file w0 @ wl_file w\<rparr>, t)"
proof -
  let ?h = "enc32 (wl_type w) @ enc32 (wl_data_pass w) @ enc_size (length (wl_file w))"
  let ?b = "concat (map WFile_image (wl_file w))"
  obtain s where s: "Workload_Save w (new_StringStream []) = Ok s" "ss_buf s = ?h @ ?b"
    using wfile.write_all_ok [OF assms(2), of "\<lparr>ss_buf = ?h, ss_pos = 0\<rparr>"]
    by (auto simp: Workload_Save_def new_StringStream_def ss_Write_def)
  let ?t = "new_StringStream (?h @ ?b)"
  have t0: "ss_pos ?t \<le> length (ss_buf ?t)" "ss_rest ?t = enc32 (wl_type w) @ (enc32 (wl_data_pass w) @ (enc_size (length (wl_file w)) @ ?b))"
    by (simp_all add: new_StringStream_def ss_rest_def)
  obtain t1 where 1: "ss_Read 4 ?t = Ok (enc32 (wl_type w), t1)" "ss_pos t1 \<le> length (ss_buf t1)"
      "ss_rest t1 = enc32 (wl_data_pass w) @ (enc_size (length (wl_file w)) @ ?b)"
    using ss_Read_append [OF t0, of 4] by auto
  obtain t2 where 2: "ss_Read 4 t1 = Ok (enc32 (wl_data_pass w), t2)" "ss_pos t2 \<le> length (ss_buf t2)"
      "ss_rest t2 = enc_size (length (wl_file w)) @ ?b"
    using ss_Read_append [OF 1(2,3), of 4] by auto
  obtain t3 where 3: "ss_Read 8 t2 = Ok (enc_size (length (wl_file w)), t3)" "ss_pos t3 \<le> length (ss_buf t3)" "ss_rest t3 = ?b"
    using ss_Read_append [OF 2(2,3), of 8] by (auto simp: enc_size_def)
  have n: "dec_size (enc_size (length (wl_file w))) = length (wl_file w)"
    using assms(1) by (simp add: dec_size_def enc_size_def unat_of_nat)
  obtain t where "read_all WFile_Load (length (wl_file w)) (wl_file w0) t3 = Ok (Some (wl_file w0 @ wl_file w), t)"
    using wfile.read_all_ok [OF assms(2) 3(2), of "[]"] 3(3) by (auto simp: ss_rest_def)
  then show ?thesis using s 1 2 3 n by (simp add: Workload_Load_def ss_str_def)
qed

theorem Workload_Save_Load_witness:
  "\<exists>s t. Workload_Save \<lparr>wl_type = 1, wl_data_pass = 3, wl_file = [\<lparr>wf_filename = [97], wf_format = [], wf_n = 4, wf_k = 2\<rparr>]\<rparr>
      (new_StringStream []) = Ok s \<and>
    Workload_Load \<lparr>wl_type = 0, wl_data_pass = 0, wl_file = []\<rparr> (new_StringStream (ss_str s)) =
      Ok (\<lparr>wl_type = 1, wl_data_pass = 3, wl_file = [\<lparr>wf_filename = [97], wf_format = [], wf_n = 4, wf_k = 2\<rparr>]\<rparr>, t)"
  using Workload_Save_Load [of "\<lparr>wl_type = 1, wl_data_pass = 3, wl_file = [\<lparr>wf_filename = [97], wf_format = [], wf_n = 4, wf_k = 2\<rparr>]\<rparr>"
    "\<lparr>wl_type = 0, wl_data_pass = 0, wl_file = []\<rparr>"]
  by (simp add: WFile_ok_def)

end
