(* ===== verification/RecordIO.thy ===== *)
theory RecordIO
  imports Serializer
begin

text \<open>
  The binary record format: \<open>dmlc-core/include/dmlc/recordio.h\<close> and \<open>dmlc-core/src/recordio.cc\<close>. A record is
  written as one segment, or as several when the magic number occurs at a multiple of four
  bytes in it; the reader puts the pieces together again, and \<open>RecordIOChunkReader\<close> finds the
  record heads in the middle of a chunk. The reader's loop may run forever on a stream that never
  ends, hence \<open>partial_function\<close>: no result is \<open>None\<close>.
\<close>

section \<open>The length word\<close>

definition kMagic :: u32 where
  "kMagic = 0xced7230a"

definition EncodeLRec :: "u32 \<Rightarrow> u32 \<Rightarrow> u32" where
  "EncodeLRec cflag len = (push_bit 29 cflag) OR len"

definition DecodeFlag :: "u32 \<Rightarrow> u32" where
  "DecodeFlag w = (drop_bit 29 w) AND 7"

definition DecodeLength :: "u32 \<Rightarrow> u32" where
  "DecodeLength w = w AND ((push_bit 29 1) - 1)"

text \<open>\<open>((len + 3U) >> 2U) << 2U\<close> and \<open>(len >> 2U) << 2U\<close>, for lengths below \<open>2 ^ 29\<close>.\<close>

definition upper_align :: "nat \<Rightarrow> nat" where
  "upper_align len = ((len + 3) div 4) * 4"

definition lower_align :: "nat \<Rightarrow> nat" where
  "lower_align len = (len div 4) * 4"

section \<open>Writer\<close>

text \<open>The bytes of the magic number and of one segment's head.\<close>

definition magic :: "byte list" where
  "magic = enc32 kMagic"

definition write_segment :: "'s writer \<Rightarrow> u32 \<Rightarrow> byte list \<Rightarrow> 's \<Rightarrow> 's res" where
  "write_segment wr cflag bs s =
     rbind (wr magic s) (\<lambda>s.
     rbind (wr (enc32 (EncodeLRec cflag (word_of_nat (length bs)))) s) (\<lambda>s.
     if bs \<noteq> [] then wr bs s else Ok s))"

text \<open>The loop over the aligned words; \<open>dptr\<close> is the end of what has been written, \<open>ec\<close> the exception counter.\<close>

function write_loop :: "'s writer \<Rightarrow> byte list \<Rightarrow> nat \<Rightarrow> nat \<Rightarrow> nat \<Rightarrow> 's \<Rightarrow> (nat \<times> nat \<times> 's) res" where
  "write_loop wr d i dptr ec s =
     (if i < lower_align (length d) then
        if take 4 (drop i d) = magic then
          rbind (write_segment wr (if dptr = 0 then 1 else 2) (take (i - dptr) (drop dptr d)) s)
            (write_loop wr d (i + 4) (i + 4) (ec + 1))
        else write_loop wr d (i + 4) dptr ec s
      else Ok (dptr, ec, s))"
  by pat_completeness auto
termination
  by (relation "measure (\<lambda>(wr, d, i, dptr, ec, s). lower_align (length d) - i)") auto

declare write_loop.simps [simp del]

definition WriteRecord :: "'s writer \<Rightarrow> byte list \<Rightarrow> nat \<times> 's \<Rightarrow> (nat \<times> 's) res" where
  "WriteRecord wr d = (\<lambda>(ec, s).
     check (length d < 2 ^ 29) ''RecordIO only accept record less than 2^29 bytes''
      (rbind (write_loop wr d 0 0 ec s) (\<lambda>(dptr, ec', s).
       rbind (write_segment wr (if dptr \<noteq> 0 then 3 else 0) (drop dptr d) s) (\<lambda>s.
       rbind (if upper_align (length d) \<noteq> length d then wr (replicate (upper_align (length d) - length d) 0) s else Ok s) (\<lambda>s.
       Ok (ec', s))))))"

section \<open>Reader\<close>

record 's RecordIOReader =
  rr_stream :: 's
  rr_eos :: bool

text \<open>One turn of the loop of \<open>NextRecord\<close>: \<open>Inl\<close> is a return, \<open>Inr\<close> the record so far.\<close>

definition read_turn :: "'s reader \<Rightarrow> byte list \<Rightarrow> 's \<Rightarrow> ((byte list option \<times> 's) + (byte list \<times> 's)) res" where
  "read_turn rd out_rec s =
     rbind (rd 8 s) (\<lambda>(header, s).
     if length header = 0 then Ok (Inl (None, s))
     else check (length header = 8) ''Inavlid RecordIO File''
      (check (dec32 (take 4 header) = kMagic) ''Invalid RecordIO File''
        (let cflag = DecodeFlag (dec32 (drop 4 header)); len = unat (DecodeLength (dec32 (drop 4 header)));
             up = upper_align len in
         rbind (if up \<noteq> 0 then rbind (rd up s) (\<lambda>(bs, s). check (length bs = up) ''Invalid RecordIO File upper_align'' (Ok (bs, s)))
                else Ok ([], s)) (\<lambda>(bs, s).
         if cflag = 0 \<or> cflag = 3 then Ok (Inl (Some (out_rec @ take len bs), s))
         else Ok (Inr (out_rec @ take len bs @ magic, s))))))"

partial_function (option) read_loop :: "'s reader \<Rightarrow> byte list \<Rightarrow> 's \<Rightarrow> (byte list option \<times> 's) res option" where
  "read_loop rd out_rec s =
     (case read_turn rd out_rec s of
        Err e \<Rightarrow> Some (Err e)
      | Ok (Inl r) \<Rightarrow> Some (Ok r)
      | Ok (Inr (out', s')) \<Rightarrow> read_loop rd out' s')"

definition NextRecord :: "'s reader \<Rightarrow> 's RecordIOReader \<Rightarrow> (byte list option \<times> 's RecordIOReader) res option" where
  "NextRecord rd r =
     (if rr_eos r then Some (Ok (None, r))
      else case read_loop rd [] (rr_stream r) of
          None \<Rightarrow> None
        | Some (Err e) \<Rightarrow> Some (Err e)
        | Some (Ok (None, s)) \<Rightarrow> Some (Ok (None, \<lparr>rr_stream = s, rr_eos = True\<rparr>))
        | Some (Ok (Some d, s)) \<Rightarrow> Some (Ok (Some d, \<lparr>rr_stream = s, rr_eos = False\<rparr>)))"

section \<open>Chunk reader\<close>

text \<open>
  Pointers into the chunk are positions, its base address is a multiple of four. An access behind
  the end of the chunk is \<open>OutOfBounds\<close>.
\<close>

definition word_at :: "byte list \<Rightarrow> nat \<Rightarrow> u32" where
  "word_at c p = dec32 (take 4 (drop p c))"

function find_head :: "byte list \<Rightarrow> nat \<Rightarrow> nat \<Rightarrow> nat" where
  "find_head c p pend =
     (if p + 4 < pend then
        if word_at c p = kMagic \<and> (DecodeFlag (word_at c (p + 4)) = 0 \<or> DecodeFlag (word_at c (p + 4)) = 1)
        then p else find_head c (p + 4) pend
      else pend)"
  by pat_completeness auto
termination
  by (relation "measure (\<lambda>(c, p, pend). pend - p)") auto

declare find_head.simps [simp del]

definition FindNextRecordIOHead :: "byte list \<Rightarrow> nat \<Rightarrow> nat \<Rightarrow> nat res" where
  "FindNextRecordIOHead c begin pend =
     check (begin mod 4 = 0) ''begin'' (check (pend mod 4 = 0) ''end'' (Ok (find_head c begin pend)))"

record ChunkReader =
  cr_chunk :: "byte list"
  cr_pbegin :: nat
  cr_pend :: nat

definition new_ChunkReader :: "byte list \<Rightarrow> nat \<Rightarrow> nat \<Rightarrow> ChunkReader res" where
  "new_ChunkReader c part_index num_parts =
     (let nstep = upper_align ((length c + num_parts - 1) div num_parts);
          begin = min (length c) (nstep * part_index);
          pend = min (length c) (nstep * (part_index + 1)) in
      rbind (FindNextRecordIOHead c begin (length c)) (\<lambda>b.
      rbind (FindNextRecordIOHead c pend (length c)) (\<lambda>e.
      Ok \<lparr>cr_chunk = c, cr_pbegin = b, cr_pend = e\<rparr>)))"

definition slice_res :: "byte list \<Rightarrow> nat \<Rightarrow> nat \<Rightarrow> byte list res" where
  "slice_res c p n = (if p + n \<le> length c then Ok (take n (drop p c)) else Err OutOfBounds)"

text \<open>The loop for a record of several segments: position \<open>p\<close>, string so far \<open>temp\<close>.\<close>

function chunk_loop :: "byte list \<Rightarrow> nat \<Rightarrow> nat \<Rightarrow> byte list \<Rightarrow> (byte list \<times> nat) res" where
  "chunk_loop c pend p temp =
     (if p + 8 \<le> pend then
        rbind (slice_res c p 8) (\<lambda>h.
        check (dec32 (take 4 h) = kMagic) ''p[0] == kMagic''
         (let cflag = DecodeFlag (dec32 (drop 4 h)); clen = unat (DecodeLength (dec32 (drop 4 h))) in
          rbind (if clen \<noteq> 0 then slice_res c (p + 8) clen else Ok []) (\<lambda>bs.
          if cflag = 3 then Ok (temp @ bs, p + 8 + upper_align clen)
          else chunk_loop c pend (p + 8 + upper_align clen) (temp @ bs @ magic))))
      else Err (CheckFailed ''pbegin_ + 2 * sizeof(uint32_t) <= pend_''))"
  by pat_completeness auto
termination
  by (relation "measure (\<lambda>(c, pend, p, temp). pend - p)") auto

declare chunk_loop.simps [simp del]

definition ChunkReader_NextRecord :: "ChunkReader \<Rightarrow> (byte list option \<times> ChunkReader) res" where
  "ChunkReader_NextRecord r =
     (if cr_pbegin r \<ge> cr_pend r then Ok (None, r)
      else rbind (slice_res (cr_chunk r) (cr_pbegin r) 8) (\<lambda>h.
        check (dec32 (take 4 h) = kMagic) ''p[0] == kMagic''
         (let cflag = DecodeFlag (dec32 (drop 4 h)); clen = unat (DecodeLength (dec32 (drop 4 h))) in
          if cflag = 0 then
            let p' = cr_pbegin r + 8 + upper_align clen in
            check (p' \<le> cr_pend r) ''Invalid RecordIO Format''
              (rbind (slice_res (cr_chunk r) (cr_pbegin r + 8) clen) (\<lambda>bs. Ok (Some bs, r\<lparr>cr_pbegin := p'\<rparr>)))
          else check (cflag = 1) ''Invalid RecordIO Format''
            (rbind (chunk_loop (cr_chunk r) (cr_pend r) (cr_pbegin r) []) (\<lambda>(d, p'). Ok (Some d, r\<lparr>cr_pbegin := p'\<rparr>))))))"

section \<open>Facts on the length word\<close>

lemma word_low:
  assumes "n < 2 ^ k"
  shows "take_bit k (n :: u32) = n"
  using less_mask_eq [OF assms(1)] by (simp add: take_bit_eq_mask)

lemma seven_mask: "(7 :: u32) = mask 3"
  by (simp add: mask_eq_exp_minus_1)

lemma DecodeFlag_EncodeLRec:
  assumes "f < 8" and "n < 2 ^ 29"
  shows "DecodeFlag (EncodeLRec f n) = f"
proof -
  have f: "f = take_bit 3 f" using word_low [of f 3] assms(1) by simp
  have n: "n = take_bit 29 n" using word_low [of n 29] assms(2) by simp
  have bf: "bit f i \<longleftrightarrow> i < 3 \<and> bit f i" for i by (subst f) (simp add: bit_simps)
  have bn: "bit n i \<longleftrightarrow> i < 29 \<and> bit n i" for i by (subst n) (simp add: bit_simps)
  show ?thesis
  proof (rule bit_word_eqI)
    fix i :: nat
    assume "i < LENGTH(32)"
    then show "bit (DecodeFlag (EncodeLRec f n)) i \<longleftrightarrow> bit f i"
      using bf [of i] bn [of "29 + i"] unfolding DecodeFlag_def EncodeLRec_def seven_mask by (auto simp: bit_simps)
  qed
qed

lemma DecodeLength_EncodeLRec:
  assumes "n < 2 ^ 29"
  shows "DecodeLength (EncodeLRec f n) = n"
proof -
  have n: "n = take_bit 29 n" using word_low [of n 29] assms by simp
  have bn: "bit n i \<longleftrightarrow> i < 29 \<and> bit n i" for i by (subst n) (simp add: bit_simps)
  have m: "push_bit 29 1 - 1 = (mask 29 :: u32)" by (simp add: mask_eq_exp_minus_1)
  show ?thesis
  proof (rule bit_word_eqI)
    fix i :: nat
    assume "i < LENGTH(32)"
    then show "bit (DecodeLength (EncodeLRec f n)) i \<longleftrightarrow> bit n i"
      using bn [of i] unfolding DecodeLength_def EncodeLRec_def m by (auto simp: bit_simps)
  qed
qed

lemma DecodeFlag_magic: "DecodeFlag kMagic = 6"
  by (simp add: DecodeFlag_def kMagic_def)

lemma upper_align_ge: "n \<le> upper_align n" and upper_align_mod: "upper_align n mod 4 = 0"
  and upper_align_less: "upper_align n < n + 4"
  unfolding upper_align_def by presburger+

lemma upper_align_id: "n mod 4 = 0 \<Longrightarrow> upper_align n = n"
  unfolding upper_align_def by presburger

lemma upper_align_add: "upper_align (n + 4 * q) = upper_align n + 4 * q"
proof -
  have "(n + 4 * q + 3) div 4 = (n + 3) div 4 + q" by simp
  then show ?thesis by (simp add: upper_align_def)
qed

section \<open>The image of a record\<close>

text \<open>The segments a record is written as, and the bytes of a segment with its padding.\<close>

function segs :: "byte list \<Rightarrow> nat \<Rightarrow> nat \<Rightarrow> (u32 \<times> byte list) list" where
  "segs d i dptr =
     (if i < lower_align (length d) then
        if take 4 (drop i d) = magic
        then (if dptr = 0 then 1 else 2, take (i - dptr) (drop dptr d)) # segs d (i + 4) (i + 4)
        else segs d (i + 4) dptr
      else [(if dptr \<noteq> 0 then 3 else 0, drop dptr d)])"
  by pat_completeness auto
termination
  by (relation "measure (\<lambda>(d, i, dptr). lower_align (length d) - i)") auto

declare segs.simps [simp del]

definition seg_head :: "u32 \<Rightarrow> byte list \<Rightarrow> byte list" where
  "seg_head f bs = magic @ enc32 (EncodeLRec f (word_of_nat (length bs)))"

definition pad :: "nat \<Rightarrow> byte list" where
  "pad n = replicate (upper_align n - n) 0"

definition seg_image :: "u32 \<times> byte list \<Rightarrow> byte list" where
  "seg_image = (\<lambda>(f, bs). seg_head f bs @ bs @ pad (length bs))"

definition rec_image :: "byte list \<Rightarrow> byte list" where
  "rec_image d = concat (map seg_image (segs d 0 0))"

fun join :: "(u32 \<times> byte list) list \<Rightarrow> byte list" where
  "join [] = []"
| "join [(f, bs)] = bs"
| "join ((f, bs) # x # xs) = bs @ magic @ join (x # xs)"

fun flags_ok :: "(u32 \<times> byte list) list \<Rightarrow> bool" where
  "flags_ok [] = False"
| "flags_ok [(f, bs)] = (f = 0 \<or> f = 3)"
| "flags_ok ((f, bs) # x # xs) = ((f = 1 \<or> f = 2) \<and> flags_ok (x # xs))"

text \<open>No magic number at a multiple of four bytes.\<close>

definition no_magic :: "byte list \<Rightarrow> bool" where
  "no_magic bs \<longleftrightarrow> (\<forall>j. j mod 4 = 0 \<longrightarrow> take 4 (drop j bs) \<noteq> magic)"

lemma length_magic [simp]: "length magic = 4"
  by (simp add: magic_def)

lemma magic_neq_Nil [simp]: "magic \<noteq> []"
  using length_magic by (metis list.size(3) zero_neq_numeral)

lemma length_seg_head [simp]: "length (seg_head f bs) = 8"
  by (simp add: seg_head_def)

lemma seg_head_neq_Nil [simp]: "seg_head f bs \<noteq> []"
  by (simp add: seg_head_def)

lemma length_seg_image: "length (seg_image (f, bs)) = 8 + upper_align (length bs)"
  using upper_align_ge [of "length bs"] by (simp add: seg_image_def pad_def)

lemma segs_not_Nil [simp]: "segs d i dptr \<noteq> []"
  by (induction d i dptr rule: segs.induct) (subst segs.simps, simp)

lemma drop_at_magic:
  assumes "take 4 (drop i d) = magic" and "dptr \<le> i"
  shows "drop dptr d = take (i - dptr) (drop dptr d) @ magic @ drop (i + 4) d"
proof -
  have "drop i d = magic @ drop (i + 4) d"
    using assms(1) append_take_drop_id [of 4 "drop i d"] by (simp add: add.commute)
  then show ?thesis using assms(2) append_take_drop_id [of "i - dptr" "drop dptr d"] by simp
qed

lemma join_Cons: "xs \<noteq> [] \<Longrightarrow> join ((f, bs) # xs) = bs @ magic @ join xs"
  by (cases xs) auto

lemma flags_ok_Cons: "xs \<noteq> [] \<Longrightarrow> flags_ok ((f, bs) # xs) \<longleftrightarrow> (f = 1 \<or> f = 2) \<and> flags_ok xs"
  by (cases xs) auto

lemma segs_join: "dptr \<le> i \<Longrightarrow> join (segs d i dptr) = drop dptr d"
proof (induction d i dptr rule: segs.induct)
  case (1 d i dptr)
  show ?case
  proof (cases "i < lower_align (length d)")
    case True
    then show ?thesis
      using 1 drop_at_magic [of i d dptr] by (subst segs.simps) (simp add: join_Cons)
  qed (subst segs.simps, simp)
qed

lemma segs_flags_ok: "flags_ok (segs d i dptr)"
proof (induction d i dptr rule: segs.induct)
  case (1 d i dptr)
  then show ?case by (subst segs.simps) (simp add: flags_ok_Cons)
qed

lemma segs_flags_later: "dptr \<noteq> 0 \<Longrightarrow> x \<in> set (segs d i dptr) \<Longrightarrow> fst x \<in> {2, 3}"
proof (induction d i dptr rule: segs.induct)
  case (1 d i dptr)
  from 1(4) show ?case
    by (subst (asm) segs.simps) (use 1 in \<open>auto split: if_splits\<close>)
qed

lemma segs_flags_tail: "x \<in> set (tl (segs d i dptr)) \<Longrightarrow> fst x \<in> {2, 3}"
proof (induction d i dptr rule: segs.induct)
  case (1 d i dptr)
  from 1(3) show ?case
    by (subst (asm) segs.simps) (use 1 segs_flags_later [of "i + 4" x d "i + 4"] in \<open>auto split: if_splits\<close>)
qed

lemma segs_flag_first: "fst (hd (segs d i 0)) \<in> {0, 1}"
proof -
  have "dptr = 0 \<Longrightarrow> fst (hd (segs d i dptr)) \<in> {0, 1}" for dptr
  proof (induction d i dptr rule: segs.induct)
    case (1 d i dptr)
    then show ?case by (subst segs.simps) auto
  qed
  then show ?thesis by simp
qed

text \<open>What the loop knows about the words it has passed since the last segment.\<close>

definition clean :: "byte list \<Rightarrow> nat \<Rightarrow> nat \<Rightarrow> bool" where
  "clean d dptr i \<longleftrightarrow> (\<forall>j. dptr \<le> j \<longrightarrow> j < i \<longrightarrow> j mod 4 = 0 \<longrightarrow> take 4 (drop j d) \<noteq> magic)"

lemma magic_last: "magic ! 3 = 0xce"
proof -
  have "nat_le 4 x = [word_of_nat (x mod 256), word_of_nat (x div 256 mod 256), word_of_nat (x div 256 div 256 mod 256),
      word_of_nat (x div 256 div 256 div 256 mod 256)]" for x
  proof -
    have "(4 :: nat) = Suc (Suc (Suc (Suc 0)))" by simp
    then show ?thesis by (simp only: nat_le.simps)
  qed
  then show ?thesis by (simp add: magic_def kMagic_def enc32_def)
qed

lemma no_magic_padded:
  assumes a: "dptr mod 4 = 0" and c: "clean d dptr (lower_align (length d))"
  shows "no_magic (drop dptr d @ pad (length (drop dptr d)))"
  unfolding no_magic_def
proof (intro allI impI)
  fix j :: nat
  let ?bs = "drop dptr d" and ?w = "take 4 (drop j (drop dptr d @ pad (length (drop dptr d))))"
  assume j: "j mod 4 = 0"
  consider "j + 4 \<le> length ?bs" | "j < length ?bs" "length ?bs < j + 4" | "length ?bs \<le> j" by linarith
  then show "?w \<noteq> magic"
  proof cases
    case 1
    then have "dptr + j < lower_align (length d)" using a j unfolding lower_align_def by simp
    moreover have "(dptr + j) mod 4 = 0" using a j by presburger
    ultimately have "take 4 (drop (dptr + j) d) \<noteq> magic" using c by (simp add: clean_def)
    then show ?thesis using 1 by (simp add: add.commute)
  next
    case 2
    have "upper_align (length ?bs) = j + 4" using 2 j unfolding upper_align_def by presburger
    then have l: "length ?w = 4" and e: "?w ! 3 = 0"
      using 2 by (simp_all add: pad_def nth_append) linarith
    show ?thesis using e magic_last by auto
  next
    case 3
    have "length (?bs @ pad (length ?bs)) < j + 4" using 3 upper_align_less [of "length ?bs"] by (simp add: pad_def)
    then have "length ?w < 4" by simp
    then show ?thesis using length_magic by (metis less_irrefl)
  qed
qed

text \<open>Segments other than the last have whole words, and no segment has an aligned magic number.\<close>

definition seg_ok :: "u32 \<times> byte list \<Rightarrow> bool" where
  "seg_ok = (\<lambda>(f, bs). f < 8 \<and> f \<noteq> 6 \<and> length bs < 2 ^ 29 \<and> no_magic (bs @ pad (length bs)))"

lemma no_magic_slice:
  assumes "dptr mod 4 = 0" "i mod 4 = 0" "clean d dptr i" "i \<le> length d"
  shows "no_magic (take (i - dptr) (drop dptr d))"
  unfolding no_magic_def
proof (intro allI impI)
  fix j :: nat assume j: "j mod 4 = 0"
  show "take 4 (drop j (take (i - dptr) (drop dptr d))) \<noteq> magic"
  proof (cases "j + 4 \<le> i - dptr")
    case True
    then have "take 4 (drop (dptr + j) d) \<noteq> magic"
      using assms j by (simp add: clean_def mod_add_eq [symmetric])
    then show ?thesis using True by (simp add: drop_take add.commute min_def magic_neq_Nil [symmetric])
  next
    case False
    then have "length (take 4 (drop j (take (i - dptr) (drop dptr d)))) < 4" by auto
    then show ?thesis using length_magic by (metis less_irrefl)
  qed
qed

lemma segs_ok:
  assumes "dptr mod 4 = 0" "i mod 4 = 0" "dptr \<le> i" "i \<le> lower_align (length d)" "clean d dptr i" "length d < 2 ^ 29"
  shows "\<forall>x\<in>set (segs d i dptr). seg_ok x"
  using assms
proof (induction d i dptr rule: segs.induct)
  case (1 d i dptr)
  have la: "lower_align (length d) \<le> length d" "lower_align (length d) mod 4 = 0" by (simp_all add: lower_align_def)
  show ?case
  proof (cases "i < lower_align (length d)")
    case True
    have i4: "i + 4 \<le> lower_align (length d)" "(i + 4) mod 4 = 0" using True 1(4) la by presburger+
    show ?thesis
    proof (cases "take 4 (drop i d) = magic")
      case m: True
      have s: "segs d i dptr = (if dptr = 0 then 1 else 2, take (i - dptr) (drop dptr d)) # segs d (i + 4) (i + 4)"
        using True m by (subst segs.simps) simp
      have "length (take (i - dptr) (drop dptr d)) mod 4 = 0" using 1 True la by (auto simp: min_def)
      then have "pad (length (take (i - dptr) (drop dptr d))) = []" by (simp add: pad_def upper_align_id)
      moreover have "no_magic (take (i - dptr) (drop dptr d))" using 1 True la by (intro no_magic_slice) auto
      ultimately have "seg_ok (if dptr = 0 then 1 else 2, take (i - dptr) (drop dptr d))"
        using 1 by (auto simp: seg_ok_def)
      moreover have "\<forall>x\<in>set (segs d (i + 4) (i + 4)). seg_ok x"
        using 1(1) [OF True m] i4 1(8) by (simp add: clean_def)
      ultimately show ?thesis unfolding s by simp
    next
      case m: False
      have s: "segs d i dptr = segs d (i + 4) dptr" using True m by (subst segs.simps) simp
      have "clean d dptr (i + 4)" unfolding clean_def
      proof (intro allI impI)
        fix j assume j: "dptr \<le> j" "j < i + 4" "j mod 4 = 0"
        show "take 4 (drop j d) \<noteq> magic"
        proof (cases "j < i")
          case True then show ?thesis using 1(7) j by (simp add: clean_def)
        next
          case False then have "j = i" using j 1(4) by presburger
          then show ?thesis using m by simp
        qed
      qed
      then show ?thesis unfolding s using 1(2) [OF True m] 1 i4 by auto
    qed
  next
    case False
    then have "i = lower_align (length d)" using 1 by simp
    then have "no_magic (drop dptr d @ pad (length (drop dptr d)))" using 1 by (intro no_magic_padded) auto
    then show ?thesis using False 1 by (subst segs.simps) (auto simp: seg_ok_def)
  qed
qed

section \<open>Writing and reading back\<close>

lemma word_of_len:
  assumes "length bs < 2 ^ 29"
  shows "word_of_nat (length bs) < (2 ^ 29 :: u32)" "unat (word_of_nat (length bs) :: u32) = length bs"
proof -
  show u: "unat (word_of_nat (length bs) :: u32) = length bs" using assms by (simp add: unat_of_nat)
  show "word_of_nat (length bs) < (2 ^ 29 :: u32)" using assms by (simp add: word_less_nat_alt u)
qed

lemma seg_header:
  assumes "f < 8" and "length bs < 2 ^ 29"
  shows "dec32 (take 4 (seg_head f bs)) = kMagic" "DecodeFlag (dec32 (drop 4 (seg_head f bs))) = f"
    "unat (DecodeLength (dec32 (drop 4 (seg_head f bs)))) = length bs"
  using assms word_of_len [OF assms(2)]
  by (simp_all add: seg_head_def magic_def DecodeFlag_EncodeLRec DecodeLength_EncodeLRec)

context stream_io
begin

lemma write_segment_ok:
  assumes "room s (length (seg_head f bs @ bs) + k)"
  obtains s' where "write_segment wr f bs s = Ok s'" "out s' = out s @ seg_head f bs @ bs" "room s' k"
proof -
  let ?l = "enc32 (EncodeLRec f (word_of_nat (length bs)))"
  obtain s1 where 1: "wr magic s = Ok s1" "out s1 = out s @ magic" "room s1 (length ?l + (length bs + k))"
    using wr_ok [of s magic "length ?l + (length bs + k)"] assms by (auto simp: add.assoc)
  obtain s2 where 2: "wr ?l s1 = Ok s2" "out s2 = out s1 @ ?l" "room s2 (length bs + k)"
    using wr_ok [OF 1(3)] by auto
  obtain s3 where 3: "(if bs \<noteq> [] then wr bs s2 else Ok s2) = Ok s3" "out s3 = out s2 @ bs" "room s3 k"
    using wr_ok [OF 2(3)] 2(3) by (cases "bs = []") auto
  show ?thesis by (rule that [of s3]) (use 1 2 3 in \<open>simp_all add: write_segment_def seg_head_def\<close>)
qed

text \<open>The code after the loop.\<close>

lemma write_last:
  assumes "dptr mod 4 = 0" "dptr \<le> length d" and r: "room s (length (seg_image (f, drop dptr d)) + k)"
  shows "\<exists>s2 s3. write_segment wr f (drop dptr d) s = Ok s2 \<and>
     (if upper_align (length d) \<noteq> length d then wr (replicate (upper_align (length d) - length d) 0) s2 else Ok s2) = Ok s3 \<and>
     out s3 = out s @ seg_image (f, drop dptr d) \<and> room s3 k"
proof -
  have pd: "pad (length (drop dptr d)) = replicate (upper_align (length d) - length d) 0"
  proof -
    have "upper_align (length d - dptr) - (length d - dptr) = upper_align (length d) - length d"
    proof -
      obtain q where q: "dptr = 4 * q" using assms(1) by auto
      have "upper_align (length d) = upper_align (length d - dptr) + dptr"
        using upper_align_add [of "length d - dptr" q] assms(2) q by simp
      then show ?thesis using assms(2) upper_align_ge [of "length d - dptr"] by simp
    qed
    then show ?thesis by (simp add: pad_def)
  qed
  let ?p = "replicate (upper_align (length d) - length d) (0 :: byte)"
  have "room s (length (seg_head f (drop dptr d) @ drop dptr d) + (length ?p + k))"
    using r pd by (simp add: seg_image_def add.assoc)
  from write_segment_ok [OF this] obtain s2 where 2: "write_segment wr f (drop dptr d) s = Ok s2"
    "out s2 = out s @ seg_head f (drop dptr d) @ drop dptr d" "room s2 (length ?p + k)" .
  obtain s3 where "(if upper_align (length d) \<noteq> length d then wr ?p s2 else Ok s2) = Ok s3" "out s3 = out s2 @ ?p" "room s3 k"
  proof (cases "upper_align (length d) = length d")
    case True
    then show ?thesis using that [of s2] 2(3) by simp
  next
    case False
    then show ?thesis using that wr_ok [OF 2(3)] by auto
  qed
  with 2 show ?thesis using pd by (auto simp: seg_image_def)
qed

text \<open>The loop and the code after it write the image of the segments still to come.\<close>

lemma write_loop_ok:
  assumes "dptr mod 4 = 0" "i mod 4 = 0" "dptr \<le> i" "i \<le> lower_align (length d)"
    and "room s (length (concat (map seg_image (segs d i dptr))) + k)"
  shows "\<exists>dptr' ec' s1 s2 s3. write_loop wr d i dptr ec s = Ok (dptr', ec', s1) \<and>
     write_segment wr (if dptr' \<noteq> 0 then 3 else 0) (drop dptr' d) s1 = Ok s2 \<and>
     (if upper_align (length d) \<noteq> length d then wr (replicate (upper_align (length d) - length d) 0) s2 else Ok s2) = Ok s3 \<and>
     out s3 = out s @ concat (map seg_image (segs d i dptr)) \<and> room s3 k"
  using assms
proof (induction d i dptr arbitrary: ec s rule: segs.induct)
  case (1 d i dptr)
  have la: "lower_align (length d) \<le> length d" "lower_align (length d) mod 4 = 0" by (simp_all add: lower_align_def)
  show ?case
  proof (cases "i < lower_align (length d)")
    case True
    have i4: "i + 4 \<le> lower_align (length d)" "(i + 4) mod 4 = 0" using True 1(4) la by presburger+
    show ?thesis
    proof (cases "take 4 (drop i d) = magic")
      case m: True
      let ?f = "if dptr = 0 then 1 else 2 :: u32" and ?bs = "take (i - dptr) (drop dptr d)"
      have s: "segs d i dptr = (?f, ?bs) # segs d (i + 4) (i + 4)"
        using True m by (subst segs.simps) simp
      have "length ?bs mod 4 = 0" using 1 True la by (auto simp: min_def)
      then have im: "seg_image (?f, ?bs) = seg_head ?f ?bs @ ?bs" by (simp add: seg_image_def pad_def upper_align_id)
      have "room s (length (seg_head ?f ?bs @ ?bs) + (length (concat (map seg_image (segs d (i + 4) (i + 4)))) + k))"
        using 1(7) unfolding s by (simp add: im add.assoc)
      from write_segment_ok [OF this] obtain s1 where w: "write_segment wr ?f ?bs s = Ok s1"
        "out s1 = out s @ seg_head ?f ?bs @ ?bs" "room s1 (length (concat (map seg_image (segs d (i + 4) (i + 4)))) + k)" .
      have "write_loop wr d i dptr ec s = write_loop wr d (i + 4) (i + 4) (ec + 1) s1"
        using True m w(1) by (subst write_loop.simps) simp
      then show ?thesis using 1(1) [OF True m i4(2,2) _ i4(1) w(3), of "ec + 1"] unfolding s by (simp add: w(2) im)
    next
      case m: False
      have s: "segs d i dptr = segs d (i + 4) dptr" using True m by (subst segs.simps) simp
      have "write_loop wr d i dptr ec s = write_loop wr d (i + 4) dptr ec s"
        using True m by (subst write_loop.simps) simp
      then show ?thesis using 1(2) [OF True m 1(3) i4(2) _ i4(1)] 1(5,7) unfolding s by simp
    qed
  next
    case False
    have "segs d i dptr = [(if dptr \<noteq> 0 then 3 else 0, drop dptr d)]" using False by (subst segs.simps) simp
    moreover have "write_loop wr d i dptr ec s = Ok (dptr, ec, s)" using False by (subst write_loop.simps) simp
    ultimately show ?thesis using write_last [of dptr d s _ k] 1 la by (simp split del: if_split)
  qed
qed

lemma WriteRecord_ok:
  assumes "length d < 2 ^ 29" and "room s (length (rec_image d) + k)"
  shows "\<exists>ec' s'. WriteRecord wr d (ec, s) = Ok (ec', s') \<and> out s' = out s @ rec_image d \<and> room s' k"
proof -
  obtain p ec' s1 s2 s3 where w: "write_loop wr d 0 0 ec s = Ok (p, ec', s1)"
     "write_segment wr (if p \<noteq> 0 then 3 else 0) (drop p d) s1 = Ok s2"
     "(if upper_align (length d) \<noteq> length d then wr (replicate (upper_align (length d) - length d) 0) s2 else Ok s2) = Ok s3"
     "out s3 = out s @ rec_image d" "room s3 k"
    using write_loop_ok [of 0 0 d s k ec] assms(2) unfolding rec_image_def by auto
  have "WriteRecord wr d (ec, s) = Ok (ec', s3)"
    by (simp only: WriteRecord_def case_prod_conv check_True [OF assms(1)] w(1-3) rbind.simps)
  with w show ?thesis by blast
qed

text \<open>Reading one segment, then a list of segments.\<close>

lemma read_turn_ok:
  assumes ok: "f < 8" "length bs < 2 ^ 29" and g: "good t" and r: "rest t = seg_image (f, bs) @ tail"
  shows "\<exists>t'. good t' \<and> rest t' = tail \<and> read_turn rd acc t =
     Ok (if f = 0 \<or> f = 3 then Inl (Some (acc @ bs), t') else Inr (acc @ bs @ magic, t'))"
proof -
  let ?h = "seg_head f bs" and ?u = "upper_align (length bs)"
  obtain t1 where 1: "rd 8 t = Ok (?h, t1)" "good t1" "rest t1 = (bs @ pad (length bs)) @ tail"
    using rd_append [OF g, of ?h "(bs @ pad (length bs)) @ tail"] r by (auto simp: seg_image_def)
  have u: "length (bs @ pad (length bs)) = ?u" using upper_align_ge [of "length bs"] by (simp add: pad_def)
  obtain t2 where 2: "rd ?u t1 = Ok (bs @ pad (length bs), t2)" "good t2" "rest t2 = tail"
    using rd_append [OF 1(2,3)] unfolding u by auto
  note h = seg_header [OF ok]
  show ?thesis
  proof (cases "?u = 0")
    case True
    then have e: "bs = []" "pad (length bs) = []" using upper_align_ge [of "length bs"] by (auto simp: pad_def)
    show ?thesis using 1 h True e by (intro exI [of _ t1]) (simp add: read_turn_def Let_def)
  next
    case False
    then show ?thesis using 1 2 h u by (intro exI [of _ t2]) (simp add: read_turn_def Let_def)
  qed
qed

lemma read_loop_ok:
  assumes "flags_ok xs" and "\<forall>x\<in>set xs. seg_ok x" and "good t" and "rest t = concat (map seg_image xs) @ tail"
  shows "\<exists>t'. good t' \<and> rest t' = tail \<and> read_loop rd acc t = Some (Ok (Some (acc @ join xs), t'))"
  using assms
proof (induction xs arbitrary: acc t rule: flags_ok.induct)
  case (2 f bs)
  then show ?case using read_turn_ok [of f bs t tail acc]
    by (subst read_loop.simps) (auto simp: seg_ok_def)
next
  case (3 f bs x xs)
  have ok: "f < 8" "length bs < 2 ^ 29" using 3(3) by (auto simp: seg_ok_def)
  obtain t1 where t1: "good t1" "rest t1 = concat (map seg_image (x # xs)) @ tail"
      "read_turn rd acc t = Ok (if f = 0 \<or> f = 3 then Inl (Some (acc @ bs), t1) else Inr (acc @ bs @ magic, t1))"
    using read_turn_ok [OF ok 3(4), of "concat (map seg_image (x # xs)) @ tail" acc] 3(5) by auto
  have "f \<noteq> 0 \<and> f \<noteq> 3" using 3(2) by auto
  then have "read_loop rd acc t = read_loop rd (acc @ bs @ magic) t1"
    using t1(3) by (subst read_loop.simps) simp
  then show ?case using 3(1) [OF _ _ t1(1,2), of "acc @ bs @ magic"] 3(2,3) by auto
qed simp

lemma NextRecord_ok:
  assumes d: "length d < 2 ^ 29" and g: "good (rr_stream r)" "\<not> rr_eos r" and r: "rest (rr_stream r) = rec_image d @ tail"
  shows "\<exists>t'. good t' \<and> rest t' = tail \<and> NextRecord rd r = Some (Ok (Some d, \<lparr>rr_stream = t', rr_eos = False\<rparr>))"
proof -
  have "\<forall>x\<in>set (segs d 0 0). seg_ok x" using d by (intro segs_ok) (auto simp: clean_def)
  from read_loop_ok [OF segs_flags_ok this g(1) r [unfolded rec_image_def], of "[]"]
  show ?thesis using g(2) segs_join [of 0 0 d] by (auto simp: NextRecord_def)
qed

end

text \<open>A file stream: at the end it returns nothing instead of aborting.\<close>

locale eof_stream = stream_io +
  assumes rd_eof: "good t \<Longrightarrow> rest t = [] \<Longrightarrow> \<exists>t'. rd n t = Ok ([], t')"
begin

lemma NextRecord_eof:
  assumes "good (rr_stream r)" "rest (rr_stream r) = []"
  shows "\<exists>r'. NextRecord rd r = Some (Ok (None, r'))"
proof -
  obtain t' where "rd 8 (rr_stream r) = Ok ([], t')" using rd_eof [OF assms] by blast
  then have "read_loop rd [] (rr_stream r) = Some (Ok (None, t'))" by (subst read_loop.simps) (simp add: read_turn_def)
  then show ?thesis by (simp add: NextRecord_def)
qed

end

interpretation mse: eof_stream ms_Read "\<lambda>s. drop (ms_curr s) (ms_buf s)" "\<lambda>s. ms_curr s \<le> length (ms_buf s)"
  ms_Write "\<lambda>s. take (ms_curr s) (ms_buf s)" "\<lambda>s n. ms_curr s \<le> length (ms_buf s)"
proof
  fix t :: MemoryStringStream and n
  assume "ms_curr t \<le> length (ms_buf t)" "drop (ms_curr t) (ms_buf t) = []"
  then show "\<exists>t'. ms_Read n t = Ok ([], t')" by (simp add: ms_Read_def)
qed

text \<open>Writing a list of records with one writer; reading \<open>n\<close> times with one reader.\<close>

fun write_records :: "'s writer \<Rightarrow> byte list list \<Rightarrow> nat \<times> 's \<Rightarrow> (nat \<times> 's) res" where
  "write_records wr [] w = Ok w"
| "write_records wr (d # ds) w = rbind (WriteRecord wr d w) (write_records wr ds)"

fun read_records :: "'s reader \<Rightarrow> nat \<Rightarrow> 's RecordIOReader \<Rightarrow> byte list option list res option" where
  "read_records rd 0 r = Some (Ok [])"
| "read_records rd (Suc n) r =
     (case NextRecord rd r of
        None \<Rightarrow> None
      | Some (Err e) \<Rightarrow> Some (Err e)
      | Some (Ok (x, r')) \<Rightarrow> (case read_records rd n r' of None \<Rightarrow> None | Some m \<Rightarrow> Some (rmap ((#) x) m)))"

context stream_io
begin

lemma write_records_ok:
  assumes "\<forall>d\<in>set ds. length d < 2 ^ 29" and "room s (length (concat (map rec_image ds)) + k)"
  shows "\<exists>ec' s'. write_records wr ds (ec, s) = Ok (ec', s') \<and> out s' = out s @ concat (map rec_image ds) \<and> room s' k"
  using assms
proof (induction ds arbitrary: ec s)
  case (Cons d ds)
  obtain ec1 s1 where 1: "WriteRecord wr d (ec, s) = Ok (ec1, s1)" "out s1 = out s @ rec_image d"
      "room s1 (length (concat (map rec_image ds)) + k)"
    using WriteRecord_ok [of d s "length (concat (map rec_image ds)) + k" ec] Cons.prems by (auto simp: add.assoc)
  then show ?case using Cons.IH [OF _ 1(3), of ec1] Cons.prems(1) by auto
qed simp

end

context eof_stream
begin

lemma read_records_ok:
  assumes "\<forall>d\<in>set ds. length d < 2 ^ 29" and "good (rr_stream r)" and "\<not> rr_eos r"
    and "rest (rr_stream r) = concat (map rec_image ds)"
  shows "read_records rd (Suc (length ds)) r = Some (Ok (map Some ds @ [None]))"
  using assms
proof (induction ds arbitrary: r)
  case Nil
  then show ?case using NextRecord_eof [of r] by auto
next
  case (Cons d ds)
  obtain t' where t': "good t'" "rest t' = concat (map rec_image ds)"
      "NextRecord rd r = Some (Ok (Some d, \<lparr>rr_stream = t', rr_eos = False\<rparr>))"
    using NextRecord_ok [of d r "concat (map rec_image ds)"] Cons.prems by auto
  have "read_records rd (Suc (length ds)) \<lparr>rr_stream = t', rr_eos = False\<rparr> = Some (Ok (map Some ds @ [None]))"
    by (rule Cons.IH) (use Cons.prems(1) t' in simp_all)
  then show ?case using t'(3) by (subst read_records.simps) (simp del: read_records.simps)
qed

end

text \<open>A memory stream written from its end on has its position at the end.\<close>

definition at_end :: "MemoryStringStream \<Rightarrow> bool" where
  "at_end s \<longleftrightarrow> length (ms_buf s) = ms_curr s"

lemma ms_Write_at_end: "at_end s \<Longrightarrow> ms_Write bs s = Ok s' \<Longrightarrow> at_end s'"
  by (auto simp: at_end_def ms_Write_def splice_def Let_def split: if_splits)

lemma write_segment_at_end: "at_end s \<Longrightarrow> write_segment ms_Write f bs s = Ok s' \<Longrightarrow> at_end s'"
  unfolding write_segment_def rbind_Ok_iff by (metis ms_Write_at_end res.inject(1))

lemma write_loop_at_end: "at_end s \<Longrightarrow> wr = ms_Write \<Longrightarrow> write_loop wr d i dptr ec s = Ok (p, e, s') \<Longrightarrow> at_end s'"
proof (induction wr d i dptr ec s rule: write_loop.induct)
  case (1 wr d i dptr ec s)
  from 1(5) show ?case
    by (subst (asm) write_loop.simps) (use 1 in \<open>auto simp: rbind_Ok_iff split: if_splits dest: write_segment_at_end\<close>)
qed

lemma WriteRecord_at_end: "at_end s \<Longrightarrow> WriteRecord ms_Write d (ec, s) = Ok (e, s') \<Longrightarrow> at_end s'"
proof -
  assume "at_end s" and "WriteRecord ms_Write d (ec, s) = Ok (e, s')"
  then obtain p s1 s2 where "write_loop ms_Write d 0 0 ec s = Ok (p, e, s1)"
      "write_segment ms_Write (if p \<noteq> 0 then 3 else 0) (drop p d) s1 = Ok s2"
      "(if upper_align (length d) \<noteq> length d then ms_Write (replicate (upper_align (length d) - length d) 0) s2 else Ok s2) = Ok s'"
    unfolding WriteRecord_def by (auto simp: rbind_Ok_iff check_Ok_iff simp del: split_paired_Ex)
  with \<open>at_end s\<close> show ?thesis
    by (metis write_loop_at_end write_segment_at_end ms_Write_at_end res.inject(1))
qed

lemma write_records_at_end: "at_end s \<Longrightarrow> write_records ms_Write ds (ec, s) = Ok (e, s') \<Longrightarrow> at_end s'"
proof (induction ds arbitrary: ec s)
  case (Cons d ds)
  then show ?case by (auto simp: rbind_Ok_iff dest: WriteRecord_at_end)
qed simp

text \<open>
  C15: records written one after another to a memory stream are read back one after another,
  byte for byte, also when they contain the magic number; after the last one the reader
  reports the end. In particular the loops of writer and reader end.
\<close>

theorem recordio_round_trip:
  assumes "\<forall>d\<in>set ds. length d < 2 ^ 29"
  shows "\<exists>ec s. write_records ms_Write ds (0, new_MemoryStringStream []) = Ok (ec, s) \<and>
     read_records ms_Read (Suc (length ds)) \<lparr>rr_stream = ms_Seek 0 s, rr_eos = False\<rparr> = Some (Ok (map Some ds @ [None]))"
proof -
  let ?w = "write_records ms_Write ds (0, new_MemoryStringStream [])"
  obtain ec s where w: "?w = Ok (ec, s)" "take (ms_curr s) (ms_buf s) = concat (map rec_image ds)"
      "ms_curr s \<le> length (ms_buf s)"
    using ms.write_records_ok [OF assms, where s = "new_MemoryStringStream []" and ec = 0] by (auto simp: new_MemoryStringStream_def)
  have "length (ms_buf s) = ms_curr s"
    using write_records_at_end [OF _ w(1)] by (simp add: at_end_def new_MemoryStringStream_def)
  then have "drop (ms_curr (ms_Seek 0 s)) (ms_buf (ms_Seek 0 s)) = concat (map rec_image ds)"
    using w(2) by (simp add: ms_Seek_def)
  then show ?thesis using mse.read_records_ok [OF assms, of "\<lparr>rr_stream = ms_Seek 0 s, rr_eos = False\<rparr>"] w(1)
    by (simp add: ms_Seek_def)
qed

theorem recordio_round_trip_witness:
  "\<exists>ec s. write_records ms_Write [[1, 2, 3], magic @ [7], []] (0, new_MemoryStringStream []) = Ok (ec, s) \<and>
     read_records ms_Read 4 \<lparr>rr_stream = ms_Seek 0 s, rr_eos = False\<rparr> =
       Some (Ok [Some [1, 2, 3], Some (magic @ [7]), Some [], None])"
proof -
  have "Suc (length [[1, 2, 3], magic @ [7], []]) = 4" "\<forall>d\<in>set [[1, 2, 3], magic @ [7], []]. length d < 2 ^ 29"
    "map Some [[1, 2, 3], magic @ [7], []] @ [None] = [Some [1, 2, 3], Some (magic @ [7]), Some [], None]" by simp_all
  with recordio_round_trip [of "[[1, 2, 3], magic @ [7], []]"] show ?thesis by (simp only:)
qed

section \<open>Finding record heads in a chunk\<close>

definition head_at :: "byte list \<Rightarrow> nat \<Rightarrow> bool" where
  "head_at c p \<longleftrightarrow> word_at c p = kMagic \<and> DecodeFlag (word_at c (p + 4)) \<in> {0, 1}"

lemma find_head_hit: "p + 4 < pend \<Longrightarrow> head_at c p \<Longrightarrow> find_head c p pend = p"
  by (subst find_head.simps) (auto simp: head_at_def)

lemma find_head_miss: "p + 4 < pend \<Longrightarrow> \<not> head_at c p \<Longrightarrow> find_head c p pend = find_head c (p + 4) pend"
  by (subst find_head.simps) (auto simp: head_at_def)

lemma find_head_end: "pend \<le> p + 4 \<Longrightarrow> find_head c p pend = pend"
  by (subst find_head.simps) simp

lemma word_at_magic:
  assumes "take 4 (drop p c) \<noteq> magic" and "p + 4 \<le> length c"
  shows "word_at c p \<noteq> kMagic"
proof
  assume "word_at c p = kMagic"
  then have "enc32 (dec32 (take 4 (drop p c))) = magic" by (simp add: word_at_def magic_def)
  then show False using assms enc32_dec32 [of "take 4 (drop p c)"] by simp
qed

lemma word_at_append: "word_at (pre @ c) (length pre + q) = word_at c q"
  by (simp add: word_at_def)

lemma word_at_front: "q + 4 \<le> length a \<Longrightarrow> word_at (a @ b) q = word_at a q"
  by (simp add: word_at_def)

lemma seg_words:
  assumes "seg_ok (f, bs)"
  shows "word_at (seg_image (f, bs)) 0 = kMagic" and "DecodeFlag (word_at (seg_image (f, bs)) 4) = f"
proof -
  have s: "seg_head f bs = take 4 (seg_head f bs) @ drop 4 (seg_head f bs)" "length (drop 4 (seg_head f bs)) = 4" by simp_all
  have a: "f < 8" "length bs < 2 ^ 29" using assms by (auto simp: seg_ok_def)
  note h = seg_header [OF a]
  show "word_at (seg_image (f, bs)) 0 = kMagic" using h(1) by (simp add: word_at_def seg_image_def)
  show "DecodeFlag (word_at (seg_image (f, bs)) 4) = f" using h(2) by (simp add: word_at_def seg_image_def)
qed

lemma length_seg_mod: "length (seg_image x) mod 4 = 0"
  using upper_align_mod [of "length (snd x)"] by (cases x) (simp add: length_seg_image mod_add_eq [symmetric])

lemma seg_no_magic:
  assumes ok: "seg_ok (f, bs)" and q: "q mod 4 = 0" "0 < q" "q < length (seg_image (f, bs))"
  shows "word_at (seg_image (f, bs)) q \<noteq> kMagic"
proof (cases "q = 4")
  case True
  then show ?thesis using seg_words(2) [OF ok] ok DecodeFlag_magic by (auto simp: seg_ok_def)
next
  case False
  have le: "q + 4 \<le> length (seg_image (f, bs))" using q length_seg_mod [of "(f, bs)"] by presburger
  have "8 \<le> q" "(q - 8) mod 4 = 0" using False q by presburger+
  have nm: "no_magic (bs @ pad (length bs))" using ok by (simp add: seg_ok_def)
  have "take 4 (drop (q - 8) (bs @ pad (length bs))) \<noteq> magic"
    using \<open>(q - 8) mod 4 = 0\<close> by (rule nm [unfolded no_magic_def, rule_format])
  moreover have "drop q (seg_image (f, bs)) = drop (q - 8) (bs @ pad (length bs))"
    using \<open>8 \<le> q\<close> by (simp add: seg_image_def)
  ultimately show ?thesis using word_at_magic [OF _ le] by simp
qed

lemma segs_no_head:
  assumes "\<forall>x\<in>set xs. seg_ok x \<and> fst x \<in> {2, 3}" and "q mod 4 = 0" "q < length (concat (map seg_image xs))"
  shows "\<not> head_at (concat (map seg_image xs) @ suf) q"
  using assms
proof (induction xs arbitrary: q)
  case (Cons x xs)
  obtain f bs where x: "x = (f, bs)" by fastforce
  have ok: "seg_ok (f, bs)" "f \<in> {2, 3}" using Cons.prems(1) x by auto
  show ?case
  proof (cases "q < length (seg_image x)")
    case True
    have l: "q + 4 \<le> length (seg_image x)" using True Cons.prems(2) length_seg_mod [of x] by presburger
    show ?thesis
    proof (cases "q = 0")
      case q: True
      have "word_at (concat (map seg_image (x # xs)) @ suf) (q + 4) = word_at (seg_image x) 4"
        using q by (simp add: word_at_front x length_seg_image)
      then show ?thesis using seg_words(2) [OF ok(1)] ok(2) x by (auto simp: head_at_def)
    next
      case False
      then show ?thesis
        using seg_no_magic [OF ok(1) Cons.prems(2)] True l x by (simp add: head_at_def word_at_front)
    qed
  next
    case False
    define q' where "q' = q - length (seg_image x)"
    have q: "q = length (seg_image x) + q'" using False by (simp add: q'_def)
    have m: "q' mod 4 = 0" using Cons.prems(2) length_seg_mod [of x] unfolding q by presburger
    have "head_at (concat (map seg_image (x # xs)) @ suf) q = head_at (concat (map seg_image xs) @ suf) q'"
      unfolding q head_at_def using word_at_append [of "seg_image x"] by (simp add: add.assoc)
    then show ?thesis using Cons.IH [of q'] Cons.prems m q by simp
  qed
qed simp

lemma segs_all:
  assumes "length d < 2 ^ 29"
  shows "\<forall>x\<in>set (segs d 0 0). seg_ok x"
  using assms by (intro segs_ok) (auto simp: clean_def)

lemma rec_image_split:
  assumes "length d < 2 ^ 29"
  obtains f bs xs where "rec_image d = seg_image (f, bs) @ concat (map seg_image xs)" "segs d 0 0 = (f, bs) # xs"
    "seg_ok (f, bs)" "f \<in> {0, 1}" "\<forall>x\<in>set xs. seg_ok x \<and> fst x \<in> {2, 3}"
proof -
  obtain f bs xs where s: "segs d 0 0 = (f, bs) # xs" using segs_not_Nil by (metis list.exhaust surj_pair)
  show ?thesis
    by (rule that [of f bs xs])
      (use s segs_all [OF assms] segs_flag_first [of d 0] segs_flags_tail [of _ d 0 0] in \<open>auto simp: rec_image_def\<close>)
qed

lemma length_rec_image: "length (rec_image d) mod 4 = 0" "length d < 2 ^ 29 \<Longrightarrow> 8 \<le> length (rec_image d)"
proof -
  have "length (concat (map seg_image xs)) mod 4 = 0" for xs
  proof (induction xs)
    case (Cons x xs)
    then show ?case using length_seg_mod [of x] by simp presburger
  qed simp
  then show "length (rec_image d) mod 4 = 0" by (simp add: rec_image_def)
  assume "length d < 2 ^ 29"
  then show "8 \<le> length (rec_image d)"
    by (rule rec_image_split) (simp add: length_seg_image)
qed

lemma rec_head:
  assumes "length d < 2 ^ 29"
  shows "head_at (pre @ rec_image d @ suf) (length pre)"
proof -
  from assms obtain f bs xs where r: "rec_image d = seg_image (f, bs) @ concat (map seg_image xs)" "seg_ok (f, bs)" "f \<in> {0, 1}"
    by (rule rec_image_split)
  have "word_at (pre @ rec_image d @ suf) (length pre + 0) = kMagic"
      "word_at (pre @ rec_image d @ suf) (length pre + 4) = word_at (seg_image (f, bs)) 4"
    unfolding word_at_append using seg_words(1) [OF r(2)] by (simp_all add: r(1) word_at_front length_seg_image)
  then show ?thesis using seg_words(2) [OF r(2)] r(3) by (auto simp: head_at_def)
qed

lemma rec_no_head:
  assumes "length d < 2 ^ 29" and q: "q mod 4 = 0" "0 < q" "q < length (rec_image d)"
  shows "\<not> head_at (pre @ rec_image d @ suf) (length pre + q)"
proof -
  from assms(1) obtain f bs xs where r: "rec_image d = seg_image (f, bs) @ concat (map seg_image xs)" "seg_ok (f, bs)"
      "\<forall>x\<in>set xs. seg_ok x \<and> fst x \<in> {2, 3}" by (rule rec_image_split)
  let ?x = "(f, bs)"
  have "\<not> head_at (rec_image d @ suf) q"
  proof (cases "q < length (seg_image ?x)")
    case True
    then have "q + 4 \<le> length (seg_image ?x)" using q length_seg_mod [of ?x] by presburger
    then show ?thesis using seg_no_magic [OF r(2) q(1,2) True] by (simp add: head_at_def r(1) word_at_front)
  next
    case False
    define q' where "q' = q - length (seg_image ?x)"
    have qq: "q = length (seg_image ?x) + q'" using False by (simp add: q'_def)
    have m: "q' mod 4 = 0" using q(1) length_seg_mod [of ?x] unfolding qq by presburger
    have "head_at (rec_image d @ suf) q = head_at (concat (map seg_image xs) @ suf) q'"
      unfolding qq head_at_def r(1) using word_at_append [of "seg_image ?x"] by (simp add: add.assoc)
    then show ?thesis using segs_no_head [OF r(3) m] q(3) qq r(1) by simp
  qed
  then show ?thesis using word_at_append [of pre "rec_image d @ suf"] by (simp add: head_at_def add.assoc)
qed

text \<open>From inside a record the search goes to the end of the record.\<close>

lemma find_head_skip:
  assumes "length d < 2 ^ 29" and "q mod 4 = 0" "0 < q" "q \<le> length (rec_image d)" and c: "c = pre @ rec_image d @ suf"
  shows "find_head c (length pre + q) (length c) = find_head c (length pre + length (rec_image d)) (length c)"
  using assms(2-4)
proof (induction "length (rec_image d) - q" arbitrary: q rule: less_induct)
  case less
  show ?case
  proof (cases "q = length (rec_image d)")
    case False
    then have lt: "q < length (rec_image d)" using less.prems by simp
    then have l4: "q + 4 \<le> length (rec_image d)" "(q + 4) mod 4 = 0"
      using less.prems(1) length_rec_image(1) [of d] by presburger+
    have nh: "\<not> head_at c (length pre + q)"
      unfolding c by (rule rec_no_head [OF assms(1) less.prems(1,2) lt])
    have ih: "find_head c (length pre + (q + 4)) (length c) = find_head c (length pre + length (rec_image d)) (length c)"
      using less.hyps [of "q + 4"] l4 lt by simp
    show ?thesis
    proof (cases "length pre + q + 4 < length c")
      case True
      then show ?thesis using find_head_miss [OF True nh] ih by (simp add: add.assoc)
    next
      case False
      have "find_head c (length pre + q) (length c) = length c" using False by (intro find_head_end) simp
      moreover have "find_head c (length pre + (q + 4)) (length c) = length c" using False by (intro find_head_end) simp
      ultimately show ?thesis using ih by simp
    qed
  qed simp
qed

text \<open>Where the \<open>j\<close>-th record of a chunk starts, and the first record that starts at or after \<open>b\<close>.\<close>

definition rec_pos :: "byte list list \<Rightarrow> nat \<Rightarrow> nat" where
  "rec_pos ds j = length (concat (map rec_image (take j ds)))"

definition first_from :: "byte list list \<Rightarrow> nat \<Rightarrow> nat" where
  "first_from ds b = (LEAST j. b \<le> rec_pos ds j)"

lemma rec_pos_Suc: "j < length ds \<Longrightarrow> rec_pos ds (Suc j) = rec_pos ds j + length (rec_image (ds ! j))"
  by (simp add: rec_pos_def take_Suc_conv_app_nth)

lemma rec_pos_0 [simp]: "rec_pos ds 0 = 0"
  by (simp add: rec_pos_def)

lemma rec_pos_mod: "rec_pos ds j mod 4 = 0"
proof (induction j)
  case (Suc j)
  then show ?case using rec_pos_Suc [of j ds] length_rec_image(1) [of "ds ! j"]
    by (cases "j < length ds") (auto simp: rec_pos_def)
qed simp

lemma chunk_split:
  assumes "j < length ds"
  shows "concat (map rec_image ds) =
    concat (map rec_image (take j ds)) @ rec_image (ds ! j) @ concat (map rec_image (drop (Suc j) ds))"
  using id_take_nth_drop [OF assms] by (metis concat.simps(2) concat_append list.simps(9) map_append)

lemma find_head_at_pos:
  assumes small: "\<forall>d\<in>set ds. length d < 2 ^ 29" and j: "j \<le> length ds"
  shows "find_head (concat (map rec_image ds)) (rec_pos ds j) (length (concat (map rec_image ds))) = rec_pos ds j"
proof (cases "j = length ds")
  case True
  then show ?thesis by (simp add: rec_pos_def find_head_end)
next
  case False
  then have j: "j < length ds" using j by simp
  have d: "length (ds ! j) < 2 ^ 29" using small j by simp
  have h: "head_at (concat (map rec_image ds)) (rec_pos ds j)"
    unfolding chunk_split [OF j] rec_pos_def by (rule rec_head [OF d])
  show ?thesis
    by (rule find_head_hit [OF _ h]) (use length_rec_image(2) [OF d] in \<open>simp add: chunk_split [OF j] rec_pos_def\<close>)
qed

lemma find_head_first:
  assumes small: "\<forall>d\<in>set ds. length d < 2 ^ 29" and b: "b mod 4 = 0" "b \<le> length (concat (map rec_image ds))"
  shows "first_from ds b \<le> length ds" and
    "find_head (concat (map rec_image ds)) b (length (concat (map rec_image ds))) = rec_pos ds (first_from ds b)"
proof -
  let ?c = "concat (map rec_image ds)"
  have top: "b \<le> rec_pos ds (length ds)" using b(2) by (simp add: rec_pos_def)
  then show le: "first_from ds b \<le> length ds" unfolding first_from_def by (rule Least_le)
  have ge: "b \<le> rec_pos ds (first_from ds b)" unfolding first_from_def using top by (rule LeastI)
  show "find_head ?c b (length ?c) = rec_pos ds (first_from ds b)"
  proof (cases "b = rec_pos ds (first_from ds b)")
    case True
    then show ?thesis using find_head_at_pos [OF small le] by simp
  next
    case False
    then obtain j where j: "first_from ds b = Suc j" using ge by (cases "first_from ds b") auto
    have lt: "rec_pos ds j < b"
      using not_less_Least [of j "\<lambda>j. b \<le> rec_pos ds j"] j unfolding first_from_def by simp
    have jl: "j < length ds" using le j by simp
    have q: "(b - rec_pos ds j) mod 4 = 0" using b(1) rec_pos_mod [of ds j] by presburger
    have d: "length (ds ! j) < 2 ^ 29" using small jl by simp
    have "find_head ?c (rec_pos ds j + (b - rec_pos ds j)) (length ?c) = find_head ?c (rec_pos ds j + length (rec_image (ds ! j))) (length ?c)"
      unfolding rec_pos_def
      by (rule find_head_skip [OF d _ _ _ chunk_split [OF jl]])
        (use q lt ge j rec_pos_Suc [OF jl] in \<open>simp_all add: rec_pos_def\<close>)
    then show ?thesis using lt find_head_at_pos [OF small le] rec_pos_Suc [OF jl] j by simp
  qed
qed

section \<open>Reading a chunk\<close>

lemma slice_res_mid: "n = length bs \<Longrightarrow> p = length pre \<Longrightarrow> slice_res (pre @ bs @ suf) p n = Ok bs"
  by (simp add: slice_res_def)

lemma chunk_loop_ok:
  assumes "flags_ok xs" and "\<forall>x\<in>set xs. seg_ok x \<and> fst x \<noteq> 0" and "length pre + length (concat (map seg_image xs)) \<le> pend"
  shows "chunk_loop (pre @ concat (map seg_image xs) @ suf) pend (length pre) temp =
     Ok (temp @ join xs, length pre + length (concat (map seg_image xs)))"
  using assms
proof (induction xs arbitrary: pre temp rule: flags_ok.induct)
  case (2 f bs)
  have ok: "f < 8" "length bs < 2 ^ 29" "f = 3" using 2 by (auto simp: seg_ok_def)
  have s1: "slice_res (pre @ seg_image (f, bs) @ suf) (length pre) 8 = Ok (seg_head f bs)"
    using slice_res_mid [of 8 "seg_head f bs" "length pre" pre "bs @ pad (length bs) @ suf"] by (simp add: seg_image_def)
  have s2: "slice_res (pre @ seg_image (f, bs) @ suf) (length pre + 8) (length bs) = Ok bs"
    using slice_res_mid [of "length bs" bs "length pre + 8" "pre @ seg_head f bs" "pad (length bs) @ suf"]
    by (simp add: seg_image_def)
  show ?case
    using 2(3) s1 s2 seg_header [OF ok(1,2)] ok(3)
    by (subst chunk_loop.simps) (auto simp: length_seg_image Let_def)
next
  case (3 f bs x xs)
  have ok: "f < 8" "length bs < 2 ^ 29" "f \<noteq> 3" using 3(2,3) by (auto simp: seg_ok_def)
  let ?rest = "concat (map seg_image (x # xs)) @ suf"
  have s1: "slice_res (pre @ seg_image (f, bs) @ ?rest) (length pre) 8 = Ok (seg_head f bs)"
    using slice_res_mid [of 8 "seg_head f bs" "length pre" pre "bs @ pad (length bs) @ ?rest"] by (simp add: seg_image_def)
  have s2: "slice_res (pre @ seg_image (f, bs) @ ?rest) (length pre + 8) (length bs) = Ok bs"
    using slice_res_mid [of "length bs" bs "length pre + 8" "pre @ seg_head f bs" "pad (length bs) @ ?rest"]
    by (simp add: seg_image_def)
  have "chunk_loop (pre @ seg_image (f, bs) @ ?rest) pend (length pre) temp =
      chunk_loop (pre @ seg_image (f, bs) @ ?rest) pend (length pre + 8 + upper_align (length bs)) (temp @ bs @ magic)"
    using 3(4) s1 s2 seg_header [OF ok(1,2)] ok(3)
    by (subst chunk_loop.simps) (auto simp: length_seg_image Let_def)
  also have "\<dots> = Ok (temp @ bs @ magic @ join (x # xs), length pre + length (seg_image (f, bs)) + length (concat (map seg_image (x # xs))))"
    using 3(1) [of "pre @ seg_image (f, bs)" "temp @ bs @ magic"] 3(2-4) by (simp add: length_seg_image add.assoc)
  finally show ?case by (simp add: add.assoc)
qed simp

lemma ChunkReader_NextRecord_ok:
  assumes d: "length d < 2 ^ 29" and c: "cr_chunk r = pre @ rec_image d @ suf" and p: "cr_pbegin r = length pre"
    and e: "length pre + length (rec_image d) \<le> cr_pend r"
  shows "ChunkReader_NextRecord r = Ok (Some d, r\<lparr>cr_pbegin := length pre + length (rec_image d)\<rparr>)"
proof -
  from d obtain f bs xs where r: "rec_image d = seg_image (f, bs) @ concat (map seg_image xs)" "segs d 0 0 = (f, bs) # xs"
      "seg_ok (f, bs)" "f \<in> {0, 1}" "\<forall>x\<in>set xs. seg_ok x \<and> fst x \<in> {2, 3}" by (rule rec_image_split)
  have ok: "f < 8" "length bs < 2 ^ 29" using r(3) by (auto simp: seg_ok_def)
  note h = seg_header [OF ok]
  have fo: "flags_ok ((f, bs) # xs)" using segs_flags_ok [of d 0 0] r(2) by simp
  have jo: "join ((f, bs) # xs) = d" using segs_join [of 0 0 d] r(2) by simp
  let ?rest = "concat (map seg_image xs) @ suf"
  have s1: "slice_res (cr_chunk r) (length pre) 8 = Ok (seg_head f bs)"
    using slice_res_mid [of 8 "seg_head f bs" "length pre" pre "bs @ pad (length bs) @ ?rest"] by (simp add: c r(1) seg_image_def)
  have s2: "slice_res (cr_chunk r) (length pre + 8) (length bs) = Ok bs"
    using slice_res_mid [of "length bs" bs "length pre + 8" "pre @ seg_head f bs" "pad (length bs) @ ?rest"]
    by (simp add: c r(1) seg_image_def)
  have lt: "cr_pbegin r < cr_pend r" using p e length_rec_image(2) [OF d] by simp
  show ?thesis
  proof (cases "f = 0")
    case True
    then have "xs = []" using fo by (cases xs) auto
    then show ?thesis using True s1 s2 h p e lt jo
      by (simp add: ChunkReader_NextRecord_def r(1) length_seg_image Let_def)
  next
    case False
    have "fst x \<noteq> 0" if "x \<in> set xs" for x using bspec [OF r(5) that] by auto
    then have "chunk_loop (cr_chunk r) (cr_pend r) (length pre) [] = Ok (d, length pre + length (rec_image d))"
      using chunk_loop_ok [OF fo, of pre "cr_pend r" suf "[]"] r False e jo c by auto
    then show ?thesis using False r(4) s1 h p lt by (simp add: ChunkReader_NextRecord_def Let_def)
  qed
qed

text \<open>A client's loop over one part: \<open>None\<close> when the fuel runs out.\<close>

fun chunk_records :: "nat \<Rightarrow> ChunkReader \<Rightarrow> byte list list res option" where
  "chunk_records 0 r = None"
| "chunk_records (Suc n) r =
     (case ChunkReader_NextRecord r of
        Err e \<Rightarrow> Some (Err e)
      | Ok (None, r') \<Rightarrow> Some (Ok [])
      | Ok (Some d, r') \<Rightarrow> (case chunk_records n r' of None \<Rightarrow> None | Some m \<Rightarrow> Some (rmap ((#) d) m)))"

lemma rec_pos_mono: "i \<le> j \<Longrightarrow> rec_pos ds i \<le> rec_pos ds j"
proof -
  assume "i \<le> j"
  then have "take j ds = take i ds @ take (j - i) (drop i ds)" by (metis le_add_diff_inverse take_add)
  then show ?thesis by (simp add: rec_pos_def)
qed

lemma chunk_records_ok:
  assumes small: "\<forall>d\<in>set ds. length d < 2 ^ 29" and ij: "i \<le> j" "j \<le> length ds" and n: "j - i < n"
  shows "chunk_records n \<lparr>cr_chunk = concat (map rec_image ds), cr_pbegin = rec_pos ds i, cr_pend = rec_pos ds j\<rparr> =
     Some (Ok (take (j - i) (drop i ds)))"
  using ij n
proof (induction "j - i" arbitrary: i n)
  case 0
  then obtain m where "n = Suc m" by (cases n) auto
  then show ?case using 0 by (simp add: ChunkReader_NextRecord_def)
next
  case (Suc k)
  obtain m where m: "n = Suc m" using Suc.prems by (cases n) auto
  have i: "i < length ds" "Suc i \<le> j" using Suc by simp_all
  have e: "length (concat (map rec_image (take i ds))) + length (rec_image (ds ! i)) = rec_pos ds (Suc i)"
    using rec_pos_Suc [OF i(1)] by (simp add: rec_pos_def)
  have "ChunkReader_NextRecord \<lparr>cr_chunk = concat (map rec_image ds), cr_pbegin = rec_pos ds i, cr_pend = rec_pos ds j\<rparr> =
      Ok (Some (ds ! i), \<lparr>cr_chunk = concat (map rec_image ds), cr_pbegin = rec_pos ds (Suc i), cr_pend = rec_pos ds j\<rparr>)"
    using ChunkReader_NextRecord_ok [of "ds ! i" "\<lparr>cr_chunk = concat (map rec_image ds), cr_pbegin = rec_pos ds i, cr_pend = rec_pos ds j\<rparr>"
        "concat (map rec_image (take i ds))" "concat (map rec_image (drop (Suc i) ds))"]
      small i chunk_split [OF i(1)] rec_pos_mono [OF i(2), of ds] e by (simp add: rec_pos_def)
  moreover have "chunk_records m \<lparr>cr_chunk = concat (map rec_image ds), cr_pbegin = rec_pos ds (Suc i), cr_pend = rec_pos ds j\<rparr> =
      Some (Ok (take (j - Suc i) (drop (Suc i) ds)))"
    using Suc m i by (intro Suc.hyps(1)) auto
  moreover have "take (j - i) (drop i ds) = ds ! i # take (j - Suc i) (drop (Suc i) ds)"
    using i Suc.hyps(2) by (metis Cons_nth_drop_Suc Suc_diff_Suc Suc_le_lessD take_Suc_Cons)
  ultimately show ?case using m by simp
qed

lemma first_from_mono: "b \<le> b' \<Longrightarrow> b' \<le> rec_pos ds (length ds) \<Longrightarrow> first_from ds b \<le> first_from ds b'"
  unfolding first_from_def by (rule Least_le) (metis (mono_tags, lifting) LeastI le_trans)

lemma first_from_0 [simp]: "first_from ds 0 = 0"
  by (simp add: first_from_def)

lemma first_from_end:
  assumes "\<forall>d\<in>set ds. length d < 2 ^ 29"
  shows "first_from ds (rec_pos ds (length ds)) = length ds"
  unfolding first_from_def
proof (rule Least_equality)
  fix j assume j: "rec_pos ds (length ds) \<le> rec_pos ds j"
  show "length ds \<le> j"
  proof (rule ccontr)
    assume "\<not> length ds \<le> j"
    then have l: "j < length ds" by simp
    have "rec_pos ds j < rec_pos ds (Suc j)"
      using rec_pos_Suc [OF l] length_rec_image(2) [of "ds ! j"] assms l by auto
    also have "\<dots> \<le> rec_pos ds (length ds)" using l by (intro rec_pos_mono) simp
    finally show False using j by simp
  qed
qed simp

lemma concat_slices:
  assumes "\<And>k. k < n \<Longrightarrow> f k \<le> f (Suc k)" and "f n \<le> length xs"
  shows "concat (map (\<lambda>k. take (f (Suc k) - f k) (drop (f k) xs)) [0..<n]) = take (f n - f 0) (drop (f 0) xs)"
proof -
  have le: "f k \<le> f n" if "k \<le> n" for k
    using that by (induction rule: inc_induct) (auto intro: assms(1) order.trans)
  have "map (\<lambda>k. take (f (Suc k) - f k) (drop (f k) xs)) [0..<n] = map (map ((!) xs)) (map (\<lambda>k. [f k..<f (Suc k)]) [0..<n])"
    using le [of "Suc _"] assms(2) by (auto simp: map_nth_upt_slice intro!: map_nth_upt_slice [symmetric] order.trans [OF le assms(2)])
  then have "concat (map (\<lambda>k. take (f (Suc k) - f k) (drop (f k) xs)) [0..<n]) = map ((!) xs) (concat (map (\<lambda>k. [f k..<f (Suc k)]) [0..<n]))"
    by (simp only: map_concat)
  also have "\<dots> = map ((!) xs) [f 0..<f n]" using concat_map_slices [of n f] assms(1) by simp
  finally show ?thesis using map_nth_upt_slice [OF assms(2)] by simp
qed

text \<open>
  A chunk of whole records cut into any number of parts: every part's reader starts and
  stops at record heads and ends, no check fails, and the parts one after another give exactly the
  records of the chunk.
\<close>

theorem chunk_parts_partition:
  assumes small: "\<forall>d\<in>set ds. length d < 2 ^ 29" and n: "0 < num_parts" and fuel: "length ds < fuel"
  shows "\<exists>rs. length rs = num_parts \<and> concat rs = ds \<and>
     (\<forall>k < num_parts. \<exists>r. new_ChunkReader (concat (map rec_image ds)) k num_parts = Ok r \<and>
        chunk_records fuel r = Some (Ok (rs ! k)))"
proof -
  let ?c = "concat (map rec_image ds)"
  define nstep where "nstep = upper_align ((length ?c + num_parts - 1) div num_parts)"
  define b where "b k = min (length ?c) (nstep * k)" for k
  define f where "f k = first_from ds (b k)" for k
  have lc: "length ?c = rec_pos ds (length ds)" by (simp add: rec_pos_def)
  have cm: "length ?c mod 4 = 0" unfolding lc by (rule rec_pos_mod)
  have bm: "b k mod 4 = 0" "b k \<le> length ?c" for k
    using cm upper_align_mod [of "(length ?c + num_parts - 1) div num_parts"] by (auto simp: b_def nstep_def min_def)
  note hd = find_head_first [OF small bm]
  have fm: "f k \<le> f (Suc k)" for k
    unfolding f_def by (rule first_from_mono) (use bm(2) lc in \<open>auto simp: b_def\<close>)
  have fl: "f k \<le> length ds" for k unfolding f_def by (rule hd(1))
  have "length ?c \<le> nstep * num_parts"
  proof -
    have "length ?c \<le> ((length ?c + num_parts - 1) div num_parts) * num_parts"
      by (rule le_ceil_div [OF n])
    also have "\<dots> \<le> nstep * num_parts" unfolding nstep_def by (intro mult_right_mono upper_align_ge) simp
    finally show ?thesis .
  qed
  then have fn: "f num_parts = length ds" and f0: "f 0 = 0"
    using first_from_end [OF small] lc by (simp_all add: f_def b_def min_def)
  define rs where "rs = map (\<lambda>k. take (f (Suc k) - f k) (drop (f k) ds)) [0..<num_parts]"
  have "concat rs = ds" unfolding rs_def using concat_slices [of num_parts f ds] fm fn f0 by simp
  moreover have "\<exists>r. new_ChunkReader ?c k num_parts = Ok r \<and> chunk_records fuel r = Some (Ok (rs ! k))" if k: "k < num_parts" for k
  proof -
    have "new_ChunkReader ?c k num_parts = Ok \<lparr>cr_chunk = ?c, cr_pbegin = rec_pos ds (f k), cr_pend = rec_pos ds (f (Suc k))\<rparr>"
    proof -
      have h: "FindNextRecordIOHead ?c (b k) (length ?c) = Ok (rec_pos ds (f k))" for k
        unfolding FindNextRecordIOHead_def f_def by (simp only: check_True [OF bm(1)] check_True [OF cm] hd(2))
      show ?thesis
        using h [of k] h [of "k + 1"]
        by (simp only: new_ChunkReader_def Let_def rbind.simps Suc_eq_plus1 nstep_def [symmetric] b_def [symmetric])
    qed
    moreover have "f (Suc k) - f k < fuel" using fl [of "Suc k"] fuel by simp
    ultimately show ?thesis using chunk_records_ok [OF small fm [of k] fl [of "Suc k"], of fuel] k by (simp add: rs_def)
  qed
  ultimately show ?thesis by (intro exI [of _ rs]) (simp add: rs_def)
qed

theorem chunk_parts_partition_witness:
  "\<exists>rs. length rs = 2 \<and> concat rs = [[1, 2, 3], magic] \<and>
     (\<forall>k < 2. \<exists>r. new_ChunkReader (concat (map rec_image [[1, 2, 3], magic])) k 2 = Ok r \<and>
        chunk_records 3 r = Some (Ok (rs ! k)))"
proof -
  have "\<forall>d\<in>set [[1, 2, 3], magic]. length d < 2 ^ 29" "0 < (2 :: nat)" "length [[1, 2, 3], magic] < 3" by simp_all
  from chunk_parts_partition [OF this] show ?thesis .
qed

end
