(* ===== verification/Rounding.thy ===== *)
theory Rounding
  imports Prelude
begin

text \<open>
  Floating-point division of ranges: \<open>dmlc::Range::Segment\<close> (\<open>src/base/spmv.h\<close>) computes in \<open>double\<close>
  and \<open>ps::Range::EvenDivide\<close> (\<open>ps-lite/src/base/range.h\<close>) in \<open>long double\<close>. The arithmetic is that of the real
  numbers with a rounding function after every operation; what is used of it is the contract
  \<open>rounding\<close>: it is monotone, exact on the integers up to \<open>2 ^ prec\<close>, and close in relative terms.
  The conversion to \<open>size_t\<close> truncates.
\<close>

section \<open>The contract of a floating-point format\<close>

locale rounding =
  fixes rnd :: "real \<Rightarrow> real" and prec :: nat
  assumes rnd_mono: "0 \<le> x \<Longrightarrow> x \<le> y \<Longrightarrow> rnd x \<le> rnd y"
    and rnd_int: "n \<le> 2 ^ prec \<Longrightarrow> rnd (real n) = real n"
    and rnd_close: "0 \<le> x \<Longrightarrow> rnd x \<le> x * (1 + 1 / 2 ^ prec)"

section \<open>Segment\<close>

record Range =
  rg_begin :: nat
  rg_end :: nat

definition to_size :: "real \<Rightarrow> nat" where
  "to_size x = nat \<lfloor>x\<rfloor>"

definition Segment :: "(real \<Rightarrow> real) \<Rightarrow> Range \<Rightarrow> nat \<Rightarrow> nat \<Rightarrow> Range res" where
  "Segment rnd r idx nparts =
     check (rg_begin r \<le> rg_end r) ''end >= begin''
      (check (0 < nparts) ''nparts > 0''
       (check (idx < nparts) ''idx < nparts''
         (let itv = rnd (rnd (real (rg_end r - rg_begin r)) / rnd (real nparts));
              b = to_size (rnd (rnd (real (rg_begin r)) + rnd (itv * rnd (real idx))));
              e = (if idx = nparts - 1 then rg_end r
                   else to_size (rnd (rnd (real (rg_begin r)) + rnd (itv * rnd (real (idx + 1))))))
          in Ok \<lparr>rg_begin = b, rg_end = e\<rparr>)))"

definition Has :: "Range \<Rightarrow> nat \<Rightarrow> bool" where
  "Has r i \<longleftrightarrow> rg_begin r \<le> i \<and> i < rg_end r"

text \<open>\<open>EvenDivide\<close> for keys of an unsigned type; the last part is not treated specially.\<close>

definition EvenDivide :: "(real \<Rightarrow> real) \<Rightarrow> Range \<Rightarrow> nat \<Rightarrow> nat \<Rightarrow> Range res" where
  "EvenDivide rnd r n i =
     check (rg_begin r \<le> rg_end r) ''valid()''
      (check (0 < n) ''n > 0''
       (check (i < n) ''i < n''
         (let itv = rnd (rnd (real (rg_end r - rg_begin r)) / rnd (real n));
              end_tmp = rnd (rnd (real (rg_begin r)) + rnd (itv * rnd (real (i + 1))))
          in Ok \<lparr>rg_begin = to_size (rnd (rnd (real (rg_begin r)) + rnd (itv * rnd (real i)))),
                rg_end = (if end_tmp > rnd (real (rg_end r)) then rg_end r else to_size end_tmp)\<rparr>)))"

text \<open>The common cut points: where part \<open>i\<close> starts.\<close>

definition cut :: "(real \<Rightarrow> real) \<Rightarrow> Range \<Rightarrow> nat \<Rightarrow> nat \<Rightarrow> real" where
  "cut rnd r n i = rnd (rnd (real (rg_begin r)) + rnd (rnd (rnd (real (rg_end r - rg_begin r)) / rnd (real n)) * rnd (real i)))"

lemma to_size_mono: "x \<le> y \<Longrightarrow> to_size x \<le> to_size y"
  by (simp add: to_size_def nat_mono floor_mono)

lemma to_size_real [simp]: "to_size (real n) = n"
  by (simp add: to_size_def)

context rounding
begin

lemma rnd_0 [simp]: "rnd 0 = 0"
  using rnd_int [of 0] by simp

lemma rnd_nonneg: "0 \<le> x \<Longrightarrow> 0 \<le> rnd x"
  using rnd_mono [of 0 x] by simp

lemma rnd_le_int: "0 \<le> x \<Longrightarrow> x \<le> real n \<Longrightarrow> n \<le> 2 ^ prec \<Longrightarrow> rnd x \<le> real n"
  using rnd_mono [of x "real n"] rnd_int by simp

lemma cut_0: "rg_begin r \<le> 2 ^ prec \<Longrightarrow> cut rnd r n 0 = real (rg_begin r)"
  by (simp add: cut_def rnd_int)

lemma cut_mono:
  assumes "i \<le> j"
  shows "cut rnd r n i \<le> cut rnd r n j"
proof -
  let ?itv = "rnd (rnd (real (rg_end r - rg_begin r)) / rnd (real n))"
  have itv: "0 \<le> ?itv" by (intro rnd_nonneg divide_nonneg_nonneg) simp_all
  have ri: "0 \<le> rnd (real i)" "rnd (real i) \<le> rnd (real j)" using assms by (auto intro: rnd_nonneg rnd_mono)
  have p: "0 \<le> ?itv * rnd (real i)" "?itv * rnd (real i) \<le> ?itv * rnd (real j)"
    using itv ri by (auto intro: mult_nonneg_nonneg mult_left_mono)
  have "0 \<le> rnd (?itv * rnd (real i))" "rnd (?itv * rnd (real i)) \<le> rnd (?itv * rnd (real j))"
    using p by (auto intro: rnd_nonneg rnd_mono)
  then show ?thesis unfolding cut_def using rnd_nonneg [of "real (rg_begin r)"] by (intro rnd_mono) auto
qed

text \<open>No cut point before the last lies behind the end: the relative error is below \<open>1 / (n - 1)\<close>.\<close>

lemma cut_le_end:
  assumes b: "rg_begin r \<le> rg_end r" "rg_end r \<le> 2 ^ prec" and n: "i < n" "n \<le> 2 ^ prec"
  shows "cut rnd r n i \<le> real (rg_end r)"
proof -
  define l where "l = rg_end r - rg_begin r"
  have l: "l \<le> 2 ^ prec" using b by (simp add: l_def)
  let ?itv = "rnd (rnd (real l) / rnd (real n))"
  have e: "rnd (real l) = real l" "rnd (real n) = real n" "rnd (real i) = real i" "rnd (real (rg_begin r)) = real (rg_begin r)"
    using l b n by (simp_all add: rnd_int)
  have "?itv \<le> real l / real n * (1 + 1 / 2 ^ prec)" unfolding e by (rule rnd_close) simp
  then have "?itv * real i \<le> real l / real n * (1 + 1 / 2 ^ prec) * real i" by (rule mult_right_mono) simp
  also have "\<dots> \<le> real l"
  proof -
    have "(1 + 1 / 2 ^ prec) * real i \<le> real n"
    proof -
      have "real i / 2 ^ prec \<le> 1" using n by (simp add: divide_le_eq)
      moreover have "real i + 1 \<le> real n" using n by simp
      moreover have "(1 + 1 / 2 ^ prec) * real i = real i + real i / 2 ^ prec" by (simp add: distrib_right)
      ultimately show ?thesis by linarith
    qed
    then have "real l * ((1 + 1 / 2 ^ prec) * real i) \<le> real l * real n" by (rule mult_left_mono) simp
    then show ?thesis using n by (simp add: divide_le_eq mult.assoc mult.commute mult.left_commute)
  qed
  finally have p: "?itv * real i \<le> real l" .
  have "0 \<le> ?itv * real i" using rnd_nonneg [of "real l / real n"] by (simp add: e)
  then have "rnd (?itv * real i) \<le> real l" "0 \<le> rnd (?itv * real i)" using p l by (auto intro: rnd_le_int rnd_nonneg)
  then have "0 \<le> real (rg_begin r) + rnd (?itv * real i)" "real (rg_begin r) + rnd (?itv * real i) \<le> real (rg_end r)"
    using b by (auto simp: l_def of_nat_diff)
  then show ?thesis unfolding cut_def using rnd_le_int [OF _ _ b(2)] e by (simp add: l_def)
qed

end

section \<open>Rounding to nearest\<close>

text \<open>Round to the nearest number with \<open>p\<close> significant bits; \<open>double\<close> has 53, x87 \<open>long double\<close> 64.\<close>

definition ulp :: "nat \<Rightarrow> real \<Rightarrow> real" where
  "ulp p x = 2 powr (real_of_int \<lfloor>log 2 \<bar>x\<bar>\<rfloor> - real p + 1)"

definition rnd_bits :: "nat \<Rightarrow> real \<Rightarrow> real" where
  "rnd_bits p x = (if x = 0 then 0 else ulp p x * real_of_int (round (x / ulp p x)))"

lemma ulp_pos: "0 < ulp p x"
  by (simp add: ulp_def)

lemma binade:
  assumes "0 < x"
  shows "2 powr real_of_int \<lfloor>log 2 x\<rfloor> \<le> x" and "x < 2 powr (real_of_int \<lfloor>log 2 x\<rfloor> + 1)"
  using assms by (simp_all add: le_log_iff [symmetric] log_less_iff [symmetric])

lemma ulp_scale:
  assumes "0 < x"
  shows "2 ^ p * ulp p x = 2 powr (real_of_int \<lfloor>log 2 x\<rfloor> + 1)"
  using assms by (simp add: ulp_def powr_realpow [symmetric] powr_add [symmetric] add.commute)

lemma rnd_bits_upper:
  assumes "0 < x"
  shows "rnd_bits p x \<le> 2 powr (real_of_int \<lfloor>log 2 x\<rfloor> + 1)"
proof -
  have "x / ulp p x \<le> 2 ^ p"
    using binade(2) [OF assms] ulp_scale [OF assms, of p] ulp_pos [of p x] by (simp add: divide_le_eq)
  then have "round (x / ulp p x) \<le> round (2 ^ p :: real)" by (rule round_mono)
  also have "round (2 ^ p :: real) = 2 ^ p" using round_of_int [of "2 ^ p", where 'a = real] by simp
  finally have "real_of_int (round (x / ulp p x)) \<le> 2 ^ p" by (metis of_int_le_iff of_int_numeral of_int_power)
  then have "ulp p x * real_of_int (round (x / ulp p x)) \<le> ulp p x * 2 ^ p"
    using ulp_pos [of p x] by (intro mult_left_mono) auto
  then show ?thesis using assms ulp_scale [OF assms, of p] by (simp add: rnd_bits_def mult.commute)
qed

lemma rnd_bits_lower:
  assumes "0 < x" and "0 < p"
  shows "2 powr real_of_int \<lfloor>log 2 x\<rfloor> \<le> rnd_bits p x"
proof -
  have sc: "2 ^ (p - 1) * ulp p x = 2 powr real_of_int \<lfloor>log 2 x\<rfloor>"
    using assms by (simp add: ulp_def powr_realpow [symmetric] powr_add [symmetric] of_nat_diff)
  have "2 ^ (p - 1) \<le> x / ulp p x"
    using binade(1) [OF assms(1)] sc ulp_pos [of p x] by (simp add: le_divide_eq)
  then have "round (2 ^ (p - 1) :: real) \<le> round (x / ulp p x)" by (rule round_mono)
  also have "round (2 ^ (p - 1) :: real) = 2 ^ (p - 1)" using round_of_int [of "2 ^ (p - 1)", where 'a = real] by simp
  finally have "2 ^ (p - 1) \<le> real_of_int (round (x / ulp p x))" by (metis of_int_le_iff of_int_numeral of_int_power)
  then have "ulp p x * 2 ^ (p - 1) \<le> ulp p x * real_of_int (round (x / ulp p x))"
    using ulp_pos [of p x] by (intro mult_left_mono) auto
  then show ?thesis using assms sc by (simp add: rnd_bits_def mult.commute)
qed

lemma rnd_bits_exact:
  assumes "x = ulp p x * real_of_int k"
  shows "rnd_bits p x = x"
proof -
  have "x / ulp p x = real_of_int k" using assms ulp_pos [of p x] by (simp add: divide_eq_eq mult.commute)
  then show ?thesis using assms by (simp add: rnd_bits_def)
qed

lemma rnd_bits_nat:
  assumes "n \<le> 2 ^ p" and "0 < p"
  shows "rnd_bits p (real n) = real n"
proof (cases "n = 0")
  case True
  then show ?thesis by (simp add: rnd_bits_def)
next
  case False
  define e where "e = nat \<lfloor>log 2 (real n)\<rfloor>"
  have e0: "0 \<le> \<lfloor>log 2 (real n)\<rfloor>" using False by simp
  have fe: "\<lfloor>log 2 (real n)\<rfloor> = int e" using e0 by (simp add: e_def)
  have u: "ulp p (real n) = 2 powr (real e - real p + 1)" by (simp add: ulp_def fe)
  have "log 2 (real n) \<le> log 2 (real (2 ^ p))" using False assms(1) by (intro log_le_cancel_iff [THEN iffD2]) simp_all
  then have "log 2 (real n) \<le> real p" by (simp add: log_nat_power)
  then have ep: "e \<le> p" using fe by linarith
  show ?thesis
  proof (cases "e = p")
    case True
    have "2 ^ p \<le> real n" using binade(1) [of "real n"] False fe True by (simp add: powr_realpow)
    then have "2 ^ p \<le> n" by simp
    then have "n = 2 ^ p" using assms(1) by simp
    moreover have "ulp p (real n) = 2" using u True by simp
    moreover have "(2 :: real) ^ p = 2 * 2 ^ (p - 1)" using assms(2) by (cases p) simp_all
    ultimately show ?thesis
      by (intro rnd_bits_exact [of _ _ "2 ^ (p - 1)"]) simp
  next
    case False
    define m where "m = p - 1 - e"
    have "ulp p (real n) = 2 powr - real m" unfolding u using False ep by (simp add: m_def of_nat_diff algebra_simps)
    then have "ulp p (real n) * 2 ^ m = 1" by (simp add: powr_minus powr_realpow)
    then show ?thesis by (intro rnd_bits_exact [of _ _ "int n * 2 ^ m"]) simp
  qed
qed

lemma rnd_bits_mono:
  assumes "0 \<le> x" "x \<le> y" "0 < p"
  shows "rnd_bits p x \<le> rnd_bits p y"
proof (cases "x = 0")
  case True
  show ?thesis
  proof (cases "y = 0")
    case False
    then have "0 < y" using assms True by simp
    then have "0 \<le> rnd_bits p y" using rnd_bits_lower [of y p] assms(3) by (meson order.trans powr_ge_zero)
    then show ?thesis using True by (simp add: rnd_bits_def)
  qed (simp add: True)
next
  case False
  then have pos: "0 < x" "0 < y" using assms by simp_all
  have le: "\<lfloor>log 2 x\<rfloor> \<le> \<lfloor>log 2 y\<rfloor>" using pos assms by (intro floor_mono) simp
  show ?thesis
  proof (cases "\<lfloor>log 2 x\<rfloor> = \<lfloor>log 2 y\<rfloor>")
    case True
    then have u: "ulp p x = ulp p y" using pos by (simp add: ulp_def)
    have "x / ulp p y \<le> y / ulp p y" using assms(2) ulp_pos [of p y] by (intro divide_right_mono) auto
    then have "round (x / ulp p y) \<le> round (y / ulp p y)" by (rule round_mono)
    then show ?thesis using pos u ulp_pos [of p y] by (simp add: rnd_bits_def)
  next
    case False
    have "rnd_bits p x \<le> 2 powr (real_of_int \<lfloor>log 2 x\<rfloor> + 1)" using pos by (intro rnd_bits_upper)
    also have "\<dots> \<le> 2 powr real_of_int \<lfloor>log 2 y\<rfloor>" using le False by (intro powr_mono) simp_all
    also have "\<dots> \<le> rnd_bits p y" using pos assms(3) by (intro rnd_bits_lower)
    finally show ?thesis .
  qed
qed

lemma rnd_bits_close:
  assumes "0 \<le> x"
  shows "rnd_bits p x \<le> x * (1 + 1 / 2 ^ p)"
proof (cases "x = 0")
  case False
  then have x: "0 < x" using assms by simp
  have "real_of_int (round (x / ulp p x)) \<le> x / ulp p x + 1 / 2" by (rule of_int_round_le)
  then have "rnd_bits p x \<le> ulp p x * (x / ulp p x + 1 / 2)"
    using x ulp_pos [of p x] by (simp add: rnd_bits_def)
  also have "\<dots> = x + ulp p x / 2" using ulp_pos [of p x] by (simp add: field_simps)
  also have "\<dots> \<le> x + x / 2 ^ p"
  proof -
    have "ulp p x * 2 ^ p / 2 = 2 powr real_of_int \<lfloor>log 2 x\<rfloor>"
      using ulp_scale [OF x, of p] by (simp add: mult.commute powr_add)
    also have "\<dots> \<le> x" by (rule binade(1) [OF x])
    finally show ?thesis by (simp add: field_simps)
  qed
  finally show ?thesis by (simp add: algebra_simps)
qed (simp add: rnd_bits_def)

interpretation double: rounding "rnd_bits 53" 53
  by unfold_locales (rule rnd_bits_mono rnd_bits_nat rnd_bits_close; simp)+

interpretation long_double: rounding "rnd_bits 64" 64
  by unfold_locales (rule rnd_bits_mono rnd_bits_nat rnd_bits_close; simp)+

section \<open>Dividing a range\<close>

lemma segment_cuts:
  assumes "rounding rnd prec" and "rg_begin r \<le> rg_end r" "rg_end r \<le> 2 ^ prec" and "0 < n" "n \<le> 2 ^ prec"
  shows "\<exists>f. f 0 = rg_begin r \<and> f n = rg_end r \<and>
     (\<forall>i<n. f i \<le> f (Suc i) \<and> Segment rnd r i n = Ok \<lparr>rg_begin = f i, rg_end = f (Suc i)\<rparr>)"
proof -
  let ?f = "\<lambda>i. if i = n then rg_end r else to_size (cut rnd r n i)"
  have c0: "cut rnd r n 0 = real (rg_begin r)" using assms by (intro rounding.cut_0) auto
  have le: "to_size (cut rnd r n i) \<le> rg_end r" if "i < n" for i
    using to_size_mono [OF rounding.cut_le_end [OF assms(1-3) that assms(5)]] by simp
  have "?f i \<le> ?f (Suc i) \<and> Segment rnd r i n = Ok \<lparr>rg_begin = ?f i, rg_end = ?f (Suc i)\<rparr>" if "i < n" for i
  proof
    show "?f i \<le> ?f (Suc i)"
      using le [OF that] that to_size_mono [OF rounding.cut_mono [OF assms(1), of i "Suc i" r n]] by auto
    show "Segment rnd r i n = Ok \<lparr>rg_begin = ?f i, rg_end = ?f (Suc i)\<rparr>"
      using assms(2,4) that by (auto simp: Segment_def cut_def Let_def)
  qed
  then show ?thesis using assms(4) c0 by (intro exI [of _ ?f]) simp
qed

text \<open>
  The segments \<open>Segment(0, n), ..., Segment(n - 1, n)\<close> tile the range: the first starts at its
  begin, each ends where the next starts, none is inverted, and the last ends at its end.
\<close>

theorem Segment_tiles:
  assumes "rounding rnd prec" and "rg_begin r \<le> rg_end r" "rg_end r \<le> 2 ^ prec" and "0 < n" "n \<le> 2 ^ prec"
  shows "\<exists>f. f 0 = rg_begin r \<and> f n = rg_end r \<and>
     (\<forall>i<n. f i \<le> f (Suc i) \<and> Segment rnd r i n = Ok \<lparr>rg_begin = f i, rg_end = f (Suc i)\<rparr>)"
  using assms by (rule segment_cuts)

theorem Segment_tiles_witness:
  "\<exists>f. f 0 = (0 :: nat) \<and> f 3 = 10 \<and>
     (\<forall>i<3. f i \<le> f (Suc i) \<and> Segment (rnd_bits 53) \<lparr>rg_begin = 0, rg_end = 10\<rparr> i 3 = Ok \<lparr>rg_begin = f i, rg_end = f (Suc i)\<rparr>)"
  using Segment_tiles [OF double.rounding_axioms, of "\<lparr>rg_begin = 0, rg_end = 10\<rparr>" 3] by simp

text \<open>
  The key ranges \<open>EvenDivide\<close> gives the servers do not overlap and do not leave a gap between
  two servers: the first starts at the begin, each ends where the next starts, and all of them lie
  in the range.
\<close>

theorem EvenDivide_abut:
  assumes "rounding rnd prec" and "rg_begin r \<le> rg_end r" "rg_end r \<le> 2 ^ prec" and "0 < n" "n \<le> 2 ^ prec"
  shows "\<exists>f. f 0 = rg_begin r \<and> f n \<le> rg_end r \<and>
     (\<forall>i<n. f i \<le> f (Suc i) \<and> EvenDivide rnd r n i = Ok \<lparr>rg_begin = f i, rg_end = f (Suc i)\<rparr>)"
proof -
  let ?f = "\<lambda>i. if cut rnd r n i > real (rg_end r) then rg_end r else to_size (cut rnd r n i)"
  have c0: "cut rnd r n 0 = real (rg_begin r)" using assms by (intro rounding.cut_0) auto
  have re: "rnd (real (rg_end r)) = real (rg_end r)" using rounding.rnd_int [OF assms(1,3)] .
  have le: "cut rnd r n i \<le> real (rg_end r)" if "i < n" for i
    using rounding.cut_le_end [OF assms(1-3) that assms(5)] .
  have fe: "?f i \<le> rg_end r" for i
    using to_size_mono [of "cut rnd r n i" "real (rg_end r)"] by (simp add: not_less)
  have "?f i \<le> ?f (Suc i) \<and> EvenDivide rnd r n i = Ok \<lparr>rg_begin = ?f i, rg_end = ?f (Suc i)\<rparr>" if i: "i < n" for i
  proof
    show "?f i \<le> ?f (Suc i)"
      using fe [of i] le [OF i] to_size_mono [OF rounding.cut_mono [OF assms(1), of i "Suc i" r n]] by (auto simp: not_less)
    show "EvenDivide rnd r n i = Ok \<lparr>rg_begin = ?f i, rg_end = ?f (Suc i)\<rparr>"
      unfolding EvenDivide_def Let_def cut_def [symmetric] using assms(2,4) i le [OF i] by (simp add: re)
  qed
  moreover have "?f 0 = rg_begin r" using c0 assms(2) by simp
  ultimately show ?thesis using fe [of n] by (intro exI [of _ ?f]) blast
qed

theorem EvenDivide_abut_witness:
  "\<exists>f. f 0 = (0 :: nat) \<and> f 3 \<le> 2 ^ 64 - 1 \<and>
     (\<forall>i<3. f i \<le> f (Suc i) \<and> EvenDivide (rnd_bits 64) \<lparr>rg_begin = 0, rg_end = 2 ^ 64 - 1\<rparr> 3 i = Ok \<lparr>rg_begin = f i, rg_end = f (Suc i)\<rparr>)"
  using EvenDivide_abut [OF long_double.rounding_axioms, of "\<lparr>rg_begin = 0, rg_end = 2 ^ 64 - 1\<rparr>" 3] by simp

lemma rnd_bits_eval:
  assumes "2 powr real_of_int e \<le> x" "x < 2 powr (real_of_int e + 1)" and u: "u = 2 powr (real_of_int e - real p + 1)"
    and k: "real_of_int k \<le> x / u + 1 / 2" "x / u + 1 / 2 < real_of_int k + 1"
  shows "rnd_bits p x = u * real_of_int k"
proof -
  have x: "0 < x" by (rule less_le_trans [OF _ assms(1)]) simp
  have "\<lfloor>log 2 x\<rfloor> = e" using assms(1,2) x by (intro floor_unique) (simp_all add: le_log_iff log_less_iff)
  then have "ulp p x = u" using x u by (simp add: ulp_def)
  moreover have "round (x / u) = k" using k by (simp add: round_def floor_unique)
  ultimately show ?thesis using x by (simp add: rnd_bits_def)
qed

text \<open>
  The last of nineteen servers does not reach the end of the key space: with a 64-bit
  significand the product of the rounded interval and 19 is one below it, so the key
  \<open>2 ^ 64 - 2\<close> belongs to no server.
\<close>

theorem EvenDivide_misses_last_key:
  "\<exists>b. EvenDivide (rnd_bits 64) \<lparr>rg_begin = 0, rg_end = 2 ^ 64 - 1\<rparr> 19 18 = Ok \<lparr>rg_begin = b, rg_end = 2 ^ 64 - 2\<rparr>"
proof -
  let ?r = "\<lparr>rg_begin = 0, rg_end = 2 ^ 64 - 1\<rparr>" and ?L = "2 ^ 64 - 1 :: nat"
  have l: "rnd_bits 64 (real ?L) = real ?L" "rnd_bits 64 (real 19) = 19" "rnd_bits 64 0 = 0"
    using rnd_bits_nat [of ?L 64] rnd_bits_nat [of 19 64] rnd_bits_nat [of 0 64] by simp_all
  have itv: "rnd_bits 64 (real ?L / 19) = 1 / 16 * real_of_int 15534100272597517149"
    by (rule rnd_bits_eval [of 59]) (simp_all add: powr_minus)
  have prod: "rnd_bits 64 (1 / 16 * real_of_int 15534100272597517149 * 19) = 1 * real_of_int 18446744073709551614"
    by (rule rnd_bits_eval [of 63]) simp_all
  have itv': "rnd_bits 64 (18446744073709551615 / 19) = 15534100272597517149 / 16" using itv by simp
  have "cut (rnd_bits 64) ?r 19 19 = real (2 ^ 64 - 2 :: nat)"
    using l prod rnd_bits_nat [of "2 ^ 64 - 2" 64] by (simp add: cut_def itv')
  then show ?thesis
    unfolding EvenDivide_def Let_def cut_def [symmetric] using l by (simp add: to_size_def)
qed

end
