(* ===== verification/Sparse.thy ===== *)
theory Sparse
  imports RowBlock Rounding
begin

text \<open>
  Multi-threaded sparse products: \<open>SpMV\<close> (\<open>src/base/spmv.h\<close>) and \<open>SpMM\<close> (\<open>src/base/spmm.h\<close>). Every thread
  of the parallel region computes its segment with \<open>Range::Segment\<close> and then runs a straight
  program of updates of single cells of \<open>y\<close>; a run of the region is any interleaving of these
  programs. The cell type is only assumed to have \<open>+\<close>, \<open>*\<close> and \<open>0\<close>: sums are formed in the
  order of the code, so the results hold for floating-point cells as well.
\<close>

section \<open>Parallel regions\<close>

type_synonym 'v upd = "nat \<times> ('v \<Rightarrow> 'v)"

fun exec :: "'v upd list \<Rightarrow> 'v list \<Rightarrow> 'v list" where
  "exec [] y = y"
| "exec ((k, g) # us) y = exec us (y[k := g (y ! k)])"

text \<open>A schedule: updates tagged with the thread they belong to, each thread's in program order.\<close>

definition interleaving :: "nat \<Rightarrow> (nat \<Rightarrow> 'u list) \<Rightarrow> (nat \<times> 'u) list \<Rightarrow> bool" where
  "interleaving nt prog sched \<longleftrightarrow> (\<forall>p\<in>set sched. fst p < nt) \<and>
     (\<forall>t<nt. map snd (filter (\<lambda>p. fst p = t) sched) = prog t)"

definition run :: "(nat \<times> 'v upd) list \<Rightarrow> 'v list \<Rightarrow> 'v list" where
  "run sched y = exec (map snd sched) y"

definition on_cell :: "nat \<Rightarrow> 'v upd list \<Rightarrow> 'v \<Rightarrow> 'v" where
  "on_cell k us = fold (\<lambda>u. snd u) (filter (\<lambda>u. fst u = k) us)"

lemma length_exec [simp]: "length (exec us y) = length y"
  by (induction us y rule: exec.induct) auto

lemma exec_nth: "k < length y \<Longrightarrow> exec us y ! k = on_cell k us (y ! k)"
  by (induction us y rule: exec.induct) (auto simp: on_cell_def nth_list_update)

lemma on_cell_append [simp]: "on_cell k (us @ vs) v = on_cell k vs (on_cell k us v)"
  by (simp add: on_cell_def)

lemma on_cell_Nil: "on_cell k [] v = v"
  by (simp add: on_cell_def)

lemma on_cell_other: "(\<And>u. u \<in> set us \<Longrightarrow> fst u \<noteq> k) \<Longrightarrow> on_cell k us v = v"
  by (simp add: on_cell_def filter_empty_conv [THEN iffD2])

text \<open>If only thread \<open>t\<close> writes cell \<open>k\<close>, the cell ends up as that thread alone would leave it.\<close>

lemma run_owned:
  assumes il: "interleaving nt prog sched" and t: "t < nt" and k: "k < length y"
    and own: "\<And>t' u. t' < nt \<Longrightarrow> u \<in> set (prog t') \<Longrightarrow> fst u = k \<Longrightarrow> t' = t"
  shows "run sched y ! k = on_cell k (prog t) (y ! k)"
proof -
  have mem: "snd p \<in> set (prog (fst p))" "fst p < nt" if "p \<in> set sched" for p
  proof -
    show "fst p < nt" using il that by (auto simp: interleaving_def)
    then have "prog (fst p) = map snd (filter (\<lambda>q. fst q = fst p) sched)" using il by (simp add: interleaving_def)
    then show "snd p \<in> set (prog (fst p))" using that by auto
  qed
  have "filter (\<lambda>u. fst u = k) (map snd sched) = map snd (filter (\<lambda>p. fst (snd p) = k) sched)"
    by (simp add: filter_map comp_def)
  also have "filter (\<lambda>p. fst (snd p) = k) sched = filter (\<lambda>p. fst (snd p) = k \<and> fst p = t) sched"
    using mem own [OF mem(2) mem(1)] by (intro filter_cong refl) blast
  also have "map snd \<dots> = filter (\<lambda>u. fst u = k) (map snd (filter (\<lambda>p. fst p = t) sched))"
    by (simp add: filter_map comp_def conj_commute)
  also have "map snd (filter (\<lambda>p. fst p = t) sched) = prog t" using il t by (simp add: interleaving_def)
  finally show ?thesis using k by (simp add: run_def exec_nth on_cell_def)
qed

lemma run_untouched:
  assumes il: "interleaving nt prog sched" and k: "k < length y"
    and own: "\<And>t' u. t' < nt \<Longrightarrow> u \<in> set (prog t') \<Longrightarrow> fst u \<noteq> k"
  shows "run sched y ! k = y ! k"
proof (cases "nt = 0")
  case True
  then have "sched = []" using il by (cases sched) (auto simp: interleaving_def)
  then show ?thesis by (simp add: run_def)
next
  case False
  then show ?thesis
    using run_owned [OF il _ k, of 0] own [of 0] own on_cell_other [of "prog 0" k] by (metis gr0I)
qed

lemma length_run [simp]: "length (run sched y) = length y"
  by (simp add: run_def)

section \<open>Sparse matrix times vector\<close>

text \<open>The entries of row \<open>i\<close> as positions, and what one of them contributes.\<close>

definition row_range :: "('i, 'v) RowBlock \<Rightarrow> nat \<Rightarrow> nat list" where
  "row_range D i = [rb_offset D ! i..<rb_offset D ! (i + 1)]"

definition col :: "('i::len word, 'v) RowBlock \<Rightarrow> nat \<Rightarrow> nat" where
  "col D j = unat (rb_index D ! j)"

definition scaled :: "('i, 'v::times) RowBlock \<Rightarrow> nat \<Rightarrow> 'v \<Rightarrow> 'v" where
  "scaled D j v = (case rb_value D of Some val \<Rightarrow> v * val ! j | None \<Rightarrow> v)"

text \<open>No access of the products is out of range: outside this the code has no defined behaviour.\<close>

definition mat_ok :: "('i::len word, 'v) RowBlock \<Rightarrow> nat \<Rightarrow> bool" where
  "mat_ok D ncol \<longleftrightarrow> rb_size D < length (rb_offset D) \<and>
     (\<forall>i<rb_size D. \<forall>j\<in>set (row_range D i). j < length (rb_index D) \<and> col D j < ncol \<and>
        (case rb_value D of Some val \<Rightarrow> j < length val | None \<Rightarrow> True))"

definition row_sum :: "('i::len word, 'v::{plus,times,zero}) RowBlock \<Rightarrow> 'v list \<Rightarrow> nat \<Rightarrow> 'v" where
  "row_sum D x i = fold (\<lambda>j y_i. y_i + scaled D j (x ! col D j)) (row_range D i) 0"

text \<open>\<open>Times\<close>: a thread's program, the region, and the checked entry point.\<close>

definition Times_prog ::
  "('i::len word, 'v::{plus,times,zero}) RowBlock \<Rightarrow> 'v list \<Rightarrow> Range \<Rightarrow> 'v upd list" where
  "Times_prog D x rg =
     map (\<lambda>i. (i, \<lambda>_. row_sum D x i))
       (filter (\<lambda>i. rb_offset D ! i \<noteq> rb_offset D ! (i + 1)) [rg_begin rg..<rg_end rg])"

text \<open>The segments of all threads; they do not fail for the thread numbers of the region.\<close>

definition segment_of :: "(real \<Rightarrow> real) \<Rightarrow> nat \<Rightarrow> nat \<Rightarrow> nat \<Rightarrow> Range" where
  "segment_of rnd n nt t = (case Segment rnd \<lparr>rg_begin = 0, rg_end = n\<rparr> t nt of Ok r \<Rightarrow> r | Err _ \<Rightarrow> \<lparr>rg_begin = 0, rg_end = 0\<rparr>)"

text \<open>
  The schedule of a region with \<open>nt\<close> threads is an argument; \<open>Times_schedule\<close> says which ones can happen.
\<close>

definition Times_schedule ::
  "(real \<Rightarrow> real) \<Rightarrow> nat \<Rightarrow> ('i::len word, 'v::{plus,times,zero}) RowBlock \<Rightarrow> 'v list \<Rightarrow> (nat \<times> 'v upd) list \<Rightarrow> bool" where
  "Times_schedule rnd nt D x = interleaving nt (\<lambda>t. Times_prog D x (segment_of rnd (rb_size D) nt t))"

definition SpMV_Times ::
  "(nat \<times> 'v upd) list \<Rightarrow> ('i::len word, 'v::{plus,times,zero}) RowBlock \<Rightarrow> 'v list \<Rightarrow> 'v list \<Rightarrow> 'v list res" where
  "SpMV_Times sched D x y =
     check (length y = rb_size D) ''y->size() == D.size''
      (if mat_ok D (length x) then Ok (run sched y) else Err OutOfBounds)"

text \<open>\<open>TransTimes\<close>: clear the own segment of \<open>y\<close>, then add up the entries whose column lies in it.\<close>

definition TransTimes_prog ::
  "('i::len word, 'v::{plus,times,zero}) RowBlock \<Rightarrow> 'v list \<Rightarrow> Range \<Rightarrow> 'v upd list" where
  "TransTimes_prog D x rg =
     map (\<lambda>k. (k, \<lambda>_. 0)) [rg_begin rg..<rg_end rg] @
     concat (map (\<lambda>i. concat (map (\<lambda>j. if Has rg (col D j) then [(col D j, \<lambda>y_k. y_k + scaled D j (x ! i))] else [])
        (row_range D i))) [0..<rb_size D])"

definition TransTimes_schedule ::
  "(real \<Rightarrow> real) \<Rightarrow> nat \<Rightarrow> ('i::len word, 'v::{plus,times,zero}) RowBlock \<Rightarrow> 'v list \<Rightarrow> nat \<Rightarrow> (nat \<times> 'v upd) list \<Rightarrow> bool" where
  "TransTimes_schedule rnd nt D x y_size = interleaving nt (\<lambda>t. TransTimes_prog D x (segment_of rnd y_size nt t))"

definition SpMV_TransTimes ::
  "(nat \<times> 'v upd) list \<Rightarrow> ('i::len word, 'v::{plus,times,zero}) RowBlock \<Rightarrow> 'v list \<Rightarrow> 'v list \<Rightarrow> 'v list res" where
  "SpMV_TransTimes sched D x y =
     check (length x = rb_size D) ''x.size() == D.size''
      (if mat_ok D (length y) then Ok (run sched y) else Err OutOfBounds)"

text \<open>The sequential reference: column \<open>k\<close> of the matrix against \<open>x\<close>, in row order.\<close>

definition col_sum :: "('i::len word, 'v::{plus,times,zero}) RowBlock \<Rightarrow> 'v list \<Rightarrow> nat \<Rightarrow> 'v" where
  "col_sum D x k = fold (\<lambda>(i, j) y_k. y_k + scaled D j (x ! i))
     (concat (map (\<lambda>i. map (Pair i) (filter (\<lambda>j. col D j = k) (row_range D i))) [0..<rb_size D])) 0"

section \<open>The segments own the cells\<close>

lemma segments:
  assumes "rounding rnd prec" "n \<le> 2 ^ prec" "0 < nt" "nt \<le> 2 ^ prec"
  obtains f where "f 0 = 0" "f nt = n" "\<And>t. t < nt \<Longrightarrow> f t \<le> f (Suc t)"
    "\<And>t. t < nt \<Longrightarrow> segment_of rnd n nt t = \<lparr>rg_begin = f t, rg_end = f (Suc t)\<rparr>"
proof -
  have "\<exists>f. f 0 = (0 :: nat) \<and> f nt = n \<and>
     (\<forall>i<nt. f i \<le> f (Suc i) \<and> Segment rnd \<lparr>rg_begin = 0, rg_end = n\<rparr> i nt = Ok \<lparr>rg_begin = f i, rg_end = f (Suc i)\<rparr>)"
    using segment_cuts [OF assms(1), of "\<lparr>rg_begin = 0, rg_end = n\<rparr>" nt] assms(2-4) by simp
  then show ?thesis by (elim exE conjE) (rule that, auto simp: segment_of_def)
qed

lemma owner_exists:
  fixes f :: "nat \<Rightarrow> nat"
  assumes "f 0 = 0" "k < f nt"
  shows "\<exists>t<nt. f t \<le> k \<and> k < f (Suc t)"
  using assms(2)
proof (induction nt)
  case 0
  then show ?case using assms(1) by simp
next
  case (Suc nt)
  then show ?case by (cases "k < f nt") (auto intro: less_SucI)
qed

lemma owner_unique:
  fixes f :: "nat \<Rightarrow> nat"
  assumes mono: "\<And>t. t < nt \<Longrightarrow> f t \<le> f (Suc t)" and "t < nt" "t' < nt"
    and "f t \<le> k" "k < f (Suc t)" "f t' \<le> k" "k < f (Suc t')"
  shows "t = t'"
proof (rule ccontr)
  have m: "f a \<le> f b" if "a \<le> b" "b \<le> nt" for a b
    using that by (induction rule: inc_induct) (auto intro: order.trans [OF mono])
  assume "t \<noteq> t'"
  then consider "Suc t \<le> t'" | "Suc t' \<le> t" by linarith
  then show False using m [of "Suc t" t'] m [of "Suc t'" t] assms by cases auto
qed

lemma filter_upt_eq: "filter (\<lambda>i. i = k) [a..<b] = (if a \<le> k \<and> k < b then [k] else [])"
  by (induction b) auto

lemma on_cell_map:
  "on_cell k (map (\<lambda>i. (i, g i)) (filter P [a..<b])) v = (if a \<le> k \<and> k < b \<and> P k then g k v else v)"
proof -
  have "filter (\<lambda>u. fst u = k) (map (\<lambda>i. (i, g i)) (filter P [a..<b])) = map (\<lambda>i. (i, g i)) (filter P (filter (\<lambda>i. i = k) [a..<b]))"
    by (simp add: filter_map comp_def conj_commute)
  then show ?thesis unfolding on_cell_def filter_upt_eq by simp
qed

lemma on_cell_concat: "on_cell k (concat (map g xs)) v = fold (\<lambda>x. on_cell k (g x)) xs v"
  by (induction xs arbitrary: v) (simp_all add: on_cell_def)

lemma fold_concat_map: "fold f (concat (map g xs)) v = fold (\<lambda>x. fold f (g x)) xs v"
  by (induction xs arbitrary: v) simp_all

lemma fold_filter: "fold f (filter P xs) v = fold (\<lambda>x. if P x then f x else id) xs v"
  by (induction xs arbitrary: v) auto

text \<open>The two threads' programs on a cell of their segment.\<close>

lemma Times_prog_cell:
  assumes "Has rg i"
  shows "on_cell i (Times_prog D x rg) v = (if row_range D i = [] \<and> rb_offset D ! i = rb_offset D ! (i + 1) then v else row_sum D x i)"
proof -
  have "on_cell i (Times_prog D x rg) v = (if rb_offset D ! i \<noteq> rb_offset D ! (i + 1) then row_sum D x i else v)"
    using assms on_cell_map [of i "\<lambda>i _. row_sum D x i" "\<lambda>i. rb_offset D ! i \<noteq> rb_offset D ! (i + 1)" "rg_begin rg" "rg_end rg" v]
    by (simp add: Times_prog_def Has_def)
  then show ?thesis by (auto simp: row_range_def)
qed

lemma TransTimes_prog_cell:
  assumes "Has rg k"
  shows "on_cell k (TransTimes_prog D x rg) v = col_sum D x k"
proof -
  have clear: "on_cell k (map (\<lambda>k. (k, \<lambda>_. 0)) [rg_begin rg..<rg_end rg]) v = 0"
    using assms on_cell_map [of k "\<lambda>_ _. 0" "\<lambda>_. True" "rg_begin rg" "rg_end rg" v] by (simp add: Has_def)
  have step: "on_cell k (concat (map (\<lambda>j. if Has rg (col D j) then [(col D j, \<lambda>y_k. y_k + scaled D j (x ! i))] else []) js)) w =
      fold (\<lambda>(i, j) y_k. y_k + scaled D j (x ! i)) (map (Pair i) (filter (\<lambda>j. col D j = k) js)) w" for i js w
    unfolding on_cell_concat fold_map fold_filter
    by (intro fold_cong refl) (use assms in \<open>auto simp: on_cell_def fun_eq_iff\<close>)
  show ?thesis
    unfolding TransTimes_prog_def on_cell_append clear on_cell_concat [of k _ "[0..<rb_size D]"] col_sum_def fold_concat_map
    by (intro fold_cong refl) (simp add: step fun_eq_iff)
qed

lemma Times_prog_in: "u \<in> set (Times_prog D x rg) \<Longrightarrow> Has rg (fst u)"
  by (auto simp: Times_prog_def Has_def)

lemma TransTimes_prog_in: "u \<in> set (TransTimes_prog D x rg) \<Longrightarrow> Has rg (fst u)"
  by (auto simp: TransTimes_prog_def Has_def split: if_splits)

text \<open>A region whose threads stay in their segments leaves every cell as its owner alone would.\<close>

lemma region_cell:
  assumes r: "rounding rnd prec" "n \<le> 2 ^ prec" "0 < nt" "nt \<le> 2 ^ prec"
    and il: "interleaving nt (\<lambda>t. prog (segment_of rnd n nt t)) sched"
    and own: "\<And>rg u. u \<in> set (prog rg) \<Longrightarrow> Has rg (cell (fst u))"
    and k: "k < length y" "cell k < n"
  obtains rg where "Has rg (cell k)" "run sched y ! k = on_cell k (prog rg) (y ! k)"
proof -
  obtain f where f: "f 0 = 0" "f nt = n" "\<And>t. t < nt \<Longrightarrow> f t \<le> f (Suc t)"
    "\<And>t. t < nt \<Longrightarrow> segment_of rnd n nt t = \<lparr>rg_begin = f t, rg_end = f (Suc t)\<rparr>"
    using segments [OF r] by blast
  obtain t where t: "t < nt" "f t \<le> cell k" "cell k < f (Suc t)" using owner_exists [of f "cell k" nt] f(1,2) k(2) by auto
  have own': "t' = t" if "t' < nt" "u \<in> set (prog (segment_of rnd n nt t'))" "fst u = k" for t' u
    using own [OF that(2)] that f(4) [OF that(1)] t by (intro owner_unique [where f = f and nt = nt and k = "cell k"] f(3)) (auto simp: Has_def)
  show ?thesis
    using that [of "segment_of rnd n nt t"] run_owned [OF il t(1) k(1) own'] t f(2,4) by (auto simp: Has_def)
qed

text \<open>
  \<open>SpMV::Times\<close> computes the row sums whatever the number of threads and however the
  threads interleave; a row without entries keeps the old value of \<open>y\<close>.
\<close>

theorem SpMV_Times_correct:
  assumes "rounding rnd prec" "0 < nt" "nt \<le> 2 ^ prec" "rb_size D \<le> 2 ^ prec"
    and "mat_ok D (length x)" "length y = rb_size D" and "Times_schedule rnd nt D x sched"
  shows "\<exists>y'. SpMV_Times sched D x y = Ok y' \<and> length y' = rb_size D \<and>
     (\<forall>i<rb_size D. y' ! i = (if rb_offset D ! i = rb_offset D ! (i + 1) then y ! i else row_sum D x i))"
proof -
  have "run sched y ! i = (if rb_offset D ! i = rb_offset D ! (i + 1) then y ! i else row_sum D x i)" if "i < rb_size D" for i
  proof (rule region_cell [OF assms(1,4,2,3) assms(7) [unfolded Times_schedule_def], where cell = id and k = i and y = y])
    fix rg assume "Has rg (id i)" "run sched y ! i = on_cell i (Times_prog D x rg) (y ! i)"
    then show ?thesis using Times_prog_cell [of rg i D x] by (auto simp: row_range_def)
  qed (use Times_prog_in that assms(6) in auto)
  then show ?thesis using assms(5,6) by (simp add: SpMV_Times_def)
qed

text \<open>
  \<open>SpMV::TransTimes\<close> computes the column sums, whatever the previous contents of \<open>y\<close>, the
  number of threads and their interleaving.
\<close>

theorem SpMV_TransTimes_correct:
  assumes "rounding rnd prec" "0 < nt" "nt \<le> 2 ^ prec" "length y \<le> 2 ^ prec"
    and "mat_ok D (length y)" "length x = rb_size D" and "TransTimes_schedule rnd nt D x (length y) sched"
  shows "SpMV_TransTimes sched D x y = Ok (map (col_sum D x) [0..<length y])"
proof -
  have "run sched y ! k = col_sum D x k" if "k < length y" for k
  proof (rule region_cell [OF assms(1,4,2,3) assms(7) [unfolded TransTimes_schedule_def], where cell = id and k = k and y = y])
    fix rg assume "Has rg (id k)" "run sched y ! k = on_cell k (TransTimes_prog D x rg) (y ! k)"
    then show ?thesis using TransTimes_prog_cell [of rg k D x] by simp
  qed (use TransTimes_prog_in that in auto)
  then have "run sched y = map (col_sum D x) [0..<length y]" by (intro nth_equalityI) simp_all
  then show ?thesis using assms(5,6) by (simp add: SpMV_TransTimes_def)
qed

section \<open>Sparse matrix times dense matrix\<close>

text \<open>Dense matrices are stored by rows of \<open>dm\<close> cells.\<close>

definition SpMM_prog ::
  "('i::len word, 'v::{plus,times,zero}) RowBlock \<Rightarrow> 'v list \<Rightarrow> nat \<Rightarrow> Range \<Rightarrow> 'v upd list" where
  "SpMM_prog D x dm rg =
     concat (map (\<lambda>i. if rb_offset D ! i = rb_offset D ! (i + 1) then []
        else concat (map (\<lambda>j. map (\<lambda>k. (i * dm + k, \<lambda>y. y + scaled D j (x ! (col D j * dm + k)))) [0..<dm])
          (row_range D i))) [rg_begin rg..<rg_end rg])"

definition SpMM_schedule ::
  "(real \<Rightarrow> real) \<Rightarrow> nat \<Rightarrow> ('i::len word, 'v::{plus,times,zero}) RowBlock \<Rightarrow> 'v list \<Rightarrow> nat \<Rightarrow> (nat \<times> 'v upd) list \<Rightarrow> bool" where
  "SpMM_schedule rnd nt D x dm = interleaving nt (\<lambda>t. SpMM_prog D x dm (segment_of rnd (rb_size D) nt t))"

text \<open>A division by \<open>D.size = 0\<close> is undefined.\<close>

definition SpMM_Times ::
  "(nat \<times> 'v upd) list \<Rightarrow> ('i::len word, 'v::{plus,times,zero}) RowBlock \<Rightarrow> 'v list \<Rightarrow> 'v list \<Rightarrow> 'v list res" where
  "SpMM_Times sched D x y =
     (if x = [] then Ok y
      else if rb_size D = 0 then Err (Fatal ''division by zero'')
      else let dm = length y div rb_size D in
        if mat_ok D (if dm = 0 then 2 ^ LENGTH('i) else length x div dm)
        then Ok (run sched (replicate (rb_size D * dm) 0 @ drop (rb_size D * dm) y)) else Err OutOfBounds)"

definition SpMM_Trans_prog ::
  "('i::len word, 'v::{plus,times,zero}) RowBlock \<Rightarrow> 'v list \<Rightarrow> nat \<Rightarrow> Range \<Rightarrow> 'v upd list" where
  "SpMM_Trans_prog D x dm rg =
     concat (map (\<lambda>i. concat (map (\<lambda>j. if Has rg (col D j)
          then map (\<lambda>k. (col D j * dm + k, \<lambda>y. y + scaled D j (x ! (i * dm + k)))) [0..<dm] else [])
        (row_range D i))) [0..<rb_size D])"

definition SpMM_Trans_schedule ::
  "(real \<Rightarrow> real) \<Rightarrow> nat \<Rightarrow> ('i::len word, 'v::{plus,times,zero}) RowBlock \<Rightarrow> 'v list \<Rightarrow> nat \<Rightarrow> nat \<Rightarrow> (nat \<times> 'v upd) list \<Rightarrow> bool" where
  "SpMM_Trans_schedule rnd nt D x dm y_size =
     interleaving nt (\<lambda>t. SpMM_Trans_prog D x dm (segment_of rnd (y_size div dm) nt t))"

text \<open>\<open>y = D^T * x + p * z\<close>; \<open>z\<close> is used when it has the length of \<open>y\<close> and \<open>p\<close> is not zero.\<close>

definition trans_init :: "'v::{times,zero} \<Rightarrow> 'v list \<Rightarrow> nat \<Rightarrow> 'v list" where
  "trans_init p z n = (if length z = n \<and> p \<noteq> 0 then map (\<lambda>v. v * p) z else replicate n 0)"

definition SpMM_TransTimes ::
  "(nat \<times> 'v upd) list \<Rightarrow> ('i::len word, 'v::{plus,times,zero}) RowBlock \<Rightarrow> 'v list \<Rightarrow> 'v \<Rightarrow> 'v list \<Rightarrow> 'v list \<Rightarrow> 'v list res" where
  "SpMM_TransTimes sched D x p z y =
     (if x = [] then Ok y
      else if rb_size D = 0 \<or> length x div rb_size D = 0 then Err (Fatal ''division by zero'')
      else let dm = length x div rb_size D in
        if mat_ok D (length y div dm)
        then Ok (run sched (trans_init p z (length y))) else Err OutOfBounds)"

lemma on_cell_block:
  assumes "k < dm"
  shows "on_cell (i * dm + k) (map (\<lambda>l. (i' * dm + l, g l)) [0..<dm]) v = (if i' = i then g k v else v)"
proof -
  have eq: "i' * dm + l = i * dm + k \<longleftrightarrow> i' = i \<and> l = k" if "l < dm" for l
    using that assms by (metis add.commute div_mult_self3 div_less mod_less mod_mult_self3 add_cancel_right_left less_zeroE)
  have "filter (\<lambda>u. fst u = i * dm + k) (map (\<lambda>l. (i' * dm + l, g l)) [0..<dm]) =
      map (\<lambda>l. (i' * dm + l, g l)) (filter (\<lambda>l. i' * dm + l = i * dm + k) [0..<dm])"
    by (simp add: filter_map comp_def)
  also have "filter (\<lambda>l. i' * dm + l = i * dm + k) [0..<dm] = (if i' = i then filter (\<lambda>l. l = k) [0..<dm] else [])"
    by (auto intro!: filter_cong simp: eq filter_empty_conv)
  finally show ?thesis using assms by (simp add: on_cell_def filter_upt_eq)
qed

lemma on_cell_block_add:
  "k < dm \<Longrightarrow> on_cell (i * dm + k) (map (\<lambda>l. (i' * dm + l, \<lambda>y. y + h l)) [0..<dm]) = (if i' = i then (\<lambda>y. y + h k) else id)"
  using on_cell_block [of k dm i i' "\<lambda>l y. y + h l"] by (simp add: fun_eq_iff)

lemma fold_id: "fold (\<lambda>j. id) js v = v"
  by (induction js) simp_all

lemma fold_pick: "fold (\<lambda>i'. if i' = i then F else id) [a..<b] v = (if a \<le> i \<and> i < b then F v else v)"
  unfolding fold_filter [of "\<lambda>_. F" "\<lambda>i'. i' = i" "[a..<b]" v, symmetric] by (simp add: filter_upt_eq)

lemma SpMM_prog_cell:
  assumes "Has rg i" and "k < dm"
  shows "on_cell (i * dm + k) (SpMM_prog D x dm rg) v =
     fold (\<lambda>j y. y + scaled D j (x ! (col D j * dm + k))) (row_range D i) v"
proof -
  have row: "on_cell (i * dm + k) (if rb_offset D ! i' = rb_offset D ! (i' + 1) then []
        else concat (map (\<lambda>j. map (\<lambda>k. (i' * dm + k, \<lambda>y. y + scaled D j (x ! (col D j * dm + k)))) [0..<dm]) (row_range D i'))) w =
      (if i' = i then fold (\<lambda>j y. y + scaled D j (x ! (col D j * dm + k))) (row_range D i) else id) w" for i' w
  proof (cases "rb_offset D ! i' = rb_offset D ! (i' + 1)")
    case True
    then show ?thesis by (auto simp: on_cell_def row_range_def)
  next
    case False
    show ?thesis using False by (simp add: on_cell_concat on_cell_block_add [OF assms(2)] fold_id)
  qed
  have "on_cell (i * dm + k) (SpMM_prog D x dm rg) v =
      fold (\<lambda>i'. if i' = i then fold (\<lambda>j y. y + scaled D j (x ! (col D j * dm + k))) (row_range D i) else id) [rg_begin rg..<rg_end rg] v"
    unfolding SpMM_prog_def on_cell_concat [of _ _ "[rg_begin rg..<rg_end rg]"] by (intro fold_cong refl ext) (rule row)
  then show ?thesis using assms(1) by (simp add: fold_pick Has_def)
qed

lemma SpMM_prog_in: "u \<in> set (SpMM_prog D x dm rg) \<Longrightarrow> Has rg (fst u div dm)"
  by (auto simp: SpMM_prog_def Has_def split: if_splits)

text \<open>The sums of \<open>D^T * x\<close> for row \<open>e\<close>, cell \<open>k\<close>, added to \<open>v\<close> in row order.\<close>

definition trans_sum ::
  "('i::len word, 'v::{plus,times,zero}) RowBlock \<Rightarrow> 'v list \<Rightarrow> nat \<Rightarrow> nat \<Rightarrow> nat \<Rightarrow> 'v \<Rightarrow> 'v" where
  "trans_sum D x dm e k = fold (\<lambda>(i, j) y. y + scaled D j (x ! (i * dm + k)))
     (concat (map (\<lambda>i. map (Pair i) (filter (\<lambda>j. col D j = e) (row_range D i))) [0..<rb_size D]))"

lemma SpMM_Trans_prog_cell:
  assumes "Has rg e" and "k < dm"
  shows "on_cell (e * dm + k) (SpMM_Trans_prog D x dm rg) v = trans_sum D x dm e k v"
proof -
  have step: "on_cell (e * dm + k) (concat (map (\<lambda>j. if Has rg (col D j)
          then map (\<lambda>k. (col D j * dm + k, \<lambda>y. y + scaled D j (x ! (i * dm + k)))) [0..<dm] else []) js)) w =
      fold (\<lambda>(i, j) y. y + scaled D j (x ! (i * dm + k))) (map (Pair i) (filter (\<lambda>j. col D j = e) js)) w" for i js w
    unfolding on_cell_concat fold_map fold_filter
    by (intro fold_cong refl) (use assms(1) in \<open>auto simp: on_cell_block_add [OF assms(2)] fun_eq_iff on_cell_Nil\<close>)
  show ?thesis
    unfolding SpMM_Trans_prog_def on_cell_concat [of _ _ "[0..<rb_size D]"] trans_sum_def fold_concat_map
    by (intro fold_cong refl) (simp add: step fun_eq_iff)
qed

lemma SpMM_Trans_prog_in: "u \<in> set (SpMM_Trans_prog D x dm rg) \<Longrightarrow> Has rg (fst u div dm)"
  by (auto simp: SpMM_Trans_prog_def split: if_splits)

text \<open>
  \<open>SpMM::Times\<close> computes every cell of the product, for any number of threads and any
  interleaving; rows without entries become zero.
\<close>

theorem SpMM_Times_correct:
  assumes "rounding rnd prec" "0 < nt" "nt \<le> 2 ^ prec" "rb_size D \<le> 2 ^ prec"
    and x: "x \<noteq> []" and "0 < rb_size D" and y: "length y = rb_size D * dm" and "0 < dm" "mat_ok D (length x div dm)"
    and "SpMM_schedule rnd nt D x dm sched"
  shows "\<exists>y'. SpMM_Times sched D x y = Ok y' \<and> length y' = length y \<and>
     (\<forall>i<rb_size D. \<forall>k<dm. y' ! (i * dm + k) = fold (\<lambda>j s. s + scaled D j (x ! (col D j * dm + k))) (row_range D i) 0)"
proof -
  let ?y0 = "replicate (rb_size D * dm) 0"
  have "run sched ?y0 ! (i * dm + k) = fold (\<lambda>j s. s + scaled D j (x ! (col D j * dm + k))) (row_range D i) 0"
    if ik: "i < rb_size D" "k < dm" for i k
  proof (rule region_cell [OF assms(1,4,2,3) assms(10) [unfolded SpMM_schedule_def], where cell = "\<lambda>c. c div dm" and k = "i * dm + k" and y = ?y0])
    have "i * dm + k < Suc i * dm" using ik by simp
    also have "\<dots> \<le> rb_size D * dm" using ik by (intro mult_le_mono1) simp
    finally show lt: "i * dm + k < length ?y0" by simp
    fix rg assume "Has rg ((i * dm + k) div dm)" "run sched ?y0 ! (i * dm + k) = on_cell (i * dm + k) (SpMM_prog D x dm rg) (?y0 ! (i * dm + k))"
    then show ?thesis using SpMM_prog_cell [of rg i k dm D x 0] ik lt by simp
  qed (use SpMM_prog_in ik in auto)
  moreover have "length y div rb_size D = dm" using y assms(6) by simp
  ultimately show ?thesis using x y assms(6,8,9) by (auto simp: SpMM_Times_def)
qed

text \<open>
  C23: \<open>SpMM::TransTimes\<close> computes every cell of \<open>D^T * x + p * z\<close>, for any number of threads and
  any interleaving, and whatever \<open>y\<close> held before.
\<close>

theorem SpMM_TransTimes_correct:
  assumes "rounding rnd prec" "0 < nt" "nt \<le> 2 ^ prec" "m \<le> 2 ^ prec"
    and "0 < rb_size D" "0 < dm" and x: "length x = rb_size D * dm" and y: "length y = m * dm" and "mat_ok D m"
    and "SpMM_Trans_schedule rnd nt D x dm (length y) sched"
  shows "\<exists>y'. SpMM_TransTimes sched D x p z y = Ok y' \<and> length y' = length y \<and>
     (\<forall>e<m. \<forall>k<dm. y' ! (e * dm + k) = trans_sum D x dm e k (trans_init p z (length y) ! (e * dm + k)))"
proof -
  let ?y0 = "trans_init p z (length y)"
  have ly: "length ?y0 = m * dm" "length y div dm = m" using y assms(6) by (simp_all add: trans_init_def)
  have "run sched ?y0 ! (e * dm + k) = trans_sum D x dm e k (?y0 ! (e * dm + k))"
    if ek: "e < m" "k < dm" for e k
  proof (rule region_cell [OF assms(1,4,2,3) assms(10) [unfolded SpMM_Trans_schedule_def ly], where cell = "\<lambda>c. c div dm" and k = "e * dm + k" and y = ?y0])
    have "e * dm + k < Suc e * dm" using ek by simp
    also have "\<dots> \<le> m * dm" using ek by (intro mult_le_mono1) simp
    finally show lt: "e * dm + k < length ?y0" using ly by simp
    fix rg assume "Has rg ((e * dm + k) div dm)" "run sched ?y0 ! (e * dm + k) = on_cell (e * dm + k) (SpMM_Trans_prog D x dm rg) (?y0 ! (e * dm + k))"
    then show ?thesis using SpMM_Trans_prog_cell [of rg e k dm D x] ek by simp
  qed (use SpMM_Trans_prog_in ek in auto)
  moreover have "length x div rb_size D = dm" "x \<noteq> []" using x assms(5,6) by auto
  ultimately show ?thesis using ly y assms(5,6,9) by (auto simp: SpMM_TransTimes_def)
qed

section \<open>The products as functions\<close>

text \<open>What the clients of the products rely on: by the theorems above, the result of any region.\<close>

definition mv :: "('i::len word, 'v::{plus,times,zero}) RowBlock \<Rightarrow> 'v list \<Rightarrow> 'v list \<Rightarrow> 'v list" where
  "mv D x y = map (\<lambda>i. if rb_offset D ! i = rb_offset D ! (i + 1) then y ! i else row_sum D x i) [0..<rb_size D]"

definition mtv :: "('i::len word, 'v::{plus,times,zero}) RowBlock \<Rightarrow> 'v list \<Rightarrow> nat \<Rightarrow> 'v list" where
  "mtv D x n = map (col_sum D x) [0..<n]"

definition mm :: "('i::len word, 'v::{plus,times,zero}) RowBlock \<Rightarrow> 'v list \<Rightarrow> nat \<Rightarrow> 'v list" where
  "mm D x dm = map (\<lambda>c. fold (\<lambda>j s. s + scaled D j (x ! (col D j * dm + c mod dm))) (row_range D (c div dm)) 0) [0..<rb_size D * dm]"

definition mtm :: "('i::len word, 'v::{plus,times,zero}) RowBlock \<Rightarrow> 'v list \<Rightarrow> nat \<Rightarrow> 'v list \<Rightarrow> 'v list" where
  "mtm D x dm y0 = map (\<lambda>c. trans_sum D x dm (c div dm) (c mod dm) (y0 ! c)) [0..<length y0]"

lemma length_products [simp]: "length (mv D x y) = rb_size D" "length (mtv D x n) = n" "length (mm D x dm) = rb_size D * dm"
  "length (mtm D x dm y0) = length y0"
  by (simp_all add: mv_def mtv_def mm_def mtm_def)

section \<open>A matrix with three rows on two threads\<close>

definition demo_mat :: "(32 word, int) RowBlock" where
  "demo_mat = \<lparr>rb_size = 3, rb_offset = [0, 2, 2, 3], rb_label = [1, 0, 1], rb_weight = None,
     rb_index = [0, 1, 1], rb_value = Some [5, 6, 7]\<rparr>"

lemma demo_mat_ok: "mat_ok demo_mat 2"
  by code_simp

lemma demo_mat_ok_len: "mat_ok demo_mat (Suc (Suc 0))"
  using demo_mat_ok by (simp only: numeral_2_eq_2)

lemma demo_mat_size: "rb_size demo_mat = Suc (Suc (Suc 0))"
  by (simp add: demo_mat_def)

text \<open>One thread after the other is an interleaving.\<close>

lemma interleaving_seq: "interleaving nt prog (concat (map (\<lambda>t. map (Pair t) (prog t)) [0..<nt]))"
proof -
  have "map snd (filter (\<lambda>p. fst p = t) (concat (map (\<lambda>t. map (Pair t) (prog t)) [0..<n]))) = (if t < n then prog t else [])" for t n
    by (induction n) (auto simp: filter_map comp_def less_Suc_eq)
  then show ?thesis by (auto simp: interleaving_def)
qed

theorem SpMV_Times_correct_witness:
  "\<exists>sched y'. Times_schedule (rnd_bits 53) 2 demo_mat [10, 100] sched \<and>
     SpMV_Times sched demo_mat [10, 100] [1, 2, 3] = Ok y' \<and> y' ! 0 = 650 \<and> y' ! 1 = 2"
proof -
  obtain sched where s: "Times_schedule (rnd_bits 53) 2 demo_mat [10, 100] sched"
    using interleaving_seq unfolding Times_schedule_def by blast
  have len: "length [10, 100 :: int] = 2" "length [1, 2, 3 :: int] = rb_size demo_mat" "rb_size demo_mat \<le> 2 ^ 53"
    by (simp_all add: demo_mat_def)
  obtain y' where y': "SpMV_Times sched demo_mat [10, 100] [1, 2, 3] = Ok y'"
     "\<forall>i<rb_size demo_mat. y' ! i = (if rb_offset demo_mat ! i = rb_offset demo_mat ! (i + 1) then [1, 2, 3] ! i else row_sum demo_mat [10, 100] i)"
    using SpMV_Times_correct [OF double.rounding_axioms _ _ len(3), of 2 "[10, 100]" "[1, 2, 3]" sched] demo_mat_ok_len s len(1,2) by auto
  have "rb_offset demo_mat ! 0 \<noteq> rb_offset demo_mat ! (0 + 1)" "rb_offset demo_mat ! 1 = rb_offset demo_mat ! (1 + 1)"
      "row_sum demo_mat [10, 100] 0 = 650"
    by (simp_all add: demo_mat_def row_sum_def row_range_def col_def scaled_def upt_rec numeral_2_eq_2)
  then have "y' ! 0 = 650" "y' ! 1 = 2" using y'(2) by (auto simp: demo_mat_def)
  with s y'(1) show ?thesis by blast
qed

theorem SpMV_TransTimes_correct_witness:
  "\<exists>sched. TransTimes_schedule (rnd_bits 53) 2 demo_mat [1, 2, 3] 2 sched \<and>
     SpMV_TransTimes sched demo_mat [1, 2, 3] [9, 9] = Ok [5, 27]"
proof -
  obtain sched where s: "TransTimes_schedule (rnd_bits 53) 2 demo_mat [1, 2, 3] 2 sched"
    using interleaving_seq unfolding TransTimes_schedule_def by blast
  have len: "length [1, 2, 3 :: int] = rb_size demo_mat" "length [9, 9 :: int] = 2" by (simp_all add: demo_mat_def)
  have "SpMV_TransTimes sched demo_mat [1, 2, 3] [9, 9] = Ok (map (col_sum demo_mat [1, 2, 3]) [0..<length [9, 9 :: int]])"
    by (rule SpMV_TransTimes_correct [OF double.rounding_axioms, of 2]) (simp_all only: len demo_mat_ok s, simp_all)
  moreover have "map (col_sum demo_mat [1, 2, 3]) [0..<2] = [5, 27]"
    by code_simp
  ultimately have "SpMV_TransTimes sched demo_mat [1, 2, 3] [9, 9] = Ok [5, 27]" by (simp only: len(2))
  with s show ?thesis by blast
qed

theorem SpMM_Times_correct_witness:
  "\<exists>sched y'. SpMM_schedule (rnd_bits 53) 2 demo_mat [1, 2, 3, 4] 2 sched \<and>
     SpMM_Times sched demo_mat [1, 2, 3, 4] [9, 9, 9, 9, 9, 9] = Ok y' \<and> y' ! (0 * 2 + 1) = 34"
proof -
  obtain sched where s: "SpMM_schedule (rnd_bits 53) 2 demo_mat [1, 2, 3, 4] 2 sched"
    using interleaving_seq unfolding SpMM_schedule_def by blast
  have sz: "rb_size demo_mat = 3" by (simp add: demo_mat_def)
  obtain y' where y': "SpMM_Times sched demo_mat [1, 2, 3, 4] [9, 9, 9, 9, 9, 9] = Ok y'"
     "\<forall>i<3. \<forall>k<2. y' ! (i * 2 + k) = fold (\<lambda>j s. s + scaled demo_mat j ([1, 2, 3, 4] ! (col demo_mat j * 2 + k))) (row_range demo_mat i) 0"
    using SpMM_Times_correct [OF double.rounding_axioms, of 2 demo_mat "[1, 2, 3, 4]" "[9, 9, 9, 9, 9, 9]" 2 sched] demo_mat_ok_len s sz by auto
  have "fold (\<lambda>j s. s + scaled demo_mat j ([1, 2, 3, 4] ! (col demo_mat j * 2 + 1))) (row_range demo_mat 0) 0 = 34"
    by (simp add: demo_mat_def row_range_def col_def scaled_def upt_rec numeral_2_eq_2)
  then have "y' ! (0 * 2 + 1) = 34" using y'(2) by force
  with s y'(1) show ?thesis by blast
qed

theorem SpMM_TransTimes_correct_witness:
  "\<exists>sched y'. SpMM_Trans_schedule (rnd_bits 53) 2 demo_mat [1, 2, 3, 4, 5, 6] 2 4 sched \<and>
     SpMM_TransTimes sched demo_mat [1, 2, 3, 4, 5, 6] 10 [1, 1, 1, 1] [9, 9, 9, 9] = Ok y' \<and> y' ! (1 * 2 + 0) = 51"
proof -
  obtain sched where s: "SpMM_Trans_schedule (rnd_bits 53) 2 demo_mat [1, 2, 3, 4, 5, 6] 2 4 sched"
    using interleaving_seq unfolding SpMM_Trans_schedule_def by blast
  have sz: "rb_size demo_mat = 3" by (simp add: demo_mat_def)
  have len: "length [9, 9, 9, 9 :: int] = 4" "length [9, 9, 9, 9 :: int] = 2 * 2" "length [1, 2, 3, 4, 5, 6 :: int] = rb_size demo_mat * 2"
    by (simp_all add: sz)
  have pre: "0 < (2 :: nat)" "(2 :: nat) \<le> 2 ^ 53" "0 < rb_size demo_mat" by (simp_all add: sz)
  note th = SpMM_TransTimes_correct [OF double.rounding_axioms pre(1,2,2,3,1) len(3,2) demo_mat_ok, unfolded len(1), OF s, of 10 "[1, 1, 1, 1]"]
  obtain y' where y': "SpMM_TransTimes sched demo_mat [1, 2, 3, 4, 5, 6] 10 [1, 1, 1, 1] [9, 9, 9, 9] = Ok y'"
     "\<forall>e<2. \<forall>k<2. y' ! (e * 2 + k) = trans_sum demo_mat [1, 2, 3, 4, 5, 6] 2 e k (trans_init 10 [1, 1, 1, 1] 4 ! (e * 2 + k))"
    using th by blast
  have "trans_sum demo_mat [1, 2, 3, 4, 5, 6] 2 1 0 (trans_init 10 [1, 1, 1, 1] 4 ! (1 * 2 + 0)) = 51"
    by code_simp
  moreover have "y' ! (1 * 2 + 0) = trans_sum demo_mat [1, 2, 3, 4, 5, 6] 2 1 0 (trans_init 10 [1, 1, 1, 1] 4 ! (1 * 2 + 0))"
    by (rule y'(2) [rule_format]) simp_all
  ultimately have "y' ! (1 * 2 + 0) = 51" by simp
  with s y'(1) show ?thesis by blast
qed

end
