(* ===== verification/Evaluation.thy ===== *)
theory Evaluation
  imports Sparse ParallelSort
begin

text \<open>
  Evaluation of binary classifiers (\<open>BinClassEval\<close>, \<open>src/base/binary_class_evaluation.h\<close>) and the losses of
  the linear solver (\<open>src/linear/loss.h\<close>). The cells are real numbers: rounding is not modelled here,
  and an OpenMP reduction is a sum. \<open>std::sort\<close> is an argument with the contract \<open>sorter\<close>.
\<close>

section \<open>Metrics\<close>

record Entry =
  en_label :: real
  en_predict :: real

text \<open>The loop of \<open>AUC\<close> over the sorted entries: area and number of positives so far.\<close>

fun auc_scan :: "Entry list \<Rightarrow> real \<Rightarrow> real \<Rightarrow> real \<times> real" where
  "auc_scan [] area cum_tp = (area, cum_tp)"
| "auc_scan (e # es) area cum_tp =
     (if en_label e > 0 then auc_scan es area (cum_tp + 1) else auc_scan es (area + cum_tp) cum_tp)"

definition entries :: "real list \<Rightarrow> real list \<Rightarrow> Entry list" where
  "entries label predict = map (\<lambda>(l, p). \<lparr>en_label = l, en_predict = p\<rparr>) (zip label predict)"

definition AUC :: "(Entry list \<Rightarrow> Entry list) \<Rightarrow> real list \<Rightarrow> real list \<Rightarrow> real" where
  "AUC std_sort label predict =
     (let n = real (length (entries label predict));
          (area, cum_tp) = auc_scan (std_sort (entries label predict)) 0 0
      in if cum_tp = 0 \<or> cum_tp = n then 1
         else let area' = area / (cum_tp * (n - cum_tp)) in if area' < 1 / 2 then 1 - area' else area')"

definition Accuracy :: "real \<Rightarrow> real list \<Rightarrow> real list \<Rightarrow> real" where
  "Accuracy threshold label predict =
     (let correct = sum_list (map (\<lambda>(l, p). if l > 0 \<and> p > threshold \<or> l \<le> 0 \<and> p \<le> threshold then 1 else 0) (zip label predict));
          acc = correct / real (length predict)
      in if acc > 1 / 2 then acc else 1 - acc)"

definition LogLoss :: "real list \<Rightarrow> real list \<Rightarrow> real" where
  "LogLoss label predict =
     - sum_list (map (\<lambda>(l, x). let y = (if l > 0 then 1 else 0); p0 = 1 / (1 + exp (- x)); p = (if p0 < 1 / 10 ^ 10 then 1 / 10 ^ 10 else p0)
         in y * ln p + (1 - y) * ln (1 - p)) (zip label predict))"

definition sgn_label :: "real \<Rightarrow> real" where
  "sgn_label l = (if l > 0 then 1 else -1)"

definition logit_term :: "real \<Rightarrow> real" where
  "logit_term score = (if score < -30 then - score else if score \<le> 30 then ln (1 + exp (- score)) else 0)"

definition LogitObjv :: "real list \<Rightarrow> real list \<Rightarrow> real" where
  "LogitObjv label predict = sum_list (map (\<lambda>(l, p). logit_term (sgn_label l * p)) (zip label predict))"

definition Copc :: "real list \<Rightarrow> real list \<Rightarrow> real" where
  "Copc label predict =
     sum_list (map (\<lambda>l. if l > 0 then 1 else 0) label) / sum_list (map (\<lambda>p. 1 / (1 + exp (- p))) predict)"

section \<open>AUC counts pairs\<close>

abbreviation pos :: "Entry \<Rightarrow> bool" where
  "pos e \<equiv> en_label e > 0"

text \<open>Pairs of a positive and a negative example of which the positive is ranked below, and those with the same prediction.\<close>

definition below :: "Entry \<Rightarrow> Entry \<Rightarrow> nat" where
  "below e e' = (if pos e \<and> \<not> pos e' \<and> en_predict e < en_predict e' then 1 else 0)"

definition tie :: "Entry \<Rightarrow> Entry \<Rightarrow> nat" where
  "tie e e' = (if pos e \<and> \<not> pos e' \<and> en_predict e = en_predict e' then 1 else 0)"

definition pairs :: "(Entry \<Rightarrow> Entry \<Rightarrow> nat) \<Rightarrow> Entry list \<Rightarrow> nat" where
  "pairs f es = sum_list (map (\<lambda>e. sum_list (map (f e) es)) es)"

definition misordered :: "Entry list \<Rightarrow> nat" where
  "misordered es = pairs below es"

definition tied :: "Entry list \<Rightarrow> nat" where
  "tied es = pairs tie es"

definition positives :: "Entry list \<Rightarrow> nat" where
  "positives es = length (filter pos es)"

fun inversions :: "Entry list \<Rightarrow> nat" where
  "inversions [] = 0"
| "inversions (e # es) = (if pos e then length (filter (\<lambda>e. \<not> pos e) es) else 0) + inversions es"

lemma auc_scan_count:
  "auc_scan es area tp = (area + tp * real (length (filter (\<lambda>e. \<not> pos e) es)) + real (inversions es), tp + real (positives es))"
  by (induction es arbitrary: area tp) (auto simp: positives_def algebra_simps)

lemma pairs_Cons: "pairs f (e # es) = f e e + sum_list (map (f e) es) + (sum_list (map (\<lambda>x. f x e) es) + pairs f es)"
  by (simp add: pairs_def sum_list_addf)

lemma pairs_mset:
  assumes "mset es = mset es'"
  shows "pairs f es = pairs f es'"
proof -
  have a: "sum_list (map (f e) es) = sum_list (map (f e) es')" for e
    using assms by (metis mset_map sum_mset_sum_list)
  show ?thesis unfolding pairs_def a using assms by (metis mset_map sum_mset_sum_list)
qed

lemma sum_below_tie:
  assumes "\<forall>x\<in>set es. en_predict e \<le> en_predict x"
  shows "sum_list (map (below e) es) + sum_list (map (tie e) es) = (if pos e then length (filter (\<lambda>e. \<not> pos e) es) else 0)"
    and "sum_list (map (\<lambda>x. below x e) es) = 0"
  using assms by (induction es) (auto simp: below_def tie_def)

text \<open>In a sorted list the pairs counted by the scan are the misordered ones and some of the ties.\<close>

lemma inversions_sorted:
  "sorted (map en_predict es) \<Longrightarrow> misordered es \<le> inversions es \<and> inversions es \<le> misordered es + tied es"
proof (induction es)
  case (Cons e es)
  have ge: "\<forall>x\<in>set es. en_predict e \<le> en_predict x" using Cons.prems by simp
  have "below e e = 0" by (simp add: below_def)
  then have "misordered (e # es) = sum_list (map (below e) es) + misordered es"
    using sum_below_tie(2) [OF ge] by (simp add: misordered_def pairs_Cons)
  moreover have "sum_list (map (tie e) es) + tied es \<le> tied (e # es)" by (simp add: tied_def pairs_Cons)
  ultimately show ?case using Cons sum_below_tie(1) [OF ge] by (auto split: if_splits)
qed (simp add: misordered_def pairs_def)

lemma positives_mset: "mset es = mset es' \<Longrightarrow> positives es = positives es'"
  unfolding positives_def by (metis mset_filter size_mset)

text \<open>
  C29: with both classes present, \<open>AUC\<close> is the fraction of pairs (positive, negative) ranked one way, or its complement,
  whichever is larger. Of the pairs with equal predictions some number \<open>k\<close> is counted too; \<open>k\<close> depends on the order in which \<open>std::sort\<close>
  leaves equal predictions (\<open>AUC_ties\<close>), and without such pairs the value depends on neither the order of the
  examples nor the sorting algorithm.
\<close>

theorem AUC_counts_pairs:
  assumes "sorter std_sort en_predict"
    and "positives (entries label predict) \<noteq> 0" "positives (entries label predict) \<noteq> length (entries label predict)"
  shows "\<exists>k \<le> tied (entries label predict). AUC std_sort label predict =
    (let es = entries label predict;
         a = real (misordered es + k) / real (positives es * (length es - positives es)) in max a (1 - a))"
proof -
  let ?es = "entries label predict" and ?s = "std_sort (entries label predict)"
  have m: "mset ?s = mset ?es" using assms(1) by (rule sorter.sorter_mset)
  have "misordered ?es \<le> inversions ?s \<and> inversions ?s \<le> misordered ?es + tied ?es"
    using inversions_sorted [OF sorter.sorter_sorted [OF assms(1), of ?es]] pairs_mset [OF m] by (simp add: misordered_def tied_def)
  then obtain k where k: "k \<le> tied ?es" "inversions ?s = misordered ?es + k" by (metis le_Suc_ex nat_add_left_cancel_le)
  have p: "positives ?s = positives ?es" using positives_mset [OF m] .
  have le: "positives ?es \<le> length ?es" by (simp add: positives_def)
  have scan: "auc_scan ?s 0 0 = (real (misordered ?es + k), real (positives ?es))"
    by (simp add: auc_scan_count k p)
  have "AUC std_sort label predict =
      (let a = real (misordered ?es + k) / real (positives ?es * (length ?es - positives ?es)) in max a (1 - a))"
    using assms(2,3) le by (simp add: AUC_def scan Let_def of_nat_diff max_def)
  then show ?thesis using k(1) by (auto simp: Let_def)
qed

theorem AUC_counts_pairs_witness:
  "AUC (sort_key en_predict) [1, 0, 1] [3, 2, 1] = 1 / 2"
proof -
  have e: "entries [1, 0, 1] [3, 2, 1] = [\<lparr>en_label = 1, en_predict = 3\<rparr>, \<lparr>en_label = 0, en_predict = 2\<rparr>, \<lparr>en_label = 1, en_predict = 1\<rparr>]"
    by (simp add: entries_def)
  have n: "tied (entries [1, 0, 1] [3, 2, 1]) = 0" "misordered (entries [1, 0, 1] [3, 2, 1]) = 1"
    by (simp_all add: e tied_def misordered_def pairs_def tie_def below_def)
  show ?thesis
    using AUC_counts_pairs [OF stable.sorter_axioms, of "[1, 0, 1]" "[3, 2, 1]"] n by (simp add: e positives_def Let_def)
qed

text \<open>Equal predictions of both classes: the order the sort leaves them in decides.\<close>

lemma AUC_ties:
  "\<exists>s1 s2. sorter s1 en_predict \<and> sorter s2 en_predict \<and> AUC s1 [1, 0, 1, 0] [5, 5, 5, 5] = 3 / 4 \<and> AUC s2 [1, 0, 1, 0] [5, 5, 5, 5] = 1"
proof (intro exI conjI)
  show "sorter (sort_key en_predict) en_predict" by (rule stable.sorter_axioms)
  show "sorter (\<lambda>xs. sort_key en_predict (sort_key en_label xs)) en_predict" by unfold_locales auto
  show "AUC (sort_key en_predict) [1, 0, 1, 0] [5, 5, 5, 5] = 3 / 4"
    "AUC (\<lambda>xs. sort_key en_predict (sort_key en_label xs)) [1, 0, 1, 0] [5, 5, 5, 5] = 1"
    by (simp_all add: AUC_def entries_def Let_def)
qed

section \<open>The clipped logistic objective\<close>

lemma logit_term_error: "\<bar>logit_term s - ln (1 + exp (- s))\<bar> \<le> exp (- 30)"
proof -
  have small: "0 \<le> ln (1 + exp (- x)) \<and> ln (1 + exp (- x)) \<le> exp (- 30)" if "30 \<le> x" for x :: real
  proof -
    have "ln (1 + exp (- x)) \<le> exp (- x)" by (rule ln_add_one_self_le_self) simp
    also have "\<dots> \<le> exp (- 30)" using that by simp
    finally show ?thesis by simp
  qed
  consider "s < -30" | "-30 \<le> s" "s \<le> 30" | "30 < s" by linarith
  then show ?thesis
  proof cases
    case 1
    have "ln (1 + exp (- s)) = - s + ln (1 + exp s)"
    proof -
      have "1 + exp (- s) = exp (- s) * (1 + exp s)" by (simp add: algebra_simps flip: exp_add)
      moreover have "0 < 1 + exp s" by (simp add: add_pos_pos)
      ultimately show ?thesis using ln_mult_pos [of "exp (- s)" "1 + exp s"] by simp
    qed
    moreover have "0 \<le> ln (1 + exp s)" "ln (1 + exp s) \<le> exp (- 30)" using small [of "- s"] 1 by simp_all
    ultimately show ?thesis using 1 by (simp add: logit_term_def)
  next
    case 2
    then show ?thesis by (simp add: logit_term_def)
  next
    case 3
    then show ?thesis using small [of s] by (simp add: logit_term_def)
  qed
qed

text \<open>
  The clipping of \<open>LogitObjv\<close> at scores beyond 30 changes the logistic objective by at most
  \<open>exp (- 30)\<close> per example.
\<close>

theorem LogitObjv_error:
  "\<bar>LogitObjv label predict - sum_list (map (\<lambda>(l, p). ln (1 + exp (- (sgn_label l * p)))) (zip label predict))\<bar>
     \<le> real (length (zip label predict)) * exp (- 30)"
proof -
  have "\<bar>sum_list (map (\<lambda>(l, p). logit_term (sgn_label l * p)) zs) - sum_list (map (\<lambda>(l, p). ln (1 + exp (- (sgn_label l * p)))) zs)\<bar>
      \<le> real (length zs) * exp (- 30)" for zs :: "(real \<times> real) list"
  proof (induction zs)
    case (Cons z zs)
    obtain l p where z: "z = (l, p)" by fastforce
    show ?case using Cons logit_term_error [of "sgn_label l * p"] unfolding z by (simp add: algebra_simps)
  qed simp
  then show ?thesis unfolding LogitObjv_def .
qed

section \<open>Linear losses\<close>

text \<open>\<open>ScalarLoss\<close>: \<open>Init\<close> computes the scores; the object keeps the data and the scores.\<close>

record ScalarLoss =
  sl_init :: bool
  sl_data :: "(32 word, real) RowBlock"
  sl_Xw :: "real list"

definition new_ScalarLoss :: "(32 word, real) RowBlock \<Rightarrow> ScalarLoss" where
  "new_ScalarLoss d = \<lparr>sl_init = False, sl_data = d, sl_Xw = []\<rparr>"

definition ScalarLoss_Init :: "(32 word, real) RowBlock \<Rightarrow> real list \<Rightarrow> ScalarLoss \<Rightarrow> ScalarLoss" where
  "ScalarLoss_Init data w s =
     s\<lparr>sl_data := data,
       sl_Xw := mv data w (take (rb_size data) (sl_Xw s) @ replicate (rb_size data - length (sl_Xw s)) 0), sl_init := True\<rparr>"

text \<open>The fields of \<open>Progress\<close> an evaluation sets.\<close>

record LProgress =
  pr_objv :: real
  pr_acc :: real
  pr_auc :: real
  pr_count :: real
  pr_new_ex :: real

definition BinClassLoss_Evaluate :: "(Entry list \<Rightarrow> Entry list) \<Rightarrow> ScalarLoss \<Rightarrow> LProgress \<Rightarrow> LProgress res" where
  "BinClassLoss_Evaluate std_sort s prog =
     check (sl_init s) ''init_''
      (Ok (prog\<lparr>pr_new_ex := real (rb_size (sl_data s)), pr_count := 1,
         pr_auc := AUC std_sort (take (length (sl_Xw s)) (rb_label (sl_data s))) (sl_Xw s),
         pr_acc := Accuracy 0 (take (length (sl_Xw s)) (rb_label (sl_data s))) (sl_Xw s)\<rparr>))"

definition LogitLoss_Evaluate :: "(Entry list \<Rightarrow> Entry list) \<Rightarrow> ScalarLoss \<Rightarrow> LProgress \<Rightarrow> LProgress res" where
  "LogitLoss_Evaluate std_sort s prog =
     rbind (BinClassLoss_Evaluate std_sort s prog) (\<lambda>prog.
       Ok (prog\<lparr>pr_objv := LogitObjv (take (length (sl_Xw s)) (rb_label (sl_data s))) (sl_Xw s)\<rparr>))"

definition logit_dual :: "real \<Rightarrow> real \<Rightarrow> real" where
  "logit_dual l p = - sgn_label l / (1 + exp (sgn_label l * p))"

text \<open>\<open>grad\<close> has the length of the model.\<close>

definition LogitLoss_CalcGrad :: "ScalarLoss \<Rightarrow> real list \<Rightarrow> real list res" where
  "LogitLoss_CalcGrad s grad =
     check (sl_init s) ''init_''
      (let dual = map (\<lambda>i. logit_dual (rb_label (sl_data s) ! i) (sl_Xw s ! i)) [0..<rb_size (sl_data s)]
       in Ok (mtv (sl_data s) dual (length grad)))"

definition SquareHingeLoss_Evaluate :: "(Entry list \<Rightarrow> Entry list) \<Rightarrow> ScalarLoss \<Rightarrow> LProgress \<Rightarrow> LProgress res" where
  "SquareHingeLoss_Evaluate std_sort s prog =
     rbind (BinClassLoss_Evaluate std_sort s prog) (\<lambda>prog.
       Ok (prog\<lparr>pr_objv := sum_list (map (\<lambda>i. (max (1 - sgn_label (rb_label (sl_data s) ! i) * sl_Xw s ! i) 0)\<^sup>2)
          [0..<rb_size (sl_data s)])\<rparr>))"

definition SquareHingeLoss_CalcGrad :: "ScalarLoss \<Rightarrow> real list \<Rightarrow> real list res" where
  "SquareHingeLoss_CalcGrad s grad =
     check (sl_init s) ''init_''
      (let dual = map (\<lambda>i. let y = sgn_label (rb_label (sl_data s) ! i) in y * (if y * sl_Xw s ! i > 1 then 1 else 0)) [0..<rb_size (sl_data s)]
       in Ok (map (\<lambda>g. g * (- 2)) (mtv (sl_data s) dual (length grad))))"

definition ScalarLoss_Predict :: "bool \<Rightarrow> ScalarLoss \<Rightarrow> real list res" where
  "ScalarLoss_Predict prob_out s =
     check (sl_init s) ''init_'' (Ok (if prob_out then map (\<lambda>p. 1 / (1 + exp (- p))) (sl_Xw s) else sl_Xw s))"

datatype LossType = SQUARE | LOGIT | SQUARE_HINGE

text \<open>\<open>CreateLoss\<close> and the virtual calls it resolves: the gradient of the chosen class.\<close>

definition CreateLoss_CalcGrad :: "LossType \<Rightarrow> (ScalarLoss \<Rightarrow> real list \<Rightarrow> real list res) res" where
  "CreateLoss_CalcGrad t = (case t of LOGIT \<Rightarrow> Ok LogitLoss_CalcGrad | SQUARE_HINGE \<Rightarrow> Ok SquareHingeLoss_CalcGrad
     | _ \<Rightarrow> Err (Fatal ''unknown type: ''))"

section \<open>Gradients\<close>

lemma DERIV_sum_list:
  "(\<And>x. x \<in> set xs \<Longrightarrow> (f x has_real_derivative f' x) F) \<Longrightarrow>
   ((\<lambda>t. sum_list (map (\<lambda>x. f x t) xs)) has_real_derivative sum_list (map f' xs)) F"
  by (induction xs) (auto intro!: derivative_eq_intros)

text \<open>The chain rule through the logistic loss.\<close>

lemma DERIV_logit:
  assumes "(u has_real_derivative u') (at t)"
  shows "((\<lambda>t. ln (1 + exp (- (sgn_label l * u t)))) has_real_derivative logit_dual l (u t) * u') (at t)"
proof -
  define y where "y = sgn_label l"
  have pos: "0 < 1 + exp (- (y * u t))" by (simp add: add_pos_pos)
  have "((\<lambda>t. ln (1 + exp (- (y * u t)))) has_real_derivative (exp (- (y * u t)) * (- (y * u'))) / (1 + exp (- (y * u t)))) (at t)"
    using pos assms by (auto intro!: derivative_eq_intros simp: divide_inverse)
  moreover have "(exp (- (y * u t)) * (- (y * u'))) / (1 + exp (- (y * u t))) = logit_dual l (u t) * u'"
  proof -
    have "exp (- (y * u t)) * (1 + exp (y * u t)) = 1 + exp (- (y * u t))" by (simp add: algebra_simps flip: exp_add)
    moreover have "0 < 1 + exp (y * u t)" by (simp add: add_pos_pos)
    ultimately have "exp (- (y * u t)) / (1 + exp (- (y * u t))) = 1 / (1 + exp (y * u t))"
      using pos by (simp add: frac_eq_eq)
    then have "exp (- (y * u t)) / (1 + exp (- (y * u t))) * (- (y * u')) = 1 / (1 + exp (y * u t)) * (- (y * u'))" by (rule arg_cong)
    then show ?thesis by (simp add: logit_dual_def y_def)
  qed
  ultimately show ?thesis by (simp only: y_def)
qed

lemma fold_plus: "fold (\<lambda>j s. s + f j) js (v :: 'a::comm_monoid_add) = v + sum_list (map f js)"
  by (induction js arbitrary: v) (simp_all add: algebra_simps)

text \<open>The value of an entry; blocks without values are all ones.\<close>

definition ent :: "('i, real) RowBlock \<Rightarrow> nat \<Rightarrow> real" where
  "ent D j = (case rb_value D of Some val \<Rightarrow> val ! j | None \<Rightarrow> 1)"

lemma scaled_real: "scaled D j v = v * ent D j"
  by (simp add: scaled_def ent_def split: option.splits)

lemma row_sum_real: "row_sum D x i = sum_list (map (\<lambda>j. x ! col D j * ent D j) (row_range D i))"
  by (simp add: row_sum_def fold_plus scaled_real)

lemma sum_list_filter: "sum_list (map f (filter P xs)) = sum_list (map (\<lambda>x. if P x then f x else (0 :: real)) xs)"
  by (induction xs) auto

lemma sum_list_concat_map: "sum_list (map f (concat (map g xs))) = sum_list (map (\<lambda>x. sum_list (map f (g x))) xs)"
  by (induction xs) simp_all

text \<open>The gradient part of column \<open>c\<close> in row \<open>i\<close>: how much the score grows with the weight of \<open>c\<close>.\<close>

definition slope :: "('i::len word, real) RowBlock \<Rightarrow> nat \<Rightarrow> nat \<Rightarrow> real" where
  "slope D c i = sum_list (map (\<lambda>j. if col D j = c then ent D j else 0) (row_range D i))"

lemma slope_scaled:
  "v * sum_list (map (\<lambda>j. if P j then f j else 0) js) = sum_list (map (\<lambda>j. if P j then v * f j else (0 :: real)) js)"
  by (induction js) (auto simp: algebra_simps)

lemma col_sum_real: "col_sum D p c = sum_list (map (\<lambda>i. p ! i * slope D c i) [0..<rb_size D])"
proof -
  have "col_sum D p c = sum_list (map (\<lambda>(i, j). p ! i * ent D j)
      (concat (map (\<lambda>i. map (Pair i) (filter (\<lambda>j. col D j = c) (row_range D i))) [0..<rb_size D])))"
  proof -
    have "(\<lambda>(i, j) y_k. y_k + scaled D j (p ! i)) = (\<lambda>ij y_k. y_k + (case ij of (i, j) \<Rightarrow> p ! i * ent D j))"
      by (auto simp: fun_eq_iff scaled_real)
    then show ?thesis by (simp add: col_sum_def fold_plus)
  qed
  also have "\<dots> = sum_list (map (\<lambda>i. p ! i * slope D c i) [0..<rb_size D])"
    unfolding sum_list_concat_map by (simp add: comp_def sum_list_filter slope_def slope_scaled)
  finally show ?thesis .
qed

lemma DERIV_row_sum:
  assumes "c < length w"
  shows "((\<lambda>t. row_sum D (w[c := t]) i) has_real_derivative slope D c i) (at t0)"
proof -
  have "((\<lambda>t. w[c := t] ! col D j * ent D j) has_real_derivative (if col D j = c then ent D j else 0)) (at t0)" for j
  proof (cases "col D j = c")
    case True
    then show ?thesis using assms by (auto intro!: derivative_eq_intros)
  qed simp
  then show ?thesis unfolding row_sum_real slope_def by (intro DERIV_sum_list) simp
qed

lemma mv_zero:
  fixes D :: "('i::len word, real) RowBlock"
  shows "mv D x (replicate (rb_size D) 0) = map (row_sum D x) [0..<rb_size D]"
  by (auto simp: mv_def row_sum_real row_range_def)

lemma ScalarLoss_Init_fresh:
  "ScalarLoss_Init D w (new_ScalarLoss d0) = \<lparr>sl_init = True, sl_data = D, sl_Xw = map (row_sum D w) [0..<rb_size D]\<rparr>"
  by (simp add: ScalarLoss_Init_def new_ScalarLoss_def mv_zero)

text \<open>
  The gradient of the logistic loss is the derivative of the logistic objective: cell \<open>c\<close> of what
  \<open>LogitLoss::CalcGrad\<close> returns is the derivative of \<open>\<Sum> log (1 + exp (- y <x, w>))\<close> in the weight \<open>c\<close>.
\<close>

theorem LogitLoss_gradient:
  assumes "mat_ok D (length w)" and "c < length w" and "length grad = length w"
  shows "\<exists>g. LogitLoss_CalcGrad (ScalarLoss_Init D w (new_ScalarLoss d0)) grad = Ok g \<and> length g = length w \<and>
     ((\<lambda>t. \<Sum>i<rb_size D. ln (1 + exp (- (sgn_label (rb_label D ! i) * row_sum D (w[c := t]) i))))
        has_real_derivative g ! c) (at (w ! c))"
proof -
  let ?dual = "map (\<lambda>i. logit_dual (rb_label D ! i) (row_sum D w i)) [0..<rb_size D]"
  have g: "LogitLoss_CalcGrad (ScalarLoss_Init D w (new_ScalarLoss d0)) grad = Ok (mtv D ?dual (length w))"
  proof -
    have e: "map (\<lambda>i. logit_dual (rb_label D ! i) (map (row_sum D w) [0..<rb_size D] ! i)) [0..<rb_size D] = ?dual"
      by (intro map_cong) simp_all
    show ?thesis using assms(3) by (simp add: ScalarLoss_Init_fresh LogitLoss_CalcGrad_def Let_def) (simp only: e)
  qed
  have gc: "mtv D ?dual (length w) ! c = sum_list (map (\<lambda>i. logit_dual (rb_label D ! i) (row_sum D w i) * slope D c i) [0..<rb_size D])"
    using assms(2) by (simp add: mtv_def col_sum_real) (intro arg_cong [where f = sum_list] map_cong, simp_all)
  have "((\<lambda>t. sum_list (map (\<lambda>i. ln (1 + exp (- (sgn_label (rb_label D ! i) * row_sum D (w[c := t]) i)))) [0..<rb_size D]))
      has_real_derivative sum_list (map (\<lambda>i. logit_dual (rb_label D ! i) (row_sum D (w[c := w ! c]) i) * slope D c i) [0..<rb_size D])) (at (w ! c))"
    by (intro DERIV_sum_list DERIV_logit DERIV_row_sum assms(2))
  then show ?thesis using g gc by (simp add: sum_list_map_upt atLeast0LessThan)
qed

definition demo_lin :: "(32 word, real) RowBlock" where
  "demo_lin = \<lparr>rb_size = 1, rb_offset = [0, 1], rb_label = [1], rb_weight = None, rb_index = [0], rb_value = Some [1]\<rparr>"

lemma demo_lin_ok: "mat_ok demo_lin 1"
  by (simp add: mat_ok_def demo_lin_def row_range_def col_def)

lemma demo_lin_range [simp]: "row_range demo_lin 0 = [0]" "rb_size demo_lin = 1" "rb_label demo_lin ! 0 = 1" "col demo_lin 0 = 0" "ent demo_lin 0 = 1"
  by (simp_all add: demo_lin_def row_range_def col_def ent_def)

theorem LogitLoss_gradient_witness:
  "\<exists>g. LogitLoss_CalcGrad (ScalarLoss_Init demo_lin [0] (new_ScalarLoss demo_lin)) [7] = Ok g \<and>
     ((\<lambda>t. \<Sum>i<1. ln (1 + exp (- (sgn_label (rb_label demo_lin ! i) * row_sum demo_lin ([0][0 := t]) i))))
        has_real_derivative g ! 0) (at 0)"
  using LogitLoss_gradient [of demo_lin "[0]" 0 "[7]" demo_lin] demo_lin_ok by auto

text \<open>
  \<open>SquareHingeLoss::CalcGrad\<close> is not the gradient of its objective: for one example with label 1,
  feature value 1 and weight 0 it returns 0, while the objective \<open>max (0, 1 - w)\<^sup>2\<close> has slope -2 there.
\<close>

theorem SquareHingeLoss_gradient_wrong:
  "SquareHingeLoss_CalcGrad (ScalarLoss_Init demo_lin [0] (new_ScalarLoss demo_lin)) [0] = Ok [0] \<and>
   ((\<lambda>t. \<Sum>i<1. (max (1 - sgn_label (rb_label demo_lin ! i) * row_sum demo_lin ([0][0 := t]) i) 0)\<^sup>2)
      has_real_derivative -2) (at 0)"
proof
  have dual: "mtv demo_lin [0] (Suc 0) = [0 :: real]"
    by (simp add: mtv_def col_sum_real slope_def upt_rec)
  show "SquareHingeLoss_CalcGrad (ScalarLoss_Init demo_lin [0] (new_ScalarLoss demo_lin)) [0] = Ok [0]"
    by (simp add: ScalarLoss_Init_fresh SquareHingeLoss_CalcGrad_def row_sum_real sgn_label_def Let_def upt_rec dual)
  have "((\<lambda>t :: real. (1 - t)\<^sup>2) has_real_derivative -2) (at 0)"
    by (auto intro!: derivative_eq_intros)
  then have "((\<lambda>t :: real. (max (1 - t) 0)\<^sup>2) has_real_derivative -2) (at 0)"
    by (rule has_field_derivative_transform_within [of _ _ _ _ 1]) (auto simp: dist_real_def max_def)
  then show "((\<lambda>t. \<Sum>i<1. (max (1 - sgn_label (rb_label demo_lin ! i) * row_sum demo_lin ([0][0 := t]) i) 0)\<^sup>2)
      has_real_derivative -2) (at 0)" by (simp add: row_sum_real sgn_label_def)
qed

end
