(* ===== verification/Factorization.thy ===== *)
theory Factorization
  imports Evaluation
begin

text \<open>
  The factorization machine loss of DiFacto (\<open>src/difacto/loss.h\<close>): the model comes as one vector with
  the sizes of its pieces (0: no weight, 1: a weight, \<open>dim + 1\<close>: a weight and an embedding);
  \<open>Data::Load\<close> cuts it up and picks the columns with embeddings, \<open>Evaluate\<close> computes the scores,
  \<open>CalcGrad\<close> the gradient, \<open>Data::Save\<close> puts it back in the layout of the model. Cells are real
  numbers; the sparse products are those of \<open>Sparse\<close>, whose results do not depend on the threads.
  Positions are natural numbers below \<open>2 ^ 32 - 1\<close>, the mark for a missing weight.
\<close>

section \<open>Cutting up the model\<close>

type_synonym mat = "(32 word, real) RowBlock"

definition no_pos :: nat where
  "no_pos = 4294967295"

record Data =
  da_dim :: nat
  da_X :: mat
  da_XX :: mat
  da_weight :: "real list"
  da_pos :: "nat list"
  da_XV :: "real list"

definition no_block :: mat where
  "no_block = \<lparr>rb_size = 0, rb_offset = [], rb_label = [], rb_weight = None, rb_index = [], rb_value = None\<rparr>"

definition new_Data :: Data where
  "new_Data = \<lparr>da_dim = 0, da_X = no_block, da_XX = no_block, da_weight = [], da_pos = [], da_XV = []\<rparr>"

text \<open>The loop for \<open>w\<close> from position \<open>p\<close>: positions, weights, and the final position.\<close>

fun load_w :: "real list \<Rightarrow> nat list \<Rightarrow> nat \<Rightarrow> nat list \<times> real list \<times> nat" where
  "load_w model [] p = ([], [], p)"
| "load_w model (s # ms) p =
     (let (ps, ws, q) = load_w model ms (p + s)
      in if s = 0 then (no_pos # ps, 0 # ws, q) else (p # ps, model ! p # ws, q))"

text \<open>The loop for \<open>V\<close>: positions of the embeddings, the column map (0: none), and the final position.\<close>

fun load_V :: "nat \<Rightarrow> nat list \<Rightarrow> nat \<Rightarrow> nat \<Rightarrow> nat list \<times> nat list \<times> nat" where
  "load_V d [] k p = ([], [], p)"
| "load_V d (s # ms) k p =
     (if s = d + 1 then (let (ps, cm, q) = load_V d ms (k + 1) (p + s) in ((p + 1) # ps, (k + 1) # cm, q))
      else (let (ps, cm, q) = load_V d ms k (p + s) in (ps, 0 # cm, q)))"

text \<open>The picked entries of a row, and the loop that builds offsets, indices and values.\<close>

definition pick :: "mat \<Rightarrow> nat list \<Rightarrow> nat \<Rightarrow> nat list" where
  "pick data cm i = filter (\<lambda>j. cm ! col data j > 0) (row_range data i)"

fun build_X :: "mat \<Rightarrow> nat list \<Rightarrow> nat list \<Rightarrow> nat list \<times> 32 word list \<times> real list \<Rightarrow> nat list \<times> 32 word list \<times> real list" where
  "build_X data cm [] (os, idx, va) = (os, idx, va)"
| "build_X data cm (i # is) (os, idx, va) =
     (let js = pick data cm i;
          idx' = idx @ map (\<lambda>j. word_of_nat (cm ! col data j - 1)) js;
          va' = (case rb_value data of Some v \<Rightarrow> va @ map ((!) v) js | None \<Rightarrow> va)
      in build_X data cm is (os @ [length idx'], idx', va'))"

definition square_values :: "mat \<Rightarrow> mat" where
  "square_values X = (case rb_value X of
      Some v \<Rightarrow> X\<lparr>rb_value := begin_ptr (map (\<lambda>i. v ! i * v ! i) [0..<rb_offset X ! rb_size X])\<rparr>
    | None \<Rightarrow> X)"

definition Data_Load :: "nat \<Rightarrow> mat \<Rightarrow> real list \<Rightarrow> nat list \<Rightarrow> Data res" where
  "Data_Load d data model ms =
     (if d = 0 then
        (let (ps, ws, p) = load_w model ms 0 in
         check (p = length model) ''p == model.size()''
          (if ws = [] then Ok (new_Data\<lparr>da_dim := d, da_pos := ps, da_weight := ws\<rparr>)
           else Ok (new_Data\<lparr>da_dim := d, da_pos := ps, da_weight := ws, da_X := data, da_XX := square_values data\<rparr>)))
      else
        (let (ps, cm, p) = load_V d ms 0 0 in
         check (p = length model) ''p == model.size()''
          (let ws = concat (map (\<lambda>q. take d (drop q model)) ps) in
           if ws = [] then Ok (new_Data\<lparr>da_dim := d, da_pos := ps, da_weight := ws\<rparr>)
           else let (os, idx, va) = build_X data cm [0..<rb_size data] ([0], [], []);
                    X = \<lparr>rb_size = rb_size data, rb_offset = os, rb_label = [], rb_weight = None,
                         rb_index = idx, rb_value = begin_ptr va\<rparr>
                in Ok (new_Data\<lparr>da_dim := d, da_pos := ps, da_weight := ws, da_X := X, da_XX := square_values X\<rparr>))))"

text \<open>\<open>Save\<close>: \<open>memcpy\<close> of each piece to its position.\<close>

fun save_pieces :: "nat \<Rightarrow> nat list \<Rightarrow> real list \<Rightarrow> real list \<Rightarrow> real list" where
  "save_pieces d [] ws grad = grad"
| "save_pieces d (p # ps) ws grad =
     save_pieces d ps (drop d ws) (if p = no_pos then grad else take p grad @ take d ws @ drop (p + d) grad)"

definition Data_Save :: "Data \<Rightarrow> real list \<Rightarrow> real list res" where
  "Data_Save D grad =
     (if da_weight D = [] then Ok grad
      else let d = (if da_dim D = 0 then 1 else da_dim D) in
        check (length (da_weight D) = length (da_pos D) * d) ''weight.size() == pos.size()*d''
          (Ok (save_pieces d (da_pos D) (da_weight D) grad)))"

section \<open>The loss\<close>

record Loss =
  lo_w :: Data
  lo_V :: Data
  lo_py :: "real list"
  lo_clip :: real
  lo_dropout :: real
  lo_norm :: bool

text \<open>The fields of \<open>Config\<close> the loss uses: the first embedding, if there is one.\<close>

record EmbConf =
  ec_dim :: nat
  ec_dropout :: real
  ec_clip :: real
  ec_norm :: bool

definition new_Loss :: "mat \<Rightarrow> real list \<Rightarrow> nat list \<Rightarrow> EmbConf option \<Rightarrow> Loss res" where
  "new_Loss data model ms conf =
     rbind (Data_Load 0 data model ms) (\<lambda>w.
     let l = \<lparr>lo_w = w, lo_V = new_Data, lo_py = [], lo_clip = 0, lo_dropout = 0, lo_norm = False\<rparr> in
     case conf of None \<Rightarrow> Ok l
     | Some cf \<Rightarrow>
        if ec_dim cf = 0 then Ok l
        else rbind (Data_Load (ec_dim cf) data model ms) (\<lambda>V.
          Ok (l\<lparr>lo_V := V, lo_clip := ec_clip cf, lo_dropout := ec_dropout cf, lo_norm := ec_norm cf\<rparr>)))"

text \<open>What \<open>Evaluate\<close> reports.\<close>

record FProgress =
  fp_objv :: real
  fp_objv_w :: real
  fp_auc :: real
  fp_new_ex :: real
  fp_count :: real

definition Loss_Evaluate :: "(Entry list \<Rightarrow> Entry list) \<Rightarrow> Loss \<Rightarrow> (Loss \<times> FProgress) res" where
  "Loss_Evaluate std_sort l =
     (let X = da_X (lo_w l); n = rb_size X; lab = take n (rb_label X);
          py = mv X (da_weight (lo_w l)) (take n (lo_py l) @ replicate (n - length (lo_py l)) 0);
          objv_w = LogitObjv lab py in
      if da_weight (lo_V l) \<noteq> [] then
        let V = lo_V l; dm = da_dim V; vv = map (\<lambda>v. v * v) (da_weight V) in
        check (length vv = length (da_pos V) * dm) ''vv.size() == V.pos.size() * V.dim''
         (let xxvv = mm (da_XX V) vv dm; XV = mm (da_X V) (da_weight V) dm;
              py' = map (\<lambda>i. py ! i + 1 / 2 * sum_list (map (\<lambda>j. XV ! (i * dm + j) * XV ! (i * dm + j) - xxvv ! (i * dm + j)) [0..<dm])) [0..<length py]
          in Ok (l\<lparr>lo_py := py', lo_V := V\<lparr>da_XV := XV\<rparr>\<rparr>,
              \<lparr>fp_objv = LogitObjv lab py', fp_objv_w = objv_w, fp_auc = AUC std_sort lab py', fp_new_ex = real n, fp_count = 1\<rparr>))
      else Ok (l\<lparr>lo_py := py\<rparr>,
              \<lparr>fp_objv = objv_w, fp_objv_w = objv_w, fp_auc = AUC std_sort lab py, fp_new_ex = real n, fp_count = 1\<rparr>))"

definition Normalize :: "real list \<Rightarrow> real list" where
  "Normalize grad = (let norm = sum_list (map (\<lambda>g. g * g) grad) in
     if norm < 1 / 10 ^ 10 then grad else map (\<lambda>g. g / sqrt norm) grad)"

definition clip_to :: "real \<Rightarrow> real \<Rightarrow> real" where
  "clip_to gc g = (if g > gc then gc else if g < - gc then - gc else g)"

text \<open>\<open>rnd i\<close> is the value of \<open>rand() / RAND_MAX\<close> drawn for cell \<open>i\<close>.\<close>

definition preprocess :: "(nat \<Rightarrow> real) \<Rightarrow> Loss \<Rightarrow> real list \<Rightarrow> real list" where
  "preprocess rnd l g0 =
     (let g1 = (if lo_clip l > 0 then map (clip_to (lo_clip l)) g0 else g0);
          g2 = (if lo_dropout l > 0 then map (\<lambda>i. if rnd i > 1 - lo_dropout l then 0 else g1 ! i) [0..<length g1] else g1)
      in if lo_norm l then Normalize g2 else g2)"

definition Loss_CalcGrad :: "(nat \<Rightarrow> real) \<Rightarrow> Loss \<Rightarrow> real list \<Rightarrow> (Loss \<times> real list) res" where
  "Loss_CalcGrad rnd l grad =
     (let X = da_X (lo_w l) in
      check (length (lo_py l) = rb_size X) ''call *evaluate* first''
       (let py = map (\<lambda>i. logit_dual (rb_label X ! i) (lo_py l ! i)) [0..<length (lo_py l)];
            w = (lo_w l)\<lparr>da_weight := mtv X py (length (da_weight (lo_w l)))\<rparr> in
        rbind (Data_Save w grad) (\<lambda>grad1.
        if da_weight (lo_V l) \<noteq> [] then
          let V = lo_V l; dm = da_dim V; m = length (da_pos V);
              xxp = mtm (da_XX V) py 1 (replicate m 0) in
          check (length (da_weight V) = dm * m) ''V.weight.size() == dim * m''
           (check (length (da_XV V) = length py * dm) ''V.XV.size() == n * dim''
             (let v1 = map (\<lambda>c. da_weight V ! c * (- xxp ! (c div dm))) [0..<length (da_weight V)];
                  xv = map (\<lambda>c. da_XV V ! c * py ! (c div dm)) [0..<length (da_XV V)];
                  v2 = mtm (da_X V) xv dm (trans_init 1 v1 (length v1));
                  V' = V\<lparr>da_weight := preprocess rnd l v2, da_XV := xv\<rparr> in
              rbind (Data_Save V' grad1) (\<lambda>grad2. Ok (l\<lparr>lo_w := w, lo_V := V', lo_py := py\<rparr>, grad2))))
        else rbind (Data_Save (lo_V l) grad1) (\<lambda>grad2. Ok (l\<lparr>lo_w := w, lo_py := py\<rparr>, grad2)))))"

definition Loss_Predict :: "bool \<Rightarrow> Loss \<Rightarrow> real list" where
  "Loss_Predict prob_out l =
     (let X = da_X (lo_w l);
          py = (if lo_py l = [] then mv X (da_weight (lo_w l)) (replicate (rb_size X) 0) else lo_py l)
      in if prob_out then map (\<lambda>p. 1 / (1 + exp (- p))) py else py)"

section \<open>Positions\<close>

definition start :: "nat list \<Rightarrow> nat \<Rightarrow> nat" where
  "start ms c = sum_list (take c ms)"

lemma start_Suc: "c < length ms \<Longrightarrow> start ms (Suc c) = start ms c + ms ! c"
  by (simp add: start_def take_Suc_conv_app_nth)

lemma start_Cons [simp]: "start (s # ms) 0 = 0" "start (s # ms) (Suc c) = s + start ms c"
  by (simp_all add: start_def)

lemma start_mono: "c \<le> c' \<Longrightarrow> start ms c \<le> start ms c'"
proof -
  assume "c \<le> c'"
  then have "take c' ms = take c ms @ take (c' - c) (drop c ms)" by (metis le_add_diff_inverse take_add)
  then show ?thesis by (simp add: start_def)
qed

lemma start_bound: "c < length ms \<Longrightarrow> start ms c + ms ! c \<le> sum_list ms"
  using start_mono [of "Suc c" "length ms" ms] start_Suc [of c ms] by (simp add: start_def)

lemma position_unique:
  assumes "c < length ms" "c' < length ms" "a < ms ! c" "b < ms ! c'" "start ms c + a = start ms c' + b"
  shows "c = c' \<and> a = b"
proof -
  have "c = c'"
  proof (rule ccontr)
    assume "c \<noteq> c'"
    then consider "Suc c \<le> c'" | "Suc c' \<le> c" by linarith
    then show False
      using start_mono [of "Suc c" c' ms] start_mono [of "Suc c'" c ms] start_Suc [OF assms(1)] start_Suc [OF assms(2)] assms(3-5)
      by cases linarith+
  qed
  then show ?thesis using assms(5) by simp
qed

lemma position_exists:
  assumes "q < sum_list ms"
  obtains c a where "c < length ms" "a < ms ! c" "q = start ms c + a"
proof -
  have "\<exists>c a. c < length ms \<and> a < ms ! c \<and> q = start ms c + a" using assms
  proof (induction ms arbitrary: q)
    case (Cons s ms)
    show ?case
    proof (cases "q < s")
      case True
      then show ?thesis by (intro exI [of _ 0] exI [of _ q]) simp
    next
      case False
      then obtain c a where "c < length ms" "a < ms ! c" "q - s = start ms c + a" using Cons.IH [of "q - s"] Cons.prems False by fastforce
      then show ?thesis using False by (intro exI [of _ "Suc c"] exI [of _ a]) simp
    qed
  qed simp
  then show ?thesis using that by blast
qed

section \<open>What \<open>Load\<close> builds\<close>

text \<open>Columns with an embedding, and the rank of such a column.\<close>

definition sel :: "nat \<Rightarrow> nat list \<Rightarrow> nat \<Rightarrow> bool" where
  "sel d ms c \<longleftrightarrow> c < length ms \<and> ms ! c = d + 1"

definition selected :: "nat \<Rightarrow> nat list \<Rightarrow> nat list" where
  "selected d ms = filter (sel d ms) [0..<length ms]"

definition rank :: "nat \<Rightarrow> nat list \<Rightarrow> nat \<Rightarrow> nat" where
  "rank d ms c = length (filter (sel d ms) [0..<c])"

lemma map_upt_shift: "map f [0..<Suc n] = f 0 # map (\<lambda>i. f (Suc i)) [0..<n]"
  by (simp add: upt_conv_Cons map_Suc_upt [symmetric] comp_def del: upt_Suc)

lemma load_w_eq:
  "load_w model ms p = (map (\<lambda>c. if ms ! c = 0 then no_pos else p + start ms c) [0..<length ms],
     map (\<lambda>c. if ms ! c = 0 then 0 else model ! (p + start ms c)) [0..<length ms], p + sum_list ms)"
proof (induction model ms p rule: load_w.induct)
  case (2 model s ms p)
  then show ?case by (simp add: map_upt_shift add.assoc del: upt_Suc)
qed simp

lemma filter_upt_shift: "filter P [0..<Suc n] = (if P 0 then [0] else []) @ map Suc (filter (\<lambda>i. P (Suc i)) [0..<n])"
  by (simp add: upt_conv_Cons map_Suc_upt [symmetric] filter_map comp_def del: upt_Suc)

lemma sel_Cons [simp]: "sel d (s # ms) 0 \<longleftrightarrow> s = d + 1" "sel d (s # ms) (Suc c) \<longleftrightarrow> sel d ms c"
  by (auto simp: sel_def)

lemma selected_Cons: "selected d (s # ms) = (if s = d + 1 then [0] else []) @ map Suc (selected d ms)"
  by (simp add: selected_def filter_upt_shift del: upt_Suc)

lemma rank_Cons: "rank d (s # ms) 0 = 0" "rank d (s # ms) (Suc c) = (if s = d + 1 then 1 else 0) + rank d ms c"
  by (simp_all add: rank_def filter_upt_shift del: upt_Suc)

lemma load_V_eq:
  "load_V d ms k p = (map (\<lambda>c. p + start ms c + 1) (selected d ms),
     map (\<lambda>c. if sel d ms c then k + rank d ms c + 1 else 0) [0..<length ms], p + sum_list ms)"
proof (induction d ms k p rule: load_V.induct)
  case (2 d s ms k p)
  then show ?case by (auto simp: map_upt_shift selected_Cons rank_Cons add.assoc comp_def simp del: upt_Suc)
qed (simp add: selected_def)

lemma rank_lt: "sel d ms c \<Longrightarrow> rank d ms c < length (selected d ms)"
proof (induction ms arbitrary: c)
  case (Cons s ms)
  then show ?case by (cases c) (auto simp: selected_Cons rank_Cons)
qed (simp add: sel_def)

lemma selected_rank: "sel d ms c \<Longrightarrow> selected d ms ! rank d ms c = c"
proof (induction ms arbitrary: c)
  case (Cons s ms)
  show ?case
  proof (cases c)
    case 0
    then show ?thesis using Cons.prems by (auto simp: selected_Cons rank_Cons)
  next
    case (Suc c')
    then show ?thesis using Cons.IH [of c'] Cons.prems rank_lt [of d ms c'] by (auto simp: selected_Cons rank_Cons)
  qed
qed (simp add: sel_def)

lemma selected_sel: "r < length (selected d ms) \<Longrightarrow> sel d ms (selected d ms ! r)"
  using nth_mem [of r "selected d ms"] by (auto simp: selected_def)

lemma rank_selected: "r < length (selected d ms) \<Longrightarrow> rank d ms (selected d ms ! r) = r"
proof -
  assume r: "r < length (selected d ms)"
  let ?c = "selected d ms ! r"
  have "rank d ms ?c < length (selected d ms)" "selected d ms ! rank d ms ?c = ?c"
    using rank_lt selected_rank selected_sel [OF r] by auto
  moreover have "distinct (selected d ms)" by (simp add: selected_def)
  ultimately show ?thesis using r by (simp add: nth_eq_iff_index_eq)
qed

lemma length_selected: "length (selected d ms) \<le> length ms"
  using length_filter_le [of "sel d ms" "[0..<length ms]"] by (simp add: selected_def)

text \<open>The matrix built for \<open>V\<close>: row \<open>i\<close> holds the picked entries of row \<open>i\<close> with renumbered columns.\<close>

definition picked_vals :: "mat \<Rightarrow> nat list \<Rightarrow> nat list \<Rightarrow> real list" where
  "picked_vals data cm js = (case rb_value data of Some v \<Rightarrow> map ((!) v) js | None \<Rightarrow> [])"

lemma build_X_eq:
  "build_X data cm is (os, idx, va) =
     (os @ map (\<lambda>n. length idx + length (concat (map (pick data cm) (take n is)))) [1..<Suc (length is)],
      idx @ map (\<lambda>j. word_of_nat (cm ! col data j - 1)) (concat (map (pick data cm) is)),
      va @ picked_vals data cm (concat (map (pick data cm) is)))"
proof (induction "is" arbitrary: os idx va)
  case Nil
  then show ?case by (simp add: picked_vals_def split: option.splits)
next
  case (Cons i "is")
  have sh: "map f [Suc 0..<Suc (Suc n)] = f (Suc 0) # map (\<lambda>m. f (Suc m)) [Suc 0..<Suc n]" for f :: "nat \<Rightarrow> nat" and n
    by (simp add: upt_conv_Cons map_Suc_upt [symmetric] comp_def del: upt_Suc)
  have va: "(case rb_value data of Some v \<Rightarrow> va @ map ((!) v) js | None \<Rightarrow> va) = va @ picked_vals data cm js" for js
    by (simp add: picked_vals_def split: option.splits)
  have pv: "picked_vals data cm (xs @ ys) = picked_vals data cm xs @ picked_vals data cm ys" for xs ys
    by (simp add: picked_vals_def split: option.splits)
  show ?case by (simp add: sh Let_def va pv Cons.IH add.assoc del: upt_Suc)
qed

definition V_mat :: "nat \<Rightarrow> mat \<Rightarrow> nat list \<Rightarrow> mat" where
  "V_mat d data ms =
     (let (ps, cm, p) = load_V d ms 0 0; (os, idx, va) = build_X data cm [0..<rb_size data] ([0], [], [])
      in \<lparr>rb_size = rb_size data, rb_offset = os, rb_label = [], rb_weight = None, rb_index = idx, rb_value = begin_ptr va\<rparr>)"

text \<open>The entries of a row as pairs of column and value.\<close>

definition row_entries :: "mat \<Rightarrow> nat \<Rightarrow> (nat \<times> real) list" where
  "row_entries D i = map (\<lambda>j. (col D j, ent D j)) (row_range D i)"

lemma concat_slice:
  assumes "i < length xs"
  shows "take (length (g (xs ! i))) (drop (length (concat (map g (take i xs)))) (concat (map g xs))) = g (xs ! i)"
proof -
  have "concat (map g xs) = concat (map g (take i xs)) @ g (xs ! i) @ concat (map g (drop (Suc i) xs))"
    using id_take_nth_drop [OF assms] by (metis concat.simps(2) concat_append list.simps(9) map_append)
  then show ?thesis by simp
qed

lemma V_mat_rows:
  assumes ok: "mat_ok data (length ms)" and len: "length ms \<le> 2 ^ 32" and i: "i < rb_size data"
  shows "row_entries (V_mat d data ms) i =
     map (\<lambda>(c, e). (rank d ms c, e)) (filter (\<lambda>(c, e). sel d ms c) (row_entries data i))"
proof -
  let ?n = "rb_size data" and ?X = "V_mat d data ms"
  define cm where "cm = map (\<lambda>c. if sel d ms c then 0 + rank d ms c + 1 else 0) [0..<length ms]"
  define all where "all = concat (map (pick data cm) [0..<?n])"
  define off where "off k = length (concat (map (pick data cm) (take k [0..<?n])))" for k
  have X: "rb_offset ?X = 0 # map off [1..<Suc ?n]"
      "rb_index ?X = map (\<lambda>j. word_of_nat (cm ! col data j - 1)) all" "rb_value ?X = begin_ptr (picked_vals data cm all)"
    by (simp_all add: V_mat_def load_V_eq build_X_eq all_def off_def cm_def [symmetric] del: upt_Suc)
  have X0: "rb_offset ?X ! k = off k" if "k \<le> ?n" for k
    unfolding X using that by (cases k) (simp_all add: off_def nth_append del: upt_Suc)
  have pk: "take (length (pick data cm i)) (drop (off i) all) = pick data cm i"
    using concat_slice [of i "[0..<?n]" "pick data cm"] i by (simp add: all_def off_def)
  have offS: "off (Suc i) = off i + length (pick data cm i)"
    using i by (simp add: off_def take_Suc_conv_app_nth)
  have bound: "off (Suc i) \<le> length all"
    unfolding off_def all_def by (metis append_take_drop_id concat_append length_append le_add1 map_append)
  have c_ok: "col data j < length ms" if "j \<in> set (row_range data i)" for j using ok i that by (auto simp: mat_ok_def)
  have cmc: "cm ! c = (if sel d ms c then rank d ms c + 1 else 0)" if "c < length ms" for c using that by (simp add: cm_def)
  have pick_i: "pick data cm i = filter (\<lambda>j. sel d ms (col data j)) (row_range data i)"
    unfolding pick_def by (intro filter_cong refl) (simp add: cmc c_ok)
  have rk: "unat (word_of_nat (cm ! col data j - 1) :: 32 word) = rank d ms (col data j)" if "j \<in> set (pick data cm i)" for j
  proof -
    have s: "sel d ms (col data j)" "col data j < length ms" using that c_ok by (auto simp: pick_i)
    have "rank d ms (col data j) < 2 ^ 32" using rank_lt [OF s(1)] length_selected [of d ms] len by linarith
    then show ?thesis using s by (simp add: cmc unat_of_nat)
  qed
  have ev: "ent ?X j = ent data (all ! j)" if "j < length all" for j
  proof (cases "rb_value data")
    case None
    then show ?thesis by (simp add: ent_def X picked_vals_def begin_ptr_def)
  next
    case (Some v)
    have "all \<noteq> []" using that by auto
    then show ?thesis using Some that by (simp add: ent_def X picked_vals_def begin_ptr_def)
  qed
  have co: "col ?X j = unat (word_of_nat (cm ! col data (all ! j) - 1) :: 32 word)" if "j < length all" for j
    using that by (simp add: col_def X)
  have "row_entries ?X i = map ((\<lambda>j. (unat (word_of_nat (cm ! col data j - 1) :: 32 word), ent data j)) \<circ> (!) all) [off i..<off (Suc i)]"
    unfolding row_entries_def row_range_def using X0 [of i] X0 [of "Suc i"] i bound ev co by (auto intro!: map_cong)
  also have "\<dots> = map (\<lambda>j. (unat (word_of_nat (cm ! col data j - 1) :: 32 word), ent data j)) (pick data cm i)"
    unfolding list.map_comp [symmetric] using map_nth_upt_slice [OF bound, of "off i"] offS pk by simp
  also have "\<dots> = map (\<lambda>j. (rank d ms (col data j), ent data j)) (pick data cm i)" by (intro map_cong refl) (use rk in simp)
  finally show ?thesis by (simp add: pick_i row_entries_def filter_map comp_def)
qed

lemma V_mat_bound:
  assumes i: "i < rb_size data" and j: "j \<in> set (row_range (V_mat d data ms) i)"
  shows "j < rb_offset (V_mat d data ms) ! rb_size (V_mat d data ms)"
proof -
  let ?n = "rb_size data" and ?X = "V_mat d data ms"
  define cm where "cm = map (\<lambda>c. if sel d ms c then 0 + rank d ms c + 1 else 0) [0..<length ms]"
  define off where "off k = length (concat (map (pick data cm) (take k [0..<?n])))" for k
  have X: "rb_offset ?X = 0 # map off [1..<Suc ?n]" "rb_size ?X = ?n"
    by (simp_all add: V_mat_def load_V_eq build_X_eq off_def cm_def [symmetric] del: upt_Suc)
  have X0: "rb_offset ?X ! k = off k" if "k \<le> ?n" for k
    unfolding X using that by (cases k) (simp_all add: off_def nth_append del: upt_Suc)
  have "off (Suc i) \<le> off ?n"
  proof -
    have "take ?n [0..<?n] = take (Suc i) [0..<?n] @ drop (Suc i) [0..<?n]"
      by (simp only: append_take_drop_id) simp
    then show ?thesis unfolding off_def by (metis concat_append length_append le_add1 map_append)
  qed
  then show ?thesis using j i X0 [of "Suc i"] X0 [of ?n] by (simp add: row_range_def X(2))
qed

section \<open>Sums over the entries of a row\<close>

lemma row_sum_entries: "row_sum D x i = sum_list (map (\<lambda>(c, e). x ! c * e) (row_entries D i))"
  by (simp add: row_sum_real row_entries_def comp_def)

lemma slope_entries: "slope D c i = sum_list (map (\<lambda>(c', e). if c' = c then e else 0) (row_entries D i))"
  by (simp add: slope_def row_entries_def comp_def)

lemma mm_entries:
  assumes "i < rb_size D" and "k < dm"
  shows "mm D x dm ! (i * dm + k) = sum_list (map (\<lambda>(c, e). x ! (c * dm + k) * e) (row_entries D i))"
proof -
  have "i * dm + k < Suc i * dm" using assms by simp
  also have "\<dots> \<le> rb_size D * dm" using assms by (intro mult_le_mono1) simp
  finally show ?thesis
    using assms by (simp add: mm_def fold_plus scaled_real row_entries_def comp_def)
qed

lemma trans_sum_real: "trans_sum D x dm e k v = v + sum_list (map (\<lambda>i. x ! (i * dm + k) * slope D e i) [0..<rb_size D])"
proof -
  have "(\<lambda>(i, j) y. y + scaled D j (x ! (i * dm + k))) = (\<lambda>ij y. y + (case ij of (i, j) \<Rightarrow> x ! (i * dm + k) * ent D j))"
    by (auto simp: fun_eq_iff scaled_real)
  then have "trans_sum D x dm e k v = v + sum_list (map (\<lambda>(i, j). x ! (i * dm + k) * ent D j)
      (concat (map (\<lambda>i. map (Pair i) (filter (\<lambda>j. col D j = e) (row_range D i))) [0..<rb_size D])))"
    by (simp add: trans_sum_def fold_plus)
  then show ?thesis
    unfolding sum_list_concat_map by (simp add: comp_def sum_list_filter slope_def slope_scaled)
qed

lemma mtm_cell:
  assumes "e * dm + k < length y0" and "k < dm"
  shows "mtm D x dm y0 ! (e * dm + k) = y0 ! (e * dm + k) + sum_list (map (\<lambda>i. x ! (i * dm + k) * slope D e i) [0..<rb_size D])"
  using assms by (simp add: mtm_def trans_sum_real)

lemma square_entries:
  assumes "\<And>j. j \<in> set (row_range X i) \<Longrightarrow> j < rb_offset X ! rb_size X"
  shows "row_entries (square_values X) i = map (\<lambda>(c, e). (c, e * e)) (row_entries X i)"
proof (cases "rb_value X")
  case None
  then show ?thesis by (simp add: square_values_def row_entries_def ent_def comp_def)
next
  case (Some v)
  have "row_range (square_values X) i = row_range X i" "col (square_values X) j = col X j" for j
    using Some by (simp_all add: square_values_def row_range_def col_def)
  moreover have "ent (square_values X) j = ent X j * ent X j" if "j \<in> set (row_range X i)" for j
  proof -
    have "j < rb_offset X ! rb_size X" using assms that .
    then show ?thesis using Some by (auto simp: square_values_def ent_def begin_ptr_def)
  qed
  ultimately show ?thesis by (simp add: row_entries_def)
qed

lemma rb_size_square [simp]: "rb_size (square_values X) = rb_size X" "rb_size (V_mat d data ms) = rb_size data"
  by (auto simp: square_values_def V_mat_def split: option.splits prod.splits)

section \<open>Scores\<close>

text \<open>The parameters as the layout stores them: the weight of column \<open>c\<close> and cell \<open>k\<close> of its embedding.\<close>

definition wv :: "nat list \<Rightarrow> real list \<Rightarrow> nat \<Rightarrow> real" where
  "wv ms m c = (if ms ! c = 0 then 0 else m ! start ms c)"

definition vv :: "nat list \<Rightarrow> real list \<Rightarrow> nat \<Rightarrow> nat \<Rightarrow> real" where
  "vv ms m c k = m ! (start ms c + 1 + k)"

definition lin :: "nat list \<Rightarrow> real list \<Rightarrow> (nat \<times> real) list \<Rightarrow> real" where
  "lin ms m es = sum_list (map (\<lambda>(c, e). wv ms m c * e) es)"

definition xv :: "nat list \<Rightarrow> real list \<Rightarrow> (nat \<times> real) list \<Rightarrow> nat \<Rightarrow> real" where
  "xv ms m es k = sum_list (map (\<lambda>(c, e). vv ms m c k * e) es)"

definition xxvv :: "nat list \<Rightarrow> real list \<Rightarrow> (nat \<times> real) list \<Rightarrow> nat \<Rightarrow> real" where
  "xxvv ms m es k = sum_list (map (\<lambda>(c, e). (vv ms m c k * vv ms m c k) * (e * e)) es)"

definition embedded :: "nat \<Rightarrow> nat list \<Rightarrow> (nat \<times> real) list \<Rightarrow> (nat \<times> real) list" where
  "embedded d ms es = filter (\<lambda>(c, e). sel d ms c) es"

definition score :: "nat \<Rightarrow> nat list \<Rightarrow> real list \<Rightarrow> (nat \<times> real) list \<Rightarrow> real" where
  "score d ms m es = lin ms m es + 1 / 2 * sum_list (map (\<lambda>k. xv ms m (embedded d ms es) k * xv ms m (embedded d ms es) k
     - xxvv ms m (embedded d ms es) k) [0..<d])"

text \<open>The definition of a factorization machine: all pairs of features of the example.\<close>

fun interactions :: "(nat \<Rightarrow> nat \<Rightarrow> real) \<Rightarrow> nat \<Rightarrow> (nat \<times> real) list \<Rightarrow> real" where
  "interactions V d [] = 0"
| "interactions V d ((c, e) # es) =
     sum_list (map (\<lambda>(c', e'). (\<Sum>k<d. V c k * V c' k) * e * e') es) + interactions V d es"

definition fm :: "nat \<Rightarrow> nat list \<Rightarrow> real list \<Rightarrow> (nat \<times> real) list \<Rightarrow> real" where
  "fm d ms m es = lin ms m es + interactions (vv ms m) d (embedded d ms es)"

lemma sum_list_swap: "sum_list (map (\<lambda>x. \<Sum>k<d. f x k) xs) = (\<Sum>k<d. sum_list (map (\<lambda>x. f x k) xs :: real list))"
  by (induction xs) (simp_all add: sum.distrib)

lemma half_square:
  "1 / 2 * (\<Sum>k<d. xv ms m es k * xv ms m es k - xxvv ms m es k) = interactions (vv ms m) d es"
proof (induction es)
  case (Cons x es)
  obtain c e where x: "x = (c, e)" by fastforce
  have step: "(xv ms m ((c, e) # es) k * xv ms m ((c, e) # es) k - xxvv ms m ((c, e) # es) k) / 2 =
      vv ms m c k * e * xv ms m es k + (xv ms m es k * xv ms m es k - xxvv ms m es k) / 2" for k
    by (simp add: xv_def xxvv_def field_simps)
  have "sum_list (map (\<lambda>(c', e'). (\<Sum>k<d. vv ms m c k * vv ms m c' k) * e * e') es) = (\<Sum>k<d. vv ms m c k * e * xv ms m es k)"
    by (induction es) (auto simp: xv_def sum.distrib sum_distrib_right sum_distrib_left algebra_simps)
  then show ?case
    using Cons by (simp add: x sum_distrib_left step sum.distrib)
qed (simp add: xv_def xxvv_def)

lemma score_fm: "score d ms m es = fm d ms m es"
  using half_square [of ms m "embedded d ms es" d] by (simp add: score_def fm_def sum_list_map_upt atLeast0LessThan)

section \<open>What \<open>Evaluate\<close> computes\<close>

text \<open>The embeddings one after the other, in the order of the columns that have one.\<close>

definition V_weight :: "nat \<Rightarrow> nat list \<Rightarrow> real list \<Rightarrow> real list" where
  "V_weight d ms m = concat (map (\<lambda>c. map (vv ms m c) [0..<d]) (selected d ms))"

lemma concat_uniform:
  assumes "\<And>x. length (f x) = d"
  shows "length (concat (map f xs)) = length xs * d"
    and "r < length xs \<Longrightarrow> k < d \<Longrightarrow> concat (map f xs) ! (r * d + k) = f (xs ! r) ! k"
proof -
  show len: "length (concat (map f xs)) = length xs * d" for xs by (induction xs) (simp_all add: assms)
  show "r < length xs \<Longrightarrow> k < d \<Longrightarrow> concat (map f xs) ! (r * d + k) = f (xs ! r) ! k"
  proof (induction xs arbitrary: r)
    case (Cons x xs)
    then show ?case by (cases r) (simp_all add: nth_append assms add.assoc)
  qed simp
qed

lemma V_weight_length [simp]: "length (V_weight d ms m) = length (selected d ms) * d"
  by (simp add: V_weight_def concat_uniform(1))

lemma V_weight_nth: "r < length (selected d ms) \<Longrightarrow> k < d \<Longrightarrow> V_weight d ms m ! (r * d + k) = vv ms m (selected d ms ! r) k"
  by (simp add: V_weight_def concat_uniform(2))

lemma V_weight_load:
  assumes "sum_list ms = length m"
  shows "concat (map (\<lambda>q. take d (drop q m)) (map (\<lambda>c. start ms c + 1) (selected d ms))) = V_weight d ms m"
proof -
  have "take d (drop (Suc (start ms c)) m) = map (vv ms m c) [0..<d]" if "c \<in> set (selected d ms)" for c
  proof -
    have "start ms c + (d + 1) \<le> length m" using that start_bound [of c ms] assms by (auto simp: selected_def sel_def)
    then show ?thesis by (intro nth_equalityI) (simp_all add: vv_def)
  qed
  then show ?thesis unfolding V_weight_def list.map_comp comp_def by (intro arg_cong [where f = concat] map_cong) simp_all
qed

definition w_Data :: "mat \<Rightarrow> nat list \<Rightarrow> real list \<Rightarrow> Data" where
  "w_Data data ms m = new_Data\<lparr>da_pos := map (\<lambda>c. if ms ! c = 0 then no_pos else start ms c) [0..<length ms],
     da_weight := map (wv ms m) [0..<length ms], da_X := data, da_XX := square_values data\<rparr>"

definition V_Data :: "nat \<Rightarrow> mat \<Rightarrow> nat list \<Rightarrow> real list \<Rightarrow> Data" where
  "V_Data d data ms m = new_Data\<lparr>da_dim := d, da_pos := map (\<lambda>c. start ms c + 1) (selected d ms), da_weight := V_weight d ms m,
     da_X := (if selected d ms = [] then no_block else V_mat d data ms),
     da_XX := (if selected d ms = [] then no_block else square_values (V_mat d data ms))\<rparr>"

lemma Data_Load_w:
  "ms \<noteq> [] \<Longrightarrow> sum_list ms = length m \<Longrightarrow> Data_Load 0 data m ms = Ok (w_Data data ms m)"
  by (simp add: Data_Load_def load_w_eq w_Data_def wv_def new_Data_def)

lemma Data_Load_V:
  assumes "d > 0" and "sum_list ms = length m"
  shows "Data_Load d data m ms = Ok (V_Data d data ms m)"
proof (cases "selected d ms = []")
  case True
  then show ?thesis using assms by (simp add: Data_Load_def load_V_eq V_Data_def V_weight_def new_Data_def)
next
  case False
  then have ne: "V_weight d ms m \<noteq> []" using assms(1) V_weight_length [of d ms m] by (auto simp del: V_weight_length)
  obtain os idx va where b: "build_X data (map (\<lambda>c. if sel d ms c then 0 + rank d ms c + 1 else 0) [0..<length ms]) [0..<rb_size data] ([0], [], []) = (os, idx, va)"
    using prod_cases3 by blast
  have w: "concat (map ((\<lambda>q. take d (drop q m)) \<circ> (\<lambda>c. Suc (start ms c))) (selected d ms)) = V_weight d ms m"
    using V_weight_load [OF assms(2), of d] by simp
  have X: "V_mat d data ms = \<lparr>rb_size = rb_size data, rb_offset = os, rb_label = [], rb_weight = None, rb_index = idx, rb_value = begin_ptr va\<rparr>"
    unfolding V_mat_def load_V_eq prod.case Let_def b ..
  show ?thesis unfolding Data_Load_def load_V_eq prod.case Let_def b V_weight_load [OF assms(2)]
    using assms ne False w by (simp add: V_Data_def new_Data_def X)
qed

text \<open>The loss of a model whose sizes fit, with embeddings of size \<open>d\<close>.\<close>

definition loss_of :: "mat \<Rightarrow> real list \<Rightarrow> nat list \<Rightarrow> EmbConf \<Rightarrow> Loss" where
  "loss_of data m ms cf = \<lparr>lo_w = w_Data data ms m, lo_V = V_Data (ec_dim cf) data ms m, lo_py = [],
     lo_clip = ec_clip cf, lo_dropout = ec_dropout cf, lo_norm = ec_norm cf\<rparr>"

lemma new_Loss_ok:
  "ms \<noteq> [] \<Longrightarrow> sum_list ms = length m \<Longrightarrow> ec_dim cf > 0 \<Longrightarrow> new_Loss data m ms (Some cf) = Ok (loss_of data m ms cf)"
  by (simp add: new_Loss_def Data_Load_w Data_Load_V loss_of_def)

lemma entries_bound: "mat_ok data n \<Longrightarrow> i < rb_size data \<Longrightarrow> (c, e) \<in> set (row_entries data i) \<Longrightarrow> c < n"
  by (auto simp: mat_ok_def row_entries_def)

lemma lin_row:
  assumes "mat_ok data (length ms)" and "i < rb_size data"
  shows "row_sum data (map (wv ms m) [0..<length ms]) i = lin ms m (row_entries data i)"
  unfolding row_sum_entries lin_def
  by (intro arg_cong [where f = sum_list] map_cong refl) (use entries_bound [OF assms] in auto)

lemma V_mat_product:
  assumes "mat_ok data (length ms)" and "length ms \<le> 2 ^ 32" and "i < rb_size data" and "k < d"
  shows "mm (V_mat d data ms) (V_weight d ms m) d ! (i * d + k) = xv ms m (embedded d ms (row_entries data i)) k"
    and "mm (square_values (V_mat d data ms)) (map (\<lambda>v. v * v) (V_weight d ms m)) d ! (i * d + k) =
      xxvv ms m (embedded d ms (row_entries data i)) k"
proof -
  let ?X = "V_mat d data ms"
  have rows: "row_entries ?X i = map (\<lambda>(c, e). (rank d ms c, e)) (embedded d ms (row_entries data i))"
    unfolding embedded_def by (rule V_mat_rows [OF assms(1-3)])
  have sq: "row_entries (square_values ?X) i = map (\<lambda>(c, e). (c, e * e)) (row_entries ?X i)"
    by (rule square_entries) (rule V_mat_bound [OF assms(3)])
  have cell: "V_weight d ms m ! (rank d ms c * d + k) = vv ms m c k" "rank d ms c * d + k < length (V_weight d ms m)" if "sel d ms c" for c
  proof -
    have "rank d ms c * d + k < Suc (rank d ms c) * d" using assms(4) by simp
    also have "\<dots> \<le> length (selected d ms) * d" using rank_lt [OF that] by (intro mult_le_mono1) simp
    finally show "rank d ms c * d + k < length (V_weight d ms m)" by simp
    show "V_weight d ms m ! (rank d ms c * d + k) = vv ms m c k"
      using V_weight_nth [OF rank_lt [OF that] assms(4)] selected_rank [OF that] by simp
  qed
  have emb: "sel d ms c" if "(c, e) \<in> set (embedded d ms es)" for c e es using that by (simp add: embedded_def)
  show "mm ?X (V_weight d ms m) d ! (i * d + k) = xv ms m (embedded d ms (row_entries data i)) k"
    using mm_entries [of i ?X k d] assms(3,4) unfolding rows xv_def
    by (auto simp: comp_def intro!: arg_cong [where f = sum_list] dest!: emb simp: cell)
  show "mm (square_values ?X) (map (\<lambda>v. v * v) (V_weight d ms m)) d ! (i * d + k) = xxvv ms m (embedded d ms (row_entries data i)) k"
    using mm_entries [of i "square_values ?X" k d] assms(3,4) unfolding sq rows xxvv_def
    by (auto simp: comp_def intro!: arg_cong [where f = sum_list] dest!: emb simp: cell simp del: V_weight_length)
qed

definition scores :: "mat \<Rightarrow> real list \<Rightarrow> nat list \<Rightarrow> nat \<Rightarrow> real list" where
  "scores data m ms d = map (\<lambda>i. score d ms m (row_entries data i)) [0..<rb_size data]"

definition eval_XV :: "mat \<Rightarrow> real list \<Rightarrow> nat list \<Rightarrow> nat \<Rightarrow> real list" where
  "eval_XV data m ms d = (if selected d ms = [] then [] else mm (V_mat d data ms) (V_weight d ms m) d)"

lemma embedded_none: "selected d ms = [] \<Longrightarrow> embedded d ms es = []"
proof (rule ccontr)
  assume "selected d ms = []" "embedded d ms es \<noteq> []"
  then obtain c e where "(c, e) \<in> set (embedded d ms es)" by (metis list.set_intros(1) neq_Nil_conv surj_pair)
  then have "c \<in> set (selected d ms)" by (auto simp: embedded_def selected_def sel_def)
  then show False using \<open>selected d ms = []\<close> by simp
qed

lemma Evaluate_loss_of:
  assumes "mat_ok data (length ms)" and "length ms \<le> 2 ^ 32" and "ec_dim cf = d" and "d > 0"
  shows "\<exists>pr. Loss_Evaluate so (loss_of data m ms cf) = Ok ((loss_of data m ms cf)\<lparr>lo_py := scores data m ms d,
      lo_V := (V_Data d data ms m)\<lparr>da_XV := eval_XV data m ms d\<rparr>\<rparr>, pr) \<and>
    fp_objv pr = LogitObjv (take (rb_size data) (rb_label data)) (scores data m ms d) \<and>
    fp_auc pr = AUC so (take (rb_size data) (rb_label data)) (scores data m ms d) \<and> fp_new_ex pr = real (rb_size data)"
proof -
  let ?n = "rb_size data" and ?es = "row_entries data"
  have py: "mv data (map (wv ms m) [0..<length ms]) (replicate ?n 0) = map (\<lambda>i. lin ms m (?es i)) [0..<?n]"
    unfolding mv_zero by (intro map_cong refl) (simp add: lin_row [OF assms(1)])
  show ?thesis
  proof (cases "selected d ms = []")
    case True
    have "scores data m ms d = map (\<lambda>i. lin ms m (?es i)) [0..<?n]"
      by (simp add: scores_def score_def embedded_none [OF True] xv_def xxvv_def)
    then show ?thesis using True assms(3)
      by (simp add: Loss_Evaluate_def loss_of_def w_Data_def V_Data_def new_Data_def V_weight_def eval_XV_def py Let_def)
  next
    case False
    have ne: "V_weight d ms m \<noteq> []" using False assms(4) V_weight_length [of d ms m] by (auto simp del: V_weight_length)
    have "map (\<lambda>i. map (\<lambda>i. lin ms m (?es i)) [0..<?n] ! i + 1 / 2 * sum_list (map (\<lambda>j.
        mm (V_mat d data ms) (V_weight d ms m) d ! (i * d + j) * mm (V_mat d data ms) (V_weight d ms m) d ! (i * d + j) -
        mm (square_values (V_mat d data ms)) (map (\<lambda>v. v * v) (V_weight d ms m)) d ! (i * d + j)) [0..<d])) [0..<?n] = scores data m ms d"
      unfolding scores_def score_def
      by (intro map_cong refl arg_cong2 [where f = "(+)"] arg_cong2 [where f = "(*)"] arg_cong [where f = sum_list])
         (simp_all add: V_mat_product [OF assms(1,2)])
    then show ?thesis using False ne assms(3)
      by (simp add: Loss_Evaluate_def loss_of_def w_Data_def V_Data_def new_Data_def eval_XV_def py Let_def)
  qed
qed

definition fm_ok :: "mat \<Rightarrow> real list \<Rightarrow> nat list \<Rightarrow> bool" where
  "fm_ok data m ms \<longleftrightarrow> ms \<noteq> [] \<and> sum_list ms = length m \<and> length ms \<le> 2 ^ 32 \<and> mat_ok data (length ms)"

text \<open>
  C5: \<open>Loss::Evaluate\<close> computes a factorization machine: after it, the score of every example is the
  sum of its weights plus, over all pairs of its features that have embeddings, the product of the two values
  and the inner product of the two embeddings. \<open>Evaluate\<close> itself never visits the pairs: it uses
  \<open>1/2 (|XV|\<^sup>2 - (X.X)(V.V))\<close> on the columns picked by \<open>Data::Load\<close>. The reported objective is the logistic
  objective of these scores.
\<close>

theorem Evaluate_is_fm:
  assumes "fm_ok data m ms" and "ec_dim cf > 0"
  shows "\<exists>l l' pr. new_Loss data m ms (Some cf) = Ok l \<and> Loss_Evaluate so l = Ok (l', pr) \<and>
    lo_py l' = map (\<lambda>i. fm (ec_dim cf) ms m (row_entries data i)) [0..<rb_size data] \<and>
    fp_objv pr = LogitObjv (take (rb_size data) (rb_label data)) (lo_py l')"
proof -
  obtain pr where "Loss_Evaluate so (loss_of data m ms cf) = Ok ((loss_of data m ms cf)\<lparr>lo_py := scores data m ms (ec_dim cf),
      lo_V := (V_Data (ec_dim cf) data ms m)\<lparr>da_XV := eval_XV data m ms (ec_dim cf)\<rparr>\<rparr>, pr)"
    "fp_objv pr = LogitObjv (take (rb_size data) (rb_label data)) (scores data m ms (ec_dim cf))"
    using Evaluate_loss_of [of data ms cf "ec_dim cf" so m] assms by (auto simp: fm_ok_def)
  moreover have "new_Loss data m ms (Some cf) = Ok (loss_of data m ms cf)" using assms by (simp add: fm_ok_def new_Loss_ok)
  ultimately show ?thesis by (simp add: scores_def score_fm)
qed

text \<open>Two features in one example, values 2 and 3, both with embeddings of size 1; a third column with no weight.\<close>

definition demo_fm :: mat where
  "demo_fm = \<lparr>rb_size = 1, rb_offset = [0, 2], rb_label = [1], rb_weight = None, rb_index = [0, 2], rb_value = Some [2, 3]\<rparr>"

lemma demo_fm_range: "rb_size demo_fm = 1" "row_range demo_fm 0 = [0, 1]" "col demo_fm 0 = 0" "col demo_fm 1 = 2"
    "row_entries demo_fm 0 = [(0, 2), (2, 3)]"
  by (simp_all add: demo_fm_def row_range_def col_def ent_def row_entries_def upt_rec)

lemma demo_fm_ok: "fm_ok demo_fm [1, 10, 100, 7] [2, 0, 2]"
  by (auto simp: fm_ok_def mat_ok_def demo_fm_def row_range_def col_def upt_rec)

theorem Evaluate_is_fm_witness:
  "\<exists>l l' pr. new_Loss demo_fm [1, 10, 100, 7] [2, 0, 2] (Some \<lparr>ec_dim = 1, ec_dropout = 0, ec_clip = 0, ec_norm = False\<rparr>) = Ok l \<and>
     Loss_Evaluate (\<lambda>x. x) l = Ok (l', pr) \<and> lo_py l' = [1 * 2 + 100 * 3 + (10 * 7) * 2 * 3]"
proof -
  have "fm 1 [2, 0, 2] [1, 10, 100, 7] (row_entries demo_fm 0) = 1 * 2 + 100 * 3 + (10 * 7) * 2 * 3"
    by (simp add: demo_fm_range fm_def lin_def wv_def embedded_def sel_def vv_def start_def)
  then show ?thesis
    using Evaluate_is_fm [OF demo_fm_ok, of "\<lparr>ec_dim = 1, ec_dropout = 0, ec_clip = 0, ec_norm = False\<rparr>" "\<lambda>x. x"]
    by (simp add: demo_fm_range) blast
qed

section \<open>The effect of \<open>Save\<close>\<close>

definition pieces_ok :: "nat \<Rightarrow> nat list \<Rightarrow> nat \<Rightarrow> bool" where
  "pieces_ok d ps n \<longleftrightarrow> (\<forall>p\<in>set ps. p \<noteq> no_pos \<longrightarrow> p + d \<le> n) \<and>
     (\<forall>r<length ps. \<forall>r'<length ps. r \<noteq> r' \<longrightarrow> ps ! r \<noteq> no_pos \<longrightarrow> ps ! r' \<noteq> no_pos \<longrightarrow> ps ! r + d \<le> ps ! r' \<or> ps ! r' + d \<le> ps ! r)"

lemma pieces_ok_Cons:
  assumes "pieces_ok d (p # ps) n"
  shows "pieces_ok d ps n" and "p \<noteq> no_pos \<Longrightarrow> p + d \<le> n"
    and "p' \<in> set ps \<Longrightarrow> p \<noteq> no_pos \<Longrightarrow> p' \<noteq> no_pos \<Longrightarrow> p + d \<le> p' \<or> p' + d \<le> p"
proof -
  have sep: "r < length (p # ps) \<Longrightarrow> r' < length (p # ps) \<Longrightarrow> r \<noteq> r' \<Longrightarrow> (p # ps) ! r \<noteq> no_pos \<Longrightarrow> (p # ps) ! r' \<noteq> no_pos \<Longrightarrow>
      (p # ps) ! r + d \<le> (p # ps) ! r' \<or> (p # ps) ! r' + d \<le> (p # ps) ! r" for r r'
    using assms unfolding pieces_ok_def by blast
  show "pieces_ok d ps n" using assms sep [of "Suc _" "Suc _"] by (simp add: pieces_ok_def)
  show "p \<noteq> no_pos \<Longrightarrow> p + d \<le> n" using assms by (simp add: pieces_ok_def)
  show "p' \<in> set ps \<Longrightarrow> p \<noteq> no_pos \<Longrightarrow> p' \<noteq> no_pos \<Longrightarrow> p + d \<le> p' \<or> p' + d \<le> p"
    using sep [of 0 "Suc _"] by (fastforce simp: in_set_conv_nth)
qed

lemma piece_write:
  assumes "p + d \<le> length (g :: real list)" and "d \<le> length ws"
  shows "length (take p g @ take d ws @ drop (p + d) g) = length g"
    and "q < length g \<Longrightarrow> (take p g @ take d ws @ drop (p + d) g) ! q = (if p \<le> q \<and> q < p + d then ws ! (q - p) else g ! q)"
  using assms by (auto simp: nth_append)

lemma save_pieces_outside:
  assumes "pieces_ok d ps (length g)" and "length ws = length ps * d"
  shows "length (save_pieces d ps ws g) = length g \<and>
    (\<forall>q<length g. (\<forall>p\<in>set ps. p \<noteq> no_pos \<longrightarrow> q < p \<or> p + d \<le> q) \<longrightarrow> save_pieces d ps ws g ! q = g ! q)"
  using assms
proof (induction d ps ws g rule: save_pieces.induct)
  case (2 d p ps ws g)
  let ?g = "if p = no_pos then g else take p g @ take d ws @ drop (p + d) g"
  note pk = pieces_ok_Cons [OF "2.prems"(1)]
  have len: "length ?g = length g" and nth: "q < length g \<Longrightarrow> p = no_pos \<or> q < p \<or> p + d \<le> q \<Longrightarrow> ?g ! q = g ! q" for q
    using piece_write [of p d g ws] pk(2) "2.prems"(2) by auto
  have "length (save_pieces d ps (drop d ws) ?g) = length ?g \<and>
    (\<forall>q<length ?g. (\<forall>p\<in>set ps. p \<noteq> no_pos \<longrightarrow> q < p \<or> p + d \<le> q) \<longrightarrow> save_pieces d ps (drop d ws) ?g ! q = ?g ! q)"
    using "2.prems" pk(1) by (intro "2.IH") (simp_all only: len, simp)
  then show ?case using len nth by auto
qed simp

lemma save_pieces_inside:
  assumes "pieces_ok d ps (length g)" and "length ws = length ps * d" and "r < length ps" and "ps ! r \<noteq> no_pos" and "k < d"
  shows "save_pieces d ps ws g ! (ps ! r + k) = ws ! (r * d + k)"
  using assms
proof (induction d ps ws g arbitrary: r rule: save_pieces.induct)
  case (2 d p ps ws g)
  let ?g = "if p = no_pos then g else take p g @ take d ws @ drop (p + d) g"
  note pk = pieces_ok_Cons [OF "2.prems"(1)]
  have len: "length ?g = length g" using piece_write(1) [of p d g ws] pk(2) "2.prems"(2) by auto
  show ?case
  proof (cases r)
    case 0
    then have p: "p \<noteq> no_pos" "p + k < length g" using "2.prems" pk(2) by auto
    have "save_pieces d ps (drop d ws) ?g ! (p + k) = ?g ! (p + k)"
    proof -
      have "\<forall>p'\<in>set ps. p' \<noteq> no_pos \<longrightarrow> p + k < p' \<or> p' + d \<le> p + k" using pk(3) p(1) "2.prems"(5) by fastforce
      then show ?thesis using save_pieces_outside [of d ps ?g "drop d ws"] pk(1) len "2.prems"(2) p(2) by auto
    qed
    also have "\<dots> = ws ! k" using piece_write(2) [of p d g ws "p + k"] p pk(2) "2.prems"(2,5) by simp
    finally show ?thesis using 0 by simp
  next
    case (Suc r')
    have "save_pieces d ps (drop d ws) ?g ! (ps ! r' + k) = drop d ws ! (r' * d + k)"
      using Suc "2.prems" pk(1) len by (intro "2.IH") simp_all
    then show ?thesis using Suc "2.prems"(2) by (simp add: add.assoc)
  qed
qed simp

section \<open>Derivatives of the score\<close>

text \<open>The sum of the values, and of their squares, that column \<open>c\<close> has in an example.\<close>

definition occ :: "nat \<Rightarrow> (nat \<times> real) list \<Rightarrow> real" where
  "occ c es = sum_list (map (\<lambda>(c', e). if c' = c then e else 0) es)"

definition occ2 :: "nat \<Rightarrow> (nat \<times> real) list \<Rightarrow> real" where
  "occ2 c es = sum_list (map (\<lambda>(c', e). if c' = c then e * e else 0) es)"

lemma occ_embedded: "sel d ms c \<Longrightarrow> occ c (embedded d ms es) = occ c es"
  by (induction es) (auto simp: occ_def embedded_def)

lemma wv_update:
  assumes "c < length ms" "a < ms ! c" "sum_list ms = length m" "c' < length ms"
  shows "wv ms (m[start ms c + a := t]) c' = (if a = 0 \<and> c' = c then t else wv ms m c')"
proof -
  have "start ms c + a < length m" using start_bound [of c ms] assms by linarith
  then show ?thesis using position_unique [of c ms c' a 0] assms by (auto simp: wv_def nth_list_update)
qed

lemma vv_update:
  assumes "c < length ms" "a < ms ! c" "sum_list ms = length m" "sel d ms c'" "k < d"
  shows "vv ms (m[start ms c + a := t]) c' k = (if a = Suc k \<and> c' = c then t else vv ms m c' k)"
proof -
  have "start ms c + a < length m" using start_bound [of c ms] assms by linarith
  moreover have "start ms c' + 1 + k = start ms c + a \<longleftrightarrow> a = Suc k \<and> c' = c"
    using position_unique [of c ms c' a "Suc k"] assms by (auto simp: sel_def)
  ultimately show ?thesis unfolding vv_def by (metis nth_list_update_eq nth_list_update_neq)
qed

lemma DERIV_score_w:
  assumes "c < length ms" "0 < ms ! c" "sum_list ms = length m" and es: "\<And>c' e. (c', e) \<in> set es \<Longrightarrow> c' < length ms"
  shows "((\<lambda>t. score d ms (m[start ms c := t]) es) has_real_derivative occ c es) (at t0)"
proof -
  note wu = wv_update [OF assms(1,2,3), unfolded add_0_right]
  have cst: "xv ms (m[start ms c := t]) (embedded d ms es) k = xv ms m (embedded d ms es) k"
      "xxvv ms (m[start ms c := t]) (embedded d ms es) k = xxvv ms m (embedded d ms es) k" if "k < d" for t k
    using vv_update [OF assms(1,2,3) _ that, of _ t]
    by (auto simp: xv_def xxvv_def embedded_def intro!: arg_cong [where f = sum_list])
  have "((\<lambda>t. wv ms (m[start ms c := t]) c' * e) has_real_derivative (if c' = c then e else 0)) (at t0)" if "(c', e) \<in> set es" for c' e
    using wu [OF es [OF that]] by (cases "c' = c") (auto intro!: derivative_eq_intros)
  then have "((\<lambda>t. lin ms (m[start ms c := t]) es) has_real_derivative occ c es) (at t0)"
    unfolding lin_def occ_def case_prod_beta by (intro DERIV_sum_list) (metis prod.collapse)
  moreover have "score d ms (m[start ms c := t]) es = lin ms (m[start ms c := t]) es + (score d ms m es - lin ms m es)" for t
    unfolding score_def using cst [of _ t] by (auto intro!: arg_cong [where f = sum_list])
  ultimately show ?thesis by (simp add: DERIV_cmult_Id) (auto intro!: derivative_eq_intros)
qed

lemma DERIV_score_V:
  assumes c: "sel d ms c" "k < d" and m: "sum_list ms = length m" and es: "\<And>c' e. (c', e) \<in> set es \<Longrightarrow> c' < length ms"
  shows "((\<lambda>t. score d ms (m[start ms c + Suc k := t]) es) has_real_derivative
     xv ms m (embedded d ms es) k * occ c es - vv ms m c k * occ2 c es) (at (vv ms m c k))"
proof -
  have c': "c < length ms" "Suc k < ms ! c" using c by (simp_all add: sel_def)
  let ?m = "\<lambda>t. m[start ms c + Suc k := t]" and ?E = "embedded d ms es" and ?v = "vv ms m c k"
  note vu = vv_update [OF c' m] and wu = wv_update [OF c' m]
  have lin: "lin ms (?m t) es = lin ms m es" for t
    using wu es by (auto simp: lin_def intro!: arg_cong [where f = sum_list])
  have cell: "((\<lambda>t. xv ms (?m t) ?E k' * xv ms (?m t) ?E k' - xxvv ms (?m t) ?E k') has_real_derivative
      (if k' = k then 2 * (xv ms m ?E k * occ c es - ?v * occ2 c es) else 0)) (at ?v)" if "k' < d" for k'
  proof (cases "k' = k")
    case True
    have cells: "((\<lambda>t. vv ms (?m t) c' k * e) has_real_derivative (if c' = c then e else 0)) (at ?v)"
         "((\<lambda>t. (vv ms (?m t) c' k * vv ms (?m t) c' k) * (e * e)) has_real_derivative (if c' = c then 2 * ?v * (e * e) else 0)) (at ?v)"
      if "(c', e) \<in> set ?E" for c' e
    proof -
      have "vv ms (?m t) c' k = (if c' = c then t else vv ms m c' k)" for t using that vu [where c' = c' and k = k and t = t] c(2) by (auto simp: embedded_def)
      then show "((\<lambda>t. vv ms (?m t) c' k * e) has_real_derivative (if c' = c then e else 0)) (at ?v)"
         "((\<lambda>t. (vv ms (?m t) c' k * vv ms (?m t) c' k) * (e * e)) has_real_derivative (if c' = c then 2 * ?v * (e * e) else 0)) (at ?v)"
        by (cases "c' = c"; auto intro!: derivative_eq_intros)+
    qed
    have "((\<lambda>t. xv ms (?m t) ?E k) has_real_derivative occ c ?E) (at ?v)"
        "((\<lambda>t. xxvv ms (?m t) ?E k) has_real_derivative sum_list (map (\<lambda>(c', e). if c' = c then 2 * ?v * (e * e) else 0) ?E)) (at ?v)"
      unfolding xv_def xxvv_def occ_def case_prod_beta by (intro DERIV_sum_list cells; simp)+
    moreover have "sum_list (map (\<lambda>(c', e). if c' = c then 2 * ?v * (e * e) else 0) ?E) = 2 * ?v * occ2 c es"
      using c(1) by (induction es) (auto simp: occ2_def embedded_def algebra_simps split: if_splits)
    ultimately have x: "((\<lambda>t. xv ms (?m t) ?E k) has_real_derivative occ c es) (at ?v)"
        "((\<lambda>t. xxvv ms (?m t) ?E k) has_real_derivative 2 * ?v * occ2 c es) (at ?v)" by (simp_all only: occ_embedded [OF c(1)])
    have "?m ?v = m" by (simp add: vv_def)
    then have "((\<lambda>t. xv ms (?m t) ?E k * xv ms (?m t) ?E k - xxvv ms (?m t) ?E k) has_real_derivative
        occ c es * xv ms m ?E k + occ c es * xv ms m ?E k - 2 * ?v * occ2 c es) (at ?v)"
      using DERIV_diff [OF DERIV_mult' [OF x(1) x(1)] x(2)] by (simp add: mult.commute)
    moreover have "occ c es * xv ms m ?E k + occ c es * xv ms m ?E k - 2 * ?v * occ2 c es = 2 * (xv ms m ?E k * occ c es - ?v * occ2 c es)"
      by (simp add: algebra_simps)
    ultimately show ?thesis using True by (simp only: if_True refl)
  next
    case False
    then have "xv ms (?m t) ?E k' = xv ms m ?E k'" "xxvv ms (?m t) ?E k' = xxvv ms m ?E k'" for t
      using vu [where k = k'] that by (auto simp: xv_def xxvv_def embedded_def intro!: arg_cong [where f = sum_list])
    then show ?thesis using False by simp
  qed
  have "sum_list (map (\<lambda>k'. if k' = k then 2 * (xv ms m ?E k * occ c es - ?v * occ2 c es) else 0) [0..<d]) = 2 * (xv ms m ?E k * occ c es - ?v * occ2 c es)"
    using c(2) by (simp add: sum_list_map_upt)
  then have "((\<lambda>t. sum_list (map (\<lambda>k'. xv ms (?m t) ?E k' * xv ms (?m t) ?E k' - xxvv ms (?m t) ?E k') [0..<d])) has_real_derivative
      2 * (xv ms m ?E k * occ c es - ?v * occ2 c es)) (at ?v)"
    using DERIV_sum_list [of "[0..<d]" "\<lambda>k' t. xv ms (?m t) ?E k' * xv ms (?m t) ?E k' - xxvv ms (?m t) ?E k'", OF cell] by (simp only: set_upt) simp
  then show ?thesis unfolding score_def lin by (auto intro!: derivative_eq_intros)
qed

section \<open>The gradient\<close>

definition objective :: "nat \<Rightarrow> mat \<Rightarrow> nat list \<Rightarrow> real list \<Rightarrow> real" where
  "objective d data ms m = (\<Sum>i<rb_size data. ln (1 + exp (- (sgn_label (rb_label data ! i) * fm d ms m (row_entries data i)))))"

definition duals :: "nat \<Rightarrow> mat \<Rightarrow> nat list \<Rightarrow> real list \<Rightarrow> real list" where
  "duals d data ms m = map (\<lambda>i. logit_dual (rb_label data ! i) (scores data m ms d ! i)) [0..<rb_size data]"

lemma DERIV_objective:
  assumes "\<And>i. i < rb_size data \<Longrightarrow> ((\<lambda>t. score d ms (m[q := t]) (row_entries data i)) has_real_derivative s i) (at (m ! q))"
  shows "((\<lambda>t. objective d data ms (m[q := t])) has_real_derivative (\<Sum>i<rb_size data. duals d data ms m ! i * s i)) (at (m ! q))"
proof -
  have "((\<lambda>t. \<Sum>i<rb_size data. ln (1 + exp (- (sgn_label (rb_label data ! i) * score d ms (m[q := t]) (row_entries data i))))) has_real_derivative
      (\<Sum>i<rb_size data. logit_dual (rb_label data ! i) (score d ms (m[q := m ! q]) (row_entries data i)) * s i)) (at (m ! q))"
    by (intro DERIV_sum DERIV_logit assms) simp
  then show ?thesis by (simp add: objective_def score_fm [symmetric] duals_def scores_def)
qed

lemma slope_V_mat:
  assumes "mat_ok data (length ms)" "length ms \<le> 2 ^ 32" "i < rb_size data" "sel d ms c"
  shows "slope (V_mat d data ms) (rank d ms c) i = occ c (row_entries data i)"
    and "slope (square_values (V_mat d data ms)) (rank d ms c) i = occ2 c (row_entries data i)"
proof -
  have rows: "row_entries (V_mat d data ms) i = map (\<lambda>(c, e). (rank d ms c, e)) (filter (\<lambda>(c, e). sel d ms c) (row_entries data i))"
    by (rule V_mat_rows [OF assms(1-3)])
  have sq: "row_entries (square_values (V_mat d data ms)) i = map (\<lambda>(c, e). (c, e * e)) (row_entries (V_mat d data ms) i)"
    by (rule square_entries) (rule V_mat_bound [OF assms(3)])
  obtain es where ES: "row_entries data i = es" by simp
  have inj: "rank d ms c' = rank d ms c \<longleftrightarrow> c' = c" if "sel d ms c'" for c'
    using selected_rank [OF that] selected_rank [OF assms(4)] by metis
  show "slope (V_mat d data ms) (rank d ms c) i = occ c (row_entries data i)"
    unfolding slope_entries rows occ_def using assms(4) unfolding ES by (induction es) (auto simp: inj)
  show "slope (square_values (V_mat d data ms)) (rank d ms c) i = occ2 c (row_entries data i)"
    unfolding slope_entries sq rows occ2_def using assms(4) unfolding ES by (induction es) (auto simp: inj)
qed

text \<open>What \<open>CalcGrad\<close> stores before \<open>Save\<close>: the gradient of the weights, and of the embeddings.\<close>

definition grad_V :: "nat \<Rightarrow> mat \<Rightarrow> nat list \<Rightarrow> real list \<Rightarrow> real list" where
  "grad_V d data ms m =
     (let p = duals d data ms m; V = V_weight d ms m; XV = eval_XV data m ms d;
          xxp = mtm (square_values (V_mat d data ms)) p 1 (replicate (length (selected d ms)) 0);
          v1 = map (\<lambda>c. V ! c * (- xxp ! (c div d))) [0..<length V];
          xv = map (\<lambda>c. XV ! c * p ! (c div d)) [0..<length XV]
      in mtm (V_mat d data ms) xv d (trans_init 1 v1 (length v1)))"

lemma grad_V_cell:
  assumes "mat_ok data (length ms)" "length ms \<le> 2 ^ 32" "r < length (selected d ms)" "k < d"
  shows "grad_V d data ms m ! (r * d + k) = (\<Sum>i<rb_size data. duals d data ms m ! i *
     (xv ms m (embedded d ms (row_entries data i)) k * occ (selected d ms ! r) (row_entries data i)
      - vv ms m (selected d ms ! r) k * occ2 (selected d ms ! r) (row_entries data i)))"
proof -
  let ?c = "selected d ms ! r" and ?p = "duals d data ms m" and ?n = "rb_size data"
  have s: "sel d ms ?c" and rk: "rank d ms ?c = r" using selected_sel [OF assms(3)] rank_selected [OF assms(3)] .
  have dv: "(r * d + k) div d = r" "(i * d + k) div d = i" for i using assms(4) by simp_all
  have lt: "r * d + k < length (selected d ms) * d" "i < ?n \<Longrightarrow> i * d + k < ?n * d" for i
  proof -
    have *: "a < b \<Longrightarrow> a * d + k < b * d" for a b using assms(4) mult_le_mono1 [of "Suc a" b d] by simp
    show "r * d + k < length (selected d ms) * d" "i < ?n \<Longrightarrow> i * d + k < ?n * d" using * assms(3) by blast+
  qed
  have ne: "selected d ms \<noteq> []" using assms(3) by auto
  have xxp: "mtm (square_values (V_mat d data ms)) ?p 1 (replicate (length (selected d ms)) 0) ! r = (\<Sum>i<?n. ?p ! i * occ2 ?c (row_entries data i))"
    using mtm_cell [of r 1 0 "replicate (length (selected d ms)) 0" "square_values (V_mat d data ms)" ?p] assms(3)
      slope_V_mat(2) [OF assms(1,2) _ s] by (simp add: rk sum_list_map_upt atLeast0LessThan)
  have "grad_V d data ms m ! (r * d + k) = vv ms m ?c k * - (\<Sum>i<?n. ?p ! i * occ2 ?c (row_entries data i)) +
      (\<Sum>i<?n. xv ms m (embedded d ms (row_entries data i)) k * ?p ! i * occ ?c (row_entries data i))"
  proof -
    have "map (\<lambda>c. mm (V_mat d data ms) (V_weight d ms m) d ! c * ?p ! (c div d)) [0..<?n * d] ! (i * d + k) * slope (V_mat d data ms) r i =
        xv ms m (embedded d ms (row_entries data i)) k * ?p ! i * occ ?c (row_entries data i)" if "i < ?n" for i
      using lt(2) [OF that] slope_V_mat(1) [OF assms(1,2) that s] V_mat_product(1) [OF assms(1,2) that assms(4)] by (simp add: rk dv)
    then show ?thesis
      unfolding grad_V_def Let_def using ne lt(1) assms(3,4) xxp
      by (subst mtm_cell) (simp_all add: trans_init_def dv V_weight_nth sum_list_map_upt atLeast0LessThan eval_XV_def)
  qed
  then show ?thesis by (simp add: algebra_simps sum_subtractf sum_distrib_left)
qed

lemma start_lt: "c < length ms \<Longrightarrow> a < ms ! c \<Longrightarrow> start ms c + a < sum_list ms"
  using start_bound [of c ms] by linarith

lemma w_pieces:
  assumes "sum_list ms = n" "n \<le> no_pos"
  shows "pieces_ok 1 (map (\<lambda>c. if ms ! c = 0 then no_pos else start ms c) [0..<length ms]) n"
proof -
  have "start ms c \<noteq> start ms c'" if "c < length ms" "c' < length ms" "c \<noteq> c'" "0 < ms ! c" "0 < ms ! c'" for c c'
    using position_unique [of c ms c' 0 0] that by auto
  moreover have "start ms c < n" if "c < length ms" "0 < ms ! c" for c using start_lt [of c ms 0] that assms by simp
  ultimately show ?thesis using assms by (fastforce simp: pieces_ok_def neq_iff Suc_le_eq split: if_splits)
qed

lemma V_pieces:
  assumes "sum_list ms = n"
  shows "pieces_ok d (map (\<lambda>c. start ms c + 1) (selected d ms)) n"
proof -
  have "start ms c + 1 + d \<le> start ms c' + 1 \<or> start ms c' + 1 + d \<le> start ms c + 1" if "sel d ms c" "sel d ms c'" "c \<noteq> c'" for c c'
  proof -
    consider "Suc c \<le> c'" | "Suc c' \<le> c" using \<open>c \<noteq> c'\<close> by linarith
    then show ?thesis using start_mono [of "Suc c" c' ms] start_mono [of "Suc c'" c ms] start_Suc [of c ms] start_Suc [of c' ms] that
      by cases (auto simp: sel_def)
  qed
  moreover have "selected d ms ! r \<noteq> selected d ms ! r'" if "r < length (selected d ms)" "r' < length (selected d ms)" "r \<noteq> r'" for r r'
    using that by (simp add: selected_def nth_eq_iff_index_eq)
  moreover have "start ms c + 1 + d \<le> n" if "c \<in> set (selected d ms)" for c
    using start_bound [of c ms] that assms by (auto simp: selected_def sel_def)
  ultimately show ?thesis using selected_sel by (fastforce simp: pieces_ok_def)
qed

lemma eval_XV_length: "selected d ms \<noteq> [] \<Longrightarrow> length (eval_XV data m ms d) = rb_size data * d"
  by (simp add: eval_XV_def)

lemma grad_V_length: "length (grad_V d data ms m) = length (selected d ms) * d"
  by (simp add: grad_V_def Let_def trans_init_def)

text \<open>\<open>CalcGrad\<close> after \<open>Evaluate\<close>, with no clipping, dropout or normalization.\<close>

lemma CalcGrad_evaluated:
  assumes "ec_dim cf = d" "d > 0" "ms \<noteq> []" "ec_clip cf = 0" "ec_dropout cf = 0" "\<not> ec_norm cf"
  shows "\<exists>l. Loss_CalcGrad rnd ((loss_of data m ms cf)\<lparr>lo_py := scores data m ms d,
      lo_V := (V_Data d data ms m)\<lparr>da_XV := eval_XV data m ms d\<rparr>\<rparr>) grad =
    Ok (l, save_pieces d (map (\<lambda>c. start ms c + 1) (selected d ms)) (grad_V d data ms m)
      (save_pieces 1 (map (\<lambda>c. if ms ! c = 0 then no_pos else start ms c) [0..<length ms])
        (mtv data (duals d data ms m) (length ms)) grad))"
proof -
  have p: "map (\<lambda>i. logit_dual (rb_label data ! i) (scores data m ms d ! i)) [0..<rb_size data] = duals d data ms m"
    by (simp add: duals_def scores_def)
  have lp: "length (duals d data ms m) = rb_size data" "length (scores data m ms d) = rb_size data" by (simp_all add: duals_def scores_def)
  have ne: "mtv data (duals d data ms m) (length ms) \<noteq> []" using assms(3) by (simp add: mtv_def)
  have save_w: "Data_Save ((w_Data data ms m)\<lparr>da_weight := mtv data (duals d data ms m) (length ms)\<rparr>) grad =
      Ok (save_pieces 1 (map (\<lambda>c. if ms ! c = 0 then no_pos else start ms c) [0..<length ms]) (mtv data (duals d data ms m) (length ms)) grad)" for grad
    using ne by (simp add: Data_Save_def w_Data_def new_Data_def)
  have save_V: "Data_Save \<lparr>da_dim = d, da_X = X, da_XX = XX, da_weight = ws, da_pos = ps, da_XV = xvs\<rparr> g =
      check (length ws = length ps * d) ''weight.size() == pos.size()*d'' (Ok (save_pieces d ps ws g))" if "ws \<noteq> [] \<or> ps = []" for X XX ws ps xvs g
    using that assms(2) by (auto simp: Data_Save_def check_def)
  have w: "da_X (w_Data data ms m) = data" "length (da_weight (w_Data data ms m)) = length ms" by (simp_all add: w_Data_def)
  show ?thesis
  proof (cases "selected d ms = []")
    case True
    then show ?thesis using assms
      by (simp add: Loss_CalcGrad_def loss_of_def w p lp save_w save_V V_Data_def V_weight_def Let_def new_Data_def)
  next
    case False
    then have nV: "V_weight d ms m \<noteq> []" "grad_V d data ms m \<noteq> []" using assms(2) V_weight_length [of d ms m] grad_V_length [of d data ms m]
      by (auto simp del: V_weight_length)
    have g: "mtm (V_mat d data ms) (map (\<lambda>c. eval_XV data m ms d ! c * duals d data ms m ! (c div d)) [0..<d * rb_size data]) d
        (trans_init 1 (map (\<lambda>c. - (V_weight d ms m ! c * mtm (square_values (V_mat d data ms)) (duals d data ms m) (Suc 0)
           (replicate (length (selected d ms)) 0) ! (c div d))) [0..<d * length (selected d ms)]) (d * length (selected d ms))) = grad_V d data ms m"
      using eval_XV_length [OF False, of data m] by (simp add: grad_V_def Let_def mult.commute)
    show ?thesis using assms False nV eval_XV_length [OF False, of data m] grad_V_length [of d data ms m]
      by (simp add: Loss_CalcGrad_def loss_of_def w p lp save_w save_V V_Data_def Let_def new_Data_def preprocess_def g mult.commute)
  qed
qed

lemma saved_w:
  assumes "fm_ok data m ms" "length m \<le> no_pos" "length grad = length m" "c < length ms" "0 < ms ! c"
  shows "save_pieces d (map (\<lambda>c. start ms c + 1) (selected d ms)) (grad_V d data ms m)
      (save_pieces 1 (map (\<lambda>c. if ms ! c = 0 then no_pos else start ms c) [0..<length ms]) (mtv data p (length ms)) grad) ! start ms c =
    mtv data p (length ms) ! c"
proof -
  let ?ps = "map (\<lambda>c. if ms ! c = 0 then no_pos else start ms c) [0..<length ms]" and ?qs = "map (\<lambda>c. start ms c + 1) (selected d ms)"
  let ?g = "save_pieces 1 ?ps (mtv data p (length ms)) grad"
  have sm: "sum_list ms = length m" using assms(1) by (simp add: fm_ok_def)
  have pw: "pieces_ok 1 ?ps (length grad)" using w_pieces [OF sm assms(2)] assms(3) by simp
  have lt: "start ms c < length m" using start_lt [of c ms 0] assms sm by simp
  then have np: "?ps ! c = start ms c" "start ms c \<noteq> no_pos" using assms by auto
  have in_w: "?g ! start ms c = mtv data p (length ms) ! c"
    using save_pieces_inside [OF pw, of "mtv data p (length ms)" c 0] assms(4) np by simp
  have len: "length ?g = length m" using save_pieces_outside [OF pw, of "mtv data p (length ms)"] assms(3) by simp
  have "start ms c < q \<or> q + d \<le> start ms c" if q: "q \<in> set ?qs" for q
  proof -
    obtain c' where c': "sel d ms c'" "q = start ms c' + 1" using q by (auto simp: selected_def)
    show ?thesis
    proof (rule ccontr)
      assume "\<not> ?thesis"
      then have "start ms c = start ms c' + (start ms c - start ms c')" "0 < start ms c - start ms c'" "start ms c - start ms c' < ms ! c'"
        using c' by (auto simp: sel_def)
      then show False using position_unique [of c ms c' 0 "start ms c - start ms c'"] assms(4,5) c'(1) by (simp add: sel_def)
    qed
  qed
  moreover have "pieces_ok d ?qs (length ?g)" using V_pieces [OF sm] len by simp
  moreover have "length (grad_V d data ms m) = length ?qs * d" by (simp add: grad_V_length)
  ultimately have "save_pieces d ?qs (grad_V d data ms m) ?g ! start ms c = ?g ! start ms c"
    using save_pieces_outside [of d ?qs ?g "grad_V d data ms m"] lt [folded len] by blast
  then show ?thesis using in_w by simp
qed

lemma saved_V:
  assumes "fm_ok data m ms" "length m \<le> no_pos" "length g = length m" "sel d ms c" "k < d"
  shows "save_pieces d (map (\<lambda>c. start ms c + 1) (selected d ms)) (grad_V d data ms m) g ! (start ms c + Suc k) =
    grad_V d data ms m ! (rank d ms c * d + k)"
proof -
  let ?qs = "map (\<lambda>c. start ms c + 1) (selected d ms)"
  have sm: "sum_list ms = length m" using assms(1) by (simp add: fm_ok_def)
  have r: "rank d ms c < length ?qs" "?qs ! rank d ms c = start ms c + 1" using rank_lt [OF assms(4)] selected_rank [OF assms(4)] by simp_all
  have "start ms c + Suc k < length m" using start_lt [of c ms "Suc k"] assms(4,5) sm by (simp add: sel_def)
  then have "?qs ! rank d ms c \<noteq> no_pos" using r(2) assms(2) by simp
  then show ?thesis
    using save_pieces_inside [OF _ _ r(1), of d g "grad_V d data ms m" k] V_pieces [OF sm, of d] assms(3,5) grad_V_length r by simp
qed

text \<open>
  C4: \<open>Loss::CalcGrad\<close> computes the gradient: called after \<open>Evaluate\<close>, with no gradient clipping, dropout
  or normalization, it overwrites its argument with a vector in the layout of the model whose cell \<open>q\<close> is the
  derivative of the logistic objective of the factorization machine in parameter \<open>q\<close>, for weights and cells of
  embeddings alike.
\<close>

theorem CalcGrad_is_gradient:
  assumes "fm_ok data m ms" and "ec_dim cf > 0" and "set ms \<subseteq> {0, 1, ec_dim cf + 1}" and "length m \<le> no_pos"
    and "ec_clip cf = 0" and "ec_dropout cf = 0" and "\<not> ec_norm cf" and "length grad = length m" and "q < length m"
  shows "\<exists>l l' pr l'' g. new_Loss data m ms (Some cf) = Ok l \<and> Loss_Evaluate so l = Ok (l', pr) \<and>
    Loss_CalcGrad rnd l' grad = Ok (l'', g) \<and>
    ((\<lambda>t. objective (ec_dim cf) data ms (m[q := t])) has_real_derivative g ! q) (at (m ! q))"
proof -
  define d where "d = ec_dim cf"
  let ?ps = "map (\<lambda>c. if ms ! c = 0 then no_pos else start ms c) [0..<length ms]"
  define g1 where "g1 = save_pieces 1 ?ps (mtv data (duals d data ms m) (length ms)) grad"
  define g where "g = save_pieces d (map (\<lambda>c. start ms c + 1) (selected d ms)) (grad_V d data ms m) g1"
  have ok: "mat_ok data (length ms)" "length ms \<le> 2 ^ 32" "sum_list ms = length m" "ms \<noteq> []" and d: "d > 0" "ec_dim cf = d"
    using assms(1,2) by (simp_all add: fm_ok_def d_def)
  note eb = entries_bound [OF ok(1)]
  have len1: "length g1 = length m"
    unfolding g1_def using save_pieces_outside [of 1 ?ps grad "mtv data (duals d data ms m) (length ms)"] w_pieces [OF ok(3) assms(4)] assms(8) by simp
  obtain c a where c: "c < length ms" "a < ms ! c" "q = start ms c + a" using position_exists assms(9) ok(3) by metis
  have "((\<lambda>t. objective d data ms (m[q := t])) has_real_derivative g ! q) (at (m ! q))"
  proof (cases a)
    case 0
    have "g ! q = (\<Sum>i<rb_size data. duals d data ms m ! i * occ c (row_entries data i))"
      using saved_w [OF assms(1,4,8) c(1), of d "duals d data ms m"] c 0
      by (simp add: g_def g1_def mtv_def col_sum_real slope_entries occ_def sum_list_map_upt atLeast0LessThan)
    then show ?thesis
      using DERIV_objective [of data d ms m q "\<lambda>i. occ c (row_entries data i)"] DERIV_score_w [OF c(1) _ ok(3) eb] c 0 by simp
  next
    case (Suc k)
    have "ms ! c \<in> {0, 1, d + 1}" using c(1) assms(3) nth_mem d(2) by blast
    then have s: "sel d ms c" "k < d" using c Suc by (auto simp: sel_def)
    have "g ! q = (\<Sum>i<rb_size data. duals d data ms m ! i *
        (xv ms m (embedded d ms (row_entries data i)) k * occ c (row_entries data i) - vv ms m c k * occ2 c (row_entries data i)))"
      using saved_V [OF assms(1,4) len1 s] grad_V_cell [OF ok(1,2) rank_lt [OF s(1)] s(2)] selected_rank [OF s(1)] c Suc by (simp add: g_def)
    moreover have "vv ms m c k = m ! q" "start ms c + Suc k = q" using c Suc by (simp_all add: vv_def)
    ultimately show ?thesis
      using DERIV_objective [of data d ms m q] DERIV_score_V [OF s ok(3) eb] by simp
  qed
  moreover have "new_Loss data m ms (Some cf) = Ok (loss_of data m ms cf)" using ok d by (simp add: new_Loss_ok)
  ultimately show ?thesis
    using Evaluate_loss_of [OF ok(1,2) d(2,1), of so m] CalcGrad_evaluated [OF d(2,1) ok(4) assms(5-7), of rnd data m grad, folded g1_def, folded g_def] d(2)
    by fastforce
qed

theorem CalcGrad_is_gradient_witness:
  "\<exists>l l' pr l'' g. new_Loss demo_fm [1, 10, 100, 7] [2, 0, 2] (Some \<lparr>ec_dim = 1, ec_dropout = 0, ec_clip = 0, ec_norm = False\<rparr>) = Ok l \<and>
     Loss_Evaluate (\<lambda>x. x) l = Ok (l', pr) \<and> Loss_CalcGrad (\<lambda>_. 0) l' [0, 0, 0, 0] = Ok (l'', g) \<and>
     ((\<lambda>t. objective 1 demo_fm [2, 0, 2] ([1, 10, 100, 7][3 := t])) has_real_derivative g ! 3) (at 7)"
proof -
  have "length [1, 10, 100, 7 :: real] \<le> no_pos" by (simp add: no_pos_def)
  then show ?thesis
    using CalcGrad_is_gradient [OF demo_fm_ok, of "\<lparr>ec_dim = 1, ec_dropout = 0, ec_clip = 0, ec_norm = False\<rparr>" "[0, 0, 0, 0]" 3 "\<lambda>x. x" "\<lambda>_. 0"]
    by simp
qed

end
