(* ===== verification/KVStore.thy ===== *)
theory KVStore
  imports SaveLoad
begin

text \<open>
  The key-value store of a parameter server (\<open>kv_store.h\<close>, \<open>kv_store_sparse_st.h\<close>, \<open>kv_store_sparse.h\<close>).
  The store is a template over an entry type and an updater (a "handle"): here the operations of the handle
  are arguments of the definitions. \<open>push key recv e h\<close> is \<open>Handle::Push\<close> on the received cells and the entry,
  \<open>pull key e buf h\<close> is \<open>Handle::Pull\<close> given the cells of the reply from the current position on.
  Two locales state what the store relies on; the updaters of the other theories are their instances.
\<close>

section \<open>Blobs and messages\<close>

text \<open>
  What \<open>Pull\<close> leaves in its \<open>Blob\<close>: the cells of the reply buffer and a size, or a pointer to cells elsewhere.
\<close>

datatype 'v Pulled = InPlace "'v list" nat | External "'v list"

definition Blob_at :: "'v list \<Rightarrow> nat \<Rightarrow> 'v res" where
  "Blob_at b n = check (n < length b) ''n < size'' (Ok (b ! n))"

definition Blob_Slice :: "'v list \<Rightarrow> nat \<Rightarrow> nat \<Rightarrow> 'v list res" where
  "Blob_Slice b lo hi = check (lo \<le> hi) ''begin <= end'' (check (hi \<le> length b) ''end <= size'' (Ok (take (hi - lo) (drop lo b))))"

text \<open>The arrays of a message: values, or the sizes of the values of a dynamic message.\<close>

datatype 'v Arr = Vals "'v list" | Sizes "nat list"

record 'v Message =
  msg_push :: bool
  msg_replica :: bool
  msg_cmd :: int
  msg_dyn :: bool
  msg_key :: "u64 list"
  msg_value :: "'v Arr list"

record ('e, 'h) KVStoreSparseST =
  kv_data :: "u64 \<rightharpoonup> 'e"
  kv_handle :: 'h
  kv_k :: nat

text \<open>\<open>data_[key]\<close> makes the entry when it is missing.\<close>

definition entry_at :: "'e \<Rightarrow> (u64 \<rightharpoonup> 'e) \<Rightarrow> u64 \<Rightarrow> 'e" where
  "entry_at e0 data key = (case data key of Some e \<Rightarrow> e | None \<Rightarrow> e0)"

definition new_KVStoreSparseST :: "'h \<Rightarrow> nat \<Rightarrow> ('e, 'h) KVStoreSparseST res" where
  "new_KVStoreSparseST h k = check (k > 0) ''k_ > 0'' (Ok \<lparr>kv_data = Map.empty, kv_handle = h, kv_k = k\<rparr>)"

definition kv_Clear :: "('e, 'h) KVStoreSparseST \<Rightarrow> ('e, 'h) KVStoreSparseST" where
  "kv_Clear s = s\<lparr>kv_data := Map.empty\<rparr>"

section \<open>Pull\<close>

text \<open>\<open>while (val.size() < n) val.resize(val.size()*2 + 5)\<close>; the new cells are not initialised (\<open>junk\<close>).\<close>

function grow_to :: "'v \<Rightarrow> nat \<Rightarrow> 'v list \<Rightarrow> 'v list" where
  "grow_to junk n val = (if length val < n then grow_to junk n (val @ replicate (length val + 5) junk) else val)"
  by pat_completeness auto
termination by (relation "measure (\<lambda>(junk, n, val). n - length val)") auto

declare grow_to.simps [simp del]

fun pull_dyn ::
    "(u64 \<Rightarrow> 'e \<Rightarrow> 'v list \<Rightarrow> 'h \<Rightarrow> 'v Pulled res) \<Rightarrow> 'e \<Rightarrow> 'v \<Rightarrow> nat \<Rightarrow> 'h \<Rightarrow> u64 list \<Rightarrow>
     (u64 \<rightharpoonup> 'e) \<Rightarrow> 'v list \<Rightarrow> nat \<Rightarrow> nat list \<Rightarrow> ((u64 \<rightharpoonup> 'e) \<times> 'v list \<times> nat \<times> nat list) res" where
  "pull_dyn pull e0 junk k h [] data val start sizes = Ok (data, val, start, sizes)"
| "pull_dyn pull e0 junk k h (key # keys) data val start sizes =
     (let val1 = grow_to junk (start + k) val; len = length val1 - start; e = entry_at e0 data key; data' = data(key \<mapsto> e) in
      rbind (pull key e (drop start val1) h) (\<lambda>p. case p of
        External xs \<Rightarrow>
          (let val2 = grow_to junk (start + length xs) val1 in
           pull_dyn pull e0 junk k h keys data' (take start val2 @ xs @ drop (start + length xs) val2) (start + length xs) (sizes @ [length xs]))
      | InPlace buf sz \<Rightarrow>
          check (sz \<le> len) ''pull.size <= len''
            (pull_dyn pull e0 junk k h keys data' (take start val1 @ buf) (start + sz) (sizes @ [sz]))))"

fun pull_fixed ::
    "(u64 \<Rightarrow> 'e \<Rightarrow> 'v list \<Rightarrow> 'h \<Rightarrow> 'v Pulled res) \<Rightarrow> 'e \<Rightarrow> 'v \<Rightarrow> nat \<Rightarrow> 'h \<Rightarrow> u64 list \<Rightarrow>
     (u64 \<rightharpoonup> 'e) \<Rightarrow> 'v list \<Rightarrow> ((u64 \<rightharpoonup> 'e) \<times> 'v list) res" where
  "pull_fixed pull e0 junk k h [] data val = Ok (data, val)"
| "pull_fixed pull e0 junk k h (key # keys) data val =
     (let e = entry_at e0 data key; data' = data(key \<mapsto> e) in
      rbind (pull key e (replicate k junk) h) (\<lambda>p. case p of
        External xs \<Rightarrow> check (length xs = k) ''use dyanmic pull'' (pull_fixed pull e0 junk k h keys data' (val @ xs))
      | InPlace buf sz \<Rightarrow> check (sz = k) ''use dyanmic pull'' (pull_fixed pull e0 junk k h keys data' (val @ buf))))"

definition HandlePull ::
    "(bool \<Rightarrow> int \<Rightarrow> 'h \<Rightarrow> 'h) \<Rightarrow> (u64 \<Rightarrow> 'e \<Rightarrow> 'v list \<Rightarrow> 'h \<Rightarrow> 'v Pulled res) \<Rightarrow> ('h \<Rightarrow> 'h) \<Rightarrow> 'e \<Rightarrow> 'v \<Rightarrow>
     'v Message \<Rightarrow> ('e, 'h) KVStoreSparseST \<Rightarrow> ('v Message \<times> ('e, 'h) KVStoreSparseST) res" where
  "HandlePull start pull finish e0 junk msg s =
     (let h = start False (msg_cmd msg) (kv_handle s); keys = msg_key msg; k = kv_k s in
      if msg_dyn msg then
        rbind (pull_dyn pull e0 junk k h keys (kv_data s) (replicate (length keys * k) junk) 0 []) (\<lambda>(data, val, st, sizes).
          Ok (msg\<lparr>msg_value := msg_value msg @ [Vals (take st val), Sizes sizes]\<rparr>, s\<lparr>kv_data := data, kv_handle := finish h\<rparr>))
      else
        rbind (pull_fixed pull e0 junk k h keys (kv_data s) []) (\<lambda>(data, val).
          Ok (msg\<lparr>msg_value := msg_value msg @ [Vals val]\<rparr>, s\<lparr>kv_data := data, kv_handle := finish h\<rparr>)))"

section \<open>Push\<close>

fun push_dyn ::
    "(u64 \<Rightarrow> 'v list \<Rightarrow> 'e \<Rightarrow> 'h \<Rightarrow> ('e \<times> 'h) res) \<Rightarrow> 'e \<Rightarrow> u64 list \<Rightarrow> nat list \<Rightarrow> 'v list \<Rightarrow>
     (u64 \<rightharpoonup> 'e) \<Rightarrow> 'h \<Rightarrow> ((u64 \<rightharpoonup> 'e) \<times> 'h) res" where
  "push_dyn push e0 (key # keys) (k # ks) val data h =
     (if k = 0 then push_dyn push e0 keys ks val data h
      else rbind (push key (take k val) (entry_at e0 data key) h) (\<lambda>(e, h').
        push_dyn push e0 keys ks (drop k val) (data(key \<mapsto> e)) h'))"
| "push_dyn push e0 _ _ val data h = Ok (data, h)"

fun push_fixed ::
    "(u64 \<Rightarrow> 'v list \<Rightarrow> 'e \<Rightarrow> 'h \<Rightarrow> ('e \<times> 'h) res) \<Rightarrow> 'e \<Rightarrow> nat \<Rightarrow> u64 list \<Rightarrow> 'v list \<Rightarrow>
     (u64 \<rightharpoonup> 'e) \<Rightarrow> 'h \<Rightarrow> ((u64 \<rightharpoonup> 'e) \<times> 'h) res" where
  "push_fixed push e0 k [] val data h = Ok (data, h)"
| "push_fixed push e0 k (key # keys) val data h =
     rbind (push key (take k val) (entry_at e0 data key) h) (\<lambda>(e, h').
       push_fixed push e0 k keys (drop k val) (data(key \<mapsto> e)) h')"

definition HandlePush ::
    "(bool \<Rightarrow> int \<Rightarrow> 'h \<Rightarrow> 'h) \<Rightarrow> (u64 \<Rightarrow> 'v list \<Rightarrow> 'e \<Rightarrow> 'h \<Rightarrow> ('e \<times> 'h) res) \<Rightarrow> ('h \<Rightarrow> 'h) \<Rightarrow> 'e \<Rightarrow>
     'v Message \<Rightarrow> ('e, 'h) KVStoreSparseST \<Rightarrow> ('e, 'h) KVStoreSparseST res" where
  "HandlePush start push finish e0 msg s =
     (let h = start True (msg_cmd msg) (kv_handle s); keys = msg_key msg; n = length keys in
      rbind
       (if msg_dyn msg \<and> n > 0 then
          (case msg_value msg of
             [Vals val, Sizes ks] \<Rightarrow>
               check (length ks = n) ''val_size.size() == n''
                (check (sum_list ks = length val) ''len == val.size()'' (push_dyn push e0 keys ks val (kv_data s) h))
           | _ \<Rightarrow> Err (CheckFailed ''msg->value.size() == 2''))
        else if \<not> msg_dyn msg \<and> n > 0 then
          (case msg_value msg of
             [Vals val] \<Rightarrow>
               (let k = length val div n in check (k * n = length val) ''k * n == val.size()'' (push_fixed push e0 k keys val (kv_data s) h))
           | _ \<Rightarrow> Err (CheckFailed ''msg->value.size() == 1''))
        else Ok (kv_data s, h))
       (\<lambda>(data, h'). Ok (s\<lparr>kv_data := data, kv_handle := finish h'\<rparr>)))"

text \<open>\<open>KVStore::ProcessRequest\<close>: replica requests are no-ops in this store; a pull is answered.\<close>

definition ProcessRequest ::
    "(bool \<Rightarrow> int \<Rightarrow> 'h \<Rightarrow> 'h) \<Rightarrow> (u64 \<Rightarrow> 'v list \<Rightarrow> 'e \<Rightarrow> 'h \<Rightarrow> ('e \<times> 'h) res) \<Rightarrow>
     (u64 \<Rightarrow> 'e \<Rightarrow> 'v list \<Rightarrow> 'h \<Rightarrow> 'v Pulled res) \<Rightarrow> ('h \<Rightarrow> 'h) \<Rightarrow> 'e \<Rightarrow> 'v \<Rightarrow>
     'v Message \<Rightarrow> ('e, 'h) KVStoreSparseST \<Rightarrow> ('v Message option \<times> ('e, 'h) KVStoreSparseST) res" where
  "ProcessRequest start push pull finish e0 junk msg s =
     (if msg_replica msg then Ok (if msg_push msg then None else Some msg, s)
      else if msg_push msg then rbind (HandlePush start push finish e0 msg s) (\<lambda>s'. Ok (None, s'))
      else rbind (HandlePull start pull finish e0 junk msg s) (\<lambda>(r, s'). Ok (Some r, s')))"

section \<open>What pulls return\<close>

lemma grow_to_length: "n \<le> length (grow_to junk n val)"
proof (induction junk n val rule: grow_to.induct)
  case (1 junk n val)
  then show ?case by (subst grow_to.simps) auto
qed

lemma grow_to_prefix: "k \<le> length val \<Longrightarrow> take k (grow_to junk n val) = take k val"
proof (induction junk n val rule: grow_to.induct)
  case (1 junk n val)
  then show ?case by (subst grow_to.simps) auto
qed

lemma grow_to_mono: "length val \<le> length (grow_to junk n val)"
proof (induction junk n val rule: grow_to.induct)
  case (1 junk n val)
  then show ?case by (subst grow_to.simps) auto
qed

definition touch :: "'e \<Rightarrow> (u64 \<rightharpoonup> 'e) \<Rightarrow> u64 list \<Rightarrow> u64 \<rightharpoonup> 'e" where
  "touch e0 data keys = (\<lambda>k. if k \<in> set keys then Some (entry_at e0 data k) else data k)"

lemma touch_simps [simp]: "touch e0 data [] = data" "entry_at e0 (data(key \<mapsto> entry_at e0 data key)) = entry_at e0 data"
    "touch e0 (data(key \<mapsto> entry_at e0 data key)) keys = touch e0 data (key # keys)"
  by (auto simp: touch_def entry_at_def fun_eq_iff)

text \<open>
  The contract of a \<open>Pull\<close> in a store of fixed-size values: given \<open>k\<close> cells of the reply it points to the
  content of the entry or writes it there.
\<close>

locale fixed_puller =
  fixes pull :: "u64 \<Rightarrow> 'e \<Rightarrow> 'v list \<Rightarrow> 'h \<Rightarrow> 'v Pulled res" and k :: nat
    and good :: "'e \<Rightarrow> bool" and content :: "'h \<Rightarrow> 'e \<Rightarrow> 'v list"
  assumes fixed_law: "good e \<Longrightarrow> length buf = k \<Longrightarrow> length (content h e) = k \<Longrightarrow>
    pull key e buf h = Ok (External (content h e)) \<or> pull key e buf h = Ok (InPlace (content h e) k)"
begin

lemma pull_fixed_ok:
  assumes "\<And>x. x \<in> set keys \<Longrightarrow> good (entry_at e0 data x) \<and> length (content h (entry_at e0 data x)) = k"
  shows "pull_fixed pull e0 junk k h keys data val =
    Ok (touch e0 data keys, val @ concat (map (\<lambda>x. content h (entry_at e0 data x)) keys))"
  using assms
proof (induction keys arbitrary: data val)
  case (Cons key keys)
  let ?e = "entry_at e0 data key" let ?xs = "content h ?e"
  define data' where "data' = data(key \<mapsto> ?e)"
  have d: "entry_at e0 data' = entry_at e0 data" "touch e0 data' keys = touch e0 data (key # keys)" by (simp_all add: data'_def)
  have IH: "pull_fixed pull e0 junk k h keys data' (val @ ?xs) =
      Ok (touch e0 data (key # keys), val @ ?xs @ concat (map (\<lambda>x. content h (entry_at e0 data x)) keys))"
    using Cons.IH [of data' "val @ ?xs"] Cons.prems by (simp add: d)
  have "good ?e" "length ?xs = k" using Cons.prems by auto
  then have "pull key ?e (replicate k junk) h = Ok (External ?xs) \<or> pull key ?e (replicate k junk) h = Ok (InPlace ?xs k)"
    using fixed_law [of ?e "replicate k junk" h key] by simp
  then show ?case using IH \<open>length ?xs = k\<close> by (auto simp: data'_def [symmetric])
qed simp

lemma HandlePull_fixed:
  fixes start :: "bool \<Rightarrow> int \<Rightarrow> 'h \<Rightarrow> 'h"
  assumes "\<not> msg_dyn msg" "kv_k s = k"
    "\<And>x. x \<in> set (msg_key msg) \<Longrightarrow> good (entry_at e0 (kv_data s) x) \<and> length (content (start False (msg_cmd msg) (kv_handle s)) (entry_at e0 (kv_data s) x)) = k"
  shows "HandlePull start pull finish e0 junk msg s =
    Ok (msg\<lparr>msg_value := msg_value msg @ [Vals (concat (map (\<lambda>x. content (start False (msg_cmd msg) (kv_handle s)) (entry_at e0 (kv_data s) x)) (msg_key msg)))]\<rparr>,
        s\<lparr>kv_data := touch e0 (kv_data s) (msg_key msg), kv_handle := finish (start False (msg_cmd msg) (kv_handle s))\<rparr>)"
  using pull_fixed_ok [of "msg_key msg" e0 "kv_data s" "start False (msg_cmd msg) (kv_handle s)" junk "[]"] assms
  by (simp add: HandlePull_def Let_def)

end

text \<open>
  The contract of a \<open>Pull\<close>: an entry has some content, and \<open>Pull\<close> either points to it or writes it at the start
  of the reply when it fits \<open>k\<close> cells, whatever the rest of the reply holds.
\<close>

locale puller =
  fixes pull :: "u64 \<Rightarrow> 'e \<Rightarrow> 'v list \<Rightarrow> 'h \<Rightarrow> 'v Pulled res" and k :: nat
    and good :: "'e \<Rightarrow> bool" and content :: "'h \<Rightarrow> 'e \<Rightarrow> 'v list"
  assumes pull_law: "good e \<Longrightarrow> k \<le> length buf \<Longrightarrow>
    pull key e buf h = Ok (External (content h e)) \<or>
    length (content h e) \<le> k \<and> (\<exists>buf'. pull key e buf h = Ok (InPlace buf' (length (content h e))) \<and>
       length buf' = length buf \<and> take (length (content h e)) buf' = content h e)"
begin

lemma pull_dyn_ok:
  assumes "\<And>x. x \<in> set keys \<Longrightarrow> good (entry_at e0 data x)" and "start \<le> length val"
  shows "\<exists>val' start'. pull_dyn pull e0 junk k h keys data val start sizes =
      Ok (touch e0 data keys, val', start', sizes @ map (\<lambda>x. length (content h (entry_at e0 data x))) keys) \<and>
    start' \<le> length val' \<and> take start' val' = take start val @ concat (map (\<lambda>x. content h (entry_at e0 data x)) keys)"
  using assms
proof (induction keys arbitrary: data val start sizes)
  case (Cons key keys)
  define val1 where "val1 = grow_to junk (start + k) val"
  let ?e = "entry_at e0 data key" let ?xs = "content h ?e"
  define data' where "data' = data(key \<mapsto> ?e)"
  have d: "entry_at e0 data' = entry_at e0 data" "touch e0 data' keys = touch e0 data (key # keys)" by (simp_all add: data'_def)
  have v1: "start + k \<le> length val1" "take start val1 = take start val"
    using grow_to_length [of "start + k" junk val] grow_to_prefix [of start val junk] Cons.prems(2) by (simp_all add: val1_def)
  have IH: "start2 \<le> length val2 \<Longrightarrow> take start2 val2 = take start val @ ?xs \<Longrightarrow>
      \<exists>val' start'. pull_dyn pull e0 junk k h keys data' val2 start2 (sizes @ [length ?xs]) =
      Ok (touch e0 data (key # keys), val', start', sizes @ map (\<lambda>x. length (content h (entry_at e0 data x))) (key # keys)) \<and>
      start' \<le> length val' \<and> take start' val' = take start val @ concat (map (\<lambda>x. content h (entry_at e0 data x)) (key # keys))"
    for val2 start2 using Cons.IH [of data' start2 val2 "sizes @ [length ?xs]"] Cons.prems(1) by (simp add: d)
  have kl: "k \<le> length (drop start val1)" using v1 by simp
  have "good ?e" using Cons.prems by simp
  then consider (ext) "pull key ?e (drop start val1) h = Ok (External ?xs)"
    | (inp) buf where "pull key ?e (drop start val1) h = Ok (InPlace buf (length ?xs))" "length ?xs \<le> k"
        "length buf = length (drop start val1)" "take (length ?xs) buf = ?xs"
    using pull_law [of ?e "drop start val1" key h, OF _ kl] by blast
  then show ?case
  proof cases
    case ext
    define val2 where "val2 = grow_to junk (start + length ?xs) val1"
    have "start + length ?xs \<le> length val2" "take start val2 = take start val"
      using grow_to_length [of "start + length ?xs" junk val1] grow_to_prefix [of start val1 junk] v1 by (simp_all add: val2_def)
    then show ?thesis using IH [of "start + length ?xs" "take start val2 @ ?xs @ drop (start + length ?xs) val2"] ext Cons.prems(2)
      by (simp add: Let_def val1_def [symmetric] val2_def [symmetric] data'_def [symmetric])
  next
    case inp
    have "min start (length val1) = start" using v1 by simp
    then show ?thesis using IH [of "start + length ?xs" "take start val1 @ buf"] inp v1 Cons.prems(2)
      by (simp add: Let_def val1_def [symmetric] data'_def [symmetric])
  qed
qed simp

lemma HandlePull_dyn:
  fixes start :: "bool \<Rightarrow> int \<Rightarrow> 'h \<Rightarrow> 'h"
  assumes "msg_dyn msg" "kv_k s = k" "\<And>x. x \<in> set (msg_key msg) \<Longrightarrow> good (entry_at e0 (kv_data s) x)"
  defines "vals \<equiv> map (\<lambda>x. content (start False (msg_cmd msg) (kv_handle s)) (entry_at e0 (kv_data s) x)) (msg_key msg)"
  shows "HandlePull start pull finish e0 junk msg s =
    Ok (msg\<lparr>msg_value := msg_value msg @ [Vals (concat vals), Sizes (map length vals)]\<rparr>,
        s\<lparr>kv_data := touch e0 (kv_data s) (msg_key msg), kv_handle := finish (start False (msg_cmd msg) (kv_handle s))\<rparr>)"
proof -
  let ?h = "start False (msg_cmd msg) (kv_handle s)"
  obtain val' start' where "pull_dyn pull e0 junk k ?h (msg_key msg) (kv_data s) (replicate (length (msg_key msg) * k) junk) 0 [] =
      Ok (touch e0 (kv_data s) (msg_key msg), val', start', map length vals)" "take start' val' = concat vals"
    using pull_dyn_ok [where keys = "msg_key msg" and data = "kv_data s" and ?e0.0 = e0 and start = 0 and sizes = "[]" and h = ?h
        and val = "replicate (length (msg_key msg) * k) junk" and junk = junk] assms(3)
    by (auto simp: vals_def comp_def)
  then show ?thesis using assms(1,2) by (simp add: HandlePull_def Let_def)
qed

end

sublocale puller \<subseteq> fixed_puller pull k good content
  by unfold_locales (use pull_law in fastforce)

section \<open>Runs of a store\<close>

text \<open>The states of a store that answers requests one after the other.\<close>

inductive kv_run ::
    "(bool \<Rightarrow> int \<Rightarrow> 'h \<Rightarrow> 'h) \<Rightarrow> (u64 \<Rightarrow> 'v list \<Rightarrow> 'e \<Rightarrow> 'h \<Rightarrow> ('e \<times> 'h) res) \<Rightarrow>
     (u64 \<Rightarrow> 'e \<Rightarrow> 'v list \<Rightarrow> 'h \<Rightarrow> 'v Pulled res) \<Rightarrow> ('h \<Rightarrow> 'h) \<Rightarrow> 'e \<Rightarrow> 'v \<Rightarrow>
     ('e, 'h) KVStoreSparseST \<Rightarrow> ('e, 'h) KVStoreSparseST \<Rightarrow> bool"
  for start push pull finish e0 junk s0 where
  run_init: "kv_run start push pull finish e0 junk s0 s0"
| run_step: "kv_run start push pull finish e0 junk s0 s \<Longrightarrow>
    ProcessRequest start push pull finish e0 junk msg s = Ok (r, s') \<Longrightarrow> kv_run start push pull finish e0 junk s0 s'"

definition total :: "('e \<Rightarrow> int) \<Rightarrow> (u64 \<rightharpoonup> 'e) \<Rightarrow> int" where
  "total weight data = (\<Sum>k\<in>dom data. weight (the (data k)))"

lemma total_update:
  assumes "finite (dom data)" and "weight e0 = 0"
  shows "total weight (data(key \<mapsto> e)) = total weight data + weight e - weight (entry_at e0 data key)"
proof -
  have "total weight (data(key \<mapsto> e)) = weight e + (\<Sum>k\<in>dom data - {key}. weight (the (data k)))"
  proof -
    have "dom (data(key \<mapsto> e)) = insert key (dom data - {key})" by auto
    moreover have "(\<Sum>k\<in>insert key (dom data - {key}). weight (the ((data(key \<mapsto> e)) k))) =
        weight (the ((data(key \<mapsto> e)) key)) + (\<Sum>k\<in>dom data - {key}. weight (the ((data(key \<mapsto> e)) k)))"
      using assms(1) by (intro sum.insert) auto
    moreover have "(\<Sum>k\<in>dom data - {key}. weight (the ((data(key \<mapsto> e)) k))) = (\<Sum>k\<in>dom data - {key}. weight (the (data k)))"
      by (intro sum.cong) auto
    ultimately show ?thesis by (simp add: total_def)
  qed
  moreover have "total weight data = weight (entry_at e0 data key) + (\<Sum>k\<in>dom data - {key}. weight (the (data k)))"
  proof (cases "key \<in> dom data")
    case True
    then show ?thesis using assms(1) by (auto simp: total_def entry_at_def sum.remove [of "dom data" key])
  next
    case False
    then show ?thesis using assms(2) by (simp add: total_def entry_at_def domIff)
  qed
  ultimately show ?thesis by simp
qed

text \<open>
  The contract of an updater that counts: entries keep an invariant, and its counter moves by the change of
  the weight of the entry that is pushed to; starting and finishing a request leave the counter alone.
\<close>

locale counting =
  fixes start :: "bool \<Rightarrow> int \<Rightarrow> 'h \<Rightarrow> 'h" and push :: "u64 \<Rightarrow> 'v list \<Rightarrow> 'e \<Rightarrow> 'h \<Rightarrow> ('e \<times> 'h) res"
    and finish :: "'h \<Rightarrow> 'h" and e0 :: 'e
    and fit :: "'h \<Rightarrow> bool" and good :: "'h \<Rightarrow> 'e \<Rightarrow> bool" and weight :: "'e \<Rightarrow> int" and counter :: "'h \<Rightarrow> int"
  assumes start_law: "fit h \<Longrightarrow> fit (start b c h) \<and> counter (start b c h) = counter h \<and> (\<forall>e. good (start b c h) e \<longleftrightarrow> good h e)"
    and finish_law: "fit h \<Longrightarrow> fit (finish h) \<and> counter (finish h) = counter h \<and> (\<forall>e. good (finish h) e \<longleftrightarrow> good h e)"
    and e0_law: "fit h \<Longrightarrow> good h e0" "weight e0 = 0"
    and push_law: "fit h \<Longrightarrow> good h e \<Longrightarrow> push key recv e h = Ok (e', h') \<Longrightarrow>
      fit h' \<and> good h' e' \<and> (\<forall>x. good h' x \<longleftrightarrow> good h x) \<and> counter h' - counter h = weight e' - weight e"
begin

definition sound :: "(u64 \<rightharpoonup> 'e) \<Rightarrow> 'h \<Rightarrow> bool" where
  "sound data h \<longleftrightarrow> fit h \<and> finite (dom data) \<and> (\<forall>k e. data k = Some e \<longrightarrow> good h e)"

lemma sound_entry: "sound data h \<Longrightarrow> good h (entry_at e0 data key)"
  using e0_law(1) by (auto simp: sound_def entry_at_def split: option.splits)

lemma sound_push:
  assumes "sound data h" "push key recv (entry_at e0 data key) h = Ok (e', h')"
  shows "sound (data(key \<mapsto> e')) h' \<and> counter h' - total weight (data(key \<mapsto> e')) = counter h - total weight data"
proof -
  have "fit h" "finite (dom data)" using assms(1) by (simp_all add: sound_def)
  then show ?thesis
    using push_law [OF _ sound_entry [OF assms(1)] assms(2)] total_update [of data weight e0 key e'] e0_law(2) assms(1)
    by (auto simp: sound_def)
qed

lemma push_dyn_sound:
  "push_dyn push e0 keys ks val data h = Ok (data', h') \<Longrightarrow> sound data h \<Longrightarrow>
   sound data' h' \<and> counter h' - total weight data' = counter h - total weight data"
proof (induction keys arbitrary: ks val data h)
  case (Cons key keys)
  note IH = Cons.IH
  show ?case
  proof (cases ks)
    case (Cons k ks')
    show ?thesis
    proof (cases "k = 0")
      case True
      then show ?thesis using IH [of ks' val data h] Cons Cons.prems by simp
    next
      case False
      then obtain e1 h1 where p: "push key (take k val) (entry_at e0 data key) h = Ok (e1, h1)"
          "push_dyn push e0 keys ks' (drop k val) (data(key \<mapsto> e1)) h1 = Ok (data', h')"
        using Cons.prems(1) Cons by (auto simp: rbind_Ok_iff)
      show ?thesis using IH [OF p(2)] sound_push [OF Cons.prems(2) p(1)] by (simp del: fun_upd_apply)
    qed
  qed (use Cons.prems in auto)
qed auto

lemma push_fixed_sound:
  "push_fixed push e0 k keys val data h = Ok (data', h') \<Longrightarrow> sound data h \<Longrightarrow>
   sound data' h' \<and> counter h' - total weight data' = counter h - total weight data"
proof (induction keys arbitrary: val data h)
  case (Cons key keys)
  then obtain e1 h1 where p: "push key (take k val) (entry_at e0 data key) h = Ok (e1, h1)"
      "push_fixed push e0 k keys (drop k val) (data(key \<mapsto> e1)) h1 = Ok (data', h')"
    by (auto simp: rbind_Ok_iff)
  show ?case using Cons.IH [OF p(2)] sound_push [OF Cons.prems(2) p(1)] by (simp del: fun_upd_apply)
qed auto

lemma pull_sound:
  "pull_dyn pull e0 junk k h keys data val st sizes = Ok (data', r) \<Longrightarrow> sound data h \<Longrightarrow> sound data' h \<and> total weight data' = total weight data"
  "pull_fixed pull e0 junk k h keys data val = Ok (data', val') \<Longrightarrow> sound data h \<Longrightarrow> sound data' h \<and> total weight data' = total weight data"
proof -
  have t: "sound (data(key \<mapsto> entry_at e0 data key)) h \<and> total weight (data(key \<mapsto> entry_at e0 data key)) = total weight data"
    if "sound data h" for data key
    using that total_update [of data weight e0 key "entry_at e0 data key"] e0_law(2) sound_entry [OF that] by (auto simp: sound_def)
  show "pull_dyn pull e0 junk k h keys data val st sizes = Ok (data', r) \<Longrightarrow> sound data h \<Longrightarrow> sound data' h \<and> total weight data' = total weight data"
  proof (induction keys arbitrary: data val st sizes)
    case (Cons key keys)
    obtain p where p: "pull key (entry_at e0 data key) (drop st (grow_to junk (st + k) val)) h = Ok p"
      using Cons.prems(1) by (auto simp: Let_def rbind_Ok_iff)
    then obtain val2 st2 sizes2 where "pull_dyn pull e0 junk k h keys (data(key \<mapsto> entry_at e0 data key)) val2 st2 sizes2 = Ok (data', r)"
      using Cons.prems(1) by (cases p) (auto simp: Let_def check_Ok_iff)
    then show ?case using Cons.IH t [OF Cons.prems(2), of key] by (metis (no_types, lifting))
  qed auto
  show "pull_fixed pull e0 junk k h keys data val = Ok (data', val') \<Longrightarrow> sound data h \<Longrightarrow> sound data' h \<and> total weight data' = total weight data"
  proof (induction keys arbitrary: data val)
    case (Cons key keys)
    obtain p where p: "pull key (entry_at e0 data key) (replicate k junk) h = Ok p"
      using Cons.prems(1) by (auto simp: Let_def rbind_Ok_iff)
    then obtain val2 where "pull_fixed pull e0 junk k h keys (data(key \<mapsto> entry_at e0 data key)) val2 = Ok (data', val')"
      using Cons.prems(1) by (cases p) (auto simp: Let_def check_Ok_iff)
    then show ?case using Cons.IH t [OF Cons.prems(2), of key] by (metis (no_types, lifting))
  qed auto
qed

lemma sound_same: "sound data h \<Longrightarrow> fit h' \<Longrightarrow> (\<And>e. good h' e \<longleftrightarrow> good h e) \<Longrightarrow> sound data h'"
  by (auto simp: sound_def)

lemma HandlePush_sound:
  assumes "HandlePush start push finish e0 msg s = Ok s'" "sound (kv_data s) (kv_handle s)"
  shows "sound (kv_data s') (kv_handle s') \<and> counter (kv_handle s') - total weight (kv_data s') = counter (kv_handle s) - total weight (kv_data s)"
proof -
  let ?h = "start True (msg_cmd msg) (kv_handle s)"
  have f: "fit (kv_handle s)" using assms(2) by (simp add: sound_def)
  then have st: "sound (kv_data s) ?h" "counter ?h = counter (kv_handle s)" using start_law [OF f] sound_same [OF assms(2)] by auto
  have "\<exists>data h. s' = s\<lparr>kv_data := data, kv_handle := finish h\<rparr> \<and> (
       (\<exists>ks val. push_dyn push e0 (msg_key msg) ks val (kv_data s) ?h = Ok (data, h)) \<or>
       (\<exists>k val. push_fixed push e0 k (msg_key msg) val (kv_data s) ?h = Ok (data, h)) \<or> (data = kv_data s \<and> h = ?h))"
    using assms(1) unfolding HandlePush_def Let_def rbind_Ok_iff by (fastforce simp: check_Ok_iff split: if_splits list.splits Arr.splits)
  then obtain data h where r: "s' = s\<lparr>kv_data := data, kv_handle := finish h\<rparr>"
      "(\<exists>ks val. push_dyn push e0 (msg_key msg) ks val (kv_data s) ?h = Ok (data, h)) \<or>
       (\<exists>k val. push_fixed push e0 k (msg_key msg) val (kv_data s) ?h = Ok (data, h)) \<or> (data = kv_data s \<and> h = ?h)"
    by blast
  then have "sound data h \<and> counter h - total weight data = counter (kv_handle s) - total weight (kv_data s)"
    using push_dyn_sound [OF _ st(1)] push_fixed_sound [OF _ st(1)] st by auto
  moreover have "fit h" using calculation by (simp add: sound_def)
  ultimately show ?thesis using finish_law [of h] sound_same [of data h "finish h"] r(1) by auto
qed

lemma HandlePull_sound:
  assumes "HandlePull start pull finish e0 junk msg s = Ok (r, s')" "sound (kv_data s) (kv_handle s)"
  shows "sound (kv_data s') (kv_handle s') \<and> counter (kv_handle s') - total weight (kv_data s') = counter (kv_handle s) - total weight (kv_data s)"
proof -
  let ?h = "start False (msg_cmd msg) (kv_handle s)"
  have f: "fit (kv_handle s)" using assms(2) by (simp add: sound_def)
  then have st: "sound (kv_data s) ?h" "counter ?h = counter (kv_handle s)" using start_law [OF f] sound_same [OF assms(2)] by auto
  have "\<exists>data. s' = s\<lparr>kv_data := data, kv_handle := finish ?h\<rparr> \<and> sound data ?h \<and> total weight data = total weight (kv_data s)"
    using assms(1) pull_sound(1) [OF _ st(1)] pull_sound(2) [OF _ st(1)]
    unfolding HandlePull_def Let_def rbind_Ok_iff by (cases "msg_dyn msg") (fastforce simp: rbind_Ok_iff)+
  then obtain data where d: "s' = s\<lparr>kv_data := data, kv_handle := finish ?h\<rparr>" "sound data ?h" "total weight data = total weight (kv_data s)" by blast
  moreover have "fit ?h" using st by (simp add: sound_def)
  ultimately show ?thesis using finish_law [of ?h] sound_same [of data ?h "finish ?h"] st by auto
qed

lemma run_sound:
  assumes "kv_run start push pull finish e0 junk s0 s" "kv_data s0 = Map.empty" "fit (kv_handle s0)"
  shows "sound (kv_data s) (kv_handle s) \<and> counter (kv_handle s) = counter (kv_handle s0) + total weight (kv_data s)"
  using assms
proof (induction rule: kv_run.induct)
  case run_init
  then show ?case by (simp add: sound_def total_def)
next
  case (run_step s msg r s')
  then have IH: "sound (kv_data s) (kv_handle s)" "counter (kv_handle s) = counter (kv_handle s0) + total weight (kv_data s)" by auto
  from run_step.hyps(2) consider "s' = s" | "HandlePush start push finish e0 msg s = Ok s'" | r' where "HandlePull start pull finish e0 junk msg s = Ok (r', s')"
    by (auto simp: ProcessRequest_def rbind_Ok_iff split: if_splits)
  then show ?case using IH HandlePush_sound [OF _ IH(1)] HandlePull_sound [OF _ IH(1)] by cases fastforce+
qed

end

end
