(* ===== verification/LinearUpdate.thy ===== *)
theory LinearUpdate
  imports KVStore
begin

text \<open>
  The updaters of the linear solver (\<open>src/linear/async_sgd.h\<close>) and the penalty they share
  (\<open>src/linear/penalty.h\<close>). Cells are real numbers in the updates and bit patterns when an entry is saved or loaded.
\<close>

section \<open>The penalty\<close>

record L1L2 =
  lambda1 :: real
  lambda2 :: real

definition new_L1L2 :: L1L2 where
  "new_L1L2 = \<lparr>lambda1 = 0, lambda2 = 0\<rparr>"

definition set_lambda1 :: "real \<Rightarrow> L1L2 \<Rightarrow> L1L2 res" where
  "set_lambda1 l p = check (l \<ge> 0) ''lambda1 >= 0'' (Ok (p\<lparr>lambda1 := l\<rparr>))"

definition set_lambda2 :: "real \<Rightarrow> L1L2 \<Rightarrow> L1L2 res" where
  "set_lambda2 l p = check (l \<ge> 0) ''lambda2 >= 0'' (Ok (p\<lparr>lambda2 := l\<rparr>))"

definition Solve :: "L1L2 \<Rightarrow> real \<Rightarrow> real \<Rightarrow> real res" where
  "Solve p z eta = check (eta > 0) ''eta > 0''
     (Ok (if z \<le> lambda1 p \<and> z \<ge> - lambda1 p then 0
          else (if z > 0 then z - lambda1 p else z + lambda1 p) / (eta + lambda2 p)))"

text \<open>Soft thresholding minimises a quadratic with an absolute value.\<close>

definition soft :: "real \<Rightarrow> real \<Rightarrow> real \<Rightarrow> real" where
  "soft l1 a z = (if z \<le> l1 \<and> z \<ge> - l1 then 0 else (if z > 0 then z - l1 else z + l1) / a)"

lemma soft_minimises:
  assumes "a > 0" "l1 \<ge> 0" "y \<noteq> soft l1 a z"
  shows "a / 2 * (soft l1 a z)\<^sup>2 - z * soft l1 a z + l1 * \<bar>soft l1 a z\<bar> < a / 2 * y\<^sup>2 - z * y + l1 * \<bar>y\<bar>"
proof -
  consider (mid) "z \<le> l1" "z \<ge> - l1" | (hi) "z > l1" | (lo) "z < - l1" by linarith
  then show ?thesis
  proof cases
    case mid
    then have "y \<noteq> 0" "soft l1 a z = 0" using assms by (auto simp: soft_def)
    moreover have "z * y \<le> l1 * \<bar>y\<bar>"
    proof (cases "y \<ge> 0")
      case False
      then have "z * y \<le> - l1 * y" using mid(2) by (intro mult_right_mono_neg) auto
      then show ?thesis using False by simp
    qed (use mid(1) in \<open>simp add: mult_right_mono\<close>)
    moreover have "a / 2 * y\<^sup>2 > 0" using assms(1) \<open>y \<noteq> 0\<close> by simp
    ultimately show ?thesis by (simp add: soft_def)
  next
    case hi
    define x where "x = (z - l1) / a"
    have x: "soft l1 a z = x" "x > 0" "a * x = z - l1" using hi assms(1,2) by (auto simp: soft_def x_def)
    have "a / 2 * y\<^sup>2 - z * y + l1 * \<bar>y\<bar> - (a / 2 * x\<^sup>2 - z * x + l1 * \<bar>x\<bar>) = a / 2 * (y - x)\<^sup>2 + l1 * (\<bar>y\<bar> - y)"
    proof -
      have z: "z = a * x + l1" using x(3) by simp
      show ?thesis unfolding z using x(2) by (simp add: power2_eq_square field_simps)
    qed
    moreover have "a / 2 * (y - x)\<^sup>2 > 0" "l1 * (\<bar>y\<bar> - y) \<ge> 0" using assms x(1) by auto
    ultimately show ?thesis unfolding x(1) by linarith
  next
    case lo
    define x where "x = (z + l1) / a"
    have "z < 0" "\<not> z \<ge> - l1" using lo assms(2) by auto
    then have x: "soft l1 a z = x" "x < 0" "a * x = z + l1" using lo assms(1,2) by (auto simp: soft_def x_def divide_neg_pos)
    have "a / 2 * y\<^sup>2 - z * y + l1 * \<bar>y\<bar> - (a / 2 * x\<^sup>2 - z * x + l1 * \<bar>x\<bar>) = a / 2 * (y - x)\<^sup>2 + l1 * (\<bar>y\<bar> + y)"
    proof -
      have z: "z = a * x - l1" using x(3) by simp
      show ?thesis unfolding z using x(2) by (simp add: power2_eq_square field_simps)
    qed
    moreover have "a / 2 * (y - x)\<^sup>2 > 0" "l1 * (\<bar>y\<bar> + y) \<ge> 0" using assms x(1) by auto
    ultimately show ?thesis unfolding x(1) by linarith
  qed
qed

definition prox_objective :: "L1L2 \<Rightarrow> real \<Rightarrow> real \<Rightarrow> real \<Rightarrow> real" where
  "prox_objective p z eta x = eta / 2 * (x - z / eta)\<^sup>2 + lambda1 p * \<bar>x\<bar> + lambda2 p / 2 * x\<^sup>2"

text \<open>
  C30: \<open>L1L2::Solve\<close> is a proximal step: for a positive \<open>eta\<close> it returns the one minimiser of
  \<open>eta/2 (x - z/eta)\<^sup>2 + lambda1 |x| + lambda2/2 x\<^sup>2\<close>. This is the objective of the code: the comments in \<open>penalty.h\<close> write the
  penalty as \<open>lambda1 |x| + lambda2 x\<^sup>2\<close>, without the half, which \<open>Solve\<close> does not minimise (\<open>commented_penalty_not_minimised\<close>).
\<close>

theorem Solve_is_proximal:
  assumes "eta > 0" and "lambda1 p \<ge> 0" and "lambda2 p \<ge> 0"
  shows "\<exists>x. Solve p z eta = Ok x \<and> (\<forall>y. y \<noteq> x \<longrightarrow> prox_objective p z eta x < prox_objective p z eta y)"
proof -
  let ?a = "eta + lambda2 p"
  have e: "prox_objective p z eta y = (?a / 2 * y\<^sup>2 - z * y + lambda1 p * \<bar>y\<bar>) + z\<^sup>2 / (2 * eta)" for y
    using assms(1) by (simp add: prox_objective_def power2_eq_square field_simps)
  have "Solve p z eta = Ok (soft (lambda1 p) ?a z)" using assms(1) by (simp add: Solve_def soft_def)
  then show ?thesis using soft_minimises [of ?a "lambda1 p" _ z] assms unfolding e by auto
qed

theorem Solve_is_proximal_witness:
  "\<exists>x. Solve \<lparr>lambda1 = 1, lambda2 = 2\<rparr> 4 1 = Ok x \<and> x = 1 \<and> prox_objective \<lparr>lambda1 = 1, lambda2 = 2\<rparr> 4 1 x < prox_objective \<lparr>lambda1 = 1, lambda2 = 2\<rparr> 4 1 4"
proof -
  have "Solve \<lparr>lambda1 = 1, lambda2 = 2\<rparr> 4 1 = Ok 1" by (simp add: Solve_def)
  then show ?thesis using Solve_is_proximal [of 1 "\<lparr>lambda1 = 1, lambda2 = 2\<rparr>" 4] by auto
qed

text \<open>The objective of the comment, at the same input: 3/5 is better than the result 1.\<close>

lemma commented_penalty_not_minimised:
  "\<exists>p z eta x y. lambda1 p \<ge> 0 \<and> lambda2 p \<ge> 0 \<and> Solve p z eta = Ok x \<and>
     eta / 2 * (y - z / eta)\<^sup>2 + (lambda1 p * \<bar>y\<bar> + lambda2 p * y\<^sup>2) < eta / 2 * (x - z / eta)\<^sup>2 + (lambda1 p * \<bar>x\<bar> + lambda2 p * x\<^sup>2)"
  by (rule exI [of _ "\<lparr>lambda1 = 1, lambda2 = 2\<rparr>"], rule exI [of _ 4], rule exI [of _ 1], rule exI [of _ 1], rule exI [of _ "3 / 5"])
    (simp add: Solve_def power2_eq_square)

section \<open>Handles and entries\<close>

text \<open>The counter \<open>new_w\<close> is a static member of the handle class; reports are kept in a list.\<close>

record LISGDHandle =
  lh_penalty :: L1L2
  lh_alpha :: real
  lh_beta :: real
  lh_reporter :: bool
  lh_reported :: "int list"
  lh_new_w :: int
  lh_ct :: int
  lh_ns :: int
  lh_t :: int
  lh_eta :: real

definition LISGD_Start :: "bool \<Rightarrow> int \<Rightarrow> LISGDHandle \<Rightarrow> LISGDHandle" where
  "LISGD_Start push cmd h = h"

definition LISGD_Finish :: "LISGDHandle \<Rightarrow> LISGDHandle" where
  "LISGD_Finish h =
     (let h1 = h\<lparr>lh_ct := lh_ct h + 1\<rparr> in
      if lh_ct h1 \<ge> lh_ns h1 \<and> lh_reporter h1
      then h1\<lparr>lh_reported := lh_reported h1 @ [lh_new_w h1], lh_new_w := 0, lh_ct := 0\<rparr> else h1)"

definition LISGD_Update :: "bool \<Rightarrow> bool \<Rightarrow> LISGDHandle \<Rightarrow> LISGDHandle" where
  "LISGD_Update cur_nonzero old_nonzero h =
     (if \<not> old_nonzero \<and> cur_nonzero then h\<lparr>lh_new_w := lh_new_w h + 1\<rparr>
      else if old_nonzero \<and> \<not> cur_nonzero then h\<lparr>lh_new_w := lh_new_w h - 1\<rparr> else h)"

record 'f SGDEntry =
  sg_w :: 'f

record 'f LAdaGradEntry =
  ag_w :: 'f
  ag_sq_cum_grad :: 'f

record 'f FTRLEntry =
  ft_w :: 'f
  ft_z :: 'f
  ft_sq_cum_grad :: 'f

definition SGDHandle_Start :: "bool \<Rightarrow> int \<Rightarrow> LISGDHandle \<Rightarrow> LISGDHandle" where
  "SGDHandle_Start push cmd h =
     (if push then h\<lparr>lh_eta := (lh_beta h + sqrt (real_of_int (lh_t h))) / lh_alpha h, lh_t := lh_t h + 1\<rparr> else h)"

definition SGDHandle_Push :: "u64 \<Rightarrow> real list \<Rightarrow> real SGDEntry \<Rightarrow> LISGDHandle \<Rightarrow> (real SGDEntry \<times> LISGDHandle) res" where
  "SGDHandle_Push key grad e h =
     (let old_w = sg_w e in
      rbind (Blob_at grad 0) (\<lambda>g.
      rbind (Solve (lh_penalty h) (lh_eta h * old_w - g) (lh_eta h)) (\<lambda>w.
      Ok (e\<lparr>sg_w := w\<rparr>, LISGD_Update (w \<noteq> 0) (old_w \<noteq> 0) h))))"

definition SGDHandle_Pull :: "u64 \<Rightarrow> real SGDEntry \<Rightarrow> real list \<Rightarrow> LISGDHandle \<Rightarrow> real Pulled res" where
  "SGDHandle_Pull key e send h = check (length send > 0) ''n < size'' (Ok (InPlace (send[0 := sg_w e]) (length send)))"

definition LAdaGradHandle_Push :: "u64 \<Rightarrow> real list \<Rightarrow> real LAdaGradEntry \<Rightarrow> LISGDHandle \<Rightarrow> (real LAdaGradEntry \<times> LISGDHandle) res" where
  "LAdaGradHandle_Push key grad e h =
     rbind (Blob_at grad 0) (\<lambda>g.
     let sqrt_n = ag_sq_cum_grad e; sq = sqrt (sqrt_n * sqrt_n + g * g); eta = (sq + lh_beta h) / lh_alpha h; old_w = ag_w e in
     rbind (Solve (lh_penalty h) (eta * old_w - g) eta) (\<lambda>w.
     Ok (e\<lparr>ag_w := w, ag_sq_cum_grad := sq\<rparr>, LISGD_Update (w \<noteq> 0) (old_w \<noteq> 0) h)))"

definition LAdaGradHandle_Pull :: "u64 \<Rightarrow> real LAdaGradEntry \<Rightarrow> real list \<Rightarrow> LISGDHandle \<Rightarrow> real Pulled res" where
  "LAdaGradHandle_Pull key e send h = check (length send > 0) ''n < size'' (Ok (InPlace (send[0 := ag_w e]) (length send)))"

definition FTRLHandle_Push :: "u64 \<Rightarrow> real list \<Rightarrow> real FTRLEntry \<Rightarrow> LISGDHandle \<Rightarrow> (real FTRLEntry \<times> LISGDHandle) res" where
  "FTRLHandle_Push key grad e h =
     rbind (Blob_at grad 0) (\<lambda>g.
     let sqrt_n = ft_sq_cum_grad e; sq = sqrt (sqrt_n * sqrt_n + g * g); old_w = ft_w e;
         sigma = (sq - sqrt_n) / lh_alpha h; z = ft_z e + (g - sigma * old_w) in
     rbind (Solve (lh_penalty h) (- z) ((lh_beta h + sq) / lh_alpha h)) (\<lambda>w.
     Ok (e\<lparr>ft_w := w, ft_z := z, ft_sq_cum_grad := sq\<rparr>, LISGD_Update (w \<noteq> 0) (old_w \<noteq> 0) h)))"

definition FTRLHandle_Pull :: "u64 \<Rightarrow> real FTRLEntry \<Rightarrow> real list \<Rightarrow> LISGDHandle \<Rightarrow> real Pulled res" where
  "FTRLHandle_Pull key e send h = check (length send > 0) ''n < size'' (Ok (InPlace (send[0 := ft_w e]) (length send)))"

text \<open>\<open>Empty\<close> of the entries: a stored zero weight is not saved.\<close>

definition float_zero :: "u32 \<Rightarrow> bool" where
  "float_zero b \<longleftrightarrow> b = 0 \<or> b = 0x80000000"

definition read_float :: "'s reader \<Rightarrow> 's \<Rightarrow> (u32 \<times> 's) res" where
  "read_float rd s = rbind (rd 4 s) (\<lambda>(bs, s'). check (length bs = 4) ''fi->Read == sizeof(float)'' (Ok (dec32 bs, s')))"

definition TLoad :: "'s reader \<Rightarrow> u32 SGDEntry \<Rightarrow> LISGDHandle \<Rightarrow> 's \<Rightarrow> (u32 SGDEntry \<times> LISGDHandle \<times> 's) res" where
  "TLoad rd e h s = rbind (read_float rd s) (\<lambda>(w, s1). Ok (e\<lparr>sg_w := w\<rparr>, LISGD_Update (\<not> float_zero w) False h, s1))"

definition TSave :: "'s writer \<Rightarrow> u32 SGDEntry \<Rightarrow> 's \<Rightarrow> 's res" where
  "TSave wr e s = wr (enc32 (sg_w e)) s"

definition LAdaGradEntry_Load :: "'s reader \<Rightarrow> u32 LAdaGradEntry \<Rightarrow> LISGDHandle \<Rightarrow> 's \<Rightarrow> (u32 LAdaGradEntry \<times> LISGDHandle \<times> 's) res" where
  "LAdaGradEntry_Load rd e h s =
     rbind (read_float rd s) (\<lambda>(w, s1). rbind (read_float rd s1) (\<lambda>(q, s2).
       Ok (e\<lparr>ag_w := w, ag_sq_cum_grad := q\<rparr>, LISGD_Update (\<not> float_zero w) False h, s2)))"

definition LAdaGradEntry_Save :: "'s writer \<Rightarrow> u32 LAdaGradEntry \<Rightarrow> 's \<Rightarrow> 's res" where
  "LAdaGradEntry_Save wr e s = rbind (wr (enc32 (ag_w e)) s) (wr (enc32 (ag_sq_cum_grad e)))"

definition FTRLEntry_Load :: "'s reader \<Rightarrow> u32 FTRLEntry \<Rightarrow> LISGDHandle \<Rightarrow> 's \<Rightarrow> (u32 FTRLEntry \<times> LISGDHandle \<times> 's) res" where
  "FTRLEntry_Load rd e h s =
     rbind (read_float rd s) (\<lambda>(w, s1). rbind (read_float rd s1) (\<lambda>(z, s2). rbind (read_float rd s2) (\<lambda>(q, s3).
       Ok (e\<lparr>ft_w := w, ft_z := z, ft_sq_cum_grad := q\<rparr>, LISGD_Update (\<not> float_zero w) False h, s3))))"

definition FTRLEntry_Save :: "'s writer \<Rightarrow> u32 FTRLEntry \<Rightarrow> 's \<Rightarrow> 's res" where
  "FTRLEntry_Save wr e s = rbind (wr (enc32 (ft_w e)) s) (\<lambda>s1. rbind (wr (enc32 (ft_z e)) s1) (wr (enc32 (ft_sq_cum_grad e))))"

section \<open>The handles keep the contracts\<close>

lemma LISGD_counter:
  "lh_new_w (LISGD_Update c o' h) + sum_list (lh_reported (LISGD_Update c o' h)) =
     lh_new_w h + sum_list (lh_reported h) + ((if c then 1 else 0) - (if o' then 1 else 0))"
  by (simp add: LISGD_Update_def)

lemma LISGD_Finish_counter: "lh_new_w (LISGD_Finish h) + sum_list (lh_reported (LISGD_Finish h)) = lh_new_w h + sum_list (lh_reported h)"
  by (simp add: LISGD_Finish_def Let_def)

interpretation sgd: counting SGDHandle_Start SGDHandle_Push LISGD_Finish "\<lparr>sg_w = 0\<rparr>" "\<lambda>_. True" "\<lambda>_ _. True"
  "\<lambda>e. if sg_w e = 0 then 0 else 1" "\<lambda>h. lh_new_w h + sum_list (lh_reported h)"
  by unfold_locales (auto simp: SGDHandle_Start_def LISGD_Finish_counter SGDHandle_Push_def Let_def rbind_Ok_iff LISGD_counter)

interpretation ada: counting LISGD_Start LAdaGradHandle_Push LISGD_Finish "\<lparr>ag_w = 0, ag_sq_cum_grad = 0\<rparr>" "\<lambda>_. True" "\<lambda>_ _. True"
  "\<lambda>e. if ag_w e = 0 then 0 else 1" "\<lambda>h. lh_new_w h + sum_list (lh_reported h)"
  by unfold_locales (auto simp: LISGD_Start_def LISGD_Finish_counter LAdaGradHandle_Push_def Let_def rbind_Ok_iff LISGD_counter)

interpretation ftrl: counting LISGD_Start FTRLHandle_Push LISGD_Finish "\<lparr>ft_w = 0, ft_z = 0, ft_sq_cum_grad = 0\<rparr>" "\<lambda>_. True" "\<lambda>_ _. True"
  "\<lambda>e. if ft_w e = 0 then 0 else 1" "\<lambda>h. lh_new_w h + sum_list (lh_reported h)"
  by unfold_locales (auto simp: LISGD_Start_def LISGD_Finish_counter FTRLHandle_Push_def Let_def rbind_Ok_iff LISGD_counter)

interpretation ftrl: fixed_puller FTRLHandle_Pull 1 "\<lambda>_. True" "\<lambda>_ e. [ft_w e]"
  by unfold_locales (auto simp: FTRLHandle_Pull_def length_Suc_conv)

lemma total_card:
  assumes "finite (dom data)"
  shows "total (\<lambda>e. if P e then 0 else 1) data = int (card {k. \<exists>e. data k = Some e \<and> \<not> P e})"
proof -
  have "{k. \<exists>e. data k = Some e \<and> \<not> P e} = dom data \<inter> {k. \<not> P (the (data k))}" by auto
  moreover have "total (\<lambda>e. if P e then 0 else 1) data = (\<Sum>k\<in>dom data. if \<not> P (the (data k)) then 1 else 0)" unfolding total_def by (intro sum.cong) auto
  ultimately show ?thesis using assms by (simp add: sum.If_cases)
qed

text \<open>
  C27: the weights the linear server reports: for the FTRL updater, in every state a store can reach
  by answering requests, the sum of the reported changes and of the pending counter is the number of stored weights
  that are not zero.
\<close>

theorem linear_new_w_counts:
  assumes "kv_run LISGD_Start FTRLHandle_Push FTRLHandle_Pull LISGD_Finish \<lparr>ft_w = 0, ft_z = 0, ft_sq_cum_grad = 0\<rparr> junk s0 s"
    and "kv_data s0 = Map.empty" and "lh_new_w (kv_handle s0) = 0" and "lh_reported (kv_handle s0) = []"
  shows "int (card {k. \<exists>e. kv_data s k = Some e \<and> ft_w e \<noteq> 0}) = lh_new_w (kv_handle s) + sum_list (lh_reported (kv_handle s))"
  using ftrl.run_sound [OF assms(1,2)] assms(3,4) total_card [of "kv_data s" "\<lambda>e. ft_w e = 0"] by (simp add: ftrl.sound_def)

definition demo_lh :: LISGDHandle where
  "demo_lh = \<lparr>lh_penalty = \<lparr>lambda1 = 1, lambda2 = 0\<rparr>, lh_alpha = 1, lh_beta = 1, lh_reporter = True, lh_reported = [], lh_new_w = 0,
     lh_ct = 0, lh_ns = 1, lh_t = 1, lh_eta = 0\<rparr>"

definition demo_lmsg :: "real Message" where
  "demo_lmsg = \<lparr>msg_push = True, msg_replica = False, msg_cmd = 0, msg_dyn = False, msg_key = [7, 9], msg_value = [Vals [3, 0]]\<rparr>"

lemma demo_lrun:
  "\<exists>s. ProcessRequest LISGD_Start FTRLHandle_Push FTRLHandle_Pull LISGD_Finish \<lparr>ft_w = 0, ft_z = 0, ft_sq_cum_grad = 0\<rparr> 0 demo_lmsg
     \<lparr>kv_data = Map.empty, kv_handle = demo_lh, kv_k = 1\<rparr> = Ok (None, s) \<and> lh_reported (kv_handle s) = [1] \<and> lh_new_w (kv_handle s) = 0"
proof -
  have "FTRLHandle_Push 7 [3] \<lparr>ft_w = 0, ft_z = 0, ft_sq_cum_grad = 0\<rparr> demo_lh =
      Ok (\<lparr>ft_w = - 1 / 2, ft_z = 3, ft_sq_cum_grad = 3\<rparr>, demo_lh\<lparr>lh_new_w := 1\<rparr>)"
    by (simp add: FTRLHandle_Push_def Blob_at_def Solve_def demo_lh_def LISGD_Update_def Let_def)
  moreover have "FTRLHandle_Push 9 [0] \<lparr>ft_w = 0, ft_z = 0, ft_sq_cum_grad = 0\<rparr> (demo_lh\<lparr>lh_new_w := 1\<rparr>) =
      Ok (\<lparr>ft_w = 0, ft_z = 0, ft_sq_cum_grad = 0\<rparr>, demo_lh\<lparr>lh_new_w := 1\<rparr>)"
    by (simp add: FTRLHandle_Push_def Blob_at_def Solve_def demo_lh_def LISGD_Update_def Let_def)
  ultimately show ?thesis
    by (simp add: ProcessRequest_def HandlePush_def demo_lmsg_def LISGD_Start_def LISGD_Finish_def Let_def entry_at_def demo_lh_def)
qed

theorem linear_new_w_counts_witness:
  "\<exists>s. kv_run LISGD_Start FTRLHandle_Push FTRLHandle_Pull LISGD_Finish \<lparr>ft_w = 0, ft_z = 0, ft_sq_cum_grad = 0\<rparr> 0
     \<lparr>kv_data = Map.empty, kv_handle = demo_lh, kv_k = 1\<rparr> s \<and> int (card {k. \<exists>e. kv_data s k = Some e \<and> ft_w e \<noteq> 0}) = 1"
proof -
  obtain s where s: "ProcessRequest LISGD_Start FTRLHandle_Push FTRLHandle_Pull LISGD_Finish \<lparr>ft_w = 0, ft_z = 0, ft_sq_cum_grad = 0\<rparr> 0 demo_lmsg
     \<lparr>kv_data = Map.empty, kv_handle = demo_lh, kv_k = 1\<rparr> = Ok (None, s)" "lh_reported (kv_handle s) = [1]" "lh_new_w (kv_handle s) = 0"
    using demo_lrun by blast
  have r: "kv_run LISGD_Start FTRLHandle_Push FTRLHandle_Pull LISGD_Finish \<lparr>ft_w = 0, ft_z = 0, ft_sq_cum_grad = 0\<rparr> 0
     \<lparr>kv_data = Map.empty, kv_handle = demo_lh, kv_k = 1\<rparr> s" by (rule kv_run.intros(2) [OF kv_run.intros(1) s(1)])
  then show ?thesis using linear_new_w_counts [OF r] s by (auto simp: demo_lh_def)
qed

end
