(* ===== verification/KVSharded.thy ===== *)
theory KVSharded
  imports LinearUpdate Sparse
begin

text \<open>
  The multi-threaded store \<open>KVStoreSparse\<close> (\<open>kv_store_sparse.h\<close>): one hash map per thread, keys cut into
  ranges of equal size, each thread working on the slice of the sorted keys of the message that falls into its range.
  The threads of a request interleave freely. They share the buckets and the updater \<open>handle_\<close>: every \<open>Push\<close> of the
  repository reads the settings of the updater, changes the entry, and then changes a static counter of the
  updater class by an unprotected read and write.
\<close>

section \<open>The store\<close>

record ('e, 'h) KVStoreSparse =
  ks_data :: "(u64 \<rightharpoonup> 'e) list"
  ks_handle :: 'h
  ks_k :: nat
  ks_nt :: nat
  ks_min :: u64
  ks_bucket :: u64

definition new_KVStoreSparse :: "'h \<Rightarrow> nat \<Rightarrow> nat \<Rightarrow> u64 \<Rightarrow> u64 \<Rightarrow> ('e, 'h) KVStoreSparse res" where
  "new_KVStoreSparse h k nt kr_begin kr_end =
     check (k > 0) ''k_ > 0'' (check (nt > 0) ''nt_ > 0'' (check (nt < 30) ''nt_ < 30''
       (Ok \<lparr>ks_data = replicate nt Map.empty, ks_handle = h, ks_k = k, ks_nt = nt, ks_min = kr_begin,
            ks_bucket = (kr_end - kr_begin - 1) div word_of_nat nt + 1\<rparr>)))"

text \<open>\<open>std::lower_bound\<close> on a sorted range: the number of leading elements below \<open>k\<close>.\<close>

definition lower_bound :: "u64 list \<Rightarrow> u64 \<Rightarrow> nat" where
  "lower_bound xs k = length (takeWhile (\<lambda>x. x < k) xs)"

fun key_pos :: "('e, 'h) KVStoreSparse \<Rightarrow> u64 list \<Rightarrow> nat \<Rightarrow> nat" where
  "key_pos s key 0 = 0"
| "key_pos s key (Suc i) =
     (if Suc i = ks_nt s then length key
      else key_pos s key i + lower_bound (drop (key_pos s key i) key) (ks_min s + ks_bucket s * word_of_nat (Suc i)))"

definition SliceKey :: "('e, 'h) KVStoreSparse \<Rightarrow> u64 list \<Rightarrow> nat list" where
  "SliceKey s key = map (key_pos s key) [0..<ks_nt s + 1]"

definition bucket_of :: "('e, 'h) KVStoreSparse \<Rightarrow> u64 \<Rightarrow> nat" where
  "bucket_of s key = unat ((key - ks_min s) div ks_bucket s)"

text \<open>\<open>GetValue\<close>: the bucket of the key must exist; the entry is made when it is missing.\<close>

definition GetValue :: "'e \<Rightarrow> ('e, 'h) KVStoreSparse \<Rightarrow> u64 \<Rightarrow> 'e res" where
  "GetValue e0 s key = rbind (nth_res (ks_data s) (bucket_of s key)) (\<lambda>data. Ok (entry_at e0 data key))"

section \<open>Push\<close>

definition piece :: "u64 list \<Rightarrow> nat \<Rightarrow> 'v list \<Rightarrow> nat \<Rightarrow> u64 \<times> 'v list" where
  "piece key k val i = (key ! i, take k (drop (i * k) val))"

text \<open>
  \<open>ThreadPush\<close>: the steps of a thread. \<open>Push\<close> of the i-th key changes the entry in the thread's own bucket; the
  change of the counter that goes with it is a read and a write of the shared handle, between which other
  threads may run.
\<close>

datatype push_step = PushEntry nat | ReadCounter | WriteCounter

definition ThreadPush :: "('e, 'h) KVStoreSparse \<Rightarrow> u64 list \<Rightarrow> nat \<Rightarrow> push_step list" where
  "ThreadPush s key tid =
     concat (map (\<lambda>i. [PushEntry i, ReadCounter, WriteCounter]) [SliceKey s key ! tid..<SliceKey s key ! (tid + 1)])"

text \<open>The memory of the threads: the buckets, the handle, and each thread's pending change and register.\<close>

record ('e, 'h) push_mem =
  pm_data :: "(u64 \<rightharpoonup> 'e) list"
  pm_handle :: 'h
  pm_change :: "nat \<Rightarrow> int"
  pm_reg :: "nat \<Rightarrow> int"

text \<open>
  One step of thread \<open>tid\<close>. \<open>ctr\<close> and \<open>set_ctr\<close> read and write the counter of the updater. The counter is left alone when the
  entry did not become zero or nonzero (\<open>ISGDHandle::Update\<close>).
\<close>

fun do_step ::
    "(u64 \<Rightarrow> 'v list \<Rightarrow> 'e \<Rightarrow> 'h \<Rightarrow> ('e \<times> 'h) res) \<Rightarrow> ('h \<Rightarrow> int) \<Rightarrow> (int \<Rightarrow> 'h \<Rightarrow> 'h) \<Rightarrow> 'e \<Rightarrow>
     u64 list \<Rightarrow> nat \<Rightarrow> 'v list \<Rightarrow> nat \<times> push_step \<Rightarrow> ('e, 'h) push_mem \<Rightarrow> ('e, 'h) push_mem res" where
  "do_step push ctr set_ctr e0 key k val (tid, PushEntry i) m =
     (let (x, recv) = piece key k val i; data = pm_data m ! tid; h = pm_handle m in
      rbind (push x recv (entry_at e0 data x) h) (\<lambda>(e, h').
      Ok (m\<lparr>pm_data := (pm_data m)[tid := data(x \<mapsto> e)], pm_change := (pm_change m)(tid := ctr h' - ctr h)\<rparr>)))"
| "do_step push ctr set_ctr e0 key k val (tid, ReadCounter) m = Ok (m\<lparr>pm_reg := (pm_reg m)(tid := ctr (pm_handle m))\<rparr>)"
| "do_step push ctr set_ctr e0 key k val (tid, WriteCounter) m =
     Ok (if pm_change m tid = 0 then m else m\<lparr>pm_handle := set_ctr (pm_reg m tid + pm_change m tid) (pm_handle m)\<rparr>)"

fun push_steps ::
    "(u64 \<Rightarrow> 'v list \<Rightarrow> 'e \<Rightarrow> 'h \<Rightarrow> ('e \<times> 'h) res) \<Rightarrow> ('h \<Rightarrow> int) \<Rightarrow> (int \<Rightarrow> 'h \<Rightarrow> 'h) \<Rightarrow> 'e \<Rightarrow>
     u64 list \<Rightarrow> nat \<Rightarrow> 'v list \<Rightarrow> (nat \<times> push_step) list \<Rightarrow> ('e, 'h) push_mem \<Rightarrow> ('e, 'h) push_mem res" where
  "push_steps push ctr set_ctr e0 key k val [] m = Ok m"
| "push_steps push ctr set_ctr e0 key k val (p # ps) m =
     rbind (do_step push ctr set_ctr e0 key k val p m) (push_steps push ctr set_ctr e0 key k val ps)"

text \<open>
  \<open>HandlePush\<close>; \<open>sched\<close> is the order in which the steps of the threads take place. A dynamic push runs in
  the calling thread and uses bucket 0 for every key.
\<close>

definition ks_HandlePush ::
    "(bool \<Rightarrow> int \<Rightarrow> 'h \<Rightarrow> 'h) \<Rightarrow> (u64 \<Rightarrow> 'v list \<Rightarrow> 'e \<Rightarrow> 'h \<Rightarrow> ('e \<times> 'h) res) \<Rightarrow> ('h \<Rightarrow> 'h) \<Rightarrow> ('h \<Rightarrow> int) \<Rightarrow> (int \<Rightarrow> 'h \<Rightarrow> 'h) \<Rightarrow>
     'e \<Rightarrow> (nat \<times> push_step) list \<Rightarrow> 'v Message \<Rightarrow> ('e, 'h) KVStoreSparse \<Rightarrow> ('e, 'h) KVStoreSparse res" where
  "ks_HandlePush start push finish ctr set_ctr e0 sched msg s =
     (let h = start True (msg_cmd msg) (ks_handle s); keys = msg_key msg; n = length keys in
      rbind
       (if msg_dyn msg \<and> n > 0 then
          (case msg_value msg of
             [Vals val, Sizes ks] \<Rightarrow>
               check (length ks = n) ''val_size.size() == n''
                (check (sum_list ks = length val) ''len == val.size()''
                  (rbind (push_dyn push e0 keys ks val (ks_data s ! 0) h) (\<lambda>(d, h'). Ok ((ks_data s)[0 := d], h'))))
           | _ \<Rightarrow> Err (CheckFailed ''msg->value.size() == 2''))
        else if \<not> msg_dyn msg \<and> n > 0 then
          (case msg_value msg of
             [Vals val] \<Rightarrow>
               (let k = length val div n in check (k * n = length val) ''k * n == val.size()''
                 (if interleaving (ks_nt s) (ThreadPush s keys) sched
                  then rbind (push_steps push ctr set_ctr e0 keys k val sched
                         \<lparr>pm_data = ks_data s, pm_handle = h, pm_change = \<lambda>_. 0, pm_reg = \<lambda>_. 0\<rparr>)
                       (\<lambda>m. Ok (pm_data m, pm_handle m))
                  else Err OutOfBounds))
           | _ \<Rightarrow> Err (CheckFailed ''msg->value.size() == 1''))
        else Ok (ks_data s, h))
       (\<lambda>(d, h'). Ok (s\<lparr>ks_data := d, ks_handle := finish h'\<rparr>)))"

section \<open>Pull\<close>

definition pulled :: "nat \<Rightarrow> 'v Pulled \<Rightarrow> 'v list res" where
  "pulled k p = (case p of External xs \<Rightarrow> check (length xs = k) ''use dyanmic pull'' (Ok xs)
     | InPlace buf sz \<Rightarrow> check (sz = k) ''use dyanmic pull'' (Ok buf))"

text \<open>\<open>ThreadPull\<close> on the bucket of the thread: the entries it makes, and the cells of its part of the reply.\<close>

fun pull_slice :: "(u64 \<Rightarrow> 'e \<Rightarrow> 'v list \<Rightarrow> 'v Pulled res) \<Rightarrow> 'e \<Rightarrow> 'v \<Rightarrow> nat \<Rightarrow> u64 list \<Rightarrow> (u64 \<rightharpoonup> 'e) \<Rightarrow> ((u64 \<rightharpoonup> 'e) \<times> 'v list) res" where
  "pull_slice pull e0 junk k [] data = Ok (data, [])"
| "pull_slice pull e0 junk k (key # keys) data =
     rbind (pull key (entry_at e0 data key) (replicate k junk)) (\<lambda>p.
     rbind (pulled k p) (\<lambda>xs.
     rbind (pull_slice pull e0 junk k keys (data(key \<mapsto> entry_at e0 data key))) (\<lambda>(d, ys). Ok (d, xs @ ys))))"

definition ThreadPull :: "(u64 \<Rightarrow> 'e \<Rightarrow> 'v list \<Rightarrow> 'v Pulled res) \<Rightarrow> 'e \<Rightarrow> 'v \<Rightarrow> ('e, 'h) KVStoreSparse \<Rightarrow> u64 list \<Rightarrow> nat \<Rightarrow> ((u64 \<rightharpoonup> 'e) \<times> 'v list) res" where
  "ThreadPull pull e0 junk s key tid =
     pull_slice pull e0 junk (ks_k s) (take (SliceKey s key ! (tid + 1) - SliceKey s key ! tid) (drop (SliceKey s key ! tid) key)) (ks_data s ! tid)"

text \<open>The reply of a fixed-size pull: the threads write disjoint parts of it and touch disjoint buckets.\<close>

fun pull_threads :: "(nat \<Rightarrow> ((u64 \<rightharpoonup> 'e) \<times> 'v list) res) \<Rightarrow> nat list \<Rightarrow> ((u64 \<rightharpoonup> 'e) list \<times> 'v list) res" where
  "pull_threads thr [] = Ok ([], [])"
| "pull_threads thr (t # ts) = rbind (thr t) (\<lambda>(d, xs). rbind (pull_threads thr ts) (\<lambda>(ds, ys). Ok (d # ds, xs @ ys)))"

definition ks_HandlePull ::
    "(bool \<Rightarrow> int \<Rightarrow> 'h \<Rightarrow> 'h) \<Rightarrow> (u64 \<Rightarrow> 'e \<Rightarrow> 'v list \<Rightarrow> 'h \<Rightarrow> 'v Pulled res) \<Rightarrow> ('h \<Rightarrow> 'h) \<Rightarrow> 'e \<Rightarrow> 'v \<Rightarrow>
     'v Message \<Rightarrow> ('e, 'h) KVStoreSparse \<Rightarrow> ('v Message \<times> ('e, 'h) KVStoreSparse) res" where
  "ks_HandlePull start pull finish e0 junk msg s =
     (let h = start False (msg_cmd msg) (ks_handle s); keys = msg_key msg in
      if msg_dyn msg then
        rbind (pull_dyn pull e0 junk (ks_k s) h keys (ks_data s ! 0) (replicate (length keys * ks_k s) junk) 0 [])
          (\<lambda>(d, val, st, sizes). Ok (msg\<lparr>msg_value := msg_value msg @ [Vals (take st val), Sizes sizes]\<rparr>,
             s\<lparr>ks_data := (ks_data s)[0 := d], ks_handle := finish h\<rparr>))
      else
        rbind (pull_threads (ThreadPull (\<lambda>key e buf. pull key e buf h) e0 junk s keys) [0..<ks_nt s])
          (\<lambda>(ds, val). Ok (msg\<lparr>msg_value := msg_value msg @ [Vals val]\<rparr>, s\<lparr>ks_data := ds, ks_handle := finish h\<rparr>)))"

section \<open>The slices\<close>

text \<open>The ranges of the threads do not wrap around, and every key of the message is in one of them.\<close>

definition in_ranges :: "('e, 'h) KVStoreSparse \<Rightarrow> u64 list \<Rightarrow> bool" where
  "in_ranges s key \<longleftrightarrow> sorted key \<and> 0 < ks_nt s \<and> ks_nt s < 2 ^ 64 \<and> 0 < unat (ks_bucket s) \<and>
     unat (ks_min s) + unat (ks_bucket s) * (ks_nt s - 1) < 2 ^ 64 \<and>
     (\<forall>x\<in>set key. unat (ks_min s) \<le> unat x \<and> unat x < unat (ks_min s) + unat (ks_bucket s) * ks_nt s)"

definition cut :: "('e, 'h) KVStoreSparse \<Rightarrow> nat \<Rightarrow> nat" where
  "cut s i = unat (ks_min s) + unat (ks_bucket s) * i"

lemma cut_word:
  assumes "unat (ks_min s) + unat (ks_bucket s) * (ks_nt s - 1) < 2 ^ 64" "i < ks_nt s" "ks_nt s < 2 ^ 64"
  shows "unat (ks_min s + ks_bucket s * word_of_nat i) = cut s i"
proof -
  have "unat (ks_bucket s) * i \<le> unat (ks_bucket s) * (ks_nt s - 1)" using assms(2) by (intro mult_le_mono2) simp
  then have "cut s i < 2 ^ 64" unfolding cut_def using assms(1) by linarith
  moreover have "ks_min s + ks_bucket s * word_of_nat i = word_of_nat (cut s i)" by (simp add: cut_def)
  ultimately show ?thesis by (simp add: unat_of_nat)
qed

lemma takeWhile_skip:
  assumes "\<And>j. j < p \<Longrightarrow> P (xs ! j)" "p \<le> length xs"
  shows "p + length (takeWhile P (drop p xs)) = length (takeWhile P xs)"
proof -
  have "takeWhile P (take p xs @ drop p xs) = take p xs @ takeWhile P (drop p xs)"
    using assms by (intro takeWhile_append2) (auto simp: in_set_conv_nth)
  then have "length (takeWhile P xs) = length (take p xs @ takeWhile P (drop p xs))" by simp
  then show ?thesis using assms(2) by simp
qed

lemma lower_bound_iff:
  assumes "sorted xs" "j < length xs"
  shows "j < length (takeWhile (\<lambda>x. x < k) xs) \<longleftrightarrow> xs ! j < (k :: 'a::linorder)"
proof
  show "j < length (takeWhile (\<lambda>x. x < k) xs) \<Longrightarrow> xs ! j < k"
    by (metis nth_mem set_takeWhileD takeWhile_nth)
  assume "xs ! j < k"
  show "j < length (takeWhile (\<lambda>x. x < k) xs)"
  proof (rule ccontr)
    assume n: "\<not> ?thesis"
    then have l: "length (takeWhile (\<lambda>x. x < k) xs) < length xs" using assms(2) by simp
    then have "\<not> xs ! length (takeWhile (\<lambda>x. x < k) xs) < k" by (rule nth_length_takeWhile)
    moreover have "xs ! length (takeWhile (\<lambda>x. x < k) xs) \<le> xs ! j" using n assms by (intro sorted_nth_mono) auto
    ultimately show False using \<open>xs ! j < k\<close> by simp
  qed
qed

lemma key_pos_iff:
  assumes "in_ranges s key" "i \<le> ks_nt s" "j < length key"
  shows "j < key_pos s key i \<longleftrightarrow> unat (key ! j) < cut s i"
  using assms(2,3)
proof (induction i arbitrary: j)
  case 0
  have "cut s 0 \<le> unat (key ! j)" using assms(1) 0 by (auto simp: in_ranges_def cut_def)
  then show ?case by simp
next
  case (Suc i)
  show ?case
  proof (cases "Suc i = ks_nt s")
    case True
    have "unat (key ! j) < cut s (ks_nt s)" using assms(1) Suc.prems by (auto simp: in_ranges_def cut_def)
    moreover have "key_pos s key (Suc i) = length key" unfolding key_pos.simps using True by simp
    ultimately show ?thesis using True Suc.prems by (simp del: key_pos.simps)
  next
    case False
    let ?k = "ks_min s + ks_bucket s * word_of_nat (Suc i)"
    have i: "Suc i < ks_nt s" using False Suc.prems by simp
    have k: "unat ?k = cut s (Suc i)" using cut_word [of s "Suc i"] assms(1) i by (simp add: in_ranges_def)
    have le: "key_pos s key i \<le> length key"
    proof (rule ccontr)
      assume "\<not> ?thesis"
      then have "length key < key_pos s key i" by simp
      moreover have "key_pos s key i \<le> length key" for i
        by (induction i) (auto simp: lower_bound_def intro: order_trans [OF add_le_mono [OF order_refl length_takeWhile_le]])
      ultimately show False by (metis not_le)
    qed
    have "key ! j' < ?k" if "j' < key_pos s key i" for j'
    proof -
      have "unat (key ! j') < cut s i" using Suc.IH [of j'] that le Suc.prems by simp
      also have "\<dots> \<le> cut s (Suc i)" by (simp add: cut_def)
      finally show ?thesis unfolding word_less_nat_alt k .
    qed
    then have "key_pos s key (Suc i) = length (takeWhile (\<lambda>x. x < ?k) key)"
      using takeWhile_skip [of "key_pos s key i" "\<lambda>x. x < ?k" key] le False by (simp add: lower_bound_def)
    then show ?thesis using lower_bound_iff [of key j ?k] assms(1) Suc.prems(2) by (simp only: word_less_nat_alt k in_ranges_def)
  qed
qed

lemma bucket_of_iff:
  assumes "in_ranges s key" "x \<in> set key"
  shows "bucket_of s x = t \<longleftrightarrow> cut s t \<le> unat x \<and> unat x < cut s (Suc t)"
proof -
  have m: "unat (ks_min s) \<le> unat x" "0 < unat (ks_bucket s)" using assms by (auto simp: in_ranges_def)
  then have "bucket_of s x = (unat x - unat (ks_min s)) div unat (ks_bucket s)"
    by (simp add: bucket_of_def unat_div unat_sub word_le_nat_alt)
  moreover have "a div b = t \<longleftrightarrow> b * t \<le> a \<and> a < b * Suc t" if "0 < b" for a b :: nat
    using that div_nat_eqI [of b t a] times_div_less_eq_dividend [of b a] dividend_less_times_div [of b a] by auto
  ultimately show ?thesis using m by (auto simp: cut_def)
qed

section \<open>Refinement\<close>

text \<open>A push by a pure function of the entry, and the updates of a thread that does nothing else.\<close>

type_synonym ('v, 'e) upd_fun = "u64 \<Rightarrow> 'v list \<Rightarrow> 'e \<Rightarrow> 'e"

definition push_entry :: "('v, 'e) upd_fun \<Rightarrow> 'e \<Rightarrow> u64 \<times> 'v list \<Rightarrow> (u64 \<rightharpoonup> 'e) \<Rightarrow> (u64 \<rightharpoonup> 'e)" where
  "push_entry upd e0 kv data = data(fst kv \<mapsto> upd (fst kv) (snd kv) (entry_at e0 data (fst kv)))"

definition thread_updates :: "('v, 'e) upd_fun \<Rightarrow> 'e \<Rightarrow> ('e2, 'h) KVStoreSparse \<Rightarrow> u64 list \<Rightarrow> 'v list \<Rightarrow> nat \<Rightarrow> nat \<Rightarrow> (u64 \<rightharpoonup> 'e) upd list" where
  "thread_updates upd e0 s key val k tid =
     map (\<lambda>i. (tid, push_entry upd e0 (piece key k val i))) [SliceKey s key ! tid..<SliceKey s key ! (tid + 1)]"

definition one_map :: "(u64 \<Rightarrow> nat) \<Rightarrow> (u64 \<rightharpoonup> 'e) list \<Rightarrow> u64 \<rightharpoonup> 'e" where
  "one_map b ds key = (if b key < length ds then (ds ! b key) key else None)"

text \<open>The buckets read as one map, the way \<open>GetValue\<close> finds an entry.\<close>

definition abs_data :: "('e, 'h) KVStoreSparse \<Rightarrow> u64 \<rightharpoonup> 'e" where
  "abs_data s = one_map (bucket_of s) (ks_data s)"

lemma fold_push_entry:
  "fold (push_entry upd e0) kvs data key =
     (if \<exists>kv\<in>set kvs. fst kv = key then Some (fold (\<lambda>kv e. upd key (snd kv) e) (filter (\<lambda>kv. fst kv = key) kvs) (entry_at e0 data key))
      else data key)"
proof (induction kvs arbitrary: data)
  case (Cons kv kvs)
  have "entry_at e0 (push_entry upd e0 kv data) key = (if fst kv = key then upd key (snd kv) (entry_at e0 data key) else entry_at e0 data key)"
    by (auto simp: push_entry_def entry_at_def)
  then show ?case using Cons.IH [of "push_entry upd e0 kv data"] by (auto simp: push_entry_def)
qed simp

lemma thread_updates_cell: "on_cell t (thread_updates upd e0 s key val k t) d =
    fold (push_entry upd e0) (map (piece key k val) [SliceKey s key ! t..<SliceKey s key ! (t + 1)]) d"
  by (simp add: on_cell_def thread_updates_def comp_def filter_True fold_map)

lemma slice_filter:
  assumes "in_ranges s key" "t < ks_nt s" "\<And>i. i < length key \<Longrightarrow> key ! i = x \<Longrightarrow> bucket_of s x = t"
  shows "filter (\<lambda>i. key ! i = x) [SliceKey s key ! t..<SliceKey s key ! (t + 1)] = filter (\<lambda>i. key ! i = x) [0..<length key]"
proof -
  have pos: "SliceKey s key ! t = key_pos s key t" "SliceKey s key ! (t + 1) = key_pos s key (Suc t)"
    using assms(2) by (simp_all add: SliceKey_def del: upt_Suc key_pos.simps)
  have le: "key_pos s key i \<le> length key" for i
    by (induction i) (auto simp: lower_bound_def intro: order_trans [OF add_le_mono [OF order_refl length_takeWhile_le]])
  have "key_pos s key t \<le> i \<and> i < key_pos s key (Suc t)" if "i < length key" "key ! i = x" for i
    using bucket_of_iff [OF assms(1), of "key ! i" t] assms(3) [OF that] that
      key_pos_iff [OF assms(1), of t i] key_pos_iff [OF assms(1), of "Suc t" i] assms(2) nth_mem [of i key] by fastforce
  note inside = this
  have slice: "filter P [a..<b] = filter P [0..<n]" if "b \<le> n" "\<And>i. i < n \<Longrightarrow> P i \<Longrightarrow> a \<le> i \<and> i < b" for P a b n
  proof -
    have "filter P [0..<n] = filter P (filter (\<lambda>i. a \<le> i \<and> i < b) [0..<n])"
      using that(2) by (auto intro!: filter_cong)
    also have "filter (\<lambda>i. a \<le> i \<and> i < b) [0..<n] = [a..<b]"
    proof -
      have "filter (\<lambda>i. i < b) [0..<n] = [0..<b]" using that(1)
      proof (induction n)
        case (Suc n)
        then show ?case by (cases "b = Suc n") (auto simp: filter_True)
      qed simp
      moreover have "filter (\<lambda>i. a \<le> i) [0..<b] = [a..<b]" by (induction b) auto
      moreover have "filter (\<lambda>i. a \<le> i \<and> i < b) [0..<n] = filter (\<lambda>i. a \<le> i) (filter (\<lambda>i. i < b) [0..<n])" by (simp add: conj_commute)
      ultimately show ?thesis by presburger
    qed
    finally show ?thesis by simp
  qed
  show ?thesis unfolding pos by (intro slice le inside)
qed

lemma slice_bucket:
  assumes "in_ranges s key" "t < ks_nt s" "SliceKey s key ! t \<le> i" "i < SliceKey s key ! (t + 1)"
  shows "bucket_of s (key ! i) = t"
proof -
  have pos: "SliceKey s key ! t = key_pos s key t" "SliceKey s key ! (t + 1) = key_pos s key (Suc t)"
    using assms(2) by (simp_all add: SliceKey_def del: upt_Suc key_pos.simps)
  have "key_pos s key i \<le> length key" for i
    by (induction i) (auto simp: lower_bound_def intro: order_trans [OF add_le_mono [OF order_refl length_takeWhile_le]])
  then have i: "i < length key" using assms(4) pos(2) less_le_trans by metis
  then show ?thesis using bucket_of_iff [OF assms(1), of "key ! i" t] key_pos_iff [OF assms(1), of t i]
      key_pos_iff [OF assms(1), of "Suc t" i] assms pos by (auto simp del: key_pos.simps)
qed

lemma sharded_updates:
  fixes val :: "'v list"
  assumes "in_ranges s keys" and "length ds = ks_nt s"
    and "interleaving (ks_nt s) (thread_updates upd e0 s keys val k) sched"
  shows "fold (push_entry upd e0) (map (piece keys k val) [0..<length keys]) (one_map (bucket_of s) ds) = one_map (bucket_of s) (run sched ds)"
proof -
  let ?kvs = "map (piece keys k val) [0..<length keys]"
  have own: "t' = t" if "u \<in> set (thread_updates upd e0 s keys val k t')" "fst u = t" for t t' u using that by (auto simp: thread_updates_def)
  have cell: "run sched (ds) ! t = fold (push_entry upd e0) (map (piece keys k val) [SliceKey s keys ! t..<SliceKey s keys ! (t + 1)]) (ds ! t)"
    if "t < ks_nt s" for t using run_owned [OF assms(3) that] own assms(2) that by (simp add: thread_updates_cell)
  have "fold (push_entry upd e0) ?kvs (one_map (bucket_of s) ds) x = one_map (bucket_of s) (run sched ds) x" for x
  proof (cases "bucket_of s x < ks_nt s")
    case True
    let ?t = "bucket_of s x"
    let ?sl = "map (piece keys k val) [SliceKey s keys ! ?t..<SliceKey s keys ! (?t + 1)]"
    have f: "filter (\<lambda>kv. fst kv = x) ?sl = filter (\<lambda>kv. fst kv = x) ?kvs"
      using slice_filter [OF assms(1) True, of x] by (simp add: filter_map comp_def piece_def)
    then have m: "(\<exists>kv\<in>set ?sl. fst kv = x) \<longleftrightarrow> (\<exists>kv\<in>set ?kvs. fst kv = x)"
    proof -
      have ex: "(\<exists>kv\<in>set l. fst kv = x) \<longleftrightarrow> filter (\<lambda>kv. fst kv = x) l \<noteq> []" for l :: "(u64 \<times> 'v list) list" by (auto simp: filter_empty_conv)
      show ?thesis unfolding ex f ..
    qed
    have "one_map (bucket_of s) (run sched ds) x = fold (push_entry upd e0) ?sl (ds ! ?t) x" using cell [OF True] True assms(2) by (simp add: one_map_def bucket_of_def)
    also have "\<dots> = fold (push_entry upd e0) ?kvs (one_map (bucket_of s) ds) x" unfolding fold_push_entry f m using True assms(2) by (simp add: one_map_def entry_at_def)
    finally show ?thesis by simp
  next
    case False
    have "x \<notin> set keys"
    proof
      assume "x \<in> set keys"
      then have "unat x < cut s (ks_nt s)" "cut s (bucket_of s x) \<le> unat x"
        using assms(1) bucket_of_iff [OF assms(1), of x "bucket_of s x"] by (auto simp: in_ranges_def cut_def)
      then have "cut s (bucket_of s x) < cut s (ks_nt s)" by simp
      then show False using False by (simp add: cut_def)
    qed
    then have "\<not> (\<exists>kv\<in>set ?kvs. fst kv = x)" by (auto simp: piece_def)
    then show ?thesis unfolding fold_push_entry using False assms(2) by (simp add: one_map_def bucket_of_def)
  qed
  then show ?thesis by blast
qed


section \<open>Updaters with one racing counter\<close>

text \<open>
  What the threads rely on: a \<open>Push\<close> changes nothing of the updater but the counter, and what it does to the entry and
  by how much it moves the counter does not depend on the counter.
\<close>

locale racing_updater =
  fixes push :: "u64 \<Rightarrow> 'v list \<Rightarrow> 'e \<Rightarrow> 'h \<Rightarrow> ('e \<times> 'h) res"
    and ctr :: "'h \<Rightarrow> int"
    and set_ctr :: "int \<Rightarrow> 'h \<Rightarrow> 'h"
  assumes set_get: "set_ctr (ctr h) h = h"
    and set_set: "set_ctr c (set_ctr c' h) = set_ctr c h"
    and push_set: "push key recv e (set_ctr c h) = rbind (push key recv e h) (\<lambda>(e', h'). Ok (e', set_ctr (c + (ctr h' - ctr h)) h))"
begin

text \<open>Entries with the error of the push that failed on them; an error stays.\<close>

definition try_push :: "'h \<Rightarrow> ('v, 'e res) upd_fun" where
  "try_push h key recv r = rbind r (\<lambda>e. rbind (push key recv e h) (\<lambda>(e', h'). Ok e'))"

abbreviation oks :: "(u64 \<rightharpoonup> 'e) \<Rightarrow> u64 \<rightharpoonup> 'e res" where
  "oks d \<equiv> \<lambda>key. map_option Ok (d key)"

lemma entry_at_oks: "entry_at (Ok e0) (oks d) key = Ok (entry_at e0 d key)"
  by (simp add: entry_at_def split: option.split)

lemma push_entry_oks:
  assumes "push key recv (entry_at e0 d key) (set_ctr c h) = Ok (e, h')"
  shows "push_entry (try_push h) (Ok e0) (key, recv) (oks d) = oks (d(key \<mapsto> e))"
    and "h' = set_ctr (ctr h') h"
proof -
  obtain h1 where h1: "push key recv (entry_at e0 d key) h = Ok (e, h1)" "h' = set_ctr (c + (ctr h1 - ctr h)) h"
    using assms by (auto simp: push_set rbind_Ok_iff)
  then show "push_entry (try_push h) (Ok e0) (key, recv) (oks d) = oks (d(key \<mapsto> e))"
    by (auto simp: push_entry_def try_push_def entry_at_oks)
  show "h' = set_ctr (ctr h') h" by (metis h1(2) set_get set_set)
qed

lemma push_fixed_tries:
  assumes "push_fixed push e0 k keys val data (set_ctr c h) = Ok (data', h')"
  shows "fold (push_entry (try_push h) (Ok e0)) (map (piece keys k val) [0..<length keys]) (oks data) = oks data' \<and> h' = set_ctr (ctr h') h"
  using assms
proof (induction keys arbitrary: val data c)
  case Nil
  then show ?case by (auto simp: set_set) (metis set_get set_set)
next
  case (Cons key keys)
  obtain e h1 where p: "push key (take k val) (entry_at e0 data key) (set_ctr c h) = Ok (e, h1)"
    and r: "push_fixed push e0 k keys (drop k val) (data(key \<mapsto> e)) h1 = Ok (data', h')"
    using Cons.prems by (auto simp: rbind_Ok_iff)
  note q = push_entry_oks [OF p]
  have "map (piece (key # keys) k val) [0..<length (key # keys)] = (key, take k val) # map (piece keys k (drop k val)) [0..<length keys]"
    by (simp add: upt_conv_Cons map_Suc_upt [symmetric] piece_def add.commute del: upt_Suc)
  moreover have "fold (push_entry (try_push h) (Ok e0)) (map (piece keys k (drop k val)) [0..<length keys]) (oks (data(key \<mapsto> e))) = oks data' \<and> h' = set_ctr (ctr h') h"
    using Cons.IH [of "drop k val" "data(key \<mapsto> e)" "ctr h1"] r q(2) by (simp del: fun_upd_apply)
  ultimately show ?case using q(1) by (simp del: upt_Suc)
qed

text \<open>The entry steps of a schedule as updates of the buckets.\<close>

definition entry_updates :: "'h \<Rightarrow> 'e \<Rightarrow> u64 list \<Rightarrow> nat \<Rightarrow> 'v list \<Rightarrow> (nat \<times> push_step) list \<Rightarrow> (nat \<times> (u64 \<rightharpoonup> 'e res) upd) list" where
  "entry_updates h e0 key k val sched =
     concat (map (\<lambda>(t, p). case p of PushEntry i \<Rightarrow> [(t, t, push_entry (try_push h) (Ok e0) (piece key k val i))] | _ \<Rightarrow> []) sched)"

lemma entry_updates_filter:
  "map snd (filter (\<lambda>p. fst p = t) (entry_updates h e0 key k val sched)) =
     concat (map (\<lambda>p. case p of PushEntry i \<Rightarrow> [(t, push_entry (try_push h) (Ok e0) (piece key k val i))] | _ \<Rightarrow> [])
       (map snd (filter (\<lambda>p. fst p = t) sched)))"
  by (induction sched) (auto simp: entry_updates_def split: push_step.split)

lemma thread_steps_entries:
  "concat (map (\<lambda>p. case p of PushEntry i \<Rightarrow> [g i] | _ \<Rightarrow> []) (concat (map (\<lambda>i. [PushEntry i, ReadCounter, WriteCounter]) is))) = map g is"
  by (induction "is") auto

lemma entry_updates_interleave:
  assumes "interleaving (ks_nt s) (ThreadPush s keys) sched"
  shows "interleaving (ks_nt s) (thread_updates (try_push h) (Ok e0) s keys val k) (entry_updates h e0 keys k val sched)"
proof -
  have "concat (map (\<lambda>p. case p of PushEntry i \<Rightarrow> [(t, push_entry (try_push h) (Ok e0) (piece keys k val i))] | _ \<Rightarrow> []) (ThreadPush s keys t)) =
      thread_updates (try_push h) (Ok e0) s keys val k t" for t
    unfolding ThreadPush_def thread_updates_def by (rule thread_steps_entries)
  moreover have "fst p < ks_nt s" if "p \<in> set (entry_updates h e0 keys k val sched)" for p
    using that assms by (auto simp: entry_updates_def interleaving_def split: push_step.splits)
  ultimately show ?thesis using assms unfolding interleaving_def entry_updates_filter by auto
qed

text \<open>An entry that holds an error keeps it.\<close>

lemma error_stays:
  assumes "t < length ds" "(ds ! t) x = Some (Err er)"
  shows "(run (entry_updates h e0 key k val sched) ds ! t) x = Some (Err er)"
  using assms
proof (induction sched arbitrary: ds)
  case (Cons p sched)
  obtain t' q where p: "p = (t', q)" by (cases p)
  show ?case
  proof (cases q)
    case (PushEntry i)
    let ?ds = "ds[t' := push_entry (try_push h) (Ok e0) (piece key k val i) (ds ! t')]"
    have "(?ds ! t) x = Some (Err er)" using Cons.prems
      by (cases "t' = t") (auto simp: push_entry_def try_push_def entry_at_def)
    then show ?thesis using Cons.IH [of ?ds] Cons.prems p PushEntry by (simp add: entry_updates_def run_def)
  qed (use Cons.IH [of ds] Cons.prems p in \<open>simp_all add: entry_updates_def run_def\<close>)
qed (simp add: entry_updates_def run_def)

text \<open>If the updates of the buckets leave no error, the threads run through and leave these buckets.\<close>

lemma push_steps_run:
  assumes "\<forall>p\<in>set sched. fst p < length (pm_data m)" and "pm_handle m = set_ctr c h"
    and "run (entry_updates h e0 key k val sched) (map oks (pm_data m)) = map oks ds"
  shows "\<exists>m' c'. push_steps push ctr set_ctr e0 key k val sched m = Ok m' \<and> pm_data m' = ds \<and> pm_handle m' = set_ctr c' h"
  using assms
proof (induction sched arbitrary: m c)
  case Nil
  have "pm_data m = ds"
  proof (rule nth_equalityI)
    have e: "map oks (pm_data m) = map oks ds" using Nil by (simp add: entry_updates_def run_def)
    then show l: "length (pm_data m) = length ds" using map_eq_imp_length_eq by blast
    show "pm_data m ! i = ds ! i" if "i < length (pm_data m)" for i
    proof
      fix x
      have "oks (pm_data m ! i) x = oks (ds ! i) x" using arg_cong [OF e, of "\<lambda>l. l ! i"] that l by (metis nth_map)
      then show "(pm_data m ! i) x = (ds ! i) x" by (cases "(pm_data m ! i) x"; cases "(ds ! i) x") auto
    qed
  qed
  then show ?case using Nil by auto
next
  case (Cons p sched)
  obtain t q where p: "p = (t, q)" by (cases p)
  show ?case
  proof (cases q)
    case (PushEntry i)
    obtain x recv where pc: "piece key k val i = (x, recv)" by (cases "piece key k val i")
    let ?d = "pm_data m ! t"
    have t: "t < length (pm_data m)" using Cons.prems(1) p by simp
    have r: "run (entry_updates h e0 key k val sched)
        ((map oks (pm_data m))[t := push_entry (try_push h) (Ok e0) (x, recv) (oks ?d)]) = map oks ds"
      using Cons.prems(3) p PushEntry pc t by (simp add: entry_updates_def run_def)
    show ?thesis
    proof (cases "push x recv (entry_at e0 ?d x) h")
      case (Err er)
      have "(map oks ds ! t) x = Some (Err er)" unfolding r [symmetric]
        using t Err by (intro error_stays) (auto simp: push_entry_def try_push_def entry_at_oks)
      moreover have "t < length ds" using arg_cong [OF r, of length] t by (simp add: run_def)
      ultimately show ?thesis by auto
    next
      case (Ok eh)
      obtain e h1 where "eh = (e, h1)" by (cases eh)
      then have pu: "push x recv (entry_at e0 ?d x) (set_ctr c h) = Ok (e, set_ctr (c + (ctr h1 - ctr h)) h)" using Ok by (simp add: push_set)
      let ?m = "m\<lparr>pm_data := (pm_data m)[t := ?d(x \<mapsto> e)], pm_change := (pm_change m)(t := ctr (set_ctr (c + (ctr h1 - ctr h)) h) - ctr (pm_handle m))\<rparr>"
      have "do_step push ctr set_ctr e0 key k val p m = Ok ?m" using p PushEntry pc pu Cons.prems(2) by (simp add: Let_def)
      moreover have "\<exists>m' c'. push_steps push ctr set_ctr e0 key k val sched ?m = Ok m' \<and> pm_data m' = ds \<and> pm_handle m' = set_ctr c' h"
      proof (rule Cons.IH)
        show "run (entry_updates h e0 key k val sched) (map oks (pm_data ?m)) = map oks ds"
          using r unfolding push_entry_oks(1) [OF pu] by (simp add: map_update del: fun_upd_apply)
      qed (use Cons.prems in auto)
      ultimately show ?thesis by simp
    qed
  next
    case ReadCounter
    show ?thesis
      using Cons.IH [of "m\<lparr>pm_reg := (pm_reg m)(t := ctr (pm_handle m))\<rparr>" c] Cons.prems p ReadCounter by (simp add: entry_updates_def)
  next
    case WriteCounter
    show ?thesis
    proof (cases "pm_change m t = 0")
      case True
      then show ?thesis using Cons.IH [of m c] Cons.prems p WriteCounter by (simp add: entry_updates_def)
    next
      case False
      then show ?thesis using Cons.IH [of "m\<lparr>pm_handle := set_ctr (pm_reg m t + pm_change m t) (pm_handle m)\<rparr>" "pm_reg m t + pm_change m t"]
          Cons.prems p WriteCounter by (simp add: entry_updates_def set_set)
    qed
  qed
qed

lemma touched:
  assumes "t < length ds"
  shows "(run (entry_updates h e0 key k val sched) ds ! t) x = (ds ! t) x \<or> (\<exists>i. (t, PushEntry i) \<in> set sched \<and> key ! i = x)"
  using assms
proof (induction sched arbitrary: ds)
  case (Cons p sched)
  obtain t' q where p: "p = (t', q)" by (cases p)
  show ?case
  proof (cases q)
    case (PushEntry i)
    let ?ds = "ds[t' := push_entry (try_push h) (Ok e0) (piece key k val i) (ds ! t')]"
    have "(?ds ! t) x = (ds ! t) x \<or> t' = t \<and> key ! i = x" using Cons.prems
      by (cases "t' = t") (auto simp: push_entry_def piece_def)
    then show ?thesis using Cons.IH [of ?ds] Cons.prems p PushEntry by (auto simp: entry_updates_def run_def)
  qed (use Cons.IH [of ds] Cons.prems p in \<open>auto simp: entry_updates_def run_def\<close>)
qed (simp add: entry_updates_def run_def)

text \<open>If the buckets read as one map hold no error, no bucket does.\<close>

lemma no_errors:
  assumes r: "in_ranges s keys" and l: "length ds = ks_nt s" and il: "interleaving (ks_nt s) (ThreadPush s keys) sched"
    and ab: "oks data = one_map (bucket_of s) (run (entry_updates h e0 keys k val sched) (map oks ds))"
  shows "\<exists>ds'. run (entry_updates h e0 keys k val sched) (map oks ds) = map oks ds'"
proof -
  let ?run = "run (entry_updates h e0 keys k val sched) (map oks ds)"
  define un where "un = (\<lambda>r. case r of Ok e \<Rightarrow> e | Err _ \<Rightarrow> e0)"
  have "(?run ! t) x = map_option (Ok \<circ> un) ((?run ! t) x)" if t: "t < ks_nt s" for t x
  proof (cases "bucket_of s x = t")
    case True
    have "one_map (bucket_of s) ?run x = (?run ! t) x" using True l t by (simp add: one_map_def run_def)
    then have "(?run ! t) x = oks data x" unfolding ab [symmetric] by simp
    then show ?thesis by (cases "data x") (simp_all add: un_def)
  next
    case False
    have "\<not> (\<exists>i. (t, PushEntry i) \<in> set sched \<and> keys ! i = x)"
    proof
      assume "\<exists>i. (t, PushEntry i) \<in> set sched \<and> keys ! i = x"
      then obtain i where i: "(t, PushEntry i) \<in> set sched" "keys ! i = x" by blast
      then have "PushEntry i \<in> set (map snd (filter (\<lambda>p. fst p = t) sched))" by force
      moreover have "map snd (filter (\<lambda>p. fst p = t) sched) = ThreadPush s keys t" using il t by (simp add: interleaving_def)
      ultimately have "PushEntry i \<in> set (ThreadPush s keys t)" by argo
      then show False using slice_bucket [OF r t, of i] False i(2) by (auto simp: ThreadPush_def)
    qed
    then have "(?run ! t) x = oks (ds ! t) x" using touched [of t "map oks ds"] l t by fastforce
    then show ?thesis by (cases "(ds ! t) x") (simp_all add: un_def)
  qed
  then have "?run = map oks (map (\<lambda>d x. map_option un (d x)) ?run)"
    using l by (intro nth_equalityI) (auto simp: run_def option.map_comp)
  then show ?thesis by blast
qed

lemma push_refines:
  assumes r: "in_ranges s keys" and l: "length (ks_data s) = ks_nt s" and ne: "keys \<noteq> []"
    and m: "\<not> msg_dyn msg" "msg_key msg = keys" "msg_value msg = [Vals val]"
    and il: "interleaving (ks_nt s) (ThreadPush s keys) sched"
    and st: "HandlePush start push finish e0 msg \<lparr>kv_data = abs_data s, kv_handle = ks_handle s, kv_k = ks_k s\<rparr> = Ok s1"
  shows "\<exists>s' h c. ks_HandlePush start push finish ctr set_ctr e0 sched msg s = Ok s' \<and> abs_data s' = kv_data s1 \<and>
     kv_handle s1 = finish h \<and> ks_handle s' = finish (set_ctr c h)"
proof -
  let ?h = "start True (msg_cmd msg) (ks_handle s)" and ?k = "length val div length keys"
  obtain data h1 where k: "?k * length keys = length val"
    and pf: "push_fixed push e0 ?k keys val (abs_data s) ?h = Ok (data, h1)" and s1: "kv_data s1 = data" "kv_handle s1 = finish h1"
    using st m ne by (auto simp: HandlePush_def Let_def check_def rbind_Ok_iff split: if_splits)
  have f: "fold (push_entry (try_push ?h) (Ok e0)) (map (piece keys ?k val) [0..<length keys]) (oks (abs_data s)) = oks data"
    and h1: "h1 = set_ctr (ctr h1) ?h"
    using push_fixed_tries [of e0 ?k keys val "abs_data s" "ctr ?h" ?h] pf by (auto simp: set_get)
  let ?run = "run (entry_updates ?h e0 keys ?k val sched) (map oks (ks_data s))"
  have one: "one_map (bucket_of s) (map oks ds) = oks (one_map (bucket_of s) ds)" for ds by (auto simp: one_map_def)
  have ab: "oks data = one_map (bucket_of s) ?run"
    using sharded_updates [OF r _ entry_updates_interleave [OF il], of "map oks (ks_data s)" ?h e0 ?k val] l f by (simp add: one abs_data_def)
  obtain ds where ds: "?run = map oks ds" using no_errors [OF r l il ab] by blast
  let ?m = "\<lparr>pm_data = ks_data s, pm_handle = ?h, pm_change = \<lambda>_. 0, pm_reg = \<lambda>_. 0\<rparr>"
  have "\<forall>p\<in>set sched. fst p < length (pm_data ?m)" using il l by (simp add: interleaving_def)
  then obtain m' c where m': "push_steps push ctr set_ctr e0 keys ?k val sched ?m = Ok m'" "pm_data m' = ds" "pm_handle m' = set_ctr c ?h"
    using push_steps_run [of sched ?m "ctr ?h" ?h e0 keys ?k val ds] ds by (auto simp: set_get)
  let ?s' = "s\<lparr>ks_data := ds, ks_handle := finish (set_ctr c ?h)\<rparr>"
  have ks: "ks_HandlePush start push finish ctr set_ctr e0 sched msg s = Ok ?s'"
    using m ne k m' il by (simp add: ks_HandlePush_def Let_def check_def)
  have "oks (one_map (bucket_of s) ds) = oks data" using ab ds by (simp add: one)
  then have "one_map (bucket_of s) ds x = data x" for x by (metis (no_types, lifting) option.inj_map res.inject(1) injI inj_eq)
  then have "abs_data ?s' = data" by (auto simp: abs_data_def bucket_of_def [abs_def])
  moreover have "set_ctr c h1 = set_ctr c ?h" using h1 set_set by metis
  ultimately show ?thesis using ks s1 by (intro exI [of _ ?s'] exI [of _ h1] exI [of _ c]) simp
qed

end

section \<open>The linear updaters\<close>

abbreviation set_new_w :: "int \<Rightarrow> LISGDHandle \<Rightarrow> LISGDHandle" where
  "set_new_w c h \<equiv> h\<lparr>lh_new_w := c\<rparr>"

lemma LISGD_Update_set:
  "LISGD_Update c o' (set_new_w n h) = set_new_w (n + (lh_new_w (LISGD_Update c o' h) - lh_new_w h)) h"
  by (simp add: LISGD_Update_def)

interpretation sgd: racing_updater SGDHandle_Push lh_new_w set_new_w
  by unfold_locales (simp_all add: SGDHandle_Push_def Let_def rbind_assoc LISGD_Update_set)

interpretation ada: racing_updater LAdaGradHandle_Push lh_new_w set_new_w
  by unfold_locales (simp_all add: LAdaGradHandle_Push_def Let_def rbind_assoc LISGD_Update_set)

interpretation ftrl: racing_updater FTRLHandle_Push lh_new_w set_new_w
  by unfold_locales (simp_all add: FTRLHandle_Push_def Let_def rbind_assoc LISGD_Update_set)

abbreviation ftrl0 :: "real FTRLEntry" where
  "ftrl0 \<equiv> \<lparr>ft_w = 0, ft_z = 0, ft_sq_cum_grad = 0\<rparr>"

text \<open>
  C11: the multi-threaded store refines the single-threaded one, for the FTRL updater, whose counter the threads share: take a fixed-size push
  of keys in order and within the ranges of the threads that the single-threaded store accepts. Then
  for every interleaving of the steps of the threads, with the counter read and written in separate steps, the multi-threaded
  store accepts it too, its buckets read as one map through \<open>GetValue\<close> hold exactly the entries
  of the single-threaded store, and the two updaters given to \<open>Finish\<close> differ at most in the counter \<open>new_w\<close>.
  (Updates of the counter can be lost, see \<open>new_w_update_lost\<close>; the other linear updaters satisfy the same law, \<open>sgd.push_refines\<close> and
  \<open>ada.push_refines\<close>.)
\<close>

theorem sharded_push_refines:
  assumes "in_ranges s keys" and "length (ks_data s) = ks_nt s" and "keys \<noteq> []"
    and "\<not> msg_dyn msg" and "msg_key msg = keys" and "msg_value msg = [Vals val]"
    and "interleaving (ks_nt s) (ThreadPush s keys) sched"
    and "HandlePush LISGD_Start FTRLHandle_Push LISGD_Finish ftrl0 msg \<lparr>kv_data = abs_data s, kv_handle = ks_handle s, kv_k = ks_k s\<rparr> = Ok s1"
  shows "\<exists>s' h c. ks_HandlePush LISGD_Start FTRLHandle_Push LISGD_Finish lh_new_w set_new_w ftrl0 sched msg s = Ok s' \<and>
     abs_data s' = kv_data s1 \<and> kv_handle s1 = LISGD_Finish h \<and> ks_handle s' = LISGD_Finish (h\<lparr>lh_new_w := c\<rparr>)"
  using assms by (rule ftrl.push_refines)

definition demo_shards :: "(real FTRLEntry, LISGDHandle) KVStoreSparse" where
  "demo_shards = \<lparr>ks_data = [Map.empty, Map.empty], ks_handle = demo_lh\<lparr>lh_reporter := False\<rparr>, ks_k = 1, ks_nt = 2, ks_min = 0, ks_bucket = 4\<rparr>"

definition demo_push :: "real Message" where
  "demo_push = \<lparr>msg_push = True, msg_replica = False, msg_cmd = 0, msg_dyn = False, msg_key = [1, 5], msg_value = [Vals [3, 3]]\<rparr>"

text \<open>Both threads read the counter before either writes it.\<close>

definition demo_sched :: "(nat \<times> push_step) list" where
  "demo_sched = [(1, PushEntry 1), (0, PushEntry 0), (0, ReadCounter), (1, ReadCounter), (1, WriteCounter), (0, WriteCounter)]"

lemma demo_slices: "SliceKey demo_shards [1, 5] = [0, 1, 2]"
proof -
  have "[0..<2 + 1] = [0, 1, 2 :: nat]" by code_simp
  moreover have "key_pos demo_shards [1, 5] 1 = 1" by (simp add: demo_shards_def lower_bound_def)
  moreover have "key_pos demo_shards [1, 5] 2 = 2" using key_pos.simps(2) [of demo_shards "[1, 5]" 1] by (simp add: demo_shards_def numeral_2_eq_2 [symmetric] del: key_pos.simps)
  ultimately show ?thesis by (simp add: SliceKey_def demo_shards_def)
qed

lemma demo_sched_ok: "interleaving (ks_nt demo_shards) (ThreadPush demo_shards [1, 5]) demo_sched"
  unfolding interleaving_def ThreadPush_def demo_slices by (auto simp: demo_sched_def less_2_cases_iff demo_shards_def upt_rec)

lemma demo_ftrl_push:
  "FTRLHandle_Push key [3] ftrl0 (demo_lh\<lparr>lh_reporter := False, lh_new_w := n\<rparr>) =
     Ok (\<lparr>ft_w = - 1 / 2, ft_z = 3, ft_sq_cum_grad = 3\<rparr>, demo_lh\<lparr>lh_reporter := False, lh_new_w := n + 1\<rparr>)"
  by (simp add: FTRLHandle_Push_def Blob_at_def Solve_def demo_lh_def LISGD_Update_def Let_def)

lemma demo_empty: "abs_data demo_shards = Map.empty"
  by (rule ext) (simp add: abs_data_def one_map_def demo_shards_def less_2_cases_iff nth_Cons')

lemma demo_single:
  "\<exists>s1. HandlePush LISGD_Start FTRLHandle_Push LISGD_Finish ftrl0 demo_push
     \<lparr>kv_data = abs_data demo_shards, kv_handle = ks_handle demo_shards, kv_k = 1\<rparr> = Ok s1 \<and> lh_new_w (kv_handle s1) = 2"
  using demo_ftrl_push [of 1 0] demo_ftrl_push [of 5 1] demo_empty
  by (simp add: HandlePush_def demo_push_def LISGD_Start_def LISGD_Finish_def Let_def entry_at_def demo_shards_def check_def demo_lh_def)

text \<open>
  The two new weights of this push are counted once: \<open>++new_w\<close> of one thread is lost.
\<close>

lemma new_w_update_lost:
  "\<exists>s'. ks_HandlePush LISGD_Start FTRLHandle_Push LISGD_Finish lh_new_w set_new_w ftrl0 demo_sched demo_push demo_shards = Ok s' \<and>
     lh_new_w (ks_handle s') = 1 \<and> (\<forall>key\<in>{1, 5}. \<exists>e. abs_data s' key = Some e \<and> ft_w e \<noteq> 0)"
  using demo_ftrl_push [of 1 0] demo_ftrl_push [of 5 0] demo_sched_ok
  by (simp add: ks_HandlePush_def demo_push_def demo_sched_def LISGD_Start_def LISGD_Finish_def Let_def entry_at_def demo_shards_def abs_data_def one_map_def
     check_def piece_def demo_lh_def bucket_of_def)

theorem sharded_push_refines_witness:
  "\<exists>s' s1. ks_HandlePush LISGD_Start FTRLHandle_Push LISGD_Finish lh_new_w set_new_w ftrl0 demo_sched demo_push demo_shards = Ok s' \<and>
     HandlePush LISGD_Start FTRLHandle_Push LISGD_Finish ftrl0 demo_push
       \<lparr>kv_data = abs_data demo_shards, kv_handle = ks_handle demo_shards, kv_k = 1\<rparr> = Ok s1 \<and> abs_data s' = kv_data s1"
proof -
  obtain s1 where s1: "HandlePush LISGD_Start FTRLHandle_Push LISGD_Finish ftrl0 demo_push
      \<lparr>kv_data = abs_data demo_shards, kv_handle = ks_handle demo_shards, kv_k = 1\<rparr> = Ok s1" using demo_single by blast
  have "in_ranges demo_shards [1, 5]" by (simp add: in_ranges_def demo_shards_def)
  then show ?thesis
    using sharded_push_refines [of demo_shards "[1, 5]" demo_push "[3, 3]" demo_sched s1] demo_sched_ok s1
    by (auto simp: demo_push_def demo_shards_def)
qed

end
