(* ===== verification/DifactoUpdate.thy ===== *)
theory DifactoUpdate
  imports LinearUpdate
begin

text \<open>
  The model updater of DiFacto (\<open>src/difacto/async_sgd.h\<close>): the entry of a feature, stored inline while it is a
  single weight and in two arrays once it has an embedding; the FTRL update of the weight, the AdaGrad update of
  the embedding, the growth of an entry, and the counters reported to the scheduler. The entry is
  polymorphic in its cells: real numbers for the updates, bit patterns for saving and loading.
\<close>

section \<open>Entries\<close>

text \<open>
  The two pointers of an entry. When \<open>size = 1\<close> their sixteen bytes hold the weight, four unused bytes, the
  square root of the cumulated gradient and \<open>z\<close>; otherwise they point to arrays.
\<close>

datatype 'f storage = Null | Inline 'f 'f 'f 'f | Arrays "'f list" "'f list"

record 'f AdaGradEntry =
  fea_cnt :: u32
  siz :: int
  mem :: "'f storage"

definition new_AdaGradEntry :: "'f::zero AdaGradEntry" where
  "new_AdaGradEntry = \<lparr>fea_cnt = 0, siz = 1, mem = Inline 0 0 0 0\<rparr>"

definition Entry_Clear :: "'f AdaGradEntry \<Rightarrow> 'f AdaGradEntry" where
  "Entry_Clear e = e\<lparr>siz := 0, mem := Null\<rparr>"

text \<open>Reading a pointer as a number, or a number as a pointer, is an error of the model.\<close>

definition w_0 :: "'f AdaGradEntry \<Rightarrow> 'f res" where
  "w_0 e = (if siz e = 1 then (case mem e of Inline w p c z \<Rightarrow> Ok w | _ \<Rightarrow> Err OutOfBounds)
     else (case mem e of Arrays w cg \<Rightarrow> nth_res w 0 | _ \<Rightarrow> Err OutOfBounds))"

definition sqc_grad_0 :: "'f AdaGradEntry \<Rightarrow> 'f res" where
  "sqc_grad_0 e = (if siz e = 1 then (case mem e of Inline w p c z \<Rightarrow> Ok c | _ \<Rightarrow> Err OutOfBounds)
     else (case mem e of Arrays w cg \<Rightarrow> nth_res cg 0 | _ \<Rightarrow> Err OutOfBounds))"

definition z_0 :: "'f AdaGradEntry \<Rightarrow> 'f res" where
  "z_0 e = (if siz e = 1 then (case mem e of Inline w p c z \<Rightarrow> Ok z | _ \<Rightarrow> Err OutOfBounds)
     else (case mem e of Arrays w cg \<Rightarrow> nth_res cg 1 | _ \<Rightarrow> Err OutOfBounds))"

text \<open>Assignments through the same references.\<close>

definition set_w_0 :: "'f \<Rightarrow> 'f AdaGradEntry \<Rightarrow> 'f AdaGradEntry res" where
  "set_w_0 x e = (if siz e = 1 then (case mem e of Inline w p c z \<Rightarrow> Ok (e\<lparr>mem := Inline x p c z\<rparr>) | _ \<Rightarrow> Err OutOfBounds)
     else (case mem e of Arrays w cg \<Rightarrow> if w = [] then Err OutOfBounds else Ok (e\<lparr>mem := Arrays (w[0 := x]) cg\<rparr>) | _ \<Rightarrow> Err OutOfBounds))"

definition set_sqc_grad_0 :: "'f \<Rightarrow> 'f AdaGradEntry \<Rightarrow> 'f AdaGradEntry res" where
  "set_sqc_grad_0 x e = (if siz e = 1 then (case mem e of Inline w p c z \<Rightarrow> Ok (e\<lparr>mem := Inline w p x z\<rparr>) | _ \<Rightarrow> Err OutOfBounds)
     else (case mem e of Arrays w cg \<Rightarrow> if cg = [] then Err OutOfBounds else Ok (e\<lparr>mem := Arrays w (cg[0 := x])\<rparr>) | _ \<Rightarrow> Err OutOfBounds))"

definition set_z_0 :: "'f \<Rightarrow> 'f AdaGradEntry \<Rightarrow> 'f AdaGradEntry res" where
  "set_z_0 x e = (if siz e = 1 then (case mem e of Inline w p c z \<Rightarrow> Ok (e\<lparr>mem := Inline w p c x\<rparr>) | _ \<Rightarrow> Err OutOfBounds)
     else (case mem e of Arrays w cg \<Rightarrow> if length cg < 2 then Err OutOfBounds else Ok (e\<lparr>mem := Arrays w (cg[1 := x])\<rparr>) | _ \<Rightarrow> Err OutOfBounds))"

text \<open>\<open>AdaGradEntry::Resize\<close>; cells of a new array that are not copied hold \<open>junk\<close>.\<close>

definition Entry_Resize :: "'f \<Rightarrow> int \<Rightarrow> 'f AdaGradEntry \<Rightarrow> 'f AdaGradEntry res" where
  "Entry_Resize junk n e =
     (if n < siz e then Ok (e\<lparr>siz := n\<rparr>)
      else if siz e = 1 then
        (case mem e of
           Inline w p c z \<Rightarrow> Ok (e\<lparr>siz := n, mem := Arrays (w # replicate (nat n - 1) junk) (c # z # replicate (nat n - 1) junk)\<rparr>)
         | _ \<Rightarrow> Err OutOfBounds)
      else
        (case mem e of
           Arrays w cg \<Rightarrow>
             if length w < nat (siz e) \<or> length cg < nat (siz e) + 1 then Err OutOfBounds
             else Ok (e\<lparr>siz := n, mem := Arrays (take (nat (siz e)) w @ replicate (nat n - nat (siz e)) junk)
                          (take (nat (siz e) + 1) cg @ replicate (nat n - nat (siz e)) junk)\<rparr>)
         | _ \<Rightarrow> Err OutOfBounds))"

definition Entry_Empty :: "('f \<Rightarrow> bool) \<Rightarrow> 'f AdaGradEntry \<Rightarrow> bool res" where
  "Entry_Empty is_zero e = rbind (w_0 e) (\<lambda>w. Ok (is_zero w \<and> siz e = 1))"

section \<open>The handle\<close>

text \<open>The performance monitor, without its log lines; \<open>GetTime\<close> is a clock that is read tick by tick.\<close>

record Perf =
  pf_time :: "real list"
  pf_count :: "int list"
  pf_i :: nat
  pf_tick :: nat

record AdaGradHandle =
  lambda_l1 :: real
  lambda_l2 :: real
  alpha :: real
  beta :: real
  V_dim :: int
  V_thr :: u32
  V_lambda_l2 :: real
  V_alpha :: real
  V_beta :: real
  V_min :: real
  V_max :: real
  l1_shrk :: bool
  push_count :: bool
  new_w :: int
  new_V :: int
  has_reporter :: bool
  reported :: "(int \<times> int) list"
  ct :: int
  ns :: int
  perf :: Perf

definition kPushFeaCnt :: int where
  "kPushFeaCnt = 1"

definition Perf_Start :: "(nat \<Rightarrow> real) \<Rightarrow> bool \<Rightarrow> int \<Rightarrow> Perf \<Rightarrow> Perf" where
  "Perf_Start clk push cmd p = p\<lparr>pf_time := (pf_time p)[0 := clk (pf_tick p)],
     pf_i := (if push then (if cmd = kPushFeaCnt then 1 else 2) else 3), pf_tick := pf_tick p + 1\<rparr>"

definition Perf_Stop :: "(nat \<Rightarrow> real) \<Rightarrow> Perf \<Rightarrow> Perf" where
  "Perf_Stop clk p =
     (let i = pf_i p; c1 = (pf_count p)[i := pf_count p ! i + 1] in
      p\<lparr>pf_time := (pf_time p)[i := pf_time p ! i + (clk (pf_tick p) - pf_time p ! 0)],
        pf_count := c1[0 := c1 ! 0 + 1], pf_tick := pf_tick p + 1\<rparr>)"

definition Handle_Start :: "(nat \<Rightarrow> real) \<Rightarrow> bool \<Rightarrow> int \<Rightarrow> AdaGradHandle \<Rightarrow> AdaGradHandle" where
  "Handle_Start clk push cmd h = h\<lparr>push_count := push \<and> cmd = kPushFeaCnt, perf := Perf_Start clk push cmd (perf h)\<rparr>"

definition Report :: "AdaGradHandle \<Rightarrow> AdaGradHandle" where
  "Report h =
     (let h1 = h\<lparr>ct := ct h + 1\<rparr> in
      if ct h1 \<ge> ns h1 \<and> has_reporter h1
      then h1\<lparr>reported := reported h1 @ [(new_w h1, new_V h1)], new_w := 0, new_V := 0, ct := 0\<rparr> else h1)"

definition Handle_Finish :: "(nat \<Rightarrow> real) \<Rightarrow> AdaGradHandle \<Rightarrow> AdaGradHandle" where
  "Handle_Finish clk h = (let h1 = Report h in h1\<lparr>perf := Perf_Stop clk (perf h1)\<rparr>)"

text \<open>\<open>AdaGradHandle::Resize\<close>; \<open>rnd j\<close> is the value of \<open>rand() / RAND_MAX\<close> drawn for cell \<open>j\<close>.\<close>

definition init_cells :: "(nat \<Rightarrow> real) \<Rightarrow> AdaGradHandle \<Rightarrow> int \<Rightarrow> real AdaGradEntry \<Rightarrow> real AdaGradEntry res" where
  "init_cells rnd h old e =
     (case mem e of
        Arrays w cg \<Rightarrow> if length w < nat (siz e) \<or> length cg < nat (siz e) + 1 then Err OutOfBounds
          else Ok (e\<lparr>mem := Arrays (map (\<lambda>j. if nat old \<le> j \<and> j < nat (siz e) then rnd j * (V_max h - V_min h) + V_min h else w ! j) [0..<length w])
                                  (map (\<lambda>j. if nat old < j \<and> j \<le> nat (siz e) then 0 else cg ! j) [0..<length cg])\<rparr>)
      | _ \<Rightarrow> Err OutOfBounds)"

definition Handle_Resize :: "(nat \<Rightarrow> real) \<Rightarrow> real \<Rightarrow> real AdaGradEntry \<Rightarrow> AdaGradHandle \<Rightarrow> (real AdaGradEntry \<times> AdaGradHandle) res" where
  "Handle_Resize rnd junk e h =
     (if fea_cnt e > V_thr h \<and> siz e < V_dim h + 1 then
        rbind (if l1_shrk h then rbind (w_0 e) (\<lambda>w. Ok (w \<noteq> 0)) else Ok True) (\<lambda>grow.
          if grow then
            rbind (Entry_Resize junk (V_dim h + 1) e) (\<lambda>e1.
            rbind (init_cells rnd h (siz e) e1) (\<lambda>e2. Ok (e2, h\<lparr>new_V := new_V h + (siz e2 - siz e)\<rparr>)))
          else Ok (e, h))
      else Ok (e, h))"

definition UpdateW :: "(nat \<Rightarrow> real) \<Rightarrow> real \<Rightarrow> real \<Rightarrow> real AdaGradEntry \<Rightarrow> AdaGradHandle \<Rightarrow> (real AdaGradEntry \<times> AdaGradHandle) res" where
  "UpdateW rnd junk g0 e h =
     rbind (w_0 e) (\<lambda>w.
     let g = g0 + lambda_l2 h * w in
     rbind (sqc_grad_0 e) (\<lambda>cg.
     let cg_new = sqrt (cg * cg + g * g) in
     rbind (set_sqc_grad_0 cg_new e) (\<lambda>e1.
     rbind (z_0 e1) (\<lambda>z_old.
     let z = z_old - (g - (cg_new - cg) / alpha h * w); l1 = lambda_l1 h in
     rbind (set_z_0 z e1) (\<lambda>e2.
     let eta = (beta h + cg_new) / alpha h;
         w' = (if z \<le> l1 \<and> z \<ge> - l1 then 0 else (if z > 0 then z - l1 else z + l1) / eta) in
     rbind (set_w_0 w' e2) (\<lambda>e3.
     if w = 0 \<and> w' \<noteq> 0 then Handle_Resize rnd junk e3 (h\<lparr>new_w := new_w h + 1\<rparr>)
     else if w \<noteq> 0 \<and> w' = 0 then Ok (e3, h\<lparr>new_w := new_w h - 1\<rparr>)
     else Ok (e3, h)))))))"

text \<open>\<open>UpdateV\<close> on the cells of the embedding and of its gradient sums.\<close>

fun UpdateV :: "AdaGradHandle \<Rightarrow> real list \<Rightarrow> real list \<Rightarrow> real list \<Rightarrow> real list \<times> real list" where
  "UpdateV h (w # ws) (cg # cgs) (g # gs) =
     (let grad = g + V_lambda_l2 h * w; cg' = sqrt (cg * cg + grad * grad); eta = V_alpha h / (cg' + V_beta h);
          (ws', cgs') = UpdateV h ws cgs gs
      in ((w - eta * grad) # ws', cg' # cgs'))"
| "UpdateV h ws cgs gs = (ws, cgs)"

text \<open>Conversion of a \<open>float\<close> to \<open>unsigned\<close>.\<close>

definition to_unsigned :: "real \<Rightarrow> u32" where
  "to_unsigned x = word_of_int (if x \<ge> 0 then \<lfloor>x\<rfloor> else \<lceil>x\<rceil>)"

definition Handle_Push ::
    "(nat \<Rightarrow> real) \<Rightarrow> real \<Rightarrow> u64 \<Rightarrow> real list \<Rightarrow> real AdaGradEntry \<Rightarrow> AdaGradHandle \<Rightarrow> (real AdaGradEntry \<times> AdaGradHandle) res" where
  "Handle_Push rnd junk key recv e h =
     (if push_count h then
        rbind (Blob_at recv 0) (\<lambda>c. Handle_Resize rnd junk (e\<lparr>fea_cnt := fea_cnt e + to_unsigned c\<rparr>) h)
      else
        check (int (length recv) \<le> siz e) ''recv.size <= val.size''
         (rbind (Blob_at recv 0) (\<lambda>g.
          rbind (UpdateW rnd junk g e h) (\<lambda>(e1, h1).
          if length recv > 1 then
            (case mem e1 of
               Arrays w cg \<Rightarrow>
                 (let n = length recv - 1; (ws, cgs) = UpdateV h1 (take n (drop 1 w)) (take n (drop 2 cg)) (drop 1 recv) in
                  if length w < n + 1 \<or> length cg < n + 2 then Err OutOfBounds
                  else Ok (e1\<lparr>mem := Arrays (take 1 w @ ws @ drop (n + 1) w) (take 2 cg @ cgs @ drop (n + 2) cg)\<rparr>, h1))
             | _ \<Rightarrow> Err OutOfBounds)
          else Ok (e1, h1)))))"

definition Handle_Pull :: "u64 \<Rightarrow> real AdaGradEntry \<Rightarrow> real list \<Rightarrow> AdaGradHandle \<Rightarrow> real Pulled res" where
  "Handle_Pull key e send h =
     rbind (w_0 e) (\<lambda>w0.
     if siz e = 1 \<or> (l1_shrk h \<and> w0 = 0) then
       check (length send > 0) ''send.size > 0'' (Ok (InPlace (send[0 := w0]) 1))
     else (case mem e of
        Arrays w cg \<Rightarrow> if length w < nat (siz e) then Err OutOfBounds else Ok (External (take (nat (siz e)) w))
      | _ \<Rightarrow> Err OutOfBounds))"

section \<open>The invariant of entries\<close>

definition entry_ok :: "AdaGradHandle \<Rightarrow> 'f AdaGradEntry \<Rightarrow> bool" where
  "entry_ok h e \<longleftrightarrow>
     (case mem e of
        Null \<Rightarrow> False
      | Inline w p c z \<Rightarrow> siz e = 1
      | Arrays w cg \<Rightarrow> siz e = V_dim h + 1 \<and> siz e > 1 \<and> int (length w) = siz e \<and> int (length cg) = siz e + 1)"

definition w_of :: "'f::zero AdaGradEntry \<Rightarrow> 'f" where
  "w_of e = (case mem e of Inline w p c z \<Rightarrow> w | Arrays (w # ws) cg \<Rightarrow> w | _ \<Rightarrow> 0)"

definition cg_of :: "'f::zero AdaGradEntry \<Rightarrow> 'f" where
  "cg_of e = (case mem e of Inline w p c z \<Rightarrow> c | Arrays w (c # cg) \<Rightarrow> c | _ \<Rightarrow> 0)"

definition z_of :: "'f::zero AdaGradEntry \<Rightarrow> 'f" where
  "z_of e = (case mem e of Inline w p c z \<Rightarrow> z | Arrays w (c # z # cg) \<Rightarrow> z | _ \<Rightarrow> 0)"

lemma entry_cases:
  assumes "entry_ok h e"
  obtains (inline) w p c z where "mem e = Inline w p c z" "siz e = 1"
    | (arrays) w ws c z cg where "mem e = Arrays (w # ws) (c # z # cg)" "siz e = V_dim h + 1" "siz e > 1"
        "int (length ws) + 1 = siz e" "length cg = length ws"
proof (cases "mem e")
  case (Arrays w cg)
  then have l: "siz e = V_dim h + 1" "siz e > 1" "int (length w) = siz e" "int (length cg) = siz e + 1" using assms by (auto simp: entry_ok_def)
  then obtain x xs where x: "w = x # xs" by (cases w) auto
  obtain c z cs where c: "cg = c # z # cs" using l by (cases cg; cases "tl cg") auto
  show ?thesis using arrays [of x xs c z cs] Arrays l x c by auto
qed (use assms inline in \<open>auto simp: entry_ok_def\<close>)

lemma entry_read:
  assumes "entry_ok h e"
  shows "w_0 e = Ok (w_of e)" "sqc_grad_0 e = Ok (cg_of e)" "z_0 e = Ok (z_of e)"
  using assms by (cases rule: entry_cases; simp add: w_0_def w_of_def sqc_grad_0_def cg_of_def z_0_def z_of_def nth_res_def)+

lemma entry_write:
  assumes "entry_ok h e"
  shows "\<exists>e'. set_w_0 x e = Ok e' \<and> entry_ok h e' \<and> siz e' = siz e \<and> fea_cnt e' = fea_cnt e \<and> w_of e' = x \<and> cg_of e' = cg_of e \<and> z_of e' = z_of e"
    and "\<exists>e'. set_sqc_grad_0 x e = Ok e' \<and> entry_ok h e' \<and> siz e' = siz e \<and> fea_cnt e' = fea_cnt e \<and> w_of e' = w_of e \<and> cg_of e' = x \<and> z_of e' = z_of e"
    and "\<exists>e'. set_z_0 x e = Ok e' \<and> entry_ok h e' \<and> siz e' = siz e \<and> fea_cnt e' = fea_cnt e \<and> w_of e' = w_of e \<and> cg_of e' = cg_of e \<and> z_of e' = x"
  using assms
  by (cases rule: entry_cases; simp add: set_w_0_def set_sqc_grad_0_def set_z_0_def w_of_def cg_of_def z_of_def entry_ok_def)+

lemma entry_ok_cong: "V_dim h' = V_dim h \<Longrightarrow> entry_ok h' e \<longleftrightarrow> entry_ok h e"
  by (auto simp: entry_ok_def split: storage.splits)

lemma Handle_Resize_ok:
  assumes "entry_ok h e"
  shows "\<exists>e' h'. Handle_Resize rnd junk e h = Ok (e', h') \<and> entry_ok h e' \<and> w_of e' = w_of e \<and> cg_of e' = cg_of e \<and> z_of e' = z_of e \<and>
    siz e \<le> siz e' \<and> h' = h\<lparr>new_V := new_V h + (siz e' - siz e)\<rparr>"
proof (cases "fea_cnt e > V_thr h \<and> siz e < V_dim h + 1 \<and> (l1_shrk h \<longrightarrow> w_of e \<noteq> 0)")
  case False
  then show ?thesis using assms entry_read(1) [OF assms] by (auto simp: Handle_Resize_def)
next
  case True
  from assms True obtain w p c z where m: "mem e = Inline w p c z" "siz e = 1" by (cases rule: entry_cases) auto
  define n where "n = nat (V_dim h + 1)"
  have n: "n > 1" "V_dim h + 1 = int n" using True m by (auto simp: n_def)
  let ?e1 = "e\<lparr>siz := int n, mem := Arrays (w # replicate (n - 1) junk) (c # z # replicate (n - 1) junk)\<rparr>"
  have e1: "Entry_Resize junk (int n) e = Ok ?e1" using m n by (simp add: Entry_Resize_def)
  define W where "W = map (\<lambda>j. if 1 \<le> j \<and> j < n then rnd j * (V_max h - V_min h) + V_min h else (w # replicate (n - 1) junk) ! j) [0..<n]"
  define C where "C = map (\<lambda>j. if 1 < j \<and> j \<le> n then 0 else (c # z # replicate (n - 1) junk) ! j) [0..<n + 1]"
  have "init_cells rnd h (siz e) ?e1 = Ok (e\<lparr>siz := int n, mem := Arrays W C\<rparr>)"
    using m n by (simp add: init_cells_def W_def C_def del: upt_Suc)
  moreover have "W = w # tl W" "length (tl W) = n - 1"
    using n by (auto simp: W_def list_eq_iff_nth_eq nth_Cons nth_tl split: nat.splits)
  moreover have "C = c # z # tl (tl C)" "length (tl (tl C)) = n - 1"
    using n by (auto simp: C_def list_eq_iff_nth_eq nth_Cons nth_tl split: nat.splits simp del: upt_Suc)
  ultimately obtain ws cgs where i: "init_cells rnd h (siz e) ?e1 = Ok (e\<lparr>siz := int n, mem := Arrays (w # ws) (c # z # cgs)\<rparr>)" "length ws = n - 1" "length cgs = n - 1"
    by metis
  show ?thesis using True m n e1 i entry_read(1) [OF assms]
    by (auto simp: Handle_Resize_def entry_ok_def w_of_def cg_of_def z_of_def)
qed

text \<open>What \<open>Push\<close> does to the counters.\<close>

definition push_effect :: "real AdaGradEntry \<Rightarrow> real AdaGradEntry \<Rightarrow> AdaGradHandle \<Rightarrow> AdaGradHandle" where
  "push_effect e e' h = h\<lparr>new_w := new_w h + ((if w_of e' = 0 then 0 else 1) - (if w_of e = 0 then 0 else 1)), new_V := new_V h + (siz e' - siz e)\<rparr>"

lemma UpdateW_ok:
  fixes g0 :: real
  assumes "entry_ok h e"
  defines "g \<equiv> g0 + lambda_l2 h * w_of e" and "cgn \<equiv> \<lambda>g. sqrt (cg_of e * cg_of e + g * g)"
  defines "z \<equiv> z_of e - (g - (cgn g - cg_of e) / alpha h * w_of e)"
  defines "w' \<equiv> if z \<le> lambda_l1 h \<and> z \<ge> - lambda_l1 h then 0
      else (if z > 0 then z - lambda_l1 h else z + lambda_l1 h) / ((beta h + cgn g) / alpha h)"
  shows "\<exists>e' h'. UpdateW rnd junk g0 e h = Ok (e', h') \<and> entry_ok h e' \<and> w_of e' = w' \<and> cg_of e' = cgn g \<and> z_of e' = z \<and> siz e \<le> siz e' \<and> h' = push_effect e e' h"
proof -
  obtain e1 where e1: "set_sqc_grad_0 (cgn g) e = Ok e1" "entry_ok h e1" "siz e1 = siz e" "w_of e1 = w_of e" "cg_of e1 = cgn g" "z_of e1 = z_of e"
    using entry_write(2) [OF assms(1)] by blast
  obtain e2 where e2: "set_z_0 z e1 = Ok e2" "entry_ok h e2" "siz e2 = siz e" "w_of e2 = w_of e" "cg_of e2 = cgn g" "z_of e2 = z"
    using entry_write(3) [OF e1(2), of z] e1 by auto
  obtain e3 where e3: "set_w_0 w' e2 = Ok e3" "entry_ok h e3" "siz e3 = siz e" "w_of e3 = w'" "cg_of e3 = cgn g" "z_of e3 = z"
    using entry_write(1) [OF e2(2), of w'] e2 by auto
  have U: "UpdateW rnd junk g0 e h =
      (if w_of e = 0 \<and> w' \<noteq> 0 then Handle_Resize rnd junk e3 (h\<lparr>new_w := new_w h + 1\<rparr>)
       else if w_of e \<noteq> 0 \<and> w' = 0 then Ok (e3, h\<lparr>new_w := new_w h - 1\<rparr>) else Ok (e3, h))"
    using entry_read [OF assms(1)] entry_read(3) [OF e1(2)] e1 e2 e3
    by (simp add: UpdateW_def Let_def g_def cgn_def z_def w'_def cong: if_cong)
  let ?h = "h\<lparr>new_w := new_w h + 1\<rparr>"
  have "entry_ok ?h e3" using e3(2) by (simp add: entry_ok_cong [of ?h h])
  then obtain e4 where e4: "Handle_Resize rnd junk e3 ?h = Ok (e4, ?h\<lparr>new_V := new_V ?h + (siz e4 - siz e3)\<rparr>)"
      "entry_ok ?h e4" "w_of e4 = w'" "cg_of e4 = cgn g" "z_of e4 = z" "siz e3 \<le> siz e4"
    using Handle_Resize_ok [of ?h e3] e3 by metis
  have "entry_ok h e4" using e4(2) by (simp add: entry_ok_cong [of ?h h])
  then show ?thesis using U e3 e4 by (cases "w_of e = 0 \<and> w' \<noteq> 0") (auto simp: push_effect_def)
qed

lemma UpdateV_length: "length gs = length ws \<Longrightarrow> length cgs = length ws \<Longrightarrow>
    length (fst (UpdateV h ws cgs gs)) = length ws \<and> length (snd (UpdateV h ws cgs gs)) = length ws"
  by (induction h ws cgs gs rule: UpdateV.induct) (auto simp: Let_def split: prod.splits)

lemma Push_ok:
  assumes "entry_ok h e" "recv \<noteq> []" "push_count h \<or> int (length recv) \<le> siz e"
  shows "\<exists>e'. Handle_Push rnd junk key recv e h = Ok (e', push_effect e e' h) \<and> entry_ok h e' \<and> siz e \<le> siz e'"
proof (cases "push_count h")
  case True
  let ?e = "e\<lparr>fea_cnt := fea_cnt e + to_unsigned (hd recv)\<rparr>"
  have ok: "entry_ok h ?e" "w_of ?e = w_of e" using assms(1) by (auto simp: entry_ok_def w_of_def split: storage.splits)
  obtain e' where "Handle_Resize rnd junk ?e h = Ok (e', h\<lparr>new_V := new_V h + (siz e' - siz ?e)\<rparr>)" "entry_ok h e'" "w_of e' = w_of ?e" "siz ?e \<le> siz e'"
    using Handle_Resize_ok [OF ok(1)] by blast
  moreover have "Blob_at recv 0 = Ok (hd recv)" using assms(2) by (simp add: Blob_at_def hd_conv_nth)
  ultimately show ?thesis using True ok by (auto simp: Handle_Push_def push_effect_def)
next
  case False
  have b: "Blob_at recv 0 = Ok (hd recv)" using assms(2) by (simp add: Blob_at_def hd_conv_nth)
  obtain e1 where e1: "UpdateW rnd junk (hd recv) e h = Ok (e1, push_effect e e1 h)" "entry_ok h e1" "siz e \<le> siz e1"
    using UpdateW_ok [OF assms(1), of rnd junk "hd recv"] by blast
  show ?thesis
  proof (cases "length recv > 1")
    case False
    then show ?thesis using \<open>\<not> push_count h\<close> assms(3) b e1 by (auto simp: Handle_Push_def)
  next
    case True
    have le: "int (length recv) \<le> siz e1" using assms(3) \<open>\<not> push_count h\<close> e1(3) by simp
    from e1(2) show ?thesis
    proof (cases rule: entry_cases)
      case inline
      then show ?thesis using le True by simp
    next
      case (arrays w ws c z cg)
      let ?n = "length recv - 1" and ?h = "push_effect e e1 h"
      obtain ws' cgs' where u: "UpdateV ?h (take ?n ws) (take ?n cg) (tl recv) = (ws', cgs')" by fastforce
      have n: "?n \<le> length ws" using le arrays True by simp
      then have len: "length ws' = ?n" "length cgs' = ?n"
        using UpdateV_length [of "tl recv" "take ?n ws" "take ?n cg" ?h] u arrays by auto
      let ?e = "e1\<lparr>mem := Arrays (w # ws' @ drop ?n ws) (c # z # cgs' @ drop ?n cg)\<rparr>"
      have "Handle_Push rnd junk key recv e h = Ok (?e, ?h)"
        using \<open>\<not> push_count h\<close> assms(3) b e1(1) True arrays u n by (simp add: Handle_Push_def drop_Suc Let_def)
      moreover have "entry_ok h ?e" "w_of ?e = w_of e1" "siz ?e = siz e1" using arrays len n e1(2) by (simp_all add: entry_ok_def w_of_def)
      moreover have "push_effect e ?e h = ?h" using calculation(3,4) by (simp only: push_effect_def)
      ultimately show ?thesis using e1(3) by (intro exI [of _ ?e]) (simp only: simp_thms)
    qed
  qed
qed

section \<open>The handle keeps the contracts of the store\<close>

lemma Push_inv:
  assumes "entry_ok h e" "Handle_Push rnd junk key recv e h = Ok (e', h')"
  shows "entry_ok h e' \<and> h' = push_effect e e' h"
proof -
  have "recv \<noteq> []" "push_count h \<or> int (length recv) \<le> siz e"
    using assms(2) by (auto simp: Handle_Push_def Blob_at_def check_def split: if_splits)
  then show ?thesis using Push_ok [OF assms(1), of recv rnd junk key] assms(2) by auto
qed

lemma entry_ok_fields [simp]:
  "entry_ok (push_effect e e' h) x = entry_ok h x" "entry_ok (Handle_Start clk b c h) x = entry_ok h x" "entry_ok (Handle_Finish clk h) x = entry_ok h x"
  by (auto simp: entry_ok_def push_effect_def Handle_Start_def Handle_Finish_def Report_def Let_def split: storage.splits)

lemma new_entry_ok [simp]: "entry_ok h new_AdaGradEntry" "w_of new_AdaGradEntry = 0" "siz new_AdaGradEntry = 1"
  by (simp_all add: entry_ok_def new_AdaGradEntry_def w_of_def)

lemma counters [simp]:
  "new_w (Handle_Start clk b c h) = new_w h" "new_V (Handle_Start clk b c h) = new_V h" "reported (Handle_Start clk b c h) = reported h"
  "new_w (Handle_Finish clk h) + sum_list (map fst (reported (Handle_Finish clk h))) = new_w h + sum_list (map fst (reported h))"
  "new_V (Handle_Finish clk h) + sum_list (map snd (reported (Handle_Finish clk h))) = new_V h + sum_list (map snd (reported h))"
  by (simp_all add: Handle_Start_def Handle_Finish_def Report_def Let_def)

lemma Push_counters:
  assumes "entry_ok h e" "Handle_Push rnd junk key recv e h = Ok (e', h')"
  shows "entry_ok h' x = entry_ok h x"
    and "new_w h' = new_w h + ((if w_of e' = 0 then 0 else 1) - (if w_of e = 0 then 0 else 1))" "new_V h' = new_V h + (siz e' - siz e)" "reported h' = reported h"
proof -
  have h': "h' = push_effect e e' h" using Push_inv [OF assms] by simp
  show "entry_ok h' x = entry_ok h x" unfolding h' by simp
  show "new_w h' = new_w h + ((if w_of e' = 0 then 0 else 1) - (if w_of e = 0 then 0 else 1))" "new_V h' = new_V h + (siz e' - siz e)" "reported h' = reported h"
    unfolding h' by (simp_all add: push_effect_def)
qed

interpretation dw: counting "Handle_Start clk" "Handle_Push rnd junk" "Handle_Finish clk" new_AdaGradEntry "\<lambda>_. True" entry_ok
  "\<lambda>e. if w_of e = 0 then 0 else 1" "\<lambda>h. new_w h + sum_list (map fst (reported h))" for clk rnd junk
  by unfold_locales (auto dest: Push_inv simp: Push_counters)

interpretation dV: counting "Handle_Start clk" "Handle_Push rnd junk" "Handle_Finish clk" new_AdaGradEntry "\<lambda>_. True" entry_ok
  "\<lambda>e. siz e - 1" "\<lambda>h. new_V h + sum_list (map snd (reported h))" for clk rnd junk
  by unfold_locales (auto dest: Push_inv simp: Push_counters)

text \<open>What a pull of an entry returns: the weight alone, or the weight and the embedding.\<close>

definition cells :: "AdaGradHandle \<Rightarrow> real AdaGradEntry \<Rightarrow> real list" where
  "cells h e = (case mem e of Arrays w cg \<Rightarrow> if l1_shrk h \<and> w_of e = 0 then [w_of e] else w | _ \<Rightarrow> [w_of e])"

lemma Pull_cells:
  assumes "entry_ok h0 e" "0 < length buf"
  shows "Handle_Pull key e buf h = Ok (External (cells h e)) \<or>
    length (cells h e) = 1 \<and> Handle_Pull key e buf h = Ok (InPlace (buf[0 := w_of e]) 1) \<and> cells h e = [w_of e]"
  using assms(1)
proof (cases rule: entry_cases)
  case inline
  then show ?thesis using assms entry_read(1) [OF assms(1)] by (simp add: Handle_Pull_def cells_def)
next
  case (arrays w ws c z cg)
  then have "nat (siz e) = length ws + 1" by linarith
  then show ?thesis using assms(2) arrays entry_read(1) [OF assms(1)] by (auto simp: Handle_Pull_def cells_def)
qed

interpretation dp: puller Handle_Pull "Suc k" "entry_ok h0" cells for k h0
proof
  fix h key and e :: "real AdaGradEntry" and buf :: "real list"
  assume "entry_ok h0 e" "Suc k \<le> length buf"
  then show "Handle_Pull key e buf h = Ok (External (cells h e)) \<or> length (cells h e) \<le> Suc k \<and>
      (\<exists>buf'. Handle_Pull key e buf h = Ok (InPlace buf' (length (cells h e))) \<and> length buf' = length buf \<and> take (length (cells h e)) buf' = cells h e)"
    using Pull_cells [of h0 e buf key h] by (cases buf) auto
qed

section \<open>Properties of the server\<close>

text \<open>
  C12: what the DiFacto server reports: in every state the store reaches by answering requests, the sum of the reported
  changes and of the pending counter is, for the weights, the number of features with a weight that is not zero,
  and for the embeddings the number of embedding cells that exist.
\<close>

theorem difacto_counts:
  assumes "kv_run (Handle_Start clk) (Handle_Push rnd junk) Handle_Pull (Handle_Finish clk) new_AdaGradEntry junk s0 s"
    and "kv_data s0 = Map.empty" and "new_w (kv_handle s0) = 0" and "new_V (kv_handle s0) = 0" and "reported (kv_handle s0) = []"
  shows "int (card {k. \<exists>e. kv_data s k = Some e \<and> w_of e \<noteq> 0}) = new_w (kv_handle s) + sum_list (map fst (reported (kv_handle s))) \<and>
    (\<Sum>k\<in>dom (kv_data s). siz (the (kv_data s k)) - 1) = new_V (kv_handle s) + sum_list (map snd (reported (kv_handle s)))"
proof
  show "int (card {k. \<exists>e. kv_data s k = Some e \<and> w_of e \<noteq> 0}) = new_w (kv_handle s) + sum_list (map fst (reported (kv_handle s)))"
    using dw.run_sound [OF assms(1,2)] assms(3,5) total_card [of "kv_data s" "\<lambda>e. w_of e = 0"] by (simp add: dw.sound_def)
  show "(\<Sum>k\<in>dom (kv_data s). siz (the (kv_data s k)) - 1) = new_V (kv_handle s) + sum_list (map snd (reported (kv_handle s)))"
    using dV.run_sound [OF assms(1,2)] assms(4,5) by (simp add: total_def)
qed

text \<open>
  C26: a dynamic pull never aborts: in every reachable state of the DiFacto store, a request for any list of keys is
  answered with the cells of the entries one after the other, each entry giving its weight or its weight
  and embedding, and with the sizes of these pieces; keys without an entry give the single weight 0.
\<close>

theorem difacto_pull_answers:
  assumes "kv_run (Handle_Start clk) (Handle_Push rnd junk) Handle_Pull (Handle_Finish clk) new_AdaGradEntry junk s0 s"
    and "kv_data s0 = Map.empty" and "kv_k s > 0" and "msg_dyn msg" and "msg_value msg = []"
  shows "\<exists>r s'. HandlePull (Handle_Start clk) Handle_Pull (Handle_Finish clk) new_AdaGradEntry junk msg s = Ok (r, s') \<and>
    msg_value r = [Vals (concat (map (\<lambda>k. cells (kv_handle s) (entry_at new_AdaGradEntry (kv_data s) k)) (msg_key msg))),
                   Sizes (map (\<lambda>k. length (cells (kv_handle s) (entry_at new_AdaGradEntry (kv_data s) k))) (msg_key msg))]"
proof -
  have "dw.sound (kv_data s) (kv_handle s)" using dw.run_sound [OF assms(1,2)] by simp
  then have ok: "entry_ok (kv_handle s) (entry_at new_AdaGradEntry (kv_data s) k)" for k by (rule dw.sound_entry)
  have c: "cells (Handle_Start clk b c h) e = cells h e" for b c h e by (auto simp: cells_def Handle_Start_def split: storage.splits)
  obtain k where "kv_k s = Suc k" using assms(3) by (cases "kv_k s") auto
  then show ?thesis
    using dp.HandlePull_dyn [of msg s k "kv_handle s" new_AdaGradEntry "Handle_Start clk" "Handle_Finish clk" junk] ok assms(4,5)
    by (simp add: c comp_def)
qed

definition demo_h :: AdaGradHandle where
  "demo_h = \<lparr>lambda_l1 = 1, lambda_l2 = 0, alpha = 1, beta = 1, V_dim = 1, V_thr = 0, V_lambda_l2 = 0, V_alpha = 1, V_beta = 1,
     V_min = -1, V_max = 1, l1_shrk = False, push_count = False, new_w = 0, new_V = 0, has_reporter = True, reported = [], ct = 0, ns = 2,
     perf = \<lparr>pf_time = [0, 0, 0, 0], pf_count = [0, 0, 0, 0], pf_i = 0, pf_tick = 0\<rparr>\<rparr>"

text \<open>Worker pushes that feature 7 was seen once: the entry gets an embedding of one cell.\<close>

definition demo_cnt :: "real Message" where
  "demo_cnt = \<lparr>msg_push = True, msg_replica = False, msg_cmd = 1, msg_dyn = False, msg_key = [7], msg_value = [Vals [1]]\<rparr>"

definition demo_ds :: "(real AdaGradEntry, AdaGradHandle) KVStoreSparseST" where
  "demo_ds = \<lparr>kv_data = Map.empty, kv_handle = demo_h, kv_k = 1\<rparr>"

definition demo_e7 :: "real AdaGradEntry" where
  "demo_e7 = \<lparr>fea_cnt = 1, siz = 2, mem = Arrays [0, 0] [0, 0, 0]\<rparr>"

abbreviation "demo_request \<equiv> ProcessRequest (Handle_Start real) (Handle_Push (\<lambda>_. 1 / 2) 0) Handle_Pull (Handle_Finish real) new_AdaGradEntry 0"

lemma demo_cnt_push:
  "\<exists>s. demo_request demo_cnt demo_ds = Ok (None, s) \<and> kv_data s = [7 \<mapsto> demo_e7] \<and> kv_k s = 1 \<and>
     new_w (kv_handle s) = 0 \<and> new_V (kv_handle s) = 1 \<and> reported (kv_handle s) = [] \<and> \<not> l1_shrk (kv_handle s)"
proof -
  have "to_unsigned 1 = 1" by (simp add: to_unsigned_def)
  then have p: "Handle_Push (\<lambda>_. 1 / 2) 0 7 [1] new_AdaGradEntry (Handle_Start real True 1 demo_h) =
      Ok (demo_e7, (Handle_Start real True 1 demo_h)\<lparr>new_V := 1\<rparr>)"
    by (simp add: Handle_Push_def Handle_Start_def kPushFeaCnt_def Blob_at_def Handle_Resize_def demo_h_def new_AdaGradEntry_def
        Entry_Resize_def init_cells_def demo_e7_def upt_rec)
  show ?thesis
    by (simp add: ProcessRequest_def HandlePush_def demo_cnt_def demo_ds_def entry_at_def p)
      (simp add: Handle_Start_def Handle_Finish_def Report_def Let_def demo_h_def)
qed

lemma demo_cnt_run:
  "\<exists>s. kv_run (Handle_Start real) (Handle_Push (\<lambda>_. 1 / 2) 0) Handle_Pull (Handle_Finish real) new_AdaGradEntry 0 demo_ds s \<and> kv_data s = [7 \<mapsto> demo_e7] \<and> kv_k s = 1 \<and>
     new_w (kv_handle s) = 0 \<and> new_V (kv_handle s) = 1 \<and> reported (kv_handle s) = [] \<and> \<not> l1_shrk (kv_handle s)"
proof -
  obtain s where s: "demo_request demo_cnt demo_ds = Ok (None, s)" "kv_data s = [7 \<mapsto> demo_e7] \<and> kv_k s = 1 \<and>
     new_w (kv_handle s) = 0 \<and> new_V (kv_handle s) = 1 \<and> reported (kv_handle s) = [] \<and> \<not> l1_shrk (kv_handle s)" using demo_cnt_push by blast
  show ?thesis using kv_run.intros(2) [OF kv_run.intros(1) s(1)] s(2) by (intro exI [of _ s]) simp
qed

theorem difacto_counts_witness:
  "\<exists>s. kv_run (Handle_Start real) (Handle_Push (\<lambda>_. 1 / 2) 0) Handle_Pull (Handle_Finish real) new_AdaGradEntry 0 demo_ds s \<and>
     int (card {k. \<exists>e. kv_data s k = Some e \<and> w_of e \<noteq> 0}) = 0 \<and> (\<Sum>k\<in>dom (kv_data s). siz (the (kv_data s k)) - 1) = 1"
proof -
  obtain s where s: "kv_run (Handle_Start real) (Handle_Push (\<lambda>_. 1 / 2) 0) Handle_Pull (Handle_Finish real) new_AdaGradEntry 0 demo_ds s"
      "new_w (kv_handle s) = 0" "new_V (kv_handle s) = 1" "reported (kv_handle s) = []" using demo_cnt_run by blast
  then show ?thesis using difacto_counts [OF s(1)] by (intro exI [of _ s]) (simp add: demo_ds_def demo_h_def)
qed

theorem difacto_pull_answers_witness:
  "\<exists>s r s'. HandlePull (Handle_Start real) Handle_Pull (Handle_Finish real) new_AdaGradEntry 0
      (\<lparr>msg_push = False, msg_replica = False, msg_cmd = 0, msg_dyn = True, msg_key = [5, 7], msg_value = []\<rparr> :: real Message) s = Ok (r, s') \<and>
     msg_value r = [Vals [0, 0, 0], Sizes [1, 2]]"
proof -
  obtain s where s: "kv_run (Handle_Start real) (Handle_Push (\<lambda>_. 1 / 2) 0) Handle_Pull (Handle_Finish real) new_AdaGradEntry 0 demo_ds s"
      "kv_data s = [7 \<mapsto> demo_e7]" "kv_k s = 1" "\<not> l1_shrk (kv_handle s)" using demo_cnt_run by blast
  have c: "cells (kv_handle s) demo_e7 = [0, 0]" "cells (kv_handle s) new_AdaGradEntry = [0]" using s(4)
    by (simp_all add: cells_def demo_e7_def new_AdaGradEntry_def w_of_def)
  show ?thesis
    using difacto_pull_answers [OF s(1), of "\<lparr>msg_push = False, msg_replica = False, msg_cmd = 0, msg_dyn = True, msg_key = [5, 7], msg_value = []\<rparr>"] s c
    by (fastforce simp: demo_ds_def entry_at_def)
qed

section \<open>The same FTRL as the linear solver\<close>

fun pushes :: "(u64 \<Rightarrow> real list \<Rightarrow> 'e \<Rightarrow> 'h \<Rightarrow> ('e \<times> 'h) res) \<Rightarrow> u64 \<Rightarrow> real list \<Rightarrow> 'e \<Rightarrow> 'h \<Rightarrow> ('e \<times> 'h) res" where
  "pushes push key [] e h = Ok (e, h)"
| "pushes push key (g # gs) e h = rbind (push key [g] e h) (\<lambda>(e', h'). pushes push key gs e' h')"

definition same_settings :: "AdaGradHandle \<Rightarrow> LISGDHandle \<Rightarrow> bool" where
  "same_settings h l \<longleftrightarrow> \<not> push_count h \<and> lambda_l2 h = 0 \<and> lambda2 (lh_penalty l) = 0 \<and> lambda_l1 h = lambda1 (lh_penalty l) \<and>
     alpha h = lh_alpha l \<and> beta h = lh_beta l \<and> 0 < lh_alpha l \<and> 0 < lh_beta l"

definition same_state :: "real AdaGradEntry \<Rightarrow> real FTRLEntry \<Rightarrow> bool" where
  "same_state e x \<longleftrightarrow> w_of e = ft_w x \<and> cg_of e = ft_sq_cum_grad x \<and> z_of e = - ft_z x"

lemma push_same:
  assumes "entry_ok h e" "same_settings h l" "same_state e x"
  shows "\<exists>e' h' x' l'. Handle_Push rnd junk key [g] e h = Ok (e', h') \<and> FTRLHandle_Push key [g] x l = Ok (x', l') \<and>
    entry_ok h' e' \<and> same_settings h' l' \<and> same_state e' x' \<and> new_w h' - new_w h = lh_new_w l' - lh_new_w l"
proof -
  have pc: "\<not> push_count h" using assms(2) by (simp add: same_settings_def)
  have sz: "1 \<le> siz e" using assms(1) by (cases rule: entry_cases) auto
  obtain e' h' where e': "UpdateW rnd junk g e h = Ok (e', h')" "entry_ok h e'" "h' = push_effect e e' h"
      "cg_of e' = sqrt (cg_of e * cg_of e + g * g)" "z_of e' = z_of e - (g - (cg_of e' - cg_of e) / alpha h * w_of e)"
      "w_of e' = soft (lambda_l1 h) ((beta h + cg_of e') / alpha h) (z_of e')"
    using UpdateW_ok [OF assms(1), of rnd junk g] assms(2) unfolding same_settings_def soft_def by fastforce
  have P: "Handle_Push rnd junk key [g] e h = Ok (e', h')" using pc sz e'(1) by (simp add: Handle_Push_def Blob_at_def)
  have eta: "(beta h + cg_of e') / alpha h > 0" using assms(2) e'(4) by (simp add: same_settings_def add_pos_nonneg)
  let ?x = "\<lparr>ft_w = w_of e', ft_z = - z_of e', ft_sq_cum_grad = cg_of e'\<rparr>"
  let ?l = "LISGD_Update (w_of e' \<noteq> 0) (w_of e \<noteq> 0) l"
  have s: "ft_w x = w_of e" "ft_sq_cum_grad x = cg_of e" "ft_z x = - z_of e" using assms(3) by (simp_all add: same_state_def)
  have c: "lambda1 (lh_penalty l) = lambda_l1 h" "lambda2 (lh_penalty l) = 0" "lh_alpha l = alpha h" "lh_beta l = beta h"
    using assms(2) by (simp_all add: same_settings_def)
  have z': "- (ft_z x + (g - (cg_of e' - ft_sq_cum_grad x) / alpha h * ft_w x)) = z_of e'" unfolding s e'(5) by simp
  have "Solve (lh_penalty l) (z_of e') ((beta h + cg_of e') / alpha h) = Ok (w_of e')"
    using eta e'(6) c(1,2) by (simp add: Solve_def soft_def)
  then have "FTRLHandle_Push key [g] x l = Ok (?x, ?l)"
    unfolding FTRLHandle_Push_def using z' e'(4) by (simp add: Blob_at_def Let_def c s)
  moreover have "same_settings h' ?l" using assms(2) by (auto simp: e'(3) same_settings_def push_effect_def LISGD_Update_def)
  moreover have "new_w h' - new_w h = lh_new_w ?l - lh_new_w l" by (simp add: e'(3) push_effect_def LISGD_Update_def)
  ultimately show ?thesis using P e'(2,3) by (auto simp: same_state_def)
qed

text \<open>
  C31: without the quadratic penalty, DiFacto's update of a weight is the FTRL update of the linear solver: from
  corresponding states (\<open>z\<close> with the opposite sign) any sequence of gradients of one weight leads both updaters to
  corresponding states, with the same weight, and both count the same changes of the number of weights that are not zero.
\<close>

theorem UpdateW_is_linear_FTRL:
  assumes "entry_ok h e" and "same_settings h l" and "same_state e x"
  shows "\<exists>e' h' x' l'. pushes (Handle_Push rnd junk) key gs e h = Ok (e', h') \<and> pushes FTRLHandle_Push key gs x l = Ok (x', l') \<and>
    same_state e' x' \<and> new_w h' - new_w h = lh_new_w l' - lh_new_w l"
  using assms
proof (induction gs arbitrary: e h x l)
  case (Cons g gs)
  obtain e1 h1 x1 l1 where 1: "Handle_Push rnd junk key [g] e h = Ok (e1, h1)" "FTRLHandle_Push key [g] x l = Ok (x1, l1)"
      "entry_ok h1 e1" "same_settings h1 l1" "same_state e1 x1" "new_w h1 - new_w h = lh_new_w l1 - lh_new_w l"
    using push_same [OF Cons.prems] by blast
  obtain e2 h2 x2 l2 where "pushes (Handle_Push rnd junk) key gs e1 h1 = Ok (e2, h2)" "pushes FTRLHandle_Push key gs x1 l1 = Ok (x2, l2)"
      "same_state e2 x2" "new_w h2 - new_w h1 = lh_new_w l2 - lh_new_w l1" using Cons.IH [OF 1(3-5)] by blast
  then show ?case using 1(1,2,6) by (intro exI [of _ e2] exI [of _ h2] exI [of _ x2] exI [of _ l2]) simp
qed simp

theorem UpdateW_is_linear_FTRL_witness:
  "\<exists>e' h' x' l'. pushes (Handle_Push (\<lambda>_. 0) 0) 7 [3, -5] new_AdaGradEntry demo_h = Ok (e', h') \<and>
     pushes FTRLHandle_Push 7 [3, -5] \<lparr>ft_w = 0, ft_z = 0, ft_sq_cum_grad = 0\<rparr> demo_lh = Ok (x', l') \<and> same_state e' x'"
proof -
  have "same_settings demo_h demo_lh" by (simp add: same_settings_def demo_h_def demo_lh_def)
  moreover have "same_state new_AdaGradEntry \<lparr>ft_w = 0, ft_z = 0, ft_sq_cum_grad = 0\<rparr>"
    by (simp add: same_state_def new_AdaGradEntry_def w_of_def cg_of_def z_of_def)
  ultimately show ?thesis using UpdateW_is_linear_FTRL [OF new_entry_ok(1), of demo_h demo_lh _ "\<lambda>_. 0" 0 7 "[3, -5]"] by blast
qed

end
