(* ===== verification/KVSaveLoad.thy ===== *)
theory KVSaveLoad
  imports DifactoUpdate RecordIO
begin

text \<open>
  Saving and loading the model of a server: \<open>KVStoreSparseST::Save\<close> and \<open>Load\<close> (\<open>kv_store_sparse_st.h\<close>) over the
  entries of DiFacto (\<open>AdaGradEntry::Save\<close>, \<open>Load\<close>). The handles save and load nothing of their own. The cells of a
  saved entry are bit patterns; \<open>Save\<close> takes the entries in the order in which the hash map lists them.
\<close>

section \<open>The store\<close>

fun save_entries :: "'s writer \<Rightarrow> ('e \<Rightarrow> bool res) \<Rightarrow> ('e \<Rightarrow> 's \<Rightarrow> 's res) \<Rightarrow> (u64 \<times> 'e) list \<Rightarrow> 's \<Rightarrow> 's res" where
  "save_entries wr emp esave [] s = Ok s"
| "save_entries wr emp esave ((key, e) # kvs) s =
     rbind (emp e) (\<lambda>em.
     if em then save_entries wr emp esave kvs s
     else rbind (wr (enc64 key) s) (\<lambda>s1. rbind (esave e s1) (save_entries wr emp esave kvs)))"

text \<open>The loop of \<open>Load\<close>: \<open>None\<close> when the fuel runs out before the stream ends.\<close>

fun load_entries ::
    "nat \<Rightarrow> 's reader \<Rightarrow> 'e \<Rightarrow> ('e \<Rightarrow> 'h \<Rightarrow> 's \<Rightarrow> ('e \<times> 'h \<times> 's) res) \<Rightarrow> (u64 \<rightharpoonup> 'e) \<Rightarrow> 'h \<Rightarrow> 's \<Rightarrow> ((u64 \<rightharpoonup> 'e) \<times> 'h) res option" where
  "load_entries 0 rd e0 eload data h s = None"
| "load_entries (Suc n) rd e0 eload data h s =
     (case rd 8 s of
        Err x \<Rightarrow> Some (Err x)
      | Ok (bs, s1) \<Rightarrow>
          if length bs \<noteq> 8 then Some (Ok (data, h))
          else (let key = dec64 bs in
                case eload (entry_at e0 data key) h s1 of
                  Err x \<Rightarrow> Some (Err x)
                | Ok (e, h', s2) \<Rightarrow> load_entries n rd e0 eload (data(key \<mapsto> e)) h' s2))"

section \<open>The entries\<close>

text \<open>\<open>Read\<close> into \<open>old\<close>: bytes the stream does not deliver keep their old value; nothing checks the count.\<close>

definition read_into :: "'s reader \<Rightarrow> byte list \<Rightarrow> 's \<Rightarrow> (byte list \<times> 's) res" where
  "read_into rd old s = rbind (rd (length old) s) (\<lambda>(bs, s'). Ok (bs @ drop (length bs) old, s'))"

definition Entry_Save :: "'s writer \<Rightarrow> u32 AdaGradEntry \<Rightarrow> 's \<Rightarrow> 's res" where
  "Entry_Save wr e s =
     rbind (wr (enc32 (word_of_int (siz e))) s) (\<lambda>s1.
     if siz e = 1 then
       (case mem e of
          Inline w p c z \<Rightarrow> rbind (wr (enc32 w @ enc32 p) s1) (wr (enc32 c @ enc32 z))
        | _ \<Rightarrow> Err OutOfBounds)
     else
       (case mem e of
          Arrays w cg \<Rightarrow>
            if length w < nat (siz e) \<or> length cg < nat (siz e + 1) then Err OutOfBounds
            else rbind (wr (concat (map enc32 (take (nat (siz e)) w))) s1) (wr (concat (map enc32 (take (nat (siz e + 1)) cg))))
        | _ \<Rightarrow> Err OutOfBounds))"

text \<open>\<open>junk\<close> fills a new array; a negative size makes \<open>new\<close> throw.\<close>

definition Entry_Load :: "byte \<Rightarrow> 's reader \<Rightarrow> u32 AdaGradEntry \<Rightarrow> AdaGradHandle \<Rightarrow> 's \<Rightarrow> (u32 AdaGradEntry \<times> AdaGradHandle \<times> 's) res" where
  "Entry_Load junk rd e h s =
     rbind (read_into rd (enc32 (word_of_int (siz e))) s) (\<lambda>(bs, s1).
     let sz = sint (dec32 bs) in
     rbind
      (if sz = 1 then
         rbind (read_into rd (case mem e of Inline w p c z \<Rightarrow> enc32 w @ enc32 p | _ \<Rightarrow> replicate 8 junk) s1) (\<lambda>(b1, s2).
         rbind (read_into rd (case mem e of Inline w p c z \<Rightarrow> enc32 c @ enc32 z | _ \<Rightarrow> replicate 8 junk) s2) (\<lambda>(b2, s3).
         Ok (e\<lparr>siz := sz, mem := Inline (dec32 (take 4 b1)) (dec32 (drop 4 b1)) (dec32 (take 4 b2)) (dec32 (drop 4 b2))\<rparr>, h, s3)))
       else if sz < 0 then Err (Fatal ''bad_array_new_length'')
       else
         rbind (read_into rd (replicate (4 * nat sz) junk) s1) (\<lambda>(b1, s2).
         rbind (read_into rd (replicate (4 * nat (sz + 1)) junk) s2) (\<lambda>(b2, s3).
         Ok (e\<lparr>siz := sz, mem := Arrays (pod_vector 4 dec32 (nat sz) b1) (pod_vector 4 dec32 (nat (sz + 1)) b2)\<rparr>, h\<lparr>new_V := new_V h + (sz - 1)\<rparr>, s3))))
      (\<lambda>(e', h', s'). rbind (w_0 e') (\<lambda>w. Ok (e', if float_zero w then h' else h'\<lparr>new_w := new_w h' + 1\<rparr>, s'))))"

section \<open>Round trip\<close>

text \<open>The contract of entries that can be saved: an image in bytes, and what of the entry comes back.\<close>

locale entry_io = eof_stream rd rest good wr out room
  for rd :: "'t reader" and rest :: "'t \<Rightarrow> byte list" and good :: "'t \<Rightarrow> bool"
    and wr :: "'s writer" and out :: "'s \<Rightarrow> byte list" and room :: "'s \<Rightarrow> nat \<Rightarrow> bool" +
  fixes emp :: "'e \<Rightarrow> bool res" and esave :: "'e \<Rightarrow> 's \<Rightarrow> 's res" and eload :: "'e \<Rightarrow> 'h \<Rightarrow> 't \<Rightarrow> ('e \<times> 'h \<times> 't) res"
    and e0 :: 'e and img :: "'e \<Rightarrow> byte list" and fits :: "'e \<Rightarrow> bool" and blank :: "'e \<Rightarrow> bool" and kept :: "'e \<Rightarrow> 'e"
  assumes empty_law: "fits e \<Longrightarrow> emp e = Ok (blank e)"
    and save_law: "fits e \<Longrightarrow> room s (length (img e) + k) \<Longrightarrow> \<exists>s'. esave e s = Ok s' \<and> out s' = out s @ img e \<and> room s' k"
    and load_law: "fits e \<Longrightarrow> good t \<Longrightarrow> rest t = img e @ tail \<Longrightarrow> \<exists>h' t'. eload e0 h t = Ok (kept e, h', t') \<and> good t' \<and> rest t' = tail"
begin

definition image :: "(u64 \<times> 'e) list \<Rightarrow> byte list" where
  "image kvs = concat (map (\<lambda>(key, e). if blank e then [] else enc64 key @ img e) kvs)"

lemma save_entries_ok:
  assumes "\<forall>kv\<in>set kvs. fits (snd kv)" "room s (length (image kvs))"
  shows "\<exists>s'. save_entries wr emp esave kvs s = Ok s' \<and> out s' = out s @ image kvs"
  using assms
proof (induction kvs arbitrary: s)
  case (Cons kv kvs)
  obtain key e where kv: "kv = (key, e)" by fastforce
  have f: "fits e" using Cons.prems kv by simp
  show ?case
  proof (cases "blank e")
    case True
    then show ?thesis using Cons.IH [of s] Cons.prems kv empty_law [OF f] by (simp add: image_def)
  next
    case False
    have "room s (length (enc64 key) + (length (img e) + length (image kvs)))" using Cons.prems kv False by (simp add: image_def)
    then obtain s1 where s1: "wr (enc64 key) s = Ok s1" "out s1 = out s @ enc64 key" "room s1 (length (img e) + length (image kvs))"
      using wr_ok by blast
    obtain s2 where s2: "esave e s1 = Ok s2" "out s2 = out s1 @ img e" "room s2 (length (image kvs))" using save_law [OF f s1(3)] by blast
    show ?thesis using Cons.IH [of s2] Cons.prems s1 s2 kv False empty_law [OF f] by (simp add: image_def)
  qed
qed (simp add: image_def)

lemma load_entries_ok:
  assumes "\<forall>kv\<in>set kvs. fits (snd kv)" "distinct (map fst kvs)" "\<forall>kv\<in>set kvs. data (fst kv) = None" "good t" "rest t = image kvs" "n > length kvs"
  shows "\<exists>h'. load_entries n rd e0 eload data h t =
    Some (Ok (data ++ map_of (map (\<lambda>(key, e). (key, kept e)) (filter (\<lambda>(key, e). \<not> blank e) kvs)), h'))"
  using assms
proof (induction kvs arbitrary: n data h t)
  case Nil
  obtain t' where "rd 8 t = Ok ([], t')" using rd_eof [OF Nil(4)] Nil(5) by (auto simp: image_def)
  then show ?case using Nil(6) by (cases n) auto
next
  case (Cons kv kvs)
  obtain key e where kv: "kv = (key, e)" by fastforce
  have f: "fits e" using Cons.prems kv by simp
  show ?case
  proof (cases "blank e")
    case True
    then show ?thesis using Cons.IH [of data t n h] Cons.prems kv by (simp add: image_def)
  next
    case False
    obtain m where n: "n = Suc m" "m > length kvs" using Cons.prems(6) by (cases n) auto
    have "rest t = enc64 key @ (img e @ image kvs)" using Cons.prems(5) kv False by (simp add: image_def)
    then obtain t1 where t1: "rd 8 t = Ok (enc64 key, t1)" "good t1" "rest t1 = img e @ image kvs"
      using rd_append [OF Cons.prems(4), of "enc64 key" "img e @ image kvs"] by auto
    have d: "entry_at e0 data key = e0" using Cons.prems(3) kv by (simp add: entry_at_def)
    obtain h2 t2 where t2: "eload e0 h t1 = Ok (kept e, h2, t2)" "good t2" "rest t2 = image kvs" using load_law [OF f t1(2,3)] by blast
    have "\<forall>kv\<in>set kvs. (data(key \<mapsto> kept e)) (fst kv) = None" using Cons.prems(2,3) kv by auto
    then obtain h' where "load_entries m rd e0 eload (data(key \<mapsto> kept e)) h2 t2 =
        Some (Ok (data(key \<mapsto> kept e) ++ map_of (map (\<lambda>(key, e). (key, kept e)) (filter (\<lambda>(key, e). \<not> blank e) kvs)), h'))"
      using Cons.IH [of "data(key \<mapsto> kept e)" t2 m h2] Cons.prems t2 n by (auto simp del: fun_upd_apply)
    moreover have "data(key \<mapsto> kept e) ++ map_of (map (\<lambda>(key, e). (key, kept e)) (filter (\<lambda>(key, e). \<not> blank e) kvs)) =
        data ++ map_of (map (\<lambda>(key, e). (key, kept e)) (filter (\<lambda>(key, e). \<not> blank e) (kv # kvs)))"
    proof -
      have "key \<notin> dom (map_of (map (\<lambda>(key, e). (key, kept e)) (filter (\<lambda>(key, e). \<not> blank e) kvs)))"
      proof -
        have "key \<notin> fst ` set kvs" using Cons.prems(2) kv by simp
        then show ?thesis unfolding dom_map_of_conv_image_fst by (auto simp: image_iff)
      qed
      then show ?thesis using kv False by (auto simp: fun_eq_iff map_add_def split: option.splits)
    qed
    ultimately show ?thesis using n t1 t2 d by (simp add: Let_def)
  qed
qed

end

definition entry_fits :: "u32 AdaGradEntry \<Rightarrow> bool" where
  "entry_fits e \<longleftrightarrow>
     (case mem e of
        Null \<Rightarrow> False
      | Inline w p c z \<Rightarrow> siz e = 1
      | Arrays w cg \<Rightarrow> siz e > 1 \<and> siz e < 2 ^ 31 - 1 \<and> int (length w) = siz e \<and> int (length cg) = siz e + 1)"

definition entry_img :: "u32 AdaGradEntry \<Rightarrow> byte list" where
  "entry_img e = enc32 (word_of_int (siz e)) @
     (case mem e of
        Null \<Rightarrow> []
      | Inline w p c z \<Rightarrow> (enc32 w @ enc32 p) @ (enc32 c @ enc32 z)
      | Arrays w cg \<Rightarrow> concat (map enc32 w) @ concat (map enc32 cg))"

definition entry_blank :: "u32 AdaGradEntry \<Rightarrow> bool" where
  "entry_blank e \<longleftrightarrow> float_zero (w_of e) \<and> siz e = 1"

lemma fits_cases:
  assumes "entry_fits e"
  obtains (inline) w p c z where "mem e = Inline w p c z" "siz e = 1"
    | (arrays) w ws cg where "mem e = Arrays (w # ws) cg" "siz e > 1" "siz e < 2 ^ 31 - 1" "int (length (w # ws)) = siz e" "int (length cg) = siz e + 1"
proof (cases "mem e")
  case (Arrays w cg)
  then show ?thesis using arrays assms by (cases w) (auto simp: entry_fits_def)
qed (use assms inline in \<open>auto simp: entry_fits_def\<close>)

lemma sint_size: "- (2 ^ 31) \<le> n \<Longrightarrow> n < 2 ^ 31 \<Longrightarrow> sint (word_of_int n :: u32) = n"
  by (simp add: sint_sbintrunc' signed_take_bit_int_eq_self)

lemma pod32: "length xs < 2 ^ 32 \<Longrightarrow> pod_ok 4 enc32 dec32 xs"
  by (simp add: pod_ok_def)

context stream_io
begin

lemma read_into_ok:
  assumes "good t" "rest t = bs @ tail" "length old = length bs"
  shows "\<exists>t'. read_into rd old t = Ok (bs, t') \<and> good t' \<and> rest t' = tail"
  using rd_append [OF assms(1,2)] assms(3) by (auto simp: read_into_def)

lemma Entry_Save_ok:
  assumes "entry_fits e" "room s (length (entry_img e) + k)"
  shows "\<exists>s'. Entry_Save wr e s = Ok s' \<and> out s' = out s @ entry_img e \<and> room s' k"
proof -
  obtain a b where ab: "entry_img e = enc32 (word_of_int (siz e)) @ a @ b" "Entry_Save wr e s = rbind (wr (enc32 (word_of_int (siz e))) s) (\<lambda>s1. rbind (wr a s1) (wr b))"
    using assms(1)
  proof (cases rule: fits_cases)
    case (inline w p c z)
    then show ?thesis using that [of "enc32 w @ enc32 p" "enc32 c @ enc32 z"] by (simp add: entry_img_def Entry_Save_def)
  next
    case (arrays w ws cg)
    then have "take (nat (siz e)) (w # ws) = w # ws" "take (nat (siz e + 1)) cg = cg" "\<not> length (w # ws) < nat (siz e)" "\<not> length cg < nat (siz e + 1)" by auto
    then show ?thesis using that [of "concat (map enc32 (w # ws))" "concat (map enc32 cg)"] arrays
      by (simp add: entry_img_def Entry_Save_def del: take.simps)
  qed
  obtain s1 where s1: "wr (enc32 (word_of_int (siz e))) s = Ok s1" "out s1 = out s @ enc32 (word_of_int (siz e))" "room s1 (length a + (length b + k))"
    using wr_ok [of s "enc32 (word_of_int (siz e))" "length a + (length b + k)"] assms(2) ab(1) by (auto simp: add.assoc)
  obtain s2 where s2: "wr a s1 = Ok s2" "out s2 = out s1 @ a" "room s2 (length b + k)" using wr_ok [OF s1(3)] by blast
  obtain s3 where "wr b s2 = Ok s3" "out s3 = out s2 @ b" "room s3 k" using wr_ok [OF s2(3)] by blast
  then show ?thesis using ab s1 s2 by simp
qed

lemma Entry_Load_ok:
  assumes "entry_fits e" "good t" "rest t = entry_img e @ tail"
  shows "\<exists>h' t'. Entry_Load junk rd \<lparr>fea_cnt = 0, siz = 1, mem = Inline 0 0 0 0\<rparr> h t = Ok (e\<lparr>fea_cnt := 0\<rparr>, h', t') \<and> good t' \<and> rest t' = tail"
  using assms(1)
proof (cases rule: fits_cases)
  case (inline w p c z)
  let ?a = "enc32 w @ enc32 p" and ?b = "enc32 c @ enc32 z"
  obtain t1 where t1: "read_into rd (enc32 (word_of_int 1)) t = Ok (enc32 (word_of_int (siz e)), t1)" "good t1" "rest t1 = ?a @ (?b @ tail)"
    using read_into_ok [OF assms(2), of "enc32 (word_of_int (siz e))" "?a @ (?b @ tail)" "enc32 (word_of_int 1)"] assms(3) inline by (auto simp: entry_img_def)
  obtain t2 where t2: "read_into rd (enc32 0 @ enc32 0) t1 = Ok (?a, t2)" "good t2" "rest t2 = ?b @ tail"
    using read_into_ok [OF t1(2,3), of "enc32 0 @ enc32 0"] by auto
  obtain t3 where t3: "read_into rd (enc32 0 @ enc32 0) t2 = Ok (?b, t3)" "good t3" "rest t3 = tail"
    using read_into_ok [OF t2(2,3), of "enc32 0 @ enc32 0"] by auto
  have "e\<lparr>fea_cnt := 0\<rparr> = \<lparr>fea_cnt = 0, siz = 1, mem = Inline w p c z\<rparr>" using inline by (cases e) simp
  then show ?thesis using t1(1) t2(1) t3 inline(2) by (simp add: Entry_Load_def Let_def w_0_def)
next
  case (arrays w ws cg)
  let ?a = "concat (map enc32 (w # ws))" and ?b = "concat (map enc32 cg)"
  have sz: "sint (word_of_int (siz e) :: u32) = siz e" using arrays sint_size [of "siz e"] by simp
  have n: "nat (siz e) = length (w # ws)" "nat (siz e + 1) = length cg" using arrays by auto
  have pa: "pod_ok 4 enc32 dec32 (w # ws)" "pod_ok 4 enc32 dec32 cg" using arrays by (auto intro!: pod32)
  obtain t1 where t1: "read_into rd (enc32 (word_of_int 1)) t = Ok (enc32 (word_of_int (siz e)), t1)" "good t1" "rest t1 = ?a @ (?b @ tail)"
    using read_into_ok [OF assms(2), of "enc32 (word_of_int (siz e))" "?a @ (?b @ tail)" "enc32 (word_of_int 1)"] assms(3) arrays(1) by (auto simp: entry_img_def)
  obtain t2 where t2: "read_into rd (replicate (4 * nat (siz e)) junk) t1 = Ok (?a, t2)" "good t2" "rest t2 = ?b @ tail"
    using read_into_ok [OF t1(2,3), of "replicate (4 * nat (siz e)) junk"] length_image [OF pa(1)] n by (auto simp del: concat.simps list.map)
  obtain t3 where t3: "read_into rd (replicate (4 * nat (siz e + 1)) junk) t2 = Ok (?b, t3)" "good t3" "rest t3 = tail"
    using read_into_ok [OF t2(2,3), of "replicate (4 * nat (siz e + 1)) junk"] length_image [OF pa(2)] n by auto
  have e: "e\<lparr>fea_cnt := 0\<rparr> = \<lparr>fea_cnt = 0, siz = siz e, mem = Arrays (w # ws) cg\<rparr>" using arrays by (cases e) simp
  have v: "pod_vector 4 dec32 (nat (siz e)) ?a = w # ws" "pod_vector 4 dec32 (nat (siz e + 1)) ?b = cg" unfolding n by (rule pod_vector_image [OF pa(1)], rule pod_vector_image [OF pa(2)])
  show ?thesis using t1(1) t2(1) t3 arrays(2) sz v unfolding e by (simp add: Entry_Load_def Let_def w_0_def nth_res_def del: concat.simps list.map)
qed

end

interpretation me: entry_io ms_Read "\<lambda>s. drop (ms_curr s) (ms_buf s)" "\<lambda>s. ms_curr s \<le> length (ms_buf s)"
  ms_Write "\<lambda>s. take (ms_curr s) (ms_buf s)" "\<lambda>s n. ms_curr s \<le> length (ms_buf s)"
  "Entry_Empty float_zero" "Entry_Save ms_Write" "Entry_Load junk ms_Read" "\<lparr>fea_cnt = 0, siz = 1, mem = Inline 0 0 0 0\<rparr>"
  entry_img entry_fits entry_blank "\<lambda>e. e\<lparr>fea_cnt := 0\<rparr>" for junk
proof unfold_locales
  fix e assume "entry_fits e"
  then show "Entry_Empty float_zero e = Ok (entry_blank e)"
    by (cases rule: fits_cases) (auto simp: Entry_Empty_def entry_blank_def w_0_def w_of_def)
qed (rule ms.Entry_Save_ok, assumption+, rule ms.Entry_Load_ok, assumption+)

lemma ms_chain: "ms_Write a s = Ok s1 \<Longrightarrow> ms_Write b s1 = Ok s2 \<Longrightarrow> ms_Write c s2 = Ok s' \<Longrightarrow> at_end s \<Longrightarrow> at_end s'"
  using ms_Write_at_end by blast

lemma Entry_Save_at_end: "Entry_Save ms_Write e s = Ok s' \<Longrightarrow> at_end s \<Longrightarrow> at_end s'"
  by (auto simp: Entry_Save_def rbind_Ok_iff split: if_splits storage.splits elim!: ms_chain)

lemma save_entries_at_end: "save_entries ms_Write emp (Entry_Save ms_Write) kvs s = Ok s' \<Longrightarrow> at_end s \<Longrightarrow> at_end s'"
proof (induction kvs arbitrary: s)
  case (Cons kv kvs)
  obtain key e where kv: "kv = (key, e)" by fastforce
  obtain em where em: "emp e = Ok em" using Cons.prems(1) kv by (auto simp: rbind_Ok_iff)
  show ?case
  proof (cases em)
    case True
    then show ?thesis using Cons em kv by simp
  next
    case False
    then obtain s1 s2 where "ms_Write (enc64 key) s = Ok s1" "Entry_Save ms_Write e s1 = Ok s2" "save_entries ms_Write emp (Entry_Save ms_Write) kvs s2 = Ok s'"
      using Cons.prems(1) em kv by (auto simp: rbind_Ok_iff)
    then show ?thesis using Cons.IH Cons.prems(2) Entry_Save_at_end ms_Write_at_end by metis
  qed
qed simp

text \<open>
  C20: saving a DiFacto model and loading it into an empty store gives back every entry that is not empty, with its
  weights and gradient sums, and nothing else; the feature counts are not saved and come back as zero, and
  entries with a zero weight and no embedding are dropped. This holds for any order in which the hash map lists
  the entries; the loop of \<open>Load\<close> ends after as many rounds as there are saved entries and one more.
\<close>

theorem model_Save_Load:
  assumes "distinct (map fst kvs)" and "\<forall>kv\<in>set kvs. entry_fits (snd kv)"
  shows "\<exists>st h'. save_entries ms_Write (Entry_Empty float_zero) (Entry_Save ms_Write) kvs (new_MemoryStringStream []) = Ok st \<and>
    load_entries (length kvs + 1) ms_Read \<lparr>fea_cnt = 0, siz = 1, mem = Inline 0 0 0 0\<rparr> (Entry_Load junk ms_Read) Map.empty h (new_MemoryStringStream (ms_buf st)) =
      Some (Ok (map_of (map (\<lambda>(key, e). (key, e\<lparr>fea_cnt := 0\<rparr>)) (filter (\<lambda>(key, e). \<not> entry_blank e) kvs)), h'))"
proof -
  let ?t0 = "new_MemoryStringStream []"
  obtain st where st: "save_entries ms_Write (Entry_Empty float_zero) (Entry_Save ms_Write) kvs ?t0 = Ok st"
      "take (ms_curr st) (ms_buf st) = take (ms_curr ?t0) (ms_buf ?t0) @ me.image kvs"
    using me.save_entries_ok [OF assms(2), of ?t0] by (auto simp: new_MemoryStringStream_def)
  have "at_end st" using save_entries_at_end [OF st(1)] by (simp add: at_end_def new_MemoryStringStream_def)
  then have "ms_buf st = me.image kvs" using st(2) by (simp add: at_end_def new_MemoryStringStream_def)
  then show ?thesis
    using me.load_entries_ok [OF assms(2,1), of Map.empty "new_MemoryStringStream (ms_buf st)" "length kvs + 1" junk h] st(1)
    by (auto simp: new_MemoryStringStream_def)
qed

theorem model_Save_Load_witness:
  "\<exists>st h'. save_entries ms_Write (Entry_Empty float_zero) (Entry_Save ms_Write)
      [(7, \<lparr>fea_cnt = 3, siz = 1, mem = Inline 0x3f800000 0 5 6\<rparr>), (8, \<lparr>fea_cnt = 1, siz = 1, mem = Inline 0 0 9 9\<rparr>)] (new_MemoryStringStream []) = Ok st \<and>
    load_entries 3 ms_Read \<lparr>fea_cnt = 0, siz = 1, mem = Inline 0 0 0 0\<rparr> (Entry_Load 0 ms_Read) Map.empty demo_h (new_MemoryStringStream (ms_buf st)) =
      Some (Ok ([7 \<mapsto> \<lparr>fea_cnt = 0, siz = 1, mem = Inline 0x3f800000 0 5 6\<rparr>], h'))"
  using model_Save_Load [of "[(7, \<lparr>fea_cnt = 3, siz = 1, mem = Inline 0x3f800000 0 5 6\<rparr>), (8, \<lparr>fea_cnt = 1, siz = 1, mem = Inline 0 0 9 9\<rparr>)]" 0 demo_h]
  by (simp add: entry_fits_def entry_blank_def w_of_def float_zero_def numeral_3_eq_3)

end
