(* ===== verification/Solver.thy ===== *)
theory Solver
  imports WorkloadPool SaveLoad
begin

text \<open>
  The solver templates: commands between the scheduler and the other nodes (\<open>solver/iter_solver.h\<close>), dispatching of
  file parts (\<open>solver/data_parallel.h\<close>) and the minibatch scheduler and worker (\<open>solver/minibatch_solver.h\<close>).
  Messages are returned as values, the clock, random numbers and answers of other nodes are arguments.
\<close>

section \<open>Commands\<close>

text \<open>The command word, an \<open>int\<close> of 32 bits; \<open>>>\<close> keeps the sign.\<close>

definition set_process :: "u32 \<Rightarrow> u32" where
  "set_process c = c OR 1"

definition cmd_process :: "u32 \<Rightarrow> bool" where
  "cmd_process c \<longleftrightarrow> c AND 1 \<noteq> 0"

definition set_iter :: "int \<Rightarrow> u32 \<Rightarrow> u32" where
  "set_iter i c = c OR push_bit 16 (word_of_int (i + 1))"

definition set_load_model :: "u32 \<Rightarrow> u32" where
  "set_load_model c = c OR 2"

definition set_save_model :: "u32 \<Rightarrow> u32" where
  "set_save_model c = c OR 4"

definition load_model :: "u32 \<Rightarrow> bool" where
  "load_model c \<longleftrightarrow> c AND 2 \<noteq> 0"

definition save_model :: "u32 \<Rightarrow> bool" where
  "save_model c \<longleftrightarrow> c AND 4 \<noteq> 0"

definition cmd_iter :: "u32 \<Rightarrow> int" where
  "cmd_iter c = sint c div 2 ^ 16 - 1"

record STask =
  tk_cmd :: u32
  tk_msg :: string

definition LoadModel :: "string \<Rightarrow> int \<Rightarrow> STask" where
  "LoadModel filename i = \<lparr>tk_cmd = set_iter i (set_load_model 0), tk_msg = filename\<rparr>"

definition SaveModel :: "string \<Rightarrow> int \<Rightarrow> STask" where
  "SaveModel filename i = \<lparr>tk_cmd = set_iter i (set_save_model 0), tk_msg = filename\<rparr>"

text \<open>\<open>to_string\<close> of a non-negative number.\<close>

fun to_string :: "nat \<Rightarrow> string" where
  "to_string n = (if n < 10 then [char_of (48 + n)] else to_string (n div 10) @ [char_of (48 + n mod 10)])"

declare to_string.simps [simp del]

definition ModelName :: "string \<Rightarrow> int \<Rightarrow> nat \<Rightarrow> string" where
  "ModelName base i rank = base @ (if i \<ge> 0 then ''_iter-'' @ to_string (nat i) else []) @ ''_part-'' @ to_string rank"

datatype ServerAction = Nothing | SaveTo string | LoadFrom string

definition IterServer_ProcessRequest :: "nat \<Rightarrow> STask \<Rightarrow> ServerAction" where
  "IterServer_ProcessRequest rank t =
     (if tk_msg t = [] then Nothing
      else let filename = ModelName (tk_msg t) (cmd_iter (tk_cmd t)) rank in
        if save_model (tk_cmd t) then SaveTo filename else if load_model (tk_cmd t) then LoadFrom filename else Nothing)"

text \<open>
  \<open>PredictStream\<close> names the output of a prediction after the file part and opens it unless it is the one already open;
  \<open>prev\<close> is the name of the open stream, the result whether a new one was opened.
\<close>

definition PredictStream :: "string \<Rightarrow> Workload \<Rightarrow> string \<Rightarrow> (string \<times> bool) res" where
  "PredictStream filename wl prev =
     check (wl_type wl = 2) ''wl.type == Workload::PRED''
      (check (length (wl_file wl) \<ge> 1) ''wl.file.size() >= 1''
       (let file = wl_file wl ! 0;
            in_name = map (\<lambda>b. char_of (unat b)) (wf_filename file);
            in_base = rev (takeWhile (\<lambda>c. c \<noteq> CHR 0x2F \<and> c \<noteq> CHR 0x5C) (rev in_name));
            out = filename @ in_base @ ''_part-'' @ to_string (unat (wf_k file))
        in Ok (out, out \<noteq> prev)))"

section \<open>Dispatching\<close>

definition char_byte :: "char \<Rightarrow> byte" where
  "char_byte c = of_char c"

definition byte_char :: "byte \<Rightarrow> char" where
  "byte_char b = char_of (unat b)"

definition to_wfile :: "File \<Rightarrow> WFile" where
  "to_wfile f = \<lparr>wf_filename = map char_byte (f_filename f), wf_format = map char_byte (f_format f),
     wf_n = word_of_nat (f_n f), wf_k = word_of_nat (f_k f)\<rparr>"

definition of_wfile :: "WFile \<Rightarrow> File" where
  "of_wfile f = \<lparr>f_filename = map byte_char (wf_filename f), f_format = map byte_char (wf_format f),
     f_n = unat (wf_n f), f_k = unat (wf_k f)\<rparr>"

record DMsg =
  dm_to :: string
  dm_cmd :: u32
  dm_msg :: "byte list"

record DataParScheduler =
  ds_pool :: Pool
  ds_data_filename :: string
  ds_data_format :: string
  ds_num_parts :: nat
  ds_batch :: bool
  ds_shuffle :: bool
  ds_straggler :: int
  ds_local :: bool
  ds_workload :: Workload

definition SendWorkload :: "string \<Rightarrow> Workload \<Rightarrow> DMsg res" where
  "SendWorkload ident wl =
     rbind (Workload_Save wl (new_StringStream [])) (\<lambda>ss. Ok \<lparr>dm_to = ident, dm_cmd = set_process 0, dm_msg = ss_str ss\<rparr>)"

text \<open>
  \<open>StartDispatch\<close>: \<open>match\<close> lists the files of a pattern; \<open>junk\<close> stands for the type and pass of a \<open>Workload\<close> that are
  not set. \<open>WorkloadPool::Init\<close> has no body. The request for local files is sent first; the scheduler waits for the answers.
\<close>

definition StartDispatch :: "(string \<Rightarrow> File list) \<Rightarrow> string \<Rightarrow> u32 \<Rightarrow> DataParScheduler \<Rightarrow> (DataParScheduler \<times> DMsg list) res" where
  "StartDispatch match workers junk s =
     (let s1 = s\<lparr>ds_pool := Clear (ds_pool s)\<rparr>; none = \<lparr>wl_type = junk, wl_data_pass = junk, wl_file = []\<rparr> in
      if ds_local s then
        rbind (SendWorkload workers (none\<lparr>wl_file := [to_wfile \<lparr>f_filename = ds_data_filename s, f_format = [], f_n = 0, f_k = 0\<rparr>]\<rparr>)) (\<lambda>m1.
        rbind (SendWorkload workers none) (\<lambda>m2. Ok (s1, [m1, m2])))
      else
        rbind (Add (match (ds_data_filename s)) (ds_num_parts s) [] (ds_pool s1)) (\<lambda>p.
        rbind (SendWorkload workers none) (\<lambda>m. Ok (s1\<lparr>ds_pool := p\<rparr>, [m]))))"

definition ds_IsFinished :: "DataParScheduler \<Rightarrow> bool" where
  "ds_IsFinished s = IsFinished (ds_pool s)"

definition StopDispatch :: "DataParScheduler \<Rightarrow> DataParScheduler" where
  "StopDispatch s = s\<lparr>ds_pool := ClearRemain (ds_pool s)\<rparr>"

definition NodeFailure :: "real \<Rightarrow> string \<Rightarrow> DataParScheduler \<Rightarrow> DataParScheduler res" where
  "NodeFailure now ident s = rbind (Reset now ident (ds_pool s)) (\<lambda>p. Ok (s\<lparr>ds_pool := p\<rparr>))"

definition ProcessResponse ::
    "(nat \<Rightarrow> string list) \<Rightarrow> (nat \<Rightarrow> nat) \<Rightarrow> real \<Rightarrow> u32 \<Rightarrow> string \<Rightarrow> u32 \<Rightarrow> byte list \<Rightarrow> DataParScheduler \<Rightarrow> (DataParScheduler \<times> DMsg list) res" where
  "ProcessResponse ord rnd now junk sender cmd msg s =
     (if \<not> cmd_process cmd then Ok (s, [])
      else if msg \<noteq> [] then
        check (ds_local s) ''use_worker_local_data_''
         (rbind (Workload_Load \<lparr>wl_type = junk, wl_data_pass = junk, wl_file = []\<rparr> (new_StringStream msg)) (\<lambda>(wl, ss).
          rbind (Add (map of_wfile (wl_file wl)) (ds_num_parts s) sender (ds_pool s)) (\<lambda>p. Ok (s\<lparr>ds_pool := p\<rparr>, []))))
      else
        rbind (Finish now sender (ds_pool s)) (\<lambda>p1.
        let (p2, fs) = Get ord rnd now sender p1; s2 = s\<lparr>ds_pool := p2\<rparr> in
        case fs of
          [] \<Rightarrow> Ok (s2, [])
        | f # fs' \<Rightarrow>
            rbind (SendWorkload sender ((ds_workload s)\<lparr>wl_file := map to_wfile (f\<lparr>f_format := ds_data_format s\<rparr> # fs')\<rparr>)) (\<lambda>m. Ok (s2, [m]))))"

text \<open>The worker: an empty workload is ignored, a file with no parts asks for a listing, anything else is processed.\<close>

datatype WorkerAction = Idle | ReplyFiles "byte list" | DoProcess Workload

definition DataParWorker_ProcessRequest :: "(string \<Rightarrow> File list) \<Rightarrow> u32 \<Rightarrow> DMsg \<Rightarrow> WorkerAction res" where
  "DataParWorker_ProcessRequest match junk m =
     (if \<not> cmd_process (dm_cmd m) then Ok Idle
      else rbind (Workload_Load \<lparr>wl_type = junk, wl_data_pass = junk, wl_file = []\<rparr> (new_StringStream (dm_msg m))) (\<lambda>(wl, ss).
        if wl_Empty wl then Ok Idle
        else if length (wl_file wl) = 1 \<and> wf_n (wl_file wl ! 0) = 0 then
          rbind (Workload_Save \<lparr>wl_type = junk, wl_data_pass = junk, wl_file = map to_wfile (match (f_filename (of_wfile (wl_file wl ! 0))))\<rparr> (new_StringStream []))
            (\<lambda>ss'. Ok (ReplyFiles (ss_str ss')))
        else Ok (DoProcess wl)))"

section \<open>The minibatch scheduler\<close>

datatype WType = TRAIN | VAL | PRED

record MinibatchScheduler =
  train_data :: string
  val_data :: string
  model_in :: string
  load_iter :: int
  model_out :: string
  save_iter :: int
  max_data_pass :: int
  predict_out :: string

text \<open>\<open>ShowProgress\<close>: no line to print means no decision.\<close>

definition ShowProgress :: "('p \<Rightarrow> string) \<Rightarrow> ('p \<Rightarrow> bool \<Rightarrow> bool) \<Rightarrow> 'p \<Rightarrow> bool \<Rightarrow> bool" where
  "ShowProgress prog_string stop prog is_train = (if prog_string prog = [] then False else stop prog is_train)"

text \<open>
  The polling loop of \<open>Iterate\<close>, which runs until the pool is finished: \<open>fin k\<close> is the answer of the k-th call of \<open>IsFinished\<close> and
  \<open>prog k\<close> that of \<open>ShowProgress\<close> after it. The loop counts the calls of \<open>StopDispatch\<close>; a loop that never ends has no result.
\<close>

partial_function (option) poll_loop :: "bool \<Rightarrow> (nat \<Rightarrow> bool) \<Rightarrow> (nat \<Rightarrow> bool) \<Rightarrow> nat \<Rightarrow> bool \<Rightarrow> nat \<Rightarrow> (bool \<times> nat) option" where
  "poll_loop is_train fin prog k stop n =
     (if fin k then Some (stop, n)
      else if is_train then poll_loop is_train fin prog (k + 1) (prog k) (if prog k then n + 1 else n)
      else poll_loop is_train fin prog (k + 1) stop n)"

datatype Event = EvLoad string int | EvSave string int | EvDispatch int WType

text \<open>
  What the scheduler sees of the workers in a pass: the answers of \<open>IsFinished\<close> and \<open>ShowProgress\<close> in the polling loop, and
  of \<open>ShowProgress\<close> after it.
\<close>

record Seen =
  sn_finished :: "int \<Rightarrow> WType \<Rightarrow> nat \<Rightarrow> bool"
  sn_progress :: "int \<Rightarrow> WType \<Rightarrow> nat \<Rightarrow> bool"
  sn_final :: "int \<Rightarrow> WType \<Rightarrow> bool"

definition Iterate :: "Seen \<Rightarrow> MinibatchScheduler \<Rightarrow> int \<Rightarrow> WType \<Rightarrow> (bool \<times> Event list) option" where
  "Iterate sn c i t =
     (if t = VAL \<and> val_data c = [] then Some (False, [])
      else case poll_loop (t = TRAIN) (sn_finished sn i t) (sn_progress sn i t) 0 False 0 of
             None \<Rightarrow> None
           | Some (stop, n) \<Rightarrow> Some (if t = TRAIN then stop else sn_final sn i t, [EvDispatch i t]))"

function run_loop :: "Seen \<Rightarrow> MinibatchScheduler \<Rightarrow> int \<Rightarrow> Event list option" where
  "run_loop sn c cur =
     (if cur < max_data_pass c then
        (case Iterate sn c cur TRAIN of
           None \<Rightarrow> None
         | Some (stop1, ev1) \<Rightarrow>
             (case (if stop1 then Some (True, []) else Iterate sn c cur VAL) of
                None \<Rightarrow> None
              | Some (stop2, ev2) \<Rightarrow>
                  if stop2 then Some (ev1 @ ev2)
                  else if cur = max_data_pass c - 1 then Some (ev1 @ ev2)
                  else map_option (\<lambda>ev. ev1 @ ev2 @
                    (if model_out c \<noteq> [] \<and> save_iter c > 0 \<and> (cur + 1) mod save_iter c = 0 then [EvSave (model_out c) cur] else []) @ ev)
                    (run_loop sn c (cur + 1))))
      else Some [])"
  by pat_completeness auto
termination by (relation "measure (\<lambda>(sn, c, cur). nat (max_data_pass c - cur))") auto

declare run_loop.simps [simp del]

definition Run :: "Seen \<Rightarrow> MinibatchScheduler \<Rightarrow> Event list option res" where
  "Run sn c =
     check (predict_out c = [] \<or> model_in c \<noteq> []) ''should provide model_in for predicting''
      (let (cur, ev0) = (if model_in c = [] then (0, [])
             else let it = (if load_iter c > 0 then load_iter c else -1) in (it + 1, [EvLoad (model_in c) it])) in
       if predict_out c \<noteq> [] then Ok (map_option (\<lambda>r. ev0 @ snd r) (Iterate sn c (cur - 1) PRED))
       else Ok (map_option (\<lambda>ev. ev0 @ ev @ (if model_out c \<noteq> [] then [EvSave (model_out c) (-1)] else [])) (run_loop sn c cur)))"

section \<open>The minibatch worker\<close>

text \<open>The settings of \<open>Process\<close>: minibatch size, shuffle buffer, negative sampling and concurrency by type of workload.\<close>

record MinibatchWorker =
  mb_size :: int
  concurrent_mb :: int
  mb_shuffle :: int
  neg_sampling :: real
  val_mb_size :: int
  val_concurrent_mb :: int

definition process_settings :: "MinibatchWorker \<Rightarrow> WType \<Rightarrow> int \<times> int \<times> real \<times> int" where
  "process_settings w t =
     (if t = TRAIN then mb_size w else val_mb_size w, if t = TRAIN then mb_size w * mb_shuffle w else 0,
      if t = TRAIN then neg_sampling w else 1, if t = PRED then 1 else if t = TRAIN then concurrent_mb w else val_concurrent_mb w)"

text \<open>
  The main thread of \<open>Process\<close> and the callbacks that end minibatches. Where the main thread stands: before
  \<open>WaitMinibatch(max_mb)\<close>, between \<open>ProcessMinibatch\<close> and the increment, before the last wait, after it.
  \<open>started\<close> and \<open>finished\<close> count minibatches; \<open>fly\<close> is \<open>num_mb_fly_\<close>, \<open>todo\<close> the minibatches the reader still has.
\<close>

datatype Pc = AtWait | AtStarted | AtLast | AtDone

record PState =
  pc :: Pc
  fly :: int
  mb_done :: int
  todo :: nat
  started :: nat
  finished :: nat

definition Process_init :: "nat \<Rightarrow> PState" where
  "Process_init n = \<lparr>pc = (if n = 0 then AtLast else AtWait), fly = 0, mb_done = 0, todo = n, started = 0, finished = 0\<rparr>"

definition WaitMinibatch :: "int \<Rightarrow> PState \<Rightarrow> bool" where
  "WaitMinibatch num s \<longleftrightarrow> fly s < num"

definition FinishMinibatch :: "PState \<Rightarrow> PState" where
  "FinishMinibatch s = s\<lparr>fly := fly s - 1, mb_done := mb_done s + 1, finished := finished s + 1\<rparr>"

inductive Process_step :: "int \<Rightarrow> PState \<Rightarrow> PState \<Rightarrow> bool" for max_mb where
  start: "pc s = AtWait \<Longrightarrow> WaitMinibatch max_mb s \<Longrightarrow>
    Process_step max_mb s (s\<lparr>pc := AtStarted, todo := todo s - 1, started := started s + 1\<rparr>)"
| count: "pc s = AtStarted \<Longrightarrow> Process_step max_mb s (s\<lparr>pc := (if todo s = 0 then AtLast else AtWait), fly := fly s + 1\<rparr>)"
| callback: "finished s < started s \<Longrightarrow> Process_step max_mb s (FinishMinibatch s)"
| leave: "pc s = AtLast \<Longrightarrow> WaitMinibatch 1 s \<Longrightarrow> Process_step max_mb s (s\<lparr>pc := AtDone\<rparr>)"

inductive_cases Process_stepE: "Process_step max_mb s s'"

section \<open>Commands reach the servers\<close>

lemma cmd_iter_small:
  assumes "0 \<le> k" "k < 2 ^ 15" "0 \<le> n" "n < 8"
  shows "cmd_iter (word_of_int n OR push_bit 16 (word_of_int k)) = k - 1"
proof -
  have "word_of_int n OR push_bit 16 (word_of_int k) = (word_of_int (n OR push_bit 16 k) :: u32)"
    by (rule bit_eqI) (auto simp: bit_simps)
  also have "n OR push_bit 16 k = n + push_bit 16 k"
    using concat_bit_eq [of 16 n k] assms by (simp add: concat_bit_def take_bit_int_eq_self)
  finally have eq: "word_of_int n OR push_bit 16 (word_of_int k) = (word_of_int (n + k * 2 ^ 16) :: u32)"
    by (simp only: push_bit_eq_mult)
  have "sint (word_of_int (n + k * 2 ^ 16) :: u32) = n + k * 2 ^ 16"
    using assms by (subst int_word_sint) simp
  then show ?thesis
    using assms by (simp add: cmd_iter_def eq)
qed

lemma iter_command [simp]:
  assumes "-1 \<le> i" "i < 2 ^ 15 - 1"
  shows "cmd_iter (set_iter i (set_load_model 0)) = i" "cmd_iter (set_iter i (set_save_model 0)) = i"
  using cmd_iter_small [of "i + 1" 2] cmd_iter_small [of "i + 1" 4] assms
  by (simp_all add: set_iter_def set_load_model_def set_save_model_def)

lemma model_flags: "load_model c = bit c 1" "save_model c = bit c 2"
  using bit_iff_and_push_bit_not_eq_0 [of c 1] bit_iff_and_push_bit_not_eq_0 [of c 2]
  by (simp_all add: load_model_def save_model_def)

lemma model_command [simp]:
  "load_model (set_iter i (set_load_model 0))" "\<not> save_model (set_iter i (set_load_model 0))"
  "save_model (set_iter i (set_save_model 0))"
  by (simp_all add: model_flags set_iter_def set_load_model_def set_save_model_def bit_simps)

definition is_digit :: "char \<Rightarrow> bool" where
  "is_digit c \<longleftrightarrow> 48 \<le> (of_char c :: nat) \<and> of_char c \<le> (57 :: nat)"

lemma digit_char:
  fixes d :: nat
  assumes "d < 10"
  shows "is_digit (char_of (48 + d))" "of_char (char_of (48 + d) :: char) = 48 + d"
  using assms by (simp_all add: is_digit_def)

lemma to_string_digits: "\<forall>c \<in> set (to_string n). is_digit c"
proof (induction n rule: to_string.induct)
  case (1 n)
  then show ?case
    by (subst to_string.simps) (auto simp: digit_char)
qed

definition digits_value :: "string \<Rightarrow> nat" where
  "digits_value = foldl (\<lambda>a c. 10 * a + (of_char c - 48)) 0"

lemma digits_value_to_string: "digits_value (to_string n) = n"
proof (induction n rule: to_string.induct)
  case (1 n)
  then show ?case
    by (subst to_string.simps) (auto simp: digits_value_def digit_char)
qed

lemma to_string_inj: "to_string n = to_string m \<Longrightarrow> n = m"
  by (metis digits_value_to_string)

lemma digits_suffix_eq:
  assumes "xs @ [c] @ ds = ys @ [c] @ es" "\<not> is_digit c" "\<forall>d \<in> set ds. is_digit d" "\<forall>d \<in> set es. is_digit d"
  shows "xs = ys \<and> ds = es"
proof -
  have "takeWhile is_digit (rev (us @ [c] @ vs)) = rev vs" if "\<forall>d \<in> set vs. is_digit d" for us vs
    using that assms(2) by (simp add: takeWhile_append)
  then have "ds = es"
    using assms by (metis rev_rev_ident)
  then show ?thesis
    using assms(1) by simp
qed

lemma ModelName_inj:
  assumes "ModelName f i r = ModelName f j q" "-1 \<le> i" "-1 \<le> j"
  shows "i = j \<and> r = q"
proof -
  define it where "it k = (if k \<ge> 0 then ''_iter-'' @ to_string (nat k) else [])" for k
  have "(f @ it i @ ''_part'') @ ''-'' @ to_string r = (f @ it j @ ''_part'') @ ''-'' @ to_string q"
    using assms(1) by (simp add: ModelName_def it_def)
  then have eq: "f @ it i @ ''_part'' = f @ it j @ ''_part'' \<and> to_string r = to_string q"
    by (rule digits_suffix_eq) (simp_all add: to_string_digits, simp add: is_digit_def)
  then have "it i = it j"
    by simp
  then have "i = j"
    using assms(2,3) to_string_inj [of "nat i" "nat j"] by (auto simp: it_def split: if_splits)
  with eq show ?thesis
    by (auto dest: to_string_inj)
qed

text \<open>
  Model commands. Every iteration from the last model (-1) on, below \<open>2 ^ 15 - 1\<close>, survives the command word: a server
  asked to save or to load opens the file of that iteration and of its own rank, and a load opens the file of a save
  exactly when iteration and rank are the same, so no model overwrites another.
\<close>

theorem model_commands:
  assumes "f \<noteq> []" "-1 \<le> i" "i < 2 ^ 15 - 1" "-1 \<le> j" "j < 2 ^ 15 - 1"
  shows "\<exists>saved loaded. IterServer_ProcessRequest r (SaveModel f i) = SaveTo saved \<and>
    IterServer_ProcessRequest q (LoadModel f j) = LoadFrom loaded \<and> (saved = loaded \<longleftrightarrow> i = j \<and> r = q)"
proof -
  have "IterServer_ProcessRequest r (SaveModel f i) = SaveTo (ModelName f i r)"
    using assms by (simp add: IterServer_ProcessRequest_def SaveModel_def)
  moreover have "IterServer_ProcessRequest q (LoadModel f j) = LoadFrom (ModelName f j q)"
    using assms by (simp add: IterServer_ProcessRequest_def LoadModel_def)
  ultimately show ?thesis
    using ModelName_inj assms by blast
qed

theorem model_commands_witness:
  "\<exists>saved loaded. IterServer_ProcessRequest 3 (SaveModel ''m'' 12) = SaveTo saved \<and>
    IterServer_ProcessRequest 3 (LoadModel ''m'' (-1)) = LoadFrom loaded \<and> saved \<noteq> loaded"
  using model_commands [of "''m''" 12 "-1" 3 3] by auto

text \<open>A later iteration does not fit into the command word: the saved file carries a negative iteration, hence the name of the last model.\<close>

theorem model_command_overflow:
  "IterServer_ProcessRequest r (SaveModel ''m'' (2 ^ 15 - 1)) = IterServer_ProcessRequest r (SaveModel ''m'' (-1))"
  by (simp add: IterServer_ProcessRequest_def SaveModel_def set_iter_def set_save_model_def cmd_iter_def save_model_def
      ModelName_def)

section \<open>The run of the scheduler\<close>

text \<open>The polling loop returns exactly when the pool is seen finished.\<close>

lemma poll_loop_returns:
  "fin (k + d) \<Longrightarrow> \<exists>r. poll_loop b fin prog k stop n = Some r"
proof (induction d arbitrary: k stop n)
  case 0
  then show ?case by (simp add: poll_loop.simps)
next
  case (Suc d)
  then have "fin (Suc k + d)" by simp
  then show ?case using Suc.IH [of "Suc k"] by (subst poll_loop.simps) auto
qed

lemma poll_loop_None:
  assumes "\<forall>j. \<not> fin j"
  shows "poll_loop b fin prog k stop n = None"
proof -
  have "\<exists>j. fin j" if "poll_loop b fin prog k stop n = Some r" for r
    using that by (rule poll_loop.raw_induct [where P = "\<lambda>b fin prog k stop n r. \<exists>j. fin j", rotated]) (auto split: if_splits)
  then show ?thesis using assms by (metis not_None_eq)
qed

lemma poll_loop_quiet:
  assumes "fin (k + d)" "\<forall>j. \<not> prog j"
  shows "poll_loop b fin prog k False n = Some (False, n)"
  using assms(1)
proof (induction d arbitrary: k)
  case 0
  then show ?case by (simp add: poll_loop.simps)
next
  case (Suc d)
  then have "fin (Suc k + d)" by simp
  then have "poll_loop b fin prog (Suc k) False n = Some (False, n)" by (rule Suc.IH)
  moreover have "\<not> prog k" using assms(2) by blast
  ultimately show ?case by (cases b; subst poll_loop.simps) simp_all
qed

text \<open>The events of one pass when nothing stops it.\<close>

definition pass_events :: "MinibatchScheduler \<Rightarrow> int \<Rightarrow> Event list" where
  "pass_events c i =
     [EvDispatch i TRAIN] @ (if val_data c = [] then [] else [EvDispatch i VAL]) @
     (if i < max_data_pass c - 1 \<and> model_out c \<noteq> [] \<and> save_iter c > 0 \<and> save_iter c dvd i + 1 then [EvSave (model_out c) i] else [])"

lemma Iterate_quiet:
  assumes "\<exists>k. sn_finished sn i t k" "\<forall>k. \<not> sn_progress sn i t k" "\<not> sn_final sn i t"
  shows "Iterate sn c i t = Some (False, if t = VAL \<and> val_data c = [] then [] else [EvDispatch i t])"
proof -
  obtain k where "sn_finished sn i t (0 + k)" using assms(1) by auto
  then show ?thesis using assms(2,3) poll_loop_quiet [of "sn_finished sn i t" 0 k "sn_progress sn i t"] by (simp add: Iterate_def)
qed

lemma run_loop_quiet:
  assumes "\<forall>i t. \<exists>k. sn_finished sn i t k" "\<forall>i t k. \<not> sn_progress sn i t k" "\<forall>i t. \<not> sn_final sn i t"
  shows "run_loop sn c cur = Some (concat (map (pass_events c) [cur..max_data_pass c - 1]))"
proof (induction "nat (max_data_pass c - cur)" arbitrary: cur rule: less_induct)
  case less
  have quiet: "Iterate sn c i t = Some (False, if t = VAL \<and> val_data c = [] then [] else [EvDispatch i t])" for i t
    by (rule Iterate_quiet) (use assms in auto)
  show ?case
  proof (cases "cur < max_data_pass c - 1")
    case True
    then have "run_loop sn c (cur + 1) = Some (concat (map (pass_events c) [cur + 1..max_data_pass c - 1]))"
      using less [of "cur + 1"] by simp
    then have "run_loop sn c cur = Some (pass_events c cur @ concat (map (pass_events c) [cur + 1..max_data_pass c - 1]))"
      using True by (subst run_loop.simps) (simp add: quiet pass_events_def dvd_eq_mod_eq_0)
    then show ?thesis
      using True by (simp add: upto_rec1)
  next
    case False
    then show ?thesis
      by (subst run_loop.simps) (simp add: quiet pass_events_def upto.simps)
  qed
qed

text \<open>
  C18: a training run. If the pool of every pass is seen finished at some poll and no stop criterion holds, the polling
  loops end and the scheduler returns after the passes from the first one after the loaded model (iteration 0 without one; the comment
  of \<open>workload.h\<close> says 1) up to \<open>max_data_pass - 1\<close>: each pass trains, then validates if there is validation data; the model is saved every
  \<open>save_iter\<close> passes except after the last one, and the final model is saved at the end. A pool that is never finished
  keeps the scheduler polling for ever (\<open>unfinished_pool_hangs\<close>).
\<close>

theorem Run_trains:
  assumes "predict_out c = []" "\<forall>i t. \<exists>k. sn_finished sn i t k" "\<forall>i t k. \<not> sn_progress sn i t k" "\<forall>i t. \<not> sn_final sn i t"
  shows "Run sn c = Ok (Some (
    (if model_in c = [] then [] else [EvLoad (model_in c) (if load_iter c > 0 then load_iter c else -1)]) @
    concat (map (pass_events c)
      [(if model_in c = [] \<or> load_iter c \<le> 0 then 0 else load_iter c + 1)..max_data_pass c - 1]) @
    (if model_out c = [] then [] else [EvSave (model_out c) (-1)])))"
  using assms(1) run_loop_quiet [OF assms(2-4), of c] by (auto simp: Run_def Let_def)

theorem Run_trains_witness:
  "Run \<lparr>sn_finished = \<lambda>i t k. k > 2, sn_progress = \<lambda>i t k. False, sn_final = \<lambda>i t. False\<rparr>
     \<lparr>train_data = ''t'', val_data = ''v'', model_in = ''m'', load_iter = 3, model_out = ''o'', save_iter = 3, max_data_pass = 7, predict_out = []\<rparr> =
   Ok (Some [EvLoad ''m'' 3, EvDispatch 4 TRAIN, EvDispatch 4 VAL, EvDispatch 5 TRAIN, EvDispatch 5 VAL, EvSave ''o'' 5,
       EvDispatch 6 TRAIN, EvDispatch 6 VAL, EvSave ''o'' (-1)])"
  by (subst Run_trains) (auto simp: pass_events_def upto.simps)

text \<open>A pool that is never finished: the first training pass does not return, and neither does the scheduler.\<close>

lemma unfinished_pool_hangs:
  assumes "predict_out c = []" "model_in c = []" "0 < max_data_pass c" "\<forall>k. \<not> sn_finished sn 0 TRAIN k"
  shows "Run sn c = Ok None"
  using assms by (simp add: Run_def run_loop.simps [of sn c 0] Iterate_def poll_loop_None)

text \<open>\<open>Iterate\<close> forgets a stop: dispatching was stopped at the first poll, yet the next poll, with no progress to show, lets training go on.\<close>

theorem Iterate_forgets_stop:
  "poll_loop True (\<lambda>k. k = 2) (\<lambda>k. k = 0) 0 False 0 = Some (False, 1) \<and>
   Iterate \<lparr>sn_finished = \<lambda>i t k. k = 2, sn_progress = \<lambda>i t k. k = 0, sn_final = final\<rparr> c i TRAIN = Some (False, [EvDispatch i TRAIN])"
  by (simp add: Iterate_def poll_loop.simps)

section \<open>Minibatches of a worker\<close>

text \<open>\<open>fly\<close> counts the minibatches in work, less the one not counted yet.\<close>

definition Pinv :: "int \<Rightarrow> nat \<Rightarrow> PState \<Rightarrow> bool" where
  "Pinv max_mb n s \<longleftrightarrow>
     fly s = int (started s) - int (finished s) - (if pc s = AtStarted then 1 else 0) \<and>
     finished s \<le> started s \<and> started s + todo s = n \<and> mb_done s = int (finished s) \<and>
     (pc s = AtWait \<longleftrightarrow> todo s > 0 \<and> pc s \<noteq> AtStarted) \<and>
     int (started s) - int (finished s) \<le> max_mb \<and> (pc s = AtDone \<longrightarrow> finished s = n)"

lemma Pinv_init: "0 \<le> max_mb \<Longrightarrow> Pinv max_mb n (Process_init n)"
  by (simp add: Pinv_def Process_init_def)

lemma Pinv_step: "Process_step max_mb s s' \<Longrightarrow> Pinv max_mb n s \<Longrightarrow> Pinv max_mb n s'"
  by (erule Process_stepE) (auto simp: Pinv_def WaitMinibatch_def FinishMinibatch_def)

lemma Pinv_steps: "(Process_step max_mb)\<^sup>*\<^sup>* s s' \<Longrightarrow> Pinv max_mb n s \<Longrightarrow> Pinv max_mb n s'"
  by (induction rule: rtranclp_induct) (auto dest: Pinv_step)

definition steps_left :: "PState \<Rightarrow> nat" where
  "steps_left s = 3 * todo s + (started s - finished s) + (if pc s = AtStarted then 1 else 0) + (if pc s = AtDone then 0 else 1)"

lemma steps_left_step: "Process_step max_mb s s' \<Longrightarrow> Pinv max_mb n s \<Longrightarrow> steps_left s = Suc (steps_left s')"
  by (erule Process_stepE) (auto simp: Pinv_def steps_left_def FinishMinibatch_def)

lemma Process_progress:
  assumes "Pinv max_mb n s" "1 \<le> max_mb" "pc s \<noteq> AtDone"
  shows "\<exists>s'. Process_step max_mb s s'"
proof (cases "finished s < started s")
  case True
  then show ?thesis by (blast intro: callback)
next
  case False
  with assms have "pc s = AtWait \<and> WaitMinibatch max_mb s \<or> pc s = AtStarted \<or> pc s = AtLast \<and> WaitMinibatch 1 s"
    by (cases "pc s") (auto simp: Pinv_def WaitMinibatch_def)
  then show ?thesis
    using Process_step.intros by blast
qed
text \<open>
  C19: concurrency of a worker. However the callbacks interleave with the reading thread, a worker with a limit of \<open>max_mb\<close>
  never has more than \<open>max_mb\<close> minibatches in work, and \<open>Process\<close> returns only when each of its \<open>n\<close> minibatches is finished,
  although a minibatch may end before the reading thread has counted it.
\<close>

theorem Process_bounded:
  assumes "0 \<le> max_mb" "(Process_step max_mb)\<^sup>*\<^sup>* (Process_init n) s"
  shows "int (started s) - int (finished s) \<le> max_mb \<and> started s \<le> n \<and>
    (pc s = AtDone \<longrightarrow> started s = n \<and> finished s = n \<and> mb_done s = int n \<and> fly s = 0)"
  using Pinv_steps [OF assms(2) Pinv_init [OF assms(1)]] by (auto simp: Pinv_def split: if_splits)

lemma Process_run_one:
  "(Process_step 1)\<^sup>*\<^sup>* (Process_init 1) \<lparr>pc = AtDone, fly = 0, mb_done = 1, todo = 0, started = 1, finished = 1\<rparr>"
proof -
  define a where "a = \<lparr>pc = AtStarted, fly = 0, mb_done = 0, todo = 0, started = 1, finished = 0\<rparr>"
  have 1: "Process_step 1 (Process_init 1) a"
    using Process_step.start [of "Process_init 1" 1] by (simp add: Process_init_def WaitMinibatch_def a_def)
  have 2: "Process_step 1 a (a\<lparr>fly := -1, mb_done := 1, finished := 1\<rparr>)"
    using Process_step.callback [of a 1] by (simp add: FinishMinibatch_def a_def)
  have 3: "Process_step 1 (a\<lparr>fly := -1, mb_done := 1, finished := 1\<rparr>) (a\<lparr>pc := AtLast, mb_done := 1, finished := 1\<rparr>)"
    using Process_step.count [of "a\<lparr>fly := -1, mb_done := 1, finished := 1\<rparr>" 1] by (simp add: a_def)
  have 4: "Process_step 1 (a\<lparr>pc := AtLast, mb_done := 1, finished := 1\<rparr>) (a\<lparr>pc := AtDone, mb_done := 1, finished := 1\<rparr>)"
    using Process_step.leave [of "a\<lparr>pc := AtLast, mb_done := 1, finished := 1\<rparr>" 1] by (simp add: WaitMinibatch_def a_def)
  show ?thesis
    using converse_rtranclp_into_rtranclp [of "Process_step 1", OF 1]
      converse_rtranclp_into_rtranclp [of "Process_step 1", OF 2]
      converse_rtranclp_into_rtranclp [of "Process_step 1", OF 3] r_into_rtranclp [of "Process_step 1", OF 4]
    by (simp add: a_def)
qed

theorem Process_bounded_witness:
  "\<exists>s. (Process_step 1)\<^sup>*\<^sup>* (Process_init 1) s \<and> pc s = AtDone \<and> started s = 1 \<and> finished s = 1"
  using Process_bounded [OF _ Process_run_one] Process_run_one by fastforce

lemma steps_left_pow:
  "(Process_step max_mb ^^ k) s s' \<Longrightarrow> Pinv max_mb n s \<Longrightarrow> Pinv max_mb n s' \<and> steps_left s = k + steps_left s'"
proof (induction k arbitrary: s')
  case (Suc k)
  then obtain u where "(Process_step max_mb ^^ k) s u" "Process_step max_mb u s'"
    by auto
  with Suc show ?case
    using Pinv_step [of max_mb u s' n] steps_left_step [of max_mb u s' n] by auto
qed simp

text \<open>
  C14: \<open>Process\<close> returns. With a positive limit no execution is stuck before it is done, and one on \<open>n\<close> minibatches is done
  after exactly \<open>3 n + 1\<close> steps of the reading thread and the callbacks, in whatever order they come.
\<close>

theorem Process_returns:
  assumes "1 \<le> max_mb" "(Process_step max_mb ^^ k) (Process_init n) s"
  shows "k \<le> 3 * n + 1 \<and> (pc s = AtDone \<longleftrightarrow> k = 3 * n + 1) \<and> (k < 3 * n + 1 \<longrightarrow> (\<exists>s'. Process_step max_mb s s'))"
proof -
  have init: "steps_left (Process_init n) = 3 * n + 1"
    by (simp add: steps_left_def Process_init_def)
  have inv: "Pinv max_mb n s" and left: "3 * n + 1 = k + steps_left s"
    using steps_left_pow [OF assms(2) Pinv_init] assms(1) by (simp_all add: init)
  have "pc s = AtDone \<longleftrightarrow> steps_left s = 0"
    using inv by (auto simp: steps_left_def Pinv_def)
  with left Process_progress [OF inv assms(1)] show ?thesis
    by auto
qed

theorem Process_returns_witness: "\<exists>s. Process_step 2 (Process_init 5) s"
  using Process_returns [of 2 0 5 "Process_init 5"] by simp

end
