(* ===== verification/OrderedMatch.thy ===== *)
theory OrderedMatch
  imports Prelude
begin

text \<open>
  Key ranges (\<open>ps-lite/src/base/range.h\<close>), the parts of \<open>SArray\<close> that search sorted keys (\<open>ps-lite/src/ps/shared_array.h\<close>),
  assignment operators (\<open>ps-lite/src/base/assign_op.h\<close>) and the matching of key-value lists by key
  (\<open>ps-lite/src/base/parallel_ordered_match.h\<close>).
\<close>

section \<open>Ranges of keys\<close>

record KeyRange =
  kr_begin :: u64
  kr_end :: u64

definition kr_valid :: "KeyRange \<Rightarrow> bool" where
  "kr_valid r \<longleftrightarrow> kr_end r \<ge> kr_begin r"

definition kr_empty :: "KeyRange \<Rightarrow> bool" where
  "kr_empty r \<longleftrightarrow> kr_begin r \<ge> kr_end r"

definition kr_contains :: "KeyRange \<Rightarrow> u64 \<Rightarrow> bool" where
  "kr_contains r v \<longleftrightarrow> kr_begin r \<le> v \<and> v < kr_end r"

definition kr_InLeft :: "KeyRange \<Rightarrow> KeyRange \<Rightarrow> bool" where
  "kr_InLeft r r' \<longleftrightarrow> kr_begin r \<le> kr_begin r' \<or> (kr_begin r = kr_begin r' \<and> kr_end r \<le> kr_end r')"

definition kr_InRight :: "KeyRange \<Rightarrow> KeyRange \<Rightarrow> bool" where
  "kr_InRight r r' \<longleftrightarrow> \<not> kr_InLeft r r'"

definition kr_Project :: "KeyRange \<Rightarrow> u64 \<Rightarrow> u64" where
  "kr_Project r v = max (kr_begin r) (min (kr_end r) v)"

definition kr_SetIntersection :: "KeyRange \<Rightarrow> KeyRange \<Rightarrow> KeyRange" where
  "kr_SetIntersection r r' = \<lparr>kr_begin = max (kr_begin r) (kr_begin r'), kr_end = min (kr_end r) (kr_end r')\<rparr>"

definition kr_SetUnion :: "KeyRange \<Rightarrow> KeyRange \<Rightarrow> KeyRange" where
  "kr_SetUnion r r' = \<lparr>kr_begin = min (kr_begin r) (kr_begin r'), kr_end = max (kr_end r) (kr_end r')\<rparr>"

definition kr_All :: KeyRange where
  "kr_All = \<lparr>kr_begin = 0, kr_end = - 1\<rparr>"

section \<open>Sorted arrays\<close>

text \<open>\<open>std::lower_bound\<close> on a sorted array: the position of the first element that is not smaller.\<close>

definition lower_bound :: "'a::linorder list \<Rightarrow> 'a \<Rightarrow> nat" where
  "lower_bound xs x = length (takeWhile (\<lambda>y. y < x) xs)"

definition sa_Segment :: "'a list \<Rightarrow> nat \<Rightarrow> nat \<Rightarrow> 'a list res" where
  "sa_Segment xs lo hi = check (lo \<le> hi) ''range.valid()'' (check (hi \<le> length xs) ''range.end() <= size()'' (Ok (take (hi - lo) (drop lo xs))))"

definition sa_range :: "u64 list \<Rightarrow> KeyRange" where
  "sa_range xs = (if xs = [] then \<lparr>kr_begin = 0, kr_end = 0\<rparr> else \<lparr>kr_begin = hd xs, kr_end = last xs + 1\<rparr>)"

definition FindRange :: "u64 list \<Rightarrow> KeyRange \<Rightarrow> (nat \<times> nat) res" where
  "FindRange xs bound = (if xs = [] then Ok (0, 0) else
     check (kr_valid bound) ''bound.valid()'' (Ok (lower_bound xs (kr_begin bound), lower_bound xs (kr_end bound))))"

section \<open>Assignment operators\<close>

datatype AsOp = ASSIGN | PLUS | MINUS | TIMES | DIVIDE | AND_OP | OR_OP | XOR_OP

text \<open>\<open>quo\<close> is the division of the value type.\<close>

fun AssignOp :: "('v \<Rightarrow> 'v \<Rightarrow> 'v::{plus,minus,times}) \<Rightarrow> AsOp \<Rightarrow> 'v \<Rightarrow> 'v \<Rightarrow> 'v res" where
  "AssignOp quo ASSIGN right left = Ok left"
| "AssignOp quo PLUS right left = Ok (right + left)"
| "AssignOp quo MINUS right left = Ok (right - left)"
| "AssignOp quo TIMES right left = Ok (right * left)"
| "AssignOp quo DIVIDE right left = Ok (quo right left)"
| "AssignOp quo _ right left = Err (Fatal ''use AssignOpI..'')"

fun AssignOpI :: "(u64 \<Rightarrow> u64 \<Rightarrow> u64) \<Rightarrow> AsOp \<Rightarrow> u64 \<Rightarrow> u64 \<Rightarrow> u64" where
  "AssignOpI quo ASSIGN right left = left"
| "AssignOpI quo PLUS right left = right + left"
| "AssignOpI quo MINUS right left = right - left"
| "AssignOpI quo TIMES right left = right * left"
| "AssignOpI quo DIVIDE right left = quo right left"
| "AssignOpI quo AND_OP right left = right AND left"
| "AssignOpI quo OR_OP right left = right OR left"
| "AssignOpI quo XOR_OP right left = right XOR left"

fun assign_cells :: "('v \<Rightarrow> 'v \<Rightarrow> 'v::{plus,minus,times}) \<Rightarrow> AsOp \<Rightarrow> 'v list \<Rightarrow> 'v list \<Rightarrow> 'v list res" where
  "assign_cells quo op (r # rs) (l # ls) =
     rbind (AssignOp quo op r l) (\<lambda>x. rbind (assign_cells quo op rs ls) (\<lambda>xs. Ok (x # xs)))"
| "assign_cells quo op rs ls = Ok []"

section \<open>Ordered match\<close>

text \<open>The loop for a small destination: the new values of the destination and the number of matched cells.\<close>

fun match_loop ::
    "('v \<Rightarrow> 'v \<Rightarrow> 'v::{plus,minus,times}) \<Rightarrow> nat \<Rightarrow> AsOp \<Rightarrow> 'k::linorder list \<Rightarrow> 'v list \<Rightarrow> 'k list \<Rightarrow> 'v list \<Rightarrow> ('v list \<times> nat) res" where
  "match_loop quo k op (s # ss) sv (d # ds) dv =
     (if s < d then match_loop quo k op ss (drop k sv) (d # ds) dv
      else if \<not> d < s then
        rbind (assign_cells quo op (take k dv) (take k sv)) (\<lambda>c.
        rbind (match_loop quo k op ss (drop k sv) ds (drop k dv)) (\<lambda>(r, n). Ok (c @ r, n + k)))
      else rbind (match_loop quo k op (s # ss) sv ds (drop k dv)) (\<lambda>(r, n). Ok (take k dv @ r, n)))"
| "match_loop quo k op ss sv ds dv = Ok (dv, 0)"

text \<open>
  The recursion that gives one half of the destination to another thread; \<open>grain\<close> is \<open>grainsize - 1\<close>, the caller passes
  at least \<open>2 ^ 20\<close>. The halves of the destination are disjoint and the calling thread counts into a variable of its own,
  so the order of the two calls does not matter.
\<close>

function match_rec ::
    "('v \<Rightarrow> 'v \<Rightarrow> 'v::{plus,minus,times}) \<Rightarrow> nat \<Rightarrow> AsOp \<Rightarrow> nat \<Rightarrow> 'k::linorder list \<Rightarrow> 'v list \<Rightarrow> 'k list \<Rightarrow> 'v list \<Rightarrow> ('v list \<times> nat) res" where
  "match_rec quo k op grain src sv dst dv =
     (if dst = [] \<or> src = [] then Ok (dv, 0)
      else let p = lower_bound src (hd dst); src' = drop p src; sv' = drop (p * k) sv in
        if length dst \<le> Suc grain then match_loop quo k op src' sv' dst dv
        else let m = length dst div 2 in
          rbind (match_rec quo k op grain src' sv' (take m dst) (take (m * k) dv)) (\<lambda>(d1, n1).
          rbind (match_rec quo k op grain src' sv' (drop m dst) (drop (m * k) dv)) (\<lambda>(d2, n2). Ok (d1 @ d2, n1 + n2))))"
  by pat_completeness auto
termination by (relation "measure (\<lambda>(quo, k, op, grain, src, sv, dst, dv). length dst)") auto

declare match_rec.simps [simp del]

definition ParallelOrderedMatch ::
    "('v \<Rightarrow> 'v \<Rightarrow> 'v::{zero,plus,minus,times}) \<Rightarrow> u64 list \<Rightarrow> 'v list \<Rightarrow> u64 list \<Rightarrow> 'v list \<Rightarrow> nat \<Rightarrow> AsOp \<Rightarrow> nat \<Rightarrow> ('v list \<times> nat) res" where
  "ParallelOrderedMatch quo src_key src_val dst_key dst_val k op num_threads =
     (if dst_key = [] then Ok (dst_val, 0)
      else check (num_threads > 0) ''num_threads > 0''
       (check (length src_key * k = length src_val) ''src_key.size() * k == src_val.size()''
        (check (dst_val = [] \<or> length dst_val = length dst_key * k) ''dst_val->size() == dst_key.size()*k''
         (let dv = (if dst_val = [] then replicate (length dst_key * k) 0 else dst_val) in
          rbind (FindRange dst_key (sa_range src_key)) (\<lambda>(lo, hi).
          let grainsize = max ((hi - lo) * k div num_threads + 5) (2 ^ 20) in
          rbind (match_rec quo k op (grainsize - 1) src_key src_val (take (hi - lo) (drop lo dst_key)) (take ((hi - lo) * k) (drop (lo * k) dv)))
            (\<lambda>(d, n). Ok (take (lo * k) dv @ d @ drop (hi * k) dv, n)))))))"

section \<open>Sorted arrays, lemmas\<close>

lemma lower_bound_le: "lower_bound xs x \<le> length xs"
  by (simp add: lower_bound_def length_takeWhile_le)

lemma takeWhile_less: "sorted xs \<Longrightarrow> takeWhile (\<lambda>y. y < x) xs = filter (\<lambda>y. y < x) xs"
  by (induction xs) (fastforce intro!: filter_False [symmetric])+

lemma take_lower_bound: "sorted xs \<Longrightarrow> take (lower_bound xs x) xs = filter (\<lambda>y. y < x) xs"
  by (simp add: lower_bound_def takeWhile_less [symmetric] takeWhile_eq_take [symmetric])

lemma drop_lower_bound: "sorted xs \<Longrightarrow> drop (lower_bound xs x) xs = filter (\<lambda>y. \<not> y < x) xs"
proof (induction xs)
  case (Cons a xs)
  then show ?case
    by (cases "a < x") (auto simp: lower_bound_def intro!: filter_True [symmetric])
qed (simp add: lower_bound_def)

section \<open>What a match does\<close>

text \<open>The operators that work for all types, as functions.\<close>

fun op_fun :: "('v \<Rightarrow> 'v \<Rightarrow> 'v::{plus,minus,times}) \<Rightarrow> AsOp \<Rightarrow> 'v \<Rightarrow> 'v \<Rightarrow> 'v" where
  "op_fun quo PLUS r l = r + l"
| "op_fun quo MINUS r l = r - l"
| "op_fun quo TIMES r l = r * l"
| "op_fun quo DIVIDE r l = quo r l"
| "op_fun quo _ r l = l"

definition basic_op :: "AsOp \<Rightarrow> bool" where
  "basic_op op \<longleftrightarrow> op \<in> {ASSIGN, PLUS, MINUS, TIMES, DIVIDE}"

lemma assign_cells_ok: "length rs = length ls \<Longrightarrow> basic_op op \<Longrightarrow> assign_cells quo op rs ls = Ok (map2 (op_fun quo op) rs ls)"
  by (induction rs ls rule: list_induct2) (auto simp: basic_op_def)

text \<open>The specification: lists of keys with their cells; a destination whose key occurs in the source takes the cells of the source.\<close>

definition flat :: "('k \<times> 'v list) list \<Rightarrow> 'v list" where
  "flat ps = concat (map snd ps)"

definition update_cells :: "('v \<Rightarrow> 'v \<Rightarrow> 'v) \<Rightarrow> ('k \<rightharpoonup> 'v list) \<Rightarrow> 'k \<times> 'v list \<Rightarrow> 'k \<times> 'v list" where
  "update_cells f m p = (fst p, case m (fst p) of None \<Rightarrow> snd p | Some c \<Rightarrow> map2 f (snd p) c)"

definition chunked :: "nat \<Rightarrow> ('k::linorder \<times> 'v list) list \<Rightarrow> bool" where
  "chunked k ps \<longleftrightarrow> sorted_wrt (<) (map fst ps) \<and> (\<forall>p \<in> set ps. length (snd p) = k)"

lemma chunked_Cons [simp]: "chunked k (p # ps) \<longleftrightarrow> length (snd p) = k \<and> (\<forall>q \<in> set ps. fst p < fst q) \<and> chunked k ps"
  by (auto simp: chunked_def)

lemma flat_Cons [simp]: "flat (p # ps) = snd p @ flat ps" and flat_Nil [simp]: "flat [] = []"
  by (simp_all add: flat_def)

lemma flat_append [simp]: "flat (ps @ qs) = flat ps @ flat qs"
  by (simp add: flat_def)

lemma update_cells_skip: "m (fst p) = None \<Longrightarrow> update_cells f m p = p"
  by (cases p) (simp add: update_cells_def)

definition hits :: "('k \<rightharpoonup> 'v list) \<Rightarrow> ('k \<times> 'v list) list \<Rightarrow> nat" where
  "hits m ps = length (filter (\<lambda>p. fst p \<in> dom m) ps)"

lemma hits_simps [simp]: "hits m [] = 0" "hits m (p # ps) = (if fst p \<in> dom m then 1 else 0) + hits m ps" "hits m (ps @ qs) = hits m ps + hits m qs"
  by (simp_all add: hits_def)

lemma update_cong: "(\<And>p. p \<in> set ps \<Longrightarrow> m (fst p) = m' (fst p)) \<Longrightarrow> map (update_cells f m) ps = map (update_cells f m') ps \<and> hits m ps = hits m' ps"
  by (induction ps) (auto simp: update_cells_def domIff)

lemma match_loop_ok:
  assumes "basic_op op" "chunked k sp" "chunked k dp"
  shows "match_loop quo k op (map fst sp) (flat sp) (map fst dp) (flat dp) =
    Ok (flat (map (update_cells (op_fun quo op) (map_of sp)) dp), k * hits (map_of sp) dp)"
  using assms(2,3)
proof (induction "length sp + length dp" arbitrary: sp dp rule: less_induct)
  case less
  show ?case
  proof (cases sp)
    case Nil
    then show ?thesis
      by (cases dp) (simp_all add: update_cells_def hits_def flat_def comp_def)
  next
    case sp: (Cons s ss)
    show ?thesis
    proof (cases dp)
      case Nil
      then show ?thesis by (simp add: sp)
    next
      case dp: (Cons d ds)
      have ch: "length (snd s) = k" "length (snd d) = k" "chunked k ss" "chunked k ds"
        using less.prems sp dp by auto
      have above: "p \<in> set ss \<Longrightarrow> fst s < fst p" "q \<in> set ds \<Longrightarrow> fst d < fst q" for p q
        using less.prems sp dp by auto
      consider (lt) "fst s < fst d" | (eq) "fst s = fst d" | (gt) "fst d < fst s" by (meson linorder_cases)
      then show ?thesis
      proof cases
        case lt
        have "map_of sp (fst q) = map_of ss (fst q)" if "q \<in> set dp" for q
          using that lt above(2) [of q] by (cases s) (auto simp: sp dp)
        then have cong: "map (update_cells f (map_of sp)) dp = map (update_cells f (map_of ss)) dp \<and> hits (map_of sp) dp = hits (map_of ss) dp" for f
          by (rule update_cong)
        have "match_loop quo k op (map fst sp) (flat sp) (map fst dp) (flat dp) = match_loop quo k op (map fst ss) (flat ss) (map fst dp) (flat dp)"
          using lt ch by (simp add: sp dp)
        also have "\<dots> = Ok (flat (map (update_cells (op_fun quo op) (map_of ss)) dp), k * hits (map_of ss) dp)"
          by (rule less(1)) (use less.prems ch in \<open>simp_all add: sp\<close>)
        finally show ?thesis
          by (simp only: cong)
      next
        case eq
        have "map_of sp (fst q) = map_of ss (fst q)" if "q \<in> set ds" for q
          using that eq above(2) [of q] by (cases s) (auto simp: sp)
        then have cong: "map (update_cells f (map_of sp)) ds = map (update_cells f (map_of ss)) ds \<and> hits (map_of sp) ds = hits (map_of ss) ds" for f
          by (rule update_cong)
        have head: "map_of sp (fst d) = Some (snd s)"
          using eq by (cases s) (simp add: sp)
        have "match_loop quo k op (map fst sp) (flat sp) (map fst dp) (flat dp) =
            Ok (map2 (op_fun quo op) (snd d) (snd s) @ flat (map (update_cells (op_fun quo op) (map_of ss)) ds), k * hits (map_of ss) ds + k)"
          using less(1) [of ss ds] less.prems eq ch assms(1) by (simp add: sp dp assign_cells_ok)
        moreover have "flat (map (update_cells f (map_of sp)) dp) = map2 f (snd d) (snd s) @ flat (map (update_cells f (map_of ss)) ds)" for f
          by (simp only: dp list.map flat_Cons cong) (simp add: update_cells_def head)
        moreover have "hits (map_of sp) dp = hits (map_of ss) ds + 1"
          by (simp only: dp hits_simps cong) (simp add: head domIff)
        ultimately show ?thesis
          by simp
      next
        case gt
        have none: "map_of sp (fst d) = None"
          using gt above(1) by (cases s) (fastforce simp: sp map_of_eq_None_iff)
        have "\<not> fst s < fst d" using gt by simp
        then have "match_loop quo k op (map fst sp) (flat sp) (map fst dp) (flat dp) =
            Ok (snd d @ flat (map (update_cells (op_fun quo op) (map_of sp)) ds), k * hits (map_of sp) ds)"
          using less(1) [of sp ds] less.prems gt ch by (simp add: sp dp)
        then show ?thesis
          using none by (simp add: dp update_cells_def domIff)
      qed
    qed
  qed
qed

lemma chunked_append [simp]: "chunked k (ps @ qs) \<longleftrightarrow> chunked k ps \<and> chunked k qs \<and> (\<forall>p \<in> set ps. \<forall>q \<in> set qs. fst p < fst q)"
  by (auto simp: chunked_def sorted_wrt_append)

lemma length_flat [simp]: "chunked k ps \<Longrightarrow> length (flat ps) = length ps * k"
  by (induction ps) auto

lemma drop_flat: "chunked k ps \<Longrightarrow> drop (i * k) (flat ps) = flat (drop i ps)"
  and take_flat: "chunked k ps \<Longrightarrow> take (i * k) (flat ps) = flat (take i ps)"
proof -
  assume "chunked k ps"
  then show "drop (i * k) (flat ps) = flat (drop i ps)" "take (i * k) (flat ps) = flat (take i ps)"
  proof (induction ps arbitrary: i)
    case (Cons p ps)
    {
      case 1
      then show ?case using Cons.IH(1) by (cases i) simp_all
    next
      case 2
      then show ?case using Cons.IH(2) by (cases i) simp_all
    }
  qed simp_all
qed

lemma chunked_parts: "chunked k ps \<Longrightarrow> chunked k (take i ps)" "chunked k ps \<Longrightarrow> chunked k (drop i ps)"
  using chunked_append [of k "take i ps" "drop i ps"] by simp_all

lemma map_of_drop_smaller:
  assumes "chunked k sp" "x \<le> y"
  shows "map_of (drop (lower_bound (map fst sp) x) sp) y = map_of sp y"
proof -
  let ?p = "lower_bound (map fst sp) x"
  have "sorted (map fst sp)"
    using assms(1) by (simp add: chunked_def strict_sorted_imp_sorted)
  then have "map fst (take ?p sp) = filter (\<lambda>z. z < x) (map fst sp)"
    by (simp add: take_map [symmetric] take_lower_bound)
  then have "y \<notin> set (map fst (take ?p sp))"
    using assms(2) by auto
  then have "map_of (take ?p sp) y = None"
    by (simp add: map_of_eq_None_iff)
  then show ?thesis
    using map_of_append [of "take ?p sp" "drop ?p sp"] by (simp add: map_add_def)
qed

lemma match_rec_ok:
  assumes "basic_op op" "chunked k sp" "chunked k dp"
  shows "match_rec quo k op grain (map fst sp) (flat sp) (map fst dp) (flat dp) =
    Ok (flat (map (update_cells (op_fun quo op) (map_of sp)) dp), k * hits (map_of sp) dp)"
  using assms(2,3)
proof (induction "length dp" arbitrary: sp dp rule: less_induct)
  case less
  note ch = less.prems
  show ?case
  proof (cases "dp = [] \<or> sp = []")
    case True
    then show ?thesis
      by (subst match_rec.simps) (auto simp: update_cells_def flat_def comp_def hits_def)
  next
    case False
    define p where "p = lower_bound (map fst sp) (hd (map fst dp))"
    define sq where "sq = drop p sp"
    have sq: "chunked k sq" "drop p (map fst sp) = map fst sq" "drop (p * k) (flat sp) = flat sq"
      using ch(1) by (simp_all add: sq_def chunked_parts drop_map drop_flat)
    have "hd (map fst dp) \<le> fst q" if "q \<in> set dp" for q
      using that ch(2) False by (cases dp) auto
    then have "map_of sq (fst q) = map_of sp (fst q)" if "q \<in> set dp" for q
      using that map_of_drop_smaller [OF ch(1)] by (simp add: sq_def p_def)
    then have cong: "map (update_cells f (map_of sq)) dp = map (update_cells f (map_of sp)) dp \<and> hits (map_of sq) dp = hits (map_of sp) dp" for f
      by (rule update_cong)
    show ?thesis
    proof (cases "length dp \<le> Suc grain")
      case True
      then show ?thesis
        using False match_loop_ok [OF assms(1) sq(1) ch(2), of quo] cong
        by (subst match_rec.simps) (simp add: p_def [symmetric] sq)
    next
      case big: False
      define m where "m = length dp div 2"
      have m: "m < length dp" "0 < m" using big False by (auto simp: m_def)
      have parts1: "map (update_cells f mm) dp = map (update_cells f mm) (take m dp) @ map (update_cells f mm) (drop m dp)"
        and parts2: "hits mm dp = hits mm (take m dp) + hits mm (drop m dp)" for f and mm :: "'a \<rightharpoonup> 'b list"
        by (simp_all flip: map_append hits_simps(3))
      have IH: "match_rec quo k op grain (map fst sq) (flat sq) (map fst (h dp)) (flat (h dp)) =
          Ok (flat (map (update_cells (op_fun quo op) (map_of sq)) (h dp)), k * hits (map_of sq) (h dp))"
        if "h = take m \<or> h = drop m" for h
        by (rule less(1)) (use that m sq ch in \<open>auto simp: chunked_parts\<close>)
      have "match_rec quo k op grain (map fst sp) (flat sp) (map fst dp) (flat dp) =
          rbind (match_rec quo k op grain (map fst sq) (flat sq) (map fst (take m dp)) (flat (take m dp))) (\<lambda>(d1, n1).
          rbind (match_rec quo k op grain (map fst sq) (flat sq) (map fst (drop m dp)) (flat (drop m dp))) (\<lambda>(d2, n2). Ok (d1 @ d2, n1 + n2)))"
        using False big by (subst match_rec.simps)
          (simp add: p_def [symmetric] m_def [symmetric] sq take_map drop_map take_flat [OF ch(2)] drop_flat [OF ch(2)] Let_def flip: sq_def)
      also have "\<dots> = Ok (flat (map (update_cells (op_fun quo op) (map_of sq)) dp), k * hits (map_of sq) dp)"
        by (simp add: IH parts1 [of _ "map_of sq"] parts2 [of "map_of sq"] add_mult_distrib2)
      finally show ?thesis
        by (simp only: cong)
    qed
  qed
qed

lemma lower_bound_mono:
  assumes "x \<le> y"
  shows "lower_bound xs x \<le> lower_bound xs y"
proof (induction xs)
  case (Cons a xs)
  then show ?case
    using less_le_trans [OF _ assms, of a] by (simp add: lower_bound_def)
qed (simp add: lower_bound_def)

lemma update_cells_id: "(\<And>p. p \<in> set ps \<Longrightarrow> m (fst p) = None) \<Longrightarrow> map (update_cells f m) ps = ps \<and> hits m ps = 0"
  by (induction ps) (auto simp: update_cells_skip domIff)

lemma split3: "lo \<le> hi \<Longrightarrow> xs = take lo xs @ take (hi - lo) (drop lo xs) @ drop hi xs"
  by (metis append_take_drop_id drop_drop le_add_diff_inverse2)

lemma match_outside:
  fixes sp :: "(u64 \<times> 'v list) list"
  assumes "chunked k sp" "chunked k dp" "sp \<noteq> []" "fst (last sp) \<noteq> - 1"
  shows "q \<in> set (take (lower_bound (map fst dp) (fst (hd sp))) dp) \<Longrightarrow> map_of sp (fst q) = None"
    and "q \<in> set (drop (lower_bound (map fst dp) (fst (last sp) + 1)) dp) \<Longrightarrow> map_of sp (fst q) = None"
proof -
  have s: "sorted (map fst sp)" "sorted (map fst dp)"
    using assms by (simp_all add: chunked_def strict_sorted_imp_sorted)
  have hd_le: "fst (hd sp) \<le> fst p" and le_last: "fst p \<le> fst (last sp)" if "p \<in> set sp" for p
  proof -
    show "fst (hd sp) \<le> fst p"
      using that assms(1,3) by (cases sp) auto
    have "sp = butlast sp @ [last sp]" using assms(3) by simp
    then show "fst p \<le> fst (last sp)"
      using that assms(1) chunked_append [of k "butlast sp" "[last sp]"] by (metis Un_iff list.set_intros(1) empty_iff list.set(1) order.strict_implies_order order_refl set_ConsD set_append)
  qed
  have none: "map_of sp x = None" if "x < fst (hd sp) \<or> fst (last sp) < x" for x
    using that hd_le le_last by (fastforce simp: map_of_eq_None_iff)
  show "q \<in> set (take (lower_bound (map fst dp) (fst (hd sp))) dp) \<Longrightarrow> map_of sp (fst q) = None"
  proof (rule none, rule disjI1)
    let ?n = "lower_bound (map fst dp) (fst (hd sp))"
    assume "q \<in> set (take ?n dp)"
    then have "fst q \<in> set (take ?n (map fst dp))" by (simp add: take_map)
    then show "fst q < fst (hd sp)" by (simp add: take_lower_bound [OF s(2)])
  qed
  show "q \<in> set (drop (lower_bound (map fst dp) (fst (last sp) + 1)) dp) \<Longrightarrow> map_of sp (fst q) = None"
  proof (rule none, rule disjI2)
    let ?n = "lower_bound (map fst dp) (fst (last sp) + 1)"
    assume "q \<in> set (drop ?n dp)"
    then have "fst q \<in> set (drop ?n (map fst dp))" by (simp add: drop_map)
    then have "\<not> fst q < fst (last sp) + 1" by (simp add: drop_lower_bound [OF s(2)])
    then show "fst (last sp) < fst q"
      using assms(4) by (simp add: linorder_not_less inc_less_eq_iff)
  qed
qed

text \<open>
  C25: matching two sorted key-value lists. Whatever the grain size and the number of threads, every destination key that
  occurs in the source has its cells combined with the cells of the source, every other one keeps its cells, and the result
  counts the combined cells; the last source key must not be the largest key, whose successor wraps around.
\<close>

theorem ParallelOrderedMatch_correct:
  fixes sp :: "(u64 \<times> 'v::{zero,plus,minus,times} list) list"
  assumes "chunked k sp" "chunked k dp" "basic_op op" "num_threads > 0" "sp = [] \<or> fst (last sp) \<noteq> - 1"
  shows "ParallelOrderedMatch quo (map fst sp) (flat sp) (map fst dp) (flat dp) k op num_threads =
    Ok (flat (map (update_cells (op_fun quo op) (map_of sp)) dp), k * hits (map_of sp) dp)"
proof -
  define lo where "lo = lower_bound (map fst dp) (kr_begin (sa_range (map fst sp)))"
  define hi where "hi = lower_bound (map fst dp) (kr_end (sa_range (map fst sp)))"
  let ?mid = "take (hi - lo) (drop lo dp)" and ?m = "map_of sp"
  have v: "kr_valid (sa_range (map fst sp))"
  proof (cases "sp = []")
    case False
    then have "fst (hd sp) \<le> fst (last sp)"
      using assms(1) by (cases sp) (auto intro: order.strict_implies_order)
    also have "\<dots> \<le> fst (last sp) + 1"
      using assms(5) False by (metis inc_less_eq_self_iff_eq linorder_le_cases)
    finally show ?thesis
      using False by (simp add: kr_valid_def sa_range_def hd_map last_map)
  qed (simp add: sa_range_def kr_valid_def)
  then have le: "lo \<le> hi"
    by (simp add: lo_def hi_def kr_valid_def lower_bound_mono)
  have none: "q \<in> set (take lo dp) \<union> set (drop hi dp) \<Longrightarrow> ?m (fst q) = None" for q
    using match_outside [OF assms(1,2), of q] assms(5)
    by (cases "sp = []") (auto simp: lo_def hi_def sa_range_def hd_map last_map)
  have out: "map (update_cells f ?m) (take lo dp) = take lo dp \<and> hits ?m (take lo dp) = 0"
      "map (update_cells f ?m) (drop hi dp) = drop hi dp \<and> hits ?m (drop hi dp) = 0" for f
    by (rule update_cells_id, simp add: none)+
  note parts = split3 [OF le, of dp]
  have res: "map (update_cells f ?m) dp = take lo dp @ map (update_cells f ?m) ?mid @ drop hi dp" for f
    by (rule trans [OF arg_cong [OF parts]]) (simp only: map_append out)
  have cnt: "hits ?m dp = hits ?m ?mid"
    by (rule trans [OF arg_cong [OF parts]]) (simp only: hits_simps out add_0_left add_0_right)
  have mid: "match_rec quo k op grain (map fst sp) (flat sp) (map fst ?mid) (flat ?mid) =
      Ok (flat (map (update_cells (op_fun quo op) ?m) ?mid), k * hits ?m ?mid)" for grain
    by (rule match_rec_ok) (use assms in \<open>simp_all add: chunked_parts\<close>)
  have dv: "(if flat dp = [] then replicate (length (map fst dp) * k) 0 else flat dp) = flat dp"
    using length_flat [OF assms(2)] by (metis length_0_conv length_map replicate_0)
  have "ParallelOrderedMatch quo (map fst sp) (flat sp) (map fst dp) (flat dp) k op num_threads =
      Ok (take (lo * k) (flat dp) @ flat (map (update_cells (op_fun quo op) ?m) ?mid) @ drop (hi * k) (flat dp), k * hits ?m ?mid)"
    if "dp \<noteq> []"
    using that assms(1,2,4) v mid
    by (simp add: ParallelOrderedMatch_def FindRange_def dv Let_def lo_def [symmetric] hi_def [symmetric] take_map drop_map
        drop_flat [OF assms(2)] take_flat [OF chunked_parts(2) [OF assms(2)]])
  then show ?thesis
    by (cases "dp = []") (simp_all add: ParallelOrderedMatch_def res cnt take_flat [OF assms(2)] drop_flat [OF assms(2)])
qed

theorem ParallelOrderedMatch_correct_witness:
  "ParallelOrderedMatch (\<lambda>x y. x) [3, 7] [10, 20, 30, 40] [1, 3, 5, 7] [0, 0, 1, 1, 2, 2, 3, 3] 2 PLUS 4 =
    Ok ([0, 0, 11, 21, 2, 2, 33, 43 :: int], 4)"
  using ParallelOrderedMatch_correct [of 2 "[(3, [10, 20]), (7, [30, 40])]" "[(1, [0, 0]), (3, [1, 1]), (5, [2, 2]), (7, [3, 3])]" PLUS 4 "\<lambda>x y. x :: int"]
  by (simp add: basic_op_def flat_def update_cells_def hits_def chunked_def)

text \<open>The largest key as last source key makes \<open>range()\<close> wrap around, and the match aborts.\<close>

theorem ParallelOrderedMatch_largest_key:
  "ParallelOrderedMatch quo [- 1] [x] [- 1] [y] 1 op 2 = Err (CheckFailed ''bound.valid()'')"
  by (simp add: ParallelOrderedMatch_def FindRange_def sa_range_def kr_valid_def)

end
