(* ===== verification/KVCache.thy ===== *)
theory KVCache
  imports OrderedMatch KVStore ParallelSort
begin

text \<open>
  The worker side of the parameter server: messages cut along the key ranges of the servers (\<open>SliceMessage\<close> in
  \<open>ps-lite/src/system/message.h\<close>) and the cache that sends pushes and pulls and puts the answers of the servers
  together (\<open>ps-lite/src/kv/kv_cache.h\<close>). A value is one element of an array; byte counts of the code are in this unit.
\<close>

section \<open>Slicing a message\<close>

text \<open>Segments between consecutive positions.\<close>

fun segments :: "nat list \<Rightarrow> 'a list \<Rightarrow> 'a list list res" where
  "segments (p # q # ps) xs = rbind (sa_Segment xs p q) (\<lambda>a. rbind (segments (q # ps) xs) (\<lambda>as. Ok (a # as)))"
| "segments _ xs = Ok []"

definition slice_pos :: "KeyRange \<Rightarrow> KeyRange list \<Rightarrow> u64 list \<Rightarrow> nat list" where
  "slice_pos mr krs key = (if krs = [] then 0 else lower_bound key (kr_Project mr (kr_begin (hd krs)))) #
     map (\<lambda>r. lower_bound key (kr_Project mr (kr_end r))) krs"

text \<open>The keys of the slices; those of a slice that is not sent are not taken.\<close>

fun key_segments :: "bool list \<Rightarrow> nat list \<Rightarrow> 'a list \<Rightarrow> 'a list list res" where
  "key_segments (b # bs) (p # q # ps) xs =
     rbind (if b \<and> p \<noteq> q then sa_Segment xs p q else Ok []) (\<lambda>a. rbind (key_segments bs (q # ps) xs) (\<lambda>as. Ok (a # as)))"
| "key_segments _ _ xs = Ok []"

text \<open>The values of a message with dynamic sizes, and of one with a fixed number of cells per key, for every slice.\<close>

fun slice_dyn :: "nat list \<Rightarrow> 'v Arr list \<Rightarrow> 'v Arr list list res" where
  "slice_dyn pos [] = Ok (replicate (length pos - 1) [])"
| "slice_dyn pos (Vals v # Sizes ks # vals) =
     rbind (segments pos ks) (\<lambda>sizes.
     let val_pos = map (\<lambda>i. sum_list (map sum_list (take i sizes))) [0..<length pos]; total = sum_list (map sum_list sizes) in
     if total = 0 then Err (Fatal ''division by zero'')
     else let k = length v div total in
       check (total * k = length v) ''val_pos[n] * k == v.size()''
        (rbind (segments (map (\<lambda>p. p * k) val_pos) v) (\<lambda>vs.
         rbind (slice_dyn pos vals) (\<lambda>rest. Ok (map (\<lambda>((a, b), c). Vals a # Sizes b # c) (zip (zip vs sizes) rest))))))"
| "slice_dyn pos vals = Err (CheckFailed ''msg.value.size() % 2 == 0'')"

fun slice_fixed :: "nat \<Rightarrow> nat list \<Rightarrow> 'v Arr list \<Rightarrow> 'v Arr list list res" where
  "slice_fixed nkey pos [] = Ok (replicate (length pos - 1) [])"
| "slice_fixed nkey pos (Vals v # vals) =
     (let k = length v div nkey in
      check (nkey * k = length v) ''key.size() * k == v.size()''
       (rbind (slice_fixed nkey pos vals) (\<lambda>rest.
          Ok (map (\<lambda>((p, q), c). Vals (take ((q - p) * k) (drop (p * k) v)) # c) (zip (zip pos (tl pos)) rest)))))"
| "slice_fixed nkey pos (Sizes v # vals) =
     (let k = length v div nkey in
      check (nkey * k = length v) ''key.size() * k == v.size()''
       (rbind (slice_fixed nkey pos vals) (\<lambda>rest.
          Ok (map (\<lambda>((p, q), c). Sizes (take ((q - p) * k) (drop (p * k) v)) # c) (zip (zip pos (tl pos)) rest)))))"

text \<open>The slices; \<open>None\<close> is a message marked as not valid, which is not sent.\<close>

definition SliceMessage :: "KeyRange \<Rightarrow> KeyRange list \<Rightarrow> bool \<Rightarrow> 'v Message \<Rightarrow> 'v Message option list res" where
  "SliceMessage mr krs dyn_val msg =
     (let ok = map (\<lambda>r. \<not> kr_empty (kr_SetIntersection r mr)) krs; key = msg_key msg; pos = slice_pos mr krs key;
          blank = msg\<lparr>msg_key := [], msg_value := []\<rparr> in
      if key = [] then Ok (map (\<lambda>b. if b then Some blank else None) ok)
      else
        check (successively (\<lambda>a b. kr_end a = kr_begin b) krs) ''krs[i-1].end() == krs[i].begin()''
         (rbind (key_segments ok pos key) (\<lambda>keys.
          rbind (if dyn_val then slice_dyn pos (msg_value msg) else slice_fixed (length key) pos (msg_value msg)) (\<lambda>vals.
          Ok (map (\<lambda>(ks, vs). if ks \<noteq> [] then Some (blank\<lparr>msg_key := ks, msg_value := vs\<rparr>) else None)
                (zip keys vals))))))"

section \<open>The cache\<close>

text \<open>A pending pull; \<open>kp_vec\<close>: the values go to a vector that is resized, otherwise to a buffer of \<open>kp_len_val\<close> cells.\<close>

record 'v KVPair =
  kp_key :: "u64 list"
  kp_vec :: bool
  kp_len_val :: nat
  kp_val :: "'v list"
  kp_val_size :: "nat list option"
  kp_recv :: "(u64 \<times> 'v list) list"
  kp_matched_num :: nat

record 'v KVCache =
  kc_pull_data :: "nat \<rightharpoonup> 'v KVPair"
  kc_chl :: nat

text \<open>\<open>keys.size() - 1\<close> wraps around when there are no keys, and the loop reads past the array.\<close>

definition IsKeysOrderd :: "u64 list \<Rightarrow> bool res" where
  "IsKeysOrderd keys = (if keys = [] then Err OutOfBounds else Ok (sorted keys))"

definition kc_Push :: "int \<Rightarrow> u64 list \<Rightarrow> 'v list \<Rightarrow> nat list \<Rightarrow> 'v Message res" where
  "kc_Push cmd keys vals vals_size =
     rbind (IsKeysOrderd keys) (\<lambda>b. check b ''keys must in non-decreasing order''
      (let m = \<lparr>msg_push = True, msg_replica = False, msg_cmd = cmd, msg_dyn = False, msg_key = keys, msg_value = [Vals vals]\<rparr> in
       if vals_size = [] then Ok m
       else check (length vals_size = length keys) ''vals_size.size() == keys.size()''
         (Ok (m\<lparr>msg_value := msg_value m @ [Sizes vals_size], msg_dyn := True\<rparr>))))"

definition Pull_impl :: "int \<Rightarrow> u64 list \<Rightarrow> bool \<Rightarrow> 'v list \<Rightarrow> nat list option \<Rightarrow> 'v KVCache \<Rightarrow> (nat \<times> 'v Message \<times> 'v KVCache) res" where
  "Pull_impl cmd keys vec vals vals_size c =
     rbind (IsKeysOrderd keys) (\<lambda>b. check b ''keys must in non-decreasing order''
      (let chl = kc_chl c;
           kv = \<lparr>kp_key = keys, kp_vec = vec, kp_len_val = (if vec then 0 else length vals), kp_val = vals, kp_val_size = vals_size,
                 kp_recv = [], kp_matched_num = 0\<rparr>
       in Ok (chl, \<lparr>msg_push = False, msg_replica = False, msg_cmd = cmd, msg_dyn = (vals_size \<noteq> None), msg_key = keys, msg_value = []\<rparr>,
            c\<lparr>kc_pull_data := (kc_pull_data c)(chl \<mapsto> kv), kc_chl := chl + 1\<rparr>)))"

definition kc_Pull :: "int \<Rightarrow> u64 list \<Rightarrow> 'v list \<Rightarrow> nat list option \<Rightarrow> 'v KVCache \<Rightarrow> (nat \<times> 'v Message \<times> 'v KVCache) res" where
  "kc_Pull cmd keys vals vals_size c =
     Pull_impl cmd keys True vals (map_option (\<lambda>z. if z = [] then replicate (length keys) 0 else z) vals_size) c"

text \<open>
  \<open>ProcessResponse\<close> on the pending pull of the channel; \<open>quo\<close> and \<open>std_sort\<close> are division of values and \<open>std::sort\<close>.
  Values written to a buffer stay in \<open>kp_val\<close>.
\<close>

definition recv_sizes :: "'v Message \<Rightarrow> 'v KVPair \<Rightarrow> 'v KVPair res" where
  "recv_sizes msg kv =
     (if msg_key msg = [] then Ok kv
      else (case (msg_value msg, kp_val_size kv) of
          ([Vals v, Sizes ks], Some sizes) \<Rightarrow>
            rbind (ParallelOrderedMatch (div) (msg_key msg) ks (kp_key kv) sizes 1 ASSIGN 2) (\<lambda>(sizes', n).
            check (n = length ks) ''n == recv_size.size()''
             (Ok (kv\<lparr>kp_val_size := Some sizes', kp_matched_num := kp_matched_num kv + n, kp_recv := kp_recv kv @ [(hd (msg_key msg), v)]\<rparr>)))
        | (_, None) \<Rightarrow> Err (CheckFailed ''kv.val_size'')
        | _ \<Rightarrow> Err (CheckFailed ''msg->value.size() == 2'')))"

definition kc_ProcessResponse ::
    "('v \<Rightarrow> 'v \<Rightarrow> 'v::{zero,plus,minus,times}) \<Rightarrow> ((u64 \<times> 'v list) list \<Rightarrow> (u64 \<times> 'v list) list) \<Rightarrow> 'v Message \<Rightarrow> 'v KVPair \<Rightarrow> 'v KVPair res" where
  "kc_ProcessResponse quo std_sort msg kv =
     (if msg_push msg then Ok kv
      else if msg_dyn msg then
        rbind (recv_sizes msg kv) (\<lambda>kv1.
        if kp_matched_num kv1 \<noteq> length (kp_key kv1) then Ok kv1
        else let recv = std_sort (kp_recv kv1); len = sum_list (map (\<lambda>l. length (snd l)) recv) in
          check (kp_vec kv1 \<or> kp_len_val kv1 = len) ''kv.len_val == len''
           (Ok (kv1\<lparr>kp_val := concat (map snd recv), kp_recv := []\<rparr>)))
      else if msg_key msg = [] then Ok kv
      else (case msg_value msg of
          [Vals v] \<Rightarrow>
            (let k = length v div length (msg_key msg) in
             check (kp_vec kv \<or> length (kp_key kv) * k = kp_len_val kv) ''kv.key.size() * k == kv.len_val''
              (rbind (ParallelOrderedMatch quo (msg_key msg) v (kp_key kv) (kp_val kv) k ASSIGN 2) (\<lambda>(val, n).
               check (n = length v) ''n == recv_data.size()'' (Ok (kv\<lparr>kp_val := val\<rparr>)))))
        | _ \<Rightarrow> Err (CheckFailed ''msg->value.size() == 1'')))"

text \<open>The callback of a pull: the second check of a dynamic pull, then the pull is forgotten.\<close>

definition pull_callback :: "nat \<Rightarrow> 'v KVCache \<Rightarrow> 'v KVCache res" where
  "pull_callback chl c =
     (case kc_pull_data c chl of
        None \<Rightarrow> Err OutOfBounds
      | Some kv \<Rightarrow>
          (case kp_val_size kv of
             None \<Rightarrow> Ok (c\<lparr>kc_pull_data := (kc_pull_data c)(chl := None)\<rparr>)
           | Some sizes \<Rightarrow>
               (let len = sum_list (take (length (kp_key kv)) sizes) in
                check (if kp_vec kv then length (kp_val kv) = len else kp_len_val kv = len) ''kv.val_vec->size() == len''
                 (Ok (c\<lparr>kc_pull_data := (kc_pull_data c)(chl := None)\<rparr>)))))"

section \<open>The slices of a sorted key list\<close>

lemma lower_bound_filter: "x \<le> y \<Longrightarrow> lower_bound (filter (\<lambda>z. z < y) xs) x = lower_bound xs x" if "sorted xs"
  using that
proof (induction xs)
  case (Cons a xs)
  show ?case
  proof (cases "a < y")
    case False
    then have "filter (\<lambda>z. z < y) xs = []" using Cons.prems by (fastforce simp: filter_empty_conv)
    then show ?thesis using False Cons.prems by (simp add: lower_bound_def)
  qed (use Cons in \<open>auto simp: lower_bound_def\<close>)
qed simp

lemma segment_filter:
  assumes "sorted xs" "a \<le> b"
  shows "sa_Segment xs (lower_bound xs a) (lower_bound xs b) = Ok (filter (\<lambda>x. a \<le> x \<and> x < b) xs)"
proof -
  have "take (lower_bound xs b - lower_bound xs a) (drop (lower_bound xs a) xs) = drop (lower_bound xs a) (filter (\<lambda>z. z < b) xs)"
    by (simp add: take_drop take_lower_bound [OF assms(1)] lower_bound_mono [OF assms(2)])
  also have "\<dots> = filter (\<lambda>z. \<not> z < a) (filter (\<lambda>z. z < b) xs)"
    using drop_lower_bound [of "filter (\<lambda>z. z < b) xs" a] lower_bound_filter [OF assms] assms(1) by (simp add: sorted_wrt_filter)
  finally show ?thesis
    using lower_bound_mono [OF assms(2), of xs] lower_bound_le [of xs b] by (simp add: sa_Segment_def linorder_not_less conj_commute)
qed

lemma Project_All [simp]: "kr_Project kr_All v = v"
  by (simp add: kr_Project_def kr_All_def min_absorb2)

definition share :: "u64 list \<Rightarrow> KeyRange \<Rightarrow> u64 list" where
  "share keys r = filter (kr_contains r) keys"

lemma share_nonempty: "share keys r \<noteq> [] \<Longrightarrow> \<not> kr_empty (kr_SetIntersection r kr_All)"
proof -
  assume "share keys r \<noteq> []"
  then obtain x where "kr_contains r x" by (auto simp: share_def filter_empty_conv)
  then have "kr_begin r < kr_end r" by (auto simp: kr_contains_def)
  then show ?thesis by (simp add: kr_empty_def kr_SetIntersection_def kr_All_def min_absorb1)
qed

lemma key_segments_share:
  assumes "sorted keys" "\<forall>r \<in> set krs. kr_valid r" "successively (\<lambda>a b. kr_end a = kr_begin b) krs" "krs \<noteq> []"
  shows "key_segments (map (\<lambda>r. \<not> kr_empty (kr_SetIntersection r kr_All)) krs) (slice_pos kr_All krs keys) keys = Ok (map (share keys) krs)"
  using assms(2-)
proof (induction krs)
  case (Cons r krs)
  let ?p = "lower_bound keys (kr_begin r)" and ?q = "lower_bound keys (kr_end r)"
  have seg: "sa_Segment keys ?p ?q = Ok (share keys r)"
    using segment_filter [OF assms(1), of "kr_begin r" "kr_end r"] Cons.prems by (simp add: share_def kr_contains_def [abs_def] kr_valid_def)
  then have "?p = ?q \<Longrightarrow> share keys r = []"
    by (auto simp: sa_Segment_def check_Ok_iff)
  then have first: "(if \<not> kr_empty (kr_SetIntersection r kr_All) \<and> ?p \<noteq> ?q then sa_Segment keys ?p ?q else Ok []) = Ok (share keys r)"
    using seg share_nonempty [of keys r] by (cases "share keys r = []") auto
  show ?case
  proof (cases krs)
    case Nil
    then show ?thesis using first by (simp add: slice_pos_def)
  next
    case (Cons r' krs')
    then have "slice_pos kr_All (r # krs) keys = ?p # slice_pos kr_All krs keys" "kr_begin r' = kr_end r"
      using Cons.prems by (simp_all add: slice_pos_def)
    moreover obtain ps where "slice_pos kr_All krs keys = ?q # ps"
      using Cons calculation(2) by (simp add: slice_pos_def)
    ultimately show ?thesis
      using first Cons.IH Cons.prems Cons by simp
  qed
qed simp

lemma filter_split:
  assumes "sorted xs" "a \<le> b" "b \<le> c"
  shows "filter (\<lambda>x. a \<le> x \<and> x < b) xs @ filter (\<lambda>x. b \<le> x \<and> x < c) xs = filter (\<lambda>x. a \<le> x \<and> x < c) xs"
  using assms(1)
proof (induction xs)
  case (Cons y xs)
  show ?case
  proof (cases "y < b")
    case False
    then have "filter (\<lambda>x. a \<le> x \<and> x < b) xs = []" using Cons.prems by (fastforce simp: filter_empty_conv)
    then show ?thesis using False Cons assms(2) by auto
  qed (use Cons assms in auto)
qed simp

lemma concat_shares:
  assumes "sorted keys" "\<forall>r \<in> set krs. kr_valid r" "successively (\<lambda>a b. kr_end a = kr_begin b) krs" "krs \<noteq> []"
  shows "concat (map (share keys) krs) = filter (\<lambda>x. kr_begin (hd krs) \<le> x \<and> x < kr_end (last krs)) keys \<and> kr_begin (hd krs) \<le> kr_end (last krs)"
  using assms(2-)
proof (induction krs)
  case (Cons r krs)
  show ?case
  proof (cases krs)
    case Nil
    then show ?thesis using Cons.prems by (simp add: share_def kr_contains_def [abs_def] kr_valid_def)
  next
    case (Cons r' krs')
    then have "kr_end r = kr_begin (hd krs)" "kr_begin r \<le> kr_end r"
      using Cons.prems by (simp_all add: kr_valid_def)
    then show ?thesis
      using Cons.IH Cons.prems Cons filter_split [OF assms(1), of "kr_begin r" "kr_end r" "kr_end (last krs)"]
      by (auto simp: share_def kr_contains_def [abs_def])
  qed
qed simp

section \<open>Putting the answers together\<close>

text \<open>The pending pull after the answers for the groups \<open>ps\<close> of keys; \<open>f\<close> gives the cells of a key.\<close>

definition received :: "(u64 \<Rightarrow> 'v list) \<Rightarrow> u64 list list \<Rightarrow> 'v KVPair \<Rightarrow> 'v KVPair" where
  "received f ps kv = kv\<lparr>kp_val_size := Some (map (\<lambda>x. if x \<in> set (concat ps) then length (f x) else 0) (kp_key kv)),
     kp_matched_num := sum_list (map length ps), kp_recv := map (\<lambda>g. (hd g, concat (map f g))) ps\<rparr>"

definition answer :: "(u64 \<Rightarrow> 'v list) \<Rightarrow> 'v Message \<Rightarrow> 'v Message" where
  "answer f m = m\<lparr>msg_value := [Vals (concat (map f (msg_key m))), Sizes (map (\<lambda>x. length (f x)) (msg_key m))]\<rparr>"

lemma flat_single: "flat (map (\<lambda>x. (x, [h x])) xs) = map h xs"
  by (induction xs) simp_all

lemma match_sizes:
  fixes h old :: "u64 \<Rightarrow> nat"
  assumes "sorted_wrt (<) g" "sorted_wrt (<) keys" "set g \<subseteq> set keys" "- 1 \<notin> set keys" "g \<noteq> []"
  shows "ParallelOrderedMatch (div) g (map h g) keys (map old keys) 1 ASSIGN 2 =
    Ok (map (\<lambda>x. if x \<in> set g then h x else old x) keys, length g)"
proof -
  let ?sp = "map (\<lambda>x. (x, [h x])) g" and ?dp = "map (\<lambda>x. (x, [old x])) keys"
  have m: "map_of ?sp x = (if x \<in> set g then Some [h x] else None)" for x
    by (induction g) auto
  have "last g \<noteq> - 1"
    by (metis assms(3,4,5) last_in_set subsetD)
  then have "fst (last ?sp) \<noteq> - 1"
    by (simp add: last_map assms(5))
  moreover have "chunked 1 ?sp" "chunked 1 ?dp"
    using assms(1,2) by (simp_all add: chunked_def comp_def)
  ultimately have "ParallelOrderedMatch (div) (map fst ?sp) (flat ?sp) (map fst ?dp) (flat ?dp) 1 ASSIGN 2 =
      Ok (flat (map (update_cells (op_fun (div) ASSIGN) (map_of ?sp)) ?dp), 1 * hits (map_of ?sp) ?dp)"
    by (intro ParallelOrderedMatch_correct) (simp_all add: basic_op_def)
  moreover have "flat (map (update_cells (op_fun (div) ASSIGN) (map_of ?sp)) ?dp) = map (\<lambda>x. if x \<in> set g then h x else old x) keys"
    by (subst flat_single [symmetric], rule arg_cong [where f = flat]) (simp add: update_cells_def m)
  moreover have "hits (map_of ?sp) ?dp = length (filter (\<lambda>x. x \<in> set g) keys)"
    by (induction keys) (auto simp: m domIff)
  moreover have "length (filter (\<lambda>x. x \<in> set g) keys) = length g"
  proof -
    have "distinct g" "distinct keys" "set (filter (\<lambda>x. x \<in> set g) keys) = set g"
      using assms(1,2,3) by (auto simp: strict_sorted_iff)
    then show ?thesis
      using distinct_card [of g] distinct_card [of "filter (\<lambda>x. x \<in> set g) keys"] by simp
  qed
  ultimately show ?thesis
    by (simp add: flat_single comp_def)
qed

lemma recv_sizes_ok:
  assumes "sorted_wrt (<) (kp_key kv)" "- 1 \<notin> set (kp_key kv)" "sorted_wrt (<) g" "g \<noteq> []" "set g \<subseteq> set (kp_key kv)" "msg_key m = g"
  shows "recv_sizes (answer f m) (received f ps kv) = Ok (received f (ps @ [g]) kv)"
  using match_sizes [OF assms(3,1,5,2,4), of "\<lambda>x. length (f x)" "\<lambda>x. if x \<in> set (concat ps) then length (f x) else 0"] assms(4,6)
  by (auto simp: recv_sizes_def answer_def received_def)

fun process_all ::
    "('v \<Rightarrow> 'v \<Rightarrow> 'v::{zero,plus,minus,times}) \<Rightarrow> ((u64 \<times> 'v list) list \<Rightarrow> (u64 \<times> 'v list) list) \<Rightarrow> 'v Message list \<Rightarrow> 'v KVPair \<Rightarrow> 'v KVPair res" where
  "process_all quo std_sort [] kv = Ok kv"
| "process_all quo std_sort (m # ms) kv = rbind (kc_ProcessResponse quo std_sort m kv) (process_all quo std_sort ms)"

lemma heads_sorted: "sorted_wrt (<) (concat G) \<Longrightarrow> \<forall>g \<in> set G. g \<noteq> [] \<Longrightarrow> sorted_wrt (<) (map hd G)"
proof (induction G)
  case (Cons g G)
  have "hd g < hd g'" if "g' \<in> set G" for g'
    using Cons.prems that by (auto simp: sorted_wrt_append)
  then show ?case
    using Cons by (auto simp: sorted_wrt_append)
qed simp

lemma sorted_answers:
  fixes G gs :: "u64 list list"
  assumes "sorter std_sort (fst :: u64 \<times> 'v list \<Rightarrow> u64)" "sorted_wrt (<) (concat G)" "\<forall>g \<in> set G. g \<noteq> []" "mset gs = mset G"
  shows "std_sort (map (\<lambda>g. (hd g, concat (map f g))) gs) = map (\<lambda>g. (hd g, concat (map f g))) G"
proof (rule map_sorted_distinct_set_unique [where f = fst])
  let ?e = "\<lambda>g. (hd g, concat (map f g))"
  have m: "mset (std_sort (map ?e gs)) = mset (map ?e G)"
    using sorter.sorter_mset [OF assms(1)] assms(4) by simp
  have h: "sorted_wrt (<) (map fst (map ?e G))"
    using heads_sorted [OF assms(2,3)] by (simp add: comp_def)
  then show sd: "sorted (map fst (map ?e G))" "distinct (map fst (map ?e G))"
    by (simp_all add: strict_sorted_iff)
  have eq: "mset (map fst (std_sort (map ?e gs))) = mset (map fst (map ?e G))"
    by (simp only: mset_map [of fst] m)
  show "distinct (map fst (std_sort (map ?e gs)))"
    using mset_eq_imp_distinct_iff [OF eq] sd(2) by blast
  show "sorted (map fst (std_sort (map ?e gs)))"
    by (rule sorter.sorter_sorted [OF assms(1)])
  show "set (std_sort (map ?e gs)) = set (map ?e G)"
    using arg_cong [OF m, of set_mset] by (simp only: set_mset_mset)
  then show "inj_on fst (set (std_sort (map ?e gs)) \<union> set (map ?e G))"
    using \<open>distinct (map fst (map ?e G))\<close> by (simp only: Un_absorb distinct_map)
qed

lemma mset_map_lift: "mset rs = mset (map g M) \<Longrightarrow> \<exists>ms. rs = map g ms \<and> mset ms = mset M"
proof (induction rs arbitrary: M)
  case (Cons r rs)
  have "r \<in> set (map g M)"
    using mset_eq_setD [OF Cons.prems] by auto
  then obtain x where x: "x \<in> set M" "g x = r"
    by auto
  then have "mset M = add_mset x (mset (remove1 x M))"
    by simp
  then have "mset (map g M) = add_mset r (mset (map g (remove1 x M)))"
    by (metis image_mset_add_mset mset_map x(2))
  then obtain ms where "rs = map g ms" "mset ms = mset (remove1 x M)"
    using Cons by (metis add_mset_remove_trivial mset.simps(2))
  then show ?case
    using x by (intro exI [of _ "x # ms"]) simp
qed simp

lemma sorted_ends: "sorted xs \<Longrightarrow> x \<in> set xs \<Longrightarrow> hd xs \<le> x \<and> x \<le> last xs"
  by (induction xs) auto

lemma concat_nonempty: "concat (filter (\<lambda>ks. ks \<noteq> []) L) = concat L"
  by (induction L) auto

lemma process_all_ok:
  fixes kv :: "'v::{zero,plus,minus,times} KVPair"
  assumes "sorter std_sort (fst :: u64 \<times> 'v list \<Rightarrow> u64)" "sorted_wrt (<) (kp_key kv)" "- 1 \<notin> set (kp_key kv)" "kp_vec kv"
    and "concat G = kp_key kv" "\<forall>g \<in> set G. g \<noteq> []" "mset (ps @ map msg_key ms) = mset G" "ms \<noteq> []"
    and "\<forall>m \<in> set ms. \<not> msg_push m \<and> msg_dyn m"
  shows "process_all quo std_sort (map (answer f) ms) (received f ps kv) =
    Ok ((received f (ps @ map msg_key ms) kv)\<lparr>kp_val := concat (map f (kp_key kv)), kp_recv := []\<rparr>)"
  using assms(7,8,9)
proof (induction ms arbitrary: ps)
  case (Cons m ms)
  let ?g = "msg_key m"
  have gin: "?g \<in> set G"
    using mset_eq_setD [OF Cons.prems(1)] by auto
  then have g: "?g \<noteq> []" "sorted_wrt (<) ?g" "set ?g \<subseteq> set (kp_key kv)"
    using assms(2,6) by (auto simp: assms(5) [symmetric] dest: split_list simp: sorted_wrt_append)
  have recv: "recv_sizes (answer f m) (received f ps kv) = Ok (received f (ps @ [?g]) kv)"
    by (rule recv_sizes_ok) (use assms(2,3) g in simp_all)
  have "sum_list (map length (ps @ map msg_key (m # ms))) = sum_list (map length G)"
    using Cons.prems(1) by (metis mset_map sum_mset_sum_list)
  then have tot: "sum_list (map length (ps @ [?g])) + sum_list (map length (map msg_key ms)) = length (kp_key kv)"
    by (simp add: assms(5) [symmetric] length_concat)
  have flags: "\<not> msg_push (answer f m)" "msg_dyn (answer f m)"
    using Cons.prems(3) by (simp_all add: answer_def)
  show ?case
  proof (cases "ms = []")
    case True
    have "std_sort (kp_recv (received f (ps @ [?g]) kv)) = map (\<lambda>g. (hd g, concat (map f g))) G"
      using sorted_answers [OF assms(1), of G "ps @ [?g]" f] assms(2,5,6) Cons.prems(1) True by (simp add: received_def)
    moreover have "concat (map snd (map (\<lambda>g. (hd g, concat (map f g))) G)) = concat (map f (kp_key kv))"
      unfolding assms(5) [symmetric] by (induction G) simp_all
    ultimately show ?thesis
      using True tot flags assms(4) by (simp add: kc_ProcessResponse_def recv) (simp add: received_def)
  next
    case False
    then obtain m' ms' where "ms = m' # ms'" by (cases ms) auto
    then have "msg_key m' \<in> set G"
      using mset_eq_setD [OF Cons.prems(1)] by auto
    then have "sum_list (map length (map msg_key ms)) \<noteq> 0"
      using assms(6) \<open>ms = m' # ms'\<close> by auto
    then have "sum_list (map length (ps @ [?g])) \<noteq> length (kp_key kv)"
      using tot by linarith
    then have "kp_matched_num (received f (ps @ [?g]) kv) \<noteq> length (kp_key (received f (ps @ [?g]) kv))"
      by (simp add: received_def)
    then have "kc_ProcessResponse quo std_sort (answer f m) (received f ps kv) = Ok (received f (ps @ [?g]) kv)"
      using flags by (simp add: kc_ProcessResponse_def recv)
    then show ?thesis
      using Cons.IH [of "ps @ [?g]"] Cons.prems False by simp
  qed
qed simp

text \<open>
  C1: a dynamic pull over several servers. A worker pulls strictly increasing keys; the request is cut along the key ranges
  of the servers, which cover the keys without gap or overlap; each server answers its slice with the cells of its keys.
  Then, in whatever order the answers arrive, the worker ends with the cells of all its keys in the order of the keys and
  with their sizes, and the checks of the callback pass.
\<close>

theorem dynamic_pull_merges:
  fixes f :: "u64 \<Rightarrow> 'v::{zero,plus,minus,times} list"
  assumes sort: "sorter std_sort (fst :: u64 \<times> 'v list \<Rightarrow> u64)"
    and keys: "keys \<noteq> []" "sorted_wrt (<) keys"
    and krs: "krs \<noteq> []" "\<forall>r \<in> set krs. kr_valid r" "successively (\<lambda>a b. kr_end a = kr_begin b) krs"
    and cover: "kr_begin (hd krs) \<le> hd keys" "last keys < kr_end (last krs)"
  shows "\<exists>chl m c' kv slices. kc_Pull cmd keys [] (Some []) c = Ok (chl, m, c') \<and> kc_pull_data c' chl = Some kv \<and>
    SliceMessage kr_All krs True m = Ok slices \<and>
    (\<forall>rs. mset rs = mset (map (\<lambda>s. answer f (the s)) (filter (\<lambda>s. s \<noteq> None) slices)) \<longrightarrow>
      (\<exists>kv'. process_all quo std_sort rs kv = Ok kv' \<and> kp_val kv' = concat (map f keys) \<and>
        kp_val_size kv' = Some (map (\<lambda>x. length (f x)) keys) \<and>
        is_ok (pull_callback chl (c'\<lparr>kc_pull_data := (kc_pull_data c')(chl \<mapsto> kv')\<rparr>))))"
proof -
  define m :: "'v Message" where "m = \<lparr>msg_push = False, msg_replica = False, msg_cmd = cmd, msg_dyn = True, msg_key = keys, msg_value = []\<rparr>"
  define kv :: "'v KVPair" where "kv = \<lparr>kp_key = keys, kp_vec = True, kp_len_val = 0, kp_val = [], kp_val_size = Some (replicate (length keys) 0),
      kp_recv = [], kp_matched_num = 0\<rparr>"
  define piece where "piece ks = (if ks = [] then None else Some (m\<lparr>msg_key := ks\<rparr>))" for ks
  have so: "sorted keys" using keys(2) by (simp add: strict_sorted_iff)
  have slices: "SliceMessage kr_All krs True m = Ok (map piece (map (share keys) krs))"
    using key_segments_share [OF so krs(2,3,1)] krs keys(1)
    by (auto simp: SliceMessage_def m_def piece_def slice_pos_def zip_replicate2 comp_def)
  define G where "G = filter (\<lambda>ks. ks \<noteq> []) (map (share keys) krs)"
  have sent: "map (\<lambda>s. answer f (the s)) (filter (\<lambda>s. s \<noteq> None) (map piece L)) = map (\<lambda>ks. answer f (m\<lparr>msg_key := ks\<rparr>)) (filter (\<lambda>ks. ks \<noteq> []) L)" for L
    by (induction L) (auto simp: piece_def)
  have all: "\<forall>x \<in> set keys. kr_begin (hd krs) \<le> x \<and> x < kr_end (last krs)"
    using cover sorted_ends [OF so] by force
  then have top: "- 1 \<notin> set keys"
    by (metis word_order.extremum_strict)
  have G: "concat G = keys" "\<forall>g \<in> set G. g \<noteq> []"
    using concat_shares [OF so krs(2,3,1)] all by (simp_all add: G_def concat_nonempty)
  have final: "\<exists>kv'. process_all quo std_sort rs kv = Ok kv' \<and> kp_val kv' = concat (map f keys) \<and>
      kp_val_size kv' = Some (map (\<lambda>x. length (f x)) keys) \<and> kp_key kv' = keys \<and> kp_vec kv'"
    if rs: "mset rs = mset (map (\<lambda>ks. answer f (m\<lparr>msg_key := ks\<rparr>)) G)" for rs
  proof -
    obtain ms where ms: "rs = map (answer f) ms" "mset ms = mset (map (\<lambda>ks. m\<lparr>msg_key := ks\<rparr>) G)"
      using mset_map_lift [of rs "answer f" "map (\<lambda>ks. m\<lparr>msg_key := ks\<rparr>) G"] rs by (auto simp: comp_def)
    have perm: "mset (map msg_key ms) = mset G"
      by (simp add: ms(2) multiset.map_comp comp_def)
    moreover have "ms \<noteq> []"
      using perm G(1) keys(1) by auto
    moreover have "\<forall>m \<in> set ms. \<not> msg_push m \<and> msg_dyn m"
      using mset_eq_setD [OF ms(2)] by (auto simp: m_def)
    moreover have "received f [] kv = kv"
      by (simp add: received_def kv_def map_replicate_const)
    ultimately have "process_all quo std_sort rs kv = Ok ((received f (map msg_key ms) kv)\<lparr>kp_val := concat (map f keys), kp_recv := []\<rparr>)"
      using process_all_ok [OF sort, of kv G "[]" ms quo f] keys(2) top G ms(1) by (simp add: kv_def)
    moreover have "set (concat (map msg_key ms)) = set keys"
      using mset_eq_setD [OF perm] arg_cong [OF G(1), of set] by simp
    ultimately show ?thesis
      by (simp add: received_def kv_def) blast
  qed
  define c' where "c' = c\<lparr>kc_pull_data := (kc_pull_data c)(kc_chl c \<mapsto> kv), kc_chl := kc_chl c + 1\<rparr>"
  have pull: "kc_Pull cmd keys [] (Some []) c = Ok (kc_chl c, m, c')" "kc_pull_data c' (kc_chl c) = Some kv"
    using keys(1) so by (simp_all add: kc_Pull_def Pull_impl_def IsKeysOrderd_def m_def kv_def c'_def Let_def)
  have checks: "is_ok (pull_callback chl (c'\<lparr>kc_pull_data := (kc_pull_data c')(chl \<mapsto> kv')\<rparr>))"
    if "kp_val kv' = concat (map f keys)" "kp_val_size kv' = Some (map (\<lambda>x. length (f x)) keys)" "kp_key kv' = keys" "kp_vec kv'" for chl kv'
    using that by (simp add: pull_callback_def length_concat comp_def)
  have "\<forall>rs. mset rs = mset (map (\<lambda>s. answer f (the s)) (filter (\<lambda>s. s \<noteq> None) (map piece (map (share keys) krs)))) \<longrightarrow>
      (\<exists>kv'. process_all quo std_sort rs kv = Ok kv' \<and> kp_val kv' = concat (map f keys) \<and>
        kp_val_size kv' = Some (map (\<lambda>x. length (f x)) keys) \<and> is_ok (pull_callback (kc_chl c) (c'\<lparr>kc_pull_data := (kc_pull_data c')(kc_chl c \<mapsto> kv')\<rparr>)))"
    unfolding sent G_def [symmetric] using final checks by blast
  then show ?thesis
    using pull slices by blast
qed

theorem dynamic_pull_merges_witness:
  "\<exists>chl m c' kv slices. kc_Pull 0 [3, 4, 9] [] (Some []) \<lparr>kc_pull_data = Map.empty, kc_chl = 0\<rparr> = Ok (chl, m, c') \<and> kc_pull_data c' chl = Some kv \<and>
    SliceMessage kr_All [\<lparr>kr_begin = 0, kr_end = 4\<rparr>, \<lparr>kr_begin = 4, kr_end = 7\<rparr>, \<lparr>kr_begin = 7, kr_end = - 1\<rparr>] True m = Ok slices \<and>
    (\<forall>rs. mset rs = mset (map (\<lambda>s. answer (\<lambda>x. if x = 4 then [40, 41] else [30 :: int]) (the s)) (filter (\<lambda>s. s \<noteq> None) slices)) \<longrightarrow>
      (\<exists>kv'. process_all (div) (sort_key fst) rs kv = Ok kv' \<and> kp_val kv' = [30, 40, 41, 30] \<and> kp_val_size kv' = Some [Suc 0, Suc (Suc 0), Suc 0] \<and>
        is_ok (pull_callback chl (c'\<lparr>kc_pull_data := (kc_pull_data c')(chl \<mapsto> kv')\<rparr>))))"
  using dynamic_pull_merges [OF stable.sorter_axioms, of "[3, 4, 9]" "[\<lparr>kr_begin = 0, kr_end = 4\<rparr>, \<lparr>kr_begin = 4, kr_end = 7\<rparr>, \<lparr>kr_begin = 7, kr_end = - 1\<rparr>]"
      0 "\<lparr>kc_pull_data = Map.empty, kc_chl = 0\<rparr>" "\<lambda>x. if x = 4 then [40, 41] else [30 :: int]" "(div)"]
  by (simp add: kr_valid_def)

end
