(* ===== verification/CompressedBlock.thy ===== *)
theory CompressedBlock
  imports RowBlock Serializer
begin

text \<open>
  Compressed row blocks (\<open>src/base/compressed_row_block.h\<close>) with 64-bit indices, and the parser that reads them
  (\<open>src/base/crb_parser.h\<close>). The LZ4 library is a pair of functions: compressing gives the compressed bytes (none when it
  fails), decompressing gives the bytes when they fit the buffer. A float is its bit pattern.
\<close>

section \<open>Compressing\<close>

definition kMagicNumber :: u32 where
  "kMagicNumber = 1196140743"

definition float_one :: u32 where
  "float_one = 0x3f800000"

definition crb_Compress_piece :: "(byte list \<Rightarrow> byte list) \<Rightarrow> byte list option \<Rightarrow> byte list res" where
  "crb_Compress_piece lz data =
     (case data of
        None \<Rightarrow> Ok (enc32 0)
      | Some bs \<Rightarrow> (let dst = lz bs in check (dst \<noteq> []) ''actual_size != 0'' (Ok (enc32 (word_of_nat (length dst)) @ dst))))"

fun crb_pieces :: "(byte list \<Rightarrow> byte list) \<Rightarrow> byte list option list \<Rightarrow> byte list res" where
  "crb_pieces lz [] = Ok []"
| "crb_pieces lz (p # ps) = rbind (crb_Compress_piece lz p) (\<lambda>a. rbind (crb_pieces lz ps) (\<lambda>b. Ok (a @ b)))"

text \<open>The arrays of a block as bytes; an array of a container that is empty is a null pointer. A block has fewer than \<open>2 ^ 31\<close> rows and entries, the range of the \<open>int\<close> counters.\<close>

definition crb_arrays :: "(u64, u32) RowBlock \<Rightarrow> byte list option list" where
  "crb_arrays blk =
     (let nrows = rb_size blk; nnz = rb_offset blk ! nrows - rb_offset blk ! 0;
          value = (case rb_value blk of None \<Rightarrow> None | Some v \<Rightarrow> if \<forall>i<nnz. v ! i = float_one then None else Some v) in
      [map_option (\<lambda>x. concat (map enc32 (take nrows x))) (begin_ptr (rb_label blk)),
       Some (concat (map (\<lambda>x. enc64 (word_of_nat x)) (take (nrows + 1) (rb_offset blk)))),
       map_option (\<lambda>x. concat (map enc64 (take nnz x))) (begin_ptr (rb_index blk)),
       map_option (\<lambda>x. concat (map enc32 (take nnz x))) value,
       map_option (\<lambda>x. concat (map enc32 (take nrows x))) (rb_weight blk)])"

definition crb_Compress :: "(byte list \<Rightarrow> byte list) \<Rightarrow> (u64, u32) RowBlock \<Rightarrow> byte list res" where
  "crb_Compress lz blk =
     rbind (crb_pieces lz (crb_arrays blk)) (\<lambda>body. Ok (enc32 kMagicNumber @ enc32 8 @ enc32 (word_of_nat (rb_size blk)) @ body))"

section \<open>Decompressing\<close>

text \<open>The rest of the bytes is the state.\<close>

definition crb_Read :: "byte list \<Rightarrow> (u32 \<times> byte list) res" where
  "crb_Read bs = check (4 \<le> length bs) ''cur_len_ + sizeof(int) <= max_len_'' (Ok (dec32 (take 4 bs), drop 4 bs))"

definition crb_Decompress_vec ::
    "(byte list \<Rightarrow> nat \<Rightarrow> byte list option) \<Rightarrow> nat \<Rightarrow> (byte list \<Rightarrow> 'a) \<Rightarrow> int \<Rightarrow> 'a list \<Rightarrow> byte list \<Rightarrow> ('a list \<times> byte list) res" where
  "crb_Decompress_vec unlz sz dec len dst bs =
     rbind (crb_Read bs) (\<lambda>(cp, bs1).
     let cp_size = sint cp in
     if cp_size \<le> 0 then Ok (dst, bs1)
     else check (nat cp_size \<le> length bs1) ''cur_len_ + cp_size <= max_len_''
       (if len < 0 then Err (Fatal ''length_error'')
        else let dst_size = sint (word_of_int (len * int sz) :: u32) in
          (case unlz (take (nat cp_size) bs1) (nat dst_size) of
             None \<Rightarrow> Err (CheckFailed ''dst_size == LZ4_decompress_safe'')
           | Some raw \<Rightarrow> check (dst_size = int (length raw)) ''dst_size == LZ4_decompress_safe''
               (Ok (pod_vector sz dec (nat len) raw, drop (nat cp_size) bs1)))))"

definition crb_Decompress ::
    "(byte list \<Rightarrow> nat \<Rightarrow> byte list option) \<Rightarrow> byte list \<Rightarrow> (u64, u32) RowBlockContainer \<Rightarrow> (u64, u32) RowBlockContainer res" where
  "crb_Decompress unlz bs0 blk =
     rbind (crb_Read bs0) (\<lambda>(magic, bs1). check (magic = kMagicNumber) ''wrong data format''
     (rbind (crb_Read bs1) (\<lambda>(isz, bs2). check (isz = 8) ''wrong indextype''
     (rbind (crb_Read bs2) (\<lambda>(n, bs3). let nrows = sint n in
      rbind (crb_Decompress_vec unlz 4 dec32 nrows (rc_label blk) bs3) (\<lambda>(label, bs4).
      rbind (crb_Decompress_vec unlz 8 (\<lambda>b. unat (dec64 b)) (nrows + 1) (rc_offset blk) bs4) (\<lambda>(offset, bs5).
      check (int (length offset) = nrows + 1) ''blk->offset.size() == nrows+1''
       (let nnz = sint (word_of_int (int (offset ! nat nrows) - int (offset ! 0)) :: u32) in
        rbind (crb_Decompress_vec unlz 8 dec64 nnz (rc_index blk) bs5) (\<lambda>(index, bs6).
        rbind (crb_Decompress_vec unlz 4 dec32 nnz (rc_value blk) bs6) (\<lambda>(value, bs7).
        rbind (crb_Decompress_vec unlz 4 dec32 nrows (rc_weight blk) bs7) (\<lambda>(weight, bs8).
        Ok (blk\<lparr>rc_label := label, rc_offset := offset, rc_index := index, rc_value := value, rc_weight := weight\<rparr>))))))))))))"

text \<open>\<open>CRBParser::ParseNext\<close> on the records of the input split.\<close>

definition crb_ParseNext ::
    "(byte list \<Rightarrow> nat \<Rightarrow> byte list option) \<Rightarrow> byte list list \<Rightarrow> nat \<Rightarrow> ((u64, u32) RowBlockContainer option \<times> byte list list \<times> nat) res" where
  "crb_ParseNext unlz recs bytes_read =
     (case recs of
        [] \<Rightarrow> Ok (None, [], bytes_read)
      | rec # recs' \<Rightarrow> check (rec \<noteq> []) ''rec.size != 0''
          (rbind (crb_Decompress unlz rec rbc_Clear) (\<lambda>blk. Ok (Some blk, recs', bytes_read + length rec))))"

section \<open>Round trip\<close>

text \<open>What LZ4 promises for inputs up to its maximal size.\<close>

definition lz4_law :: "(byte list \<Rightarrow> byte list) \<Rightarrow> (byte list \<Rightarrow> nat \<Rightarrow> byte list option) \<Rightarrow> bool" where
  "lz4_law lz unlz \<longleftrightarrow> (\<forall>d. length d \<le> 0x7E000000 \<longrightarrow> lz d \<noteq> [] \<and> length (lz d) < 2 ^ 31 \<and> unlz (lz d) (length d) = Some d)"

definition piece_img :: "(byte list \<Rightarrow> byte list) \<Rightarrow> byte list option \<Rightarrow> byte list" where
  "piece_img lz p = (case p of None \<Rightarrow> enc32 0 | Some bs \<Rightarrow> enc32 (word_of_nat (length (lz bs))) @ lz bs)"

lemma crb_pieces_ok:
  assumes "lz4_law lz unlz" "\<forall>bs. Some bs \<in> set ps \<longrightarrow> length bs \<le> 0x7E000000"
  shows "crb_pieces lz ps = Ok (concat (map (piece_img lz) ps))"
  using assms(2)
proof (induction ps)
  case (Cons p ps)
  then show ?case
    using assms(1) by (cases p) (auto simp: crb_Compress_piece_def piece_img_def lz4_law_def Let_def)
qed simp

lemma crb_Read_enc [simp]: "crb_Read (enc32 w @ rest) = Ok (w, rest)"
  by (simp add: crb_Read_def)

lemma sint_small: "n < 2 ^ 31 \<Longrightarrow> sint (word_of_nat n :: u32) = int n" "n < 2 ^ 31 \<Longrightarrow> sint (word_of_int (int n) :: u32) = int n"
  using int_word_sint [of "int n", where ?'a = 32] by simp_all

lemma length_concat_const: "\<forall>x \<in> set xs. length (enc x) = sz \<Longrightarrow> length (concat (map enc xs)) = sz * length xs"
  by (induction xs) auto

lemma vec_piece:
  assumes "lz4_law lz unlz" "\<And>x. a = Some x \<Longrightarrow> n \<le> length x" "sz * n \<le> 0x7E000000" "0 < sz"
    and "\<And>y x. a = Some x \<Longrightarrow> y \<in> set (take n x) \<Longrightarrow> length (enc y) = sz \<and> dec (enc y) = y"
  shows "crb_Decompress_vec unlz sz dec (int n) dst (piece_img lz (map_option (\<lambda>x. concat (map enc (take n x))) a) @ rest) =
    Ok (case a of None \<Rightarrow> dst | Some x \<Rightarrow> take n x, rest)"
proof (cases a)
  case None
  then show ?thesis by (simp add: crb_Decompress_vec_def piece_img_def)
next
  case (Some x)
  let ?xs = "take n x" let ?raw = "concat (map enc ?xs)"
  have len: "length ?raw = sz * n"
    using length_concat_const [of ?xs enc sz] assms(2,5) Some by (simp add: min_absorb2)
  then have lz: "lz ?raw \<noteq> []" "length (lz ?raw) < 2 ^ 31" "unlz (lz ?raw) (sz * n) = Some ?raw"
    using assms(1,3) unfolding lz4_law_def by metis+
  have "n \<le> sz * n" using assms(4) by simp
  then have n: "n < 2 ^ 64" using assms(3) by (rule order.strict_trans1 [OF order.trans]) simp
  have "pod_ok sz enc dec ?xs"
    using assms(2,3,5) Some n by (simp add: pod_ok_def min_absorb2)
  then have dec: "pod_vector sz dec n ?raw = ?xs"
    using pod_vector_image [of sz enc dec ?xs] assms(2) Some by (simp add: min_absorb2)
  have "sint (word_of_nat (length (lz ?raw)) :: u32) = int (length (lz ?raw))" "sint (word_of_int (int n * int sz) :: u32) = int (sz * n)"
    using sint_small(1) [OF lz(2)] sint_small(2) [of "sz * n"] assms(3) by (simp_all add: mult.commute)
  moreover have "nat (int sz * int n) = sz * n"
    by (simp flip: of_nat_mult)
  ultimately show ?thesis
    using Some lz len dec by (simp add: crb_Decompress_vec_def piece_img_def Let_def)
qed

text \<open>Rows as float patterns, a value that is not stored being 1.\<close>

definition bits_row :: "u32 \<times> (u64 \<times> u32 option) list \<Rightarrow> u32 \<times> (u64 \<times> u32) list" where
  "bits_row = apsnd (map (apsnd (\<lambda>v. case v of None \<Rightarrow> float_one | Some x \<Rightarrow> x)))"

definition crb_image :: "(u64, u32) RowBlock \<Rightarrow> (u64, u32) RowBlockContainer" where
  "crb_image b = (let n = rb_size b; nnz = rb_offset b ! n in
     \<lparr>rc_offset = take (n + 1) (rb_offset b), rc_label = take n (rb_label b), rc_weight = (case rb_weight b of None \<Rightarrow> [] | Some w \<Rightarrow> take n w),
      rc_index = take nnz (rb_index b),
      rc_value = (case rb_value b of None \<Rightarrow> [] | Some v \<Rightarrow> if \<forall>i<nnz. v ! i = float_one then [] else take nnz v), rc_max_index = 0\<rparr>)"

definition crb_fits :: "('i, 'f) RowBlock \<Rightarrow> bool" where
  "crb_fits b \<longleftrightarrow> rb_wf b \<and> rb_offset b ! 0 = 0 \<and> 8 * (rb_size b + 1) \<le> 0x7E000000 \<and> 8 * rb_offset b ! rb_size b \<le> 0x7E000000"

lemma crb_image_ok:
  assumes "crb_fits b"
  shows "rc_wf (crb_image b)" "map bits_row (rc_rows (crb_image b)) = map bits_row (rb_rows b)"
proof -
  let ?n = "rb_size b" and ?nnz = "rb_offset b ! rb_size b"
  have wf: "rb_wf b" and o0: "rb_offset b ! 0 = 0" using assms by (simp_all add: crb_fits_def)
  have le: "i \<le> ?n \<Longrightarrow> rb_offset b ! i \<le> ?nnz" for i
    using rb_wf_mono [OF wf] by simp
  have b: "?n < length (rb_offset b)" "?n \<le> length (rb_label b)" "?nnz \<le> length (rb_index b)" "\<And>v. rb_value b = Some v \<Longrightarrow> ?nnz \<le> length v"
    using wf o0 by (auto simp: rb_wf_def)
  have "hd (rb_offset b) = 0"
    using b(1) o0 by (cases "rb_offset b") auto
  moreover have "last (take (Suc ?n) (rb_offset b)) = ?nnz"
    using b(1) by (simp add: take_Suc_conv_app_nth)
  ultimately show "rc_wf (crb_image b)"
    using wf o0 b by (auto simp: rc_wf_def crb_image_def Let_def rb_wf_def min_absorb2 split: option.splits)
  have cell: "bits_row (rc_rows (crb_image b) ! i) = bits_row (rb_rows b ! i)" if "i < ?n" for i
    using that le [of "Suc i"] b o0
    by (auto simp: bits_row_def rc_rows_def rb_rows_def crb_image_def Let_def split: option.splits)
  show "map bits_row (rc_rows (crb_image b)) = map bits_row (rb_rows b)"
    using cell b(2) by (intro nth_equalityI) (simp_all add: rc_rows_def crb_image_def Let_def min_absorb2)
qed

text \<open>
  C33: compressed row blocks. For any compression that keeps the promises of LZ4, a block that is compressed and decompressed
  into an empty container gives a well-formed container with the same rows: labels, features and values, where values that
  are all 1 are not stored; example weights come back as well.
\<close>

theorem crb_round_trip:
  assumes "lz4_law lz unlz" "crb_fits b"
  shows "\<exists>bs c. crb_Compress lz b = Ok bs \<and> crb_Decompress unlz bs rbc_Clear = Ok c \<and> rc_wf c \<and>
    map bits_row (rc_rows c) = map bits_row (rb_rows b) \<and> rc_weight c = (case rb_weight b of None \<Rightarrow> [] | Some w \<Rightarrow> take (rb_size b) w)"
proof -
  let ?n = "rb_size b" and ?nnz = "rb_offset b ! rb_size b"
  let ?v = "case rb_value b of None \<Rightarrow> None | Some v \<Rightarrow> if \<forall>i<?nnz. v ! i = float_one then None else Some v"
  have wf: "rb_wf b" and o0: "rb_offset b ! 0 = 0" and sz: "8 * (?n + 1) \<le> 0x7E000000" "8 * ?nnz \<le> 0x7E000000" using assms(2) by (simp_all add: crb_fits_def)
  have b: "?n < length (rb_offset b)" "?n \<le> length (rb_label b)" "?nnz \<le> length (rb_index b)" "\<And>v. rb_value b = Some v \<Longrightarrow> ?nnz \<le> length v"
      "\<And>w. rb_weight b = Some w \<Longrightarrow> ?n \<le> length w"
    using wf o0 by (auto simp: rb_wf_def)
  have sz': "4 * ?n \<le> 0x7E000000" "4 * ?nnz \<le> 0x7E000000" "8 * ?n \<le> 0x7E000000" using sz by simp_all
  have small: "x < 2 ^ 64" if x: "x \<in> set (take (?n + 1) (rb_offset b))" for x
  proof -
    obtain i where "i \<le> ?n" "x = rb_offset b ! i" using x b(1) by (auto simp: in_set_conv_nth less_Suc_eq_le)
    then have "x \<le> ?nnz" using rb_wf_mono [OF wf] by simp
    also have "\<dots> \<le> 0x7E000000" using sz(2) by simp
    finally show ?thesis by (rule order.strict_trans1) simp
  qed
  have bound: "length bs \<le> 0x7E000000" if "Some bs \<in> set (crb_arrays b)" for bs
    using that b sz sz' o0 length_concat_const [of _ enc32 4] length_concat_const [of _ enc64 8] length_concat_const [of _ "\<lambda>x. enc64 (word_of_nat x)" 8]
    by (cases "rb_weight b") (auto simp: crb_arrays_def Let_def begin_ptr_def min_absorb2 split: option.splits if_splits)
  have img: "crb_Compress lz b = Ok (enc32 kMagicNumber @ enc32 8 @ enc32 (word_of_nat ?n) @ concat (map (piece_img lz) (crb_arrays b)))"
    using crb_pieces_ok [OF assms(1)] bound by (simp add: crb_Compress_def)
  note vec = vec_piece [OF assms(1)]
  have lab: "crb_Decompress_vec unlz 4 dec32 (int ?n) [] (piece_img lz (map_option (\<lambda>x. concat (map enc32 (take ?n x))) (begin_ptr (rb_label b))) @ rest) =
      Ok (take ?n (rb_label b), rest)" for rest
    by (subst vec) (use b sz' in \<open>auto simp: begin_ptr_def split: if_splits\<close>)
  have off: "crb_Decompress_vec unlz 8 (\<lambda>b. unat (dec64 b)) (int (?n + 1)) [0] (piece_img lz (map_option (\<lambda>x. concat (map (\<lambda>x. enc64 (word_of_nat x)) (take (?n + 1) x))) (Some (rb_offset b))) @ rest) =
      Ok (take (?n + 1) (rb_offset b), rest)" for rest
    by (subst vec) (use b sz small in \<open>auto simp: unat_of_nat\<close>)
  have idx: "crb_Decompress_vec unlz 8 dec64 (int ?nnz) [] (piece_img lz (map_option (\<lambda>x. concat (map enc64 (take ?nnz x))) (begin_ptr (rb_index b))) @ rest) =
      Ok (take ?nnz (rb_index b), rest)" for rest
    by (subst vec) (use b sz in \<open>auto simp: begin_ptr_def split: if_splits\<close>)
  have val: "crb_Decompress_vec unlz 4 dec32 (int ?nnz) [] (piece_img lz (map_option (\<lambda>x. concat (map enc32 (take ?nnz x))) ?v) @ rest) =
      Ok (rc_value (crb_image b), rest)" for rest
    by (subst vec) (use b sz' in \<open>auto simp: crb_image_def Let_def split: if_splits option.splits\<close>)
  have wei: "crb_Decompress_vec unlz 4 dec32 (int ?n) [] (piece_img lz (map_option (\<lambda>x. concat (map enc32 (take ?n x))) (rb_weight b)) @ rest) =
      Ok (rc_weight (crb_image b), rest)" for rest
    by (subst vec) (use b sz' in \<open>auto simp: crb_image_def Let_def split: option.splits\<close>)
  have n: "sint (word_of_nat ?n :: u32) = int ?n" "sint (word_of_int (int ?nnz) :: u32) = int ?nnz" "length (take (?n + 1) (rb_offset b)) = ?n + 1"
    using sint_small(1) [of ?n] sint_small(2) [of ?nnz] sz b(1) by simp_all
  have nth: "take (?n + 1) (rb_offset b) ! ?n = ?nnz" "take (?n + 1) (rb_offset b) ! 0 = 0"
    using o0 by simp_all
  have "crb_Decompress unlz (enc32 kMagicNumber @ enc32 8 @ enc32 (word_of_nat ?n) @ concat (map (piece_img lz) (crb_arrays b))) rbc_Clear = Ok (crb_image b)"
    using lab off [simplified, unfolded add.commute [of "1 :: int"]] idx val wei [of "[]"] n nth
    by (simp add: crb_Decompress_def crb_arrays_def o0 rbc_Clear_def Let_def) (simp add: crb_image_def Let_def)
  then show ?thesis
    using img crb_image_ok [OF assms(2)] by (auto simp: crb_image_def Let_def)
qed

theorem crb_round_trip_witness:
  "\<exists>bs c. crb_Compress ((#) 0) \<lparr>rb_size = 2, rb_offset = [0, 1, 3], rb_label = [float_one, 0], rb_weight = None, rb_index = [5, 6, 7], rb_value = Some [1, 2, 3]\<rparr> = Ok bs \<and>
     crb_Decompress (\<lambda>d n. if length d = n + 1 then Some (tl d) else None) bs rbc_Clear = Ok c \<and>
     map bits_row (rc_rows c) = [(float_one, [(5, 1)]), (0, [(6, 2), (7, 3)])]"
proof -
  let ?b = "\<lparr>rb_size = 2, rb_offset = [0, 1, 3], rb_label = [float_one, 0], rb_weight = None, rb_index = [5, 6, 7], rb_value = Some [1, 2, 3]\<rparr> :: (u64, u32) RowBlock"
  have law: "lz4_law ((#) 0) (\<lambda>d n. if length d = n + 1 then Some (tl d) else None)"
    by (simp add: lz4_law_def)
  have fits: "crb_fits ?b"
    by (simp add: crb_fits_def rb_wf_def)
  have "map bits_row (rb_rows ?b) = [(float_one, [(5, 1)]), (0, [(6, 2), (7, 3)])]"
    by (simp add: bits_row_def rb_rows_def upt_conv_Cons)
  then show ?thesis
    using crb_round_trip [OF law fits] by auto
qed

end
