(* ===== verification/Filters.thy ===== *)
theory Filters
  imports CompressedBlock OrderedMatch
begin

text \<open>
  Filters of messages (\<open>ps-lite/src/filter\<close>): each encodes a message before it is sent and decodes it on the other side.
  The data of a message are bytes, as \<open>SArray<char>\<close> has them. What the filters use of the platform is the record \<open>Env\<close>:
  \<open>CityHash64\<close>, LZ4, \<open>rand\<close> and the normal distribution, and the representation of \<open>float\<close> and \<open>double\<close>: \<open>fval\<close> is the number
  a finite bit pattern stands for (none for a NaN) and \<open>fbytes\<close> the pattern of the number of the type nearest to a real number.
  Arithmetic on \<open>double\<close> is exact.
\<close>

section \<open>Messages and filter configurations\<close>

datatype DataType = OTHER | INT8 | INT16 | INT32 | INT64 | UINT8 | UINT16 | UINT32 | UINT64 | FLOAT | DOUBLE | CHAR_T

datatype FilterType = KEY_CACHING | COMPRESSING | FIXING_FLOAT | NOISE | DELTA_KEY | TRUNCATE_FLOAT

record FixedFloatConfig =
  fx_min_value :: "real option"
  fx_max_value :: "real option"

record Filter =
  f_type :: FilterType
  f_clear_cache :: bool
  f_num_bytes :: int
  f_mean :: real
  f_std :: real
  f_fixed_point :: "FixedFloatConfig list"
  f_signature :: "u64 option"
  f_uncompressed_size :: "nat list"

text \<open>A filter as \<open>SyncOpts::AddFilter\<close> creates it, with the defaults of the message description.\<close>

definition AddFilter :: "FilterType \<Rightarrow> Filter" where
  "AddFilter t = \<lparr>f_type = t, f_clear_cache = False, f_num_bytes = 3, f_mean = 0, f_std = 0, f_fixed_point = [], f_signature = None,
     f_uncompressed_size = []\<rparr>"

text \<open>\<open>w_push\<close>: the task has parameters and they ask for a push.\<close>

record WireMessage =
  w_request :: bool
  w_push :: bool
  w_has_key :: bool
  w_key_type :: "DataType option"
  w_key_range :: "KeyRange option"
  w_value_type :: "DataType list"
  w_filter :: "Filter list"
  w_key :: "byte list"
  w_value :: "byte list list"

definition clear_key :: "WireMessage \<Rightarrow> WireMessage" where
  "clear_key m = m\<lparr>w_has_key := False, w_key := []\<rparr>"

text \<open>\<open>set_key\<close> of an array whose elements have type \<open>t\<close>.\<close>

definition set_key :: "DataType \<Rightarrow> byte list \<Rightarrow> WireMessage \<Rightarrow> WireMessage" where
  "set_key t key m =
     (let m1 = m\<lparr>w_key_type := Some t\<rparr>; m2 = (if w_key m1 \<noteq> [] then clear_key m1 else m1) in
      m2\<lparr>w_has_key := True, w_key := key,
         w_key_range := (case w_key_range m2 of None \<Rightarrow> Some kr_All | Some r \<Rightarrow> Some r)\<rparr>)"

definition add_value :: "DataType \<Rightarrow> byte list \<Rightarrow> WireMessage \<Rightarrow> WireMessage" where
  "add_value t v m = m\<lparr>w_value_type := w_value_type m @ [t], w_value := w_value m @ [v]\<rparr>"

definition Find :: "FilterType \<Rightarrow> WireMessage \<Rightarrow> Filter option" where
  "Find t m = find (\<lambda>f. f_type f = t) (w_filter m)"

text \<open>A change through the pointer that \<open>Find\<close> returns.\<close>

fun upd_first :: "FilterType \<Rightarrow> (Filter \<Rightarrow> Filter) \<Rightarrow> Filter list \<Rightarrow> Filter list" where
  "upd_first t g [] = []"
| "upd_first t g (f # fs) = (if f_type f = t then g f # fs else f # upd_first t g fs)"

definition upd_conf :: "FilterType \<Rightarrow> (Filter \<Rightarrow> Filter) \<Rightarrow> WireMessage \<Rightarrow> WireMessage" where
  "upd_conf t g m = m\<lparr>w_filter := upd_first t g (w_filter m)\<rparr>"

section \<open>The platform\<close>

record Env =
  CityHash64 :: "byte list \<Rightarrow> u64"
  lz_compress :: "byte list \<Rightarrow> byte list"
  lz_decompress :: "byte list \<Rightarrow> nat \<Rightarrow> byte list option"
  rand :: "nat \<Rightarrow> u32"
  normal :: "real \<Rightarrow> real \<Rightarrow> nat \<Rightarrow> real"
  fval :: "DataType \<Rightarrow> byte list \<Rightarrow> real option"
  fbytes :: "DataType \<Rightarrow> real \<Rightarrow> byte list"

fun sizeof :: "DataType \<Rightarrow> nat" where
  "sizeof DOUBLE = 8"
| "sizeof _ = 4"

text \<open>\<open>SArray<V>(array)\<close>: the same bytes read as elements of another size.\<close>

definition elements :: "nat \<Rightarrow> (byte list \<Rightarrow> 'a) \<Rightarrow> byte list \<Rightarrow> 'a list" where
  "elements sz dec bs = pod_vector sz dec (length bs div sz) bs"

section \<open>Key caching\<close>

type_synonym KeyCache = "u64 \<rightharpoonup> byte list"

definition min_len :: nat where
  "min_len = 64"

definition max_sig_len :: nat where
  "max_sig_len = 4096"

definition IsDone :: "WireMessage \<Rightarrow> bool" where
  "IsDone m \<longleftrightarrow> \<not> w_request m \<or> w_push m"

definition FastHash :: "Env \<Rightarrow> byte list \<Rightarrow> u64" where
  "FastHash env arr =
     (if length arr < max_sig_len then CityHash64 env arr
      else CityHash64 env (take (max_sig_len div 2) arr) XOR CityHash64 env (drop (length arr - max_sig_len div 2) arr))"

definition KeyCaching_Encode :: "Env \<Rightarrow> KeyCache \<Rightarrow> WireMessage \<Rightarrow> WireMessage \<times> KeyCache" where
  "KeyCaching_Encode env cache m =
     (case Find KEY_CACHING m of
        None \<Rightarrow> (m, cache)
      | Some conf \<Rightarrow>
          let key = w_key m in
          if length key < min_len then (upd_conf KEY_CACHING (f_signature_update (\<lambda>_. None)) m, cache)
          else
            let sig = FastHash env key;
                m1 = upd_conf KEY_CACHING (f_signature_update (\<lambda>_. Some sig)) m;
                clear = (f_clear_cache conf \<and> IsDone m) in
            (case cache sig of
               Some k \<Rightarrow> if length k = length key then (clear_key m1, if clear then cache(sig := None) else cache)
                         else (m1, if clear then cache else cache(sig \<mapsto> key))
             | None \<Rightarrow> (m1, if clear then cache else cache(sig \<mapsto> key))))"

definition KeyCaching_Decode :: "Env \<Rightarrow> KeyCache \<Rightarrow> WireMessage \<Rightarrow> (WireMessage \<times> KeyCache) res" where
  "KeyCaching_Decode env cache m =
     (case Find KEY_CACHING m of
        None \<Rightarrow> Ok (m, cache)
      | Some conf \<Rightarrow> (case f_signature conf of
          None \<Rightarrow> Ok (m, cache)
        | Some sig \<Rightarrow>
            let clear = (f_clear_cache conf \<and> IsDone m) in
            if w_key m \<noteq> [] then
              check (FastHash env (w_key m) = sig) ''FastHash(msg->key) == sig''
                (Ok (m, if clear then cache else cache(sig \<mapsto> w_key m)))
            else (case cache sig of
                None \<Rightarrow> Err (CheckFailed ''invalid key cache'')
              | Some k \<Rightarrow> Ok (set_key CHAR_T k m, if clear then cache(sig := None) else cache))))"

section \<open>Differences of keys\<close>

fun delta_encode :: "nat \<Rightarrow> 'k::minus list \<Rightarrow> 'k list" where
  "delta_encode (Suc (Suc i)) key = delta_encode (Suc i) (key[Suc i := key ! Suc i - key ! i])"
| "delta_encode _ key = key"

definition delta_decode :: "'k::plus list \<Rightarrow> 'k list" where
  "delta_decode key = fold (\<lambda>i key. key[i := key ! i + key ! (i - 1)]) [1..<length key] key"

definition DeltaKey_Encode_keys :: "nat \<Rightarrow> (byte list \<Rightarrow> 'k::minus) \<Rightarrow> ('k \<Rightarrow> byte list) \<Rightarrow> byte list \<Rightarrow> byte list" where
  "DeltaKey_Encode_keys sz dec enc orig = (let key = elements sz dec orig in concat (map enc (delta_encode (length key) key)))"

text \<open>Decoding writes the array in place; bytes after the last whole key stay.\<close>

definition DeltaKey_Decode_keys :: "nat \<Rightarrow> (byte list \<Rightarrow> 'k::plus) \<Rightarrow> ('k \<Rightarrow> byte list) \<Rightarrow> byte list \<Rightarrow> byte list" where
  "DeltaKey_Decode_keys sz dec enc bs =
     (let key = elements sz dec bs in concat (map enc (delta_decode key)) @ drop (length key * sz) bs)"

definition DeltaKey_Encode :: "WireMessage \<Rightarrow> WireMessage res" where
  "DeltaKey_Encode m =
     check (Find DELTA_KEY m \<noteq> None) ''Find(Filter::DELTA_KEY, msg)''
       (Ok (if w_key m = [] then m
            else if w_key_type m = Some UINT32 then m\<lparr>w_key := DeltaKey_Encode_keys 4 dec32 enc32 (w_key m)\<rparr>
            else if w_key_type m = Some UINT64 then m\<lparr>w_key := DeltaKey_Encode_keys 8 dec64 enc64 (w_key m)\<rparr>
            else m))"

definition DeltaKey_Decode :: "WireMessage \<Rightarrow> WireMessage res" where
  "DeltaKey_Decode m =
     check (Find DELTA_KEY m \<noteq> None) ''Find(Filter::DELTA_KEY, msg)''
       (Ok (if w_key m = [] then m
            else if w_key_type m = Some UINT32 then m\<lparr>w_key := DeltaKey_Decode_keys 4 dec32 enc32 (w_key m)\<rparr>
            else if w_key_type m = Some UINT64 then m\<lparr>w_key := DeltaKey_Decode_keys 8 dec64 enc64 (w_key m)\<rparr>
            else m))"

section \<open>Compression of values\<close>

definition Compress :: "Env \<Rightarrow> byte list \<Rightarrow> byte list res" where
  "Compress env src = (let dst = lz_compress env src in check (dst \<noteq> []) ''actual_size > 0'' (Ok dst))"

definition Decompress :: "Env \<Rightarrow> byte list \<Rightarrow> nat \<Rightarrow> byte list res" where
  "Decompress env src orig_size =
     (case lz_decompress env src orig_size of
        None \<Rightarrow> Err (CheckFailed ''LZ4_decompress_safe == orig_size'')
      | Some dst \<Rightarrow> check (length dst = orig_size) ''LZ4_decompress_safe == orig_size'' (Ok dst))"

definition Compressing_Encode :: "Env \<Rightarrow> WireMessage \<Rightarrow> WireMessage res" where
  "Compressing_Encode env m =
     (case Find COMPRESSING m of
        None \<Rightarrow> Ok m
      | Some conf \<Rightarrow> rmap (\<lambda>vs. (upd_conf COMPRESSING (f_uncompressed_size_update (\<lambda>_. map length (w_value m))) m)\<lparr>w_value := vs\<rparr>)
                      (mapM_res (Compress env) (w_value m)))"

definition Compressing_Decode :: "Env \<Rightarrow> WireMessage \<Rightarrow> WireMessage res" where
  "Compressing_Decode env m =
     (case Find COMPRESSING m of
        None \<Rightarrow> Ok m
      | Some conf \<Rightarrow> check (length (f_uncompressed_size conf) = length (w_value m)) ''uncompressed_size_size() == msg->value.size()''
          (rmap (\<lambda>vs. m\<lparr>w_value := vs\<rparr>)
            (mapM_res (\<lambda>(v, n). Decompress env v n) (zip (w_value m) (f_uncompressed_size conf)))))"

section \<open>Fixed-point values\<close>

text \<open>The state of the random bits: \<open>pos_\<close>, \<open>rand_\<close> and the number of calls of \<open>rand\<close> so far.\<close>

record FixState =
  fs_pos :: nat
  fs_rand :: u32
  fs_calls :: nat

definition fix_init :: "Env \<Rightarrow> FixState" where
  "fix_init env = \<lparr>fs_pos = 0, fs_rand = rand env 0, fs_calls = 1\<rparr>"

definition boolrand :: "Env \<Rightarrow> FixState \<Rightarrow> bool \<times> FixState" where
  "boolrand env s =
     (let s1 = (if fs_pos s = 30 then \<lparr>fs_pos = 0, fs_rand = rand env (fs_calls s), fs_calls = fs_calls s + 1\<rparr> else s) in
      (bit (fs_rand s1) (fs_pos s1), s1\<lparr>fs_pos := fs_pos s1 + 1\<rparr>))"

text \<open>\<open>1 << (nbytes*8)\<close> shifts an \<open>int\<close>.\<close>

definition fix_ratio :: "int \<Rightarrow> real res" where
  "fix_ratio nbytes =
     check (nbytes > 0) ''nbytes > 0'' (check (nbytes < 8) ''nbytes < 8''
       (if nbytes * 8 < 31 then Ok (2 ^ (nat nbytes * 8) - 2) else Err (Fatal ''1 << (nbytes*8)'')))"

definition fix_range :: "real list \<Rightarrow> real \<times> real" where
  "fix_range vs =
     (let min_v = fold (\<lambda>v m. if v < m then v else m) vs (10 ^ 20);
          max_v = fold (\<lambda>v m. if v > m then v else m) vs (- (10 ^ 20));
          (mn, mx) = (if min_v * max_v < 0
                      then (let mn = (if min_v > - max_v then - max_v else min_v) in (mn, if max_v < - mn then - mn else max_v))
                      else (min_v, max_v)) in
      (mn, if mx = mn then mn + 1 / 10 ^ 6 else mx))"

text \<open>A NaN is replaced by 0 where the range is computed. The fields of the configuration are \<open>float\<close>s.\<close>

definition fix_configure :: "Env \<Rightarrow> FixedFloatConfig \<Rightarrow> real option list \<Rightarrow> real option list \<times> FixedFloatConfig" where
  "fix_configure env conf vs =
     (if fx_min_value conf = None \<or> fx_max_value conf = None
      then let ws = map (\<lambda>v. case v of None \<Rightarrow> 0 | Some x \<Rightarrow> x) vs; (mn, mx) = fix_range ws in
        (map Some ws, \<lparr>fx_min_value = fval env FLOAT (fbytes env FLOAT mn), fx_max_value = fval env FLOAT (fbytes env FLOAT mx)\<rparr>)
      else (vs, conf))"

fun fix_quantize :: "Env \<Rightarrow> nat \<Rightarrow> real \<Rightarrow> real \<Rightarrow> real \<Rightarrow> FixState \<Rightarrow> real option list \<Rightarrow> (byte list \<times> FixState) res" where
  "fix_quantize env nb ratio min_v max_v s [] = Ok ([], s)"
| "fix_quantize env nb ratio min_v max_v s (None # vs) = Err (Fatal ''cast of a NaN'')"
| "fix_quantize env nb ratio min_v max_v s (Some x # vs) =
     (let proj = (if x > max_v then max_v else if x < min_v then min_v else x);
          tmp = (proj - min_v) / (max_v - min_v) * ratio;
          (b, s1) = boolrand env s;
          r = nat \<lfloor>tmp\<rfloor> + (if b then 1 else 0) in
      rmap (\<lambda>(code, s2). (nat_le nb r @ code, s2)) (fix_quantize env nb ratio min_v max_v s1 vs))"

definition fix_value :: "nat \<Rightarrow> real \<Rightarrow> real \<Rightarrow> real \<Rightarrow> byte list \<Rightarrow> real" where
  "fix_value nb ratio min_v max_v code = real (le_nat code) / ratio * (max_v - min_v) + min_v"

definition fix_convert :: "Env \<Rightarrow> DataType \<Rightarrow> bool \<Rightarrow> int \<Rightarrow> FixedFloatConfig \<Rightarrow> FixState \<Rightarrow> byte list \<Rightarrow> (byte list \<times> FixedFloatConfig \<times> FixState) res" where
  "fix_convert env t encode nbytes conf s array =
     rbind (fix_ratio nbytes) (\<lambda>ratio.
       let (vs, conf1) = (if encode then fix_configure env conf (elements (sizeof t) (fval env t) array) else ([], conf)) in
       (case fx_min_value conf1 of None \<Rightarrow> Err (CheckFailed ''conf->has_min_value()'')
        | Some min_v \<Rightarrow> (case fx_max_value conf1 of None \<Rightarrow> Err (CheckFailed ''conf->has_max_value()'')
        | Some max_v \<Rightarrow> check (max_v - min_v > 0) ''bin > 0''
            (if encode
             then rmap (\<lambda>(code, s1). (code, conf1, s1)) (fix_quantize env (nat nbytes) ratio min_v max_v s vs)
             else Ok (concat (map (fbytes env t) (elements (nat nbytes) (fix_value (nat nbytes) ratio min_v max_v) array)), conf1, s)))))"

text \<open>The loop over the arrays of a message; \<open>k\<close> counts the arrays of \<open>float\<close> and \<open>double\<close>.\<close>

fun fix_arrays :: "Env \<Rightarrow> bool \<Rightarrow> int \<Rightarrow> nat \<Rightarrow> FixedFloatConfig list \<Rightarrow> FixState \<Rightarrow> (byte list \<times> DataType) list \<Rightarrow>
    (byte list list \<times> FixedFloatConfig list \<times> FixState) res" where
  "fix_arrays env encode nb k confs s [] = Ok ([], confs, s)"
| "fix_arrays env encode nb k confs s ((v, t) # vts) =
     (if v = [] then rmap (\<lambda>(vs, r). (v # vs, r)) (fix_arrays env encode nb k confs s vts)
      else
        let confs1 = (if length confs \<le> k then confs @ [\<lparr>fx_min_value = None, fx_max_value = None\<rparr>] else confs) in
        if t = FLOAT \<or> t = DOUBLE
        then rbind (fix_convert env t encode nb (confs1 ! k) s v) (\<lambda>(v', c', s').
               rmap (\<lambda>(vs, r). (v' # vs, r)) (fix_arrays env encode nb (Suc k) (confs1[k := c']) s' vts))
        else rmap (\<lambda>(vs, r). (v # vs, r)) (fix_arrays env encode nb k confs1 s vts))"

definition FixingFloat_convert :: "Env \<Rightarrow> bool \<Rightarrow> FixState \<Rightarrow> WireMessage \<Rightarrow> (WireMessage \<times> FixState) res" where
  "FixingFloat_convert env encode s m =
     (case Find FIXING_FLOAT m of
        None \<Rightarrow> Err (CheckFailed ''Find(Filter::FIXING_FLOAT, msg)'')
      | Some conf \<Rightarrow>
          if f_num_bytes conf = 0 then Ok (m, s)
          else check (length (w_value m) = length (w_value_type m)) ''n == msg->task.value_type_size()''
            (rmap (\<lambda>(vs, confs, s1). ((upd_conf FIXING_FLOAT (f_fixed_point_update (\<lambda>_. confs)) m)\<lparr>w_value := vs\<rparr>, s1))
              (fix_arrays env encode (f_num_bytes conf) 0 (f_fixed_point conf) s (zip (w_value m) (w_value_type m)))))"

section \<open>Values truncated to integers\<close>

text \<open>Bytes, least and greatest value of the integer type that \<open>num_bytes\<close> selects.\<close>

definition trunc_type :: "int \<Rightarrow> (nat \<times> int \<times> int) res" where
  "trunc_type nbytes =
     (if nbytes = 1 then Ok (1, 0, 2 ^ 8 - 1)
      else if nbytes = 2 then Ok (2, 0, 2 ^ 16 - 1)
      else if nbytes = 4 then Ok (4, 0, 2 ^ 32 - 1)
      else if nbytes = - 1 then Ok (1, - (2 ^ 7), 2 ^ 7 - 1)
      else if nbytes = - 2 then Ok (2, - (2 ^ 15), 2 ^ 15 - 1)
      else if nbytes = - 4 then Ok (4, - (2 ^ 31), 2 ^ 31 - 1)
      else Err (Fatal ''unsupported num_bytes''))"

definition trunc :: "real \<Rightarrow> int" where
  "trunc x = (if 0 \<le> x then \<lfloor>x\<rfloor> else \<lceil>x\<rceil>)"

text \<open>A cast of a number outside of the integer type is undefined.\<close>

definition trunc_encode1 :: "nat \<Rightarrow> int \<Rightarrow> int \<Rightarrow> real option \<Rightarrow> real option \<Rightarrow> real option \<Rightarrow> byte list res" where
  "trunc_encode1 sz lo hi min_v max_v v =
     (case (min_v, max_v, v) of
        (Some a, Some b, Some x) \<Rightarrow>
          let z = trunc (if x > b then b else if x < a then a else x) in
          if lo \<le> z \<and> z \<le> hi then Ok (nat_le sz (nat (z mod 2 ^ (8 * sz)))) else Err (Fatal ''cast out of range'')
      | _ \<Rightarrow> Err (Fatal ''cast of a NaN''))"

definition trunc_value :: "nat \<Rightarrow> int \<Rightarrow> byte list \<Rightarrow> real" where
  "trunc_value sz hi bs = (let z = int (le_nat bs) in of_int (if z \<le> hi then z else z - 2 ^ (8 * sz)))"

definition trunc_convert :: "Env \<Rightarrow> DataType \<Rightarrow> bool \<Rightarrow> int \<Rightarrow> byte list \<Rightarrow> byte list res" where
  "trunc_convert env t encode nbytes array =
     rbind (trunc_type nbytes) (\<lambda>(sz, lo, hi).
       if encode
       then rmap concat (mapM_res (trunc_encode1 sz lo hi (fval env t (fbytes env t (of_int lo))) (fval env t (fbytes env t (of_int hi))))
              (elements (sizeof t) (fval env t) array))
       else Ok (concat (map (fbytes env t) (elements sz (trunc_value sz hi) array))))"

definition TruncateFloat_Convert :: "Env \<Rightarrow> bool \<Rightarrow> WireMessage \<Rightarrow> WireMessage res" where
  "TruncateFloat_Convert env encode m =
     (case Find TRUNCATE_FLOAT m of
        None \<Rightarrow> Err (CheckFailed ''Find(Filter::TRUNCATE_FLOAT, msg)'')
      | Some conf \<Rightarrow>
          if f_num_bytes conf = 0 then Ok m
          else check (length (w_value m) = length (w_value_type m)) ''n == msg->task.value_type_size()''
            (rmap (\<lambda>vs. m\<lparr>w_value := vs\<rparr>)
              (mapM_res (\<lambda>(v, t). if v \<noteq> [] \<and> (t = FLOAT \<or> t = DOUBLE) then trunc_convert env t encode (f_num_bytes conf) v else Ok v)
                (zip (w_value m) (w_value_type m)))))"

section \<open>Noise\<close>

text \<open>
  The generator is created for each array, so every array gets the same sequence of draws. A NaN stays; bytes after the
  last whole element stay.
\<close>

definition AddNoise :: "Env \<Rightarrow> DataType \<Rightarrow> Filter \<Rightarrow> byte list \<Rightarrow> byte list" where
  "AddNoise env t cf array =
     (let sz = sizeof t; n = length array div sz in
      concat (map (\<lambda>i. let old = take sz (drop (i * sz) array) in
                        case fval env t old of None \<Rightarrow> old | Some x \<Rightarrow> fbytes env t (x + normal env (f_mean cf) (f_std cf) i)) [0..<n])
      @ drop (n * sz) array)"

definition AddNoise_Encode :: "Env \<Rightarrow> WireMessage \<Rightarrow> WireMessage res" where
  "AddNoise_Encode env m =
     (case Find NOISE m of
        None \<Rightarrow> Err (CheckFailed ''Find(Filter::NOISE, msg)'')
      | Some cf \<Rightarrow> check (length (w_value m) = length (w_value_type m)) ''n == msg->task.value_type_size()''
          (Ok (m\<lparr>w_value := map (\<lambda>(v, t). if t = FLOAT \<or> t = DOUBLE then AddNoise env t cf v else v) (zip (w_value m) (w_value_type m))\<rparr>)))"

section \<open>Marked values\<close>

text \<open>The mark of a filtered value has all bits set, which is a NaN; the test compares a value with itself.\<close>

definition mark :: "DataType \<Rightarrow> byte list" where
  "mark t = replicate (sizeof t) 255"

definition marked :: "Env \<Rightarrow> DataType \<Rightarrow> byte list \<Rightarrow> bool" where
  "marked env t v \<longleftrightarrow> fval env t v = None"

section \<open>Filters of a remote node\<close>

datatype FilterObj =
    KeyCachingFilter KeyCache
  | CompressingFilter
  | FixingFloatFilter FixState
  | AddNoiseFilter
  | DeltaKeyFilter
  | TruncateFloatFilter

fun create :: "Env \<Rightarrow> FilterType \<Rightarrow> FilterObj" where
  "create env KEY_CACHING = KeyCachingFilter Map.empty"
| "create env COMPRESSING = CompressingFilter"
| "create env FIXING_FLOAT = FixingFloatFilter (fix_init env)"
| "create env NOISE = AddNoiseFilter"
| "create env DELTA_KEY = DeltaKeyFilter"
| "create env TRUNCATE_FLOAT = TruncateFloatFilter"

fun Encode :: "Env \<Rightarrow> FilterObj \<Rightarrow> WireMessage \<Rightarrow> (WireMessage \<times> FilterObj) res" where
  "Encode env (KeyCachingFilter c) m = (let (m', c') = KeyCaching_Encode env c m in Ok (m', KeyCachingFilter c'))"
| "Encode env CompressingFilter m = rmap (\<lambda>m'. (m', CompressingFilter)) (Compressing_Encode env m)"
| "Encode env (FixingFloatFilter s) m = rmap (\<lambda>(m', s'). (m', FixingFloatFilter s')) (FixingFloat_convert env True s m)"
| "Encode env AddNoiseFilter m = rmap (\<lambda>m'. (m', AddNoiseFilter)) (AddNoise_Encode env m)"
| "Encode env DeltaKeyFilter m = rmap (\<lambda>m'. (m', DeltaKeyFilter)) (DeltaKey_Encode m)"
| "Encode env TruncateFloatFilter m = rmap (\<lambda>m'. (m', TruncateFloatFilter)) (TruncateFloat_Convert env True m)"

fun Decode :: "Env \<Rightarrow> FilterObj \<Rightarrow> WireMessage \<Rightarrow> (WireMessage \<times> FilterObj) res" where
  "Decode env (KeyCachingFilter c) m = rmap (\<lambda>(m', c'). (m', KeyCachingFilter c')) (KeyCaching_Decode env c m)"
| "Decode env CompressingFilter m = rmap (\<lambda>m'. (m', CompressingFilter)) (Compressing_Decode env m)"
| "Decode env (FixingFloatFilter s) m = rmap (\<lambda>(m', s'). (m', FixingFloatFilter s')) (FixingFloat_convert env False s m)"
| "Decode env AddNoiseFilter m = Ok (m, AddNoiseFilter)"
| "Decode env DeltaKeyFilter m = rmap (\<lambda>m'. (m', DeltaKeyFilter)) (DeltaKey_Decode m)"
| "Decode env TruncateFloatFilter m = rmap (\<lambda>m'. (m', TruncateFloatFilter)) (TruncateFloat_Convert env False m)"

type_synonym NodeFilters = "FilterType \<rightharpoonup> FilterObj"

definition FindFilterOrCreate :: "Env \<Rightarrow> FilterType \<Rightarrow> NodeFilters \<Rightarrow> FilterObj" where
  "FindFilterOrCreate env t filters = (case filters t of None \<Rightarrow> create env t | Some f \<Rightarrow> f)"

text \<open>
  The loops over the filters of the task. They read the types of the filters, which no filter changes; decoding runs
  backwards.
\<close>

fun encode_with :: "Env \<Rightarrow> FilterType list \<Rightarrow> NodeFilters \<Rightarrow> WireMessage \<Rightarrow> (WireMessage \<times> NodeFilters) res" where
  "encode_with env [] filters m = Ok (m, filters)"
| "encode_with env (t # ts) filters m =
     rbind (Encode env (FindFilterOrCreate env t filters) m) (\<lambda>(m', f'). encode_with env ts (filters(t \<mapsto> f')) m')"

fun decode_with :: "Env \<Rightarrow> FilterType list \<Rightarrow> NodeFilters \<Rightarrow> WireMessage \<Rightarrow> (WireMessage \<times> NodeFilters) res" where
  "decode_with env [] filters m = Ok (m, filters)"
| "decode_with env (t # ts) filters m =
     rbind (Decode env (FindFilterOrCreate env t filters) m) (\<lambda>(m', f'). decode_with env ts (filters(t \<mapsto> f')) m')"

definition EncodeMessage :: "Env \<Rightarrow> NodeFilters \<Rightarrow> WireMessage \<Rightarrow> (WireMessage \<times> NodeFilters) res" where
  "EncodeMessage env filters m = encode_with env (map f_type (w_filter m)) filters m"

definition DecodeMessage :: "Env \<Rightarrow> NodeFilters \<Rightarrow> WireMessage \<Rightarrow> (WireMessage \<times> NodeFilters) res" where
  "DecodeMessage env filters m = decode_with env (rev (map f_type (w_filter m))) filters m"

section \<open>Configurations and arrays\<close>

named_theorems conf_upd \<open>changes of a configuration keep its type\<close>

lemma types_upd_first: "(\<And>f. f_type (g f) = f_type f) \<Longrightarrow> map f_type (upd_first t g fs) = map f_type fs"
  by (induction fs) auto

lemma find_upd_first:
  assumes "\<And>f. f_type (g f) = f_type f"
  shows "find (\<lambda>f. f_type f = t) (upd_first t' g fs) =
    (if t = t' then map_option g (find (\<lambda>f. f_type f = t) fs) else find (\<lambda>f. f_type f = t) fs)"
  using assms by (induction fs) auto

lemma Find_upd_conf [conf_upd]:
  assumes "\<And>f. f_type (g f) = f_type f"
  shows "Find t (upd_conf t' g m) = (if t = t' then map_option g (Find t m) else Find t m)"
  using assms by (simp add: Find_def upd_conf_def find_upd_first)

lemma Find_frame [simp]:
  "Find t (clear_key m) = Find t m" "Find t (set_key k key m) = Find t m"
  "Find t (m\<lparr>w_value := vs\<rparr>) = Find t m" "Find t (m\<lparr>w_key := ks\<rparr>) = Find t m"
  by (simp_all add: Find_def clear_key_def set_key_def Let_def)

lemma upd_conf_fields [simp]:
  "w_request (upd_conf t g m) = w_request m" "w_push (upd_conf t g m) = w_push m" "w_key_type (upd_conf t g m) = w_key_type m"
  "w_value_type (upd_conf t g m) = w_value_type m" "w_key (upd_conf t g m) = w_key m" "w_value (upd_conf t g m) = w_value m"
  by (simp_all add: upd_conf_def)

lemma types_upd_conf [conf_upd]:
  "(\<And>f. f_type (g f) = f_type f) \<Longrightarrow> map f_type (w_filter (upd_conf t g m)) = map f_type (w_filter m)"
  by (simp add: upd_conf_def types_upd_first)

lemma clear_key_fields [simp]:
  "w_request (clear_key m) = w_request m" "w_push (clear_key m) = w_push m" "w_key_type (clear_key m) = w_key_type m"
  "w_value_type (clear_key m) = w_value_type m" "w_key (clear_key m) = []" "w_value (clear_key m) = w_value m"
  "w_filter (clear_key m) = w_filter m"
  by (simp_all add: clear_key_def)

lemma set_key_fields [simp]:
  "w_request (set_key k key m) = w_request m" "w_push (set_key k key m) = w_push m" "w_key_type (set_key k key m) = Some k"
  "w_value_type (set_key k key m) = w_value_type m" "w_key (set_key k key m) = key" "w_value (set_key k key m) = w_value m"
  "w_filter (set_key k key m) = w_filter m"
  by (simp_all add: set_key_def Let_def)

text \<open>Reading back the elements that were written.\<close>

lemma elements_concat:
  assumes "\<forall>x \<in> set xs. length (enc x) = sz" "0 < sz"
  shows "elements sz dec (concat (map enc xs)) = map (\<lambda>x. dec (enc x)) xs"
proof -
  have len: "length (concat (map enc xs)) = sz * length xs" using assms(1) by (rule length_concat_const)
  have "take sz (drop (i * sz) (concat (map enc xs))) = enc (xs ! i)" if "i < length xs" for i
    using take_drop_concat [of xs enc sz i] assms(1) that by simp
  then show ?thesis using assms len by (auto simp: elements_def pod_vector_def intro!: nth_equalityI)
qed

lemma length_elements [simp]: "length (elements sz dec bs) = length bs div sz"
  by (simp add: elements_def pod_vector_def Let_def)

lemma elements_nth: "i < length bs div sz \<Longrightarrow> elements sz dec bs ! i = dec (take sz (drop (i * sz) bs))"
proof -
  assume i: "i < length bs div sz"
  have "sz * (length bs div sz) - length bs = 0" by (simp add: mult.commute)
  then show "elements sz dec bs ! i = dec (take sz (drop (i * sz) bs))"
    using i by (simp add: elements_def pod_vector_def)
qed

lemma concat_chunks:
  assumes "length bs = n * sz"
  shows "concat (map (\<lambda>i. take sz (drop (i * sz) bs)) [0..<n]) = bs"
  using assms
proof (induction n arbitrary: bs)
  case (Suc n)
  have "concat (map (\<lambda>i. take sz (drop (i * sz) bs)) [0..<Suc n]) =
      take sz bs @ concat (map (\<lambda>i. take sz (drop (Suc i * sz) bs)) [0..<n])"
    by (simp only: upt_conv_Cons [OF zero_less_Suc] list.map concat.simps map_Suc_upt [symmetric] map_map comp_def) simp
  also have "map (\<lambda>i. take sz (drop (Suc i * sz) bs)) [0..<n] = map (\<lambda>i. take sz (drop (i * sz) (drop sz bs))) [0..<n]"
    by (simp add: add.commute)
  finally show ?case using Suc.IH [of "drop sz bs"] Suc.prems by simp
qed simp

text \<open>Writing back the elements that were read.\<close>

lemma image_elements:
  assumes "sz dvd length bs" "0 < sz" "\<And>b. length b = sz \<Longrightarrow> enc (dec b) = b"
  shows "concat (map enc (elements sz dec bs)) = bs"
proof -
  obtain n where n: "length bs = n * sz" using assms(1) by (auto simp: dvd_def mult.commute)
  have "map enc (elements sz dec bs) = map (\<lambda>i. take sz (drop (i * sz) bs)) [0..<n]"
  proof (rule nth_equalityI)
    fix i assume "i < length (map enc (elements sz dec bs))"
    then have i: "i < n" using n assms(2) by simp
    then have "(i + 1) * sz \<le> n * sz" by (intro mult_right_mono) auto
    then have "length (take sz (drop (i * sz) bs)) = sz" using n by simp
    then show "map enc (elements sz dec bs) ! i = map (\<lambda>i. take sz (drop (i * sz) bs)) [0..<n] ! i"
      using i n assms(2) by (simp add: elements_nth assms(3))
  qed (use n assms(2) in simp)
  then show ?thesis using concat_chunks [OF n] by simp
qed

section \<open>Differences and their sums\<close>

lemma length_delta_encode [simp]: "length (delta_encode i key) = length key"
  by (induction i key rule: delta_encode.induct) auto

lemma delta_encode_nth:
  "j < length key \<Longrightarrow> i \<le> length key \<Longrightarrow> delta_encode i key ! j = (if 0 < j \<and> j < i then key ! j - key ! (j - 1) else key ! j)"
proof (induction i key arbitrary: j rule: delta_encode.induct)
  case (1 i key)
  then show ?case by (cases "j = Suc i"; cases "j - 1 = Suc i") auto
qed auto

lemma delta_decode_prefix:
  fixes key :: "'k::comm_ring_1 list"
  assumes "n \<le> length key" "0 < n" "0 < length key"
  shows "fold (\<lambda>i key. key[i := key ! i + key ! (i - 1)]) [1..<n] (delta_encode (length key) key) =
     take n key @ drop n (delta_encode (length key) key)"
  using assms
proof (induction n)
  case (Suc n)
  let ?d = "delta_encode (length key) key"
  show ?case
  proof (cases "n = 0")
    case True
    have "?d ! 0 = key ! 0" using Suc.prems by (simp add: delta_encode_nth)
    then show ?thesis using True Suc.prems
      by (cases key; cases ?d) (auto dest: arg_cong [of _ _ length])
  next
    case False
    then have IH: "fold (\<lambda>i key. key[i := key ! i + key ! (i - 1)]) [1..<n] ?d = take n key @ drop n ?d"
      using Suc by simp
    have n: "n < length key" "min (length key) n = n" using Suc.prems by auto
    have "(take n key @ drop n ?d)[n := (take n key @ drop n ?d) ! n + (take n key @ drop n ?d) ! (n - 1)] = take (Suc n) key @ drop (Suc n) ?d"
    proof (rule nth_equalityI)
      fix j assume "j < length ((take n key @ drop n ?d)[n := (take n key @ drop n ?d) ! n + (take n key @ drop n ?d) ! (n - 1)])"
      then show "(take n key @ drop n ?d)[n := (take n key @ drop n ?d) ! n + (take n key @ drop n ?d) ! (n - 1)] ! j =
          (take (Suc n) key @ drop (Suc n) ?d) ! j"
        using n False by (cases "j = n"; cases "j < n") (auto simp: nth_append delta_encode_nth)
    qed (use n in simp)
    then show ?thesis using IH False Suc.prems by simp
  qed
qed simp

lemma delta_decode_encode:
  fixes key :: "'k::comm_ring_1 list"
  shows "delta_decode (delta_encode (length key) key) = key"
proof (cases "key = []")
  case True
  then show ?thesis by (simp add: delta_decode_def)
next
  case False
  then show ?thesis using delta_decode_prefix [of "length key" key] by (simp add: delta_decode_def)
qed

lemma DeltaKey_keys_round_trip:
  fixes dec :: "byte list \<Rightarrow> 'k::comm_ring_1"
  assumes "sz dvd length bs" "0 < sz" "\<And>b. length b = sz \<Longrightarrow> enc (dec b) = b" "\<And>x. length (enc x) = sz" "\<And>x. dec (enc x) = x"
  shows "DeltaKey_Decode_keys sz dec enc (DeltaKey_Encode_keys sz dec enc bs) = bs"
    and "DeltaKey_Encode_keys sz dec enc bs = [] \<longleftrightarrow> bs = []"
proof -
  let ?d = "delta_encode (length (elements sz dec bs)) (elements sz dec bs)"
  have el: "elements sz dec (concat (map enc ?d)) = ?d"
    using assms(2,4,5) elements_concat [of ?d enc sz dec] by simp
  have len: "length (concat (map enc xs)) = sz * length xs" for xs
    using assms(4) by (simp add: length_concat_const)
  have "length ?d * sz = length (concat (map enc ?d))" by (simp add: len del: length_concat)
  then show "DeltaKey_Decode_keys sz dec enc (DeltaKey_Encode_keys sz dec enc bs) = bs"
    using delta_decode_encode [of "elements sz dec bs"] image_elements [of sz bs enc dec, OF assms(1,2,3)]
    by (simp add: DeltaKey_Decode_keys_def DeltaKey_Encode_keys_def Let_def el del: length_delta_encode length_elements length_concat)
  have "length (DeltaKey_Encode_keys sz dec enc bs) = length bs"
    using assms(1) by (simp add: DeltaKey_Encode_keys_def Let_def len del: length_concat)
  then show "DeltaKey_Encode_keys sz dec enc bs = [] \<longleftrightarrow> bs = []" by auto
qed

end
