(* ===== verification/FilterValues.thy ===== *)
theory FilterValues
  imports Filters
begin

text \<open>
  The two filters that send numbers with fewer bits, array by array: what the receiver sees of an array of \<open>float\<close> or \<open>double\<close>
  after truncation (\<open>ps-lite/src/filter/truncate_float.h\<close>) and after fixed-point coding (\<open>fixing_float.h\<close>).
\<close>

section \<open>Numbers of the machine\<close>

text \<open>What is used of the representation: the size of a number, and that small integers are exact.\<close>

definition float_law :: "Env \<Rightarrow> bool" where
  "float_law env \<longleftrightarrow> (\<forall>t \<in> {FLOAT, DOUBLE}. (\<forall>x. length (fbytes env t x) = sizeof t) \<and>
     (\<forall>z :: int. \<bar>z\<bar> \<le> 2 ^ 24 \<longrightarrow> fval env t (fbytes env t (of_int z)) = Some (of_int z)))"

definition clamp :: "real \<Rightarrow> real \<Rightarrow> real \<Rightarrow> real" where
  "clamp a b x = (if x > b then b else if x < a then a else x)"

lemma clamp_bounds: "a \<le> b \<Longrightarrow> a \<le> clamp a b x \<and> clamp a b x \<le> b"
  by (simp add: clamp_def)

lemma sizeof_pos [simp]: "0 < sizeof t" "sizeof t \<noteq> 0"
  by (cases t; simp)+

text \<open>The code of an array with a whole element is not empty, and not longer than the array.\<close>

lemma code_length:
  assumes "sizeof t \<le> length v" "length xs = length v div sizeof t" "\<And>x. length (enc x) = sz" "0 < sz" "sz \<le> sizeof t"
  shows "concat (map enc xs) \<noteq> []" "length (concat (map enc xs)) \<le> length v"
proof -
  have len: "length (concat (map enc xs)) = sz * length xs" using assms(3) by (simp add: length_concat_const)
  have "0 < length xs" using assms(1,2) by (simp add: div_greater_zero_iff)
  then show "concat (map enc xs) \<noteq> []" using len assms(4) by (metis gr0_conv_Suc length_0_conv mult_is_0 neq0_conv)
  have "sz * (length v div sizeof t) \<le> sizeof t * (length v div sizeof t)" using assms(5) by (rule mult_right_mono) simp
  also have "\<dots> \<le> length v" by (rule times_div_less_eq_dividend)
  finally show "length (concat (map enc xs)) \<le> length v" by (simp only: len assms(2))
qed

section \<open>Truncation\<close>

lemma trunc_bounds:
  assumes "of_int lo \<le> x" "x \<le> of_int hi"
  shows "lo \<le> trunc x \<and> trunc x \<le> hi"
  using assms by (auto simp: trunc_def le_floor_iff floor_le_iff ceiling_le_iff le_ceiling_iff)

definition trunc_seen :: "Env \<Rightarrow> int \<Rightarrow> DataType \<Rightarrow> byte list \<Rightarrow> byte list" where
  "trunc_seen env nbytes t v =
     (case trunc_type nbytes of
        Ok (sz, lo, hi) \<Rightarrow> concat (map (\<lambda>x. fbytes env t (of_int (trunc (clamp (of_int lo) (of_int hi) (the x))))) (elements (sizeof t) (fval env t) v))
      | Err _ \<Rightarrow> v)"

lemma trunc_int:
  assumes "trunc_type nb = Ok (sz, lo, hi)"
  shows "0 < sz" "lo \<le> hi" "lo \<le> 0" "0 \<le> hi" "lo + 2 ^ (8 * sz) = hi + 1"
  using assms by (auto simp: trunc_type_def split: if_splits)

lemma trunc_value_encode:
  assumes "trunc_type nb = Ok (sz, lo, hi)" "lo \<le> z" "z \<le> hi"
  shows "trunc_value sz hi (nat_le sz (nat (z mod 2 ^ (8 * sz)))) = of_int z"
proof -
  note t = trunc_int [OF assms(1)]
  have p: "(256 :: int) ^ sz = 2 ^ (8 * sz)" by (simp add: power_mult)
  have "int (le_nat (nat_le sz (nat (z mod 2 ^ (8 * sz))))) = z mod 2 ^ (8 * sz)"
    by (simp add: le_nat_nat_le zmod_int p)
  moreover have "z mod 2 ^ (8 * sz) = (if 0 \<le> z then z else z + 2 ^ (8 * sz))"
  proof (cases "0 \<le> z")
    case True
    then show ?thesis using assms t by (simp add: mod_pos_pos_trivial)
  next
    case False
    then have "(z + 2 ^ (8 * sz)) mod 2 ^ (8 * sz) = z + 2 ^ (8 * sz)" using assms t by (intro mod_pos_pos_trivial) auto
    with False show ?thesis by simp
  qed
  ultimately show ?thesis using assms t by (simp add: trunc_value_def)
qed

lemma trunc_round_trip:
  assumes "float_law env" "t \<in> {FLOAT, DOUBLE}" "nb \<in> {1, 2, - 1, - 2}" "\<forall>x \<in> set (elements (sizeof t) (fval env t) v). x \<noteq> None"
    "sizeof t \<le> length v"
  shows "\<exists>code. trunc_convert env t True nb v = Ok code \<and> code \<noteq> [] \<and> length code \<le> length v \<and>
    trunc_convert env t False nb code = Ok (trunc_seen env nb t v)"
proof -
  obtain sz lo hi where ty: "trunc_type nb = Ok (sz, lo, hi)" and small: "\<bar>lo\<bar> \<le> 2 ^ 24" "\<bar>hi\<bar> \<le> 2 ^ 24"
    using assms(3) by (auto simp: trunc_type_def)
  let ?xs = "elements (sizeof t) (fval env t) v" and ?z = "\<lambda>x. trunc (clamp (of_int lo) (of_int hi) (the x))"
  let ?e = "\<lambda>x. nat_le sz (nat (?z x mod 2 ^ (8 * sz)))"
  note ti = trunc_int [OF ty]
  have z: "lo \<le> ?z x \<and> ?z x \<le> hi" for x
    using ti by (intro trunc_bounds) (auto simp: clamp_def)
  have "mapM_res (trunc_encode1 sz lo hi (Some (of_int lo)) (Some (of_int hi))) ?xs = Ok (map ?e ?xs)"
  proof (rule mapM_res_Ok)
    fix x assume "x \<in> set ?xs"
    then obtain y where "x = Some y" using assms(4) by auto
    then show "trunc_encode1 sz lo hi (Some (of_int lo)) (Some (of_int hi)) x = Ok (?e x)"
      using z [of x] by (simp add: trunc_encode1_def Let_def clamp_def)
  qed
  then have enc: "trunc_convert env t True nb v = Ok (concat (map ?e ?xs))"
    using assms(1,2) small by (auto simp: trunc_convert_def ty float_law_def)
  have "elements sz (trunc_value sz hi) (concat (map ?e ?xs)) = map (\<lambda>x. of_int (?z x)) ?xs"
    using elements_concat [of ?xs ?e sz "trunc_value sz hi"] ti(1) z by (simp add: trunc_value_encode [OF ty])
  then have dec: "trunc_convert env t False nb (concat (map ?e ?xs)) = Ok (trunc_seen env nb t v)"
    by (simp add: trunc_convert_def trunc_seen_def ty comp_def)
  have "sz \<le> sizeof t" using assms(2,3) ty by (auto simp: trunc_type_def)
  then have "concat (map ?e ?xs) \<noteq> []" "length (concat (map ?e ?xs)) \<le> length v"
    using assms(5) ti(1) by (intro code_length; simp)+
  with enc dec show ?thesis by blast
qed

section \<open>Fixed point\<close>

definition fix_numbers :: "Env \<Rightarrow> DataType \<Rightarrow> byte list \<Rightarrow> real list" where
  "fix_numbers env t v = map (\<lambda>x. case x of None \<Rightarrow> 0 | Some y \<Rightarrow> y) (elements (sizeof t) (fval env t) v)"

text \<open>The range of an array as it is sent: its ends are rounded to \<open>float\<close>.\<close>

definition sent_range :: "Env \<Rightarrow> DataType \<Rightarrow> byte list \<Rightarrow> (real \<times> real) option" where
  "sent_range env t v =
     (let (mn, mx) = fix_range (fix_numbers env t v) in
      case (fval env FLOAT (fbytes env FLOAT mn), fval env FLOAT (fbytes env FLOAT mx)) of
        (Some a, Some b) \<Rightarrow> Some (a, b) | _ \<Rightarrow> None)"

definition levels :: "int \<Rightarrow> real" where
  "levels nb = 2 ^ (nat nb * 8) - 2"

definition fix_seen :: "Env \<Rightarrow> int \<Rightarrow> DataType \<Rightarrow> byte list \<Rightarrow> byte list \<Rightarrow> bool" where
  "fix_seen env nb t v v' \<longleftrightarrow> (\<exists>a b ys. sent_range env t v = Some (a, b) \<and> v' = concat (map (fbytes env t) ys) \<and>
     list_all2 (\<lambda>x y. \<bar>y - clamp a b x\<bar> \<le> (b - a) / levels nb) (fix_numbers env t v) ys)"

lemma levels_pos: "0 < nb \<Longrightarrow> 254 \<le> levels nb"
proof -
  assume "0 < nb"
  then have "(2 :: real) ^ 8 \<le> 2 ^ (nat nb * 8)" by (intro power_increasing) auto
  then show ?thesis by (simp add: levels_def)
qed

lemma quantize1:
  assumes "a < b" "0 < nb" "a \<le> p" "p \<le> b" "r = nat \<lfloor>(p - a) / (b - a) * levels nb\<rfloor> + (if c then 1 else 0)"
  shows "\<bar>real r / levels nb * (b - a) + a - p\<bar> \<le> (b - a) / levels nb" "r < 256 ^ nat nb"
proof -
  let ?t = "(p - a) / (b - a) * levels nb"
  have l: "0 < levels nb" using levels_pos [OF assms(2)] by simp
  have t0: "0 \<le> ?t" using assms l by simp
  have "(p - a) / (b - a) \<le> 1" using assms by simp
  then have t1: "?t \<le> levels nb" using mult_right_mono [of "(p - a) / (b - a)" 1 "levels nb"] l by simp
  have r: "\<bar>real r - ?t\<bar> \<le> 1"
  proof -
    define T where "T = ?t"
    have "real (nat \<lfloor>T\<rfloor>) = of_int \<lfloor>T\<rfloor>" "of_int \<lfloor>T\<rfloor> \<le> T" "T < of_int \<lfloor>T\<rfloor> + 1"
      using t0 floor_correct [of T] by (simp_all add: T_def)
    then have "\<bar>real (nat \<lfloor>T\<rfloor> + (if c then 1 else 0)) - T\<bar> \<le> 1"
      by (cases c; simp only: if_True if_False of_nat_add of_nat_1 of_nat_0; linarith)
    then show ?thesis unfolding assms(5) T_def .
  qed
  have "real r / levels nb * (b - a) + a - p = (real r - ?t) * ((b - a) / levels nb)"
    using assms(1) l by (simp add: field_simps)
  also have "\<bar>\<dots>\<bar> \<le> 1 * ((b - a) / levels nb)"
    unfolding abs_mult using r assms(1) l by (intro mult_mono) auto
  finally show "\<bar>real r / levels nb * (b - a) + a - p\<bar> \<le> (b - a) / levels nb" by simp
  have "real r \<le> levels nb + 1" using r t1 by linarith
  also have "\<dots> < 256 ^ nat nb" by (simp add: levels_def power_mult mult.commute [of "nat nb"])
  finally show "r < 256 ^ nat nb" by (metis of_nat_less_iff of_nat_numeral of_nat_power)
qed

lemma fix_quantize_ok:
  assumes "a < b" "0 < nb"
  shows "\<exists>rs s'. fix_quantize env (nat nb) (levels nb) a b s (map Some xs) = Ok (concat (map (nat_le (nat nb)) rs), s') \<and>
    list_all2 (\<lambda>x r. \<bar>real r / levels nb * (b - a) + a - clamp a b x\<bar> \<le> (b - a) / levels nb \<and> r < 256 ^ nat nb) xs rs"
proof (induction xs arbitrary: s)
  case (Cons x xs)
  obtain c s1 where c: "boolrand env s = (c, s1)" by (cases "boolrand env s")
  define r where "r = nat \<lfloor>(clamp a b x - a) / (b - a) * levels nb\<rfloor> + (if c then 1 else 0)"
  obtain rs s' where rs: "fix_quantize env (nat nb) (levels nb) a b s1 (map Some xs) = Ok (concat (map (nat_le (nat nb)) rs), s')"
      "list_all2 (\<lambda>x r. \<bar>real r / levels nb * (b - a) + a - clamp a b x\<bar> \<le> (b - a) / levels nb \<and> r < 256 ^ nat nb) xs rs"
    using Cons.IH by blast
  have "fix_quantize env (nat nb) (levels nb) a b s (map Some (x # xs)) = Ok (concat (map (nat_le (nat nb)) (r # rs)), s')"
    using rs(1) c by (simp add: Let_def r_def clamp_def)
  moreover have "\<bar>real r / levels nb * (b - a) + a - clamp a b x\<bar> \<le> (b - a) / levels nb \<and> r < 256 ^ nat nb"
    using quantize1 [OF assms _ _ r_def] clamp_bounds [of a b x] assms(1) by auto
  ultimately show ?case using rs(2) by (intro exI [of _ "r # rs"] exI [of _ s']) simp
qed simp

definition no_conf :: FixedFloatConfig where
  "no_conf = \<lparr>fx_min_value = None, fx_max_value = None\<rparr>"

lemma fix_round_trip:
  assumes "nb \<in> {1, 2, 3}" "sent_range env t v = Some (a, b)" "a < b" "t \<in> {FLOAT, DOUBLE}" "sizeof t \<le> length v"
  shows "\<exists>code conf s'. fix_convert env t True nb no_conf s v = Ok (code, conf, s') \<and> code \<noteq> [] \<and> length code \<le> length v \<and>
    (\<forall>s0. \<exists>v'. fix_convert env t False nb conf s0 code = Ok (v', conf, s0) \<and> fix_seen env nb t v v')"
proof -
  let ?xs = "fix_numbers env t v"
  obtain mn mx where r: "fix_range ?xs = (mn, mx)" by (cases "fix_range ?xs")
  then have ab: "fval env FLOAT (fbytes env FLOAT mn) = Some a" "fval env FLOAT (fbytes env FLOAT mx) = Some b"
    using assms(2) by (auto simp: sent_range_def split: option.splits)
  have nb: "0 < nb" "fix_ratio nb = Ok (levels nb)" using assms(1) by (auto simp: fix_ratio_def levels_def)
  let ?conf = "\<lparr>fx_min_value = Some a, fx_max_value = Some b\<rparr>"
  have conf: "fix_configure env no_conf (elements (sizeof t) (fval env t) v) = (map Some ?xs, ?conf)"
    using r ab by (simp add: fix_configure_def no_conf_def fix_numbers_def [symmetric] Let_def)
  obtain rs s' where q: "fix_quantize env (nat nb) (levels nb) a b s (map Some ?xs) = Ok (concat (map (nat_le (nat nb)) rs), s')"
      "list_all2 (\<lambda>x r. \<bar>real r / levels nb * (b - a) + a - clamp a b x\<bar> \<le> (b - a) / levels nb \<and> r < 256 ^ nat nb) ?xs rs"
    using fix_quantize_ok [OF assms(3) nb(1)] by blast
  let ?code = "concat (map (nat_le (nat nb)) rs)" and ?y = "\<lambda>r. real r / levels nb * (b - a) + a"
  have enc: "fix_convert env t True nb no_conf s v = Ok (?code, ?conf, s')"
    using nb q(1) conf assms(3) by (simp add: fix_convert_def)
  have rs: "r < 256 ^ nat nb" if "r \<in> set rs" for r
    using q(2) that by (auto simp: list_all2_conv_all_nth in_set_conv_nth)
  have "elements (nat nb) (fix_value (nat nb) (levels nb) a b) ?code = map ?y rs"
    using elements_concat [of rs "nat_le (nat nb)" "nat nb" "fix_value (nat nb) (levels nb) a b"] nb(1) rs
    by (simp add: fix_value_def le_nat_nat_le cong: map_cong)
  then have dec: "fix_convert env t False nb ?conf s0 ?code = Ok (concat (map (fbytes env t) (map ?y rs)), ?conf, s0)" for s0
    using nb assms(3) by (simp add: fix_convert_def comp_def)
  have seen: "fix_seen env nb t v (concat (map (fbytes env t) (map ?y rs)))"
    unfolding fix_seen_def using assms(2) q(2)
    by (intro exI [of _ a] exI [of _ b] exI [of _ "map ?y rs"]) (auto simp: list_all2_conv_all_nth)
  have "length rs = length v div sizeof t" using list_all2_lengthD [OF q(2)] by (simp add: fix_numbers_def)
  moreover have "nat nb \<le> sizeof t" using assms(1,4) by auto
  ultimately have "?code \<noteq> []" "length ?code \<le> length v" using nb(1) assms(5) by (intro code_length; simp)+
  with enc dec seen show ?thesis by blast
qed

end
