(* ===== verification/FilterChain.thy ===== *)
theory FilterChain
  imports FilterValues
begin

text \<open>
  What a filter promises (locale \<open>message_filter\<close>), shown for key caching, compression, differences of keys, fixed-point
  and truncated values; and what a connection between two nodes promises (locale \<open>link\<close>), shown for messages that
  pass through any chain of these filters (\<open>ps-lite/src/system/remote_node.cc\<close>).
\<close>

section \<open>Connections\<close>

fun run_all :: "('s \<Rightarrow> 'm \<Rightarrow> ('m \<times> 's) res) \<Rightarrow> 's \<Rightarrow> 'm list \<Rightarrow> ('m list \<times> 's) res" where
  "run_all f s [] = Ok ([], s)"
| "run_all f s (m # ms) = rbind (f s m) (\<lambda>(m1, s1). rmap (\<lambda>(ms1, s2). (m1 # ms1, s2)) (run_all f s1 ms))"

text \<open>
  \<open>agree\<close> relates the states of the two ends. The sender does not see the state of the receiver, so any number of
  messages may be on their way; the network delivers them in order.
\<close>

locale link =
  fixes send :: "'s \<Rightarrow> 'm \<Rightarrow> ('m \<times> 's) res"
    and recv :: "'r \<Rightarrow> 'm \<Rightarrow> ('m \<times> 'r) res"
    and agree :: "'s \<Rightarrow> 'r \<Rightarrow> bool"
    and fit :: "'m \<Rightarrow> bool"
    and same :: "'m \<Rightarrow> 'm \<Rightarrow> bool"
  assumes crosses: "agree s r \<Longrightarrow> fit m \<Longrightarrow>
    \<exists>m1 s1 m2 r1. send s m = Ok (m1, s1) \<and> recv r m1 = Ok (m2, r1) \<and> agree s1 r1 \<and> same m m2"
begin

lemma in_flight:
  assumes "agree s r" "\<forall>m \<in> set ms. fit m"
  shows "\<exists>ws s1 ms' r1. run_all send s ms = Ok (ws, s1) \<and> run_all recv r ws = Ok (ms', r1) \<and> agree s1 r1 \<and> list_all2 same ms ms'"
  using assms
proof (induction ms arbitrary: s r)
  case (Cons m ms)
  obtain m1 s1 m2 r1 where m: "send s m = Ok (m1, s1)" "recv r m1 = Ok (m2, r1)" "agree s1 r1" "same m m2"
    using crosses [of s r m] Cons.prems by auto
  obtain ws s2 ms' r2 where "run_all send s1 ms = Ok (ws, s2)" "run_all recv r1 ws = Ok (ms', r2)" "agree s2 r2" "list_all2 same ms ms'"
    using Cons.IH [OF m(3)] Cons.prems by auto
  with m have "run_all send s (m # ms) = Ok (m1 # ws, s2)" "run_all recv r (m1 # ws) = Ok (m2 # ms', r2)" "list_all2 same (m # ms) (m2 # ms')"
    by simp_all
  with \<open>agree s2 r2\<close> show ?case by blast
qed simp

end

section \<open>The promise of a filter\<close>

definition frame :: "FilterType \<Rightarrow> WireMessage \<Rightarrow> WireMessage \<Rightarrow> bool" where
  "frame t m m' \<longleftrightarrow> w_request m' = w_request m \<and> w_push m' = w_push m \<and> w_value_type m' = w_value_type m \<and>
     map f_type (w_filter m') = map f_type (w_filter m) \<and> (\<forall>t'. t' \<noteq> t \<longrightarrow> Find t' m' = Find t' m)"

definition on_values :: "FilterType \<Rightarrow> bool" where
  "on_values t \<longleftrightarrow> t \<in> {COMPRESSING, FIXING_FLOAT, TRUNCATE_FLOAT, NOISE}"

text \<open>
  \<open>reaches t m1 m'\<close>: the message \<open>m'\<close> that is handed to the decoder of \<open>t\<close> has what its encoder made of it in \<open>m1\<close>. A filter on
  keys may meet other values; only the differences of keys look at the type of the keys.
\<close>

definition reaches :: "FilterType \<Rightarrow> WireMessage \<Rightarrow> WireMessage \<Rightarrow> bool" where
  "reaches t m1 m' \<longleftrightarrow> w_key m' = w_key m1 \<and> Find t m' = Find t m1 \<and> w_request m' = w_request m1 \<and> w_push m' = w_push m1 \<and>
     w_value_type m' = w_value_type m1 \<and> (t = DELTA_KEY \<longrightarrow> w_key_type m' = w_key_type m1) \<and> (on_values t \<longrightarrow> w_value m' = w_value m1)"

locale message_filter =
  fixes ty :: FilterType
    and enc dec :: "'s \<Rightarrow> WireMessage \<Rightarrow> (WireMessage \<times> 's) res"
    and agree :: "'s \<Rightarrow> 's \<Rightarrow> bool"
    and pre :: "WireMessage \<Rightarrow> bool"
    and seen :: "WireMessage \<Rightarrow> byte list list \<Rightarrow> bool"
  assumes encodes: "agree s r \<Longrightarrow> pre m \<Longrightarrow> Find ty m \<noteq> None \<Longrightarrow>
      \<exists>m1 s1. enc s m = Ok (m1, s1) \<and> frame ty m m1 \<and> w_key_type m1 = w_key_type m \<and>
        (w_key m1 = w_key m \<or> \<not> on_values ty \<and> (ty = KEY_CACHING \<longrightarrow> w_key m1 = [])) \<and> (on_values ty \<or> w_value m1 = w_value m) \<and>
        (ty = COMPRESSING \<or> list_all2 (\<lambda>v v1. length v1 \<le> length v) (w_value m) (w_value m1))"
    and decodes: "agree s r \<Longrightarrow> pre m \<Longrightarrow> Find ty m \<noteq> None \<Longrightarrow> enc s m = Ok (m1, s1) \<Longrightarrow> reaches ty m1 m' \<Longrightarrow>
      \<exists>m2 r1. dec r m' = Ok (m2, r1) \<and> agree s1 r1 \<and> frame ty m' m2 \<and> w_key m2 = w_key m \<and>
        (if on_values ty then seen m (w_value m2) else w_value m2 = w_value m') \<and>
        (ty \<noteq> KEY_CACHING \<longrightarrow> w_key_type m2 = w_key_type m')"

sublocale message_filter < single: link enc dec agree "\<lambda>m. pre m \<and> Find ty m \<noteq> None"
    "\<lambda>m m2. w_key m2 = w_key m \<and> (if on_values ty then seen m (w_value m2) else w_value m2 = w_value m)"
proof
  fix s r m assume a: "agree s r" "pre m \<and> Find ty m \<noteq> None"
  obtain m1 s1 where e: "enc s m = Ok (m1, s1)" "on_values ty \<or> w_value m1 = w_value m"
    using encodes [of s r m] a by blast
  have "reaches ty m1 m1" by (simp add: reaches_def)
  then show "\<exists>m1 s1 m2 r1. enc s m = Ok (m1, s1) \<and> dec r m1 = Ok (m2, r1) \<and> agree s1 r1 \<and> w_key m2 = w_key m \<and>
      (if on_values ty then seen m (w_value m2) else w_value m2 = w_value m)"
    using decodes [of s r m m1 s1 m1] a e by (metis (full_types))
qed

section \<open>Key caching\<close>

text \<open>
  No two key lists of \<open>K\<close> of the same length have the same signature: the filter compares lengths and signatures, never the
  keys themselves.
\<close>

definition no_collision :: "Env \<Rightarrow> byte list set \<Rightarrow> bool" where
  "no_collision env K \<longleftrightarrow> (\<forall>a \<in> K. \<forall>b \<in> K. length a = length b \<and> FastHash env a = FastHash env b \<longrightarrow> a = b)"

fun same_caches :: "Env \<Rightarrow> byte list set \<Rightarrow> FilterObj \<Rightarrow> FilterObj \<Rightarrow> bool" where
  "same_caches env K (KeyCachingFilter c) (KeyCachingFilter d) \<longleftrightarrow>
     d = c \<and> no_collision env K \<and> (\<forall>sig k. c sig = Some k \<longrightarrow> FastHash env k = sig \<and> k \<in> K)"
| "same_caches env K _ _ \<longleftrightarrow> False"

lemma same_caches_iff: "same_caches env K s r \<longleftrightarrow> (\<exists>c. s = KeyCachingFilter c \<and> r = KeyCachingFilter c \<and> no_collision env K \<and>
    (\<forall>sig k. c sig = Some k \<longrightarrow> FastHash env k = sig \<and> k \<in> K))"
  by (cases "(env, K, s, r)" rule: same_caches.cases) auto

lemma frame_refl [simp]: "frame t m m"
  by (simp add: frame_def)

interpretation caching: message_filter KEY_CACHING "Encode env" "Decode env" "same_caches env K" "\<lambda>m. w_key m \<in> K" "\<lambda>_ _. True" for env K
proof
  fix s r m
  assume a: "same_caches env K s r" "w_key m \<in> K" "Find KEY_CACHING m \<noteq> None"
  then obtain c conf where c: "s = KeyCachingFilter c" "Find KEY_CACHING m = Some conf" by (auto simp: same_caches_iff)
  have "frame KEY_CACHING m (upd_conf KEY_CACHING (f_signature_update g) m)" for g
    by (simp add: frame_def conf_upd)
  moreover have "frame KEY_CACHING m (clear_key (upd_conf KEY_CACHING (f_signature_update g) m))" for g
    by (simp add: frame_def conf_upd)
  ultimately show "\<exists>m1 s1. Encode env s m = Ok (m1, s1) \<and> frame KEY_CACHING m m1 \<and> w_key_type m1 = w_key_type m \<and>
        (w_key m1 = w_key m \<or> \<not> on_values KEY_CACHING \<and> (KEY_CACHING = KEY_CACHING \<longrightarrow> w_key m1 = [])) \<and>
        (on_values KEY_CACHING \<or> w_value m1 = w_value m) \<and> (KEY_CACHING = COMPRESSING \<or> list_all2 (\<lambda>v v1. length v1 \<le> length v) (w_value m) (w_value m1))"
    using c by (simp add: KeyCaching_Encode_def Let_def on_values_def list_all2_refl split: option.split)
next
  fix s r m m1 s1 m'
  assume a: "same_caches env K s r" "w_key m \<in> K" "Find KEY_CACHING m \<noteq> None" "Encode env s m = Ok (m1, s1)" "reaches KEY_CACHING m1 m'"
  then obtain c conf where c: "s = KeyCachingFilter c" "r = KeyCachingFilter c" "Find KEY_CACHING m = Some conf"
    and inj: "no_collision env K" and sig: "\<And>sig k. c sig = Some k \<Longrightarrow> FastHash env k = sig \<and> k \<in> K"
    by (auto simp: same_caches_iff)
  have hit: "k = w_key m" if "c (FastHash env (w_key m)) = Some k" "length k = length (w_key m)" for k
    using sig [OF that(1)] inj a(2) that(2) by (auto simp: no_collision_def)
  have fin: "IsDone m' = IsDone m1" and m': "w_key m' = w_key m1" "Find KEY_CACHING m' = Find KEY_CACHING m1"
    using a(5) by (auto simp: reaches_def IsDone_def)
  have long: "w_key m \<noteq> []" if "\<not> length (w_key m) < min_len" using that by (auto simp: min_len_def)
  show "\<exists>m2 r1. Decode env r m' = Ok (m2, r1) \<and> same_caches env K s1 r1 \<and> frame KEY_CACHING m' m2 \<and> w_key m2 = w_key m \<and>
        (if on_values KEY_CACHING then True else w_value m2 = w_value m') \<and> (KEY_CACHING \<noteq> KEY_CACHING \<longrightarrow> w_key_type m2 = w_key_type m')"
  proof (cases "length (w_key m) < min_len")
    case True
    then have "m1 = upd_conf KEY_CACHING (f_signature_update (\<lambda>_. None)) m" "s1 = s"
      using a(4) c by (auto simp: KeyCaching_Encode_def Let_def)
    then show ?thesis using a(1) c m' by (simp add: KeyCaching_Decode_def conf_upd on_values_def)
  next
    case False
    let ?sig = "FastHash env (w_key m)" and ?clear = "f_clear_cache conf \<and> IsDone m"
    have conf1: "Find KEY_CACHING m1 = Some (conf\<lparr>f_signature := Some ?sig\<rparr>)" "IsDone m1 = IsDone m"
      using a(4) c False by (auto simp: KeyCaching_Encode_def Let_def conf_upd IsDone_def split: option.splits if_splits)
    show ?thesis
    proof (cases "\<exists>k. c ?sig = Some k \<and> length k = length (w_key m)")
      case True
      then have k: "c ?sig = Some (w_key m)" using hit by auto
      then have "w_key m1 = []" "s1 = KeyCachingFilter (if ?clear then c(?sig := None) else c)"
        using a(4) c False by (auto simp: KeyCaching_Encode_def Let_def)
      moreover have "same_caches env K (KeyCachingFilter (if ?clear then c(?sig := None) else c)) (KeyCachingFilter (if ?clear then c(?sig := None) else c))"
        using inj sig by (auto split: if_splits)
      moreover have "frame KEY_CACHING m' (set_key CHAR_T (w_key m) m')" by (simp add: frame_def)
      ultimately show ?thesis using c m' conf1 fin k
        by (cases ?clear) (auto simp: KeyCaching_Decode_def on_values_def Let_def simp del: same_caches.simps)
    next
      case nohit: False
      then have "w_key m1 = w_key m" "s1 = KeyCachingFilter (if ?clear then c else c(?sig \<mapsto> w_key m))"
        using a(4) c False by (auto simp: KeyCaching_Encode_def Let_def split: option.splits if_splits)
      moreover have "same_caches env K (KeyCachingFilter (if ?clear then c else c(?sig \<mapsto> w_key m))) (KeyCachingFilter (if ?clear then c else c(?sig \<mapsto> w_key m)))"
        using inj sig a(2) by (auto split: if_splits)
      ultimately show ?thesis using c m' conf1 fin long [OF False]
        by (cases ?clear) (auto simp: KeyCaching_Decode_def on_values_def Let_def simp del: same_caches.simps)
    qed
  qed
qed

section \<open>Differences of keys\<close>

definition whole_keys :: "WireMessage \<Rightarrow> bool" where
  "whole_keys m \<longleftrightarrow> (w_key_type m = Some UINT32 \<longrightarrow> 4 dvd length (w_key m)) \<and> (w_key_type m = Some UINT64 \<longrightarrow> 8 dvd length (w_key m))"

lemmas delta32 = DeltaKey_keys_round_trip [of 4 _ enc32 dec32, simplified, OF _ enc32_dec32]
lemmas delta64 = DeltaKey_keys_round_trip [of 8 _ enc64 dec64, simplified, OF _ enc64_dec64]

interpretation delta: message_filter DELTA_KEY "Encode env" "Decode env" "\<lambda>s r. s = DeltaKeyFilter \<and> r = DeltaKeyFilter" whole_keys "\<lambda>_ _. True" for env
proof
  fix s r m
  assume "s = DeltaKeyFilter \<and> r = DeltaKeyFilter" "whole_keys m" "Find DELTA_KEY m \<noteq> None"
  then show "\<exists>m1 s1. Encode env s m = Ok (m1, s1) \<and> frame DELTA_KEY m m1 \<and> w_key_type m1 = w_key_type m \<and>
        (w_key m1 = w_key m \<or> \<not> on_values DELTA_KEY \<and> (DELTA_KEY = KEY_CACHING \<longrightarrow> w_key m1 = [])) \<and> (on_values DELTA_KEY \<or> w_value m1 = w_value m) \<and> (DELTA_KEY = COMPRESSING \<or> list_all2 (\<lambda>v v1. length v1 \<le> length v) (w_value m) (w_value m1))"
    by (simp add: DeltaKey_Encode_def frame_def on_values_def list_all2_refl)
next
  fix s r m m1 s1 m'
  assume a: "s = DeltaKeyFilter \<and> r = DeltaKeyFilter" "whole_keys m" "Find DELTA_KEY m \<noteq> None" "Encode env s m = Ok (m1, s1)" "reaches DELTA_KEY m1 m'"
  then have m': "w_key m' = w_key m1" "w_key_type m' = w_key_type m1" "Find DELTA_KEY m' = Find DELTA_KEY m1" "s1 = DeltaKeyFilter"
    by (auto simp: reaches_def DeltaKey_Encode_def)
  show "\<exists>m2 r1. Decode env r m' = Ok (m2, r1) \<and> (s1 = DeltaKeyFilter \<and> r1 = DeltaKeyFilter) \<and> frame DELTA_KEY m' m2 \<and> w_key m2 = w_key m \<and>
        (if on_values DELTA_KEY then True else w_value m2 = w_value m') \<and> (DELTA_KEY \<noteq> KEY_CACHING \<longrightarrow> w_key_type m2 = w_key_type m')"
    using a m' by (auto simp: DeltaKey_Encode_def DeltaKey_Decode_def frame_def on_values_def whole_keys_def delta32 delta64 split: if_splits)
qed

section \<open>Compression\<close>

definition compressible :: "Env \<Rightarrow> WireMessage \<Rightarrow> bool" where
  "compressible env m \<longleftrightarrow> lz4_law (lz_compress env) (lz_decompress env) \<and> (\<forall>v \<in> set (w_value m). length v \<le> 0x7E000000)"

interpretation compressing: message_filter COMPRESSING "Encode env" "Decode env" "\<lambda>s r. s = CompressingFilter \<and> r = CompressingFilter"
    "compressible env" "\<lambda>m vs. vs = w_value m" for env
proof
  fix s r m
  assume "s = CompressingFilter \<and> r = CompressingFilter" "compressible env m" "Find COMPRESSING m \<noteq> None"
  then show "\<exists>m1 s1. Encode env s m = Ok (m1, s1) \<and> frame COMPRESSING m m1 \<and> w_key_type m1 = w_key_type m \<and>
        (w_key m1 = w_key m \<or> \<not> on_values COMPRESSING \<and> (COMPRESSING = KEY_CACHING \<longrightarrow> w_key m1 = [])) \<and> (on_values COMPRESSING \<or> w_value m1 = w_value m) \<and> (COMPRESSING = COMPRESSING \<or> list_all2 (\<lambda>v v1. length v1 \<le> length v) (w_value m) (w_value m1))"
    by (auto simp: Compressing_Encode_def frame_def on_values_def compressible_def lz4_law_def Compress_def Let_def conf_upd
        mapM_res_Ok [where g = "lz_compress env"])
next
  fix s r m m1 s1 m'
  assume a: "s = CompressingFilter \<and> r = CompressingFilter" "compressible env m" "Find COMPRESSING m \<noteq> None" "Encode env s m = Ok (m1, s1)" "reaches COMPRESSING m1 m'"
  have ok: "Compress env v = Ok (lz_compress env v)" "Decompress env (lz_compress env v) (length v) = Ok v" if "v \<in> set (w_value m)" for v
    using a(2) that by (auto simp: compressible_def lz4_law_def Compress_def Decompress_def)
  obtain conf where c: "Find COMPRESSING m = Some conf" using a(3) by auto
  have m1: "m1 = (upd_conf COMPRESSING (f_uncompressed_size_update (\<lambda>_. map length (w_value m))) m)\<lparr>w_value := map (lz_compress env) (w_value m)\<rparr>"
      "s1 = CompressingFilter"
    using a(1,4) c ok(1) by (auto simp: Compressing_Encode_def mapM_res_Ok [where g = "lz_compress env"])
  have m': "w_value m' = map (lz_compress env) (w_value m)" "w_key m' = w_key m"
      "Find COMPRESSING m' = Some (conf\<lparr>f_uncompressed_size := map length (w_value m)\<rparr>)"
    using a(5) m1 c by (auto simp: reaches_def on_values_def conf_upd)
  have "mapM_res (\<lambda>(v, n). Decompress env v n) (zip (map (lz_compress env) (w_value m)) (map length (w_value m))) = Ok (w_value m)"
    using ok(2) by (simp add: zip_map_map zip_same_conv_map mapM_res_map mapM_res_Ok [where g = "\<lambda>v. v"])
  then show "\<exists>m2 r1. Decode env r m' = Ok (m2, r1) \<and> (s1 = CompressingFilter \<and> r1 = CompressingFilter) \<and> frame COMPRESSING m' m2 \<and> w_key m2 = w_key m \<and>
        (if on_values COMPRESSING then w_value m2 = w_value m else w_value m2 = w_value m') \<and> (COMPRESSING \<noteq> KEY_CACHING \<longrightarrow> w_key_type m2 = w_key_type m')"
    using a(1) m1(2) m' by (simp add: Compressing_Decode_def frame_def on_values_def)
qed

section \<open>Truncated values\<close>

text \<open>The arrays a filter of numbers converts.\<close>

definition numeric :: "byte list \<times> DataType \<Rightarrow> bool" where
  "numeric vt \<longleftrightarrow> fst vt \<noteq> [] \<and> snd vt \<in> {FLOAT, DOUBLE}"

definition arrays :: "WireMessage \<Rightarrow> (byte list \<times> DataType) list" where
  "arrays m = zip (w_value m) (w_value_type m)"

definition num_bytes :: "FilterType \<Rightarrow> WireMessage \<Rightarrow> int" where
  "num_bytes t m = (case Find t m of None \<Rightarrow> 0 | Some c \<Rightarrow> f_num_bytes c)"

definition truncatable :: "Env \<Rightarrow> WireMessage \<Rightarrow> bool" where
  "truncatable env m \<longleftrightarrow> float_law env \<and> num_bytes TRUNCATE_FLOAT m \<in> {1, 2, - 1, - 2} \<and> length (w_value m) = length (w_value_type m) \<and>
     (\<forall>(v, t) \<in> set (arrays m). numeric (v, t) \<longrightarrow> sizeof t \<le> length v \<and> None \<notin> set (elements (sizeof t) (fval env t) v))"

definition truncated :: "Env \<Rightarrow> WireMessage \<Rightarrow> byte list list \<Rightarrow> bool" where
  "truncated env m vs \<longleftrightarrow> vs = map (\<lambda>(v, t). if numeric (v, t) then trunc_seen env (num_bytes TRUNCATE_FLOAT m) t v else v) (arrays m)"

lemma truncatable_array:
  assumes "truncatable env m" "(v, t) \<in> set (arrays m)" "numeric (v, t)"
  shows "\<exists>code. trunc_convert env t True (num_bytes TRUNCATE_FLOAT m) v = Ok code \<and> code \<noteq> [] \<and> length code \<le> length v \<and>
    trunc_convert env t False (num_bytes TRUNCATE_FLOAT m) code = Ok (trunc_seen env (num_bytes TRUNCATE_FLOAT m) t v)"
proof -
  have v: "sizeof t \<le> length v" "None \<notin> set (elements (sizeof t) (fval env t) v)" "float_law env" "t \<in> {FLOAT, DOUBLE}"
      "num_bytes TRUNCATE_FLOAT m \<in> {1, 2, - 1, - 2}"
    using assms by (auto simp: truncatable_def numeric_def)
  then have "\<forall>x \<in> set (elements (sizeof t) (fval env t) v). x \<noteq> None" by metis
  from trunc_round_trip [OF v(3,4,5) this v(1)] show ?thesis .
qed

interpretation truncating: message_filter TRUNCATE_FLOAT "Encode env" "Decode env" "\<lambda>s r. s = TruncateFloatFilter \<and> r = TruncateFloatFilter"
    "truncatable env" "truncated env" for env
proof -
  let ?code = "\<lambda>nb (v, t). if numeric (v, t) then (case trunc_convert env t True nb v of Ok c \<Rightarrow> c | Err _ \<Rightarrow> v) else v"
  have enc: "TruncateFloat_Convert env True m = Ok (m\<lparr>w_value := map (?code (f_num_bytes conf)) (arrays m)\<rparr>)"
    if m: "truncatable env m" "Find TRUNCATE_FLOAT m = Some conf" for m conf
  proof -
    have "(case x of (v, t) \<Rightarrow> if v \<noteq> [] \<and> (t = FLOAT \<or> t = DOUBLE) then trunc_convert env t True (f_num_bytes conf) v else Ok v) =
        Ok (?code (f_num_bytes conf) x)" if x: "x \<in> set (arrays m)" for x
    proof (cases x)
      case (Pair v t)
      then show ?thesis
        using m(2) x truncatable_array [OF m(1), of v t] by (auto simp: numeric_def num_bytes_def)
    qed
    then have "mapM_res (\<lambda>(v, t). if v \<noteq> [] \<and> (t = FLOAT \<or> t = DOUBLE) then trunc_convert env t True (f_num_bytes conf) v else Ok v) (arrays m) =
        Ok (map (?code (f_num_bytes conf)) (arrays m))"
      by (rule mapM_res_Ok)
    moreover have "f_num_bytes conf \<noteq> 0" "num_bytes TRUNCATE_FLOAT m = f_num_bytes conf" "length (w_value m) = length (w_value_type m)"
      using m by (auto simp: truncatable_def num_bytes_def)
    ultimately show ?thesis using m(2) by (simp add: TruncateFloat_Convert_def arrays_def)
  qed
  have short: "list_all2 (\<lambda>v v1. length v1 \<le> length v) (w_value m) (map (?code (f_num_bytes conf)) (arrays m))"
    if m: "truncatable env m" "Find TRUNCATE_FLOAT m = Some conf" for m conf
  proof -
    have len: "length (w_value m) = length (w_value_type m)" using m(1) by (simp add: truncatable_def)
    have "length (?code (f_num_bytes conf) (w_value m ! i, w_value_type m ! i)) \<le> length (w_value m ! i)" if i: "i < length (w_value m)" for i
    proof -
      have "(w_value m ! i, w_value_type m ! i) \<in> set (arrays m)" using i len by (auto simp: arrays_def in_set_zip)
      from truncatable_array [OF m(1) this] m(2) show ?thesis by (auto simp: num_bytes_def)
    qed
    then show ?thesis using len by (auto simp: list_all2_conv_all_nth arrays_def)
  qed
  show "message_filter TRUNCATE_FLOAT (Encode env) (Decode env) (\<lambda>s r. s = TruncateFloatFilter \<and> r = TruncateFloatFilter) (truncatable env) (truncated env)"
  proof
    fix s r m
    assume "s = TruncateFloatFilter \<and> r = TruncateFloatFilter" "truncatable env m" "Find TRUNCATE_FLOAT m \<noteq> None"
    then show "\<exists>m1 s1. Encode env s m = Ok (m1, s1) \<and> frame TRUNCATE_FLOAT m m1 \<and> w_key_type m1 = w_key_type m \<and>
        (w_key m1 = w_key m \<or> \<not> on_values TRUNCATE_FLOAT \<and> (TRUNCATE_FLOAT = KEY_CACHING \<longrightarrow> w_key m1 = [])) \<and>
        (on_values TRUNCATE_FLOAT \<or> w_value m1 = w_value m) \<and> (TRUNCATE_FLOAT = COMPRESSING \<or> list_all2 (\<lambda>v v1. length v1 \<le> length v) (w_value m) (w_value m1))"
      using enc [of m] short [of m] by (auto simp: frame_def on_values_def)
  next
    fix s r m m1 s1 m'
    assume a: "s = TruncateFloatFilter \<and> r = TruncateFloatFilter" "truncatable env m" "Find TRUNCATE_FLOAT m \<noteq> None"
      "Encode env s m = Ok (m1, s1)" "reaches TRUNCATE_FLOAT m1 m'"
    obtain conf where c: "Find TRUNCATE_FLOAT m = Some conf" using a(3) by auto
    let ?nb = "f_num_bytes conf" and ?seen = "\<lambda>(v, t). if numeric (v, t) then trunc_seen env (f_num_bytes conf) t v else v"
    have nb: "?nb \<noteq> 0" "num_bytes TRUNCATE_FLOAT m = ?nb" using a(2) c by (auto simp: truncatable_def num_bytes_def)
    have m1: "m1 = m\<lparr>w_value := map (?code ?nb) (arrays m)\<rparr>" "s1 = TruncateFloatFilter"
      using a enc [OF a(2) c] nb by auto
    have m': "w_value m' = map (?code ?nb) (arrays m)" "w_value_type m' = w_value_type m" "Find TRUNCATE_FLOAT m' = Some conf" "w_key m' = w_key m"
      using a(5) m1 c by (auto simp: reaches_def on_values_def)
    let ?conv = "\<lambda>(v, t). if v \<noteq> [] \<and> (t = FLOAT \<or> t = DOUBLE) then trunc_convert env t False ?nb v else Ok v"
    have "?conv (?code ?nb x, snd x) = Ok (?seen x)" if x: "x \<in> set (arrays m)" for x
    proof (cases x)
      case (Pair v t)
      then show ?thesis
        using nb x truncatable_array [OF a(2), of v t] by (auto simp: numeric_def)
    qed
    then have "mapM_res (\<lambda>x. ?conv (?code ?nb x, snd x)) (arrays m) = Ok (map ?seen (arrays m))"
      by (rule mapM_res_Ok)
    then have "mapM_res ?conv (zip (w_value m') (w_value_type m')) = Ok (map ?seen (arrays m))"
      using mapM_res_zip [of ?conv "?code ?nb" "w_value m" "w_value_type m"] unfolding m'(1,2) arrays_def by (rule trans [rotated])
    moreover have "length (w_value m') = length (w_value_type m')" using m' a(2) by (simp add: arrays_def truncatable_def)
    ultimately show "\<exists>m2 r1. Decode env r m' = Ok (m2, r1) \<and> (s1 = TruncateFloatFilter \<and> r1 = TruncateFloatFilter) \<and> frame TRUNCATE_FLOAT m' m2 \<and>
        w_key m2 = w_key m \<and> (if on_values TRUNCATE_FLOAT then truncated env m (w_value m2) else w_value m2 = w_value m') \<and>
        (TRUNCATE_FLOAT \<noteq> KEY_CACHING \<longrightarrow> w_key_type m2 = w_key_type m')"
      using a(1) m1(2) m' nb(1) unfolding truncated_def nb(2) by (simp add: TruncateFloat_Convert_def frame_def on_values_def)
  qed
qed

section \<open>Fixed-point values\<close>

definition fix_ok :: "Env \<Rightarrow> byte list \<times> DataType \<Rightarrow> bool" where
  "fix_ok env vt \<longleftrightarrow> (numeric vt \<longrightarrow> sizeof (snd vt) \<le> length (fst vt) \<and> (\<exists>a b. sent_range env (snd vt) (fst vt) = Some (a, b) \<and> a < b))"

definition fix_result :: "Env \<Rightarrow> int \<Rightarrow> byte list \<times> DataType \<Rightarrow> byte list \<Rightarrow> bool" where
  "fix_result env nb vt v' \<longleftrightarrow> (if numeric vt then fix_seen env nb (snd vt) (fst vt) v' else v' = fst vt)"

text \<open>
  The loops of the two sides count the arrays in the same way: the ranges \<open>done\<close> of the arrays before are kept, and at most
  one range that is not set yet follows them.
\<close>

lemma fix_arrays_round_trip:
  assumes "nb \<in> {1, 2, 3}" "\<forall>vt \<in> set vts. fix_ok env vt" "length prev = k" "rest = [] \<or> rest = [no_conf]"
  shows "\<exists>codes ext s1. fix_arrays env True nb k (prev @ rest) s vts = Ok (codes, prev @ ext, s1) \<and> (rest \<noteq> [] \<longrightarrow> ext \<noteq> []) \<and>
    list_all2 (\<lambda>vt c. length c \<le> length (fst vt)) vts codes \<and>
    (\<forall>s0. \<exists>vs. fix_arrays env False nb k (prev @ ext) s0 (zip codes (map snd vts)) = Ok (vs, prev @ ext, s0) \<and> list_all2 (fix_result env nb) vts vs)"
  using assms(2-4)
proof (induction vts arbitrary: prev rest k s)
  case Nil
  then show ?case by simp
next
  case (Cons vt vts)
  obtain v t where vt: "vt = (v, t)" by (cases vt)
  have IH: "\<exists>codes ext s1. fix_arrays env True nb k (prev @ rest) s vts = Ok (codes, prev @ ext, s1) \<and> (rest \<noteq> [] \<longrightarrow> ext \<noteq> []) \<and>
    list_all2 (\<lambda>vt c. length c \<le> length (fst vt)) vts codes \<and>
    (\<forall>s0. \<exists>vs. fix_arrays env False nb k (prev @ ext) s0 (zip codes (map snd vts)) = Ok (vs, prev @ ext, s0) \<and> list_all2 (fix_result env nb) vts vs)"
    if "length prev = k" "rest = [] \<or> rest = [no_conf]" for prev rest k s
    using Cons.IH Cons.prems(1) that by simp
  consider "v = []" | "v \<noteq> []" "\<not> numeric vt" | "numeric vt" by (auto simp: numeric_def vt)
  then show ?case
  proof cases
    case 1
    obtain codes ext s1 where e: "fix_arrays env True nb k (prev @ rest) s vts = Ok (codes, prev @ ext, s1)" "rest \<noteq> [] \<longrightarrow> ext \<noteq> []"
        "list_all2 (\<lambda>vt c. length c \<le> length (fst vt)) vts codes" "\<forall>s0. \<exists>vs. fix_arrays env False nb k (prev @ ext) s0 (zip codes (map snd vts)) = Ok (vs, prev @ ext, s0) \<and>
           list_all2 (fix_result env nb) vts vs"
      using IH [OF Cons.prems(2,3)] by blast
    have "\<exists>vs. fix_arrays env False nb k (prev @ ext) s0 (zip ([] # codes) (map snd (vt # vts))) = Ok (vs, prev @ ext, s0) \<and>
        list_all2 (fix_result env nb) (vt # vts) vs" for s0
      using e(4) [rule_format, of s0] 1 vt by (force simp: fix_result_def numeric_def)
    then show ?thesis using e 1 vt by (intro exI [of _ "[] # codes"] exI [of _ ext] exI [of _ s1]) simp
  next
    case 2
    then have t: "\<not> (t = FLOAT \<or> t = DOUBLE)" by (auto simp: numeric_def vt)
    obtain codes ext s1 where e: "fix_arrays env True nb k (prev @ [no_conf]) s vts = Ok (codes, prev @ ext, s1)" "ext \<noteq> []"
        "list_all2 (\<lambda>vt c. length c \<le> length (fst vt)) vts codes" "\<forall>s0. \<exists>vs. fix_arrays env False nb k (prev @ ext) s0 (zip codes (map snd vts)) = Ok (vs, prev @ ext, s0) \<and>
           list_all2 (fix_result env nb) vts vs"
      using IH [OF Cons.prems(2), of "[no_conf]" s] by auto
    have enc: "fix_arrays env True nb k (prev @ rest) s (vt # vts) = Ok (v # codes, prev @ ext, s1)"
      using Cons.prems(3) 2 t e(1) Cons.prems(2) unfolding vt by (elim disjE) (simp_all add: no_conf_def [symmetric])
    have "\<exists>vs. fix_arrays env False nb k (prev @ ext) s0 (zip (v # codes) (map snd (vt # vts))) = Ok (vs, prev @ ext, s0) \<and>
        list_all2 (fix_result env nb) (vt # vts) vs" for s0
    proof -
      obtain vs where vs: "fix_arrays env False nb k (prev @ ext) s0 (zip codes (map snd vts)) = Ok (vs, prev @ ext, s0)"
          "list_all2 (fix_result env nb) vts vs" using e(4) by blast
      have "fix_arrays env False nb k (prev @ ext) s0 (zip (v # codes) (map snd (vt # vts))) = Ok (v # vs, prev @ ext, s0)"
        using 2(1) t e(2) vs(1) Cons.prems(2) by (simp add: vt)
      moreover have "fix_result env nb vt v" using 2(2) by (simp add: fix_result_def vt)
      ultimately show ?thesis using vs(2) by auto
    qed
    then show ?thesis using enc e(2,3) vt by (intro exI [of _ "v # codes"] exI [of _ ext] exI [of _ s1]) simp
  next
    case 3
    then have t: "v \<noteq> []" "t = FLOAT \<or> t = DOUBLE" by (auto simp: numeric_def vt)
    obtain a b where ab: "sizeof t \<le> length v" "sent_range env t v = Some (a, b)" "a < b"
      using Cons.prems(1) 3 by (auto simp: vt fix_ok_def)
    obtain code conf s' where c: "fix_convert env t True nb no_conf s v = Ok (code, conf, s')" "code \<noteq> []" "length code \<le> length v"
        "\<forall>s0. \<exists>v'. fix_convert env t False nb conf s0 code = Ok (v', conf, s0) \<and> fix_seen env nb t v v'"
      using fix_round_trip [OF assms(1) ab(2,3) _ ab(1)] t(2) by blast
    obtain codes ext s1 where e: "fix_arrays env True nb (Suc k) (prev @ [conf]) s' vts = Ok (codes, prev @ conf # ext, s1)"
        "list_all2 (\<lambda>vt c. length c \<le> length (fst vt)) vts codes" "\<forall>s0. \<exists>vs. fix_arrays env False nb (Suc k) (prev @ conf # ext) s0 (zip codes (map snd vts)) = Ok (vs, prev @ conf # ext, s0) \<and>
           list_all2 (fix_result env nb) vts vs"
      using IH [of "prev @ [conf]" "Suc k" "[]" s'] Cons.prems(2) by auto
    have enc: "fix_arrays env True nb k (prev @ rest) s (vt # vts) = Ok (code # codes, prev @ conf # ext, s1)"
      using Cons.prems(3) t c(1) e(1) Cons.prems(2) unfolding vt by (elim disjE) (simp_all add: no_conf_def [symmetric] nth_append list_update_append)
    have "\<exists>vs. fix_arrays env False nb k (prev @ conf # ext) s0 (zip (code # codes) (map snd (vt # vts))) = Ok (vs, prev @ conf # ext, s0) \<and>
        list_all2 (fix_result env nb) (vt # vts) vs" for s0
    proof -
      obtain v' where v': "fix_convert env t False nb conf s0 code = Ok (v', conf, s0)" "fix_seen env nb t v v'" using c(4) by blast
      obtain vs where vs: "fix_arrays env False nb (Suc k) (prev @ conf # ext) s0 (zip codes (map snd vts)) = Ok (vs, prev @ conf # ext, s0)"
          "list_all2 (fix_result env nb) vts vs" using e(3) by blast
      have "fix_arrays env False nb k (prev @ conf # ext) s0 (zip (code # codes) (map snd (vt # vts))) = Ok (v' # vs, prev @ conf # ext, s0)"
        using c(2) t(2) v'(1) vs(1) Cons.prems(2) by (auto simp: vt Let_def nth_append list_update_append)
      moreover have "fix_result env nb vt v'" using v'(2) 3 by (simp add: fix_result_def vt)
      ultimately show ?thesis using vs(2) by auto
    qed
    then show ?thesis using enc e(2) c(3) vt by (intro exI [of _ "code # codes"] exI [of _ "conf # ext"] exI [of _ s1]) simp
  qed
qed

definition fixable :: "Env \<Rightarrow> WireMessage \<Rightarrow> bool" where
  "fixable env m \<longleftrightarrow> num_bytes FIXING_FLOAT m \<in> {1, 2, 3} \<and> map_option f_fixed_point (Find FIXING_FLOAT m) = Some [] \<and>
     length (w_value m) = length (w_value_type m) \<and> (\<forall>vt \<in> set (arrays m). fix_ok env vt)"

definition quantized :: "Env \<Rightarrow> WireMessage \<Rightarrow> byte list list \<Rightarrow> bool" where
  "quantized env m vs \<longleftrightarrow> list_all2 (fix_result env (num_bytes FIXING_FLOAT m)) (arrays m) vs"

fun is_fixing :: "FilterObj \<Rightarrow> bool" where
  "is_fixing (FixingFloatFilter s) \<longleftrightarrow> True"
| "is_fixing _ \<longleftrightarrow> False"

lemma is_fixing_iff: "is_fixing f \<longleftrightarrow> (\<exists>s. f = FixingFloatFilter s)"
  by (cases f) auto

lemma FixingFloat_round_trip:
  assumes "fixable env m" "Find FIXING_FLOAT m = Some conf"
  shows "\<exists>codes confs s1. FixingFloat_convert env True s m =
      Ok ((upd_conf FIXING_FLOAT (f_fixed_point_update (\<lambda>_. confs)) m)\<lparr>w_value := codes\<rparr>, s1) \<and>
    list_all2 (\<lambda>v v1. length v1 \<le> length v) (w_value m) codes \<and>
    (\<forall>s0 m'. w_value m' = codes \<and> w_value_type m' = w_value_type m \<and> Find FIXING_FLOAT m' = Some (conf\<lparr>f_fixed_point := confs\<rparr>) \<longrightarrow>
      (\<exists>vs. FixingFloat_convert env False s0 m' = Ok ((upd_conf FIXING_FLOAT (f_fixed_point_update (\<lambda>_. confs)) m')\<lparr>w_value := vs\<rparr>, s0) \<and>
        quantized env m vs))"
proof -
  have nb: "num_bytes FIXING_FLOAT m = f_num_bytes conf" "f_num_bytes conf \<in> {1, 2, 3}" "f_fixed_point conf = []"
      "length (w_value m) = length (w_value_type m)" "\<forall>vt \<in> set (arrays m). fix_ok env vt"
    using assms by (auto simp: fixable_def num_bytes_def)
  obtain codes confs s1 where e: "fix_arrays env True (f_num_bytes conf) 0 [] s (arrays m) = Ok (codes, confs, s1)"
      "list_all2 (\<lambda>vt c. length c \<le> length (fst vt)) (arrays m) codes"
      "\<forall>s0. \<exists>vs. fix_arrays env False (f_num_bytes conf) 0 confs s0 (zip codes (map snd (arrays m))) = Ok (vs, confs, s0) \<and>
        list_all2 (fix_result env (f_num_bytes conf)) (arrays m) vs"
    using fix_arrays_round_trip [OF nb(2,5), of "[]" 0 "[]" s] by auto
  have snd: "map snd (arrays m) = w_value_type m" "length codes = length (w_value_type m)"
    using list_all2_lengthD [OF e(2)] nb(4) by (simp_all add: arrays_def)
  have "list_all2 (\<lambda>v v1. length v1 \<le> length v) (w_value m) codes"
    using e(2) nb(4) by (auto simp: list_all2_conv_all_nth arrays_def)
  have "FixingFloat_convert env True s m = Ok ((upd_conf FIXING_FLOAT (f_fixed_point_update (\<lambda>_. confs)) m)\<lparr>w_value := codes\<rparr>, s1)"
    using e(1) nb assms(2) by (auto simp: FixingFloat_convert_def arrays_def)
  moreover note \<open>list_all2 _ (w_value m) codes\<close>
  moreover have "\<exists>vs. FixingFloat_convert env False s0 m' = Ok ((upd_conf FIXING_FLOAT (f_fixed_point_update (\<lambda>_. confs)) m')\<lparr>w_value := vs\<rparr>, s0) \<and> quantized env m vs"
    if m': "w_value m' = codes \<and> w_value_type m' = w_value_type m \<and> Find FIXING_FLOAT m' = Some (conf\<lparr>f_fixed_point := confs\<rparr>)" for s0 m'
    using e(3) [rule_format, of s0] nb m' snd by (auto simp: FixingFloat_convert_def quantized_def)
  ultimately show ?thesis by blast
qed

interpretation fixing: message_filter FIXING_FLOAT "Encode env" "Decode env" "\<lambda>s r. is_fixing s \<and> is_fixing r" "fixable env" "quantized env" for env
proof
  fix s r m
  assume a: "is_fixing s \<and> is_fixing r" "fixable env m" "Find FIXING_FLOAT m \<noteq> None"
  then obtain u conf where u: "s = FixingFloatFilter u" "Find FIXING_FLOAT m = Some conf" by (auto simp: is_fixing_iff)
  then obtain codes confs s2 where "FixingFloat_convert env True u m = Ok ((upd_conf FIXING_FLOAT (f_fixed_point_update (\<lambda>_. confs)) m)\<lparr>w_value := codes\<rparr>, s2)"
      "list_all2 (\<lambda>v v1. length v1 \<le> length v) (w_value m) codes"
    using FixingFloat_round_trip [OF a(2) u(2), of u] by blast
  then show "\<exists>m1 s1. Encode env s m = Ok (m1, s1) \<and> frame FIXING_FLOAT m m1 \<and> w_key_type m1 = w_key_type m \<and>
      (w_key m1 = w_key m \<or> \<not> on_values FIXING_FLOAT \<and> (FIXING_FLOAT = KEY_CACHING \<longrightarrow> w_key m1 = [])) \<and> (on_values FIXING_FLOAT \<or> w_value m1 = w_value m) \<and> (FIXING_FLOAT = COMPRESSING \<or> list_all2 (\<lambda>v v1. length v1 \<le> length v) (w_value m) (w_value m1))"
    using u(1) by (simp add: frame_def on_values_def conf_upd)
next
  fix s r m m1 s1 m'
  assume a: "is_fixing s \<and> is_fixing r" "fixable env m" "Find FIXING_FLOAT m \<noteq> None" "Encode env s m = Ok (m1, s1)" "reaches FIXING_FLOAT m1 m'"
  then obtain u w conf where u: "s = FixingFloatFilter u" "r = FixingFloatFilter w" "Find FIXING_FLOAT m = Some conf" by (auto simp: is_fixing_iff)
  obtain codes confs s2 where e: "FixingFloat_convert env True u m = Ok ((upd_conf FIXING_FLOAT (f_fixed_point_update (\<lambda>_. confs)) m)\<lparr>w_value := codes\<rparr>, s2)"
    and d: "\<And>s0 m'. w_value m' = codes \<and> w_value_type m' = w_value_type m \<and> Find FIXING_FLOAT m' = Some (conf\<lparr>f_fixed_point := confs\<rparr>) \<Longrightarrow>
      (\<exists>vs. FixingFloat_convert env False s0 m' = Ok ((upd_conf FIXING_FLOAT (f_fixed_point_update (\<lambda>_. confs)) m')\<lparr>w_value := vs\<rparr>, s0) \<and> quantized env m vs)"
    using FixingFloat_round_trip [OF a(2) u(3), of u] by blast
  have m1: "m1 = (upd_conf FIXING_FLOAT (f_fixed_point_update (\<lambda>_. confs)) m)\<lparr>w_value := codes\<rparr>" "is_fixing s1"
    using a(4) u e by auto
  then have m': "w_value m' = codes \<and> w_value_type m' = w_value_type m \<and> Find FIXING_FLOAT m' = Some (conf\<lparr>f_fixed_point := confs\<rparr>)" "w_key m' = w_key m"
    using a(5) u by (auto simp: reaches_def on_values_def conf_upd)
  obtain vs where "FixingFloat_convert env False w m' = Ok ((upd_conf FIXING_FLOAT (f_fixed_point_update (\<lambda>_. confs)) m')\<lparr>w_value := vs\<rparr>, w)" "quantized env m vs"
    using d [OF m'(1)] by blast
  then show "\<exists>m2 r1. Decode env r m' = Ok (m2, r1) \<and> (is_fixing s1 \<and> is_fixing r1) \<and> frame FIXING_FLOAT m' m2 \<and> w_key m2 = w_key m \<and>
      (if on_values FIXING_FLOAT then quantized env m (w_value m2) else w_value m2 = w_value m') \<and> (FIXING_FLOAT \<noteq> KEY_CACHING \<longrightarrow> w_key_type m2 = w_key_type m')"
    using u m1(2) m'(2) by (simp add: frame_def on_values_def conf_upd)
qed

section \<open>Chains of filters\<close>

fun agrees :: "Env \<Rightarrow> byte list set \<Rightarrow> FilterType \<Rightarrow> FilterObj \<Rightarrow> FilterObj \<Rightarrow> bool" where
  "agrees env K KEY_CACHING s r \<longleftrightarrow> same_caches env K s r"
| "agrees env K COMPRESSING s r \<longleftrightarrow> s = CompressingFilter \<and> r = CompressingFilter"
| "agrees env K FIXING_FLOAT s r \<longleftrightarrow> is_fixing s \<and> is_fixing r"
| "agrees env K NOISE s r \<longleftrightarrow> s = AddNoiseFilter \<and> r = AddNoiseFilter"
| "agrees env K DELTA_KEY s r \<longleftrightarrow> s = DeltaKeyFilter \<and> r = DeltaKeyFilter"
| "agrees env K TRUNCATE_FLOAT s r \<longleftrightarrow> s = TruncateFloatFilter \<and> r = TruncateFloatFilter"

fun admits :: "Env \<Rightarrow> byte list set \<Rightarrow> WireMessage \<Rightarrow> FilterType \<Rightarrow> bool" where
  "admits env K m KEY_CACHING \<longleftrightarrow> w_key m \<in> K"
| "admits env K m COMPRESSING \<longleftrightarrow> compressible env m"
| "admits env K m FIXING_FLOAT \<longleftrightarrow> fixable env m"
| "admits env K m NOISE \<longleftrightarrow> False"
| "admits env K m DELTA_KEY \<longleftrightarrow> whole_keys m"
| "admits env K m TRUNCATE_FLOAT \<longleftrightarrow> truncatable env m"

fun sees :: "Env \<Rightarrow> FilterType \<Rightarrow> WireMessage \<Rightarrow> byte list list \<Rightarrow> bool" where
  "sees env FIXING_FLOAT m vs \<longleftrightarrow> quantized env m vs"
| "sees env TRUNCATE_FLOAT m vs \<longleftrightarrow> truncated env m vs"
| "sees env _ m vs \<longleftrightarrow> vs = w_value m"

definition lossy :: "FilterType \<Rightarrow> bool" where
  "lossy t \<longleftrightarrow> t = FIXING_FLOAT \<or> t = TRUNCATE_FLOAT"

text \<open>
  Chains that can be undone: each filter once, key caching before differences of keys, and at most one filter of numbers,
  before the compression.
\<close>

fun chain_ok :: "FilterType list \<Rightarrow> bool" where
  "chain_ok [] \<longleftrightarrow> True"
| "chain_ok (t # ts) \<longleftrightarrow> t \<notin> set ts \<and> t \<noteq> NOISE \<and> (t = DELTA_KEY \<longrightarrow> KEY_CACHING \<notin> set ts) \<and>
     (on_values t \<longrightarrow> (\<forall>u \<in> set ts. \<not> lossy u)) \<and> chain_ok ts"

fun chain_sees :: "Env \<Rightarrow> FilterType list \<Rightarrow> WireMessage \<Rightarrow> byte list list \<Rightarrow> bool" where
  "chain_sees env [] m vs \<longleftrightarrow> vs = w_value m"
| "chain_sees env (t # ts) m vs \<longleftrightarrow> (if lossy t then sees env t m vs else chain_sees env ts m vs)"

lemma filter_encodes:
  assumes "agrees env K t s r" "admits env K m t" "Find t m \<noteq> None"
  shows "\<exists>m1 s1. Encode env s m = Ok (m1, s1) \<and> frame t m m1 \<and> w_key_type m1 = w_key_type m \<and>
    (w_key m1 = w_key m \<or> \<not> on_values t \<and> (t = KEY_CACHING \<longrightarrow> w_key m1 = [])) \<and> (on_values t \<or> w_value m1 = w_value m) \<and>
    (t = COMPRESSING \<or> list_all2 (\<lambda>v v1. length v1 \<le> length v) (w_value m) (w_value m1))"
proof (cases t)
  case KEY_CACHING
  then show ?thesis using caching.encodes [of env K s r m] assms by simp
next
  case COMPRESSING
  then show ?thesis using compressing.encodes [of s r env m] assms by simp
next
  case FIXING_FLOAT
  then show ?thesis using fixing.encodes [of s r env m] assms by simp
next
  case DELTA_KEY
  then show ?thesis using delta.encodes [of s r m env] assms by simp
next
  case TRUNCATE_FLOAT
  then show ?thesis using truncating.encodes [of s r env m] assms by simp
qed (use assms in simp)

lemma filter_decodes:
  assumes "agrees env K t s r" "admits env K m t" "Find t m \<noteq> None" "Encode env s m = Ok (m1, s1)" "reaches t m1 m'"
  shows "\<exists>m2 r1. Decode env r m' = Ok (m2, r1) \<and> agrees env K t s1 r1 \<and> frame t m' m2 \<and> w_key m2 = w_key m \<and>
    (if on_values t then sees env t m (w_value m2) else w_value m2 = w_value m') \<and> (t \<noteq> KEY_CACHING \<longrightarrow> w_key_type m2 = w_key_type m')"
proof (cases t)
  case KEY_CACHING
  then show ?thesis using caching.decodes [of env K s r m m1 s1 m'] assms by (simp add: on_values_def)
next
  case COMPRESSING
  then show ?thesis using compressing.decodes [of s r env m m1 s1 m'] assms by (simp add: on_values_def)
next
  case FIXING_FLOAT
  then show ?thesis using fixing.decodes [of s r env m m1 s1 m'] assms by (simp add: on_values_def)
next
  case DELTA_KEY
  then show ?thesis using delta.decodes [of s r m env m1 s1 m'] assms by (simp add: on_values_def)
next
  case TRUNCATE_FLOAT
  then show ?thesis using truncating.decodes [of s r env m m1 s1 m'] assms by (simp add: on_values_def)
qed (use assms in simp)

text \<open>A filter leaves what the rest of the chain needs.\<close>

lemma admits_after:
  assumes "admits env K m u" "u \<in> set ts" "chain_ok (t # ts)" "frame t m m1" "w_key_type m1 = w_key_type m"
    "w_key m1 = w_key m \<or> \<not> on_values t \<and> (t = KEY_CACHING \<longrightarrow> w_key m1 = [])" "on_values t \<or> w_value m1 = w_value m"
    "t = COMPRESSING \<or> list_all2 (\<lambda>v v1. length v1 \<le> length v) (w_value m) (w_value m1)"
  shows "admits env K m1 u"
proof -
  have ne: "u \<noteq> t" using assms(2,3) by auto
  have same: "num_bytes u m1 = num_bytes u m" "Find u m1 = Find u m" "w_value_type m1 = w_value_type m"
    using assms(4) ne by (auto simp: frame_def num_bytes_def)
  have vals: "w_value m1 = w_value m" "arrays m1 = arrays m" if "lossy u"
    using that assms(2,3,7) same(3) by (auto simp: arrays_def)
  show ?thesis
  proof (cases u)
    case KEY_CACHING
    then show ?thesis using assms(1-3,6) ne by (cases t) (auto simp: on_values_def)
  next
    case DELTA_KEY
    then show ?thesis using assms(1-3,5,6) ne by (cases t) (auto simp: on_values_def whole_keys_def)
  next
    case COMPRESSING
    then have "list_all2 (\<lambda>v v1. length v1 \<le> length v) (w_value m) (w_value m1)" using assms(8) ne by auto
    then have "(\<forall>w \<in> set (w_value m). length w \<le> b) \<longrightarrow> (\<forall>v \<in> set (w_value m1). length v \<le> b)" for b
      by (induction rule: list_all2_induct) auto
    then show ?thesis using assms(1) COMPRESSING by (simp add: compressible_def)
  next
    case FIXING_FLOAT
    then show ?thesis using assms(1) same vals by (simp add: fixable_def lossy_def)
  next
    case TRUNCATE_FLOAT
    then show ?thesis using assms(1) same vals by (simp add: truncatable_def lossy_def)
  qed (use assms(1) in simp)
qed

lemma chain_sees_exact: "\<forall>u \<in> set ts. \<not> lossy u \<Longrightarrow> chain_sees env ts m vs \<longleftrightarrow> vs = w_value m"
  by (induction ts) auto

lemma chain_sees_cong:
  assumes "w_value m1 = w_value m" "w_value_type m1 = w_value_type m" "\<forall>u \<in> set ts. Find u m1 = Find u m"
  shows "chain_sees env ts m1 vs \<longleftrightarrow> chain_sees env ts m vs"
  using assms
proof (induction ts)
  case (Cons t ts)
  then have "arrays m1 = arrays m" "num_bytes t m1 = num_bytes t m" by (simp_all add: arrays_def num_bytes_def)
  then have "lossy t \<Longrightarrow> sees env t m1 vs \<longleftrightarrow> sees env t m vs"
    by (auto simp: lossy_def quantized_def truncated_def)
  then show ?case using Cons by simp
qed simp

definition nodes_agree :: "Env \<Rightarrow> byte list set \<Rightarrow> NodeFilters \<Rightarrow> NodeFilters \<Rightarrow> bool" where
  "nodes_agree env K S R \<longleftrightarrow> (\<forall>t. agrees env K t (FindFilterOrCreate env t S) (FindFilterOrCreate env t R))"

lemma nodes_agree_start: "no_collision env K \<Longrightarrow> nodes_agree env K Map.empty Map.empty"
proof -
  assume "no_collision env K"
  then have "agrees env K t (create env t) (create env t)" for t by (cases t) auto
  then show ?thesis by (simp add: nodes_agree_def FindFilterOrCreate_def)
qed

lemma decode_with_append:
  "decode_with env (ts @ us) R m = rbind (decode_with env ts R m) (\<lambda>(m1, R1). decode_with env us R1 m1)"
proof (induction ts arbitrary: R m)
  case (Cons t ts)
  then show ?case by (cases "Decode env (FindFilterOrCreate env t R) m") (simp_all add: case_prod_unfold fun_upd_def)
qed simp

lemma chain_round_trip:
  assumes "chain_ok ts" "\<forall>u \<in> set ts. agrees env K u (FindFilterOrCreate env u S) (FindFilterOrCreate env u R)"
    "\<forall>u \<in> set ts. admits env K m u \<and> Find u m \<noteq> None"
  shows "\<exists>mf S1 m2 R1. encode_with env ts S m = Ok (mf, S1) \<and> decode_with env (rev ts) R mf = Ok (m2, R1) \<and>
    (\<forall>u \<in> set ts. agrees env K u (FindFilterOrCreate env u S1) (FindFilterOrCreate env u R1)) \<and>
    (\<forall>u. u \<notin> set ts \<longrightarrow> S1 u = S u \<and> R1 u = R u \<and> Find u m2 = Find u m) \<and>
    w_key m2 = w_key m \<and> chain_sees env ts m (w_value m2) \<and> w_request m2 = w_request m \<and> w_push m2 = w_push m \<and>
    w_value_type m2 = w_value_type m \<and> map f_type (w_filter mf) = map f_type (w_filter m) \<and>
    (KEY_CACHING \<notin> set ts \<longrightarrow> w_key_type m2 = w_key_type m)"
  using assms
proof (induction ts arbitrary: S m)
  case (Cons t ts)
  let ?s = "FindFilterOrCreate env t S" and ?r = "FindFilterOrCreate env t R"
  have t: "agrees env K t ?s ?r" "admits env K m t" "Find t m \<noteq> None" "t \<notin> set ts" using Cons.prems by auto
  obtain m1 s1 where e: "Encode env ?s m = Ok (m1, s1)" "frame t m m1" "w_key_type m1 = w_key_type m"
      "w_key m1 = w_key m \<or> \<not> on_values t \<and> (t = KEY_CACHING \<longrightarrow> w_key m1 = [])" "on_values t \<or> w_value m1 = w_value m"
      "t = COMPRESSING \<or> list_all2 (\<lambda>v v1. length v1 \<le> length v) (w_value m) (w_value m1)"
    using filter_encodes [OF t(1-3)] by blast
  let ?S = "S(t \<mapsto> s1)"
  have S: "FindFilterOrCreate env u ?S = FindFilterOrCreate env u S" if "u \<in> set ts" for u
    using that t(4) by (auto simp: FindFilterOrCreate_def)
  have "\<forall>u \<in> set ts. admits env K m1 u \<and> Find u m1 \<noteq> None"
  proof
    fix u assume u: "u \<in> set ts"
    then have "Find u m1 = Find u m" using e(2) t(4) by (auto simp: frame_def)
    then show "admits env K m1 u \<and> Find u m1 \<noteq> None"
      using u Cons.prems(3) admits_after [OF _ u Cons.prems(1) e(2-6)] by auto
  qed
  moreover have "chain_ok ts" "\<forall>u \<in> set ts. agrees env K u (FindFilterOrCreate env u ?S) (FindFilterOrCreate env u R)"
    using Cons.prems S by auto
  ultimately obtain mf S1 m2 R1 where i: "encode_with env ts ?S m1 = Ok (mf, S1)" "decode_with env (rev ts) R mf = Ok (m2, R1)"
      "\<forall>u \<in> set ts. agrees env K u (FindFilterOrCreate env u S1) (FindFilterOrCreate env u R1)"
      "\<forall>u. u \<notin> set ts \<longrightarrow> S1 u = ?S u \<and> R1 u = R u \<and> Find u m2 = Find u m1"
      "w_key m2 = w_key m1" "chain_sees env ts m1 (w_value m2)" "w_request m2 = w_request m1" "w_push m2 = w_push m1"
      "w_value_type m2 = w_value_type m1" "map f_type (w_filter mf) = map f_type (w_filter m1)"
      "KEY_CACHING \<notin> set ts \<longrightarrow> w_key_type m2 = w_key_type m1"
    using Cons.IH [of ?S m1] by blast
  have "w_value m2 = w_value m1" if "on_values t" using i(6) that Cons.prems(1) by (simp add: chain_sees_exact)
  then have "reaches t m1 m2" using i t(4) Cons.prems(1) by (auto simp: reaches_def)
  then obtain m3 r1 where d: "Decode env ?r m2 = Ok (m3, r1)" "agrees env K t s1 r1" "frame t m2 m3" "w_key m3 = w_key m"
      "if on_values t then sees env t m (w_value m3) else w_value m3 = w_value m2" "t \<noteq> KEY_CACHING \<longrightarrow> w_key_type m3 = w_key_type m2"
    using filter_decodes [OF t(1-3) e(1)] by blast
  have R1: "FindFilterOrCreate env t R1 = ?r" "FindFilterOrCreate env t S1 = s1" using i(4) t(4) by (auto simp: FindFilterOrCreate_def)
  have dec: "decode_with env (rev (t # ts)) R mf = Ok (m3, R1(t \<mapsto> r1))" using i(2) d(1) R1 by (simp add: decode_with_append)
  have enc: "encode_with env (t # ts) S m = Ok (mf, S1)" using e(1) i(1) by simp
  have "chain_sees env (t # ts) m (w_value m3)"
  proof (cases "on_values t")
    case True
    then have "\<forall>u \<in> set ts. \<not> lossy u" using Cons.prems(1) by simp
    then show ?thesis using d(5) True by (cases t) (auto simp: chain_sees_exact lossy_def on_values_def)
  next
    case False
    have "\<forall>u \<in> set ts. Find u m1 = Find u m" using e(2) t(4) by (metis frame_def)
    then have "chain_sees env ts m (w_value m2)"
      using i(6) e(2,5) False chain_sees_cong [of m1 m ts env "w_value m2"] by (simp add: frame_def)
    then show ?thesis using d(5) False by (auto simp: lossy_def on_values_def)
  qed
  moreover have "\<forall>u \<in> set (t # ts). agrees env K u (FindFilterOrCreate env u S1) (FindFilterOrCreate env u (R1(t \<mapsto> r1)))"
    using i(3) d(2) R1(2) t(4) by (auto simp: FindFilterOrCreate_def)
  moreover have "\<forall>u. u \<notin> set (t # ts) \<longrightarrow> S1 u = S u \<and> (R1(t \<mapsto> r1)) u = R u \<and> Find u m3 = Find u m"
    using i(4) d(3) e(2) by (auto simp: frame_def)
  moreover have "w_request m3 = w_request m" "w_push m3 = w_push m" "w_value_type m3 = w_value_type m"
      "map f_type (w_filter mf) = map f_type (w_filter m)"
    using d(3) e(2) i(7-10) by (simp_all add: frame_def)
  moreover have "KEY_CACHING \<notin> set (t # ts) \<longrightarrow> w_key_type m3 = w_key_type m"
    using d(6) e(3) i(11) by auto
  ultimately show ?case using enc dec d(4) by blast
qed simp

definition fits :: "Env \<Rightarrow> byte list set \<Rightarrow> WireMessage \<Rightarrow> bool" where
  "fits env K m \<longleftrightarrow> chain_ok (map f_type (w_filter m)) \<and> (\<forall>f \<in> set (w_filter m). admits env K m (f_type f))"

definition delivered :: "Env \<Rightarrow> WireMessage \<Rightarrow> WireMessage \<Rightarrow> bool" where
  "delivered env m m2 \<longleftrightarrow> w_key m2 = w_key m \<and> chain_sees env (map f_type (w_filter m)) m (w_value m2) \<and>
     w_request m2 = w_request m \<and> w_push m2 = w_push m \<and> w_value_type m2 = w_value_type m"

lemma Find_in: "f \<in> set (w_filter m) \<Longrightarrow> Find (f_type f) m \<noteq> None"
  by (auto simp: Find_def find_None_iff)

interpretation node: link "EncodeMessage env" "DecodeMessage env" "nodes_agree env K" "fits env K" "delivered env" for env K
proof
  fix S R m
  assume a: "nodes_agree env K S R" "fits env K m"
  let ?ts = "map f_type (w_filter m)"
  have "chain_ok ?ts" "\<forall>u \<in> set ?ts. agrees env K u (FindFilterOrCreate env u S) (FindFilterOrCreate env u R)"
      "\<forall>u \<in> set ?ts. admits env K m u \<and> Find u m \<noteq> None"
    using a Find_in [of _ m] by (auto simp: fits_def nodes_agree_def)
  from chain_round_trip [OF this] obtain mf S1 m2 R1 where c: "encode_with env ?ts S m = Ok (mf, S1)" "decode_with env (rev ?ts) R mf = Ok (m2, R1)"
      "\<forall>u \<in> set ?ts. agrees env K u (FindFilterOrCreate env u S1) (FindFilterOrCreate env u R1)"
      "\<forall>u. u \<notin> set ?ts \<longrightarrow> S1 u = S u \<and> R1 u = R u \<and> Find u m2 = Find u m"
      "w_key m2 = w_key m" "chain_sees env ?ts m (w_value m2)" "w_request m2 = w_request m" "w_push m2 = w_push m"
      "w_value_type m2 = w_value_type m" "map f_type (w_filter mf) = ?ts"
    by blast
  have "agrees env K u (FindFilterOrCreate env u S1) (FindFilterOrCreate env u R1)" for u
    using c(3,4) a(1) by (cases "u \<in> set ?ts") (auto simp: nodes_agree_def FindFilterOrCreate_def)
  then have "nodes_agree env K S1 R1" by (simp add: nodes_agree_def)
  then show "\<exists>m1 s1 m2 r1. EncodeMessage env S m = Ok (m1, s1) \<and> DecodeMessage env R m1 = Ok (m2, r1) \<and> nodes_agree env K s1 r1 \<and> delivered env m m2"
    using c by (auto simp: EncodeMessage_def DecodeMessage_def delivered_def)
qed

section \<open>Messages between two nodes\<close>

text \<open>
  C6: Messages sent through the filters of their tasks arrive in order with the keys they were sent with, whatever is on its
  way at the same time. Their values arrive as they were sent when no filter of numbers is used; otherwise as truncation or
  fixed-point coding leaves them, also when they are compressed on top. The sender and the receiver start without cached
  keys, key lists of the same length do not collide, and each chain of filters can be undone.
\<close>

theorem filtered_messages_arrive:
  assumes "no_collision env K" "\<forall>m \<in> set ms. fits env K m"
  shows "\<exists>ws S1 ms' R1. run_all (EncodeMessage env) Map.empty ms = Ok (ws, S1) \<and> run_all (DecodeMessage env) Map.empty ws = Ok (ms', R1) \<and>
    map w_key ms' = map w_key ms \<and> list_all2 (\<lambda>m m'. chain_sees env (map f_type (w_filter m)) m (w_value m')) ms ms' \<and>
    ((\<forall>m \<in> set ms. \<forall>f \<in> set (w_filter m). \<not> lossy (f_type f)) \<longrightarrow> map w_value ms' = map w_value ms)"
proof -
  obtain ws S1 ms' R1 where r: "run_all (EncodeMessage env) Map.empty ms = Ok (ws, S1)" "run_all (DecodeMessage env) Map.empty ws = Ok (ms', R1)"
      "list_all2 (delivered env) ms ms'"
    using node.in_flight [OF nodes_agree_start [OF assms(1)] assms(2)] by blast
  have "map w_key ms' = map w_key ms" "list_all2 (\<lambda>m m'. chain_sees env (map f_type (w_filter m)) m (w_value m')) ms ms'"
    using r(3) by (auto simp: list_all2_conv_all_nth delivered_def intro: nth_equalityI)
  moreover from r(3) have "(\<forall>m \<in> set ms. \<forall>f \<in> set (w_filter m). \<not> lossy (f_type f)) \<longrightarrow> map w_value ms' = map w_value ms"
    by (induction rule: list_all2_induct) (auto simp: delivered_def chain_sees_exact)
  ultimately show ?thesis using r by blast
qed

definition test_env :: Env where
  "test_env = \<lparr>CityHash64 = (\<lambda>bs. word_of_nat (length bs)), lz_compress = (#) 0,
     lz_decompress = (\<lambda>d n. if length d = n + 1 then Some (tl d) else None), rand = (\<lambda>_. 5), normal = (\<lambda>m s i. m),
     fval = (\<lambda>t bs. Some (real (le_nat bs))), fbytes = (\<lambda>t x. nat_le (sizeof t) (nat \<lfloor>x\<rfloor>))\<rparr>"

definition test_message :: "FilterType list \<Rightarrow> byte list \<Rightarrow> byte list list \<Rightarrow> WireMessage" where
  "test_message ts key vs = \<lparr>w_request = True, w_push = True, w_has_key = True, w_key_type = Some UINT64, w_key_range = None,
     w_value_type = map (\<lambda>_. FLOAT) vs, w_filter = map AddFilter ts, w_key = key, w_value = vs\<rparr>"

theorem filtered_messages_arrive_witness:
  "\<exists>ws S1 ms' R1. run_all (EncodeMessage test_env) Map.empty
       [test_message [KEY_CACHING, DELTA_KEY, COMPRESSING] (replicate 64 7) [[1, 2, 3, 4]],
        test_message [KEY_CACHING, DELTA_KEY, COMPRESSING] (replicate 64 7) [[5, 6, 7, 8]]] = Ok (ws, S1) \<and>
     run_all (DecodeMessage test_env) Map.empty ws = Ok (ms', R1) \<and> map w_key ms' = [replicate 64 7, replicate 64 7] \<and>
     map w_value ms' = [[[1, 2, 3, 4]], [[5, 6, 7, 8]]]"
proof -
  let ?K = "{replicate 64 7}" and ?m = "test_message [KEY_CACHING, DELTA_KEY, COMPRESSING] (replicate 64 7)"
  have "no_collision test_env ?K" by (simp add: no_collision_def)
  moreover have "\<forall>m \<in> set [?m [[1, 2, 3, 4]], ?m [[5, 6, 7, 8]]]. fits test_env ?K m"
    by (simp add: fits_def test_message_def AddFilter_def on_values_def lossy_def whole_keys_def compressible_def test_env_def lz4_law_def)
  moreover have "\<forall>m \<in> set [?m [[1, 2, 3, 4]], ?m [[5, 6, 7, 8]]]. \<forall>f \<in> set (w_filter m). \<not> lossy (f_type f)"
    by (simp add: test_message_def AddFilter_def lossy_def)
  ultimately obtain ws S1 ms' R1 where r: "run_all (EncodeMessage test_env) Map.empty [?m [[1, 2, 3, 4]], ?m [[5, 6, 7, 8]]] = Ok (ws, S1)"
      "run_all (DecodeMessage test_env) Map.empty ws = Ok (ms', R1)"
      "map w_key ms' = map w_key [?m [[1, 2, 3, 4]], ?m [[5, 6, 7, 8]]]" "map w_value ms' = map w_value [?m [[1, 2, 3, 4]], ?m [[5, 6, 7, 8]]]"
    using filtered_messages_arrive [of test_env ?K "[?m [[1, 2, 3, 4]], ?m [[5, 6, 7, 8]]]"] by blast
  then show ?thesis by (auto simp: test_message_def)
qed

text \<open>
  C34: Fixed-point coding with one to three bytes: the array is sent with that many bytes for each number, and each number that
  is read back is at most one step of the quantization away from the number sent, cut off at the range that is sent along.
\<close>

theorem fixing_float_error:
  assumes "nb \<in> {1, 2, 3}" "t \<in> {FLOAT, DOUBLE}" "sizeof t \<le> length v" "sent_range env t v = Some (a, b)" "a < b"
  shows "\<exists>code conf s'. fix_convert env t True nb no_conf s v = Ok (code, conf, s') \<and>
    (\<forall>s0. \<exists>ys. fix_convert env t False nb conf s0 code = Ok (concat (map (fbytes env t) ys), conf, s0) \<and>
      list_all2 (\<lambda>x y. \<bar>y - clamp a b x\<bar> \<le> (b - a) / (2 ^ (nat nb * 8) - 2)) (fix_numbers env t v) ys)"
  using fix_round_trip [OF assms(1,4,5,2,3), of s] assms(4) unfolding fix_seen_def levels_def by fastforce

theorem fixing_float_error_witness:
  "\<exists>code conf s'. fix_convert test_env FLOAT True 2 no_conf (fix_init test_env) [1, 0, 0, 0, 3, 0, 0, 0] = Ok (code, conf, s') \<and>
    (\<exists>ys. fix_convert test_env FLOAT False 2 conf (fix_init test_env) code = Ok (concat (map (fbytes test_env FLOAT) ys), conf, fix_init test_env) \<and>
      list_all2 (\<lambda>x y. \<bar>y - clamp 1 3 x\<bar> \<le> 2 / (2 ^ 16 - 2)) [1, 3] ys)"
proof -
  let ?v = "[1, 0, 0, 0, 3, 0, 0, 0] :: byte list"
  have v: "fix_numbers test_env FLOAT ?v = [1, 3]"
    using elements_concat [of "[[1, 0, 0, 0], [3, 0, 0, 0]]" "\<lambda>x. x" 4 "fval test_env FLOAT"] by (simp add: fix_numbers_def test_env_def)
  have "fix_range [1, 3] = (1, 3)" by (simp add: fix_range_def)
  then have r: "sent_range test_env FLOAT ?v = Some (1, 3)"
    unfolding sent_range_def v by (simp add: test_env_def le_nat_nat_le)
  show ?thesis using fixing_float_error [of 2 FLOAT ?v test_env 1 3 "fix_init test_env"] r v by simp blast
qed

section \<open>Where the filters fail\<close>

text \<open>
  The signature of a long key list is made of its first and last 2048 bytes. Two lists of the same length that differ only
  between them have the same signature, and the second arrives as the first.
\<close>

theorem long_keys_collide:
  assumes "length a = length b" "max_sig_len \<le> length a" "take 2048 a = take 2048 b" "drop (length a - 2048) a = drop (length b - 2048) b"
    "m = test_message [KEY_CACHING] a vs" "m' = test_message [KEY_CACHING] b ws"
  shows "\<exists>out S1 m1 m2 R1. run_all (EncodeMessage env) Map.empty [m, m'] = Ok (out, S1) \<and> run_all (DecodeMessage env) Map.empty out = Ok ([m1, m2], R1) \<and>
    w_key m1 = a \<and> w_key m2 = a"
proof -
  have sig: "FastHash env b = FastHash env a" using assms(1-4) by (simp add: FastHash_def max_sig_len_def)
  have len: "\<not> length a < min_len" "a \<noteq> []" "b \<noteq> []" using assms(1,2) by (auto simp: min_len_def max_sig_len_def)
  show ?thesis using sig len assms(1)
    by (simp add: assms(5,6) EncodeMessage_def DecodeMessage_def test_message_def AddFilter_def FindFilterOrCreate_def
        KeyCaching_Encode_def KeyCaching_Decode_def Find_def upd_conf_def clear_key_def set_key_def Let_def)
qed

text \<open>
  An array whose numbers are all equal to \<open>x\<close> aborts when \<open>x + 1e-6\<close> rounds to \<open>x\<close>, which it does for a \<open>float\<close> from 32 on: the
  width that is to prevent a division by 0 is lost when the range is stored.
\<close>

theorem constant_array_aborts:
  assumes "nb \<in> {1, 2, 3}" "fix_numbers env t v = replicate (Suc n) x" "0 \<le> x" "x < 10 ^ 20"
    "fval env FLOAT (fbytes env FLOAT x) = Some x" "fval env FLOAT (fbytes env FLOAT (x + 1 / 10 ^ 6)) = Some x"
  shows "fix_convert env t True nb no_conf s v = Err (CheckFailed ''bin > 0'')"
proof -
  have lo: "fold (\<lambda>v m. if v < m then v else m) (replicate k x) x = x" and hi: "fold (\<lambda>v m. if v > m then v else m) (replicate k x) x = x" for k
    by (induction k) auto
  have "fix_range (fix_numbers env t v) = (x, x + 1 / 10 ^ 6)"
    using assms(3,4) lo hi by (simp add: assms(2) fix_range_def mult_less_0_iff)
  then have "fix_configure env no_conf (elements (sizeof t) (fval env t) v) = (map Some (fix_numbers env t v), \<lparr>fx_min_value = Some x, fx_max_value = Some x\<rparr>)"
    using assms(5,6) by (simp add: fix_configure_def no_conf_def fix_numbers_def [symmetric] Let_def)
  moreover have "\<exists>q. fix_ratio nb = Ok q" using assms(1) by (auto simp: fix_ratio_def)
  ultimately show ?thesis by (auto simp: fix_convert_def)
qed

text \<open>
  The greatest 32-bit integer is no \<open>float\<close>; it rounds to \<open>2 ^ 32\<close>. A number above it is cut off there and then does not fit
  into four bytes.
\<close>

theorem four_byte_truncation_overflows:
  assumes "fval env FLOAT (fbytes env FLOAT (2 ^ 32 - 1)) = Some (2 ^ 32)" "fval env FLOAT (fbytes env FLOAT 0) = Some 0"
    "elements 4 (fval env FLOAT) v = Some x # xs" "2 ^ 32 < x"
  shows "trunc_convert env FLOAT True 4 v = Err (Fatal ''cast out of range'')"
  using assms by (simp add: trunc_convert_def trunc_type_def trunc_encode1_def trunc_def)

text \<open>Four to seven bytes pass the checks, but the number of steps is computed with a shift that an \<open>int\<close> does not have.\<close>

theorem four_byte_fixing_undefined:
  assumes "4 \<le> nb" "nb < 8"
  shows "fix_convert env t encode nb conf s v = Err (Fatal ''1 << (nbytes*8)'')"
  using assms by (simp add: fix_convert_def fix_ratio_def)

end
