(* ===== verification/Worker.thy ===== *)
theory Worker
  imports Localizer Factorization KVSaveLoad LinearUpdate KVCache Solver FilterChain
begin

text \<open>
  The nodes of the two solvers: scheduler, servers and workers of DiFacto (\<open>src/difacto/async_sgd.h\<close>) and of the linear
  solver (\<open>src/linear/async_sgd.h\<close>), built from the components of the other theories. A worker returns the requests it
  sends; the code that runs when a pull has been answered is a definition of its own. Configurations are records of the
  fields the code reads.
\<close>

section \<open>Requests\<close>

text \<open>A request with its filters; \<open>rq_after_count\<close>: it waits for the push of the feature counts.\<close>

record Request =
  rq_msg :: "real Message"
  rq_filters :: "Filter list"
  rq_after_count :: bool

section \<open>DiFacto\<close>

record Embedding = EmbConf +
  em_threshold :: int
  em_lambda_l2 :: real
  em_init_scale :: real
  em_lr_eta :: "real option"
  em_lr_beta :: "real option"

record DConfig =
  dc_minibatch :: int
  dc_rand_shuffle :: int
  dc_max_concurrency :: int
  dc_neg_sampling :: real
  dc_embedding :: "Embedding list"
  dc_num_threads :: int
  dc_key_cache :: bool
  dc_fixed_bytes :: int
  dc_msg_compression :: bool
  dc_prob_predict :: bool
  dc_lr_eta :: real
  dc_lr_beta :: real
  dc_lambda_l1 :: real
  dc_lambda_l2 :: real
  dc_l1_shrk :: bool
  dc_early_stop :: bool
  dc_min_objv_decr :: real
  dc_max_objv :: "real option"

text \<open>\<open>AsyncScheduler::Stop\<close>: the decision and the new \<open>pre_val_objv_\<close>.\<close>

definition AsyncScheduler_Stop :: "DConfig \<Rightarrow> real \<Rightarrow> real \<Rightarrow> bool \<Rightarrow> real \<Rightarrow> bool \<times> real" where
  "AsyncScheduler_Stop conf objv new_ex train pre_val_objv =
     (let cur_objv = objv / new_ex in
      if train then (case dc_max_objv conf of Some m \<Rightarrow> (cur_objv > m, pre_val_objv) | None \<Rightarrow> (False, pre_val_objv))
      else let diff = pre_val_objv - cur_objv in (dc_early_stop conf \<and> diff < dc_min_objv_decr conf, cur_objv))"

text \<open>The handle of a server; \<open>thr0\<close> and \<open>cnt0\<close> are the members the code leaves unset, \<open>servers\<close> the number of servers.\<close>

definition AsyncServer :: "u32 \<Rightarrow> bool \<Rightarrow> int \<Rightarrow> DConfig \<Rightarrow> AdaGradHandle" where
  "AsyncServer thr0 cnt0 servers conf =
     (let h = \<lparr>lambda_l1 = dc_lambda_l1 conf, lambda_l2 = dc_lambda_l2 conf, alpha = dc_lr_eta conf, beta = dc_lr_beta conf,
            V_dim = 0, V_thr = thr0, V_lambda_l2 = 0, V_alpha = 1 / 100, V_beta = 1, V_min = - (1 / 100), V_max = 1 / 100,
            l1_shrk = dc_l1_shrk conf, push_count = cnt0, new_w = 0, new_V = 0, has_reporter = True, reported = [], ct = 0, ns = servers,
            perf = \<lparr>pf_time = [0, 0, 0, 0], pf_count = [0, 0, 0, 0], pf_i = 0, pf_tick = 0\<rparr>\<rparr> in
      case dc_embedding conf of
        [] \<Rightarrow> h
      | c # _ \<Rightarrow> h\<lparr>V_dim := int (ec_dim c), V_thr := word_of_int (em_threshold c), V_lambda_l2 := em_lambda_l2 c,
          V_min := - em_init_scale c, V_max := em_init_scale c,
          V_alpha := (case em_lr_eta c of Some x \<Rightarrow> x | None \<Rightarrow> alpha h),
          V_beta := (case em_lr_beta c of Some x \<Rightarrow> x | None \<Rightarrow> beta h)\<rparr>)"

text \<open>Loading and saving a model on a server; \<open>None\<close> is a stream that does not end within \<open>n\<close> entries.\<close>

definition AsyncServer_LoadModel ::
    "nat \<Rightarrow> byte \<Rightarrow> 's reader \<Rightarrow> (u64 \<rightharpoonup> u32 AdaGradEntry) \<Rightarrow> AdaGradHandle \<Rightarrow> 's \<Rightarrow> ((u64 \<rightharpoonup> u32 AdaGradEntry) \<times> AdaGradHandle) res option" where
  "AsyncServer_LoadModel n junk rd data h fi =
     map_option (rmap (\<lambda>(data', h'). (data', h'\<lparr>reported := reported h' @ [(new_w h', new_V h')], new_w := 0, new_V := 0\<rparr>)))
       (load_entries n rd \<lparr>fea_cnt = 0, siz = 1, mem = Inline 0 0 0 0\<rparr> (Entry_Load junk rd) data h fi)"

definition AsyncServer_SaveModel :: "'s writer \<Rightarrow> (u64 \<times> u32 AdaGradEntry) list \<Rightarrow> 's \<Rightarrow> 's res" where
  "AsyncServer_SaveModel wr kvs fo = save_entries wr (Entry_Empty float_zero) (Entry_Save wr) kvs fo"

text \<open>The worker: its settings, filters and minibatches.\<close>

definition AsyncWorker :: "DConfig \<Rightarrow> MinibatchWorker \<times> bool" where
  "AsyncWorker conf =
     (\<lparr>mb_size = dc_minibatch conf, concurrent_mb = dc_max_concurrency conf, mb_shuffle = dc_rand_shuffle conf,
       neg_sampling = dc_neg_sampling conf, val_mb_size = 10000000, val_concurrent_mb = 10\<rparr>,
      \<exists>c \<in> set (dc_embedding conf). ec_dim c > 0)"

definition SetFilters :: "DConfig \<Rightarrow> nat \<Rightarrow> Filter list" where
  "SetFilters conf flag =
     (if dc_key_cache conf then [(AddFilter KEY_CACHING)\<lparr>f_clear_cache := flag = 2\<rparr>] else []) @
     (if dc_fixed_bytes conf > 0 then (if flag = 0 then [(AddFilter TRUNCATE_FLOAT)\<lparr>f_num_bytes := 1\<rparr>] else [(AddFilter FIXING_FLOAT)\<lparr>f_num_bytes := dc_fixed_bytes conf\<rparr>]) else []) @
     (if dc_msg_compression conf then [AddFilter COMPRESSING] else [])"

text \<open>\<open>ProcessMinibatch\<close> up to the pull: the localized minibatch, its feature ids and the requests.\<close>

definition ProcessMinibatch ::
    "(u64 Pair list \<Rightarrow> u64 Pair list) \<Rightarrow> u64 \<Rightarrow> DConfig \<Rightarrow> bool \<Rightarrow> WType \<Rightarrow> int \<Rightarrow> (u64, real) RowBlock \<Rightarrow> real KVCache \<Rightarrow>
     ((u32, real) RowBlockContainer \<times> u64 list \<times> Request list \<times> nat \<times> real KVCache) res" where
  "ProcessMinibatch std_sort max_key conf do_embedding t data_pass mb cache =
     rbind (Localize std_sort max_key real (dc_num_threads conf) mb rbc_Clear [] []) (\<lambda>(data, feaid, feacnt).
     let cnt = (t = TRAIN \<and> data_pass = 0 \<and> do_embedding) in
     rbind (if cnt then rmap (\<lambda>m. [\<lparr>rq_msg = m, rq_filters = SetFilters conf 0, rq_after_count = False\<rparr>]) (kc_Push kPushFeaCnt feaid feacnt [])
            else Ok []) (\<lambda>rs.
     rbind (kc_Pull 0 feaid [] (Some []) cache) (\<lambda>(chl, m, cache').
     Ok (data, feaid, rs @ [\<lparr>rq_msg = m, rq_filters = SetFilters conf 1, rq_after_count = cnt\<rparr>], chl, cache'))))"

text \<open>
  The callback of the pull: the loss is evaluated and reported, predictions are written, and in training the gradient is
  pushed with the sizes of the pull; without a request the minibatch is finished.
\<close>

definition PullCallback ::
    "(Entry list \<Rightarrow> Entry list) \<Rightarrow> (nat \<Rightarrow> real) \<Rightarrow> DConfig \<Rightarrow> WType \<Rightarrow> (u32, real) RowBlockContainer \<Rightarrow> u64 list \<Rightarrow> real list \<Rightarrow> nat list \<Rightarrow>
     (FProgress \<times> real list option \<times> Request option) res" where
  "PullCallback std_sort rnd conf t data feaid val val_siz =
     rbind (rbc_GetBlock data) (\<lambda>X.
     rbind (new_Loss X val val_siz (case dc_embedding conf of [] \<Rightarrow> None | c # _ \<Rightarrow> Some (EmbConf.truncate c))) (\<lambda>loss.
     rbind (Loss_Evaluate std_sort loss) (\<lambda>(loss1, prog).
     let pred = (if t = PRED then Some (Loss_Predict (dc_prob_predict conf) loss1) else None) in
     if t = TRAIN then
       rbind (Loss_CalcGrad rnd loss1 val) (\<lambda>(loss2, grad).
       rbind (kc_Push 0 feaid grad val_siz) (\<lambda>m.
       Ok (prog, pred, Some \<lparr>rq_msg = m, rq_filters = SetFilters conf 2, rq_after_count = False\<rparr>)))
     else Ok (prog, pred, None))))"

section \<open>The linear solver\<close>

datatype Algo = SGD | ADAGRAD | FTRL

record LConfig =
  lc_minibatch :: int
  lc_rand_shuffle :: int
  lc_max_concurrency :: int
  lc_neg_sampling :: real
  lc_num_threads :: int
  lc_key_cache :: bool
  lc_fixed_bytes :: int
  lc_msg_compression :: bool
  lc_prob_predict :: bool
  lc_lr_eta :: "real option"
  lc_lr_beta :: "real option"
  lc_lambda_l1 :: real
  lc_lambda_l2 :: real
  lc_loss :: LossType

text \<open>\<open>CreateServer\<close>, the same for the handles of the three algorithms.\<close>

definition CreateServer :: "int \<Rightarrow> LConfig \<Rightarrow> LISGDHandle res" where
  "CreateServer servers conf =
     rbind (set_lambda1 (lc_lambda_l1 conf) new_L1L2) (\<lambda>p1.
     rbind (set_lambda2 (lc_lambda_l2 conf) p1) (\<lambda>p2.
     Ok \<lparr>lh_penalty = p2, lh_alpha = (case lc_lr_eta conf of Some x \<Rightarrow> x | None \<Rightarrow> 1 / 10),
         lh_beta = (case lc_lr_beta conf of Some x \<Rightarrow> x | None \<Rightarrow> 1), lh_reporter = True, lh_reported = [], lh_new_w = 0,
         lh_ct = 0, lh_ns = servers, lh_t = 1, lh_eta = 0\<rparr>))"

text \<open>\<open>LoadModel\<close> reports the weights that were loaded; \<open>eload\<close> is the \<open>Load\<close> of the entries of the chosen algorithm.\<close>

definition AsgdServer_LoadModel ::
    "nat \<Rightarrow> 's reader \<Rightarrow> 'e \<Rightarrow> ('e \<Rightarrow> LISGDHandle \<Rightarrow> 's \<Rightarrow> ('e \<times> LISGDHandle \<times> 's) res) \<Rightarrow> (u64 \<rightharpoonup> 'e) \<Rightarrow> LISGDHandle \<Rightarrow> 's \<Rightarrow>
     ((u64 \<rightharpoonup> 'e) \<times> LISGDHandle) res option" where
  "AsgdServer_LoadModel n rd e0 eload data h fi =
     map_option (rmap (\<lambda>(data', h'). (data', h'\<lparr>lh_reported := lh_reported h' @ [lh_new_w h'], lh_new_w := 0\<rparr>)))
       (load_entries n rd e0 eload data h fi)"

definition AsgdWorker :: "LConfig \<Rightarrow> MinibatchWorker \<times> int" where
  "AsgdWorker conf =
     (\<lparr>mb_size = lc_minibatch conf, concurrent_mb = lc_max_concurrency conf, mb_shuffle = lc_rand_shuffle conf,
       neg_sampling = lc_neg_sampling conf, val_mb_size = 10000000, val_concurrent_mb = 10\<rparr>, lc_num_threads conf)"

definition Asgd_SetFilters :: "LConfig \<Rightarrow> bool \<Rightarrow> Filter list" where
  "Asgd_SetFilters conf push =
     (if lc_fixed_bytes conf > 0 then [(AddFilter FIXING_FLOAT)\<lparr>f_num_bytes := lc_fixed_bytes conf\<rparr>] else []) @
     (if lc_key_cache conf then [(AddFilter KEY_CACHING)\<lparr>f_clear_cache := push\<rparr>] else []) @ (if lc_msg_compression conf then [AddFilter COMPRESSING] else [])"

text \<open>The pull of the linear worker has no filters.\<close>

definition Asgd_ProcessMinibatch ::
    "(u64 Pair list \<Rightarrow> u64 Pair list) \<Rightarrow> u64 \<Rightarrow> int \<Rightarrow> (u64, real) RowBlock \<Rightarrow> real KVCache \<Rightarrow>
     ((u32, real) RowBlockContainer \<times> u64 list \<times> Request \<times> nat \<times> real KVCache) res" where
  "Asgd_ProcessMinibatch std_sort max_key nt mb cache =
     rbind (Localize std_sort max_key real nt mb rbc_Clear [] []) (\<lambda>(data, feaid, feacnt).
     rbind (kc_Pull 0 feaid [] None cache) (\<lambda>(chl, m, cache').
     Ok (data, feaid, \<lparr>rq_msg = m, rq_filters = [], rq_after_count = False\<rparr>, chl, cache')))"

definition CreateLoss_Evaluate :: "LossType \<Rightarrow> ((Entry list \<Rightarrow> Entry list) \<Rightarrow> ScalarLoss \<Rightarrow> LProgress \<Rightarrow> LProgress res) res" where
  "CreateLoss_Evaluate t = (case t of LOGIT \<Rightarrow> Ok LogitLoss_Evaluate | SQUARE_HINGE \<Rightarrow> Ok SquareHingeLoss_Evaluate
     | _ \<Rightarrow> Err (Fatal ''unknown type: ''))"

definition Asgd_PullCallback ::
    "(Entry list \<Rightarrow> Entry list) \<Rightarrow> LProgress \<Rightarrow> LConfig \<Rightarrow> WType \<Rightarrow> (u32, real) RowBlockContainer \<Rightarrow> u64 list \<Rightarrow> real list \<Rightarrow>
     (LProgress \<times> real list option \<times> Request option) res" where
  "Asgd_PullCallback std_sort prog0 conf t data feaid val =
     rbind (CreateLoss_Evaluate (lc_loss conf)) (\<lambda>evaluate.
     rbind (rbc_GetBlock data) (\<lambda>X.
     let loss = ScalarLoss_Init X val (new_ScalarLoss X) in
     rbind (evaluate std_sort loss prog0) (\<lambda>prog.
     rbind (if t = PRED then rmap Some (ScalarLoss_Predict (lc_prob_predict conf) loss) else Ok None) (\<lambda>pred.
     if t = TRAIN then
       rbind (CreateLoss_CalcGrad (lc_loss conf)) (\<lambda>calc.
       rbind (calc loss val) (\<lambda>grad.
       rbind (kc_Push 0 feaid grad []) (\<lambda>m.
       Ok (prog, pred, Some \<lparr>rq_msg = m, rq_filters = Asgd_SetFilters conf True, rq_after_count = False\<rparr>))))
     else Ok (prog, pred, None)))))"

section \<open>Gradients are accepted\<close>

text \<open>Pulls make missing entries but change none.\<close>

lemma pull_dyn_entries: "pull_dyn pull e0 junk k h keys data val st sizes = Ok (data', r) \<Longrightarrow> entry_at e0 data' = entry_at e0 data"
proof (induction keys arbitrary: data val st sizes)
  case (Cons key keys)
  obtain p where p: "pull key (entry_at e0 data key) (drop st (grow_to junk (st + k) val)) h = Ok p"
    using Cons.prems by (auto simp: Let_def rbind_Ok_iff)
  then obtain val2 st2 sizes2 where "pull_dyn pull e0 junk k h keys (data(key \<mapsto> entry_at e0 data key)) val2 st2 sizes2 = Ok (data', r)"
    using Cons.prems by (cases p) (auto simp: Let_def check_Ok_iff)
  then show ?case using Cons.IH by fastforce
qed simp

lemma pull_fixed_entries: "pull_fixed pull e0 junk k h keys data val = Ok (data', val') \<Longrightarrow> entry_at e0 data' = entry_at e0 data"
proof (induction keys arbitrary: data val)
  case (Cons key keys)
  obtain p where p: "pull key (entry_at e0 data key) (replicate k junk) h = Ok p"
    using Cons.prems by (auto simp: Let_def rbind_Ok_iff)
  then obtain val2 where "pull_fixed pull e0 junk k h keys (data(key \<mapsto> entry_at e0 data key)) val2 = Ok (data', val')"
    using Cons.prems by (cases p) (auto simp: Let_def check_Ok_iff)
  then show ?case using Cons.IH by fastforce
qed simp

lemma HandlePull_entries:
  assumes "HandlePull begin_h pull finish e0 junk msg s = Ok (r, s')"
  shows "entry_at e0 (kv_data s') = entry_at e0 (kv_data s) \<and> kv_handle s' = finish (begin_h False (msg_cmd msg) (kv_handle s))"
  using assms pull_dyn_entries [of pull e0 junk "kv_k s" "begin_h False (msg_cmd msg) (kv_handle s)"]
    pull_fixed_entries [of pull e0 junk "kv_k s" "begin_h False (msg_cmd msg) (kv_handle s)"]
  by (auto simp: HandlePull_def Let_def rbind_Ok_iff split: if_splits)

text \<open>The contract of an updater whose entries never shrink and which takes a push of up to \<open>room\<close> cells.\<close>

locale growing =
  fixes begin_h :: "bool \<Rightarrow> int \<Rightarrow> 'h \<Rightarrow> 'h" and push :: "u64 \<Rightarrow> 'v list \<Rightarrow> 'e \<Rightarrow> 'h \<Rightarrow> ('e \<times> 'h) res"
    and finish :: "'h \<Rightarrow> 'h" and e0 :: 'e and good :: "'h \<Rightarrow> 'e \<Rightarrow> bool" and room :: "'e \<Rightarrow> nat"
  assumes start_law: "good (begin_h b c h) = good h" and finish_law: "good (finish h) = good h"
    and e0_law: "good h e0"
    and push_law: "good h e \<Longrightarrow> push key recv e h = Ok (e', h') \<Longrightarrow> good h' = good h \<and> good h e' \<and> room e \<le> room e'"
    and fits_law: "good h e \<Longrightarrow> recv \<noteq> [] \<Longrightarrow> length recv \<le> room e \<Longrightarrow> \<exists>r. push key recv e h = Ok r"
begin

definition all_good :: "'h \<Rightarrow> (u64 \<rightharpoonup> 'e) \<Rightarrow> bool" where
  "all_good h data \<longleftrightarrow> (\<forall>k. good h (entry_at e0 data k))"

definition grown :: "(u64 \<rightharpoonup> 'e) \<Rightarrow> (u64 \<rightharpoonup> 'e) \<Rightarrow> bool" where
  "grown data data' \<longleftrightarrow> (\<forall>k. room (entry_at e0 data k) \<le> room (entry_at e0 data' k))"

lemma grown_trans: "grown a b \<Longrightarrow> grown b c \<Longrightarrow> grown a c"
  by (meson grown_def le_trans)

lemma push_step:
  assumes "all_good h data" "push key recv (entry_at e0 data key) h = Ok (e', h')"
  shows "all_good h' (data(key \<mapsto> e')) \<and> grown data (data(key \<mapsto> e')) \<and> good h' = good h"
proof -
  have "good h' = good h" "good h e'" "room (entry_at e0 data key) \<le> room e'"
    using push_law [OF _ assms(2)] assms(1) by (auto simp: all_good_def)
  then show ?thesis
    using assms(1) by (auto simp: all_good_def grown_def entry_at_def)
qed

lemma push_dyn_grows:
  "push_dyn push e0 keys ks val data h = Ok (data', h') \<Longrightarrow> all_good h data \<Longrightarrow> all_good h' data' \<and> grown data data' \<and> good h' = good h"
proof (induction keys arbitrary: ks val data h)
  case (Cons key keys)
  show ?case
  proof (cases ks)
    case Nil
    then show ?thesis using Cons.prems by (simp add: grown_def)
  next
    case ks: (Cons k ks')
    show ?thesis
    proof (cases "k = 0")
      case True
      then show ?thesis using Cons ks by simp
    next
      case False
      then obtain e1 h1 where p: "push key (take k val) (entry_at e0 data key) h = Ok (e1, h1)"
          "push_dyn push e0 keys ks' (drop k val) (data(key \<mapsto> e1)) h1 = Ok (data', h')"
        using Cons.prems(1) ks by (auto simp: rbind_Ok_iff)
      show ?thesis
        using Cons.IH [OF p(2)] push_step [OF Cons.prems(2) p(1)] grown_trans by (metis (no_types))
    qed
  qed
qed (auto simp: grown_def)

lemma push_fixed_grows:
  "push_fixed push e0 k keys val data h = Ok (data', h') \<Longrightarrow> all_good h data \<Longrightarrow> all_good h' data' \<and> grown data data' \<and> good h' = good h"
proof (induction keys arbitrary: val data h)
  case (Cons key keys)
  then obtain e1 h1 where p: "push key (take k val) (entry_at e0 data key) h = Ok (e1, h1)"
      "push_fixed push e0 k keys (drop k val) (data(key \<mapsto> e1)) h1 = Ok (data', h')"
    by (auto simp: rbind_Ok_iff)
  show ?case
    using Cons.IH [OF p(2)] push_step [OF Cons.prems(2) p(1)] grown_trans by (metis (no_types))
qed (auto simp: grown_def)

lemma HandlePush_grows:
  assumes "HandlePush begin_h push finish e0 msg s = Ok s'" "all_good (kv_handle s) (kv_data s)"
  shows "all_good (kv_handle s') (kv_data s') \<and> grown (kv_data s) (kv_data s')"
proof -
  let ?h = "begin_h True (msg_cmd msg) (kv_handle s)"
  have g: "all_good ?h (kv_data s)"
    using assms(2) by (simp add: all_good_def start_law)
  have "\<exists>data h. s' = s\<lparr>kv_data := data, kv_handle := finish h\<rparr> \<and> (
       (\<exists>ks val. push_dyn push e0 (msg_key msg) ks val (kv_data s) ?h = Ok (data, h)) \<or>
       (\<exists>k val. push_fixed push e0 k (msg_key msg) val (kv_data s) ?h = Ok (data, h)) \<or> (data = kv_data s \<and> h = ?h))"
    using assms(1) unfolding HandlePush_def Let_def rbind_Ok_iff by (fastforce simp: check_Ok_iff split: if_splits list.splits Arr.splits)
  then obtain data h where r: "s' = s\<lparr>kv_data := data, kv_handle := finish h\<rparr>"
      "(\<exists>ks val. push_dyn push e0 (msg_key msg) ks val (kv_data s) ?h = Ok (data, h)) \<or>
       (\<exists>k val. push_fixed push e0 k (msg_key msg) val (kv_data s) ?h = Ok (data, h)) \<or> (data = kv_data s \<and> h = ?h)"
    by blast
  have refl: "grown (kv_data s) (kv_data s)"
    by (simp add: grown_def)
  have "all_good h data \<and> grown (kv_data s) data"
    using r(2) push_dyn_grows [OF _ g] push_fixed_grows [OF _ g] g refl by blast
  then show ?thesis
    using r(1) by (simp add: all_good_def finish_law)
qed

lemma run_grows:
  assumes "kv_run begin_h push pull finish e0 junk s s'" "all_good (kv_handle s) (kv_data s)"
  shows "all_good (kv_handle s') (kv_data s') \<and> grown (kv_data s) (kv_data s')"
  using assms
proof (induction rule: kv_run.induct)
  case run_init
  then show ?case by (simp add: grown_def)
next
  case (run_step s1 msg r s2)
  then have IH: "all_good (kv_handle s1) (kv_data s1)" "grown (kv_data s) (kv_data s1)"
    by auto
  have "all_good (kv_handle s2) (kv_data s2) \<and> grown (kv_data s1) (kv_data s2)"
  proof (cases "msg_replica msg \<or> \<not> msg_push msg")
    case True
    then show ?thesis
      using run_step(2) IH(1) HandlePull_entries [of begin_h pull finish e0 junk msg s1]
      by (auto simp: ProcessRequest_def rbind_Ok_iff all_good_def grown_def start_law finish_law split: if_splits)
  next
    case False
    then show ?thesis
      using run_step(2) HandlePush_grows [OF _ IH(1)] by (auto simp: ProcessRequest_def rbind_Ok_iff)
  qed
  then show ?case
    using IH(2) grown_trans by blast
qed

lemma push_dyn_accepts:
  assumes "list_all2 (\<lambda>k key. k \<le> room (entry_at e0 data key)) ks keys" "sum_list ks = length val" "all_good h data"
  shows "\<exists>r. push_dyn push e0 keys ks val data h = Ok r"
  using assms
proof (induction keys arbitrary: ks val data h rule: list.induct)
  case (Cons key keys)
  then obtain k ks' where ks: "ks = k # ks'" "k \<le> room (entry_at e0 data key)" "list_all2 (\<lambda>k key. k \<le> room (entry_at e0 data key)) ks' keys"
    by (auto simp: list_all2_Cons2)
  show ?case
  proof (cases "k = 0")
    case True
    then show ?thesis using Cons ks by auto
  next
    case False
    then have "val \<noteq> []"
      using Cons.prems(2) ks(1) by auto
    with False obtain e1 h1 where p: "push key (take k val) (entry_at e0 data key) h = Ok (e1, h1)"
      using fits_law [of h "entry_at e0 data key" "take k val" key] Cons.prems ks by (auto simp: all_good_def)
    note st = push_step [OF Cons.prems(3) p]
    have "list_all2 (\<lambda>k x. k \<le> room (entry_at e0 (data(key \<mapsto> e1)) x)) ks' keys"
      using ks(3) st by (elim list_all2_mono) (auto simp: grown_def intro: le_trans)
    moreover have "sum_list ks' = length (drop k val)"
      using Cons.prems(2) ks(1) by auto
    ultimately obtain r where "push_dyn push e0 keys ks' (drop k val) (data(key \<mapsto> e1)) h1 = Ok r"
      using Cons.IH conjunct1 [OF st] by blast
    then show ?thesis
      using ks(1) p False by (simp del: fun_upd_apply)
  qed
qed simp

lemma HandlePush_accepts:
  assumes "list_all2 (\<lambda>k key. k \<le> room (entry_at e0 (kv_data s) key)) ks (msg_key msg)" "sum_list ks = length val"
    and "all_good (kv_handle s) (kv_data s)" "msg_dyn msg" "msg_value msg = [Vals val, Sizes ks]"
  shows "\<exists>s'. HandlePush begin_h push finish e0 msg s = Ok s'"
  using push_dyn_accepts [OF assms(1,2), of "begin_h True (msg_cmd msg) (kv_handle s)"] assms list_all2_lengthD [OF assms(1)]
  by (cases "msg_key msg = []") (auto simp: HandlePush_def Let_def all_good_def start_law)

end

interpretation dg: growing "Handle_Start clk" "Handle_Push rnd junk" "Handle_Finish clk" new_AdaGradEntry entry_ok "\<lambda>e. nat (siz e)" for clk rnd junk
proof
  fix h key recv h' and e e' :: "real AdaGradEntry"
  assume ok: "entry_ok h e"
  have pos: "siz e > 0" using ok by (auto simp: entry_ok_def split: storage.splits)
  show "Handle_Push rnd junk key recv e h = Ok (e', h') \<Longrightarrow> entry_ok h' = entry_ok h \<and> entry_ok h e' \<and> nat (siz e) \<le> nat (siz e')"
  proof -
    assume p: "Handle_Push rnd junk key recv e h = Ok (e', h')"
    have "recv \<noteq> []" "push_count h \<or> int (length recv) \<le> siz e"
      using p by (auto simp: Handle_Push_def Blob_at_def check_def split: if_splits)
    then show ?thesis
      using Push_ok [OF ok, of recv rnd junk key] p by (auto simp: fun_eq_iff)
  qed
  show "recv \<noteq> [] \<Longrightarrow> length recv \<le> nat (siz e) \<Longrightarrow> \<exists>r. Handle_Push rnd junk key recv e h = Ok r"
    using Push_ok [OF ok, of recv rnd junk key] pos by fastforce
qed (auto simp: fun_eq_iff)

lemma cells_room: "entry_ok h e \<Longrightarrow> length (cells h' e) \<le> nat (siz e)"
  by (auto simp: entry_ok_def cells_def split: storage.splits)

text \<open>
  C13: a gradient is always accepted. A worker pulls keys from the DiFacto store, other workers then push and pull in any order,
  and the worker pushes a gradient of as many cells as it pulled, with the sizes of its pull, through its cache: the store never
  rejects it, although entries may have grown in between.
\<close>

theorem gradient_accepted:
  assumes run: "kv_run (Handle_Start clk) (Handle_Push rnd junk) Handle_Pull (Handle_Finish clk) new_AdaGradEntry junk s0 s"
    and empty: "kv_data s0 = Map.empty" and k: "kv_k s > 0"
    and req: "msg_dyn msg" "msg_value msg = []"
    and pull: "HandlePull (Handle_Start clk) Handle_Pull (Handle_Finish clk) new_AdaGradEntry junk msg s = Ok (r, s1)"
    and answer: "msg_value r = [Vals val, Sizes ks]"
    and later: "kv_run (Handle_Start clk) (Handle_Push rnd junk) Handle_Pull (Handle_Finish clk) new_AdaGradEntry junk s1 s2"
    and grad: "length grad = length val" "kc_Push 0 (msg_key msg) grad ks = Ok m"
  shows "\<exists>s3. HandlePush (Handle_Start clk) (Handle_Push rnd junk) (Handle_Finish clk) new_AdaGradEntry m s2 = Ok s3"
proof -
  let ?e = "entry_at new_AdaGradEntry"
  have "dw.sound (kv_data s) (kv_handle s)" using dw.run_sound [OF run empty] by simp
  then have ok: "entry_ok (kv_handle s) (?e (kv_data s) x)" for x by (rule dw.sound_entry)
  have s1: "?e (kv_data s1) = ?e (kv_data s)" "kv_handle s1 = Handle_Finish clk (Handle_Start clk False (msg_cmd msg) (kv_handle s))"
    using HandlePull_entries [OF pull] by simp_all
  then have good1: "dg.all_good (kv_handle s1) (kv_data s1)"
    using ok by (simp add: dg.all_good_def)
  have good2: "dg.all_good (kv_handle s2) (kv_data s2)" "dg.grown (kv_data s1) (kv_data s2)"
    using dg.run_grows [OF later good1] by simp_all
  obtain k' where k': "kv_k s = Suc k'" using k by (cases "kv_k s") auto
  let ?vals = "map (\<lambda>x. cells (Handle_Start clk False (msg_cmd msg) (kv_handle s)) (?e (kv_data s) x)) (msg_key msg)"
  have "val = concat ?vals" "ks = map length ?vals"
    using dp.HandlePull_dyn [of msg s k' "kv_handle s" new_AdaGradEntry "Handle_Start clk" "Handle_Finish clk" junk] req k' ok pull answer by auto
  then have sum: "sum_list ks = length grad" and sizes: "list_all2 (\<lambda>n x. n \<le> nat (siz (?e (kv_data s) x))) ks (msg_key msg)"
    using grad(1) cells_room [OF ok] by (auto simp: length_concat list_all2_conv_all_nth)
  have "list_all2 (\<lambda>n x. n \<le> nat (siz (?e (kv_data s2) x))) ks (msg_key msg)"
    using sizes good2(2) by (elim list_all2_mono) (auto simp: dg.grown_def s1 intro: le_trans)
  moreover have "msg_key m = msg_key msg" "msg_key msg \<noteq> []" "msg_value m = [Vals grad, Sizes ks]" "msg_dyn m"
    using grad(2) list_all2_lengthD [OF sizes] by (auto simp: kc_Push_def IsKeysOrderd_def rbind_Ok_iff check_Ok_iff Let_def split: if_splits)
  ultimately show ?thesis
    using dg.HandlePush_accepts [of s2 ks m grad] sum good2(1) by simp
qed

theorem gradient_accepted_witness:
  "\<exists>s r s1 m s3. kv_run (Handle_Start real) (Handle_Push (\<lambda>_. 1 / 2) 0) Handle_Pull (Handle_Finish real) new_AdaGradEntry 0 demo_ds s \<and>
     HandlePull (Handle_Start real) Handle_Pull (Handle_Finish real) new_AdaGradEntry 0
       \<lparr>msg_push = False, msg_replica = False, msg_cmd = 0, msg_dyn = True, msg_key = [5, 7], msg_value = []\<rparr> s = Ok (r, s1) \<and>
     msg_value r = [Vals [0, 0, 0], Sizes [1, 2]] \<and> kc_Push 0 [5, 7] [3, 4, 5] [1, 2] = Ok m \<and>
     HandlePush (Handle_Start real) (Handle_Push (\<lambda>_. 1 / 2) 0) (Handle_Finish real) new_AdaGradEntry m s1 = Ok s3"
proof -
  let ?msg = "\<lparr>msg_push = False, msg_replica = False, msg_cmd = 0, msg_dyn = True, msg_key = [5, 7], msg_value = []\<rparr> :: real Message"
  obtain s where s: "kv_run (Handle_Start real) (Handle_Push (\<lambda>_. 1 / 2) 0) Handle_Pull (Handle_Finish real) new_AdaGradEntry 0 demo_ds s"
      "kv_data s = [7 \<mapsto> demo_e7]" "kv_k s = 1" "\<not> l1_shrk (kv_handle s)" using demo_cnt_run by blast
  have c: "cells (Handle_Start real b cm (kv_handle s)) demo_e7 = [0, 0]" "cells (Handle_Start real b cm (kv_handle s)) new_AdaGradEntry = [0]" for b cm
    using s(4) by (simp_all add: cells_def demo_e7_def new_AdaGradEntry_def w_of_def Handle_Start_def)
  have e: "entry_ok demo_h demo_e7"
    by (simp add: entry_ok_def demo_e7_def demo_h_def)
  obtain r s1 where p: "HandlePull (Handle_Start real) Handle_Pull (Handle_Finish real) new_AdaGradEntry 0 ?msg s = Ok (r, s1)"
      "msg_value r = [Vals [0, 0, 0], Sizes [1, 2]]"
    using dp.HandlePull_dyn [of ?msg s 0 demo_h new_AdaGradEntry "Handle_Start real" "Handle_Finish real" 0] s e c
    by (auto simp: entry_at_def numeral_2_eq_2)
  obtain m :: "real Message" where m: "kc_Push 0 [5, 7] [3, 4, 5] [1, 2] = Ok m"
    by (simp add: kc_Push_def IsKeysOrderd_def)
  have "\<exists>s3. HandlePush (Handle_Start real) (Handle_Push (\<lambda>_. 1 / 2) 0) (Handle_Finish real) new_AdaGradEntry m s1 = Ok s3"
    using gradient_accepted [OF s(1) _ _ _ _ p kv_run.run_init, of "[3, 4, 5]" m] s(3) m by (simp add: demo_ds_def)
  then show ?thesis
    using s(1) p m by blast
qed

section \<open>The filters of the requests\<close>

text \<open>The chains of filters that the workers of both solvers put on their requests can be undone.\<close>

theorem worker_filters_ok:
  "chain_ok (map f_type (SetFilters conf flag))" "chain_ok (map f_type (Asgd_SetFilters lconf push))"
  by (simp_all add: SetFilters_def Asgd_SetFilters_def AddFilter_def on_values_def lossy_def)

end
