(* ===== verification/MinibatchIter.thy ===== *)
theory MinibatchIter
  imports RowBlock
begin

text \<open>
  The minibatch reader (\<open>src/base/minibatch_iter.h\<close>). The blocks of the parser, or of the inner reader when the data is
  shuffled, are a list; a block of the shuffled reader carries the permutation and the random numbers drawn for it.
\<close>

section \<open>Reading\<close>

text \<open>\<open>Push(pos, len)\<close>: a view of the rows of the current block is appended to the minibatch.\<close>

definition mi_slice :: "('i, 'f) RowBlock \<Rightarrow> nat \<Rightarrow> nat \<Rightarrow> ('i, 'f) RowBlock" where
  "mi_slice blk pos len = \<lparr>rb_size = len, rb_offset = drop pos (rb_offset blk), rb_label = drop pos (rb_label blk), rb_weight = None,
     rb_index = drop (rb_offset blk ! pos) (rb_index blk), rb_value = map_option (drop (rb_offset blk ! pos)) (rb_value blk)\<rparr>"

definition mi_Push ::
    "('a::len word, 'f) RowBlock \<Rightarrow> nat \<Rightarrow> nat \<Rightarrow> ('a word, 'f) RowBlockContainer \<Rightarrow> ('a word, 'f) RowBlockContainer res" where
  "mi_Push blk pos len mb =
     (if len = 0 then Ok mb
      else check (pos + len \<le> rb_size blk) ''pos + len <= in_blk_.size'' (rbc_Push_block (mi_slice blk pos len) mb))"

text \<open>
  The rows of a shuffled block: a negative example is skipped when the random number drawn for it exceeds
  \<open>1 - negative_sampling\<close>.
\<close>

record ('i, 'f) Shuffled =
  sh_blk :: "('i, 'f) RowBlock"
  sh_rdp :: "nat list"
  sh_rnd :: "nat \<Rightarrow> real"

fun push_sampled ::
    "real \<Rightarrow> ('a::len word, real) Shuffled \<Rightarrow> nat list \<Rightarrow> ('a word, real) RowBlockContainer \<Rightarrow> ('a word, real) RowBlockContainer res" where
  "push_sampled neg b [] mb = Ok mb"
| "push_sampled neg b (i # is) mb =
     rbind (nth_res (sh_rdp b) i) (\<lambda>j.
     rbind (if neg < 1 then rmap (\<lambda>label. label \<le> 0 \<and> sh_rnd b i > 1 - neg) (nth_res (rb_label (sh_blk b)) j) else Ok False) (\<lambda>skip.
     if skip then push_sampled neg b is mb
     else rbind (rb_at (sh_blk b) j) (\<lambda>row. rbind (rbc_Push_row row mb) (push_sampled neg b is))))"

text \<open>
  The loop of \<open>Next\<close>; \<open>st\<close> is \<open>start_\<close> and \<open>left\<close> is \<open>end_ - start_\<close>, \<open>src\<close> the blocks that are still to come,
  \<open>sz\<close> the number of rows of a block and \<open>push\<close> what appends rows.
\<close>

function mi_fill ::
    "('b \<Rightarrow> nat) \<Rightarrow> ('b \<Rightarrow> nat \<Rightarrow> nat \<Rightarrow> ('i, 'f) RowBlockContainer \<Rightarrow> ('i, 'f) RowBlockContainer res) \<Rightarrow> nat \<Rightarrow>
     'b list \<Rightarrow> 'b option \<Rightarrow> nat \<Rightarrow> nat \<Rightarrow> ('i, 'f) RowBlockContainer \<Rightarrow>
     ('b list \<times> 'b option \<times> nat \<times> nat \<times> ('i, 'f) RowBlockContainer) res" where
  "mi_fill sz push n src blk st left mb =
     (if length (rc_offset mb) < n + 1 then
        if left = 0 then
          (case src of
             [] \<Rightarrow> Ok (src, blk, st, left, mb)
           | b # bs \<Rightarrow>
               let len = min (sz b) (n + 1 - length (rc_offset mb)) in
               rbind (push b 0 len mb) (mi_fill sz push n bs (Some b) len (sz b - len)))
        else
          (case blk of
             None \<Rightarrow> Err OutOfBounds
           | Some b \<Rightarrow>
               let len = min left (n + 1 - length (rc_offset mb)) in
               rbind (push b st len mb) (mi_fill sz push n src blk (st + len) (left - len)))
      else Ok (src, blk, st, left, mb))"
  by pat_completeness auto
termination
  by (relation "measures [\<lambda>(sz, push, n, src, blk, st, left, mb). length src, \<lambda>(sz, push, n, src, blk, st, left, mb). left]") auto

declare mi_fill.simps [simp del]

record 'b MinibatchIter =
  mi_src :: "'b list"
  mi_blk :: "'b option"
  mi_start :: nat
  mi_left :: nat

definition new_MinibatchIter :: "'b list \<Rightarrow> 'b MinibatchIter" where
  "new_MinibatchIter src = \<lparr>mi_src = src, mi_blk = None, mi_start = 0, mi_left = 0\<rparr>"

text \<open>Values that are all 1 are not stored; \<open>Next\<close> returns whether the minibatch has rows, and the minibatch.\<close>

definition drop_ones :: "('i, 'f::one) RowBlockContainer \<Rightarrow> ('i, 'f) RowBlockContainer" where
  "drop_ones mb = (if \<forall>f \<in> set (rc_value mb). f = 1 then mb\<lparr>rc_value := []\<rparr> else mb)"

definition mi_Next ::
    "('b \<Rightarrow> nat) \<Rightarrow> ('b \<Rightarrow> nat \<Rightarrow> nat \<Rightarrow> ('a::len word, 'f::one) RowBlockContainer \<Rightarrow> ('a word, 'f) RowBlockContainer res) \<Rightarrow> nat \<Rightarrow>
     'b MinibatchIter \<Rightarrow> (bool \<times> ('a word, 'f) RowBlock \<times> 'b MinibatchIter) res" where
  "mi_Next sz push n it =
     rbind (mi_fill sz push n (mi_src it) (mi_blk it) (mi_start it) (mi_left it) rbc_Clear) (\<lambda>(src, blk, st, left, mb).
     rbind (rbc_GetBlock (drop_ones mb)) (\<lambda>out.
     Ok (rb_size out > 0, out, \<lparr>mi_src = src, mi_blk = blk, mi_start = st, mi_left = left\<rparr>)))"

text \<open>The two ways to read, without and with the shuffle buffer.\<close>

definition Next_plain :: "nat \<Rightarrow> ('a::len word, 'f::one) RowBlock MinibatchIter \<Rightarrow> (bool \<times> ('a word, 'f) RowBlock \<times> ('a word, 'f) RowBlock MinibatchIter) res" where
  "Next_plain n it = mi_Next rb_size mi_Push n it"

definition Next_shuffled ::
    "real \<Rightarrow> nat \<Rightarrow> ('a::len word, real) Shuffled MinibatchIter \<Rightarrow> (bool \<times> ('a word, real) RowBlock \<times> ('a word, real) Shuffled MinibatchIter) res" where
  "Next_shuffled neg n it = mi_Next (\<lambda>b. rb_size (sh_blk b)) (\<lambda>b pos len. push_sampled neg b [pos..<pos + len]) n it"

section \<open>Slices of a block\<close>

definition block_ok :: "bool \<Rightarrow> ('i, 'f) RowBlock \<Rightarrow> bool" where
  "block_ok has_val b \<longleftrightarrow> rb_wf b \<and> rb_offset b ! 0 = 0 \<and> (rb_value b \<noteq> None) = has_val"

lemma mi_slice_bounds:
  assumes "rb_wf b" "rb_offset b ! 0 = 0" "pos + len \<le> rb_size b" "i \<le> len"
  shows "drop pos (rb_offset b) ! i = rb_offset b ! (pos + i)" "rb_offset b ! pos \<le> rb_offset b ! (pos + i)"
    "rb_offset b ! (pos + i) \<le> length (rb_index b)" "rb_value b = Some v \<Longrightarrow> rb_offset b ! (pos + i) \<le> length v"
proof -
  show "drop pos (rb_offset b) ! i = rb_offset b ! (pos + i)"
    using assms by (simp add: rb_wf_def)
  show "rb_offset b ! pos \<le> rb_offset b ! (pos + i)"
    using assms by (intro rb_wf_mono [OF assms(1)]) auto
  have "rb_offset b ! (pos + i) \<le> rb_offset b ! rb_size b"
    using assms by (intro rb_wf_mono [OF assms(1)]) auto
  then show "rb_offset b ! (pos + i) \<le> length (rb_index b)" "rb_value b = Some v \<Longrightarrow> rb_offset b ! (pos + i) \<le> length v"
    using assms(1,2) by (auto simp: rb_wf_def)
qed

lemma mi_slice_wf:
  assumes "rb_wf b" "rb_offset b ! 0 = 0" "pos + len \<le> rb_size b"
  shows "rb_wf (mi_slice b pos len)"
proof -
  note bd = mi_slice_bounds [OF assms]
  have "sorted (take (Suc (pos + len)) (rb_offset b))"
    using assms(1,3) sorted_wrt_take [of "(\<le>)" "take (Suc (rb_size b)) (rb_offset b)" "Suc (pos + len)"] by (simp add: rb_wf_def min_absorb1)
  then have "sorted (take (Suc len) (drop pos (rb_offset b)))"
    using sorted_wrt_drop [of "(\<le>)" "take (Suc (pos + len)) (rb_offset b)" pos] by (simp add: drop_take)
  then show ?thesis
    using assms bd(1) [of 0] bd [of len] by (auto simp: rb_wf_def mi_slice_def diff_le_mono)
qed

lemma mi_slice_rows:
  assumes "rb_wf b" "rb_offset b ! 0 = 0" "pos + len \<le> rb_size b"
  shows "copied_rows (mi_slice b pos len) = take len (drop pos (rb_rows b))"
proof (rule nth_equalityI)
  show "length (copied_rows (mi_slice b pos len)) = length (take len (drop pos (rb_rows b)))"
    using assms(3) by (simp add: mi_slice_def)
  fix i assume "i < length (copied_rows (mi_slice b pos len))"
  then have i: "i < len" by (simp add: mi_slice_def)
  note bd = mi_slice_bounds [OF assms]
  have lab: "pos + i < length (rb_label b)" using assms i by (simp add: rb_wf_def)
  have cell: "rb_index (mi_slice b pos len) ! (j - rb_offset b ! pos) = rb_index b ! j"
      "map_option (\<lambda>v. v ! (j - rb_offset b ! pos)) (rb_value (mi_slice b pos len)) = map_option (\<lambda>v. v ! j) (rb_value b)"
    if "rb_offset b ! (pos + i) \<le> j" "j < rb_offset b ! (pos + Suc i)" for j
    using that bd(2-4) [of i] bd(2-4) [of "Suc i"] bd(3,4) [of 0] i by (auto simp: mi_slice_def option.map_comp comp_def intro: option.map_cong)
  have "copied_rows (mi_slice b pos len) ! i = (rb_label b ! (pos + i),
      map (\<lambda>j. (rb_index (mi_slice b pos len) ! (j - rb_offset b ! pos), map_option (\<lambda>v. v ! (j - rb_offset b ! pos)) (rb_value (mi_slice b pos len))))
        [rb_offset b ! (pos + i)..<rb_offset b ! (pos + Suc i)])"
    using i lab bd(1) [of 0] bd(1) [of i] bd(1) [of "Suc i"] by (simp add: copied_rows_def) (simp add: mi_slice_def)
  also have "\<dots> = rb_rows b ! (pos + i)"
    using i assms(2,3) cell by (simp add: rb_rows_def)
  finally show "copied_rows (mi_slice b pos len) ! i = take len (drop pos (rb_rows b)) ! i"
    using i assms(3) by simp
qed

section \<open>What \<open>Next\<close> returns\<close>

definition batch_ok :: "bool \<Rightarrow> ('i, 'f) RowBlockContainer \<Rightarrow> bool" where
  "batch_ok has_val mb \<longleftrightarrow> rc_wf mb \<and> rc_weight mb = [] \<and> (if has_val then length (rc_value mb) = length (rc_index mb) else rc_value mb = [])"

lemma batch_ok_Clear [simp]: "batch_ok has_val rbc_Clear"
  by (simp add: batch_ok_def) (simp add: rbc_Clear_def)

lemma rows_count: "batch_ok has_val mb \<Longrightarrow> length (rc_offset mb) = Suc (length (rc_rows mb))"
  by (simp add: batch_ok_def rc_wf_length rc_rows_def)

lemma mi_Push_ok:
  fixes b :: "('a::len word, 'f) RowBlock"
  assumes "batch_ok has_val mb" "block_ok has_val b" "pos + len \<le> rb_size b"
  shows "\<exists>mb'. mi_Push b pos len mb = Ok mb' \<and> batch_ok has_val mb' \<and> rc_rows mb' = rc_rows mb @ take len (drop pos (rb_rows b))"
proof (cases "len = 0")
  case False
  let ?s = "mi_slice b pos len"
  have b: "rb_wf b" "rb_offset b ! 0 = 0" and mb: "rc_wf mb"
    using assms(1,2) by (simp_all add: block_ok_def batch_ok_def)
  have wf: "rb_wf ?s" by (rule mi_slice_wf [OF b assms(3)])
  have vals: "(rb_value ?s \<noteq> None) = has_val"
    using assms(2) by (simp add: mi_slice_def block_ok_def)
  have p: "pushable ?s mb"
    using assms(1) vals unat_bound by (auto simp: pushable_def batch_ok_def split: option.splits)
  have "rc_weight (pushed ?s mb) = []"
    using assms(1) by (simp add: batch_ok_def pushed_def Let_def mi_slice_def)
  moreover have "if has_val then length (rc_value (pushed ?s mb)) = length (rc_index (pushed ?s mb)) else rc_value (pushed ?s mb) = []"
    using assms(1) vals wf by (auto simp: batch_ok_def pushed_def Let_def rb_wf_def split: option.splits)
  ultimately have "batch_ok has_val (pushed ?s mb)"
    using rc_wf_pushed [OF mb wf p] by (simp add: batch_ok_def)
  moreover have "map_prod id (map (map_prod (ucast :: 'a word \<Rightarrow> 'a word) id)) = (id :: 'f \<times> ('a word \<times> 'f option) list \<Rightarrow> _)"
    by (simp add: fun_eq_iff map_prod_def)
  ultimately show ?thesis
    using False assms(3) rbc_Push_block_eq [OF mb wf p] rc_rows_pushed [OF mb wf p] mi_slice_rows [OF b assms(3)] by (simp add: mi_Push_def)
qed (use assms in \<open>simp add: mi_Push_def\<close>)

definition rest_rows :: "('i, 'f) RowBlock list \<Rightarrow> ('i, 'f) RowBlock option \<Rightarrow> nat \<Rightarrow> nat \<Rightarrow> ('f \<times> ('i \<times> 'f option) list) list" where
  "rest_rows src blk st left = (case blk of None \<Rightarrow> [] | Some b \<Rightarrow> take left (drop st (rb_rows b))) @ concat (map rb_rows src)"

definition source_ok :: "bool \<Rightarrow> ('i, 'f) RowBlock list \<Rightarrow> ('i, 'f) RowBlock option \<Rightarrow> nat \<Rightarrow> nat \<Rightarrow> bool" where
  "source_ok has_val src blk st left \<longleftrightarrow> (\<forall>b \<in> set src. block_ok has_val b) \<and>
     (left \<noteq> 0 \<longrightarrow> (\<exists>b. blk = Some b \<and> block_ok has_val b \<and> st + left = rb_size b))"

lemma take_step: "l \<le> k \<Longrightarrow> take l X @ take (k - l) (drop l X) = take k X" "l \<le> k \<Longrightarrow> drop (k - l) (drop l X) = drop k X"
  by (simp_all flip: take_add)

lemma mi_fill_ok:
  fixes mb :: "('a::len word, 'f) RowBlockContainer"
  assumes "batch_ok has_val mb" "source_ok has_val src blk st left" "k = n - length (rc_rows mb)"
  shows "\<exists>src' blk' st' left' mb'. mi_fill rb_size mi_Push n src blk st left mb = Ok (src', blk', st', left', mb') \<and>
    batch_ok has_val mb' \<and> source_ok has_val src' blk' st' left' \<and>
    rc_rows mb' = rc_rows mb @ take k (rest_rows src blk st left) \<and> rest_rows src' blk' st' left' = drop k (rest_rows src blk st left)"
  using assms
proof (induction "length src + length (rest_rows src blk st left)" arbitrary: src blk st left mb k rule: less_induct)
  case less
  let ?X = "rest_rows src blk st left"
  note cnt = rows_count [OF less.prems(1)]
  have step: "\<exists>src' blk' st' left' mb'. rbind (mi_Push b pos l mb) (mi_fill rb_size mi_Push n src1 (Some b) (pos + l) (rb_size b - (pos + l))) = Ok (src', blk', st', left', mb') \<and>
      batch_ok has_val mb' \<and> source_ok has_val src' blk' st' left' \<and> rc_rows mb' = rc_rows mb @ take k ?X \<and> rest_rows src' blk' st' left' = drop k ?X"
    if l: "l = min (rb_size b - pos) k" and b: "block_ok has_val b" "pos \<le> rb_size b" and X: "?X = drop pos (rb_rows b) @ concat (map rb_rows src1)"
      and src1: "\<forall>b \<in> set src1. block_ok has_val b" "length src1 < length src \<or> src1 = src \<and> l \<noteq> 0"
    for b pos l src1
  proof -
    have "pos + l \<le> rb_size b" using l b(2) by linarith
    then obtain mb1 where mb1: "mi_Push b pos l mb = Ok mb1" "batch_ok has_val mb1" "rc_rows mb1 = rc_rows mb @ take l (drop pos (rb_rows b))"
      using mi_Push_ok [OF less.prems(1) b(1)] by blast
    have len: "length (rc_rows mb1) = length (rc_rows mb) + l" using mb1(3) l by simp
    have R: "rest_rows src1 (Some b) (pos + l) (rb_size b - (pos + l)) = drop l ?X"
      unfolding X using l b(2) by (simp add: rest_rows_def add.commute)
    have "l \<le> length ?X"
      unfolding X using l by simp
    then have "length src1 + length (rest_rows src1 (Some b) (pos + l) (rb_size b - (pos + l))) < length src + length ?X"
      unfolding R using src1(2) by auto
    moreover have "source_ok has_val src1 (Some b) (pos + l) (rb_size b - (pos + l))"
      using src1(1) b by (auto simp: source_ok_def)
    ultimately have "\<exists>src' blk' st' left' mb'. mi_fill rb_size mi_Push n src1 (Some b) (pos + l) (rb_size b - (pos + l)) mb1 = Ok (src', blk', st', left', mb') \<and>
      batch_ok has_val mb' \<and> source_ok has_val src' blk' st' left' \<and> rc_rows mb' = rc_rows mb1 @ take (n - length (rc_rows mb1)) (drop l ?X) \<and>
      rest_rows src' blk' st' left' = drop (n - length (rc_rows mb1)) (drop l ?X)"
      using less(1) [of src1 "Some b" "pos + l" "rb_size b - (pos + l)" mb1] mb1(2) unfolding R by blast
    moreover have "n - length (rc_rows mb1) = k - l" "l \<le> k" "take l (drop pos (rb_rows b)) = take l ?X"
      using l less.prems(3) len by (simp_all add: X)
    ultimately show ?thesis
      using mb1(1,3) take_step [of l k ?X] by (simp add: append.assoc)
  qed
  show ?case
  proof (cases "length (rc_offset mb) < n + 1")
    case False
    then have "k = 0" using cnt less.prems(3) by simp
    then show ?thesis using False less.prems(1,2) by (subst mi_fill.simps) simp
  next
    case True
    then have k: "n + 1 - length (rc_offset mb) = k" "k > 0" using cnt less.prems(3) by simp_all
    show ?thesis
    proof (cases "left = 0")
      case left: True
      show ?thesis
      proof (cases src)
        case Nil
        then have "?X = []" using left by (auto simp: rest_rows_def split: option.splits)
        then show ?thesis using True left Nil less.prems(1,2) by (subst mi_fill.simps) simp
      next
        case (Cons b bs)
        then have "mi_fill rb_size mi_Push n src blk st left mb =
            rbind (mi_Push b 0 (min (rb_size b) k) mb) (mi_fill rb_size mi_Push n bs (Some b) (0 + min (rb_size b) k) (rb_size b - (0 + min (rb_size b) k)))"
          using True left k by (subst mi_fill.simps) (simp add: Let_def)
        moreover have "?X = drop 0 (rb_rows b) @ concat (map rb_rows bs)"
          using Cons left by (auto simp: rest_rows_def split: option.splits)
        ultimately show ?thesis
          using step [of "min (rb_size b) k" b 0 bs] Cons less.prems(2) by (simp add: source_ok_def)
      qed
    next
      case False
      then obtain b where b: "blk = Some b" "block_ok has_val b" "st + left = rb_size b"
        using less.prems(2) by (auto simp: source_ok_def)
      then have left: "rb_size b - st = left" "left - min left k = rb_size b - (st + min left k)" by simp_all
      have "mi_fill rb_size mi_Push n src blk st left mb =
          rbind (mi_Push b st (min left k) mb) (mi_fill rb_size mi_Push n src (Some b) (st + min left k) (rb_size b - (st + min left k)))"
        using True False k b by (subst mi_fill.simps) (simp add: Let_def left(2))
      moreover have "?X = drop st (rb_rows b) @ concat (map rb_rows src)"
        using b by (simp add: rest_rows_def)
      ultimately show ?thesis
        using step [of "min left k" b st src] b left(1) less.prems(2) False k(2) by (simp add: source_ok_def)
    qed
  qed
qed

text \<open>Rows with their values, a value that is not stored being 1.\<close>

definition full_row :: "'f \<times> ('i \<times> 'f::one option) list \<Rightarrow> 'f \<times> ('i \<times> 'f) list" where
  "full_row = apsnd (map (apsnd (\<lambda>v. case v of None \<Rightarrow> 1 | Some x \<Rightarrow> x)))"

lemma drop_ones_ok:
  assumes "batch_ok has_val mb"
  shows "\<exists>out. rbc_GetBlock (drop_ones mb) = Ok out \<and> map full_row (rb_rows out) = map full_row (rc_rows mb) \<and> rb_size out = length (rc_rows mb)"
proof -
  have wf: "rc_wf (drop_ones mb)" and w: "rc_weight (drop_ones mb) = []"
    using assms by (auto simp: batch_ok_def drop_ones_def rc_wf_def)
  obtain out where out: "rbc_GetBlock (drop_ones mb) = Ok out"
    using GetBlock_eq [OF wf] by blast
  have rows: "rb_rows out = rc_rows (drop_ones mb)"
    using GetBlock_rows(2) [OF wf _ out] w by simp
  have bound: "j < length (rc_index mb)" if "i < length (rc_label mb)" "j < rc_offset mb ! Suc i" for i j
    using that rc_wf_offset_le [of mb "Suc i"] assms by (auto simp: batch_ok_def)
  have "map full_row (rc_rows (drop_ones mb)) = map full_row (rc_rows mb)"
    using assms bound by (auto simp: drop_ones_def rc_rows_def full_row_def batch_ok_def split: if_splits)
  then show ?thesis
    using out rows length_rb_rows [of out] by (auto simp: rc_rows_def drop_ones_def split: if_splits)
qed

definition left_rows :: "('i, 'f::one) RowBlock MinibatchIter \<Rightarrow> ('f \<times> ('i \<times> 'f) list) list" where
  "left_rows it = map full_row (rest_rows (mi_src it) (mi_blk it) (mi_start it) (mi_left it))"

definition iter_ok :: "bool \<Rightarrow> ('i, 'f) RowBlock MinibatchIter \<Rightarrow> bool" where
  "iter_ok has_val it \<longleftrightarrow> source_ok has_val (mi_src it) (mi_blk it) (mi_start it) (mi_left it)"

text \<open>
  C32: the minibatches of an unshuffled reader. Take well-formed blocks of a parser whose offsets start at 0 and of which all have
  stored values or none has (\<open>iter_ok has_val\<close>). Then, whatever the sizes of the blocks, each call of \<open>Next\<close>
  returns exactly the next \<open>n\<close> examples of the data, or all that are left, with their labels, features and values, and
  reports whether there were any; the reader then stands behind them. (Blocks of both kinds in one minibatch make
  \<open>GetBlock\<close> abort, see \<open>mixed_blocks_abort\<close>. The weights of the examples are dropped by the reader.)
\<close>

theorem Next_takes:
  fixes it :: "('a::len word, 'f::one) RowBlock MinibatchIter"
  assumes "iter_ok has_val it"
  shows "\<exists>more out it'. Next_plain n it = Ok (more, out, it') \<and> map full_row (rb_rows out) = take n (left_rows it) \<and>
    left_rows it' = drop n (left_rows it) \<and> iter_ok has_val it' \<and> more = (take n (left_rows it) \<noteq> [])"
proof -
  obtain src blk st left mb where f: "mi_fill rb_size mi_Push n (mi_src it) (mi_blk it) (mi_start it) (mi_left it) rbc_Clear = Ok (src, blk, st, left, mb)"
      "batch_ok has_val mb" "source_ok has_val src blk st left" "rc_rows mb = take n (rest_rows (mi_src it) (mi_blk it) (mi_start it) (mi_left it))"
      "rest_rows src blk st left = drop n (rest_rows (mi_src it) (mi_blk it) (mi_start it) (mi_left it))"
    using mi_fill_ok [OF batch_ok_Clear assms [unfolded iter_ok_def] refl, of n] by auto
  obtain out where out: "rbc_GetBlock (drop_ones mb) = Ok out" "map full_row (rb_rows out) = map full_row (rc_rows mb)" "rb_size out = length (rc_rows mb)"
    using drop_ones_ok [OF f(2)] by blast
  show ?thesis
    using f out by (auto simp: Next_plain_def mi_Next_def left_rows_def iter_ok_def take_map drop_map)
qed

definition demo_blocks :: "(64 word, int) RowBlock list" where
  "demo_blocks = [\<lparr>rb_size = 1, rb_offset = [0, 2], rb_label = [1], rb_weight = None, rb_index = [5, 6], rb_value = Some [1, 1]\<rparr>,
     \<lparr>rb_size = 2, rb_offset = [0, 1, 2], rb_label = [0, 1], rb_weight = None, rb_index = [7, 8], rb_value = Some [1, 3]\<rparr>]"

theorem Next_takes_witness:
  "\<exists>more out it'. Next_plain 2 (new_MinibatchIter demo_blocks) = Ok (more, out, it') \<and> more \<and>
     map full_row (rb_rows out) = [(1, [(5, 1), (6, 1)]), (0, [(7, 1)])] \<and> left_rows it' = [(1, [(8, 3)])]"
proof -
  have ok: "iter_ok True (new_MinibatchIter demo_blocks)"
    by (simp add: iter_ok_def new_MinibatchIter_def source_ok_def demo_blocks_def block_ok_def rb_wf_def)
  have rows: "left_rows (new_MinibatchIter demo_blocks) = [(1, [(5, 1), (6, 1)]), (0, [(7, 1)]), (1, [(8, 3)])]"
    by (simp add: left_rows_def new_MinibatchIter_def rest_rows_def demo_blocks_def rb_rows_def full_row_def upt_conv_Cons)
  show ?thesis
    using Next_takes [OF ok, of 2] by (auto simp: rows)
qed

text \<open>
  A block without stored values followed by one with them, as \<open>CompressedRowBlock\<close> delivers when the values of the first are all 1:
  the minibatch has fewer values than indices, and the check in \<open>GetBlock\<close> aborts.
\<close>

definition mixed_blocks :: "(64 word, int) RowBlock list" where
  "mixed_blocks = [\<lparr>rb_size = 1, rb_offset = [0, 1], rb_label = [1], rb_weight = None, rb_index = [5], rb_value = None\<rparr>,
     \<lparr>rb_size = 1, rb_offset = [0, 1], rb_label = [0], rb_weight = None, rb_index = [7], rb_value = Some [3]\<rparr>]"

lemma mixed_blocks_abort: "Next_plain 2 (new_MinibatchIter mixed_blocks) = Err (CheckFailed ''offset.back() == value.size()'')"
proof -
  have "mi_fill rb_size mi_Push 2 mixed_blocks None 0 0 rbc_Clear =
      Ok ([], Some (mixed_blocks ! 1), 1, 0, \<lparr>rc_offset = [0, 1, 2], rc_label = [1, 0], rc_weight = [], rc_index = [5, 7], rc_value = [3], rc_max_index = 7\<rparr>)"
    by (simp add: mi_fill.simps mixed_blocks_def mi_Push_def mi_slice_def rbc_Push_block_def rbc_Clear_def read_run_def overwrite_def nth_res_def Let_def max_def)
  then show ?thesis
    by (simp add: Next_plain_def mi_Next_def new_MinibatchIter_def drop_ones_def rbc_GetBlock_def)
qed

end
