(* ===== verification/InputSplit.thy ===== *)
theory InputSplit
  imports Prelude
begin

text \<open>
  The base of the input splits, \<open>dmlc-core/src/io/input_split_base.h\<close> and \<open>.cc\<close>: the files of a URI are seen as one sequence
  of bytes, part \<open>rank\<close> of \<open>nsplit\<close> gets a range of it whose ends are moved to the beginnings of records, and the range is
  read in chunks of whole records. The virtual functions of the record formats are the record \<open>splitter\<close>; the locale
  \<open>record_format\<close> states what the base needs of them. The file system is a parameter; a file that cannot be opened ends
  the process there.
\<close>

section \<open>State\<close>

datatype FileType = kFile | kDirectory

record FileInfo =
  fi_path :: string
  fi_size :: nat
  fi_type :: FileType

record FileSystem =
  GetPathInfo :: "string \<Rightarrow> FileInfo"
  ListDirectory :: "string \<Rightarrow> FileInfo list"
  OpenForRead :: "string \<Rightarrow> byte list"

text \<open>
  The virtual functions. \<open>SeekRecordBegin\<close> gets the rest of the stream and \<open>FindLastRecordBegin\<close> the buffer; both return a
  number of bytes. \<open>ExtractNextRecord\<close> gets the chunk from its begin pointer to its end.
\<close>

record splitter =
  SeekRecordBegin :: "byte list \<Rightarrow> nat res"
  FindLastRecordBegin :: "byte list \<Rightarrow> nat res"
  ExtractNextRecord :: "byte list \<Rightarrow> (byte list option \<times> byte list) res"
  align_bytes :: nat

text \<open>
  \<open>is_fs\<close> is the open stream (its file and position), \<open>is_chunk\<close> the bytes of \<open>tmp_chunk_\<close> that are not yet consumed,
  \<open>is_data\<close> the size of its memory in words of eight bytes.
\<close>

record InputSplitBase =
  is_files :: "FileInfo list"
  is_file_offset :: "nat list"
  is_fs :: "nat \<times> nat"
  is_file_ptr :: nat
  is_offset_curr :: nat
  is_offset_begin :: nat
  is_offset_end :: nat
  is_chunk :: "byte list"
  is_data :: nat
  is_buffer_size :: nat
  is_overflow :: "byte list"

definition kBufferSize :: nat where
  "kBufferSize = 2 ^ 15"

definition new_InputSplitBase :: InputSplitBase where
  "new_InputSplitBase = \<lparr>is_files = [], is_file_offset = [], is_fs = (0, 0), is_file_ptr = 0, is_offset_curr = 0,
     is_offset_begin = 0, is_offset_end = 0, is_chunk = [], is_data = kBufferSize + 1, is_buffer_size = kBufferSize,
     is_overflow = []\<rparr>"

definition HintChunkSize :: "nat \<Rightarrow> InputSplitBase \<Rightarrow> InputSplitBase" where
  "HintChunkSize chunk_size s = s\<lparr>is_buffer_size := max (chunk_size div 8) (is_buffer_size s)\<rparr>"

section \<open>Opening\<close>

text \<open>\<open>std::strtok\<close> with the delimiter \<open>;\<close>: the nonempty pieces.\<close>

fun strtok :: "string \<Rightarrow> string \<Rightarrow> string list" where
  "strtok acc [] = (if acc = [] then [] else [acc])"
| "strtok acc (c # cs) =
     (if c = CHR '';'' then (if acc = [] then [] else [acc]) @ strtok [] cs else strtok (acc @ [c]) cs)"

definition InitInputFileInfo :: "FileSystem \<Rightarrow> string \<Rightarrow> FileInfo list" where
  "InitInputFileInfo fsys uri = concat (map (\<lambda>p.
     let info = GetPathInfo fsys p in
     if fi_type info = kDirectory
     then filter (\<lambda>i. fi_size i \<noteq> 0 \<and> fi_type i = kFile) (ListDirectory fsys (fi_path info))
     else if fi_size info \<noteq> 0 then [info] else []) (strtok [] uri))"

text \<open>The loop that fills \<open>file_offset_\<close>; \<open>off\<close> is the entry written last.\<close>

fun init_file_offset :: "nat \<Rightarrow> nat \<Rightarrow> FileInfo list \<Rightarrow> nat list res" where
  "init_file_offset align off [] = Ok [off]"
| "init_file_offset align off (f # fs) =
     check (fi_size f mod align = 0) ''file do not align'' (rmap ((#) off) (init_file_offset align (off + fi_size f) fs))"

definition upper_bound :: "nat list \<Rightarrow> nat \<Rightarrow> nat" where
  "upper_bound xs x = length (takeWhile (\<lambda>y. y \<le> x) xs)"

definition BeforeFirst :: "InputSplitBase \<Rightarrow> InputSplitBase" where
  "BeforeFirst s =
     (if is_offset_begin s \<ge> is_offset_end s then s
      else let fp = upper_bound (is_file_offset s) (is_offset_begin s) - 1 in
        s\<lparr>is_file_ptr := fp, is_fs := (fp, is_offset_begin s - is_file_offset s ! fp), is_offset_curr := is_offset_begin s,
          is_chunk := [], is_overflow := []\<rparr>)"

text \<open>
  \<open>SeekRecordBegin\<close> on the stream of a file, opened at \<open>pos\<close>. The stream that is left behind is set again by
  \<open>BeforeFirst\<close> before it is read.
\<close>

definition seek_in :: "splitter \<Rightarrow> FileSystem \<Rightarrow> FileInfo \<Rightarrow> nat \<Rightarrow> nat res" where
  "seek_in sp fsys f pos = SeekRecordBegin sp (drop pos (OpenForRead fsys (fi_path f)))"

definition Init :: "splitter \<Rightarrow> FileSystem \<Rightarrow> string \<Rightarrow> nat \<Rightarrow> nat \<Rightarrow> InputSplitBase \<Rightarrow> InputSplitBase res" where
  "Init sp fsys uri rank nsplit s =
     (let files = InitInputFileInfo fsys uri; align = align_bytes sp in
      rbind (init_file_offset align 0 files) (\<lambda>offs.
      let ntotal = last offs;
          nstep = ((ntotal + nsplit - 1) div nsplit + align - 1) div align * align;
          ob = min (nstep * rank) ntotal; oe = min (nstep * (rank + 1)) ntotal;
          s = s\<lparr>is_files := files, is_file_offset := offs, is_offset_begin := ob, is_offset_end := oe, is_offset_curr := ob\<rparr> in
      if ob = oe then Ok s
      else let fp = upper_bound offs ob - 1; fe = upper_bound offs oe - 1 in
        rbind (if oe \<noteq> offs ! fe then
                 check (offs ! fe < oe) ''offset_end_ >file_offset_[file_ptr_end_]''
                  (check (fe < length files) ''file_ptr_end_ < files_.size()''
                    (rmap ((+) oe) (seek_in sp fsys (files ! fe) (oe - offs ! fe))))
               else Ok oe) (\<lambda>oe'.
        rbind (if ob \<noteq> offs ! fp then rmap ((+) ob) (seek_in sp fsys (files ! fp) (ob - offs ! fp)) else Ok ob) (\<lambda>ob'.
        Ok (BeforeFirst (s\<lparr>is_file_ptr := fp, is_fs := (fp, 0), is_offset_begin := ob', is_offset_end := oe'\<rparr>))))))"

section \<open>Reading\<close>

text \<open>
  The loop of \<open>Read\<close>. A read of a stream gives the bytes that are left, up to the number asked for; \<open>buf\<close> is what has been read.
\<close>

function read_files :: "FileSystem \<Rightarrow> nat \<Rightarrow> byte list \<Rightarrow> InputSplitBase \<Rightarrow> (byte list \<times> InputSplitBase) res" where
  "read_files fsys nleft buf s =
     (let bs = take nleft (drop (snd (is_fs s)) (OpenForRead fsys (fi_path (is_files s ! fst (is_fs s))))); n = length bs;
          s' = s\<lparr>is_fs := (fst (is_fs s), snd (is_fs s) + n), is_offset_curr := is_offset_curr s + n\<rparr> in
      if nleft - n = 0 then Ok (buf @ bs, s')
      else if n = 0 then
        if is_offset_curr s \<noteq> is_file_offset s ! (is_file_ptr s + 1) then Err (Fatal ''file offset not calculated correctly'')
        else if is_file_ptr s + 1 \<ge> length (is_files s) then Ok (buf, s')
        else read_files fsys nleft buf (s'\<lparr>is_file_ptr := is_file_ptr s + 1, is_fs := (is_file_ptr s + 1, 0)\<rparr>)
      else read_files fsys (nleft - n) (buf @ bs) s')"
  by pat_completeness auto
termination
  by (relation "measures [\<lambda>(fsys, nleft, buf, s). nleft, \<lambda>(fsys, nleft, buf, s). length (is_files s) - is_file_ptr s]") auto

declare read_files.simps [simp del]

definition Read :: "FileSystem \<Rightarrow> nat \<Rightarrow> InputSplitBase \<Rightarrow> (byte list \<times> InputSplitBase) res" where
  "Read fsys sz s =
     (if is_offset_begin s \<ge> is_offset_end s then Ok ([], s)
      else let n = (if is_offset_curr s + sz > is_offset_end s then is_offset_end s - is_offset_curr s else sz) in
        if n = 0 then Ok ([], s) else read_files fsys n [] s)"

text \<open>\<open>None\<close> is the result false; otherwise the bytes of the chunk, whose number is \<open>*size\<close>.\<close>

definition ReadChunk :: "splitter \<Rightarrow> FileSystem \<Rightarrow> nat \<Rightarrow> InputSplitBase \<Rightarrow> (byte list option \<times> InputSplitBase) res" where
  "ReadChunk sp fsys max_size s =
     (if max_size \<le> length (is_overflow s) then Ok (Some [], s)
      else let olen = length (is_overflow s) in
        rbind (Read fsys (max_size - olen) (s\<lparr>is_overflow := []\<rparr>)) (\<lambda>(bs, s').
        let buf = is_overflow s @ bs in
        if length buf = 0 then Ok (None, s')
        else if length buf \<noteq> max_size then Ok (Some buf, s')
        else rbind (FindLastRecordBegin sp buf) (\<lambda>n. Ok (Some (take n buf), s'\<lparr>is_overflow := drop n buf\<rparr>))))"

text \<open>The loop of \<open>Chunk::Load\<close>, which need not end for an arbitrary record format.\<close>

partial_function (option) load_loop :: "splitter \<Rightarrow> FileSystem \<Rightarrow> InputSplitBase \<Rightarrow> (bool \<times> InputSplitBase) res option" where
  "load_loop sp fsys s =
     (case ReadChunk sp fsys ((is_data s - 1) * 8) s of
        Err e \<Rightarrow> Some (Err e)
      | Ok (None, s') \<Rightarrow> Some (Ok (False, s'))
      | Ok (Some c, s') \<Rightarrow>
          if length c = 0 then load_loop sp fsys (s'\<lparr>is_data := is_data s * 2\<rparr>)
          else Some (Ok (True, s'\<lparr>is_chunk := c\<rparr>)))"

definition Load :: "splitter \<Rightarrow> FileSystem \<Rightarrow> nat \<Rightarrow> InputSplitBase \<Rightarrow> (bool \<times> InputSplitBase) res option" where
  "Load sp fsys buffer_size s =
     load_loop sp fsys (if buffer_size + 1 > is_data s then s\<lparr>is_data := buffer_size + 1\<rparr> else s)"

definition ExtractNextChunk :: "InputSplitBase \<Rightarrow> byte list option \<times> InputSplitBase" where
  "ExtractNextChunk s = (if is_chunk s = [] then (None, s) else (Some (is_chunk s), s\<lparr>is_chunk := []\<rparr>))"

partial_function (option) is_NextRecord :: "splitter \<Rightarrow> FileSystem \<Rightarrow> InputSplitBase \<Rightarrow> (byte list option \<times> InputSplitBase) res option" where
  "is_NextRecord sp fsys s =
     (case ExtractNextRecord sp (is_chunk s) of
        Err e \<Rightarrow> Some (Err e)
      | Ok (Some r, c) \<Rightarrow> Some (Ok (Some r, s\<lparr>is_chunk := c\<rparr>))
      | Ok (None, c) \<Rightarrow>
          (case Load sp fsys (is_buffer_size s) (s\<lparr>is_chunk := c\<rparr>) of
             None \<Rightarrow> None
           | Some (Err e) \<Rightarrow> Some (Err e)
           | Some (Ok (loaded, s')) \<Rightarrow> if \<not> loaded then Some (Ok (None, s')) else is_NextRecord sp fsys s'))"

partial_function (option) NextChunk :: "splitter \<Rightarrow> FileSystem \<Rightarrow> InputSplitBase \<Rightarrow> (byte list option \<times> InputSplitBase) res option" where
  "NextChunk sp fsys s =
     (case ExtractNextChunk s of
        (Some c, s') \<Rightarrow> Some (Ok (Some c, s'))
      | (None, s') \<Rightarrow>
          (case Load sp fsys (is_buffer_size s') s' of
             None \<Rightarrow> None
           | Some (Err e) \<Rightarrow> Some (Err e)
           | Some (Ok (loaded, s'')) \<Rightarrow> if \<not> loaded then Some (Ok (None, s'')) else NextChunk sp fsys s''))"

text \<open>The calls of a client: everything up to the first result false.\<close>

partial_function (option) all_of :: "('s \<Rightarrow> ('a option \<times> 's) res option) \<Rightarrow> 's \<Rightarrow> ('a list \<times> 's) res option" where
  "all_of next s =
     (case next s of
        None \<Rightarrow> None
      | Some (Err e) \<Rightarrow> Some (Err e)
      | Some (Ok (None, s')) \<Rightarrow> Some (Ok ([], s'))
      | Some (Ok (Some r, s')) \<Rightarrow> Option.bind (all_of next s') (\<lambda>m. Some (rmap (\<lambda>(rs, s''). (r # rs, s'')) m)))"

section \<open>The files as one sequence of bytes\<close>

definition contents :: "FileSystem \<Rightarrow> FileInfo list \<Rightarrow> byte list list" where
  "contents fsys files = map (\<lambda>f. OpenForRead fsys (fi_path f)) files"

text \<open>What the file system promises of the listed files; \<open>InitInputFileInfo\<close> keeps only nonempty ones.\<close>

definition sized :: "FileSystem \<Rightarrow> FileInfo list \<Rightarrow> bool" where
  "sized fsys files \<longleftrightarrow> (\<forall>f\<in>set files. fi_size f = length (OpenForRead fsys (fi_path f)) \<and> 0 < fi_size f)"

definition offset_of :: "byte list list \<Rightarrow> nat \<Rightarrow> nat" where
  "offset_of fs i = length (concat (take i fs))"

definition offsets :: "byte list list \<Rightarrow> nat list" where
  "offsets fs = map (offset_of fs) [0..<Suc (length fs)]"

lemma length_contents [simp]: "length (contents fsys files) = length files"
  by (simp add: contents_def)

lemma nth_contents [simp]: "i < length files \<Longrightarrow> contents fsys files ! i = OpenForRead fsys (fi_path (files ! i))"
  by (simp add: contents_def)

lemma offset_of_0 [simp]: "offset_of fs 0 = 0"
  by (simp add: offset_of_def)

lemma offset_of_Suc: "i < length fs \<Longrightarrow> offset_of fs (Suc i) = offset_of fs i + length (fs ! i)"
  by (simp add: offset_of_def take_Suc_conv_app_nth)

lemma offset_of_all [simp]: "offset_of fs (length fs) = length (concat fs)"
  by (simp add: offset_of_def)

lemma offset_of_mono: "i \<le> j \<Longrightarrow> offset_of fs i \<le> offset_of fs j"
proof -
  assume "i \<le> j"
  then have "take j fs = take i fs @ take (j - i) (drop i fs)" by (metis le_add_diff_inverse take_add)
  then show ?thesis by (simp add: offset_of_def)
qed

lemma offset_of_le: "offset_of fs i \<le> length (concat fs)"
  using offset_of_mono [of i "max i (length fs)" fs] by (simp add: offset_of_def)

lemma nth_offsets [simp]: "i \<le> length fs \<Longrightarrow> offsets fs ! i = offset_of fs i"
  by (simp add: offsets_def del: upt_Suc)

lemma last_offsets [simp]: "last (offsets fs) = length (concat fs)"
  by (simp add: offsets_def)

lemma drop_offset:
  assumes "i < length fs" and "p \<le> length (fs ! i)"
  shows "drop (offset_of fs i + p) (concat fs) = drop p (fs ! i) @ concat (drop (Suc i) fs)"
proof -
  have "concat fs = concat (take i fs) @ fs ! i @ concat (drop (Suc i) fs)"
    using id_take_nth_drop [OF assms(1)] by (metis concat.simps(2) concat_append)
  then show ?thesis using assms(2) by (simp add: offset_of_def)
qed

lemma init_file_offset_ok:
  assumes "\<forall>f\<in>set files. fi_size f = length (OpenForRead fsys (fi_path f)) \<and> fi_size f mod align = 0"
  shows "init_file_offset align off files = Ok (map ((+) off) (offsets (contents fsys files)))"
  using assms
proof (induction files arbitrary: off)
  case Nil
  show ?case by (simp add: offsets_def contents_def)
next
  case (Cons f files)
  have "map (offset_of (contents fsys (f # files))) (map Suc [0..<Suc (length files)]) =
      map ((+) (fi_size f)) (offsets (contents fsys files))"
    using Cons.prems by (simp add: offsets_def offset_of_def contents_def del: upt_Suc)
  then have "offsets (contents fsys (f # files)) = 0 # map ((+) (fi_size f)) (offsets (contents fsys files))"
    by (simp add: offsets_def map_Suc_upt upt_conv_Cons del: upt_Suc)
  moreover have "init_file_offset align (off + fi_size f) files = Ok (map ((+) (off + fi_size f)) (offsets (contents fsys files)))"
    using Cons.prems by (intro Cons.IH) (meson list.set_intros(2))
  moreover have "fi_size f mod align = 0" using Cons.prems by (meson list.set_intros(1))
  ultimately show ?case by (simp add: comp_def add.assoc)
qed

text \<open>The file a position lies in.\<close>

lemma takeWhile_eq_take_nth:
  assumes "n \<le> length xs" and "\<And>i. i < n \<Longrightarrow> P (xs ! i)" and "n < length xs \<Longrightarrow> \<not> P (xs ! n)"
  shows "length (takeWhile P xs) = n"
proof (cases "n < length xs")
  case True
  then show ?thesis using assms takeWhile_eq_take_P_nth [of n xs P] by simp
next
  case False
  then have "\<forall>x\<in>set xs. P x" using assms(1,2) by (auto simp: in_set_conv_nth)
  then have "takeWhile P xs = xs" by (simp only: takeWhile_eq_all_conv)
  then show ?thesis using assms(1) False by (metis le_antisym not_less)
qed

lemma upper_bound_offsets:
  assumes "i \<le> length fs" and "offset_of fs i \<le> x" and "i < length fs \<Longrightarrow> x < offset_of fs (Suc i)"
  shows "upper_bound (offsets fs) x = Suc i"
  unfolding upper_bound_def
proof (rule takeWhile_eq_take_nth)
  show "Suc i \<le> length (offsets fs)" using assms(1) by (simp add: offsets_def)
  show "offsets fs ! j \<le> x" if "j < Suc i" for j
    using that assms(1,2) offset_of_mono [of j i fs] by simp
  show "\<not> offsets fs ! Suc i \<le> x" if "Suc i < length (offsets fs)"
    using that assms(3) by (simp add: offsets_def del: upt_Suc)
qed

lemma file_of_position:
  assumes "x < length (concat fs)"
  obtains i where "i < length fs" "offset_of fs i \<le> x" "x < offset_of fs (Suc i)"
proof -
  have "\<exists>i < length fs. offset_of fs i \<le> x \<and> x < offset_of fs (Suc i)"
    using assms
  proof (induction fs arbitrary: x)
    case (Cons f fs)
    show ?case
    proof (cases "x < length f")
      case True
      then show ?thesis by (intro exI [of _ 0]) (simp add: offset_of_def)
    next
      case False
      then obtain i where "i < length fs" "offset_of fs i \<le> x - length f" "x - length f < offset_of fs (Suc i)"
        using Cons.IH [of "x - length f"] Cons.prems by (metis concat.simps(2) length_append less_diff_conv2 linorder_not_less add.commute)
      then show ?thesis using False by (intro exI [of _ "Suc i"]) (auto simp: offset_of_def)
    qed
  qed simp
  then show ?thesis using that by blast
qed

section \<open>Reading the range of a part\<close>

definition all_bytes :: "FileSystem \<Rightarrow> InputSplitBase \<Rightarrow> byte list" where
  "all_bytes fsys s = concat (contents fsys (is_files s))"

definition unread :: "FileSystem \<Rightarrow> InputSplitBase \<Rightarrow> byte list" where
  "unread fsys s =
     (if is_offset_begin s < is_offset_end s
      then take (is_offset_end s - is_offset_curr s) (drop (is_offset_curr s) (all_bytes fsys s)) else [])"

definition pending :: "FileSystem \<Rightarrow> InputSplitBase \<Rightarrow> byte list" where
  "pending fsys s = is_overflow s @ unread fsys s"

definition split_inv :: "FileSystem \<Rightarrow> InputSplitBase \<Rightarrow> bool" where
  "split_inv fsys s \<longleftrightarrow> sized fsys (is_files s) \<and> is_file_offset s = offsets (contents fsys (is_files s)) \<and>
     is_offset_end s \<le> length (all_bytes fsys s) \<and> 2 \<le> is_data s \<and>
     (is_offset_begin s < is_offset_end s \<longrightarrow>
        is_offset_curr s \<le> is_offset_end s \<and> fst (is_fs s) = is_file_ptr s \<and> is_file_ptr s < length (is_files s) \<and>
        is_offset_curr s = offset_of (contents fsys (is_files s)) (is_file_ptr s) + snd (is_fs s) \<and>
        snd (is_fs s) \<le> length (contents fsys (is_files s) ! is_file_ptr s))"

lemma length_unread:
  assumes "split_inv fsys s" and "is_offset_begin s < is_offset_end s"
  shows "length (unread fsys s) = is_offset_end s - is_offset_curr s"
  using assms by (auto simp: split_inv_def unread_def min_def)

lemma read_files_ok:
  assumes "split_inv fsys s" and "is_offset_begin s < is_offset_end s" and "0 < nleft" and "nleft \<le> is_offset_end s - is_offset_curr s"
  shows "\<exists>fs fp. read_files fsys nleft buf s =
       Ok (buf @ take nleft (drop (is_offset_curr s) (all_bytes fsys s)),
           s\<lparr>is_fs := fs, is_file_ptr := fp, is_offset_curr := is_offset_curr s + nleft\<rparr>) \<and>
     split_inv fsys (s\<lparr>is_fs := fs, is_file_ptr := fp, is_offset_curr := is_offset_curr s + nleft\<rparr>)"
  using assms
proof (induction fsys nleft buf s rule: read_files.induct)
  case (1 fsys nleft buf s)
  let ?fs = "contents fsys (is_files s)" and ?i = "is_file_ptr s" and ?p = "snd (is_fs s)"
  let ?f = "?fs ! ?i" and ?bs = "take nleft (drop ?p (?fs ! ?i))"
  have i: "fst (is_fs s) = ?i" "?i < length (is_files s)" "is_offset_curr s = offset_of ?fs ?i + ?p" "?p \<le> length ?f"
    "is_file_offset s = offsets ?fs" "is_offset_end s \<le> length (concat ?fs)"
    using "1.prems" by (auto simp: split_inv_def all_bytes_def)
  have d: "drop (is_offset_curr s) (all_bytes fsys s) = drop ?p ?f @ concat (drop (Suc ?i) ?fs)"
    using drop_offset [of ?i ?fs ?p] i by (simp add: all_bytes_def)
  have b: "take nleft (drop ?p (OpenForRead fsys (fi_path (is_files s ! fst (is_fs s))))) = ?bs" using i by simp
  consider (here) "nleft \<le> length ?f - ?p" | (eof) "length ?f = ?p" | (part) "?p < length ?f" "length ?f - ?p < nleft"
    using i(4) by linarith
  then show ?case
  proof cases
    case here
    then show ?thesis using "1.prems" i d
      by (intro exI [of _ "(?i, ?p + nleft)"] exI [of _ ?i])
        (subst read_files.simps, auto simp: Let_def split_inv_def all_bytes_def)
  next
    case eof
    have nx: "is_offset_curr s = offset_of ?fs (Suc ?i)" using i eof offset_of_Suc [of ?i ?fs] by simp
    have lt: "Suc ?i < length (is_files s)"
    proof (rule ccontr)
      assume "\<not> Suc ?i < length (is_files s)"
      then have "Suc ?i = length ?fs" using i(2) by simp
      then have "is_offset_curr s = length (concat ?fs)" using nx by (simp only: offset_of_all)
      then show False using "1.prems" i(6) by simp
    qed
    let ?s = "s\<lparr>is_file_ptr := Suc ?i, is_fs := (Suc ?i, 0)\<rparr>"
    have inv: "split_inv fsys ?s" using "1.prems" i nx lt by (simp add: split_inv_def all_bytes_def)
    have e: "OpenForRead fsys (fi_path (is_files s ! fst (is_fs s))) = ?f" "is_file_offset s ! (?i + 1) = is_offset_curr s"
      using i nx lt by simp_all
    have r: "read_files fsys nleft buf s = read_files fsys nleft buf ?s"
      by (subst read_files.simps) (use e "1.prems"(3) eof lt in \<open>simp add: Let_def\<close>)
    have "\<exists>fs fp. read_files fsys nleft buf ?s =
       Ok (buf @ take nleft (drop (is_offset_curr ?s) (all_bytes fsys ?s)),
           ?s\<lparr>is_fs := fs, is_file_ptr := fp, is_offset_curr := is_offset_curr ?s + nleft\<rparr>) \<and>
     split_inv fsys (?s\<lparr>is_fs := fs, is_file_ptr := fp, is_offset_curr := is_offset_curr ?s + nleft\<rparr>)"
      using "1.IH"(1) [OF refl refl refl] inv "1.prems"(2-4) e eof lt by (simp add: Let_def)
    then show ?thesis unfolding r by (simp add: all_bytes_def)
  next
    case part
    let ?n = "length ?f - ?p"
    let ?s = "s\<lparr>is_fs := (?i, ?p + ?n), is_offset_curr := is_offset_curr s + ?n\<rparr>"
    have inv: "split_inv fsys ?s" using "1.prems" i part by (simp add: split_inv_def all_bytes_def)
    have r: "read_files fsys nleft buf s = read_files fsys (nleft - ?n) (buf @ drop ?p ?f) ?s"
      by (subst read_files.simps) (use "1.prems"(3) i part in \<open>simp add: Let_def\<close>)
    have "\<exists>fs fp. read_files fsys (nleft - ?n) (buf @ drop ?p ?f) ?s =
       Ok ((buf @ drop ?p ?f) @ take (nleft - ?n) (drop (is_offset_curr ?s) (all_bytes fsys ?s)),
           ?s\<lparr>is_fs := fs, is_file_ptr := fp, is_offset_curr := is_offset_curr ?s + (nleft - ?n)\<rparr>) \<and>
     split_inv fsys (?s\<lparr>is_fs := fs, is_file_ptr := fp, is_offset_curr := is_offset_curr ?s + (nleft - ?n)\<rparr>)"
      using "1.IH"(2) [OF refl refl refl] inv "1.prems"(2-4) i part by (simp add: Let_def)
    moreover have "drop ?p ?f @ take (nleft - ?n) (drop (is_offset_curr s + ?n) (all_bytes fsys s)) =
        take nleft (drop (is_offset_curr s) (all_bytes fsys s))"
      using part d drop_drop [of ?n "is_offset_curr s" "all_bytes fsys s"] by (simp add: add.commute)
    ultimately show ?thesis unfolding r using part by (simp add: all_bytes_def)
  qed
qed

lemma frame [simp]:
  "split_inv fsys (s\<lparr>is_overflow := x\<rparr>) = split_inv fsys s" "split_inv fsys (s\<lparr>is_chunk := c\<rparr>) = split_inv fsys s"
  "unread fsys (s\<lparr>is_overflow := x\<rparr>) = unread fsys s" "unread fsys (s\<lparr>is_chunk := c\<rparr>) = unread fsys s"
  "unread fsys (s\<lparr>is_data := d\<rparr>) = unread fsys s" "pending fsys (s\<lparr>is_overflow := x\<rparr>) = x @ unread fsys s"
  "pending fsys (s\<lparr>is_chunk := c\<rparr>) = pending fsys s" "pending fsys (s\<lparr>is_data := d\<rparr>) = pending fsys s"
  by (simp_all add: split_inv_def unread_def pending_def all_bytes_def)

lemma split_inv_data: "split_inv fsys s \<Longrightarrow> 2 \<le> d \<Longrightarrow> split_inv fsys (s\<lparr>is_data := d\<rparr>)"
  by (auto simp: split_inv_def all_bytes_def)

lemma Read_ok:
  assumes inv: "split_inv fsys s"
  shows "\<exists>fs fp oc. Read fsys n s = Ok (take n (unread fsys s), s\<lparr>is_fs := fs, is_file_ptr := fp, is_offset_curr := oc\<rparr>) \<and>
     split_inv fsys (s\<lparr>is_fs := fs, is_file_ptr := fp, is_offset_curr := oc\<rparr>) \<and>
     unread fsys (s\<lparr>is_fs := fs, is_file_ptr := fp, is_offset_curr := oc\<rparr>) = drop n (unread fsys s)"
proof (cases "is_offset_begin s < is_offset_end s")
  case False
  then show ?thesis using inv
    by (intro exI [of _ "is_fs s"] exI [of _ "is_file_ptr s"] exI [of _ "is_offset_curr s"]) (simp add: Read_def unread_def)
next
  case True
  let ?l = "is_offset_end s - is_offset_curr s" and ?d = "drop (is_offset_curr s) (all_bytes fsys s)"
  have c: "is_offset_curr s \<le> is_offset_end s" and u: "unread fsys s = take ?l ?d"
    using inv True by (simp_all add: split_inv_def unread_def)
  define m where "m = min n ?l"
  have sz: "(if is_offset_curr s + n > is_offset_end s then ?l else n) = m" using c by (auto simp: m_def)
  show ?thesis
  proof (cases "m = 0")
    case True
    then have "take n (unread fsys s) = []" "drop n (unread fsys s) = unread fsys s"
      by (cases "n = 0"; simp add: m_def u min_def split: if_splits)+
    then show ?thesis using inv True sz \<open>is_offset_begin s < is_offset_end s\<close>
      by (intro exI [of _ "is_fs s"] exI [of _ "is_file_ptr s"] exI [of _ "is_offset_curr s"]) (simp add: Read_def)
  next
    case False
    from read_files_ok [OF inv True, of m "[]"] False obtain fs fp where
      r: "read_files fsys m [] s = Ok (take m ?d, s\<lparr>is_fs := fs, is_file_ptr := fp, is_offset_curr := is_offset_curr s + m\<rparr>)"
      and i: "split_inv fsys (s\<lparr>is_fs := fs, is_file_ptr := fp, is_offset_curr := is_offset_curr s + m\<rparr>)"
      by (auto simp: m_def)
    have "Read fsys n s = read_files fsys m [] s" using True False sz by (simp add: Read_def)
    moreover have "take m ?d = take n (unread fsys s)" by (simp add: u m_def min.commute)
    moreover have "unread fsys (s\<lparr>is_fs := fs, is_file_ptr := fp, is_offset_curr := is_offset_curr s + m\<rparr>) = drop n (unread fsys s)"
      using True c by (auto simp: unread_def all_bytes_def m_def drop_take min_def add.commute)
    ultimately show ?thesis using r i by (intro exI conjI) (auto simp del: split_paired_Ex)
  qed
qed

section \<open>What the base needs of a record format\<close>

text \<open>
  \<open>fmt c rs\<close>: the bytes \<open>c\<close> hold whole records, \<open>rs\<close>. \<open>cut c p\<close>: position \<open>p\<close> of \<open>c\<close> lies between two records.
  \<open>files fs rs\<close>: files with these contents hold the records \<open>rs\<close>. \<open>view\<close> is what a client sees in an extracted
  record (an empty list for a record of line ends only).
\<close>

locale chunk_format =
  fixes sp :: splitter
    and fmt :: "byte list \<Rightarrow> 'r list \<Rightarrow> bool"
    and view :: "byte list \<Rightarrow> 'r list"
  assumes fmt_Nil: "fmt [] rs \<longleftrightarrow> rs = []"
    and find_last: "fmt (w @ rest) rs \<Longrightarrow> w \<noteq> [] \<Longrightarrow> length w mod 8 = 0 \<Longrightarrow>
      \<exists>n r1 r2. FindLastRecordBegin sp w = Ok n \<and> n \<le> length w \<and> rs = r1 @ r2 \<and> fmt (take n w) r1 \<and> fmt (drop n w @ rest) r2"
    and extract_Nil: "ExtractNextRecord sp [] = Ok (None, [])"
    and extract_ok: "fmt c rs \<Longrightarrow> c \<noteq> [] \<Longrightarrow>
      \<exists>out c' r2. ExtractNextRecord sp c = Ok (Some out, c') \<and> length c' < length c \<and> rs = view out @ r2 \<and> fmt c' r2"

context chunk_format
begin

lemma ReadChunk_ok:
  assumes inv: "split_inv fsys s" and m: "0 < m" "m mod 8 = 0" and f: "fmt (pending fsys s) rs"
  shows "\<exists>c s'. ReadChunk sp fsys m s = Ok (c, s') \<and> split_inv fsys s' \<and> is_data s' = is_data s \<and> is_chunk s' = is_chunk s \<and>
     is_buffer_size s' = is_buffer_size s \<and>
     (case c of None \<Rightarrow> pending fsys s = [] \<and> pending fsys s' = []
      | Some c \<Rightarrow> pending fsys s = c @ pending fsys s' \<and> (c = [] \<longrightarrow> m \<le> length (pending fsys s)) \<and>
          (\<exists>r1 r2. rs = r1 @ r2 \<and> fmt c r1 \<and> fmt (pending fsys s') r2))"
proof (cases "m \<le> length (is_overflow s)")
  case True
  then show ?thesis using inv f fmt_Nil [of "[]"]
    by (intro exI [of _ "Some []"] exI [of _ s]) (auto simp: ReadChunk_def pending_def)
next
  case False
  let ?o = "is_overflow s" and ?n = "m - length (is_overflow s)" and ?p = "pending fsys s"
  have inv': "split_inv fsys (s\<lparr>is_overflow := []\<rparr>)" and u: "unread fsys (s\<lparr>is_overflow := []\<rparr>) = unread fsys s"
    using inv by simp_all
  from Read_ok [OF inv', of ?n] obtain fs fp oc where
    r: "Read fsys ?n (s\<lparr>is_overflow := []\<rparr>) = Ok (take ?n (unread fsys s), s\<lparr>is_overflow := [], is_fs := fs, is_file_ptr := fp, is_offset_curr := oc\<rparr>)"
    and i: "split_inv fsys (s\<lparr>is_overflow := [], is_fs := fs, is_file_ptr := fp, is_offset_curr := oc\<rparr>)"
    and d: "unread fsys (s\<lparr>is_overflow := [], is_fs := fs, is_file_ptr := fp, is_offset_curr := oc\<rparr>) = drop ?n (unread fsys s)"
    unfolding u by auto
  define s' where "s' = s\<lparr>is_overflow := [], is_fs := fs, is_file_ptr := fp, is_offset_curr := oc\<rparr>"
  have buf: "?o @ take ?n (unread fsys s) = take m ?p" using False by (simp add: pending_def)
  have rest: "unread fsys s' = drop m ?p" using False d by (simp add: s'_def pending_def)
  have keep: "is_data s' = is_data s" "is_chunk s' = is_chunk s" "is_buffer_size s' = is_buffer_size s" "is_overflow s' = []"
    by (simp_all add: s'_def)
  have i': "split_inv fsys s'" unfolding s'_def by (rule i)
  have ov: "split_inv fsys (s'\<lparr>is_overflow := x\<rparr>)" "pending fsys (s'\<lparr>is_overflow := x\<rparr>) = x @ drop m ?p" for x
    using i' rest by simp_all
  have rc: "ReadChunk sp fsys m s = (if take m ?p = [] then Ok (None, s') else if length (take m ?p) \<noteq> m then Ok (Some (take m ?p), s')
      else rbind (FindLastRecordBegin sp (take m ?p)) (\<lambda>n. Ok (Some (take n (take m ?p)), s'\<lparr>is_overflow := drop n (take m ?p)\<rparr>)))"
    by (simp only: ReadChunk_def Let_def if_not_P [OF False] r s'_def rbind.simps prod.case buf length_0_conv)
  have ps: "pending fsys s' = drop m ?p" using rest keep(4) by (simp add: pending_def)
  consider (none) "take m ?p = []" | (short) "take m ?p \<noteq> []" "length ?p < m" | (full) "take m ?p \<noteq> []" "length (take m ?p) = m"
    by fastforce
  then show ?thesis
  proof cases
    case none
    then have "?p = []" using m(1) by simp
    then show ?thesis using none rc i' keep ps by (intro exI [of _ None] exI [of _ s']) simp
  next
    case short
    then show ?thesis using rc i' keep ps f fmt_Nil [of "[]"] by (intro exI [of _ "Some ?p"] exI [of _ s']) auto
  next
    case full
    have "fmt (take m ?p @ drop m ?p) rs" using f by simp
    from find_last [OF this full(1)] full(2) m(2) obtain n r1 r2 where n: "FindLastRecordBegin sp (take m ?p) = Ok n" "n \<le> m" "rs = r1 @ r2"
        "fmt (take n (take m ?p)) r1" "fmt (drop n (take m ?p) @ drop m ?p) r2" by auto
    have "m \<le> length ?p" using full(2) by simp
    moreover have "?p = take n (take m ?p) @ drop n (take m ?p) @ drop m ?p"
      by (metis append_assoc append_take_drop_id)
    ultimately show ?thesis using rc full n keep ov [of "drop n (take m ?p)"]
      by (intro exI [of _ "Some (take n (take m ?p))"] exI [of _ "s'\<lparr>is_overflow := drop n (take m ?p)\<rparr>"]) auto
  qed
qed

definition loads :: "FileSystem \<Rightarrow> 'r list \<Rightarrow> InputSplitBase \<Rightarrow> bool \<Rightarrow> InputSplitBase \<Rightarrow> bool" where
  "loads fsys rs s b s' \<longleftrightarrow> split_inv fsys s' \<and> is_buffer_size s' = is_buffer_size s \<and>
     (if b then \<exists>r1 r2. rs = r1 @ r2 \<and> fmt (is_chunk s') r1 \<and> fmt (pending fsys s') r2 \<and> is_chunk s' \<noteq> [] \<and>
        pending fsys s = is_chunk s' @ pending fsys s'
      else pending fsys s = [] \<and> pending fsys s' = [] \<and> is_chunk s' = is_chunk s)"

lemma loads_cong:
  assumes "pending fsys t = pending fsys s" "is_chunk t = is_chunk s" "is_buffer_size t = is_buffer_size s"
  shows "loads fsys rs t = loads fsys rs s"
  using assms by (intro ext) (simp add: loads_def)

text \<open>Loading ends: the buffer grows until it holds a record or everything that is left.\<close>

lemma load_loop_ok:
  assumes "split_inv fsys s" and "fmt (pending fsys s) rs"
  shows "\<exists>b s'. load_loop sp fsys s = Some (Ok (b, s')) \<and> loads fsys rs s b s'"
  using assms
proof (induction "length (pending fsys s) + 1 - (is_data s - 1) * 8" arbitrary: s rule: less_induct)
  case less
  let ?m = "(is_data s - 1) * 8"
  have d2: "2 \<le> is_data s" using less.prems(1) by (simp add: split_inv_def)
  then have m: "0 < ?m" "?m mod 8 = 0" by simp_all
  from ReadChunk_ok [OF less.prems(1) m less.prems(2)] obtain c s' where
    rc: "ReadChunk sp fsys ?m s = Ok (c, s')" and i: "split_inv fsys s'" "is_data s' = is_data s" "is_chunk s' = is_chunk s"
      "is_buffer_size s' = is_buffer_size s"
    and c: "case c of None \<Rightarrow> pending fsys s = [] \<and> pending fsys s' = []
      | Some c \<Rightarrow> pending fsys s = c @ pending fsys s' \<and> (c = [] \<longrightarrow> ?m \<le> length (pending fsys s)) \<and>
          (\<exists>r1 r2. rs = r1 @ r2 \<and> fmt c r1 \<and> fmt (pending fsys s') r2)" by (elim exE conjE) (rule that)
  show ?case
  proof (cases c)
    case None
    then have "load_loop sp fsys s = Some (Ok (False, s'))" using rc by (subst load_loop.simps) simp
    moreover have "loads fsys rs s False s'" using None c i by (simp add: loads_def)
    ultimately show ?thesis by blast
  next
    case (Some b)
    show ?thesis
    proof (cases "b = []")
      case False
      then have "load_loop sp fsys s = Some (Ok (True, s'\<lparr>is_chunk := b\<rparr>))" using rc Some by (subst load_loop.simps) simp
      moreover have "loads fsys rs s True (s'\<lparr>is_chunk := b\<rparr>)" using c i Some False by (simp add: loads_def)
      ultimately show ?thesis by blast
    next
      case True
      let ?s = "s'\<lparr>is_data := is_data s * 2\<rparr>"
      from c [unfolded Some True option.case] have p': "pending fsys s = pending fsys s'" by simp
      from c [unfolded Some True option.case] have le: "?m \<le> length (pending fsys s)" by blast
      have p: "pending fsys ?s = pending fsys s" and f: "fmt (pending fsys ?s) rs" using p' less.prems(2) by simp_all
      have iv: "split_inv fsys ?s" using i(1) d2 by (intro split_inv_data) simp_all
      have "?m < (is_data ?s - 1) * 8" using d2 by simp
      then have "length (pending fsys ?s) + 1 - (is_data ?s - 1) * 8 < length (pending fsys s) + 1 - ?m"
        using le unfolding p by linarith
      note IH = less.hyps [OF this iv f]
      have "load_loop sp fsys s = load_loop sp fsys ?s" using rc Some True by (subst load_loop.simps) simp
      moreover have "loads fsys rs ?s = loads fsys rs s" by (rule loads_cong) (use p i(3,4) in simp_all)
      ultimately show ?thesis using IH by simp
    qed
  qed
qed

lemma Load_ok:
  assumes "split_inv fsys s" and "fmt (pending fsys s) rs"
  shows "\<exists>b s'. Load sp fsys n s = Some (Ok (b, s')) \<and> loads fsys rs s b s'"
proof -
  define t where "t = (if n + 1 > is_data s then s\<lparr>is_data := n + 1\<rparr> else s)"
  have "2 \<le> is_data s" using assms(1) by (simp add: split_inv_def)
  then have "split_inv fsys t" "pending fsys t = pending fsys s" "is_chunk t = is_chunk s" "is_buffer_size t = is_buffer_size s"
    using assms(1) by (simp_all add: t_def split_inv_data)
  then show ?thesis using load_loop_ok [of fsys t rs] assms(2) loads_cong [of fsys t s rs] unfolding Load_def t_def [symmetric] by simp
qed

end

text \<open>The records still to come of a split: those of the chunk at hand, then those behind it.\<close>

definition holds :: "('r list \<Rightarrow> byte list \<Rightarrow> bool) \<Rightarrow> FileSystem \<Rightarrow> InputSplitBase \<Rightarrow> 'r list \<Rightarrow> bool" where
  "holds F fsys s rs \<longleftrightarrow> split_inv fsys s \<and> (\<exists>r1 r2. rs = r1 @ r2 \<and> F r1 (is_chunk s) \<and> F r2 (pending fsys s))"

definition ahead :: "FileSystem \<Rightarrow> InputSplitBase \<Rightarrow> byte list" where
  "ahead fsys s = is_chunk s @ pending fsys s"

context chunk_format
begin

abbreviation has :: "FileSystem \<Rightarrow> InputSplitBase \<Rightarrow> 'r list \<Rightarrow> bool" where
  "has \<equiv> holds (\<lambda>rs c. fmt c rs)"

lemma extract_step:
  assumes "has fsys s rs" and "is_chunk s \<noteq> []"
  shows "\<exists>out s' r2. is_NextRecord sp fsys s = Some (Ok (Some out, s')) \<and> has fsys s' r2 \<and> rs = view out @ r2 \<and>
     length (ahead fsys s') < length (ahead fsys s)"
proof -
  obtain r1 r2 where r: "split_inv fsys s" "rs = r1 @ r2" "fmt (is_chunk s) r1" "fmt (pending fsys s) r2"
    using assms(1) by (auto simp: holds_def)
  from extract_ok [OF r(3) assms(2)] obtain out c' r3 where e: "ExtractNextRecord sp (is_chunk s) = Ok (Some out, c')"
      "length c' < length (is_chunk s)" "r1 = view out @ r3" "fmt c' r3" by blast
  have "is_NextRecord sp fsys s = Some (Ok (Some out, s\<lparr>is_chunk := c'\<rparr>))" by (subst is_NextRecord.simps) (simp add: e(1))
  moreover have "has fsys (s\<lparr>is_chunk := c'\<rparr>) (r3 @ r2)" using r e by (auto simp: holds_def)
  ultimately show ?thesis using r e by (intro exI [of _ out] exI [of _ "s\<lparr>is_chunk := c'\<rparr>"] exI [of _ "r3 @ r2"]) (simp add: ahead_def)
qed

text \<open>On an empty chunk both loops load once, and either end or have bytes.\<close>

lemma load_step:
  assumes "has fsys s rs" and "is_chunk s = []"
  shows "\<exists>b s'. Load sp fsys (is_buffer_size s) s = Some (Ok (b, s')) \<and> has fsys s' rs \<and> ahead fsys s' = ahead fsys s \<and>
     (if b then is_chunk s' \<noteq> [] else ahead fsys s = [] \<and> rs = [])"
proof -
  have r: "split_inv fsys s" "fmt (pending fsys s) rs" using assms fmt_Nil by (auto simp: holds_def)
  from Load_ok [OF r] obtain b s' where l: "Load sp fsys (is_buffer_size s) s = Some (Ok (b, s'))" "loads fsys rs s b s'" by blast
  have "has fsys s' rs \<and> ahead fsys s' = ahead fsys s \<and> (if b then is_chunk s' \<noteq> [] else ahead fsys s = [] \<and> rs = [])"
  proof (cases b)
    case True
    then show ?thesis using l(2) assms(2) by (auto simp: loads_def holds_def ahead_def)
  next
    case False
    then show ?thesis using l(2) assms(2) r(2) fmt_Nil by (auto simp: loads_def holds_def ahead_def)
  qed
  then show ?thesis using l(1) by blast
qed

lemma NextRecord_step:
  assumes "has fsys s rs"
  shows "(\<exists>s'. is_NextRecord sp fsys s = Some (Ok (None, s')) \<and> rs = [] \<and> ahead fsys s = []) \<or>
     (\<exists>out s' r2. is_NextRecord sp fsys s = Some (Ok (Some out, s')) \<and> has fsys s' r2 \<and> rs = view out @ r2 \<and>
        length (ahead fsys s') < length (ahead fsys s))"
proof (cases "is_chunk s = []")
  case False
  then show ?thesis using extract_step [OF assms] by blast
next
  case True
  from load_step [OF assms True] obtain b s' where l: "Load sp fsys (is_buffer_size s) s = Some (Ok (b, s'))" "has fsys s' rs"
      "ahead fsys s' = ahead fsys s" "if b then is_chunk s' \<noteq> [] else ahead fsys s = [] \<and> rs = []" by blast
  have sc: "s\<lparr>is_chunk := []\<rparr> = s" using True by simp
  have n: "is_NextRecord sp fsys s = (if \<not> b then Some (Ok (None, s')) else is_NextRecord sp fsys s')"
    by (subst is_NextRecord.simps) (simp add: True extract_Nil sc l(1))
  show ?thesis
  proof (cases b)
    case False
    then show ?thesis using n l(4) by simp
  next
    case True
    then show ?thesis using n l extract_step [OF l(2)] by simp
  qed
qed

lemma all_records:
  assumes "has fsys s rs"
  shows "\<exists>outs s'. all_of (is_NextRecord sp fsys) s = Some (Ok (outs, s')) \<and> concat (map view outs) = rs"
  using assms
proof (induction "length (ahead fsys s)" arbitrary: s rs rule: less_induct)
  case less
  from NextRecord_step [OF less.prems] show ?case
  proof (elim disjE exE conjE)
    fix s' assume "is_NextRecord sp fsys s = Some (Ok (None, s'))" "rs = []"
    then show ?thesis by (subst all_of.simps) simp
  next
    fix out s' r2
    assume n: "is_NextRecord sp fsys s = Some (Ok (Some out, s'))" and r: "has fsys s' r2" "rs = view out @ r2"
      and l: "length (ahead fsys s') < length (ahead fsys s)"
    from less.hyps [OF l r(1)] obtain outs s'' where "all_of (is_NextRecord sp fsys) s' = Some (Ok (outs, s''))" "concat (map view outs) = r2"
      by blast
    then have "all_of (is_NextRecord sp fsys) s = Some (Ok (out # outs, s''))" "concat (map view (out # outs)) = rs"
      using n r(2) by (subst all_of.simps, simp_all)
    then show ?thesis by blast
  qed
qed

lemma chunk_step:
  assumes "has fsys s rs" and "is_chunk s \<noteq> []"
  shows "\<exists>r1 r2. NextChunk sp fsys s = Some (Ok (Some (is_chunk s), s\<lparr>is_chunk := []\<rparr>)) \<and> rs = r1 @ r2 \<and> fmt (is_chunk s) r1 \<and>
     has fsys (s\<lparr>is_chunk := []\<rparr>) r2 \<and> ahead fsys s = is_chunk s @ ahead fsys (s\<lparr>is_chunk := []\<rparr>)"
proof -
  have "NextChunk sp fsys s = Some (Ok (Some (is_chunk s), s\<lparr>is_chunk := []\<rparr>))"
    using assms(2) by (subst NextChunk.simps) (simp add: ExtractNextChunk_def)
  moreover obtain r1 r2 where "split_inv fsys s" "rs = r1 @ r2" "fmt (is_chunk s) r1" "fmt (pending fsys s) r2"
    using assms(1) by (auto simp: holds_def)
  ultimately show ?thesis
    by (intro exI [of _ r1] exI [of _ r2]) (simp add: holds_def ahead_def fmt_Nil)
qed

lemma NextChunk_step:
  assumes "has fsys s rs"
  shows "(\<exists>s'. NextChunk sp fsys s = Some (Ok (None, s')) \<and> rs = [] \<and> ahead fsys s = []) \<or>
     (\<exists>c s' r1 r2. NextChunk sp fsys s = Some (Ok (Some c, s')) \<and> c \<noteq> [] \<and> rs = r1 @ r2 \<and> fmt c r1 \<and> has fsys s' r2 \<and>
        ahead fsys s = c @ ahead fsys s')"
proof (cases "is_chunk s = []")
  case False
  then show ?thesis using chunk_step [OF assms] by blast
next
  case True
  from load_step [OF assms True] obtain b s' where l: "Load sp fsys (is_buffer_size s) s = Some (Ok (b, s'))" "has fsys s' rs"
      "ahead fsys s' = ahead fsys s" "if b then is_chunk s' \<noteq> [] else ahead fsys s = [] \<and> rs = []" by blast
  have n: "NextChunk sp fsys s = (if \<not> b then Some (Ok (None, s')) else NextChunk sp fsys s')"
    by (subst NextChunk.simps) (simp add: True ExtractNextChunk_def l(1))
  show ?thesis
  proof (cases b)
    case False
    then show ?thesis using n l(4) by simp
  next
    case True
    then have "is_chunk s' \<noteq> []" using l(4) by simp
    then show ?thesis using n True l(3) chunk_step [OF l(2)] by fastforce
  qed
qed

lemma all_chunks:
  assumes "has fsys s rs"
  shows "\<exists>cs s' rss. all_of (NextChunk sp fsys) s = Some (Ok (cs, s')) \<and> [] \<notin> set cs \<and> concat cs = ahead fsys s \<and> concat rss = rs \<and>
     list_all2 fmt cs rss"
  using assms
proof (induction "length (ahead fsys s)" arbitrary: s rs rule: less_induct)
  case less
  from NextChunk_step [OF less.prems] show ?case
  proof (elim disjE exE conjE)
    fix s' assume "NextChunk sp fsys s = Some (Ok (None, s'))" "rs = []" "ahead fsys s = []"
    then show ?thesis by (subst all_of.simps) (auto intro!: exI [of _ "[]"])
  next
    fix c s' r1 r2
    assume n: "NextChunk sp fsys s = Some (Ok (Some c, s'))" "c \<noteq> []" and r: "rs = r1 @ r2" "fmt c r1" "has fsys s' r2"
      and a: "ahead fsys s = c @ ahead fsys s'"
    then have l: "length (ahead fsys s') < length (ahead fsys s)" by simp
    from less.hyps [OF l r(3)] obtain cs s'' rss where i: "all_of (NextChunk sp fsys) s' = Some (Ok (cs, s''))" "[] \<notin> set cs"
        "concat cs = ahead fsys s'" "concat rss = r2" "list_all2 fmt cs rss" by blast
    then have "all_of (NextChunk sp fsys) s = Some (Ok (c # cs, s''))" using n by (subst all_of.simps) simp
    moreover have "[] \<notin> set (c # cs)" "concat (c # cs) = ahead fsys s" "concat (r1 # rss) = rs" "list_all2 fmt (c # cs) (r1 # rss)"
      using i a r n(2) by auto
    ultimately show ?thesis by blast
  qed
qed

end

section \<open>The ranges of the parts\<close>

text \<open>
  The laws on files: whole files give whole records, and from an aligned position inside a file \<open>SeekRecordBegin\<close> reaches a
  position between two records, never one in front of that of an earlier start.
\<close>

locale record_format = chunk_format sp fmt view
  for sp :: splitter and fmt :: "byte list \<Rightarrow> 'r list \<Rightarrow> bool" and view :: "byte list \<Rightarrow> 'r list" +
  fixes files :: "byte list list \<Rightarrow> 'r list \<Rightarrow> bool"
    and cut :: "byte list \<Rightarrow> nat \<Rightarrow> bool"
  assumes align_pos: "0 < align_bytes sp"
    and files_align: "files fs rs \<Longrightarrow> f \<in> set fs \<Longrightarrow> length f mod align_bytes sp = 0"
    and files_fmt: "files fs rs \<Longrightarrow> fmt (concat fs) rs"
    and files_cut: "files (pre @ post) rs \<Longrightarrow> cut (concat (pre @ post)) (length (concat pre))"
    and seek_cut: "files (pre @ f # post) rs \<Longrightarrow> 0 < x \<Longrightarrow> x < length f \<Longrightarrow> x mod align_bytes sp = 0 \<Longrightarrow>
      \<exists>n. SeekRecordBegin sp (drop x f) = Ok n \<and> x + n \<le> length f \<and> cut (concat (pre @ f # post)) (length (concat pre) + x + n)"
    and seek_mono: "files fs rs \<Longrightarrow> f \<in> set fs \<Longrightarrow> x \<le> y \<Longrightarrow> y < length f \<Longrightarrow> x mod align_bytes sp = 0 \<Longrightarrow> y mod align_bytes sp = 0 \<Longrightarrow>
      SeekRecordBegin sp (drop x f) = Ok n \<Longrightarrow> SeekRecordBegin sp (drop y f) = Ok m \<Longrightarrow> x + n \<le> y + m"
    and cut_split: "fmt c rs \<Longrightarrow> cut c p \<Longrightarrow> \<exists>r1 r2. rs = r1 @ r2 \<and> fmt (take p c) r1 \<and> fmt (drop p c) r2"
    and cut_drop: "cut c p \<Longrightarrow> cut c q \<Longrightarrow> p \<le> q \<Longrightarrow> cut (drop p c) (q - p)"

text \<open>The adjustment that \<open>Init\<close> makes at both ends of a range.\<close>

definition adjust :: "splitter \<Rightarrow> byte list list \<Rightarrow> nat \<Rightarrow> nat" where
  "adjust sp fs x =
     (let i = upper_bound (offsets fs) x - 1 in
      if x = offset_of fs i then x
      else case SeekRecordBegin sp (drop (x - offset_of fs i) (fs ! i)) of Ok n \<Rightarrow> x + n | Err e \<Rightarrow> x)"

lemma adjust_at:
  assumes "i < length fs" and "offset_of fs i \<le> x" and "x < offset_of fs (Suc i)"
  shows "adjust sp fs x = (if x = offset_of fs i then x
     else case SeekRecordBegin sp (drop (x - offset_of fs i) (fs ! i)) of Ok n \<Rightarrow> x + n | Err e \<Rightarrow> x)"
  using upper_bound_offsets [of i fs x] assms by (simp add: adjust_def)

lemma adjust_end [simp]: "adjust sp fs (length (concat fs)) = length (concat fs)"
  using upper_bound_offsets [of "length fs" fs "length (concat fs)"] by (simp add: adjust_def)

context record_format
begin

lemma offset_align: "files fs rs \<Longrightarrow> offset_of fs i mod align_bytes sp = 0"
proof -
  assume f: "files fs rs"
  have "set gs \<subseteq> set fs \<Longrightarrow> length (concat gs) mod align_bytes sp = 0" for gs
  proof (induction gs)
    case (Cons g gs)
    then show ?case using files_align [OF f, of g] by (simp add: mod_add_eq [symmetric])
  qed simp
  then show ?thesis by (simp add: offset_of_def set_take_subset)
qed

text \<open>An aligned position inside a file, and what \<open>adjust\<close> makes of it.\<close>

lemma adjust_in_file:
  assumes f: "files fs rs" and i: "i < length fs" and x: "offset_of fs i < x" "x < offset_of fs (Suc i)" and a: "x mod align_bytes sp = 0"
  obtains n where "SeekRecordBegin sp (drop (x - offset_of fs i) (fs ! i)) = Ok n" "adjust sp fs x = x + n"
    "x + n \<le> offset_of fs (Suc i)" "cut (concat fs) (x + n)" "(x - offset_of fs i) mod align_bytes sp = 0"
proof -
  let ?y = "x - offset_of fs i"
  have s: "fs = take i fs @ fs ! i # drop (Suc i) fs" using i by (rule id_take_nth_drop)
  have y: "0 < ?y" "?y < length (fs ! i)" "?y mod align_bytes sp = 0"
    using x offset_of_Suc [OF i] a offset_align [OF f, of i] by (auto simp: mod_eq_0_iff_dvd dvd_diff_nat)
  from seek_cut [of "take i fs" "fs ! i" "drop (Suc i) fs" rs, OF _ y] f s obtain n where
    n: "SeekRecordBegin sp (drop ?y (fs ! i)) = Ok n" "?y + n \<le> length (fs ! i)"
      "cut (concat (take i fs @ fs ! i # drop (Suc i) fs)) (length (concat (take i fs)) + ?y + n)" by metis
  show ?thesis
  proof (rule that [of n])
    show "adjust sp fs x = x + n" using adjust_at [of i fs x sp] i x n(1) by simp
    show "x + n \<le> offset_of fs (Suc i)" using n(2) offset_of_Suc [OF i] x by simp
    have "length (concat (take i fs)) + ?y + n = x + n" using x(1) by (simp add: offset_of_def)
    then show "cut (concat fs) (x + n)" using n(3) s by metis
  qed (use n(1) y(3) in simp_all)
qed

lemma adjust_cut:
  assumes f: "files fs rs" and x: "x \<le> length (concat fs)" and a: "x mod align_bytes sp = 0 \<or> x = length (concat fs)"
  shows "x \<le> adjust sp fs x" and "adjust sp fs x \<le> length (concat fs)" and "cut (concat fs) (adjust sp fs x)"
proof -
  have "x \<le> adjust sp fs x \<and> adjust sp fs x \<le> length (concat fs) \<and> cut (concat fs) (adjust sp fs x)"
  proof (cases "x = length (concat fs)")
    case True
    then show ?thesis using files_cut [of fs "[]" rs] f by simp
  next
    case False
    then obtain i where i: "i < length fs" "offset_of fs i \<le> x" "x < offset_of fs (Suc i)" using x file_of_position [of x fs] by auto
    show ?thesis
    proof (cases "x = offset_of fs i")
      case True
      then have "cut (concat fs) x" using files_cut [of "take i fs" "drop i fs" rs] f by (simp add: offset_of_def)
      then show ?thesis using True adjust_at [OF i] x by simp
    next
      case False
      then show ?thesis using adjust_in_file [OF f i(1) _ i(3)] i(2) a \<open>x \<noteq> length (concat fs)\<close> offset_of_le [of fs "Suc i"]
        by (metis le_add1 le_neq_implies_less order.trans)
    qed
  qed
  then show "x \<le> adjust sp fs x" "adjust sp fs x \<le> length (concat fs)" "cut (concat fs) (adjust sp fs x)" by simp_all
qed

lemma adjust_mono:
  assumes f: "files fs rs" and xy: "x \<le> y" "y \<le> length (concat fs)"
    and a: "x mod align_bytes sp = 0" "y mod align_bytes sp = 0 \<or> y = length (concat fs)"
  shows "adjust sp fs x \<le> adjust sp fs y"
proof (cases "y = length (concat fs)")
  case True
  then show ?thesis using adjust_cut(2) [OF f, of x] a xy by simp
next
  case False
  then have y: "y < length (concat fs)" "y mod align_bytes sp = 0" using xy a by simp_all
  obtain i where i: "i < length fs" "offset_of fs i \<le> x" "x < offset_of fs (Suc i)" using file_of_position [of x fs] xy y by force
  obtain j where j: "j < length fs" "offset_of fs j \<le> y" "y < offset_of fs (Suc j)" using file_of_position [OF y(1)] by blast
  note ya = adjust_cut(1) [OF f xy(2) a(2)]
  show ?thesis
  proof (cases "x = offset_of fs i")
    case True
    then show ?thesis using adjust_at [OF i] xy ya by simp
  next
    case False
    then have xi: "offset_of fs i < x" using i(2) by simp
    from adjust_in_file [OF f i(1) xi i(3) a(1)] obtain n where n: "SeekRecordBegin sp (drop (x - offset_of fs i) (fs ! i)) = Ok n"
        "adjust sp fs x = x + n" "x + n \<le> offset_of fs (Suc i)" "(x - offset_of fs i) mod align_bytes sp = 0" by metis
    show ?thesis
    proof (cases "i = j")
      case True
      then have yi: "offset_of fs i < y" "y < offset_of fs (Suc i)" using xi xy j by simp_all
      from adjust_in_file [OF f i(1) yi y(2)] obtain m where m: "SeekRecordBegin sp (drop (y - offset_of fs i) (fs ! i)) = Ok m"
          "adjust sp fs y = y + m" "(y - offset_of fs i) mod align_bytes sp = 0" by metis
      have "(x - offset_of fs i) + n \<le> (y - offset_of fs i) + m"
        using seek_mono [OF f, of "fs ! i" "x - offset_of fs i" "y - offset_of fs i" n m] n m xy yi i offset_of_Suc [OF i(1)] by simp
      then show ?thesis using n(2) m(2) xi yi by simp
    next
      case False
      have "Suc i \<le> j"
      proof (rule ccontr)
        assume "\<not> Suc i \<le> j"
        then have "offset_of fs (Suc j) \<le> offset_of fs i" using False by (intro offset_of_mono) simp
        then show False using j i xy by simp
      qed
      then have "offset_of fs (Suc i) \<le> y" using offset_of_mono [of "Suc i" j fs] j by simp
      then show ?thesis using n ya by simp
    qed
  qed
qed

end

lemma concat_map_concat: "concat (map f (concat xss)) = concat (map (\<lambda>xs. concat (map f xs)) xss)"
  by (induction xss) simp_all

definition part_offset :: "nat \<Rightarrow> nat \<Rightarrow> nat \<Rightarrow> nat \<Rightarrow> nat" where
  "part_offset align ntotal nsplit k = min (((ntotal + nsplit - 1) div nsplit + align - 1) div align * align * k) ntotal"

lemma part_offset_mono: "part_offset a t n k \<le> part_offset a t n (Suc k)"
  by (simp add: part_offset_def min_le_iff_disj min.coboundedI1)

lemma part_offset_align: "part_offset a t n k mod a = 0 \<or> part_offset a t n k = t"
  by (simp add: part_offset_def min_def mult.commute mult.left_commute)

lemma part_offset_0 [simp]: "part_offset a t n 0 = 0"
  by (simp add: part_offset_def)

lemma part_offset_le: "part_offset a t n k \<le> t"
  by (simp add: part_offset_def)

lemma part_offset_end:
  assumes "0 < a" "0 < n"
  shows "part_offset a t n n = t"
proof -
  have "t \<le> (t + n - 1) div n * n" by (rule le_ceil_div [OF assms(2)])
  also have "\<dots> \<le> ((t + n - 1) div n + a - 1) div a * a * n" by (intro mult_right_mono le_ceil_div [OF assms(1)]) simp
  finally show ?thesis by (simp add: part_offset_def)
qed

context record_format
begin

text \<open>One end of the range in \<open>Init\<close>: the checks pass and the position is adjusted.\<close>

lemma Init_end:
  assumes f: "files (contents fsys fis) rs" and x: "x \<le> length (concat (contents fsys fis))"
    and a: "x mod align_bytes sp = 0 \<or> x = length (concat (contents fsys fis))"
  shows "(let fe = upper_bound (offsets (contents fsys fis)) x - 1 in
      if x \<noteq> offsets (contents fsys fis) ! fe
      then check (offsets (contents fsys fis) ! fe < x) m1 (check (fe < length fis) m2
             (rmap ((+) x) (seek_in sp fsys (fis ! fe) (x - offsets (contents fsys fis) ! fe))))
      else Ok x) = Ok (adjust sp (contents fsys fis) x)"
proof (cases "x = length (concat (contents fsys fis))")
  case True
  then show ?thesis using upper_bound_offsets [of "length (contents fsys fis)" "contents fsys fis" x] nth_offsets [of "length fis" "contents fsys fis"]
      offset_of_all [of "contents fsys fis"] by simp
next
  case False
  let ?fs = "contents fsys fis"
  obtain i where i: "i < length fis" "offset_of ?fs i \<le> x" "x < offset_of ?fs (Suc i)"
    using file_of_position [of x ?fs] x False by force
  have u: "upper_bound (offsets ?fs) x - 1 = i" using upper_bound_offsets [of i ?fs x] i by simp
  show ?thesis
  proof (cases "x = offset_of ?fs i")
    case True
    then show ?thesis using u i adjust_at [of i ?fs x sp] by simp
  next
    case ne: False
    then have "offset_of ?fs i < x" using i by simp
    from adjust_in_file [OF f _ this i(3)] i(1) a False obtain n where
      "SeekRecordBegin sp (drop (x - offset_of ?fs i) (?fs ! i)) = Ok n" "adjust sp ?fs x = x + n" by auto
    then show ?thesis using u i ne by (simp add: seek_in_def)
  qed
qed

lemma BeforeFirst_ok:
  assumes "sized fsys (is_files s)" "is_file_offset s = offsets (contents fsys (is_files s))" "is_offset_end s \<le> length (all_bytes fsys s)"
    "2 \<le> is_data s" "is_chunk s = []" "is_overflow s = []"
  shows "split_inv fsys (BeforeFirst s)" "is_chunk (BeforeFirst s) = []"
    "pending fsys (BeforeFirst s) = take (is_offset_end s - is_offset_begin s) (drop (is_offset_begin s) (all_bytes fsys s))"
proof -
  let ?fs = "contents fsys (is_files s)"
  have "split_inv fsys (BeforeFirst s) \<and> is_chunk (BeforeFirst s) = [] \<and>
    pending fsys (BeforeFirst s) = take (is_offset_end s - is_offset_begin s) (drop (is_offset_begin s) (all_bytes fsys s))"
  proof (cases "is_offset_begin s < is_offset_end s")
    case False
    then show ?thesis using assms by (simp add: BeforeFirst_def split_inv_def pending_def unread_def)
  next
    case True
    have "is_offset_begin s < length (concat ?fs)" using True assms(3) by (simp add: all_bytes_def)
    then obtain i where i: "i < length ?fs" "offset_of ?fs i \<le> is_offset_begin s" "is_offset_begin s < offset_of ?fs (Suc i)"
      by (rule file_of_position)
    have u: "upper_bound (offsets ?fs) (is_offset_begin s) - 1 = i" using upper_bound_offsets [of i ?fs "is_offset_begin s"] i by simp
    have p: "is_offset_begin s - offset_of ?fs i \<le> length (?fs ! i)" using i(3) offset_of_Suc [OF i(1)] by simp
    show ?thesis using True assms u i p
      by (auto simp: BeforeFirst_def Let_def split_inv_def pending_def unread_def all_bytes_def)
  qed
  then show "split_inv fsys (BeforeFirst s)" "is_chunk (BeforeFirst s) = []"
    "pending fsys (BeforeFirst s) = take (is_offset_end s - is_offset_begin s) (drop (is_offset_begin s) (all_bytes fsys s))" by simp_all
qed

end

context record_format
begin

lemma Init_begin:
  assumes f: "files (contents fsys fis) rs" and x: "x \<le> length (concat (contents fsys fis))"
    and a: "x mod align_bytes sp = 0 \<or> x = length (concat (contents fsys fis))"
  shows "(let fp = upper_bound (offsets (contents fsys fis)) x - 1 in
      if x \<noteq> offsets (contents fsys fis) ! fp
      then rmap ((+) x) (seek_in sp fsys (fis ! fp) (x - offsets (contents fsys fis) ! fp))
      else Ok x) = Ok (adjust sp (contents fsys fis) x)"
  using Init_end [OF assms] by (auto simp: Let_def check_Ok_iff split: if_splits)

lemma Init_ok:
  fixes uri :: string
  assumes f: "files (contents fsys fis) rs" and fis: "fis = InitInputFileInfo fsys uri" and z: "sized fsys fis"
  shows "\<exists>s. Init sp fsys uri k nsplit new_InputSplitBase = Ok s \<and> split_inv fsys s \<and> is_chunk s = [] \<and>
     pending fsys s =
       (let p = \<lambda>k. adjust sp (contents fsys fis) (part_offset (align_bytes sp) (length (concat (contents fsys fis))) nsplit k) in
        take (p (Suc k) - p k) (drop (p k) (concat (contents fsys fis))))"
proof -
  let ?fs = "contents fsys fis" and ?a = "align_bytes sp"
  let ?t = "length (concat (contents fsys fis))"
  define ob where "ob = part_offset ?a ?t nsplit k"
  define oe where "oe = part_offset ?a ?t nsplit (Suc k)"
  have le: "ob \<le> ?t" "oe \<le> ?t" "ob \<le> oe" unfolding ob_def oe_def by (rule part_offset_le part_offset_mono)+
  have al: "ob mod ?a = 0 \<or> ob = ?t" "oe mod ?a = 0 \<or> oe = ?t" unfolding ob_def oe_def by (rule part_offset_align)+
  have "\<forall>i\<in>set fis. fi_size i = length (OpenForRead fsys (fi_path i)) \<and> fi_size i mod ?a = 0"
    using z files_align [OF f] by (auto simp: sized_def contents_def)
  from init_file_offset_ok [OF this, of 0] have off: "init_file_offset ?a 0 fis = Ok (offsets ?fs)"
    by (simp add: map_idI)
  let ?s0 = "new_InputSplitBase\<lparr>is_files := fis, is_file_offset := offsets ?fs, is_offset_begin := ob, is_offset_end := oe, is_offset_curr := ob\<rparr>"
  let ?fp = "upper_bound (offsets ?fs) ob - 1"
  define s1 where "s1 = ?s0\<lparr>is_file_ptr := ?fp, is_fs := (?fp, 0), is_offset_begin := adjust sp ?fs ob, is_offset_end := adjust sp ?fs oe\<rparr>"
  have I: "Init sp fsys uri k nsplit new_InputSplitBase = (if ob = oe then Ok ?s0 else Ok (BeforeFirst s1))"
  proof -
    have o: "min (((?t + nsplit - 1) div nsplit + ?a - 1) div ?a * ?a * k) ?t = ob"
      "min (((?t + nsplit - 1) div nsplit + ?a - 1) div ?a * ?a * (k + 1)) ?t = oe"
      by (simp_all only: ob_def oe_def part_offset_def Suc_eq_plus1)
    note e = Init_end [OF f le(2) al(2), unfolded Let_def] and b = Init_begin [OF f le(1) al(1), unfolded Let_def]
    show ?thesis by (simp only: Init_def Let_def fis [symmetric] off rbind.simps last_offsets o e b s1_def)
  qed
  show ?thesis
  proof (cases "ob = oe")
    case True
    have "split_inv fsys ?s0" "is_chunk ?s0 = []" "pending fsys ?s0 = []"
      using True z le by (simp_all add: split_inv_def pending_def unread_def all_bytes_def new_InputSplitBase_def kBufferSize_def)
    then show ?thesis using I True unfolding ob_def [symmetric] oe_def [symmetric] Let_def by simp
  next
    case False
    have "sized fsys (is_files s1)" "is_file_offset s1 = offsets (contents fsys (is_files s1))" "is_offset_end s1 \<le> length (all_bytes fsys s1)"
      "2 \<le> is_data s1" "is_chunk s1 = []" "is_overflow s1 = []"
      using z adjust_cut(2) [OF f le(2) al(2)] by (simp_all add: s1_def all_bytes_def new_InputSplitBase_def kBufferSize_def)
    note b = BeforeFirst_ok [OF this]
    have "pending fsys (BeforeFirst s1) = take (adjust sp ?fs oe - adjust sp ?fs ob) (drop (adjust sp ?fs ob) (concat ?fs))"
      unfolding b(3) by (simp add: s1_def all_bytes_def)
    then show ?thesis using I False b(1,2) unfolding ob_def [symmetric] oe_def [symmetric] Let_def by simp
  qed
qed

text \<open>Successive cuts split the records.\<close>

lemma cut_parts:
  assumes "\<And>k. k \<le> n \<Longrightarrow> cut c (p k)" and "\<And>k. k < n \<Longrightarrow> p k \<le> p (Suc k)" and "p n = length c" and "fmt (drop (p 0) c) rs"
  shows "\<exists>rss. length rss = n \<and> concat rss = rs \<and> (\<forall>k < n. fmt (take (p (Suc k) - p k) (drop (p k) c)) (rss ! k))"
  using assms
proof (induction n arbitrary: p rs)
  case 0
  then show ?case using fmt_Nil by simp
next
  case (Suc n)
  have "cut (drop (p 0) c) (p 1 - p 0)" using Suc.prems(1) [of 0] Suc.prems(1) [of 1] Suc.prems(2) [of 0] by (intro cut_drop) simp_all
  from cut_split [OF Suc.prems(4) this] obtain r1 r2 where r: "rs = r1 @ r2" "fmt (take (p 1 - p 0) (drop (p 0) c)) r1"
      "fmt (drop (p 1 - p 0) (drop (p 0) c)) r2" by blast
  have "fmt (drop (p 1) c) r2" using r(3) Suc.prems(2) [of 0] by simp
  with Suc.IH [of "\<lambda>k. p (Suc k)" r2] Suc.prems(1-3) obtain rss where i: "length rss = n" "concat rss = r2"
      "\<forall>k < n. fmt (take (p (Suc (Suc k)) - p (Suc k)) (drop (p (Suc k)) c)) (rss ! k)" by auto
  have "\<forall>k < Suc n. fmt (take (p (Suc k) - p k) (drop (p k) c)) ((r1 # rss) ! k)"
    using i(3) r(2) by (auto simp: less_Suc_eq_0_disj)
  then show ?case using i r by (intro exI [of _ "r1 # rss"]) simp
qed

lemma parts_hold:
  fixes uri :: string
  assumes f: "files (contents fsys (InitInputFileInfo fsys uri)) rs" and z: "sized fsys (InitInputFileInfo fsys uri)" and n: "0 < nsplit"
  shows "\<exists>rss. length rss = nsplit \<and> concat rss = rs \<and>
     (\<forall>k < nsplit. \<exists>s. Init sp fsys uri k nsplit new_InputSplitBase = Ok s \<and> has fsys s (rss ! k))"
proof -
  let ?fs = "contents fsys (InitInputFileInfo fsys uri)" and ?a = "align_bytes sp"
  let ?t = "length (concat (contents fsys (InitInputFileInfo fsys uri)))"
  define p where "p k = adjust sp ?fs (part_offset ?a ?t nsplit k)" for k
  have ct: "cut (concat ?fs) (p k)" for k
    unfolding p_def by (rule adjust_cut(3) [OF f part_offset_le part_offset_align])
  have mono: "p k \<le> p (Suc k)" for k
  proof (cases "part_offset ?a ?t nsplit k mod ?a = 0")
    case True
    then show ?thesis unfolding p_def by (rule adjust_mono [OF f part_offset_mono part_offset_le _ part_offset_align])
  next
    case False
    then have "part_offset ?a ?t nsplit k = ?t" using part_offset_align [of ?a ?t nsplit k] by simp
    moreover from this have "part_offset ?a ?t nsplit (Suc k) = ?t"
      using part_offset_mono [of ?a ?t nsplit k] part_offset_le [of ?a ?t nsplit "Suc k"] by simp
    ultimately show ?thesis by (simp add: p_def)
  qed
  have p0: "p 0 = 0" and pn: "p nsplit = ?t"
  proof -
    show "p nsplit = ?t" unfolding p_def part_offset_end [OF align_pos n] by (rule adjust_end)
    show "p 0 = 0"
    proof (cases "concat ?fs = []")
      case True
      then show ?thesis using adjust_end [of sp ?fs] by (simp add: p_def del: adjust_end concat_eq_Nil_conv)
    next
      case False
      then have t: "0 < ?t" by (simp del: concat_eq_Nil_conv)
      from file_of_position [OF t] obtain i where i: "i < length ?fs" "offset_of ?fs i \<le> 0" "0 < offset_of ?fs (Suc i)" .
      then show ?thesis using adjust_at [OF i, of sp] by (simp add: p_def)
    qed
  qed
  have "fmt (drop (p 0) (concat ?fs)) rs" using files_fmt [OF f] p0 by simp
  from cut_parts [OF ct mono pn this] obtain rss where r: "length rss = nsplit" "concat rss = rs"
      "\<forall>k < nsplit. fmt (take (p (Suc k) - p k) (drop (p k) (concat ?fs))) (rss ! k)" by blast
  have "\<exists>s. Init sp fsys uri k nsplit new_InputSplitBase = Ok s \<and> has fsys s (rss ! k)" if "k < nsplit" for k
    using Init_ok [OF f refl z, of k nsplit] r(3) that fmt_Nil
    unfolding p_def [symmetric] Let_def holds_def by (metis append_Nil)
  then show ?thesis using r by blast
qed

lemma has_Hint: "has fsys (HintChunkSize h s) rs = has fsys s rs" "ahead fsys (HintChunkSize h s) = ahead fsys s"
  by (simp_all add: holds_def HintChunkSize_def split_inv_def pending_def unread_def all_bytes_def ahead_def)

lemma split_chunks:
  fixes uri :: string
  assumes "files (contents fsys (InitInputFileInfo fsys uri)) rs" and "sized fsys (InitInputFileInfo fsys uri)" and "0 < nsplit"
  shows "\<exists>css rss. length css = nsplit \<and> [] \<notin> set (concat css) \<and> list_all2 fmt (concat css) rss \<and> concat rss = rs \<and>
     (\<forall>k < nsplit. \<exists>s s'. Init sp fsys uri k nsplit new_InputSplitBase = Ok s \<and>
        all_of (NextChunk sp fsys) (HintChunkSize (h k) s) = Some (Ok (css ! k, s')))"
proof -
  from parts_hold [OF assms] obtain rss where r: "length rss = nsplit" "concat rss = rs"
    "\<forall>k < nsplit. \<exists>s. Init sp fsys uri k nsplit new_InputSplitBase = Ok s \<and> has fsys s (rss ! k)" by blast
  have "\<forall>k. \<exists>cs xs. k < nsplit \<longrightarrow> (\<exists>s s'. Init sp fsys uri k nsplit new_InputSplitBase = Ok s \<and>
      all_of (NextChunk sp fsys) (HintChunkSize (h k) s) = Some (Ok (cs, s')) \<and> [] \<notin> set cs \<and> list_all2 fmt cs xs \<and> concat xs = rss ! k)"
    using r(3) all_chunks has_Hint(1) by meson
  then obtain cs xs where o: "\<And>k. k < nsplit \<Longrightarrow> (\<exists>s s'. Init sp fsys uri k nsplit new_InputSplitBase = Ok s \<and>
      all_of (NextChunk sp fsys) (HintChunkSize (h k) s) = Some (Ok (cs k, s')) \<and> [] \<notin> set (cs k) \<and>
      list_all2 fmt (cs k) (xs k) \<and> concat (xs k) = rss ! k)" by metis
  have l: "list_all2 fmt (cs k) (xs k)" if "k < nsplit" for k using o [OF that] by blast
  have "list_all2 fmt (concat (map cs [0..<n])) (concat (map xs [0..<n]))" if "n \<le> nsplit" for n
    using that by (induction n) (simp_all add: l list_all2_appendI)
  moreover have "[] \<notin> set (concat (map cs [0..<nsplit]))" using o by fastforce
  moreover have "concat (concat (map xs [0..<nsplit])) = rs"
  proof -
    have "concat (concat (map xs [0..<nsplit])) = concat (map (\<lambda>k. concat (xs k)) [0..<nsplit])"
      using concat_map_concat [of "\<lambda>x. x" "map xs [0..<nsplit]"] by (simp add: comp_def)
    also have "map (\<lambda>k. concat (xs k)) [0..<nsplit] = map ((!) rss) [0..<nsplit]" using o by (intro map_cong) auto
    also have "\<dots> = rss" using r(1) map_nth by metis
    finally show ?thesis using r(2) by simp
  qed
  moreover have "\<exists>s s'. Init sp fsys uri k nsplit new_InputSplitBase = Ok s \<and>
      all_of (NextChunk sp fsys) (HintChunkSize (h k) s) = Some (Ok (map cs [0..<nsplit] ! k, s'))" if "k < nsplit" for k
    using o [OF that] that by auto
  ultimately show ?thesis by (intro exI [of _ "map cs [0..<nsplit]"] exI [of _ "concat (map xs [0..<nsplit])"]) simp
qed

theorem split_records:
  fixes uri :: string
  assumes "files (contents fsys (InitInputFileInfo fsys uri)) rs" and "sized fsys (InitInputFileInfo fsys uri)" and "0 < nsplit"
  shows "\<exists>outss. length outss = nsplit \<and> concat (map view (concat outss)) = rs \<and>
     (\<forall>k < nsplit. \<exists>s s'. Init sp fsys uri k nsplit new_InputSplitBase = Ok s \<and>
        all_of (is_NextRecord sp fsys) (HintChunkSize (h k) s) = Some (Ok (outss ! k, s')))"
proof -
  from parts_hold [OF assms] obtain rss where r: "length rss = nsplit" "concat rss = rs"
    "\<forall>k < nsplit. \<exists>s. Init sp fsys uri k nsplit new_InputSplitBase = Ok s \<and> has fsys s (rss ! k)" by blast
  have "\<forall>k. \<exists>outs. k < nsplit \<longrightarrow> (\<exists>s s'. Init sp fsys uri k nsplit new_InputSplitBase = Ok s \<and>
      all_of (is_NextRecord sp fsys) (HintChunkSize (h k) s) = Some (Ok (outs, s')) \<and> concat (map view outs) = rss ! k)"
    using r(3) all_records has_Hint(1) by meson
  then obtain out where o: "\<And>k. k < nsplit \<Longrightarrow> (\<exists>s s'. Init sp fsys uri k nsplit new_InputSplitBase = Ok s \<and>
      all_of (is_NextRecord sp fsys) (HintChunkSize (h k) s) = Some (Ok (out k, s')) \<and> concat (map view (out k)) = rss ! k)" by metis
  have "concat (map view (concat (map out [0..<nsplit]))) = concat (map (\<lambda>k. concat (map view (out k))) [0..<nsplit])"
    by (simp add: concat_map_concat comp_def)
  also have "map (\<lambda>k. concat (map view (out k))) [0..<nsplit] = map ((!) rss) [0..<nsplit]" using o by (intro map_cong) auto
  also have "\<dots> = rss" using r(1) map_nth by metis
  finally have "concat (map view (concat (map out [0..<nsplit]))) = rs" using r(2) by simp
  moreover have "\<exists>s s'. Init sp fsys uri k nsplit new_InputSplitBase = Ok s \<and>
      all_of (is_NextRecord sp fsys) (HintChunkSize (h k) s) = Some (Ok (map out [0..<nsplit] ! k, s'))" if "k < nsplit" for k
    using o [OF that] that by auto
  ultimately show ?thesis by (intro exI [of _ "map out [0..<nsplit]"]) simp
qed

end

end
