(* ===== verification/RecordIOSplit.thy ===== *)
theory RecordIOSplit
  imports InputSplit RecordIO
begin

text \<open>
  Splitting recordio files, \<open>dmlc-core/src/io/recordio_split.cc\<close>: the virtual functions of \<open>RecordIOSplitter\<close> and their
  interpretation of \<open>record_format\<close>, over the images of records that \<open>RecordIO\<close> describes. The memory of a chunk is aligned, so a
  check of the alignment of a pointer is one of its distance from the begin of the chunk.
\<close>

section \<open>The virtual functions\<close>

text \<open>A read of a word from a stream that has only a part of it leaves the word undefined.\<close>

function seek_head :: "byte list \<Rightarrow> nat \<Rightarrow> nat res" where
  "seek_head st nstep =
     (if st = [] then Ok nstep
      else if length st < 4 then Err OutOfBounds
      else if dec32 (take 4 st) = kMagic then
        check (drop 4 st \<noteq> []) ''invalid record io format''
         (if length st < 8 then Err OutOfBounds
          else let cflag = DecodeFlag (dec32 (take 4 (drop 4 st))) in
            if cflag = 0 \<or> cflag = 1 then Ok (nstep + 8 - 8) else seek_head (drop 8 st) (nstep + 8))
      else seek_head (drop 4 st) (nstep + 4))"
  by pat_completeness auto
termination
  by (relation "measure (\<lambda>(st, n). length st)") auto

declare seek_head.simps [simp del]

definition Rec_SeekRecordBegin :: "byte list \<Rightarrow> nat res" where
  "Rec_SeekRecordBegin stream = seek_head stream 0"

fun scan_head_back :: "byte list \<Rightarrow> nat \<Rightarrow> nat" where
  "scan_head_back buf 0 = 0"
| "scan_head_back buf (Suc p) =
     (if word_at buf (4 * Suc p) = kMagic \<and>
         (DecodeFlag (word_at buf (4 * Suc p + 4)) = 0 \<or> DecodeFlag (word_at buf (4 * Suc p + 4)) = 1)
      then 4 * Suc p else scan_head_back buf p)"

definition Rec_FindLastRecordBegin :: "byte list \<Rightarrow> nat res" where
  "Rec_FindLastRecordBegin buf =
     check (length buf mod 4 = 0) ''end'' (check (8 \<le> length buf) ''p >= pbegin + 2'' (Ok (scan_head_back buf (length buf div 4 - 2))))"

text \<open>
  The loop that moves the segments of a record together: \<open>p\<close> is the begin pointer of the chunk, \<open>out\<close> the record so far. The
  bytes are moved to the front in place, never past what has been read.
\<close>

function join_loop :: "byte list \<Rightarrow> nat \<Rightarrow> byte list \<Rightarrow> u32 \<Rightarrow> (byte list \<times> nat) res" where
  "join_loop c p out cflag =
     (if cflag = 3 then Ok (out, p)
      else if p + 8 \<le> length c then
        check (word_at c p = kMagic) ''p[0] == RecordIOWriter::kMagic''
         (let cflag = DecodeFlag (word_at c (p + 4)); clen = unat (DecodeLength (word_at c (p + 4))) in
          rbind (if clen \<noteq> 0 then slice_res c (p + 8) clen else Ok []) (\<lambda>bs.
          join_loop c (p + 8 + upper_align clen) (out @ magic @ bs) cflag))
      else Err (CheckFailed ''chunk->begin + 2 * sizeof(uint32_t) <= chunk->end''))"
  by pat_completeness auto
termination
  by (relation "measure (\<lambda>(c, p, out, cflag). length c - p)") auto

declare join_loop.simps [simp del]

definition Rec_ExtractNextRecord :: "byte list \<Rightarrow> (byte list option \<times> byte list) res" where
  "Rec_ExtractNextRecord c =
     (if c = [] then Ok (None, c)
      else check (8 \<le> length c) ''Invalid RecordIO Format''
       (check (length c mod 4 = 0) ''chunk->end''
         (let cflag = DecodeFlag (word_at c 4); clen = unat (DecodeLength (word_at c 4)); p = 8 + upper_align clen in
          check (p \<le> length c) ''Invalid RecordIO Format''
           (if cflag = 0 then Ok (Some (take clen (drop 8 c)), drop p c)
            else check (cflag = 1) ''Invalid RecordIO Format''
              (rbind (join_loop c p (take clen (drop 8 c)) cflag) (\<lambda>(out, q). Ok (Some out, drop q c)))))))"

definition RecordIOSplitter :: splitter where
  "RecordIOSplitter = \<lparr>SeekRecordBegin = Rec_SeekRecordBegin, FindLastRecordBegin = Rec_FindLastRecordBegin,
     ExtractNextRecord = Rec_ExtractNextRecord, align_bytes = 4\<rparr>"

section \<open>Whole records\<close>

abbreviation small :: "byte list list \<Rightarrow> bool" where
  "small ds \<equiv> \<forall>d\<in>set ds. length d < 2 ^ 29"

definition images :: "byte list list \<Rightarrow> byte list" where
  "images ds = concat (map rec_image ds)"

definition rec_fmt :: "byte list \<Rightarrow> byte list list \<Rightarrow> bool" where
  "rec_fmt c ds \<longleftrightarrow> small ds \<and> c = images ds"

definition rec_view :: "byte list \<Rightarrow> byte list list" where
  "rec_view out = [out]"

definition rec_files :: "byte list list \<Rightarrow> byte list list \<Rightarrow> bool" where
  "rec_files fs ds \<longleftrightarrow> (\<exists>dss. list_all2 rec_fmt fs dss \<and> ds = concat dss)"

definition rec_cut :: "byte list \<Rightarrow> nat \<Rightarrow> bool" where
  "rec_cut c p \<longleftrightarrow> (\<exists>r1 r2. rec_fmt (take p c) r1 \<and> rec_fmt (drop p c) r2)"

lemma images_simps [simp]: "images [] = []" "images (d # ds) = rec_image d @ images ds" "images (ds @ es) = images ds @ images es"
  by (simp_all add: images_def)

lemma length_images_mod: "length (images ds) mod 4 = 0"
  by (induction ds) (use length_rec_image(1) in \<open>auto simp: mod_add_eq [symmetric]\<close>)

lemma rec_image_not_Nil [simp]: "length d < 2 ^ 29 \<Longrightarrow> rec_image d \<noteq> []"
  using length_rec_image(2) [of d] by auto

lemma rec_fmt_Nil: "rec_fmt [] ds \<longleftrightarrow> ds = []"
  by (cases ds) (auto simp: rec_fmt_def)

lemma rec_fmt_append: "rec_fmt a r1 \<Longrightarrow> rec_fmt b r2 \<Longrightarrow> rec_fmt (a @ b) (r1 @ r2)"
  by (auto simp: rec_fmt_def)

lemma word_at_seg:
  assumes "seg_ok (f, bs)"
  shows "word_at (pre @ seg_image (f, bs) @ suf) (length pre) = kMagic"
    and "DecodeFlag (word_at (pre @ seg_image (f, bs) @ suf) (length pre + 4)) = f"
    and "unat (DecodeLength (word_at (pre @ seg_image (f, bs) @ suf) (length pre + 4))) = length bs"
proof -
  have s: "f < 8" "length bs < 2 ^ 29" using assms by (auto simp: seg_ok_def)
  have h: "take 4 (drop (length pre) (pre @ seg_image (f, bs) @ suf)) = take 4 (seg_head f bs)"
    "take 4 (drop (length pre + 4) (pre @ seg_image (f, bs) @ suf)) = drop 4 (seg_head f bs)"
    by (simp_all add: seg_image_def seg_head_def)
  show "word_at (pre @ seg_image (f, bs) @ suf) (length pre) = kMagic"
    "DecodeFlag (word_at (pre @ seg_image (f, bs) @ suf) (length pre + 4)) = f"
    "unat (DecodeLength (word_at (pre @ seg_image (f, bs) @ suf) (length pre + 4))) = length bs"
    unfolding word_at_def h by (rule seg_header [OF s])+
qed

text \<open>The remaining segments of a record, from the first to be joined.\<close>

lemma join_loop_ok:
  assumes "\<forall>x\<in>set xs. seg_ok x" and "xs \<noteq> []" and "flags_ok xs" and "\<forall>x\<in>set xs. fst x \<noteq> 0" and "cflag \<noteq> 3"
  shows "join_loop (pre @ concat (map seg_image xs) @ suf) (length pre) out cflag =
     Ok (out @ magic @ join xs, length pre + length (concat (map seg_image xs)))"
  using assms
proof (induction xs arbitrary: pre out cflag)
  case (Cons x xs)
  obtain f bs where x: "x = (f, bs)" by fastforce
  let ?suf = "concat (map seg_image xs) @ suf"
  let ?c = "pre @ seg_image (f, bs) @ ?suf"
  have ok: "seg_ok (f, bs)" using Cons.prems x by simp
  note w = word_at_seg [OF ok, of pre ?suf]
  have len: "length pre + 8 \<le> length ?c" by (simp add: length_seg_image)
  have sl: "(if length bs \<noteq> 0 then slice_res ?c (length pre + 8) (length bs) else Ok []) = Ok bs"
    using slice_res_mid [of "length bs" bs "length pre + 8" "pre @ seg_head f bs" "pad (length bs) @ ?suf"] by (simp add: seg_image_def)
  have step: "join_loop ?c (length pre) out cflag = join_loop ?c (length pre + 8 + upper_align (length bs)) (out @ magic @ bs) f"
    by (subst join_loop.simps) (simp only: Let_def w len Cons.prems(5) sl if_True if_False rbind.simps check_True)
  have nx: "length pre + 8 + upper_align (length bs) = length (pre @ seg_image (f, bs))" by (simp add: length_seg_image)
  show ?case
  proof (cases "xs = []")
    case True
    then have "f = 3" using Cons.prems x by simp
    then show ?thesis using step nx True x by (simp add: join_loop.simps [of _ _ _ 3])
  next
    case False
    then have f3: "f \<noteq> 3" and fl: "flags_ok xs" using Cons.prems(3) x by (auto simp: flags_ok_Cons)
    have "join_loop ((pre @ seg_image (f, bs)) @ concat (map seg_image xs) @ suf) (length (pre @ seg_image (f, bs))) (out @ magic @ bs) f =
        Ok ((out @ magic @ bs) @ magic @ join xs, length (pre @ seg_image (f, bs)) + length (concat (map seg_image xs)))"
      using Cons.prems by (intro Cons.IH [OF _ False fl _ f3]) auto
    then show ?thesis using step nx x False by (simp add: join_Cons)
  qed
qed simp

lemma rec_extract:
  assumes d: "length d < 2 ^ 29" and s: "length suf mod 4 = 0"
  shows "Rec_ExtractNextRecord (rec_image d @ suf) = Ok (Some d, suf)"
proof -
  from d obtain f bs xs where r: "rec_image d = seg_image (f, bs) @ concat (map seg_image xs)" "segs d 0 0 = (f, bs) # xs"
      "seg_ok (f, bs)" "f \<in> {0, 1}" "\<forall>x\<in>set xs. seg_ok x \<and> fst x \<in> {2, 3}" by (rule rec_image_split)
  let ?suf = "concat (map seg_image xs) @ suf"
  let ?c = "seg_image (f, bs) @ ?suf"
  have c: "rec_image d @ suf = ?c" using r(1) by simp
  note w = word_at_seg [OF r(3), of "[]" ?suf, simplified]
  have jn: "join ((f, bs) # xs) = d" and fl: "flags_ok ((f, bs) # xs)"
    using segs_join [of 0 0 d] segs_flags_ok [of d 0 0] r(2) by simp_all
  have len: "8 \<le> length ?c" "8 + upper_align (length bs) \<le> length ?c" "8 + upper_align (length bs) = length (seg_image (f, bs))"
    by (simp_all add: length_seg_image)
  have m: "length ?c mod 4 = 0" using length_rec_image(1) [of d] s c by (metis length_append mod_add_eq add_0 mod_0)
  have tk: "take (length bs) (drop 8 ?c) = bs" by (simp add: seg_image_def)
  have ne: "?c \<noteq> []" using len(1) by (metis list.size(3) not_numeral_le_zero)
  have E: "Rec_ExtractNextRecord ?c = (if f = 0 then Ok (Some bs, drop (8 + upper_align (length bs)) ?c)
      else rbind (join_loop ?c (8 + upper_align (length bs)) bs f) (\<lambda>(out, q). Ok (Some out, drop q ?c)))"
    using ne len m w(2,3) r(4) tk unfolding Rec_ExtractNextRecord_def by (auto simp: Let_def simp del: append_assoc)
  show ?thesis
  proof (cases "xs = []")
    case True
    then have "f = 0" "bs = d" using fl r(4) jn by auto
    then show ?thesis using E c len(3) True by simp
  next
    case False
    then have f: "f = 1" and fx: "flags_ok xs" using fl r(4) by (auto simp: flags_ok_Cons)
    have "join_loop (seg_image (f, bs) @ concat (map seg_image xs) @ suf) (length (seg_image (f, bs))) bs f =
        Ok (bs @ magic @ join xs, length (seg_image (f, bs)) + length (concat (map seg_image xs)))"
      using r(5) f by (intro join_loop_ok [OF _ False fx]) auto
    moreover have "bs @ magic @ join xs = d" using jn False by (simp add: join_Cons)
    ultimately show ?thesis using E c len(3) f by simp
  qed
qed

lemma rec_fmt_unique: "rec_fmt c ds \<Longrightarrow> rec_fmt c es \<Longrightarrow> ds = es"
proof (induction ds arbitrary: c es)
  case Nil
  then show ?case using rec_fmt_Nil by (simp add: rec_fmt_def)
next
  case (Cons d ds)
  then have "c \<noteq> []" by (auto simp: rec_fmt_def)
  then obtain e es' where e: "es = e # es'" using Cons.prems(2) by (cases es) (auto simp: rec_fmt_def)
  have "c = rec_image d @ images ds" "c = rec_image e @ images es'" "length d < 2 ^ 29" "length e < 2 ^ 29"
    using Cons.prems e by (auto simp: rec_fmt_def)
  then have "Ok (Some d, images ds) = Ok (Some e, images es')" using rec_extract [OF _ length_images_mod] by metis
  then have "d = e" "images ds = images es'" by simp_all
  moreover have "rec_fmt (images ds) ds" "rec_fmt (images es') es'" using Cons.prems e by (auto simp: rec_fmt_def)
  ultimately show ?case using Cons.IH [of "images ds" es'] e by simp
qed

section \<open>Cuts between records\<close>

lemma rec_cut_split:
  assumes "rec_fmt c rs" and "rec_cut c p"
  shows "\<exists>r1 r2. rs = r1 @ r2 \<and> rec_fmt (take p c) r1 \<and> rec_fmt (drop p c) r2"
proof -
  obtain r1 r2 where r: "rec_fmt (take p c) r1" "rec_fmt (drop p c) r2" using assms(2) by (auto simp: rec_cut_def)
  then have "rec_fmt c (r1 @ r2)" using rec_fmt_append [OF r] by simp
  then show ?thesis using rec_fmt_unique [OF assms(1)] r by blast
qed

lemma images_Nil: "small ds \<Longrightarrow> images ds = [] \<Longrightarrow> ds = []"
  using rec_fmt_Nil [of ds] by (simp add: rec_fmt_def)

lemma rec_cut_drop:
  assumes p: "rec_cut c p" and q: "rec_cut c q" and pq: "p \<le> q"
  shows "rec_cut (drop p c) (q - p)"
proof -
  obtain r1 r2 where r: "rec_fmt (take p c) r1" "rec_fmt (drop p c) r2" using p by (auto simp: rec_cut_def)
  obtain s1 s2 where s: "rec_fmt (take q c) s1" "rec_fmt (drop q c) s2" using q by (auto simp: rec_cut_def)
  have "r1 @ r2 = s1 @ s2" using rec_fmt_unique [of c "r1 @ r2" "s1 @ s2"] rec_fmt_append [OF r] rec_fmt_append [OF s] by simp
  then obtain m where m: "s1 = r1 @ m"
  proof (cases "length r1 \<le> length s1")
    case True
    then have "r1 = take (length r1) s1" using \<open>r1 @ r2 = s1 @ s2\<close> by (metis append_eq_append_conv_if)
    then show ?thesis using that [of "drop (length r1) s1"] by (metis append_take_drop_id)
  next
    case False
    then obtain u where u: "r1 = s1 @ u" using \<open>r1 @ r2 = s1 @ s2\<close> by (metis append_eq_append_conv_if append_take_drop_id nle_le)
    have "length (take p c) \<le> length (take q c)" using pq by simp
    moreover have "take p c = images s1 @ images u" "take q c = images s1" using r(1) s(1) u by (simp_all add: rec_fmt_def)
    ultimately have "images u = []" by (metis add_le_same_cancel1 le_zero_eq length_0_conv length_append)
    then have "u = []" using images_Nil [of u] r(1) u by (simp add: rec_fmt_def)
    then show ?thesis using that [of "[]"] u by simp
  qed
  have "take (q - p) (drop p c) = drop p (take q c)" by (simp add: drop_take)
  also have "\<dots> = drop (length (take p c)) (take q c)"
    by (cases "p \<le> length c") auto
  also have "\<dots> = images m" using r(1) s(1) m by (simp add: rec_fmt_def)
  finally have "rec_fmt (take (q - p) (drop p c)) m" using s(1) m by (simp add: rec_fmt_def)
  moreover have "rec_fmt (drop (q - p) (drop p c)) s2" using s(2) pq by simp
  ultimately show ?thesis by (auto simp: rec_cut_def)
qed

lemma rec_pos_cut:
  assumes "small ds" and "i \<le> length ds"
  shows "rec_fmt (take (rec_pos ds i) (images ds)) (take i ds)" "rec_fmt (drop (rec_pos ds i) (images ds)) (drop i ds)"
proof -
  have "images ds = images (take i ds) @ images (drop i ds)" using images_simps(3) [of "take i ds" "drop i ds"] by simp
  moreover have "rec_pos ds i = length (images (take i ds))" by (simp add: rec_pos_def images_def)
  ultimately show "rec_fmt (take (rec_pos ds i) (images ds)) (take i ds)" "rec_fmt (drop (rec_pos ds i) (images ds)) (drop i ds)"
    using assms by (auto simp: rec_fmt_def dest: in_set_takeD in_set_dropD)
qed

text \<open>A record head in the bytes is the beginning of a record.\<close>

lemma head_is_rec_pos:
  assumes "small ds" and "head_at (images ds) P" and "P mod 4 = 0" and "P + 4 < length (images ds)"
  shows "\<exists>i \<le> length ds. P = rec_pos ds i"
  using find_head_first [of ds P] find_head_hit [of P "length (images ds)" "images ds"] assms unfolding images_def by force

lemma scan_head_back_ok:
  assumes "8 * 1 \<le> length buf" and "p \<le> length buf div 4 - 2"
  shows "scan_head_back buf p = 0 \<or> scan_head_back buf p mod 4 = 0 \<and> scan_head_back buf p + 8 \<le> length buf \<and> head_at buf (scan_head_back buf p)"
  using assms by (induction p) (auto simp: head_at_def)

lemma rec_find_last:
  assumes f: "rec_fmt (w @ rest) rs" and w: "w \<noteq> []" and l: "length w mod 8 = 0"
  shows "\<exists>n r1 r2. Rec_FindLastRecordBegin w = Ok n \<and> n \<le> length w \<and> rs = r1 @ r2 \<and> rec_fmt (take n w) r1 \<and> rec_fmt (drop n w @ rest) r2"
proof -
  define n where "n = scan_head_back w (length w div 4 - 2)"
  have w8: "8 \<le> length w" "length w mod 4 = 0" using w l by (auto simp: dvd_imp_le mod_eq_0_iff_dvd intro: dvd_trans [of 4 8])
  have ok: "Rec_FindLastRecordBegin w = Ok n" using w8 by (simp add: Rec_FindLastRecordBegin_def n_def)
  have n: "n = 0 \<or> n mod 4 = 0 \<and> n + 8 \<le> length w \<and> head_at w n" using scan_head_back_ok [of w "length w div 4 - 2"] w8 by (simp add: n_def)
  then have le: "n \<le> length w" by auto
  have "\<exists>i \<le> length rs. n = rec_pos rs i"
  proof (cases "n = 0")
    case False
    then have "head_at (w @ rest) n" using n by (simp add: head_at_def word_at_front)
    moreover have wr: "w @ rest = images rs" "small rs" using f by (simp_all add: rec_fmt_def)
    moreover have "n + 4 < length (images rs)"
    proof -
      have "n + 8 \<le> length w" using n False by simp
      moreover have "length (images rs) = length w + length rest" unfolding wr(1) [symmetric] by simp
      ultimately show ?thesis by linarith
    qed
    ultimately show ?thesis using head_is_rec_pos [of rs n] n False by simp
  qed (auto intro: exI [of _ 0])
  then obtain i where i: "i \<le> length rs" "n = rec_pos rs i" by blast
  have "rec_fmt (take n (w @ rest)) (take i rs)" "rec_fmt (drop n (w @ rest)) (drop i rs)"
    using rec_pos_cut [OF _ i(1)] f i(2) by (simp_all add: rec_fmt_def)
  then show ?thesis using ok le by (intro exI [of _ n] exI [of _ "take i rs"] exI [of _ "drop i rs"]) simp
qed

section \<open>Seeking from inside a file\<close>

text \<open>Where the magic number stands, a length word follows, and it is not the magic number.\<close>

lemma segs_magic:
  assumes "\<forall>x\<in>set xs. seg_ok x" and "q mod 4 = 0" and "q < length (concat (map seg_image xs))" and "word_at (concat (map seg_image xs)) q = kMagic"
  shows "q + 8 \<le> length (concat (map seg_image xs)) \<and> word_at (concat (map seg_image xs)) (q + 4) \<noteq> kMagic"
  using assms
proof (induction xs arbitrary: q)
  case (Cons x xs)
  obtain f bs where x: "x = (f, bs)" by fastforce
  let ?i = "seg_image (f, bs)" and ?r = "concat (map seg_image xs)"
  have ok: "seg_ok (f, bs)" using Cons.prems x by simp
  show ?case
  proof (cases "q < length ?i")
    case True
    have a4: "length ?i mod 4 = 0" by (rule length_seg_mod)
    then have "q + 4 \<le> length ?i" using True Cons.prems(2) by presburger
    then have "word_at ?i q = kMagic" using Cons.prems(4) x word_at_front [of q ?i ?r] by simp
    then have "q = 0" using seg_no_magic [OF ok Cons.prems(2) _ True] by auto
    then show ?thesis using word_at_seg(2) [OF ok, of "[]" ?r] ok x DecodeFlag_magic by (auto simp: length_seg_image seg_ok_def)
  next
    case False
    define q' where "q' = q - length ?i"
    have q: "q = length ?i + q'" using False by (simp add: q'_def)
    have "q' mod 4 = 0" using Cons.prems(2) length_seg_mod [of "(f, bs)"] False unfolding q'_def by presburger
    then have "q' + 8 \<le> length ?r \<and> word_at ?r (q' + 4) \<noteq> kMagic"
      using Cons.prems q x word_at_append [of ?i ?r q'] by (intro Cons.IH) simp_all
    then show ?thesis using q x word_at_append [of ?i ?r "q' + 4"] by (simp add: add.assoc)
  qed
qed simp

lemma images_magic:
  assumes "small ds" and "q mod 4 = 0" and "q < length (images ds)" and "word_at (images ds) q = kMagic"
  shows "q + 8 \<le> length (images ds)" "word_at (images ds) (q + 4) \<noteq> kMagic"
proof -
  have "images ds = concat (map seg_image (concat (map (\<lambda>d. segs d 0 0) ds)))"
    by (induction ds) (simp_all add: rec_image_def)
  moreover have "\<forall>x\<in>set (concat (map (\<lambda>d. segs d 0 0) ds)). seg_ok x" using assms(1) segs_all by auto
  ultimately show "q + 8 \<le> length (images ds)" "word_at (images ds) (q + 4) \<noteq> kMagic"
    using segs_magic [of "concat (map (\<lambda>d. segs d 0 0) ds)" q] assms by simp_all
qed

lemma seek_head_ok:
  assumes s: "small ds" and "x mod 4 = 0" and "x \<le> length (images ds)"
  shows "\<exists>n. seek_head (drop x (images ds)) k = Ok (k + n) \<and> x + n = find_head (images ds) x (length (images ds))"
  using assms(2,3)
proof (induction "length (images ds) - x" arbitrary: x k rule: less_induct)
  case less
  let ?f = "images ds"
  show ?case
  proof (cases "x = length ?f")
    case True
    then show ?thesis by (simp add: seek_head.simps find_head_end)
  next
    case False
    then have x: "x < length ?f" "x + 4 \<le> length ?f" using less.prems length_images_mod [of ds] by presburger+
    have less4: "length ?f - (x + 4) < length ?f - x" and less8: "length ?f - (x + 8) < length ?f - x" using x(1) by linarith+
    have st: "drop x ?f \<noteq> []" "\<not> length (drop x ?f) < 4" "dec32 (take 4 (drop x ?f)) = word_at ?f x" using x by (simp_all add: word_at_def)
    show ?thesis
    proof (cases "word_at ?f x = kMagic")
      case nm: False
      have "seek_head (drop x ?f) k = seek_head (drop (x + 4) ?f) (k + 4)"
        using st nm by (subst seek_head.simps) (simp add: add.commute)
      moreover have "find_head ?f x (length ?f) = find_head ?f (x + 4) (length ?f)"
        using nm x(2) find_head_miss [of x "length ?f" ?f] find_head_end [of "length ?f" x ?f] find_head_end [of "length ?f" "x + 4" ?f]
        by (cases "x + 4 < length ?f") (auto simp: head_at_def)
      moreover obtain n where "seek_head (drop (x + 4) ?f) (k + 4) = Ok (k + 4 + n)" "x + 4 + n = find_head ?f (x + 4) (length ?f)"
        using less.hyps [OF less4 _ x(2), of "k + 4"] less.prems(1) by auto
      ultimately show ?thesis by (intro exI [of _ "n + 4"]) simp
    next
      case True
      note mg = images_magic [OF s less.prems(1) x(1) True]
      have l: "drop 4 (drop x ?f) \<noteq> []" "\<not> length (drop x ?f) < 8" "dec32 (take 4 (drop 4 (drop x ?f))) = word_at ?f (x + 4)"
        using mg(1) by (simp_all add: word_at_def add.commute)
      show ?thesis
      proof (cases "head_at ?f x")
        case h: True
        have "seek_head (drop x ?f) k = Ok k" using st l True h by (subst seek_head.simps) (auto simp: head_at_def Let_def)
        then show ?thesis using find_head_hit [OF _ h, of "length ?f"] mg(1) by (intro exI [of _ 0]) simp
      next
        case h: False
        have "seek_head (drop x ?f) k = seek_head (drop (x + 8) ?f) (k + 8)"
          using st l True h by (subst seek_head.simps) (auto simp: head_at_def Let_def add.commute)
        moreover have "find_head ?f x (length ?f) = find_head ?f (x + 8) (length ?f)"
        proof -
          have "\<not> head_at ?f (x + 4)" using mg(2) by (simp add: head_at_def)
          then have "find_head ?f (x + 4) (length ?f) = find_head ?f (x + 8) (length ?f)"
            using mg(1) find_head_miss [of "x + 4" "length ?f" ?f] find_head_end [of "length ?f" "x + 4" ?f] find_head_end [of "length ?f" "x + 8" ?f]
            by (cases "x + 8 < length ?f") (auto simp: add.commute)
          then show ?thesis using find_head_miss [OF _ h, of "length ?f"] mg(1) by simp
        qed
        moreover obtain n where "seek_head (drop (x + 8) ?f) (k + 8) = Ok (k + 8 + n)" "x + 8 + n = find_head ?f (x + 8) (length ?f)"
          using less.hyps [OF less8 _ mg(1), of "k + 8"] less.prems(1) by auto
        ultimately show ?thesis by (intro exI [of _ "n + 8"]) simp
      qed
    qed
  qed
qed

lemma rec_seek:
  assumes s: "small ds" and x: "x mod 4 = 0" "x \<le> length (images ds)"
  obtains n where "Rec_SeekRecordBegin (drop x (images ds)) = Ok n" "x + n = rec_pos ds (first_from ds x)" "first_from ds x \<le> length ds"
  using seek_head_ok [OF assms, of 0] find_head_first [OF s x(1)] x(2) unfolding Rec_SeekRecordBegin_def images_def by auto

section \<open>The contract\<close>

lemma rec_files_fmt: "rec_files fs rs \<Longrightarrow> rec_fmt (concat fs) rs"
proof -
  have "list_all2 rec_fmt fs dss \<Longrightarrow> rec_fmt (concat fs) (concat dss)" for dss
    by (induction rule: list_all2_induct) (auto simp: rec_fmt_Nil intro: rec_fmt_append)
  then show "rec_files fs rs \<Longrightarrow> rec_fmt (concat fs) rs" by (auto simp: rec_files_def)
qed

lemma rec_files_append:
  assumes "rec_files (pre @ post) rs"
  obtains r1 r2 where "rec_files pre r1" "rec_files post r2"
  using assms that unfolding rec_files_def list_all2_append1 by blast

lemma rec_files_in: "rec_files fs rs \<Longrightarrow> f \<in> set fs \<Longrightarrow> \<exists>ds. small ds \<and> f = images ds"
  unfolding rec_files_def rec_fmt_def list_all2_conv_all_nth in_set_conv_nth by metis

lemma rec_files_cut:
  assumes "rec_files (pre @ post) rs"
  shows "rec_cut (concat (pre @ post)) (length (concat pre))"
  using rec_files_append [OF assms] rec_files_fmt unfolding rec_cut_def by (metis append_eq_conv_conj concat_append)

lemma rec_seek_cut:
  assumes f: "rec_files (pre @ f # post) rs" and x: "0 < x" "x < length f" "x mod 4 = 0"
  shows "\<exists>n. Rec_SeekRecordBegin (drop x f) = Ok n \<and> x + n \<le> length f \<and> rec_cut (concat (pre @ f # post)) (length (concat pre) + x + n)"
proof -
  obtain ds where d: "small ds" "f = images ds" using rec_files_in [OF f, of f] by auto
  have xl: "x \<le> length (images ds)" using x(2) d(2) by simp
  from rec_seek [OF d(1) x(3) xl] obtain n where n: "Rec_SeekRecordBegin (drop x (images ds)) = Ok n"
      "x + n = rec_pos ds (first_from ds x)" "first_from ds x \<le> length ds" .
  have le: "x + n \<le> length f" using n(2) rec_pos_mono [OF n(3), of ds] d(2) by (simp add: rec_pos_def images_def)
  note c = rec_pos_cut [OF d(1) n(3), folded n(2) d(2)]
  obtain r1 r2 where "rec_files pre r1" "rec_files (f # post) r2" by (rule rec_files_append [OF f])
  moreover obtain r3 where "rec_files post r3" using rec_files_append [of "[f]" post r2] calculation(2) by auto
  ultimately have "rec_fmt (concat pre) r1" "rec_fmt (concat post) r3" using rec_files_fmt by blast+
  then have "rec_fmt (concat pre @ take (x + n) f) (r1 @ take (first_from ds x) ds)"
    "rec_fmt (drop (x + n) f @ concat post) (drop (first_from ds x) ds @ r3)" using c by (auto intro: rec_fmt_append)
  moreover have "take (length (concat pre) + x + n) (concat (pre @ f # post)) = concat pre @ take (x + n) f"
    "drop (length (concat pre) + x + n) (concat (pre @ f # post)) = drop (x + n) f @ concat post"
    using le by (simp_all add: add.assoc)
  ultimately have "rec_cut (concat (pre @ f # post)) (length (concat pre) + x + n)" unfolding rec_cut_def by metis
  then show ?thesis using n(1) le d(2) by blast
qed

lemma rec_seek_mono:
  assumes f: "rec_files fs rs" "f \<in> set fs" and xy: "x \<le> y" "y < length f" "x mod 4 = 0" "y mod 4 = 0"
    and n: "Rec_SeekRecordBegin (drop x f) = Ok n" "Rec_SeekRecordBegin (drop y f) = Ok m"
  shows "x + n \<le> y + m"
proof -
  obtain ds where d: "small ds" "f = images ds" using rec_files_in [OF f] by auto
  have le: "x \<le> length (images ds)" "y \<le> length (images ds)" using xy d(2) by simp_all
  have "x + n = rec_pos ds (first_from ds x)" "y + m = rec_pos ds (first_from ds y)"
    using rec_seek [OF d(1) xy(3) le(1)] rec_seek [OF d(1) xy(4) le(2)] n d(2) by (metis res.inject(1))+
  moreover have "first_from ds x \<le> first_from ds y"
    using xy(1) le(2) by (intro first_from_mono) (simp_all add: rec_pos_def images_def)
  ultimately show ?thesis using rec_pos_mono by metis
qed

lemma rec_extract_step:
  assumes "rec_fmt c rs" and "c \<noteq> []"
  shows "\<exists>out c' r2. Rec_ExtractNextRecord c = Ok (Some out, c') \<and> length c' < length c \<and> rs = rec_view out @ r2 \<and> rec_fmt c' r2"
proof -
  obtain d ds where rs: "rs = d # ds" using assms by (cases rs) (auto simp: rec_fmt_def)
  then have "Rec_ExtractNextRecord c = Ok (Some d, images ds)" "length (images ds) < length c"
    using assms rec_extract [OF _ length_images_mod, of d ds] length_rec_image(2) [of d] by (auto simp: rec_fmt_def)
  then show ?thesis using rs assms(1) by (intro exI [of _ d] exI [of _ "images ds"] exI [of _ ds]) (simp add: rec_view_def rec_fmt_def)
qed

interpretation rec: record_format RecordIOSplitter rec_fmt rec_view rec_files rec_cut
proof unfold_locales
  show "ExtractNextRecord RecordIOSplitter [] = Ok (None, [])" by (simp add: RecordIOSplitter_def Rec_ExtractNextRecord_def)
  show "length f mod align_bytes RecordIOSplitter = 0" if "rec_files fs rs" "f \<in> set fs" for f fs rs
    using rec_files_in [OF that] length_images_mod by (auto simp: RecordIOSplitter_def)
  show "x + n \<le> y + m" if "rec_files fs rs" "f \<in> set fs" "x \<le> y" "y < length f" "x mod align_bytes RecordIOSplitter = 0"
      "y mod align_bytes RecordIOSplitter = 0" "SeekRecordBegin RecordIOSplitter (drop x f) = Ok n"
      "SeekRecordBegin RecordIOSplitter (drop y f) = Ok m" for fs rs f x y n m
    using that rec_seek_mono [of fs rs f x y n m] by (simp add: RecordIOSplitter_def)
qed (simp_all only: RecordIOSplitter_def splitter.simps rec_fmt_Nil rec_files_fmt rec_files_cut rec_seek_cut rec_cut_split rec_cut_drop
       zero_less_numeral, rule rec_find_last, simp_all, drule (1) rec_extract_step, simp)

text \<open>
  C17: recordio files read in any number of parts, every part with any hint for the chunk size: no check fails, reading every part
  ends, and the records of the parts, one part after the other, are the records that were written to the files, byte for byte
  and in order, magic numbers inside them included.
\<close>

theorem recordio_parts_partition:
  assumes "sized fsys (InitInputFileInfo fsys uri)" and "rec_files (contents fsys (InitInputFileInfo fsys uri)) ds" and "0 < nsplit"
  shows "\<exists>outss. length outss = nsplit \<and> concat outss = ds \<and>
     (\<forall>k < nsplit. \<exists>s s'. Init RecordIOSplitter fsys uri k nsplit new_InputSplitBase = Ok s \<and>
        all_of (is_NextRecord RecordIOSplitter fsys) (HintChunkSize (h k) s) = Some (Ok (outss ! k, s')))"
proof -
  have "concat (map rec_view xs) = xs" for xs by (induction xs) (simp_all add: rec_view_def)
  then show ?thesis using rec.split_records [OF assms(2,1,3), of h] by simp
qed

definition one_file :: FileSystem where
  "one_file = \<lparr>GetPathInfo = (\<lambda>p. \<lparr>fi_path = p, fi_size = length (images [[1, 2, 3], magic]), fi_type = kFile\<rparr>), ListDirectory = (\<lambda>p. []),
     OpenForRead = (\<lambda>p. images [[1, 2, 3], magic])\<rparr>"

theorem recordio_parts_partition_witness:
  "\<exists>outss. length outss = 2 \<and> concat outss = [[1, 2, 3], magic] \<and>
     (\<forall>k < 2. \<exists>s s'. Init RecordIOSplitter one_file ''x'' k 2 new_InputSplitBase = Ok s \<and>
        all_of (is_NextRecord RecordIOSplitter one_file) (HintChunkSize 0 s) = Some (Ok (outss ! k, s')))"
proof -
  have i: "InitInputFileInfo one_file ''x'' = [\<lparr>fi_path = ''x'', fi_size = length (images [[1, 2, 3], magic]), fi_type = kFile\<rparr>]"
    by (simp add: InitInputFileInfo_def one_file_def)
  have "sized one_file (InitInputFileInfo one_file ''x'')" unfolding i by (simp add: sized_def one_file_def)
  moreover have "rec_files (contents one_file (InitInputFileInfo one_file ''x'')) [[1, 2, 3], magic]"
    unfolding i rec_files_def by (intro exI [of _ "[[[1, 2, 3], magic]]"]) (simp add: contents_def one_file_def rec_fmt_def)
  ultimately show ?thesis using recordio_parts_partition [of one_file "''x''" "[[1, 2, 3], magic]" 2 "\<lambda>k. 0"] by simp
qed

end

