(* ===== verification/StrToNum.thy ===== *)
theory StrToNum
  imports Prelude
begin

text \<open>
  Numbers in text, \<open>dmlc-core/src/data/strtonum.h\<close>. A pointer into a text is the list of the bytes from there on; the memory behind
  the list holds a terminating zero, so the end of the list is a byte that belongs to no number. Integers wrap at their width. The
  float arithmetic of \<open>strtof\<close> is that of real numbers, its unsigned counters are 32-bit words.
\<close>

section \<open>Character classes\<close>

definition isspace :: "byte \<Rightarrow> bool" where
  "isspace c \<longleftrightarrow> c = 32 \<or> c = 9 \<or> c = 13 \<or> c = 10 \<or> c = 12"

definition isblank :: "byte \<Rightarrow> bool" where
  "isblank c \<longleftrightarrow> c = 32 \<or> c = 9"

definition isdigit :: "byte \<Rightarrow> bool" where
  "isdigit c \<longleftrightarrow> 48 \<le> c \<and> c \<le> 57"

definition isdigitchars :: "byte \<Rightarrow> bool" where
  "isdigitchars c \<longleftrightarrow> 48 \<le> c \<and> c \<le> 57 \<or> c = 43 \<or> c = 45 \<or> c = 46 \<or> c = 101 \<or> c = 69"

text \<open>\<open>*p - '0'\<close>.\<close>

definition digit :: "byte \<Rightarrow> nat" where
  "digit c = unat c - 48"

section \<open>Conversions\<close>

text \<open>The sign, if any: false for a minus.\<close>

fun get_sign :: "byte list \<Rightarrow> bool \<times> byte list" where
  "get_sign [] = (True, [])"
| "get_sign (c # cs) = (if c = 45 then (False, cs) else if c = 43 then (True, cs) else (True, c # cs))"

fun float_digits :: "real \<Rightarrow> byte list \<Rightarrow> real \<times> byte list" where
  "float_digits value [] = (value, [])"
| "float_digits value (c # cs) = (if isdigit c then float_digits (value * 10 + real (digit c)) cs else (value, c # cs))"

fun frac_digits :: "u32 \<Rightarrow> u32 \<Rightarrow> byte list \<Rightarrow> u32 \<times> u32 \<times> byte list" where
  "frac_digits val2 pow10 [] = (val2, pow10, [])"
| "frac_digits val2 pow10 (c # cs) =
     (if isdigit c then frac_digits (val2 * 10 + word_of_nat (digit c)) (pow10 * 10) cs else (val2, pow10, c # cs))"

fun int_digits :: "'a::len word \<Rightarrow> 'a word \<Rightarrow> byte list \<Rightarrow> 'a word \<times> byte list" where
  "int_digits base value [] = (value, [])"
| "int_digits base value (c # cs) =
     (if isdigit c then int_digits base (value * base + word_of_nat (digit c)) cs else (value, c # cs))"

text \<open>The two loops that compute the scaling factor.\<close>

function scale_by :: "nat \<Rightarrow> real \<Rightarrow> real" where
  "scale_by expon scale =
     (if expon \<ge> 8 then scale_by (expon - 8) (scale * 10 ^ 8)
      else if expon > 0 then scale_by (expon - 1) (scale * 10) else scale)"
  by pat_completeness auto
termination
  by (relation "measure fst") auto

declare scale_by.simps [simp del]

text \<open>
  With 32 or more digits behind the decimal point \<open>pow10\<close> wraps to zero; the float quotient is then not finite, while the
  quotient here is zero.
\<close>

definition get_fraction :: "real \<Rightarrow> byte list \<Rightarrow> real \<times> byte list" where
  "get_fraction value p =
     (case p of
        [] \<Rightarrow> (value, p)
      | c # cs \<Rightarrow>
          if c = 46 then
            let (val2, pow10, q) = frac_digits 0 1 cs in (value + real (unat val2) / real (unat pow10), q)
          else (value, p))"

definition get_exponent :: "real \<Rightarrow> byte list \<Rightarrow> real \<times> byte list" where
  "get_exponent value p =
     (case p of
        [] \<Rightarrow> (value, p)
      | c # cs \<Rightarrow>
          if c = 101 \<or> c = 69 then
            let (pos, q) = get_sign cs; (expon, q) = int_digits (10 :: u32) 0 q;
                scale = scale_by (min (unat expon) 38) 1 in
            (if \<not> pos then value / scale else value * scale, q)
          else (value, p))"

definition strtof :: "byte list \<Rightarrow> real \<times> byte list" where
  "strtof nptr =
     (let p = dropWhile isspace nptr; (sign, p) = get_sign p; (value, p) = float_digits 0 p;
          (value, p) = get_fraction value p; (value, p) = get_exponent value p in
      (if sign then value else - value, p))"

definition strtoint :: "byte list \<Rightarrow> 'a::len word \<Rightarrow> 'a word \<times> byte list" where
  "strtoint nptr base =
     (let p = dropWhile isspace nptr; (sign, p) = get_sign p; (value, p) = int_digits base 0 p in
      (if sign then value else - value, p))"

definition strtouint :: "byte list \<Rightarrow> 'a::len word \<Rightarrow> ('a word \<times> byte list) res" where
  "strtouint nptr base =
     (let p = dropWhile isspace nptr; (sign, p) = get_sign p in
      check (sign = True) ''sign == true'' (Ok (int_digits base 0 p)))"

definition strtoull :: "byte list \<Rightarrow> (u64 \<times> byte list) res" where
  "strtoull nptr = strtouint nptr 10"

definition atol :: "byte list \<Rightarrow> u64" where
  "atol p = fst (strtoint p 10)"

definition atof :: "byte list \<Rightarrow> real" where
  "atof nptr = fst (strtof nptr)"

text \<open>\<open>Str2T<T>::get\<close>: the end of the token is not used.\<close>

definition Str2T_uint64 :: "byte list \<Rightarrow> u64 res" where
  "Str2T_uint64 begin = rmap fst (strtouint begin 10)"

definition Str2T_float :: "byte list \<Rightarrow> real res" where
  "Str2T_float begin = Ok (atof begin)"

text \<open>
  \<open>ParsePair\<close> on the bytes \<open>seg\<close> between \<open>begin\<close> and \<open>end\<close>, with the bytes \<open>behind\<close> after them, which the conversions can
  see. The result holds the values parsed and the rest of the bytes from \<open>*endptr\<close> on.
\<close>

datatype ('a, 'b) pair_result = None0 | One 'a | Two 'a 'b

definition ParsePair :: "(byte list \<Rightarrow> 'a res) \<Rightarrow> (byte list \<Rightarrow> 'b res) \<Rightarrow> byte list \<Rightarrow> byte list \<Rightarrow> (('a, 'b) pair_result \<times> byte list) res" where
  "ParsePair str2t1 str2t2 seg behind =
     (let p = dropWhile (\<lambda>c. \<not> isdigitchars c) seg in
      if p = [] then Ok (None0, [])
      else let q = dropWhile isdigitchars p in
        rbind (str2t1 (p @ behind)) (\<lambda>v1.
        let p = dropWhile isblank q in
        if p = [] \<or> hd p \<noteq> 58 then Ok (One v1, p)
        else let p = dropWhile (\<lambda>c. \<not> isdigitchars c) (tl p); q = dropWhile isdigitchars p in
          rbind (str2t2 (p @ behind)) (\<lambda>v2. Ok (Two v1 v2, q))))"

section \<open>Decimal texts\<close>

definition dchar :: "nat \<Rightarrow> byte" where
  "dchar d = word_of_nat (48 + d)"

fun horner :: "nat \<Rightarrow> nat list \<Rightarrow> nat" where
  "horner v [] = v"
| "horner v (d # ds) = horner (10 * v + d) ds"

abbreviation digits_ok :: "nat list \<Rightarrow> bool" where
  "digits_ok ds \<equiv> \<forall>d\<in>set ds. d < 10"

text \<open>A number as it is written: sign, digits, digits behind the point, and an exponent with its sign.\<close>

record Decimal =
  dc_neg :: bool
  dc_int :: "nat list"
  dc_frac :: "nat list"
  dc_exp :: "(bool \<times> nat list) option"

definition dec_text :: "Decimal \<Rightarrow> byte list" where
  "dec_text d = (if dc_neg d then [45] else []) @ map dchar (dc_int d) @
     (if dc_frac d = [] then [] else 46 # map dchar (dc_frac d)) @
     (case dc_exp d of None \<Rightarrow> [] | Some (neg, ds) \<Rightarrow> 101 # (if neg then [45] else []) @ map dchar ds)"

definition dec_val :: "Decimal \<Rightarrow> real" where
  "dec_val d = (if dc_neg d then - 1 else 1) * (real (horner 0 (dc_int d)) + real (horner 0 (dc_frac d)) / 10 ^ length (dc_frac d)) *
     (case dc_exp d of None \<Rightarrow> 1 | Some (neg, ds) \<Rightarrow> if neg then inverse (10 ^ horner 0 ds) else 10 ^ horner 0 ds)"

text \<open>What fits the counters of \<open>strtof\<close>: nine digits behind the point, exponents up to 38.\<close>

definition dec_ok :: "Decimal \<Rightarrow> bool" where
  "dec_ok d \<longleftrightarrow> dc_int d \<noteq> [] \<and> digits_ok (dc_int d) \<and> digits_ok (dc_frac d) \<and> length (dc_frac d) \<le> 9 \<and>
     (case dc_exp d of None \<Rightarrow> True | Some (neg, ds) \<Rightarrow> ds \<noteq> [] \<and> digits_ok ds \<and> horner 0 ds \<le> 38)"

lemma unat_dchar: "d < 10 \<Longrightarrow> unat (dchar d) = 48 + d"
  by (simp add: dchar_def unat_of_nat del: of_nat_add)

lemma dchar_class:
  assumes "d < 10"
  shows "isdigit (dchar d)" "isdigitchars (dchar d)" "\<not> isspace (dchar d)" "digit (dchar d) = d" "dchar d \<noteq> 45" "dchar d \<noteq> 43"
    "dchar d \<noteq> 46" "dchar d \<noteq> 101" "dchar d \<noteq> 69" "dchar d \<noteq> 58" "dchar d \<noteq> 0" "dchar d \<noteq> 10" "dchar d \<noteq> 13"
  using unat_dchar [OF assms] assms
  by (auto simp: isdigit_def isdigitchars_def isspace_def digit_def word_le_nat_alt word_unat_eq_iff)

text \<open>A list that ends a run of digits.\<close>

definition stops :: "byte list \<Rightarrow> bool" where
  "stops r \<longleftrightarrow> (case r of [] \<Rightarrow> True | c # cs \<Rightarrow> \<not> isdigitchars c)"

abbreviation no_digit :: "byte list \<Rightarrow> bool" where
  "no_digit r \<equiv> (case r of [] \<Rightarrow> True | c # cs \<Rightarrow> \<not> isdigit c)"

lemma stops_no_digit: "stops r \<Longrightarrow> no_digit r"
  by (cases r) (auto simp: stops_def isdigit_def isdigitchars_def)

lemma float_digits_ok: "digits_ok ds \<Longrightarrow> no_digit r \<Longrightarrow> float_digits (real v) (map dchar ds @ r) = (real (horner v ds), r)"
proof (induction ds arbitrary: v)
  case Nil
  then show ?case by (cases r) auto
next
  case (Cons d ds)
  have e: "real v * 10 + real d = real (10 * v + d)" by simp
  show ?case using Cons dchar_class(1,4) [of d] by (simp add: e del: of_nat_add of_nat_mult)
qed

lemma int_digits_ok:
  "digits_ok ds \<Longrightarrow> no_digit r \<Longrightarrow> int_digits 10 (word_of_nat v) (map dchar ds @ r) = (word_of_nat (horner v ds) :: 'a::len word, r)"
proof (induction ds arbitrary: v)
  case Nil
  then show ?case by (cases r) auto
next
  case (Cons d ds)
  have "word_of_nat v * 10 + word_of_nat d = (word_of_nat (10 * v + d) :: 'a word)" by simp
  then show ?case using Cons dchar_class [of d] by (simp del: of_nat_add of_nat_mult)
qed

lemma frac_digits_ok:
  "digits_ok ds \<Longrightarrow> no_digit r \<Longrightarrow> frac_digits (word_of_nat v) (word_of_nat m) (map dchar ds @ r) =
     (word_of_nat (horner v ds), word_of_nat (m * 10 ^ length ds), r)"
proof (induction ds arbitrary: v m)
  case Nil
  then show ?case by (cases r) auto
next
  case (Cons d ds)
  have "word_of_nat v * 10 + word_of_nat d = (word_of_nat (10 * v + d) :: u32)" "word_of_nat m * 10 = (word_of_nat (m * 10) :: u32)" by simp_all
  then show ?case using Cons dchar_class [of d] by (simp del: of_nat_add of_nat_mult add: mult.assoc)
qed

lemma horner_bound: "digits_ok ds \<Longrightarrow> horner v ds < (v + 1) * 10 ^ length ds"
proof (induction ds arbitrary: v)
  case (Cons d ds)
  then have "horner (10 * v + d) ds < (10 * v + d + 1) * 10 ^ length ds" by simp
  also have "\<dots> \<le> (10 * (v + 1)) * 10 ^ length ds" using Cons.prems by (intro mult_right_mono) auto
  finally show ?case by (simp add: algebra_simps)
qed simp

lemma scale_by_ok: "scale_by n s = s * 10 ^ n"
proof (induction n s rule: scale_by.induct)
  case (1 n s)
  have "(10 :: real) ^ n = 10 ^ 8 * 10 ^ (n - 8)" if "8 \<le> n" using that power_add [of "10 :: real" 8 "n - 8"] by simp
  moreover have "(10 :: real) ^ n = 10 * 10 ^ (n - 1)" if "0 < n" using that by (simp add: power_Suc [symmetric] del: power_Suc)
  ultimately show ?case using 1 by (subst scale_by.simps) auto
qed

abbreviation frac_text :: "Decimal \<Rightarrow> byte list" where
  "frac_text d \<equiv> (if dc_frac d = [] then [] else 46 # map dchar (dc_frac d))"

abbreviation exp_text :: "Decimal \<Rightarrow> byte list" where
  "exp_text d \<equiv> (case dc_exp d of None \<Rightarrow> [] | Some (neg, ds) \<Rightarrow> 101 # (if neg then [45] else []) @ map dchar ds)"

lemma get_fraction_ok:
  assumes d: "dec_ok d" and r: "stops r"
  shows "get_fraction v (frac_text d @ exp_text d @ r) = (v + real (horner 0 (dc_frac d)) / 10 ^ length (dc_frac d), exp_text d @ r)"
proof (cases "dc_frac d = []")
  case True
  then show ?thesis using r
    by (auto simp: get_fraction_def stops_def isdigitchars_def split: list.splits option.splits)
next
  case False
  have f: "digits_ok (dc_frac d)" "length (dc_frac d) \<le> 9" using d by (simp_all add: dec_ok_def)
  have nd: "no_digit (exp_text d @ r)" using stops_no_digit [OF r] by (auto simp: isdigit_def split: option.split)
  have p: "(10 :: nat) ^ length (dc_frac d) \<le> 10 ^ 9" using f(2) by (intro power_increasing) simp_all
  have "horner 0 (dc_frac d) < 10 ^ length (dc_frac d)" using horner_bound [OF f(1), of 0] by simp
  then have u: "unat (word_of_nat (horner 0 (dc_frac d)) :: u32) = horner 0 (dc_frac d)"
      "unat (word_of_nat (10 ^ length (dc_frac d)) :: u32) = 10 ^ length (dc_frac d)"
    using p by (simp_all add: unat_of_nat del: of_nat_power)
  have "frac_digits 0 1 (map dchar (dc_frac d) @ exp_text d @ r) =
      (word_of_nat (horner 0 (dc_frac d)), word_of_nat (10 ^ length (dc_frac d)), exp_text d @ r)"
    using frac_digits_ok [OF f(1) nd, of 0 1] by (simp del: of_nat_power)
  then show ?thesis using False u by (simp add: get_fraction_def del: of_nat_unat)
qed

lemma get_exponent_ok:
  assumes d: "dec_ok d" and r: "stops r"
  shows "get_exponent v (exp_text d @ r) =
     (v * (case dc_exp d of None \<Rightarrow> 1 | Some (neg, ds) \<Rightarrow> if neg then inverse (10 ^ horner 0 ds) else 10 ^ horner 0 ds), r)"
proof (cases "dc_exp d")
  case None
  then show ?thesis using r by (auto simp: get_exponent_def stops_def isdigitchars_def split: list.splits)
next
  case (Some e)
  obtain neg ds where e: "e = (neg, ds)" by fastforce
  have ds: "ds \<noteq> []" "digits_ok ds" "horner 0 ds \<le> 38" using d Some e by (simp_all add: dec_ok_def)
  obtain x xs where x: "ds = x # xs" "x < 10" using ds by (cases ds) auto
  have g: "get_sign ((if neg then [45] else []) @ map dchar ds @ r) = (\<not> neg, map dchar ds @ r)"
    using dchar_class [OF x(2)] x(1) by simp
  have i: "int_digits 10 0 (map dchar ds @ r) = (word_of_nat (horner 0 ds) :: u32, r)"
    using int_digits_ok [OF ds(2) stops_no_digit [OF r], of 0] by simp
  have "unat (word_of_nat (horner 0 ds) :: u32) = horner 0 ds" using ds(3) by (simp add: unat_of_nat)
  then show ?thesis using Some e g i ds(3) by (simp add: get_exponent_def scale_by_ok divide_inverse)
qed

lemma strtof_ok:
  assumes d: "dec_ok d" and r: "stops r"
  shows "strtof (dec_text d @ r) = (dec_val d, r)"
proof -
  let ?rest = "frac_text d @ exp_text d @ r"
  have ds: "dc_int d \<noteq> []" "digits_ok (dc_int d)" using d by (simp_all add: dec_ok_def)
  obtain x xs where x: "dc_int d = x # xs" "x < 10" using ds by (cases "dc_int d") auto
  have t: "dec_text d @ r = (if dc_neg d then [45] else []) @ map dchar (dc_int d) @ ?rest" by (simp add: dec_text_def)
  have w: "dropWhile isspace (dec_text d @ r) = dec_text d @ r"
    unfolding t using x dchar_class(3) [OF x(2)] by (simp add: isspace_def)
  have s: "get_sign (dec_text d @ r) = (\<not> dc_neg d, map dchar (dc_int d) @ ?rest)"
    unfolding t using x dchar_class(5,6) [OF x(2)] by simp
  have nd: "no_digit ?rest" using stops_no_digit [OF r] by (auto simp: isdigit_def split: option.split)
  have f: "float_digits 0 (map dchar (dc_int d) @ ?rest) = (real (horner 0 (dc_int d)), ?rest)"
    using float_digits_ok [OF ds(2) nd, of 0] by simp
  show ?thesis
    unfolding strtof_def Let_def w s prod.case f get_fraction_ok [OF d r] get_exponent_ok [OF d r] by (simp add: dec_val_def algebra_simps)
qed

lemma strtouint_ok:
  assumes "ds \<noteq> []" and "digits_ok ds" and "no_digit r"
  shows "strtouint (map dchar ds @ r) 10 = Ok (word_of_nat (horner 0 ds) :: 'a::len word, r)"
proof -
  obtain x xs where x: "ds = x # xs" "x < 10" using assms by (cases ds) auto
  have "dropWhile isspace (map dchar ds @ r) = map dchar ds @ r" "get_sign (map dchar ds @ r) = (True, map dchar ds @ r)"
    using x dchar_class [OF x(2)] by simp_all
  then show ?thesis using int_digits_ok [OF assms(2,3), of 0] by (simp add: strtouint_def)
qed

section \<open>Tokens\<close>

lemma dec_text_chars: "dec_ok d \<Longrightarrow> dec_text d \<noteq> [] \<and> (\<forall>c\<in>set (dec_text d). isdigitchars c)"
proof -
  have "digits_ok ds \<Longrightarrow> c \<in> set (map dchar ds) \<Longrightarrow> isdigitchars c" for c ds using dchar_class(2) by auto
  moreover have "isdigitchars 45" "isdigitchars 46" "isdigitchars 101" by (simp_all add: isdigitchars_def)
  ultimately show "dec_ok d \<Longrightarrow> dec_text d \<noteq> [] \<and> (\<forall>c\<in>set (dec_text d). isdigitchars c)"
    by (auto simp: dec_text_def dec_ok_def split: option.splits if_splits)
qed

lemma dropWhile_stop: "\<forall>x\<in>set xs. P x \<Longrightarrow> (case ys of [] \<Rightarrow> True | y # ys' \<Rightarrow> \<not> P y) \<Longrightarrow> dropWhile P (xs @ ys) = ys"
  by (cases ys) (simp_all add: dropWhile_append2)

text \<open>One value, then blanks and no colon.\<close>

lemma ParsePair_One:
  assumes pre: "\<forall>c\<in>set pre. \<not> isdigitchars c" and t: "t \<noteq> []" "\<forall>c\<in>set t. isdigitchars c" and s: "stops (rest @ behind)"
    and c: "str2t1 (t @ rest @ behind) = Ok v" and r: "dropWhile isblank rest = [] \<or> hd (dropWhile isblank rest) \<noteq> 58"
  shows "ParsePair str2t1 str2t2 (pre @ t @ rest) behind = Ok (One v, dropWhile isblank rest)"
proof -
  have p: "dropWhile (\<lambda>c. \<not> isdigitchars c) (pre @ t @ rest) = t @ rest" using pre t by (cases t) (simp_all add: dropWhile_append2)
  have "stops rest" using s by (cases rest) (auto simp: stops_def)
  then have q: "dropWhile isdigitchars (t @ rest) = rest" using t(2) by (intro dropWhile_stop) (auto simp: stops_def split: list.splits)
  show ?thesis unfolding ParsePair_def p Let_def q using t(1) c r by simp
qed

lemma ParsePair_Two:
  assumes pre: "\<forall>c\<in>set pre. \<not> isdigitchars c" and t: "t \<noteq> []" "\<forall>c\<in>set t. isdigitchars c"
    and u: "u \<noteq> []" "\<forall>c\<in>set u. isdigitchars c" and s: "stops (rest @ behind)"
    and c: "str2t1 (t @ 58 # u @ rest @ behind) = Ok v" "str2t2 (u @ rest @ behind) = Ok w"
  shows "ParsePair str2t1 str2t2 (pre @ t @ 58 # u @ rest) behind = Ok (Two v w, rest)"
proof -
  have p: "dropWhile (\<lambda>c. \<not> isdigitchars c) (pre @ t @ 58 # u @ rest) = t @ 58 # u @ rest" "dropWhile (\<lambda>c. \<not> isdigitchars c) (u @ rest) = u @ rest"
    using pre t u by (cases t; cases u; simp add: dropWhile_append2)+
  have st: "stops rest" using s by (cases rest) (auto simp: stops_def)
  have q: "dropWhile isdigitchars (t @ 58 # u @ rest) = 58 # u @ rest" using t(2) by (intro dropWhile_stop) (auto simp: isdigitchars_def)
  have q': "dropWhile isdigitchars (u @ rest) = rest" using u(2) st by (intro dropWhile_stop) (auto simp: stops_def split: list.splits)
  show ?thesis unfolding ParsePair_def p(1) Let_def q using t(1) c p(2) q' by (simp add: isblank_def)
qed

lemma ParsePair_None: "\<forall>c\<in>set seg. \<not> isdigitchars c \<Longrightarrow> ParsePair f g seg behind = Ok (None0, [])"
  by (simp add: ParsePair_def)

text \<open>A call on bytes that are left consumes some: the loop over the features ends.\<close>

lemma ParsePair_progress:
  assumes "ParsePair f g seg behind = Ok (x, rest)" and "seg \<noteq> []"
  shows "length rest < length seg"
proof (cases "x = None0")
  case True
  then have "rest = []" using assms by (auto simp: ParsePair_def Let_def rbind_Ok_iff split: if_splits)
  then show ?thesis using assms(2) by simp
next
  case x: False
  have dl: "length (dropWhile P xs) \<le> length xs" for P :: "byte \<Rightarrow> bool" and xs by (rule length_dropWhile_le)
  define p where "p = dropWhile (\<lambda>c. \<not> isdigitchars c) seg"
  have p: "p \<noteq> []" using assms x by (auto simp: ParsePair_def Let_def p_def split: if_splits)
  then have "isdigitchars (hd p)" using hd_dropWhile [of "\<lambda>c. \<not> isdigitchars c" seg] by (simp add: p_def)
  then have q: "length (dropWhile isdigitchars p) < length p" using p dl by (cases p) (auto simp: less_Suc_eq_le)
  define p2 where "p2 = dropWhile isblank (dropWhile isdigitchars p)"
  have p2: "length p2 < length seg"
    using q dl [of isblank "dropWhile isdigitchars p"] dl [of "\<lambda>c. \<not> isdigitchars c" seg] unfolding p2_def p_def by linarith
  have "rest = p2 \<or> rest = dropWhile isdigitchars (dropWhile (\<lambda>c. \<not> isdigitchars c) (tl p2))"
    using assms p x unfolding ParsePair_def Let_def p_def [symmetric] p2_def [symmetric]
    by (auto simp: rbind_Ok_iff split: if_splits)
  moreover have "length (dropWhile isdigitchars (dropWhile (\<lambda>c. \<not> isdigitchars c) (tl p2))) \<le> length p2"
    using dl [of isdigitchars "dropWhile (\<lambda>c. \<not> isdigitchars c) (tl p2)"] dl [of "\<lambda>c. \<not> isdigitchars c" "tl p2"] by simp
  ultimately show ?thesis using p2 by auto
qed

text \<open>
  Ten digits behind the decimal point overflow the unsigned counters: \<open>0.1000000000\<close> is read as more than 0.7.
\<close>

lemma strtof_ten_digits: "atof (map dchar [0] @ 46 # map dchar [1, 0, 0, 0, 0, 0, 0, 0, 0, 0]) = 1000000000 / 1410065408"
  by (simp add: atof_def strtof_def isspace_def dchar_def isdigit_def get_fraction_def get_exponent_def digit_def)

end
