(* ===== verification/LineSplit.thy ===== *)
theory LineSplit
  imports InputSplit
begin

text \<open>
  Splitting text files by line, \<open>dmlc-core/src/io/line_split.cc\<close>: the virtual functions of \<open>LineSplitter\<close>, their
  interpretation of \<open>record_format\<close>, and what follows for the lines of the files. A line is a maximal nonempty run of bytes
  that are no line ends.
\<close>

definition is_eol :: "byte \<Rightarrow> bool" where
  "is_eol c \<longleftrightarrow> c = 10 \<or> c = 13"

section \<open>The virtual functions\<close>

text \<open>The two loops of \<open>SeekRecordBegin\<close>; the end of the stream returns the bytes counted so far.\<close>

fun seek_noneol :: "byte list \<Rightarrow> nat \<Rightarrow> nat" where
  "seek_noneol [] nstep = nstep"
| "seek_noneol (c # cs) nstep = (if \<not> is_eol c then nstep else seek_noneol cs (nstep + 1))"

fun seek_eol :: "byte list \<Rightarrow> nat \<Rightarrow> nat" where
  "seek_eol [] nstep = nstep"
| "seek_eol (c # cs) nstep = (if is_eol c then seek_noneol cs (nstep + 1) else seek_eol cs (nstep + 1))"

definition Line_SeekRecordBegin :: "byte list \<Rightarrow> nat res" where
  "Line_SeekRecordBegin stream = Ok (seek_eol stream 0)"

text \<open>The scan from the end; position 0 is not looked at.\<close>

fun scan_back :: "byte list \<Rightarrow> nat \<Rightarrow> nat" where
  "scan_back buf 0 = 0"
| "scan_back buf (Suc p) = (if is_eol (buf ! Suc p) then Suc p + 1 else scan_back buf p)"

definition Line_FindLastRecordBegin :: "byte list \<Rightarrow> nat res" where
  "Line_FindLastRecordBegin buf = check (buf \<noteq> []) ''begin != end'' (Ok (scan_back buf (length buf - 1)))"

text \<open>
  The terminating zero overwrites the last byte of the record, unless the record ends the chunk: then it is written behind it,
  where the memory of a chunk has room.
\<close>

definition Line_ExtractNextRecord :: "byte list \<Rightarrow> (byte list option \<times> byte list) res" where
  "Line_ExtractNextRecord c =
     (if c = [] then Ok (None, c)
      else let p1 = length (takeWhile (\<lambda>b. \<not> is_eol b) c);
               p = p1 + length (takeWhile is_eol (drop p1 c)) in
        Ok (Some (if p = length c then take p c else (take p c)[p - 1 := 0]), drop p c))"

definition LineSplitter :: splitter where
  "LineSplitter = \<lparr>SeekRecordBegin = Line_SeekRecordBegin, FindLastRecordBegin = Line_FindLastRecordBegin,
     ExtractNextRecord = Line_ExtractNextRecord, align_bytes = 1\<rparr>"

section \<open>Lines\<close>

fun lines_from :: "byte list \<Rightarrow> byte list \<Rightarrow> byte list list" where
  "lines_from acc [] = (if acc = [] then [] else [acc])"
| "lines_from acc (c # cs) =
     (if is_eol c then (if acc = [] then [] else [acc]) @ lines_from [] cs else lines_from (acc @ [c]) cs)"

abbreviation lines :: "byte list \<Rightarrow> byte list list" where
  "lines \<equiv> lines_from []"

lemma lines_eol_end: "is_eol e \<Longrightarrow> lines_from acc (xs @ e # ys) = lines_from acc (xs @ [e]) @ lines ys"
  by (induction xs arbitrary: acc) auto

lemma lines_after_eol:
  assumes "xs = [] \<or> is_eol (last xs)"
  shows "lines (xs @ ys) = lines xs @ lines ys"
proof (cases "xs = []")
  case False
  then have "xs @ ys = butlast xs @ last xs # ys" "butlast xs @ [last xs] = xs" by simp_all
  then show ?thesis using assms False lines_eol_end [of "last xs" "[]" "butlast xs" ys] by metis
qed simp

lemma lines_noneol: "\<forall>x\<in>set xs. \<not> is_eol x \<Longrightarrow> lines_from acc (xs @ ys) = lines_from (acc @ xs) ys"
  by (induction xs arbitrary: acc) auto

lemma lines_eols: "\<forall>x\<in>set xs. is_eol x \<Longrightarrow> lines (xs @ ys) = lines ys"
  by (induction xs) auto

text \<open>A position between two lines.\<close>

definition line_cut :: "byte list \<Rightarrow> nat \<Rightarrow> bool" where
  "line_cut c p \<longleftrightarrow> p = 0 \<or> length c \<le> p \<or> is_eol (c ! (p - 1))"

definition line_fmt :: "byte list \<Rightarrow> byte list list \<Rightarrow> bool" where
  "line_fmt c ls \<longleftrightarrow> 0 \<notin> set c \<and> ls = lines c"

text \<open>Every file but the last ends with a line end.\<close>

definition line_files :: "byte list list \<Rightarrow> byte list list \<Rightarrow> bool" where
  "line_files fs ls \<longleftrightarrow> (\<forall>f\<in>set fs. 0 \<notin> set f) \<and> (\<forall>f\<in>set (butlast fs). f = [] \<or> is_eol (last f)) \<and> ls = concat (map lines fs)"

text \<open>The text of an extracted record, up to its line end or terminating zero; nothing when it is empty.\<close>

definition line_view :: "byte list \<Rightarrow> byte list list" where
  "line_view out = (let l = takeWhile (\<lambda>b. \<not> is_eol b \<and> b \<noteq> 0) out in if l = [] then [] else [l])"

lemma line_cut_split:
  assumes "line_cut c p"
  shows "lines c = lines (take p c) @ lines (drop p c)"
proof (cases "p = 0 \<or> length c \<le> p")
  case False
  then have "take p c \<noteq> []" "last (take p c) = c ! (p - 1)"
    using take_Suc_ends(3) [of "p - 1" c] by auto
  then show ?thesis using assms False lines_after_eol [of "take p c" "drop p c"] by (simp add: line_cut_def)
qed auto

lemma scan_back_ok:
  assumes "p < length buf"
  shows "scan_back buf p \<le> length buf \<and> (scan_back buf p = 0 \<or> 1 < scan_back buf p \<and> is_eol (buf ! (scan_back buf p - 1)))"
  using assms by (induction p) auto

lemma line_find_last:
  assumes f: "line_fmt (w @ rest) ls" and w: "w \<noteq> []"
  shows "\<exists>n r1 r2. Line_FindLastRecordBegin w = Ok n \<and> n \<le> length w \<and> ls = r1 @ r2 \<and> line_fmt (take n w) r1 \<and> line_fmt (drop n w @ rest) r2"
proof -
  define n where "n = scan_back w (length w - 1)"
  have n: "n \<le> length w" "n = 0 \<or> 1 < n \<and> is_eol (w ! (n - 1))" using scan_back_ok [of "length w - 1" w] w by (auto simp: n_def)
  have "line_cut (w @ rest) n" using n by (auto simp: line_cut_def nth_append)
  then have "lines (w @ rest) = lines (take n w) @ lines (drop n w @ rest)" using line_cut_split n(1) by fastforce
  moreover have "Line_FindLastRecordBegin w = Ok n" using w by (simp add: Line_FindLastRecordBegin_def n_def)
  ultimately show ?thesis using f n(1) by (auto simp: line_fmt_def dest: in_set_takeD in_set_dropD)
qed

lemma line_extract:
  assumes f: "line_fmt c ls" and c: "c \<noteq> []"
  shows "\<exists>out c' r2. Line_ExtractNextRecord c = Ok (Some out, c') \<and> length c' < length c \<and> ls = line_view out @ r2 \<and> line_fmt c' r2"
proof -
  define a where "a = takeWhile (\<lambda>b. \<not> is_eol b) c"
  define r where "r = dropWhile (\<lambda>b. \<not> is_eol b) c"
  define e where "e = takeWhile is_eol r"
  define d where "d = dropWhile is_eol r"
  have cd: "c = a @ r" "r = e @ d" by (simp_all add: a_def r_def e_def d_def)
  have ae: "\<forall>x\<in>set a. \<not> is_eol x" "\<forall>x\<in>set e. is_eol x" by (auto simp: a_def e_def dest: set_takeWhileD)
  have e0: "e = [] \<Longrightarrow> d = []"
  proof -
    assume "e = []"
    then have "r = [] \<or> \<not> is_eol (hd r)" unfolding e_def by (cases r) auto
    moreover have "r \<noteq> [] \<Longrightarrow> is_eol (hd r)" using hd_dropWhile [of "\<lambda>b. \<not> is_eol b" c] by (simp add: r_def)
    ultimately have "r = []" by blast
    then show "d = []" by (simp add: d_def)
  qed
  have z: "0 \<notin> set c" using f by (simp add: line_fmt_def)
  define out where "out = (if d = [] then a @ e else a @ butlast e @ [0])"
  have "Line_ExtractNextRecord c = Ok (Some out, d)"
  proof -
    have p: "length (takeWhile (\<lambda>b. \<not> is_eol b) c) = length a" "length (takeWhile is_eol (drop (length a) c)) = length e"
      by (simp only: a_def) (use cd(1) in \<open>simp add: e_def\<close>)
    have "(a @ e)[length a + length e - 1 := 0] = a @ butlast e @ [0]" if "d \<noteq> []"
    proof -
      have "e \<noteq> []" using that e0 by blast
      then show ?thesis by (cases e rule: rev_cases) (simp_all add: list_update_append)
    qed
    then show ?thesis using c unfolding Line_ExtractNextRecord_def p Let_def by (simp add: cd out_def)
  qed
  moreover have "length d < length c" using c cd e0 by (cases "e = []") auto
  moreover have "lines c = line_view out @ lines d"
  proof -
    have na: "takeWhile (\<lambda>b. \<not> is_eol b \<and> b \<noteq> 0) (a @ x) = a @ takeWhile (\<lambda>b. \<not> is_eol b \<and> b \<noteq> 0) x" for x
      using ae(1) z cd(1) by (intro takeWhile_append2) auto
    have "takeWhile (\<lambda>b. \<not> is_eol b \<and> b \<noteq> 0) y = []" if "y = e \<or> y = butlast e @ [0]" for y
      using that ae(2) by (cases e) (auto dest: in_set_butlastD)
    then have v: "takeWhile (\<lambda>b. \<not> is_eol b \<and> b \<noteq> 0) out = a" by (simp add: out_def na)
    have "lines c = lines_from a (e @ d)" using lines_noneol [OF ae(1), of "[]" r] cd by simp
    also have "\<dots> = (if a = [] then [] else [a]) @ lines d"
    proof (cases e)
      case Nil
      then show ?thesis using e0 by simp
    next
      case (Cons b bs)
      then show ?thesis using ae(2) lines_eols [of bs d] by simp
    qed
    finally show ?thesis using v by (simp add: line_view_def Let_def)
  qed
  moreover have "0 \<notin> set d" using z cd by auto
  ultimately show ?thesis using f by (auto simp: line_fmt_def)
qed

section \<open>Positions reached from inside a file\<close>

lemma seek_noneol_shift: "seek_noneol cs n = n + seek_noneol cs 0"
proof (induction cs arbitrary: n)
  case (Cons c cs)
  show ?case using Cons [of "n + 1"] Cons [of 1] by simp
qed simp

lemma seek_eol_shift: "seek_eol cs n = n + seek_eol cs 0"
proof (induction cs arbitrary: n)
  case (Cons c cs)
  show ?case using Cons [of "n + 1"] Cons [of 1] seek_noneol_shift [of cs "n + 1"] seek_noneol_shift [of cs 1] by simp
qed simp

lemma seek_eol_Cons: "seek_eol (c # cs) 0 = Suc (if is_eol c then seek_noneol cs 0 else seek_eol cs 0)"
  using seek_noneol_shift [of cs 1] seek_eol_shift [of cs 1] by simp

lemma seek_noneol_Cons: "seek_noneol (c # cs) 0 = (if is_eol c then Suc (seek_noneol cs 0) else 0)"
  using seek_noneol_shift [of cs 1] by simp

lemma seek_noneol_cut: "seek_noneol cs 0 \<le> length cs \<and> (0 < seek_noneol cs 0 \<longrightarrow> is_eol (cs ! (seek_noneol cs 0 - 1)))"
proof (induction cs)
  case (Cons c cs)
  then show ?case unfolding seek_noneol_Cons by (auto simp: nth_Cons')
qed simp

lemma seek_eol_cut: "seek_eol cs 0 \<le> length cs \<and> (seek_eol cs 0 < length cs \<longrightarrow> 0 < seek_eol cs 0 \<and> is_eol (cs ! (seek_eol cs 0 - 1)))"
proof (induction cs)
  case (Cons c cs)
  then show ?case unfolding seek_eol_Cons using seek_noneol_cut [of cs] by (auto simp: nth_Cons')
qed simp

lemma seek_noneol_le: "seek_noneol cs 0 \<le> seek_eol cs 0"
  by (induction cs) (auto simp: seek_eol_Cons seek_noneol_Cons simp del: seek_eol.simps(2) seek_noneol.simps(2))

lemma seek_eol_step: "seek_eol (c # cs) 0 \<le> Suc (seek_eol cs 0)"
  unfolding seek_eol_Cons using seek_noneol_le [of cs] by simp

lemma seek_eol_mono:
  assumes "x \<le> y" and "y \<le> length f"
  shows "x + seek_eol (drop x f) 0 \<le> y + seek_eol (drop y f) 0"
  using assms
proof (induction rule: dec_induct)
  case (step n)
  then have "n + seek_eol (drop n f) 0 \<le> Suc n + seek_eol (drop (Suc n) f) 0"
    using seek_eol_step [of "f ! n" "drop (Suc n) f"] Cons_nth_drop_Suc [of n f] by simp
  then show ?case using step by simp
qed simp

section \<open>The contract\<close>

lemma line_files_concat:
  assumes "\<forall>f\<in>set (butlast fs). f = [] \<or> is_eol (last f)"
  shows "lines (concat fs) = concat (map lines fs)"
  using assms
proof (induction fs)
  case (Cons f fs)
  show ?case
  proof (cases "fs = []")
    case False
    then have "lines (f @ concat fs) = lines f @ lines (concat fs)" using Cons.prems by (intro lines_after_eol) simp
    then show ?thesis using Cons False by simp
  qed simp
qed simp

lemma line_files_boundary:
  assumes "line_files (pre @ post) ls"
  shows "line_cut (concat (pre @ post)) (length (concat pre))"
proof (cases "concat pre = [] \<or> concat post = []")
  case True
  then show ?thesis by (auto simp: line_cut_def simp del: concat_eq_Nil_conv)
next
  case False
  then have "post \<noteq> []" by auto
  then have e: "\<forall>f\<in>set pre. f = [] \<or> is_eol (last f)" using assms by (auto simp: line_files_def butlast_append)
  have "concat pre \<noteq> [] \<Longrightarrow> is_eol (last (concat pre))"
    using e
  proof (induction pre rule: rev_induct)
    case (snoc f pre)
    then show ?case by (cases "f = []") (auto simp: last_append)
  qed simp
  then show ?thesis using False by (auto simp: line_cut_def nth_append last_conv_nth simp del: concat_eq_Nil_conv)
qed

lemma line_seek_cut:
  assumes f: "line_files (pre @ f # post) ls" and x: "0 < x" "x < length f"
  shows "\<exists>n. Line_SeekRecordBegin (drop x f) = Ok n \<and> x + n \<le> length f \<and> line_cut (concat (pre @ f # post)) (length (concat pre) + x + n)"
proof -
  define n where "n = seek_eol (drop x f) 0"
  have n: "x + n \<le> length f" "x + n < length f \<Longrightarrow> is_eol (f ! (x + n - 1))"
    using seek_eol_cut [of "drop x f"] x by (auto simp: n_def)
  have "line_cut (concat (pre @ f # post)) (length (concat pre) + x + n)"
  proof (cases "x + n = length f")
    case True
    then have l: "length (concat pre) + x + n = length (concat (pre @ [f]))" by simp
    show ?thesis unfolding l using line_files_boundary [of "pre @ [f]" post ls] f by simp
  next
    case False
    then have "(concat pre @ f @ concat post) ! (length (concat pre) + (x + n - 1)) = f ! (x + n - 1)"
    proof -
      have "x + n - 1 < length f" using False n(1) x by linarith
      then show ?thesis by (simp add: nth_append)
    qed
    moreover have "length (concat pre) + x + n - 1 = length (concat pre) + (x + n - 1)" using x by simp
    ultimately show ?thesis using False n by (simp add: line_cut_def)
  qed
  then show ?thesis using n(1) by (simp add: Line_SeekRecordBegin_def n_def)
qed

lemma line_cut_drop: "line_cut c p \<Longrightarrow> line_cut c q \<Longrightarrow> p \<le> q \<Longrightarrow> line_cut (drop p c) (q - p)"
  by (cases "p < length c") (auto simp: line_cut_def)

interpretation line: record_format LineSplitter line_fmt line_view line_files line_cut
proof unfold_locales
  show "line_fmt [] rs \<longleftrightarrow> rs = []" for rs by (simp add: line_fmt_def)
  show "ExtractNextRecord LineSplitter [] = Ok (None, [])" by (simp add: LineSplitter_def Line_ExtractNextRecord_def)
  show "0 < align_bytes LineSplitter" by (simp add: LineSplitter_def)
  show "length f mod align_bytes LineSplitter = 0" if "line_files fs rs" "f \<in> set fs" for f fs rs by (simp add: LineSplitter_def)
  show "line_fmt (concat fs) rs" if "line_files fs rs" for fs rs
    using that line_files_concat [of fs] by (auto simp: line_files_def line_fmt_def)
  show "\<exists>r1 r2. rs = r1 @ r2 \<and> line_fmt (take p c) r1 \<and> line_fmt (drop p c) r2" if "line_fmt c rs" "line_cut c p" for c rs p
    using that line_cut_split [of c p] by (auto simp: line_fmt_def dest: in_set_takeD in_set_dropD)
  show "x + n \<le> y + m" if "x \<le> y" "y < length f" "SeekRecordBegin LineSplitter (drop x f) = Ok n"
      "SeekRecordBegin LineSplitter (drop y f) = Ok m" for x y f n m
    using that seek_eol_mono [of x y f] by (simp add: LineSplitter_def Line_SeekRecordBegin_def)
qed (simp_all only: LineSplitter_def splitter.simps line_seek_cut line_files_boundary line_cut_drop, rule line_find_last, simp_all,
      drule (1) line_extract, simp)

text \<open>When every file ends with a line end, so does every chunk.\<close>

definition eol_end :: "byte list \<Rightarrow> bool" where
  "eol_end c \<longleftrightarrow> c = [] \<or> is_eol (last c)"

definition eol_fmt :: "byte list \<Rightarrow> byte list list \<Rightarrow> bool" where
  "eol_fmt c ls \<longleftrightarrow> line_fmt c ls \<and> eol_end c"

definition eol_files :: "byte list list \<Rightarrow> byte list list \<Rightarrow> bool" where
  "eol_files fs ls \<longleftrightarrow> line_files fs ls \<and> (\<forall>f\<in>set fs. eol_end f)"

lemma eol_end_drop: "eol_end c \<Longrightarrow> eol_end (drop n c)"
  by (cases "n < length c") (auto simp: eol_end_def)

lemma eol_end_take: "line_cut c p \<Longrightarrow> eol_end c \<Longrightarrow> eol_end (take p c)"
  using take_Suc_ends(3) [of "p - 1" c] by (cases "p < length c") (auto simp: eol_end_def line_cut_def)

lemma eol_end_concat: "\<forall>f\<in>set fs. eol_end f \<Longrightarrow> eol_end (concat fs)"
  by (induction fs) (auto simp: eol_end_def last_append)

lemma eol_find_last:
  assumes "eol_fmt (w @ rest) ls" and "w \<noteq> []"
  shows "\<exists>n r1 r2. Line_FindLastRecordBegin w = Ok n \<and> n \<le> length w \<and> ls = r1 @ r2 \<and> eol_fmt (take n w) r1 \<and> eol_fmt (drop n w @ rest) r2"
proof -
  from line_find_last [of w rest ls] assms obtain n r1 r2 where n: "Line_FindLastRecordBegin w = Ok n" "n \<le> length w" "ls = r1 @ r2"
      "line_fmt (take n w) r1" "line_fmt (drop n w @ rest) r2" by (auto simp: eol_fmt_def)
  have "n = 0 \<or> is_eol (w ! (n - 1))"
    using n(1) assms(2) scan_back_ok [of "length w - 1" w] by (auto simp: Line_FindLastRecordBegin_def)
  then have "eol_end (take n w)"
    using n(2) take_Suc_ends(3) [of "n - 1" w] by (auto simp: eol_end_def)
  moreover have "eol_end (drop n w @ rest)" using eol_end_drop [of "w @ rest" n] assms(1) n(2) by (simp add: eol_fmt_def)
  ultimately show ?thesis using n by (auto simp: eol_fmt_def)
qed

lemma eol_extract:
  assumes "eol_fmt c ls" and "c \<noteq> []"
  shows "\<exists>out c' r2. Line_ExtractNextRecord c = Ok (Some out, c') \<and> length c' < length c \<and> ls = line_view out @ r2 \<and> eol_fmt c' r2"
proof -
  from line_extract [of c ls] assms obtain out c' r2 where e: "Line_ExtractNextRecord c = Ok (Some out, c')" "length c' < length c"
      "ls = line_view out @ r2" "line_fmt c' r2" by (auto simp: eol_fmt_def)
  moreover have "eol_end []" by (simp add: eol_end_def)
  moreover from this have "eol_end c'" using e(1) assms eol_end_drop by (auto simp: Line_ExtractNextRecord_def Let_def eol_fmt_def split: if_splits)
  ultimately show ?thesis by (auto simp: eol_fmt_def)
qed

interpretation eol: record_format LineSplitter eol_fmt line_view eol_files line_cut
proof unfold_locales
  show "eol_fmt [] rs \<longleftrightarrow> rs = []" for rs by (simp add: eol_fmt_def eol_end_def line.fmt_Nil)
  show "\<exists>n r1 r2. FindLastRecordBegin LineSplitter w = Ok n \<and> n \<le> length w \<and> rs = r1 @ r2 \<and> eol_fmt (take n w) r1 \<and> eol_fmt (drop n w @ rest) r2"
    if "eol_fmt (w @ rest) rs" "w \<noteq> []" for w rest rs using eol_find_last [OF that] by (simp add: LineSplitter_def)
  show "\<exists>out c' r2. ExtractNextRecord LineSplitter c = Ok (Some out, c') \<and> length c' < length c \<and> rs = line_view out @ r2 \<and> eol_fmt c' r2"
    if "eol_fmt c rs" "c \<noteq> []" for c rs using eol_extract [OF that] by (simp add: LineSplitter_def)
  show "\<exists>r1 r2. rs = r1 @ r2 \<and> eol_fmt (take p c) r1 \<and> eol_fmt (drop p c) r2" if "eol_fmt c rs" "line_cut c p" for c rs p
    using that line.cut_split [of c rs p] eol_end_take [of c p] eol_end_drop [of c p] by (auto simp: eol_fmt_def)
  show "eol_fmt (concat fs) rs" if "eol_files fs rs" for fs rs
    using that line.files_fmt [of fs rs] eol_end_concat by (auto simp: eol_fmt_def eol_files_def)
qed (auto simp: eol_files_def intro: line.extract_Nil line.align_pos line.files_align line.files_cut [simplified] line.cut_drop
       dest: line.seek_cut [simplified] line.seek_mono)

text \<open>When every line of every file ends with exactly one line end, there are no others in any chunk.\<close>

fun single_from :: "bool \<Rightarrow> byte list \<Rightarrow> bool" where
  "single_from b [] = True"
| "single_from b (c # cs) = (\<not> (b \<and> is_eol c) \<and> single_from (is_eol c) cs)"

abbreviation single_ends :: "byte list \<Rightarrow> bool" where
  "single_ends \<equiv> single_from True"

definition single_fmt :: "byte list \<Rightarrow> byte list list \<Rightarrow> bool" where
  "single_fmt c ls \<longleftrightarrow> eol_fmt c ls \<and> single_ends c"

definition single_files :: "byte list list \<Rightarrow> byte list list \<Rightarrow> bool" where
  "single_files fs ls \<longleftrightarrow> eol_files fs ls \<and> (\<forall>f\<in>set fs. single_ends f)"

lemma single_append: "single_from b (xs @ ys) \<longleftrightarrow> single_from b xs \<and> single_from (if xs = [] then b else is_eol (last xs)) ys"
  by (induction xs arbitrary: b) auto

lemma single_cut: "single_ends (xs @ ys) \<Longrightarrow> eol_end xs \<Longrightarrow> single_ends xs \<and> single_ends ys"
  by (auto simp: single_append eol_end_def split: if_splits)

lemma single_True: "single_from b c \<Longrightarrow> c = [] \<or> \<not> is_eol (hd c) \<Longrightarrow> single_ends c"
  by (cases c) auto

lemma single_concat: "\<forall>f\<in>set fs. single_ends f \<and> eol_end f \<Longrightarrow> single_ends (concat fs)"
  by (induction fs) (auto simp: single_append eol_end_def)

interpretation single: record_format LineSplitter single_fmt line_view single_files line_cut
proof unfold_locales
  show "single_fmt [] rs \<longleftrightarrow> rs = []" for rs by (simp add: single_fmt_def eol.fmt_Nil)
  show "\<exists>n r1 r2. FindLastRecordBegin LineSplitter w = Ok n \<and> n \<le> length w \<and> rs = r1 @ r2 \<and> single_fmt (take n w) r1 \<and> single_fmt (drop n w @ rest) r2"
    if f: "single_fmt (w @ rest) rs" "w \<noteq> []" for w rest rs
  proof -
    obtain n r1 r2 where n: "FindLastRecordBegin LineSplitter w = Ok n" "n \<le> length w" "rs = r1 @ r2" "eol_fmt (take n w) r1" "eol_fmt (drop n w @ rest) r2"
      using eol_find_last [of w rest rs] f by (auto simp: single_fmt_def LineSplitter_def)
    moreover have "single_ends (take n w @ (drop n w @ rest))" using f(1) by (simp add: single_fmt_def flip: append_assoc)
    ultimately show ?thesis using single_cut [of "take n w" "drop n w @ rest"] by (auto simp: single_fmt_def eol_fmt_def)
  qed
  show "\<exists>out c' r2. ExtractNextRecord LineSplitter c = Ok (Some out, c') \<and> length c' < length c \<and> rs = line_view out @ r2 \<and> single_fmt c' r2"
    if f: "single_fmt c rs" "c \<noteq> []" for c rs
  proof -
    obtain out c' r2 where e: "Line_ExtractNextRecord c = Ok (Some out, c')" "length c' < length c" "rs = line_view out @ r2" "eol_fmt c' r2"
      using eol_extract [of c rs] f by (auto simp: single_fmt_def)
    let ?a = "takeWhile (\<lambda>b. \<not> is_eol b) c"
    have c': "c' = dropWhile is_eol (drop (length ?a) c)" using e(1) f(2)
      by (auto simp: Line_ExtractNextRecord_def Let_def dropWhile_eq_drop add.commute split: if_splits)
    have "c = takeWhile (\<lambda>b. \<not> is_eol b) c @ takeWhile is_eol (drop (length ?a) c) @ c'"
      unfolding c' takeWhile_dropWhile_id by (simp flip: dropWhile_eq_drop)
    then have "\<exists>b. single_from b c'" using f(1) unfolding single_fmt_def by (metis single_append)
    moreover have "c' = [] \<or> \<not> is_eol (hd c')" unfolding c' using hd_dropWhile [of is_eol] by blast
    ultimately show ?thesis using e single_True by (auto simp: single_fmt_def LineSplitter_def)
  qed
  show "\<exists>r1 r2. rs = r1 @ r2 \<and> single_fmt (take p c) r1 \<and> single_fmt (drop p c) r2" if "single_fmt c rs" "line_cut c p" for c rs p
    using that eol.cut_split [of c rs p] single_cut [of "take p c" "drop p c"] by (auto simp: single_fmt_def eol_fmt_def)
  show "single_fmt (concat fs) rs" if "single_files fs rs" for fs rs
    using that eol.files_fmt [of fs rs] single_concat [of fs] by (auto simp: single_fmt_def single_files_def eol_files_def)
qed (auto simp: single_files_def intro: eol.extract_Nil eol.align_pos eol.files_align eol.files_cut [simplified] eol.cut_drop
       dest: eol.seek_cut [simplified] eol.seek_mono)

section \<open>Text files in parts\<close>

text \<open>
  C16: text files read in any number of parts, every part with any hint for the chunk size. Opening a part succeeds, reading it
  ends, and the texts of the records of the parts, one part after the other, are exactly the nonempty lines of the files, in order.
  The files but the last end with a line end and hold no zero bytes.
\<close>

theorem text_parts_partition:
  assumes "sized fsys (InitInputFileInfo fsys uri)" and "line_files (contents fsys (InitInputFileInfo fsys uri)) ls" and "0 < nsplit"
  shows "\<exists>outss. length outss = nsplit \<and> concat (map line_view (concat outss)) = ls \<and>
     (\<forall>k < nsplit. \<exists>s s'. Init LineSplitter fsys uri k nsplit new_InputSplitBase = Ok s \<and>
        all_of (is_NextRecord LineSplitter fsys) (HintChunkSize (h k) s) = Some (Ok (outss ! k, s')))"
  using assms by (intro line.split_records)

text \<open>A directory with two small files, for the witness: \<open>a\<close>, \<open>bc\<close> in the first and \<open>d\<close> in the second.\<close>

definition two_files :: FileSystem where
  "two_files = \<lparr>GetPathInfo = (\<lambda>p. \<lparr>fi_path = p, fi_size = (if p = ''x'' then 5 else 1), fi_type = kFile\<rparr>), ListDirectory = (\<lambda>p. []),
     OpenForRead = (\<lambda>p. if p = ''x'' then [97, 10, 98, 99, 10] else [100])\<rparr>"

lemma two_files_lines: "sized two_files (InitInputFileInfo two_files ''x;y'')"
  "line_files (contents two_files (InitInputFileInfo two_files ''x;y'')) [[97], [98, 99], [100]]"
  by (simp_all add: InitInputFileInfo_def two_files_def sized_def contents_def line_files_def is_eol_def)

theorem text_parts_partition_witness:
  "\<exists>outss. length outss = 3 \<and> concat (map line_view (concat outss)) = [[97], [98, 99], [100]] \<and>
     (\<forall>k < 3. \<exists>s s'. Init LineSplitter two_files ''x;y'' k 3 new_InputSplitBase = Ok s \<and>
        all_of (is_NextRecord LineSplitter two_files) (HintChunkSize 0 s) = Some (Ok (outss ! k, s')))"
  using text_parts_partition [OF two_files_lines, of 3 "\<lambda>k. 0"] by simp

text \<open>
  Without a line end at the end of a file its last line runs on into the next file: of the files \<open>a\<close> and \<open>b\<close> the only record is \<open>ab\<close>,
  while two parts give the two lines.
\<close>

definition no_newline :: FileSystem where
  "no_newline = \<lparr>GetPathInfo = (\<lambda>p. \<lparr>fi_path = p, fi_size = 1, fi_type = kFile\<rparr>), ListDirectory = (\<lambda>p. []),
     OpenForRead = (\<lambda>p. if p = ''x'' then [97] else [98])\<rparr>"

lemma no_newline_joins:
  "\<exists>s outs s'. Init LineSplitter no_newline ''x;y'' 0 1 new_InputSplitBase = Ok s \<and>
     all_of (is_NextRecord LineSplitter no_newline) s = Some (Ok (outs, s')) \<and> concat (map line_view outs) = [[97, 98]]"
proof -
  define s where "s = BeforeFirst (new_InputSplitBase\<lparr>is_files := InitInputFileInfo no_newline ''x;y'', is_file_offset := [0, 1, 2],
      is_offset_begin := 0, is_offset_end := 2, is_offset_curr := 0\<rparr>)"
  have I: "Init LineSplitter no_newline ''x;y'' 0 1 new_InputSplitBase = Ok s"
    by (simp add: Init_def InitInputFileInfo_def no_newline_def LineSplitter_def upper_bound_def new_InputSplitBase_def s_def BeforeFirst_def)
  have "line.has no_newline s [[97, 98]]"
    by (simp add: s_def holds_def BeforeFirst_def upper_bound_def split_inv_def new_InputSplitBase_def InitInputFileInfo_def no_newline_def
        sized_def offsets_def offset_of_def contents_def pending_def unread_def all_bytes_def kBufferSize_def line_fmt_def is_eol_def)
  from line.all_records [OF this] I show ?thesis by blast
qed

end
