(* ===== verification/LibSVM.thy ===== *)
theory LibSVM
  imports StrToNum RowBlock LineSplit
begin

text \<open>
  The LibSVM text format, \<open>dmlc-core/src/data/libsvm_parser.h\<close>, with 64-bit feature ids. A block of text is the list of its bytes,
  together with the bytes \<open>behind\<close> it in memory, which the number conversions can read. \<open>FillData\<close> cuts a chunk among the
  threads at line ends; every thread fills a container of its own.
\<close>

type_synonym svm_block = "(u64, real) RowBlockContainer"

section \<open>One block\<close>

text \<open>The loop over the features of a line.\<close>

function parse_features :: "byte list \<Rightarrow> byte list \<Rightarrow> svm_block \<Rightarrow> svm_block res" where
  "parse_features p behind out =
     (if p = [] then Ok out
      else case ParsePair Str2T_uint64 Str2T_float p behind of
          Err e \<Rightarrow> Err e
        | Ok (None0, q) \<Rightarrow> parse_features q behind out
        | Ok (One featureId, q) \<Rightarrow> parse_features q behind (out\<lparr>rc_index := rc_index out @ [featureId]\<rparr>)
        | Ok (Two featureId value, q) \<Rightarrow>
            parse_features q behind (out\<lparr>rc_index := rc_index out @ [featureId], rc_value := rc_value out @ [value]\<rparr>))"
  by pat_completeness auto
termination
  by (relation "measure (\<lambda>(p, behind, out). length p)")
    (auto dest: ParsePair_progress)

declare parse_features.simps [simp del]

definition push_label :: "real \<Rightarrow> real option \<Rightarrow> svm_block \<Rightarrow> svm_block" where
  "push_label label weight out =
     (let out = (case weight of None \<Rightarrow> out | Some w \<Rightarrow> out\<lparr>rc_weight := rc_weight out @ [w]\<rparr>);
          out = (if length (rc_label out) \<noteq> 0 then out\<lparr>rc_offset := rc_offset out @ [length (rc_index out)]\<rparr> else out) in
      out\<lparr>rc_label := rc_label out @ [label]\<rparr>)"

text \<open>The loop over the lines: a line starts at the block's begin or at a line end, and reaches to the next line end.\<close>

function parse_lines :: "byte list \<Rightarrow> byte list \<Rightarrow> svm_block \<Rightarrow> svm_block res" where
  "parse_lines [] behind out = Ok out"
| "parse_lines (c # cs) behind out =
     (let line = c # takeWhile (\<lambda>b. \<not> is_eol b) cs; lend = dropWhile (\<lambda>b. \<not> is_eol b) cs in
      rbind (ParsePair Str2T_float Str2T_float line (lend @ behind)) (\<lambda>(r, q).
      case r of
        None0 \<Rightarrow> parse_lines lend behind out
      | One label \<Rightarrow> rbind (parse_features q (lend @ behind) (push_label label None out)) (parse_lines lend behind)
      | Two label weight \<Rightarrow> rbind (parse_features q (lend @ behind) (push_label label (Some weight) out)) (parse_lines lend behind)))"
  by pat_completeness auto
termination
  by (relation "measure (\<lambda>(bs, behind, out). length bs)") (auto simp: less_Suc_eq_le length_dropWhile_le)

declare parse_lines.simps(2) [simp del]

text \<open>The end of the last row.\<close>

definition close_block :: "svm_block \<Rightarrow> svm_block" where
  "close_block out = (if length (rc_label out) \<noteq> 0 then out\<lparr>rc_offset := rc_offset out @ [length (rc_index out)]\<rparr> else out)"

definition ParseBlock :: "byte list \<Rightarrow> byte list \<Rightarrow> svm_block res" where
  "ParseBlock block behind =
     rbind (parse_lines block behind rbc_Clear) (\<lambda>out.
     let out = close_block out in
     check (length (rc_label out) + 1 = length (rc_offset out)) ''out->label.size() + 1 == out->offset.size()'' (Ok out))"

section \<open>The threads\<close>

text \<open>The memory behind the chunk that is not listed holds a zero.\<close>

fun BackFindEndLine :: "byte list \<Rightarrow> nat \<Rightarrow> nat" where
  "BackFindEndLine mem 0 = 0"
| "BackFindEndLine mem (Suc p) = (if Suc p < length mem \<and> is_eol (mem ! Suc p) then Suc p else BackFindEndLine mem p)"

definition thread_range :: "nat \<Rightarrow> byte list \<Rightarrow> byte list \<Rightarrow> nat \<Rightarrow> nat \<times> nat" where
  "thread_range nthread chunk behind tid =
     (let nstep = (length chunk + nthread - 1) div nthread;
          sbegin = min (tid * nstep) (length chunk); send = min ((tid + 1) * nstep) (length chunk) in
      (BackFindEndLine (chunk @ behind) sbegin, if tid + 1 = nthread then send else BackFindEndLine (chunk @ behind) send))"

text \<open>The threads write different containers; an abort of one is an abort of the program.\<close>

fun all_res :: "'a res list \<Rightarrow> 'a list res" where
  "all_res [] = Ok []"
| "all_res (x # xs) = rbind x (\<lambda>y. rmap ((#) y) (all_res xs))"

definition FillData :: "nat \<Rightarrow> byte list \<Rightarrow> byte list \<Rightarrow> svm_block list res" where
  "FillData nthread chunk behind =
     check (length chunk \<noteq> 0) ''chunk.size != 0''
      (all_res (map (\<lambda>tid. let (pbegin, pend) = thread_range nthread chunk behind tid in
         ParseBlock (take (pend - pbegin) (drop pbegin chunk)) (drop pend (chunk @ behind))) [0..<nthread]))"

section \<open>The rows of a text\<close>

type_synonym svm_row = "real \<times> real option \<times> (u64 \<times> real option) list"

function features_of :: "byte list \<Rightarrow> byte list \<Rightarrow> (u64 \<times> real option) list res" where
  "features_of p behind =
     (if p = [] then Ok []
      else case ParsePair Str2T_uint64 Str2T_float p behind of
          Err e \<Rightarrow> Err e
        | Ok (None0, q) \<Rightarrow> features_of q behind
        | Ok (One f, q) \<Rightarrow> rmap ((#) (f, None)) (features_of q behind)
        | Ok (Two f v, q) \<Rightarrow> rmap ((#) (f, Some v)) (features_of q behind))"
  by pat_completeness auto
termination
  by (relation "measure (\<lambda>(p, behind). length p)")
    (auto dest: ParsePair_progress)

declare features_of.simps [simp del]

definition row_of :: "byte list \<Rightarrow> byte list \<Rightarrow> svm_row list res" where
  "row_of line behind =
     rbind (ParsePair Str2T_float Str2T_float line behind) (\<lambda>(r, q).
     case r of
       None0 \<Rightarrow> Ok []
     | One label \<Rightarrow> rmap (\<lambda>fs. [(label, None, fs)]) (features_of q behind)
     | Two label weight \<Rightarrow> rmap (\<lambda>fs. [(label, Some weight, fs)]) (features_of q behind))"

function rows_of :: "byte list \<Rightarrow> byte list \<Rightarrow> svm_row list res" where
  "rows_of [] behind = Ok []"
| "rows_of (c # cs) behind =
     (let line = c # takeWhile (\<lambda>b. \<not> is_eol b) cs; lend = dropWhile (\<lambda>b. \<not> is_eol b) cs in
      rbind (row_of line (lend @ behind)) (\<lambda>r. rmap ((@) r) (rows_of lend behind)))"
  by pat_completeness auto
termination
  by (relation "measure (\<lambda>(bs, behind). length bs)") (auto simp: less_Suc_eq_le length_dropWhile_le)

declare rows_of.simps(2) [simp del]

text \<open>What a container holds: labels, weights, feature ids, values and the number of features of every row.\<close>

definition row_sizes :: "('i, 'f) RowBlockContainer \<Rightarrow> nat list" where
  "row_sizes c = map (\<lambda>i. rc_offset c ! (i + 1) - rc_offset c ! i) [0..<length (rc_label c)]"

definition arrays :: "svm_block \<Rightarrow> real list \<times> real list \<times> u64 list \<times> real list \<times> nat list" where
  "arrays c = (rc_label c, rc_weight c, rc_index c, rc_value c, row_sizes c)"

definition arrays_of :: "svm_row list \<Rightarrow> real list \<times> real list \<times> u64 list \<times> real list \<times> nat list" where
  "arrays_of rows = (map fst rows, concat (map (\<lambda>(l, w, fs). case w of None \<Rightarrow> [] | Some x \<Rightarrow> [x]) rows),
     concat (map (\<lambda>(l, w, fs). map fst fs) rows),
     concat (map (\<lambda>(l, w, fs). concat (map (\<lambda>(i, v). case v of None \<Rightarrow> [] | Some x \<Rightarrow> [x]) fs)) rows),
     map (\<lambda>(l, w, fs). length fs) rows)"

section \<open>A block holds the rows of its text\<close>

lemma rmap_rmap [simp]: "rmap f (rmap g x) = rmap (\<lambda>y. f (g y)) x"
  by (cases x) simp_all

lemma rmap_id [simp]: "rmap (\<lambda>x. x) y = y"
  by (cases y) simp_all

lemma rmap_append_Nil [simp]: "rmap ((@) []) y = y"
  by (cases y) simp_all

lemma rbind_rmap [simp]: "rbind (rmap f x) g = rbind x (\<lambda>y. g (f y))"
  by (cases x) simp_all

lemma rmap_rbind: "rmap f (rbind x g) = rbind x (\<lambda>y. rmap f (g y))"
  by (cases x) simp_all

definition values_of :: "(u64 \<times> real option) list \<Rightarrow> real list" where
  "values_of fs = concat (map (\<lambda>(i, v). case v of None \<Rightarrow> [] | Some x \<Rightarrow> [x]) fs)"

definition add_features :: "svm_block \<Rightarrow> (u64 \<times> real option) list \<Rightarrow> svm_block" where
  "add_features out fs = out\<lparr>rc_index := rc_index out @ map fst fs, rc_value := rc_value out @ values_of fs\<rparr>"

definition add_row :: "svm_row \<Rightarrow> svm_block \<Rightarrow> svm_block" where
  "add_row = (\<lambda>(label, weight, fs) out. add_features (push_label label weight out) fs)"

lemma parse_features_rows: "parse_features p behind out = rmap (add_features out) (features_of p behind)"
proof (induction p behind out rule: parse_features.induct)
  case (1 p behind out)
  show ?case
  proof (cases "p = []")
    case True
    then show ?thesis by (simp add: parse_features.simps features_of.simps add_features_def values_of_def)
  next
    case False
    show ?thesis
    proof (cases "ParsePair Str2T_uint64 Str2T_float p behind")
      case (Err e)
      then show ?thesis using False by (simp add: parse_features.simps [of p] features_of.simps [of p])
    next
      case (Ok x)
      obtain r q where x: "x = (r, q)" by fastforce
      show ?thesis using 1 False Ok x
        by (cases r) (simp_all add: parse_features.simps [of p] features_of.simps [of p] add_features_def values_of_def)
    qed
  qed
qed

lemma parse_lines_rows: "parse_lines bs behind out = rmap (\<lambda>rows. fold add_row rows out) (rows_of bs behind)"
proof (induction bs behind out rule: parse_lines.induct)
  case (2 c cs behind out)
  show ?case
    unfolding parse_lines.simps(2) rows_of.simps(2) row_of_def Let_def rmap_rbind rbind_assoc
  proof (rule arg_cong [where f = "rbind _"], rule ext, clarify)
    fix r q
    note IH = 2 [OF refl refl]
    show "(case r of None0 \<Rightarrow> parse_lines (dropWhile (\<lambda>b. \<not> is_eol b) cs) behind out
          | One label \<Rightarrow> rbind (parse_features q (dropWhile (\<lambda>b. \<not> is_eol b) cs @ behind) (push_label label None out))
              (parse_lines (dropWhile (\<lambda>b. \<not> is_eol b) cs) behind)
          | Two label weight \<Rightarrow> rbind (parse_features q (dropWhile (\<lambda>b. \<not> is_eol b) cs @ behind) (push_label label (Some weight) out))
              (parse_lines (dropWhile (\<lambda>b. \<not> is_eol b) cs) behind)) =
      rbind (case r of None0 \<Rightarrow> Ok []
          | One label \<Rightarrow> rmap (\<lambda>fs. [(label, None, fs)]) (features_of q (dropWhile (\<lambda>b. \<not> is_eol b) cs @ behind))
          | Two label weight \<Rightarrow> rmap (\<lambda>fs. [(label, Some weight, fs)]) (features_of q (dropWhile (\<lambda>b. \<not> is_eol b) cs @ behind)))
        (\<lambda>y. rmap (\<lambda>rows. fold add_row rows out) (rmap ((@) y) (rows_of (dropWhile (\<lambda>b. \<not> is_eol b) cs) behind)))"
      using IH by (cases r) (simp_all add: parse_features_rows add_row_def)
  qed
qed simp

definition nfeat :: "svm_row list \<Rightarrow> nat" where
  "nfeat rows = sum_list (map (\<lambda>(l, w, fs). length fs) rows)"

definition build :: "svm_row list \<Rightarrow> svm_block" where
  "build rows = \<lparr>rc_offset = map (\<lambda>i. nfeat (take i rows)) [0..<Suc (length rows)], rc_label = map fst rows,
     rc_weight = concat (map (\<lambda>(l, w, fs). case w of None \<Rightarrow> [] | Some x \<Rightarrow> [x]) rows),
     rc_index = concat (map (\<lambda>(l, w, fs). map fst fs) rows), rc_value = concat (map (\<lambda>(l, w, fs). values_of fs) rows), rc_max_index = 0\<rparr>"

lemma length_index: "length (concat (map (\<lambda>(l, w, fs). map fst fs) rows)) = nfeat rows"
  by (induction rows) (auto simp: nfeat_def)

lemma fold_add_row:
  "fold add_row rows rbc_Clear = (build rows)\<lparr>rc_offset := map (\<lambda>i. nfeat (take i rows)) [0..<max 1 (length rows)]\<rparr>"
proof (induction rows rule: rev_induct)
  case Nil
  show ?case by (simp add: rbc_Clear_def build_def nfeat_def)
next
  case (snoc r rows)
  obtain l w fs where r: "r = (l, w, fs)" by (cases r) auto
  have o: "map (\<lambda>i. nfeat (take i (rows @ [r]))) [0..<max 1 (length (rows @ [r]))] =
      (if rows = [] then [0] else map (\<lambda>i. nfeat (take i rows)) [0..<length rows] @ [nfeat rows])"
    by (auto simp: nfeat_def)
  have m: "rows \<noteq> [] \<Longrightarrow> max 1 (length rows) = length rows" by (cases rows) auto
  show ?case
  proof (cases "rows = []")
    case True
    then show ?thesis by (cases w) (simp_all add: r add_row_def add_features_def push_label_def build_def rbc_Clear_def nfeat_def)
  next
    case False
    show ?thesis unfolding fold_append comp_def snoc.IH o using False m
      by (cases w) (simp_all add: r add_row_def add_features_def push_label_def build_def length_index)
  qed
qed

lemma close_rows: "close_block (fold add_row rows rbc_Clear) = build rows"
proof (cases "rows = []")
  case True
  then show ?thesis by (simp add: close_block_def build_def nfeat_def rbc_Clear_def)
next
  case False
  then have m: "max (Suc 0) (length rows) = length rows" by (cases rows) auto
  have f: "rc_offset (build rows) = map (\<lambda>i. nfeat (take i rows)) [0..<Suc (length rows)]" by (simp only: build_def RowBlockContainer.simps)
  then have "map (\<lambda>i. nfeat (take i rows)) [0..<length rows] @ [nfeat rows] = rc_offset (build rows)" by simp
  moreover have "(build rows)\<lparr>rc_offset := rc_offset (build rows)\<rparr> = build rows" by simp
  ultimately show ?thesis using False length_index [of rows]
    by (simp add: close_block_def fold_add_row m) (simp add: build_def)
qed

lemma ParseBlock_rows: "ParseBlock block behind = rmap build (rows_of block behind)"
proof -
  have "length (rc_label (build rows)) + 1 = length (rc_offset (build rows))" for rows by (simp add: build_def)
  then show ?thesis
    by (cases "rows_of block behind") (simp_all add: ParseBlock_def parse_lines_rows close_rows)
qed

lemma arrays_build: "arrays (build rows) = arrays_of rows"
proof -
  have "row_sizes (build rows) = map (\<lambda>i. nfeat (take (Suc i) rows) - nfeat (take i rows)) [0..<length rows]"
    unfolding row_sizes_def build_def by (auto simp del: upt_Suc)
  also have "\<dots> = map (\<lambda>(l, w, fs). length fs) rows"
  proof (rule nth_equalityI)
    fix i assume "i < length (map (\<lambda>i. nfeat (take (Suc i) rows) - nfeat (take i rows)) [0..<length rows])"
    then have i: "i < length rows" by simp
    then show "map (\<lambda>i. nfeat (take (Suc i) rows) - nfeat (take i rows)) [0..<length rows] ! i = map (\<lambda>(l, w, fs). length fs) rows ! i"
      by (simp add: take_Suc_conv_app_nth nfeat_def)
  qed simp
  finally show ?thesis by (simp add: arrays_def arrays_of_def) (simp add: build_def values_of_def)
qed

section \<open>Cutting a text at line ends\<close>

lemma append_append_fun: "(@) (xs @ ys) = (\<lambda>zs. xs @ ys @ zs)"
  by auto

lemma Cons_append_fun: "(@) (x # xs) = (\<lambda>ys. x # xs @ ys)"
  by auto

lemma rows_of_append:
  assumes "b = [] \<or> is_eol (hd b)"
  shows "rows_of (a @ b) behind = rbind (rows_of a (b @ behind)) (\<lambda>r. rmap ((@) r) (rows_of b behind))"
proof (induction a "b @ behind" rule: rows_of.induct)
  case 1
  show ?case by simp
next
  case (2 c cs)
  have b: "takeWhile (\<lambda>x. \<not> is_eol x) b = []" "dropWhile (\<lambda>x. \<not> is_eol x) b = b" using assms by (cases b; simp)+
  have t: "takeWhile (\<lambda>x. \<not> is_eol x) (cs @ b) = takeWhile (\<lambda>x. \<not> is_eol x) cs"
    by (cases "\<exists>x\<in>set cs. is_eol x") (auto simp: takeWhile_append1 takeWhile_append2 b takeWhile_eq_all_conv [THEN iffD2])
  have d: "dropWhile (\<lambda>x. \<not> is_eol x) (cs @ b) = dropWhile (\<lambda>x. \<not> is_eol x) cs @ b"
    by (cases "\<exists>x\<in>set cs. is_eol x") (auto simp: dropWhile_append1 dropWhile_append2 b)
  show ?case
    using 2 by (simp add: rows_of.simps(2) Let_def t d rmap_rbind rbind_assoc append_append_fun)
qed

lemma all_res_rmap: "all_res (map (\<lambda>x. rmap f (g x)) xs) = rmap (map f) (all_res (map g xs))"
  by (induction xs) (simp_all add: rmap_rbind)

lemma rows_of_cuts:
  assumes "\<And>k. k \<le> n \<Longrightarrow> p k \<le> length chunk" and "\<And>k. k < n \<Longrightarrow> p k \<le> p (Suc k)" and "p n = length chunk"
    and "\<And>k. k \<le> n \<Longrightarrow> p k = 0 \<or> p k = length chunk \<or> is_eol (chunk ! p k)" and "k \<le> n"
  shows "rows_of (drop (p k) chunk) behind =
     rmap concat (all_res (map (\<lambda>k. rows_of (take (p (Suc k) - p k) (drop (p k) chunk)) (drop (p (Suc k)) (chunk @ behind))) [k..<n]))"
  using assms(5)
proof (induction rule: inc_induct)
  case base
  then show ?case using assms(3) by simp
next
  case (step k)
  let ?a = "take (p (Suc k) - p k) (drop (p k) chunk)" and ?b = "drop (p (Suc k)) chunk"
  have le: "p k \<le> p (Suc k)" "p (Suc k) \<le> length chunk" using step assms(1,2) by simp_all
  have s: "drop (p k) chunk = ?a @ ?b" using le append_take_drop_id [of "p (Suc k) - p k" "drop (p k) chunk"] by simp
  have u: "[k..<n] = k # [Suc k..<n]" using step by (simp add: upt_rec)
  show ?case
  proof (cases "?b = [] \<or> is_eol (hd ?b)")
    case True
    have d: "drop (p (Suc k)) (chunk @ behind) = ?b @ behind" using le(2) by simp
    have "rows_of (drop (p k) chunk) behind = rows_of (?a @ ?b) behind" using s by (rule arg_cong)
    also have "\<dots> = rbind (rows_of ?a (?b @ behind)) (\<lambda>r. rmap ((@) r) (rows_of ?b behind))" by (rule rows_of_append [OF True])
    finally show ?thesis unfolding u list.map all_res.simps step.IH rmap_rbind d by simp
  next
    case False
    then have "p (Suc k) < length chunk" "\<not> is_eol (chunk ! p (Suc k))" by (auto simp: hd_drop_conv_nth)
    then have "p (Suc k) = 0" using assms(4) [of "Suc k"] step by auto
    then show ?thesis using le u step.IH by simp
  qed
qed

lemma BackFindEndLine_le: "BackFindEndLine mem p \<le> p"
  by (induction p) auto

lemma BackFindEndLine_mono: "p \<le> q \<Longrightarrow> BackFindEndLine mem p \<le> BackFindEndLine mem q"
proof (induction rule: dec_induct)
  case (step q)
  have "BackFindEndLine mem q \<le> BackFindEndLine mem (Suc q)" using BackFindEndLine_le [of mem q] by simp
  then show ?case using step by simp
qed simp

lemma BackFindEndLine_eol: "BackFindEndLine mem p = 0 \<or> BackFindEndLine mem p < length mem \<and> is_eol (mem ! BackFindEndLine mem p)"
  by (induction p) auto

text \<open>Concatenation of what several containers hold.\<close>

definition cat_arrays ::
    "(real list \<times> real list \<times> u64 list \<times> real list \<times> nat list) list \<Rightarrow> real list \<times> real list \<times> u64 list \<times> real list \<times> nat list" where
  "cat_arrays as = (concat (map fst as), concat (map (\<lambda>(l, w, i, v, n). w) as), concat (map (\<lambda>(l, w, i, v, n). i) as),
     concat (map (\<lambda>(l, w, i, v, n). v) as), concat (map (\<lambda>(l, w, i, v, n). n) as))"

lemma cat_arrays_of: "cat_arrays (map arrays_of rss) = arrays_of (concat rss)"
  by (induction rss) (simp_all add: cat_arrays_def arrays_of_def)

lemma FillData_rows:
  assumes n: "0 < nthread" and c: "chunk \<noteq> []"
  shows "\<exists>rss. FillData nthread chunk behind = rmap (map build) rss \<and> rows_of chunk behind = rmap concat rss"
proof -
  let ?m = "chunk @ behind" and ?L = "length chunk"
  define nstep where "nstep = (?L + nthread - 1) div nthread"
  define p where "p k = (if k = nthread then ?L else BackFindEndLine ?m (min (k * nstep) ?L))" for k
  have "?L \<le> nthread * nstep"
    unfolding nstep_def using le_ceil_div [OF n, of ?L] by (simp only: mult.commute)
  then have last: "min (nthread * nstep) ?L = ?L" by simp
  have rng: "thread_range nthread chunk behind k = (p k, p (Suc k))" if "k < nthread" for k
    unfolding thread_range_def Let_def nstep_def [symmetric] using that last by (auto simp: p_def)
  have le: "p k \<le> ?L" if "k \<le> nthread" for k
    using BackFindEndLine_le [of ?m "min (k * nstep) ?L"] by (simp add: p_def)
  have mono: "p k \<le> p (Suc k)" if "k < nthread" for k
  proof (cases "Suc k = nthread")
    case True
    then show ?thesis using le [of k] that by (simp add: p_def)
  next
    case False
    have "min (k * nstep) ?L \<le> min (Suc k * nstep) ?L" by (simp add: min.coboundedI1)
    then show ?thesis using that False BackFindEndLine_mono by (simp add: p_def)
  qed
  have cut: "p k = 0 \<or> p k = ?L \<or> is_eol (chunk ! p k)" if "k \<le> nthread" for k
  proof (cases "k = nthread")
    case False
    then show ?thesis using BackFindEndLine_eol [of ?m "min (k * nstep) ?L"] le [OF that] that
      by (auto simp: p_def nth_append split: if_splits)
  qed (simp add: p_def)
  have p0: "p 0 = 0" using n by (simp add: p_def)
  define rss where "rss = all_res (map (\<lambda>k. rows_of (take (p (Suc k) - p k) (drop (p k) chunk)) (drop (p (Suc k)) ?m)) [0..<nthread])"
  have "rows_of chunk behind = rmap concat rss"
    using rows_of_cuts [of nthread p chunk 0 behind] le mono cut p0 unfolding rss_def by (simp add: p_def)
  moreover have "FillData nthread chunk behind = rmap (map build) rss"
    unfolding rss_def all_res_rmap [symmetric] FillData_def using c
    by (auto simp: rng ParseBlock_rows intro!: arg_cong [where f = all_res])
  ultimately show ?thesis by blast
qed

text \<open>
  Parsing a chunk with several threads. For any number of threads, the containers of the threads, one after the other, hold
  exactly what a single thread puts into one container: labels, weights, feature ids, values, and the sizes of the rows. If
  parsing aborts, it aborts in both cases, with the same error.
\<close>

theorem FillData_threads:
  assumes "0 < nthread" and "chunk \<noteq> []"
  shows "rmap (\<lambda>cs. cat_arrays (map arrays cs)) (FillData nthread chunk behind) = rmap arrays (ParseBlock chunk behind)"
proof -
  obtain rss where "FillData nthread chunk behind = rmap (map build) rss" "rows_of chunk behind = rmap concat rss"
    using FillData_rows [OF assms] by blast
  then show ?thesis by (simp add: ParseBlock_rows arrays_build comp_def cat_arrays_of)
qed

text \<open>For the witness: the lines \<open>1 2:3\<close> and \<open>0 4:5\<close>.\<close>

definition two_lines :: "byte list" where
  "two_lines = [49, 32, 50, 58, 51, 10, 48, 32, 52, 58, 53, 10]"

theorem FillData_threads_witness:
  "rmap (\<lambda>cs. cat_arrays (map arrays cs)) (FillData 3 two_lines []) = rmap arrays (ParseBlock two_lines [])"
  using FillData_threads [of 3 two_lines "[]"] by (simp add: two_lines_def)

section \<open>Written rows\<close>

text \<open>A row as a program writes it: the label, a weight if there is one, and features with or without values.\<close>

record SvmLine =
  sl_label :: Decimal
  sl_weight :: "Decimal option"
  sl_features :: "(nat list \<times> Decimal option) list"

definition opt_text :: "Decimal option \<Rightarrow> byte list" where
  "opt_text v = (case v of None \<Rightarrow> [] | Some x \<Rightarrow> 58 # dec_text x)"

definition feature_text :: "nat list \<times> Decimal option \<Rightarrow> byte list" where
  "feature_text = (\<lambda>(i, v). map dchar i @ opt_text v)"

definition features_text :: "(nat list \<times> Decimal option) list \<Rightarrow> byte list" where
  "features_text fs = concat (map (\<lambda>f. 32 # feature_text f) fs)"

definition line_text :: "SvmLine \<Rightarrow> byte list" where
  "line_text r = dec_text (sl_label r) @ opt_text (sl_weight r) @ features_text (sl_features r)"

definition feature_val :: "nat list \<times> Decimal option \<Rightarrow> u64 \<times> real option" where
  "feature_val = (\<lambda>(i, v). (word_of_nat (horner 0 i), map_option dec_val v))"

definition line_row :: "SvmLine \<Rightarrow> svm_row" where
  "line_row r = (dec_val (sl_label r), map_option dec_val (sl_weight r), map feature_val (sl_features r))"

definition feature_ok :: "nat list \<times> Decimal option \<Rightarrow> bool" where
  "feature_ok = (\<lambda>(i, v). i \<noteq> [] \<and> digits_ok i \<and> horner 0 i < 2 ^ 64 \<and> (case v of None \<Rightarrow> True | Some x \<Rightarrow> dec_ok x))"

definition line_ok :: "SvmLine \<Rightarrow> bool" where
  "line_ok r \<longleftrightarrow> dec_ok (sl_label r) \<and> (case sl_weight r of None \<Rightarrow> True | Some w \<Rightarrow> dec_ok w) \<and> (\<forall>f\<in>set (sl_features r). feature_ok f)"

lemma not_digitchars [simp]: "\<not> isdigitchars 32" "\<not> isdigitchars 58" "is_eol c \<Longrightarrow> \<not> isdigitchars c"
  by (auto simp: isdigitchars_def is_eol_def)

lemma blanks [simp]: "isblank 32" "\<not> isblank 58" "is_eol c \<Longrightarrow> \<not> isblank c"
  by (auto simp: isblank_def is_eol_def)

lemma stops_simps [simp]: "stops [] = True" "stops (c # cs) = (\<not> isdigitchars c)"
  by (simp_all add: stops_def)

lemma dchar_not_blank: "d < 10 \<Longrightarrow> \<not> isblank (dchar d)"
  using dchar_class(3) [of d] by (auto simp: isblank_def isspace_def)

lemma digits_chars: "digits_ok i \<Longrightarrow> \<forall>c\<in>set (map dchar i). isdigitchars c"
  using dchar_class(2) by auto

lemma Str2T_float_ok: "dec_ok d \<Longrightarrow> stops r \<Longrightarrow> Str2T_float (dec_text d @ r) = Ok (dec_val d)"
  by (simp add: Str2T_float_def atof_def strtof_ok)

lemma Str2T_uint64_ok: "i \<noteq> [] \<Longrightarrow> digits_ok i \<Longrightarrow> stops r \<Longrightarrow> Str2T_uint64 (map dchar i @ r) = Ok (word_of_nat (horner 0 i))"
  by (simp add: Str2T_uint64_def strtouint_ok stops_no_digit)

lemma features_text_stops: "stops behind \<Longrightarrow> stops (features_text fs @ behind)"
  by (cases fs) (simp_all add: features_text_def)

lemma features_text_no_colon:
  assumes "\<forall>f\<in>set fs. feature_ok f" and "dropWhile isblank tail = [] \<or> hd (dropWhile isblank tail) \<noteq> 58"
  shows "dropWhile isblank (features_text fs @ tail) = [] \<or> hd (dropWhile isblank (features_text fs @ tail)) \<noteq> 58"
proof (cases fs)
  case (Cons f fs')
  then obtain d i v where "f = (d # i, v)" "d < 10" using assms by (cases f; cases "fst f") (auto simp: feature_ok_def)
  then show ?thesis using Cons dchar_class(10) [of d] dchar_not_blank [of d] by (simp add: features_text_def feature_text_def)
qed (use assms in \<open>simp add: features_text_def\<close>)

text \<open>Written features in front of anything that does not continue the last of them.\<close>

lemma features_of_text:
  assumes "\<forall>f\<in>set fs. feature_ok f" and b: "stops (tail @ behind)" and c: "dropWhile isblank tail = [] \<or> hd (dropWhile isblank tail) \<noteq> 58"
    and t: "features_of (dropWhile isblank tail) behind = features_of tail behind"
  shows "features_of (features_text fs @ tail) behind = rmap ((@) (map feature_val fs)) (features_of tail behind) \<and>
     features_of (dropWhile isblank (features_text fs @ tail)) behind = rmap ((@) (map feature_val fs)) (features_of tail behind)"
  using assms(1)
proof (induction fs)
  case Nil
  show ?case using t by (simp add: features_text_def)
next
  case (Cons f fs)
  obtain i v where f: "f = (i, v)" by fastforce
  have i: "i \<noteq> []" "digits_ok i" "\<forall>c\<in>set (map dchar i). isdigitchars c" using Cons.prems f digits_chars by (auto simp: feature_ok_def)
  let ?rest = "features_text fs @ tail"
  have s: "stops (?rest @ behind)" using features_text_stops [OF b, of fs] by simp
  have T: "features_text (f # fs) @ tail = [32] @ map dchar i @ opt_text v @ ?rest" by (simp add: features_text_def feature_text_def f)
  obtain d i' where d: "i = d # i'" "d < 10" using i by (cases i) auto
  have W: "dropWhile isblank (features_text (f # fs) @ tail) = [] @ map dchar i @ opt_text v @ ?rest"
    unfolding T using d dchar_not_blank by simp
  have P: "features_of (pre @ map dchar i @ opt_text v @ ?rest) behind = rmap ((@) (map feature_val (f # fs))) (features_of tail behind)"
    if pre: "pre = [32] \<or> pre = []" for pre
  proof (cases v)
    case None
    have "ParsePair Str2T_uint64 Str2T_float (pre @ map dchar i @ ?rest) behind = Ok (One (word_of_nat (horner 0 i)), dropWhile isblank ?rest)"
    proof (rule ParsePair_One)
      show "dropWhile isblank ?rest = [] \<or> hd (dropWhile isblank ?rest) \<noteq> 58" using features_text_no_colon [OF _ c] Cons.prems by simp
    qed (use pre i s Str2T_uint64_ok in auto)
    moreover have "pre @ map dchar i @ ?rest \<noteq> []" using i by simp
    ultimately show ?thesis using None Cons f i(1)
      by (subst features_of.simps) (simp add: opt_text_def feature_val_def Cons_append_fun)
  next
    case (Some x)
    have x: "dec_ok x" using Cons.prems f Some by (simp add: feature_ok_def)
    have "ParsePair Str2T_uint64 Str2T_float (pre @ map dchar i @ 58 # dec_text x @ ?rest) behind = Ok (Two (word_of_nat (horner 0 i)) (dec_val x), ?rest)"
      by (rule ParsePair_Two) (use pre i s dec_text_chars [OF x] Str2T_uint64_ok Str2T_float_ok [OF x] in auto)
    moreover have "pre @ map dchar i @ 58 # dec_text x @ ?rest \<noteq> []" by simp
    ultimately show ?thesis using Some Cons f
      by (subst features_of.simps) (simp add: opt_text_def feature_val_def Cons_append_fun)
  qed
  show ?case
  proof
    show "features_of (features_text (f # fs) @ tail) behind = rmap ((@) (map feature_val (f # fs))) (features_of tail behind)"
      unfolding T using P [of "[32]"] by simp
    show "features_of (dropWhile isblank (features_text (f # fs) @ tail)) behind = rmap ((@) (map feature_val (f # fs))) (features_of tail behind)"
      unfolding W using P [of "[]"] by simp
  qed
qed

text \<open>A line: what precedes the label is skipped, what follows the features is parsed as features.\<close>

lemma row_of_line:
  assumes r: "line_ok r" and b: "stops (tail @ behind)" and pre: "\<forall>c\<in>set pre. \<not> isdigitchars c"
    and c: "dropWhile isblank tail = [] \<or> hd (dropWhile isblank tail) \<noteq> 58"
    and t: "features_of (dropWhile isblank tail) behind = features_of tail behind"
  shows "row_of (pre @ line_text r @ tail) behind =
     rmap (\<lambda>fs. [(dec_val (sl_label r), map_option dec_val (sl_weight r), map feature_val (sl_features r) @ fs)]) (features_of tail behind)"
proof -
  let ?rest = "features_text (sl_features r) @ tail"
  have l: "dec_ok (sl_label r)" and fs: "\<forall>f\<in>set (sl_features r). feature_ok f" using r by (simp_all add: line_ok_def)
  have s: "stops (?rest @ behind)" using features_text_stops [OF b, of "sl_features r"] by simp
  note ft = features_of_text [OF fs b c t]
  show ?thesis
  proof (cases "sl_weight r")
    case None
    have "ParsePair Str2T_float Str2T_float (pre @ dec_text (sl_label r) @ ?rest) behind = Ok (One (dec_val (sl_label r)), dropWhile isblank ?rest)"
      by (rule ParsePair_One) (use pre s dec_text_chars [OF l] Str2T_float_ok [OF l] features_text_no_colon [OF fs c] in auto)
    then show ?thesis using None ft by (simp add: row_of_def line_text_def opt_text_def)
  next
    case (Some w)
    then have w: "dec_ok w" using r by (simp add: line_ok_def)
    have "ParsePair Str2T_float Str2T_float (pre @ dec_text (sl_label r) @ 58 # dec_text w @ ?rest) behind =
        Ok (Two (dec_val (sl_label r)) (dec_val w), ?rest)"
      by (rule ParsePair_Two) (use pre s dec_text_chars [OF l] dec_text_chars [OF w] Str2T_float_ok [OF l] Str2T_float_ok [OF w] in auto)
    then show ?thesis using Some ft by (simp add: row_of_def line_text_def opt_text_def)
  qed
qed

lemma row_of_text:
  assumes "line_ok r" and "stops behind" and "\<forall>c\<in>set pre. \<not> isdigitchars c"
  shows "row_of (pre @ line_text r) behind = Ok [line_row r]"
  using row_of_line [OF assms(1), of "[]" behind pre] assms(2,3) by (simp add: features_of.simps [of "[]"] line_row_def)

lemma row_of_empty: "\<forall>c\<in>set line. \<not> isdigitchars c \<Longrightarrow> row_of line behind = Ok []"
  by (simp add: row_of_def ParsePair_None)

text \<open>A block of text whose lines were written: one row per line, whatever line ends separate them.\<close>

lemma rows_of_lines:
  assumes "\<forall>r\<in>set rs. line_ok r" and "lines bs = map line_text rs" and "bs = [] \<or> is_eol (last bs) \<or> stops behind"
  shows "rows_of bs behind = Ok (map line_row rs)"
  using assms
proof (induction bs behind arbitrary: rs rule: rows_of.induct)
  case (1 behind)
  then show ?case by simp
next
  case (2 c cs behind)
  define t where "t = takeWhile (\<lambda>b. \<not> is_eol b) cs"
  define e where "e = dropWhile (\<lambda>b. \<not> is_eol b) cs"
  have cs: "cs = t @ e" and tn: "\<forall>x\<in>set t. \<not> is_eol x" by (auto simp: t_def e_def dest: set_takeWhileD)
  have eh: "e = [] \<or> is_eol (hd e)" using hd_dropWhile [of "\<lambda>b. \<not> is_eol b" cs] by (auto simp: e_def)
  have le: "lines_from acc e = (if acc = [] then [] else [acc]) @ lines e" for acc using eh by (cases e) auto
  have st: "e = [] \<or> is_eol (last e) \<or> stops behind" using "2.prems"(3) cs by (cases "e = []") auto
  have se: "stops (e @ behind)" if "t \<noteq> [] \<or> \<not> is_eol c"
  proof (cases "e = []")
    case True
    then have "\<not> is_eol (last (c # cs))" using that cs tn by (cases "t = []") auto
    then show ?thesis using "2.prems"(3) True by simp
  next
    case False
    then show ?thesis using eh by (cases e) auto
  qed
  have R: "rows_of (c # cs) behind = rbind (row_of (c # t) (e @ behind)) (\<lambda>r. rmap ((@) r) (rows_of e behind))"
    by (simp add: rows_of.simps(2) t_def e_def Let_def)
  have IH: "rows_of e behind = Ok (map line_row rs')" if "lines e = map line_text rs'" "\<forall>r\<in>set rs'. line_ok r" for rs'
    using "2.IH" [OF refl refl, of rs'] that st by (simp add: e_def)
  have full: "rows_of (c # cs) behind = Ok (map line_row rs)"
    if L: "lines (c # cs) = l # lines e" and pre: "c # t = pre @ l" "\<forall>x\<in>set pre. \<not> isdigitchars x" and ne: "t \<noteq> [] \<or> \<not> is_eol c" for l pre
  proof -
    obtain r rs' where r: "rs = r # rs'" "l = line_text r" "lines e = map line_text rs'" using L "2.prems"(2) by (cases rs) auto
    have "row_of (c # t) (e @ behind) = Ok [line_row r]" unfolding pre(1) r(2) using "2.prems"(1) r se [OF ne] pre(2) by (intro row_of_text) auto
    then show ?thesis using R IH [OF r(3)] "2.prems"(1) r(1) by simp
  qed
  show ?case
  proof (cases "is_eol c")
    case True
    then have L: "lines (c # cs) = (if t = [] then [] else [t]) @ lines e" using cs lines_noneol [OF tn, of "[]" e] le [of t] by simp
    show ?thesis
    proof (cases "t = []")
      case te: True
      then show ?thesis using R L IH [of rs] "2.prems"(1,2) True by (simp add: row_of_empty)
    next
      case False
      then show ?thesis using full [of t "[c]"] L True by simp
    qed
  next
    case False
    then have "lines (c # cs) = (c # t) # lines e" using cs lines_noneol [OF tn, of "[c]" e] le [of "c # t"] by simp
    then show ?thesis using full [of "c # t" "[]"] False by simp
  qed
qed

section \<open>What the view of a container shows\<close>

text \<open>
  All rows have a weight or none has, and all features have a value or none has. The views of containers filled from such rows
  pass the checks of \<open>GetBlock\<close>, and \<open>operator[]\<close> gives the rows, a missing weight or value being 1.
\<close>

definition all_or_none :: "'a option list \<Rightarrow> bool" where
  "all_or_none xs \<longleftrightarrow> None \<notin> set xs \<or> set xs \<subseteq> {None}"

definition uniform_rows :: "svm_row list \<Rightarrow> bool" where
  "uniform_rows rows \<longleftrightarrow> all_or_none (map (\<lambda>(l, w, fs). w) rows) \<and> all_or_none (concat (map (\<lambda>(l, w, fs). map snd fs) rows))"

definition row_seen :: "svm_row \<Rightarrow> real \<times> real \<times> (u64 \<times> real) list" where
  "row_seen = (\<lambda>(l, w, fs). (l, value_or_1 w, map (apsnd value_or_1) fs))"

definition present :: "'a option list \<Rightarrow> 'a list" where
  "present xs = concat (map (\<lambda>x. case x of None \<Rightarrow> [] | Some y \<Rightarrow> [y]) xs)"

lemma present_none: "set xs \<subseteq> {None} \<Longrightarrow> present xs = []"
  by (auto simp: present_def)

lemma present_all: "None \<notin> set xs \<Longrightarrow> map Some (present xs) = xs"
  by (induction xs) (auto simp: present_def split: option.split dest: not_Some_eq [THEN iffD1] not_sym)

lemma present_cases:
  assumes "all_or_none xs"
  shows "present xs = [] \<and> set xs \<subseteq> {None} \<or> present xs \<noteq> [] \<and> map Some (present xs) = xs"
  using assms present_all [of xs] present_none [of xs] by (cases "present xs") (auto simp: all_or_none_def)

abbreviation features :: "svm_row list \<Rightarrow> (u64 \<times> real option) list" where
  "features rows \<equiv> concat (map (\<lambda>(l, w, fs). fs) rows)"

lemma build_arrays:
  "rc_index (build rows) = map fst (features rows)" "rc_value (build rows) = present (map snd (features rows))"
  "rc_weight (build rows) = present (map (\<lambda>(l, w, fs). w) rows)" "length (features rows) = nfeat rows"
  by (induction rows) (auto simp: build_def values_of_def present_def nfeat_def comp_def case_prod_unfold)

lemma features_slice:
  assumes "i < length rows"
  shows "map ((!) (features rows)) [nfeat (take i rows)..<nfeat (take (Suc i) rows)] = snd (snd (rows ! i))"
proof -
  have "features rows = features (take i rows) @ snd (snd (rows ! i)) @ features (drop (Suc i) rows)"
    using id_take_nth_drop [OF assms] by (metis (mono_tags, lifting) case_prod_beta concat.simps(2) concat_append list.simps(9) map_append)
  moreover have "nfeat (take (Suc i) rows) = nfeat (take i rows) + length (snd (snd (rows ! i)))"
    using assms by (simp add: take_Suc_conv_app_nth nfeat_def case_prod_unfold)
  ultimately show ?thesis
    using build_arrays(4) [of "take i rows"] by (intro nth_equalityI) (auto simp: nth_append)
qed

lemma nfeat_mono:
  assumes "i \<le> j"
  shows "nfeat (take i rows) \<le> nfeat (take j rows)"
proof -
  have "take j rows = take i rows @ take (j - i) (drop i rows)" using take_add [of i "j - i" rows] assms by simp
  then show ?thesis by (simp add: nfeat_def)
qed

lemma build_wf:
  assumes "all_or_none (map snd (features rows))"
  shows "rc_wf (build rows)"
proof -
  have "sorted (rc_offset (build rows))" by (auto simp: build_def sorted_iff_nth_mono nfeat_mono simp del: upt_Suc)
  moreover have "present (map snd (features rows)) = [] \<or> length (present (map snd (features rows))) = length (features rows)"
    using present_cases [OF assms] by (metis length_map)
  moreover have "hd (rc_offset (build rows)) = 0" by (simp add: build_def upt_conv_Cons nfeat_def del: upt_Suc)
  moreover have "last (rc_offset (build rows)) = nfeat rows" by (simp add: build_def)
  moreover have "rc_offset (build rows) \<noteq> []" "length (rc_label (build rows)) + 1 = length (rc_offset (build rows))" by (simp_all add: build_def)
  ultimately show ?thesis
    using build_arrays(4) [of rows] unfolding rc_wf_def build_arrays(1-3) by simp
qed

lemma build_seen:
  assumes "uniform_rows rows"
  shows "\<exists>v. rbc_GetBlock (build rows) = Ok v \<and> rows_seen v = Ok (map row_seen rows)"
proof -
  have F: "all_or_none (map snd (features rows))" and W: "all_or_none (map (\<lambda>(l, w, fs). w) rows)"
    using assms by (simp_all add: uniform_rows_def map_concat comp_def case_prod_unfold)
  note wf = build_wf [OF F]
  obtain v where v: "rbc_GetBlock (build rows) = Ok v" using GetBlock_eq [OF wf] by blast
  have w: "length (rc_weight (build rows)) \<in> {0, length (rc_label (build rows))}"
    using present_cases [OF W] by (simp add: build_arrays) (metis build_def length_map RowBlockContainer.select_convs(2))
  have e: "rb_size v = length rows" "rb_label v = map fst rows" "rb_weight v = begin_ptr (present (map (\<lambda>(l, w, fs). w) rows))" "rb_offset v ! 0 = 0"
    using GetBlock_eq [OF wf] v wf build_arrays(3) [of rows] by (auto simp: rc_wf_def hd_conv_nth) (auto simp: build_def)
  have rows: "snd (rb_rows v ! i) = snd (snd (rows ! i))" if i: "i < length rows" for i
  proof -
    let ?f = "\<lambda>j. (rc_index (build rows) ! j, if rc_value (build rows) = [] then None else Some (rc_value (build rows) ! j))"
    have le: "nfeat (take (Suc i) rows) \<le> nfeat rows" using nfeat_mono [of "Suc i" "length rows" rows] i by simp
    have "?f j = features rows ! j" if "j < nfeat rows" for j
    proof -
      have j: "j < length (features rows)" using that build_arrays(4) [of rows] by simp
      have "(if present (map snd (features rows)) = [] then None else Some (present (map snd (features rows)) ! j)) = snd (features rows ! j)"
        using present_cases [OF F]
      proof
        assume a: "present (map snd (features rows)) = [] \<and> set (map snd (features rows)) \<subseteq> {None}"
        have "snd (features rows ! j) \<in> set (map snd (features rows))" using nth_mem [OF j] by simp
        then have "snd (features rows ! j) = None" using a by blast
        then show ?thesis using a by simp
      next
        assume a: "present (map snd (features rows)) \<noteq> [] \<and> map Some (present (map snd (features rows))) = map snd (features rows)"
        then have "map Some (present (map snd (features rows))) ! j = map snd (features rows) ! j" by simp
        moreover have "length (present (map snd (features rows))) = length (features rows)" using a by (metis length_map)
        ultimately show ?thesis using a j nth_map [of j "present (map snd (features rows))" Some] nth_map [OF j, of snd] by presburger
      qed
      then show ?thesis using j unfolding build_arrays(1-3) by (simp del: if_split)
    qed
    then have "map ?f [nfeat (take i rows)..<nfeat (take (Suc i) rows)] = snd (snd (rows ! i))"
      unfolding features_slice [OF i, symmetric] using le by (intro map_cong refl) auto
    moreover have "snd (rc_rows (build rows) ! i) = map ?f [nfeat (take i rows)..<nfeat (take (Suc i) rows)]"
      using i by (simp add: rc_rows_def build_def del: upt_Suc if_split)
    ultimately show ?thesis using GetBlock_rows(2) [OF wf w v] by simp
  qed
  have wt: "(case rb_weight v of None \<Rightarrow> 1 | Some w \<Rightarrow> w ! i) = value_or_1 (fst (snd (rows ! i)))" if i: "i < length rows" for i
  proof -
    let ?w = "map (\<lambda>(l, w, fs). w) rows"
    have n: "?w ! i = fst (snd (rows ! i))" using i by (simp add: case_prod_unfold)
    show ?thesis using present_cases [OF W]
    proof
      assume a: "present ?w = [] \<and> set ?w \<subseteq> {None}"
      have "?w ! i \<in> set ?w" using i by (intro nth_mem) simp
      then have "?w ! i = None" using a by blast
      moreover have "rb_weight v = None" using a e(3) by (simp add: begin_ptr_def)
      ultimately have "?w ! i = None" "rb_weight v = None" .
      then show ?thesis using n by (simp add: value_or_1_def)
    next
      assume a: "present ?w \<noteq> [] \<and> map Some (present ?w) = ?w"
      then have "length (present ?w) = length rows" by (metis length_map)
      then have "?w ! i = Some (present ?w ! i)" using a i nth_map [of i "present ?w" Some] by presburger
      then show ?thesis using n a e(3) by (simp add: value_or_1_def begin_ptr_def)
    qed
  qed
  have "seen_at v i = row_seen (rows ! i)" if "i < length rows" for i
    using that rows wt e(2) by (simp add: seen_at_def row_seen_def case_prod_unfold)
  then show ?thesis
    using v rows_seen_eq [OF GetBlock_rows(1) [OF wf w v] e(4)] e(1) by (auto intro!: nth_equalityI)
qed

lemma all_or_none_sub: "all_or_none xs \<Longrightarrow> set ys \<subseteq> set xs \<Longrightarrow> all_or_none ys"
  by (auto simp: all_or_none_def)

lemma builds_seen:
  assumes "uniform_rows (concat rss)"
  shows "\<exists>vs. mapM_res rbc_GetBlock (map build rss) = Ok vs \<and> mapM_res rows_seen vs = Ok (map (map row_seen) rss)"
  using assms
proof (induction rss)
  case (Cons rows rss)
  have "uniform_rows rows" "uniform_rows (concat rss)"
    using Cons.prems by (auto simp: uniform_rows_def elim: all_or_none_sub)
  then show ?case using Cons.IH build_seen [of rows] by auto
qed simp

section \<open>From files to row blocks\<close>

lemma FillData_lines:
  assumes "0 < nthread" and "chunk \<noteq> []" and "\<forall>r\<in>set rs. line_ok r" and "eol_fmt chunk (map line_text rs)"
  shows "\<exists>rss. FillData nthread chunk behind = Ok (map build rss) \<and> concat rss = map line_row rs"
proof -
  obtain x where x: "FillData nthread chunk behind = rmap (map build) x" "rows_of chunk behind = rmap concat x"
    using FillData_rows [OF assms(1,2)] by blast
  have "rows_of chunk behind = Ok (map line_row rs)"
    using assms(3,4) by (intro rows_of_lines) (auto simp: eol_fmt_def line_fmt_def eol_end_def)
  then show ?thesis using x by (cases x) auto
qed

text \<open>
  What the parsers of text formats have in common: a chunk whose lines were written as rows is parsed into containers that hold
  these rows, whatever lies behind the chunk in memory. The lines of the chunks are those of a record format of the splitter.
\<close>

locale chunk_parser = record_format LineSplitter fmt line_view files line_cut
  for fmt :: "byte list \<Rightarrow> byte list list \<Rightarrow> bool" and files :: "byte list list \<Rightarrow> byte list list \<Rightarrow> bool" +
  fixes parse :: "byte list \<Rightarrow> byte list \<Rightarrow> svm_block list res" and written :: "'r \<Rightarrow> byte list" and row :: "'r \<Rightarrow> svm_row" and ok :: "'r \<Rightarrow> bool"
  assumes parse_chunk: "chunk \<noteq> [] \<Longrightarrow> \<forall>r\<in>set rs. ok r \<Longrightarrow> fmt chunk (map written rs) \<Longrightarrow>
    \<exists>rss. parse chunk behind = Ok (map build rss) \<and> concat rss = map row rs"
begin

lemma parse_chunks:
  assumes "list_all2 fmt cs lss" and "concat lss = map written rs" and "[] \<notin> set cs" and "\<forall>r\<in>set rs. ok r"
  shows "\<exists>blocks rss. all_res (map (\<lambda>c. parse c (behind c)) cs) = Ok blocks \<and> concat blocks = map build rss \<and> concat rss = map row rs"
  using assms
proof (induction arbitrary: rs rule: list_all2_induct)
  case Nil
  then show ?case by simp
next
  case (Cons c cs ls lss)
  from Cons.prems(1) obtain r1 r2 where r: "rs = r1 @ r2" "ls = map written r1" "concat lss = map written r2" by (auto simp: append_eq_map_conv)
  obtain rss where f: "parse c (behind c) = Ok (map build rss)" "concat rss = map row r1"
    using parse_chunk [of c r1 "behind c"] Cons.prems Cons.hyps(1) r by auto
  obtain blocks rss' where i: "all_res (map (\<lambda>c. parse c (behind c)) cs) = Ok blocks" "concat blocks = map build rss'"
      "concat rss' = map row r2" using Cons.IH [of r2] Cons.prems r by auto
  show ?case using f i r(1) by (intro exI [of _ "map build rss # blocks"] exI [of _ "rss @ rss'"]) simp
qed

text \<open>From files to row blocks: the views of the containers of all chunks of all parts show the rows in order.\<close>

lemma files_parse:
  fixes uri :: string
  assumes "sized fsys (InitInputFileInfo fsys uri)" and "files (contents fsys (InitInputFileInfo fsys uri)) (map written rs)"
    and "\<forall>r\<in>set rs. ok r" and "0 < nsplit" and "uniform_rows (map row rs)"
  shows "\<exists>css blocks views rows. length css = nsplit \<and>
     (\<forall>k < nsplit. \<exists>s s'. Init LineSplitter fsys uri k nsplit new_InputSplitBase = Ok s \<and>
        all_of (NextChunk LineSplitter fsys) (HintChunkSize (h k) s) = Some (Ok (css ! k, s'))) \<and>
     all_res (map (\<lambda>c. parse c (behind c)) (concat css)) = Ok blocks \<and>
     mapM_res rbc_GetBlock (concat blocks) = Ok views \<and> mapM_res rows_seen views = Ok rows \<and> concat rows = map (row_seen \<circ> row) rs"
proof -
  from split_chunks [OF assms(2,1,4), of h] obtain css lss where c: "length css = nsplit" "[] \<notin> set (concat css)"
      "list_all2 fmt (concat css) lss" "concat lss = map written rs"
      "\<forall>k < nsplit. \<exists>s s'. Init LineSplitter fsys uri k nsplit new_InputSplitBase = Ok s \<and>
        all_of (NextChunk LineSplitter fsys) (HintChunkSize (h k) s) = Some (Ok (css ! k, s'))" by blast
  from parse_chunks [OF c(3,4,2) assms(3)] obtain blocks rss where
    b: "all_res (map (\<lambda>c. parse c (behind c)) (concat css)) = Ok blocks" "concat blocks = map build rss" "concat rss = map row rs"
    by blast
  obtain vs where "mapM_res rbc_GetBlock (concat blocks) = Ok vs" "mapM_res rows_seen vs = Ok (map (map row_seen) rss)"
    using builds_seen [of rss] assms(5) b(2,3) by auto
  moreover have "concat (map (map row_seen) rss) = map (row_seen \<circ> row) rs" using b(3) by (metis map_concat map_map)
  ultimately show ?thesis using c(1,5) b(1) by blast
qed

end

interpretation libsvm: chunk_parser eol_fmt eol_files "FillData (Suc n)" line_text line_row line_ok for n
  by unfold_locales (rule FillData_lines, simp)

text \<open>What is written in a line: label, weight and features, a weight or value that is not written being 1.\<close>

definition dec_or_1 :: "Decimal option \<Rightarrow> real" where
  "dec_or_1 v = (case v of None \<Rightarrow> 1 | Some x \<Rightarrow> dec_val x)"

definition line_seen :: "SvmLine \<Rightarrow> real \<times> real \<times> (u64 \<times> real) list" where
  "line_seen r = (dec_val (sl_label r), dec_or_1 (sl_weight r), map (\<lambda>(i, v). (word_of_nat (horner 0 i), dec_or_1 v)) (sl_features r))"

text \<open>All lines with a weight or none, all features with a value or none.\<close>

definition uniform_lines :: "SvmLine list \<Rightarrow> bool" where
  "uniform_lines rs \<longleftrightarrow> all_or_none (map sl_weight rs) \<and> all_or_none (concat (map (map snd \<circ> sl_features) rs))"

lemma all_or_none_map: "all_or_none (map (map_option f) xs) = all_or_none xs"
  by (auto simp: all_or_none_def)

lemma uniform_lines_rows: "uniform_lines rs \<Longrightarrow> uniform_rows (map line_row rs)"
proof -
  assume u: "uniform_lines rs"
  have "map (\<lambda>(l, w, fs). w) (map line_row rs) = map (map_option dec_val) (map sl_weight rs)" by (simp add: line_row_def)
  moreover have "concat (map (\<lambda>(l, w, fs). map snd fs) (map line_row rs)) = map (map_option dec_val) (concat (map (map snd \<circ> sl_features) rs))"
    by (induction rs) (auto simp: line_row_def feature_val_def)
  ultimately show ?thesis using u by (simp only: uniform_rows_def uniform_lines_def all_or_none_map)
qed

lemma row_seen_line: "row_seen (line_row r) = line_seen r"
proof -
  have "value_or_1 (map_option dec_val v) = dec_or_1 v" for v by (cases v) (simp_all add: value_or_1_def dec_or_1_def)
  then show ?thesis by (auto simp: row_seen_def line_row_def line_seen_def feature_val_def)
qed

text \<open>
  C3: from text files to row blocks. Files whose lines were written as rows, either all with a weight or none, and all features with a
  value or none, read in any number of parts with any hints for the chunk size, every chunk parsed by any number of
  threads and with anything behind it in memory: nothing aborts, every part ends, the containers pass the checks of \<open>GetBlock\<close>,
  and their views, in the order of parts, chunks and threads and read with \<open>operator[]\<close>, have exactly the rows that were
  written: label, weight, and the ids and values of the features. (Lines of both kinds in one container
  make \<open>GetBlock\<close> abort or leave rows without their weight, see \<open>mixed_values_abort\<close> and \<open>mixed_weights_out_of_bounds\<close>.)
\<close>

theorem libsvm_files_parse:
  fixes uri :: string
  assumes "sized fsys (InitInputFileInfo fsys uri)" and "eol_files (contents fsys (InitInputFileInfo fsys uri)) (map line_text rs)"
    and "\<forall>r\<in>set rs. line_ok r" and "uniform_lines rs" and "0 < nsplit" and "0 < nthread"
  shows "\<exists>css blocks views rows. length css = nsplit \<and>
     (\<forall>k < nsplit. \<exists>s s'. Init LineSplitter fsys uri k nsplit new_InputSplitBase = Ok s \<and>
        all_of (NextChunk LineSplitter fsys) (HintChunkSize (h k) s) = Some (Ok (css ! k, s'))) \<and>
     all_res (map (\<lambda>c. FillData nthread c (behind c)) (concat css)) = Ok blocks \<and>
     mapM_res rbc_GetBlock (concat blocks) = Ok views \<and> mapM_res rows_seen views = Ok rows \<and> concat rows = map line_seen rs"
proof -
  obtain n where n: "nthread = Suc n" using assms(6) gr0_implies_Suc by blast
  have s: "map (row_seen \<circ> line_row) rs = map line_seen rs" by (simp add: row_seen_line)
  show ?thesis unfolding n s [symmetric] by (rule libsvm.files_parse [OF assms(1-3,5) uniform_lines_rows [OF assms(4)]])
qed

text \<open>For the witness: one file with the two lines above.\<close>

definition svm_file :: FileSystem where
  "svm_file = \<lparr>GetPathInfo = (\<lambda>p. \<lparr>fi_path = p, fi_size = 12, fi_type = kFile\<rparr>), ListDirectory = (\<lambda>p. []), OpenForRead = (\<lambda>p. two_lines)\<rparr>"

definition whole :: "nat \<Rightarrow> Decimal" where
  "whole n = \<lparr>dc_neg = False, dc_int = [n], dc_frac = [], dc_exp = None\<rparr>"

definition two_rows :: "SvmLine list" where
  "two_rows = [\<lparr>sl_label = whole 1, sl_weight = None, sl_features = [([2], Some (whole 3))]\<rparr>,
     \<lparr>sl_label = whole 0, sl_weight = None, sl_features = [([4], Some (whole 5))]\<rparr>]"

theorem libsvm_files_parse_witness:
  "\<exists>css blocks views rows. length css = 2 \<and>
     (\<forall>k < 2. \<exists>s s'. Init LineSplitter svm_file ''x'' k 2 new_InputSplitBase = Ok s \<and>
        all_of (NextChunk LineSplitter svm_file) (HintChunkSize 0 s) = Some (Ok (css ! k, s'))) \<and>
     all_res (map (\<lambda>c. FillData 3 c [57]) (concat css)) = Ok blocks \<and>
     mapM_res rbc_GetBlock (concat blocks) = Ok views \<and> mapM_res rows_seen views = Ok rows \<and> concat rows = [(1, 1, [(2, 3)]), (0, 1, [(4, 5)])]"
proof -
  have i: "InitInputFileInfo svm_file ''x'' = [\<lparr>fi_path = ''x'', fi_size = 12, fi_type = kFile\<rparr>]"
    by (simp add: InitInputFileInfo_def svm_file_def)
  have "sized svm_file (InitInputFileInfo svm_file ''x'')" unfolding i by (simp add: sized_def svm_file_def two_lines_def)
  moreover have "eol_files (contents svm_file (InitInputFileInfo svm_file ''x'')) (map line_text two_rows)" unfolding i
    by (simp add: contents_def svm_file_def two_lines_def two_rows_def eol_files_def line_files_def eol_end_def is_eol_def line_text_def whole_def
        dec_text_def opt_text_def features_text_def feature_text_def dchar_def)
  moreover have "\<forall>r\<in>set two_rows. line_ok r" by (simp add: two_rows_def line_ok_def whole_def dec_ok_def feature_ok_def)
  moreover have "uniform_lines two_rows" by (simp add: two_rows_def uniform_lines_def all_or_none_def)
  moreover have "map line_seen two_rows = [(1, 1, [(2, 3)]), (0, 1, [(4, 5)])]"
    by (simp add: two_rows_def line_seen_def dec_or_1_def whole_def dec_val_def)
  ultimately show ?thesis using libsvm_files_parse [of svm_file "''x''" two_rows 2 3 "\<lambda>k. 0" "\<lambda>c. [57]"] by simp
qed

text \<open>
  The line \<open>1 2:3 4\<close> has a feature with and one without a value: the container has one value for two features. Of the
  lines \<open>1:2\<close> and \<open>0\<close> only the first has a weight: the view has a weight array of one cell for two rows, and reading
  the second row reads behind it.
\<close>

lemma mixed_values_abort: "rbind (ParseBlock [49, 32, 50, 58, 51, 32, 52, 10] []) rbc_GetBlock = Err (CheckFailed ''offset.back() == value.size()'')"
  by code_simp

lemma mixed_weights_out_of_bounds:
  "rbind (rbind (ParseBlock [49, 58, 50, 10, 48, 10] []) rbc_GetBlock) (\<lambda>v. rmap row_label (rb_at v 1)) = Err OutOfBounds"
  by code_simp

section \<open>Errors\<close>

lemma lines_last_eol: "is_eol e \<Longrightarrow> lines_from acc (xs @ [e]) = lines_from acc xs"
  by (induction xs arbitrary: acc) auto

lemma line_text_chars: "line_ok r \<Longrightarrow> line_text r \<noteq> [] \<and> (\<forall>c\<in>set (line_text r). \<not> is_eol c)"
proof -
  have d: "dec_ok d \<Longrightarrow> c \<in> set (dec_text d) \<Longrightarrow> \<not> is_eol c" for c d using dec_text_chars [of d] by auto
  have o: "(case v of None \<Rightarrow> True | Some x \<Rightarrow> dec_ok x) \<Longrightarrow> c \<in> set (opt_text v) \<Longrightarrow> \<not> is_eol c" for c v
    using d by (cases v) (auto simp: opt_text_def is_eol_def)
  have i: "digits_ok i \<Longrightarrow> c \<in> set (map dchar i) \<Longrightarrow> \<not> is_eol c" for i c using digits_chars [of i] by auto
  have f: "feature_ok f \<Longrightarrow> c \<in> set (32 # feature_text f) \<Longrightarrow> \<not> is_eol c" for f c
    using o i by (cases f) (auto simp: feature_ok_def feature_text_def is_eol_def [of 32])
  have fs: "\<forall>f\<in>set fs. feature_ok f \<Longrightarrow> c \<in> set (features_text fs) \<Longrightarrow> \<not> is_eol c" for fs c
    unfolding features_text_def set_concat set_map using f by blast
  assume r: "line_ok r"
  then have "dec_text (sl_label r) \<noteq> []" using dec_text_chars [of "sl_label r"] by (simp add: line_ok_def)
  moreover have "\<not> is_eol c" if "c \<in> set (line_text r)" for c
    using that r d [of "sl_label r" c] o [of "sl_weight r" c] fs [of "sl_features r" c] unfolding line_text_def line_ok_def set_append by blast
  ultimately show "line_text r \<noteq> [] \<and> (\<forall>c\<in>set (line_text r). \<not> is_eol c)" by (simp add: line_text_def)
qed

lemma negative_id: "features_of (32 # 45 # tail) behind = Err (CheckFailed ''sign == true'')"
  "features_of (45 # tail) behind = Err (CheckFailed ''sign == true'')"
proof -
  have "Str2T_uint64 (45 # x) = Err (CheckFailed ''sign == true'')" for x by (simp add: Str2T_uint64_def strtouint_def isspace_def)
  moreover have "isdigitchars 45" by (simp add: isdigitchars_def)
  ultimately show "features_of (32 # 45 # tail) behind = Err (CheckFailed ''sign == true'')"
    "features_of (45 # tail) behind = Err (CheckFailed ''sign == true'')"
    by (simp_all add: features_of.simps [of "32 # 45 # tail"] features_of.simps [of "45 # tail"] ParsePair_def)
qed

lemma rows_of_negative_id:
  assumes r: "line_ok r" and t: "\<forall>c\<in>set tail. \<not> is_eol c" and rest: "rest = [] \<or> is_eol (hd rest)"
    and pre: "pre = [] \<or> pre = [e] \<and> is_eol e"
  shows "rows_of (pre @ line_text r @ 32 # 45 # tail @ rest) behind = Err (CheckFailed ''sign == true'')"
proof -
  let ?line = "line_text r @ 32 # 45 # tail"
  have ne: "\<forall>c\<in>set ?line. \<not> is_eol c" using line_text_chars [OF r] t by (auto simp: is_eol_def)
  obtain c cs where p: "pre @ ?line = c # cs" "\<forall>x\<in>set cs. \<not> is_eol x"
    using ne pre line_text_chars [OF r] by (cases "line_text r"; cases pre) auto
  have tw: "takeWhile (\<lambda>b. \<not> is_eol b) (cs @ rest) = cs" "dropWhile (\<lambda>b. \<not> is_eol b) (cs @ rest) = rest"
    using p(2) rest by (cases rest; simp add: takeWhile_append2 dropWhile_append2)+
  have "row_of (pre @ line_text r @ 32 # 45 # tail) (rest @ behind) = Err (CheckFailed ''sign == true'')"
    using row_of_line [OF r, of "32 # 45 # tail" "rest @ behind" pre] pre negative_id by (auto simp: isblank_def [of 45])
  then have "rows_of (c # cs @ rest) behind = Err (CheckFailed ''sign == true'')"
    unfolding p(1) using rows_of.simps(2) [of c "cs @ rest" behind] tw by (simp add: Let_def)
  moreover have "c # cs @ rest = pre @ ?line @ rest" using p(1) by (metis append_Cons append_assoc)
  ultimately show ?thesis by simp
qed

text \<open>
  C24: a feature id with a minus sign. Whatever well-formed lines stand in front of the line, and whatever follows it, parsing the
  chunk aborts with the check of the sign, for every number of threads.
\<close>

theorem negative_id_aborts:
  assumes "0 < nthread" and "\<forall>r\<in>set rs. line_ok r" and "lines front = map line_text rs" and "front = [] \<or> is_eol (last front)"
    and "line_ok r" and "\<forall>c\<in>set tail. \<not> is_eol c" and "rest = [] \<or> is_eol (hd rest)"
  shows "FillData nthread (front @ line_text r @ 32 # 45 # tail @ rest) behind = Err (CheckFailed ''sign == true'')"
proof -
  let ?b = "line_text r @ 32 # 45 # tail @ rest"
  note neg = rows_of_negative_id [OF assms(5,6,7)]
  have "rows_of (front @ ?b) behind = Err (CheckFailed ''sign == true'')"
  proof (cases "front = []")
    case True
    then show ?thesis using neg [of "[]"] by simp
  next
    case False
    obtain t e where t: "front = t @ [e]" "is_eol e" using False assms(4) by (cases front rule: rev_cases) auto
    have "rows_of t ((e # ?b) @ behind) = Ok (map line_row rs)"
      using assms(2,3) t lines_last_eol [of e "[]" t] by (intro rows_of_lines) auto
    then show ?thesis using rows_of_append [of "e # ?b" t behind] neg [of "[e]" e] t by simp
  qed
  moreover obtain x where "FillData nthread (front @ ?b) behind = rmap (map build) x" "rows_of (front @ ?b) behind = rmap concat x"
    using FillData_rows [OF assms(1), of "front @ ?b" behind] by auto
  ultimately show ?thesis by (cases x) auto
qed

theorem negative_id_aborts_witness:
  "FillData 4 (two_lines @ line_text (hd two_rows) @ [32, 45, 55, 58, 49, 10]) [] = Err (CheckFailed ''sign == true'')"
proof -
  have "\<forall>r\<in>set two_rows. line_ok r" by (simp add: two_rows_def line_ok_def whole_def dec_ok_def feature_ok_def)
  moreover have "lines two_lines = map line_text two_rows"
    by (simp add: two_lines_def two_rows_def is_eol_def line_text_def whole_def dec_text_def opt_text_def features_text_def feature_text_def dchar_def)
  moreover have "line_ok (hd two_rows)" by (simp add: two_rows_def line_ok_def whole_def dec_ok_def feature_ok_def)
  ultimately show ?thesis using negative_id_aborts [of 4 two_rows two_lines "hd two_rows" "[55, 58, 49]" "[10]" "[]"]
    by (simp add: is_eol_def two_lines_def)
qed

text \<open>
  A value that is missing behind its colon is read from the next line: the lines \<open>1 3:\<close> and \<open>7\<close> give feature 3 the value 7.
  And a number at the very end of a chunk goes on into whatever is behind it in memory.
\<close>

lemma missing_value_next_line: "rows_of [49, 32, 51, 58, 10, 55, 10] [] = Ok [(1, None, [(3, Some 7)]), (7, None, [])]"
  by code_simp

lemma last_number_reads_on: "rows_of [49, 32, 51, 58, 53] [54] = Ok [(1, None, [(3, Some 56)])]"
  by code_simp

end
