(* ===== verification/CtrParsers.thy ===== *)
theory CtrParsers
  imports LibSVM
begin

text \<open>
  The parsers of the click-through formats, \<open>src/base/adfea_parser.h\<close> and \<open>criteo_parser.h\<close>, with 64-bit feature ids. As for
  LibSVM a pointer into a chunk is the list of the bytes up to its end, and the bytes \<open>behind\<close> the chunk are those the code can
  see there; the memory behind them holds a zero.
\<close>

section \<open>Adfea\<close>

text \<open>\<open>*p\<close>, for a pointer that may be at the end of the chunk.\<close>

definition deref :: "byte list \<Rightarrow> byte list \<Rightarrow> byte" where
  "deref p behind = (case p @ behind of [] \<Rightarrow> 0 | c # cs \<Rightarrow> c)"

definition adfea_index :: "u64 \<Rightarrow> u64 \<Rightarrow> u64" where
  "adfea_index idx gid = drop_bit 10 idx OR push_bit 54 gid"

lemma dropWhile_shorter: "dropWhile P xs \<noteq> xs \<Longrightarrow> length (dropWhile P xs) < length xs"
  using length_dropWhile_le [of P "tl xs"] by (cases xs) (auto split: if_splits)

text \<open>The loop of \<open>ParseNext\<close>; \<open>i\<close> counts the numbers in front of the label of a line.\<close>

function adfea_loop :: "byte list \<Rightarrow> byte list \<Rightarrow> nat \<Rightarrow> svm_block \<Rightarrow> svm_block res" where
  "adfea_loop p behind i blk =
     (if p = [] then Ok blk
      else let head = p; p = dropWhile isdigit p in
        if p = head then Err (CheckFailed ''head != p'')
        else if deref p behind = 58 then
          if p = [] then Err OutOfBounds
          else let p = tl p in
            rbind (strtoull (head @ behind)) (\<lambda>(idx, _). rbind (strtoull (p @ behind)) (\<lambda>(gid, _).
              adfea_loop (dropWhile isspace (dropWhile isdigit p)) behind i (blk\<lparr>rc_index := rc_index blk @ [adfea_index idx gid]\<rparr>)))
        else if i = 2 then
          adfea_loop (dropWhile isspace p) behind 0 (push_label (if hd head = 49 then 1 else 0) None blk)
        else adfea_loop (dropWhile isspace p) behind (i + 1) blk)"
  by pat_completeness auto
termination
proof (relation "measure (\<lambda>(p, behind, i, blk). length p)", goal_cases)
  case (2 p behind i blk head q r)
  then have "length r < length p" using dropWhile_shorter [of isdigit p] by auto
  then show ?case using length_dropWhile_le [of isspace "dropWhile isdigit r"] length_dropWhile_le [of isdigit r] by auto
next
  case (3 p behind i blk head q)
  then show ?case using dropWhile_shorter [of isdigit p] length_dropWhile_le [of isspace q] by auto
next
  case (4 p behind i blk head q)
  then show ?case using dropWhile_shorter [of isdigit p] length_dropWhile_le [of isspace q] by auto
qed simp

declare adfea_loop.simps [simp del]

definition AdfeaParser_ParseNext :: "byte list \<Rightarrow> byte list \<Rightarrow> svm_block list res" where
  "AdfeaParser_ParseNext chunk behind =
     check (length chunk \<noteq> 0) ''chunk.size != 0''
       (rmap (\<lambda>blk. [close_block blk]) (adfea_loop (dropWhile isspace chunk) behind 0 rbc_Clear))"

text \<open>A line: its number, a count, the label and the features with their groups, written in digits.\<close>

record AdfeaLine =
  al_id :: "nat list"
  al_count :: "nat list"
  al_label :: "nat list"
  al_features :: "(nat list \<times> nat list) list"

definition adfea_feature :: "nat list \<times> nat list \<Rightarrow> byte list" where
  "adfea_feature f = 32 # map dchar (fst f) @ 58 # map dchar (snd f)"

definition adfea_text :: "AdfeaLine \<Rightarrow> byte list" where
  "adfea_text r = map dchar (al_id r) @ 32 # map dchar (al_count r) @ 32 # map dchar (al_label r) @ concat (map adfea_feature (al_features r))"

definition number_ok :: "nat list \<Rightarrow> bool" where
  "number_ok ds \<longleftrightarrow> ds \<noteq> [] \<and> digits_ok ds"

definition adfea_ok :: "AdfeaLine \<Rightarrow> bool" where
  "adfea_ok r \<longleftrightarrow> number_ok (al_id r) \<and> number_ok (al_count r) \<and> number_ok (al_label r) \<and>
     (\<forall>f \<in> set (al_features r). number_ok (fst f) \<and> number_ok (snd f))"

text \<open>
  The id of a feature as a number: the quotient of the written id by 1024, and the last ten bits of the group above it. The
  remainder of the written id is lost.
\<close>

definition packed :: "nat \<Rightarrow> nat \<Rightarrow> u64" where
  "packed n g = word_of_nat (n div 1024 + (g mod 1024) * 2 ^ 54)"

lemma packed_bits:
  fixes x :: u64
  shows "drop_bit 10 x OR push_bit 54 (word_of_nat g) = packed (unat x) g"
proof -
  have "\<not> bit (drop_bit 10 x) n \<or> \<not> bit (push_bit 54 (word_of_nat g :: u64)) n" for n
    by (auto simp: bit_simps dest: bit_imp_le_length)
  then have "drop_bit 10 x OR push_bit 54 (word_of_nat g) = drop_bit 10 x + push_bit 54 (word_of_nat g :: u64)"
    by (intro disjunctive_add [symmetric])
  moreover have "drop_bit 10 x = word_of_nat (unat x div 1024)"
  proof -
    have "unat x div 1024 < 2 ^ 64" using order.strict_trans1 [OF div_le_dividend unat_bound [of x]] by simp
    moreover have "unat (drop_bit 10 x) = unat x div 1024" by (simp add: drop_bit_eq_div unat_div)
    ultimately show ?thesis unfolding word_unat_eq_iff by (simp add: unat_of_nat)
  qed
  moreover have "push_bit 54 (word_of_nat g :: u64) = word_of_nat ((g mod 1024) * 2 ^ 54)"
  proof -
    have "(g * 2 ^ 54) mod 2 ^ 64 = (g mod 1024) * 2 ^ 54" using mult_mod_left [of g 1024 "2 ^ 54"] by simp
    moreover have "(g mod 1024) * 2 ^ 54 < 2 ^ 64" using mod_less_divisor [of 1024 g] by simp
    ultimately have "unat (word_of_nat (g * 2 ^ 54) :: u64) = unat (word_of_nat ((g mod 1024) * 2 ^ 54) :: u64)" by (simp only: unat_of_nat) simp
    moreover have "push_bit 54 (word_of_nat g :: u64) = word_of_nat (g * 2 ^ 54)" by (simp add: push_bit_eq_mult)
    ultimately show ?thesis by (simp only: word_unat_eq_iff)
  qed
  ultimately show ?thesis by (simp add: packed_def)
qed

definition adfea_id :: "nat list \<times> nat list \<Rightarrow> u64" where
  "adfea_id f = packed (horner 0 (fst f) mod 2 ^ 64) (horner 0 (snd f))"

lemma adfea_index_packed: "adfea_index (word_of_nat n) (word_of_nat g) = packed (n mod 2 ^ 64) g"
  unfolding adfea_index_def packed_bits by (simp add: unat_of_nat)

definition adfea_row :: "AdfeaLine \<Rightarrow> svm_row" where
  "adfea_row r = (if hd (al_label r) = 1 then 1 else 0, None, map (\<lambda>f. (adfea_id f, None)) (al_features r))"

text \<open>A number ends at white space.\<close>

abbreviation spaced :: "byte list \<Rightarrow> bool" where
  "spaced r \<equiv> (case r of [] \<Rightarrow> False | c # cs \<Rightarrow> isspace c)"

lemma space_class: "isspace c \<Longrightarrow> \<not> isdigit c \<and> c \<noteq> 58 \<and> \<not> isdigitchars c"
  by (auto simp: isspace_def isdigit_def isdigitchars_def)

lemma skip_digits:
  assumes "number_ok ds" "no_digit r"
  shows "dropWhile isdigit (map dchar ds @ r) = r" "map dchar ds @ r \<noteq> r" "map dchar ds @ r \<noteq> []"
    "dropWhile isspace (map dchar ds @ r) = map dchar ds @ r"
proof -
  have "\<forall>c \<in> set (map dchar ds). isdigit c" using assms(1) by (auto simp: number_ok_def dchar_class(1))
  then show "dropWhile isdigit (map dchar ds @ r) = r" using assms(2) by (intro dropWhile_stop)
  show "map dchar ds @ r \<noteq> r" "map dchar ds @ r \<noteq> []" using assms(1) by (auto simp: number_ok_def)
  obtain d ds' where d: "ds = d # ds'" using assms(1) by (cases ds) (auto simp: number_ok_def)
  then show "dropWhile isspace (map dchar ds @ r) = map dchar ds @ r" using assms(1) by (simp add: number_ok_def dchar_class(3))
qed

lemma strtoull_number: "number_ok ds \<Longrightarrow> no_digit r \<Longrightarrow> strtoull (map dchar ds @ r) = Ok (word_of_nat (horner 0 ds), r)"
  by (simp add: strtoull_def strtouint_ok number_ok_def)

lemma spaced_rest:
  assumes "spaced r"
  shows "no_digit r" "no_digit (r @ s)" "deref r behind \<noteq> 58"
  using assms space_class by (auto simp: deref_def split: list.splits)

lemma adfea_number:
  assumes "number_ok ds" "spaced r"
  shows "adfea_loop (map dchar ds @ r) behind i blk =
    (if i = 2 then adfea_loop (dropWhile isspace r) behind 0 (push_label (if hd ds = 1 then 1 else 0) None blk)
     else adfea_loop (dropWhile isspace r) behind (i + 1) blk)"
proof -
  note s = skip_digits [OF assms(1) spaced_rest(1) [OF assms(2)]]
  obtain d ds' where d: "ds = d # ds'" "d < 10" using assms(1) by (cases ds) (auto simp: number_ok_def)
  have "dchar d = 49 \<longleftrightarrow> d = 1" using unat_dchar [OF d(2)] d(2) by (auto simp: word_unat_eq_iff)
  then have h: "hd (map dchar ds @ r) = 49 \<longleftrightarrow> hd ds = 1" using d(1) by simp
  show ?thesis by (subst adfea_loop.simps) (use s spaced_rest(3) [OF assms(2), of behind] h in \<open>simp add: Let_def\<close>)
qed

lemma adfea_pair:
  assumes "number_ok ds" "number_ok gs" "spaced r"
  shows "adfea_loop (map dchar ds @ 58 # map dchar gs @ r) behind i blk =
    adfea_loop (dropWhile isspace r) behind i (blk\<lparr>rc_index := rc_index blk @ [adfea_id (ds, gs)]\<rparr>)"
proof -
  have nd: "no_digit (58 # map dchar gs @ r)" by (simp add: isdigit_def)
  note s = skip_digits [OF assms(1) nd] and g = skip_digits(1) [OF assms(2) spaced_rest(1) [OF assms(3)]]
  have "strtoull (map dchar ds @ 58 # map dchar gs @ r @ behind) = Ok (word_of_nat (horner 0 ds), 58 # map dchar gs @ r @ behind)"
    using strtoull_number [OF assms(1), of "58 # map dchar gs @ r @ behind"] by (simp add: isdigit_def)
  moreover have "strtoull (map dchar gs @ r @ behind) = Ok (word_of_nat (horner 0 gs), r @ behind)"
    using strtoull_number [OF assms(2) spaced_rest(2) [OF assms(3)]] .
  ultimately show ?thesis
    by (subst adfea_loop.simps) (use s g in \<open>simp add: Let_def deref_def adfea_id_def adfea_index_packed\<close>)
qed

lemma adfea_features:
  assumes "\<forall>f \<in> set fs. number_ok (fst f) \<and> number_ok (snd f)" "spaced r"
  shows "adfea_loop (dropWhile isspace (concat (map adfea_feature fs) @ r)) behind i blk =
    adfea_loop (dropWhile isspace r) behind i (blk\<lparr>rc_index := rc_index blk @ map adfea_id fs\<rparr>)"
  using assms(1)
proof (induction fs arbitrary: blk)
  case Nil
  then show ?case by simp
next
  case (Cons f fs)
  obtain ds gs where f: "f = (ds, gs)" by (cases f)
  let ?r = "concat (map adfea_feature fs) @ r"
  have sp: "spaced ?r" using assms(2) by (cases fs) (auto simp: adfea_feature_def isspace_def)
  have w: "dropWhile isspace (adfea_feature f @ ?r) = map dchar ds @ 58 # map dchar gs @ ?r"
    using skip_digits(4) [of ds "58 # map dchar gs @ ?r"] Cons.prems f by (simp add: adfea_feature_def isspace_def isdigit_def)
  show ?case using adfea_pair [OF _ _ sp, of ds gs behind i blk] Cons f w by simp
qed

lemma adfea_line:
  assumes "adfea_ok l" "spaced r"
  shows "adfea_loop (adfea_text l @ r) behind 0 blk = adfea_loop (dropWhile isspace r) behind 0 (add_row (adfea_row l) blk)"
proof -
  let ?fs = "concat (map adfea_feature (al_features l)) @ r"
  have ok: "number_ok (al_id l)" "number_ok (al_count l)" "number_ok (al_label l)" "\<forall>f \<in> set (al_features l). number_ok (fst f) \<and> number_ok (snd f)"
    using assms(1) by (auto simp: adfea_ok_def)
  have sp: "spaced ?fs" using assms(2) by (cases "al_features l") (auto simp: adfea_feature_def isspace_def)
  have w: "dropWhile isspace (map dchar ds @ t) = map dchar ds @ t" if n: "number_ok ds" for ds t
  proof -
    obtain d ds' where "ds = d # ds'" "d < 10" using n by (cases ds) (auto simp: number_ok_def)
    then show ?thesis by (simp add: dchar_class(3))
  qed
  have r: "add_row (adfea_row l) blk = (push_label (if hd (al_label l) = 1 then 1 else 0) None blk)
      \<lparr>rc_index := rc_index (push_label (if hd (al_label l) = 1 then 1 else 0) None blk) @ map adfea_id (al_features l)\<rparr>"
    by (simp add: add_row_def adfea_row_def add_features_def values_of_def comp_def)
  show ?thesis
    unfolding adfea_text_def append_assoc append_Cons r
    by (simp add: adfea_number ok w sp adfea_features [OF ok(4) assms(2)] isspace_def [of 32])
qed

text \<open>The first line of a text.\<close>

lemma lines_first:
  assumes "lines bs = l # ls"
  shows "\<exists>pre suf. bs = pre @ l @ suf \<and> (\<forall>c \<in> set pre. is_eol c) \<and> l \<noteq> [] \<and> (\<forall>c \<in> set l. \<not> is_eol c) \<and> (suf = [] \<or> is_eol (hd suf)) \<and> lines suf = ls"
proof -
  define pre where "pre = takeWhile is_eol bs"
  define rest where "rest = dropWhile is_eol bs"
  define t where "t = takeWhile (\<lambda>c. \<not> is_eol c) rest"
  define suf where "suf = dropWhile (\<lambda>c. \<not> is_eol c) rest"
  have bs: "bs = pre @ t @ suf" by (simp add: pre_def t_def suf_def rest_def)
  have pre: "\<forall>c \<in> set pre. is_eol c" by (auto simp: pre_def dest: set_takeWhileD)
  have "lines (pre @ xs) = lines xs" for xs using pre by (induction pre) auto
  moreover have "bs = pre @ rest" by (simp add: pre_def rest_def)
  ultimately have "lines bs = lines rest" by metis
  moreover have s: "suf = [] \<or> is_eol (hd suf)" using hd_dropWhile [of "\<lambda>c. \<not> is_eol c" rest] by (auto simp: suf_def)
  moreover have tn: "\<forall>c \<in> set t. \<not> is_eol c" by (auto simp: t_def dest: set_takeWhileD)
  ultimately have L: "lines bs = lines_from t suf" using lines_noneol [OF tn, of "[]" suf] by (simp add: t_def suf_def)
  have "t \<noteq> []"
  proof
    assume "t = []"
    moreover have "rest = [] \<or> \<not> is_eol (hd rest)" using hd_dropWhile [of is_eol bs] by (auto simp: rest_def)
    ultimately have "rest = []" by (cases rest) (auto simp: t_def split: if_splits)
    then show False using assms L by (simp add: t_def suf_def)
  qed
  moreover have "lines_from t suf = t # lines suf" using s \<open>t \<noteq> []\<close> by (cases suf) auto
  ultimately show ?thesis using bs pre s L assms tn by auto
qed

lemma lines_none: "lines_from acc bs = [] \<Longrightarrow> acc = [] \<and> (\<forall>c \<in> set bs. is_eol c)"
  by (induction acc bs rule: lines_from.induct) (auto split: if_splits)

lemma eol_space: "is_eol c \<Longrightarrow> isspace c"
  by (auto simp: is_eol_def isspace_def)

text \<open>A chunk that ends with a line end starts with a line and a line end, or has no line.\<close>

lemma chunk_first:
  assumes "lines bs = l # ls" "eol_end bs"
  obtains pre suf where "bs = pre @ l @ suf" "\<forall>c \<in> set pre. is_eol c" "suf \<noteq> []" "is_eol (hd suf)" "lines suf = ls" "eol_end suf"
    "l \<noteq> []" "\<forall>c \<in> set l. \<not> is_eol c"
proof -
  obtain pre suf where p: "bs = pre @ l @ suf" "\<forall>c \<in> set pre. is_eol c" "l \<noteq> []" "\<forall>c \<in> set l. \<not> is_eol c" "suf = [] \<or> is_eol (hd suf)" "lines suf = ls"
    using lines_first [OF assms(1)] by blast
  have "suf \<noteq> []" using p(1,3,4) assms(2) by (auto simp: eol_end_def)
  moreover from this have "eol_end suf" using p(1) assms(2) by (simp add: eol_end_def)
  ultimately show thesis using that p by blast
qed

lemma adfea_text_head: "adfea_ok r \<Longrightarrow> dropWhile isspace (adfea_text r @ s) = adfea_text r @ s"
  by (cases "al_id r") (auto simp: adfea_text_def adfea_ok_def number_ok_def dchar_class(3))

lemma adfea_lines:
  assumes "\<forall>r \<in> set rs. adfea_ok r" "lines bs = map adfea_text rs" "eol_end bs"
  shows "adfea_loop (dropWhile isspace bs) behind 0 blk = Ok (fold add_row (map adfea_row rs) blk)"
  using assms
proof (induction rs arbitrary: bs blk)
  case Nil
  have "dropWhile isspace bs = []" using Nil(2) lines_none [of "[]" bs] eol_space by (auto simp: dropWhile_eq_Nil_conv)
  then show ?case by (simp add: adfea_loop.simps)
next
  case (Cons r rs)
  obtain pre suf where p: "bs = pre @ adfea_text r @ suf" "\<forall>c \<in> set pre. is_eol c" "suf \<noteq> []" "is_eol (hd suf)" "lines suf = map adfea_text rs" "eol_end suf"
      "adfea_text r \<noteq> []" "\<forall>c \<in> set (adfea_text r). \<not> is_eol c"
    using chunk_first [of bs "adfea_text r" "map adfea_text rs"] Cons.prems(2,3) by auto
  have ok: "adfea_ok r" using Cons.prems(1) by simp
  have "spaced suf" using p(3,4) eol_space by (cases suf) auto
  moreover have "dropWhile isspace bs = adfea_text r @ suf"
    unfolding p(1) using p(2) eol_space by (subst dropWhile_append2) (auto simp: adfea_text_head [OF ok])
  ultimately show ?case using adfea_line [OF ok, of suf behind blk] Cons.IH [of suf "add_row (adfea_row r) blk"] Cons.prems(1) p(5,6) by simp
qed

lemma AdfeaParser_chunk:
  assumes "chunk \<noteq> []" "\<forall>r \<in> set rs. adfea_ok r" "eol_fmt chunk (map adfea_text rs)"
  shows "AdfeaParser_ParseNext chunk behind = Ok [build (map adfea_row rs)]"
  using assms adfea_lines [OF assms(2), of chunk behind rbc_Clear]
  by (simp add: AdfeaParser_ParseNext_def eol_fmt_def line_fmt_def close_rows)

interpretation adfea: chunk_parser eol_fmt eol_files AdfeaParser_ParseNext adfea_text adfea_row adfea_ok
  by unfold_locales (auto simp: AdfeaParser_chunk intro!: exI [of _ "[map adfea_row rs]" for rs])

section \<open>Criteo\<close>

text \<open>\<open>p + 1\<close>. A pointer behind the end of the chunk is never equal to the end again.\<close>

definition advance :: "byte list \<Rightarrow> byte list res" where
  "advance p = (case p of [] \<Rightarrow> Err OutOfBounds | c # q \<Rightarrow> Ok q)"

definition criteo_Find :: "byte list \<Rightarrow> byte \<Rightarrow> byte list" where
  "criteo_Find p c = dropWhile (\<lambda>b. b \<noteq> c) p"

definition criteo_index :: "(byte list \<Rightarrow> u64) \<Rightarrow> nat \<Rightarrow> byte list \<Rightarrow> u64" where
  "criteo_index city i w = drop_bit 10 (city w) OR push_bit 54 (word_of_nat i)"

abbreviation push_index :: "u64 \<Rightarrow> svm_block \<Rightarrow> svm_block" where
  "push_index idx blk \<equiv> blk\<lparr>rc_index := rc_index blk @ [idx]\<rparr>"

fun criteo_ints :: "(byte list \<Rightarrow> u64) \<Rightarrow> nat list \<Rightarrow> byte list \<Rightarrow> svm_block \<Rightarrow> (byte list \<times> svm_block) res" where
  "criteo_ints city [] p blk = Ok (p, blk)"
| "criteo_ints city (i # is) p blk =
     (let pp = criteo_Find p 9; w = takeWhile (\<lambda>b. b \<noteq> 9) p in
      rbind (advance pp) (\<lambda>p. criteo_ints city is p (if w \<noteq> [] then push_index (criteo_index city i w) blk else blk)))"

fun criteo_cats :: "(byte list \<Rightarrow> u64) \<Rightarrow> nat list \<Rightarrow> byte list \<Rightarrow> byte list \<Rightarrow> svm_block \<Rightarrow> (byte list \<times> svm_block) res" where
  "criteo_cats city [] p behind blk = Ok (p, blk)"
| "criteo_cats city (i # is) p behind blk =
     (if p = [] then Ok (p, blk)
      else if isspace (hd p) then criteo_cats city is (tl p) behind blk
      else if length (p @ behind) < 8 then Err OutOfBounds
      else let c = deref (drop 8 (p @ behind)) []; blk = push_index (criteo_index city (i + 13) (take 8 (p @ behind))) blk in
        check (isspace c) ''isspace(*pp)''
          (if length p \<le> 8 then Err OutOfBounds
           else if is_eol c then Ok (drop 9 p, blk) else criteo_cats city is (drop 9 p) behind blk))"

definition criteo_label :: "bool \<Rightarrow> byte list \<Rightarrow> byte list \<Rightarrow> svm_block \<Rightarrow> (byte list \<times> svm_block) res" where
  "criteo_label is_train p behind blk =
     (if is_train then
        let pp = criteo_Find p 9 in
        check (p \<noteq> pp) ''p != pp''
          (rmap (\<lambda>p'. (p', blk\<lparr>rc_label := rc_label blk @ [atof (p @ behind)]\<rparr>)) (advance pp))
      else Ok (p, blk\<lparr>rc_label := rc_label blk @ [0]\<rparr>))"

lemma advance_length: "advance p = Ok q \<Longrightarrow> length p = Suc (length q)"
  by (cases p) (auto simp: advance_def)

lemma criteo_ints_length: "criteo_ints city is p blk = Ok (q, blk') \<Longrightarrow> length is + length q \<le> length p"
proof (induction city "is" p blk rule: criteo_ints.induct)
  case (2 city i "is" p blk)
  let ?blk = "if takeWhile (\<lambda>b. b \<noteq> 9) p \<noteq> [] then push_index (criteo_index city i (takeWhile (\<lambda>b. b \<noteq> 9) p)) blk else blk"
  obtain r where r: "advance (criteo_Find p 9) = Ok r" "criteo_ints city is r ?blk = Ok (q, blk')"
    using 2(2) unfolding criteo_ints.simps Let_def rbind_Ok_iff by blast
  have "length is + length q \<le> length r" using 2(1) [OF refl refl, of r] r(2) by simp
  then show ?case using advance_length [OF r(1)] length_dropWhile_le [of "\<lambda>b. b \<noteq> 9" p] by (simp add: criteo_Find_def)
qed simp

lemma criteo_cats_length: "criteo_cats city is p behind blk = Ok (q, blk') \<Longrightarrow> length q \<le> length p"
proof (induction city "is" p behind blk rule: criteo_cats.induct)
  case (2 city i "is" p behind blk)
  then show ?case by (fastforce simp: Let_def outcome split: if_splits)
qed simp

lemma criteo_label_length: "criteo_label b p behind blk = Ok (q, blk') \<Longrightarrow> length q \<le> length p"
  using length_dropWhile_le [of "\<lambda>b. b \<noteq> 9" p]
  by (auto simp: criteo_label_def Let_def outcome criteo_Find_def dest!: advance_length split: if_splits)

function criteo_loop :: "(byte list \<Rightarrow> u64) \<Rightarrow> bool \<Rightarrow> byte list \<Rightarrow> byte list \<Rightarrow> svm_block \<Rightarrow> svm_block res" where
  "criteo_loop city is_train p behind blk =
     (if p = [] then Ok blk
      else let p = dropWhile is_eol p in
        if p = [] then (if is_eol (deref [] behind) then Err OutOfBounds else Ok blk)
        else case rbind (criteo_label is_train p behind blk) (\<lambda>(p, blk).
                  rbind (criteo_ints city [0..<13] p blk) (\<lambda>(p, blk). criteo_cats city [0..<26] p behind blk)) of
               Err e \<Rightarrow> Err e
             | Ok (p, blk) \<Rightarrow> criteo_loop city is_train p behind (blk\<lparr>rc_offset := rc_offset blk @ [length (rc_index blk)]\<rparr>))"
  by pat_completeness auto
termination
proof (relation "measure (\<lambda>(city, is_train, p, behind, blk). length p)", goal_cases)
  case (2 city is_train p behind blk p1 x q blk')
  then obtain p2 b2 p3 b3 where "criteo_label is_train p1 behind blk = Ok (p2, b2)" "criteo_ints city [0..<13] p2 b2 = Ok (p3, b3)"
      "criteo_cats city [0..<26] p3 behind b3 = Ok (q, blk')"
    by (auto simp: outcome)
  then have "length q < length p1" using criteo_label_length criteo_ints_length criteo_cats_length by fastforce
  then show ?case using 2(2) length_dropWhile_le [of is_eol p] by simp
qed simp

declare criteo_loop.simps [simp del]

definition CriteoParser_ParseNext :: "(byte list \<Rightarrow> u64) \<Rightarrow> bool \<Rightarrow> byte list \<Rightarrow> byte list \<Rightarrow> svm_block list res" where
  "CriteoParser_ParseNext city is_train chunk behind =
     check (length chunk \<noteq> 0) ''chunk.size != 0'' (rmap (\<lambda>blk. [blk]) (criteo_loop city is_train chunk behind rbc_Clear))"

text \<open>A line: the label, thirteen columns of any text and 26 columns of eight characters, some of them empty.\<close>

record CriteoLine =
  cl_label :: Decimal
  cl_ints :: "byte list list"
  cl_cats :: "byte list list"

fun tabbed :: "byte list list \<Rightarrow> byte list" where
  "tabbed [] = []"
| "tabbed [w] = w"
| "tabbed (w # ws) = w @ 9 # tabbed ws"

definition criteo_text :: "bool \<Rightarrow> CriteoLine \<Rightarrow> byte list" where
  "criteo_text is_train l = (if is_train then dec_text (cl_label l) @ [9] else []) @ concat (map (\<lambda>w. w @ [9]) (cl_ints l)) @ tabbed (cl_cats l)"

definition criteo_ok :: "CriteoLine \<Rightarrow> bool" where
  "criteo_ok l \<longleftrightarrow> dec_ok (cl_label l) \<and> length (cl_ints l) = 13 \<and> (\<forall>w \<in> set (cl_ints l). 9 \<notin> set w) \<and>
     length (cl_cats l) = 26 \<and> (\<forall>w \<in> set (cl_cats l). w = [] \<or> length w = 8 \<and> (\<forall>c \<in> set w. \<not> isspace c))"

text \<open>The column in the upper ten bits, and the hash divided by 1024.\<close>

definition columns :: "(byte list \<Rightarrow> u64) \<Rightarrow> nat \<Rightarrow> byte list list \<Rightarrow> u64 list" where
  "columns city k ws = map (\<lambda>(i, w). packed (unat (city w)) i) (filter (\<lambda>(i, w). w \<noteq> []) (zip [k..<k + length ws] ws))"

definition criteo_row :: "(byte list \<Rightarrow> u64) \<Rightarrow> bool \<Rightarrow> CriteoLine \<Rightarrow> svm_row" where
  "criteo_row city is_train l = (if is_train then dec_val (cl_label l) else 0, None, map (\<lambda>x. (x, None)) (columns city 0 (cl_ints l) @ columns city 13 (cl_cats l)))"

lemma criteo_index_packed [simp]: "criteo_index city i w = packed (unat (city w)) i"
  unfolding criteo_index_def packed_bits ..

lemma columns_Nil [simp]: "columns city k [] = []"
  by (simp add: columns_def)

lemma columns_Cons: "columns city k (w # ws) = (if w \<noteq> [] then [packed (unat (city w)) k] else []) @ columns city (Suc k) ws"
  by (simp add: columns_def upt_conv_Cons del: upt_Suc)

lemma find_tab: "9 \<notin> set w \<Longrightarrow> criteo_Find (w @ 9 # r) 9 = 9 # r \<and> takeWhile (\<lambda>b. b \<noteq> 9) (w @ 9 # r) = w"
  by (induction w) (auto simp: criteo_Find_def)

lemma criteo_ints_text:
  assumes "\<forall>w \<in> set ws. 9 \<notin> set w"
  shows "criteo_ints city [k..<k + length ws] (concat (map (\<lambda>w. w @ [9]) ws) @ r) blk = Ok (r, blk\<lparr>rc_index := rc_index blk @ columns city k ws\<rparr>)"
  using assms
proof (induction ws arbitrary: k blk)
  case Nil
  then show ?case by (simp add: columns_def)
next
  case (Cons w ws)
  have u: "[k..<k + length (w # ws)] = k # [Suc k..<Suc k + length ws]" by (simp add: upt_conv_Cons del: upt_Suc)
  show ?case unfolding u using Cons find_tab [of w "concat (map (\<lambda>w. w @ [9]) ws) @ r"]
    by (simp add: advance_def columns_Cons del: upt_Suc add_Suc)
qed

lemma tab_space [simp]: "isspace 9" "\<not> is_eol 9"
  by (simp_all add: isspace_def is_eol_def)

lemma criteo_cats_text:
  assumes "\<forall>w \<in> set ws. w = [] \<or> length w = 8 \<and> (\<forall>c \<in> set w. \<not> isspace c)" "is_eol e" "ws \<noteq> []"
  shows "criteo_cats city [k..<k + length ws] (tabbed ws @ e # r) behind blk = Ok (r, blk\<lparr>rc_index := rc_index blk @ columns city (k + 13) ws\<rparr>)"
  using assms(1,3)
proof (induction ws arbitrary: k blk)
  case (Cons w ws)
  have u: "[k..<k + length (w # ws)] = k # [Suc k..<Suc k + length ws]" by (simp add: upt_conv_Cons del: upt_Suc)
  let ?t = "if ws = [] then e # r else 9 # tabbed ws @ e # r"
  have t: "tabbed (w # ws) @ e # r = w @ ?t" by (cases ws) auto
  have h: "isspace (hd ?t)" "?t \<noteq> []" "is_eol (hd ?t) \<longleftrightarrow> ws = []" using assms(2) eol_space [OF assms(2)] by auto
  have rest: "criteo_cats city [Suc k..<Suc k + length ws] (tl ?t) behind b = Ok (r, b\<lparr>rc_index := rc_index b @ columns city (Suc k + 13) ws\<rparr>)" for b
  proof (cases "ws = []")
    case True
    then show ?thesis by (simp add: columns_def)
  next
    case False
    then show ?thesis using Cons.IH [of "Suc k" b] Cons.prems(1) by simp
  qed
  show ?case
  proof (cases "w = []")
    case True
    then show ?thesis unfolding u t using h rest [of blk] by (simp add: columns_Cons del: upt_Suc add_Suc)
  next
    case False
    then have w: "length w = 8" "\<not> isspace (hd w)" using Cons.prems(1) by (cases w; auto)+
    obtain x y where xy: "?t = x # y" using h(2) by (cases ?t) auto
    have d: "drop 8 (w @ ?t @ behind) = ?t @ behind" "take 8 (w @ ?t @ behind) = w" "drop 9 (w @ ?t) = tl ?t" "hd (w @ ?t) = hd w"
      using w(1) False xy by simp_all
    show ?thesis
    proof (cases "ws = []")
      case True
      then show ?thesis unfolding u t using w d h False eol_space [OF assms(2)] assms(2) by (simp add: deref_def columns_Cons Let_def)
    next
      case ne: False
      then show ?thesis unfolding u t using w d h False rest [of "push_index (criteo_index city (k + 13) w) blk"]
        by (simp add: deref_def columns_Cons Let_def del: upt_Suc add_Suc)
    qed
  qed
qed simp

text \<open>A row whose end is stored with it.\<close>

definition add_closed :: "svm_row \<Rightarrow> svm_block \<Rightarrow> svm_block" where
  "add_closed = (\<lambda>(label, weight, fs) out. out\<lparr>rc_label := rc_label out @ [label], rc_index := rc_index out @ map fst fs,
     rc_offset := rc_offset out @ [length (rc_index out @ map fst fs)]\<rparr>)"

lemma fold_add_closed:
  assumes "\<forall>(l, w, fs) \<in> set rows. w = None \<and> (\<forall>f \<in> set fs. snd f = None)"
  shows "fold add_closed rows rbc_Clear = build rows"
  using assms
proof (induction rows rule: rev_induct)
  case Nil
  show ?case by (simp add: rbc_Clear_def build_def nfeat_def)
next
  case (snoc r rows)
  obtain l fs where r: "r = (l, None, fs)" "\<forall>f \<in> set fs. snd f = None" using snoc.prems by (cases r) auto
  have v: "values_of fs = []" using r(2) by (auto simp: values_of_def split: option.splits)
  have o: "map (\<lambda>i. nfeat (take i (rows @ [(l, None, fs)]))) [0..<Suc (Suc (length rows))] =
      map (\<lambda>i. nfeat (take i rows)) [0..<Suc (length rows)] @ [nfeat rows + length fs]"
    by (auto simp: nfeat_def)
  have "fold add_closed rows rbc_Clear = build rows" using snoc by auto
  then show ?case using v length_index [of rows] by (simp add: build_def add_closed_def o r(1) del: upt_Suc take_append)
qed

lemma criteo_line:
  assumes "criteo_ok l" "is_eol e"
  shows "rbind (criteo_label t (criteo_text t l @ e # r) behind blk) (\<lambda>(p, blk).
      rbind (criteo_ints city [0..<13] p blk) (\<lambda>(p, blk). criteo_cats city [0..<26] p behind blk)) =
    Ok (r, blk\<lparr>rc_label := rc_label blk @ [fst (criteo_row city t l)], rc_index := rc_index blk @ map fst (snd (snd (criteo_row city t l)))\<rparr>)"
proof -
  let ?ints = "concat (map (\<lambda>w. w @ [9]) (cl_ints l)) @ tabbed (cl_cats l) @ e # r"
  have ok: "dec_ok (cl_label l)" "length (cl_ints l) = 13" "\<forall>w \<in> set (cl_ints l). 9 \<notin> set w" "length (cl_cats l) = 26"
      "\<forall>w \<in> set (cl_cats l). w = [] \<or> length w = 8 \<and> (\<forall>c \<in> set w. \<not> isspace c)"
    using assms(1) by (auto simp: criteo_ok_def)
  have "dec_text (cl_label l) \<noteq> []" "9 \<notin> set (dec_text (cl_label l))" using dec_text_chars [OF ok(1)] by (auto simp: isdigitchars_def)
  moreover have "atof (dec_text (cl_label l) @ 9 # ?ints @ behind) = dec_val (cl_label l)"
    using strtof_ok [OF ok(1), of "9 # ?ints @ behind"] by (simp add: atof_def isdigitchars_def)
  ultimately have lab: "criteo_label t (criteo_text t l @ e # r) behind blk = Ok (?ints, blk\<lparr>rc_label := rc_label blk @ [fst (criteo_row city t l)]\<rparr>)"
    using find_tab [of "dec_text (cl_label l)" ?ints] by (cases t) (simp_all add: criteo_label_def criteo_text_def criteo_row_def advance_def)
  have ints: "criteo_ints city [0..<13] ?ints b = Ok (tabbed (cl_cats l) @ e # r, b\<lparr>rc_index := rc_index b @ columns city 0 (cl_ints l)\<rparr>)" for b
    using criteo_ints_text [OF ok(3), of city 0 _ b] ok(2) by simp
  have ne: "cl_cats l \<noteq> []" using ok(4) by auto
  have cats: "criteo_cats city [0..<26] (tabbed (cl_cats l) @ e # r) behind b = Ok (r, b\<lparr>rc_index := rc_index b @ columns city 13 (cl_cats l)\<rparr>)" for b
    using criteo_cats_text [OF ok(5) assms(2) ne, of city 0 r behind b] ok(4) by simp
  show ?thesis by (simp add: lab ints cats criteo_row_def comp_def del: upt_Suc upt_rec_numeral)
qed

lemma criteo_lines:
  assumes "\<forall>l \<in> set ls. criteo_ok l" "lines bs = map (criteo_text t) ls" "eol_end bs" "single_ends bs"
  shows "criteo_loop city t bs behind blk = Ok (fold add_closed (map (criteo_row city t) ls) blk)"
  using assms
proof (induction ls arbitrary: bs blk)
  case Nil
  have "\<forall>c \<in> set bs. is_eol c" using Nil(2) lines_none [of "[]" bs] by simp
  then have "bs = []" using Nil(4) by (cases bs) simp_all
  then show ?case by (simp add: criteo_loop.simps [of _ _ "[]"])
next
  case (Cons l ls)
  obtain pre suf where p: "bs = pre @ criteo_text t l @ suf" "\<forall>c \<in> set pre. is_eol c" "suf \<noteq> []" "is_eol (hd suf)"
      "lines suf = map (criteo_text t) ls" "eol_end suf" "criteo_text t l \<noteq> []" "\<forall>c \<in> set (criteo_text t l). \<not> is_eol c"
    using chunk_first [of bs "criteo_text t l" "map (criteo_text t) ls"] Cons.prems(2,3) by auto
  obtain e r where e: "suf = e # r" "is_eol e" "lines r = map (criteo_text t) ls" "eol_end r"
    using p(3-6) by (cases suf) (auto simp: eol_end_def split: if_splits)
  have "replicate 13 (9 :: byte) = 9 # replicate 12 9" by (subst replicate_Suc [symmetric]) simp
  then have d: "dropWhile is_eol bs = criteo_text t l @ e # r" "bs \<noteq> []"
    unfolding p(1) e(1) using p(2,7,8) by (auto simp: dropWhile_append2 dropWhile_append1 neq_Nil_conv)
  have ok: "criteo_ok l" using Cons.prems(1) by simp
  have sr: "single_ends r" using Cons.prems(4) e(2) single_append [of True "pre @ criteo_text t l @ [e]" r] unfolding p(1) e(1) by simp
  have row: "add_closed (criteo_row city t l) blk = blk\<lparr>rc_label := rc_label blk @ [fst (criteo_row city t l)],
      rc_index := rc_index blk @ map fst (snd (snd (criteo_row city t l))),
      rc_offset := rc_offset blk @ [length (rc_index blk @ map fst (snd (snd (criteo_row city t l))))]\<rparr>"
    by (cases "criteo_row city t l") (simp add: add_closed_def)
  show ?case
    using Cons.IH [OF _ e(3,4) sr, of "add_closed (criteo_row city t l) blk"] Cons.prems(1) d
    by (subst criteo_loop.simps) (simp add: criteo_line [OF ok e(2)] row Let_def del: upt_Suc upt_rec_numeral)
qed

lemma CriteoParser_chunk:
  assumes "chunk \<noteq> []" "\<forall>l \<in> set ls. criteo_ok l" "single_fmt chunk (map (criteo_text t) ls)"
  shows "CriteoParser_ParseNext city t chunk behind = Ok [build (map (criteo_row city t) ls)]"
proof -
  have "\<forall>(l, w, fs) \<in> set (map (criteo_row city t) ls). w = None \<and> (\<forall>f \<in> set fs. snd f = None)" by (auto simp: criteo_row_def)
  then show ?thesis
    using assms criteo_lines [OF assms(2), where bs = chunk and t = t and behind = behind and city = city and blk = rbc_Clear] fold_add_closed
    by (simp add: CriteoParser_ParseNext_def single_fmt_def eol_fmt_def line_fmt_def)
qed

interpretation criteo: chunk_parser single_fmt single_files "CriteoParser_ParseNext city t" "criteo_text t" "criteo_row city t" criteo_ok for city t
  by unfold_locales (auto simp: CriteoParser_chunk intro!: exI [of _ "[map (criteo_row city t) ls]" for ls])

section \<open>From files to row blocks\<close>

text \<open>What is written in an adfea line: the label, the weight 1, and the features with the value 1.\<close>

definition adfea_seen :: "AdfeaLine \<Rightarrow> real \<times> real \<times> (u64 \<times> real) list" where
  "adfea_seen r = (if hd (al_label r) = 1 then 1 else 0, 1, map (\<lambda>(i, g). (packed (horner 0 i mod 2 ^ 64) (horner 0 g), 1)) (al_features r))"

lemma adfea_seen_row: "row_seen (adfea_row r) = adfea_seen r"
  by (auto simp: row_seen_def adfea_row_def adfea_seen_def adfea_id_def value_or_1_def)

lemma uniform_plain:
  assumes "\<forall>(l, w, fs)\<in>set rows. w = None \<and> (\<forall>f\<in>set fs. snd f = None)"
  shows "uniform_rows rows"
  using assms by (fastforce simp: uniform_rows_def all_or_none_def)

text \<open>
  C35: click logs in the adfea format, in files whose lines end with a line end, read in any number of parts with any hints for the
  chunk size: nothing aborts, the containers pass the checks of \<open>GetBlock\<close>, and the views of all chunks, read with \<open>operator[]\<close>,
  have one row per line, in order: the label is one if its first digit is, the weight and all values are 1, and the id of a feature
  is the written id divided by 1024 with the last ten bits of the group above it. (The remainder of the written id is lost, see
  \<open>adfea_low_bits_lost\<close>.)
\<close>

theorem adfea_files_parse:
  fixes uri :: string
  assumes "sized fsys (InitInputFileInfo fsys uri)" and "eol_files (contents fsys (InitInputFileInfo fsys uri)) (map adfea_text rs)"
    and "\<forall>r\<in>set rs. adfea_ok r" and "0 < nsplit"
  shows "\<exists>css blocks views rows. length css = nsplit \<and>
     (\<forall>k < nsplit. \<exists>s s'. Init LineSplitter fsys uri k nsplit new_InputSplitBase = Ok s \<and>
        all_of (NextChunk LineSplitter fsys) (HintChunkSize (h k) s) = Some (Ok (css ! k, s'))) \<and>
     all_res (map (\<lambda>c. AdfeaParser_ParseNext c (behind c)) (concat css)) = Ok blocks \<and>
     mapM_res rbc_GetBlock (concat blocks) = Ok views \<and> mapM_res rows_seen views = Ok rows \<and> concat rows = map adfea_seen rs"
proof -
  have u: "uniform_rows (map adfea_row rs)" by (rule uniform_plain) (auto simp: adfea_row_def)
  have s: "map (row_seen \<circ> adfea_row) rs = map adfea_seen rs" by (simp add: adfea_seen_row)
  show ?thesis unfolding s [symmetric] by (rule adfea.files_parse [OF assms u])
qed

text \<open>For the witnesses: one file with one line.\<close>

definition one_file :: "byte list \<Rightarrow> FileSystem" where
  "one_file t = \<lparr>GetPathInfo = (\<lambda>p. \<lparr>fi_path = p, fi_size = length t + 1, fi_type = kFile\<rparr>), ListDirectory = (\<lambda>p. []), OpenForRead = (\<lambda>p. t @ [10])\<rparr>"

lemma one_file:
  assumes "t \<noteq> []" "\<forall>c \<in> set t. c \<noteq> 0 \<and> \<not> is_eol c"
  shows "sized (one_file t) (InitInputFileInfo (one_file t) ''x'')" "eol_files (contents (one_file t) (InitInputFileInfo (one_file t) ''x'')) [t]"
proof -
  have i: "InitInputFileInfo (one_file t) ''x'' = [\<lparr>fi_path = ''x'', fi_size = length t + 1, fi_type = kFile\<rparr>]"
    using assms by (simp add: InitInputFileInfo_def one_file_def)
  have l: "lines (t @ [10]) = [t]" using lines_noneol [of t "[]" "[10]"] assms by (simp add: is_eol_def)
  show "sized (one_file t) (InitInputFileInfo (one_file t) ''x'')" unfolding i using assms by (simp add: sized_def one_file_def)
  show "eol_files (contents (one_file t) (InitInputFileInfo (one_file t) ''x'')) [t]" unfolding i
    using assms l by (auto simp: contents_def one_file_def eol_files_def line_files_def eol_end_def is_eol_def)
qed

definition adfea_example :: AdfeaLine where
  "adfea_example = \<lparr>al_id = [1], al_count = [2], al_label = [1], al_features = [([5, 0, 0, 0], [3])]\<rparr>"

theorem adfea_files_parse_witness:
  "\<exists>css blocks views rows. length css = 2 \<and>
     all_res (map (\<lambda>c. AdfeaParser_ParseNext c [57]) (concat css)) = Ok blocks \<and>
     mapM_res rbc_GetBlock (concat blocks) = Ok views \<and> mapM_res rows_seen views = Ok rows \<and>
     concat rows = [(1, 1, [(54043195528445956, 1)])]"
proof -
  have t: "adfea_text adfea_example = [49, 32, 50, 32, 49, 32, 53, 48, 48, 48, 58, 51]"
    by (simp add: adfea_text_def adfea_example_def adfea_feature_def dchar_def)
  have ok: "adfea_ok adfea_example" by (simp add: adfea_ok_def adfea_example_def number_ok_def)
  have "adfea_seen adfea_example = (1, 1, [(54043195528445956, 1)])"
    by (simp add: adfea_seen_def adfea_example_def packed_def)
  then show ?thesis
    using adfea_files_parse [of "one_file (adfea_text adfea_example)" "''x''" "[adfea_example]" 2 "\<lambda>k. 0" "\<lambda>c. [57]"] one_file [of "adfea_text adfea_example"] ok
    by (simp add: t is_eol_def) blast
qed

text \<open>What is written in a Criteo line: the label, or 0 in a test file, and the columns that are not empty.\<close>

definition criteo_seen :: "(byte list \<Rightarrow> u64) \<Rightarrow> bool \<Rightarrow> CriteoLine \<Rightarrow> real \<times> real \<times> (u64 \<times> real) list" where
  "criteo_seen city is_train l = (if is_train then dec_val (cl_label l) else 0, 1,
     map (\<lambda>(i, w). (packed (unat (city w)) i, 1)) (filter (\<lambda>(i, w). w \<noteq> []) (zip [0..<39] (cl_ints l @ cl_cats l))))"

lemma columns_append: "columns city k (us @ vs) = columns city k us @ columns city (k + length us) vs"
  by (induction us arbitrary: k) (simp_all add: columns_Cons)

lemma criteo_seen_row: "criteo_ok l \<Longrightarrow> row_seen (criteo_row city t l) = criteo_seen city t l"
proof -
  assume ok: "criteo_ok l"
  have "columns city 0 (cl_ints l) @ columns city 13 (cl_cats l) = columns city 0 (cl_ints l @ cl_cats l)"
    using ok by (simp add: columns_append criteo_ok_def)
  moreover have "length (cl_ints l @ cl_cats l) = 39" using ok by (simp add: criteo_ok_def)
  ultimately show ?thesis
    by (simp add: row_seen_def criteo_row_def criteo_seen_def value_or_1_def columns_def comp_def case_prod_unfold del: upt_rec_numeral)
qed

text \<open>
  C36: Criteo logs, for training and for testing, in files in which every line ends with exactly one line end, read in
  any number of parts with any hints for the chunk size, with any hash and with anything behind the chunks in memory: nothing
  aborts, the containers pass the checks of \<open>GetBlock\<close>, and the views of all chunks, read with \<open>operator[]\<close>, have one row per
  line, in order: the label (0 for testing), weight and values 1, and for every column that is not empty the hash divided
  by 1024 with the number of the column above it. (With further line ends, as in files with carriage returns, the parser can
  read on behind the chunk, see \<open>criteo_reads_on\<close>.)
\<close>

theorem criteo_files_parse:
  fixes uri :: string
  assumes "sized fsys (InitInputFileInfo fsys uri)" and "single_files (contents fsys (InitInputFileInfo fsys uri)) (map (criteo_text is_train) ls)"
    and "\<forall>l\<in>set ls. criteo_ok l" and "0 < nsplit"
  shows "\<exists>css blocks views rows. length css = nsplit \<and>
     (\<forall>k < nsplit. \<exists>s s'. Init LineSplitter fsys uri k nsplit new_InputSplitBase = Ok s \<and>
        all_of (NextChunk LineSplitter fsys) (HintChunkSize (h k) s) = Some (Ok (css ! k, s'))) \<and>
     all_res (map (\<lambda>c. CriteoParser_ParseNext city is_train c (behind c)) (concat css)) = Ok blocks \<and>
     mapM_res rbc_GetBlock (concat blocks) = Ok views \<and> mapM_res rows_seen views = Ok rows \<and> concat rows = map (criteo_seen city is_train) ls"
proof -
  have u: "uniform_rows (map (criteo_row city is_train) ls)" by (rule uniform_plain) (auto simp: criteo_row_def)
  have s: "map (row_seen \<circ> criteo_row city is_train) ls = map (criteo_seen city is_train) ls" using assms(3) by (simp add: criteo_seen_row)
  show ?thesis unfolding s [symmetric] by (rule criteo.files_parse [OF assms u])
qed

definition criteo_example :: CriteoLine where
  "criteo_example = \<lparr>cl_label = whole 1, cl_ints = [55] # replicate 12 [], cl_cats = replicate 25 [] @ [replicate 8 97]\<rparr>"

lemma set_tabbed: "set (tabbed ws) \<subseteq> insert 9 (\<Union> (set ` set ws))"
  by (induction ws rule: tabbed.induct) auto

lemma single_line: "t \<noteq> [] \<Longrightarrow> \<forall>c \<in> set t. \<not> is_eol c \<Longrightarrow> single_from b (t @ [10])"
proof -
  assume t: "t \<noteq> []" "\<forall>c \<in> set t. \<not> is_eol c"
  have "single_from b t" using t(2) by (induction t arbitrary: b) auto
  moreover have "\<not> is_eol (last t)" using t by simp
  ultimately show ?thesis using t(1) by (simp add: single_append)
qed

theorem criteo_files_parse_witness:
  "\<exists>css blocks views rows. length css = 2 \<and>
     all_res (map (\<lambda>c. CriteoParser_ParseNext (\<lambda>w. 5000) True c [10]) (concat css)) = Ok blocks \<and>
     mapM_res rbc_GetBlock (concat blocks) = Ok views \<and> mapM_res rows_seen views = Ok rows \<and>
     concat rows = [(1, 1, [(4, 1), (684547143360315396, 1)])]"
proof -
  let ?t = "criteo_text True criteo_example"
  have ok: "criteo_ok criteo_example" by (auto simp: criteo_ok_def criteo_example_def whole_def dec_ok_def isspace_def)
  have "set ?t \<subseteq> {49, 9, 55, 97}"
    using set_tabbed [of "cl_cats criteo_example"] by (auto simp: criteo_text_def criteo_example_def whole_def dec_text_def dchar_def split: if_splits)
  then have c: "\<forall>c \<in> set ?t. c \<noteq> 0 \<and> \<not> is_eol c" by (auto simp: is_eol_def)
  have n: "?t \<noteq> []" by (simp add: criteo_text_def)
  have f: "OpenForRead (one_file ?t) p = ?t @ [10]" for p by (simp add: one_file_def)
  have "single_files (contents (one_file ?t) (InitInputFileInfo (one_file ?t) ''x'')) [?t]"
    using one_file(2) [OF n c] single_line [OF n] c by (auto simp: single_files_def contents_def f)
  moreover have e: "columns city k (replicate n [] @ ws) = columns city (k + n) ws" for city k n ws
    by (induction n arbitrary: k) (simp_all add: columns_Cons)
  have cols: "columns (\<lambda>w. 5000) 0 (cl_ints criteo_example) = [4]" "columns (\<lambda>w. 5000) 13 (cl_cats criteo_example) = [684547143360315396]"
    using e [of _ 1 12 "[]"] by (simp_all add: criteo_example_def columns_Cons e packed_def)
  have "criteo_seen (\<lambda>w. 5000) True criteo_example = (1, 1, [(4, 1), (684547143360315396, 1)])"
    unfolding criteo_seen_row [OF ok, symmetric] criteo_row_def row_seen_def cols
    by (simp add: criteo_example_def whole_def dec_val_def value_or_1_def)
  ultimately show ?thesis
    using criteo_files_parse [of "one_file ?t" "''x''" True "[criteo_example]" 2 "\<lambda>k. 0" "\<lambda>w. 5000" "\<lambda>c. [10]"] one_file(1) [OF n c] ok by simp blast
qed

section \<open>Ids\<close>

text \<open>Features of different columns or groups have different ids: the upper ten bits are the number of the column or the group.\<close>

lemma upper_bits:
  fixes x g :: u64
  assumes "unat g < 1024"
  shows "drop_bit 54 (drop_bit 10 x OR push_bit 54 g) = g"
proof -
  have "take_bit 10 g = g" using assms by (simp add: word_unat_eq_iff unsigned_take_bit_eq take_bit_nat_eq_self)
  moreover have "drop_bit 54 (drop_bit 10 x OR push_bit 54 g) = take_bit 10 g"
    by (rule bit_word_eqI) (auto simp: bit_simps)
  ultimately show ?thesis by simp
qed

lemma criteo_column: "i < 39 \<Longrightarrow> drop_bit 54 (criteo_index city i w) = word_of_nat i"
  unfolding criteo_index_def by (rule upper_bits) (simp add: unat_of_nat)

lemma adfea_group: "unat gid < 1024 \<Longrightarrow> drop_bit 54 (adfea_index idx gid) = gid"
  unfolding adfea_index_def by (rule upper_bits)

text \<open>But features of one group whose ids differ only in the last ten bits get the same id.\<close>

lemma adfea_low_bits_lost: "n div 1024 = m div 1024 \<Longrightarrow> packed n g = packed m g" "adfea_index 5000 3 = adfea_index 5001 3"
  by (simp_all add: packed_def adfea_index_def)

section \<open>Where the parsers fail\<close>

text \<open>Line ends are skipped without looking for the end of the chunk: with a line end in memory behind it the parser leaves the chunk.\<close>

lemma criteo_reads_on: "CriteoParser_ParseNext city t [10] [10] = Err OutOfBounds"
  by (simp add: CriteoParser_ParseNext_def criteo_loop.simps is_eol_def deref_def)

text \<open>
  A line with fewer than 26 categorical columns, the last of them empty: its line end counts as an empty column, and the next line
  is read as further columns of the same example.
\<close>

lemma criteo_ints_tabs: "criteo_ints city is (replicate (length is) 9 @ r) b = Ok (r, b)"
  by (induction "is") (simp_all add: criteo_Find_def advance_def)

lemma criteo_cats_tabs: "criteo_cats city (is @ js) (replicate (length is) 9 @ r) behind b = criteo_cats city js r behind b"
  by (induction "is") simp_all

lemma criteo_short_line_joins:
  "rmap (map (\<lambda>b. (rc_label b, rc_index b))) (CriteoParser_ParseNext city False (replicate 13 9 @ [10] @ replicate 13 9 @ replicate 8 97 @ [10]) []) =
   Ok [([0], [criteo_index city 27 (replicate 8 97)])]"
proof -
  let ?w = "replicate 8 97 @ [10 :: byte]"
  have i: "criteo_ints city [0..<13] (replicate 13 9 @ 10 # replicate 13 9 @ ?w) b = Ok (10 # replicate 13 9 @ ?w, b)" for b
    using criteo_ints_tabs [of city "[0..<13]" "10 # replicate 13 9 @ ?w" b] by simp
  have u: "[0..<26] = 0 # [1..<14] @ 14 # [15..<26 :: nat]" by (simp add: upt_rec)
  have l: "criteo_cats city (14 # [15..<26]) ?w [] b = Ok ([], push_index (criteo_index city 27 (replicate 8 97)) b)" for b
    by (simp add: isspace_def deref_def is_eol_def del: upt_rec_numeral)
  have c: "criteo_cats city [0..<26] (10 # replicate 13 9 @ ?w) [] b = Ok ([], push_index (criteo_index city 27 (replicate 8 97)) b)" for b
    unfolding u using criteo_cats_tabs [of city "[1..<14]" "14 # [15..<26]" ?w "[]" b] l [of b] by (simp add: isspace_def del: upt_rec_numeral criteo_cats.simps(2)) (simp add: isspace_def del: upt_rec_numeral)
  have "replicate 13 (9 :: byte) = 9 # replicate 12 9" by (subst replicate_Suc [symmetric]) simp
  then have d: "dropWhile is_eol (replicate 13 9 @ 10 # replicate 13 9 @ ?w) = replicate 13 9 @ 10 # replicate 13 9 @ ?w" by simp
  show ?thesis
    by (simp add: CriteoParser_ParseNext_def criteo_loop.simps criteo_label_def i c d rbc_Clear_def Let_def del: upt_rec_numeral)
qed

end
