(* ===== verification/RemoteNode.thy ===== *)
theory RemoteNode
  imports FilterChain
begin

text \<open>
  Remote nodes as an executor sees them (\<open>ps-lite/src/system/remote_node.h\<close>, \<open>remote_node.cc\<close>): trackers of finished requests, and
  the members of a group ordered by their key ranges. A member is a pointer in the code and the id of a node here.
\<close>

section \<open>Trackers\<close>

type_synonym RequestTracker = "bool list"

definition rt_IsFinished :: "RequestTracker \<Rightarrow> int \<Rightarrow> bool" where
  "rt_IsFinished data ts \<longleftrightarrow> ts < 0 \<or> (int (length data) > ts \<and> data ! nat ts)"

definition rt_Finish :: "int \<Rightarrow> RequestTracker \<Rightarrow> RequestTracker res" where
  "rt_Finish ts data =
     check (ts \<ge> 0) ''ts >= 0'' (check (ts < 100000000) ''ts < 100000000''
       (let data1 = (if int (length data) \<le> ts then data @ replicate (nat (ts * 2 + 5) - length data) False else data) in
        Ok (data1[nat ts := True])))"

text \<open>A tracker is a set of timestamps.\<close>

lemma rt_Finish_inserts:
  assumes "rt_Finish ts data = Ok data'"
  shows "rt_IsFinished data' t \<longleftrightarrow> t = ts \<or> rt_IsFinished data t"
proof -
  let ?d = "if int (length data) \<le> ts then data @ replicate (nat (ts * 2 + 5) - length data) False else data"
  have ts: "0 \<le> ts" "data' = ?d[nat ts := True]"
    using assms by (simp_all add: rt_Finish_def Let_def outcome)
  have len: "nat ts < length ?d" "length data \<le> length ?d" using ts(1) by auto
  have old: "nat t < length ?d \<and> ?d ! nat t \<longleftrightarrow> nat t < length data \<and> data ! nat t" if "0 \<le> t" using that by (auto simp: nth_append)
  show ?thesis
  proof (cases "t < 0")
    case True
    then show ?thesis by (simp add: rt_IsFinished_def)
  next
    case False
    then have "rt_IsFinished data' t \<longleftrightarrow> nat t < length ?d \<and> (?d[nat ts := True]) ! nat t"
      using ts(2) by (auto simp: rt_IsFinished_def zless_nat_conj)
    also have "\<dots> \<longleftrightarrow> t = ts \<or> (nat t < length ?d \<and> ?d ! nat t)"
      using len(1) False ts(1) by (cases "nat t = nat ts") auto
    also have "\<dots> \<longleftrightarrow> t = ts \<or> rt_IsFinished data t"
      using old False by (auto simp: rt_IsFinished_def)
    finally show ?thesis .
  qed
qed

lemma rt_Finish_ok: "0 \<le> ts \<Longrightarrow> ts < 100000000 \<Longrightarrow> \<exists>data'. rt_Finish ts data = Ok data'"
  by (simp add: rt_Finish_def Let_def)

lemma rt_IsFinished_new [simp]: "rt_IsFinished [] ts \<longleftrightarrow> ts < 0"
  by (auto simp: rt_IsFinished_def)

section \<open>Nodes and groups\<close>

type_synonym NodeID = string

datatype Role = SERVER | WORKER | SCHEDULER | GROUP | UNUSED

record Node =
  n_role :: Role
  n_id :: NodeID
  n_rank :: int
  n_key :: KeyRange

record RemoteNode =
  rn_node :: Node
  rn_alive :: bool
  rn_sent :: RequestTracker
  rn_recv :: RequestTracker
  rn_group :: "NodeID list"
  rn_keys :: "KeyRange list"
  rn_filters :: NodeFilters

definition new_Node :: Node where
  "new_Node = \<lparr>n_role = SERVER, n_id = '''', n_rank = 0, n_key = \<lparr>kr_begin = 0, kr_end = 0\<rparr>\<rparr>"

definition new_RemoteNode :: RemoteNode where
  "new_RemoteNode = \<lparr>rn_node = new_Node, rn_alive = True, rn_sent = [], rn_recv = [], rn_group = [], rn_keys = [], rn_filters = Map.empty\<rparr>"

text \<open>\<open>key\<close> gives the key range of a member.\<close>

fun insert_pos :: "KeyRange \<Rightarrow> KeyRange list \<Rightarrow> nat" where
  "insert_pos kr [] = 0"
| "insert_pos kr (k # ks) = (if kr_InLeft kr k then 0 else Suc (insert_pos kr ks))"

definition insert_at :: "nat \<Rightarrow> 'a \<Rightarrow> 'a list \<Rightarrow> 'a list" where
  "insert_at pos x xs = take pos xs @ x # drop pos xs"

definition AddGroupNode :: "(NodeID \<Rightarrow> KeyRange) \<Rightarrow> NodeID \<Rightarrow> RemoteNode \<Rightarrow> RemoteNode" where
  "AddGroupNode key r g =
     (let kr = key r; pos = insert_pos kr (map key (rn_group g)) in
      g\<lparr>rn_group := insert_at pos r (rn_group g), rn_keys := insert_at pos kr (rn_keys g)\<rparr>)"

fun remove_first :: "NodeID \<Rightarrow> NodeID list \<Rightarrow> KeyRange list \<Rightarrow> NodeID list \<times> KeyRange list" where
  "remove_first r (x # xs) (k # ks) = (if x = r then (xs, ks) else (let (ys, ls) = remove_first r xs ks in (x # ys, k # ls)))"
| "remove_first r xs ks = (xs, ks)"

definition RemoveGroupNode :: "NodeID \<Rightarrow> RemoteNode \<Rightarrow> RemoteNode res" where
  "RemoveGroupNode r g =
     check (length (rn_group g) = length (rn_keys g)) ''n == keys.size()''
       (let (grp, ks) = remove_first r (rn_group g) (rn_keys g) in Ok (g\<lparr>rn_group := grp, rn_keys := ks\<rparr>))"

section \<open>Groups are ordered by their keys\<close>

text \<open>\<open>keys[i]\<close> is the range of \<open>group[i]\<close>, and the ranges are ordered by their begins.\<close>

definition group_ok :: "(NodeID \<Rightarrow> KeyRange) \<Rightarrow> RemoteNode \<Rightarrow> bool" where
  "group_ok key g \<longleftrightarrow> rn_keys g = map key (rn_group g) \<and> sorted (map kr_begin (rn_keys g)) \<and> distinct (rn_group g)"

lemma set_insert_at [simp]: "set (insert_at pos x xs) = insert x (set xs)"
  by (subst append_take_drop_id [of pos xs, symmetric], simp only: insert_at_def set_append set_simps) auto

lemma mset_insert_at: "mset (insert_at pos x xs) = add_mset x (mset xs)"
proof -
  have "mset (insert_at pos x xs) = add_mset x (mset (take pos xs @ drop pos xs))" by (simp add: insert_at_def del: append_take_drop_id)
  then show ?thesis by simp
qed

lemma distinct_insert_at: "distinct (insert_at pos x xs) \<longleftrightarrow> x \<notin> set xs \<and> distinct xs"
  using mset_eq_imp_distinct_iff [of "insert_at pos x xs" "x # xs"] by (simp add: mset_insert_at)

lemma map_insert_at: "map f (insert_at pos x xs) = insert_at pos (f x) (map f xs)"
  by (simp add: insert_at_def take_map drop_map)

lemma insert_pos_sorted:
  assumes "sorted (map kr_begin ks)"
  shows "sorted (map kr_begin (insert_at (insert_pos k ks) k ks))"
  using assms
proof (induction ks)
  case (Cons k' ks)
  show ?case
  proof (cases "kr_InLeft k k'")
    case True
    then show ?thesis using Cons.prems by (auto simp: insert_at_def kr_InLeft_def)
  next
    case False
    then have "kr_begin k' \<le> kr_begin k" by (auto simp: kr_InLeft_def)
    then show ?thesis using Cons False set_insert_at [of "insert_pos k ks" k ks] by (auto simp: insert_at_def)
  qed
qed (simp add: insert_at_def)

lemma AddGroupNode_ok:
  assumes "group_ok key g" "r \<notin> set (rn_group g)"
  shows "group_ok key (AddGroupNode key r g)" "set (rn_group (AddGroupNode key r g)) = insert r (set (rn_group g))"
  using assms insert_pos_sorted [of "rn_keys g" "key r"]
  by (auto simp: group_ok_def AddGroupNode_def Let_def map_insert_at distinct_insert_at)

lemma remove_first_map:
  assumes "distinct xs"
  shows "remove_first r xs (map f xs) = (filter (\<lambda>x. x \<noteq> r) xs, map f (filter (\<lambda>x. x \<noteq> r) xs))"
  using assms
proof (induction xs)
  case (Cons x xs)
  have "filter (\<lambda>y. y \<noteq> x) xs = xs" using Cons.prems by (auto simp: filter_id_conv)
  then show ?case using Cons by (cases "x = r") auto
qed simp

lemma RemoveGroupNode_ok:
  assumes "group_ok key g"
  shows "\<exists>g'. RemoveGroupNode r g = Ok g' \<and> group_ok key g' \<and> rn_group g' = filter (\<lambda>x. x \<noteq> r) (rn_group g) \<and>
    g' = g\<lparr>rn_group := rn_group g', rn_keys := rn_keys g'\<rparr>"
proof -
  have g: "rn_keys g = map key (rn_group g)" "sorted (map kr_begin (rn_keys g))" "distinct (rn_group g)"
    using assms by (auto simp: group_ok_def)
  have "sorted (map (\<lambda>x. kr_begin (key x)) (filter (\<lambda>x. x \<noteq> r) (rn_group g)))"
    using g(2) unfolding g(1) by (intro sorted_filter) (simp add: comp_def)
  then show ?thesis using g by (simp add: RemoveGroupNode_def remove_first_map group_ok_def comp_def)
qed

end
