(* ===== verification/Executor.thy ===== *)
theory Executor
  imports RemoteNode
begin

text \<open>
  The executor of a customer (\<open>ps-lite/src/system/executor.h\<close>, \<open>executor.cc\<close>): it keeps the remote nodes, sends requests in
  pieces to the members of a group, picks received messages whose dependencies are finished, hands them to the customer, and
  runs the callback of a request when all answers are there. The customer (\<open>ps-lite/src/ps/app.h\<close>) is an argument: how it cuts a
  message, and what it does with a request or a response. Messages handed to \<open>Postoffice::Queue\<close> and callbacks that were run are
  lists of the state; callbacks are named by numbers. Each operation holds the locks of the code from its beginning to its end.
\<close>

section \<open>Messages\<close>

record XMessage =
  x_wire :: WireMessage
  x_control :: "bool option"
  x_customer :: "int option"
  x_cmd :: "int option"
  x_time :: "int option"
  x_wait_time :: "int list"
  x_sender :: NodeID
  x_recver :: NodeID
  x_valid :: bool
  x_callback :: "nat option"

definition empty_wire :: WireMessage where
  "empty_wire = \<lparr>w_request = False, w_push = False, w_has_key = False, w_key_type = None, w_key_range = None, w_value_type = [],
     w_filter = [], w_key = [], w_value = []\<rparr>"

text \<open>\<open>Message(task)\<close>: the task of a message without data and local signals.\<close>

definition new_Message :: "XMessage \<Rightarrow> XMessage" where
  "new_Message m = m\<lparr>x_wire := (x_wire m)\<lparr>w_key := [], w_value := []\<rparr>, x_sender := '''', x_recver := '''', x_valid := True, x_callback := None\<rparr>"

definition task_time :: "XMessage \<Rightarrow> int" where
  "task_time m = (case x_time m of None \<Rightarrow> 0 | Some t \<Rightarrow> t)"

definition task_control :: "XMessage \<Rightarrow> bool" where
  "task_control m = (case x_control m of None \<Rightarrow> False | Some b \<Rightarrow> b)"

text \<open>An optional field of a response that is overwritten when the request has it.\<close>

definition copied :: "'a option \<Rightarrow> 'a option \<Rightarrow> 'a option" where
  "copied req res = (case req of None \<Rightarrow> res | Some x \<Rightarrow> Some x)"

abbreviation is_request :: "XMessage \<Rightarrow> bool" where
  "is_request m \<equiv> w_request (x_wire m)"

section \<open>The state\<close>

record ReqInfo =
  ri_recver :: NodeID
  ri_callback :: "nat option"

record 'c Executor =
  ex_id :: int
  ex_my_node :: Node
  ex_num_replicas :: int
  ex_nodes :: "NodeID \<rightharpoonup> RemoteNode"
  ex_recv_msgs :: "XMessage list"
  ex_time :: int
  ex_sent_reqs :: "int \<rightharpoonup> ReqInfo"
  ex_last_request :: "XMessage option"
  ex_last_response :: "XMessage option"
  ex_queue :: "XMessage list"
  ex_ran :: "(int \<times> nat) list"
  ex_customer :: 'c

text \<open>What the customer does. \<open>cu_request\<close> gives the reply it sends, if any, and whether the request is finished.\<close>

record 'c Customer =
  cu_slice :: "XMessage \<Rightarrow> KeyRange list \<Rightarrow> nat \<Rightarrow> WireMessage \<times> bool"
  cu_request :: "XMessage \<Rightarrow> 'c \<Rightarrow> 'c \<times> XMessage option \<times> bool"
  cu_response :: "XMessage \<Rightarrow> 'c \<Rightarrow> 'c"

definition kServerGroup :: NodeID where "kServerGroup = ''all_servers''"
definition kWorkerGroup :: NodeID where "kWorkerGroup = ''all_workers''"
definition kCompGroup :: NodeID where "kCompGroup = ''all_comp_nodes''"
definition kReplicaGroup :: NodeID where "kReplicaGroup = ''all_replicas''"
definition kOwnerGroup :: NodeID where "kOwnerGroup = ''all_owners''"
definition kLiveGroup :: NodeID where "kLiveGroup = ''all_lives''"

definition GroupIDs :: "NodeID list" where
  "GroupIDs = [kServerGroup, kWorkerGroup, kCompGroup, kReplicaGroup, kOwnerGroup, kLiveGroup]"

lemmas group_names = kServerGroup_def kWorkerGroup_def kCompGroup_def kReplicaGroup_def kOwnerGroup_def kLiveGroup_def

definition GetRNode :: "(NodeID \<rightharpoonup> RemoteNode) \<Rightarrow> NodeID \<Rightarrow> RemoteNode res" where
  "GetRNode nodes nid = (case nodes nid of None \<Rightarrow> Err (CheckFailed ''node doesn't exist'') | Some r \<Rightarrow> Ok r)"

text \<open>\<open>nodes_[id]\<close> creates a node that is not there.\<close>

definition at_node :: "NodeID \<Rightarrow> (RemoteNode \<Rightarrow> RemoteNode) \<Rightarrow> (NodeID \<rightharpoonup> RemoteNode) \<Rightarrow> (NodeID \<rightharpoonup> RemoteNode)" where
  "at_node nid f nodes = nodes(nid \<mapsto> f (case nodes nid of None \<Rightarrow> new_RemoteNode | Some r \<Rightarrow> r))"

definition key_of :: "(NodeID \<rightharpoonup> RemoteNode) \<Rightarrow> NodeID \<Rightarrow> KeyRange" where
  "key_of nodes nid = n_key (rn_node (case nodes nid of None \<Rightarrow> new_RemoteNode | Some r \<Rightarrow> r))"

section \<open>Nodes\<close>

fun remove_from :: "NodeID \<Rightarrow> NodeID list \<Rightarrow> (NodeID \<rightharpoonup> RemoteNode) \<Rightarrow> (NodeID \<rightharpoonup> RemoteNode) res" where
  "remove_from r [] nodes = Ok nodes"
| "remove_from r (gid # gids) nodes =
     rbind (RemoveGroupNode r (case nodes gid of None \<Rightarrow> new_RemoteNode | Some g \<Rightarrow> g)) (\<lambda>g. remove_from r gids (nodes(gid \<mapsto> g)))"

definition add_to :: "NodeID \<Rightarrow> NodeID \<Rightarrow> (NodeID \<rightharpoonup> RemoteNode) \<Rightarrow> (NodeID \<rightharpoonup> RemoteNode)" where
  "add_to r gid nodes = at_node gid (AddGroupNode (key_of nodes) r) nodes"

definition add_or_update :: "Node \<Rightarrow> (NodeID \<rightharpoonup> RemoteNode) \<Rightarrow> (NodeID \<rightharpoonup> RemoteNode) res" where
  "add_or_update node nodes =
     (let nid = n_id node in
      case nodes nid of
        Some r \<Rightarrow> check (rn_alive r) ''r->alive'' (remove_from nid GroupIDs (nodes(nid \<mapsto> r\<lparr>rn_node := node\<rparr>)))
      | None \<Rightarrow> Ok (nodes(nid \<mapsto> new_RemoteNode\<lparr>rn_node := node\<rparr>)))"

definition add_to_groups :: "Node \<Rightarrow> (NodeID \<rightharpoonup> RemoteNode) \<Rightarrow> (NodeID \<rightharpoonup> RemoteNode)" where
  "add_to_groups node nodes =
     (let nid = n_id node; role = n_role node;
          nodes1 = (if role \<noteq> GROUP then add_to nid kLiveGroup (add_to nid nid nodes) else nodes);
          nodes2 = (if role = SERVER then add_to nid kCompGroup (add_to nid kServerGroup nodes1) else nodes1) in
      if role = WORKER then add_to nid kCompGroup (add_to nid kWorkerGroup nodes2) else nodes2)"

text \<open>The replicas and the owners are taken from the same positions: those before the own one.\<close>

definition update_replicas :: "Node \<Rightarrow> int \<Rightarrow> (NodeID \<rightharpoonup> RemoteNode) \<Rightarrow> (NodeID \<rightharpoonup> RemoteNode)" where
  "update_replicas my num nodes =
     (let servers = (case nodes kServerGroup of None \<Rightarrow> new_RemoteNode | Some g \<Rightarrow> g);
          i = length (takeWhile (\<lambda>s. n_id (rn_node (case nodes s of None \<Rightarrow> new_RemoteNode | Some r \<Rightarrow> r)) \<noteq> n_id my) (rn_group servers)) in
      if i < length (rn_group servers) then
        let lo = nat (max (int i - num) 0);
            f = (\<lambda>g. g\<lparr>rn_group := take (i - lo) (drop lo (rn_group servers)), rn_keys := take (i - lo) (drop lo (rn_keys servers))\<rparr>) in
        at_node kOwnerGroup f (at_node kReplicaGroup f nodes)
      else nodes)"

definition ex_AddNode :: "Node \<Rightarrow> 'c Executor \<Rightarrow> 'c Executor res" where
  "ex_AddNode node e =
     (let e1 = (if n_id node = n_id (ex_my_node e) then e\<lparr>ex_my_node := node\<rparr> else e) in
      rbind (add_or_update node (ex_nodes e1)) (\<lambda>nodes.
        let nodes1 = add_to_groups node nodes in
        Ok (e1\<lparr>ex_nodes :=
          (if n_role node \<noteq> SERVER \<or> n_role (ex_my_node e1) \<noteq> SERVER \<or> ex_num_replicas e1 \<le> 0 then nodes1
           else update_replicas (ex_my_node e1) (ex_num_replicas e1) nodes1)\<rparr>)))"

definition ex_RemoveNode :: "Node \<Rightarrow> 'c Executor \<Rightarrow> 'c Executor res" where
  "ex_RemoveNode node e =
     (let nid = n_id node in
      case ex_nodes e nid of
        None \<Rightarrow> Ok e
      | Some r \<Rightarrow> rbind (remove_from nid GroupIDs (ex_nodes e)) (\<lambda>nodes. Ok (e\<lparr>ex_nodes := at_node nid (rn_alive_update (\<lambda>_. False)) nodes\<rparr>)))"

definition group_node :: "NodeID \<Rightarrow> Node" where
  "group_node nid = new_Node\<lparr>n_role := GROUP, n_id := nid\<rparr>"

fun add_nodes :: "Node list \<Rightarrow> 'c Executor \<Rightarrow> 'c Executor res" where
  "add_nodes [] e = Ok e"
| "add_nodes (n # ns) e = rbind (ex_AddNode n e) (add_nodes ns)"

definition new_Executor :: "int \<Rightarrow> Node \<Rightarrow> 'c \<Rightarrow> 'c Executor res" where
  "new_Executor cid my c =
     add_nodes (map group_node GroupIDs)
       \<lparr>ex_id = cid, ex_my_node = my, ex_num_replicas = 0, ex_nodes = Map.empty, ex_recv_msgs = [], ex_time = 0,
        ex_sent_reqs = Map.empty, ex_last_request = None, ex_last_response = None, ex_queue = [], ex_ran = [], ex_customer = c\<rparr>"

section \<open>Sending\<close>

definition finish_sent :: "int \<Rightarrow> NodeID \<Rightarrow> (NodeID \<rightharpoonup> RemoteNode) \<Rightarrow> (NodeID \<rightharpoonup> RemoteNode) res" where
  "finish_sent ts nid nodes = rbind (GetRNode nodes nid) (\<lambda>r. rbind (rt_Finish ts (rn_sent r)) (\<lambda>d. Ok (nodes(nid \<mapsto> r\<lparr>rn_sent := d\<rparr>))))"

definition finish_recv :: "int \<Rightarrow> NodeID \<Rightarrow> (NodeID \<rightharpoonup> RemoteNode) \<Rightarrow> (NodeID \<rightharpoonup> RemoteNode) res" where
  "finish_recv ts nid nodes = rbind (GetRNode nodes nid) (\<lambda>r. rbind (rt_Finish ts (rn_recv r)) (\<lambda>d. Ok (nodes(nid \<mapsto> r\<lparr>rn_recv := d\<rparr>))))"

text \<open>Encoding for a node and queueing.\<close>

definition send_to :: "Env \<Rightarrow> NodeID \<Rightarrow> XMessage \<Rightarrow> (NodeID \<rightharpoonup> RemoteNode) \<times> XMessage list \<Rightarrow> ((NodeID \<rightharpoonup> RemoteNode) \<times> XMessage list) res" where
  "send_to env nid m st =
     (let (nodes, queue) = st in
      rbind (GetRNode nodes nid) (\<lambda>r. rbind (EncodeMessage env (rn_filters r) (x_wire m)) (\<lambda>(w, fs).
        Ok (nodes(nid \<mapsto> r\<lparr>rn_filters := fs\<rparr>), queue @ [m\<lparr>x_wire := w, x_recver := n_id (rn_node r)\<rparr>]))))"

text \<open>The loop over the members of the group, with the pieces from position \<open>i\<close> on.\<close>

fun send_pieces :: "Env \<Rightarrow> int \<Rightarrow> (nat \<Rightarrow> XMessage) \<Rightarrow> nat \<Rightarrow> NodeID list \<Rightarrow> (NodeID \<rightharpoonup> RemoteNode) \<times> XMessage list \<Rightarrow>
    ((NodeID \<rightharpoonup> RemoteNode) \<times> XMessage list) res" where
  "send_pieces env ts piece i [] st = Ok st"
| "send_pieces env ts piece i (r # rs) st =
     rbind (if x_valid (piece i) then send_to env r (piece i) st else rmap (\<lambda>nodes. (nodes, snd st)) (finish_sent ts r (fst st)))
       (send_pieces env ts piece (Suc i) rs)"

definition ex_Submit :: "Env \<Rightarrow> 'c Customer \<Rightarrow> XMessage \<Rightarrow> 'c Executor \<Rightarrow> (int \<times> 'c Executor) res" where
  "ex_Submit env cu m e =
     check (x_recver m \<noteq> []) ''msg->recver.size()''
       (let ts = (case x_time m of None \<Rightarrow> ex_time e | Some t \<Rightarrow> t);
            m1 = m\<lparr>x_time := Some ts, x_wire := (x_wire m)\<lparr>w_request := True\<rparr>, x_customer := Some (ex_id e)\<rparr>;
            old = (case ex_sent_reqs e ts of None \<Rightarrow> None | Some q \<Rightarrow> ri_callback q);
            info = \<lparr>ri_recver = x_recver m, ri_callback = (case x_callback m of None \<Rightarrow> old | Some c \<Rightarrow> Some c)\<rparr>;
            e1 = e\<lparr>ex_time := ts + 1, ex_sent_reqs := (ex_sent_reqs e)(ts \<mapsto> info)\<rparr> in
        rbind (GetRNode (ex_nodes e1) (x_recver m)) (\<lambda>r.
          let piece = (\<lambda>i. let (w, v) = cu_slice cu m1 (rn_keys r) i in (new_Message m1)\<lparr>x_wire := w, x_valid := v\<rparr>) in
          check (length (rn_keys r) = length (rn_group r)) ''msgs.size() == rnode->group.size()''
            (rmap (\<lambda>(nodes, queue). (ts, e1\<lparr>ex_nodes := nodes, ex_queue := queue\<rparr>))
              (send_pieces env ts piece 0 (rn_group r) (ex_nodes e1, ex_queue e1)))))"

definition ex_Reply :: "Env \<Rightarrow> XMessage \<Rightarrow> XMessage \<Rightarrow> 'c Executor \<Rightarrow> 'c Executor res" where
  "ex_Reply env req res e =
     (if \<not> is_request req then Ok e
      else
        let res1 = res\<lparr>x_wire := (x_wire res)\<lparr>w_request := False\<rparr>, x_control := copied (x_control req) (x_control res),
                       x_customer := copied (x_customer req) (x_customer res),
                       x_cmd := (case x_cmd res of None \<Rightarrow> x_cmd req | Some c \<Rightarrow> Some c), x_time := Some (task_time req)\<rparr> in
        rmap (\<lambda>(nodes, queue). e\<lparr>ex_nodes := nodes, ex_queue := queue\<rparr>)
          (send_to env (x_sender req) res1 (ex_nodes e, ex_queue e)))"

section \<open>Receiving\<close>

definition ex_Accept :: "XMessage \<Rightarrow> 'c Executor \<Rightarrow> 'c Executor" where
  "ex_Accept m e = e\<lparr>ex_recv_msgs := ex_recv_msgs e @ [m]\<rparr>"

text \<open>
  The scan of the received messages. A message from a node that is not known yet is looked at again and again until another
  thread adds the node: \<open>Spins\<close>.
\<close>

datatype Pick = Picked XMessage | PickedNothing | Spins

definition deps_finished :: "RemoteNode \<Rightarrow> XMessage \<Rightarrow> bool" where
  "deps_finished r m \<longleftrightarrow> (\<forall>w \<in> set (x_wait_time m). w \<le> - 1 \<or> rt_IsFinished (rn_recv r) w)"

definition received_twice :: "RemoteNode \<Rightarrow> XMessage \<Rightarrow> bool" where
  "received_twice r m \<longleftrightarrow> (if is_request m then rt_IsFinished (rn_recv r) (task_time m) else rt_IsFinished (rn_sent r) (task_time m))"

fun pick_from :: "Env \<Rightarrow> (NodeID \<rightharpoonup> RemoteNode) \<Rightarrow> XMessage list \<Rightarrow> XMessage list \<Rightarrow> (Pick \<times> (NodeID \<rightharpoonup> RemoteNode) \<times> XMessage list) res" where
  "pick_from env nodes kept [] = Ok (PickedNothing, nodes, kept)"
| "pick_from env nodes kept (m # ms) =
     check (\<not> task_control m) ''!msg->task.control()''
       (case nodes (x_sender m) of
          None \<Rightarrow> Ok (Spins, nodes, kept @ m # ms)
        | Some r \<Rightarrow>
            if \<not> rn_alive r then pick_from env nodes kept ms
            else if received_twice r m then pick_from env nodes kept ms
            else if is_request m \<and> \<not> deps_finished r m then pick_from env nodes (kept @ [m]) ms
            else rbind (DecodeMessage env (rn_filters r) (x_wire m)) (\<lambda>(w, fs).
                   Ok (Picked (m\<lparr>x_wire := w\<rparr>), nodes(x_sender m \<mapsto> r\<lparr>rn_filters := fs\<rparr>), kept @ ms)))"

definition PickActiveMsg :: "Env \<Rightarrow> 'c Executor \<Rightarrow> (Pick \<times> 'c Executor) res" where
  "PickActiveMsg env e =
     rmap (\<lambda>(p, nodes, ms). (p, e\<lparr>ex_nodes := nodes, ex_recv_msgs := ms\<rparr>)) (pick_from env (ex_nodes e) [] (ex_recv_msgs e))"

fun finish_all_recv :: "int \<Rightarrow> NodeID list \<Rightarrow> (NodeID \<rightharpoonup> RemoteNode) \<Rightarrow> (NodeID \<rightharpoonup> RemoteNode) res" where
  "finish_all_recv ts [] nodes = Ok nodes"
| "finish_all_recv ts (r # rs) nodes = rbind (finish_recv ts r nodes) (finish_all_recv ts rs)"

definition FinishRecvReq :: "int \<Rightarrow> NodeID \<Rightarrow> 'c Executor \<Rightarrow> 'c Executor res" where
  "FinishRecvReq ts sender e =
     rbind (GetRNode (ex_nodes e) sender) (\<lambda>r. rbind (finish_recv ts sender (ex_nodes e)) (\<lambda>nodes.
       rmap (\<lambda>nodes. e\<lparr>ex_nodes := nodes\<rparr>)
         (if n_role (rn_node r) = GROUP then finish_all_recv ts (rn_group r) nodes else Ok nodes)))"

definition ack :: XMessage where
  "ack = \<lparr>x_wire = empty_wire, x_control = None, x_customer = None, x_cmd = None, x_time = None, x_wait_time = [], x_sender = '''', x_recver = '''',
     x_valid = True, x_callback = None\<rparr>"

definition process_request :: "Env \<Rightarrow> 'c Customer \<Rightarrow> XMessage \<Rightarrow> 'c Executor \<Rightarrow> 'c Executor res" where
  "process_request env cu m e =
     (let (c, reply, finished) = cu_request cu m (ex_customer e);
          e1 = e\<lparr>ex_last_request := Some m, ex_customer := c\<rparr> in
      rbind (case reply of None \<Rightarrow> Ok e1 | Some res \<Rightarrow> ex_Reply env m res e1) (\<lambda>e2.
        if finished then
          rbind (FinishRecvReq (task_time m) (x_sender m) e2) (\<lambda>e3. if reply = None then ex_Reply env m ack e3 else Ok e3)
        else Ok e2))"

text \<open>Whether an alive member of the group has not answered yet.\<close>

definition waits_for :: "(NodeID \<rightharpoonup> RemoteNode) \<Rightarrow> int \<Rightarrow> NodeID \<Rightarrow> bool" where
  "waits_for nodes ts nid \<longleftrightarrow> (case nodes nid of None \<Rightarrow> False | Some r \<Rightarrow> rn_alive r \<and> \<not> rt_IsFinished (rn_sent r) ts)"

definition run_callback :: "int \<Rightarrow> 'c Executor \<Rightarrow> 'c Executor" where
  "run_callback ts e =
     (case ex_sent_reqs e ts of
        None \<Rightarrow> e
      | Some q \<Rightarrow> (case ri_callback q of
          None \<Rightarrow> e
        | Some cb \<Rightarrow> e\<lparr>ex_ran := ex_ran e @ [(ts, cb)], ex_sent_reqs := (ex_sent_reqs e)(ts \<mapsto> q\<lparr>ri_callback := None\<rparr>)\<rparr>))"

definition process_response :: "'c Customer \<Rightarrow> XMessage \<Rightarrow> 'c Executor \<Rightarrow> 'c Executor res" where
  "process_response cu m e =
     (let e1 = e\<lparr>ex_last_response := Some m, ex_customer := cu_response cu m (ex_customer e)\<rparr>; ts = task_time m in
      rbind (finish_sent ts (x_sender m) (ex_nodes e1)) (\<lambda>nodes.
        let e2 = e1\<lparr>ex_nodes := nodes\<rparr> in
        (case ex_sent_reqs e2 ts of
           None \<Rightarrow> Err (CheckFailed ''it != sent_reqs_.end()'')
         | Some q \<Rightarrow>
             if ri_recver q \<noteq> x_sender m then
               rbind (GetRNode nodes (ri_recver q)) (\<lambda>g.
                 if n_role (rn_node g) = GROUP then
                   if \<exists>r \<in> set (rn_group g). waits_for nodes ts r then Ok e2
                   else rbind (finish_sent ts (ri_recver q) nodes) (\<lambda>nodes'. Ok (run_callback ts (e2\<lparr>ex_nodes := nodes'\<rparr>)))
                 else Ok (run_callback ts e2))
             else Ok (run_callback ts e2))))"

definition ProcessActiveMsg :: "Env \<Rightarrow> 'c Customer \<Rightarrow> XMessage \<Rightarrow> 'c Executor \<Rightarrow> 'c Executor res" where
  "ProcessActiveMsg env cu m e = (if is_request m then process_request env cu m e else process_response cu m e)"

section \<open>Waiting\<close>

text \<open>
  \<open>CheckFinished\<close> with its effect on the trackers of the members; \<open>WaitSentReq\<close> and \<open>WaitRecvReq\<close> evaluate it until it holds.
\<close>

definition tracker :: "bool \<Rightarrow> RemoteNode \<Rightarrow> RequestTracker" where
  "tracker sent r = (if sent then rn_sent r else rn_recv r)"

fun check_members :: "int \<Rightarrow> bool \<Rightarrow> NodeID list \<Rightarrow> (NodeID \<rightharpoonup> RemoteNode) \<Rightarrow> (bool \<times> (NodeID \<rightharpoonup> RemoteNode)) res" where
  "check_members ts sent [] nodes = Ok (True, nodes)"
| "check_members ts sent (i # is) nodes =
     rbind (GetRNode nodes i) (\<lambda>r.
       if rn_alive r \<and> \<not> rt_IsFinished (tracker sent r) ts then Ok (False, nodes)
       else rbind (if sent then finish_sent ts i nodes else finish_recv ts i nodes) (check_members ts sent is))"

definition CheckFinished :: "NodeID \<Rightarrow> int \<Rightarrow> bool \<Rightarrow> 'c Executor \<Rightarrow> (bool \<times> 'c Executor) res" where
  "CheckFinished nid ts sent e =
     rbind (GetRNode (ex_nodes e) nid) (\<lambda>r.
       if ts < 0 \<or> \<not> rn_alive r \<or> rt_IsFinished (tracker sent r) ts then Ok (True, e)
       else if n_role (rn_node r) = GROUP
       then rmap (\<lambda>(b, nodes). (b, e\<lparr>ex_nodes := nodes\<rparr>)) (check_members ts sent (rn_group r) (ex_nodes e))
       else Ok (False, e))"

definition NumFinished :: "NodeID \<Rightarrow> int \<Rightarrow> bool \<Rightarrow> 'c Executor \<Rightarrow> int res" where
  "NumFinished nid ts sent e =
     rbind (GetRNode (ex_nodes e) nid) (\<lambda>r.
       if ts < 0 \<or> \<not> rn_alive r then Ok 0
       else if n_role (rn_node r) = GROUP
       then Ok (int (length (filter (\<lambda>i. case ex_nodes e i of None \<Rightarrow> False | Some q \<Rightarrow> rn_alive q \<and> rt_IsFinished (tracker sent q) ts) (rn_group r))))
       else Ok (if rt_IsFinished (tracker sent r) ts then 1 else 0))"

definition WaitSentReq :: "int \<Rightarrow> 'c Executor \<Rightarrow> (bool \<times> 'c Executor) res" where
  "WaitSentReq ts e =
     (case ex_sent_reqs e ts of
        None \<Rightarrow> Err (CheckFailed ''recver.size()'')
      | Some q \<Rightarrow> check (ri_recver q \<noteq> []) ''recver.size()'' (CheckFinished (ri_recver q) ts True e))"

definition WaitRecvReq :: "int \<Rightarrow> NodeID \<Rightarrow> 'c Executor \<Rightarrow> (bool \<times> 'c Executor) res" where
  "WaitRecvReq ts sender e = CheckFinished sender ts False e"

definition QueryRecvReq :: "int \<Rightarrow> NodeID \<Rightarrow> 'c Executor \<Rightarrow> int res" where
  "QueryRecvReq ts sender e = NumFinished sender ts False e"

definition IncrClock :: "int \<Rightarrow> 'c Executor \<Rightarrow> int \<times> 'c Executor" where
  "IncrClock delta e = (ex_time e + delta, e\<lparr>ex_time := ex_time e + delta\<rparr>)"

section \<open>What the operations keep\<close>

lemma Encode_request: "Encode env f m = Ok (m', f') \<Longrightarrow> w_request m' = w_request m"
  by (cases f)
     (auto simp: outcome KeyCaching_Encode_def Compressing_Encode_def FixingFloat_convert_def TruncateFloat_Convert_def DeltaKey_Encode_def
      AddNoise_Encode_def Let_def split: option.splits if_splits prod.splits)

lemma Decode_request: "Decode env f m = Ok (m', f') \<Longrightarrow> w_request m' = w_request m"
  by (cases f)
     (auto simp: outcome KeyCaching_Decode_def Compressing_Decode_def FixingFloat_convert_def TruncateFloat_Convert_def DeltaKey_Decode_def
      Let_def split: option.splits if_splits)

lemma EncodeMessage_request: "EncodeMessage env fs m = Ok (m', fs') \<Longrightarrow> w_request m' = w_request m"
proof -
  have "encode_with env ts fs m = Ok (m', fs') \<Longrightarrow> w_request m' = w_request m" for ts
  proof (induction ts arbitrary: fs m)
    case (Cons t ts)
    then show ?case using Encode_request by (fastforce simp: outcome)
  qed simp
  then show "EncodeMessage env fs m = Ok (m', fs') \<Longrightarrow> w_request m' = w_request m" by (simp add: EncodeMessage_def)
qed

lemma DecodeMessage_request: "DecodeMessage env fs m = Ok (m', fs') \<Longrightarrow> w_request m' = w_request m"
proof -
  have "decode_with env ts fs m = Ok (m', fs') \<Longrightarrow> w_request m' = w_request m" for ts
  proof (induction ts arbitrary: fs m)
    case (Cons t ts)
    then show ?case using Decode_request by (fastforce simp: outcome)
  qed simp
  then show "DecodeMessage env fs m = Ok (m', fs') \<Longrightarrow> w_request m' = w_request m" by (simp add: DecodeMessage_def)
qed

type_synonym Nodes = "NodeID \<rightharpoonup> RemoteNode"

definition fin :: "(RemoteNode \<Rightarrow> RequestTracker) \<Rightarrow> Nodes \<Rightarrow> NodeID \<Rightarrow> int \<Rightarrow> bool" where
  "fin sel nodes s ts \<longleftrightarrow> (\<exists>r. nodes s = Some r \<and> rt_IsFinished (sel r) ts)"

definition live :: "Nodes \<Rightarrow> NodeID \<Rightarrow> bool" where
  "live nodes s \<longleftrightarrow> (\<exists>r. nodes s = Some r \<and> rn_alive r)"

text \<open>
  A step is quiet for a kind of tracker when no request of an alive node becomes finished by it, and no finished request is
  forgotten.
\<close>

definition quiet :: "(RemoteNode \<Rightarrow> RequestTracker) \<Rightarrow> Nodes \<Rightarrow> Nodes \<Rightarrow> bool" where
  "quiet sel nodes nodes' \<longleftrightarrow> (\<forall>s ts. fin sel nodes s ts \<longrightarrow> fin sel nodes' s ts) \<and>
     (\<forall>s ts. live nodes' s \<and> fin sel nodes' s ts \<and> 0 \<le> ts \<longrightarrow> fin sel nodes s ts \<and> live nodes s)"

lemma quiet_refl [simp]: "quiet sel nodes nodes"
  unfolding quiet_def by (simp add: fin_def live_def)

lemma quiet_trans: "quiet sel n1 n2 \<Longrightarrow> quiet sel n2 n3 \<Longrightarrow> quiet sel n1 n3"
  unfolding quiet_def by blast

lemma quiet_upd:
  assumes "nodes s = Some r" "sel r' = sel r" "rn_alive r' \<longrightarrow> rn_alive r"
  shows "quiet sel nodes (nodes(s \<mapsto> r'))"
  using assms by (auto simp: quiet_def fin_def live_def)

lemma quiet_at_node:
  assumes "\<And>r. sel (f r) = sel r" "\<And>r. rn_alive (f r) \<longrightarrow> rn_alive r" "sel new_RemoteNode = []"
  shows "quiet sel nodes (at_node s f nodes)"
  using assms by (auto simp: quiet_def fin_def live_def at_node_def split: option.split)

lemma quiet_AddGroupNode: "sel \<in> {rn_sent, rn_recv} \<Longrightarrow> quiet sel nodes (add_to r g nodes)"
  unfolding add_to_def by (rule quiet_at_node) (auto simp: AddGroupNode_def Let_def new_RemoteNode_def)

lemma quiet_remove_from:
  assumes "sel \<in> {rn_sent, rn_recv}" "remove_from r gs nodes = Ok nodes'"
  shows "quiet sel nodes nodes'"
  using assms(2)
proof (induction gs arbitrary: nodes)
  case (Cons g gs)
  let ?g = "case nodes g of None \<Rightarrow> new_RemoteNode | Some g \<Rightarrow> g"
  obtain g' where g': "RemoveGroupNode r ?g = Ok g'" "remove_from r gs (nodes(g \<mapsto> g')) = Ok nodes'"
    using Cons.prems by (auto simp: outcome)
  have "sel g' = sel ?g" "rn_alive g' = rn_alive ?g"
    using g'(1) assms(1) by (auto simp: RemoveGroupNode_def outcome split: prod.splits)
  then have "quiet sel nodes (nodes(g \<mapsto> g'))"
    using assms(1) by (auto simp: quiet_def fin_def live_def new_RemoteNode_def split: option.splits)
  then show ?case using Cons.IH [OF g'(2)] by (rule quiet_trans)
qed simp

lemma quiet_add_to_groups: "sel \<in> {rn_sent, rn_recv} \<Longrightarrow> quiet sel nodes (add_to_groups node nodes)"
  unfolding add_to_groups_def Let_def
  by (auto intro!: quiet_trans [OF quiet_AddGroupNode quiet_AddGroupNode] intro: quiet_trans [OF quiet_trans [OF quiet_AddGroupNode quiet_AddGroupNode]])

lemma quiet_update_replicas: "sel \<in> {rn_sent, rn_recv} \<Longrightarrow> quiet sel nodes (update_replicas my num nodes)"
  unfolding update_replicas_def Let_def
  by (auto intro!: quiet_trans [OF quiet_at_node quiet_at_node] simp: new_RemoteNode_def)

lemma quiet_AddNode:
  assumes "sel \<in> {rn_sent, rn_recv}" "ex_AddNode node e = Ok e'"
  shows "quiet sel (ex_nodes e) (ex_nodes e')"
proof -
  let ?e = "if n_id node = n_id (ex_my_node e) then e\<lparr>ex_my_node := node\<rparr> else e"
  obtain nodes where n: "add_or_update node (ex_nodes ?e) = Ok nodes"
      "ex_nodes e' = (if n_role node \<noteq> SERVER \<or> n_role (ex_my_node ?e) \<noteq> SERVER \<or> ex_num_replicas ?e \<le> 0 then add_to_groups node nodes
         else update_replicas (ex_my_node ?e) (ex_num_replicas ?e) (add_to_groups node nodes))"
    using assms(2) unfolding ex_AddNode_def Let_def by (auto simp: outcome simp del: if_split_asm split del: if_split)
  have "quiet sel (ex_nodes e) nodes"
  proof (cases "ex_nodes e (n_id node)")
    case None
    then show ?thesis using n(1) assms(1) by (auto simp: add_or_update_def quiet_def fin_def live_def new_RemoteNode_def Let_def split: if_splits)
  next
    case (Some r)
    then have "remove_from (n_id node) GroupIDs ((ex_nodes e)(n_id node \<mapsto> r\<lparr>rn_node := node\<rparr>)) = Ok nodes"
      using n(1) by (auto simp: add_or_update_def outcome Let_def split: if_splits)
    moreover have "quiet sel (ex_nodes e) ((ex_nodes e)(n_id node \<mapsto> r\<lparr>rn_node := node\<rparr>))"
      using assms(1) quiet_upd [of "ex_nodes e" "n_id node" r sel "r\<lparr>rn_node := node\<rparr>"] Some by auto
    ultimately show ?thesis using quiet_remove_from [OF assms(1)] by (blast intro: quiet_trans)
  qed
  then show ?thesis
    using n(2) quiet_add_to_groups [OF assms(1), of nodes node] quiet_update_replicas [OF assms(1)]
    by (auto intro: quiet_trans split: if_splits)
qed

lemma quiet_RemoveNode:
  assumes "sel \<in> {rn_sent, rn_recv}" "ex_RemoveNode node e = Ok e'"
  shows "quiet sel (ex_nodes e) (ex_nodes e')"
proof (cases "ex_nodes e (n_id node)")
  case None
  then show ?thesis using assms(2) by (simp add: ex_RemoveNode_def)
next
  case (Some r)
  then obtain nodes where n: "remove_from (n_id node) GroupIDs (ex_nodes e) = Ok nodes"
      "ex_nodes e' = at_node (n_id node) (rn_alive_update (\<lambda>_. False)) nodes"
    using assms(2) by (auto simp: ex_RemoveNode_def outcome Let_def)
  show ?thesis
    unfolding n(2) using assms(1)
    by (intro quiet_trans [OF quiet_remove_from [OF assms(1) n(1)]] quiet_at_node) (auto simp: new_RemoteNode_def)
qed

lemma finish_sent_nodes:
  assumes "finish_sent ts s nodes = Ok nodes'"
  shows "quiet rn_recv nodes nodes'" "fin rn_sent nodes' u t \<longleftrightarrow> (u = s \<and> t = ts) \<or> fin rn_sent nodes u t" "live nodes' = live nodes" "0 \<le> ts"
proof -
  obtain r d where r: "nodes s = Some r" "rt_Finish ts (rn_sent r) = Ok d" "nodes' = nodes(s \<mapsto> r\<lparr>rn_sent := d\<rparr>)"
    using assms by (auto simp: finish_sent_def GetRNode_def outcome split: option.splits)
  then show "quiet rn_recv nodes nodes'" by (auto intro: quiet_upd)
  show "fin rn_sent nodes' u t \<longleftrightarrow> (u = s \<and> t = ts) \<or> fin rn_sent nodes u t"
    using r rt_Finish_inserts [OF r(2)] by (auto simp: fin_def)
  show "live nodes' = live nodes" using r by (auto simp: live_def fun_eq_iff)
  show "0 \<le> ts" using r(2) by (auto simp: rt_Finish_def outcome)
qed

lemma finish_recv_nodes:
  assumes "finish_recv ts s nodes = Ok nodes'"
  shows "quiet rn_sent nodes nodes'" "fin rn_recv nodes' u t \<longleftrightarrow> (u = s \<and> t = ts) \<or> fin rn_recv nodes u t" "live nodes' = live nodes" "0 \<le> ts"
proof -
  obtain r d where r: "nodes s = Some r" "rt_Finish ts (rn_recv r) = Ok d" "nodes' = nodes(s \<mapsto> r\<lparr>rn_recv := d\<rparr>)"
    using assms by (auto simp: finish_recv_def GetRNode_def outcome split: option.splits)
  then show "quiet rn_sent nodes nodes'" by (auto intro: quiet_upd)
  show "fin rn_recv nodes' u t \<longleftrightarrow> (u = s \<and> t = ts) \<or> fin rn_recv nodes u t"
    using r rt_Finish_inserts [OF r(2)] by (auto simp: fin_def)
  show "live nodes' = live nodes" using r by (auto simp: live_def fun_eq_iff)
  show "0 \<le> ts" using r(2) by (auto simp: rt_Finish_def outcome)
qed

lemma send_to_nodes:
  assumes "send_to env s m (nodes, queue) = Ok (nodes', queue')"
  shows "sel \<in> {rn_sent, rn_recv} \<Longrightarrow> quiet sel nodes nodes'" "live nodes' = live nodes"
    "\<exists>r w. nodes s = Some r \<and> w_request w = is_request m \<and> queue' = queue @ [m\<lparr>x_wire := w, x_recver := n_id (rn_node r)\<rparr>]"
    "fin sel' nodes' = fin sel' nodes \<or> sel' \<notin> {rn_sent, rn_recv}"
proof -
  obtain r w fs where r: "nodes s = Some r" "EncodeMessage env (rn_filters r) (x_wire m) = Ok (w, fs)"
      "nodes' = nodes(s \<mapsto> r\<lparr>rn_filters := fs\<rparr>)" "queue' = queue @ [m\<lparr>x_wire := w, x_recver := n_id (rn_node r)\<rparr>]"
    using assms by (auto simp: send_to_def GetRNode_def outcome split: option.splits)
  then show "sel \<in> {rn_sent, rn_recv} \<Longrightarrow> quiet sel nodes nodes'" by (auto intro: quiet_upd)
  show "live nodes' = live nodes" using r by (auto simp: live_def fun_eq_iff)
  show "\<exists>r w. nodes s = Some r \<and> w_request w = is_request m \<and> queue' = queue @ [m\<lparr>x_wire := w, x_recver := n_id (rn_node r)\<rparr>]"
    using r EncodeMessage_request by blast
  show "fin sel' nodes' = fin sel' nodes \<or> sel' \<notin> {rn_sent, rn_recv}" using r by (auto simp: fin_def fun_eq_iff)
qed

lemma quiet_send_pieces:
  assumes "send_pieces env ts piece i rs st = Ok st'"
  shows "quiet rn_recv (fst st) (fst st')"
  using assms
proof (induction rs arbitrary: i st)
  case (Cons r rs)
  then obtain st1 where st1: "(if x_valid (piece i) then send_to env r (piece i) st else rmap (\<lambda>nodes. (nodes, snd st)) (finish_sent ts r (fst st))) = Ok st1"
      "send_pieces env ts piece (Suc i) rs st1 = Ok st'"
    by (auto simp: outcome)
  have "quiet rn_recv (fst st) (fst st1)"
    using st1(1) send_to_nodes(1) [of env r "piece i" "fst st" "snd st" "fst st1" "snd st1" rn_recv] finish_sent_nodes(1) [of ts r "fst st"]
    by (auto simp: outcome split: if_splits)
  then show ?case using Cons.IH [OF st1(2)] by (rule quiet_trans)
qed simp

lemma quiet_Submit: "ex_Submit env cu m e = Ok (ts, e') \<Longrightarrow> quiet rn_recv (ex_nodes e) (ex_nodes e')"
  using quiet_send_pieces by (fastforce simp: ex_Submit_def Let_def outcome)

lemma quiet_Reply:
  assumes "ex_Reply env req res e = Ok e'" "sel \<in> {rn_sent, rn_recv}"
  shows "quiet sel (ex_nodes e) (ex_nodes e')"
  using assms send_to_nodes(1) by (fastforce simp: ex_Reply_def Let_def outcome split: if_splits)

lemma quiet_mark:
  assumes "\<And>u t. fin sel nodes' u t \<longleftrightarrow> (u = s \<and> t = ts) \<or> fin sel nodes u t" "live nodes' = live nodes" "\<not> live nodes s \<or> fin sel nodes s ts"
  shows "quiet sel nodes nodes'"
  using assms by (auto simp: quiet_def)

lemma tracker_sel [simp]: "tracker True = rn_sent" "tracker False = rn_recv"
  by (auto simp: tracker_def fun_eq_iff)

lemma check_members_quiet:
  assumes "check_members ts sent is nodes = Ok (b, nodes')" "sel \<in> {rn_sent, rn_recv}"
  shows "quiet sel nodes nodes'"
  using assms(1)
proof (induction "is" arbitrary: nodes)
  case (Cons i xs)
  obtain r where r: "nodes i = Some r" using Cons.prems by (auto simp: GetRNode_def outcome split: option.splits)
  show ?case
  proof (cases "rn_alive r \<and> \<not> rt_IsFinished (tracker sent r) ts")
    case True
    then show ?thesis using Cons.prems r by (simp add: GetRNode_def)
  next
    case False
    then obtain n1 where n1: "(if sent then finish_sent ts i nodes else finish_recv ts i nodes) = Ok n1" "check_members ts sent xs n1 = Ok (b, nodes')"
      using Cons.prems r by (auto simp: GetRNode_def outcome split: if_splits)
    have dead: "\<not> live nodes i \<or> fin (tracker sent) nodes i ts" using False r by (auto simp: live_def fin_def)
    have "quiet sel nodes n1"
    proof (cases sent)
      case True
      then have f: "finish_sent ts i nodes = Ok n1" using n1(1) by simp
      then show ?thesis
        using assms(2) finish_sent_nodes(1,3) [OF f] quiet_mark [OF finish_sent_nodes(2,3) [OF f]] dead True by auto
    next
      case False
      then have f: "finish_recv ts i nodes = Ok n1" using n1(1) by simp
      then show ?thesis
        using assms(2) finish_recv_nodes(1,3) [OF f] quiet_mark [OF finish_recv_nodes(2,3) [OF f]] dead False by auto
    qed
    then show ?thesis using Cons.IH [OF n1(2)] by (rule quiet_trans)
  qed
qed simp

lemma quiet_CheckFinished:
  assumes "CheckFinished nid ts sent e = Ok (b, e')" "sel \<in> {rn_sent, rn_recv}"
  shows "quiet sel (ex_nodes e) (ex_nodes e')"
  using assms check_members_quiet by (fastforce simp: CheckFinished_def outcome split: if_splits)

text \<open>Apart from adding and removing nodes, the operations leave the nodes, their groups and whether they are alive.\<close>

definition facts :: "RemoteNode \<Rightarrow> Node \<times> bool \<times> NodeID list \<times> KeyRange list" where
  "facts r = (rn_node r, rn_alive r, rn_group r, rn_keys r)"

definition shape :: "Nodes \<Rightarrow> Nodes \<Rightarrow> bool" where
  "shape nodes nodes' \<longleftrightarrow> (\<forall>s. map_option facts (nodes' s) = map_option facts (nodes s))"

lemma shape_refl [simp]: "shape nodes nodes"
  by (simp add: shape_def)

lemma shape_trans: "shape n1 n2 \<Longrightarrow> shape n2 n3 \<Longrightarrow> shape n1 n3"
  by (simp add: shape_def)

lemma shape_upd: "nodes s = Some r \<Longrightarrow> facts r' = facts r \<Longrightarrow> shape nodes (nodes(s \<mapsto> r'))"
  by (simp add: shape_def)

lemma shape_at: "shape nodes nodes' \<Longrightarrow> nodes' s = Some r' \<Longrightarrow> \<exists>r. nodes s = Some r \<and> facts r = facts r'"
  unfolding shape_def by (metis map_option_eq_Some)

lemma shape_live: "shape nodes nodes' \<Longrightarrow> live nodes' = live nodes"
proof -
  assume sh: "shape nodes nodes'"
  have "map_option rn_alive (nodes' s) = map_option rn_alive (nodes s)" for s
  proof -
    have "map_option (fst \<circ> snd) (map_option facts (nodes' s)) = map_option (fst \<circ> snd) (map_option facts (nodes s))"
      using sh by (simp only: shape_def)
    then show ?thesis by (simp add: option.map_comp comp_def facts_def)
  qed
  then show "live nodes' = live nodes" by (auto simp: live_def fun_eq_iff) (metis map_option_eq_Some)+
qed

lemma finish_sent_shape: "finish_sent ts s nodes = Ok nodes' \<Longrightarrow> shape nodes nodes'"
  by (auto simp: finish_sent_def GetRNode_def outcome facts_def split: option.splits intro: shape_upd)

lemma finish_recv_shape: "finish_recv ts s nodes = Ok nodes' \<Longrightarrow> shape nodes nodes'"
  by (auto simp: finish_recv_def GetRNode_def outcome facts_def split: option.splits intro: shape_upd)

lemma send_to_shape: "send_to env s m st = Ok st' \<Longrightarrow> shape (fst st) (fst st')"
  by (auto simp: send_to_def GetRNode_def outcome facts_def split: option.splits prod.splits intro!: shape_upd)

lemma send_pieces_shape: "send_pieces env ts piece i rs st = Ok st' \<Longrightarrow> shape (fst st) (fst st')"
proof (induction rs arbitrary: i st)
  case (Cons r rs)
  then obtain st1 where st1: "(if x_valid (piece i) then send_to env r (piece i) st else rmap (\<lambda>nodes. (nodes, snd st)) (finish_sent ts r (fst st))) = Ok st1"
      "send_pieces env ts piece (Suc i) rs st1 = Ok st'"
    by (auto simp: outcome)
  have "shape (fst st) (fst st1)"
    using st1(1) send_to_shape finish_sent_shape by (auto simp: outcome split: if_splits)
  then show ?case using Cons.IH [OF st1(2)] by (rule shape_trans)
qed simp

lemma Submit_shape: "ex_Submit env cu m e = Ok (ts, e') \<Longrightarrow> shape (ex_nodes e) (ex_nodes e')"
  using send_pieces_shape by (fastforce simp: ex_Submit_def Let_def outcome)

lemma Reply_shape: "ex_Reply env req res e = Ok e' \<Longrightarrow> shape (ex_nodes e) (ex_nodes e')"
  using send_to_shape by (fastforce simp: ex_Reply_def Let_def outcome split: if_splits)

lemma finish_all_recv_shape: "finish_all_recv ts rs nodes = Ok nodes' \<Longrightarrow> shape nodes nodes'"
proof (induction rs arbitrary: nodes)
  case (Cons r rs)
  then show ?case by (auto simp: outcome intro: shape_trans dest: finish_recv_shape)
qed simp

lemma FinishRecvReq_shape: "FinishRecvReq ts s e = Ok e' \<Longrightarrow> shape (ex_nodes e) (ex_nodes e')"
  by (auto simp: FinishRecvReq_def outcome split: if_splits dest!: finish_recv_shape finish_all_recv_shape intro: shape_trans)

lemma process_request_cases:
  assumes "process_request env cu m e = Ok e'"
  obtains c reply finished e2 where "cu_request cu m (ex_customer e) = (c, reply, finished)"
    "reply = None \<Longrightarrow> e2 = e\<lparr>ex_last_request := Some m, ex_customer := c\<rparr>"
    "reply \<noteq> None \<Longrightarrow> ex_Reply env m (the reply) (e\<lparr>ex_last_request := Some m, ex_customer := c\<rparr>) = Ok e2"
    "\<not> finished \<Longrightarrow> e' = e2"
    "finished \<Longrightarrow> \<exists>e3. FinishRecvReq (task_time m) (x_sender m) e2 = Ok e3 \<and> (if reply = None then ex_Reply env m ack e3 = Ok e' else e' = e3)"
proof -
  obtain c reply finished where cu: "cu_request cu m (ex_customer e) = (c, reply, finished)" by (cases "cu_request cu m (ex_customer e)")
  let ?e1 = "e\<lparr>ex_last_request := Some m, ex_customer := c\<rparr>"
  obtain e2 where e2: "(case reply of None \<Rightarrow> Ok ?e1 | Some res \<Rightarrow> ex_Reply env m res ?e1) = Ok e2"
      "(if finished then rbind (FinishRecvReq (task_time m) (x_sender m) e2) (\<lambda>e3. if reply = None then ex_Reply env m ack e3 else Ok e3) else Ok e2) = Ok e'"
    using assms cu by (auto simp: process_request_def Let_def rbind_Ok_iff)
  show thesis
    by (rule that [OF cu, of e2]) (use e2 in \<open>auto simp: rbind_Ok_iff split: option.splits if_splits\<close>)
qed

text \<open>Processing a request is a sequence of replies and marks.\<close>

lemma process_request_rel:
  assumes "process_request env cu m e = Ok e'" "\<And>a. R a a" "\<And>a b c. R a b \<Longrightarrow> R b c \<Longrightarrow> R a c"
    "\<And>c. R e (e\<lparr>ex_last_request := Some m, ex_customer := c\<rparr>)" "\<And>a b r. ex_Reply env m r a = Ok b \<Longrightarrow> R a b"
    "\<And>a b. FinishRecvReq (task_time m) (x_sender m) a = Ok b \<Longrightarrow> R a b"
  shows "R e e'"
  using assms(1)
proof (cases rule: process_request_cases)
  case (1 c reply finished e2)
  have "R e e2"
  proof (cases "reply = None")
    case True
    then show ?thesis using 1(2) assms(4) by simp
  next
    case False
    then show ?thesis using assms(3) [OF assms(4) assms(5)] 1(3) by blast
  qed
  moreover have "R e2 e'"
  proof (cases finished)
    case True
    then obtain e3 where e3: "FinishRecvReq (task_time m) (x_sender m) e2 = Ok e3" "if reply = None then ex_Reply env m ack e3 = Ok e' else e' = e3"
      using 1(5) by blast
    then have "R e3 e'" using assms(2,5) by (cases "reply = None") auto
    then show ?thesis using assms(3) [OF assms(6) [OF e3(1)]] by blast
  next
    case False
    then show ?thesis using 1(4) assms(2) by simp
  qed
  ultimately show ?thesis by (rule assms(3))
qed

lemma process_request_shape: "process_request env cu m e = Ok e' \<Longrightarrow> shape (ex_nodes e) (ex_nodes e')"
  by (erule process_request_rel [where R = "\<lambda>a b. shape (ex_nodes a) (ex_nodes b)"])
     (auto dest: FinishRecvReq_shape Reply_shape intro: shape_trans)

lemma run_callback_nodes [simp]: "ex_nodes (run_callback ts e) = ex_nodes e" "ex_queue (run_callback ts e) = ex_queue e"
    "ex_recv_msgs (run_callback ts e) = ex_recv_msgs e" "ex_time (run_callback ts e) = ex_time e"
  by (simp_all add: run_callback_def split: option.split)

text \<open>The callback is run unless the request went to a group with an alive member that has not answered.\<close>

lemma process_response_cases:
  assumes "process_response cu m e = Ok e'"
  obtains nodes q where "finish_sent (task_time m) (x_sender m) (ex_nodes e) = Ok nodes" "ex_sent_reqs e (task_time m) = Some q"
    "\<exists>g. nodes (ri_recver q) = Some g \<and> ri_recver q \<noteq> x_sender m \<and> n_role (rn_node g) = GROUP \<and> (\<exists>r \<in> set (rn_group g). waits_for nodes (task_time m) r) \<and>
        e' = e\<lparr>ex_last_response := Some m, ex_customer := cu_response cu m (ex_customer e), ex_nodes := nodes\<rparr>"
  | nodes q nodes' where "finish_sent (task_time m) (x_sender m) (ex_nodes e) = Ok nodes" "ex_sent_reqs e (task_time m) = Some q"
    "ri_recver q \<noteq> x_sender m \<Longrightarrow> (\<exists>g. nodes (ri_recver q) = Some g \<and> (n_role (rn_node g) \<noteq> GROUP \<or>
        (\<forall>r \<in> set (rn_group g). \<not> waits_for nodes (task_time m) r)))"
    "nodes' = nodes \<or> (\<exists>g. nodes (ri_recver q) = Some g \<and> n_role (rn_node g) = GROUP \<and> finish_sent (task_time m) (ri_recver q) nodes = Ok nodes')"
    "e' = run_callback (task_time m) (e\<lparr>ex_last_response := Some m, ex_customer := cu_response cu m (ex_customer e), ex_nodes := nodes'\<rparr>)"
proof -
  obtain nodes where n: "finish_sent (task_time m) (x_sender m) (ex_nodes e) = Ok nodes"
    using assms by (auto simp: process_response_def outcome Let_def)
  obtain q where q: "ex_sent_reqs e (task_time m) = Some q"
    using assms n by (cases "ex_sent_reqs e (task_time m)") (simp_all add: process_response_def Let_def)
  show thesis
  proof (cases "ri_recver q = x_sender m")
    case True
    then show ?thesis using that(2) [of nodes q nodes] assms n q by (simp add: process_response_def Let_def)
  next
    case False
    then obtain g where g: "nodes (ri_recver q) = Some g"
      using assms n q by (cases "nodes (ri_recver q)") (simp_all add: process_response_def Let_def GetRNode_def)
    show ?thesis
    proof (cases "n_role (rn_node g) = GROUP \<and> (\<forall>r \<in> set (rn_group g). \<not> waits_for nodes (task_time m) r)")
      case True
      then obtain n' where n': "finish_sent (task_time m) (ri_recver q) nodes = Ok n'"
          "e' = run_callback (task_time m) (e\<lparr>ex_last_response := Some m, ex_customer := cu_response cu m (ex_customer e), ex_nodes := n'\<rparr>)"
        using assms n q g False by (auto simp: process_response_def Let_def GetRNode_def outcome)
      show ?thesis using that(2) [OF n q _ _ n'(2)] g True n'(1) by auto
    next
      case no: False
      show ?thesis
      proof (cases "n_role (rn_node g) = GROUP")
        case True
        then show ?thesis using that(1) [OF n q] no assms n q g False by (auto simp: process_response_def Let_def GetRNode_def)
      next
        case nog: False
        then show ?thesis using that(2) [of nodes q nodes] assms n q g False by (auto simp: process_response_def Let_def GetRNode_def)
      qed
    qed
  qed
qed

lemma process_response_shape:
  assumes "process_response cu m e = Ok e'"
  shows "shape (ex_nodes e) (ex_nodes e')"
  using assms
proof (cases rule: process_response_cases)
  case (1 nodes q)
  then show ?thesis using finish_sent_shape by auto
next
  case (2 nodes q nodes')
  then have "shape (ex_nodes e) nodes" "shape nodes nodes'" using finish_sent_shape by auto
  then show ?thesis using 2(5) by (auto intro: shape_trans)
qed

lemma check_members_shape: "check_members ts sent xs nodes = Ok (b, nodes') \<Longrightarrow> shape nodes nodes'"
proof (induction xs arbitrary: nodes)
  case (Cons x xs)
  then show ?case
    by (auto simp: outcome split: if_splits intro: shape_trans dest: finish_sent_shape finish_recv_shape)
qed simp

lemma CheckFinished_shape: "CheckFinished nid ts sent e = Ok (b, e') \<Longrightarrow> shape (ex_nodes e) (ex_nodes e')"
  using check_members_shape by (fastforce simp: CheckFinished_def outcome split: if_splits)

text \<open>What is known of a message that is picked.\<close>

lemma fin_upd: "nodes s = Some r \<Longrightarrow> sel r' = sel r \<Longrightarrow> fin sel (nodes(s \<mapsto> r')) = fin sel nodes"
  by (auto simp: fin_def fun_eq_iff)

lemma pick_from_facts:
  assumes "pick_from env nodes kept ms = Ok (p, nodes', ms')"
  shows "shape nodes nodes'" "sel \<in> {rn_sent, rn_recv} \<Longrightarrow> fin sel nodes' = fin sel nodes" "set ms' \<subseteq> set kept \<union> set ms"
    "p = Picked m \<Longrightarrow> \<exists>m0 r. m0 \<in> set ms \<and> nodes (x_sender m) = Some r \<and> rn_alive r \<and> \<not> received_twice r m \<and>
      (is_request m \<longrightarrow> deps_finished r m) \<and> x_sender m0 = x_sender m \<and> is_request m0 = is_request m \<and> x_time m0 = x_time m"
  using assms
proof (induction ms arbitrary: kept)
  case Nil
  {
    case 1
    then show ?case by simp
  next
    case 2
    then show ?case by simp
  next
    case 3
    then show ?case by simp
  next
    case 4
    then show ?case by simp
  }
next
  case (Cons x xs)
  have P: "(\<exists>kept'. pick_from env nodes kept' xs = Ok (p, nodes', ms') \<and> set kept' \<subseteq> set kept \<union> {x}) \<or>
      (p = Spins \<and> nodes' = nodes \<and> ms' = kept @ x # xs) \<or>
      (\<exists>r w fs. nodes (x_sender x) = Some r \<and> rn_alive r \<and> \<not> received_twice r x \<and> (is_request x \<longrightarrow> deps_finished r x) \<and>
        DecodeMessage env (rn_filters r) (x_wire x) = Ok (w, fs) \<and> p = Picked (x\<lparr>x_wire := w\<rparr>) \<and>
        nodes' = nodes(x_sender x \<mapsto> r\<lparr>rn_filters := fs\<rparr>) \<and> ms' = kept @ xs)"
    if "pick_from env nodes kept (x # xs) = Ok (p, nodes', ms')" for kept
    using that by (auto simp: outcome split: option.splits if_splits)
  {
    case 1
    then show ?case using P [OF 1] Cons.IH(1) by (auto simp: facts_def intro: shape_upd)
  next
    case 2
    from P [OF 2(2)] show ?case
    proof (elim disjE exE conjE)
      fix kept' assume "pick_from env nodes kept' xs = Ok (p, nodes', ms')"
      then show ?thesis using Cons.IH(2) [OF 2(1)] by blast
    next
      fix r w fs assume "nodes (x_sender x) = Some r" "nodes' = nodes(x_sender x \<mapsto> r\<lparr>rn_filters := fs\<rparr>)"
      then show ?thesis using 2(1) fin_upd [of nodes "x_sender x" r sel "r\<lparr>rn_filters := fs\<rparr>"] by (auto simp: fun_upd_def)
    qed simp
  next
    case 3
    then show ?case using P [OF 3] Cons.IH(3) by fastforce
  next
    case 4
    from P [OF 4(2)] show ?case
    proof (elim disjE exE conjE)
      fix kept' assume "pick_from env nodes kept' xs = Ok (p, nodes', ms')"
      then show ?thesis using Cons.IH(4) [OF 4(1)] by fastforce
    next
      assume "p = Spins"
      then show ?thesis using 4(1) by simp
    next
      fix r w fs
      assume "nodes (x_sender x) = Some r" "rn_alive r" "\<not> received_twice r x" "is_request x \<longrightarrow> deps_finished r x"
        and w: "DecodeMessage env (rn_filters r) (x_wire x) = Ok (w, fs)" and p: "p = Picked (x\<lparr>x_wire := w\<rparr>)"
      moreover have "w_request w = is_request x" using DecodeMessage_request [OF w] .
      ultimately show ?thesis using 4(1)
        by (intro exI [of _ x] exI [of _ r]) (auto simp: received_twice_def deps_finished_def task_time_def)
    qed
  }
qed

end
