(* ===== verification/ExecutorRuns.thy ===== *)
theory ExecutorRuns
  imports Executor
begin

text \<open>
  Runs of an executor as a step relation: the program submits requests and waits, the network delivers messages, nodes are
  added and removed, and the thread of the executor picks and processes messages. In every run requests are handed to the
  customer once and after the requests they wait for.
\<close>

section \<open>Steps\<close>

datatype Event = Sent int | Handled NodeID int "int list" | Answered NodeID int | Internal

text \<open>
  The environment: senders are no groups, a node answers only requests that were sent to it, and a node is added once. Calls of
  \<open>FinishReceivedRequest\<close> by the program, which mark requests as finished that were never received, are not part of the runs.
\<close>

inductive exec_step :: "Env \<Rightarrow> 'c Customer \<Rightarrow> 'c Executor \<Rightarrow> Event \<Rightarrow> 'c Executor \<Rightarrow> bool" for env cu where
  submit: "x_time m = None \<Longrightarrow> ex_Submit env cu m e = Ok (ts, e') \<Longrightarrow> exec_step env cu e (Sent ts) e'"
| accept: "x_sender m \<notin> set GroupIDs \<Longrightarrow>
    is_request m \<or> (\<exists>q \<in> set (ex_queue e). is_request q \<and> x_recver q = x_sender m \<and> x_time q = Some (task_time m)) \<Longrightarrow>
    exec_step env cu e Internal (ex_Accept m e)"
| request: "PickActiveMsg env e = Ok (Picked m, e1) \<Longrightarrow> is_request m \<Longrightarrow> ProcessActiveMsg env cu m e1 = Ok e2 \<Longrightarrow>
    exec_step env cu e (Handled (x_sender m) (task_time m) (x_wait_time m)) e2"
| response: "PickActiveMsg env e = Ok (Picked m, e1) \<Longrightarrow> \<not> is_request m \<Longrightarrow> ProcessActiveMsg env cu m e1 = Ok e2 \<Longrightarrow>
    exec_step env cu e (Answered (x_sender m) (task_time m)) e2"
| idle: "PickActiveMsg env e = Ok (p, e1) \<Longrightarrow> p = PickedNothing \<or> p = Spins \<Longrightarrow> exec_step env cu e Internal e1"
| add: "ex_nodes e (n_id node) = None \<Longrightarrow> n_role node \<noteq> GROUP \<Longrightarrow> ex_AddNode node e = Ok e' \<Longrightarrow> exec_step env cu e Internal e'"
| remove: "n_id node \<notin> set GroupIDs \<Longrightarrow> ex_RemoveNode node e = Ok e' \<Longrightarrow> exec_step env cu e Internal e'"
| wait: "CheckFinished nid ts sent e = Ok (b, e') \<Longrightarrow> exec_step env cu e Internal e'"

inductive exec_run :: "Env \<Rightarrow> 'c Customer \<Rightarrow> Event list \<Rightarrow> 'c Executor \<Rightarrow> bool" for env cu where
  start: "new_Executor cid my c = Ok e \<Longrightarrow> exec_run env cu [] e"
| step: "exec_run env cu evs e \<Longrightarrow> exec_step env cu e ev e' \<Longrightarrow> exec_run env cu (evs @ [ev]) e'"

section \<open>Which nodes are groups\<close>

definition no_groups :: "'c Executor \<Rightarrow> bool" where
  "no_groups e \<longleftrightarrow> set GroupIDs \<subseteq> dom (ex_nodes e) \<and>
     (\<forall>s r. ex_nodes e s = Some r \<longrightarrow> n_id (rn_node r) = s \<and> (n_role (rn_node r) = GROUP \<longleftrightarrow> s \<in> set GroupIDs)) \<and>
     (\<forall>m \<in> set (ex_recv_msgs e). x_sender m \<notin> set GroupIDs)"

lemma add_group_node:
  assumes "ex_nodes e nid = None"
  shows "\<exists>my. ex_AddNode (group_node nid) e = Ok (e\<lparr>ex_my_node := my, ex_nodes := (ex_nodes e)(nid \<mapsto> new_RemoteNode\<lparr>rn_node := group_node nid\<rparr>)\<rparr>)"
  using assms
  by (intro exI [of _ "if nid = n_id (ex_my_node e) then group_node nid else ex_my_node e"])
     (auto simp: ex_AddNode_def add_or_update_def add_to_groups_def group_node_def Let_def)

lemma add_nodes_groups:
  assumes "distinct gs" "\<forall>g \<in> set gs. ex_nodes e g = None"
  shows "\<exists>my. add_nodes (map group_node gs) e =
    Ok (e\<lparr>ex_my_node := my, ex_nodes := (\<lambda>s. if s \<in> set gs then Some (new_RemoteNode\<lparr>rn_node := group_node s\<rparr>) else ex_nodes e s)\<rparr>)"
  using assms
proof (induction gs arbitrary: e)
  case Nil
  show ?case by (intro exI [of _ "ex_my_node e"]) simp
next
  case (Cons g gs)
  obtain my1 where a: "ex_AddNode (group_node g) e = Ok (e\<lparr>ex_my_node := my1, ex_nodes := (ex_nodes e)(g \<mapsto> new_RemoteNode\<lparr>rn_node := group_node g\<rparr>)\<rparr>)"
    (is "_ = Ok ?e1") using add_group_node [of e g] Cons.prems by auto
  have "\<exists>my. add_nodes (map group_node gs) ?e1 =
      Ok (?e1\<lparr>ex_my_node := my, ex_nodes := (\<lambda>s. if s \<in> set gs then Some (new_RemoteNode\<lparr>rn_node := group_node s\<rparr>) else ex_nodes ?e1 s)\<rparr>)"
    using Cons.prems by (intro Cons.IH) auto
  moreover have "(\<lambda>s. if s \<in> set gs then Some (new_RemoteNode\<lparr>rn_node := group_node s\<rparr>) else ex_nodes ?e1 s) =
      (\<lambda>s. if s \<in> set (g # gs) then Some (new_RemoteNode\<lparr>rn_node := group_node s\<rparr>) else ex_nodes e s)"
    by (auto simp: fun_eq_iff)
  ultimately show ?case using a by auto
qed

lemma distinct_GroupIDs: "distinct GroupIDs"
  by (simp add: GroupIDs_def group_names)

lemma new_Executor_ok:
  "\<exists>my'. new_Executor cid my c = Ok \<lparr>ex_id = cid, ex_my_node = my', ex_num_replicas = 0,
     ex_nodes = (\<lambda>s. if s \<in> set GroupIDs then Some (new_RemoteNode\<lparr>rn_node := group_node s\<rparr>) else None), ex_recv_msgs = [], ex_time = 0,
     ex_sent_reqs = Map.empty, ex_last_request = None, ex_last_response = None, ex_queue = [], ex_ran = [], ex_customer = c\<rparr>"
  using add_nodes_groups [OF distinct_GroupIDs, of "\<lparr>ex_id = cid, ex_my_node = my, ex_num_replicas = 0, ex_nodes = Map.empty, ex_recv_msgs = [], ex_time = 0,
      ex_sent_reqs = Map.empty, ex_last_request = None, ex_last_response = None, ex_queue = [], ex_ran = [], ex_customer = c\<rparr>"]
  by (simp add: new_Executor_def cong: if_cong)

lemma new_Executor_state:
  assumes "new_Executor cid my c = Ok e"
  shows "ex_nodes e = (\<lambda>s. if s \<in> set GroupIDs then Some (new_RemoteNode\<lparr>rn_node := group_node s\<rparr>) else None)"
    "ex_recv_msgs e = []" "ex_queue e = []" "ex_ran e = []" "ex_sent_reqs e = Map.empty" "ex_time e = 0" "ex_num_replicas e = 0"
  using assms new_Executor_ok [of cid my c] by auto

definition names :: "Nodes \<Rightarrow> NodeID \<Rightarrow> Node option" where
  "names nodes s = map_option rn_node (nodes s)"

lemma names_dom: "s \<in> dom nodes \<longleftrightarrow> names nodes s \<noteq> None"
  by (auto simp: names_def)

lemma names_at_node:
  assumes "\<And>r. rn_node (f r) = rn_node r" "names nodes s \<noteq> None"
  shows "names (at_node s f nodes) = names nodes"
  using assms by (auto simp: names_def at_node_def fun_eq_iff)

lemma names_add_to: "names nodes g \<noteq> None \<Longrightarrow> names (add_to r g nodes) = names nodes"
  unfolding add_to_def by (rule names_at_node) (auto simp: AddGroupNode_def Let_def)

lemma names_remove_from:
  assumes "remove_from r gs nodes = Ok nodes'" "\<forall>g \<in> set gs. names nodes g \<noteq> None"
  shows "names nodes' = names nodes"
  using assms
proof (induction gs arbitrary: nodes)
  case (Cons g gs)
  obtain q where q: "nodes g = Some q" using Cons.prems(2) by (auto simp: names_def)
  obtain g' where g': "RemoveGroupNode r q = Ok g'" "remove_from r gs (nodes(g \<mapsto> g')) = Ok nodes'"
    using Cons.prems(1) q by (auto simp: outcome)
  have "rn_node g' = rn_node q" using g'(1) by (auto simp: RemoveGroupNode_def outcome split: prod.splits)
  then have n: "names (nodes(g \<mapsto> g')) = names nodes" using q by (auto simp: names_def fun_eq_iff)
  have "\<forall>h \<in> set gs. names (nodes(g \<mapsto> g')) h \<noteq> None" unfolding n using Cons.prems(2) by simp
  from Cons.IH [OF g'(2) this] n show ?case by (rule trans)
qed simp

lemma groups_in: "kServerGroup \<in> set GroupIDs" "kWorkerGroup \<in> set GroupIDs" "kCompGroup \<in> set GroupIDs"
    "kReplicaGroup \<in> set GroupIDs" "kOwnerGroup \<in> set GroupIDs" "kLiveGroup \<in> set GroupIDs"
  by (simp_all add: GroupIDs_def)

lemma names_add_to_groups:
  assumes "\<forall>g \<in> set GroupIDs. names nodes g \<noteq> None" "names nodes (n_id node) \<noteq> None"
  shows "names (add_to_groups node nodes) = names nodes"
  using assms by (simp add: add_to_groups_def Let_def names_add_to groups_in)

lemma names_update_replicas:
  assumes "\<forall>g \<in> set GroupIDs. names nodes g \<noteq> None"
  shows "names (update_replicas my num nodes) = names nodes"
  using assms by (simp add: update_replicas_def Let_def names_at_node groups_in)

text \<open>A node that is not known yet is added without being removed from groups first.\<close>

lemma AddNode_new:
  assumes "ex_AddNode node e = Ok e'" "ex_nodes e (n_id node) = None"
  shows "\<exists>my. e' = e\<lparr>ex_my_node := my, ex_nodes := ex_nodes e'\<rparr> \<and>
    (let nodes = add_to_groups node ((ex_nodes e)(n_id node \<mapsto> new_RemoteNode\<lparr>rn_node := node\<rparr>)) in
     ex_nodes e' = nodes \<or> ex_nodes e' = update_replicas my (ex_num_replicas e) nodes)"
  using assms
  by (intro exI [of _ "if n_id node = n_id (ex_my_node e) then node else ex_my_node e"])
     (auto simp: ex_AddNode_def add_or_update_def Let_def split: if_splits)

lemma no_groups_names:
  "no_groups e \<longleftrightarrow> (\<forall>g \<in> set GroupIDs. names (ex_nodes e) g \<noteq> None) \<and>
     (\<forall>s n. names (ex_nodes e) s = Some n \<longrightarrow> n_id n = s \<and> (n_role n = GROUP \<longleftrightarrow> s \<in> set GroupIDs)) \<and>
     (\<forall>m \<in> set (ex_recv_msgs e). x_sender m \<notin> set GroupIDs)"
  unfolding no_groups_def names_def by blast

lemma shape_names: "shape nodes nodes' \<Longrightarrow> names nodes' = names nodes"
proof
  fix s assume "shape nodes nodes'"
  then have "map_option fst (map_option facts (nodes' s)) = map_option fst (map_option facts (nodes s))" by (simp only: shape_def)
  then show "names nodes' s = names nodes s" by (simp add: names_def option.map_comp comp_def facts_def)
qed

lemma recv_msgs_kept:
  "ex_Submit env cu m e = Ok (ts, e') \<Longrightarrow> ex_recv_msgs e' = ex_recv_msgs e"
  "ex_Reply env q r e = Ok e' \<Longrightarrow> ex_recv_msgs e' = ex_recv_msgs e"
  "FinishRecvReq t s e = Ok e' \<Longrightarrow> ex_recv_msgs e' = ex_recv_msgs e"
  "CheckFinished i t b e = Ok (b', e') \<Longrightarrow> ex_recv_msgs e' = ex_recv_msgs e"
  "ex_RemoveNode node e = Ok e' \<Longrightarrow> ex_recv_msgs e' = ex_recv_msgs e"
  by (auto simp: ex_Submit_def ex_Reply_def FinishRecvReq_def CheckFinished_def ex_RemoveNode_def Let_def outcome split: if_splits option.splits)

lemma process_request_msgs: "process_request env cu m e = Ok e' \<Longrightarrow> ex_recv_msgs e' = ex_recv_msgs e"
  by (erule process_request_rel [where R = "\<lambda>a b. ex_recv_msgs b = ex_recv_msgs a"]) (auto dest: recv_msgs_kept(2,3))

lemma process_response_msgs: "process_response cu m e = Ok e' \<Longrightarrow> ex_recv_msgs e' = ex_recv_msgs e"
  by (erule process_response_cases) auto

lemma PickActiveMsg_facts:
  assumes "PickActiveMsg env e = Ok (p, e1)"
  shows "shape (ex_nodes e) (ex_nodes e1)" "sel \<in> {rn_sent, rn_recv} \<Longrightarrow> fin sel (ex_nodes e1) = fin sel (ex_nodes e)"
    "set (ex_recv_msgs e1) \<subseteq> set (ex_recv_msgs e)" "e1 = e\<lparr>ex_nodes := ex_nodes e1, ex_recv_msgs := ex_recv_msgs e1\<rparr>"
    "p = Picked m \<Longrightarrow> \<exists>m0 r. m0 \<in> set (ex_recv_msgs e) \<and> ex_nodes e (x_sender m) = Some r \<and> rn_alive r \<and> \<not> received_twice r m \<and>
      (is_request m \<longrightarrow> deps_finished r m) \<and> x_sender m0 = x_sender m \<and> is_request m0 = is_request m \<and> x_time m0 = x_time m"
  using assms pick_from_facts [of env "ex_nodes e" "[]" "ex_recv_msgs e" p] by (auto simp: PickActiveMsg_def outcome)

lemma no_groups_keep:
  assumes "no_groups e" "names (ex_nodes e') = names (ex_nodes e)" "set (ex_recv_msgs e') \<subseteq> set (ex_recv_msgs e)"
  shows "no_groups e'"
  using assms unfolding no_groups_names by auto

lemma ProcessActiveMsg_frame:
  assumes "ProcessActiveMsg env cu m e = Ok e'"
  shows "shape (ex_nodes e) (ex_nodes e')" "ex_recv_msgs e' = ex_recv_msgs e"
  using assms process_request_shape process_response_shape process_request_msgs process_response_msgs
  by (auto simp: ProcessActiveMsg_def split: if_splits)

lemma no_groups_picked:
  assumes "no_groups e" "PickActiveMsg env e = Ok (p, e1)" "ProcessActiveMsg env cu m e1 = Ok e2"
  shows "no_groups e1" "no_groups e2"
proof -
  show n: "no_groups e1"
    using PickActiveMsg_facts(3) [OF assms(2)] by (rule no_groups_keep [OF assms(1) shape_names [OF PickActiveMsg_facts(1) [OF assms(2)]]])
  show "no_groups e2"
    using no_groups_keep [OF n shape_names [OF ProcessActiveMsg_frame(1) [OF assms(3)]]] ProcessActiveMsg_frame(2) [OF assms(3)] by simp
qed

lemma no_groups_step:
  assumes "no_groups e" "exec_step env cu e ev e'"
  shows "no_groups e'"
  using assms(2)
proof cases
  case (submit m ts)
  show ?thesis using no_groups_keep [OF assms(1) shape_names [OF Submit_shape [OF submit(3)]]] recv_msgs_kept(1) [OF submit(3)] by simp
next
  case (accept m)
  then show ?thesis using assms(1) by (auto simp: no_groups_names ex_Accept_def)
next
  case (request m e1)
  show ?thesis using no_groups_picked(2) [OF assms(1) request(2,4)] .
next
  case (response m e1)
  show ?thesis using no_groups_picked(2) [OF assms(1) response(2,4)] .
next
  case (idle p)
  show ?thesis
    using PickActiveMsg_facts(3) [OF idle(2)] by (rule no_groups_keep [OF assms(1) shape_names [OF PickActiveMsg_facts(1) [OF idle(2)]]])
next
  case (add node)
  let ?n = "(ex_nodes e)(n_id node \<mapsto> new_RemoteNode\<lparr>rn_node := node\<rparr>)"
  have g: "\<forall>g \<in> set GroupIDs. names ?n g \<noteq> None" "names ?n (n_id node) \<noteq> None"
    using assms(1) by (auto simp: no_groups_names names_def)
  then have "names (ex_nodes e') = names ?n" "ex_recv_msgs e' = ex_recv_msgs e"
    using AddNode_new [OF add(4,2)] names_add_to_groups [OF g] names_update_replicas [of "add_to_groups node ?n"] by (auto simp: Let_def)
  moreover have "n_id node \<notin> set GroupIDs" using add(2) assms(1) by (auto simp: no_groups_names names_def)
  ultimately show ?thesis using assms(1) add(3) by (auto simp: no_groups_names names_def)
next
  case (remove node)
  show ?thesis
  proof (cases "ex_nodes e (n_id node)")
    case None
    then show ?thesis using assms(1) remove(3) by (simp add: ex_RemoveNode_def)
  next
    case (Some r)
    then obtain nodes where n: "remove_from (n_id node) GroupIDs (ex_nodes e) = Ok nodes"
        "ex_nodes e' = at_node (n_id node) (rn_alive_update (\<lambda>_. False)) nodes"
      using remove(3) by (auto simp: ex_RemoveNode_def outcome Let_def)
    have "names nodes = names (ex_nodes e)" using names_remove_from [OF n(1)] assms(1) by (auto simp: no_groups_names)
    moreover from this have "names (ex_nodes e') = names nodes"
      unfolding n(2) by (intro names_at_node) (use Some in \<open>auto simp: names_def\<close>)
    ultimately show ?thesis using assms(1) recv_msgs_kept(5) [OF remove(3)] by (simp add: no_groups_names)
  qed
next
  case (wait nid ts sent b)
  show ?thesis using no_groups_keep [OF assms(1) shape_names [OF CheckFinished_shape [OF wait(2)]]] recv_msgs_kept(4) [OF wait(2)] by simp
qed

lemma no_groups_run: "exec_run env cu evs e \<Longrightarrow> no_groups e"
proof (induction rule: exec_run.induct)
  case (start cid my c e)
  show ?case using new_Executor_state [OF start] by (auto simp: no_groups_def group_node_def)
next
  case (step evs e ev e')
  then show ?case by (auto intro: no_groups_step)
qed

section \<open>Requests are handled once and in order\<close>

text \<open>A customer that is finished with a request when it has processed it.\<close>

definition finishes :: "'c Customer \<Rightarrow> bool" where
  "finishes cu \<longleftrightarrow> (\<forall>m c. snd (snd (cu_request cu m c)))"

definition handled :: "Event list \<Rightarrow> (NodeID \<times> int) set" where
  "handled evs = {(s, t). \<exists>ws. Handled s t ws \<in> set evs}"

lemma handled_nth: "(s, t) \<in> handled evs \<longleftrightarrow> (\<exists>j < length evs. \<exists>ws. evs ! j = Handled s t ws)"
  by (auto simp: handled_def in_set_conv_nth)

definition recv_inv :: "Event list \<Rightarrow> 'c Executor \<Rightarrow> bool" where
  "recv_inv evs e \<longleftrightarrow> (\<forall>s t. (s, t) \<in> handled evs \<longrightarrow> fin rn_recv (ex_nodes e) s t) \<and>
     (\<forall>s t. live (ex_nodes e) s \<and> 0 \<le> t \<and> fin rn_recv (ex_nodes e) s t \<longrightarrow> (s, t) \<in> handled evs)"

lemma recv_inv_quiet:
  "recv_inv evs e \<Longrightarrow> quiet rn_recv (ex_nodes e) (ex_nodes e') \<Longrightarrow> handled evs' = handled evs \<Longrightarrow> recv_inv evs' e'"
  unfolding recv_inv_def quiet_def by blast

lemma Reply_fin: "ex_Reply env q r e = Ok e' \<Longrightarrow> sel \<in> {rn_sent, rn_recv} \<Longrightarrow> fin sel (ex_nodes e') = fin sel (ex_nodes e)"
  by (auto simp: ex_Reply_def Let_def outcome dest!: send_to_nodes(4) [where sel' = sel] split: if_splits)

lemma FinishRecvReq_fin:
  assumes "FinishRecvReq ts s e = Ok e'" "\<forall>r. ex_nodes e s = Some r \<longrightarrow> n_role (rn_node r) \<noteq> GROUP"
  shows "fin rn_recv (ex_nodes e') u t \<longleftrightarrow> (u = s \<and> t = ts) \<or> fin rn_recv (ex_nodes e) u t"
proof -
  obtain r where r: "ex_nodes e s = Some r" using assms(1) by (auto simp: FinishRecvReq_def GetRNode_def outcome split: option.splits)
  then have "finish_recv ts s (ex_nodes e) = Ok (ex_nodes e')"
    using assms by (auto simp: FinishRecvReq_def GetRNode_def outcome)
  then show ?thesis by (rule finish_recv_nodes(2))
qed

lemma no_groups_role: "no_groups e \<Longrightarrow> s \<notin> set GroupIDs \<Longrightarrow> ex_nodes e s = Some r \<Longrightarrow> n_role (rn_node r) \<noteq> GROUP"
  by (auto simp: no_groups_def)

lemma process_request_recv:
  assumes "process_request env cu m e = Ok e'" "finishes cu" "no_groups e" "x_sender m \<notin> set GroupIDs"
  shows "fin rn_recv (ex_nodes e') u t \<longleftrightarrow> (u = x_sender m \<and> t = task_time m) \<or> fin rn_recv (ex_nodes e) u t"
  using assms(1)
proof (cases rule: process_request_cases)
  case (1 c reply finished e2)
  have finished using 1(1) assms(2) unfolding finishes_def by (metis snd_conv)
  then obtain e3 where e3: "FinishRecvReq (task_time m) (x_sender m) e2 = Ok e3" "if reply = None then ex_Reply env m ack e3 = Ok e' else e' = e3"
    using 1(5) by blast
  have e2: "fin rn_recv (ex_nodes e2) = fin rn_recv (ex_nodes e) \<and> names (ex_nodes e2) = names (ex_nodes e)"
  proof (cases "reply = None")
    case True
    then show ?thesis using 1(2) by simp
  next
    case False
    from Reply_fin [OF 1(3) [OF False], of rn_recv] shape_names [OF Reply_shape [OF 1(3) [OF False]]] show ?thesis by simp
  qed
  have "n_role (rn_node r) \<noteq> GROUP" if "ex_nodes e2 (x_sender m) = Some r" for r
  proof -
    have "names (ex_nodes e) (x_sender m) = Some (rn_node r)" using e2 that by (metis names_def option.simps(9))
    then show ?thesis using assms(3,4) unfolding no_groups_names by blast
  qed
  then have "fin rn_recv (ex_nodes e3) u t \<longleftrightarrow> (u = x_sender m \<and> t = task_time m) \<or> fin rn_recv (ex_nodes e2) u t"
    using FinishRecvReq_fin [OF e3(1)] by blast
  moreover have "fin rn_recv (ex_nodes e') = fin rn_recv (ex_nodes e3)"
    using e3(2) Reply_fin [of env m ack e3 e' rn_recv] by (cases "reply = None") auto
  ultimately show ?thesis using e2 by simp
qed

lemma live_shape: "shape n n' \<Longrightarrow> live n' s = live n s"
  by (simp add: shape_live)

text \<open>The request that is handled is new, and what it waits for has been handled.\<close>

lemma request_step:
  assumes "recv_inv evs e" "no_groups e" "finishes cu" "PickActiveMsg env e = Ok (Picked m, e1)" "is_request m" "ProcessActiveMsg env cu m e1 = Ok e2"
  shows "recv_inv (evs @ [Handled (x_sender m) (task_time m) (x_wait_time m)]) e2" "(x_sender m, task_time m) \<notin> handled evs"
    "\<forall>w \<in> set (x_wait_time m). 0 \<le> w \<longrightarrow> (x_sender m, w) \<in> handled evs"
proof -
  let ?s = "x_sender m" and ?t = "task_time m"
  obtain m0 r where p: "m0 \<in> set (ex_recv_msgs e)" "x_sender m0 = ?s" "ex_nodes e ?s = Some r" "rn_alive r" "\<not> received_twice r m" "deps_finished r m"
    using PickActiveMsg_facts(5) [OF assms(4) refl] assms(5) by blast
  have s: "?s \<notin> set GroupIDs" using p(1,2) assms(2) by (auto simp: no_groups_def)
  have new: "\<not> fin rn_recv (ex_nodes e) ?s ?t" "0 \<le> ?t"
    using p(3,5) assms(5) by (auto simp: fin_def received_twice_def rt_IsFinished_def)
  have live: "live (ex_nodes e) ?s" using p(3,4) by (auto simp: live_def)
  show "(?s, ?t) \<notin> handled evs" using assms(1) new(1) by (auto simp: recv_inv_def)
  have "fin rn_recv (ex_nodes e) ?s w" if "w \<in> set (x_wait_time m)" "0 \<le> w" for w
  proof -
    have "rt_IsFinished (rn_recv r) w" using p(6) that unfolding deps_finished_def by fastforce
    then show ?thesis using p(3) by (auto simp: fin_def)
  qed
  then show "\<forall>w \<in> set (x_wait_time m). 0 \<le> w \<longrightarrow> (?s, w) \<in> handled evs"
    using assms(1) live by (simp add: recv_inv_def)
  have f1: "fin rn_recv (ex_nodes e1) = fin rn_recv (ex_nodes e)" using PickActiveMsg_facts(2) [OF assms(4), of rn_recv] by simp
  have "process_request env cu m e1 = Ok e2" using assms(5,6) by (simp add: ProcessActiveMsg_def)
  from process_request_recv [OF this assms(3) no_groups_picked(1) [OF assms(2,4,6)] s]
  have f2: "fin rn_recv (ex_nodes e2) u t \<longleftrightarrow> (u = ?s \<and> t = ?t) \<or> fin rn_recv (ex_nodes e) u t" for u t by (simp add: f1)
  have "live (ex_nodes e2) = live (ex_nodes e)"
    using shape_live [OF shape_trans [OF PickActiveMsg_facts(1) [OF assms(4)] ProcessActiveMsg_frame(1) [OF assms(6)]]] .
  moreover have "handled (evs @ [Handled ?s ?t (x_wait_time m)]) = insert (?s, ?t) (handled evs)" by (auto simp: handled_def)
  ultimately show "recv_inv (evs @ [Handled ?s ?t (x_wait_time m)]) e2"
    using assms(1) f2 unfolding recv_inv_def by (metis insert_iff prod.inject)
qed

text \<open>The other steps finish no received request of an alive node.\<close>

lemma process_response_recv: "process_response cu m e = Ok e' \<Longrightarrow> quiet rn_recv (ex_nodes e) (ex_nodes e')"
  by (erule process_response_cases) (auto dest!: finish_sent_nodes(1) intro: quiet_trans)

lemma other_step_recv:
  assumes "exec_step env cu e ev e'" "\<forall>s t ws. ev \<noteq> Handled s t ws"
  shows "quiet rn_recv (ex_nodes e) (ex_nodes e')"
  using assms(1)
proof cases
  case (submit m ts)
  then show ?thesis by (auto intro: quiet_Submit)
next
  case (accept m)
  then show ?thesis by (simp add: ex_Accept_def)
next
  case (request m e1)
  then show ?thesis using assms(2) by simp
next
  case (response m e1)
  have "fin rn_recv (ex_nodes e1) = fin rn_recv (ex_nodes e)" "live (ex_nodes e1) = live (ex_nodes e)"
    using PickActiveMsg_facts(1,2) [OF response(2)] shape_live by auto
  then have "quiet rn_recv (ex_nodes e) (ex_nodes e1)" by (simp add: quiet_def)
  moreover have "quiet rn_recv (ex_nodes e1) (ex_nodes e')"
    using response(3,4) process_response_recv by (simp add: ProcessActiveMsg_def)
  ultimately show ?thesis by (rule quiet_trans)
next
  case (idle p)
  then have "fin rn_recv (ex_nodes e') = fin rn_recv (ex_nodes e)" "live (ex_nodes e') = live (ex_nodes e)"
    using PickActiveMsg_facts(1,2) [OF idle(2)] shape_live by auto
  then show ?thesis by (simp add: quiet_def)
next
  case (add node)
  then show ?thesis by (auto intro: quiet_AddNode)
next
  case (remove node)
  then show ?thesis by (auto intro: quiet_RemoveNode)
next
  case (wait nid ts sent b)
  then show ?thesis by (auto intro: quiet_CheckFinished)
qed

lemma recv_inv_run: "exec_run env cu evs e \<Longrightarrow> finishes cu \<Longrightarrow> recv_inv evs e"
proof (induction rule: exec_run.induct)
  case (start cid my c e)
  then show ?case using new_Executor_state(1) [OF start(1)]
    by (auto simp: recv_inv_def handled_def fin_def new_RemoteNode_def split: if_splits)
next
  case (step evs e ev e')
  then have inv: "recv_inv evs e" "no_groups e" using no_groups_run by auto
  show ?case
  proof (cases "\<exists>s t ws. ev = Handled s t ws")
    case True
    from step.hyps(2) show ?thesis
    proof cases
      case (request m e1)
      then show ?thesis using request_step(1) [OF inv step.prems request(2-4)] by simp
    qed (use True in auto)
  next
    case False
    then have "handled (evs @ [ev]) = handled evs" by (auto simp: handled_def)
    then show ?thesis using recv_inv_quiet [OF inv(1) other_step_recv [OF step.hyps(2)]] False by blast
  qed
qed

text \<open>
  C9: In every run each request of a node is handed to the customer at most once, and only after every request of that node
  it waits for has been handed over: with messages arriving in any order and more than once, nodes joining, once each, and leaving, and
  other requests and answers in between. The customer finishes the requests it processes.
\<close>

theorem requests_once_in_order:
  assumes "exec_run env cu evs e" "finishes cu"
  shows "i < length evs \<Longrightarrow> evs ! i = Handled s t ws \<Longrightarrow>
    (\<forall>j < i. \<forall>ws'. evs ! j \<noteq> Handled s t ws') \<and> (\<forall>w \<in> set ws. 0 \<le> w \<longrightarrow> (\<exists>j < i. \<exists>ws'. evs ! j = Handled s w ws'))"
  using assms
proof (induction arbitrary: i s t ws rule: exec_run.induct)
  case (step evs e ev e')
  show ?case
  proof (cases "i < length evs")
    case True
    then have "evs ! i = Handled s t ws" "\<forall>j < i. (evs @ [ev]) ! j = evs ! j" using step.prems(2) by (auto simp: nth_append)
    then show ?thesis using step.IH [OF True _ step.prems(3), of s t ws] by metis
  next
    case False
    then have i: "i = length evs" "ev = Handled s t ws" using step.prems(1,2) by (auto simp: nth_append less_Suc_eq)
    have inv: "recv_inv evs e" "no_groups e" using recv_inv_run [OF step.hyps(1) step.prems(3)] no_groups_run [OF step.hyps(1)] .
    from step.hyps(2) have "(s, t) \<notin> handled evs" "\<forall>w \<in> set ws. 0 \<le> w \<longrightarrow> (s, w) \<in> handled evs"
      unfolding i(2) by (cases; use request_step(2,3) [OF inv step.prems(3)] in blast)+
    moreover have "\<forall>j < i. (evs @ [ev]) ! j = evs ! j" using i(1) by (simp add: nth_append)
    ultimately show ?thesis unfolding handled_nth i(1) [symmetric] by metis
  qed
qed simp

definition test_request :: "int \<Rightarrow> int list \<Rightarrow> XMessage" where
  "test_request t ws = ack\<lparr>x_wire := empty_wire\<lparr>w_request := True\<rparr>, x_time := Some t, x_wait_time := ws, x_sender := ''W0''\<rparr>"

lemma test_request_sel [simp]: "x_sender (test_request t ws) = ''W0''" "x_wait_time (test_request t ws) = ws" "task_time (test_request t ws) = t"
    "is_request (test_request t ws)" "''W0'' \<notin> set GroupIDs"
  by (simp_all add: test_request_def ack_def empty_wire_def task_time_def GroupIDs_def group_names)

definition test_customer :: "unit Customer" where
  "test_customer = \<lparr>cu_slice = (\<lambda>m ks i. (x_wire m, True)), cu_request = (\<lambda>m c. (c, None, True)), cu_response = (\<lambda>m c. c)\<rparr>"

definition test_node :: "NodeID \<Rightarrow> Role \<Rightarrow> Node" where
  "test_node nid role = new_Node\<lparr>n_id := nid, n_role := role\<rparr>"


lemma add_to_apply: "add_to r g nodes s = (if s = g then Some (AddGroupNode (key_of nodes) r (case nodes g of None \<Rightarrow> new_RemoteNode | Some q \<Rightarrow> q)) else nodes s)"
  by (simp add: add_to_def at_node_def)

lemma AddGroupNode_keeps [simp]: "rn_node (AddGroupNode k r g) = rn_node g" "rn_alive (AddGroupNode k r g) = rn_alive g" "rn_sent (AddGroupNode k r g) = rn_sent g"
    "rn_recv (AddGroupNode k r g) = rn_recv g" "rn_filters (AddGroupNode k r g) = rn_filters g"
  by (simp_all add: AddGroupNode_def Let_def)

lemma test_start:
  "\<exists>e r. exec_run test_env test_customer [Internal] e \<and> ex_recv_msgs e = [] \<and> ex_nodes e ''W0'' = Some r \<and> rn_alive r \<and> rn_recv r = [] \<and>
     rn_filters r = Map.empty \<and> n_role (rn_node r) = WORKER \<and> ex_customer e = ()"
proof -
  obtain e0 where e0: "new_Executor 0 (test_node ''S0'' SERVER) () = Ok e0" using new_Executor_ok [of 0 "test_node ''S0'' SERVER" "()"] by blast
  have w: "ex_nodes e0 ''W0'' = None" by (simp add: new_Executor_state(1) [OF e0] GroupIDs_def group_names)
  then have "\<exists>e1. ex_AddNode (test_node ''W0'' WORKER) e0 = Ok e1 \<and>
      ex_nodes e1 = add_to_groups (test_node ''W0'' WORKER) ((ex_nodes e0)(''W0'' \<mapsto> new_RemoteNode\<lparr>rn_node := test_node ''W0'' WORKER\<rparr>)) \<and>
      ex_recv_msgs e1 = ex_recv_msgs e0"
    by (cases "''W0'' = n_id (ex_my_node e0)") (simp_all add: ex_AddNode_def add_or_update_def test_node_def Let_def)
  then obtain e1 where e1: "ex_AddNode (test_node ''W0'' WORKER) e0 = Ok e1"
      "ex_nodes e1 = add_to_groups (test_node ''W0'' WORKER) ((ex_nodes e0)(''W0'' \<mapsto> new_RemoteNode\<lparr>rn_node := test_node ''W0'' WORKER\<rparr>))"
      "ex_recv_msgs e1 = ex_recv_msgs e0"
    by blast
  have "exec_run test_env test_customer ([] @ [Internal]) e1"
    by (rule exec_run.step [OF exec_run.start [OF e0] exec_step.add [OF _ _ e1(1)]]) (simp_all add: test_node_def w)
  moreover have "\<exists>r. ex_nodes e1 ''W0'' = Some r \<and> rn_alive r \<and> rn_recv r = [] \<and> rn_filters r = Map.empty \<and> n_role (rn_node r) = WORKER"
    unfolding e1(2) by (simp add: add_to_groups_def test_node_def Let_def add_to_apply group_names new_RemoteNode_def)
  ultimately show ?thesis using e1(3) new_Executor_state(2) [OF e0] by auto
qed


abbreviation idle_node :: "RequestTracker \<Rightarrow> RemoteNode \<Rightarrow> bool" where
  "idle_node d r \<equiv> rn_alive r \<and> rn_recv r = d \<and> rn_filters r = Map.empty \<and> n_role (rn_node r) = WORKER"

lemma test_process:
  assumes "ex_nodes e ''W0'' = Some r" "idle_node d r" "rt_Finish t d = Ok d'"
  shows "\<exists>e' r'. ProcessActiveMsg test_env test_customer (test_request t ws) e = Ok e' \<and> ex_recv_msgs e' = ex_recv_msgs e \<and>
    ex_nodes e' ''W0'' = Some r' \<and> idle_node d' r'"
  using assms
  by (auto simp: ProcessActiveMsg_def test_request_def ack_def empty_wire_def process_request_def test_customer_def FinishRecvReq_def finish_recv_def
      GetRNode_def ex_Reply_def send_to_def EncodeMessage_def task_time_def Let_def)

lemma test_pick:
  assumes "nodes ''W0'' = Some r" "idle_node d r" 
  shows "pick_from test_env nodes kept (test_request t ws # ms) =
    (if rt_IsFinished d t then pick_from test_env nodes kept ms
     else if \<forall>w \<in> set ws. w \<le> - 1 \<or> rt_IsFinished d w then Ok (Picked (test_request t ws), nodes, kept @ ms)
     else pick_from test_env nodes (kept @ [test_request t ws]) ms)"
  using assms
  by (auto simp: test_request_def ack_def empty_wire_def received_twice_def deps_finished_def task_time_def task_control_def DecodeMessage_def)

theorem requests_once_in_order_witness:
  "\<exists>evs e. exec_run test_env test_customer evs e \<and> length evs = 5 \<and> evs ! 4 = Handled ''W0'' 1 [0] \<and>
    (\<forall>j < 4. \<forall>ws. evs ! j \<noteq> Handled ''W0'' 1 ws) \<and> (\<exists>j < 4. \<exists>ws. evs ! j = Handled ''W0'' 0 ws)"
proof -
  let ?m0 = "test_request 0 []" and ?m1 = "test_request 1 [0]"
  obtain e1 r1 where r1: "exec_run test_env test_customer [Internal] e1" "ex_recv_msgs e1 = []" "ex_nodes e1 ''W0'' = Some r1" "idle_node [] r1"
    using test_start by blast
  let ?e3 = "ex_Accept ?m0 (ex_Accept ?m1 e1)"
  have r3: "exec_run test_env test_customer [Internal, Internal, Internal] ?e3"
    using exec_run.step [OF exec_run.step [OF r1(1) exec_step.accept] exec_step.accept, of ?m1 ?m0] by simp
  have "PickActiveMsg test_env ?e3 = Ok (Picked ?m0, ?e3\<lparr>ex_nodes := ex_nodes e1, ex_recv_msgs := [?m1]\<rparr>)" (is "_ = Ok (_, ?e4)")
    using r1(2-4) by (simp add: PickActiveMsg_def ex_Accept_def test_pick del: pick_from.simps(2))
  moreover obtain d1 where d1: "rt_Finish 0 [] = Ok d1" using rt_Finish_ok [of 0 "[]"] by auto
  moreover obtain e5 r5 where r5: "ProcessActiveMsg test_env test_customer ?m0 ?e4 = Ok e5" "ex_recv_msgs e5 = [?m1]"
      "ex_nodes e5 ''W0'' = Some r5" "idle_node d1 r5"
    using test_process [of ?e4 r1 "[]" 0 d1 "[]"] r1(3,4) d1 by auto
  ultimately have r5': "exec_run test_env test_customer [Internal, Internal, Internal, Handled ''W0'' 0 []] e5"
    using exec_run.step [OF r3 exec_step.request] by fastforce
  have f: "rt_IsFinished d1 0" "\<not> rt_IsFinished d1 1" using rt_Finish_inserts [OF d1] by auto
  obtain d2 where d2: "rt_Finish 1 d1 = Ok d2" using rt_Finish_ok [of 1 d1] by auto
  have "PickActiveMsg test_env e5 = Ok (Picked ?m1, e5\<lparr>ex_nodes := ex_nodes e5, ex_recv_msgs := []\<rparr>)" (is "_ = Ok (_, ?e6)")
    using r5(2-4) f by (simp add: PickActiveMsg_def test_pick del: pick_from.simps(2))
  moreover obtain e7 where "ProcessActiveMsg test_env test_customer ?m1 ?e6 = Ok e7"
    using test_process [of ?e6 r5 d1 1 d2 "[0]"] r5(3,4) d2 by auto
  ultimately have "exec_run test_env test_customer [Internal, Internal, Internal, Handled ''W0'' 0 [], Handled ''W0'' 1 [0]] e7"
    using exec_run.step [OF r5' exec_step.request] by fastforce
  moreover have "finishes test_customer" by (simp add: finishes_def test_customer_def)
  ultimately show ?thesis
    using requests_once_in_order [of test_env test_customer _ e7 4 "''W0''" 1 "[0]"] by fastforce
qed

end
