(* ===== verification/NodeGroups.thy ===== *)
theory NodeGroups
  imports ExecutorRuns
begin

text \<open>
  The groups of an executor in every run: members are known nodes, once each, with their key ranges in order, and every node is
  the only member of its own group, also when nodes are added again with another role or key range. The checks of
  \<open>RemoveGroupNode\<close> and \<open>Submit\<close> on the sizes of a group never fail.
\<close>

section \<open>Groups of nodes\<close>

definition grp :: "Nodes \<Rightarrow> NodeID \<Rightarrow> NodeID list" where
  "grp nodes g = (case nodes g of None \<Rightarrow> [] | Some r \<Rightarrow> rn_group r)"

definition struct_inv :: "'c Executor \<Rightarrow> bool" where
  "struct_inv e \<longleftrightarrow> no_groups e \<and> ex_num_replicas e = 0 \<and>
     (\<forall>g. distinct (grp (ex_nodes e) g) \<and> set (grp (ex_nodes e) g) \<subseteq> dom (ex_nodes e) - set GroupIDs) \<and>
     (\<forall>s \<in> dom (ex_nodes e) - set GroupIDs. grp (ex_nodes e) s = [s])"

definition base_inv :: "'c Executor \<Rightarrow> bool" where
  "base_inv e \<longleftrightarrow> no_groups e \<and> ex_num_replicas e = 0"

lemma struct_base: "struct_inv e \<Longrightarrow> base_inv e"
  by (simp add: struct_inv_def base_inv_def)

lemma grp_add_to:
  "\<exists>pos. grp (add_to r g nodes) = (grp nodes)(g := insert_at pos r (grp nodes g))"
  by (rule exI [of _ "insert_pos (key_of nodes r) (map (key_of nodes) (grp nodes g))"])
     (auto simp: grp_def add_to_def at_node_def AddGroupNode_def new_RemoteNode_def Let_def fun_eq_iff split: option.split)

text \<open>Adding a node that is in no group puts it into some of them, once.\<close>

definition grows :: "NodeID \<Rightarrow> (NodeID \<Rightarrow> NodeID list) \<Rightarrow> (NodeID \<Rightarrow> NodeID list) \<Rightarrow> bool" where
  "grows r g g' \<longleftrightarrow> (\<forall>h. mset (g' h) = mset (g h) \<or> mset (g' h) = add_mset r (mset (g h)))"

lemma grows_add_to_groups:
  assumes "n_id node \<notin> set GroupIDs" "n_role node \<noteq> GROUP"
  shows "grows (n_id node) (grp nodes) (grp (add_to_groups node nodes))"
    "mset (grp (add_to_groups node nodes) (n_id node)) = add_mset (n_id node) (mset (grp nodes (n_id node)))"
    "\<And>h. h \<notin> set GroupIDs \<Longrightarrow> h \<noteq> n_id node \<Longrightarrow> grp (add_to_groups node nodes) h = grp nodes h"
proof -
  let ?r = "n_id node"
  have ne: "?r \<noteq> kLiveGroup" "?r \<noteq> kCompGroup" "?r \<noteq> kServerGroup" "?r \<noteq> kWorkerGroup" using assms(1) groups_in by auto
  have gn: "kLiveGroup \<noteq> kCompGroup" "kLiveGroup \<noteq> kServerGroup" "kLiveGroup \<noteq> kWorkerGroup" "kCompGroup \<noteq> kServerGroup" "kCompGroup \<noteq> kWorkerGroup"
    by (simp_all add: group_names)
  obtain p1 where p1: "grp (add_to ?r ?r nodes) = (grp nodes)(?r := insert_at p1 ?r (grp nodes ?r))" using grp_add_to by blast
  let ?n1 = "add_to ?r ?r nodes"
  obtain p2 where p2: "grp (add_to ?r kLiveGroup ?n1) = (grp ?n1)(kLiveGroup := insert_at p2 ?r (grp ?n1 kLiveGroup))" using grp_add_to by blast
  let ?n2 = "add_to ?r kLiveGroup ?n1"
  have n2: "grows ?r (grp nodes) (grp ?n2) \<and> mset (grp ?n2 ?r) = add_mset ?r (mset (grp nodes ?r)) \<and> (\<forall>h. h \<notin> set GroupIDs \<longrightarrow> h \<noteq> ?r \<longrightarrow> grp ?n2 h = grp nodes h) \<and>
      (\<forall>h \<in> {kServerGroup, kWorkerGroup, kCompGroup}. grp ?n2 h = grp nodes h)"
    unfolding p2 p1 using ne gn groups_in by (auto simp: grows_def mset_insert_at)
  have more: "grows ?r (grp nodes) (grp (add_to ?r kCompGroup (add_to ?r g ?n2))) \<and> mset (grp (add_to ?r kCompGroup (add_to ?r g ?n2)) ?r) = add_mset ?r (mset (grp nodes ?r)) \<and>
      (\<forall>h. h \<notin> set GroupIDs \<longrightarrow> h \<noteq> ?r \<longrightarrow> grp (add_to ?r kCompGroup (add_to ?r g ?n2)) h = grp nodes h)"
    if g: "g = kServerGroup \<or> g = kWorkerGroup" for g
  proof -
    obtain p3 where p3: "grp (add_to ?r g ?n2) = (grp ?n2)(g := insert_at p3 ?r (grp ?n2 g))" using grp_add_to by blast
    obtain p4 where p4: "grp (add_to ?r kCompGroup (add_to ?r g ?n2)) = (grp (add_to ?r g ?n2))(kCompGroup := insert_at p4 ?r (grp (add_to ?r g ?n2) kCompGroup))"
      using grp_add_to by blast
    show ?thesis unfolding p4 p3 using n2 g ne gn groups_in by (auto simp: grows_def mset_insert_at)
  qed
  have "add_to_groups node nodes = ?n2 \<or> (\<exists>g. (g = kServerGroup \<or> g = kWorkerGroup) \<and> add_to_groups node nodes = add_to ?r kCompGroup (add_to ?r g ?n2))"
    using assms(2) by (auto simp: add_to_groups_def Let_def)
  then show "grows ?r (grp nodes) (grp (add_to_groups node nodes))" "mset (grp (add_to_groups node nodes) ?r) = add_mset ?r (mset (grp nodes ?r))"
      "\<And>h. h \<notin> set GroupIDs \<Longrightarrow> h \<noteq> ?r \<Longrightarrow> grp (add_to_groups node nodes) h = grp nodes h"
    using n2 more by metis+
qed

lemma shape_grp: "shape nodes nodes' \<Longrightarrow> grp nodes' = grp nodes"
proof
  fix g assume "shape nodes nodes'"
  then have "map_option facts (nodes' g) = map_option facts (nodes g)" by (simp add: shape_def)
  then have "map_option (\<lambda>r. rn_group r) (nodes' g) = map_option (\<lambda>r. rn_group r) (nodes g)"
    unfolding facts_def by (cases "nodes g"; cases "nodes' g") auto
  then show "grp nodes' g = grp nodes g" by (cases "nodes g"; cases "nodes' g") (auto simp: grp_def)
qed

lemma remove_first_group: "length xs = length ks \<Longrightarrow> fst (remove_first r xs ks) = remove1 r xs"
  by (induction r xs ks rule: remove_first.induct) (auto split: prod.splits)

lemma remove_from_facts:
  assumes "remove_from r gs nodes = Ok nodes'" "distinct gs" "\<forall>g \<in> set gs. names nodes g \<noteq> None"
  shows "(\<forall>h. grp nodes' h = (if h \<in> set gs then remove1 r (grp nodes h) else grp nodes h)) \<and> live nodes' = live nodes"
  using assms
proof (induction gs arbitrary: nodes)
  case (Cons g gs)
  obtain q where q: "nodes g = Some q" using Cons.prems(3) by (auto simp: names_def)
  obtain g' where g': "RemoveGroupNode r q = Ok g'" "remove_from r gs (nodes(g \<mapsto> g')) = Ok nodes'"
    using Cons.prems(1) q by (auto simp: outcome)
  have len: "length (rn_group q) = length (rn_keys q)" using g'(1) by (auto simp: RemoveGroupNode_def outcome)
  have s: "rn_node g' = rn_node q" "rn_group g' = remove1 r (rn_group q)" "rn_alive g' = rn_alive q"
    using g'(1) remove_first_group [OF len, of r] by (auto simp: RemoveGroupNode_def outcome split: prod.splits)
  have n: "grp (nodes(g \<mapsto> g')) = (grp nodes)(g := remove1 r (grp nodes g))" "live (nodes(g \<mapsto> g')) = live nodes" "names (nodes(g \<mapsto> g')) = names nodes"
    using s q by (auto simp: grp_def live_def names_def fun_eq_iff)
  have d: "distinct gs" "\<forall>h \<in> set gs. names (nodes(g \<mapsto> g')) h \<noteq> None" unfolding n(3) using Cons.prems(2,3) by simp_all
  show ?case using Cons.IH [OF g'(2) d] Cons.prems(2) unfolding n(1,2) by auto
qed simp

lemma RemoveNode_facts:
  assumes "base_inv e" "ex_RemoveNode node e = Ok e'" "n_id node \<notin> set GroupIDs"
  shows "\<And>h. grp (ex_nodes e') h = (if h \<in> set GroupIDs \<and> n_id node \<in> dom (ex_nodes e) then remove1 (n_id node) (grp (ex_nodes e) h) else grp (ex_nodes e) h)"
    "\<And>s. live (ex_nodes e') s \<longleftrightarrow> live (ex_nodes e) s \<and> s \<noteq> n_id node" "names (ex_nodes e') = names (ex_nodes e)"
    "e' = e\<lparr>ex_nodes := ex_nodes e'\<rparr>"
proof -
  have "(\<forall>h. grp (ex_nodes e') h = (if h \<in> set GroupIDs \<and> n_id node \<in> dom (ex_nodes e) then remove1 (n_id node) (grp (ex_nodes e) h) else grp (ex_nodes e) h)) \<and>
    (\<forall>s. live (ex_nodes e') s \<longleftrightarrow> live (ex_nodes e) s \<and> s \<noteq> n_id node) \<and> names (ex_nodes e') = names (ex_nodes e) \<and> e' = e\<lparr>ex_nodes := ex_nodes e'\<rparr>"
  proof (cases "ex_nodes e (n_id node)")
    case None
    then show ?thesis using assms(2) by (auto simp: ex_RemoveNode_def live_def)
  next
    case (Some r)
    then obtain nodes where n: "remove_from (n_id node) GroupIDs (ex_nodes e) = Ok nodes"
        "ex_nodes e' = at_node (n_id node) (rn_alive_update (\<lambda>_. False)) nodes" "e' = e\<lparr>ex_nodes := ex_nodes e'\<rparr>"
      using assms(2) by (auto simp: ex_RemoveNode_def outcome Let_def)
    have g: "\<forall>g \<in> set GroupIDs. names (ex_nodes e) g \<noteq> None" using assms(1) by (auto simp: base_inv_def no_groups_names)
    have nm: "names nodes = names (ex_nodes e)" using names_remove_from [OF n(1) g] .
    then obtain r' where r': "nodes (n_id node) = Some r'" using Some by (metis map_option_eq_Some names_def option.distinct(1) option.exhaust)
    have "names (ex_nodes e') = names nodes" unfolding n(2) by (intro names_at_node) (use r' in \<open>auto simp: names_def\<close>)
    moreover have "grp (ex_nodes e') = grp nodes" unfolding n(2) using r' by (auto simp: grp_def at_node_def fun_eq_iff)
    moreover have "\<forall>s. live (ex_nodes e') s \<longleftrightarrow> live nodes s \<and> s \<noteq> n_id node" unfolding n(2) using r' by (auto simp: live_def at_node_def)
    ultimately show ?thesis using remove_from_facts [OF n(1) distinct_GroupIDs g] nm n(3) Some by auto
  qed
  then show "\<And>h. grp (ex_nodes e') h = (if h \<in> set GroupIDs \<and> n_id node \<in> dom (ex_nodes e) then remove1 (n_id node) (grp (ex_nodes e) h) else grp (ex_nodes e) h)"
    "\<And>s. live (ex_nodes e') s \<longleftrightarrow> live (ex_nodes e) s \<and> s \<noteq> n_id node" "names (ex_nodes e') = names (ex_nodes e)" "e' = e\<lparr>ex_nodes := ex_nodes e'\<rparr>"
    by blast+
qed

lemma names_dom_eq: "names n = names n' \<Longrightarrow> dom n = dom n'"
  by (rule set_eqI) (simp add: names_dom del: not_None_eq)

lemma AddNode_facts:
  assumes "base_inv e" "ex_AddNode node e = Ok e'" "ex_nodes e (n_id node) = None" "n_role node \<noteq> GROUP"
  shows "grows (n_id node) (grp (ex_nodes e)) (grp (ex_nodes e'))" "grp (ex_nodes e') (n_id node) = [n_id node]"
    "\<And>h. h \<notin> set GroupIDs \<Longrightarrow> h \<noteq> n_id node \<Longrightarrow> grp (ex_nodes e') h = grp (ex_nodes e) h"
    "dom (ex_nodes e') = insert (n_id node) (dom (ex_nodes e))" "\<And>s. s \<noteq> n_id node \<Longrightarrow> live (ex_nodes e') s = live (ex_nodes e) s"
    "\<exists>my. e' = e\<lparr>ex_my_node := my, ex_nodes := ex_nodes e'\<rparr>" "n_id node \<notin> set GroupIDs"
proof -
  let ?n = "(ex_nodes e)(n_id node \<mapsto> new_RemoteNode\<lparr>rn_node := node\<rparr>)"
  have id: "n_id node \<notin> set GroupIDs" using assms(1,3) by (auto simp: base_inv_def no_groups_def)
  have num: "ex_num_replicas e = 0" using assms(1) by (simp add: base_inv_def)
  have nodes: "ex_nodes e' = add_to_groups node ?n"
    using assms(2,3) num by (auto simp: ex_AddNode_def add_or_update_def Let_def split: if_splits)
  have g0: "grp ?n (n_id node) = []" "grp ?n = grp (ex_nodes e)" using assms(3) by (auto simp: grp_def new_RemoteNode_def fun_eq_iff)
  show "grows (n_id node) (grp (ex_nodes e)) (grp (ex_nodes e'))" "grp (ex_nodes e') (n_id node) = [n_id node]"
    "\<And>h. h \<notin> set GroupIDs \<Longrightarrow> h \<noteq> n_id node \<Longrightarrow> grp (ex_nodes e') h = grp (ex_nodes e) h"
    using grows_add_to_groups [OF id assms(4), where nodes = ?n] g0 unfolding nodes by (auto simp: mset_single_iff)
  have nm: "\<forall>g \<in> set GroupIDs. names ?n g \<noteq> None" "names ?n (n_id node) \<noteq> None"
    using assms(1) by (auto simp: base_inv_def no_groups_names names_def)
  have "names (ex_nodes e') = names ?n" unfolding nodes by (rule names_add_to_groups [OF nm])
  from names_dom_eq [OF this] show "dom (ex_nodes e') = insert (n_id node) (dom (ex_nodes e))" by auto
  have al: "live (add_to r h n) s = live n s" if "names n h \<noteq> None" for r h n s
    using that by (auto simp: live_def add_to_def at_node_def AddGroupNode_def names_def Let_def)
  have "live (add_to_groups node ?n) s = live ?n s" for s
    using nm by (simp add: add_to_groups_def Let_def al names_add_to groups_in del: fun_upd_apply)
  then show "\<And>s. s \<noteq> n_id node \<Longrightarrow> live (ex_nodes e') s = live (ex_nodes e) s" unfolding nodes by (simp add: live_def)
  show "\<exists>my. e' = e\<lparr>ex_my_node := my, ex_nodes := ex_nodes e'\<rparr>" using AddNode_new [OF assms(2,3)] by auto
  show "n_id node \<notin> set GroupIDs" by (rule id)
qed

lemma num_replicas_kept:
  "ex_Submit env cu m e = Ok (ts, e') \<Longrightarrow> ex_num_replicas e' = ex_num_replicas e"
  "ex_Reply env q r e = Ok e' \<Longrightarrow> ex_num_replicas e' = ex_num_replicas e"
  "FinishRecvReq t s e = Ok e' \<Longrightarrow> ex_num_replicas e' = ex_num_replicas e"
  "CheckFinished i t b e = Ok (b', e') \<Longrightarrow> ex_num_replicas e' = ex_num_replicas e"
  by (auto simp: ex_Submit_def ex_Reply_def FinishRecvReq_def CheckFinished_def Let_def outcome split: if_splits option.splits)

lemma ProcessActiveMsg_num:
  assumes "ProcessActiveMsg env cu m e = Ok e'"
  shows "ex_num_replicas e' = ex_num_replicas e"
proof (cases "is_request m")
  case True
  then have "process_request env cu m e = Ok e'" using assms by (simp add: ProcessActiveMsg_def)
  then show ?thesis
    by (rule process_request_rel [where R = "\<lambda>a b. ex_num_replicas b = ex_num_replicas a"]) (auto dest: num_replicas_kept(2,3))
next
  case False
  then have "process_response cu m e = Ok e'" using assms by (simp add: ProcessActiveMsg_def)
  then show ?thesis by (cases rule: process_response_cases) (auto simp: run_callback_def split: option.split)
qed

lemma PickActiveMsg_num: "PickActiveMsg env e = Ok (p, e1) \<Longrightarrow> ex_num_replicas e1 = ex_num_replicas e"
  by (auto simp: PickActiveMsg_def outcome)

lemma struct_keep:
  assumes "struct_inv e" "no_groups e'" "shape (ex_nodes e) (ex_nodes e')" "ex_num_replicas e' = ex_num_replicas e"
  shows "struct_inv e'"
  using assms(1,2,4) shape_grp [OF assms(3)] names_dom_eq [OF shape_names [OF assms(3)]] unfolding struct_inv_def by simp

lemma AddNode_num: "e' = e\<lparr>ex_my_node := my, ex_nodes := n\<rparr> \<Longrightarrow> ex_num_replicas e' = ex_num_replicas e"
  by simp

lemma struct_step:
  assumes "struct_inv e" "exec_step env cu e ev e'"
  shows "struct_inv e'"
proof -
  have n: "no_groups e'" using no_groups_step [OF _ assms(2)] assms(1) by (simp add: struct_inv_def)
  note keep = struct_keep [OF assms(1) n]
  from assms(2) show ?thesis
  proof cases
    case (submit m ts)
    show ?thesis using keep [OF Submit_shape [OF submit(3)] num_replicas_kept(1) [OF submit(3)]] .
  next
    case (accept m)
    then show ?thesis using keep by (simp add: ex_Accept_def)
  next
    case (request m e1)
    have "ex_num_replicas e1 = ex_num_replicas e" by (rule PickActiveMsg_num [OF request(2)])
    then show ?thesis
      using keep [OF shape_trans [OF PickActiveMsg_facts(1) [OF request(2)] ProcessActiveMsg_frame(1) [OF request(4)]]] ProcessActiveMsg_num [OF request(4)] by simp
  next
    case (response m e1)
    have "ex_num_replicas e1 = ex_num_replicas e" by (rule PickActiveMsg_num [OF response(2)])
    then show ?thesis
      using keep [OF shape_trans [OF PickActiveMsg_facts(1) [OF response(2)] ProcessActiveMsg_frame(1) [OF response(4)]]] ProcessActiveMsg_num [OF response(4)] by simp
  next
    case (idle p)
    have "ex_num_replicas e' = ex_num_replicas e" by (rule PickActiveMsg_num [OF idle(2)])
    then show ?thesis using keep [OF PickActiveMsg_facts(1) [OF idle(2)]] by simp
  next
    case (add node)
    note f = AddNode_facts [OF struct_base [OF assms(1)] add(4,2,3)]
    have mem: "n_id node \<notin> set (grp (ex_nodes e) h)" for h using assms(1) add(2) by (auto simp: struct_inv_def)
    have "set (grp (ex_nodes e') h) \<subseteq> insert (n_id node) (set (grp (ex_nodes e) h)) \<and> distinct (grp (ex_nodes e') h)" for h
    proof -
      have "mset (grp (ex_nodes e') h) = mset (grp (ex_nodes e) h) \<or> mset (grp (ex_nodes e') h) = mset (n_id node # grp (ex_nodes e) h)"
        using f(1) by (simp add: grows_def)
      moreover have "distinct (grp (ex_nodes e) h)" "distinct (n_id node # grp (ex_nodes e) h)" using assms(1) mem by (auto simp: struct_inv_def)
      ultimately show ?thesis by (metis mset_eq_imp_distinct_iff mset_eq_setD list.set(2) subset_insertI subset_refl)
    qed
    then have "distinct (grp (ex_nodes e') h) \<and> set (grp (ex_nodes e') h) \<subseteq> dom (ex_nodes e') - set GroupIDs" for h
      using assms(1) f(7) unfolding struct_inv_def f(4) by blast
    moreover have "ex_num_replicas e' = 0" using f(6) assms(1) by (metis AddNode_num struct_inv_def)
    moreover have "grp (ex_nodes e') s = [s]" if "s \<in> dom (ex_nodes e') - set GroupIDs" for s
      using that f(2,3) assms(1) unfolding struct_inv_def f(4) by (cases "s = n_id node") auto
    ultimately show ?thesis using n unfolding struct_inv_def by blast
  next
    case (remove node)
    note f = RemoveNode_facts [OF struct_base [OF assms(1)] remove(3,2)]
    have "ex_num_replicas e' = ex_num_replicas e" using arg_cong [OF f(4), of ex_num_replicas] by simp
    then show ?thesis
      using assms(1) n f(1) names_dom_eq [OF f(3)] set_remove1_subset [of "n_id node"] unfolding struct_inv_def by (auto dest: notin_set_remove1)
  next
    case (wait nid ts sent b)
    show ?thesis using keep [OF CheckFinished_shape [OF wait(2)] num_replicas_kept(4) [OF wait(2)]] .
  qed
qed

lemma struct_run: "exec_run env cu evs e \<Longrightarrow> struct_inv e"
proof (induction rule: exec_run.induct)
  case (start cid my c e)
  have "no_groups e" using exec_run.start [OF start] by (rule no_groups_run)
  then show ?case using new_Executor_state(1,7) [OF start]
    by (auto simp: struct_inv_def grp_def new_RemoteNode_def split: if_splits)
next
  case (step evs e ev e')
  then show ?case by (blast intro: struct_step)
qed


section \<open>Runs in which nodes are added again\<close>

text \<open>
  A node that is known and alive may be added again, with a new role or a new key range. \<open>AddNode\<close> then takes it out of the groups of
  \<open>GroupIDs\<close> and puts it into those of its new role; its own group, which is not among them, gets it once more.
\<close>

inductive exec_run_upd :: "Env \<Rightarrow> 'c Customer \<Rightarrow> Event list \<Rightarrow> 'c Executor \<Rightarrow> bool" for env cu where
  start: "new_Executor cid my c = Ok e \<Longrightarrow> exec_run_upd env cu [] e"
| step: "exec_run_upd env cu evs e \<Longrightarrow> exec_step env cu e ev e' \<Longrightarrow> exec_run_upd env cu (evs @ [ev]) e'"
| update: "exec_run_upd env cu evs e \<Longrightarrow> ex_nodes e (n_id node) \<noteq> None \<Longrightarrow> n_id node \<notin> set GroupIDs \<Longrightarrow> n_role node \<noteq> GROUP \<Longrightarrow>
    ex_AddNode node e = Ok e' \<Longrightarrow> exec_run_upd env cu (evs @ [Internal]) e'"

definition members_inv :: "'c Executor \<Rightarrow> bool" where
  "members_inv e \<longleftrightarrow> base_inv e \<and>
     (\<forall>g \<in> set GroupIDs. distinct (grp (ex_nodes e) g) \<and> set (grp (ex_nodes e) g) \<subseteq> dom (ex_nodes e) - set GroupIDs) \<and>
     (\<forall>s \<in> dom (ex_nodes e) - set GroupIDs. set (grp (ex_nodes e) s) = {s})"

lemma members_keep:
  assumes "members_inv e" "no_groups e'" "shape (ex_nodes e) (ex_nodes e')" "ex_num_replicas e' = ex_num_replicas e"
  shows "members_inv e'"
  using assms(1,2,4) shape_grp [OF assms(3)] names_dom_eq [OF shape_names [OF assms(3)]] unfolding members_inv_def base_inv_def by simp

text \<open>The steps that are not about nodes keep the groups.\<close>

lemma exec_step_nodes:
  assumes "exec_step env cu e ev e'"
  obtains "shape (ex_nodes e) (ex_nodes e')" "ex_num_replicas e' = ex_num_replicas e"
  | node where "ex_nodes e (n_id node) = None" "n_role node \<noteq> GROUP" "ex_AddNode node e = Ok e'"
  | node where "n_id node \<notin> set GroupIDs" "ex_RemoveNode node e = Ok e'"
  using assms
proof cases
  case (submit m ts)
  then show ?thesis using that(1) Submit_shape [OF submit(3)] num_replicas_kept(1) [OF submit(3)] by blast
next
  case (accept m)
  then show ?thesis using that(1) by (simp add: ex_Accept_def)
next
  case (request m e1)
  then show ?thesis
    using that(1) [OF shape_trans [OF PickActiveMsg_facts(1) [OF request(2)] ProcessActiveMsg_frame(1) [OF request(4)]]]
      PickActiveMsg_num [OF request(2)] ProcessActiveMsg_num [OF request(4)] by simp
next
  case (response m e1)
  then show ?thesis
    using that(1) [OF shape_trans [OF PickActiveMsg_facts(1) [OF response(2)] ProcessActiveMsg_frame(1) [OF response(4)]]]
      PickActiveMsg_num [OF response(2)] ProcessActiveMsg_num [OF response(4)] by simp
next
  case (idle p)
  then show ?thesis using that(1) PickActiveMsg_facts(1) [OF idle(2)] PickActiveMsg_num [OF idle(2)] by blast
next
  case (add node)
  then show ?thesis using that(2) by blast
next
  case (remove node)
  then show ?thesis using that(3) by blast
next
  case (wait nid ts sent b)
  then show ?thesis using that(1) CheckFinished_shape [OF wait(2)] num_replicas_kept(4) [OF wait(2)] by blast
qed

lemma grows_members:
  assumes "grows r g g'" "distinct (g h)" "r \<notin> set (g h)"
  shows "distinct (g' h) \<and> set (g' h) \<subseteq> insert r (set (g h))"
proof -
  have "mset (g' h) = mset (g h) \<or> mset (g' h) = mset (r # g h)" using assms(1) by (simp add: grows_def)
  then show ?thesis using assms(2,3) by (metis distinct.simps(2) list.set(2) mset_eq_imp_distinct_iff mset_eq_setD subset_insertI subset_refl)
qed

lemma members_step:
  assumes "members_inv e" "exec_step env cu e ev e'"
  shows "members_inv e'"
proof -
  have b: "base_inv e" using assms(1) by (simp add: members_inv_def)
  then have n: "no_groups e'" using no_groups_step [OF _ assms(2)] by (simp add: base_inv_def)
  from assms(2) show ?thesis
  proof (cases rule: exec_step_nodes)
    case 1
    then show ?thesis using members_keep [OF assms(1) n] by blast
  next
    case (2 node)
    note f = AddNode_facts [OF b 2(3,1,2)]
    have mem: "n_id node \<notin> set (grp (ex_nodes e) h)" if "h \<in> set GroupIDs" for h using assms(1) 2(1) that by (auto simp: members_inv_def)
    have "distinct (grp (ex_nodes e') h) \<and> set (grp (ex_nodes e') h) \<subseteq> dom (ex_nodes e') - set GroupIDs" if "h \<in> set GroupIDs" for h
      using grows_members [OF f(1) _ mem [OF that]] that assms(1) f(7) unfolding members_inv_def f(4) by blast
    moreover have "ex_num_replicas e' = 0" using f(6) b by (metis AddNode_num base_inv_def)
    moreover have "set (grp (ex_nodes e') s) = {s}" if "s \<in> dom (ex_nodes e') - set GroupIDs" for s
      using that f(2,3) assms(1) unfolding members_inv_def f(4) by (cases "s = n_id node") auto
    ultimately show ?thesis using n unfolding members_inv_def base_inv_def by blast
  next
    case (3 node)
    note f = RemoveNode_facts [OF b 3(2,1)]
    have "ex_num_replicas e' = ex_num_replicas e" using arg_cong [OF f(4), of ex_num_replicas] by simp
    then show ?thesis
      using assms(1) n f(1) names_dom_eq [OF f(3)] set_remove1_subset [of "n_id node"] unfolding members_inv_def base_inv_def by (auto dest: notin_set_remove1)
  qed
qed

text \<open>The nodes after an update.\<close>

lemma update_cases:
  assumes "base_inv e" "ex_nodes e (n_id node) = Some r" "ex_AddNode node e = Ok e'"
  obtains nodes my where "rn_alive r" "remove_from (n_id node) GroupIDs ((ex_nodes e)(n_id node \<mapsto> r\<lparr>rn_node := node\<rparr>)) = Ok nodes"
    "e' = e\<lparr>ex_my_node := my, ex_nodes := add_to_groups node nodes\<rparr>"
proof -
  let ?my = "if n_id node = n_id (ex_my_node e) then node else ex_my_node e"
  obtain nodes where n: "rn_alive r" "remove_from (n_id node) GroupIDs ((ex_nodes e)(n_id node \<mapsto> r\<lparr>rn_node := node\<rparr>)) = Ok nodes"
      "e' = (if n_id node = n_id (ex_my_node e) then e\<lparr>ex_my_node := node\<rparr> else e)\<lparr>ex_nodes := add_to_groups node nodes\<rparr>"
    using assms by (auto simp: ex_AddNode_def add_or_update_def Let_def outcome base_inv_def split: if_splits)
  have "e' = e\<lparr>ex_my_node := ?my, ex_nodes := add_to_groups node nodes\<rparr>" using n(3) by simp
  then show thesis by (rule that [OF n(1,2)])
qed

lemma update_names:
  assumes "base_inv e" "ex_nodes e (n_id node) = Some r" "n_id node \<notin> set GroupIDs"
    "remove_from (n_id node) GroupIDs ((ex_nodes e)(n_id node \<mapsto> r\<lparr>rn_node := node\<rparr>)) = Ok nodes"
  shows "names nodes = (names (ex_nodes e))(n_id node \<mapsto> node)" "names (add_to_groups node nodes) = names nodes"
    "\<forall>g \<in> set GroupIDs. names nodes g \<noteq> None" "names nodes (n_id node) \<noteq> None"
    "grp nodes h = (if h \<in> set GroupIDs then remove1 (n_id node) (grp (ex_nodes e) h) else grp (ex_nodes e) h)"
proof -
  let ?n = "(ex_nodes e)(n_id node \<mapsto> r\<lparr>rn_node := node\<rparr>)"
  have n: "names ?n = (names (ex_nodes e))(n_id node \<mapsto> node)" by (auto simp: names_def fun_eq_iff)
  have g: "\<forall>g \<in> set GroupIDs. names ?n g \<noteq> None" using assms(1) by (auto simp: base_inv_def no_groups_names n)
  show nm: "names nodes = (names (ex_nodes e))(n_id node \<mapsto> node)" using names_remove_from [OF assms(4) g] n by simp
  then show g': "\<forall>g \<in> set GroupIDs. names nodes g \<noteq> None" "names nodes (n_id node) \<noteq> None" using assms(1) by (auto simp: base_inv_def no_groups_names)
  show "names (add_to_groups node nodes) = names nodes" by (rule names_add_to_groups [OF g'])
  have "grp ?n = grp (ex_nodes e)" using assms(2) by (auto simp: grp_def fun_eq_iff)
  then show "grp nodes h = (if h \<in> set GroupIDs then remove1 (n_id node) (grp (ex_nodes e) h) else grp (ex_nodes e) h)"
    using remove_from_facts [OF assms(4) distinct_GroupIDs g] by simp
qed

lemma members_update:
  assumes "members_inv e" "ex_nodes e (n_id node) \<noteq> None" "n_id node \<notin> set GroupIDs" "n_role node \<noteq> GROUP" "ex_AddNode node e = Ok e'"
  shows "members_inv e'"
proof -
  have b: "base_inv e" using assms(1) by (simp add: members_inv_def)
  obtain r where r: "ex_nodes e (n_id node) = Some r" using assms(2) by blast
  obtain nodes my where u: "remove_from (n_id node) GroupIDs ((ex_nodes e)(n_id node \<mapsto> r\<lparr>rn_node := node\<rparr>)) = Ok nodes"
      "e' = e\<lparr>ex_my_node := my, ex_nodes := add_to_groups node nodes\<rparr>"
    using update_cases [OF b r assms(5)] by blast
  note n = update_names [OF b r assms(3) u(1)]
  note g = grows_add_to_groups [OF assms(3,4), where nodes = nodes]
  have nm: "names (ex_nodes e') = (names (ex_nodes e))(n_id node \<mapsto> node)" using n(1,2) u(2) by simp
  then have dom: "dom (ex_nodes e') = dom (ex_nodes e)" using r by (intro set_eqI) (simp only: names_dom, simp add: names_def)
  have base: "base_inv e'" using b assms(3,4) u(2) unfolding base_inv_def no_groups_names nm by auto
  have "distinct (grp (ex_nodes e') h) \<and> set (grp (ex_nodes e') h) \<subseteq> dom (ex_nodes e') - set GroupIDs" if h: "h \<in> set GroupIDs" for h
  proof -
    have d: "distinct (grp nodes h)" "n_id node \<notin> set (grp nodes h)" "set (grp nodes h) \<subseteq> dom (ex_nodes e) - set GroupIDs"
      using assms(1) h set_remove1_subset [of "n_id node" "grp (ex_nodes e) h"] unfolding members_inv_def by (auto simp: n(5))
    from grows_members [OF g(1) d(1,2)] show ?thesis using d(3) r assms(3) unfolding dom by (auto simp: u(2))
  qed
  moreover have "set (grp (ex_nodes e') s) = {s}" if "s \<in> dom (ex_nodes e') - set GroupIDs" for s
  proof (cases "s = n_id node")
    case True
    have "mset (grp (ex_nodes e') s) = mset (s # grp (ex_nodes e) s)" using g(2) True assms(3) by (simp add: u(2) n(5))
    then have "set (grp (ex_nodes e') s) = set (s # grp (ex_nodes e) s)" by (rule mset_eq_setD)
    then show ?thesis using assms(1) that unfolding members_inv_def dom by simp
  next
    case False
    then show ?thesis using g(3) that assms(1) unfolding members_inv_def dom by (simp add: u(2) n(5))
  qed
  ultimately show ?thesis using base unfolding members_inv_def by blast
qed

lemma members_run: "exec_run_upd env cu evs e \<Longrightarrow> members_inv e"
proof (induction rule: exec_run_upd.induct)
  case (start cid my c e)
  have "no_groups e" using exec_run.start [OF start] by (rule no_groups_run)
  then show ?case using new_Executor_state(1,7) [OF start]
    by (auto simp: members_inv_def base_inv_def grp_def new_RemoteNode_def split: if_splits)
next
  case (step evs e ev e')
  then show ?case by (blast intro: members_step)
next
  case (update evs e node e')
  then show ?case by (blast intro: members_update)
qed

section \<open>Members and their keys\<close>

text \<open>
  \<open>key\<close> gives the key range a member had when it was put into a group. The own group of a node keeps the range of every
  time the node was added.
\<close>

definition keys_at :: "(NodeID \<Rightarrow> KeyRange) \<Rightarrow> Nodes \<Rightarrow> bool" where
  "keys_at key nodes \<longleftrightarrow> (\<forall>g q. nodes g = Some q \<longrightarrow> (g \<in> set GroupIDs \<longrightarrow> group_ok key q) \<and> length (rn_keys q) = length (rn_group q))"

abbreviation keys_ok :: "Nodes \<Rightarrow> bool" where
  "keys_ok nodes \<equiv> keys_at (key_of nodes) nodes"

lemma key_of_names: "names n = names n' \<Longrightarrow> key_of n = key_of n'"
proof
  fix s assume "names n = names n'"
  then have "map_option rn_node (n s) = map_option rn_node (n' s)" unfolding names_def fun_eq_iff by blast
  then show "key_of n s = key_of n' s" by (cases "n s"; cases "n' s") (auto simp: key_of_def)
qed

lemma group_ok_cong:
  assumes "group_ok key q" "rn_group q' = rn_group q" "rn_keys q' = rn_keys q" "\<And>s. s \<in> set (rn_group q) \<Longrightarrow> key' s = key s"
  shows "group_ok key' q'"
proof -
  have "map key' (rn_group q) = map key (rn_group q)" using assms(4) by simp
  then show ?thesis using assms(1) unfolding group_ok_def assms(2,3) by metis
qed

lemma group_ok_length: "group_ok key q \<Longrightarrow> length (rn_keys q) = length (rn_group q)"
  by (simp add: group_ok_def)

lemma keys_atD:
  assumes "keys_at key nodes" "nodes g = Some q"
  shows "g \<in> set GroupIDs \<Longrightarrow> group_ok key q" "length (rn_keys q) = length (rn_group q)"
  using assms unfolding keys_at_def by blast+

lemma keys_at_upd:
  "keys_at key nodes \<Longrightarrow> (g \<in> set GroupIDs \<Longrightarrow> group_ok key q) \<Longrightarrow> length (rn_keys q) = length (rn_group q) \<Longrightarrow> keys_at key (nodes(g \<mapsto> q))"
  by (simp add: keys_at_def)

lemma length_insert_at [simp]: "length (insert_at pos x xs) = Suc (length xs)"
  by (simp add: insert_at_def)

lemma keys_at_add_to:
  assumes "keys_ok nodes" "names nodes g \<noteq> None" "g \<in> set GroupIDs \<longrightarrow> r \<notin> set (grp nodes g)"
  shows "keys_ok (add_to r g nodes)"
proof -
  obtain q where q: "nodes g = Some q" using assms(2) by (auto simp: names_def)
  then have a: "add_to r g nodes = nodes(g \<mapsto> AddGroupNode (key_of nodes) r q)" by (simp add: add_to_def at_node_def)
  have "g \<in> set GroupIDs \<Longrightarrow> group_ok (key_of nodes) (AddGroupNode (key_of nodes) r q)"
    using assms(1,3) q by (intro AddGroupNode_ok) (auto simp: keys_at_def grp_def)
  moreover have "length (rn_keys (AddGroupNode (key_of nodes) r q)) = length (rn_group (AddGroupNode (key_of nodes) r q))"
    using assms(1) q by (simp add: keys_at_def AddGroupNode_def Let_def)
  moreover have "key_of (add_to r g nodes) = key_of nodes" by (rule key_of_names) (rule names_add_to [OF assms(2)])
  ultimately show ?thesis using assms(1) unfolding keys_at_def by (simp add: a)
qed

lemma keys_add_to_groups:
  assumes "keys_ok nodes" "\<forall>g \<in> set GroupIDs. names nodes g \<noteq> None" "names nodes (n_id node) \<noteq> None" "n_id node \<notin> set GroupIDs"
    "\<forall>g \<in> set GroupIDs. n_id node \<notin> set (grp nodes g)"
  shows "keys_ok (add_to_groups node nodes)"
proof -
  have mem: "r \<notin> set (grp (add_to r h n) g) \<longleftrightarrow> g \<noteq> h \<and> r \<notin> set (grp n g)" for r h n g
    using grp_add_to [of r h n] by (auto split: if_splits)
  have ne: "n_id node \<noteq> kLiveGroup" "n_id node \<noteq> kCompGroup" "n_id node \<noteq> kServerGroup" "n_id node \<noteq> kWorkerGroup" using assms(4) groups_in by auto
  have gn: "kLiveGroup \<noteq> kCompGroup" "kLiveGroup \<noteq> kServerGroup" "kLiveGroup \<noteq> kWorkerGroup" "kCompGroup \<noteq> kServerGroup" "kCompGroup \<noteq> kWorkerGroup"
    by (simp_all add: group_names)
  show ?thesis
    using assms ne gn
    by (simp add: add_to_groups_def Let_def keys_at_add_to names_add_to groups_in mem not_sym [OF ne(1)] not_sym [OF ne(2)] not_sym [OF ne(3)] not_sym [OF ne(4)]
        not_sym [OF gn(1)] not_sym [OF gn(2)] not_sym [OF gn(3)] not_sym [OF gn(4)] not_sym [OF gn(5)])
qed

lemma keys_at_remove_from:
  assumes "keys_at key nodes" "\<forall>g \<in> set gs. names nodes g \<noteq> None" "set gs \<subseteq> set GroupIDs"
  shows "\<exists>nodes'. remove_from r gs nodes = Ok nodes' \<and> keys_at key nodes'"
  using assms
proof (induction gs arbitrary: nodes)
  case (Cons g gs)
  obtain q where q: "nodes g = Some q" using Cons.prems(2) by (auto simp: names_def)
  then have "group_ok key q" using Cons.prems(1,3) by (simp add: keys_at_def)
  from RemoveGroupNode_ok [OF this, of r] obtain q' where q': "RemoveGroupNode r q = Ok q'" "group_ok key q'"
      "q' = q\<lparr>rn_group := rn_group q', rn_keys := rn_keys q'\<rparr>"
    by blast
  have "rn_node q' = rn_node q" using arg_cong [OF q'(3), of rn_node] by simp
  then have n: "names (nodes(g \<mapsto> q')) = names nodes" using q by (auto simp: names_def fun_eq_iff)
  have "keys_at key (nodes(g \<mapsto> q'))" using keys_at_upd [OF Cons.prems(1) _ group_ok_length [OF q'(2)]] q'(2) by blast
  moreover have "\<forall>h \<in> set gs. names (nodes(g \<mapsto> q')) h \<noteq> None" unfolding n using Cons.prems(2) by simp
  ultimately show ?case using Cons.IH [of "nodes(g \<mapsto> q')"] Cons.prems(3) q q'(1) by (simp del: fun_upd_apply)
qed simp

lemma facts_lengths: "facts q = facts q' \<Longrightarrow> length (rn_keys q) = length (rn_group q) \<longleftrightarrow> length (rn_keys q') = length (rn_group q')"
  by (simp add: facts_def)

lemma keys_ok_shape:
  assumes "keys_ok nodes" "shape nodes nodes'"
  shows "keys_ok nodes'"
  unfolding keys_at_def
proof (intro allI impI)
  fix g q' assume "nodes' g = Some q'"
  then obtain q where q: "nodes g = Some q" "facts q = facts q'" using shape_at [OF assms(2)] by blast
  have k: "key_of nodes' = key_of nodes" by (rule key_of_names [OF shape_names [OF assms(2)]])
  have "group_ok (key_of nodes) q'" if "g \<in> set GroupIDs"
    by (rule group_ok_cong [OF keys_atD(1) [OF assms(1) q(1) that]]) (use q(2) in \<open>simp_all add: facts_def\<close>)
  then show "(g \<in> set GroupIDs \<longrightarrow> group_ok (key_of nodes') q') \<and> length (rn_keys q') = length (rn_group q')"
    using keys_atD(2) [OF assms(1) q(1)] facts_lengths [OF q(2)] unfolding k by blast
qed

lemma keys_at_alive: "keys_at key nodes \<Longrightarrow> nodes s \<noteq> None \<Longrightarrow> keys_at key (at_node s (rn_alive_update f) nodes)"
proof -
  assume k: "keys_at key nodes" and "nodes s \<noteq> None"
  then obtain q where q: "nodes s = Some q" by blast
  have "group_ok key (rn_alive_update f q)" if "s \<in> set GroupIDs"
    by (rule group_ok_cong [OF keys_atD(1) [OF k q that]]) simp_all
  moreover have "length (rn_keys (rn_alive_update f q)) = length (rn_group (rn_alive_update f q))" using keys_atD(2) [OF k q] by simp
  ultimately show ?thesis using keys_at_upd [OF k] q by (simp add: at_node_def)
qed

lemma RemoveNode_ok:
  assumes "base_inv e" "keys_ok (ex_nodes e)"
  shows "\<exists>e'. ex_RemoveNode node e = Ok e' \<and> keys_ok (ex_nodes e')"
proof (cases "ex_nodes e (n_id node)")
  case None
  then show ?thesis using assms(2) by (simp add: ex_RemoveNode_def)
next
  case (Some r)
  have g: "\<forall>g \<in> set GroupIDs. names (ex_nodes e) g \<noteq> None" using assms(1) unfolding base_inv_def no_groups_names by blast
  obtain nodes where n: "remove_from (n_id node) GroupIDs (ex_nodes e) = Ok nodes" "keys_at (key_of (ex_nodes e)) nodes"
    using keys_at_remove_from [OF assms(2) g subset_refl] by blast
  have nm: "names nodes = names (ex_nodes e)" by (rule names_remove_from [OF n(1) g])
  then have s: "nodes (n_id node) \<noteq> None" using Some by (metis names_def option.map_disc_iff option.distinct(1))
  have "names (at_node (n_id node) (rn_alive_update (\<lambda>_. False)) nodes) = names (ex_nodes e)"
  proof -
    have "names nodes (n_id node) \<noteq> None" using s by (simp add: names_def)
    then have "names (at_node (n_id node) (rn_alive_update (\<lambda>_. False)) nodes) = names nodes" by (intro names_at_node) simp_all
    then show ?thesis using nm by (rule trans)
  qed
  from key_of_names [OF this] show ?thesis using Some n(1) keys_at_alive [OF n(2) s] by (simp add: ex_RemoveNode_def)
qed

text \<open>Adding a node, known or not, never aborts unless the node is known and dead.\<close>

lemma AddNode_ok:
  assumes "members_inv e" "keys_ok (ex_nodes e)" "n_id node \<notin> set GroupIDs" "\<forall>r. ex_nodes e (n_id node) = Some r \<longrightarrow> rn_alive r"
  shows "\<exists>e'. ex_AddNode node e = Ok e' \<and> (n_role node \<noteq> GROUP \<longrightarrow> keys_ok (ex_nodes e'))"
proof (cases "ex_nodes e (n_id node)")
  case None
  let ?n = "(ex_nodes e)(n_id node \<mapsto> new_RemoteNode\<lparr>rn_node := node\<rparr>)"
  have b: "no_groups e" "ex_num_replicas e = 0" using assms(1) by (simp_all add: members_inv_def base_inv_def)
  have e': "\<exists>e'. ex_AddNode node e = Ok e' \<and> ex_nodes e' = add_to_groups node ?n" using None b(2) by (cases "n_id node = n_id (ex_my_node e)") (simp_all add: ex_AddNode_def add_or_update_def Let_def)
  have g: "grp ?n = grp (ex_nodes e)" using None by (auto simp: grp_def new_RemoteNode_def fun_eq_iff)
  have mem: "n_id node \<notin> set (grp (ex_nodes e) h)" if "h \<in> set GroupIDs" for h using assms(1) None that by (auto simp: members_inv_def)
  have "keys_ok ?n" unfolding keys_at_def
  proof (intro allI impI)
    fix h q assume q: "?n h = Some q"
    have k: "key_of ?n s = key_of (ex_nodes e) s" if "s \<noteq> n_id node" for s using that by (simp add: key_of_def)
    show "(h \<in> set GroupIDs \<longrightarrow> group_ok (key_of ?n) q) \<and> length (rn_keys q) = length (rn_group q)"
    proof (cases "h = n_id node")
      case True
      then show ?thesis using q assms(3) by (auto simp: new_RemoteNode_def)
    next
      case False
      then have q': "ex_nodes e h = Some q" using q by simp
      have "group_ok (key_of ?n) q" if h: "h \<in> set GroupIDs"
      proof (rule group_ok_cong [OF keys_atD(1) [OF assms(2) q' h]])
        fix s assume "s \<in> set (rn_group q)"
        then have "s \<noteq> n_id node" using mem [OF h] q' by (auto simp: grp_def)
        then show "key_of ?n s = key_of (ex_nodes e) s" by (rule k)
      qed simp_all
      then show ?thesis using keys_atD(2) [OF assms(2) q'] by blast
    qed
  qed
  then have "keys_ok (add_to_groups node ?n)"
    by (rule keys_add_to_groups) (use b(1) assms(3) mem in \<open>auto simp: g no_groups_names names_def\<close>)
  then show ?thesis using e' by metis
next
  case (Some r)
  let ?n = "(ex_nodes e)(n_id node \<mapsto> r\<lparr>rn_node := node\<rparr>)"
  have b: "base_inv e" using assms(1) by (simp add: members_inv_def)
  have k: "keys_at (key_of (ex_nodes e)) ?n" using assms(3) keys_atD(2) [OF assms(2) Some] by (intro keys_at_upd [OF assms(2)]) simp_all
  have "names ?n g \<noteq> None" if "g \<in> set GroupIDs" for g using b that by (auto simp: base_inv_def no_groups_names names_def)
  then obtain nodes where n: "remove_from (n_id node) GroupIDs ?n = Ok nodes" "keys_at (key_of (ex_nodes e)) nodes"
    using keys_at_remove_from [OF k] by blast
  note u = update_names [OF b Some assms(3) n(1)]
  have e': "\<exists>e'. ex_AddNode node e = Ok e' \<and> ex_nodes e' = add_to_groups node nodes"
    using Some assms(4) n(1) b by (cases "n_id node = n_id (ex_my_node e)") (simp_all add: ex_AddNode_def add_or_update_def Let_def base_inv_def)
  have mem: "n_id node \<notin> set (grp nodes h)" if "h \<in> set GroupIDs" for h using assms(1) that by (auto simp: members_inv_def u(5))
  have ko: "key_of nodes s = key_of (ex_nodes e) s" if "s \<noteq> n_id node" for s
  proof -
    have "map_option rn_node (nodes s) = map_option rn_node (ex_nodes e s)" using u(1) that by (simp add: names_def fun_eq_iff)
    then show ?thesis by (cases "nodes s"; cases "ex_nodes e s") (auto simp: key_of_def)
  qed
  have "keys_ok nodes" unfolding keys_at_def
  proof (intro allI impI)
    fix h q assume q: "nodes h = Some q"
    have "group_ok (key_of nodes) q" if h: "h \<in> set GroupIDs"
    proof (rule group_ok_cong [OF keys_atD(1) [OF n(2) q h]])
      fix s assume "s \<in> set (rn_group q)"
      then have "s \<noteq> n_id node" using mem [OF h] q by (auto simp: grp_def)
      then show "key_of nodes s = key_of (ex_nodes e) s" by (rule ko)
    qed simp_all
    then show "(h \<in> set GroupIDs \<longrightarrow> group_ok (key_of nodes) q) \<and> length (rn_keys q) = length (rn_group q)" using keys_atD(2) [OF n(2) q] by blast
  qed
  then have "keys_ok (add_to_groups node nodes)" by (rule keys_add_to_groups [OF _ u(3,4) assms(3)]) (use mem in blast)
  then show ?thesis using e' by metis
qed

lemma keys_ok_step:
  assumes "members_inv e" "keys_ok (ex_nodes e)" "exec_step env cu e ev e'"
  shows "keys_ok (ex_nodes e')"
  using assms(3)
proof (cases rule: exec_step_nodes)
  case 1
  then show ?thesis using keys_ok_shape [OF assms(2)] by blast
next
  case (2 node)
  have b: "base_inv e" using assms(1) by (simp add: members_inv_def)
  from AddNode_ok [OF assms(1,2) AddNode_facts(7) [OF b 2(3,1,2)]] show ?thesis using 2 by auto
next
  case (3 node)
  then show ?thesis using RemoveNode_ok [OF _ assms(2), of node] assms(1) by (auto simp: members_inv_def)
qed

lemma keys_ok_run: "exec_run_upd env cu evs e \<Longrightarrow> keys_ok (ex_nodes e)"
proof (induction rule: exec_run_upd.induct)
  case (start cid my c e)
  show ?case using new_Executor_state(1) [OF start] by (auto simp: keys_at_def group_ok_def new_RemoteNode_def split: if_splits)
next
  case (step evs e ev e')
  then show ?case by (blast intro: keys_ok_step members_run)
next
  case (update evs e node e')
  have m: "members_inv e" using members_run [OF update.hyps(1)] .
  then obtain r where r: "ex_nodes e (n_id node) = Some r" "rn_alive r"
    using update.hyps(2,5) update_cases [of e node _ e'] by (metis members_inv_def not_Some_eq)
  then show ?case using AddNode_ok [OF m update.IH update.hyps(3)] update.hyps(4,5) by auto
qed

text \<open>
  C10: In every run, also with nodes that are added again with another role or key range, the groups of an executor (all servers, all workers and
  so on) are well-formed: the members are known nodes and no groups, each is there once, \<open>keys\<close> holds their present key ranges in the same
  order, and the ranges are ordered by their begins. The own group of a node has no other member, and as many key ranges as members.
  Therefore removing a node never aborts, and adding one aborts only when it was removed before.
\<close>

theorem groups_well_formed:
  assumes "exec_run_upd env cu evs e"
  shows "(\<forall>g \<in> set GroupIDs. \<exists>q. ex_nodes e g = Some q \<and> distinct (rn_group q) \<and> set (rn_group q) \<subseteq> dom (ex_nodes e) - set GroupIDs \<and>
      rn_keys q = map (key_of (ex_nodes e)) (rn_group q) \<and> sorted (map kr_begin (rn_keys q))) \<and>
    (\<forall>s q. s \<notin> set GroupIDs \<and> ex_nodes e s = Some q \<longrightarrow> set (rn_group q) = {s} \<and> length (rn_keys q) = length (rn_group q)) \<and>
    (\<forall>node. \<exists>e'. ex_RemoveNode node e = Ok e') \<and>
    (\<forall>node. n_id node \<notin> set GroupIDs \<and> (\<forall>r. ex_nodes e (n_id node) = Some r \<longrightarrow> rn_alive r) \<longrightarrow> (\<exists>e'. ex_AddNode node e = Ok e'))"
proof (intro conjI allI impI ballI)
  have inv: "members_inv e" "keys_ok (ex_nodes e)" using assms by (rule members_run, rule keys_ok_run)
  then have b: "base_inv e" by (simp add: members_inv_def)
  show "\<exists>e'. ex_RemoveNode node e = Ok e'" for node using RemoveNode_ok [OF b inv(2)] by blast
  show "\<exists>e'. ex_AddNode node e = Ok e'" if "n_id node \<notin> set GroupIDs \<and> (\<forall>r. ex_nodes e (n_id node) = Some r \<longrightarrow> rn_alive r)" for node
    using AddNode_ok [OF inv] that by blast
  fix g assume g: "g \<in> set GroupIDs"
  then obtain q where q: "ex_nodes e g = Some q" using b by (auto simp: base_inv_def no_groups_def)
  have "grp (ex_nodes e) g = rn_group q" using q by (simp add: grp_def)
  then have "set (rn_group q) \<subseteq> dom (ex_nodes e) - set GroupIDs" using inv(1) g unfolding members_inv_def by metis
  moreover have "group_ok (key_of (ex_nodes e)) q" using inv(2) q g by (auto simp: keys_at_def)
  ultimately show "\<exists>q. ex_nodes e g = Some q \<and> distinct (rn_group q) \<and> set (rn_group q) \<subseteq> dom (ex_nodes e) - set GroupIDs \<and>
      rn_keys q = map (key_of (ex_nodes e)) (rn_group q) \<and> sorted (map kr_begin (rn_keys q))" using q unfolding group_ok_def by blast
next
  have inv: "members_inv e" "keys_ok (ex_nodes e)" using assms by (rule members_run, rule keys_ok_run)
  fix s q assume q: "s \<notin> set GroupIDs \<and> ex_nodes e s = Some q"
  then have "grp (ex_nodes e) s = rn_group q" by (simp add: grp_def)
  moreover have "s \<in> dom (ex_nodes e) - set GroupIDs" using q by blast
  ultimately show "set (rn_group q) = {s}" using inv(1) unfolding members_inv_def by metis
  show "length (rn_keys q) = length (rn_group q)" using inv(2) q by (auto simp: keys_at_def)
qed

text \<open>A worker that comes back as a server is in the groups of its new role, and twice in its own one.\<close>

lemma run_with_update:
  "exec_run env cu evs e \<Longrightarrow> exec_run_upd env cu evs e"
  by (induction rule: exec_run.induct) (auto intro: exec_run_upd.intros)

theorem groups_well_formed_witness:
  "\<exists>e q g. exec_run_upd test_env test_customer [Internal, Internal] e \<and> ex_nodes e ''W0'' = Some q \<and> set (rn_group q) = {''W0''} \<and>
    ex_nodes e kServerGroup = Some g \<and> distinct (rn_group g) \<and> rn_keys g = map (key_of (ex_nodes e)) (rn_group g) \<and>
    (\<exists>e'. ex_RemoveNode (test_node ''W0'' SERVER) e = Ok e')"
proof -
  obtain e r where e: "exec_run test_env test_customer [Internal] e" "ex_nodes e ''W0'' = Some r" "rn_alive r" using test_start by blast
  let ?n = "test_node ''W0'' SERVER"
  have n: "n_id ?n = ''W0''" "n_role ?n \<noteq> GROUP" "n_id ?n \<notin> set GroupIDs" by (simp_all add: test_node_def GroupIDs_def group_names)
  note r0 = run_with_update [OF e(1)]
  have al: "\<forall>r. ex_nodes e (n_id ?n) = Some r \<longrightarrow> rn_alive r" using n(1) e(2,3) by simp
  obtain e' where e': "ex_AddNode ?n e = Ok e'" using groups_well_formed [OF r0] n(3) al by blast
  have r1: "exec_run_upd test_env test_customer ([Internal] @ [Internal]) e'"
    using exec_run_upd.update [OF r0 _ n(3,2) e'] n(1) e(2) by simp
  obtain r' where "ex_nodes e (n_id ?n) = Some r'" using n(1) e(2) by simp
  then obtain nodes my where u: "remove_from (n_id ?n) GroupIDs ((ex_nodes e)(n_id ?n \<mapsto> r'\<lparr>rn_node := ?n\<rparr>)) = Ok nodes" "e' = e\<lparr>ex_my_node := my, ex_nodes := add_to_groups ?n nodes\<rparr>"
    using update_cases [of e ?n r' e'] e' members_run [OF r0] by (metis members_inv_def)
  have "names nodes (n_id ?n) \<noteq> None" "names (ex_nodes e') = names nodes"
    using update_names(2,4) [of e ?n r' nodes] \<open>ex_nodes e (n_id ?n) = Some r'\<close> u n(3) members_run [OF r0] by (simp_all add: members_inv_def)
  then have "names (ex_nodes e') ''W0'' \<noteq> None" using n(1) by simp
  then obtain q where q: "ex_nodes e' ''W0'' = Some q" by (auto simp: names_def)
  note w = groups_well_formed [OF r1]
  obtain g where "ex_nodes e' kServerGroup = Some g" "distinct (rn_group g)" "rn_keys g = map (key_of (ex_nodes e')) (rn_group g)" using w groups_in(1) by blast
  moreover have "set (rn_group q) = {''W0''}" using w q test_request_sel(5) by blast
  moreover have "\<exists>e2. ex_RemoveNode ?n e' = Ok e2" using w by blast
  ultimately show ?thesis using r1 q by (intro exI [of _ e'] exI [of _ q] exI [of _ g]) simp
qed

end
