(* ===== verification/Callbacks.thy ===== *)
theory Callbacks
  imports NodeGroups
begin

text \<open>
  Callbacks of the requests an executor sends: in every run the callback of a request runs at most once, and only when every
  alive node that got a piece of the request has answered.
\<close>

section \<open>What is known of the requests sent\<close>

definition piece_to :: "'c Executor \<Rightarrow> NodeID \<Rightarrow> int \<Rightarrow> bool" where
  "piece_to e s t \<longleftrightarrow> (\<exists>q \<in> set (ex_queue e). is_request q \<and> x_recver q = s \<and> x_time q = Some t)"

text \<open>
  A piece went to a member of the group the request was sent to, and an alive node is marked as finished when it has
  answered or got no piece. Only answers of nodes that got a piece arrive. Callbacks that have run are gone.
\<close>

definition pieces_inv :: "'c Executor \<Rightarrow> bool" where
  "pieces_inv e \<longleftrightarrow> (\<forall>s t. piece_to e s t \<longrightarrow> 0 \<le> t \<and> t < ex_time e \<and> s \<in> dom (ex_nodes e) - set GroupIDs \<and>
     (\<exists>q. ex_sent_reqs e t = Some q \<and> (live (ex_nodes e) s \<longrightarrow> s \<in> set (grp (ex_nodes e) (ri_recver q)))))"

definition answers_inv :: "Event list \<Rightarrow> 'c Executor \<Rightarrow> bool" where
  "answers_inv evs e \<longleftrightarrow> (\<forall>s t. live (ex_nodes e) s \<and> s \<notin> set GroupIDs \<and> 0 \<le> t \<and> fin rn_sent (ex_nodes e) s t \<longrightarrow>
     t < ex_time e \<and> (piece_to e s t \<longrightarrow> Answered s t \<in> set evs))"

definition recvd_inv :: "'c Executor \<Rightarrow> bool" where
  "recvd_inv e \<longleftrightarrow> (\<forall>m \<in> set (ex_recv_msgs e). \<not> is_request m \<longrightarrow> piece_to e (x_sender m) (task_time m))"

definition ran_inv :: "'c Executor \<Rightarrow> bool" where
  "ran_inv e \<longleftrightarrow> 0 \<le> ex_time e \<and> distinct (map fst (ex_ran e)) \<and>
     (\<forall>t \<in> fst ` set (ex_ran e). t < ex_time e \<and> (\<exists>q. ex_sent_reqs e t = Some q \<and> ri_callback q = None))"

definition call_inv :: "Event list \<Rightarrow> 'c Executor \<Rightarrow> bool" where
  "call_inv evs e \<longleftrightarrow> pieces_inv e \<and> answers_inv evs e \<and> recvd_inv e \<and> ran_inv e"

definition same_sends :: "'c Executor \<Rightarrow> 'c Executor \<Rightarrow> bool" where
  "same_sends e e' \<longleftrightarrow> piece_to e' = piece_to e \<and> ex_time e' = ex_time e \<and> ex_sent_reqs e' = ex_sent_reqs e \<and> ex_ran e' = ex_ran e"

lemma same_sends_refl [simp]: "same_sends e e"
  by (simp add: same_sends_def)

lemma same_sends_trans: "same_sends a b \<Longrightarrow> same_sends b c \<Longrightarrow> same_sends a c"
  by (simp add: same_sends_def)

lemma call_keep:
  assumes "call_inv evs e" "same_sends e e'" "set evs \<subseteq> set evs'" "quiet rn_sent (ex_nodes e) (ex_nodes e')"
    "dom (ex_nodes e) \<subseteq> dom (ex_nodes e')" "\<And>s. s \<in> dom (ex_nodes e) \<Longrightarrow> live (ex_nodes e') s \<Longrightarrow> live (ex_nodes e) s"
    "\<And>g s. live (ex_nodes e') s \<Longrightarrow> s \<in> set (grp (ex_nodes e) g) \<Longrightarrow> s \<in> set (grp (ex_nodes e') g)"
    "\<forall>m \<in> set (ex_recv_msgs e'). \<not> is_request m \<longrightarrow> m \<in> set (ex_recv_msgs e) \<or> piece_to e (x_sender m) (task_time m)"
  shows "call_inv evs' e'"
proof -
  have s: "piece_to e' = piece_to e" "ex_time e' = ex_time e" "ex_sent_reqs e' = ex_sent_reqs e" "ex_ran e' = ex_ran e"
    using assms(2) by (auto simp: same_sends_def)
  have "pieces_inv e'" unfolding pieces_inv_def s
  proof (intro allI impI)
    fix t u assume "piece_to e u t"
    then show "0 \<le> t \<and> t < ex_time e \<and> u \<in> dom (ex_nodes e') - set GroupIDs \<and>
        (\<exists>q. ex_sent_reqs e t = Some q \<and> (live (ex_nodes e') u \<longrightarrow> u \<in> set (grp (ex_nodes e') (ri_recver q))))"
      using assms(1,5-7) unfolding call_inv_def pieces_inv_def by blast
  qed
  moreover have "answers_inv evs' e'"
    unfolding answers_inv_def s
  proof (intro allI impI)
    fix t u assume a: "live (ex_nodes e') u \<and> u \<notin> set GroupIDs \<and> 0 \<le> t \<and> fin rn_sent (ex_nodes e') u t"
    then have "live (ex_nodes e) u" "fin rn_sent (ex_nodes e) u t" using assms(4) by (auto simp: quiet_def)
    then show "t < ex_time e \<and> (piece_to e u t \<longrightarrow> Answered u t \<in> set evs')"
      using assms(1,3) a unfolding call_inv_def answers_inv_def by blast
  qed
  moreover have "recvd_inv e'" using assms(1,8) by (auto simp: call_inv_def recvd_inv_def s)
  moreover have "ran_inv e'" using assms(1) by (simp add: call_inv_def ran_inv_def s)
  ultimately show ?thesis by (simp add: call_inv_def)
qed

lemma call_keep_shape:
  assumes "call_inv evs e" "same_sends e e'" "set evs \<subseteq> set evs'" "quiet rn_sent (ex_nodes e) (ex_nodes e')" "shape (ex_nodes e) (ex_nodes e')"
    "set (ex_recv_msgs e') \<subseteq> set (ex_recv_msgs e)"
  shows "call_inv evs' e'"
  by (rule call_keep [OF assms(1-4)])
     (use assms(6) shape_grp [OF assms(5)] shape_live [OF assms(5)] names_dom_eq [OF shape_names [OF assms(5)]] in auto)

lemma Reply_sends:
  assumes "ex_Reply env q r e = Ok e'"
  shows "same_sends e e'"
proof (cases "is_request q")
  case False
  then show ?thesis using assms by (simp add: ex_Reply_def)
next
  case True
  let ?m = "r\<lparr>x_wire := (x_wire r)\<lparr>w_request := False\<rparr>, x_control := copied (x_control q) (x_control r), x_customer := copied (x_customer q) (x_customer r),
    x_cmd := (case x_cmd r of None \<Rightarrow> x_cmd q | Some c \<Rightarrow> Some c), x_time := Some (task_time q)\<rparr>"
  obtain nodes queue where n: "send_to env (x_sender q) ?m (ex_nodes e, ex_queue e) = Ok (nodes, queue)" "e' = e\<lparr>ex_nodes := nodes, ex_queue := queue\<rparr>"
    using assms True by (auto simp: ex_Reply_def Let_def rmap_Ok_iff)
  have "\<exists>q'. queue = ex_queue e @ [q'] \<and> \<not> is_request q'" using send_to_nodes(3) [OF n(1)] by auto
  then show ?thesis using n(2) by (auto simp: same_sends_def piece_to_def fun_eq_iff)
qed

lemma FinishRecvReq_sends: "FinishRecvReq t s e = Ok e' \<Longrightarrow> same_sends e e'"
  by (auto simp: FinishRecvReq_def same_sends_def piece_to_def fun_eq_iff outcome split: if_splits)

lemma CheckFinished_sends: "CheckFinished nid t sent e = Ok (b, e') \<Longrightarrow> same_sends e e'"
  by (auto simp: CheckFinished_def same_sends_def piece_to_def fun_eq_iff outcome split: if_splits)

lemma PickActiveMsg_sends: "PickActiveMsg env e = Ok (p, e1) \<Longrightarrow> same_sends e e1"
  by (auto simp: PickActiveMsg_def same_sends_def piece_to_def fun_eq_iff outcome)

lemma process_request_sends: "process_request env cu m e = Ok e' \<Longrightarrow> same_sends e e'"
  by (erule process_request_rel [where R = same_sends])
     (auto dest: Reply_sends FinishRecvReq_sends intro: same_sends_trans, auto simp: same_sends_def piece_to_def fun_eq_iff)

lemma FinishRecvReq_quiet:
  assumes "FinishRecvReq ts s e = Ok e'"
  shows "quiet rn_sent (ex_nodes e) (ex_nodes e')"
proof -
  have all: "finish_all_recv ts rs nodes = Ok nodes' \<Longrightarrow> quiet rn_sent nodes nodes'" for rs nodes nodes'
    by (induction rs arbitrary: nodes) (auto simp: outcome intro: quiet_trans finish_recv_nodes(1))
  show ?thesis using assms all finish_recv_nodes(1) by (fastforce simp: FinishRecvReq_def outcome split: if_splits intro: quiet_trans)
qed

lemma process_request_sent: "process_request env cu m e = Ok e' \<Longrightarrow> quiet rn_sent (ex_nodes e) (ex_nodes e')"
  by (erule process_request_rel [where R = "\<lambda>a b. quiet rn_sent (ex_nodes a) (ex_nodes b)"])
     (auto intro: quiet_trans FinishRecvReq_quiet quiet_Reply)

lemma pick_quiet: "PickActiveMsg env e = Ok (p, e1) \<Longrightarrow> quiet rn_sent (ex_nodes e) (ex_nodes e1)"
  using PickActiveMsg_facts(1) [of env e p e1] PickActiveMsg_facts(2) [of env e p e1 rn_sent] shape_live [of "ex_nodes e" "ex_nodes e1"] by (simp add: quiet_def)

text \<open>What a submission sends and marks: a member of the group gets a piece or is marked, not both.\<close>

lemma send_pieces_facts:
  assumes "send_pieces env ts piece i rs (nodes, queue) = Ok (nodes', queue')" "distinct rs" "\<forall>r \<in> set rs. \<exists>n. names nodes r = Some n \<and> n_id n = r"
    "\<forall>j. x_time (piece j) = Some ts"
  shows "\<exists>new skip. queue' = queue @ new \<and> (\<forall>q \<in> set new. x_time q = Some ts) \<and> x_recver ` set new \<subseteq> set rs \<and> skip \<subseteq> set rs \<and>
    x_recver ` set new \<inter> skip = {} \<and> (\<forall>u t. fin rn_sent nodes' u t \<longleftrightarrow> fin rn_sent nodes u t \<or> (t = ts \<and> u \<in> skip))"
  using assms(1-3)
proof (induction rs arbitrary: i nodes queue)
  case Nil
  then show ?case by (intro exI [of _ "[]"] exI [of _ "{}"]) simp
next
  case (Cons r rs)
  obtain n1 q1 where st1: "(if x_valid (piece i) then send_to env r (piece i) (nodes, queue) else rmap (\<lambda>nodes. (nodes, queue)) (finish_sent ts r nodes)) = Ok (n1, q1)"
      "send_pieces env ts piece (Suc i) rs (n1, q1) = Ok (nodes', queue')"
    using Cons.prems(1) unfolding send_pieces.simps rbind_Ok_iff fst_conv snd_conv by (metis surj_pair)
  have sh: "shape nodes n1"
    using st1(1) send_to_shape [of env r "piece i" "(nodes, queue)" "(n1, q1)"] finish_sent_shape by (auto simp: outcome split: if_splits)
  obtain new skip where IH: "queue' = q1 @ new" "\<forall>q \<in> set new. x_time q = Some ts" "x_recver ` set new \<subseteq> set rs" "skip \<subseteq> set rs"
      "x_recver ` set new \<inter> skip = {}" "\<forall>u t. fin rn_sent nodes' u t \<longleftrightarrow> fin rn_sent n1 u t \<or> (t = ts \<and> u \<in> skip)"
    using Cons.IH [OF st1(2)] Cons.prems(2,3) shape_names [OF sh] by auto
  show ?case
  proof (cases "x_valid (piece i)")
    case True
    then have s: "send_to env r (piece i) (nodes, queue) = Ok (n1, q1)" using st1(1) by simp
    obtain q where q: "q1 = queue @ [q]" "x_time q = Some ts" "x_recver q = r"
      using send_to_nodes(3) [OF s] Cons.prems(3) assms(4) by (fastforce simp: names_def)
    have "fin rn_sent n1 = fin rn_sent nodes" using send_to_nodes(4) [OF s, of rn_sent] by simp
    then show ?thesis using IH q Cons.prems(2) by (intro exI [of _ "q # new"] exI [of _ skip]) auto
  next
    case False
    then have f: "finish_sent ts r nodes = Ok n1" "q1 = queue" using st1(1) by (auto simp: rmap_Ok_iff)
    show ?thesis using IH f(2) finish_sent_nodes(2) [OF f(1)] Cons.prems(2) by (intro exI [of _ new] exI [of _ "insert r skip"]) auto
  qed
qed

lemma Submit_cases:
  assumes "struct_inv e" "x_time m = None" "ex_Submit env cu m e = Ok (ts, e')"
  obtains q new skip where "ts = ex_time e" "ex_queue e' = ex_queue e @ new" "\<forall>q \<in> set new. x_time q = Some ts"
    "x_recver ` set new \<union> skip \<subseteq> set (grp (ex_nodes e) (ri_recver q))" "x_recver ` set new \<inter> skip = {}"
    "\<forall>u t. fin rn_sent (ex_nodes e') u t \<longleftrightarrow> fin rn_sent (ex_nodes e) u t \<or> (t = ts \<and> u \<in> skip)"
    "ex_time e' = ts + 1" "ex_sent_reqs e' = (ex_sent_reqs e)(ts \<mapsto> q)" "ex_ran e' = ex_ran e" "ex_recv_msgs e' = ex_recv_msgs e"
proof -
  let ?m = "m\<lparr>x_time := Some (ex_time e), x_wire := (x_wire m)\<lparr>w_request := True\<rparr>, x_customer := Some (ex_id e)\<rparr>"
  let ?q = "\<lparr>ri_recver = x_recver m, ri_callback = (case x_callback m of
      None \<Rightarrow> (case ex_sent_reqs e (ex_time e) of None \<Rightarrow> None | Some q \<Rightarrow> ri_callback q) | Some c \<Rightarrow> Some c)\<rparr>"
  obtain r where r: "ex_nodes e (x_recver m) = Some r"
    using assms(3) by (cases "ex_nodes e (x_recver m)") (auto simp: ex_Submit_def Let_def outcome GetRNode_def)
  let ?piece = "\<lambda>i. let (w, v) = cu_slice cu ?m (rn_keys r) i in (new_Message ?m)\<lparr>x_wire := w, x_valid := v\<rparr>"
  obtain nodes queue where n: "ts = ex_time e" "send_pieces env ts ?piece 0 (rn_group r) (ex_nodes e, ex_queue e) = Ok (nodes, queue)"
      "e' = e\<lparr>ex_time := ts + 1, ex_sent_reqs := (ex_sent_reqs e)(ts \<mapsto> ?q), ex_nodes := nodes, ex_queue := queue\<rparr>"
    using assms(2,3) r by (auto simp: ex_Submit_def Let_def outcome GetRNode_def)
  have g: "grp (ex_nodes e) (x_recver m) = rn_group r" using r by (simp add: grp_def)
  have d: "distinct (rn_group r)" "set (rn_group r) \<subseteq> dom (ex_nodes e) - set GroupIDs"
    using assms(1) unfolding struct_inv_def g [symmetric] by auto
  have nm: "\<forall>s \<in> set (rn_group r). \<exists>n. names (ex_nodes e) s = Some n \<and> n_id n = s"
    using d(2) assms(1) unfolding struct_inv_def no_groups_names by (auto simp: names_def)
  have "\<forall>j. x_time (?piece j) = Some ts" by (simp add: n(1) new_Message_def split: prod.split)
  from send_pieces_facts [OF n(2) d(1) nm this] show thesis
  proof (elim exE conjE)
    fix new skip
    assume "queue = ex_queue e @ new" "\<forall>q \<in> set new. x_time q = Some ts" "x_recver ` set new \<subseteq> set (rn_group r)" "skip \<subseteq> set (rn_group r)"
      "x_recver ` set new \<inter> skip = {}" and f: "\<forall>u t. fin rn_sent nodes u t \<longleftrightarrow> fin rn_sent (ex_nodes e) u t \<or> (t = ts \<and> u \<in> skip)"
    then show thesis by (intro that [of new skip ?q]) (simp_all add: n(1,3) g)
  qed
qed

lemma call_submit:
  assumes "call_inv evs e" "struct_inv e" "x_time m = None" "ex_Submit env cu m e = Ok (ts, e')"
  shows "call_inv (evs @ [Sent ts]) e'"
  using assms(2-4)
proof (cases rule: Submit_cases)
  case (1 q new skip)
  have sh: "shape (ex_nodes e) (ex_nodes e')" using Submit_shape [OF assms(4)] .
  have p: "piece_to e' s t \<Longrightarrow> piece_to e s t \<or> (t = ts \<and> s \<in> x_recver ` set new)" for s t
    using 1(2,3) by (auto simp: piece_to_def)
  have d: "set (grp (ex_nodes e) (ri_recver q)) \<subseteq> dom (ex_nodes e) - set GroupIDs" using assms(2) unfolding struct_inv_def by blast
  note keep = shape_grp [OF sh] shape_live [OF sh] names_dom_eq [OF shape_names [OF sh]]
  have inv: "pieces_inv e" "answers_inv evs e" "recvd_inv e" "ran_inv e" using assms(1) by (auto simp: call_inv_def)
  have "0 \<le> ts" using inv(4) 1(1) by (simp add: ran_inv_def)
  have "pieces_inv e'" unfolding pieces_inv_def 1(7,8) keep
  proof (intro allI impI)
    fix s t assume a: "piece_to e' s t"
    show "0 \<le> t \<and> t < ts + 1 \<and> s \<in> dom (ex_nodes e) - set GroupIDs \<and>
       (\<exists>qa. ((ex_sent_reqs e)(ts \<mapsto> q)) t = Some qa \<and> (live (ex_nodes e) s \<longrightarrow> s \<in> set (grp (ex_nodes e) (ri_recver qa))))"
    proof (cases "piece_to e s t")
      case True
      then have "0 \<le> t \<and> t < ts \<and> s \<in> dom (ex_nodes e) - set GroupIDs \<and>
         (\<exists>q. ex_sent_reqs e t = Some q \<and> (live (ex_nodes e) s \<longrightarrow> s \<in> set (grp (ex_nodes e) (ri_recver q))))"
        using inv(1) unfolding pieces_inv_def 1(1) by blast
      then show ?thesis by simp
    next
      case False
      then have "t = ts" "s \<in> set (grp (ex_nodes e) (ri_recver q))" using p [OF a] 1(4) by blast+
      then show ?thesis using d \<open>0 \<le> ts\<close> by auto
    qed
  qed
  moreover have "answers_inv (evs @ [Sent ts]) e'" unfolding answers_inv_def 1(7) keep
  proof (intro allI impI)
    fix s t assume a: "live (ex_nodes e) s \<and> s \<notin> set GroupIDs \<and> 0 \<le> t \<and> fin rn_sent (ex_nodes e') s t"
    have old: "t < ts \<and> (piece_to e s t \<longrightarrow> Answered s t \<in> set evs)" if "fin rn_sent (ex_nodes e) s t"
      using a that inv(2) 1(1) by (auto simp: answers_inv_def)
    show "t < ts + 1 \<and> (piece_to e' s t \<longrightarrow> Answered s t \<in> set (evs @ [Sent ts]))"
    proof (cases "fin rn_sent (ex_nodes e) s t")
      case True
      then show ?thesis using old p [of s t] by auto
    next
      case False
      then have "t = ts" "s \<in> skip" using a 1(6) by auto
      moreover have "\<not> piece_to e s ts" using inv(1) 1(1) by (auto simp: pieces_inv_def)
      ultimately show ?thesis using p [of s t] 1(5) by auto
    qed
  qed
  moreover have "recvd_inv e'" using inv(3) 1(2,10) by (fastforce simp: recvd_inv_def piece_to_def)
  moreover have "ran_inv e'" using inv(4) 1(1) by (fastforce simp: ran_inv_def 1(7-9))
  ultimately show ?thesis by (simp add: call_inv_def)
qed

text \<open>An answer.\<close>

lemma run_callback_ran:
  assumes "ran_inv e" "t < ex_time e" "ex_sent_reqs e t = Some q"
  shows "ran_inv (run_callback t e)" "ex_ran (run_callback t e) = ex_ran e \<or> (\<exists>cb. ex_ran (run_callback t e) = ex_ran e @ [(t, cb)])"
    "\<exists>q'. ri_recver q' = ri_recver q \<and> ex_sent_reqs (run_callback t e) = (ex_sent_reqs e)(t \<mapsto> q')"
proof -
  show "ran_inv (run_callback t e)"
  proof (cases "ri_callback q")
    case None
    then show ?thesis using assms by (simp add: run_callback_def)
  next
    case (Some cb)
    then have "t \<notin> fst ` set (ex_ran e)" using assms by (auto simp: ran_inv_def)
    then show ?thesis using assms Some by (auto simp: run_callback_def ran_inv_def)
  qed
  show "ex_ran (run_callback t e) = ex_ran e \<or> (\<exists>cb. ex_ran (run_callback t e) = ex_ran e @ [(t, cb)])"
    by (simp add: run_callback_def split: option.split)
  show "\<exists>q'. ri_recver q' = ri_recver q \<and> ex_sent_reqs (run_callback t e) = (ex_sent_reqs e)(t \<mapsto> q')"
    using assms(3)
    by (intro exI [of _ "case ri_callback q of None \<Rightarrow> q | Some cb \<Rightarrow> q\<lparr>ri_callback := None\<rparr>"])
       (auto simp: run_callback_def fun_upd_idem split: option.split)
qed


text \<open>An answer that arrives comes from a node that got a piece; if the request went to a node, it is that node.\<close>

lemma response_facts:
  assumes "call_inv evs e" "struct_inv e" "PickActiveMsg env e = Ok (Picked m, e1)" "\<not> is_request m"
  shows "piece_to e (x_sender m) (task_time m)" "live (ex_nodes e) (x_sender m)" "\<not> fin rn_sent (ex_nodes e) (x_sender m) (task_time m)"
proof -
  obtain m0 r where p: "m0 \<in> set (ex_recv_msgs e)" "ex_nodes e (x_sender m) = Some r" "rn_alive r" "\<not> received_twice r m"
      "x_sender m0 = x_sender m" "is_request m0 = is_request m" "x_time m0 = x_time m"
    using PickActiveMsg_facts(5) [OF assms(3) refl] by blast
  have "task_time m0 = task_time m" using p(7) by (simp add: task_time_def)
  then show "piece_to e (x_sender m) (task_time m)" using assms(1,4) p(1,5,6) by (auto simp: call_inv_def recvd_inv_def)
  show "live (ex_nodes e) (x_sender m)" using p(2,3) by (simp add: live_def)
  show "\<not> fin rn_sent (ex_nodes e) (x_sender m) (task_time m)" using p(2,4) assms(4) by (auto simp: fin_def received_twice_def)
qed

lemma ran_inv_cong: "ex_time e' = ex_time e \<Longrightarrow> ex_ran e' = ex_ran e \<Longrightarrow> ex_sent_reqs e' = ex_sent_reqs e \<Longrightarrow> ran_inv e' = ran_inv e"
  by (simp add: ran_inv_def)

text \<open>When no member of the group is waited for, everyone who got a piece has answered.\<close>

lemma all_answered:
  assumes "pieces_inv e" "struct_inv e" "piece_to e s t" "live (ex_nodes e) s" "finish_sent t s (ex_nodes e) = Ok nodes" "ex_sent_reqs e t = Some q"
    "ri_recver q \<noteq> s \<Longrightarrow> \<exists>g. nodes (ri_recver q) = Some g \<and> (n_role (rn_node g) \<noteq> GROUP \<or> (\<forall>r \<in> set (rn_group g). \<not> waits_for nodes t r))"
    "piece_to e u t" "live (ex_nodes e) u"
  shows "fin rn_sent nodes u t"
proof -
  have member: "v \<in> set (grp (ex_nodes e) (ri_recver q)) \<and> v \<notin> set GroupIDs" if "piece_to e v t" "live (ex_nodes e) v" for v
    using assms(1,6) that unfolding pieces_inv_def by fastforce
  have sh: "shape (ex_nodes e) nodes" by (rule finish_sent_shape [OF assms(5)])
  show ?thesis
  proof (cases "ri_recver q \<in> set GroupIDs")
    case True
    then have "ri_recver q \<noteq> s" using member [OF assms(3,4)] by auto
    then obtain g where g: "nodes (ri_recver q) = Some g" "n_role (rn_node g) \<noteq> GROUP \<or> (\<forall>r \<in> set (rn_group g). \<not> waits_for nodes t r)"
      using assms(7) by blast
    have "names (ex_nodes e) (ri_recver q) = Some (rn_node g)" unfolding shape_names [OF sh, symmetric] using g(1) by (simp add: names_def)
    then have "n_role (rn_node g) = GROUP" using assms(2) True unfolding struct_inv_def no_groups_names by blast
    moreover have "grp nodes (ri_recver q) = rn_group g" using g(1) by (simp add: grp_def)
    ultimately have "\<not> waits_for nodes t u" using g(2) member [OF assms(8,9)] unfolding shape_grp [OF sh] by auto
    moreover have "live nodes u" unfolding shape_live [OF sh] by (rule assms(9))
    ultimately show ?thesis by (auto simp: waits_for_def live_def fin_def)
  next
    case False
    then have "grp (ex_nodes e) (ri_recver q) = [ri_recver q]"
    proof -
      have "ri_recver q \<in> dom (ex_nodes e)" using member [OF assms(3,4)] by (cases "ex_nodes e (ri_recver q)") (auto simp: grp_def)
      then show ?thesis using False assms(2) by (auto simp: struct_inv_def)
    qed
    then have "u = s" using member [OF assms(3,4)] member [OF assms(8,9)] by simp
    then show ?thesis using finish_sent_nodes(2) [OF assms(5)] by blast
  qed
qed

lemma response_effect:
  assumes "call_inv evs e" "struct_inv e" "piece_to e (x_sender m) (task_time m)" "live (ex_nodes e) (x_sender m)" "process_response cu m e = Ok e'"
  shows "piece_to e' = piece_to e" "ex_time e' = ex_time e" "ran_inv e'"
    "map_option ri_recver (ex_sent_reqs e' t) = map_option ri_recver (ex_sent_reqs e t)"
    "s \<notin> set GroupIDs \<Longrightarrow> fin rn_sent (ex_nodes e') s t \<longleftrightarrow> s = x_sender m \<and> t = task_time m \<or> fin rn_sent (ex_nodes e) s t"
    "ex_ran e' = ex_ran e \<or> (\<exists>cb. ex_ran e' = ex_ran e @ [(task_time m, cb)]) \<and>
        (\<forall>s. piece_to e s (task_time m) \<and> live (ex_nodes e) s \<longrightarrow> fin rn_sent (ex_nodes e') s (task_time m))"
proof -
  let ?s = "x_sender m" and ?t = "task_time m"
  have inv: "pieces_inv e" "ran_inv e" using assms(1) by (auto simp: call_inv_def)
  have t: "?t < ex_time e" using inv(1) assms(3) unfolding pieces_inv_def by blast
  have "piece_to e' = piece_to e \<and> ex_time e' = ex_time e \<and> ran_inv e' \<and> map_option ri_recver (ex_sent_reqs e' t) = map_option ri_recver (ex_sent_reqs e t) \<and>
    (s \<notin> set GroupIDs \<longrightarrow> (fin rn_sent (ex_nodes e') s t \<longleftrightarrow> s = ?s \<and> t = ?t \<or> fin rn_sent (ex_nodes e) s t)) \<and>
    (ex_ran e' = ex_ran e \<or> (\<exists>cb. ex_ran e' = ex_ran e @ [(?t, cb)]) \<and> (\<forall>s. piece_to e s ?t \<and> live (ex_nodes e) s \<longrightarrow> fin rn_sent (ex_nodes e') s ?t))"
    using assms(5)
  proof (cases rule: process_response_cases)
    case (1 nodes q)
    then have "e' = e\<lparr>ex_last_response := Some m, ex_customer := cu_response cu m (ex_customer e), ex_nodes := nodes\<rparr>" by blast
    then show ?thesis using finish_sent_nodes(2) [OF 1(1)] inv(2) ran_inv_cong [of e' e] by (simp add: piece_to_def fun_eq_iff)
  next
    case (2 nodes q nodes')
    let ?e2 = "e\<lparr>ex_last_response := Some m, ex_customer := cu_response cu m (ex_customer e), ex_nodes := nodes'\<rparr>"
    have "ran_inv ?e2" "?t < ex_time ?e2" "ex_sent_reqs ?e2 ?t = Some q" using inv(2) ran_inv_cong [of ?e2 e] t 2(2) by auto
    note rc = run_callback_ran [OF this, folded 2(5)]
    have grow: "(s \<notin> set GroupIDs \<longrightarrow> fin rn_sent nodes' s t = fin rn_sent nodes s t) \<and> (fin rn_sent nodes s t \<longrightarrow> fin rn_sent nodes' s t)" for s t
      using 2(4)
    proof
      assume "\<exists>g. nodes (ri_recver q) = Some g \<and> n_role (rn_node g) = GROUP \<and> finish_sent ?t (ri_recver q) nodes = Ok nodes'"
      then obtain g where g: "nodes (ri_recver q) = Some g" "n_role (rn_node g) = GROUP" "finish_sent ?t (ri_recver q) nodes = Ok nodes'" by blast
      have "names (ex_nodes e) (ri_recver q) = Some (rn_node g)"
        unfolding shape_names [OF finish_sent_shape [OF 2(1)], symmetric] using g(1) by (simp add: names_def)
      then have "ri_recver q \<in> set GroupIDs" using g(2) assms(2) unfolding struct_inv_def no_groups_names by blast
      then show ?thesis using finish_sent_nodes(2) [OF g(3)] by auto
    qed simp
    have e': "ex_nodes e' = nodes'" "piece_to e' = piece_to e" "ex_time e' = ex_time e" unfolding 2(5) by (simp_all add: piece_to_def fun_eq_iff)
    have "\<forall>u. piece_to e u ?t \<and> live (ex_nodes e) u \<longrightarrow> fin rn_sent nodes' u ?t"
      using all_answered [OF inv(1) assms(2-4) 2(1-3)] grow by blast
    moreover have "map_option ri_recver (ex_sent_reqs e' t) = map_option ri_recver (ex_sent_reqs e t)" using rc(3) 2(2) by auto
    ultimately show ?thesis using rc(1,2) e' grow finish_sent_nodes(2) [OF 2(1)] by simp
  qed
  then show "piece_to e' = piece_to e" "ex_time e' = ex_time e" "ran_inv e'"
    "map_option ri_recver (ex_sent_reqs e' t) = map_option ri_recver (ex_sent_reqs e t)"
    "s \<notin> set GroupIDs \<Longrightarrow> fin rn_sent (ex_nodes e') s t \<longleftrightarrow> s = ?s \<and> t = ?t \<or> fin rn_sent (ex_nodes e) s t"
    "ex_ran e' = ex_ran e \<or> (\<exists>cb. ex_ran e' = ex_ran e @ [(?t, cb)]) \<and> (\<forall>s. piece_to e s ?t \<and> live (ex_nodes e) s \<longrightarrow> fin rn_sent (ex_nodes e') s ?t)"
    by blast+
qed

lemma call_response:
  assumes "call_inv evs e" "struct_inv e" "piece_to e (x_sender m) (task_time m)" "live (ex_nodes e) (x_sender m)" "process_response cu m e = Ok e'"
  shows "call_inv (evs @ [Answered (x_sender m) (task_time m)]) e'"
    "\<forall>(t, cb) \<in> set (ex_ran e') - set (ex_ran e). t = task_time m \<and>
      (\<forall>s. piece_to e' s t \<and> live (ex_nodes e') s \<longrightarrow> Answered s t \<in> set (evs @ [Answered (x_sender m) (task_time m)]))"
proof -
  let ?s = "x_sender m" and ?t = "task_time m" and ?evs = "evs @ [Answered (x_sender m) (task_time m)]"
  note r = response_effect [OF assms]
  have inv: "pieces_inv e" "answers_inv evs e" "recvd_inv e" using assms(1) by (auto simp: call_inv_def)
  have t: "?t < ex_time e" using inv(1) assms(3) unfolding pieces_inv_def by blast
  have sh: "shape (ex_nodes e) (ex_nodes e')" by (rule process_response_shape [OF assms(5)])
  note keep = shape_grp [OF sh] shape_live [OF sh] names_dom_eq [OF shape_names [OF sh]]
  have info: "\<exists>q'. ex_sent_reqs e' t = Some q' \<and> ri_recver q' = ri_recver q" if "ex_sent_reqs e t = Some q" for t q
    using r(4) [of t] that by auto
  have "pieces_inv e'" unfolding pieces_inv_def r(1,2) keep
  proof (intro allI impI)
    fix s t assume "piece_to e s t"
    then obtain q where "0 \<le> t" "t < ex_time e" "s \<in> dom (ex_nodes e) - set GroupIDs" "ex_sent_reqs e t = Some q"
        "live (ex_nodes e) s \<longrightarrow> s \<in> set (grp (ex_nodes e) (ri_recver q))"
      using inv(1) unfolding pieces_inv_def by blast
    then show "0 \<le> t \<and> t < ex_time e \<and> s \<in> dom (ex_nodes e) - set GroupIDs \<and>
        (\<exists>q. ex_sent_reqs e' t = Some q \<and> (live (ex_nodes e) s \<longrightarrow> s \<in> set (grp (ex_nodes e) (ri_recver q))))"
      using info [of t q] by auto
  qed
  moreover have a: "answers_inv ?evs e'" unfolding answers_inv_def r(1,2) keep
    using inv(2) t r(5) unfolding answers_inv_def by auto
  moreover have "recvd_inv e'" using inv(3) process_response_msgs [OF assms(5)] by (simp add: recvd_inv_def r(1))
  ultimately show "call_inv ?evs e'" using r(3) by (simp add: call_inv_def)
  have "Answered s ?t \<in> set ?evs" if "piece_to e s ?t" "live (ex_nodes e) s" "fin rn_sent (ex_nodes e') s ?t" for s
  proof -
    have "s \<notin> set GroupIDs" "0 \<le> ?t" using inv(1) that(1) unfolding pieces_inv_def by blast+
    then show ?thesis using a that unfolding answers_inv_def r(1) keep by blast
  qed
  then have "ex_ran e' = ex_ran e \<or> (\<exists>cb. ex_ran e' = ex_ran e @ [(?t, cb)]) \<and> (\<forall>s. piece_to e s ?t \<and> live (ex_nodes e) s \<longrightarrow> Answered s ?t \<in> set ?evs)"
    using r(6) by blast
  then show "\<forall>(t, cb) \<in> set (ex_ran e') - set (ex_ran e). t = ?t \<and> (\<forall>s. piece_to e' s t \<and> live (ex_nodes e') s \<longrightarrow> Answered s t \<in> set ?evs)"
    unfolding r(1) keep by auto
qed


section \<open>Callbacks run once and after the answers\<close>

lemma call_picked:
  assumes "call_inv evs e" "PickActiveMsg env e = Ok (p, e1)"
  shows "call_inv evs e1"
  using PickActiveMsg_facts(3) [OF assms(2)]
  by (intro call_keep_shape [OF assms(1) PickActiveMsg_sends [OF assms(2)] _ pick_quiet [OF assms(2)] PickActiveMsg_facts(1) [OF assms(2)]]) auto

lemma struct_picked:
  assumes "struct_inv e" "PickActiveMsg env e = Ok (p, e1)"
  shows "struct_inv e1"
proof -
  have "no_groups e1"
    using assms(1) PickActiveMsg_facts(3) [OF assms(2)]
    by (intro no_groups_keep [OF _ shape_names [OF PickActiveMsg_facts(1) [OF assms(2)]]]) (auto simp: struct_inv_def)
  then show ?thesis by (rule struct_keep [OF assms(1) _ PickActiveMsg_facts(1) [OF assms(2)] PickActiveMsg_num [OF assms(2)]])
qed

text \<open>The other steps run no callback.\<close>

lemma call_response_step:
  assumes "call_inv evs e" "struct_inv e" "PickActiveMsg env e = Ok (Picked m, e1)" "\<not> is_request m" "ProcessActiveMsg env cu m e1 = Ok e'"
  shows "call_inv (evs @ [Answered (x_sender m) (task_time m)]) e'"
    "\<forall>(t, cb) \<in> set (ex_ran e') - set (ex_ran e). t = task_time m \<and>
      (\<forall>s. piece_to e' s t \<and> live (ex_nodes e') s \<longrightarrow> Answered s t \<in> set (evs @ [Answered (x_sender m) (task_time m)]))"
proof -
  note same = PickActiveMsg_sends [OF assms(3)]
  have "piece_to e1 (x_sender m) (task_time m)" "live (ex_nodes e1) (x_sender m)" "ex_ran e1 = ex_ran e"
    using response_facts [OF assms(1-4)] same shape_live [OF PickActiveMsg_facts(1) [OF assms(3)]] by (simp_all add: same_sends_def)
  moreover have "process_response cu m e1 = Ok e'" using assms(4,5) by (simp add: ProcessActiveMsg_def)
  ultimately show "call_inv (evs @ [Answered (x_sender m) (task_time m)]) e'"
    "\<forall>(t, cb) \<in> set (ex_ran e') - set (ex_ran e). t = task_time m \<and>
      (\<forall>s. piece_to e' s t \<and> live (ex_nodes e') s \<longrightarrow> Answered s t \<in> set (evs @ [Answered (x_sender m) (task_time m)]))"
    using call_response [OF call_picked [OF assms(1,3)] struct_picked [OF assms(2,3)], of m cu e'] by simp_all
qed

lemma call_other_step:
  assumes "call_inv evs e" "struct_inv e" "exec_step env cu e ev e'" "\<forall>s t. ev \<noteq> Answered s t"
  shows "call_inv (evs @ [ev]) e' \<and> ex_ran e' = ex_ran e"
  using assms(3)
proof cases
  case (submit m ts)
  have "ex_ran e' = ex_ran e" using submit(3) by (auto simp: ex_Submit_def Let_def outcome)
  then show ?thesis using call_submit [OF assms(1,2) submit(2,3)] submit(1) by simp
next
  case (accept m)
  have "call_inv (evs @ [ev]) e'"
    by (rule call_keep [OF assms(1)]) (use accept in \<open>auto simp: ex_Accept_def same_sends_def piece_to_def fun_eq_iff\<close>)
  then show ?thesis using accept by (simp add: ex_Accept_def)
next
  case (request m e1)
  have r: "process_request env cu m e1 = Ok e'" using request(3,4) by (simp add: ProcessActiveMsg_def)
  have "call_inv (evs @ [ev]) e'"
    by (rule call_keep_shape [OF call_picked [OF assms(1) request(2)] process_request_sends [OF r] _ process_request_sent [OF r] process_request_shape [OF r]])
       (use process_request_msgs [OF r] in auto)
  then show ?thesis using process_request_sends [OF r] PickActiveMsg_sends [OF request(2)] by (simp add: same_sends_def)
next
  case (response m e1)
  then show ?thesis using assms(4) by simp
next
  case (idle p)
  have "call_inv (evs @ [ev]) e'" by (rule call_keep_shape [OF call_picked [OF assms(1) idle(2)]]) auto
  then show ?thesis using PickActiveMsg_sends [OF idle(2)] by (simp add: same_sends_def)
next
  case (add node)
  note f = AddNode_facts [OF struct_base [OF assms(2)] add(4,2,3)]
  obtain my where my: "e' = e\<lparr>ex_my_node := my, ex_nodes := ex_nodes e'\<rparr>" using f(6) by blast
  have same: "same_sends e e'" "ex_recv_msgs e' = ex_recv_msgs e" by (subst my, simp add: same_sends_def piece_to_def fun_eq_iff)+
  have "set (grp (ex_nodes e) g) \<subseteq> set (grp (ex_nodes e') g)" for g
    using f(1) unfolding grows_def by (metis mset_eq_setD set_mset_add_mset_insert set_mset_mset subset_insertI subset_refl)
  moreover have "live (ex_nodes e) s" if "s \<in> dom (ex_nodes e)" "live (ex_nodes e') s" for s
    using f(5) [of s] add(2) that by (cases "s = n_id node") auto
  ultimately have "call_inv (evs @ [ev]) e'"
    by (intro call_keep [OF assms(1) same(1) _ quiet_AddNode [OF _ add(4)]]) (use f(4) same(2) in auto)
  then show ?thesis using same(1) by (simp add: same_sends_def)
next
  case (remove node)
  note f = RemoveNode_facts [OF struct_base [OF assms(2)] remove(3,2)]
  have same: "same_sends e e'" "ex_recv_msgs e' = ex_recv_msgs e" by (subst f(4), simp add: same_sends_def piece_to_def fun_eq_iff)+
  have "call_inv (evs @ [ev]) e'"
    by (intro call_keep [OF assms(1) same(1) _ quiet_RemoveNode [OF _ remove(3)]]) (use f(1,2) names_dom_eq [OF f(3)] same(2) in auto)
  then show ?thesis using same(1) by (simp add: same_sends_def)
next
  case (wait nid ts sent b)
  have "call_inv (evs @ [ev]) e'"
    by (intro call_keep_shape [OF assms(1) CheckFinished_sends [OF wait(2)] _ quiet_CheckFinished [OF wait(2)] CheckFinished_shape [OF wait(2)]])
       (use recv_msgs_kept(4) [OF wait(2)] in auto)
  then show ?thesis using CheckFinished_sends [OF wait(2)] by (simp add: same_sends_def)
qed

lemma call_step:
  assumes "call_inv evs e" "struct_inv e" "exec_step env cu e ev e'"
  shows "call_inv (evs @ [ev]) e'" "\<forall>(t, cb) \<in> set (ex_ran e') - set (ex_ran e). (\<exists>s. ev = Answered s t) \<and>
    (\<forall>s. piece_to e' s t \<and> live (ex_nodes e') s \<longrightarrow> Answered s t \<in> set (evs @ [ev]))"
proof -
  have "call_inv (evs @ [ev]) e' \<and> (\<forall>(t, cb) \<in> set (ex_ran e') - set (ex_ran e). (\<exists>s. ev = Answered s t) \<and>
    (\<forall>s. piece_to e' s t \<and> live (ex_nodes e') s \<longrightarrow> Answered s t \<in> set (evs @ [ev])))"
  proof (cases "\<exists>s t. ev = Answered s t")
    case True
    from assms(3) show ?thesis
    proof cases
      case (response m e1)
      note r = call_response_step [OF assms(1,2) response(2-4), folded response(1)]
      have "\<exists>s. ev = Answered s (task_time m)" using response(1) by blast
      then have "\<forall>(t, cb) \<in> set (ex_ran e') - set (ex_ran e). (\<exists>s. ev = Answered s t) \<and>
          (\<forall>s. piece_to e' s t \<and> live (ex_nodes e') s \<longrightarrow> Answered s t \<in> set (evs @ [ev]))"
        using r(2) unfolding case_prod_unfold by metis
      then show ?thesis using r(1) by blast
    qed (use True in auto)
  next
    case False
    then show ?thesis using call_other_step [OF assms] by simp
  qed
  then show "call_inv (evs @ [ev]) e'" "\<forall>(t, cb) \<in> set (ex_ran e') - set (ex_ran e). (\<exists>s. ev = Answered s t) \<and>
    (\<forall>s. piece_to e' s t \<and> live (ex_nodes e') s \<longrightarrow> Answered s t \<in> set (evs @ [ev]))" by blast+
qed

lemma call_run: "exec_run env cu evs e \<Longrightarrow> call_inv evs e"
proof (induction rule: exec_run.induct)
  case (start cid my c e)
  show ?case using new_Executor_state [OF start]
    by (auto simp: call_inv_def pieces_inv_def answers_inv_def recvd_inv_def ran_inv_def piece_to_def fin_def new_RemoteNode_def split: if_splits)
next
  case (step evs e ev e')
  then show ?case by (blast intro: call_step(1) struct_run)
qed

text \<open>After an answer the callback is gone unless an alive member of the group has not answered.\<close>

lemma waits_for_live: "waits_for nodes t r \<longleftrightarrow> live nodes r \<and> \<not> fin rn_sent nodes r t"
  by (auto simp: waits_for_def live_def fin_def split: option.split)

lemma answer_runs_callback:
  assumes "process_response cu m e = Ok e'"
  shows "\<exists>q. ex_sent_reqs e' (task_time m) = Some q \<and>
    (ri_callback q = None \<or> (\<exists>r \<in> set (grp (ex_nodes e') (ri_recver q)). live (ex_nodes e') r \<and> \<not> fin rn_sent (ex_nodes e') r (task_time m)))"
  using assms
proof (cases rule: process_response_cases)
  case (1 nodes q)
  then show ?thesis by (auto simp: grp_def waits_for_live)
next
  case (2 nodes q nodes')
  then show ?thesis by (cases "ri_callback q") (auto simp: run_callback_def)
qed

text \<open>
  C8: In every run in which a node is added once the callback of a request is run at most once, and only when an answer to this request is processed and each
  alive node that was sent a piece of the request has answered. When an answer has been processed, the callback of its request
  has been run unless an alive member of the group has still to answer.
\<close>

theorem callbacks_once_after_answers:
  assumes "exec_run env cu evs e" "exec_step env cu e ev e'"
  shows "distinct (map fst (ex_ran e')) \<and>
    (\<forall>(t, cb) \<in> set (ex_ran e') - set (ex_ran e). (\<exists>s. ev = Answered s t) \<and>
      (\<forall>s. piece_to e' s t \<and> live (ex_nodes e') s \<longrightarrow> Answered s t \<in> set (evs @ [ev]))) \<and>
    (\<forall>s t. ev = Answered s t \<longrightarrow> (\<exists>q. ex_sent_reqs e' t = Some q \<and>
      (ri_callback q = None \<or> (\<exists>r \<in> set (grp (ex_nodes e') (ri_recver q)). live (ex_nodes e') r \<and> \<not> fin rn_sent (ex_nodes e') r t))))"
proof -
  note c = call_step [OF call_run [OF assms(1)] struct_run [OF assms(1)] assms(2)]
  have "\<exists>q. ex_sent_reqs e' t = Some q \<and>
      (ri_callback q = None \<or> (\<exists>r \<in> set (grp (ex_nodes e') (ri_recver q)). live (ex_nodes e') r \<and> \<not> fin rn_sent (ex_nodes e') r t))"
    if "ev = Answered s t" for s t
    using assms(2) that by cases (use answer_runs_callback in \<open>auto simp: ProcessActiveMsg_def\<close>)
  then show ?thesis using c by (simp add: call_inv_def ran_inv_def)
qed

definition test_push :: XMessage where
  "test_push = ack\<lparr>x_recver := kServerGroup, x_callback := Some 7\<rparr>"

definition test_answer :: XMessage where
  "test_answer = ack\<lparr>x_time := Some 0, x_sender := ''S0''\<rparr>"

lemma test_servers:
  "\<exists>e r g. exec_run test_env test_customer [Internal] e \<and> ex_recv_msgs e = [] \<and> ex_queue e = [] \<and> ex_ran e = [] \<and> ex_time e = 0 \<and> ex_sent_reqs e = Map.empty \<and>
     ex_nodes e ''S0'' = Some r \<and> rn_alive r \<and> rn_sent r = [] \<and> rn_filters r = Map.empty \<and> n_id (rn_node r) = ''S0'' \<and>
     ex_nodes e kServerGroup = Some g \<and> rn_group g = [''S0''] \<and> length (rn_keys g) = 1 \<and> n_role (rn_node g) = GROUP \<and> rn_sent g = []"
proof -
  obtain e0 where e0: "new_Executor 0 (test_node ''W0'' WORKER) () = Ok e0" using new_Executor_ok [of 0 "test_node ''W0'' WORKER" "()"] by blast
  let ?n = "(ex_nodes e0)(''S0'' \<mapsto> new_RemoteNode\<lparr>rn_node := test_node ''S0'' SERVER\<rparr>)"
  note s0 = new_Executor_state [OF e0]
  have w: "ex_nodes e0 ''S0'' = None" by (simp add: s0 GroupIDs_def group_names)
  then have "\<exists>my. ex_AddNode (test_node ''S0'' SERVER) e0 = Ok (e0\<lparr>ex_my_node := my, ex_nodes := add_to_groups (test_node ''S0'' SERVER) ?n\<rparr>)"
    by (intro exI [of _ "if ''S0'' = n_id (ex_my_node e0) then test_node ''S0'' SERVER else ex_my_node e0"])
       (auto simp: ex_AddNode_def add_or_update_def test_node_def Let_def s0(7))
  then obtain e1 my where e1: "ex_AddNode (test_node ''S0'' SERVER) e0 = Ok e1" "e1 = e0\<lparr>ex_my_node := my, ex_nodes := add_to_groups (test_node ''S0'' SERVER) ?n\<rparr>"
    by blast
  have "exec_run test_env test_customer ([] @ [Internal]) e1"
    by (rule exec_run.step [OF exec_run.start [OF e0] exec_step.add [OF _ _ e1(1)]]) (simp_all add: test_node_def w)
  moreover have "\<exists>r. ex_nodes e1 ''S0'' = Some r \<and> rn_alive r \<and> rn_sent r = [] \<and> rn_filters r = Map.empty \<and> n_id (rn_node r) = ''S0''"
    by (simp add: e1(2) add_to_groups_def test_node_def Let_def add_to_apply group_names new_RemoteNode_def)
  moreover have "\<exists>g. ex_nodes e1 kServerGroup = Some g \<and> rn_group g = [''S0''] \<and> length (rn_keys g) = 1 \<and> n_role (rn_node g) = GROUP \<and> rn_sent g = []"
    by (simp add: e1(2) add_to_groups_def test_node_def Let_def add_to_apply group_names new_RemoteNode_def s0(1) GroupIDs_def group_node_def
        AddGroupNode_def insert_at_def)
  ultimately show ?thesis using e1(2) s0 by auto
qed

lemma no_filters_upd:
  assumes "nodes s = Some r" "rn_filters r = Map.empty"
  shows "nodes(s \<mapsto> r\<lparr>rn_filters := Map.empty\<rparr>) = nodes"
proof -
  have "r\<lparr>rn_filters := Map.empty\<rparr> = r" using assms(2) by (cases r) simp
  then show ?thesis using assms(1) by (simp add: fun_upd_idem)
qed

lemma test_submit:
  assumes "ex_time e = 0" "ex_sent_reqs e = Map.empty" "ex_nodes e ''S0'' = Some r" "rn_filters r = Map.empty" "n_id (rn_node r) = ''S0''"
     "ex_nodes e kServerGroup = Some g" "rn_group g = [''S0'']" "length (rn_keys g) = 1"
  shows "\<exists>e' q. ex_Submit test_env test_customer test_push e = Ok (0, e') \<and> ex_nodes e' = ex_nodes e \<and> ex_recv_msgs e' = ex_recv_msgs e \<and> ex_ran e' = ex_ran e \<and>
    ex_queue e' = ex_queue e @ [q] \<and> is_request q \<and> x_recver q = ''S0'' \<and> x_time q = Some 0 \<and> ex_sent_reqs e' 0 = Some \<lparr>ri_recver = kServerGroup, ri_callback = Some 7\<rparr>"
  using assms
  by (simp add: no_filters_upd [where nodes = "ex_nodes e", OF assms(3,4)] ex_Submit_def test_push_def ack_def empty_wire_def Let_def GetRNode_def test_customer_def send_to_def EncodeMessage_def new_Message_def group_names)

lemma test_answered:
  assumes "ex_nodes e ''S0'' = Some r" "rn_alive r" "rn_sent r = []" "rn_filters r = Map.empty" "ex_nodes e kServerGroup = Some g" "rn_group g = [''S0'']"
    "n_role (rn_node g) = GROUP" "rn_sent g = []" "ex_recv_msgs e = [test_answer]" "ex_sent_reqs e 0 = Some \<lparr>ri_recver = kServerGroup, ri_callback = Some 7\<rparr>"
    "ex_ran e = []"
  shows "PickActiveMsg test_env e = Ok (Picked test_answer, e\<lparr>ex_nodes := ex_nodes e, ex_recv_msgs := []\<rparr>)" (is ?pick)
    "\<exists>e'. ProcessActiveMsg test_env test_customer test_answer (e\<lparr>ex_nodes := ex_nodes e, ex_recv_msgs := []\<rparr>) = Ok e' \<and> ex_ran e' = [(0, 7)]" (is ?process)
proof -
  show ?pick
    using assms(1-4,9)
    by (simp add: no_filters_upd [where nodes = "ex_nodes e", OF assms(1,4)] PickActiveMsg_def test_answer_def ack_def empty_wire_def received_twice_def task_time_def task_control_def DecodeMessage_def)
  obtain d where d: "rt_Finish 0 [] = Ok d" using rt_Finish_ok [of 0 "[]"] by auto
  then have "rt_IsFinished d 0" using rt_Finish_inserts by blast
  then show ?process
    using assms d
    by (simp add: ProcessActiveMsg_def test_answer_def ack_def empty_wire_def process_response_def task_time_def finish_sent_def GetRNode_def Let_def
        group_names waits_for_def run_callback_def)
qed

theorem callbacks_once_after_answers_witness:
  "\<exists>evs e e'. exec_run test_env test_customer evs e \<and> exec_step test_env test_customer e (Answered ''S0'' 0) e' \<and> ex_ran e = [] \<and> ex_ran e' = [(0, 7)] \<and>
    distinct (map fst (ex_ran e')) \<and> (\<forall>s. piece_to e' s 0 \<and> live (ex_nodes e') s \<longrightarrow> Answered s 0 \<in> set (evs @ [Answered ''S0'' 0]))"
proof -
  obtain e1 r g where e1: "exec_run test_env test_customer [Internal] e1" "ex_recv_msgs e1 = []" "ex_queue e1 = []" "ex_ran e1 = []"
      "ex_time e1 = 0" "ex_sent_reqs e1 = Map.empty" "ex_nodes e1 ''S0'' = Some r" "rn_alive r" "rn_sent r = []" "rn_filters r = Map.empty" "n_id (rn_node r) = ''S0''"
      "ex_nodes e1 kServerGroup = Some g" "rn_group g = [''S0'']" "length (rn_keys g) = 1" "n_role (rn_node g) = GROUP" "rn_sent g = []"
    using test_servers by blast
  obtain e2 q where e2: "ex_Submit test_env test_customer test_push e1 = Ok (0, e2)" "ex_nodes e2 = ex_nodes e1" "ex_recv_msgs e2 = []" "ex_ran e2 = []"
      "ex_queue e2 = [q]" "is_request q" "x_recver q = ''S0''" "x_time q = Some 0" "ex_sent_reqs e2 0 = Some \<lparr>ri_recver = kServerGroup, ri_callback = Some 7\<rparr>"
    using test_submit [OF e1(5-7,10-14)] e1(2-4) by auto
  have "x_time test_push = None" by (simp add: test_push_def ack_def)
  from exec_run.step [OF e1(1) exec_step.submit [OF this e2(1)]] have r2: "exec_run test_env test_customer [Internal, Sent 0] e2" by simp
  have a: "x_sender test_answer = ''S0''" "task_time test_answer = 0" "\<not> is_request test_answer" "''S0'' \<notin> set GroupIDs"
    by (simp_all add: test_answer_def ack_def task_time_def empty_wire_def GroupIDs_def group_names)
  let ?e3 = "ex_Accept test_answer e2"
  have r3: "exec_run test_env test_customer [Internal, Sent 0, Internal] ?e3"
    using exec_run.step [OF r2 exec_step.accept [of test_answer]] a e2(5-8) by simp
  have n3: "ex_nodes ?e3 = ex_nodes e1" "ex_recv_msgs ?e3 = [test_answer]" "ex_ran ?e3 = []" "ex_sent_reqs ?e3 0 = Some \<lparr>ri_recver = kServerGroup, ri_callback = Some 7\<rparr>"
    using e2 by (simp_all add: ex_Accept_def)
  note t = test_answered [of ?e3, unfolded n3, OF e1(7-10,12,13,15,16) refl refl refl]
  obtain e4 where e4: "ProcessActiveMsg test_env test_customer test_answer (?e3\<lparr>ex_nodes := ex_nodes e1, ex_recv_msgs := []\<rparr>) = Ok e4" "ex_ran e4 = [(0, 7)]"
    using t(2) by blast
  have s4: "exec_step test_env test_customer ?e3 (Answered ''S0'' 0) e4" using exec_step.response [OF t(1) a(3) e4(1)] a(1,2) by simp
  have "distinct (map fst (ex_ran e4)) \<and> (\<forall>s. piece_to e4 s 0 \<and> live (ex_nodes e4) s \<longrightarrow> Answered s 0 \<in> set ([Internal, Sent 0, Internal] @ [Answered ''S0'' 0]))"
    using callbacks_once_after_answers [OF r3 s4] n3(3) e4(2) by auto
  then show ?thesis using r3 s4 n3(3) e4(2) by blast
qed

end
