(* ===== verification/Sketch.thy ===== *)
theory Sketch
  imports Prelude
begin

text \<open>
  The sketches of \<open>ps-lite/src/base\<close>: \<open>bitmap.h\<close>, \<open>bloom_filter.h\<close>, \<open>block_bloom_filter.h\<close>, \<open>countmin.h\<close> with the hash of \<open>sketch.h\<close>, and
  the filter of infrequent keys, \<open>filter/frequency_filter.h\<close>, with counters of eight bits. A remainder by zero is an error.
\<close>

section \<open>The hash\<close>

definition sketch_hash :: "u64 \<Rightarrow> u32" where
  "sketch_hash key =
     (let seed = 0xbc9f1d34; m = 0xc6a4a793; n = 8;
          h = seed XOR (n * m);
          h = (h + ucast key) * m; h = h XOR drop_bit 16 h;
          h = (h + ucast (drop_bit 32 key)) * m in
      h XOR drop_bit 16 h)"

text \<open>Rotated to the right by 17 bits.\<close>

definition hash_delta :: "u32 \<Rightarrow> u32" where
  "hash_delta h = drop_bit 17 h OR push_bit 15 h"

text \<open>The values of \<open>h\<close> in the loops over \<open>k\<close> probes.\<close>

fun probes :: "nat \<Rightarrow> u32 \<Rightarrow> u32 \<Rightarrow> u32 list" where
  "probes 0 h d = []"
| "probes (Suc j) h d = h # probes j (h + d) d"

definition hashes :: "nat \<Rightarrow> u64 \<Rightarrow> u32 list" where
  "hashes k key = probes k (sketch_hash key) (hash_delta (sketch_hash key))"

lemma hashes_nonempty: "0 < k \<Longrightarrow> hashes k key \<noteq> []"
  by (cases k) (simp_all add: hashes_def)

section \<open>Count-min\<close>

record CountMin =
  cm_data :: "byte list"
  cm_n :: nat
  cm_k :: nat
  cm_vmax :: byte

definition new_CountMin :: CountMin where
  "new_CountMin = \<lparr>cm_data = [], cm_n = 0, cm_k = 1, cm_vmax = 0\<rparr>"

definition cm_empty :: "CountMin \<Rightarrow> bool" where
  "cm_empty s \<longleftrightarrow> cm_n s = 0"

definition cm_clear :: "CountMin \<Rightarrow> CountMin" where
  "cm_clear s = s\<lparr>cm_data := [], cm_n := 0\<rparr>"

definition cm_resize :: "int \<Rightarrow> int \<Rightarrow> byte \<Rightarrow> CountMin \<Rightarrow> CountMin" where
  "cm_resize n k v_max s = (let size = nat (max n 64) in
     s\<lparr>cm_n := size, cm_data := replicate size 0, cm_k := nat (min 30 (max 1 k)), cm_vmax := v_max\<rparr>)"

text \<open>The arithmetic on counters is that of \<open>int\<close>.\<close>

definition add_count :: "byte \<Rightarrow> byte \<Rightarrow> byte \<Rightarrow> byte" where
  "add_count v_max cnt v = (if uint cnt > uint v_max - uint v then v_max else v + cnt)"

fun insert_loop :: "byte \<Rightarrow> byte \<Rightarrow> nat \<Rightarrow> u32 list \<Rightarrow> byte list \<Rightarrow> byte list" where
  "insert_loop v_max cnt n [] data = data"
| "insert_loop v_max cnt n (h # hs) data =
     (let i = unat h mod n in insert_loop v_max cnt n hs (data[i := add_count v_max cnt (data ! i)]))"

definition cm_insert :: "u64 \<Rightarrow> byte \<Rightarrow> CountMin \<Rightarrow> CountMin res" where
  "cm_insert key cnt s =
     (if cm_n s = 0 then Err OutOfBounds
      else Ok (s\<lparr>cm_data := insert_loop (cm_vmax s) cnt (cm_n s) (hashes (cm_k s) key) (cm_data s)\<rparr>))"

fun query_loop :: "nat \<Rightarrow> u32 list \<Rightarrow> byte list \<Rightarrow> byte \<Rightarrow> byte" where
  "query_loop n [] data r = r"
| "query_loop n (h # hs) data r = query_loop n hs data (min r (data ! (unat h mod n)))"

definition cm_query :: "u64 \<Rightarrow> CountMin \<Rightarrow> byte res" where
  "cm_query key s = (if cm_n s = 0 then Err OutOfBounds else Ok (query_loop (cm_n s) (hashes (cm_k s) key) (cm_data s) (cm_vmax s)))"

text \<open>The cells a key is counted in, and how much was counted in a cell.\<close>

definition key_cells :: "nat \<Rightarrow> nat \<Rightarrow> u64 \<Rightarrow> nat list" where
  "key_cells n k key = map (\<lambda>h. unat h mod n) (hashes k key)"

definition counted :: "nat \<Rightarrow> nat \<Rightarrow> (u64 \<times> byte) list \<Rightarrow> nat \<Rightarrow> nat" where
  "counted n k kcs c = sum_list (map (\<lambda>(key, cnt). unat cnt * count_list (key_cells n k key) c) kcs)"

definition own :: "(u64 \<times> byte) list \<Rightarrow> u64 \<Rightarrow> nat" where
  "own kcs key = sum_list (map (\<lambda>(key', cnt). if key' = key then unat cnt else 0) kcs)"

lemma add_count_sat:
  assumes "unat v \<le> unat v_max"
  shows "unat (add_count v_max cnt v) = min (unat v_max) (unat v + unat cnt)"
proof (cases "uint cnt > uint v_max - uint v")
  case True
  then have "int (unat cnt) > int (unat v_max) - int (unat v)" by simp
  then have "unat v_max < unat v + unat cnt" by linarith
  then show ?thesis using True by (simp add: add_count_def)
next
  case False
  then have "int (unat cnt) \<le> int (unat v_max) - int (unat v)" by simp
  then have le: "unat v + unat cnt \<le> unat v_max" by linarith
  have "unat v_max < 2 ^ 8" using unsigned_less [of v_max, where ?'a = nat] by simp
  then have "unat (v + cnt) = unat v + unat cnt" using le by (intro unat_add_lem [THEN iffD1]) simp
  then show ?thesis using False le by (simp add: add_count_def)
qed

definition cm_ok :: "CountMin \<Rightarrow> bool" where
  "cm_ok s \<longleftrightarrow> 0 < cm_n s \<and> length (cm_data s) = cm_n s \<and> 0 < cm_k s \<and> (\<forall>v \<in> set (cm_data s). unat v \<le> unat (cm_vmax s))"

lemma insert_loop_cell:
  assumes "0 < n" "length data = n" "\<forall>v \<in> set data. unat v \<le> unat v_max"
  shows "length (insert_loop v_max cnt n hs data) = n \<and> (\<forall>v \<in> set (insert_loop v_max cnt n hs data). unat v \<le> unat v_max) \<and>
    (\<forall>c < n. unat (insert_loop v_max cnt n hs data ! c) =
      min (unat v_max) (unat (data ! c) + unat cnt * count_list (map (\<lambda>h. unat h mod n) hs) c))"
  using assms(2,3)
proof (induction hs arbitrary: data)
  case Nil
  then have "\<forall>c < n. unat (data ! c) \<le> unat v_max" by simp
  then show ?case using Nil by (simp add: min_absorb2)
next
  case (Cons h hs)
  define i where "i = unat h mod n"
  define d where "d = data[i := add_count v_max cnt (data ! i)]"
  have i: "i < length data" using assms(1) Cons.prems(1) by (simp add: i_def)
  then have le: "unat (data ! i) \<le> unat v_max" using Cons.prems(2) by simp
  have d: "length d = n" "\<forall>v \<in> set d. unat v \<le> unat v_max"
  proof -
    have "set d \<subseteq> insert (add_count v_max cnt (data ! i)) (set data)" unfolding d_def by (rule set_update_subset_insert)
    moreover have "unat (add_count v_max cnt (data ! i)) \<le> unat v_max" using add_count_sat [OF le, of cnt] by simp
    ultimately show "\<forall>v \<in> set d. unat v \<le> unat v_max" using Cons.prems(2) by blast
  qed (simp add: d_def Cons.prems(1))
  have c: "unat (d ! c) = min (unat v_max) (unat (data ! c) + (if c = i then unat cnt else 0))" if "c < n" for c
    using that i Cons.prems add_count_sat [OF le, of cnt] by (cases "c = i") (auto simp: d_def min_absorb2)
  have l: "insert_loop v_max cnt n (h # hs) data = insert_loop v_max cnt n hs d" by (simp add: Let_def d_def i_def)
  show ?case unfolding l using Cons.IH [OF d] c by (auto simp: i_def [symmetric] min_def)
qed

text \<open>After a sequence of insertions every cell holds what was counted in it, up to the greatest value.\<close>

fun cm_inserts :: "(u64 \<times> byte) list \<Rightarrow> CountMin \<Rightarrow> CountMin res" where
  "cm_inserts [] s = Ok s"
| "cm_inserts ((key, cnt) # kcs) s = rbind (cm_insert key cnt s) (cm_inserts kcs)"

lemma cm_insert_ok:
  assumes "cm_ok s"
  shows "\<exists>d. cm_insert key cnt s = Ok (s\<lparr>cm_data := d\<rparr>) \<and> cm_ok (s\<lparr>cm_data := d\<rparr>) \<and>
    (\<forall>c < cm_n s. unat (d ! c) = min (unat (cm_vmax s)) (unat (cm_data s ! c) + unat cnt * count_list (key_cells (cm_n s) (cm_k s) key) c))"
  using assms insert_loop_cell [of "cm_n s" "cm_data s" "cm_vmax s" cnt "hashes (cm_k s) key"]
  by (auto simp: cm_insert_def cm_ok_def key_cells_def)

lemma cm_inserts_cells:
  assumes "cm_ok s"
  shows "\<exists>d. cm_inserts kcs s = Ok (s\<lparr>cm_data := d\<rparr>) \<and> cm_ok (s\<lparr>cm_data := d\<rparr>) \<and>
    (\<forall>c < cm_n s. unat (d ! c) = min (unat (cm_vmax s)) (unat (cm_data s ! c) + counted (cm_n s) (cm_k s) kcs c))"
  using assms
proof (induction kcs arbitrary: s)
  case Nil
  then have "\<forall>c < cm_n s. unat (cm_data s ! c) \<le> unat (cm_vmax s)" by (simp add: cm_ok_def)
  then show ?case using Nil by (intro exI [of _ "cm_data s"]) (simp add: counted_def min_absorb2)
next
  case (Cons kc kcs)
  obtain key cnt where kc: "kc = (key, cnt)" by (cases kc)
  obtain d where d: "cm_insert key cnt s = Ok (s\<lparr>cm_data := d\<rparr>)" "cm_ok (s\<lparr>cm_data := d\<rparr>)"
      "\<forall>c < cm_n s. unat (d ! c) = min (unat (cm_vmax s)) (unat (cm_data s ! c) + unat cnt * count_list (key_cells (cm_n s) (cm_k s) key) c)"
    using cm_insert_ok [OF Cons.prems] by blast
  obtain d' where d': "cm_inserts kcs (s\<lparr>cm_data := d\<rparr>) = Ok (s\<lparr>cm_data := d'\<rparr>)" "cm_ok (s\<lparr>cm_data := d'\<rparr>)"
      "\<forall>c < cm_n s. unat (d' ! c) = min (unat (cm_vmax s)) (unat (d ! c) + counted (cm_n s) (cm_k s) kcs c)"
    using Cons.IH [OF d(2)] by auto
  show ?case using d(1,3) d' kc by (intro exI [of _ d']) (auto simp: counted_def min_def)
qed

lemma le_query_loop: "x \<le> unat (query_loop n hs data r) \<longleftrightarrow> x \<le> unat r \<and> (\<forall>h \<in> set hs. x \<le> unat (data ! (unat h mod n)))"
  by (induction hs arbitrary: r) (auto simp: min_def word_le_nat_alt)

lemma cm_query_ok: "cm_ok s \<Longrightarrow> \<exists>v. cm_query key s = Ok v \<and>
    (\<forall>x. x \<le> unat v \<longleftrightarrow> x \<le> unat (cm_vmax s) \<and> (\<forall>c \<in> set (key_cells (cm_n s) (cm_k s) key). x \<le> unat (cm_data s ! c)))"
  by (auto simp: cm_query_def cm_ok_def le_query_loop key_cells_def)

lemma key_cells_less: "0 < n \<Longrightarrow> c \<in> set (key_cells n k key) \<Longrightarrow> c < n"
  by (auto simp: key_cells_def)

lemma own_le_counted: "c \<in> set (key_cells n k key) \<Longrightarrow> own kcs key \<le> counted n k kcs c"
proof (induction kcs)
  case (Cons kc kcs)
  obtain key' cnt where kc: "kc = (key', cnt)" by (cases kc)
  have "1 \<le> count_list (key_cells n k key) c" using Cons.prems count_list_0_iff [of "key_cells n k key" c] by simp
  then have "(if key' = key then unat cnt else 0) \<le> unat cnt * count_list (key_cells n k key') c" by simp
  moreover have "own (kc # kcs) key = (if key' = key then unat cnt else 0) + own kcs key"
    "counted n k (kc # kcs) c = unat cnt * count_list (key_cells n k key') c + counted n k kcs c"
    by (simp_all add: own_def counted_def kc)
  ultimately show ?case using Cons.IH [OF Cons.prems] by linarith
qed (simp add: own_def counted_def)

lemma cm_resize_ok: "cm_ok (cm_resize n k v_max s)"
  by (auto simp: cm_ok_def cm_resize_def Let_def max_def)

text \<open>
  After any insertions into a resized count-min sketch the query of a key is answered, with at least the number of times
  the key was counted, up to the greatest value, and with at most what was counted in any cell of the key: it is exact when one of
  them is hit by this key alone and once.
\<close>

lemma countmin_bounds:
  "\<exists>s v. cm_inserts kcs (cm_resize n k v_max new_CountMin) = Ok s \<and> cm_query key s = Ok v \<and>
    min (unat v_max) (own kcs key) \<le> unat v \<and> unat v \<le> unat v_max \<and>
    (\<forall>c \<in> set (key_cells (cm_n s) (cm_k s) key). unat v \<le> counted (cm_n s) (cm_k s) kcs c)"
proof -
  define s where "s = cm_resize n k v_max new_CountMin"
  have ok: "cm_ok s" unfolding s_def by (rule cm_resize_ok)
  obtain d where d: "cm_inserts kcs s = Ok (s\<lparr>cm_data := d\<rparr>)" "cm_ok (s\<lparr>cm_data := d\<rparr>)"
      "\<forall>c < cm_n s. unat (d ! c) = min (unat (cm_vmax s)) (unat (cm_data s ! c) + counted (cm_n s) (cm_k s) kcs c)"
    using cm_inserts_cells [OF ok] by blast
  obtain v where v: "cm_query key (s\<lparr>cm_data := d\<rparr>) = Ok v"
      "\<forall>x. x \<le> unat v \<longleftrightarrow> x \<le> unat (cm_vmax s) \<and> (\<forall>c \<in> set (key_cells (cm_n s) (cm_k s) key). x \<le> unat (d ! c))"
    using cm_query_ok [OF d(2), of key] by auto
  have "unat (d ! c) = min (unat v_max) (counted (cm_n s) (cm_k s) kcs c)" if "c \<in> set (key_cells (cm_n s) (cm_k s) key)" for c
    using d(3) key_cells_less [OF _ that] ok by (simp add: s_def cm_resize_def Let_def cm_ok_def)
  moreover have "cm_vmax s = v_max" by (simp add: s_def cm_resize_def Let_def)
  ultimately have "\<forall>x. x \<le> unat v \<longleftrightarrow> x \<le> unat v_max \<and> (\<forall>c \<in> set (key_cells (cm_n s) (cm_k s) key). x \<le> counted (cm_n s) (cm_k s) kcs c)"
    using v(2) by auto
  then have "min (unat v_max) (own kcs key) \<le> unat v" "unat v \<le> unat v_max" "\<forall>c \<in> set (key_cells (cm_n s) (cm_k s) key). unat v \<le> counted (cm_n s) (cm_k s) kcs c"
    using own_le_counted [of _ "cm_n s" "cm_k s" key kcs] by (auto simp: min_le_iff_disj)
  then show ?thesis using d(1) v(1) unfolding s_def by auto
qed

lemma countmin_bounds_example:
  "\<exists>s v. cm_inserts [(5, 3), (9, 1), (5, 4)] (cm_resize 0 2 254 new_CountMin) = Ok s \<and> cm_query 5 s = Ok v \<and> 7 \<le> unat v"
  using countmin_bounds [of "[(5, 3), (9, 1), (5, 4)]" 0 2 254 5] by (auto simp: own_def)

section \<open>The filter of infrequent keys\<close>

definition ff_Resize :: "int \<Rightarrow> int \<Rightarrow> CountMin \<Rightarrow> CountMin" where
  "ff_Resize n k s = cm_resize n k 254 s"

definition ff_Empty :: "CountMin \<Rightarrow> bool" where
  "ff_Empty s = cm_empty s"

definition ff_Clear :: "CountMin \<Rightarrow> CountMin" where
  "ff_Clear s = cm_clear s"

definition ff_InsertKeys :: "u64 list \<Rightarrow> byte list \<Rightarrow> CountMin \<Rightarrow> CountMin res" where
  "ff_InsertKeys key cnt s = check (length key = length cnt) ''key.size() == count.size()'' (cm_inserts (zip key cnt) s)"

fun query_keys :: "u64 list \<Rightarrow> int \<Rightarrow> CountMin \<Rightarrow> u64 list res" where
  "query_keys [] freq s = Ok []"
| "query_keys (k # ks) freq s =
     rbind (cm_query k s) (\<lambda>v. rmap (\<lambda>r. if int (unat v) > freq then k # r else r) (query_keys ks freq s))"

definition ff_QueryKeys :: "u64 list \<Rightarrow> int \<Rightarrow> CountMin \<Rightarrow> u64 list res" where
  "ff_QueryKeys key freq s = check (freq < 255) ''freqency < kuint8max'' (query_keys key freq s)"

fun insert_all :: "(u64 list \<times> byte list) list \<Rightarrow> CountMin \<Rightarrow> CountMin res" where
  "insert_all [] s = Ok s"
| "insert_all ((key, cnt) # bs) s = rbind (ff_InsertKeys key cnt s) (insert_all bs)"

lemma cm_inserts_append: "cm_inserts (xs @ ys) s = rbind (cm_inserts xs s) (cm_inserts ys)"
proof (induction xs arbitrary: s)
  case (Cons x xs)
  have "cm_inserts (xs @ ys) = (\<lambda>s. rbind (cm_inserts xs s) (cm_inserts ys))" using Cons by (rule ext)
  then show ?case by (cases x) (simp add: rbind_assoc)
qed simp

lemma insert_all_inserts:
  assumes "\<forall>(key, cnt) \<in> set bs. length key = length cnt"
  shows "insert_all bs s = cm_inserts (concat (map (\<lambda>(key, cnt). zip key cnt) bs)) s"
  using assms
proof (induction bs s rule: insert_all.induct)
  case (2 key cnt bs s)
  then have "insert_all bs = cm_inserts (concat (map (\<lambda>(key, cnt). zip key cnt) bs))" by auto
  then show ?case using 2(2) by (simp add: ff_InsertKeys_def cm_inserts_append)
qed simp

lemma query_keys_filter:
  assumes "\<forall>k. \<exists>v. cm_query k s = Ok v"
  shows "query_keys ks freq s = Ok (filter (\<lambda>k. \<exists>v. cm_query k s = Ok v \<and> int (unat v) > freq) ks)"
proof (induction ks)
  case (Cons k ks)
  obtain v where "cm_query k s = Ok v" using assms by blast
  then show ?case using Cons by simp
qed simp

text \<open>
  C37: The filter never drops a frequent key: after any batches of counted keys, the keys returned for a threshold below 254 are a
  selection of the keys asked for, in their order, with every key whose counts add up to more than the threshold.
\<close>

theorem frequent_keys_kept:
  assumes "\<forall>(key, cnt) \<in> set bs. length key = length cnt" "freq < 254"
  shows "\<exists>s P. insert_all bs (ff_Resize n k new_CountMin) = Ok s \<and> ff_QueryKeys keys freq s = Ok (filter P keys) \<and>
    (\<forall>key. int (own (concat (map (\<lambda>(key, cnt). zip key cnt) bs)) key) > freq \<longrightarrow> P key)"
proof -
  let ?kcs = "concat (map (\<lambda>(key, cnt). zip key cnt) bs)"
  obtain s where s: "cm_inserts ?kcs (ff_Resize n k new_CountMin) = Ok s" using countmin_bounds [of ?kcs n k 254] unfolding ff_Resize_def by blast
  have q: "\<exists>v. cm_query key s = Ok v \<and> min 254 (own ?kcs key) \<le> unat v" for key
    using countmin_bounds [of ?kcs n k 254 key] s unfolding ff_Resize_def by auto
  let ?P = "\<lambda>k. \<exists>v. cm_query k s = Ok v \<and> int (unat v) > freq"
  have "ff_QueryKeys keys freq s = Ok (filter ?P keys)" using query_keys_filter [of s keys freq] q assms(2) unfolding ff_QueryKeys_def by force
  moreover have "?P key" if "int (own ?kcs key) > freq" for key
  proof -
    obtain v where v: "cm_query key s = Ok v" "min 254 (own ?kcs key) \<le> unat v" using q by blast
    have "freq < int (min 254 (own ?kcs key))" using that assms(2) by (simp add: min_def)
    also have "\<dots> \<le> int (unat v)" using v(2) by (rule of_nat_mono)
    finally show ?thesis using v(1) by blast
  qed
  ultimately show ?thesis using s insert_all_inserts [OF assms(1)] by auto
qed

theorem frequent_keys_kept_witness:
  "\<exists>s P. insert_all [([5, 9], [200, 1]), ([5], [50])] (ff_Resize 64 3 new_CountMin) = Ok s \<and> ff_QueryKeys [9, 5] 249 s = Ok (filter P [9, 5]) \<and> P 5"
proof -
  let ?bs = "[([5, 9], [200, 1]), ([5], [50])] :: (u64 list \<times> byte list) list"
  have b: "\<forall>(key, cnt) \<in> set ?bs. length key = length cnt" "(249 :: int) < 254" by simp_all
  have "int (own (concat (map (\<lambda>(key, cnt). zip key cnt) ?bs)) 5) > 249" by (simp add: own_def)
  then show ?thesis using frequent_keys_kept [OF b, of 64 3 "[9, 5]"] by metis
qed

text \<open>The check allows the threshold 254, but counters stop at 254: nothing is returned, however often a key was counted.\<close>

lemma threshold_254_drops_all:
  assumes "insert_all bs (ff_Resize n k new_CountMin) = Ok s" "\<forall>(key, cnt) \<in> set bs. length key = length cnt"
  shows "ff_QueryKeys keys 254 s = Ok []"
proof -
  let ?kcs = "concat (map (\<lambda>(key, cnt). zip key cnt) bs)"
  have "cm_inserts ?kcs (cm_resize n k 254 new_CountMin) = Ok s" using assms insert_all_inserts [OF assms(2)] by (simp add: ff_Resize_def)
  then have q: "\<exists>v. cm_query key s = Ok v \<and> unat v \<le> 254" for key using countmin_bounds [of ?kcs n k 254 key] by auto
  have "\<not> (\<exists>v. cm_query k s = Ok v \<and> int (unat v) > 254)" for k
  proof -
    obtain v where v: "cm_query k s = Ok v" "unat v \<le> 254" using q by blast
    have "\<not> int (unat v) > 254" using v(2) by linarith
    then show ?thesis using v(1) by (metis res.inject(1))
  qed
  then have "filter (\<lambda>k. \<exists>v. cm_query k s = Ok v \<and> int (unat v) > 254) keys = []" by simp
  moreover have "\<forall>k. \<exists>v. cm_query k s = Ok v" using q by blast
  ultimately show ?thesis using query_keys_filter [of s keys 254] by (simp add: ff_QueryKeys_def)
qed

section \<open>Bloom filters\<close>

fun ins_all :: "(u64 \<Rightarrow> 's \<Rightarrow> 's res) \<Rightarrow> u64 list \<Rightarrow> 's \<Rightarrow> 's res" where
  "ins_all ins [] s = Ok s"
| "ins_all ins (x # xs) s = rbind (ins x s) (ins_all ins xs)"

text \<open>What a sketch of a set promises: a key that was inserted is found, whatever else is inserted.\<close>

locale membership =
  fixes ins :: "u64 \<Rightarrow> 's \<Rightarrow> 's res" and query :: "u64 \<Rightarrow> 's \<Rightarrow> bool res" and inv :: "'s \<Rightarrow> bool"
  assumes ins_ok: "inv s \<Longrightarrow> \<exists>s'. ins x s = Ok s' \<and> inv s' \<and> query x s' = Ok True \<and> (\<forall>y. query y s = Ok True \<longrightarrow> query y s' = Ok True)"
begin

lemma no_false_negative: "inv s \<Longrightarrow> \<exists>s'. ins_all ins xs s = Ok s' \<and> inv s' \<and> (\<forall>x \<in> set xs. query x s' = Ok True) \<and>
    (\<forall>y. query y s = Ok True \<longrightarrow> query y s' = Ok True)"
proof (induction xs arbitrary: s)
  case (Cons x xs)
  obtain s1 where s1: "ins x s = Ok s1" "inv s1" "query x s1 = Ok True" "\<forall>y. query y s = Ok True \<longrightarrow> query y s1 = Ok True"
    using ins_ok [OF Cons.prems] by blast
  from Cons.IH [OF s1(2)] show ?case using s1 by auto
qed simp

end

text \<open>The loops of both filters: \<open>base\<close> is the beginning of the bytes that are used.\<close>

fun set_loop :: "nat \<Rightarrow> nat \<Rightarrow> u32 list \<Rightarrow> byte list \<Rightarrow> byte list" where
  "set_loop base m [] data = data"
| "set_loop base m (h # hs) data =
     (let bitpos = unat h mod m; i = base + bitpos div 8 in set_loop base m hs (data[i := data ! i OR push_bit (bitpos mod 8) 1]))"

fun test_loop :: "nat \<Rightarrow> nat \<Rightarrow> u32 list \<Rightarrow> byte list \<Rightarrow> bool" where
  "test_loop base m [] data = True"
| "test_loop base m (h # hs) data =
     (let bitpos = unat h mod m in
      if data ! (base + bitpos div 8) AND push_bit (bitpos mod 8) 1 = 0 then False else test_loop base m hs data)"

record BloomFilter =
  bf_data :: "byte list"
  bf_m :: nat
  bf_k :: nat

definition bf_resize :: "nat \<Rightarrow> int \<Rightarrow> BloomFilter \<Rightarrow> BloomFilter" where
  "bf_resize m k s = s\<lparr>bf_k := nat (min 64 (max 1 k)), bf_m := m, bf_data := replicate (m div 8 + 1) 0\<rparr>"

definition bf_query :: "u64 \<Rightarrow> BloomFilter \<Rightarrow> bool res" where
  "bf_query key s = (if bf_m s = 0 then Err OutOfBounds else Ok (test_loop 0 (bf_m s) (hashes (bf_k s) key) (bf_data s)))"

definition bf_insert :: "u64 \<Rightarrow> BloomFilter \<Rightarrow> BloomFilter res" where
  "bf_insert key s =
     (if bf_m s = 0 then Err OutOfBounds else Ok (s\<lparr>bf_data := set_loop 0 (bf_m s) (hashes (bf_k s) key) (bf_data s)\<rparr>))"

record BlockBloomFilter =
  bb_data :: "byte list"
  bb_m :: nat
  bb_k :: nat
  bb_num_bin :: nat

definition new_BlockBloomFilter :: BlockBloomFilter where
  "new_BlockBloomFilter = \<lparr>bb_data = [], bb_m = 0, bb_k = 0, bb_num_bin = 0\<rparr>"

definition bin_size :: nat where "bin_size = 64"

text \<open>The bytes are allocated anew only when the filter grows; \<open>reset\<close> clears the first \<open>data_size_\<close> of them.\<close>

definition bb_data_size :: "BlockBloomFilter \<Rightarrow> nat" where
  "bb_data_size s = bb_num_bin s * bin_size"

definition bb_reset :: "BlockBloomFilter \<Rightarrow> BlockBloomFilter" where
  "bb_reset s = s\<lparr>bb_data := replicate (bb_data_size s) 0 @ drop (bb_data_size s) (bb_data s)\<rparr>"

definition bb_resize :: "nat \<Rightarrow> int \<Rightarrow> BlockBloomFilter \<Rightarrow> BlockBloomFilter" where
  "bb_resize m0 k s =
     (let m = max m0 1024;
          s1 = s\<lparr>bb_num_bin := m div 8 div bin_size + 1\<rparr>;
          s2 = if m > bb_m s then s1\<lparr>bb_data := replicate (bb_data_size s1) 0\<rparr> else s1 in
      bb_reset (s2\<lparr>bb_k := nat (min 64 (max 1 k)), bb_m := m\<rparr>))"

definition bb_query :: "u64 \<Rightarrow> BlockBloomFilter \<Rightarrow> bool res" where
  "bb_query key s =
     (if bb_num_bin s = 0 then Err OutOfBounds
      else Ok (test_loop (unat (sketch_hash key) mod bb_num_bin s * bin_size) (bin_size * 8) (hashes (bb_k s) key) (bb_data s)))"

definition bb_insert :: "u64 \<Rightarrow> BlockBloomFilter \<Rightarrow> BlockBloomFilter res" where
  "bb_insert key s =
     (if bb_num_bin s = 0 then Err OutOfBounds
      else Ok (s\<lparr>bb_data := set_loop (unat (sketch_hash key) mod bb_num_bin s * bin_size) (bin_size * 8) (hashes (bb_k s) key) (bb_data s)\<rparr>))"

text \<open>Bits are only set, and the probed ones are.\<close>

lemma test_loop_bits: "test_loop base m hs data \<longleftrightarrow> (\<forall>h \<in> set hs. bit (data ! (base + unat h mod m div 8)) (unat h mod m mod 8))"
  by (induction hs) (auto simp: Let_def bit_iff_and_push_bit_not_eq_0)

lemma set_loop_bits:
  assumes "\<forall>h. base + unat (h :: u32) mod m div 8 < length data"
  shows "length (set_loop base m hs data) = length data \<and> (\<forall>i < length data. \<forall>b. bit (set_loop base m hs data ! i) b \<longleftrightarrow>
    bit (data ! i) b \<or> (\<exists>h \<in> set hs. i = base + unat h mod m div 8 \<and> b = unat h mod m mod 8))"
  using assms
proof (induction hs arbitrary: data)
  case (Cons h hs)
  define j where "j = base + unat h mod m div 8"
  define d where "d = data[j := data ! j OR push_bit (unat h mod m mod 8) 1]"
  have l: "set_loop base m (h # hs) data = set_loop base m hs d" by (simp add: Let_def d_def j_def)
  have d: "length d = length data" by (simp add: d_def)
  have "bit (d ! i) b \<longleftrightarrow> bit (data ! i) b \<or> (i = j \<and> b = unat h mod m mod 8)" if "i < length data" for i b
    using that by (cases "i = j") (auto simp: d_def bit_simps)
  then show ?case unfolding l using Cons.IH [of d] Cons.prems d by (auto simp: j_def)
qed simp

lemma set_then_test:
  assumes "\<forall>h. base + unat (h :: u32) mod m div 8 < length data"
  shows "test_loop base m hs (set_loop base m hs data)"
  using set_loop_bits [OF assms] assms by (auto simp: test_loop_bits)

lemma set_keeps_test:
  assumes "\<forall>h. base + unat (h :: u32) mod m div 8 < length data" "test_loop base' m' hs' data" "\<forall>h. base' + unat (h :: u32) mod m' div 8 < length data"
  shows "test_loop base' m' hs' (set_loop base m hs data)"
  using assms(2) set_loop_bits [OF assms(1)] assms(3) by (auto simp: test_loop_bits)

definition bf_ok :: "BloomFilter \<Rightarrow> bool" where
  "bf_ok s \<longleftrightarrow> 0 < bf_m s \<and> bf_m s div 8 < length (bf_data s)"

lemma bf_index: "bf_ok s \<Longrightarrow> 0 + unat (h :: u32) mod bf_m s div 8 < length (bf_data s)"
  using div_le_mono [of "unat h mod bf_m s" "bf_m s" 8] by (auto simp: bf_ok_def)

interpretation bloom: membership bf_insert bf_query bf_ok
proof
  fix s x assume ok: "bf_ok s"
  let ?d = "set_loop 0 (bf_m s) (hashes (bf_k s) x) (bf_data s)"
  have i: "\<forall>h :: u32. 0 + unat h mod bf_m s div 8 < length (bf_data s)" using bf_index [OF ok] by blast
  have "bf_insert x s = Ok (s\<lparr>bf_data := ?d\<rparr>)" "bf_ok (s\<lparr>bf_data := ?d\<rparr>)"
    using ok set_loop_bits [OF i] by (simp_all add: bf_insert_def bf_ok_def)
  moreover have "bf_query x (s\<lparr>bf_data := ?d\<rparr>) = Ok True"
    using ok set_then_test [OF i] by (simp add: bf_query_def bf_ok_def)
  moreover have "bf_query y (s\<lparr>bf_data := ?d\<rparr>) = Ok True" if "bf_query y s = Ok True" for y
    using ok that set_keeps_test [OF i _ i] by (simp add: bf_query_def bf_ok_def)
  ultimately show "\<exists>s'. bf_insert x s = Ok s' \<and> bf_ok s' \<and> bf_query x s' = Ok True \<and> (\<forall>y. bf_query y s = Ok True \<longrightarrow> bf_query y s' = Ok True)"
    by blast
qed

definition bb_ok :: "BlockBloomFilter \<Rightarrow> bool" where
  "bb_ok s \<longleftrightarrow> 0 < bb_num_bin s \<and> bb_num_bin s * bin_size \<le> length (bb_data s)"

lemma bb_index:
  assumes "bb_ok s"
  shows "unat (x :: u32) mod bb_num_bin s * bin_size + unat (h :: u32) mod (bin_size * 8) div 8 < length (bb_data s)"
proof -
  have "Suc (unat x mod bb_num_bin s) * 64 \<le> bb_num_bin s * 64" using assms by (intro mult_le_mono1) (simp add: bb_ok_def Suc_leI)
  moreover have "bb_num_bin s * 64 \<le> length (bb_data s)" using assms by (simp add: bb_ok_def bin_size_def)
  moreover have "unat h mod (bin_size * 8) div 8 < 64" by (simp add: bin_size_def less_mult_imp_div_less)
  ultimately show ?thesis by (simp add: bin_size_def)
qed

text \<open>What is allocated is enough for the recorded size, so that a filter can be resized again and again.\<close>

definition bb_alloc :: "BlockBloomFilter \<Rightarrow> bool" where
  "bb_alloc s \<longleftrightarrow> bb_m s = 0 \<or> (bb_m s div 8 div bin_size + 1) * bin_size \<le> length (bb_data s)"

lemma bb_resize_ok:
  assumes "bb_alloc s"
  shows "bb_ok (bb_resize m k s)" "bb_alloc (bb_resize m k s)"
proof -
  have "(max m 1024 div 8 div 64 + 1) * 64 \<le> length (bb_data s)" if "\<not> max m 1024 > bb_m s"
  proof -
    have le: "max m 1024 \<le> bb_m s" using that by linarith
    then have "(max m 1024 div 8 div 64 + 1) * 64 \<le> (bb_m s div 8 div 64 + 1) * 64"
      by (intro mult_le_mono1 add_le_mono div_le_mono) simp_all
    moreover have "bb_m s \<noteq> 0" using le by simp
    ultimately show ?thesis using assms by (auto simp: bb_alloc_def bin_size_def)
  qed
  then show "bb_ok (bb_resize m k s)" "bb_alloc (bb_resize m k s)"
    by (auto simp: bb_ok_def bb_alloc_def bb_resize_def bb_reset_def bb_data_size_def Let_def bin_size_def)
qed

lemma bb_insert_alloc: "bb_ok s \<Longrightarrow> bb_alloc s \<Longrightarrow> bb_insert x s = Ok s' \<Longrightarrow> bb_alloc s'"
  using set_loop_bits [of "unat (sketch_hash x) mod bb_num_bin s * bin_size" "bin_size * 8" "bb_data s" "hashes (bb_k s) x"] bb_index [of s "sketch_hash x"]
  by (auto simp: bb_insert_def bb_alloc_def split: if_splits)

interpretation block_bloom: membership bb_insert bb_query bb_ok
proof
  fix s x assume ok: "bb_ok s"
  let ?d = "set_loop (unat (sketch_hash x) mod bb_num_bin s * bin_size) (bin_size * 8) (hashes (bb_k s) x) (bb_data s)"
  have i: "\<forall>h :: u32. unat (sketch_hash x) mod bb_num_bin s * bin_size + unat h mod (bin_size * 8) div 8 < length (bb_data s)" for x
    using bb_index [OF ok] by blast
  have "bb_insert x s = Ok (s\<lparr>bb_data := ?d\<rparr>)" "bb_ok (s\<lparr>bb_data := ?d\<rparr>)"
    using ok set_loop_bits [OF i] by (simp_all add: bb_insert_def bb_ok_def)
  moreover have "bb_query x (s\<lparr>bb_data := ?d\<rparr>) = Ok True"
    using ok set_then_test [OF i] by (simp add: bb_query_def bb_ok_def)
  moreover have "bb_query y (s\<lparr>bb_data := ?d\<rparr>) = Ok True" if "bb_query y s = Ok True" for y
    using ok that set_keeps_test [OF i _ i] by (simp add: bb_query_def bb_ok_def)
  ultimately show "\<exists>s'. bb_insert x s = Ok s' \<and> bb_ok s' \<and> bb_query x s' = Ok True \<and> (\<forall>y. bb_query y s = Ok True \<longrightarrow> bb_query y s' = Ok True)"
    by blast
qed

text \<open>
  C38: Neither Bloom filter has false negatives: after resizing, to at least one bit for the plain one and any number of times for the blocked one, and after inserting any keys in any order,
  the query of each of them is true.
\<close>

theorem bloom_no_false_negatives:
  assumes "0 < m" "bb_alloc t0"
  shows "(\<exists>s. ins_all bf_insert xs (bf_resize m k s0) = Ok s \<and> (\<forall>x \<in> set xs. bf_query x s = Ok True)) \<and>
    (\<exists>s. ins_all bb_insert xs (bb_resize m' k t0) = Ok s \<and> (\<forall>x \<in> set xs. bb_query x s = Ok True))"
proof -
  have "bf_ok (bf_resize m k s0)" using assms by (simp add: bf_ok_def bf_resize_def)
  then show ?thesis using bb_resize_ok(1) [OF assms(2)] bloom.no_false_negative block_bloom.no_false_negative by blast
qed

theorem bloom_no_false_negatives_witness:
  "(\<exists>s. ins_all bf_insert [3, 1] (bf_resize 100 4 \<lparr>bf_data = [], bf_m = 0, bf_k = 0\<rparr>) = Ok s \<and> bf_query 1 s = Ok True) \<and>
   (\<exists>s. ins_all bb_insert [3, 1] (bb_resize 5 4 (bb_resize 2000 3 new_BlockBloomFilter)) = Ok s \<and> bb_query 3 s = Ok True)"
proof -
  have "bb_alloc (bb_resize 2000 3 new_BlockBloomFilter)" by (rule bb_resize_ok) (simp add: bb_alloc_def new_BlockBloomFilter_def)
  from bloom_no_false_negatives [OF _ this, of 100 "[3, 1]" 4 "\<lparr>bf_data = [], bf_m = 0, bf_k = 0\<rparr>" 5]
  show ?thesis by (simp del: ins_all.simps) blast
qed

section \<open>Bitmaps\<close>

record Bitmap =
  bm_map :: "u16 list"
  bm_size :: nat

definition bm_fill :: "bool \<Rightarrow> Bitmap \<Rightarrow> Bitmap" where
  "bm_fill value b = b\<lparr>bm_map := replicate (length (bm_map b)) (if value then - 1 else 0)\<rparr>"

definition bm_resize :: "nat \<Rightarrow> bool \<Rightarrow> Bitmap \<Rightarrow> Bitmap res" where
  "bm_resize n value b =
     check (bm_size b = 0) ''size_ == 0'' (Ok (bm_fill value (b\<lparr>bm_size := n, bm_map := replicate (n div 16 + 1) 0\<rparr>)))"

definition bm_clear_all :: "Bitmap \<Rightarrow> Bitmap" where
  "bm_clear_all b = b\<lparr>bm_map := [], bm_size := 0\<rparr>"

definition bm_set :: "nat \<Rightarrow> Bitmap \<Rightarrow> Bitmap res" where
  "bm_set i b = (if i div 16 < length (bm_map b)
     then Ok (b\<lparr>bm_map := (bm_map b)[i div 16 := bm_map b ! (i div 16) OR push_bit (i mod 16) 1]\<rparr>) else Err OutOfBounds)"

definition bm_clear :: "nat \<Rightarrow> Bitmap \<Rightarrow> Bitmap res" where
  "bm_clear i b = (if i div 16 < length (bm_map b)
     then Ok (b\<lparr>bm_map := (bm_map b)[i div 16 := bm_map b ! (i div 16) AND NOT (push_bit (i mod 16) 1)]\<rparr>) else Err OutOfBounds)"

definition bm_test :: "nat \<Rightarrow> Bitmap \<Rightarrow> bool res" where
  "bm_test i b = (if i div 16 < length (bm_map b) then Ok (drop_bit (i mod 16) (bm_map b ! (i div 16)) AND 1 \<noteq> 0) else Err OutOfBounds)"

text \<open>The macros \<open>BX_\<close> and \<open>BITCOUNT_\<close>, for the numbers of the table.\<close>

definition BX :: "nat \<Rightarrow> nat" where
  "BX x = x - (drop_bit 1 x AND 0x77777777) - (drop_bit 2 x AND 0x33333333) - (drop_bit 3 x AND 0x11111111)"

definition BITCOUNT :: "nat \<Rightarrow> nat" where
  "BITCOUNT x = ((BX x + drop_bit 4 (BX x)) AND 0x0F0F0F0F) mod 255"

fun nnz_bits :: "nat \<Rightarrow> nat \<Rightarrow> Bitmap \<Rightarrow> nat res" where
  "nnz_bits i 0 b = Ok 0"
| "nnz_bits i (Suc n) b = rbind (bm_test i b) (\<lambda>t. rmap (\<lambda>v. (if t then 1 else 0) + v) (nnz_bits (Suc i) n b))"

definition bm_nnz :: "Bitmap \<Rightarrow> nat res" where
  "bm_nnz b =
     (let bn = bm_size b div 16 in
      if bn \<le> length (bm_map b)
      then rmap ((+) (sum_list (map (\<lambda>i. BITCOUNT (unat (bm_map b ! i))) [0..<bn]))) (nnz_bits (bn * 16) (bm_size b - bn * 16) b)
      else Err OutOfBounds)"

lemma and_nibble: "(x :: nat) AND y = ((x mod 16) AND (y mod 16)) + 16 * ((x div 16) AND (y div 16))"
proof -
  have "x AND y = (x AND y) mod 16 + 16 * ((x AND y) div 16)" by simp
  moreover have "(x AND y) mod 16 = (x mod 16) AND (y mod 16)" using take_bit_and [of 4 x y] by (simp add: take_bit_eq_mod)
  moreover have "(x AND y) div 16 = (x div 16) AND (y div 16)" using drop_bit_and [of 4 x y] by (simp add: drop_bit_eq_div)
  ultimately show ?thesis by simp
qed

definition nib :: "nat \<Rightarrow> nat" where
  "nib n = n - n div 2 - n div 4 - n div 8"

text \<open>A number of four half-bytes.\<close>

abbreviation nibbles :: "nat \<Rightarrow> nat \<Rightarrow> nat \<Rightarrow> nat \<Rightarrow> nat" where
  "nibbles a b c d \<equiv> a + 16 * (b + 16 * (c + 16 * (d + 16 * 0)))"

lemma low_masks: "n AND 7 = n mod 8" "n AND 3 = n mod 4" "n AND 15 = n mod (16 :: nat)"
  using take_bit_eq_mask [of 3 n] take_bit_eq_mask [of 2 n] take_bit_eq_mask [of 4 n]
  by (simp_all add: take_bit_eq_mod mask_eq_exp_minus_1)

lemma and_step: "m' < 16 \<Longrightarrow> (x :: nat) AND (m' + 16 * m) = (x mod 16 AND m') + 16 * (x div 16 AND m)"
  using and_nibble [of x "m' + 16 * m"] by simp

lemma shifted_half_byte:
  assumes "a < 16"
  shows "(a + 16 * y) div 2 div 16 = y div 2" "(a + 16 * y) div 4 div 16 = y div 4" "(a + 16 * y) div 8 div 16 = y div (8 :: nat)"
    "(a + 16 * y) div 2 mod 16 mod 8 = a div 2" "(a + 16 * y) div 4 mod 16 mod 4 = a div 4" "(a + 16 * y) div 8 mod 16 mod 2 = a div 8"
proof -
  have x: "(a + 16 * y) div 16 = y" using assms by simp
  have "(a + 16 * y) div k div 16 = (a + 16 * y) div 16 div k" for k by (simp only: div_mult2_eq [symmetric] mult.commute)
  then show "(a + 16 * y) div 2 div 16 = y div 2" "(a + 16 * y) div 4 div 16 = y div 4" "(a + 16 * y) div 8 div 16 = y div 8"
    by (simp_all only: x)
  have "(a + 16 * y) div 2 = a div 2 + 8 * y" "(a + 16 * y) div 4 = a div 4 + 4 * y" "(a + 16 * y) div 8 = a div 8 + 2 * y"
    using div_mult_self2 [of 2 a "8 * y"] div_mult_self2 [of 4 a "4 * y"] div_mult_self2 [of 8 a "2 * y"] by simp_all
  moreover have "a div 2 < 8" "a div 4 < 4" "a div 8 < 2" using assms by simp_all
  moreover have "(p + m * y) mod 16 mod m = p" if "p < m" "m dvd 16" for p m :: nat using that by (simp add: mod_mod_cancel)
  ultimately show "(a + 16 * y) div 2 mod 16 mod 8 = a div 2" "(a + 16 * y) div 4 mod 16 mod 4 = a div 4" "(a + 16 * y) div 8 mod 16 mod 2 = a div 8"
    by simp_all
qed

lemma masked:
  assumes "a < 16"
  shows "(a + 16 * y) div 2 AND (7 + 16 * m) = a div 2 + 16 * (y div 2 AND m)"
    "(a + 16 * y) div 4 AND (3 + 16 * m) = a div 4 + 16 * (y div 4 AND m)"
    "(a + 16 * y) div 8 AND (1 + 16 * m) = a div 8 + 16 * (y div 8 AND (m :: nat))"
proof -
  note s = shifted_half_byte [OF assms, of y]
  show "(a + 16 * y) div 2 AND (7 + 16 * m) = a div 2 + 16 * (y div 2 AND m)"
    by (subst and_step) (simp, simp only: low_masks s)
  show "(a + 16 * y) div 4 AND (3 + 16 * m) = a div 4 + 16 * (y div 4 AND m)"
    by (subst and_step) (simp, simp only: low_masks s)
  show "(a + 16 * y) div 8 AND (1 + 16 * m) = a div 8 + 16 * (y div 8 AND m)"
    by (subst and_step) (simp, simp only: and_one_eq s)
qed

lemma nib_split: "nib n + n div 2 + n div 4 + n div 8 = n"
proof -
  have "x * 2 \<le> n \<Longrightarrow> y * 4 \<le> n \<Longrightarrow> z * 8 \<le> n \<Longrightarrow> n - x - y - z + x + y + z = n" for x y z :: nat by linarith
  then show ?thesis unfolding nib_def by (simp only: div_times_less_eq_dividend)
qed

lemma nibbles_sub:
  assumes "a' + p + q + r = a" "b' + p' + q' + r' = b" "c' + p'' + q'' + r'' = c" "d' + p3 + q3 + r3 = d"
  shows "nibbles a b c d - nibbles p p' p'' p3 - nibbles q q' q'' q3 - nibbles r r' r'' r3 = nibbles a' b' c' d'"
proof -
  have "nibbles a b c d = nibbles p p' p'' p3 + (nibbles q q' q'' q3 + (nibbles r r' r'' r3 + nibbles a' b' c' d'))"
    unfolding assms [symmetric] by simp
  then show ?thesis by (simp only: diff_add_inverse)
qed

lemma BX_nibbles:
  assumes "a < 16" "b < 16" "c < 16" "d < 16"
  shows "BX (nibbles a b c d) = nibbles (nib a) (nib b) (nib c) (nib d)"
proof -
  let ?x = "nibbles a b c d"
  have 1: "drop_bit 1 ?x AND 0x77777777 = nibbles (a div 2) (b div 2) (c div 2) (d div 2)"
  proof -
    have m: "(0x77777777 :: nat) = 7 + 16 * (7 + 16 * (7 + 16 * (7 + 16 * 0x7777)))" by simp
    show ?thesis unfolding m drop_bit_eq_div by (simp only: power_one_right assms [THEN masked(1)] div_0 zero_and_eq)
  qed
  have 2: "drop_bit 2 ?x AND 0x33333333 = nibbles (a div 4) (b div 4) (c div 4) (d div 4)"
  proof -
    have m: "(0x33333333 :: nat) = 3 + 16 * (3 + 16 * (3 + 16 * (3 + 16 * 0x3333)))" "(2 :: nat) ^ 2 = 4" by simp_all
    show ?thesis unfolding m drop_bit_eq_div by (simp only: assms [THEN masked(2)] div_0 zero_and_eq)
  qed
  have 3: "drop_bit 3 ?x AND 0x11111111 = nibbles (a div 8) (b div 8) (c div 8) (d div 8)"
  proof -
    have m: "(0x11111111 :: nat) = 1 + 16 * (1 + 16 * (1 + 16 * (1 + 16 * 0x1111)))" "(2 :: nat) ^ 3 = 8" by simp_all
    show ?thesis unfolding m drop_bit_eq_div by (simp only: assms [THEN masked(3)] div_0 zero_and_eq)
  qed
  show ?thesis unfolding BX_def 1 2 3 by (rule nibbles_sub; rule nib_split)
qed

lemma nib_count: "a < 16 \<Longrightarrow> nib a = of_bool (bit a 0) + of_bool (bit a 1) + of_bool (bit a 2) + of_bool (bit a 3)"
proof -
  have "\<forall>a \<in> set [0..<16]. nib a = of_bool (bit a 0) + of_bool (bit a 1) + of_bool (bit a 2) + of_bool (bit a 3)"
    by code_simp
  then show "a < 16 \<Longrightarrow> ?thesis" by simp
qed

lemma even_nibbles: "p < 16 \<Longrightarrow> r < 16 \<Longrightarrow> q < 16 \<Longrightarrow> nibbles p q r t AND 0x0F0F0F0F = p + 256 * (r + 16 * (16 * 0)) \<or> t \<ge> 16"
proof (cases "t < 16")
  case True
  assume a: "p < 16" "r < 16" "q < 16"
  have m: "(0x0F0F0F0F :: nat) = 15 + 16 * (0 + 16 * (15 + 16 * (0 + 16 * 0x0F0F)))" by simp
  have half: "(k + 16 * y) mod 16 = k" "(k + 16 * y) div 16 = y" if "k < 16" for k y :: nat using that by simp_all
  have "nibbles p q r t AND 0x0F0F0F0F = p + 16 * (0 + 16 * (r + 16 * (0 + 16 * 0)))"
    unfolding m
    apply (subst and_step, simp, simp only: half [OF a(1)])
    apply (subst and_step, simp, simp only: half [OF a(3)])
    apply (subst and_step, simp, simp only: half [OF a(2)])
    apply (subst and_step, simp, simp only: half [OF True])
    using a True by (simp add: low_masks)
  then show ?thesis by simp
qed simp

lemma BITCOUNT_nibbles:
  assumes "a < 16" "b < 16" "c < 16" "d < 16"
  shows "BITCOUNT (nibbles a b c d) = nib a + nib b + nib c + nib d"
proof -
  have n: "nib a \<le> 4" "nib b \<le> 4" "nib c \<le> 4" "nib d \<le> 4" using assms [THEN nib_count] by simp_all
  have "BX (nibbles a b c d) + drop_bit 4 (BX (nibbles a b c d)) = nibbles (nib a + nib b) (nib b + nib c) (nib c + nib d) (nib d)"
    using n unfolding BX_nibbles [OF assms] drop_bit_eq_div by simp
  then have "BITCOUNT (nibbles a b c d) = ((nib a + nib b) + 256 * (nib c + nib d)) mod 255"
    unfolding BITCOUNT_def using even_nibbles [of "nib a + nib b" "nib c + nib d" "nib b + nib c" "nib d"] n by simp
  also have "(nib a + nib b) + 256 * (nib c + nib d) = (nib a + nib b + nib c + nib d) + 255 * (nib c + nib d)" by simp
  also have "\<dots> mod 255 = nib a + nib b + nib c + nib d" using n by (subst mod_mult_self2) simp
  finally show ?thesis .
qed

lemma bit_half_byte: "n < 4 \<Longrightarrow> bit (u div 16 ^ k mod 16) n = bit u (4 * k + n)" for u :: nat
proof -
  assume n: "n < 4"
  have "u div 16 ^ k mod 16 = take_bit 4 (drop_bit (4 * k) u)" by (simp add: take_bit_eq_mod drop_bit_eq_div power_mult)
  then show ?thesis using n by (simp add: bit_take_bit_iff bit_drop_bit_eq)
qed

lemma sum_list_of_bool_filter: "(\<Sum>i\<leftarrow>xs. of_bool (P i)) = length (filter P xs)"
  by (induction xs) simp_all

lemma BITCOUNT_counts_bits: "BITCOUNT (unat (w :: u16)) = length (filter (bit w) [0..<16])"
proof -
  let ?u = "unat w"
  have u: "?u < 65536" using unsigned_less [of w, where ?'a = nat] by simp
  let ?h = "\<lambda>k. ?u div 16 ^ k mod 16"
  have "[0..<16] = [0, 1, 2, 3, 4, 5, 6, 7, 8, 9, 10, 11, 12, 13, 14, 15 :: nat]" by code_simp
  then have four_quarters: "(f (4 * 0) + f (4 * 0 + 1) + f (4 * 0 + 2) + f (4 * 0 + 3)) + (f (4 * 1) + f (4 * 1 + 1) + f (4 * 1 + 2) + f (4 * 1 + 3)) +
      (f (4 * 2) + f (4 * 2 + 1) + f (4 * 2 + 2) + f (4 * 2 + 3)) + (f (4 * 3) + f (4 * 3 + 1) + f (4 * 3 + 2) + f (4 * 3 + 3)) =
    (\<Sum>i\<leftarrow>[0..<16]. f i)" for f :: "nat \<Rightarrow> nat" by (simp add: numeral_2_eq_2)
  have quarter: "nib (?h k) = of_bool (bit ?u (4 * k)) + of_bool (bit ?u (4 * k + 1)) + of_bool (bit ?u (4 * k + 2)) + of_bool (bit ?u (4 * k + 3))" for k
    using nib_count [of "?h k"] bit_half_byte [of 0 ?u k] bit_half_byte [of 1 ?u k] bit_half_byte [of 2 ?u k] bit_half_byte [of 3 ?u k] by simp
  have "?u = nibbles (?h 0) (?h 1) (?h 2) (?h 3)"
  proof -
    have "?u = ?u mod 16 + 16 * (?u div 16)" "?u div 16 = ?u div 16 mod 16 + 16 * (?u div 256)"
      "?u div 256 = ?u div 256 mod 16 + 16 * (?u div 4096)" "?u div 4096 = ?u div 4096 mod 16"
      using u mod_mult_div_eq [of "?u div 16" 16] mod_mult_div_eq [of "?u div 256" 16] by (simp_all add: div_mult2_eq [symmetric])
    then show ?thesis by simp
  qed
  then have "BITCOUNT ?u = BITCOUNT (nibbles (?h 0) (?h 1) (?h 2) (?h 3))" by (rule arg_cong)
  also have "BITCOUNT (nibbles (?h 0) (?h 1) (?h 2) (?h 3)) = nib (?h 0) + nib (?h 1) + nib (?h 2) + nib (?h 3)"
    by (rule BITCOUNT_nibbles; rule mod_less_divisor; rule zero_less_numeral)
  also have "\<dots> = (\<Sum>i\<leftarrow>[0..<16]. of_bool (bit ?u i))"
    unfolding quarter by (rule four_quarters)
  also have "\<dots> = length (filter (bit ?u) [0..<16])" by (simp only: sum_list_of_bool_filter)
  also have "filter (bit ?u) [0..<16] = filter (bit w) [0..<16]" by (rule filter_cong) (simp_all add: bit_unsigned_iff)
  finally show ?thesis .
qed

definition bm_ok :: "Bitmap \<Rightarrow> bool" where
  "bm_ok b \<longleftrightarrow> bm_size b div 16 < length (bm_map b)"

definition bm_bits :: "Bitmap \<Rightarrow> nat \<Rightarrow> bool" where
  "bm_bits b i = bit (bm_map b ! (i div 16)) (i mod 16)"

lemma bm_test_bits: "i div 16 < length (bm_map b) \<Longrightarrow> bm_test i b = Ok (bm_bits b i)"
  by (simp add: bm_test_def bm_bits_def and_one_eq bit_iff_odd_drop_bit odd_iff_mod_2_eq_one)

lemma nnz_bits_count:
  "(i + n - 1) div 16 < length (bm_map b) \<Longrightarrow> nnz_bits i n b = Ok (length (filter (bm_bits b) [i..<i + n]))"
proof (induction n arbitrary: i)
  case (Suc n)
  have "i div 16 \<le> (i + n) div 16" by (simp add: div_le_mono)
  then show ?case using Suc by (simp add: bm_test_bits upt_rec [of i])
qed simp

lemma block_bits: "length (filter (bm_bits b) [16 * k..<16 * k + 16]) = length (filter (bit (bm_map b ! k)) [0..<16])"
proof -
  have "[16 * k..<16 * k + 16] = map ((+) (16 * k)) [0..<16]" by (rule nth_equalityI) simp_all
  moreover have "filter (\<lambda>i. bm_bits b (16 * k + i)) [0..<16] = filter (bit (bm_map b ! k)) [0..<16]"
    by (rule filter_cong) (simp_all add: bm_bits_def)
  ultimately show ?thesis by (simp add: filter_map comp_def)
qed

lemma blocks_bits:
  "sum_list (map (\<lambda>i. BITCOUNT (unat (bm_map b ! i))) [0..<k]) = length (filter (bm_bits b) [0..<16 * k])"
proof (induction k)
  case (Suc k)
  have "[0..<16 * Suc k] = [0..<16 * k] @ [16 * k..<16 * k + 16]" using upt_add_eq_append [of 0 "16 * k" 16] by (simp add: add.commute)
  then show ?case using Suc by (simp add: BITCOUNT_counts_bits block_bits)
qed simp

text \<open>C39: In a bitmap made by \<open>resize\<close>, \<open>nnz\<close>, which adds the table's entry for every full 16-bit word and
  tests the bits of the last one, returns the number of indices below the size for which \<open>test\<close> returns
  true: the table's arithmetic \<open>BITCOUNT_\<close> counts the bits of every 16-bit word.\<close>

theorem nnz_counts_set_bits: "bm_ok b \<Longrightarrow> bm_nnz b = Ok (length (filter (\<lambda>i. bm_test i b = Ok True) [0..<bm_size b]))"
proof -
  assume ok: "bm_ok b"
  let ?n = "16 * (bm_size b div 16)"
  have n: "?n \<le> bm_size b" by simp
  have "(?n + (bm_size b - ?n) - 1) div 16 \<le> bm_size b div 16" using n by (intro div_le_mono) simp
  then have "nnz_bits ?n (bm_size b - ?n) b = Ok (length (filter (bm_bits b) [?n..<bm_size b]))"
    using nnz_bits_count [of ?n "bm_size b - ?n" b] ok n by (simp add: bm_ok_def)
  moreover have "[0..<bm_size b] = [0..<?n] @ [?n..<bm_size b]" using upt_add_eq_append [of 0 ?n "bm_size b - ?n"] n by simp
  moreover have "filter (\<lambda>i. bm_test i b = Ok True) [0..<bm_size b] = filter (bm_bits b) [0..<bm_size b]"
  proof (rule filter_cong)
    fix i
    assume "i \<in> set [0..<bm_size b]"
    then have "i div 16 \<le> bm_size b div 16" by (intro div_le_mono) simp
    then show "(bm_test i b = Ok True) = bm_bits b i" using ok by (simp add: bm_ok_def bm_test_bits)
  qed simp
  ultimately show ?thesis using ok by (simp add: bm_nnz_def bm_ok_def Let_def blocks_bits mult.commute)
qed

lemma word_update_bits:
  assumes "bm_ok c" "i < bm_size c" and b: "\<And>n. n < 16 \<Longrightarrow> bit w n = (if n = i mod 16 then v else bit (bm_map c ! (i div 16)) n)"
  shows "bm_ok (c\<lparr>bm_map := (bm_map c)[i div 16 := w]\<rparr>)"
    "j < bm_size c \<Longrightarrow> bm_test j (c\<lparr>bm_map := (bm_map c)[i div 16 := w]\<rparr>) = (if j = i then Ok v else bm_test j c)"
proof -
  let ?c = "c\<lparr>bm_map := (bm_map c)[i div 16 := w]\<rparr>"
  show ok: "bm_ok ?c" using assms(1) by (simp add: bm_ok_def)
  have i: "i div 16 < length (bm_map c)" using assms div_le_mono [of i "bm_size c" 16] by (simp add: bm_ok_def)
  assume "j < bm_size c"
  then have j: "j div 16 < length (bm_map c)" using assms div_le_mono [of j "bm_size c" 16] by (simp add: bm_ok_def)
  have "bm_bits ?c j = (if j = i then v else bm_bits c j)"
  proof (cases "j div 16 = i div 16")
    case True
    then have "j = i \<longleftrightarrow> j mod 16 = i mod 16" using div_mult_mod_eq [of i 16] div_mult_mod_eq [of j 16] by metis
    then show ?thesis using True i b [of "j mod 16"] by (simp add: bm_bits_def)
  qed (auto simp: bm_bits_def)
  then show "bm_test j ?c = (if j = i then Ok v else bm_test j c)" using j by (simp add: bm_test_bits)
qed

lemma bitmap_updates:
  assumes "bm_ok c" "i < bm_size c"
  shows "\<exists>c' c''. bm_set i c = Ok c' \<and> bm_clear i c = Ok c'' \<and> bm_ok c' \<and> bm_ok c'' \<and> bm_size c' = bm_size c \<and> bm_size c'' = bm_size c \<and>
    (\<forall>j < bm_size c. bm_test j c' = (if j = i then Ok True else bm_test j c) \<and> bm_test j c'' = (if j = i then Ok False else bm_test j c))"
proof -
  have i: "i div 16 < length (bm_map c)" using assms div_le_mono [of i "bm_size c" 16] by (simp add: bm_ok_def)
  have s: "bit (bm_map c ! (i div 16) OR push_bit (i mod 16) 1) n = (if n = i mod 16 then True else bit (bm_map c ! (i div 16)) n)" if "n < 16" for n
    using that by (auto simp: bit_or_iff bit_exp_iff)
  have r: "bit (bm_map c ! (i div 16) AND NOT (push_bit (i mod 16) 1)) n = (if n = i mod 16 then False else bit (bm_map c ! (i div 16)) n)" if "n < 16" for n
    using that by (auto simp: bit_and_iff bit_not_iff bit_exp_iff)
  show ?thesis using i word_update_bits [OF assms s] word_update_bits [OF assms r] by (simp add: bm_set_def bm_clear_def)
qed

lemma bm_resize_spec:
  assumes "bm_size b0 = 0"
  shows "\<exists>b. bm_resize n v b0 = Ok b \<and> bm_ok b \<and> bm_size b = n \<and> (\<forall>i < n. bm_test i b = Ok v)"
proof -
  let ?b = "bm_fill v (b0\<lparr>bm_size := n, bm_map := replicate (n div 16 + 1) 0\<rparr>)"
  have "bm_test i ?b = Ok v" if "i < n" for i
    using that div_le_mono [of i n 16] by (simp add: bm_test_bits bm_fill_def bm_bits_def nth_replicate del: replicate_Suc)
  then show ?thesis using assms by (simp add: bm_resize_def bm_ok_def) (simp add: bm_fill_def)
qed

theorem nnz_counts_set_bits_witness:
  "bm_nnz \<lparr>bm_map = [0xFFFF, 0x8005], bm_size = 20\<rparr> =
     Ok (length (filter (\<lambda>i. bm_test i \<lparr>bm_map = [0xFFFF, 0x8005], bm_size = 20\<rparr> = Ok True) [0..<20])) \<and>
   bm_test 18 \<lparr>bm_map = [0xFFFF, 0x8005], bm_size = 20\<rparr> = Ok True"
  using nnz_counts_set_bits [of "\<lparr>bm_map = [0xFFFF, 0x8005], bm_size = 20\<rparr>"] by (simp add: bm_ok_def bm_test_def)

end
