(* ===== verification/ConfigFile.thy ===== *)
theory ConfigFile
  imports Prelude
begin

text \<open>
  Configuration files (\<open>dmlc-core/src/config.cc\<close>, \<open>include/dmlc/config.h\<close>) and the conversion of command lines
  (\<open>src/base/arg_parser.h\<close>): the tokenizer, the store of keys and values with its iterator, and the text for protobuf.
  A stream is the list of the characters that are left. \<open>PeekChar\<close> returns a \<open>char\<close>, so that the byte 0xFF is the end of the file.
\<close>

section \<open>The tokenizer\<close>

abbreviation NL :: char where "NL \<equiv> CHR 0x0A"
abbreviation CR :: char where "CR \<equiv> CHR 0x0D"
abbreviation TAB :: char where "TAB \<equiv> CHR 0x09"
abbreviation QUOTE :: char where "QUOTE \<equiv> CHR 0x22"
abbreviation BACKSLASH :: char where "BACKSLASH \<equiv> CHR 0x5C"
abbreviation EOF_CHAR :: char where "EOF_CHAR \<equiv> CHR 0xFF"

record Token =
  buf :: string
  is_string :: bool

datatype ParseState = kNone | kToken | kFinish

datatype TokenizeError = TokenizeError string

fun ParseComments :: "string \<Rightarrow> string" where
  "ParseComments [] = []"
| "ParseComments (ch # s) = (if ch = CHR 0x00 \<or> ch = NL \<or> ch = CR \<or> ch = EOF_CHAR then ch # s else ParseComments s)"

text \<open>After the first quotation mark.\<close>

fun string_loop :: "string \<Rightarrow> string \<Rightarrow> TokenizeError + (string \<times> string)" where
  "string_loop tok [] = Inl (TokenizeError ''quotation mark is not closed'')"
| "string_loop tok (ch # s) =
     (if ch = QUOTE then Inr (tok, s)
      else if ch = BACKSLASH then
        (case s of
           [] \<Rightarrow> Inl (TokenizeError ''error parsing escape characters'')
         | c # s' \<Rightarrow> if c = QUOTE then string_loop (tok @ [QUOTE]) s' else Inl (TokenizeError ''error parsing escape characters''))
      else if ch = NL \<or> ch = CR \<or> ch = EOF_CHAR then Inl (TokenizeError ''quotation mark is not closed'')
      else string_loop (tok @ [ch]) s)"

definition ParseString :: "string \<Rightarrow> string \<Rightarrow> TokenizeError + (string \<times> string)" where
  "ParseString tok s = string_loop tok (drop 1 s)"

lemma ParseComments_le: "length (ParseComments s) \<le> length s"
  by (induction s) auto

function token_loop :: "ParseState \<Rightarrow> Token \<Rightarrow> string \<Rightarrow> TokenizeError + (Token \<times> string)" where
  "token_loop st tok [] = Inr (tok, [])"
| "token_loop st tok (ch # s) =
     (if ch = EOF_CHAR \<or> st = kFinish then Inr (tok, ch # s)
      else if ch = CHR '' '' \<or> ch = TAB \<or> ch = NL \<or> ch = CR then
        (if st = kToken then token_loop kFinish tok (ch # s) else token_loop st tok s)
      else if ch = QUOTE then
        (case ParseString (buf tok) (ch # s) of
           Inl e \<Rightarrow> Inl e
         | Inr (b, s') \<Rightarrow> token_loop kFinish \<lparr>buf = b, is_string = True\<rparr> s')
      else if ch = CHR ''='' then
        (if st \<noteq> kToken then token_loop kFinish (tok\<lparr>buf := [CHR ''='']\<rparr>) s else token_loop kFinish tok (ch # s))
      else if ch = CHR ''#'' then token_loop st tok (ParseComments (ch # s))
      else token_loop kToken (tok\<lparr>buf := buf tok @ [ch]\<rparr>) s)"
  by pat_completeness auto
termination
  by (relation "measure (\<lambda>(st, tok, s). if st = kFinish then 0 else Suc (length s))")
    (auto simp: ParseComments_le less_Suc_eq_le)

definition GetNextToken :: "string \<Rightarrow> TokenizeError + (Token \<times> string)" where
  "GetNextToken s = token_loop kNone \<lparr>buf = [], is_string = False\<rparr> s"

text \<open>A token with content uses up characters, so that the loop over the file ends.\<close>

lemma string_loop_le: "string_loop tok s = Inr (b, s') \<Longrightarrow> length s' < length s"
  by (induction tok s rule: string_loop.induct) (auto split: if_splits list.splits)

lemma token_loop_finish [simp]: "token_loop kFinish tok s = Inr (tok, s)"
  by (cases s) simp_all

lemma token_loop_le:
  "token_loop st tok s = Inr (tok', s') \<Longrightarrow> length s' \<le> length s \<and> (st = kNone \<longrightarrow> buf tok = [] \<longrightarrow> buf tok' \<noteq> [] \<longrightarrow> length s' < length s)"
proof (induction st tok s rule: token_loop.induct)
  case (2 st tok ch s)
  have q: "length s'' < length (ch # s)" if "ParseString (buf tok) (ch # s) = Inr (b, s'')" for b s''
    using string_loop_le [of "buf tok" s b s''] that by (simp add: ParseString_def)
  have c: "length (ParseComments s) \<le> length s" by (rule ParseComments_le)
  consider "ch = EOF_CHAR \<or> st = kFinish"
    | "ch \<noteq> EOF_CHAR" "st \<noteq> kFinish" "ch = CHR '' '' \<or> ch = TAB \<or> ch = NL \<or> ch = CR"
    | "ch \<noteq> EOF_CHAR" "st \<noteq> kFinish" "\<not> (ch = CHR '' '' \<or> ch = TAB \<or> ch = NL \<or> ch = CR)" by blast
  then show ?case
  proof cases
    case 1
    then show ?thesis using "2.prems" by auto
  next
    case 2
    then show ?thesis using "2.prems" "2.IH"(2) by (cases "st = kToken") (auto split: if_splits)
  next
    case other: 3
    consider "ch = QUOTE" | "ch = CHR ''=''" | "ch = CHR ''#''" | "ch \<noteq> QUOTE" "ch \<noteq> CHR ''=''" "ch \<noteq> CHR ''#''" by blast
    then show ?thesis
    proof cases
      case 1
      then show ?thesis using "2.prems" other q by (auto split: sum.splits)
    next
      case 2
      then show ?thesis using "2.prems" other by (auto split: if_splits)
    next
      case 3
      then have "token_loop st tok (ParseComments s) = Inr (tok', s')" using "2.prems" other by simp
      then have "length s' \<le> length (ParseComments s)" using "2.IH"(6) [OF _ _ _ _ 3] other 3 by simp
      then show ?thesis using c by simp
    next
      case 4
      then have "token_loop kToken (tok\<lparr>buf := buf tok @ [ch]\<rparr>) s = Inr (tok', s')" using "2.prems" other by simp
      then have "length s' \<le> length s" using "2.IH"(7) [OF _ _ _ _ 4(3)] other 4 by simp
      then show ?thesis by simp
    qed
  qed
qed auto

section \<open>The store of keys and values\<close>

record ConfigValue =
  cv_val :: "string list"
  cv_insert_index :: "nat list"
  cv_is_string :: bool

record Config =
  config_map :: "string \<rightharpoonup> ConfigValue"
  order :: "(string \<times> nat) list"
  multi_value :: bool

definition new_Config :: "bool \<Rightarrow> Config" where
  "new_Config m = \<lparr>config_map = Map.empty, order = [], multi_value = m\<rparr>"

definition cfg_Clear :: "Config \<Rightarrow> Config" where
  "cfg_Clear c = c\<lparr>config_map := Map.empty, order := []\<rparr>"

definition no_value :: ConfigValue where
  "no_value = \<lparr>cv_val = [], cv_insert_index = [], cv_is_string = False\<rparr>"

definition cfg_Insert :: "string \<Rightarrow> string \<Rightarrow> bool \<Rightarrow> Config \<Rightarrow> Config" where
  "cfg_Insert key val str c =
     (let insert_index = length (order c);
          m = (if multi_value c then config_map c else (config_map c)(key \<mapsto> no_value));
          cv = (case m key of None \<Rightarrow> no_value | Some cv \<Rightarrow> cv);
          val_index = length (cv_val cv);
          cv' = \<lparr>cv_val = cv_val cv @ [val], cv_insert_index = cv_insert_index cv @ [insert_index], cv_is_string = str\<rparr> in
      c\<lparr>config_map := m(key \<mapsto> cv'), order := order c @ [(key, val_index)]\<rparr>)"

text \<open>The value is printed by the stream operator of its type.\<close>

definition SetParam :: "('a \<Rightarrow> string) \<Rightarrow> string \<Rightarrow> 'a \<Rightarrow> bool \<Rightarrow> Config \<Rightarrow> Config" where
  "SetParam show key val str c = cfg_Insert key (show val) str c"

definition GetParam :: "Config \<Rightarrow> string \<Rightarrow> string res" where
  "GetParam c key = (case config_map c key of None \<Rightarrow> Err (CheckFailed ''not found in configure'') | Some cv \<Rightarrow> nth_res (cv_val cv) (length (cv_val cv) - 1))"

definition IsGenuineString :: "Config \<Rightarrow> string \<Rightarrow> bool res" where
  "IsGenuineString c key = (case config_map c key of None \<Rightarrow> Err (CheckFailed ''not found in configure'') | Some cv \<Rightarrow> Ok (cv_is_string cv))"

lemma GetNextToken_le:
  assumes "GetNextToken s = Inr (tok, s')"
  shows "length s' \<le> length s" "buf tok \<noteq> [] \<Longrightarrow> length s' < length s"
  using token_loop_le [of kNone "\<lparr>buf = [], is_string = False\<rparr>" s tok s'] assms by (auto simp: GetNextToken_def)

text \<open>What is logged while a file is loaded.\<close>

datatype LogEntry = FormatError string string string | TokenError TokenizeError

function LoadFromStream :: "string \<Rightarrow> Config \<Rightarrow> Config \<times> LogEntry list" where
  "LoadFromStream s c =
     (case GetNextToken s of
        Inl e \<Rightarrow> (c, [TokenError e])
      | Inr (key, s1) \<Rightarrow>
          if buf key = [] then (c, [])
          else (case GetNextToken s1 of
              Inl e \<Rightarrow> (c, [TokenError e])
            | Inr (eqop, s2) \<Rightarrow>
                (case GetNextToken s2 of
                   Inl e \<Rightarrow> (c, [TokenError e])
                 | Inr (val, s3) \<Rightarrow>
                     let (c', l) = LoadFromStream s3 (cfg_Insert (buf key) (buf val) (is_string val) c) in
                     (c', (if buf eqop \<noteq> ''='' then [FormatError (buf key) (buf eqop) (buf val)] else []) @ l))))"
  by pat_completeness auto

termination
proof (relation "measure (\<lambda>(s, c). length s)", goal_cases)
  case (2 s c p1 key s1 p2 eqop s2 p3 val s3)
  then have "length s1 < length s" "length s2 \<le> length s1" "length s3 \<le> length s2" using GetNextToken_le by metis+
  then show ?case by simp
qed simp

definition load_Config :: "string \<Rightarrow> bool \<Rightarrow> Config \<times> LogEntry list" where
  "load_Config s m = LoadFromStream s (cfg_Clear (new_Config m))"

section \<open>The iterator\<close>

text \<open>An iterator is its index; \<open>end\<close> has the index \<open>length (order c)\<close>.\<close>

function FindNextIndex :: "Config \<Rightarrow> nat \<Rightarrow> nat res" where
  "FindNextIndex c i =
     (if i < length (order c) then
        (case order c ! i of (key, val_index) \<Rightarrow>
          (case config_map c key of
             None \<Rightarrow> Err OutOfBounds
           | Some cv \<Rightarrow> rbind (nth_res (cv_insert_index cv) val_index) (\<lambda>ii. if ii = i then Ok i else FindNextIndex c (Suc i))))
      else Ok i)"
  by pat_completeness auto
termination by (relation "measure (\<lambda>(c, i). length (order c) - i)") auto

definition cfg_begin :: "Config \<Rightarrow> nat res" where
  "cfg_begin c = FindNextIndex c 0"

definition cfg_end :: "Config \<Rightarrow> nat res" where
  "cfg_end c = FindNextIndex c (length (order c))"

definition iter_inc :: "Config \<Rightarrow> nat \<Rightarrow> nat res" where
  "iter_inc c i = FindNextIndex c (if i < length (order c) then Suc i else i)"

definition iter_deref :: "Config \<Rightarrow> nat \<Rightarrow> (string \<times> string) res" where
  "iter_deref c i = rbind (nth_res (order c) i) (\<lambda>(key, val_index).
     case config_map c key of None \<Rightarrow> Err OutOfBounds | Some cv \<Rightarrow> rmap (Pair key) (nth_res (cv_val cv) val_index))"

fun MakeProtoStringValue :: "string \<Rightarrow> string" where
  "MakeProtoStringValue str = [QUOTE] @ concat (map (\<lambda>ch. if ch \<noteq> QUOTE then [ch] else [BACKSLASH, QUOTE]) str) @ [QUOTE]"

text \<open>The loop from \<open>begin\<close> to \<open>end\<close> over a configuration, with what is done for each entry.\<close>

lemma FindNextIndex_ge: "FindNextIndex c i = Ok j \<Longrightarrow> i \<le> j"
proof (induction c i rule: FindNextIndex.induct)
  case (1 c i)
  then show ?case
    by (auto simp del: FindNextIndex.simps simp: FindNextIndex.simps [of c i] outcome split: if_splits option.splits prod.splits dest: Suc_leD)
qed

function for_entries :: "Config \<Rightarrow> (string \<times> string \<Rightarrow> 'a res) \<Rightarrow> nat \<Rightarrow> 'a list res" where
  "for_entries c f i =
     (if i < length (order c) then
        rbind (rbind (iter_deref c i) f) (\<lambda>x.
          case iter_inc c i of Ok j \<Rightarrow> rmap (Cons x) (for_entries c f j) | Err e \<Rightarrow> Err e)
      else Ok [])"
  by pat_completeness auto
termination
proof (relation "measure (\<lambda>(c, f, i). length (order c) - i)", goal_cases)
  case (2 c f i x j)
  then have "Suc i \<le> j" using FindNextIndex_ge [of c "Suc i" j] by (simp add: iter_inc_def)
  then show ?case using 2 by auto
qed simp

definition entries :: "Config \<Rightarrow> (string \<times> string) list res" where
  "entries c = rbind (cfg_begin c) (for_entries c Ok)"

definition ToProtoString :: "Config \<Rightarrow> string res" where
  "ToProtoString c = rmap concat (rbind (cfg_begin c) (for_entries c (\<lambda>(key, val).
     rmap (\<lambda>str. key @ '' : '' @ (if str then MakeProtoStringValue val else val) @ [NL]) (IsGenuineString c key))))"

declare LoadFromStream.simps [simp del] FindNextIndex.simps [simp del] for_entries.simps [simp del]

section \<open>What is stored\<close>

text \<open>The entries that are effective: all of them, or the last one of each key.\<close>

fun live :: "bool \<Rightarrow> (string \<times> string \<times> bool) list \<Rightarrow> (string \<times> string \<times> bool) list" where
  "live m [] = []"
| "live m (e # es) = (if m \<or> fst e \<notin> fst ` set es then e # live m es else live m es)"

fun insert_entries :: "(string \<times> string \<times> bool) list \<Rightarrow> Config \<Rightarrow> Config" where
  "insert_entries [] c = c"
| "insert_entries ((key, val, str) # es) c = insert_entries es (cfg_Insert key val str c)"

lemma insert_entries_append [simp]: "insert_entries (xs @ ys) c = insert_entries ys (insert_entries xs c)"
  by (induction xs c rule: insert_entries.induct) simp_all

text \<open>The \<open>i\<close>-th entry: where it is stored, and whether the iterator stops at it.\<close>

definition slot :: "Config \<Rightarrow> (string \<times> string \<times> bool) list \<Rightarrow> nat \<Rightarrow> bool" where
  "slot c es i \<longleftrightarrow> (case es ! i of (key, val, str) \<Rightarrow> \<exists>vi cv. order c ! i = (key, vi) \<and> config_map c key = Some cv \<and>
     vi < length (cv_val cv) \<and> vi < length (cv_insert_index cv) \<and> (\<not> multi_value c \<longrightarrow> vi = 0) \<and>
     (cv_insert_index cv ! vi = i \<longleftrightarrow> multi_value c \<or> key \<notin> fst ` set (drop (Suc i) es)) \<and>
     (multi_value c \<or> key \<notin> fst ` set (drop (Suc i) es) \<longrightarrow> cv_val cv ! vi = val))"

definition stored :: "Config \<Rightarrow> (string \<times> string \<times> bool) list \<Rightarrow> string \<Rightarrow> bool" where
  "stored c es key \<longleftrightarrow> (case map_of (rev es) key of
     None \<Rightarrow> config_map c key = None
   | Some (val, str) \<Rightarrow> \<exists>cv. config_map c key = Some cv \<and> cv_val cv \<noteq> [] \<and> last (cv_val cv) = val \<and> cv_is_string cv = str \<and>
       length (cv_insert_index cv) = length (cv_val cv))"

definition holds :: "Config \<Rightarrow> (string \<times> string \<times> bool) list \<Rightarrow> bool" where
  "holds c es \<longleftrightarrow> length (order c) = length es \<and> (\<forall>i < length es. slot c es i) \<and> (\<forall>key. stored c es key)"

lemma holds_stored: "holds c es \<Longrightarrow> stored c es key"
  by (simp add: holds_def)

lemma cfg_Insert_simps [simp]:
  "multi_value (cfg_Insert key val str c) = multi_value c"
  "length (order (cfg_Insert key val str c)) = Suc (length (order c))"
  "i < length (order c) \<Longrightarrow> order (cfg_Insert key val str c) ! i = order c ! i"
  "k \<noteq> key \<Longrightarrow> config_map (cfg_Insert key val str c) k = config_map c k"
  by (simp_all add: cfg_Insert_def Let_def nth_append)

lemma holds_Insert:
  assumes h: "holds c es"
  shows "holds (cfg_Insert key val str c) (es @ [(key, val, str)])" (is "holds ?c ?es")
proof -
  let ?n = "length es"
  have n: "length (order c) = ?n" using h by (simp add: holds_def)
  define old where "old = (if multi_value c then (case config_map c key of None \<Rightarrow> no_value | Some cv \<Rightarrow> cv) else no_value)"
  define cv where "cv = \<lparr>cv_val = cv_val old @ [val], cv_insert_index = cv_insert_index old @ [?n], cv_is_string = str\<rparr>"
  have c: "config_map ?c key = Some cv" "order ?c ! ?n = (key, length (cv_val old))"
    by (auto simp: cfg_Insert_def Let_def cv_def old_def n [symmetric] nth_append)
  have len: "length (cv_insert_index old) = length (cv_val old)" "\<not> multi_value c \<longrightarrow> cv_val old = []"
  proof -
    show "length (cv_insert_index old) = length (cv_val old)" "\<not> multi_value c \<longrightarrow> cv_val old = []"
      using holds_stored [OF h, of key] by (auto simp: old_def no_value_def stored_def split: option.splits)
  qed
  have "slot ?c ?es ?n" using c len by (simp add: slot_def cv_def nth_append)
  moreover have "slot ?c ?es i" if i: "i < ?n" for i
  proof -
    obtain k v b where e: "es ! i = (k, v, b)" by (cases "es ! i")
    have "slot c es i" using h i by (simp add: holds_def)
    then obtain vi cvi where s: "order c ! i = (k, vi)" "config_map c k = Some cvi" "vi < length (cv_val cvi)" "vi < length (cv_insert_index cvi)"
        "\<not> multi_value c \<longrightarrow> vi = 0" "cv_insert_index cvi ! vi = i \<longleftrightarrow> multi_value c \<or> k \<notin> fst ` set (drop (Suc i) es)"
        "multi_value c \<or> k \<notin> fst ` set (drop (Suc i) es) \<longrightarrow> cv_val cvi ! vi = v"
      unfolding slot_def e by auto
    have e': "?es ! i = (k, v, b)" "drop (Suc i) ?es = drop (Suc i) es @ [(key, val, str)]" using e i by (simp_all add: nth_append)
    show ?thesis
    proof (cases "k = key")
      case True
      show ?thesis
      proof (cases "multi_value c")
        case multi: True
        then have "old = cvi" using s(2) True by (simp add: old_def)
        then show ?thesis using s c(1) True multi i n by (simp add: slot_def e e' cv_def nth_append)
      next
        case False
        then have "old = no_value" by (simp add: old_def)
        then show ?thesis using s c(1) True False i n by (simp add: slot_def e' cv_def no_value_def)
      qed
    qed (use s i n in \<open>simp add: slot_def e'\<close>)
  qed
  moreover have "stored ?c ?es k" for k
  proof (cases "k = key")
    case True
    then show ?thesis using c len by (simp add: stored_def cv_def)
  next
    case False
    then show ?thesis using holds_stored [OF h, of k] by (auto simp: stored_def split: option.splits)
  qed
  ultimately show ?thesis using n by (simp add: holds_def less_Suc_eq)
qed

lemma holds_insert_entries: "holds c xs \<Longrightarrow> holds (insert_entries es c) (xs @ es)"
proof (induction es c arbitrary: xs rule: insert_entries.induct)
  case (2 key val str es c)
  then show ?case using "2.IH" [OF holds_Insert [OF "2.prems", of key val str]] by simp
qed simp

lemma holds_new: "holds (insert_entries es (new_Config m)) es"
  using holds_insert_entries [of "new_Config m" "[]" es] by (simp add: holds_def stored_def new_Config_def)

lemma insert_entries_multi [simp]: "multi_value (insert_entries es c) = multi_value c"
  by (induction es c rule: insert_entries.induct) simp_all

text \<open>The iterator visits the effective entries.\<close>

lemma live_suffix: "\<exists>zs. live m (xs @ ys) = zs @ live m ys"
  by (induction xs) auto

lemma live_drop: "set (live m (drop i es)) \<subseteq> set (live m es)"
  using live_suffix [of m "take i es" "drop i es"] by auto

lemma iterate_holds:
  assumes h: "holds c es" and f: "\<And>key val str. (key, val, str) \<in> set (live (multi_value c) es) \<Longrightarrow> f (key, val) = Ok (g (key, val, str))"
  shows "rbind (FindNextIndex c i) (for_entries c f) = Ok (map g (live (multi_value c) (drop i es)))"
proof (induction "length es - i" arbitrary: i)
  case 0
  then show ?case using h by (simp add: FindNextIndex.simps for_entries.simps holds_def)
next
  case (Suc n)
  then have i: "i < length es" "i < length (order c)" using h by (simp_all add: holds_def)
  have IH: "rbind (FindNextIndex c (Suc i)) (for_entries c f) = Ok (map g (live (multi_value c) (drop (Suc i) es)))" using Suc by simp
  obtain k v b where e: "es ! i = (k, v, b)" by (cases "es ! i")
  have d: "drop i es = (k, v, b) # drop (Suc i) es" using i(1) e by (simp add: Cons_nth_drop_Suc [symmetric])
  have "slot c es i" using h i by (simp add: holds_def)
  then obtain vi cv where s: "order c ! i = (k, vi)" "config_map c k = Some cv" "vi < length (cv_val cv)" "vi < length (cv_insert_index cv)"
      "cv_insert_index cv ! vi = i \<longleftrightarrow> multi_value c \<or> k \<notin> fst ` set (drop (Suc i) es)"
      "multi_value c \<or> k \<notin> fst ` set (drop (Suc i) es) \<longrightarrow> cv_val cv ! vi = v"
    unfolding slot_def e by auto
  show ?case
  proof (cases "multi_value c \<or> k \<notin> fst ` set (drop (Suc i) es)")
    case True
    have "FindNextIndex c i = Ok i" using i s True by (simp add: FindNextIndex.simps [of c i])
    moreover have "(k, v, b) \<in> set (live (multi_value c) es)" using live_drop [of "multi_value c" i es] d True by auto
    moreover have "iter_deref c i = Ok (k, v)" using i s True by (simp add: iter_deref_def)
    moreover obtain j where "FindNextIndex c (Suc i) = Ok j" using IH by (cases "FindNextIndex c (Suc i)") simp_all
    ultimately show ?thesis using IH f i True by (simp add: for_entries.simps [of c f i] iter_inc_def d)
  next
    case False
    then have "FindNextIndex c i = FindNextIndex c (Suc i)" using i s by (simp add: FindNextIndex.simps [of c i])
    then show ?thesis using IH False by (simp add: d)
  qed
qed

lemma GetParam_holds: "holds c es \<Longrightarrow> GetParam c key = (case map_of (rev es) key of None \<Rightarrow> Err (CheckFailed ''not found in configure'') | Some (val, str) \<Rightarrow> Ok val)"
  using holds_stored [of c es key] by (auto simp: stored_def GetParam_def last_conv_nth split: option.splits)

lemma IsGenuineString_holds: "holds c es \<Longrightarrow> IsGenuineString c key = (case map_of (rev es) key of None \<Rightarrow> Err (CheckFailed ''not found in configure'') | Some (val, str) \<Rightarrow> Ok str)"
  using holds_stored [of c es key] by (auto simp: stored_def IsGenuineString_def split: option.splits)

lemma map_of_rev_live: "(key, val, str) \<in> set (live False es) \<longleftrightarrow> map_of (rev es) key = Some (val, str)"
proof (induction es)
  case (Cons e es)
  have "fst e \<notin> fst ` set es \<longleftrightarrow> map_of (rev es) (fst e) = None" by (simp add: map_of_eq_None_iff)
  then show ?case using Cons by (cases e) (auto simp: map_add_def split: option.splits)
qed simp

text \<open>The text for protobuf, when only the last value of a key is kept.\<close>

definition proto_line :: "string \<times> string \<times> bool \<Rightarrow> string" where
  "proto_line e = (case e of (key, val, str) \<Rightarrow> key @ '' : '' @ (if str then MakeProtoStringValue val else val) @ [NL])"

lemma entries_holds: "holds c es \<Longrightarrow> entries c = Ok (map (\<lambda>(key, val, str). (key, val)) (live (multi_value c) es))"
  using iterate_holds [of c es Ok "\<lambda>(key, val, str). (key, val)" 0] by (simp add: entries_def cfg_begin_def)

lemma ToProtoString_holds:
  assumes "holds c es" "\<not> multi_value c"
  shows "ToProtoString c = Ok (concat (map proto_line (live False es)))"
proof -
  have "rbind (FindNextIndex c 0) (for_entries c (\<lambda>(key, val).
      rmap (\<lambda>str. key @ '' : '' @ (if str then MakeProtoStringValue val else val) @ [NL]) (IsGenuineString c key))) =
    Ok (map proto_line (live (multi_value c) (drop 0 es)))"
    by (rule iterate_holds [OF assms(1)]) (use assms in \<open>auto simp: IsGenuineString_holds [OF assms(1)] map_of_rev_live proto_line_def\<close>)
  then show ?thesis using assms(2) by (simp add: ToProtoString_def cfg_begin_def)
qed

text \<open>Whether a value is a string is kept for a key and not for a value: with several values of a key, quotes are lost or invented.\<close>

lemma multi_value_loses_quotes:
  "ToProtoString (insert_entries [(''k'', ''a b'', True), (''k'', ''1'', False)] (new_Config True)) = Ok (''k : a b'' @ [NL] @ ''k : 1'' @ [NL])"
proof -
  let ?es = "[(''k'', ''a b'', True), (''k'', ''1'', False)]"
  let ?c = "insert_entries ?es (new_Config True)"
  have m: "multi_value ?c" by (simp only: insert_entries_multi) (simp add: new_Config_def)
  have "rbind (FindNextIndex ?c 0) (for_entries ?c (\<lambda>(key, val).
      rmap (\<lambda>str. key @ '' : '' @ (if str then MakeProtoStringValue val else val) @ [NL]) (IsGenuineString ?c key))) =
    Ok (map (\<lambda>(key, val, str). proto_line (key, val, False)) (live (multi_value ?c) (drop 0 ?es)))"
    by (rule iterate_holds [OF holds_new], unfold m IsGenuineString_holds [OF holds_new]) (auto simp: proto_line_def new_Config_def)
  then show ?thesis unfolding m by (simp add: ToProtoString_def cfg_begin_def proto_line_def new_Config_def)
qed

section \<open>Configuration files\<close>

text \<open>A line has an entry, with blanks around the equality sign, or none, and a comment or none.\<close>

datatype line = Line (entry: "(string \<times> string \<times> string \<times> string \<times> bool) option") (blanks: string) (comment: "string option")

definition white :: "char \<Rightarrow> bool" where
  "white ch \<longleftrightarrow> ch = CHR '' '' \<or> ch = TAB \<or> ch = NL \<or> ch = CR"

definition plain :: "char \<Rightarrow> bool" where
  "plain ch \<longleftrightarrow> \<not> white ch \<and> ch \<noteq> QUOTE \<and> ch \<noteq> CHR ''='' \<and> ch \<noteq> CHR ''#'' \<and> ch \<noteq> EOF_CHAR"

definition plain_word :: "string \<Rightarrow> bool" where
  "plain_word w \<longleftrightarrow> w \<noteq> [] \<and> list_all plain w"

definition string_char :: "char \<Rightarrow> bool" where
  "string_char ch \<longleftrightarrow> ch \<noteq> BACKSLASH \<and> ch \<noteq> NL \<and> ch \<noteq> CR \<and> ch \<noteq> EOF_CHAR"

definition comment_char :: "char \<Rightarrow> bool" where
  "comment_char ch \<longleftrightarrow> ch \<noteq> CHR 0x00 \<and> ch \<noteq> NL \<and> ch \<noteq> CR \<and> ch \<noteq> EOF_CHAR"

definition print_value :: "string \<Rightarrow> bool \<Rightarrow> string" where
  "print_value val str = (if str then MakeProtoStringValue val else val)"

definition print_rest :: "string \<Rightarrow> string option \<Rightarrow> string" where
  "print_rest sp co = sp @ (case co of None \<Rightarrow> [] | Some t \<Rightarrow> CHR ''#'' # t) @ [NL]"

fun print_line :: "line \<Rightarrow> string" where
  "print_line (Line None sp co) = print_rest sp co"
| "print_line (Line (Some (key, sp1, sp2, val, str)) sp co) = key @ sp1 @ ''='' @ sp2 @ print_value val str @ print_rest sp co"

definition wf_rest :: "string \<Rightarrow> string option \<Rightarrow> bool" where
  "wf_rest sp co \<longleftrightarrow> list_all white sp \<and> (case co of None \<Rightarrow> True | Some t \<Rightarrow> list_all comment_char t)"

fun wf_line :: "line \<Rightarrow> bool" where
  "wf_line (Line None sp co) \<longleftrightarrow> wf_rest sp co"
| "wf_line (Line (Some (key, sp1, sp2, val, str)) sp co) \<longleftrightarrow> wf_rest sp co \<and> plain_word key \<and> list_all white sp1 \<and> list_all white sp2 \<and>
     (if str then list_all string_char val else plain_word val)"

fun file_entries :: "line list \<Rightarrow> (string \<times> string \<times> bool) list" where
  "file_entries [] = []"
| "file_entries (Line None sp co # ls) = file_entries ls"
| "file_entries (Line (Some (key, sp1, sp2, val, str)) sp co # ls) = (key, val, str) # file_entries ls"

lemma token_white: "list_all white sp \<Longrightarrow> token_loop kNone tok (sp @ s) = token_loop kNone tok s"
  by (induction sp) (auto simp: white_def)

lemma ParseComments_text: "list_all comment_char t \<Longrightarrow> ParseComments (t @ NL # s) = NL # s"
  by (induction t) (auto simp: comment_char_def)

lemma token_plain: "list_all plain w \<Longrightarrow> w \<noteq> [] \<Longrightarrow> st \<noteq> kFinish \<Longrightarrow> token_loop st tok (w @ s) = token_loop kToken (tok\<lparr>buf := buf tok @ w\<rparr>) s"
proof (induction w arbitrary: st tok)
  case (Cons ch w)
  have "token_loop st tok ((ch # w) @ s) = token_loop kToken (tok\<lparr>buf := buf tok @ [ch]\<rparr>) (w @ s)"
    using Cons.prems by (simp add: plain_def white_def)
  then show ?case using Cons by (cases "w = []") simp_all
qed simp

lemma string_loop_escaped:
  "list_all string_char v \<Longrightarrow>
   string_loop tok (concat (map (\<lambda>ch. if ch \<noteq> QUOTE then [ch] else [BACKSLASH, QUOTE]) v) @ QUOTE # s) = Inr (tok @ v, s)"
  by (induction v arbitrary: tok) (auto simp: string_char_def)

lemma rest_none: "wf_rest sp co \<Longrightarrow> token_loop kNone tok (print_rest sp co @ s) = token_loop kNone tok s"
proof -
  assume w: "wf_rest sp co"
  then have "token_loop kNone tok (print_rest sp co @ s) = token_loop kNone tok ((case co of None \<Rightarrow> [] | Some t \<Rightarrow> CHR ''#'' # t) @ NL # s)"
    by (simp add: wf_rest_def print_rest_def token_white)
  then show ?thesis using w by (cases co) (simp_all add: wf_rest_def ParseComments_text)
qed

lemma rest_token:
  assumes w: "wf_rest sp co"
  shows "\<exists>r. token_loop kToken tok (print_rest sp co @ s) = Inr (tok, r) \<and> GetNextToken r = GetNextToken s"
proof (cases sp)
  case Nil
  then have "token_loop kToken tok (print_rest sp co @ s) = Inr (tok, NL # s)"
    using w by (cases co) (simp_all add: wf_rest_def print_rest_def ParseComments_text)
  then show ?thesis by (simp add: GetNextToken_def)
next
  case (Cons ch sp')
  then have "token_loop kToken tok (print_rest sp co @ s) = Inr (tok, print_rest sp co @ s)"
    using w by (auto simp: wf_rest_def print_rest_def white_def)
  then show ?thesis using rest_none [OF w] by (simp add: GetNextToken_def)
qed

lemma key_token:
  assumes "plain_word key" "list_all white sp1"
  shows "\<exists>r. GetNextToken (key @ sp1 @ CHR ''='' # s) = Inr (\<lparr>buf = key, is_string = False\<rparr>, r) \<and>
    GetNextToken r = Inr (\<lparr>buf = ''='', is_string = False\<rparr>, s)"
proof -
  let ?r = "sp1 @ CHR ''='' # s"
  have "GetNextToken (key @ ?r) = token_loop kToken \<lparr>buf = key, is_string = False\<rparr> ?r"
    using assms by (simp add: GetNextToken_def token_plain plain_word_def)
  also have "\<dots> = Inr (\<lparr>buf = key, is_string = False\<rparr>, ?r)" using assms(2) by (cases sp1) (auto simp: white_def)
  finally show ?thesis using token_white [OF assms(2), of _ "CHR ''='' # s"] by (simp add: GetNextToken_def)
qed

lemma value_token:
  assumes "list_all white sp2" "if str then list_all string_char val else plain_word val" "wf_rest sp co"
  shows "\<exists>r. GetNextToken (sp2 @ print_value val str @ print_rest sp co @ s) = Inr (\<lparr>buf = val, is_string = str\<rparr>, r) \<and> GetNextToken r = GetNextToken s"
proof (cases str)
  case True
  then have "GetNextToken (sp2 @ print_value val str @ print_rest sp co @ s) = Inr (\<lparr>buf = val, is_string = True\<rparr>, print_rest sp co @ s)"
    using assms string_loop_escaped [of val "[]" "print_rest sp co @ s"]
    by (simp add: GetNextToken_def token_white print_value_def ParseString_def)
  then show ?thesis using True rest_none [OF assms(3)] by (simp add: GetNextToken_def)
next
  case False
  then have "GetNextToken (sp2 @ print_value val str @ print_rest sp co @ s) = token_loop kToken \<lparr>buf = val, is_string = False\<rparr> (print_rest sp co @ s)"
    using assms by (simp add: GetNextToken_def token_white print_value_def token_plain plain_word_def)
  then show ?thesis using False rest_token [OF assms(3)] by simp
qed

lemma Load_cong: "GetNextToken s = GetNextToken s' \<Longrightarrow> LoadFromStream s c = LoadFromStream s' c"
  by (simp add: LoadFromStream.simps)

lemma Load_lines: "list_all wf_line ls \<Longrightarrow> LoadFromStream (concat (map print_line ls)) c = (insert_entries (file_entries ls) c, [])"
proof (induction ls arbitrary: c rule: file_entries.induct)
  case 1
  show ?case by (simp add: LoadFromStream.simps GetNextToken_def)
next
  case (2 sp co ls)
  have "LoadFromStream (print_rest sp co @ concat (map print_line ls)) c = LoadFromStream (concat (map print_line ls)) c"
    by (rule Load_cong) (use 2 rest_none in \<open>simp add: GetNextToken_def\<close>)
  then show ?case using 2 by simp
next
  case (3 key sp1 sp2 val str sp co ls)
  let ?s = "concat (map print_line ls)"
  obtain r1 where r1: "GetNextToken (key @ sp1 @ CHR ''='' # sp2 @ print_value val str @ print_rest sp co @ ?s) = Inr (\<lparr>buf = key, is_string = False\<rparr>, r1)"
      "GetNextToken r1 = Inr (\<lparr>buf = ''='', is_string = False\<rparr>, sp2 @ print_value val str @ print_rest sp co @ ?s)"
    using key_token 3(2) by fastforce
  obtain r2 where r2: "GetNextToken (sp2 @ print_value val str @ print_rest sp co @ ?s) = Inr (\<lparr>buf = val, is_string = str\<rparr>, r2)" "GetNextToken r2 = GetNextToken ?s"
    using value_token [of sp2 str val sp co] 3(2) by fastforce
  have "key \<noteq> []" using 3(2) by (simp add: plain_word_def)
  then show ?case using 3 r1 r2 Load_cong [OF r2(2)] by (simp add: LoadFromStream.simps [of "key @ _"])
qed

text \<open>A byte 0xFF outside a string is taken for the end of the file, and what follows is dropped without a message.\<close>

lemma byte_FF_ends_file: "LoadFromStream (EOF_CHAR # s) c = (c, [])"
  by (simp add: LoadFromStream.simps GetNextToken_def)

text \<open>
  C40: A configuration file of entries, comments and empty lines is loaded without a complaint, in both modes. The iterator then delivers the entries that
  are effective, all of them in the mode with several values and otherwise the last one of each key, in the order of the file; \<open>GetParam\<close> returns the
  last value of a key and aborts for a key that is not there; and with one value for a key the text for protobuf has one line for each effective entry, quoted as in the file.
\<close>

theorem config_file_loads:
  assumes "list_all wf_line ls"
  shows "\<exists>c. load_Config (concat (map print_line ls)) m = (c, []) \<and>
    entries c = Ok (map (\<lambda>(key, val, str). (key, val)) (live m (file_entries ls))) \<and>
    (\<forall>key. GetParam c key = (case map_of (rev (file_entries ls)) key of
        None \<Rightarrow> Err (CheckFailed ''not found in configure'') | Some (val, str) \<Rightarrow> Ok val)) \<and>
    (\<not> m \<longrightarrow> ToProtoString c = Ok (concat (map proto_line (live m (file_entries ls)))))"
proof -
  let ?c = "insert_entries (file_entries ls) (new_Config m)"
  have h: "holds ?c (file_entries ls)" by (rule holds_new)
  have "load_Config (concat (map print_line ls)) m = (?c, [])"
    using Load_lines [OF assms] by (simp add: load_Config_def cfg_Clear_def new_Config_def)
  moreover have m: "multi_value ?c = m" by (simp add: new_Config_def)
  ultimately show ?thesis using entries_holds [OF h] GetParam_holds [OF h] ToProtoString_holds [OF h] by auto
qed

definition sample_file :: "line list" where
  "sample_file = [Line (Some (''k1'', [], [], ''1243'', False)) [] None, Line None [] (Some ''comment x=1''),
     Line (Some (''k2'', '' '', '' '', ''say '' @ [QUOTE] @ ''x=1'', True)) '' '' (Some ''c''), Line (Some (''k1'', [], [], ''-1.2'', False)) [] (Some ''x'')]"

theorem config_file_loads_witness:
  "\<exists>c. load_Config (concat (map print_line sample_file)) False = (c, []) \<and> entries c = Ok [(''k2'', ''say '' @ [QUOTE] @ ''x=1''), (''k1'', ''-1.2'')] \<and>
    GetParam c ''k1'' = Ok ''-1.2''"
proof -
  have "list_all wf_line sample_file" by code_simp
  moreover have "map (\<lambda>(key, val, str). (key, val)) (live False (file_entries sample_file)) = [(''k2'', ''say '' @ [QUOTE] @ ''x=1''), (''k1'', ''-1.2'')]" by code_simp
  moreover have "map_of (rev (file_entries sample_file)) ''k1'' = Some (''-1.2'', False)" by code_simp
  ultimately show ?thesis using config_file_loads [of sample_file False] by fastforce
qed

section \<open>Command lines\<close>

record ArgParser =
  ap_file :: string
  ap_args :: string

text \<open>The file is read in pieces of 1000 bytes.\<close>

function read_pieces :: "string \<Rightarrow> string \<Rightarrow> string" where
  "read_pieces file s = (if s = [] then file else read_pieces (file @ take 1000 s) (drop 1000 s))"
  by pat_completeness auto
termination by (relation "measure (\<lambda>(file, s). length s)") auto

declare read_pieces.simps [simp del]

definition ReadFile :: "string \<Rightarrow> ArgParser \<Rightarrow> ArgParser res" where
  "ReadFile s p = (let file = read_pieces (ap_file p) s in check (file \<noteq> []) ''nothing read from'' (Ok (p\<lparr>ap_file := file\<rparr>)))"

fun ReadArgs :: "string list \<Rightarrow> ArgParser \<Rightarrow> ArgParser" where
  "ReadArgs [] p = p"
| "ReadArgs (a # argv) p = ReadArgs argv (p\<lparr>ap_args := ap_args p @ a @ '' ''\<rparr>)"

fun replace_loop :: "nat \<Rightarrow> string \<Rightarrow> string" where
  "replace_loop in_quote [] = []"
| "replace_loop in_quote (c # s) =
     (if c = CHR ''='' \<and> in_quote = 0 then CHR '':'' else c) #
     replace_loop (if c = CHR 0x27 \<or> c = QUOTE then 1 - in_quote else in_quote) s"

definition ReplaceStr :: "string \<Rightarrow> string" where
  "ReplaceStr str = replace_loop 0 str"

text \<open>\<open>parse\<close> and \<open>merge\<close> stand for the text format of protobuf; \<open>None\<close> is a text that is not accepted.\<close>

definition ParseToProto :: "(string \<Rightarrow> 'm \<Rightarrow> 'm option) \<Rightarrow> (string \<Rightarrow> 'm \<Rightarrow> 'm option) \<Rightarrow> ArgParser \<Rightarrow> 'm \<Rightarrow> 'm res" where
  "ParseToProto parse merge p proto =
     rbind (if ap_file p \<noteq> []
            then (case parse (ReplaceStr (ap_file p)) proto of None \<Rightarrow> Err (CheckFailed ''ParseFromString'') | Some m \<Rightarrow> Ok m)
            else Ok proto) (\<lambda>m.
     if ap_args p \<noteq> []
     then (case merge (ReplaceStr (ap_args p)) m of None \<Rightarrow> Err (CheckFailed (ReplaceStr (ap_args p))) | Some m' \<Rightarrow> Ok m')
     else Ok m)"

lemma read_pieces_append: "read_pieces f s = f @ s"
proof (induction f s rule: read_pieces.induct)
  case (1 f s)
  then show ?case by (simp add: read_pieces.simps [of f s])
qed

lemma ReadArgs_text: "ap_args (ReadArgs argv p) = ap_args p @ concat (map (\<lambda>a. a @ '' '') argv)"
  by (induction argv p rule: ReadArgs.induct) simp_all

text \<open>An equality sign becomes a colon when an even number of quotation marks, of either kind, is in front of it.\<close>

lemma replace_loop_nth:
  "q \<le> 1 \<Longrightarrow> length (replace_loop q s) = length s \<and> (\<forall>i < length s. replace_loop q s ! i =
     (if s ! i = CHR ''='' \<and> even (q + length (filter (\<lambda>c. c = CHR 0x27 \<or> c = QUOTE) (take i s))) then CHR '':'' else s ! i))"
proof (induction q s rule: replace_loop.induct)
  case (2 q c s)
  then have "q = 0 \<or> q = 1" by auto
  then show ?case using 2 by (auto simp: nth_Cons split: nat.splits)
qed simp

lemma ReplaceStr_nth:
  "length (ReplaceStr s) = length s"
  "i < length s \<Longrightarrow> ReplaceStr s ! i =
     (if s ! i = CHR ''='' \<and> even (length (filter (\<lambda>c. c = CHR 0x27 \<or> c = QUOTE) (take i s))) then CHR '':'' else s ! i)"
  using replace_loop_nth [of 0 s] by (simp_all add: ReplaceStr_def)

end
