(* ===== verification/Spec2Isabelle.thy ===== *)
theory Spec2Isabelle
  imports Localizer WorkloadPool SaveLoad RecordIO Sparse Factorization KVSharded KVSaveLoad Solver KVCache Worker MinibatchIter CompressedBlock RecordIOSplit CtrParsers Callbacks Sketch ConfigFile
begin

text \<open>
  A verification development for Difacto on DMLC: distributed training of linear models and of factorization machines
  over a parameter server.

  \<^bold>\<open>The program.\<close> A scheduler cuts the data files into parts and hands them to workers (\<open>src/solver\<close>,
  \<open>src/base/workload_pool.h\<close>). A worker reads its part minibatch by minibatch (\<open>src/base/minibatch_iter.h\<close>), maps the feature
  ids of a minibatch to a dense range (\<open>src/base/localizer.h\<close>), pulls the weights of these features from the servers
  (\<open>ps-lite/src/kv/kv_cache.h\<close>), evaluates the loss and its gradient (\<open>src/linear/loss.h\<close>, \<open>src/difacto/loss.h\<close>) with sparse
  products (\<open>src/base/spmv.h\<close>, \<open>spmm.h\<close>), and pushes the gradient. Each server holds a range of the keys in a store
  (\<open>ps-lite/src/kv/kv_store_sparse*.h\<close>) whose entries an updater changes (\<open>src/linear/async_sgd.h\<close>,
  \<open>src/difacto/async_sgd.h\<close>); it reports counters and saves and loads the model. Data and messages are byte streams
  (\<open>dmlc-core\<close>: serializers, memory streams, recordio).

  \<^bold>\<open>The theories,\<close> in the order in which they build on each other. Definitions carry the names of the code.

  \<^item> \<open>Prelude\<close>: code that may abort (\<open>res\<close>, \<open>check\<close> for the CHECK macros), little-endian encodings, lists.
  \<^item> \<open>RowBlock\<close> (\<open>dmlc/data.h\<close>, \<open>data/row_block.h\<close>): CSR views and containers. Pushing blocks that start at offset 0
    appends their rows, as \<open>operator[]\<close> shows them; slices with another first offset are copied wrongly.
  \<^item> \<open>ParallelSort\<close> (\<open>base/parallel_sort.h\<close>): the recursive sort, over any \<open>std::sort\<close> (locale \<open>sorter\<close>).
  \<^item> \<open>Localizer\<close> (\<open>base/localizer.h\<close>): distinct keys, counts and remapping of a minibatch; key spreading is an involution.
  \<^item> \<open>WorkloadPool\<close> (\<open>base/workload_pool.h\<close>): the pool as a state machine; every part is finished, held by one worker,
    available, or dropped by \<open>Clear\<close> or \<open>ClearRemain\<close>, in every run with failures and stragglers.
  \<^item> \<open>Serializer\<close>, \<open>SaveLoad\<close> (\<open>dmlc/serializer.h\<close>, \<open>dmlc/memory_io.h\<close>, \<open>base/string_stream.h\<close>, \<open>base/workload.h\<close>): streams
    under a common contract, and round trips of containers, row blocks and workloads.
  \<^item> \<open>RecordIO\<close> (\<open>dmlc/recordio.h\<close>, \<open>src/recordio.cc\<close>): writer, reader and chunk reader; records come back byte for byte, and
    parts of a chunk partition its records.
  \<^item> \<open>CompressedBlock\<close> (\<open>base/compressed_row_block.h\<close>, \<open>base/crb_parser.h\<close>): round trip over any compression keeping the
    promises of LZ4.
  \<^item> \<open>InputSplit\<close> (\<open>dmlc-core/src/io/input_split_base.h\<close>, \<open>.cc\<close>): the files of a data set as one stream, the byte range of a
    part, chunks and records, over any format of records (locales \<open>chunk_format\<close>, \<open>record_format\<close>). \<open>LineSplit\<close>
    (\<open>io/line_split.cc\<close>) and \<open>RecordIOSplit\<close> (\<open>io/recordio_split.cc\<close>) interpret them: the parts of a data set deliver each of
    its records once and in order.
  \<^item> \<open>StrToNum\<close> (\<open>dmlc-core/src/data/strtonum.h\<close>), \<open>LibSVM\<close> (\<open>data/libsvm_parser.h\<close>), \<open>CtrParsers\<close> (\<open>base/adfea_parser.h\<close>,
    \<open>base/criteo_parser.h\<close>): conversion of digits to numbers, and the parsers: a printed file of each of the three formats parses
    to blocks whose views show its rows. The conditions on the lines that the parsers need (weights and values everywhere or
    nowhere; single line ends for Criteo) are hypotheses, and lemmas show what happens without them.
  \<^item> \<open>ConfigFile\<close> (\<open>dmlc-core/src/config.cc\<close>, \<open>base/arg_parser.h\<close>): a printed configuration file is loaded back; the iterator and the
    text for protobuf show the effective entries.
  \<^item> \<open>MinibatchIter\<close> (\<open>base/minibatch_iter.h\<close>): an unshuffled reader delivers the examples in order, \<open>n\<close> at a time, when all
    blocks store values or none does.
  \<^item> \<open>Rounding\<close>, \<open>Sparse\<close> (\<open>base/spmv.h\<close>, \<open>base/spmm.h\<close>, \<open>ps-lite/src/base/range.h\<close>): segments of a range under any rounding
    of reals, and the parallel products, correct for every number of threads and every interleaving.
  \<^item> \<open>Evaluation\<close> (\<open>base/binary_class_evaluation.h\<close>, \<open>linear/loss.h\<close>): AUC as a count of pairs, the error of the cut-offs of
    the logistic objective, gradients.
  \<^item> \<open>Factorization\<close> (\<open>difacto/loss.h\<close>): the loss equals the factorization machine over pairs of features; \<open>CalcGrad\<close> is its
    gradient.
  \<^item> \<open>KVStore\<close>, \<open>KVSharded\<close>, \<open>KVSaveLoad\<close> (\<open>ps-lite/src/kv\<close>): the single-threaded store against the contracts \<open>puller\<close> and
    \<open>counting\<close> of an updater; the sharded store, whose threads share the updater with an unprotected counter, keeps the same
    entries (contract \<open>racing_updater\<close>); models are saved and loaded.
  \<^item> \<open>LinearUpdate\<close>, \<open>DifactoUpdate\<close>: penalty and updaters; each interprets the contracts of the store, so reported counters
    equal what the store holds, and every dynamic pull is answered.
  \<^item> \<open>OrderedMatch\<close> (\<open>ps-lite/src/base/parallel_ordered_match.h\<close>, \<open>assign_op.h\<close>, \<open>range.h\<close>, \<open>ps/shared_array.h\<close>): matching of
    sorted key-value lists by key.
  \<^item> \<open>KVCache\<close> (\<open>ps-lite/src/kv/kv_cache.h\<close>, \<open>SliceMessage\<close> of \<open>system/message.h\<close>): requests are cut along the key ranges of the
    servers and the answers are put together, in any order of arrival.
  \<^item> \<open>Filters\<close>, \<open>FilterValues\<close>, \<open>FilterChain\<close> (\<open>ps-lite/src/filter\<close>, the chain of \<open>system/remote_node.cc\<close>): key caching, compression,
    fixed-point numbers and the other message filters; what the chain of the sender encodes, the receiver decodes, message
    after message, and lossy filters stay within their error.
  \<^item> \<open>RemoteNode\<close>, \<open>Executor\<close> (\<open>system/remote_node.h\<close>, \<open>system/executor.cc\<close>): request clocks, node groups, waiting for the
    dependencies of a request, answers and callbacks. \<open>NodeGroups\<close> shows that adding nodes, also known ones again, and
    removing nodes keeps the groups sorted by key range; over runs in which a node is added once, \<open>ExecutorRuns\<close> shows that a request is processed at most once and after those it waits for,
    and \<open>Callbacks\<close> that a callback runs at most once, and after the answers of all alive members.
  \<^item> \<open>Sketch\<close> (\<open>ps-lite/src/base/countmin.h\<close>, \<open>bloom_filter.h\<close>, \<open>block_bloom_filter.h\<close>, \<open>bitmap.h\<close>, \<open>filter/frequency_filter.h\<close>): bounds of
    the counters, no false negatives, no frequent key dropped, the number of set bits.
  \<^item> \<open>Solver\<close> (\<open>src/solver\<close>): commands, dispatching, the passes of the scheduler, and the minibatch loop of a worker as a step
    relation with callbacks: bounded, never stuck, and done after \<open>3 n + 1\<close> steps.
  \<^item> \<open>Worker\<close> (\<open>difacto/async_sgd.h\<close>, \<open>linear/async_sgd.h\<close>): the nodes of the two solvers, composed from the parts above; a
    gradient is accepted in every state the store reaches after the pull it belongs to.

  \<^bold>\<open>How the code is modelled.\<close> State is passed explicitly in records. A failed CHECK, LOG(FATAL), or access outside an array
  is an error value. Keys, lengths in files and commands are words of their width; sizes of arrays are natural numbers.
  Floats are real numbers where the mathematics matters (losses, updates) and bit patterns where bytes matter (save, load,
  compression). Threads are interleavings: lists of atomic updates, or step relations. Callbacks of requests are
  definitions of their own. \<open>std::sort\<close>, random numbers, clocks, rounding, LZ4 and file listings are arguments, with the
  contract the code relies on as a hypothesis. Loops are recursive functions with a measure. \<open>load_entries\<close>, which reads
  until the stream ends, takes a bound on the number of entries, and one more than the number saved is shown to be enough.
  The loops of an input split, whose end depends on the format, and the polling loop of the scheduler, which ends when the workers
  are done, are partial functions into options; when they return is part of what is proved of them. The random draws of the difacto
  updater are one function of the cell in a run, the saturation of the feature counts is an argument of the localizer, runs of a
  store start from an empty one and answer requests, and the condition variables of the worker are guards of its steps.

  \<^bold>\<open>Interfaces.\<close> Locales state what one part needs of another: \<open>sorter\<close> (sorting), the stream contracts of \<open>Serializer\<close> and
  \<open>SaveLoad\<close>, \<open>rounding\<close> (float arithmetic), \<open>fixed_puller\<close>, \<open>puller\<close>, \<open>counting\<close>, \<open>growing\<close> and \<open>racing_updater\<close> (updaters), \<open>entry_io\<close> (entries of a model), \<open>chunk_format\<close> and
  \<open>record_format\<close> (record formats of an input split), \<open>chunk_parser\<close> (text formats), \<open>link\<close> and \<open>message_filter\<close> (the two ends of
  a connection), \<open>membership\<close> (sketches of a set). Each is interpreted on the definitions of the part that provides it.

  \<^bold>\<open>Not modelled.\<close> Network transport and the registration of nodes (\<open>van\<close>, \<open>postoffice\<close> and \<open>manager\<close> in
  \<open>ps-lite/src/system\<close>), file systems, logging, parameter reflection and vendored headers: they do input and output or
  belong to other projects. The single-file, threaded and cached splits, the queues and the threaded iterator, which pass on
  what the modelled parts produce; of the sharded store \<open>Save\<close>, \<open>Load\<close> and \<open>Clear\<close>; of the minibatch reader the choice of the parser;
  the merging and printing of progress.
\<close>

end
